(* ===== verification/Kdown_Prelude.thy ===== *)
theory Kdown_Prelude
  imports Complex_Main "HOL-Library.AList" "HOL-Library.Code_Target_Nat"
begin

text \<open>
  Shared vocabulary of the development: Rust's machine integers and their arithmetic, the two
  standard-library maps the engine uses (\<open>BTreeMap\<close> and \<open>HashMap\<close>), the outcome of an
  operation that can panic, and the generic lemmas the component theories rely on.

  A Rust \<open>u64\<close> is a natural number that never exceeds \<open>u64_max\<close>. The arithmetic the
  source writes is kept apart by name: \<open>u64_add\<close>, \<open>u64_sub\<close> and \<open>u64_mul\<close> are the plain
  operators of a release build (they wrap modulo \<open>2 ^ 64\<close>), \<open>sat_add\<close> and \<open>sat_mul\<close> are
  the \<open>saturating_\<close> methods, and \<open>checked_add\<close> and \<open>checked_mul\<close> are the \<open>checked_\<close>
  methods. \<open>saturating_sub\<close> is the truncating subtraction of \<open>nat\<close>. Every place where
  the wrap-around could be reached carries the bound that excludes it.
\<close>

section \<open>Machine integers\<close>

type_synonym u64 = nat
type_synonym u32 = nat
type_synonym u16 = nat
type_synonym byte_range = "u64 \<times> u64"

named_theorems u64_defs \<open>the definitions of the machine arithmetic\<close>
named_theorems u64_exact \<open>machine arithmetic that does not overflow is exact\<close>

definition u64_max :: u64 where
  "u64_max = 18446744073709551615"

definition u32_max :: u32 where
  "u32_max = 4294967295"

definition u64_add :: "u64 \<Rightarrow> u64 \<Rightarrow> u64" where
  [u64_defs]: "u64_add a b = (a + b) mod (u64_max + 1)"

definition u64_sub :: "u64 \<Rightarrow> u64 \<Rightarrow> u64" where
  [u64_defs]: "u64_sub a b = (a + (u64_max + 1) - b) mod (u64_max + 1)"

definition u64_mul :: "u64 \<Rightarrow> u64 \<Rightarrow> u64" where
  [u64_defs]: "u64_mul a b = (a * b) mod (u64_max + 1)"

definition sat_add :: "u64 \<Rightarrow> u64 \<Rightarrow> u64" where
  [u64_defs]: "sat_add a b = min (a + b) u64_max"

definition sat_sub :: "u64 \<Rightarrow> u64 \<Rightarrow> u64" where
  [u64_defs, simp]: "sat_sub a b = a - b"

definition sat_mul :: "u64 \<Rightarrow> u64 \<Rightarrow> u64" where
  [u64_defs]: "sat_mul a b = min (a * b) u64_max"

definition checked_add :: "u64 \<Rightarrow> u64 \<Rightarrow> u64 option" where
  [u64_defs]: "checked_add a b = (if a + b \<le> u64_max then Some (a + b) else None)"

definition checked_mul :: "u64 \<Rightarrow> u64 \<Rightarrow> u64 option" where
  [u64_defs]: "checked_mul a b = (if a * b \<le> u64_max then Some (a * b) else None)"

text \<open>\<open>div_ceil\<close> of the standard library: the quotient, plus one when there is a remainder.\<close>

definition div_ceil :: "u64 \<Rightarrow> u64 \<Rightarrow> u64" where
  "div_ceil a b = a div b + (if a mod b = 0 then 0 else 1)"

text \<open>
  \<open>Ord::clamp\<close>. The standard library asserts \<open>lo \<le> hi\<close>; the policy invariants of the
  callers establish that bound at every call (\<open>clamp_bounds\<close> takes it as its hypothesis).
\<close>

definition clamp :: "u64 \<Rightarrow> u64 \<Rightarrow> u64 \<Rightarrow> u64" where
  "clamp lo hi x = (if x < lo then lo else if hi < x then hi else x)"

lemma clamp_bounds: "lo \<le> hi \<Longrightarrow> lo \<le> clamp lo hi x \<and> clamp lo hi x \<le> hi"
  by (simp add: clamp_def)

lemma u64_add_exact [u64_exact]: "a + b \<le> u64_max \<Longrightarrow> u64_add a b = a + b"
  by (simp add: u64_add_def)

lemma u64_sub_exact [u64_exact]: "b \<le> a \<Longrightarrow> a \<le> u64_max \<Longrightarrow> u64_sub a b = a - b"
proof -
  assume "b \<le> a" "a \<le> u64_max"
  then have "a + (u64_max + 1) - b = (a - b) + (u64_max + 1)" "a - b < u64_max + 1"
    by simp_all
  then show ?thesis
    unfolding u64_sub_def by (metis mod_add_self2 mod_less)
qed

lemma u64_mul_exact [u64_exact]: "a * b \<le> u64_max \<Longrightarrow> u64_mul a b = a * b"
  by (simp add: u64_mul_def)

lemma sat_add_le_max [simp]: "sat_add a b \<le> u64_max"
  by (simp add: sat_add_def)

lemma sat_add_exact [u64_exact]: "a + b \<le> u64_max \<Longrightarrow> sat_add a b = a + b"
  by (simp add: sat_add_def)

lemma sat_add_ge: "a \<le> u64_max \<Longrightarrow> a \<le> sat_add a b"
  by (simp add: sat_add_def)

lemma u64_add_le_max [simp]: "u64_add a b \<le> u64_max"
  by (simp add: u64_add_def flip: less_Suc_eq_le)

lemma u64_max_pos [simp]: "0 < u64_max" "1 \<le> u64_max"
  by (simp_all add: u64_max_def)

lemma div_ceil_pos: "0 < a \<Longrightarrow> 0 < div_ceil a b"
  by (cases "b = 0") (auto simp: div_ceil_def div_eq_0_iff intro: ccontr)

lemma div_ceil_covers: "0 < b \<Longrightarrow> a \<le> b * div_ceil a b"
proof -
  assume "0 < b"
  have "a = b * (a div b) + a mod b" by simp
  moreover have "a mod b \<le> (if a mod b = 0 then 0 else b)"
    using \<open>0 < b\<close> by (simp add: less_imp_le)
  ultimately have "a \<le> b * (a div b) + (if a mod b = 0 then 0 else b)" by linarith
  then show ?thesis
    unfolding div_ceil_def by (simp add: distrib_left split: if_splits)
qed

section \<open>Floating point\<close>

text \<open>
  The engine uses \<open>f64\<close> for smoothed rates and token balances. The operations the source calls
  are a parameter of the definitions that use them, so that every statement holds for IEEE 754
  rounding and for exact arithmetic alike; \<open>rat_ops\<close> is the exact instance that concrete
  evaluations use. \<open>f_lit\<close> is a literal of the source, \<open>f_of_u64\<close> is \<open>x as f64\<close> and
  \<open>f_to_u64\<close> is the saturating cast \<open>x as u64\<close>.
\<close>

record 'f f64_ops =
  f_lit :: "rat \<Rightarrow> 'f"
  f_of_u64 :: "u64 \<Rightarrow> 'f"
  f_to_u64 :: "'f \<Rightarrow> u64"
  f_neg :: "'f \<Rightarrow> 'f"
  f_add :: "'f \<Rightarrow> 'f \<Rightarrow> 'f"
  f_sub :: "'f \<Rightarrow> 'f \<Rightarrow> 'f"
  f_mul :: "'f \<Rightarrow> 'f \<Rightarrow> 'f"
  f_div :: "'f \<Rightarrow> 'f \<Rightarrow> 'f"
  f_lt :: "'f \<Rightarrow> 'f \<Rightarrow> bool"
  f_le :: "'f \<Rightarrow> 'f \<Rightarrow> bool"
  f_max :: "'f \<Rightarrow> 'f \<Rightarrow> 'f"
  f_min :: "'f \<Rightarrow> 'f \<Rightarrow> 'f"

definition rat_ops :: "rat f64_ops" where
  "rat_ops = \<lparr>f_lit = (\<lambda>x. x), f_of_u64 = of_nat, f_to_u64 = (\<lambda>x. min (nat \<lfloor>x\<rfloor>) u64_max),
     f_neg = uminus, f_add = (+), f_sub = (-), f_mul = (*), f_div = (/),
     f_lt = (<), f_le = (\<le>), f_max = max, f_min = min\<rparr>"

section \<open>Operations that can panic\<close>

text \<open>
  An \<open>assert!\<close> that fails, an index out of range or an \<open>expect\<close> on \<open>None\<close> ends the
  operation; the model returns \<open>Panic\<close> for it.
\<close>

datatype 'a outcome = Panic | Done 'a

fun map_outcome :: "('a \<Rightarrow> 'b) \<Rightarrow> 'a outcome \<Rightarrow> 'b outcome" where
  "map_outcome f Panic = Panic"
| "map_outcome f (Done x) = Done (f x)"

fun and_then :: "'a outcome \<Rightarrow> ('a \<Rightarrow> 'b outcome) \<Rightarrow> 'b outcome" where
  "and_then Panic f = Panic"
| "and_then (Done x) f = f x"

section \<open>Counters over a list of holders\<close>

lemma sum_list_map_update:
  fixes f :: "'a \<Rightarrow> nat"
  assumes "i < length xs"
  shows "sum_list (map f (xs[i := y])) + f (xs ! i) = sum_list (map f xs) + f y"
proof -
  have "f (xs ! i) \<le> sum_list (map f xs)" using assms by (intro member_le_sum_list) auto
  then show ?thesis using assms by (simp add: map_update sum_list_update)
qed

lemma sum_list_map_nth_le: "i < length xs \<Longrightarrow> f (xs ! i) \<le> sum_list (map f xs)" for f :: "'a \<Rightarrow> nat"
  by (intro member_le_sum_list) auto

section \<open>BTreeMap as a list sorted by key\<close>

text \<open>
  A \<open>BTreeMap\<close> iterates in key order, so it is the list of its entries in that order. The
  operations are the ones the source calls: \<open>insert\<close>, \<open>remove\<close>, \<open>range(k..).next()\<close>,
  \<open>range(..=k).next_back()\<close>, \<open>range(..k).next_back()\<close> and \<open>range(a..=b)\<close>.
\<close>

type_synonym ('k, 'v) btree = "('k \<times> 'v) list"

definition bt_sorted :: "('k::linorder, 'v) btree \<Rightarrow> bool" where
  "bt_sorted m \<longleftrightarrow> sorted_wrt (<) (map fst m)"

fun bt_insert :: "'k::linorder \<Rightarrow> 'v \<Rightarrow> ('k, 'v) btree \<Rightarrow> ('k, 'v) btree" where
  "bt_insert k v [] = [(k, v)]"
| "bt_insert k v (p # m) =
     (if fst p < k then p # bt_insert k v m
      else if fst p = k then (k, v) # m
      else (k, v) # p # m)"

definition bt_remove :: "'k::linorder \<Rightarrow> ('k, 'v) btree \<Rightarrow> ('k, 'v) btree" where
  "bt_remove k m = filter (\<lambda>p. fst p \<noteq> k) m"

definition bt_first_ge :: "'k::linorder \<Rightarrow> ('k, 'v) btree \<Rightarrow> ('k \<times> 'v) option" where
  "bt_first_ge k m = find (\<lambda>p. k \<le> fst p) m"

definition bt_last_le :: "'k::linorder \<Rightarrow> ('k, 'v) btree \<Rightarrow> ('k \<times> 'v) option" where
  "bt_last_le k m = find (\<lambda>p. fst p \<le> k) (rev m)"

definition bt_last_lt :: "'k::linorder \<Rightarrow> ('k, 'v) btree \<Rightarrow> ('k \<times> 'v) option" where
  "bt_last_lt k m = find (\<lambda>p. fst p < k) (rev m)"

definition bt_range :: "'k::linorder \<Rightarrow> 'k \<Rightarrow> ('k, 'v) btree \<Rightarrow> ('k, 'v) btree" where
  "bt_range a b m = filter (\<lambda>p. a \<le> fst p \<and> fst p \<le> b) m"

lemma bt_sorted_Nil [simp]: "bt_sorted []"
  by (simp add: bt_sorted_def)

lemma bt_sorted_Cons: "bt_sorted (p # m) \<longleftrightarrow> (\<forall>q\<in>set m. fst p < fst q) \<and> bt_sorted m"
  by (simp add: bt_sorted_def)

lemma bt_sorted_distinct: "bt_sorted m \<Longrightarrow> distinct (map fst m)"
  by (simp add: bt_sorted_def strict_sorted_iff)

lemma set_bt_insert:
  "bt_sorted m \<Longrightarrow> set (bt_insert k v m) = insert (k, v) {p \<in> set m. fst p \<noteq> k}"
  by (induction m) (auto simp: bt_sorted_Cons)

lemma bt_sorted_insert: "bt_sorted m \<Longrightarrow> bt_sorted (bt_insert k v m)"
  by (induction m) (auto simp: bt_sorted_Cons set_bt_insert)

lemma set_bt_remove [simp]: "set (bt_remove k m) = {p \<in> set m. fst p \<noteq> k}"
  by (simp add: bt_remove_def)

lemma bt_sorted_remove: "bt_sorted m \<Longrightarrow> bt_sorted (bt_remove k m)"
  unfolding bt_remove_def by (induction m) (auto simp: bt_sorted_Cons)

lemma set_bt_range [simp]: "set (bt_range a b m) = {p \<in> set m. a \<le> fst p \<and> fst p \<le> b}"
  by (simp add: bt_range_def)

lemma bt_sorted_range: "bt_sorted m \<Longrightarrow> bt_sorted (bt_range a b m)"
  unfolding bt_range_def by (induction m) (auto simp: bt_sorted_Cons)

lemma find_rev_Cons:
  "find P (rev (x # xs)) = (case find P (rev xs) of None \<Rightarrow> (if P x then Some x else None) | Some y \<Rightarrow> Some y)"
proof -
  have "find P (ys @ [x]) = (case find P ys of None \<Rightarrow> (if P x then Some x else None) | Some y \<Rightarrow> Some y)" for ys
    by (induction ys) auto
  then show ?thesis by simp
qed

lemma find_None_ball: "find P xs = None \<longleftrightarrow> (\<forall>x\<in>set xs. \<not> P x)"
  by (auto simp: find_None_iff)

lemma find_Some_in: "find P xs = Some x \<Longrightarrow> x \<in> set xs \<and> P x"
  by (auto simp: find_Some_iff)

lemma bt_first_ge_Some:
  assumes "bt_sorted m" "bt_first_ge k m = Some p"
  shows "p \<in> set m" "k \<le> fst p" "\<And>q. q \<in> set m \<Longrightarrow> k \<le> fst q \<Longrightarrow> fst p \<le> fst q"
  using assms unfolding bt_first_ge_def
  by (induction m) (auto simp: bt_sorted_Cons split: if_splits)

lemma bt_first_ge_None:
  "bt_first_ge k m = None \<Longrightarrow> q \<in> set m \<Longrightarrow> fst q < k"
  unfolding bt_first_ge_def find_None_ball by (simp add: not_le)

lemma bt_last_le_Some:
  assumes "bt_sorted m" "bt_last_le k m = Some p"
  shows "p \<in> set m" "fst p \<le> k" "\<And>q. q \<in> set m \<Longrightarrow> fst q \<le> k \<Longrightarrow> fst q \<le> fst p"
proof -
  have "p \<in> set m \<and> fst p \<le> k \<and> (\<forall>q\<in>set m. fst q \<le> k \<longrightarrow> fst q \<le> fst p)"
    using assms unfolding bt_last_le_def
  proof (induction m)
    case (Cons x m)
    show ?case
    proof (cases "find (\<lambda>p. fst p \<le> k) (rev m)")
      case None
      with Cons.prems have "p = x" "fst x \<le> k" "\<forall>q\<in>set m. k < fst q"
        by (auto simp: find_rev_Cons find_None_ball not_le simp del: rev.simps split: if_splits)
      then show ?thesis by force
    next
      case (Some y)
      with Cons.prems have "y = p" by (simp add: find_rev_Cons del: rev.simps)
      with Cons Some show ?thesis by (auto simp: bt_sorted_Cons)
    qed
  qed simp
  then show "p \<in> set m" "fst p \<le> k" "\<And>q. q \<in> set m \<Longrightarrow> fst q \<le> k \<Longrightarrow> fst q \<le> fst p"
    by auto
qed

lemma bt_last_le_None: "bt_last_le k m = None \<Longrightarrow> q \<in> set m \<Longrightarrow> k < fst q"
  unfolding bt_last_le_def find_None_ball by (simp add: not_le)

lemma bt_last_lt_eq_le: "bt_last_lt (k::nat) m = (if k = 0 then None else bt_last_le (k - 1) m)"
  by (cases k) (auto simp: bt_last_lt_def bt_last_le_def find_None_iff less_Suc_eq_le)

section \<open>HashMap as an association list\<close>

text \<open>
  A \<open>HashMap\<close> has no specified iteration order; it is an association list with distinct keys,
  and no statement of the development depends on the order of its entries.
\<close>

type_synonym ('k, 'v) hashmap = "('k \<times> 'v) list"

abbreviation hm_get :: "('k, 'v) hashmap \<Rightarrow> 'k \<Rightarrow> 'v option" where
  "hm_get \<equiv> map_of"

abbreviation hm_insert :: "'k \<Rightarrow> 'v \<Rightarrow> ('k, 'v) hashmap \<Rightarrow> ('k, 'v) hashmap" where
  "hm_insert \<equiv> AList.update"

abbreviation hm_remove :: "'k \<Rightarrow> ('k, 'v) hashmap \<Rightarrow> ('k, 'v) hashmap" where
  "hm_remove \<equiv> AList.delete"

abbreviation hm_distinct :: "('k, 'v) hashmap \<Rightarrow> bool" where
  "hm_distinct m \<equiv> distinct (map fst m)"

lemma set_hm_remove [simp]: "set (hm_remove k m) = {p \<in> set m. fst p \<noteq> k}"
  by (auto simp: AList.delete_eq)

lemma set_hm_insert:
  "hm_distinct m \<Longrightarrow> set (hm_insert k v m) = insert (k, v) {p \<in> set m. fst p \<noteq> k}"
  by (induction m) (auto simp: rev_image_eqI)

lemma hm_get_in: "hm_get m k = Some v \<Longrightarrow> (k, v) \<in> set m"
  by (rule map_of_SomeD)

lemma hm_get_iff: "hm_distinct m \<Longrightarrow> hm_get m k = Some v \<longleftrightarrow> (k, v) \<in> set m"
  by simp

lemma sum_list_hm: "hm_distinct m \<Longrightarrow> sum_list (map f m) = sum f (set m)"
  by (metis distinct_map sum_list_distinct_conv_sum_set)

end
