(* ===== verification/Interval_Set.thy ===== *)
theory Interval_Set
  imports Kdown_Prelude
begin

text \<open>
  The normalized interval set of \<open>scheduler/interval_set.rs\<close>: a \<open>BTreeMap\<close> from the start
  of a range to its inclusive end. One definition per method, then the invariant
  (\<open>iv_wf\<close>: sorted, non-empty, no two ranges touch), the bytes a set stands for (\<open>iv_bytes\<close>),
  what every operation does to them, and the uniqueness of the normal form.

  The two locales are the contract the rest of the engine relies on: \<open>byte_accumulator\<close>
  (ranges are only added) and \<open>byte_interval_set\<close> (ranges are also removed).
\<close>

section \<open>Operations\<close>

type_synonym interval_set = "(u64, u64) btree"

definition iv_new :: interval_set where
  "iv_new = []"

text \<open>The loop of \<open>insert\<close> that absorbs every successor the new range overlaps or touches.\<close>

function iv_absorb :: "interval_set \<Rightarrow> u64 \<Rightarrow> u64 \<Rightarrow> interval_set \<times> u64 \<times> u64" where
  "iv_absorb m lo hi =
     (case bt_first_ge lo m of
        None \<Rightarrow> (m, lo, hi)
      | Some (k, v) \<Rightarrow>
          if k \<le> sat_add hi 1 then iv_absorb (bt_remove k m) (min lo k) (max hi v)
          else (m, lo, hi))"
  by pat_completeness auto

lemma length_bt_remove_less: "(k, v) \<in> set m \<Longrightarrow> length (bt_remove k m) < length m"
  unfolding bt_remove_def by (rule length_filter_less [where x = "(k, v)"]) auto

lemma bt_first_ge_mem: "bt_first_ge k m = Some p \<Longrightarrow> p \<in> set m"
  unfolding bt_first_ge_def by (simp add: find_Some_in)

termination iv_absorb
  by (relation "measure (\<lambda>(m, lo, hi). length m)") (auto dest: bt_first_ge_mem length_bt_remove_less)

declare iv_absorb.simps [simp del]

text \<open>The predecessor step of \<open>insert\<close>: the last range that starts at or before \<open>start\<close>.\<close>

definition iv_absorb_lower :: "interval_set \<Rightarrow> u64 \<Rightarrow> u64 \<Rightarrow> interval_set \<times> u64 \<times> u64" where
  "iv_absorb_lower m start end =
     (case bt_last_le start m of
        None \<Rightarrow> (m, start, end)
      | Some (k, v) \<Rightarrow>
          if sat_sub start 1 \<le> v then (bt_remove k m, min start k, max end v)
          else (m, start, end))"

definition iv_insert :: "interval_set \<Rightarrow> u64 \<Rightarrow> u64 \<Rightarrow> interval_set" where
  "iv_insert m start end =
     (if end < start then m
      else
        let (m1, lo1, hi1) = iv_absorb_lower m start end;
            (m2, lo2, hi2) = iv_absorb m1 lo1 hi1
        in bt_insert lo2 hi2 m2)"

definition iv_from_ranges :: "byte_range list \<Rightarrow> interval_set" where
  "iv_from_ranges ranges = fold (\<lambda>(a, b) s. iv_insert s a b) ranges iv_new"

text \<open>
  \<open>subtract\<close> first collects the ranges to cut (those that start inside the window, then the
  one that reaches into it from below), then cuts them one by one.
\<close>

definition iv_to_split :: "interval_set \<Rightarrow> u64 \<Rightarrow> u64 \<Rightarrow> (u64 \<times> u64) list" where
  "iv_to_split m start end =
     bt_range start end m @
     (case bt_last_lt start m of
        None \<Rightarrow> []
      | Some (k, v) \<Rightarrow> if start \<le> v then [(k, v)] else [])"

definition iv_cut :: "u64 \<Rightarrow> u64 \<Rightarrow> u64 \<times> u64 \<Rightarrow> interval_set \<Rightarrow> interval_set" where
  "iv_cut start end = (\<lambda>(k, v) m.
     let m1 = bt_remove k m;
         m2 = (if k < start then bt_insert k (start - 1) m1 else m1)
     in if end < v then bt_insert (u64_add end 1) v m2 else m2)"

definition iv_subtract :: "interval_set \<Rightarrow> u64 \<Rightarrow> u64 \<Rightarrow> interval_set" where
  "iv_subtract m start end =
     (if end < start then m else fold (iv_cut start end) (iv_to_split m start end) m)"

definition iv_contains :: "interval_set \<Rightarrow> u64 \<Rightarrow> bool" where
  "iv_contains m offset =
     (case bt_last_le offset m of
        None \<Rightarrow> False
      | Some (k, v) \<Rightarrow> k \<le> offset \<and> offset \<le> v)"

definition iv_first_gap_from :: "interval_set \<Rightarrow> u64 \<Rightarrow> u64 \<Rightarrow> u64 option" where
  "iv_first_gap_from m start limit =
     (if limit < start then None
      else if iv_contains m start then
        (case bt_last_le start m of
           None \<Rightarrow> None
         | Some (k, v) \<Rightarrow> if limit \<le> v then None else Some (u64_add v 1))
      else Some start)"

definition range_len :: "byte_range \<Rightarrow> u64" where
  "range_len = (\<lambda>(k, v). u64_add (u64_sub v k) 1)"

definition iv_len :: "interval_set \<Rightarrow> u64" where
  "iv_len m = fold (\<lambda>p acc. u64_add acc (range_len p)) m 0"

definition iv_is_empty :: "interval_set \<Rightarrow> bool" where
  "iv_is_empty m \<longleftrightarrow> m = []"

definition iv_ranges :: "interval_set \<Rightarrow> byte_range list" where
  "iv_ranges m = map (\<lambda>(k, v). (k, v)) m"

definition iv_max_end :: "interval_set \<Rightarrow> u64 option" where
  "iv_max_end m = (case map snd m of [] \<Rightarrow> None | v # vs \<Rightarrow> Some (fold max vs v))"

definition iv_covers :: "interval_set \<Rightarrow> u64 \<Rightarrow> bool" where
  "iv_covers m total_size \<longleftrightarrow> total_size = 0 \<or> iv_len m = total_size"

definition iv_union :: "interval_set \<Rightarrow> interval_set \<Rightarrow> interval_set" where
  "iv_union m other = fold (\<lambda>(k, v) s. iv_insert s k v) other m"

fun iv_gaps :: "u64 \<Rightarrow> interval_set \<Rightarrow> byte_range list \<Rightarrow> u64 \<times> byte_range list" where
  "iv_gaps next [] out = (next, out)"
| "iv_gaps next ((k, v) # m) out =
     iv_gaps (sat_add v 1) m (if next < k then out @ [(next, k - 1)] else out)"

definition iv_complement_within :: "interval_set \<Rightarrow> u64 \<Rightarrow> byte_range list" where
  "iv_complement_within m total_size =
     (let (next, out) = iv_gaps 0 m []
      in if next < total_size then out @ [(next, total_size - 1)] else out)"

section \<open>The invariant and the bytes of a set\<close>

definition iv_wf :: "interval_set \<Rightarrow> bool" where
  "iv_wf m \<longleftrightarrow> bt_sorted m
     \<and> (\<forall>p\<in>set m. fst p \<le> snd p \<and> snd p \<le> u64_max)
     \<and> (\<forall>p\<in>set m. \<forall>q\<in>set m. fst p < fst q \<longrightarrow> snd p + 1 < fst q)"

definition iv_bytes :: "interval_set \<Rightarrow> nat set" where
  "iv_bytes m = (\<Union>p\<in>set m. {fst p..snd p})"

lemma iv_wf_sorted: "iv_wf m \<Longrightarrow> bt_sorted m"
  by (simp add: iv_wf_def)

lemma iv_wf_range: "iv_wf m \<Longrightarrow> (k, v) \<in> set m \<Longrightarrow> k \<le> v \<and> v \<le> u64_max"
  by (auto simp: iv_wf_def)

lemma iv_wf_sep: "iv_wf m \<Longrightarrow> p \<in> set m \<Longrightarrow> q \<in> set m \<Longrightarrow> fst p < fst q \<Longrightarrow> snd p + 1 < fst q"
  unfolding iv_wf_def by blast

lemma iv_wf_Nil [simp]: "iv_wf []"
  by (simp add: iv_wf_def)

lemma iv_bytes_Nil [simp]: "iv_bytes [] = {}"
  by (simp add: iv_bytes_def)

lemma iv_bytes_Cons [simp]: "iv_bytes ((k, v) # m) = {k..v} \<union> iv_bytes m"
  by (simp add: iv_bytes_def)

lemma iv_bytesI: "(k, v) \<in> set m \<Longrightarrow> k \<le> x \<Longrightarrow> x \<le> v \<Longrightarrow> x \<in> iv_bytes m"
  unfolding iv_bytes_def by force

lemma iv_bytesE:
  assumes "x \<in> iv_bytes m"
  obtains k v where "(k, v) \<in> set m" "k \<le> x" "x \<le> v"
  using assms unfolding iv_bytes_def by force

lemma iv_wf_Cons:
  "iv_wf ((k, v) # m) \<longleftrightarrow> k \<le> v \<and> v \<le> u64_max \<and> (\<forall>q\<in>set m. v + 1 < fst q) \<and> iv_wf m"
  unfolding iv_wf_def bt_sorted_Cons by fastforce

lemma iv_bytes_bounded: "iv_wf m \<Longrightarrow> x \<in> iv_bytes m \<Longrightarrow> x \<le> u64_max"
  by (elim iv_bytesE) (metis iv_wf_range le_trans)

lemma iv_bytes_finite [simp]: "finite (iv_bytes m)"
  by (simp add: iv_bytes_def)

lemma iv_bytes_empty_iff: "iv_wf m \<Longrightarrow> iv_bytes m = {} \<longleftrightarrow> m = []"
  by (cases m) (auto simp: iv_wf_Cons)

text \<open>Removing an entry, and adding one that is separated from all others.\<close>

lemma iv_wf_remove: "iv_wf m \<Longrightarrow> iv_wf (bt_remove k m)"
  by (auto simp: iv_wf_def bt_sorted_remove)

lemma iv_bytes_remove:
  "iv_wf m \<Longrightarrow> (k, v) \<in> set m \<Longrightarrow> iv_bytes (bt_remove k m) = iv_bytes m - {k..v}"
proof -
  assume wf: "iv_wf m" and kv: "(k, v) \<in> set m"
  have disj: "snd p < k \<or> v < fst p" if "p \<in> set m" "fst p \<noteq> k" for p
    using iv_wf_sep [OF wf that(1) kv] iv_wf_sep [OF wf kv that(1)] that(2)
    by (cases "fst p < k") auto
  have "snd p = v" if "p \<in> set m" "fst p = k" for p
    using wf kv that by (metis bt_sorted_distinct iv_wf_sorted map_of_is_SomeI option.inject prod.collapse)
  then show ?thesis
    unfolding iv_bytes_def using disj by (auto simp: not_le) fastforce+
qed

lemma iv_wf_bt_insert:
  assumes "iv_wf m" "lo \<le> hi" "hi \<le> u64_max"
    and sep: "\<And>p. p \<in> set m \<Longrightarrow> snd p + 1 < lo \<or> hi + 1 < fst p"
  shows "iv_wf (bt_insert lo hi m)" and "iv_bytes (bt_insert lo hi m) = iv_bytes m \<union> {lo..hi}"
proof -
  have ne: "fst p \<noteq> lo" if "p \<in> set m" for p
    using sep [OF that] iv_wf_range [OF assms(1)] that assms(2) by (metis Suc_eq_plus1 Suc_lessD le_less_trans less_irrefl not_le prod.collapse)
  then have set: "set (bt_insert lo hi m) = insert (lo, hi) (set m)"
    using assms(1) by (auto simp: set_bt_insert iv_wf_def)
  show "iv_bytes (bt_insert lo hi m) = iv_bytes m \<union> {lo..hi}"
    unfolding iv_bytes_def set by auto
  have "snd p + 1 < lo" if "p \<in> set m" "fst p < lo" for p
    using sep [OF that(1)] that assms(2) by auto
  moreover have "hi + 1 < fst p" if "p \<in> set m" "lo < fst p" for p
    using sep [OF that(1)] iv_wf_range [OF assms(1), of "fst p" "snd p"] that by auto
  ultimately show "iv_wf (bt_insert lo hi m)"
    using assms(1-3) unfolding iv_wf_def set by (auto simp: bt_sorted_insert)
qed

section \<open>The contract of a set of bytes\<close>

text \<open>
  What a client of the range bookkeeping may rely on. \<open>bytes\<close> is the abstraction: the set of
  byte offsets a state stands for.
\<close>

locale byte_accumulator =
  fixes wf :: "'s \<Rightarrow> bool"
    and bytes :: "'s \<Rightarrow> nat set"
    and add_range :: "'s \<Rightarrow> u64 \<Rightarrow> u64 \<Rightarrow> 's"
  assumes wf_add: "wf s \<Longrightarrow> a \<le> b \<Longrightarrow> b \<le> u64_max \<Longrightarrow> wf (add_range s a b)"
    and bytes_add: "wf s \<Longrightarrow> a \<le> b \<Longrightarrow> b \<le> u64_max \<Longrightarrow> bytes (add_range s a b) = bytes s \<union> {a..b}"
    and bytes_finite: "wf s \<Longrightarrow> finite (bytes s)"
    and bytes_bounded: "wf s \<Longrightarrow> x \<in> bytes s \<Longrightarrow> x \<le> u64_max"
begin

definition add_all :: "'s \<Rightarrow> byte_range list \<Rightarrow> 's" where
  "add_all s rs = fold (\<lambda>(a, b) s. add_range s a b) rs s"

lemma add_all_correct:
  assumes "wf s" "\<forall>(a, b)\<in>set rs. a \<le> b \<and> b \<le> u64_max"
  shows "wf (add_all s rs) \<and> bytes (add_all s rs) = bytes s \<union> (\<Union>(a, b)\<in>set rs. {a..b})"
  using assms unfolding add_all_def
proof (induction rs arbitrary: s)
  case (Cons r rs)
  obtain a b where r: "r = (a, b)" by force
  with Cons.prems have "wf (add_range s a b)" "bytes (add_range s a b) = bytes s \<union> {a..b}"
    by (auto simp: wf_add bytes_add)
  with Cons r show ?case by auto
qed simp

lemma add_idempotent:
  assumes "wf s" "a \<le> b" "b \<le> u64_max"
  shows "bytes (add_range (add_range s a b) a b) = bytes (add_range s a b)"
  using assms by (simp add: bytes_add wf_add)

lemma add_commute:
  assumes "wf s" "a \<le> b" "b \<le> u64_max" "c \<le> d" "d \<le> u64_max"
  shows "bytes (add_range (add_range s a b) c d) = bytes (add_range (add_range s c d) a b)"
  using assms by (auto simp: bytes_add wf_add)

end

locale byte_interval_set = byte_accumulator +
  fixes remove_range :: "'a \<Rightarrow> u64 \<Rightarrow> u64 \<Rightarrow> 'a"
  assumes wf_remove: "wf s \<Longrightarrow> a \<le> b \<Longrightarrow> b \<le> u64_max \<Longrightarrow> wf (remove_range s a b)"
    and bytes_remove: "wf s \<Longrightarrow> a \<le> b \<Longrightarrow> b \<le> u64_max \<Longrightarrow> bytes (remove_range s a b) = bytes s - {a..b}"
begin

text \<open>Moving a range out of one set and into another neither loses nor duplicates a byte.\<close>

lemma move_range:
  assumes "wf p" "wf c" "a \<le> b" "b \<le> u64_max" "{a..b} \<subseteq> bytes p" "bytes p \<inter> bytes c = {}"
  shows "bytes (remove_range p a b) \<union> bytes (add_range c a b) = bytes p \<union> bytes c"
    and "bytes (remove_range p a b) \<inter> bytes (add_range c a b) = {}"
  using assms by (auto simp: bytes_add bytes_remove)

lemma remove_then_add:
  assumes "wf s" "a \<le> b" "b \<le> u64_max" "{a..b} \<subseteq> bytes s"
  shows "bytes (add_range (remove_range s a b) a b) = bytes s"
  using assms by (auto simp: bytes_add bytes_remove wf_remove)

end

section \<open>insert\<close>

lemma iv_absorb_correct:
  assumes "iv_wf m" "lo \<le> hi" "hi \<le> u64_max"
    and "\<And>p. p \<in> set m \<Longrightarrow> lo \<le> fst p \<or> snd p + 1 < lo"
    and "iv_absorb m lo hi = (m', lo', hi')"
  shows "iv_wf m' \<and> lo' = lo \<and> hi \<le> hi' \<and> hi' \<le> u64_max
    \<and> iv_bytes m' \<union> {lo'..hi'} = iv_bytes m \<union> {lo..hi}
    \<and> (\<forall>p\<in>set m'. snd p + 1 < lo' \<or> hi' + 1 < fst p)"
  using assms
proof (induction m lo hi arbitrary: m' lo' hi' rule: iv_absorb.induct)
  case (1 m lo hi)
  note unfold = iv_absorb.simps [of m lo hi]
  show ?case
  proof (cases "bt_first_ge lo m")
    case None
    with "1.prems" show ?thesis
      using bt_first_ge_None [OF None] by (fastforce simp: unfold)
  next
    case (Some p)
    obtain k v where p: "p = (k, v)" by force
    have kv: "(k, v) \<in> set m" "lo \<le> k" and least: "\<And>q. q \<in> set m \<Longrightarrow> lo \<le> fst q \<Longrightarrow> k \<le> fst q"
      using bt_first_ge_Some [OF iv_wf_sorted [OF "1.prems"(1)] Some] p by auto
    have v: "k \<le> v" "v \<le> u64_max" using iv_wf_range [OF "1.prems"(1) kv(1)] by auto
    show ?thesis
    proof (cases "k \<le> sat_add hi 1")
      case True
      then have khi: "k \<le> hi + 1" by (simp add: sat_add_def)
      have eq: "iv_absorb (bt_remove k m) (min lo k) (max hi v) = (m', lo', hi')"
        using "1.prems"(5) Some p True by (simp add: unfold)
      have lo: "min lo k = lo" using kv(2) by simp
      have pre: "iv_wf (bt_remove k m)" "min lo k \<le> max hi v" "max hi v \<le> u64_max"
          "\<And>p. p \<in> set (bt_remove k m) \<Longrightarrow> min lo k \<le> fst p \<or> snd p + 1 < min lo k"
        using "1.prems"(1-4) v by (auto simp: lo iv_wf_remove)
      have IH: "iv_wf m' \<and> lo' = lo \<and> max hi v \<le> hi' \<and> hi' \<le> u64_max
        \<and> iv_bytes m' \<union> {lo'..hi'} = iv_bytes (bt_remove k m) \<union> {lo..max hi v}
        \<and> (\<forall>p\<in>set m'. snd p + 1 < lo' \<or> hi' + 1 < fst p)"
        using "1.IH" [OF Some p [symmetric] True pre eq] unfolding lo .
      have "iv_bytes (bt_remove k m) \<union> {lo..max hi v} = iv_bytes m \<union> {lo..hi}"
        using kv khi v iv_bytesI [OF kv(1)]
        by (auto simp: iv_bytes_remove [OF "1.prems"(1) kv(1)] le_max_iff_disj)
      with IH show ?thesis by auto
    next
      case False
      then have res: "m' = m" "lo' = lo" "hi' = hi"
        using "1.prems"(5) Some p by (simp_all add: unfold)
      have "snd q + 1 < lo \<or> hi + 1 < fst q" if "q \<in> set m" for q
        using "1.prems"(4) [OF that] least [OF that] False v by (auto simp: sat_add_def min_def split: if_splits)
      with res "1.prems"(1-3) show ?thesis by auto
    qed
  qed
qed

lemma iv_absorb_lower_correct:
  assumes "iv_wf m" "start \<le> e" "e \<le> u64_max"
    and "iv_absorb_lower m start e = (m', lo, hi)"
  shows "iv_wf m' \<and> lo \<le> start \<and> e \<le> hi \<and> hi \<le> u64_max
    \<and> iv_bytes m' \<union> {lo..hi} = iv_bytes m \<union> {start..e}
    \<and> (\<forall>p\<in>set m'. lo \<le> fst p \<or> snd p + 1 < lo)"
proof (cases "bt_last_le start m")
  case None
  with assms show ?thesis
    using bt_last_le_None [OF None] by (auto simp: iv_absorb_lower_def less_imp_le)
next
  case (Some p)
  obtain k v where p: "p = (k, v)" by force
  have kv: "(k, v) \<in> set m" "k \<le> start" and greatest: "\<And>q. q \<in> set m \<Longrightarrow> fst q \<le> start \<Longrightarrow> fst q \<le> k"
    using bt_last_le_Some [OF iv_wf_sorted [OF assms(1)] Some] p by auto
  have v: "k \<le> v" "v \<le> u64_max" using iv_wf_range [OF assms(1) kv(1)] by auto
  have below: "snd q + 1 < k" if "q \<in> set m" "fst q < k" for q
    using iv_wf_sep [OF assms(1) that(1) kv(1)] that by simp
  show ?thesis
  proof (cases "start - 1 \<le> v")
    case True
    then have res: "m' = bt_remove k m" "lo = k" "hi = max e v"
      using assms(4) Some p kv(2) by (auto simp: iv_absorb_lower_def min_def split: if_splits)
    have "iv_bytes (bt_remove k m) \<union> {k..max e v} = iv_bytes m \<union> {start..e}"
      using kv v True assms(2) iv_bytesI [OF kv(1)]
      by (auto simp: iv_bytes_remove [OF assms(1) kv(1)] le_max_iff_disj)
    then show ?thesis
      using res kv v assms below by (auto simp: iv_wf_remove) (meson below not_le prod.sel)+
  next
    case False
    then have res: "m' = m" "lo = start" "hi = e"
      using assms(4) Some p by (simp_all add: iv_absorb_lower_def)
    have "start \<le> fst q \<or> snd q + 1 < start" if "q \<in> set m" for q
    proof (cases "fst q \<le> k")
      case True
      then consider "fst q < k" | "fst q = k" by linarith
      then show ?thesis
      proof cases
        case 1
        with below [OF that] kv show ?thesis by simp
      next
        case 2
        then have "snd q = v"
          using that kv(1) assms(1) by (metis bt_sorted_distinct iv_wf_sorted map_of_is_SomeI option.inject prod.collapse)
        with False show ?thesis by auto
      qed
    next
      case False
      with greatest [OF that] show ?thesis by linarith
    qed
    with res assms show ?thesis by auto
  qed
qed

lemma iv_insert_correct:
  assumes "iv_wf m" "e \<le> u64_max"
  shows "iv_wf (iv_insert m s e) \<and> iv_bytes (iv_insert m s e) = iv_bytes m \<union> {s..e}"
proof (cases "e < s")
  case True
  with assms show ?thesis by (simp add: iv_insert_def)
next
  case False
  obtain m1 lo1 hi1 where low: "iv_absorb_lower m s e = (m1, lo1, hi1)" by (metis prod_cases3)
  obtain m2 lo2 hi2 where up: "iv_absorb m1 lo1 hi1 = (m2, lo2, hi2)" by (metis prod_cases3)
  have l: "iv_wf m1" "lo1 \<le> s" "e \<le> hi1" "hi1 \<le> u64_max"
      "iv_bytes m1 \<union> {lo1..hi1} = iv_bytes m \<union> {s..e}"
      "\<forall>p\<in>set m1. lo1 \<le> fst p \<or> snd p + 1 < lo1"
    using iv_absorb_lower_correct [OF assms(1) _ assms(2) low] False by auto
  have u: "iv_wf m2" "lo2 = lo1" "hi1 \<le> hi2" "hi2 \<le> u64_max"
      "iv_bytes m2 \<union> {lo2..hi2} = iv_bytes m1 \<union> {lo1..hi1}"
      "\<forall>p\<in>set m2. snd p + 1 < lo2 \<or> hi2 + 1 < fst p"
    using iv_absorb_correct [OF l(1) _ l(4) _ up] l False by auto
  have "iv_wf (bt_insert lo2 hi2 m2)" "iv_bytes (bt_insert lo2 hi2 m2) = iv_bytes m2 \<union> {lo2..hi2}"
    using iv_wf_bt_insert [OF u(1) _ u(4)] u l False by auto
  with False low up l u show ?thesis by (simp add: iv_insert_def)
qed

lemmas iv_wf_insert = iv_insert_correct [THEN conjunct1]
lemmas iv_bytes_insert = iv_insert_correct [THEN conjunct2]

section \<open>subtract\<close>

lemma iv_cut_correct:
  assumes wf: "iv_wf m" and kv: "(k, v) \<in> set m" and "s \<le> e" "e \<le> u64_max"
    and meets: "k \<le> e" "s \<le> v"
  shows "iv_wf (iv_cut s e (k, v) m)"
    and "iv_bytes (iv_cut s e (k, v) m) = iv_bytes m - {max k s..min v e}"
    and "\<And>p. p \<in> set m \<Longrightarrow> fst p \<noteq> k \<Longrightarrow> p \<in> set (iv_cut s e (k, v) m)"
proof -
  have v: "k \<le> v" "v \<le> u64_max" using iv_wf_range [OF wf kv] by auto
  define m1 where "m1 = bt_remove k m"
  define m2 where "m2 = (if k < s then bt_insert k (s - 1) m1 else m1)"
  have sep1: "snd p + 1 < k \<or> v + 1 < fst p" if "p \<in> set m1" for p
  proof -
    from that have p: "p \<in> set m" "fst p \<noteq> k" by (auto simp: m1_def)
    then show ?thesis
      using iv_wf_sep [OF wf p(1) kv] iv_wf_sep [OF wf kv p(1)] by (cases "fst p < k") auto
  qed
  have wf1: "iv_wf m1" and b1: "iv_bytes m1 = iv_bytes m - {k..v}"
    by (simp_all add: m1_def iv_wf_remove wf iv_bytes_remove [OF wf kv])
  have sep2: "snd p + 1 < k \<or> s - 1 + 1 < fst p" if "p \<in> set m1" "k < s" for p
    using sep1 [OF that(1)] meets(2) that(2) by auto
  have wf2: "iv_wf m2" and b2: "iv_bytes m2 = iv_bytes m1 \<union> (if k < s then {k..s - 1} else {})"
    using iv_wf_bt_insert [OF wf1, of k "s - 1"] sep2 assms(3,4) wf1 by (auto simp: m2_def)
  have set2: "set m2 = set m1 \<union> (if k < s then {(k, s - 1)} else {})"
    using wf1 by (auto simp: m2_def m1_def set_bt_insert iv_wf_def)
  have cut: "iv_cut s e (k, v) m = (if e < v then bt_insert (e + 1) v m2 else m2)"
    using v by (simp add: iv_cut_def m1_def m2_def u64_exact)
  have sep3: "snd p + 1 < e + 1 \<or> v + 1 < fst p" if "p \<in> set m2" for p
    using that sep1 [of p] meets assms(3) by (auto simp: set2 split: if_splits)
  have fin: "e < v \<Longrightarrow> iv_wf (bt_insert (e + 1) v m2)"
      "e < v \<Longrightarrow> iv_bytes (bt_insert (e + 1) v m2) = iv_bytes m2 \<union> {e + 1..v}"
    using iv_wf_bt_insert [OF wf2 _ v(2), of "e + 1"] sep3 by auto
  show "iv_wf (iv_cut s e (k, v) m)" using fin wf2 by (simp add: cut)
  show "iv_bytes (iv_cut s e (k, v) m) = iv_bytes m - {max k s..min v e}"
    using fin(2) iv_bytesI [OF kv] meets by (auto simp: cut b2 b1 split: if_splits)
  show "p \<in> set (iv_cut s e (k, v) m)" if "p \<in> set m" "fst p \<noteq> k" for p
  proof -
    from that have p: "p \<in> set m2" by (simp add: set2 m1_def)
    have "fst p \<noteq> e + 1" if "e < v"
      using sep3 [OF p] iv_wf_range [OF wf2, of "fst p" "snd p"] p that by auto
    with p wf2 show ?thesis by (auto simp: cut set_bt_insert iv_wf_def)
  qed
qed

lemma iv_cut_fold:
  assumes "iv_wf m" "s \<le> e" "e \<le> u64_max" "set L \<subseteq> set m" "distinct (map fst L)"
    and "\<forall>(k, v)\<in>set L. k \<le> e \<and> s \<le> v"
  shows "iv_wf (fold (iv_cut s e) L m) \<and>
    iv_bytes (fold (iv_cut s e) L m) = iv_bytes m - (\<Union>(k, v)\<in>set L. {max k s..min v e})"
  using assms
proof (induction L arbitrary: m)
  case (Cons p L)
  obtain k v where p: "p = (k, v)" by force
  have kv: "(k, v) \<in> set m" "k \<le> e" "s \<le> v" using Cons.prems p by auto
  note cut = iv_cut_correct [OF Cons.prems(1) kv(1) Cons.prems(2,3) kv(2,3)]
  have "set L \<subseteq> set (iv_cut s e (k, v) m)"
    using Cons.prems(4,5) cut(3) p by (force simp: image_iff)
  with Cons cut p show ?case by auto
qed simp

lemma iv_to_split_correct:
  assumes wf: "iv_wf m" and "s \<le> e"
  shows "set (iv_to_split m s e) = {(k, v) \<in> set m. k \<le> e \<and> s \<le> v}"
    and "distinct (map fst (iv_to_split m s e))"
proof -
  have range: "s \<le> k \<Longrightarrow> (k, v) \<in> set m \<Longrightarrow> s \<le> v" for k v
    using iv_wf_range [OF wf] le_trans by blast
  have dr: "distinct (map fst (bt_range s e m))"
    using wf by (simp add: bt_sorted_distinct bt_sorted_range iv_wf_def)
  have low: "case bt_last_lt s m of None \<Rightarrow> \<forall>p\<in>set m. s \<le> fst p
    | Some p \<Rightarrow> p \<in> set m \<and> fst p < s \<and> (\<forall>q\<in>set m. fst q < s \<longrightarrow> q = p \<or> snd q < fst p)"
  proof (cases "bt_last_lt s m")
    case None
    then show ?thesis
      using bt_last_le_None [of "s - 1" m] by (auto simp: bt_last_lt_eq_le split: if_splits) fastforce
  next
    case (Some p)
    then have s: "0 < s" and l: "bt_last_le (s - 1) m = Some p"
      by (auto simp: bt_last_lt_eq_le split: if_splits)
    have p: "p \<in> set m" "fst p < s" "\<And>q. q \<in> set m \<Longrightarrow> fst q < s \<Longrightarrow> fst q \<le> fst p"
      using bt_last_le_Some [OF iv_wf_sorted [OF wf] l] s by auto
    have "q = p \<or> snd q < fst p" if "q \<in> set m" "fst q < s" for q
    proof (cases "fst q = fst p")
      case True
      then show ?thesis
        using that(1) p(1) wf by (metis bt_sorted_distinct iv_wf_sorted map_of_is_SomeI option.inject prod.collapse)
    next
      case False
      then show ?thesis
        using p(3) [OF that] iv_wf_sep [OF wf that(1) p(1)] by auto
    qed
    with Some p show ?thesis by auto
  qed
  show "set (iv_to_split m s e) = {(k, v) \<in> set m. k \<le> e \<and> s \<le> v}"
    using low range assms(2) unfolding iv_to_split_def
    by (cases "bt_last_lt s m") (fastforce split: if_splits)+
  show "distinct (map fst (iv_to_split m s e))"
    using low dr unfolding iv_to_split_def by (cases "bt_last_lt s m") (auto split: if_splits)
qed

lemma iv_subtract_correct:
  assumes "iv_wf m" "e \<le> u64_max"
  shows "iv_wf (iv_subtract m s e) \<and> iv_bytes (iv_subtract m s e) = iv_bytes m - {s..e}"
proof (cases "e < s")
  case True
  with assms show ?thesis by (simp add: iv_subtract_def)
next
  case False
  then have se: "s \<le> e" by simp
  note split = iv_to_split_correct [OF assms(1) se]
  have "iv_wf (iv_subtract m s e) \<and> iv_bytes (iv_subtract m s e) =
      iv_bytes m - (\<Union>(k, v)\<in>set (iv_to_split m s e). {max k s..min v e})"
    using iv_cut_fold [OF assms(1) se assms(2), of "iv_to_split m s e"] split False
    by (auto simp: iv_subtract_def)
  moreover have "iv_bytes m - (\<Union>(k, v)\<in>set (iv_to_split m s e). {max k s..min v e}) = iv_bytes m - {s..e}"
    unfolding split(1) by (auto elim: iv_bytesE)
  ultimately show ?thesis by simp
qed

lemmas iv_wf_subtract = iv_subtract_correct [THEN conjunct1]
lemmas iv_bytes_subtract = iv_subtract_correct [THEN conjunct2]

interpretation iv: byte_interval_set iv_wf iv_bytes iv_insert iv_subtract
  by unfold_locales
    (auto simp: iv_wf_insert iv_bytes_insert iv_wf_subtract iv_bytes_subtract intro: iv_bytes_bounded)

section \<open>Queries\<close>

lemma iv_contains_iff: "iv_wf m \<Longrightarrow> iv_contains m x \<longleftrightarrow> x \<in> iv_bytes m"
proof
  assume wf: "iv_wf m" and "iv_contains m x"
  then show "x \<in> iv_bytes m"
    using bt_last_le_Some(1) [OF iv_wf_sorted [OF wf]]
    by (fastforce simp: iv_contains_def intro: iv_bytesI split: option.splits)
next
  assume wf: "iv_wf m" and "x \<in> iv_bytes m"
  then obtain k v where kv: "(k, v) \<in> set m" "k \<le> x" "x \<le> v" by (auto elim: iv_bytesE)
  then obtain k' v' where last: "bt_last_le x m = Some (k', v')"
    using bt_last_le_None [of x m] by (metis fst_conv not_less option.exhaust surj_pair)
  have k': "(k', v') \<in> set m" "k' \<le> x" "k \<le> k'"
    using bt_last_le_Some [OF iv_wf_sorted [OF wf] last] kv by auto
  have "(k', v') = (k, v)"
  proof (cases "k = k'")
    case True
    then show ?thesis
      using k'(1) kv(1) wf by (metis bt_sorted_distinct iv_wf_sorted map_of_is_SomeI option.inject)
  next
    case False
    then show ?thesis using iv_wf_sep [OF wf kv(1) k'(1)] k' kv by auto
  qed
  with last kv show "iv_contains m x" by (simp add: iv_contains_def)
qed

lemma iv_wf_after_end: "iv_wf m \<Longrightarrow> (k, v) \<in> set m \<Longrightarrow> v + 1 \<notin> iv_bytes m"
proof
  assume wf: "iv_wf m" and kv: "(k, v) \<in> set m" and "v + 1 \<in> iv_bytes m"
  then obtain k' v' where k': "(k', v') \<in> set m" "k' \<le> v + 1" "v + 1 \<le> v'" by (auto elim: iv_bytesE)
  consider "k < k'" | "k' < k" | "k = k'" by linarith
  then show False
  proof cases
    case 1
    then show ?thesis using iv_wf_sep [OF wf kv k'(1)] k' by simp
  next
    case 2
    then show ?thesis using iv_wf_sep [OF wf k'(1) kv] iv_wf_range [OF wf kv] k' by simp
  next
    case 3
    then have "v = v'"
      using k'(1) kv wf by (metis bt_sorted_distinct iv_wf_sorted map_of_is_SomeI option.inject)
    with k' show ?thesis by simp
  qed
qed

lemma iv_first_gap_from_correct:
  assumes wf: "iv_wf m" and lim: "limit \<le> u64_max"
  shows "iv_first_gap_from m start limit =
    (if {start..limit} \<subseteq> iv_bytes m then None else Some (LEAST x. start \<le> x \<and> x \<notin> iv_bytes m))"
proof (cases "start \<le> limit \<and> start \<in> iv_bytes m")
  case True
  then have c: "iv_contains m start" using wf by (simp add: iv_contains_iff)
  then obtain k v where last: "bt_last_le start m = Some (k, v)" and v: "start \<le> v"
    by (auto simp: iv_contains_def split: option.splits)
  have kv: "(k, v) \<in> set m" "k \<le> start"
    using bt_last_le_Some [OF iv_wf_sorted [OF wf] last] by auto
  have cov: "{start..v} \<subseteq> iv_bytes m" using kv by (auto intro: iv_bytesI)
  have out: "v + 1 \<notin> iv_bytes m" using iv_wf_after_end [OF wf kv(1)] .
  show ?thesis
  proof (cases "limit \<le> v")
    case True
    with cov have "{start..limit} \<subseteq> iv_bytes m" by auto
    with c last True show ?thesis by (simp add: iv_first_gap_from_def)
  next
    case False
    have "(LEAST x. start \<le> x \<and> x \<notin> iv_bytes m) = v + 1"
      using cov out v by (intro Least_equality) (auto simp: not_less_eq_eq subset_iff intro: ccontr)
    moreover have "v + 1 \<in> {start..limit}" using False v by simp
    then have "\<not> {start..limit} \<subseteq> iv_bytes m" using out by blast
    moreover have "u64_add v 1 = v + 1" using False lim by (simp add: u64_exact)
    ultimately show ?thesis using c last False True by (simp add: iv_first_gap_from_def)
  qed
next
  case False
  have "(LEAST x. start \<le> x \<and> x \<notin> iv_bytes m) = start" if "start \<notin> iv_bytes m"
    using that by (intro Least_equality) auto
  moreover have "\<not> {start..limit} \<subseteq> iv_bytes m" if "start \<notin> iv_bytes m" "start \<le> limit"
    using that by (meson atLeastAtMost_iff order_refl subsetD)
  ultimately show ?thesis
    using False wf by (auto simp: iv_first_gap_from_def iv_contains_iff not_less)
qed

lemma iv_len_acc:
  assumes "iv_wf m" "acc + card (iv_bytes m) \<le> u64_max"
  shows "fold (\<lambda>p acc. u64_add acc (range_len p)) m acc = acc + card (iv_bytes m)"
  using assms
proof (induction m arbitrary: acc)
  case (Cons p m)
  obtain k v where p: "p = (k, v)" by force
  have wf: "iv_wf m" "k \<le> v" "v \<le> u64_max" and sep: "\<forall>q\<in>set m. v + 1 < fst q"
    using Cons.prems(1) p by (auto simp: iv_wf_Cons)
  have "{k..v} \<inter> iv_bytes m = {}" using sep by (force elim: iv_bytesE)
  then have card: "card (iv_bytes (p # m)) = (v - k + 1) + card (iv_bytes m)"
    using wf(2) p by (simp add: card_Un_disjoint Suc_diff_le)
  with Cons.prems(2) wf have "range_len p = v - k + 1"
    by (simp add: p range_len_def u64_exact)
  with Cons wf card show ?case by (simp add: u64_exact)
qed simp

lemma iv_len_card: "iv_wf m \<Longrightarrow> card (iv_bytes m) \<le> u64_max \<Longrightarrow> iv_len m = card (iv_bytes m)"
  unfolding iv_len_def using iv_len_acc [of m 0] by simp

lemma iv_card_le: "iv_bytes m \<subseteq> {..<n} \<Longrightarrow> card (iv_bytes m) \<le> n"
  using card_mono [of "{..<n}" "iv_bytes m"] by simp

lemma iv_len_within: "iv_wf m \<Longrightarrow> iv_bytes m \<subseteq> {..<n} \<Longrightarrow> n \<le> u64_max \<Longrightarrow> iv_len m = card (iv_bytes m)"
  using iv_card_le iv_len_card le_trans by blast

lemma iv_covers_iff:
  assumes "iv_wf m" "iv_bytes m \<subseteq> {..<n}" "n \<le> u64_max"
  shows "iv_covers m n \<longleftrightarrow> iv_bytes m = {..<n}"
proof -
  have "iv_covers m n \<longleftrightarrow> n = 0 \<or> card (iv_bytes m) = n"
    by (simp add: iv_covers_def iv_len_within [OF assms])
  also have "\<dots> \<longleftrightarrow> iv_bytes m = {..<n}"
  proof
    assume "n = 0 \<or> card (iv_bytes m) = n"
    then show "iv_bytes m = {..<n}"
      using assms(2) card_subset_eq [of "{..<n}" "iv_bytes m"] by (cases "n = 0") simp_all
  qed simp
  finally show ?thesis .
qed

section \<open>complement\<close>

lemma iv_wf_snoc:
  "iv_wf m \<Longrightarrow> k \<le> v \<Longrightarrow> v \<le> u64_max \<Longrightarrow> (\<forall>p\<in>set m. snd p + 1 < k) \<Longrightarrow> iv_wf (m @ [(k, v)])"
  by (induction m) (auto simp: iv_wf_Cons)

lemma iv_bytes_append [simp]: "iv_bytes (a @ b) = iv_bytes a \<union> iv_bytes b"
  by (simp add: iv_bytes_def)

lemma iv_gaps_correct:
  assumes "iv_wf m" "\<forall>p\<in>set m. next \<le> fst p" "next \<le> u64_max" "iv_gaps next m out = (n, res)"
  shows "\<exists>gs. res = out @ gs \<and> iv_wf gs \<and> next \<le> n \<and> n \<le> u64_max
    \<and> iv_bytes gs = {next..<n} - iv_bytes m
    \<and> (\<forall>p\<in>set gs. next \<le> fst p \<and> snd p + 1 < n \<or> n = u64_max)
    \<and> n = (if m = [] then next else sat_add (snd (last m)) 1)
    \<and> (\<forall>p\<in>set gs. next \<le> fst p)"
  using assms
proof (induction m arbitrary: "next" out)
  case Nil
  then show ?case by auto
next
  case (Cons p m)
  obtain k v where p: "p = (k, v)" by force
  have wf: "iv_wf m" "k \<le> v" "v \<le> u64_max" and sep: "\<forall>q\<in>set m. v + 1 < fst q"
    using Cons.prems(1) p by (auto simp: iv_wf_Cons)
  have nk: "next \<le> k" using Cons.prems(2) p by auto
  let ?nx = "sat_add v 1"
  let ?out = "if next < k then out @ [(next, k - 1)] else out"
  have m_nx: "\<forall>q\<in>set m. ?nx \<le> fst q" using sep by (auto simp: sat_add_def)
  obtain gs where gs: "res = ?out @ gs" "iv_wf gs" "?nx \<le> n" "n \<le> u64_max"
      "iv_bytes gs = {?nx..<n} - iv_bytes m"
      "\<forall>p\<in>set gs. ?nx \<le> fst p \<and> snd p + 1 < n \<or> n = u64_max"
      "n = (if m = [] then ?nx else sat_add (snd (last m)) 1)"
      "\<forall>p\<in>set gs. ?nx \<le> fst p"
    using Cons.IH [OF wf(1) m_nx _ Cons.prems(4) [unfolded p iv_gaps.simps]] by auto
  let ?gs = "(if next < k then [(next, k - 1)] else []) @ gs"
  have nx: "k < ?nx \<or> v = u64_max" using wf by (auto simp: sat_add_def)
  have vnx: "?nx = v + 1 \<or> v = u64_max \<and> ?nx = u64_max" using wf by (auto simp: sat_add_def)
  have empty: "gs = []" if "v = u64_max"
  proof -
    have "m = []" using sep that wf(1) iv_wf_range [OF wf(1)] by (cases m) (auto, force)
    then have "iv_bytes gs = {}" using gs(5,7) by auto
    then show ?thesis using iv_bytes_empty_iff [OF gs(2)] by simp
  qed
  have wf_gs: "iv_wf ?gs"
    using gs(2,8) nx empty nk wf by (auto simp: iv_wf_Cons)
  have m_ge: "x > v" if "x \<in> iv_bytes m" for x using that sep by (force elim: iv_bytesE)
  have bytes_gs: "iv_bytes ?gs = {next..<n} - iv_bytes (p # m)"
  proof -
    have "{next..<n} - iv_bytes (p # m) = ({next..<k} \<union> ({?nx..<n} - iv_bytes m))"
      using vnx gs(3,4) nk wf by (auto simp: p dest: m_ge)
    also have "{next..<k} = iv_bytes (if next < k then [(next, k - 1)] else [])"
      using nk by auto
    finally show ?thesis using gs(5) by simp
  qed
  have "snd q + 1 < n \<or> n = u64_max" if "q \<in> set ?gs" for q
    using that gs(3,6) nx wf vnx nk by (fastforce split: if_splits)
  moreover have "next \<le> fst q" if "q \<in> set ?gs" for q
    using that gs(8) nk wf vnx by (fastforce split: if_splits)
  moreover have "next \<le> n" using nk wf vnx gs(3,4) by auto
  ultimately show ?case
    using gs(1,4,7) wf_gs bytes_gs p by (intro exI [where x = ?gs]) auto
qed

lemma iv_fold_max: "iv_wf ((k, v) # m) \<Longrightarrow> fold max (map snd m) v = snd (last ((k, v) # m))"
proof (induction m arbitrary: k v)
  case (Cons p m)
  then have "v < snd p" by (cases p) (auto simp: iv_wf_Cons)
  moreover have "iv_wf ((fst p, snd p) # m)" using Cons.prems by (simp add: iv_wf_Cons)
  ultimately show ?case using Cons.IH [of "fst p" "snd p"] by simp
qed simp

lemma iv_max_end_last: "iv_wf m \<Longrightarrow> iv_max_end m = (if m = [] then None else Some (snd (last m)))"
  using iv_fold_max by (cases m) (auto simp: iv_max_end_def)

lemma iv_end_le_last: "iv_wf m \<Longrightarrow> p \<in> set m \<Longrightarrow> snd p \<le> snd (last m)"
proof (induction m)
  case (Cons q m)
  show ?case
  proof (cases "m = []")
    case False
    then have l: "last m \<in> set m" "iv_wf m" "snd q + 1 < fst (last m)"
      using Cons.prems(1) by (cases q; auto simp: iv_wf_Cons)+
    then have "snd q \<le> snd (last m)"
      using iv_wf_range [OF l(2), of "fst (last m)" "snd (last m)"] by simp
    then show ?thesis using Cons.IH [OF l(2)] Cons.prems(2) False by auto
  qed (use Cons.prems in simp)
qed simp

lemma iv_complement_correct:
  assumes "iv_wf m" "n \<le> u64_max"
  shows "iv_wf (iv_complement_within m n)"
    and "iv_bytes (iv_complement_within m n) =
      {..<max n (case iv_max_end m of None \<Rightarrow> 0 | Some v \<Rightarrow> sat_add v 1)} - iv_bytes m"
proof -
  obtain nx gs where g: "iv_gaps 0 m [] = (nx, gs)" by force
  have c: "iv_wf gs" "nx \<le> u64_max" "iv_bytes gs = {..<nx} - iv_bytes m"
      "nx < n \<Longrightarrow> \<forall>p\<in>set gs. snd p + 1 < nx"
      "nx = (case iv_max_end m of None \<Rightarrow> 0 | Some v \<Rightarrow> sat_add v 1)"
    using iv_gaps_correct [OF assms(1) _ _ g] assms(2)
    by (auto simp: iv_max_end_last [OF assms(1)] atLeast0LessThan)
  have above: "x \<notin> iv_bytes m" if "nx \<le> x" "nx < n" for x
  proof
    assume "x \<in> iv_bytes m"
    then obtain k v where kv: "(k, v) \<in> set m" "x \<le> v" by (auto elim: iv_bytesE)
    then have ne: "m \<noteq> []" by auto
    have "v \<le> snd (last m)"
      using iv_end_le_last [OF assms(1) kv(1)] by simp
    moreover have "nx = sat_add (snd (last m)) 1" using c(5) ne by (simp add: iv_max_end_last [OF assms(1)])
    ultimately show False using that kv assms(2) by (auto simp: sat_add_def min_def split: if_splits)
  qed
  show "iv_wf (iv_complement_within m n)"
    using c iv_wf_snoc [OF c(1), of nx "n - 1"] assms(2) g by (auto simp: iv_complement_within_def)
  show "iv_bytes (iv_complement_within m n) =
      {..<max n (case iv_max_end m of None \<Rightarrow> 0 | Some v \<Rightarrow> sat_add v 1)} - iv_bytes m"
    using c(3) above g unfolding c(5) [symmetric] iv_complement_within_def by (auto simp: max_def)
qed

lemma iv_complement_within_domain:
  assumes "iv_wf m" "n \<le> u64_max" "iv_bytes m \<subseteq> {..<n}"
  shows "iv_bytes (iv_complement_within m n) = {..<n} - iv_bytes m"
proof -
  have "(case iv_max_end m of None \<Rightarrow> 0 | Some v \<Rightarrow> sat_add v 1) \<le> n"
  proof (cases "m = []")
    case False
    then have "last m \<in> set m" "fst (last m) \<le> snd (last m)"
      using iv_wf_range [OF assms(1), of "fst (last m)" "snd (last m)"] by auto
    then have "snd (last m) \<in> iv_bytes m" by (metis iv_bytesI order_refl prod.collapse)
    with assms(3) have "snd (last m) < n" by auto
    then show ?thesis by (simp add: iv_max_end_last [OF assms(1)] False sat_add_def)
  qed (simp add: iv_max_end_def)
  then show ?thesis using iv_complement_correct(2) [OF assms(1,2)] by (simp add: max_def)
qed

lemma iv_from_ranges_correct:
  assumes "\<forall>(a, b)\<in>set rs. b \<le> u64_max"
  shows "iv_wf (iv_from_ranges rs) \<and> iv_bytes (iv_from_ranges rs) = iv_bytes rs"
proof -
  have "iv_wf m \<Longrightarrow> iv_wf (fold (\<lambda>(a, b) s. iv_insert s a b) rs m) \<and>
      iv_bytes (fold (\<lambda>(a, b) s. iv_insert s a b) rs m) = iv_bytes m \<union> iv_bytes rs" for m
    using assms by (induction rs arbitrary: m) (auto simp: iv_wf_insert iv_bytes_insert)
  then show ?thesis by (simp add: iv_from_ranges_def iv_new_def)
qed

lemma iv_union_correct:
  assumes "iv_wf m" "iv_wf other"
  shows "iv_wf (iv_union m other) \<and> iv_bytes (iv_union m other) = iv_bytes m \<union> iv_bytes other"
proof -
  have eq: "iv_union m other = iv.add_all m other"
    by (simp add: iv_union_def iv.add_all_def case_prod_beta')
  have "\<forall>(a, b)\<in>set other. a \<le> b \<and> b \<le> u64_max" using iv_wf_range [OF assms(2)] by auto
  from iv.add_all_correct [OF assms(1) this] show ?thesis
    unfolding eq iv_bytes_def [of other] by (auto simp: case_prod_beta')
qed

section \<open>The normal form is unique\<close>

lemma iv_bytes_tail: "iv_wf ((k, v) # m) \<Longrightarrow> iv_bytes m = iv_bytes ((k, v) # m) - {..v}"
  by (auto simp: iv_wf_Cons elim!: iv_bytesE) (force intro: iv_bytesI)+

lemma iv_bytes_head:
  assumes "iv_wf ((k, v) # m)"
  shows "k = (LEAST x. x \<in> iv_bytes ((k, v) # m))" "v + 1 = (LEAST x. k \<le> x \<and> x \<notin> iv_bytes ((k, v) # m))"
proof -
  have kv: "k \<le> v" and later: "\<And>x. x \<in> iv_bytes m \<Longrightarrow> v + 1 < x"
    using assms by (auto simp: iv_wf_Cons elim!: iv_bytesE)
  show "k = (LEAST x. x \<in> iv_bytes ((k, v) # m))"
    using kv later by (intro Least_equality [symmetric]) force+
  show "v + 1 = (LEAST x. k \<le> x \<and> x \<notin> iv_bytes ((k, v) # m))"
    using kv later by (intro Least_equality [symmetric]) force+
qed

lemma iv_unique: "iv_wf a \<Longrightarrow> iv_wf b \<Longrightarrow> iv_bytes a = iv_bytes b \<Longrightarrow> a = b"
proof (induction a arbitrary: b)
  case Nil
  then show ?case using iv_bytes_empty_iff [of b] by simp
next
  case (Cons p a)
  obtain k v where p: "p = (k, v)" by force
  have "b \<noteq> []" using Cons.prems iv_bytes_empty_iff [of "p # a"] by auto
  then obtain k' v' b' where b: "b = (k', v') # b'" by (metis list.exhaust surj_pair)
  note prems = Cons.prems [unfolded p b]
  have "k = k'"
    using iv_bytes_head(1) [OF prems(1)] iv_bytes_head(1) [OF prems(2)] unfolding prems(3) by simp
  moreover from this have "v = v'"
    using iv_bytes_head(2) [OF prems(1)] iv_bytes_head(2) [OF prems(2)] unfolding prems(3) by simp
  moreover from this have "iv_bytes a = iv_bytes b'"
    using iv_bytes_tail [OF prems(1)] iv_bytes_tail [OF prems(2)] prems(3) by metis
  ultimately show ?case
    using Cons.IH [of b'] Cons.prems p b by (simp add: iv_wf_Cons)
qed

section \<open>Properties\<close>

text \<open>
  \<open>IntervalSet::insert\<close> keeps the set normalized (sorted, no empty range, no two
  ranges that overlap or touch) and adds exactly the bytes of \<open>[start, end]\<close>; an inverted range
  adds nothing.
\<close>

lemma iv_insert_spec:
  assumes "iv_wf m" "e \<le> u64_max"
  shows "iv_wf (iv_insert m s e) \<and> iv_bytes (iv_insert m s e) = iv_bytes m \<union> {s..e}"
  using assms by (rule iv_insert_correct)

text \<open>
  \<open>IntervalSet::subtract\<close> keeps the set normalized and removes exactly the bytes of
  \<open>[start, end]\<close>, splitting a range that the window cuts in two.
\<close>

lemma iv_subtract_spec:
  assumes "iv_wf m" "e \<le> u64_max"
  shows "iv_wf (iv_subtract m s e) \<and> iv_bytes (iv_subtract m s e) = iv_bytes m - {s..e}"
  using assms by (rule iv_subtract_correct)

text \<open>
  \<open>complement_within(total)\<close> returns a normalized list of the uncovered bytes, below
  \<open>total\<close> or below the end of the last stored range, whichever is larger; when every stored range
  lies inside the domain this is the complement within \<open>[0, total - 1]\<close>.
\<close>

lemma iv_complement_within_spec:
  assumes "iv_wf m" "total_size \<le> u64_max"
  shows "iv_wf (iv_complement_within m total_size) \<and>
    iv_bytes (iv_complement_within m total_size) =
      {..<max total_size (case iv_max_end m of None \<Rightarrow> 0 | Some v \<Rightarrow> sat_add v 1)} - iv_bytes m \<and>
    (iv_bytes m \<subseteq> {..<total_size} \<longrightarrow>
      iv_bytes (iv_complement_within m total_size) = {..<total_size} - iv_bytes m)"
  using iv_complement_correct [OF assms] iv_complement_within_domain [OF assms] by blast

end
