(* ===== verification/Segment_Scheduler.thy ===== *)
theory Segment_Scheduler
  imports Interval_Set
begin

text \<open>
  The byte scheduler (\<open>scheduler/lease.rs\<close> and \<open>scheduler/core.rs\<close>): leases with generation
  stamps, the shaping policy, the duration-informed sizing and every operation of
  \<open>SegmentScheduler\<close>. This theory holds the definitions and the facts about single values
  (leases, policies, carve sizes); the invariant and the reachable states are in
  \<open>Scheduler_Invariant\<close>.

  Instants are nanoseconds read from the monotonic clock and are arguments of the operations that
  read it; \<open>F\<close> is the floating-point arithmetic of the duration sampler.
\<close>

section \<open>Leases\<close>

type_synonym lease_id = u64
type_synonym instant = nat

record segment_lease =
  sl_id :: lease_id
  sl_generation :: u64
  sl_start :: u64
  sl_end :: u64
  sl_next_offset :: u64

definition lease_remaining :: "segment_lease \<Rightarrow> u64" where
  "lease_remaining l =
     (if sl_end l < sl_next_offset l then 0
      else u64_add (u64_sub (sl_end l) (sl_next_offset l)) 1)"

definition lease_is_current :: "segment_lease \<Rightarrow> u64 \<Rightarrow> bool" where
  "lease_is_current l generation \<longleftrightarrow> sl_generation l = generation"

section \<open>Policy\<close>

datatype target_selector =
    TargetNone
  | Explicit u64
  | Automatic (initial_workers: u64) (oversubscription: u64)
  | DurationTarget (target_duration_ms: u64) (target_seed_size: u64)

record scheduler_policy =
  sp_min_segment_size :: u64
  sp_max_segment_size :: u64
  sp_target :: target_selector
  sp_split_threshold :: u64
  sp_ready_work_divisor :: u64

definition policy_new :: "u64 \<Rightarrow> u64 \<Rightarrow> scheduler_policy" where
  "policy_new min_segment_size max_segment_size =
     (let mn = max min_segment_size 1
      in \<lparr>sp_min_segment_size = mn,
          sp_max_segment_size = max max_segment_size mn,
          sp_target = TargetNone,
          sp_split_threshold = 256 * 1024,
          sp_ready_work_divisor = 0\<rparr>)"

definition policy_with_target :: "u64 \<Rightarrow> u64 \<Rightarrow> target_selector \<Rightarrow> u64 \<Rightarrow> scheduler_policy" where
  "policy_with_target min_segment_size max_segment_size target split_threshold =
     (policy_new min_segment_size max_segment_size)
       \<lparr>sp_target := target, sp_split_threshold := max split_threshold 1\<rparr>"

fun resolve_target :: "u64 \<Rightarrow> u64 \<Rightarrow> target_selector \<Rightarrow> u64 \<Rightarrow> u64 option" where
  "resolve_target mn mx TargetNone pending_bytes = None"
| "resolve_target mn mx (Explicit sz) pending_bytes = Some (clamp mn mx sz)"
| "resolve_target mn mx (Automatic workers over) pending_bytes =
     (let workers = sat_mul (max workers 1) (max over 1)
      in Some (clamp mn mx (div_ceil (max pending_bytes 1) (max workers 1))))"
| "resolve_target mn mx (DurationTarget ms seed_size) pending_bytes = Some (clamp mn mx seed_size)"

definition apply_ready_work_cap :: "scheduler_policy \<Rightarrow> u64 \<Rightarrow> u64 \<Rightarrow> u64" where
  "apply_ready_work_cap p want gap_len =
     (if sp_ready_work_divisor p = 0 then want
      else
        let min_in_gap = max (min (sp_min_segment_size p) gap_len) 1;
            reserve = sat_mul (sat_sub (sp_ready_work_divisor p) 1) min_in_gap
        in if reserve < gap_len then
             (let ready_cap = max (sat_sub gap_len reserve) min_in_gap in min want ready_cap)
           else want)"

definition target_len :: "scheduler_policy \<Rightarrow> u64 \<Rightarrow> u64 option \<Rightarrow> u64" where
  "target_len p gap_len resolved_target =
     (let raw = (case resolved_target of Some t \<Rightarrow> t | None \<Rightarrow> sp_max_segment_size p);
          floor = min (sp_min_segment_size p) gap_len;
          want = max (min (clamp floor (sp_max_segment_size p) raw) gap_len) floor
      in apply_ready_work_cap p want gap_len)"

section \<open>Duration-informed sizing\<close>

record 'f duration_target =
  dt_duration_ms :: u64
  dt_seed_size :: u64
  dt_ewma_bytes_per_ms :: 'f
  dt_samples :: u64
  dt_last_alloc :: u64

definition DURATION_STABLE_SAMPLES :: u64 where
  "DURATION_STABLE_SAMPLES = 3"

definition DURATION_EWMA_WEIGHT :: rat where
  "DURATION_EWMA_WEIGHT = 1 / 4"

definition duration_target_new :: "'f f64_ops \<Rightarrow> u64 \<Rightarrow> u64 \<Rightarrow> 'f duration_target" where
  "duration_target_new F duration_ms seed_size =
     \<lparr>dt_duration_ms = max duration_ms 1, dt_seed_size = seed_size,
      dt_ewma_bytes_per_ms = f_lit F 0, dt_samples = 0, dt_last_alloc = seed_size\<rparr>"

definition duration_observe :: "'f f64_ops \<Rightarrow> u64 \<Rightarrow> u64 \<Rightarrow> 'f duration_target \<Rightarrow> 'f duration_target" where
  "duration_observe F bytes held_ms d =
     (if bytes = 0 \<or> held_ms = 0 then d
      else
        let sample = f_div F (f_of_u64 F bytes) (f_of_u64 F held_ms);
            w = f_lit F DURATION_EWMA_WEIGHT;
            ewma = (if dt_samples d = 0 then sample
                    else f_add F (f_mul F (dt_ewma_bytes_per_ms d) (f_sub F (f_lit F 1) w)) (f_mul F sample w))
        in d\<lparr>dt_ewma_bytes_per_ms := ewma, dt_samples := u64_add (dt_samples d) 1\<rparr>)"

definition min_in_gap :: "u64 \<Rightarrow> u64 \<Rightarrow> u64" where
  "min_in_gap mn gap_len = max (min mn gap_len) 1"

definition duration_next_size :: "'f f64_ops \<Rightarrow> 'f duration_target \<Rightarrow> u64 \<Rightarrow> u64 \<Rightarrow> u64 \<Rightarrow> u64" where
  "duration_next_size F d mn mx gap_len =
     (if dt_samples d < DURATION_STABLE_SAMPLES then
        max (min (clamp (min mn gap_len) mx (dt_seed_size d)) gap_len) 1
      else
        let raw = f_mul F (dt_ewma_bytes_per_ms d) (f_of_u64 F (dt_duration_ms d));
            last = f_of_u64 F (dt_last_alloc d);
            stepped =
              (if f_lt F (f_mul F last (f_lit F 2)) raw then u64_mul (dt_last_alloc d) 2
               else if f_lt F raw (f_div F last (f_lit F 2)) then max (dt_last_alloc d div 2) 1
               else f_to_u64 F (f_max F raw (f_lit F 1)))
        in max (min (clamp (min mn gap_len) mx stepped) gap_len) (min_in_gap mn gap_len))"

section \<open>The scheduler\<close>

record 'f segment_scheduler =
  ss_total_size :: u64
  ss_pending :: interval_set
  ss_active :: "(lease_id, segment_lease) hashmap"
  ss_completed :: interval_set
  ss_next_lease :: lease_id
  ss_generation :: u64
  ss_policy :: scheduler_policy
  ss_resolved_target :: "u64 option"
  ss_duration_target :: "'f duration_target option"
  ss_acquired_at :: "(lease_id, instant) hashmap"

definition initial_completed :: "u64 \<Rightarrow> byte_range list \<Rightarrow> interval_set" where
  "initial_completed total_size completed_ranges =
     fold (\<lambda>(s, e) c. if total_size \<le> s then c else iv_insert c s (min e (total_size - 1)))
       completed_ranges iv_new"

definition initialize :: "'f f64_ops \<Rightarrow> u64 \<Rightarrow> byte_range list \<Rightarrow> scheduler_policy \<Rightarrow> 'f segment_scheduler" where
  "initialize F total_size completed_ranges policy =
     (let completed = initial_completed total_size completed_ranges;
          pending = (if total_size = 0 then iv_new
                     else iv_from_ranges (iv_complement_within completed total_size));
          resolved_target = resolve_target (sp_min_segment_size policy) (sp_max_segment_size policy)
                              (sp_target policy) (iv_len pending);
          duration_target = (case sp_target policy of
              DurationTarget duration_ms seed_size \<Rightarrow> Some (duration_target_new F duration_ms seed_size)
            | _ \<Rightarrow> None)
      in \<lparr>ss_total_size = total_size, ss_pending = pending, ss_active = [], ss_completed = completed,
          ss_next_lease = 1, ss_generation = 1, ss_policy = policy,
          ss_resolved_target = resolved_target, ss_duration_target = duration_target,
          ss_acquired_at = []\<rparr>)"

definition target_len_for_gap :: "'f f64_ops \<Rightarrow> 'f segment_scheduler \<Rightarrow> u64 \<Rightarrow> u64" where
  "target_len_for_gap F s gap_len =
     (let want = (case ss_duration_target s of
                    Some d \<Rightarrow> duration_next_size F d (sp_min_segment_size (ss_policy s))
                                (sp_max_segment_size (ss_policy s)) gap_len
                  | None \<Rightarrow> target_len (ss_policy s) gap_len (ss_resolved_target s))
      in apply_ready_work_cap (ss_policy s) want gap_len)"

definition sched_acquire :: "'f f64_ops \<Rightarrow> instant \<Rightarrow> 'f segment_scheduler
    \<Rightarrow> segment_lease option \<times> 'f segment_scheduler" where
  "sched_acquire F now s =
     (case iv_ranges (ss_pending s) of
        [] \<Rightarrow> (None, s)
      | gap # _ \<Rightarrow>
          let gap_len = u64_add (u64_sub (snd gap) (fst gap)) 1;
              want = target_len_for_gap F s gap_len;
              end = min (sat_sub (sat_add (fst gap) want) 1) (snd gap);
              id = ss_next_lease s;
              lease = \<lparr>sl_id = id, sl_generation = ss_generation s, sl_start = fst gap, sl_end = end,
                       sl_next_offset = fst gap\<rparr>
          in (Some lease,
              s\<lparr>ss_next_lease := u64_add (ss_next_lease s) 1,
                ss_pending := iv_subtract (ss_pending s) (fst gap) end,
                ss_active := hm_insert id lease (ss_active s),
                ss_acquired_at := hm_insert id now (ss_acquired_at s)\<rparr>))"

definition report_progress :: "lease_id \<Rightarrow> u64 \<Rightarrow> u64 \<Rightarrow> 'f segment_scheduler
    \<Rightarrow> bool \<times> 'f segment_scheduler" where
  "report_progress lease_id generation durable_through_offset s =
     (case hm_get (ss_active s) lease_id of
        None \<Rightarrow> (False, s)
      | Some lease \<Rightarrow>
          if sl_generation lease \<noteq> generation then (False, s)
          else if durable_through_offset \<le> sl_next_offset lease then (True, s)
          else (True, s\<lparr>ss_active := hm_insert lease_id
                  (lease\<lparr>sl_next_offset := min durable_through_offset (sat_add (sl_end lease) 1)\<rparr>)
                  (ss_active s)\<rparr>))"

definition lease_next_offset :: "lease_id \<Rightarrow> 'f segment_scheduler \<Rightarrow> u64 option" where
  "lease_next_offset lease_id s = map_option sl_next_offset (hm_get (ss_active s) lease_id)"

text \<open>
  A worker's progress cell is read as one coherent record (\<open>Lease_Progress\<close> shows why);
  \<open>None\<close> is an idle cell.
\<close>

record lease_record =
  pr_lease_id :: lease_id
  pr_generation :: u64
  pr_lease_start :: u64
  pr_written_through :: u64
  pr_received_through :: u64

definition absorb_cell :: "lease_record option \<Rightarrow> 'f segment_scheduler \<Rightarrow> u64 \<times> 'f segment_scheduler" where
  "absorb_cell cell s =
     (case cell of
        None \<Rightarrow> (0, s)
      | Some record \<Rightarrow>
          (case lease_next_offset (pr_lease_id record) s of
             None \<Rightarrow> (0, s)
           | Some before \<Rightarrow>
               (case report_progress (pr_lease_id record) (pr_generation record) (pr_written_through record) s of
                  (False, s') \<Rightarrow> (0, s')
                | (True, s') \<Rightarrow>
                    let after = (case lease_next_offset (pr_lease_id record) s' of Some a \<Rightarrow> a | None \<Rightarrow> before)
                    in (sat_sub after before, s'))))"

fun absorb_worker_progress :: "lease_record option list \<Rightarrow> 'f segment_scheduler
    \<Rightarrow> u64 list \<times> 'f segment_scheduler" where
  "absorb_worker_progress [] s = ([], s)"
| "absorb_worker_progress (cell # cells) s =
     (let (d, s1) = absorb_cell cell s; (ds, s2) = absorb_worker_progress cells s1 in (d # ds, s2))"

definition observe_duration_sample :: "'f f64_ops \<Rightarrow> instant \<Rightarrow> segment_lease \<Rightarrow> u64
    \<Rightarrow> 'f segment_scheduler \<Rightarrow> 'f segment_scheduler" where
  "observe_duration_sample F now lease settled_bytes s =
     (case ss_duration_target s of
        None \<Rightarrow> s
      | Some d \<Rightarrow>
          let held_ms = (case hm_get (ss_acquired_at s) (sl_id lease) of
                           None \<Rightarrow> 1
                         | Some since \<Rightarrow> ((now - since) div 1000000) mod (u64_max + 1))
          in s\<lparr>ss_duration_target :=
                 Some ((duration_observe F settled_bytes held_ms d)\<lparr>dt_last_alloc := max settled_bytes 1\<rparr>)\<rparr>)"

definition sched_complete :: "'f f64_ops \<Rightarrow> instant \<Rightarrow> lease_id \<Rightarrow> u64 \<Rightarrow> 'f segment_scheduler
    \<Rightarrow> bool \<times> 'f segment_scheduler" where
  "sched_complete F now lease_id generation s =
     (case hm_get (ss_active s) lease_id of
        None \<Rightarrow> (False, s)
      | Some lease \<Rightarrow>
          let s1 = s\<lparr>ss_active := hm_remove lease_id (ss_active s)\<rparr>
          in if sl_generation lease \<noteq> generation then
               (False, s1\<lparr>ss_active := hm_insert lease_id lease (ss_active s1)\<rparr>)
             else
               let s2 = observe_duration_sample F now lease
                          (u64_add (u64_sub (sl_end lease) (sl_start lease)) 1) s1
               in (True, s2\<lparr>ss_acquired_at := hm_remove lease_id (ss_acquired_at s2),
                            ss_completed := iv_insert (ss_completed s2) (sl_start lease) (sl_end lease)\<rparr>))"

text \<open>
  The settlement that \<open>fail\<close>, \<open>release\<close> and \<open>bump_generation\<close> share: the unconsumed tail of a
  lease returns to pending, the acknowledged prefix is completed.
\<close>

definition requeue :: "segment_lease \<Rightarrow> 'f segment_scheduler \<Rightarrow> 'f segment_scheduler" where
  "requeue lease s =
     (let s1 = (if sl_next_offset lease \<le> sl_end lease
                then s\<lparr>ss_pending := iv_insert (ss_pending s) (sl_next_offset lease) (sl_end lease)\<rparr> else s)
      in if sl_start lease < sl_next_offset lease
         then s1\<lparr>ss_completed := iv_insert (ss_completed s1) (sl_start lease) (u64_sub (sl_next_offset lease) 1)\<rparr>
         else s1)"

definition sched_fail :: "'f f64_ops \<Rightarrow> instant \<Rightarrow> lease_id \<Rightarrow> u64 \<Rightarrow> 'f segment_scheduler
    \<Rightarrow> bool \<times> 'f segment_scheduler" where
  "sched_fail F now lease_id generation s =
     (case hm_get (ss_active s) lease_id of
        None \<Rightarrow> (False, s)
      | Some lease \<Rightarrow>
          let s1 = s\<lparr>ss_active := hm_remove lease_id (ss_active s)\<rparr>
          in if sl_generation lease \<noteq> generation then
               (False, s1\<lparr>ss_active := hm_insert lease_id lease (ss_active s1)\<rparr>)
             else
               let s2 = observe_duration_sample F now lease
                          (sat_sub (sl_next_offset lease) (sl_start lease)) s1;
                   s3 = s2\<lparr>ss_acquired_at := hm_remove lease_id (ss_acquired_at s2)\<rparr>
               in (True, requeue lease s3))"

definition sched_release :: "lease_id \<Rightarrow> u64 \<Rightarrow> 'f segment_scheduler \<Rightarrow> bool \<times> 'f segment_scheduler" where
  "sched_release lease_id generation s =
     (case hm_get (ss_active s) lease_id of
        None \<Rightarrow> (False, s)
      | Some lease \<Rightarrow>
          let s1 = s\<lparr>ss_active := hm_remove lease_id (ss_active s),
                     ss_acquired_at := hm_remove lease_id (ss_acquired_at s)\<rparr>
          in if sl_generation lease \<noteq> generation then
               (False, s1\<lparr>ss_active := hm_insert lease_id lease (ss_active s1)\<rparr>)
             else (True, requeue lease s1))"

definition split_tail :: "instant \<Rightarrow> lease_id \<Rightarrow> u64 \<Rightarrow> u64 \<Rightarrow> u64 \<Rightarrow> 'f segment_scheduler
    \<Rightarrow> segment_lease option \<times> 'f segment_scheduler" where
  "split_tail now lease_id generation min_tail received_through s =
     (let min_tail = max min_tail 1
      in case hm_get (ss_active s) lease_id of
        None \<Rightarrow> (None, s)
      | Some lease \<Rightarrow>
          if sl_generation lease \<noteq> generation then (None, s)
          else
            let tail_start = max (sl_next_offset lease) received_through;
                tail_len = sat_add (sat_sub (sl_end lease) tail_start) 1
            in if tail_len \<le> min_tail then (None, s)
               else
                 let take = clamp 1 (tail_len - 1) (tail_len div 2);
                     new_start = u64_add (u64_sub (sl_end lease) take) 1;
                     original = lease\<lparr>sl_end := u64_sub new_start 1\<rparr>;
                     id = ss_next_lease s;
                     split = \<lparr>sl_id = id, sl_generation = ss_generation s, sl_start = new_start,
                              sl_end = sl_end lease, sl_next_offset = new_start\<rparr>;
                     resized = (case hm_get (ss_acquired_at s) lease_id of
                                  None \<Rightarrow> ss_acquired_at s
                                | Some _ \<Rightarrow> hm_insert lease_id now (ss_acquired_at s))
                 in (Some split,
                     s\<lparr>ss_active := hm_insert id split (hm_insert lease_id original (ss_active s)),
                       ss_duration_target := map_option
                         (\<lambda>d. d\<lparr>dt_last_alloc := u64_add (u64_sub (sl_end original) (sl_start original)) 1\<rparr>)
                         (ss_duration_target s),
                       ss_next_lease := u64_add (ss_next_lease s) 1,
                       ss_acquired_at := hm_insert id now resized\<rparr>))"

definition bump_generation :: "'f segment_scheduler \<Rightarrow> u64 \<times> 'f segment_scheduler" where
  "bump_generation s =
     (let s1 = s\<lparr>ss_generation := u64_add (ss_generation s) 1\<rparr>;
          s2 = fold (\<lambda>(id, lease) t. requeue lease (t\<lparr>ss_active := hm_remove id (ss_active t)\<rparr>))
                 (ss_active s1) s1
      in (ss_generation s2, s2))"

definition set_ready_work_divisor :: "u64 \<Rightarrow> 'f segment_scheduler \<Rightarrow> 'f segment_scheduler" where
  "set_ready_work_divisor divisor s = s\<lparr>ss_policy := (ss_policy s)\<lparr>sp_ready_work_divisor := divisor\<rparr>\<rparr>"

section \<open>Queries\<close>

definition sched_lease_end :: "lease_id \<Rightarrow> u64 \<Rightarrow> 'f segment_scheduler \<Rightarrow> u64 option" where
  "sched_lease_end lease_id generation s =
     (case hm_get (ss_active s) lease_id of
        None \<Rightarrow> None
      | Some lease \<Rightarrow> if sl_generation lease \<noteq> generation then None else Some (sl_end lease))"

definition has_active :: "'f segment_scheduler \<Rightarrow> bool" where
  "has_active s \<longleftrightarrow> ss_active s \<noteq> []"

definition is_finished :: "'f segment_scheduler \<Rightarrow> bool" where
  "is_finished s \<longleftrightarrow> iv_is_empty (ss_pending s) \<and> ss_active s = []"

text \<open>\<open>max_by_key\<close> keeps the last of several maximal elements in iteration order.\<close>

definition max_by_remaining :: "segment_lease list \<Rightarrow> segment_lease option" where
  "max_by_remaining ls =
     fold (\<lambda>l best. case best of
              None \<Rightarrow> Some l
            | Some b \<Rightarrow> if lease_remaining b \<le> lease_remaining l then Some l else Some b) ls None"

definition largest_splittable :: "u64 \<Rightarrow> 'f segment_scheduler \<Rightarrow> segment_lease option" where
  "largest_splittable min_tail s =
     max_by_remaining (filter (\<lambda>l. max min_tail 1 < lease_remaining l) (map snd (ss_active s)))"

definition active_leases :: "'f segment_scheduler \<Rightarrow> segment_lease list" where
  "active_leases s = sort_key sl_start (map snd (ss_active s))"

definition sum_u64 :: "u64 list \<Rightarrow> u64" where
  "sum_u64 xs = fold (\<lambda>x acc. u64_add acc x) xs 0"

definition active_bytes :: "'f segment_scheduler \<Rightarrow> u64" where
  "active_bytes s = sum_u64 (map lease_remaining (map snd (ss_active s)))"

definition pending_bytes :: "'f segment_scheduler \<Rightarrow> u64" where
  "pending_bytes s = iv_len (ss_pending s)"

definition completed_ranges :: "'f segment_scheduler \<Rightarrow> byte_range list" where
  "completed_ranges s = iv_ranges (ss_completed s)"

definition settled_ranges :: "'f segment_scheduler \<Rightarrow> byte_range list" where
  "settled_ranges s =
     iv_ranges (fold (\<lambda>l settled. if sl_start l < sl_next_offset l
                                  then iv_insert settled (sl_start l) (sat_sub (sl_next_offset l) 1)
                                  else settled)
                  (map snd (ss_active s)) (ss_completed s))"

definition is_complete :: "'f segment_scheduler \<Rightarrow> bool" where
  "is_complete s \<longleftrightarrow> ss_total_size s = 0 \<or> iv_len (ss_completed s) = ss_total_size s"

text \<open>The engine's own runtime check of its accounting.\<close>

definition ranges_meet :: "byte_range \<Rightarrow> byte_range \<Rightarrow> bool" where
  "ranges_meet = (\<lambda>(s, e) (cs, ce). s \<le> ce \<and> cs \<le> e)"

definition invariants_hold :: "'f segment_scheduler \<Rightarrow> bool" where
  "invariants_hold s =
     (if ss_total_size s = 0 then
        iv_is_empty (ss_pending s) \<and> ss_active s = [] \<and> iv_is_empty (ss_completed s)
      else if \<exists>p\<in>set (iv_ranges (ss_pending s)). \<exists>c\<in>set (iv_ranges (ss_completed s)). ranges_meet p c then False
      else if \<exists>l\<in>set (map snd (ss_active s)).
          sl_next_offset l \<le> sl_end l \<and>
            ((\<exists>c\<in>set (iv_ranges (ss_completed s)). ranges_meet (sl_next_offset l, sl_end l) c) \<or>
             (\<exists>p\<in>set (iv_ranges (ss_pending s)). ranges_meet (sl_next_offset l, sl_end l) p))
          \<or> ss_total_size s \<le> sl_end l then False
      else
        u64_add (u64_add (u64_add (iv_len (ss_completed s)) (active_bytes s)) (pending_bytes s))
          (sum_u64 (map (\<lambda>l. sat_sub (sl_next_offset l) (sl_start l)) (map snd (ss_active s))))
        = ss_total_size s)"

section \<open>Carve sizes\<close>

text \<open>The policy bounds every constructor of \<open>SchedulerPolicy\<close> establishes.\<close>

definition policy_ok :: "scheduler_policy \<Rightarrow> bool" where
  "policy_ok p \<longleftrightarrow> 1 \<le> sp_min_segment_size p \<and> sp_min_segment_size p \<le> sp_max_segment_size p"

lemma policy_ok_new: "policy_ok (policy_new mn mx)"
  by (simp add: policy_ok_def policy_new_def Let_def)

lemma policy_ok_with_target: "policy_ok (policy_with_target mn mx t th)"
  by (simp add: policy_ok_def policy_with_target_def policy_new_def Let_def)

lemma ready_cap_bounds:
  assumes "lo \<le> want" "lo \<le> max (min (sp_min_segment_size p) gap_len) 1"
  shows "lo \<le> apply_ready_work_cap p want gap_len \<and> apply_ready_work_cap p want gap_len \<le> want"
  using assms by (auto simp: apply_ready_work_cap_def Let_def intro: max.coboundedI2)

lemma carve_bounds:
  "lo \<le> hi \<Longrightarrow> lo \<le> gap_len \<Longrightarrow> y \<le> lo \<Longrightarrow>
   lo \<le> max (min (clamp lo hi x) gap_len) y \<and> max (min (clamp lo hi x) gap_len) y \<le> min hi gap_len"
  using clamp_bounds [of lo hi x] by (auto simp: max_def min_def)

lemma target_len_bounds:
  assumes "policy_ok p" "0 < gap_len"
  shows "min (sp_min_segment_size p) gap_len \<le> target_len p gap_len r
    \<and> target_len p gap_len r \<le> min (sp_max_segment_size p) gap_len"
proof -
  let ?floor = "min (sp_min_segment_size p) gap_len"
  define want where
    "want = max (min (clamp ?floor (sp_max_segment_size p)
      (case r of Some t \<Rightarrow> t | None \<Rightarrow> sp_max_segment_size p)) gap_len) ?floor"
  have "?floor \<le> sp_max_segment_size p" using assms by (auto simp: policy_ok_def)
  then have "?floor \<le> want" "want \<le> min (sp_max_segment_size p) gap_len"
    using carve_bounds [of ?floor "sp_max_segment_size p" gap_len ?floor] by (simp_all add: want_def)
  moreover have "target_len p gap_len r = apply_ready_work_cap p want gap_len"
    by (simp add: target_len_def want_def Let_def)
  ultimately show ?thesis using ready_cap_bounds [of ?floor want p gap_len] by auto
qed

lemma duration_next_size_bounds:
  assumes "1 \<le> mn" "mn \<le> mx" "0 < gap_len"
  shows "min mn gap_len \<le> duration_next_size F d mn mx gap_len
    \<and> duration_next_size F d mn mx gap_len \<le> min mx gap_len"
proof -
  have lo: "min mn gap_len \<le> mx" "1 \<le> min mn gap_len" using assms by auto
  note bounds = carve_bounds [OF lo(1) min.cobounded2]
  show ?thesis
    unfolding duration_next_size_def Let_def min_in_gap_def
    using bounds [OF lo(2)] bounds [of "max (min mn gap_len) 1"] lo(2) by (auto simp: max_absorb1)
qed

lemma target_len_for_gap_bounds:
  assumes "policy_ok (ss_policy s)" "0 < gap_len"
  shows "min (sp_min_segment_size (ss_policy s)) gap_len \<le> target_len_for_gap F s gap_len
    \<and> target_len_for_gap F s gap_len \<le> min (sp_max_segment_size (ss_policy s)) gap_len"
proof -
  let ?p = "ss_policy s"
  define want where "want = (case ss_duration_target s of
      Some d \<Rightarrow> duration_next_size F d (sp_min_segment_size ?p) (sp_max_segment_size ?p) gap_len
    | None \<Rightarrow> target_len ?p gap_len (ss_resolved_target s))"
  have "min (sp_min_segment_size ?p) gap_len \<le> want \<and> want \<le> min (sp_max_segment_size ?p) gap_len"
  proof (cases "ss_duration_target s")
    case None
    then show ?thesis using target_len_bounds [OF assms] by (simp add: want_def)
  next
    case (Some d)
    then show ?thesis
      using duration_next_size_bounds [of "sp_min_segment_size ?p" "sp_max_segment_size ?p" gap_len F d] assms
      by (simp add: want_def policy_ok_def)
  qed
  moreover have "target_len_for_gap F s gap_len = apply_ready_work_cap ?p want gap_len"
    by (simp add: target_len_for_gap_def want_def)
  ultimately show ?thesis
    using ready_cap_bounds [of "min (sp_min_segment_size ?p) gap_len" want ?p gap_len] by auto
qed

end
