(* ===== verification/Scheduler_Invariant.thy ===== *)
theory Scheduler_Invariant
  imports Segment_Scheduler
begin

text \<open>
  The accounting invariant of the scheduler, that every operation preserves it, and what holds in
  every reachable state: each byte of the domain is pending, completed or owned by exactly one
  lease.
\<close>

section \<open>The invariant\<close>

definition lease_span :: "segment_lease \<Rightarrow> nat set" where
  "lease_span l = {sl_start l..sl_end l}"

definition lease_ok :: "u64 \<Rightarrow> u64 \<Rightarrow> u64 \<Rightarrow> lease_id \<times> segment_lease \<Rightarrow> bool" where
  "lease_ok total_size generation next_id = (\<lambda>(id, l).
     sl_id l = id \<and> id < next_id \<and> sl_generation l = generation \<and> sl_start l \<le> sl_end l
     \<and> sl_start l \<le> sl_next_offset l \<and> sl_next_offset l \<le> sl_end l + 1 \<and> sl_end l < total_size)"

text \<open>
  Bytes of pending (\<open>P\<close>), completed (\<open>C\<close>) and of the leases (\<open>L\<close>, keyed by lease id) partition
  the domain.
\<close>

definition byte_partition :: "nat \<Rightarrow> nat set \<Rightarrow> nat set \<Rightarrow> (lease_id \<times> segment_lease) set \<Rightarrow> bool" where
  "byte_partition n P C L \<longleftrightarrow>
     P \<inter> C = {}
     \<and> (\<forall>p\<in>L. lease_span (snd p) \<inter> (P \<union> C) = {})
     \<and> (\<forall>p\<in>L. \<forall>q\<in>L. fst p \<noteq> fst q \<longrightarrow> lease_span (snd p) \<inter> lease_span (snd q) = {})
     \<and> P \<union> C \<union> (\<Union>p\<in>L. lease_span (snd p)) = {..<n}"

text \<open>\<open>g\<close> is the generation of the active leases; between operations it is the scheduler's own.\<close>

definition sched_inv_gen :: "u64 \<Rightarrow> 'f segment_scheduler \<Rightarrow> bool" where
  "sched_inv_gen g s \<longleftrightarrow>
     ss_total_size s \<le> u64_max \<and> policy_ok (ss_policy s)
     \<and> iv_wf (ss_pending s) \<and> iv_wf (ss_completed s) \<and> hm_distinct (ss_active s)
     \<and> (\<forall>p\<in>set (ss_active s). lease_ok (ss_total_size s) g (ss_next_lease s) p)
     \<and> byte_partition (ss_total_size s) (iv_bytes (ss_pending s)) (iv_bytes (ss_completed s))
         (set (ss_active s))"

definition sched_inv :: "'f segment_scheduler \<Rightarrow> bool" where
  "sched_inv s \<longleftrightarrow> sched_inv_gen (ss_generation s) s"

lemmas inv_defs = sched_inv_gen_def byte_partition_def lease_ok_def

lemma sched_inv_bytes:
  assumes "sched_inv_gen g s"
  shows "iv_bytes (ss_pending s) \<subseteq> {..<ss_total_size s}" "iv_bytes (ss_completed s) \<subseteq> {..<ss_total_size s}"
  using assms by (auto simp: sched_inv_gen_def byte_partition_def)

lemma sched_inv_lease:
  assumes "sched_inv_gen g s" "hm_get (ss_active s) i = Some l"
  shows "lease_ok (ss_total_size s) g (ss_next_lease s) (i, l)"
  using assms hm_get_in by (auto simp: sched_inv_gen_def)

lemma hm_put_back: "hm_distinct m \<Longrightarrow> hm_get m k = Some v \<Longrightarrow>
    set (hm_insert k v (hm_remove k m)) = set m \<and> hm_distinct (hm_insert k v (hm_remove k m))"
proof -
  assume d: "hm_distinct m" and g: "hm_get m k = Some v"
  have "distinct (map fst (AList.delete k m))" using d by (rule AList.distinct_delete)
  then have "set (hm_insert k v (hm_remove k m)) = insert (k, v) {p \<in> set m. fst p \<noteq> k}"
    by (simp add: set_hm_insert)
  also have "\<dots> = set m" using d g by (force simp: hm_get_iff eq_key_imp_eq_value)
  finally show ?thesis using d by (simp add: AList.distinct_update AList.distinct_delete)
qed

lemma partition_disjoint:
  "byte_partition n P C L \<Longrightarrow> p \<in> L \<Longrightarrow> q \<in> L \<Longrightarrow> fst p \<noteq> fst q \<Longrightarrow>
   lease_span (snd p) \<inter> lease_span (snd q) = {}"
  unfolding byte_partition_def by blast

lemma partition_free:
  "byte_partition n P C L \<Longrightarrow> p \<in> L \<Longrightarrow> lease_span (snd p) \<inter> (P \<union> C) = {}"
  unfolding byte_partition_def by blast

section \<open>Settling a lease\<close>

text \<open>
  Removing a lease and giving its span back, part to pending and part to completed: the shape of
  \<open>complete\<close>, \<open>fail\<close>, \<open>release\<close> and of each step of \<open>bump_generation\<close>.
\<close>

lemma partition_settle:
  assumes part: "byte_partition n P C L" and l: "(i, l) \<in> L"
    and dist: "\<And>p q. p \<in> L \<Longrightarrow> q \<in> L \<Longrightarrow> fst p = fst q \<Longrightarrow> p = q"
    and AB: "A \<union> B = lease_span l" "A \<inter> B = {}"
  shows "byte_partition n (P \<union> A) (C \<union> B) {p \<in> L. fst p \<noteq> i}"
proof -
  let ?L = "{p \<in> L. fst p \<noteq> i}"
  have other: "lease_span (snd p) \<inter> (A \<union> B) = {}" if "p \<in> ?L" for p
    using partition_disjoint [OF part _ l, of p] that unfolding AB(1) by simp
  have all: "(\<Union>p\<in>L. lease_span (snd p)) = (\<Union>p\<in>?L. lease_span (snd p)) \<union> (A \<union> B)"
  proof -
    have "p = (i, l)" if "p \<in> L" "fst p = i" for p using dist [OF that(1) l] that(2) by simp
    then have "L = insert (i, l) ?L" using l by blast
    then have "(\<Union>p\<in>L. lease_span (snd p)) = (\<Union>p\<in>insert (i, l) ?L. lease_span (snd p))" by (rule arg_cong)
    then show ?thesis unfolding AB(1) by (simp only: UN_insert snd_conv Un_commute)
  qed
  have free: "(A \<union> B) \<inter> (P \<union> C) = {}"
    using partition_free [OF part l] unfolding AB(1) by simp
  have PC: "P \<inter> C = {}" and cover: "P \<union> C \<union> (\<Union>p\<in>L. lease_span (snd p)) = {..<n}"
    using part unfolding byte_partition_def by blast+
  have "(P \<union> A) \<inter> (C \<union> B) = {}" using free PC AB(2) by blast
  moreover have "\<forall>p\<in>?L. lease_span (snd p) \<inter> (P \<union> A \<union> (C \<union> B)) = {}"
    using other partition_free [OF part] by blast
  moreover have "\<forall>p\<in>?L. \<forall>q\<in>?L. fst p \<noteq> fst q \<longrightarrow> lease_span (snd p) \<inter> lease_span (snd q) = {}"
    using partition_disjoint [OF part] by blast
  moreover have "P \<union> A \<union> (C \<union> B) \<union> (\<Union>p\<in>?L. lease_span (snd p)) = {..<n}"
    unfolding cover [symmetric] all by blast
  ultimately show ?thesis unfolding byte_partition_def by (intro conjI)
qed

lemma inv_settle:
  assumes inv: "sched_inv_gen g s" and l: "hm_get (ss_active s) i = Some l"
    and AB: "A \<union> B = lease_span l" "A \<inter> B = {}"
    and t: "ss_total_size t = ss_total_size s" "policy_ok (ss_policy t)" "ss_next_lease t = ss_next_lease s"
      "ss_active t = hm_remove i (ss_active s)"
    and P: "iv_wf (ss_pending t)" "iv_bytes (ss_pending t) = iv_bytes (ss_pending s) \<union> A"
    and C: "iv_wf (ss_completed t)" "iv_bytes (ss_completed t) = iv_bytes (ss_completed s) \<union> B"
  shows "sched_inv_gen g t"
proof -
  have d: "hm_distinct (ss_active s)" and part: "byte_partition (ss_total_size s) (iv_bytes (ss_pending s))
      (iv_bytes (ss_completed s)) (set (ss_active s))"
    using inv by (auto simp: sched_inv_gen_def)
  have uniq: "\<And>p q. p \<in> set (ss_active s) \<Longrightarrow> q \<in> set (ss_active s) \<Longrightarrow> fst p = fst q \<Longrightarrow> p = q"
    using d by (metis eq_key_imp_eq_value prod.collapse)
  have part': "byte_partition (ss_total_size t) (iv_bytes (ss_pending t)) (iv_bytes (ss_completed t)) (set (ss_active t))"
    using partition_settle [OF part hm_get_in [OF l] uniq AB] by (simp only: t(1,4) P(2) C(2) set_hm_remove)
  have "\<forall>p\<in>set (ss_active t). lease_ok (ss_total_size t) g (ss_next_lease t) p"
    using inv by (simp add: sched_inv_gen_def t)
  moreover have "ss_total_size t \<le> u64_max" "hm_distinct (ss_active t)"
    using inv AList.distinct_delete [OF d] by (simp_all add: sched_inv_gen_def t)
  ultimately show ?thesis
    using part' t(2) P(1) C(1) unfolding sched_inv_gen_def by (intro conjI)
qed

lemma requeue_correct:
  assumes ok: "lease_ok (ss_total_size s) g n (i, l)" and "ss_total_size s \<le> u64_max"
    and wf: "iv_wf (ss_pending s)" "iv_wf (ss_completed s)"
  shows "iv_wf (ss_pending (requeue l s))" "iv_wf (ss_completed (requeue l s))"
    "iv_bytes (ss_pending (requeue l s)) = iv_bytes (ss_pending s) \<union> {sl_next_offset l..sl_end l}"
    "iv_bytes (ss_completed (requeue l s)) = iv_bytes (ss_completed s) \<union> {sl_start l..<sl_next_offset l}"
proof -
  have b: "sl_next_offset l \<le> u64_max" "sl_end l \<le> u64_max" using assms(1,2) by (auto simp: lease_ok_def)
  then have sub: "sl_start l < sl_next_offset l \<Longrightarrow> u64_sub (sl_next_offset l) (Suc 0) = sl_next_offset l - 1"
    by (simp add: u64_exact)
  have iv: "{sl_start l..sl_next_offset l - Suc 0} = {sl_start l..<sl_next_offset l}" if "sl_start l < sl_next_offset l"
    using that by auto
  show "iv_wf (ss_pending (requeue l s))" "iv_wf (ss_completed (requeue l s))"
    "iv_bytes (ss_pending (requeue l s)) = iv_bytes (ss_pending s) \<union> {sl_next_offset l..sl_end l}"
    "iv_bytes (ss_completed (requeue l s)) = iv_bytes (ss_completed s) \<union> {sl_start l..<sl_next_offset l}"
    using wf b by (simp_all add: requeue_def Let_def sub iv_wf_insert iv_bytes_insert iv)
qed

lemma requeue_frame [simp]:
  "ss_total_size (requeue l s) = ss_total_size s" "ss_active (requeue l s) = ss_active s"
  "ss_next_lease (requeue l s) = ss_next_lease s" "ss_generation (requeue l s) = ss_generation s"
  "ss_policy (requeue l s) = ss_policy s" "ss_acquired_at (requeue l s) = ss_acquired_at s"
  by (simp_all add: requeue_def Let_def)

lemma observe_frame [simp]:
  "ss_total_size (observe_duration_sample F now l b s) = ss_total_size s"
  "ss_active (observe_duration_sample F now l b s) = ss_active s"
  "ss_pending (observe_duration_sample F now l b s) = ss_pending s"
  "ss_completed (observe_duration_sample F now l b s) = ss_completed s"
  "ss_next_lease (observe_duration_sample F now l b s) = ss_next_lease s"
  "ss_generation (observe_duration_sample F now l b s) = ss_generation s"
  "ss_policy (observe_duration_sample F now l b s) = ss_policy s"
  "ss_acquired_at (observe_duration_sample F now l b s) = ss_acquired_at s"
  by (simp_all add: observe_duration_sample_def Let_def split: option.splits)

lemma lease_span_split:
  assumes "lease_ok n g m (i, l)"
  shows "{sl_next_offset l..sl_end l} \<union> {sl_start l..<sl_next_offset l} = lease_span l"
    and "{sl_next_offset l..sl_end l} \<inter> {sl_start l..<sl_next_offset l} = {}"
  using assms by (auto simp: lease_ok_def lease_span_def)

text \<open>Any state that removes the lease and then requeues it keeps the invariant.\<close>

lemma inv_requeue:
  assumes inv: "sched_inv_gen g s" and l: "hm_get (ss_active s) i = Some l"
    and t: "ss_total_size t = ss_total_size s" "policy_ok (ss_policy t)" "ss_next_lease t = ss_next_lease s"
      "ss_active t = hm_remove i (ss_active s)" "ss_pending t = ss_pending s" "ss_completed t = ss_completed s"
  shows "sched_inv_gen g (requeue l t)"
proof -
  have ok: "lease_ok (ss_total_size t) g (ss_next_lease t) (i, l)" using sched_inv_lease [OF inv l] t by simp
  have b: "ss_total_size t \<le> u64_max" "iv_wf (ss_pending t)" "iv_wf (ss_completed t)"
    using inv t by (auto simp: sched_inv_gen_def)
  show ?thesis
    by (rule inv_settle [OF inv l lease_span_split [OF ok]])
      (use t requeue_correct [OF ok b] in simp_all)
qed

text \<open>A state that agrees on the accounting fields and holds the same leases.\<close>

lemma inv_same_leases:
  assumes "sched_inv_gen g s" "ss_total_size t = ss_total_size s" "policy_ok (ss_policy t)"
    "ss_next_lease t = ss_next_lease s" "ss_pending t = ss_pending s" "ss_completed t = ss_completed s"
    "set (ss_active t) = set (ss_active s)" "hm_distinct (ss_active t)"
  shows "sched_inv_gen g t"
  using assms by (simp add: sched_inv_gen_def)

section \<open>Every operation keeps the invariant\<close>

lemma initial_completed_correct:
  assumes "n \<le> u64_max"
  shows "iv_wf (initial_completed n rs) \<and> iv_bytes (initial_completed n rs) = iv_bytes rs \<inter> {..<n}"
proof -
  let ?f = "\<lambda>(s, e) c. if n \<le> s then c else iv_insert c s (min e (n - 1))"
  have "iv_wf c \<Longrightarrow> iv_wf (fold ?f rs c) \<and> iv_bytes (fold ?f rs c) = iv_bytes c \<union> (iv_bytes rs \<inter> {..<n})" for c
  proof (induction rs arbitrary: c)
    case (Cons r rs)
    obtain s e where r: "r = (s, e)" by force
    have "iv_wf (?f r c) \<and> iv_bytes (?f r c) = iv_bytes c \<union> ({s..e} \<inter> {..<n})"
    proof (cases "n \<le> s")
      case False
      have "min e (n - 1) \<le> u64_max" using assms by auto
      moreover have "{s..min e (n - 1)} = {s..e} \<inter> {..<n}" using False by auto
      ultimately show ?thesis using iv_insert_correct [OF Cons.prems] False r by simp
    qed (use Cons.prems r in auto)
    with Cons.IH [of "?f r c"] show ?case by (auto simp: r)
  qed simp
  then show ?thesis by (simp add: initial_completed_def iv_new_def)
qed

lemma initialize_correct:
  assumes "n \<le> u64_max"
  shows "iv_wf (ss_completed (initialize F n rs p))" "iv_wf (ss_pending (initialize F n rs p))"
    "iv_bytes (ss_completed (initialize F n rs p)) = iv_bytes rs \<inter> {..<n}"
    "iv_bytes (ss_pending (initialize F n rs p)) = {..<n} - iv_bytes rs"
proof -
  have c: "iv_wf (initial_completed n rs)" "iv_bytes (initial_completed n rs) = iv_bytes rs \<inter> {..<n}"
    using initial_completed_correct [OF assms] by auto
  have comp: "iv_wf (iv_complement_within (initial_completed n rs) n)"
    using iv_complement_correct(1) [OF c(1) assms] .
  have pend: "iv_bytes (iv_complement_within (initial_completed n rs) n) = {..<n} - iv_bytes rs"
    using iv_complement_within_domain [OF c(1) assms] c(2) by auto
  have "\<forall>(a, b)\<in>set (iv_complement_within (initial_completed n rs) n). b \<le> u64_max"
    using iv_wf_range [OF comp] by auto
  note fr = iv_from_ranges_correct [OF this]
  show "iv_wf (ss_completed (initialize F n rs p))" "iv_wf (ss_pending (initialize F n rs p))"
    "iv_bytes (ss_completed (initialize F n rs p)) = iv_bytes rs \<inter> {..<n}"
    "iv_bytes (ss_pending (initialize F n rs p)) = {..<n} - iv_bytes rs"
    using c fr pend by (simp_all add: initialize_def Let_def iv_new_def)
qed

lemma initialize_fields [simp]:
  "ss_total_size (initialize F n rs p) = n" "ss_policy (initialize F n rs p) = p"
  "ss_active (initialize F n rs p) = []" "ss_next_lease (initialize F n rs p) = 1"
  "ss_generation (initialize F n rs p) = 1"
  by (simp_all add: initialize_def Let_def)

lemma initialize_inv: "n \<le> u64_max \<Longrightarrow> policy_ok p \<Longrightarrow> sched_inv (initialize F n rs p)"
  using initialize_correct [of n F rs p]
  by (auto simp: sched_inv_def sched_inv_gen_def byte_partition_def)

text \<open>What \<open>acquire\<close> does to a non-empty pending set: it carves the front of the first range.\<close>

lemma acquire_cases:
  assumes inv: "sched_inv s"
  obtains (empty) "ss_pending s = []" "sched_acquire F now s = (None, s)"
  | (carve) k v rest e lease where "ss_pending s = (k, v) # rest" "k \<le> e" "e \<le> v"
      "e = k + target_len_for_gap F s (v - k + 1) - 1" "v - k + 1 \<le> u64_max"
      "lease = \<lparr>sl_id = ss_next_lease s, sl_generation = ss_generation s, sl_start = k, sl_end = e,
                sl_next_offset = k\<rparr>"
      "sched_acquire F now s = (Some lease,
         s\<lparr>ss_next_lease := u64_add (ss_next_lease s) 1, ss_pending := iv_subtract (ss_pending s) k e,
           ss_active := hm_insert (ss_next_lease s) lease (ss_active s),
           ss_acquired_at := hm_insert (ss_next_lease s) now (ss_acquired_at s)\<rparr>)"
proof (cases "ss_pending s")
  case Nil
  then show thesis by (intro empty) (simp_all add: sched_acquire_def iv_ranges_def)
next
  case (Cons p rest)
  obtain k v where p: "p = (k, v)" by force
  have wf: "iv_wf ((k, v) # rest)" and n: "ss_total_size s \<le> u64_max" and pol: "policy_ok (ss_policy s)"
    using inv Cons p by (auto simp: sched_inv_def sched_inv_gen_def)
  have kv: "k \<le> v" "v < ss_total_size s"
    using wf sched_inv_bytes(1) [OF inv [unfolded sched_inv_def]] Cons p by (auto simp: iv_wf_Cons)
  have len: "u64_add (u64_sub v k) 1 = v - k + 1" using kv n by (simp add: u64_exact)
  define w where "w = target_len_for_gap F s (v - k + 1)"
  have w: "1 \<le> w" "w \<le> v - k + 1"
    using target_len_for_gap_bounds [OF pol, of "v - k + 1" F] pol by (auto simp: w_def policy_ok_def)
  have "sat_add k w = k + w" using w kv n by (simp add: sat_add_def)
  moreover have "k + w - 1 \<le> v" using w kv by arith
  ultimately have e: "min (sat_sub (sat_add k w) 1) v = k + w - 1" by simp
  have bounds: "k \<le> k + w - 1" "k + w - 1 \<le> v" "k + w - 1 = k + target_len_for_gap F s (v - k + 1) - 1"
      "v - k + 1 \<le> u64_max"
    using w kv n by (simp_all add: w_def)
  show thesis
    by (rule carve [OF Cons [unfolded p] bounds refl])
      (use Cons p len e in \<open>simp add: sched_acquire_def iv_ranges_def Let_def w_def\<close>)
qed

lemma acquire_inv:
  assumes inv: "sched_inv s" and fresh: "ss_next_lease s < u64_max"
  shows "sched_inv (snd (sched_acquire F now s))"
  using inv
proof (cases rule: acquire_cases [where F = F and now = now])
  case empty
  with inv show ?thesis by simp
next
  case (carve k v rest e lease)
  let ?n = "ss_next_lease s"
  let ?t = "snd (sched_acquire F now s)"
  have g: "sched_inv_gen (ss_generation s) s" using inv by (simp add: sched_inv_def)
  have wf: "iv_wf (ss_pending s)" and d: "hm_distinct (ss_active s)" and N: "ss_total_size s \<le> u64_max"
    and part: "byte_partition (ss_total_size s) (iv_bytes (ss_pending s)) (iv_bytes (ss_completed s)) (set (ss_active s))"
    and ok: "\<forall>p\<in>set (ss_active s). lease_ok (ss_total_size s) (ss_generation s) ?n p"
    using g by (auto simp: sched_inv_gen_def)
  have sub: "{k..e} \<subseteq> iv_bytes (ss_pending s)" using carve by auto
  then have e: "e < ss_total_size s" using sched_inv_bytes(1) [OF g] carve(2) by auto
  have new: "iv_wf (iv_subtract (ss_pending s) k e)"
      "iv_bytes (iv_subtract (ss_pending s) k e) = iv_bytes (ss_pending s) - {k..e}"
    using iv_subtract_correct [OF wf, of e k] e N by auto
  have act: "set (ss_active ?t) = insert (?n, lease) (set (ss_active s))"
    using ok d carve(7) by (force simp: set_hm_insert lease_ok_def)
  have ok': "\<forall>p\<in>set (ss_active ?t). lease_ok (ss_total_size s) (ss_generation s) (?n + 1) p"
    using ok carve(2,6) e unfolding act by (auto simp: lease_ok_def)
  have fresh_id: "\<forall>p\<in>set (ss_active s). fst p \<noteq> ?n" using ok by (auto simp: lease_ok_def)
  have "byte_partition (ss_total_size s) (iv_bytes (ss_pending s) - {k..e}) (iv_bytes (ss_completed s))
      (insert (?n, lease) (set (ss_active s)))"
  proof -
    have span: "lease_span lease = {k..e}" using carve(6) by (simp add: lease_span_def)
    have PC: "iv_bytes (ss_pending s) \<inter> iv_bytes (ss_completed s) = {}"
      and cover: "iv_bytes (ss_pending s) \<union> iv_bytes (ss_completed s)
        \<union> (\<Union>p\<in>set (ss_active s). lease_span (snd p)) = {..<ss_total_size s}"
      using part unfolding byte_partition_def by blast+
    have "\<forall>p\<in>set (ss_active s). lease_span (snd p) \<inter> {k..e} = {}"
      using partition_free [OF part] sub by blast
    then show ?thesis
      using PC cover sub partition_free [OF part] partition_disjoint [OF part]
      unfolding byte_partition_def by (simp add: span) blast
  qed
  then show ?thesis
    using g carve(7) new ok' fresh act AList.distinct_update [OF d]
    by (simp add: sched_inv_def sched_inv_gen_def u64_exact)
qed

lemma report_progress_cases:
  obtains (reject) "report_progress i g x s = (False, s)"
  | (still) "report_progress i g x s = (True, s)"
  | (advance) l where "hm_get (ss_active s) i = Some l" "sl_generation l = g" "sl_next_offset l < x"
      "report_progress i g x s = (True, s\<lparr>ss_active := hm_insert i
         (l\<lparr>sl_next_offset := min x (sat_add (sl_end l) 1)\<rparr>) (ss_active s)\<rparr>)"
proof (cases "hm_get (ss_active s) i")
  case None
  then show thesis by (intro reject) (simp add: report_progress_def)
next
  case (Some l)
  show thesis
  proof (cases "sl_generation l = g")
    case gen: True
    show thesis
    proof (cases "x \<le> sl_next_offset l")
      case True
      with Some gen show thesis by (intro still) (simp add: report_progress_def)
    next
      case False
      with Some gen show thesis by (intro advance) (simp_all add: report_progress_def)
    qed
  next
    case False
    with Some show thesis by (intro reject) (simp add: report_progress_def)
  qed
qed

text \<open>Replacing a lease by one with the same span changes nothing about ownership.\<close>

lemma inv_update_lease:
  assumes inv: "sched_inv_gen g s" and l: "hm_get (ss_active s) i = Some l"
    and l': "lease_ok (ss_total_size s) g (ss_next_lease s) (i, l')" "lease_span l' = lease_span l"
  shows "sched_inv_gen g (s\<lparr>ss_active := hm_insert i l' (ss_active s)\<rparr>)"
proof -
  have d: "hm_distinct (ss_active s)" using inv by (simp add: sched_inv_gen_def)
  have act: "set (hm_insert i l' (ss_active s)) = insert (i, l') {p \<in> set (ss_active s). fst p \<noteq> i}"
    using set_hm_insert [OF d] .
  have mem: "(i, l) \<in> set (ss_active s)" using hm_get_in [OF l] .
  have rep: "\<exists>q\<in>set (ss_active s). fst q = fst p \<and> lease_span (snd q) = lease_span (snd p)"
    if "p \<in> set (hm_insert i l' (ss_active s))" for p
    using that mem l'(2) unfolding act by (cases "p = (i, l')") force+
  have covered: "\<exists>p\<in>set (hm_insert i l' (ss_active s)). lease_span (snd q) = lease_span (snd p)"
    if "q \<in> set (ss_active s)" for q
  proof (cases "fst q = i")
    case True
    then have "snd q = l" using that d l by (metis hm_get_iff option.inject prod.collapse)
    then show ?thesis using l'(2) unfolding act by auto
  next
    case False
    then show ?thesis using that unfolding act by blast
  qed
  have part: "byte_partition (ss_total_size s) (iv_bytes (ss_pending s)) (iv_bytes (ss_completed s)) (set (ss_active s))"
    using inv by (simp add: sched_inv_gen_def)
  have union: "(\<Union>p\<in>set (hm_insert i l' (ss_active s)). lease_span (snd p)) = (\<Union>p\<in>set (ss_active s). lease_span (snd p))"
    using rep covered by blast
  have "byte_partition (ss_total_size s) (iv_bytes (ss_pending s)) (iv_bytes (ss_completed s))
      (set (hm_insert i l' (ss_active s)))"
    unfolding byte_partition_def union
  proof (intro conjI ballI impI)
    show "iv_bytes (ss_pending s) \<inter> iv_bytes (ss_completed s) = {}"
      and "iv_bytes (ss_pending s) \<union> iv_bytes (ss_completed s) \<union> (\<Union>p\<in>set (ss_active s). lease_span (snd p))
        = {..<ss_total_size s}"
      using part unfolding byte_partition_def by blast+
  next
    fix p assume "p \<in> set (hm_insert i l' (ss_active s))"
    from rep [OF this] show "lease_span (snd p) \<inter> (iv_bytes (ss_pending s) \<union> iv_bytes (ss_completed s)) = {}"
      using partition_free [OF part] by metis
  next
    fix p q assume "p \<in> set (hm_insert i l' (ss_active s))" "q \<in> set (hm_insert i l' (ss_active s))"
      and "fst p \<noteq> fst q"
    with rep [of p] rep [of q] show "lease_span (snd p) \<inter> lease_span (snd q) = {}"
      using partition_disjoint [OF part] by metis
  qed
  moreover have "\<forall>p\<in>set (hm_insert i l' (ss_active s)). lease_ok (ss_total_size s) g (ss_next_lease s) p"
    using inv l'(1) unfolding act by (auto simp: sched_inv_gen_def)
  ultimately show ?thesis
    using inv AList.distinct_update [OF d] by (simp add: sched_inv_gen_def)
qed

lemma report_progress_inv:
  assumes "sched_inv s"
  shows "sched_inv (snd (report_progress i g x s))"
proof (cases rule: report_progress_cases [of i g x s])
  case (advance l)
  have g: "sched_inv_gen (ss_generation s) s" using assms by (simp add: sched_inv_def)
  have ok: "lease_ok (ss_total_size s) (ss_generation s) (ss_next_lease s) (i, l)"
    using sched_inv_lease [OF g advance(1)] .
  then have "lease_ok (ss_total_size s) (ss_generation s) (ss_next_lease s)
      (i, l\<lparr>sl_next_offset := min x (sat_add (sl_end l) 1)\<rparr>)"
    using g advance(3) by (auto simp: lease_ok_def sched_inv_gen_def sat_add_def)
  from inv_update_lease [OF g advance(1) this] show ?thesis
    using advance(4) by (simp add: sched_inv_def lease_span_def)
qed (use assms in simp_all)

lemma absorb_cell_inv: "sched_inv s \<Longrightarrow> sched_inv (snd (absorb_cell cell s))"
proof -
  assume inv: "sched_inv s"
  have "snd (absorb_cell cell s) = s \<or> (\<exists>i g x. snd (absorb_cell cell s) = snd (report_progress i g x s))"
  proof (cases cell)
    case (Some r)
    let ?rep = "report_progress (pr_lease_id r) (pr_generation r) (pr_written_through r) s"
    show ?thesis
    proof (cases "lease_next_offset (pr_lease_id r) s")
      case (Some b)
      with \<open>cell = Some r\<close> have "snd (absorb_cell cell s) = snd ?rep"
        by (cases ?rep) (simp add: absorb_cell_def Let_def split: bool.splits)
      then show ?thesis by blast
    qed (use Some in \<open>simp add: absorb_cell_def\<close>)
  qed (simp add: absorb_cell_def)
  then show ?thesis using inv report_progress_inv by metis
qed

lemma absorb_worker_progress_inv: "sched_inv s \<Longrightarrow> sched_inv (snd (absorb_worker_progress cells s))"
proof (induction cells arbitrary: s)
  case (Cons cell cells)
  then show ?case using absorb_cell_inv [of s cell]
    by (auto simp: Let_def split: prod.splits) (metis snd_conv)
qed simp

text \<open>A stale caller puts the lease back: same leases, in another iteration order.\<close>

lemma put_back_inv:
  assumes "sched_inv s" "hm_get (ss_active s) i = Some l"
    and "ss_total_size t = ss_total_size s" "ss_policy t = ss_policy s" "ss_next_lease t = ss_next_lease s"
      "ss_pending t = ss_pending s" "ss_completed t = ss_completed s" "ss_generation t = ss_generation s"
      "ss_active t = hm_insert i l (hm_remove i (ss_active s))"
  shows "sched_inv t"
proof -
  have g: "sched_inv_gen (ss_generation s) s" using assms(1) by (simp add: sched_inv_def)
  then have d: "hm_distinct (ss_active s)" and p: "policy_ok (ss_policy s)" by (simp_all add: sched_inv_gen_def)
  have "sched_inv_gen (ss_generation s) t"
    by (rule inv_same_leases [OF g]) (use hm_put_back [OF d assms(2)] p assms in simp_all)
  then show ?thesis using assms by (simp add: sched_inv_def)
qed

lemma complete_inv:
  assumes inv: "sched_inv s"
  shows "sched_inv (snd (sched_complete F now i g s))"
proof (cases "hm_get (ss_active s) i")
  case None
  with inv show ?thesis by (simp add: sched_complete_def)
next
  case (Some l)
  show ?thesis
  proof (cases "sl_generation l = g")
    case False
    then show ?thesis
      by (intro put_back_inv [OF inv Some]) (simp_all add: sched_complete_def Some Let_def)
  next
    case True
    have gen: "sched_inv_gen (ss_generation s) s" using inv by (simp add: sched_inv_def)
    have ok: "lease_ok (ss_total_size s) (ss_generation s) (ss_next_lease s) (i, l)"
      using sched_inv_lease [OF gen Some] .
    have b: "sl_end l \<le> u64_max" "policy_ok (ss_policy s)" "iv_wf (ss_pending s)" "iv_wf (ss_completed s)"
      using ok gen by (auto simp: lease_ok_def sched_inv_gen_def)
    have "sched_inv_gen (ss_generation s) (snd (sched_complete F now i g s))"
      by (rule inv_settle [OF gen Some, of "{}" "lease_span l"])
        (use True b in \<open>simp_all add: sched_complete_def Some Let_def iv_insert_correct lease_span_def\<close>)
    then show ?thesis by (simp add: sched_inv_def sched_complete_def Some True Let_def)
  qed
qed

lemma fail_inv:
  assumes inv: "sched_inv s"
  shows "sched_inv (snd (sched_fail F now i g s))"
proof (cases "hm_get (ss_active s) i")
  case None
  with inv show ?thesis by (simp add: sched_fail_def)
next
  case (Some l)
  have gen: "sched_inv_gen (ss_generation s) s" "policy_ok (ss_policy s)"
    using inv by (simp_all add: sched_inv_def sched_inv_gen_def)
  show ?thesis
  proof (cases "sl_generation l = g")
    case False
    then show ?thesis
      by (intro put_back_inv [OF inv Some]) (simp_all add: sched_fail_def Some Let_def)
  next
    case True
    then have "sched_inv_gen (ss_generation s) (snd (sched_fail F now i g s))"
      by (simp add: sched_fail_def Some Let_def) (rule inv_requeue [OF gen(1) Some]; simp add: gen(2))
    then show ?thesis using True by (simp add: sched_inv_def sched_fail_def Some Let_def)
  qed
qed

lemma release_inv:
  assumes inv: "sched_inv s"
  shows "sched_inv (snd (sched_release i g s))"
proof (cases "hm_get (ss_active s) i")
  case None
  with inv show ?thesis by (simp add: sched_release_def)
next
  case (Some l)
  have gen: "sched_inv_gen (ss_generation s) s" "policy_ok (ss_policy s)"
    using inv by (simp_all add: sched_inv_def sched_inv_gen_def)
  show ?thesis
  proof (cases "sl_generation l = g")
    case False
    then show ?thesis
      by (intro put_back_inv [OF inv Some]) (simp_all add: sched_release_def Some Let_def)
  next
    case True
    then have "sched_inv_gen (ss_generation s) (snd (sched_release i g s))"
      by (simp add: sched_release_def Some Let_def) (rule inv_requeue [OF gen(1) Some]; simp add: gen(2))
    then show ?thesis using True by (simp add: sched_inv_def sched_release_def Some Let_def)
  qed
qed

text \<open>What a successful split does to the lease and to its new sibling.\<close>

lemma split_tail_cases:
  assumes inv: "sched_inv s"
  obtains (refuse) "split_tail now i g min_tail recv s = (None, s)"
  | (split) l c sib t where "hm_get (ss_active s) i = Some l" "sl_generation l = g"
      "max (sl_next_offset l) recv < c" "c \<le> sl_end l"
      "max min_tail 1 < sl_end l - max (sl_next_offset l) recv + 1"
      "sib = \<lparr>sl_id = ss_next_lease s, sl_generation = ss_generation s, sl_start = c, sl_end = sl_end l,
                sl_next_offset = c\<rparr>"
      "split_tail now i g min_tail recv s = (Some sib, t)"
      "ss_active t = hm_insert (ss_next_lease s) sib (hm_insert i (l\<lparr>sl_end := c - 1\<rparr>) (ss_active s))"
      "ss_total_size t = ss_total_size s" "ss_pending t = ss_pending s" "ss_completed t = ss_completed s"
      "ss_next_lease t = u64_add (ss_next_lease s) 1" "ss_generation t = ss_generation s" "ss_policy t = ss_policy s"
proof (cases "\<exists>l. hm_get (ss_active s) i = Some l \<and> sl_generation l = g
    \<and> max min_tail 1 < sat_add (sat_sub (sl_end l) (max (sl_next_offset l) recv)) 1")
  case False
  then show thesis
    by (intro refuse) (auto simp: split_tail_def Let_def not_less split: option.splits)
next
  case True
  then obtain l where l: "hm_get (ss_active s) i = Some l" "sl_generation l = g"
      and tail: "max min_tail 1 < sat_add (sat_sub (sl_end l) (max (sl_next_offset l) recv)) 1"
    by blast
  have ok: "lease_ok (ss_total_size s) (ss_generation s) (ss_next_lease s) (i, l)"
    using sched_inv_lease l(1) inv by (auto simp: sched_inv_def)
  have end_max: "sl_end l < u64_max" using ok inv by (auto simp: lease_ok_def sched_inv_def sched_inv_gen_def)
  define ts where "ts = max (sl_next_offset l) recv"
  define len where "len = sl_end l - ts + 1"
  have len: "sat_add (sat_sub (sl_end l) ts) 1 = len" using end_max by (simp add: sat_add_def len_def)
  with tail have len2: "2 \<le> len" "max min_tail 1 < len" by (simp_all add: ts_def)
  then have ts: "ts < sl_end l" by (simp add: len_def)
  define tk where "tk = clamp 1 (len - 1) (len div 2)"
  have tk: "1 \<le> tk" "tk \<le> len - 1" using clamp_bounds [of 1 "len - 1" "len div 2"] len2 by (auto simp: tk_def)
  define c where "c = sl_end l - tk + 1"
  have c: "ts < c" "c \<le> sl_end l" using tk ts by (auto simp: c_def len_def)
  have "u64_add (u64_sub (sl_end l) tk) 1 = c" "u64_sub c 1 = c - 1"
    using tk ts end_max c by (simp_all add: u64_exact len_def c_def)
  then have cw: "u64_add (u64_sub (sl_end l) (clamp (Suc 0) (len - Suc 0) (len div 2))) (Suc 0) = c"
      "u64_sub c (Suc 0) = c - Suc 0" "sat_add (sl_end l - ts) (Suc 0) = len" "\<not> len \<le> max min_tail (Suc 0)"
    using len len2 by (simp_all add: tk_def)
  have wide: "max min_tail 1 < sl_end l - ts + 1" using len2 by (simp add: len_def)
  show thesis
    by (rule split [OF l c [unfolded ts_def] wide [unfolded ts_def] refl,
          where t = "snd (split_tail now i g min_tail recv s)"])
      (use l cw in \<open>simp_all add: split_tail_def Let_def ts_def [symmetric]\<close>)
qed

text \<open>Splitting one lease in two is an ownership change inside its span only.\<close>

lemma partition_split:
  assumes part: "byte_partition n P C L" and l: "(i, l) \<in> L"
    and dist: "\<And>p q. p \<in> L \<Longrightarrow> q \<in> L \<Longrightarrow> fst p = fst q \<Longrightarrow> p = q"
    and new: "\<forall>p\<in>L. fst p \<noteq> j"
    and ab: "lease_span a \<union> lease_span b = lease_span l" "lease_span a \<inter> lease_span b = {}"
  shows "byte_partition n P C (insert (j, b) (insert (i, a) {p \<in> L. fst p \<noteq> i}))"
proof -
  let ?L = "{p \<in> L. fst p \<noteq> i}"
  have ij: "i \<noteq> j" using new l by force
  have settled: "byte_partition n (P \<union> {}) (C \<union> lease_span l) ?L"
    by (rule partition_settle [OF part l dist]) auto
  have free: "lease_span l \<inter> (P \<union> C) = {}" using partition_free [OF part l] by simp
  have other: "\<forall>p\<in>?L. lease_span (snd p) \<inter> lease_span l = {}" "\<forall>p\<in>?L. lease_span (snd p) \<inter> (P \<union> C) = {}"
    using partition_free [OF settled] partition_free [OF part] by blast+
  have cover: "P \<union> (C \<union> lease_span l) \<union> (\<Union>p\<in>?L. lease_span (snd p)) = {..<n}"
    using settled by (simp only: byte_partition_def Un_empty_right)
  have PC: "P \<inter> C = {}" using part by (simp only: byte_partition_def)
  show ?thesis
    unfolding byte_partition_def
  proof (intro conjI ballI impI)
    show "P \<inter> C = {}" by (rule PC)
    show "P \<union> C \<union> (\<Union>p\<in>insert (j, b) (insert (i, a) ?L). lease_span (snd p)) = {..<n}"
      unfolding cover [symmetric] ab(1) [symmetric] by auto
  next
    fix p assume "p \<in> insert (j, b) (insert (i, a) ?L)"
    then consider "lease_span (snd p) \<subseteq> lease_span l" | "p \<in> ?L" using ab(1) by force
    then show "lease_span (snd p) \<inter> (P \<union> C) = {}"
      using free bspec [OF other(2)] by cases blast+
  next
    fix p q assume pq: "p \<in> insert (j, b) (insert (i, a) ?L)" "q \<in> insert (j, b) (insert (i, a) ?L)" "fst p \<noteq> fst q"
    have ab_other: "lease_span (snd r) \<inter> lease_span a = {}" "lease_span (snd r) \<inter> lease_span b = {}" if "r \<in> ?L" for r
      using other(1) that ab(1) by blast+
    show "lease_span (snd p) \<inter> lease_span (snd q) = {}"
      using pq ab_other [of p] ab_other [of q] ab(2) partition_disjoint [OF part, of p q] by auto
  qed
qed

lemma split_tail_inv:
  assumes inv: "sched_inv s" and fresh: "ss_next_lease s < u64_max"
  shows "sched_inv (snd (split_tail now i g min_tail recv s))"
  using inv
proof (cases rule: split_tail_cases [where now = now and i = i and g = g and min_tail = min_tail and recv = recv])
  case refuse
  with inv show ?thesis by simp
next
  case (split l c sib t)
  let ?j = "ss_next_lease s" and ?l' = "l\<lparr>sl_end := c - 1\<rparr>" and ?n = "ss_total_size s"
  have gen: "sched_inv_gen (ss_generation s) s" using inv by (simp add: sched_inv_def)
  have d: "hm_distinct (ss_active s)" and N: "?n \<le> u64_max"
    and part: "byte_partition ?n (iv_bytes (ss_pending s)) (iv_bytes (ss_completed s)) (set (ss_active s))"
    and oks: "\<forall>p\<in>set (ss_active s). lease_ok ?n (ss_generation s) ?j p"
    using gen by (auto simp: sched_inv_gen_def)
  have ok: "lease_ok ?n (ss_generation s) ?j (i, l)" using sched_inv_lease [OF gen split(1)] .
  have uniq: "\<And>p q. p \<in> set (ss_active s) \<Longrightarrow> q \<in> set (ss_active s) \<Longrightarrow> fst p = fst q \<Longrightarrow> p = q"
    using d by (metis eq_key_imp_eq_value prod.collapse)
  have new: "\<forall>p\<in>set (ss_active s). fst p \<noteq> ?j" using oks by (auto simp: lease_ok_def)
  have ij: "i \<noteq> ?j" using ok by (auto simp: lease_ok_def)
  have spans: "lease_span ?l' \<union> lease_span sib = lease_span l" "lease_span ?l' \<inter> lease_span sib = {}"
    using ok split(3,4,6) by (auto simp: lease_span_def lease_ok_def)
  have act: "set (ss_active t) = insert (?j, sib) (insert (i, ?l') {p \<in> set (ss_active s). fst p \<noteq> i})"
    using d new ij by (auto simp: split(8) set_hm_insert AList.distinct_update)
  have "\<forall>p\<in>set (ss_active t). lease_ok ?n (ss_generation s) (?j + 1) p"
    using oks ok split(3,4,6) unfolding act by (auto simp: lease_ok_def)
  moreover have "byte_partition ?n (iv_bytes (ss_pending s)) (iv_bytes (ss_completed s)) (set (ss_active t))"
    using partition_split [OF part hm_get_in [OF split(1)] uniq new spans] unfolding act .
  moreover have "hm_distinct (ss_active t)" using d by (simp add: split(8) AList.distinct_update)
  ultimately show ?thesis
    using gen fresh split(7,9-14) by (simp add: sched_inv_def sched_inv_gen_def u64_exact)
qed

lemma set_ready_work_divisor_inv: "sched_inv s \<Longrightarrow> sched_inv (set_ready_work_divisor d s)"
  by (simp add: sched_inv_def sched_inv_gen_def set_ready_work_divisor_def policy_ok_def)

text \<open>\<open>bump_generation\<close> settles every lease in turn.\<close>

lemma bump_fold:
  assumes "sched_inv_gen g s" "hm_distinct ls" "set ls = set (ss_active s)"
  shows "sched_inv_gen g (fold (\<lambda>(i, l) t. requeue l (t\<lparr>ss_active := hm_remove i (ss_active t)\<rparr>)) ls s)
    \<and> ss_active (fold (\<lambda>(i, l) t. requeue l (t\<lparr>ss_active := hm_remove i (ss_active t)\<rparr>)) ls s) = []"
  using assms
proof (induction ls arbitrary: s)
  case Nil
  then show ?case by simp
next
  case (Cons p ls)
  obtain i l where p: "p = (i, l)" by force
  let ?t = "requeue l (s\<lparr>ss_active := hm_remove i (ss_active s)\<rparr>)"
  have d: "hm_distinct (ss_active s)" "policy_ok (ss_policy s)" using Cons.prems(1) by (simp_all add: sched_inv_gen_def)
  have "hm_get (ss_active s) i = Some l" using Cons.prems(3) p d(1) by (metis hm_get_iff list.set_intros(1))
  then have "sched_inv_gen g ?t"
    by (rule inv_requeue [OF Cons.prems(1)]) (simp_all add: d)
  moreover have "set ls = set (ss_active ?t)"
    using Cons.prems(2,3) p by (auto simp: image_iff)
  ultimately show ?case using Cons.IH [of ?t] Cons.prems(2) p by simp
qed

lemma bump_frame:
  "ss_generation (fold (\<lambda>(i, l) t. requeue l (t\<lparr>ss_active := hm_remove i (ss_active t)\<rparr>)) ls s) = ss_generation s"
  by (induction ls arbitrary: s) (auto simp: case_prod_beta')

lemma bump_generation_inv:
  assumes "sched_inv s"
  shows "sched_inv (snd (bump_generation s)) \<and> ss_active (snd (bump_generation s)) = []
    \<and> ss_generation (snd (bump_generation s)) = u64_add (ss_generation s) 1"
proof -
  let ?s1 = "s\<lparr>ss_generation := u64_add (ss_generation s) 1\<rparr>"
  let ?t = "fold (\<lambda>(i, l) t. requeue l (t\<lparr>ss_active := hm_remove i (ss_active t)\<rparr>)) (ss_active ?s1) ?s1"
  have "sched_inv_gen (ss_generation s) ?s1" "hm_distinct (ss_active ?s1)"
    using assms by (simp_all add: sched_inv_def sched_inv_gen_def)
  from bump_fold [OF this refl] have t: "sched_inv_gen (ss_generation s) ?t" "ss_active ?t = []" by auto
  then have "sched_inv_gen g ?t" for g by (simp add: sched_inv_gen_def)
  with t(2) show ?thesis
    using bump_frame [of "ss_active ?s1" ?s1] by (simp add: bump_generation_def Let_def sched_inv_def)
qed

end
