(* ===== verification/Scheduler_Runs.thy ===== *)
theory Scheduler_Runs
  imports Scheduler_Invariant
begin

text \<open>
  Runs of the scheduler: the operations as data, the reachable states, and the properties that hold
  in all of them. A run is any interleaving of the operations, with any arguments: stale or unknown
  lease ids, wrong generations, offsets out of range. The only assumption of a step is that the two
  \<open>u64\<close> counters (lease ids and generations) have not reached \<open>u64_max\<close>.
\<close>

section \<open>Operations as data, reachable states\<close>

datatype sched_op =
    OpAcquire instant
  | OpReport lease_id u64 u64
  | OpAbsorb "lease_record option list"
  | OpComplete instant lease_id u64
  | OpFail instant lease_id u64
  | OpRelease lease_id u64
  | OpSplit instant lease_id u64 u64 u64
  | OpBump
  | OpSetDivisor u64

fun sched_apply :: "'f f64_ops \<Rightarrow> sched_op \<Rightarrow> 'f segment_scheduler \<Rightarrow> 'f segment_scheduler" where
  "sched_apply F (OpAcquire now) s = snd (sched_acquire F now s)"
| "sched_apply F (OpReport i g x) s = snd (report_progress i g x s)"
| "sched_apply F (OpAbsorb cells) s = snd (absorb_worker_progress cells s)"
| "sched_apply F (OpComplete now i g) s = snd (sched_complete F now i g s)"
| "sched_apply F (OpFail now i g) s = snd (sched_fail F now i g s)"
| "sched_apply F (OpRelease i g) s = snd (sched_release i g s)"
| "sched_apply F (OpSplit now i g m r) s = snd (split_tail now i g m r s)"
| "sched_apply F OpBump s = snd (bump_generation s)"
| "sched_apply F (OpSetDivisor d) s = set_ready_work_divisor d s"

inductive sched_reach :: "'f f64_ops \<Rightarrow> 'f segment_scheduler \<Rightarrow> bool" for F where
  init: "n \<le> u64_max \<Longrightarrow> policy_ok p \<Longrightarrow> sched_reach F (initialize F n rs p)"
| step: "sched_reach F s \<Longrightarrow> ss_next_lease s < u64_max \<Longrightarrow> ss_generation s < u64_max \<Longrightarrow>
    sched_reach F (sched_apply F op s)"

lemma sched_apply_inv: "sched_inv s \<Longrightarrow> ss_next_lease s < u64_max \<Longrightarrow> sched_inv (sched_apply F op s)"
  by (cases op)
    (simp_all add: acquire_inv report_progress_inv absorb_worker_progress_inv complete_inv fail_inv
      release_inv split_tail_inv bump_generation_inv set_ready_work_divisor_inv)

lemma sched_reach_inv: "sched_reach F s \<Longrightarrow> sched_inv s"
  by (induction rule: sched_reach.induct) (simp_all add: initialize_inv sched_apply_inv)

section \<open>Ownership\<close>

text \<open>The abstract view of the scheduler: who owns a byte.\<close>

datatype byte_owner = OwnPending | OwnCompleted | OwnLease lease_id

fun owns :: "'f segment_scheduler \<Rightarrow> byte_owner \<Rightarrow> nat \<Rightarrow> bool" where
  "owns s OwnPending x \<longleftrightarrow> x \<in> iv_bytes (ss_pending s)"
| "owns s OwnCompleted x \<longleftrightarrow> x \<in> iv_bytes (ss_completed s)"
| "owns s (OwnLease i) x \<longleftrightarrow> (\<exists>l. hm_get (ss_active s) i = Some l \<and> x \<in> lease_span l)"

lemma owner_unique:
  assumes inv: "sched_inv s" and "owns s v x" "owns s w x"
  shows "v = w"
proof -
  have part: "byte_partition (ss_total_size s) (iv_bytes (ss_pending s)) (iv_bytes (ss_completed s)) (set (ss_active s))"
    using inv by (simp add: sched_inv_def sched_inv_gen_def)
  have PC: "x \<notin> iv_bytes (ss_pending s) \<or> x \<notin> iv_bytes (ss_completed s)"
    using part by (auto simp: byte_partition_def)
  have free: "x \<notin> iv_bytes (ss_pending s) \<and> x \<notin> iv_bytes (ss_completed s)"
    if "hm_get (ss_active s) i = Some l" "x \<in> lease_span l" for i l
    using partition_free [OF part hm_get_in [OF that(1)]] that(2) by auto
  have two: "i = j" if "hm_get (ss_active s) i = Some l" "x \<in> lease_span l"
    "hm_get (ss_active s) j = Some k" "x \<in> lease_span k" for i l j k
    using partition_disjoint [OF part hm_get_in [OF that(1)] hm_get_in [OF that(3)]] that by auto
  show ?thesis
    using assms(2,3) PC free two by (cases v; cases w) auto
qed

lemma owner_exists:
  assumes inv: "sched_inv s"
  shows "(\<exists>w. owns s w x) \<longleftrightarrow> x < ss_total_size s"
proof -
  have d: "hm_distinct (ss_active s)" using inv by (simp add: sched_inv_def sched_inv_gen_def)
  have "iv_bytes (ss_pending s) \<union> iv_bytes (ss_completed s) \<union> (\<Union>p\<in>set (ss_active s). lease_span (snd p))
      = {..<ss_total_size s}"
    using inv by (simp add: sched_inv_def sched_inv_gen_def byte_partition_def)
  then have "x < ss_total_size s \<longleftrightarrow> owns s OwnPending x \<or> owns s OwnCompleted x
      \<or> (\<exists>p\<in>set (ss_active s). x \<in> lease_span (snd p))"
    by auto
  also have "(\<exists>p\<in>set (ss_active s). x \<in> lease_span (snd p)) \<longleftrightarrow> (\<exists>i. owns s (OwnLease i) x)"
    using d by (force simp: hm_get_iff)
  finally show ?thesis by (metis byte_owner.exhaust)
qed

section \<open>Counting\<close>

lemma sum_u64_exact: "sum_list xs \<le> u64_max \<Longrightarrow> sum_u64 xs = sum_list xs"
proof -
  have "acc + sum_list xs \<le> u64_max \<Longrightarrow> fold (\<lambda>x acc. u64_add acc x) xs acc = acc + sum_list xs" for acc
    by (induction xs arbitrary: acc) (auto simp: u64_exact)
  from this [of 0] show "sum_list xs \<le> u64_max \<Longrightarrow> ?thesis" by (simp add: sum_u64_def)
qed

lemma lease_remaining_exact:
  "lease_ok n g m (i, l) \<Longrightarrow> n \<le> u64_max \<Longrightarrow> lease_remaining l = sl_end l + 1 - sl_next_offset l"
  by (auto simp: lease_remaining_def lease_ok_def u64_exact)

lemma lease_card:
  "lease_ok n g m (i, l) \<Longrightarrow> n \<le> u64_max \<Longrightarrow>
   card (lease_span l) = lease_remaining l + (sl_next_offset l - sl_start l)"
  by (auto simp: lease_remaining_exact lease_span_def) (auto simp: lease_ok_def)

lemma partition_card:
  assumes "byte_partition n P C L" "finite P" "finite C" "finite L"
    and "\<And>p q. p \<in> L \<Longrightarrow> q \<in> L \<Longrightarrow> fst p = fst q \<Longrightarrow> p = q"
  shows "card P + card C + (\<Sum>p\<in>L. card (lease_span (snd p))) = n"
proof -
  let ?U = "\<Union>p\<in>L. lease_span (snd p)"
  have fin: "finite ?U" using assms(4) by (simp add: lease_span_def)
  have "card ?U = (\<Sum>p\<in>L. card (lease_span (snd p)))"
  proof (intro card_UN_disjoint assms(4))
    show "\<forall>p\<in>L. \<forall>q\<in>L. p \<noteq> q \<longrightarrow> lease_span (snd p) \<inter> lease_span (snd q) = {}"
      using assms(5) partition_disjoint [OF assms(1)] by metis
  qed (simp add: lease_span_def)
  moreover have "card (P \<union> C) = card P + card C"
    using assms(1-3) by (intro card_Un_disjoint) (auto simp: byte_partition_def)
  moreover have "card (P \<union> C \<union> ?U) = card (P \<union> C) + card ?U"
  proof (intro card_Un_disjoint fin)
    show "(P \<union> C) \<inter> ?U = {}" using partition_free [OF assms(1)] by blast
  qed (use assms in simp)
  moreover have "card (P \<union> C \<union> ?U) = n" using assms(1) by (simp add: byte_partition_def)
  ultimately show ?thesis by simp
qed

lemma sched_inv_count:
  assumes inv: "sched_inv s"
  shows "card (iv_bytes (ss_pending s)) + card (iv_bytes (ss_completed s))
    + sum_list (map lease_remaining (map snd (ss_active s)))
    + sum_list (map (\<lambda>l. sat_sub (sl_next_offset l) (sl_start l)) (map snd (ss_active s))) = ss_total_size s"
proof -
  let ?A = "ss_active s"
  have g: "sched_inv_gen (ss_generation s) s" using inv by (simp add: sched_inv_def)
  have d: "hm_distinct ?A" and N: "ss_total_size s \<le> u64_max"
    and ok: "\<forall>p\<in>set ?A. lease_ok (ss_total_size s) (ss_generation s) (ss_next_lease s) p"
    using g by (auto simp: sched_inv_gen_def)
  have uniq: "\<And>p q. p \<in> set ?A \<Longrightarrow> q \<in> set ?A \<Longrightarrow> fst p = fst q \<Longrightarrow> p = q"
    using d by (metis eq_key_imp_eq_value prod.collapse)
  have "(\<Sum>p\<in>set ?A. card (lease_span (snd p)))
      = (\<Sum>p\<in>set ?A. lease_remaining (snd p) + (sl_next_offset (snd p) - sl_start (snd p)))"
    using ok N by (intro sum.cong) (auto simp: lease_card)
  also have "\<dots> = sum_list (map (lease_remaining \<circ> snd) ?A)
      + sum_list (map ((\<lambda>l. sl_next_offset l - sl_start l) \<circ> snd) ?A)"
    by (simp add: sum.distrib sum_list_hm [OF d])
  finally have spans: "(\<Sum>p\<in>set ?A. card (lease_span (snd p))) = sum_list (map (lease_remaining \<circ> snd) ?A)
      + sum_list (map ((\<lambda>l. sl_next_offset l - sl_start l) \<circ> snd) ?A)" .
  have part: "byte_partition (ss_total_size s) (iv_bytes (ss_pending s)) (iv_bytes (ss_completed s)) (set ?A)"
    using g by (simp add: sched_inv_gen_def)
  have "card (iv_bytes (ss_pending s)) + card (iv_bytes (ss_completed s))
      + (\<Sum>p\<in>set ?A. card (lease_span (snd p))) = ss_total_size s"
    by (rule partition_card [OF part _ _ _ uniq]) simp_all
  then show ?thesis unfolding spans by (simp add: comp_def)
qed

lemma ranges_meet_iff:
  "a \<le> b \<Longrightarrow> fst p \<le> snd p \<Longrightarrow> ranges_meet (a, b) p \<longleftrightarrow> {a..b} \<inter> {fst p..snd p} \<noteq> {}"
  by (cases p) (auto simp: ranges_meet_def)

lemma meets_union: "A \<inter> (\<Union>x\<in>S. B x) \<noteq> {} \<longleftrightarrow> (\<exists>x\<in>S. A \<inter> B x \<noteq> {})"
  by blast

lemma meets_bytes:
  assumes "iv_wf m" "a \<le> b"
  shows "(\<exists>p\<in>set (iv_ranges m). ranges_meet (a, b) p) \<longleftrightarrow> {a..b} \<inter> iv_bytes m \<noteq> {}"
proof -
  have "ranges_meet (a, b) p \<longleftrightarrow> {a..b} \<inter> {fst p..snd p} \<noteq> {}" if "p \<in> set m" for p
    using ranges_meet_iff [OF assms(2)] assms(1) that by (simp add: iv_wf_def)
  then have "(\<exists>p\<in>set (iv_ranges m). ranges_meet (a, b) p) \<longleftrightarrow> (\<exists>p\<in>set m. {a..b} \<inter> {fst p..snd p} \<noteq> {})"
    unfolding iv_ranges_def by simp
  also have "\<dots> \<longleftrightarrow> {a..b} \<inter> iv_bytes m \<noteq> {}"
    unfolding iv_bytes_def by (rule meets_union [symmetric])
  finally show ?thesis .
qed

lemma inv_invariants_hold:
  assumes inv: "sched_inv s"
  shows "invariants_hold s"
proof -
  let ?A = "ss_active s" and ?P = "ss_pending s" and ?C = "ss_completed s" and ?n = "ss_total_size s"
  have g: "sched_inv_gen (ss_generation s) s" using inv by (simp add: sched_inv_def)
  have d: "hm_distinct ?A" and N: "?n \<le> u64_max" and wf: "iv_wf ?P" "iv_wf ?C"
    and ok: "\<forall>p\<in>set ?A. lease_ok ?n (ss_generation s) (ss_next_lease s) p"
    and part: "byte_partition ?n (iv_bytes ?P) (iv_bytes ?C) (set ?A)"
    using g by (auto simp: sched_inv_gen_def)
  note sub = sched_inv_bytes [OF g]
  have len: "iv_len ?P = card (iv_bytes ?P)" "iv_len ?C = card (iv_bytes ?C)"
    using iv_len_within [OF wf(1) sub(1) N] iv_len_within [OF wf(2) sub(2) N] by auto
  note count = sched_inv_count [OF inv]
  have sums: "active_bytes s = sum_list (map lease_remaining (map snd ?A))"
    "sum_u64 (map (\<lambda>l. sat_sub (sl_next_offset l) (sl_start l)) (map snd ?A))
      = sum_list (map (\<lambda>l. sat_sub (sl_next_offset l) (sl_start l)) (map snd ?A))"
    unfolding active_bytes_def using count N by (intro sum_u64_exact; simp)+
  have total: "u64_add (u64_add (u64_add (iv_len ?C) (active_bytes s)) (pending_bytes s))
      (sum_u64 (map (\<lambda>l. sat_sub (sl_next_offset l) (sl_start l)) (map snd ?A))) = ?n"
    using count N unfolding sums pending_bytes_def len by (simp add: u64_exact)
  have PC: "\<not> (\<exists>p\<in>set (iv_ranges ?P). \<exists>c\<in>set (iv_ranges ?C). ranges_meet p c)"
  proof
    assume "\<exists>p\<in>set (iv_ranges ?P). \<exists>c\<in>set (iv_ranges ?C). ranges_meet p c"
    then obtain a b where ab: "(a, b) \<in> set ?P" "\<exists>c\<in>set (iv_ranges ?C). ranges_meet (a, b) c"
      by (auto simp: iv_ranges_def)
    then have "{a..b} \<inter> iv_bytes ?C \<noteq> {}" using meets_bytes [OF wf(2)] iv_wf_range [OF wf(1)] by blast
    moreover have "{a..b} \<subseteq> iv_bytes ?P" using ab(1) by (auto intro: iv_bytesI)
    ultimately show False using part by (auto simp: byte_partition_def)
  qed
  have act: "\<not> (sl_next_offset l \<le> sl_end l \<and>
        ((\<exists>c\<in>set (iv_ranges ?C). ranges_meet (sl_next_offset l, sl_end l) c) \<or>
         (\<exists>p\<in>set (iv_ranges ?P). ranges_meet (sl_next_offset l, sl_end l) p)) \<or> ?n \<le> sl_end l)"
    if l: "l \<in> set (map snd ?A)" for l
  proof -
    from l obtain i where i: "(i, l) \<in> set ?A" by auto
    then have "lease_ok ?n (ss_generation s) (ss_next_lease s) (i, l)" using ok by blast
    then have "{sl_next_offset l..sl_end l} \<subseteq> lease_span l" "sl_end l < ?n"
      by (auto simp: lease_ok_def lease_span_def)
    then show ?thesis
      using partition_free [OF part i] meets_bytes [OF wf(1)] meets_bytes [OF wf(2)] by auto blast+
  qed
  show ?thesis
  proof (cases "?n = 0")
    case True
    then have "iv_bytes ?P = {}" "iv_bytes ?C = {}" using sub by auto
    moreover have "?A = []" using ok True by (cases ?A) (auto simp: lease_ok_def)
    ultimately show ?thesis
      using True wf by (simp add: invariants_hold_def iv_is_empty_def iv_bytes_empty_iff)
  next
    case False
    then show ?thesis
      unfolding invariants_hold_def using PC act total by (simp only: if_False) (auto simp del: set_map)
  qed
qed

section \<open>Settled bytes\<close>

text \<open>The bytes a checkpoint may claim: completed ranges and the acknowledged prefix of each lease.\<close>

definition settled_bytes :: "'f segment_scheduler \<Rightarrow> nat set" where
  "settled_bytes s = iv_bytes (ss_completed s)
     \<union> (\<Union>p\<in>set (ss_active s). {sl_start (snd p)..<sl_next_offset (snd p)})"

lemma settled_ranges_correct:
  assumes inv: "sched_inv s"
  shows "iv_wf (settled_ranges s) \<and> iv_bytes (settled_ranges s) = settled_bytes s"
proof -
  let ?f = "\<lambda>l settled. if sl_start l < sl_next_offset l
     then iv_insert settled (sl_start l) (sat_sub (sl_next_offset l) 1) else settled"
  have g: "sched_inv_gen (ss_generation s) s" using inv by (simp add: sched_inv_def)
  have fold: "\<forall>l\<in>set ls. sl_next_offset l \<le> u64_max \<Longrightarrow> iv_wf c \<Longrightarrow>
      iv_wf (fold ?f ls c) \<and> iv_bytes (fold ?f ls c) = iv_bytes c \<union> (\<Union>l\<in>set ls. {sl_start l..<sl_next_offset l})"
    for ls c
  proof (induction ls arbitrary: c)
    case (Cons l ls)
    have "iv_wf (?f l c) \<and> iv_bytes (?f l c) = iv_bytes c \<union> {sl_start l..<sl_next_offset l}"
    proof (cases "sl_start l < sl_next_offset l")
      case True
      have "{sl_start l..sat_sub (sl_next_offset l) 1} = {sl_start l..<sl_next_offset l}" using True by auto
      moreover have "sat_sub (sl_next_offset l) 1 \<le> u64_max" using Cons.prems(1) by auto
      ultimately show ?thesis using True iv_insert_correct [OF Cons.prems(2)] by simp
    qed (use Cons.prems in auto)
    then show ?case using Cons.IH [of "?f l c"] Cons.prems(1) by auto
  qed simp
  have "\<forall>l\<in>set (map snd (ss_active s)). sl_next_offset l \<le> u64_max" "iv_wf (ss_completed s)"
    using g by (fastforce simp: sched_inv_gen_def lease_ok_def)+
  from fold [OF this] show ?thesis by (simp add: settled_ranges_def iv_ranges_def settled_bytes_def)
qed

lemma settledI:
  "x \<in> iv_bytes (ss_completed s) \<Longrightarrow> x \<in> settled_bytes s"
  "(i, l) \<in> set (ss_active s) \<Longrightarrow> sl_start l \<le> x \<Longrightarrow> x < sl_next_offset l \<Longrightarrow> x \<in> settled_bytes s"
  by (force simp: settled_bytes_def)+

end
