(* ===== verification/Scheduler_Props.thy ===== *)
theory Scheduler_Props
  imports Scheduler_Runs
begin

text \<open>
  The properties of the byte scheduler: ownership in every reachable state, the engine's own
  accounting check, the contract of each operation, the settled bytes along runs, and that a
  worker loop drains the pending set.
\<close>

section \<open>Shared facts\<close>

lemma sched_inv_wf:
  assumes "sched_inv s"
  shows "iv_wf (ss_pending s)" "iv_wf (ss_completed s)" "ss_total_size s \<le> u64_max" "policy_ok (ss_policy s)"
    "hm_distinct (ss_active s)"
  using assms by (simp_all add: sched_inv_def sched_inv_gen_def)

lemma sched_inv_part:
  assumes "sched_inv s"
  shows "byte_partition (ss_total_size s) (iv_bytes (ss_pending s)) (iv_bytes (ss_completed s)) (set (ss_active s))"
  using assms by (simp add: sched_inv_def sched_inv_gen_def)

lemma sched_inv_get:
  assumes "sched_inv s" "hm_get (ss_active s) i = Some l"
  shows "lease_ok (ss_total_size s) (ss_generation s) (ss_next_lease s) (i, l)"
  using assms sched_inv_lease by (auto simp: sched_inv_def)

lemma sched_inv_len:
  assumes "sched_inv s"
  shows "iv_len (ss_pending s) = card (iv_bytes (ss_pending s))" "iv_len (ss_completed s) = card (iv_bytes (ss_completed s))"
  using iv_len_within [OF sched_inv_wf(1) [OF assms]] iv_len_within [OF sched_inv_wf(2) [OF assms]]
    sched_inv_bytes [OF assms [unfolded sched_inv_def]] sched_inv_wf(3) [OF assms] by auto

lemma complete_iff_all:
  assumes inv: "sched_inv s"
  shows "is_complete s \<longleftrightarrow> iv_bytes (ss_completed s) = {..<ss_total_size s}"
proof -
  have sub: "iv_bytes (ss_completed s) \<subseteq> {..<ss_total_size s}"
    using sched_inv_bytes(2) inv by (auto simp: sched_inv_def)
  have "card (iv_bytes (ss_completed s)) = ss_total_size s \<Longrightarrow> iv_bytes (ss_completed s) = {..<ss_total_size s}"
    using card_subset_eq [OF _ sub] by simp
  then show ?thesis using sub by (auto simp: is_complete_def sched_inv_len [OF inv])
qed

lemma finished_iff_complete:
  assumes inv: "sched_inv s"
  shows "is_finished s \<longleftrightarrow> is_complete s"
proof -
  note part = sched_inv_part [OF inv]
  have pend: "iv_is_empty (ss_pending s) \<longleftrightarrow> iv_bytes (ss_pending s) = {}"
    using iv_bytes_empty_iff [OF sched_inv_wf(1) [OF inv]] by (simp add: iv_is_empty_def)
  have lease: "lease_span (snd p) \<noteq> {} \<and> lease_span (snd p) \<subseteq> {..<ss_total_size s}" if "p \<in> set (ss_active s)" for p
    using inv that by (fastforce simp: sched_inv_def sched_inv_gen_def lease_ok_def lease_span_def)
  show ?thesis
  proof
    assume "is_finished s"
    then have "iv_bytes (ss_pending s) = {}" "ss_active s = []" using pend by (auto simp: is_finished_def)
    then show "is_complete s" using part by (simp add: complete_iff_all [OF inv] byte_partition_def)
  next
    assume "is_complete s"
    then have all: "iv_bytes (ss_completed s) = {..<ss_total_size s}" by (simp add: complete_iff_all [OF inv])
    then have "iv_bytes (ss_pending s) = {}"
      using part sched_inv_bytes(1) inv by (fastforce simp: byte_partition_def sched_inv_def)
    moreover have "p \<notin> set (ss_active s)" for p
      using lease [of p] partition_free [OF part, of p] all by blast
    ultimately show "is_finished s" using pend by (cases "ss_active s") (auto simp: is_finished_def)
  qed
qed

section \<open>Ownership and the engine's own check\<close>

text \<open>
  Claim C2: in every state the scheduler can reach, by any interleaving of its operations with any
  arguments, each byte below the resource size has exactly one owner (pending, completed or one
  active lease) and no byte beyond it has any.
\<close>

theorem byte_owner_unique:
  assumes "sched_reach F s"
  shows "if x < ss_total_size s then (\<exists>!w. owns s w x) else (\<forall>w. \<not> owns s w x)"
  using owner_exists [OF sched_reach_inv [OF assms], of x] owner_unique [OF sched_reach_inv [OF assms], of _ x]
  by (auto; blast)

theorem byte_owner_unique_witness:
  "\<exists>!w. owns (sched_apply rat_ops (OpAcquire 0) (initialize rat_ops 100 [(0, 9)] (policy_new 8 16))) w 20"
proof -
  let ?s = "initialize rat_ops 100 [(0, 9)] (policy_new 8 16)"
  have "sched_reach rat_ops ?s" by (rule sched_reach.init) (simp_all add: policy_ok_new u64_max_def)
  then have "sched_reach rat_ops (sched_apply rat_ops (OpAcquire 0) ?s)"
    by (rule sched_reach.step) (simp_all add: u64_max_def)
  moreover have "ss_total_size (sched_apply rat_ops (OpAcquire 0) ?s) = 100"
    by (simp add: sched_acquire_def Let_def split: list.split)
  ultimately show ?thesis
    using byte_owner_unique [of rat_ops "sched_apply rat_ops (OpAcquire 0) ?s" 20] by simp
qed

text \<open>
  Claim C9: the runtime self-check \<open>invariants_hold\<close> (pairwise disjointness and the byte sum,
  computed in wrapping arithmetic) returns true in every reachable state.
\<close>

theorem invariants_hold_reachable:
  assumes "sched_reach F s"
  shows "invariants_hold s"
  by (rule inv_invariants_hold [OF sched_reach_inv [OF assms]])

theorem invariants_hold_reachable_witness:
  "invariants_hold (sched_apply rat_ops OpBump (sched_apply rat_ops (OpAcquire 0)
     (initialize rat_ops 1000 [(10, 99)] (policy_new 8 64))))"
proof -
  let ?s = "initialize rat_ops 1000 [(10, 99)] (policy_new 8 64)"
  have "sched_reach rat_ops ?s" by (rule sched_reach.init) (simp_all add: policy_ok_new u64_max_def)
  then have a: "sched_reach rat_ops (sched_apply rat_ops (OpAcquire 0) ?s)"
    by (rule sched_reach.step) (simp_all add: u64_max_def)
  have "ss_next_lease (sched_apply rat_ops (OpAcquire 0) ?s) < u64_max"
    "ss_generation (sched_apply rat_ops (OpAcquire 0) ?s) < u64_max"
    by (simp_all add: sched_acquire_def Let_def u64_defs u64_max_def split: list.split)
  from sched_reach.step [OF a this, of OpBump] show ?thesis
    by (rule invariants_hold_reachable)
qed

section \<open>The contract of acquire\<close>

definition acquire_grants :: "'f segment_scheduler \<Rightarrow> segment_lease \<Rightarrow> 'f segment_scheduler \<Rightarrow> bool" where
  "acquire_grants s l t \<longleftrightarrow>
     sl_generation l = ss_generation s \<and> sl_next_offset l = sl_start l \<and> sl_start l \<le> sl_end l
     \<and> hm_get (ss_active s) (sl_id l) = None
     \<and> (\<forall>i. hm_get (ss_active t) i = (if i = sl_id l then Some l else hm_get (ss_active s) i))
     \<and> lease_span l \<subseteq> iv_bytes (ss_pending s) \<and> (\<forall>x\<in>iv_bytes (ss_pending s). sl_start l \<le> x)
     \<and> iv_bytes (ss_pending t) = iv_bytes (ss_pending s) - lease_span l
     \<and> ss_completed t = ss_completed s
     \<and> card (lease_span l) \<le> sp_max_segment_size (ss_policy s)
     \<and> (sp_min_segment_size (ss_policy s) \<le> card (lease_span l) \<or> sl_end l + 1 \<notin> iv_bytes (ss_pending s))"

lemma acquire_correct:
  assumes inv: "sched_inv s"
  shows "case sched_acquire F now s of
      (None, t) \<Rightarrow> t = s \<and> iv_bytes (ss_pending s) = {}
    | (Some l, t) \<Rightarrow> acquire_grants s l t"
  using inv
proof (cases rule: acquire_cases [where F = F and now = now])
  case empty
  then show ?thesis by simp
next
  case (carve k v rest e lease)
  let ?w = "target_len_for_gap F s (v - k + 1)"
  note wf = sched_inv_wf [OF inv]
  have rest: "k \<le> v" "v \<le> u64_max" "\<forall>q\<in>set rest. v + 1 < fst q" using wf(1) carve(1) by (auto simp: iv_wf_Cons)
  then have after: "\<forall>x\<in>iv_bytes rest. v + 1 < x" by (fastforce elim: iv_bytesE)
  have w: "min (sp_min_segment_size (ss_policy s)) (v - k + 1) \<le> ?w" "?w \<le> min (sp_max_segment_size (ss_policy s)) (v - k + 1)"
    using target_len_for_gap_bounds [OF wf(4), of "v - k + 1" F] by auto
  have "1 \<le> ?w" using w(1) wf(4) by (auto simp: policy_ok_def)
  then have "e + 1 - k = ?w" using carve(4) by arith
  then have span: "lease_span lease = {k..e}" "card (lease_span lease) = ?w"
    using carve(6) by (simp_all add: lease_span_def)
  have "hm_get (ss_active s) (ss_next_lease s) = None"
    using sched_inv_get [OF inv] by (cases "hm_get (ss_active s) (ss_next_lease s)") (auto simp: lease_ok_def)
  moreover have "iv_bytes (iv_subtract (ss_pending s) k e) = iv_bytes (ss_pending s) - {k..e}"
    using iv_subtract_correct [OF wf(1), of e k] carve(3) rest(2) by simp
  moreover have "sp_min_segment_size (ss_policy s) \<le> ?w \<or> e + 1 \<notin> iv_bytes (ss_pending s)"
  proof (rule disjCI)
    assume "\<not> e + 1 \<notin> iv_bytes (ss_pending s)"
    then have "e < v" using after carve(1-3) by force
    then have "?w < v - k + 1" using carve(2,4) by arith
    then show "sp_min_segment_size (ss_policy s) \<le> ?w" using w(1) by auto
  qed
  moreover have "\<forall>x\<in>iv_bytes (ss_pending s). k \<le> x" "{k..e} \<subseteq> iv_bytes (ss_pending s)"
    using carve(1,3) rest(1) after by force+
  ultimately show ?thesis
    using carve(2,6,7) w span by (simp add: acquire_grants_def update_conv')
qed

text \<open>
  In a reachable state \<open>acquire\<close> returns \<open>None\<close>, changing nothing, exactly when no byte
  is pending; otherwise it moves the lowest pending bytes, and only those, into a lease with an
  unused id and the current generation, no longer than the maximum segment and at least the minimum
  one unless it takes the whole gap.
\<close>

lemma acquire_contract:
  assumes "sched_reach F s"
  shows "case sched_acquire F now s of
      (None, t) \<Rightarrow> t = s \<and> iv_bytes (ss_pending s) = {}
    | (Some l, t) \<Rightarrow> acquire_grants s l t"
  by (rule acquire_correct [OF sched_reach_inv [OF assms]])

section \<open>Splitting\<close>

text \<open>
  Claim C4: \<open>split_tail\<close> on a reachable state either refuses and changes nothing, or cuts one lease
  in two: the sibling has a fresh id and the current generation, starts strictly beyond both the
  acknowledged and the received offset (no byte the owner already took from the network changes
  hands), both parts are non-empty, and together they are the old span.
\<close>

theorem split_tail_contract:
  assumes "sched_reach F s"
  shows "case split_tail now i g min_tail received_through s of
      (None, t) \<Rightarrow> t = s
    | (Some sib, t) \<Rightarrow> (\<exists>l l'. hm_get (ss_active s) i = Some l \<and> sl_generation l = g
        \<and> hm_get (ss_active t) i = Some l' \<and> hm_get (ss_active t) (sl_id sib) = Some sib
        \<and> hm_get (ss_active s) (sl_id sib) = None \<and> sl_generation sib = ss_generation s
        \<and> sl_next_offset sib = sl_start sib
        \<and> sl_next_offset l' = sl_next_offset l \<and> sl_start l' = sl_start l
        \<and> max (sl_next_offset l) received_through < sl_start sib
        \<and> lease_span l' \<noteq> {} \<and> lease_span sib \<noteq> {}
        \<and> lease_span l' \<inter> lease_span sib = {} \<and> lease_span l' \<union> lease_span sib = lease_span l
        \<and> ss_pending t = ss_pending s \<and> ss_completed t = ss_completed s)"
  using sched_reach_inv [OF assms]
proof (cases rule: split_tail_cases
    [where now = now and i = i and g = g and min_tail = min_tail and recv = received_through])
  case refuse
  then show ?thesis by simp
next
  case (split l c sib t)
  have ok: "lease_ok (ss_total_size s) (ss_generation s) (ss_next_lease s) (i, l)"
    using sched_inv_get [OF sched_reach_inv [OF assms] split(1)] .
  have new: "hm_get (ss_active s) (ss_next_lease s) = None"
    using sched_inv_get [OF sched_reach_inv [OF assms]]
    by (cases "hm_get (ss_active s) (ss_next_lease s)") (auto simp: lease_ok_def)
  have "i \<noteq> ss_next_lease s" using ok by (auto simp: lease_ok_def)
  then show ?thesis
    using split ok new
    by (auto simp: update_conv' lease_span_def lease_ok_def intro!: exI [of _ "l\<lparr>sl_end := c - 1\<rparr>"])
qed

theorem split_tail_contract_witness:
  "fst (split_tail 5 1 1 4 7 (sched_apply rat_ops (OpAcquire 0) (initialize rat_ops 100 [] (policy_new 8 16))))
    = Some \<lparr>sl_id = 2, sl_generation = 1, sl_start = 12, sl_end = 15, sl_next_offset = 12\<rparr>
   \<and> 7 < (12::nat)"
proof -
  let ?i = "initialize rat_ops 100 [] (policy_new 8 16)"
  let ?s = "sched_apply rat_ops (OpAcquire 0) ?i"
  have "sched_reach rat_ops ?i" by (rule sched_reach.init) (simp_all add: policy_ok_new u64_max_def)
  then have "sched_reach rat_ops ?s" by (rule sched_reach.step) (simp_all add: u64_max_def)
  note c = split_tail_contract [OF this, of 5 1 1 4 7]
  have "fst (split_tail 5 1 1 4 7 ?s)
      = Some \<lparr>sl_id = 2, sl_generation = 1, sl_start = 12, sl_end = 15, sl_next_offset = 12\<rparr>"
    by code_simp
  then show ?thesis using c by (cases "split_tail 5 1 1 4 7 ?s") auto
qed

section \<open>Stale callers\<close>

definition same_ownership :: "'f segment_scheduler \<Rightarrow> 'f segment_scheduler \<Rightarrow> bool" where
  "same_ownership s t \<longleftrightarrow> ss_pending t = ss_pending s \<and> ss_completed t = ss_completed s
     \<and> map_of (ss_active t) = map_of (ss_active s) \<and> ss_generation t = ss_generation s
     \<and> ss_next_lease t = ss_next_lease s"

lemma put_back_same: "hm_get m k = Some v \<Longrightarrow> map_of (hm_insert k v (hm_remove k m)) = map_of m"
  by (auto simp: update_conv' delete_conv')

text \<open>
  After a restart or a failover the old generation is dead. A caller that names a lease
  which is not active, or an active one with another generation, is refused by every operation on
  leases, and pending, completed and the table of leases are unchanged.
\<close>

lemma stale_lease_refused:
  assumes "\<And>l. hm_get (ss_active s) i = Some l \<Longrightarrow> sl_generation l \<noteq> g"
  shows "\<not> fst (report_progress i g x s) \<and> same_ownership s (snd (report_progress i g x s))
    \<and> \<not> fst (sched_complete F now i g s) \<and> same_ownership s (snd (sched_complete F now i g s))
    \<and> \<not> fst (sched_fail F now i g s) \<and> same_ownership s (snd (sched_fail F now i g s))
    \<and> \<not> fst (sched_release i g s) \<and> same_ownership s (snd (sched_release i g s))
    \<and> fst (split_tail now i g m r s) = None \<and> same_ownership s (snd (split_tail now i g m r s))
    \<and> sched_lease_end i g s = None"
  using assms
  by (cases "hm_get (ss_active s) i")
    (simp_all add: same_ownership_def report_progress_def sched_complete_def sched_fail_def
      sched_release_def split_tail_def sched_lease_end_def Let_def put_back_same)

text \<open>
  \<open>release\<close> drops the acquisition instant of the lease before it looks at the
  generation, so a refused, stale \<open>release\<close> still clears the clock of the live lease; a refused
  \<open>fail\<close> or \<open>complete\<close> does not.
\<close>

lemma stale_release_clears_clock:
  assumes "hm_get (ss_active s) i = Some l" "sl_generation l \<noteq> g" "hm_get (ss_acquired_at s) i = Some c"
  shows "\<not> fst (sched_release i g s) \<and> hm_get (ss_acquired_at (snd (sched_release i g s))) i = None
    \<and> hm_get (ss_acquired_at (snd (sched_fail F now i g s))) i = Some c
    \<and> hm_get (ss_acquired_at (snd (sched_complete F now i g s))) i = Some c"
  using assms by (simp add: sched_release_def sched_fail_def sched_complete_def Let_def delete_conv')

section \<open>Settled bytes only grow\<close>

lemma settled_mono:
  assumes "iv_bytes (ss_completed s) \<subseteq> settled_bytes t"
    and "\<And>i l. (i, l) \<in> set (ss_active s) \<Longrightarrow> {sl_start l..<sl_next_offset l} \<subseteq> settled_bytes t"
  shows "settled_bytes s \<subseteq> settled_bytes t"
  using assms by (force simp: settled_bytes_def [of s])

text \<open>A step that only replaces some leases, each by one with the same acknowledged prefix or a longer one.\<close>

lemma settled_mono_leases:
  assumes "ss_completed t = ss_completed s"
    and "\<And>i l. (i, l) \<in> set (ss_active s) \<Longrightarrow> \<exists>l'. (i, l') \<in> set (ss_active t)
      \<and> sl_start l' = sl_start l \<and> sl_next_offset l \<le> sl_next_offset l'"
  shows "settled_bytes s \<subseteq> settled_bytes t"
proof (rule settled_mono)
  fix i l assume "(i, l) \<in> set (ss_active s)"
  from assms(2) [OF this] show "{sl_start l..<sl_next_offset l} \<subseteq> settled_bytes t"
    by (auto intro: settledI(2))
qed (use assms(1) in \<open>auto intro: settledI(1)\<close>)

text \<open>A step that removes lease \<open>i\<close> and completes its acknowledged prefix, at least.\<close>

lemma settled_mono_remove:
  assumes "hm_distinct (ss_active s)" "hm_get (ss_active s) i = Some l"
    and "set (ss_active t) = {p \<in> set (ss_active s). fst p \<noteq> i}"
    and "iv_bytes (ss_completed s) \<union> {sl_start l..<sl_next_offset l} \<subseteq> iv_bytes (ss_completed t)"
  shows "settled_bytes s \<subseteq> settled_bytes t"
proof (rule settled_mono)
  fix j k assume jk: "(j, k) \<in> set (ss_active s)"
  show "{sl_start k..<sl_next_offset k} \<subseteq> settled_bytes t"
  proof (cases "j = i")
    case True
    then have "k = l" using jk assms(1,2) hm_get_iff by (metis option.inject)
    then show ?thesis using assms(4) by (auto intro: settledI(1))
  next
    case False
    then show ?thesis using jk assms(3) by (auto intro: settledI(2))
  qed
qed (use assms(4) in \<open>auto intro: settledI(1)\<close>)

lemma requeue_settles:
  assumes inv: "sched_inv_gen g s" and l: "hm_get (ss_active s) i = Some l"
    and t: "ss_total_size t = ss_total_size s" "ss_active t = hm_remove i (ss_active s)"
      "ss_pending t = ss_pending s" "ss_completed t = ss_completed s"
  shows "settled_bytes s \<subseteq> settled_bytes (requeue l t)"
proof (rule settled_mono_remove [OF _ l])
  show d: "hm_distinct (ss_active s)" using inv by (simp add: sched_inv_gen_def)
  show "set (ss_active (requeue l t)) = {p \<in> set (ss_active s). fst p \<noteq> i}" by (simp add: t)
  have "lease_ok (ss_total_size t) g (ss_next_lease s) (i, l)" using sched_inv_lease [OF inv l] t by simp
  from requeue_correct(4) [OF this] show "iv_bytes (ss_completed s) \<union> {sl_start l..<sl_next_offset l}
      \<subseteq> iv_bytes (ss_completed (requeue l t))"
    using inv t by (simp add: sched_inv_gen_def)
qed

lemma settled_same_leases:
  "ss_completed t = ss_completed s \<Longrightarrow> set (ss_active t) = set (ss_active s) \<Longrightarrow> settled_bytes t = settled_bytes s"
  by (simp add: settled_bytes_def)

lemma settled_put_back:
  assumes "sched_inv s" "hm_get (ss_active s) i = Some l" "ss_completed t = ss_completed s"
    "ss_active t = hm_insert i l (hm_remove i (ss_active s))"
  shows "settled_bytes t = settled_bytes s"
  using settled_same_leases [OF assms(3)] hm_put_back [OF sched_inv_wf(5) [OF assms(1)] assms(2)] assms(4) by simp

lemma settled_acquire:
  assumes inv: "sched_inv s"
  shows "settled_bytes s \<subseteq> settled_bytes (snd (sched_acquire F now s))"
  using inv
proof (cases rule: acquire_cases [where F = F and now = now])
  case (carve k v rest e lease)
  have "fst p \<noteq> ss_next_lease s" if "p \<in> set (ss_active s)" for p
    using inv that by (auto simp: sched_inv_def sched_inv_gen_def lease_ok_def)
  then show ?thesis
    using sched_inv_wf(5) [OF inv] carve(7) by (intro settled_mono_leases) (auto simp: set_hm_insert)
qed simp

lemma settled_report:
  assumes inv: "sched_inv s"
  shows "settled_bytes s \<subseteq> settled_bytes (snd (report_progress i g x s))"
proof (cases rule: report_progress_cases [of i g x s])
  case (advance l)
  have ok: "sl_next_offset l \<le> min x (sat_add (sl_end l) 1)"
    using sched_inv_get [OF inv advance(1)] sched_inv_wf(3) [OF inv] advance(3)
    by (auto simp: lease_ok_def sat_add_def)
  have uniq: "k = l" if "(i, k) \<in> set (ss_active s)" for k
    using that advance(1) sched_inv_wf(5) [OF inv] hm_get_iff by (metis option.inject)
  show ?thesis
  proof (rule settled_mono_leases)
    fix j k assume "(j, k) \<in> set (ss_active s)"
    then show "\<exists>l'. (j, l') \<in> set (ss_active (snd (report_progress i g x s)))
        \<and> sl_start l' = sl_start k \<and> sl_next_offset k \<le> sl_next_offset l'"
      using sched_inv_wf(5) [OF inv] advance(4) ok uniq by (cases "j = i") (auto simp: set_hm_insert)
  qed (simp add: advance(4))
qed simp_all

lemma settled_absorb:
  "sched_inv s \<Longrightarrow> settled_bytes s \<subseteq> settled_bytes (snd (absorb_worker_progress cells s))"
proof (induction cells arbitrary: s)
  case (Cons cell cells)
  have "settled_bytes s \<subseteq> settled_bytes (snd (absorb_cell cell s))"
    using settled_report [OF Cons.prems]
    by (auto simp: absorb_cell_def Let_def split: option.splits prod.splits bool.splits)
      (metis snd_conv subsetD)+
  also have "\<dots> \<subseteq> settled_bytes (snd (absorb_worker_progress cells (snd (absorb_cell cell s))))"
    by (rule Cons.IH [OF absorb_cell_inv [OF Cons.prems]])
  finally show ?case by (auto simp: Let_def case_prod_beta')
qed simp

lemma settled_complete:
  assumes inv: "sched_inv s"
  shows "settled_bytes s \<subseteq> settled_bytes (snd (sched_complete F now i g s))"
proof (cases "hm_get (ss_active s) i")
  case (Some l)
  show ?thesis
  proof (cases "sl_generation l = g")
    case False
    then show ?thesis
      using settled_put_back [OF inv Some, of "snd (sched_complete F now i g s)"]
      by (simp add: sched_complete_def Some Let_def)
  next
    case True
    have ok: "lease_ok (ss_total_size s) (ss_generation s) (ss_next_lease s) (i, l)"
      using sched_inv_get [OF inv Some] .
    have "sl_end l \<le> u64_max" using ok sched_inv_wf(3) [OF inv] by (auto simp: lease_ok_def)
    then have "iv_bytes (ss_completed (snd (sched_complete F now i g s)))
        = iv_bytes (ss_completed s) \<union> {sl_start l..sl_end l}"
      using True iv_insert_correct [OF sched_inv_wf(2) [OF inv]] by (simp add: sched_complete_def Some Let_def)
    moreover have "{sl_start l..<sl_next_offset l} \<subseteq> {sl_start l..sl_end l}" using ok by (auto simp: lease_ok_def)
    moreover have "set (ss_active (snd (sched_complete F now i g s))) = {p \<in> set (ss_active s). fst p \<noteq> i}"
      using True by (simp add: sched_complete_def Some Let_def)
    ultimately show ?thesis
      by (intro settled_mono_remove [OF sched_inv_wf(5) [OF inv] Some]) blast+
  qed
qed (simp add: sched_complete_def)

lemma settled_fail:
  assumes inv: "sched_inv s"
  shows "settled_bytes s \<subseteq> settled_bytes (snd (sched_fail F now i g s))"
proof (cases "hm_get (ss_active s) i")
  case (Some l)
  show ?thesis
  proof (cases "sl_generation l = g")
    case False
    then show ?thesis
      using settled_put_back [OF inv Some, of "snd (sched_fail F now i g s)"]
      by (simp add: sched_fail_def Some Let_def)
  next
    case True
    then show ?thesis
      by (simp add: sched_fail_def Some Let_def)
        (rule requeue_settles [OF inv [unfolded sched_inv_def] Some]; simp)
  qed
qed (simp add: sched_fail_def)

lemma settled_release:
  assumes inv: "sched_inv s"
  shows "settled_bytes s \<subseteq> settled_bytes (snd (sched_release i g s))"
proof (cases "hm_get (ss_active s) i")
  case (Some l)
  show ?thesis
  proof (cases "sl_generation l = g")
    case False
    then show ?thesis
      using settled_put_back [OF inv Some, of "snd (sched_release i g s)"]
      by (simp add: sched_release_def Some Let_def)
  next
    case True
    then show ?thesis
      by (simp add: sched_release_def Some Let_def)
        (rule requeue_settles [OF inv [unfolded sched_inv_def] Some]; simp)
  qed
qed (simp add: sched_release_def)

lemma settled_split:
  assumes inv: "sched_inv s"
  shows "settled_bytes s \<subseteq> settled_bytes (snd (split_tail now i g m r s))"
  using inv
proof (cases rule: split_tail_cases [where now = now and i = i and g = g and min_tail = m and recv = r])
  case (split l c sib t)
  note d = sched_inv_wf(5) [OF inv]
  have new: "fst p \<noteq> ss_next_lease s" if "p \<in> set (ss_active s)" for p
    using inv that by (auto simp: sched_inv_def sched_inv_gen_def lease_ok_def)
  have uniq: "k = l" if "(i, k) \<in> set (ss_active s)" for k
    using that split(1) d hm_get_iff by (metis option.inject)
  have "i \<noteq> ss_next_lease s" using new [OF hm_get_in [OF split(1)]] by simp
  then have act: "(i, l\<lparr>sl_end := c - 1\<rparr>) \<in> set (ss_active t)"
      "\<And>p. p \<in> set (ss_active s) \<Longrightarrow> fst p \<noteq> i \<Longrightarrow> p \<in> set (ss_active t)"
    using d new by (auto simp: split(8) set_hm_insert AList.distinct_update)
  have "settled_bytes s \<subseteq> settled_bytes t"
  proof (rule settled_mono_leases [OF split(11)])
    fix j k assume jk: "(j, k) \<in> set (ss_active s)"
    show "\<exists>l'. (j, l') \<in> set (ss_active t) \<and> sl_start l' = sl_start k \<and> sl_next_offset k \<le> sl_next_offset l'"
      using act(1) act(2) [OF jk] uniq jk
      by (cases "j = i") (auto intro: exI [of _ "l\<lparr>sl_end := c - 1\<rparr>"])
  qed
  then show ?thesis by (simp add: split(7))
qed simp

lemma settled_bump_fold:
  assumes "sched_inv_gen g s" "hm_distinct ls" "set ls = set (ss_active s)"
  shows "settled_bytes s \<subseteq> settled_bytes (fold (\<lambda>(i, l) t. requeue l (t\<lparr>ss_active := hm_remove i (ss_active t)\<rparr>)) ls s)"
  using assms
proof (induction ls arbitrary: s)
  case (Cons p ls)
  obtain i l where p: "p = (i, l)" by force
  let ?t = "requeue l (s\<lparr>ss_active := hm_remove i (ss_active s)\<rparr>)"
  have d: "hm_distinct (ss_active s)" "policy_ok (ss_policy s)" using Cons.prems(1) by (simp_all add: sched_inv_gen_def)
  have l: "hm_get (ss_active s) i = Some l" using Cons.prems(3) p d(1) by (metis hm_get_iff list.set_intros(1))
  then have inv: "sched_inv_gen g ?t" by (rule inv_requeue [OF Cons.prems(1)]) (simp_all add: d)
  have "set ls = set (ss_active ?t)" using Cons.prems(2,3) p by (auto simp: image_iff)
  from Cons.IH [OF inv _ this] have "settled_bytes ?t
      \<subseteq> settled_bytes (fold (\<lambda>(i, l) t. requeue l (t\<lparr>ss_active := hm_remove i (ss_active t)\<rparr>)) ls ?t)"
    using Cons.prems(2) p by simp
  moreover have "settled_bytes s \<subseteq> settled_bytes ?t" by (rule requeue_settles [OF Cons.prems(1) l]) simp_all
  ultimately show ?case using p by simp
qed simp

lemma settled_bump:
  assumes inv: "sched_inv s"
  shows "settled_bytes s \<subseteq> settled_bytes (snd (bump_generation s))"
proof -
  let ?s1 = "s\<lparr>ss_generation := u64_add (ss_generation s) 1\<rparr>"
  have "sched_inv_gen (ss_generation s) ?s1" "hm_distinct (ss_active ?s1)"
    using inv by (simp_all add: sched_inv_def sched_inv_gen_def)
  from settled_bump_fold [OF this refl] show ?thesis by (simp add: bump_generation_def Let_def settled_bytes_def)
qed

lemma settled_divisor: "settled_bytes (set_ready_work_divisor d s) = settled_bytes s"
  by (simp add: set_ready_work_divisor_def settled_bytes_def)

lemma settled_apply: "sched_inv s \<Longrightarrow> settled_bytes s \<subseteq> settled_bytes (sched_apply F op s)"
  by (cases op)
    (simp_all add: settled_acquire settled_report settled_absorb settled_complete settled_fail
      settled_release settled_split settled_bump settled_divisor)

text \<open>
  Claim C5: \<open>settled_ranges\<close>, what the checkpoint records, is a normalized set of exactly the
  completed bytes and the acknowledged prefixes of the active leases, and no operation, a
  generation bump included, ever takes a byte out of it.
\<close>

theorem settled_ranges_monotone:
  assumes "sched_reach F s" "ss_next_lease s < u64_max"
  shows "iv_wf (settled_ranges s) \<and> iv_bytes (settled_ranges s) = settled_bytes s
    \<and> iv_bytes (settled_ranges s) \<subseteq> iv_bytes (settled_ranges (sched_apply F op s))"
  using settled_ranges_correct [OF sched_reach_inv [OF assms(1)]]
    settled_ranges_correct [OF sched_apply_inv [OF sched_reach_inv [OF assms(1)] assms(2)], of F op]
    settled_apply [OF sched_reach_inv [OF assms(1)], of F op] by simp

theorem settled_ranges_monotone_witness:
  "iv_bytes (settled_ranges (initialize rat_ops 100 [(0, 9)] (policy_new 8 16)))
    \<subseteq> iv_bytes (settled_ranges (sched_apply rat_ops OpBump (initialize rat_ops 100 [(0, 9)] (policy_new 8 16))))"
proof -
  let ?s = "initialize rat_ops 100 [(0, 9)] (policy_new 8 16)"
  have "sched_reach rat_ops ?s" by (rule sched_reach.init) (simp_all add: policy_ok_new u64_max_def)
  moreover have "ss_next_lease ?s < u64_max" by (simp add: u64_max_def)
  ultimately show ?thesis using settled_ranges_monotone [of rat_ops ?s OpBump] by blast
qed

text \<open>
  Claim C7: a restart loses nothing that was settled and re-downloads everything else. A scheduler
  initialized from the settled ranges of a reachable one has exactly those bytes completed (the
  same normalized set) and exactly the rest of the resource pending.
\<close>

theorem resume_from_settled:
  assumes "sched_reach F s"
  shows "ss_completed (initialize F (ss_total_size s) (settled_ranges s) p) = settled_ranges s
    \<and> iv_bytes (ss_pending (initialize F (ss_total_size s) (settled_ranges s) p))
      = {..<ss_total_size s} - settled_bytes s"
proof -
  note inv = sched_reach_inv [OF assms]
  note part = sched_inv_part [OF inv]
  note settled = settled_ranges_correct [OF inv]
  have "settled_bytes s \<subseteq> {..<ss_total_size s}"
  proof -
    have "{sl_start l..<sl_next_offset l} \<subseteq> {..<ss_total_size s}" if "(i, l) \<in> set (ss_active s)" for i l
      using inv that by (fastforce simp: sched_inv_def sched_inv_gen_def lease_ok_def)
    then show ?thesis using part by (fastforce simp: settled_bytes_def byte_partition_def)
  qed
  then have "settled_bytes s \<inter> {..<ss_total_size s} = settled_bytes s" by blast
  then show ?thesis
    using initialize_correct [OF sched_inv_wf(3) [OF inv], of F "settled_ranges s" p] settled
    by (auto intro!: iv_unique)
qed

theorem resume_from_settled_witness:
  "ss_completed (initialize rat_ops 100 (settled_ranges (initialize rat_ops 100 [(0, 9)] (policy_new 8 16))) (policy_new 1 4))
    = settled_ranges (initialize rat_ops 100 [(0, 9)] (policy_new 8 16))"
proof -
  let ?s = "initialize rat_ops 100 [(0, 9)] (policy_new 8 16)"
  have "sched_reach rat_ops ?s" by (rule sched_reach.init) (simp_all add: policy_ok_new u64_max_def)
  from resume_from_settled [OF this, of "policy_new 1 4"] show ?thesis by simp
qed

section \<open>Draining the pending set\<close>

text \<open>
  The loop of a worker. In each round it acquires a lease at one instant and, at another, completes it or, when
  the transfer did not succeed, fails it; the two instants and the outcome of every round are arbitrary, so
  the durations that the sampler sees, and with them the sizes of the next leases, are too.
\<close>

fun drain :: "'f f64_ops \<Rightarrow> (instant \<times> instant \<times> bool) list \<Rightarrow> 'f segment_scheduler \<Rightarrow> 'f segment_scheduler" where
  "drain F [] s = s"
| "drain F ((acquired, ended, ok) # rounds) s =
     (case sched_acquire F acquired s of
        (None, t) \<Rightarrow> t
      | (Some l, t) \<Rightarrow> drain F rounds (snd (if ok then sched_complete F ended (sl_id l) (sl_generation l) t
                                          else sched_fail F ended (sl_id l) (sl_generation l) t)))"

abbreviation successful :: "(instant \<times> instant \<times> bool) list \<Rightarrow> nat" where
  "successful rounds \<equiv> length (filter (\<lambda>(acquired, ended, ok). ok) rounds)"

lemma acquire_step:
  assumes inv: "sched_inv s" and "sched_acquire F now s = (Some l, t)"
  shows "card (iv_bytes (ss_pending t)) < card (iv_bytes (ss_pending s))"
    and "ss_next_lease t = u64_add (ss_next_lease s) 1"
    and "hm_get (ss_active s) (sl_id l) = None"
    and "ss_active t = hm_insert (sl_id l) l (ss_active s)"
proof -
  have g: "acquire_grants s l t" using acquire_correct [OF inv, of F now] assms(2) by simp
  then have "sl_start l \<in> iv_bytes (ss_pending s)" "sl_start l \<notin> iv_bytes (ss_pending t)"
    "iv_bytes (ss_pending t) \<subseteq> iv_bytes (ss_pending s)"
    by (auto simp: acquire_grants_def lease_span_def)
  then show "card (iv_bytes (ss_pending t)) < card (iv_bytes (ss_pending s))"
    by (intro psubset_card_mono) auto
  show "hm_get (ss_active s) (sl_id l) = None" using g by (simp add: acquire_grants_def)
  have "ss_next_lease t = u64_add (ss_next_lease s) 1 \<and> ss_active t = hm_insert (sl_id l) l (ss_active s)"
    using inv
  proof (cases rule: acquire_cases [where F = F and now = now])
    case (carve k v rest e lease)
    then show ?thesis using assms(2) carve(6) by auto
  qed (use assms(2) in simp)
  then show "ss_next_lease t = u64_add (ss_next_lease s) 1" "ss_active t = hm_insert (sl_id l) l (ss_active s)"
    by blast+
qed

lemma no_bytes_finished:
  assumes "sched_inv s" "iv_bytes (ss_pending s) = {}" "ss_active s = []"
  shows "is_finished s"
  using assms(2,3) iv_bytes_empty_iff [OF sched_inv_wf(1) [OF assms(1)]] by (simp add: is_finished_def iv_is_empty_def)

lemma hm_insert_remove: "hm_get m k = None \<Longrightarrow> hm_remove k (hm_insert k v m) = m"
  by (induction m) (auto simp: AList.delete_eq)

lemma round_completed:
  assumes "sched_inv s" "sched_acquire F t0 s = (Some l, t)"
  fixes t1 defines "u \<equiv> snd (sched_complete F t1 (sl_id l) (sl_generation l) t)"
  shows "ss_active u = ss_active s" "ss_next_lease u = ss_next_lease t" "ss_pending u = ss_pending t"
proof -
  note step = acquire_step [OF assms(1,2)]
  then have "hm_get (ss_active t) (sl_id l) = Some l" by (simp add: update_conv')
  then show "ss_active u = ss_active s" "ss_next_lease u = ss_next_lease t" "ss_pending u = ss_pending t"
    using step by (simp_all add: u_def sched_complete_def Let_def hm_insert_remove)
qed

lemma round_failed:
  assumes "sched_inv s" "sched_acquire F t0 s = (Some l, t)" "sched_inv t"
  fixes t1 defines "u \<equiv> snd (sched_fail F t1 (sl_id l) (sl_generation l) t)"
  shows "ss_active u = ss_active s" "ss_next_lease u = ss_next_lease t"
    "iv_bytes (ss_pending u) = iv_bytes (ss_pending s)"
proof -
  note step = acquire_step [OF assms(1,2)]
  have g: "acquire_grants s l t" using acquire_correct [OF assms(1), of F t0] assms(2) by simp
  have get: "hm_get (ss_active t) (sl_id l) = Some l" using step by (simp add: update_conv')
  then show "ss_active u = ss_active s" "ss_next_lease u = ss_next_lease t"
    using step by (simp_all add: u_def sched_fail_def requeue_def Let_def hm_insert_remove)
  have "sl_next_offset l = sl_start l" "lease_span l \<subseteq> iv_bytes (ss_pending s)" "sl_start l \<le> sl_end l"
    "iv_bytes (ss_pending t) = iv_bytes (ss_pending s) - lease_span l" using g by (simp_all add: acquire_grants_def)
  moreover have "iv_wf (ss_pending t)" using sched_inv_wf(1) [OF assms(3)] .
  moreover have "sl_end l \<le> u64_max"
    using sched_inv_get [OF assms(3) get] sched_inv_wf(3) [OF assms(3)] by (auto simp: lease_ok_def)
  ultimately show "iv_bytes (ss_pending u) = iv_bytes (ss_pending s)"
    using get by (auto simp: u_def sched_fail_def requeue_def Let_def iv_bytes_insert lease_span_def)
qed

lemma drain_correct:
  assumes "sched_inv s" "card (iv_bytes (ss_pending s)) \<le> successful rounds"
    "ss_next_lease s + length rounds \<le> u64_max"
  shows "sched_inv (drain F rounds s) \<and> iv_bytes (ss_pending (drain F rounds s)) = {}
    \<and> ss_active (drain F rounds s) = ss_active s"
  using assms
proof (induction F rounds s rule: drain.induct)
  case (2 F t0 t1 ok rounds s)
  obtain r t where rt: "sched_acquire F t0 s = (r, t)" by force
  show ?case
  proof (cases r)
    case None
    then show ?thesis using acquire_correct [OF 2(2), of F t0] rt 2(2) by auto
  next
    case (Some l)
    have acq: "sched_acquire F t0 s = (Some l, t)" using rt Some by simp
    note step = acquire_step [OF 2(2) acq]
    have t: "sched_inv t" using acquire_inv [OF 2(2), of F t0] acq 2(4) by simp
    let ?u = "snd (if ok then sched_complete F t1 (sl_id l) (sl_generation l) t
                   else sched_fail F t1 (sl_id l) (sl_generation l) t)"
    have u: "sched_inv ?u" by (simp add: complete_inv fail_inv t)
    have keep: "ss_active ?u = ss_active s" "ss_next_lease ?u = ss_next_lease t"
      using round_completed [OF 2(2) acq] round_failed [OF 2(2) acq t] by auto
    have "card (iv_bytes (ss_pending ?u)) \<le> successful rounds"
      using round_completed(3) [OF 2(2) acq, of t1] round_failed(3) [OF 2(2) acq t, of t1] step(1) 2(3) by auto
    moreover have "ss_next_lease ?u + length rounds \<le> u64_max"
      using keep(2) step(2) 2(4) by (simp add: u64_exact)
    ultimately have "sched_inv (drain F rounds ?u) \<and> iv_bytes (ss_pending (drain F rounds ?u)) = {}
      \<and> ss_active (drain F rounds ?u) = ss_active ?u"
      using 2(1) [OF acq [symmetric] refl] u by blast
    then show ?thesis using acq keep(1) by simp
  qed
qed simp

text \<open>
  Claim C8: progress. From every reachable state of the scheduler, with any leases in flight and any duration
  estimates, a worker that keeps acquiring leases empties the pending set: it is enough that as many of its
  rounds succeed as there are pending bytes, whatever the instants of the rounds are and however many rounds
  fail in between. The leases of others are left alone; and when there are none, every byte of the resource is
  completed then.
\<close>

theorem drain_completes:
  assumes "sched_reach F s" "card (iv_bytes (ss_pending s)) \<le> successful rounds"
    "ss_next_lease s + length rounds \<le> u64_max"
  shows "iv_bytes (ss_pending (drain F rounds s)) = {}
    \<and> ss_active (drain F rounds s) = ss_active s
    \<and> (ss_active s = [] \<longrightarrow> is_finished (drain F rounds s) \<and> is_complete (drain F rounds s))"
  using drain_correct [OF sched_reach_inv [OF assms(1)] assms(2,3), of F] no_bytes_finished
    finished_iff_complete by metis

text \<open>
  The rounds of the witness take longer and longer, so that the duration sampler becomes stable, and every
  fourth one fails.
\<close>

definition demo_rounds :: "(instant \<times> instant \<times> bool) list" where
  "demo_rounds = map (\<lambda>k. (k * 10 ^ 9, k * 10 ^ 9 + (k + 1) * 10 ^ 6, k mod 4 \<noteq> 3)) [0..<40]"

definition demo_scheduler :: "rat segment_scheduler" where
  "demo_scheduler = initialize rat_ops 60 [(10, 49)] ((policy_new 1 8)\<lparr>sp_target := DurationTarget 2 1\<rparr>)"

theorem drain_completes_witness:
  "is_complete (drain rat_ops demo_rounds demo_scheduler)
   \<and> map_option dt_samples (ss_duration_target (drain rat_ops (take 5 demo_rounds) demo_scheduler)) = Some 4"
proof -
  have r: "sched_reach rat_ops demo_scheduler"
    unfolding demo_scheduler_def by (rule sched_reach.init) (simp_all add: policy_ok_def policy_new_def u64_max_def)
  have p: "ss_pending demo_scheduler = [(0, 9), (50, 59)]" by code_simp
  have "iv_bytes (ss_pending demo_scheduler) = {0..9} \<union> {50..59}" unfolding p by (auto simp: iv_bytes_def)
  then have "card (iv_bytes (ss_pending demo_scheduler)) \<le> 20"
    using card_Un_le [of "{0..9::nat}" "{50..59}"] by simp
  moreover have "successful demo_rounds = 30" by code_simp
  ultimately have c: "card (iv_bytes (ss_pending demo_scheduler)) \<le> successful demo_rounds" by simp
  have n: "ss_next_lease demo_scheduler + length demo_rounds \<le> u64_max" by code_simp
  have "ss_active demo_scheduler = []" by code_simp
  moreover have "map_option dt_samples (ss_duration_target (drain rat_ops (take 5 demo_rounds) demo_scheduler)) = Some 4"
    by code_simp
  ultimately show ?thesis using drain_completes [OF r c n] by blast
qed

end
