(* ===== verification/Segment_Plan.thy ===== *)
theory Segment_Plan
  imports Interval_Set
begin

text \<open>
  Initial segmentation (\<open>scheduler/mod.rs\<close>): \<open>plan_segments\<close> picks the segment size and
  \<open>tile_ranges\<close> cuts \<open>[0, total)\<close> into contiguous ranges of that size.
\<close>

section \<open>Operations\<close>

definition OVERSUBSCRIPTION_FACTOR :: u64 where
  "OVERSUBSCRIPTION_FACTOR = 3"

text \<open>
  The loop of \<open>tile_ranges\<close> from offset \<open>start\<close>, with the end of the range it pushes as a
  definition of its own. The loop condition is the first conjunct of the guard; the second is the
  bound of the type \<open>u64\<close> and the third holds because \<open>tile_ranges\<close> raises \<open>chunk\<close> to at
  least 1 (without them the saturating addition would stop making progress).
\<close>

definition tile_end :: "u64 \<Rightarrow> u64 \<Rightarrow> u64 \<Rightarrow> u64" where
  "tile_end total_size chunk start = min (sat_sub (sat_add start chunk) 1) (total_size - 1)"

function tile_from :: "u64 \<Rightarrow> u64 \<Rightarrow> u64 \<Rightarrow> byte_range list" where
  "tile_from total_size chunk start =
     (if start < total_size \<and> total_size \<le> u64_max \<and> 1 \<le> chunk then
        (start, tile_end total_size chunk start)
          # tile_from total_size chunk (tile_end total_size chunk start + 1)
      else [])"
  by pat_completeness auto

lemma tile_end_bounds: "start < total_size \<Longrightarrow> total_size \<le> u64_max \<Longrightarrow> 1 \<le> chunk \<Longrightarrow>
    start \<le> tile_end total_size chunk start \<and> tile_end total_size chunk start < total_size"
  by (auto simp: sat_add_def tile_end_def)

termination tile_from
proof (relation "measure (\<lambda>(total_size, chunk, start). total_size - start)", goal_cases)
  case (2 total_size chunk start)
  then show ?case using tile_end_bounds [of start total_size chunk] by auto
qed simp

declare tile_from.simps [simp del]

definition tile_ranges :: "u64 \<Rightarrow> u64 \<Rightarrow> byte_range list" where
  "tile_ranges total_size chunk = tile_from total_size (max chunk 1) 0"

definition plan_segments :: "u64 \<Rightarrow> u32 \<Rightarrow> u64 \<Rightarrow> u64 \<Rightarrow> u64 \<times> byte_range list" where
  "plan_segments total_size target_workers min_segment_size max_segment_size =
     (if total_size = 0 then (0, [])
      else
        let target_workers = max target_workers 1;
            min_segment_size = max min_segment_size 1;
            max_segment_size = max max_segment_size min_segment_size;
            oversubscribed = max (sat_mul target_workers OVERSUBSCRIPTION_FACTOR) 1;
            raw = div_ceil total_size oversubscribed;
            segment_size = clamp min_segment_size max_segment_size raw
        in (segment_size, tile_ranges total_size segment_size))"

section \<open>Tiling\<close>

text \<open>A tiling of \<open>[a, n)\<close>: consecutive, non-empty ranges of at most \<open>c\<close> bytes.\<close>

fun tiles :: "nat \<Rightarrow> nat \<Rightarrow> nat \<Rightarrow> byte_range list \<Rightarrow> bool" where
  "tiles c a n [] \<longleftrightarrow> n \<le> a"
| "tiles c a n ((s, e) # rs) \<longleftrightarrow> s = a \<and> s \<le> e \<and> e < n \<and> e - s + 1 \<le> c
     \<and> (rs \<noteq> [] \<longrightarrow> e - s + 1 = c) \<and> tiles c (e + 1) n rs"

lemma tile_from_tiles:
  "total_size \<le> u64_max \<Longrightarrow> 0 < chunk \<Longrightarrow> tiles chunk start total_size (tile_from total_size chunk start)"
proof (induction total_size chunk start rule: tile_from.induct)
  case (1 total_size chunk start)
  note unfold = tile_from.simps [of total_size chunk start]
  show ?case
  proof (cases "start < total_size")
    case True
    define e where "e = tile_end total_size chunk start"
    have IH: "tiles chunk (e + 1) total_size (tile_from total_size chunk (e + 1))"
      using "1.IH" True "1.prems" by (simp add: e_def)
    have e: "start \<le> e" "e < total_size"
      using tile_end_bounds [of start total_size chunk] True "1.prems" by (simp_all add: e_def)
    have le: "e - start + 1 \<le> chunk"
      using True "1.prems" by (auto simp: e_def tile_end_def sat_add_def)
    have full: "e - start + 1 = chunk" if "tile_from total_size chunk (e + 1) \<noteq> []"
    proof -
      have "e + 1 < total_size"
        using that by (simp add: tile_from.simps [of total_size chunk "Suc e"] split: if_splits)
      then show ?thesis
        using True "1.prems" by (auto simp: e_def tile_end_def sat_add_def min_def split: if_splits)
    qed
    show ?thesis
      using True "1.prems" e le full IH by (simp add: unfold e_def [symmetric])
  next
    case False
    then show ?thesis by (simp add: unfold)
  qed
qed

lemma tiles_bytes: "tiles c a n rs \<Longrightarrow> iv_bytes rs = {a..<n}"
proof (induction rs arbitrary: a)
  case (Cons r rs)
  obtain s e where r: "r = (s, e)" by force
  with Cons have "iv_bytes rs = {e + 1..<n}" "s = a" "s \<le> e" "e < n" by auto
  then show ?case by (auto simp: r)
qed simp

lemma tiles_length:
  "0 < c \<Longrightarrow> tiles c a n rs \<Longrightarrow> a \<le> n \<Longrightarrow> length rs = div_ceil (n - a) c"
proof (induction rs arbitrary: a)
  case Nil
  then show ?case by (simp add: div_ceil_def)
next
  case (Cons r rs)
  obtain s e where r: "r = (s, e)" by force
  with Cons.prems have p: "s = a" "s \<le> e" "e < n" "e - s + 1 \<le> c" "tiles c (e + 1) n rs"
      "rs \<noteq> [] \<longrightarrow> e - s + 1 = c" by auto
  with Cons.IH [OF Cons.prems(1) p(5)] have IH: "length rs = div_ceil (n - (e + 1)) c" by auto
  show ?case
  proof (cases "rs = []")
    case True
    then have n: "n = e + 1" using p by auto
    then have "n - a \<le> c" "0 < n - a" using p by auto
    then have "div_ceil (n - a) c = 1"
      by (cases "n - a = c") (auto simp: div_ceil_def)
    with True show ?thesis by simp
  next
    case False
    then have "n - a = (n - (e + 1)) + c" using p by auto
    then have "div_ceil (n - a) c = Suc (div_ceil (n - (e + 1)) c)"
      using Cons.prems(1) by (simp add: div_ceil_def)
    with IH show ?thesis by simp
  qed
qed

section \<open>Properties\<close>

text \<open>
  For a non-empty file the planned segment size lies within the (sanitised) policy bounds,
  and the ranges tile \<open>[0, total)\<close>: they start at 0, each starts right after the one before, all
  but the last have exactly the segment size, the last ends at \<open>total - 1\<close>, together they cover
  every byte, and there are \<open>ceil(total / segment_size)\<close> of them.
\<close>

lemma plan_segments_tiles:
  assumes "0 < total_size" "total_size \<le> u64_max"
    and plan: "plan_segments total_size workers min_size max_size = (seg, ranges)"
  shows "max min_size 1 \<le> seg \<and> seg \<le> max max_size (max min_size 1)
    \<and> tiles seg 0 total_size ranges \<and> iv_bytes ranges = {..<total_size}
    \<and> length ranges = div_ceil total_size seg"
proof -
  have seg: "max min_size 1 \<le> seg \<and> seg \<le> max max_size (max min_size 1)"
      and ranges: "ranges = tile_ranges total_size seg"
    using plan assms(1) clamp_bounds [of "max min_size 1" "max max_size (max min_size 1)"]
    by (auto simp: plan_segments_def Let_def)
  then have "0 < seg" by auto
  then have "max seg 1 = seg" by simp
  then have t: "tiles seg 0 total_size ranges"
    using tile_from_tiles [OF assms(2) \<open>0 < seg\<close>, of 0] ranges by (simp add: tile_ranges_def)
  show ?thesis
    using seg t tiles_bytes [OF t] tiles_length [OF \<open>0 < seg\<close> t] by (simp add: atLeast0LessThan)
qed

end
