(* ===== verification/Lease_Progress.thy ===== *)
theory Lease_Progress
  imports Segment_Scheduler
begin

text \<open>
  The worker cells of \<open>job/segmented.rs\<close>: the sequence-counter cell through which one worker
  publishes its lease progress to concurrent readers, and the first-wins terminal failure latch.

  All accesses of the cell are sequentially consistent, so a run is an interleaving of single
  loads and stores: the writer is the list of stores it has still to do, the reader is the program
  point inside \<open>snapshot\<close>.
\<close>

section \<open>The cell\<close>

record lease_progress =
  lp_sequence :: u64
  lp_lease_id :: u64
  lp_generation :: u64
  lp_lease_start :: u64
  lp_written_through :: u64
  lp_received_through :: u64

datatype cell_store =
    StSequence u64
  | StLeaseId u64
  | StGeneration u64
  | StLeaseStart u64
  | StWrittenThrough u64
  | StReceivedThrough u64

fun apply_store :: "cell_store \<Rightarrow> lease_progress \<Rightarrow> lease_progress" where
  "apply_store (StSequence v) c = c\<lparr>lp_sequence := v\<rparr>"
| "apply_store (StLeaseId v) c = c\<lparr>lp_lease_id := v\<rparr>"
| "apply_store (StGeneration v) c = c\<lparr>lp_generation := v\<rparr>"
| "apply_store (StLeaseStart v) c = c\<lparr>lp_lease_start := v\<rparr>"
| "apply_store (StWrittenThrough v) c = c\<lparr>lp_written_through := v\<rparr>"
| "apply_store (StReceivedThrough v) c = c\<lparr>lp_received_through := v\<rparr>"

text \<open>The stores of \<open>publish\<close> in program order, after its load of \<open>seq\<close>.\<close>

definition publish_stores :: "u64 \<Rightarrow> lease_record \<Rightarrow> cell_store list" where
  "publish_stores seq r =
     [StSequence (or seq 1),
      StLeaseId (pr_lease_id r),
      StGeneration (pr_generation r),
      StLeaseStart (pr_lease_start r),
      StWrittenThrough (pr_written_through r),
      StReceivedThrough (pr_received_through r),
      StSequence (u64_add (or seq 1) 1)]"

definition publish :: "lease_record \<Rightarrow> lease_progress \<Rightarrow> lease_progress" where
  "publish r c = fold apply_store (publish_stores (lp_sequence c) r) c"

definition idle_record :: lease_record where
  "idle_record = \<lparr>pr_lease_id = 0, pr_generation = 0, pr_lease_start = 0, pr_written_through = 0,
     pr_received_through = 0\<rparr>"

definition clear_cell :: "lease_progress \<Rightarrow> lease_progress" where
  "clear_cell c = publish idle_record c"

definition cell_default :: lease_progress where
  "cell_default = \<lparr>lp_sequence = 0, lp_lease_id = 0, lp_generation = 0, lp_lease_start = 0,
     lp_written_through = 0, lp_received_through = 0\<rparr>"

section \<open>The reader\<close>

definition cell_fields :: "lease_progress \<Rightarrow> u64 list" where
  "cell_fields c = [lp_lease_id c, lp_generation c, lp_lease_start c, lp_written_through c, lp_received_through c]"

definition record_fields :: "lease_record \<Rightarrow> u64 list" where
  "record_fields r = [pr_lease_id r, pr_generation r, pr_lease_start r, pr_written_through r, pr_received_through r]"

fun record_of :: "u64 list \<Rightarrow> lease_record" where
  "record_of [i, g, s, w, v] = \<lparr>pr_lease_id = i, pr_generation = g, pr_lease_start = s,
     pr_written_through = w, pr_received_through = v\<rparr>"
| "record_of _ = idle_record"

definition observe_record :: "lease_record \<Rightarrow> lease_record option" where
  "observe_record r = (if pr_lease_id r = 0 then None else Some r)"

text \<open>
  The program points of \<open>snapshot\<close>: before the first sequence load, after it with the field values
  loaded so far, and returned. One call of \<open>snapshot_step\<close> is one load.
\<close>

datatype snapshot_pc = SnapStart | SnapLoad u64 "u64 list" | SnapDone "lease_record option"

fun snapshot_step :: "lease_progress \<Rightarrow> snapshot_pc \<Rightarrow> snapshot_pc" where
  "snapshot_step c SnapStart =
     (if lp_sequence c mod 2 = 1 then SnapStart else SnapLoad (lp_sequence c) [])"
| "snapshot_step c (SnapLoad seq1 vs) =
     (if length vs < length (cell_fields c) then SnapLoad seq1 (vs @ [cell_fields c ! length vs])
      else if seq1 = lp_sequence c then SnapDone (observe_record (record_of vs))
      else SnapStart)"
| "snapshot_step c (SnapDone r) = SnapDone r"

text \<open>\<open>cell_received_through\<close>: over the snapshots of all cells.\<close>

definition cell_received_through :: "lease_record option list \<Rightarrow> u64 \<Rightarrow> u64" where
  "cell_received_through cells lease_id =
     fold max (map pr_received_through (filter (\<lambda>r. pr_lease_id r = lease_id) (List.map_filter id cells))) 0"

section \<open>Interleavings of the writer and one reader\<close>

record cell_run =
  cr_cell :: lease_progress
  cr_todo :: "cell_store list"
  cr_current :: lease_record
  cr_published :: "lease_record list"
  cr_reader :: snapshot_pc

text \<open>
  \<open>cr_current\<close> is the record of the publication in progress, \<open>cr_published\<close> the completed ones,
  newest first. The sequence has room for one more publication when one begins (the wrap of the
  64-bit counter is excluded).
\<close>

inductive cell_step :: "cell_run \<Rightarrow> cell_run \<Rightarrow> bool" where
  begin_publish: "cr_todo x = [] \<Longrightarrow> lp_sequence (cr_cell x) + 2 \<le> u64_max \<Longrightarrow>
    cell_step x (x\<lparr>cr_todo := publish_stores (lp_sequence (cr_cell x)) r, cr_current := r\<rparr>)"
| store: "cr_todo x = st # rest \<Longrightarrow>
    cell_step x (x\<lparr>cr_cell := apply_store st (cr_cell x), cr_todo := rest,
      cr_published := (if rest = [] then cr_current x # cr_published x else cr_published x)\<rparr>)"
| load: "cell_step x (x\<lparr>cr_reader := snapshot_step (cr_cell x) (cr_reader x)\<rparr>)"
| begin_snapshot: "cell_step x (x\<lparr>cr_reader := SnapStart\<rparr>)"

inductive cell_reach :: "cell_run \<Rightarrow> bool" where
  start: "cell_reach \<lparr>cr_cell = cell_default, cr_todo = [], cr_current = idle_record,
    cr_published = [idle_record], cr_reader = SnapStart\<rparr>"
| step: "cell_reach x \<Longrightarrow> cell_step x y \<Longrightarrow> cell_reach y"

text \<open>Where the writer stands, from the stores it still has to do.\<close>

definition writer_ok :: "cell_run \<Rightarrow> bool" where
  "writer_ok x \<longleftrightarrow>
     (even (lp_sequence (cr_cell x)) \<and> cell_fields (cr_cell x) = record_fields (hd (cr_published x))
       \<and> (cr_todo x = [] \<or> lp_sequence (cr_cell x) + 2 \<le> u64_max
            \<and> cr_todo x = publish_stores (lp_sequence (cr_cell x)) (cr_current x)))
     \<or> (\<exists>s k. even s \<and> s + 2 \<le> u64_max \<and> 1 \<le> k \<and> k \<le> 6 \<and> lp_sequence (cr_cell x) = s + 1
          \<and> cr_todo x = drop k (publish_stores s (cr_current x))
          \<and> take (k - 1) (cell_fields (cr_cell x)) = take (k - 1) (record_fields (cr_current x)))"

definition reader_ok :: "cell_run \<Rightarrow> bool" where
  "reader_ok x = (case cr_reader x of
      SnapLoad seq1 vs \<Rightarrow> even seq1 \<and> seq1 \<le> lp_sequence (cr_cell x) \<and> length vs \<le> 5
        \<and> (seq1 = lp_sequence (cr_cell x) \<longrightarrow> vs = take (length vs) (cell_fields (cr_cell x)))
    | _ \<Rightarrow> True)"

lemma length_cell_fields [simp]: "length (cell_fields c) = 5"
  by (simp add: cell_fields_def)

lemma or_one_even: "even n \<Longrightarrow> or n 1 = n + (1::nat)"
  by (simp add: or_Suc_0_eq)

lemma record_of_fields [simp]: "record_of (record_fields r) = r"
  by (simp add: record_fields_def)

lemma less6_cases: "1 \<le> k \<Longrightarrow> k \<le> (6::nat) \<Longrightarrow> k = 1 \<or> k = 2 \<or> k = 3 \<or> k = 4 \<or> k = 5 \<or> k = 6"
  by arith

lemma writer_store:
  assumes w: "writer_ok x" and todo: "cr_todo x = st # rest"
    and y: "y = x\<lparr>cr_cell := apply_store st (cr_cell x), cr_todo := rest,
      cr_published := (if rest = [] then cr_current x # cr_published x else cr_published x)\<rparr>"
  shows "writer_ok y \<and> lp_sequence (cr_cell x) \<le> lp_sequence (cr_cell y)
    \<and> (even (lp_sequence (cr_cell x)) \<longrightarrow> lp_sequence (cr_cell x) < lp_sequence (cr_cell y))
    \<and> (odd (lp_sequence (cr_cell x)) \<longrightarrow> lp_sequence (cr_cell y) = lp_sequence (cr_cell x)
         \<or> lp_sequence (cr_cell y) = lp_sequence (cr_cell x) + 1)"
proof -
  let ?s = "lp_sequence (cr_cell x)"
  from w todo consider
      (first) "even ?s" "?s + 2 \<le> u64_max" "cr_todo x = publish_stores ?s (cr_current x)"
    | (later) s k where "even s" "s + 2 \<le> u64_max" "1 \<le> k" "k \<le> 6" "?s = s + 1"
        "cr_todo x = drop k (publish_stores s (cr_current x))"
        "take (k - 1) (cell_fields (cr_cell x)) = take (k - 1) (record_fields (cr_current x))"
    unfolding writer_ok_def by auto
  then show ?thesis
  proof cases
    case first
    then have st: "st = StSequence (?s + 1)" "rest = drop 1 (publish_stores ?s (cr_current x))"
      using todo by (auto simp: publish_stores_def or_Suc_0_eq)
    have "writer_ok y"
      unfolding writer_ok_def
      by (rule disjI2, rule exI [of _ ?s], rule exI [of _ 1]) (use first st y in simp)
    then show ?thesis using st y by simp
  next
    case s: later
    show ?thesis
    proof (cases "k = 6")
      case True
      then have st: "st = StSequence (s + 2)" "rest = []"
        using todo s by (auto simp: publish_stores_def or_Suc_0_eq u64_exact)
      then show ?thesis
        using s True y unfolding writer_ok_def by (simp add: cell_fields_def record_fields_def)
    next
      case False
      have "writer_ok y \<and> lp_sequence (cr_cell y) = s + 1"
        unfolding writer_ok_def
        by (rule conjI [OF disjI2], rule exI [of _ s], rule exI [of _ "Suc k"])
          (use less6_cases [OF s(3,4)] False s todo y in
            \<open>auto simp: publish_stores_def cell_fields_def record_fields_def\<close>)
      then show ?thesis using s by simp
    qed
  qed
qed

lemma length_publish_stores [simp]: "length (publish_stores s r) = 7"
  by (simp add: publish_stores_def)

lemma writer_idle:
  assumes "writer_ok x" "cr_todo x = []"
  shows "even (lp_sequence (cr_cell x)) \<and> cell_fields (cr_cell x) = record_fields (hd (cr_published x))"
  using assms by (auto simp: writer_ok_def)

lemma reader_load:
  assumes "reader_ok x"
  shows "reader_ok (x\<lparr>cr_reader := snapshot_step (cr_cell x) (cr_reader x)\<rparr>)"
proof (cases "cr_reader x")
  case (SnapLoad seq1 vs)
  have "take (Suc (length vs)) (cell_fields (cr_cell x)) = vs @ [cell_fields (cr_cell x) ! length vs]"
    if "vs = take (length vs) (cell_fields (cr_cell x))" "length vs < 5"
    using that by (simp add: take_Suc_conv_app_nth)
  then show ?thesis using assms SnapLoad by (auto simp: reader_ok_def)
qed (use assms in \<open>auto simp: reader_ok_def\<close>)

lemma cell_inv: "cell_reach x \<Longrightarrow> writer_ok x \<and> reader_ok x"
proof (induction rule: cell_reach.induct)
  case start
  then show ?case
    by (simp add: writer_ok_def reader_ok_def cell_default_def idle_record_def cell_fields_def record_fields_def)
next
  case (step x y)
  from step.hyps(2) step.IH show ?case
  proof (cases rule: cell_step.cases)
    case (begin_publish r)
    have "writer_ok y"
      using begin_publish(3) writer_idle [OF conjunct1 [OF step.IH] begin_publish(2)]
      unfolding begin_publish(1) writer_ok_def by simp
    moreover have "reader_ok y" using step.IH by (auto simp: begin_publish(1) reader_ok_def split: snapshot_pc.splits)
    ultimately show ?thesis by blast
  next
    case (store st rest)
    note W = writer_store [OF conjunct1 [OF step.IH] store(2) store(1)]
    have "reader_ok y"
      using W step.IH store(1) by (auto simp: reader_ok_def split: snapshot_pc.splits)
    with W show ?thesis by blast
  next
    case load
    with step.IH reader_load [of x] show ?thesis by (simp add: writer_ok_def)
  next
    case begin_snapshot
    with step.IH show ?thesis by (simp add: reader_ok_def writer_ok_def)
  qed
qed

lemma idle_fields:
  assumes "writer_ok x" "even (lp_sequence (cr_cell x))"
  shows "cell_fields (cr_cell x) = record_fields (hd (cr_published x))"
  using assms by (auto simp: writer_ok_def)

text \<open>
  Claim C10: the sequence-counter cell never tears. In any interleaving of the stores of a worker's
  publications with the loads of \<open>snapshot\<close>, whenever \<open>snapshot\<close> returns, its result is the newest
  completed publication at the instant of its last load, read as idle when its lease id is 0.
\<close>

theorem snapshot_coherent:
  assumes "cell_reach x" "cr_reader x = SnapLoad seq1 vs"
    and "snapshot_step (cr_cell x) (cr_reader x) = SnapDone res"
  shows "res = observe_record (hd (cr_published x))"
proof -
  note inv = cell_inv [OF assms(1)]
  have seq: "seq1 = lp_sequence (cr_cell x)" and len: "\<not> length vs < 5" and res: "res = observe_record (record_of vs)"
    using assms(2,3) by (auto split: if_splits)
  then have "even (lp_sequence (cr_cell x))" "vs = cell_fields (cr_cell x)"
    using inv assms(2) by (auto simp: reader_ok_def)
  then show ?thesis using idle_fields [OF conjunct1 [OF inv]] res by simp
qed

definition demo_run :: cell_run where
  "demo_run = \<lparr>cr_cell = cell_default, cr_todo = [], cr_current = idle_record,
     cr_published = [idle_record], cr_reader = SnapLoad 0 [0, 0, 0, 0, 0]\<rparr>"

theorem snapshot_coherent_witness:
  "snapshot_step (cr_cell demo_run) (cr_reader demo_run) = SnapDone None
    \<and> observe_record (hd (cr_published demo_run)) = None"
proof -
  let ?x = "\<lambda>vs. \<lparr>cr_cell = cell_default, cr_todo = [], cr_current = idle_record,
     cr_published = [idle_record], cr_reader = SnapLoad 0 vs\<rparr>"
  have first: "cell_reach (?x [])"
    using cell_reach.step [OF cell_reach.start cell_step.load] by (simp add: cell_default_def)
  have next_load: "cell_reach (?x vs) \<Longrightarrow> length vs < 5 \<Longrightarrow> cell_reach (?x (vs @ [0]))" for vs
    using cell_reach.step [OF _ cell_step.load, of "?x vs"] less_Suc_eq
    by (auto simp: cell_default_def cell_fields_def nth_Cons' numeral_eq_Suc split: if_splits)
  have "cell_reach demo_run"
    using next_load [OF next_load [OF next_load [OF next_load [OF next_load [OF first]]]]]
    by (simp add: demo_run_def)
  moreover have "cr_reader demo_run = SnapLoad 0 [0, 0, 0, 0, 0]" by (simp add: demo_run_def)
  moreover have "snapshot_step (cr_cell demo_run) (cr_reader demo_run) = SnapDone None" by code_simp
  ultimately have "None = observe_record (hd (cr_published demo_run))" by (rule snapshot_coherent)
  then show ?thesis using \<open>snapshot_step (cr_cell demo_run) (cr_reader demo_run) = SnapDone None\<close> by simp
qed

lemma publish_fields:
  assumes "even (lp_sequence c)" "lp_sequence c + 2 \<le> u64_max"
  shows "cell_fields (publish r c) = record_fields r \<and> lp_sequence (publish r c) = lp_sequence c + 2"
  using assms by (simp add: publish_def publish_stores_def cell_fields_def record_fields_def or_Suc_0_eq u64_exact)

lemma quiet_snapshot:
  assumes "even (lp_sequence c)"
  shows "(snapshot_step c ^^ 7) SnapStart = SnapDone (observe_record (record_of (cell_fields c)))"
  using assms by (simp add: numeral_eq_Suc cell_fields_def)

text \<open>
  What a worker publishes is what a reader gets. After a publication on an idle cell a
  snapshot that meets no store returns after seven loads, with exactly the published record, and
  after \<open>clear\<close> it returns idle.
\<close>

lemma publish_snapshot_roundtrip:
  assumes "even (lp_sequence c)" "lp_sequence c + 2 \<le> u64_max"
  shows "(snapshot_step (publish r c) ^^ 7) SnapStart = SnapDone (if pr_lease_id r = 0 then None else Some r)
    \<and> (snapshot_step (clear_cell c) ^^ 7) SnapStart = SnapDone None"
proof -
  have even: "even (lp_sequence (publish q c))" for q using publish_fields [OF assms] assms(1) by simp
  have "(snapshot_step (publish q c) ^^ 7) SnapStart = SnapDone (observe_record q)" for q
    using quiet_snapshot [OF even] publish_fields [OF assms] by simp
  then show ?thesis by (simp add: observe_record_def clear_cell_def idle_record_def)
qed

section \<open>The terminal failure latch\<close>

record 'e fatal_state =
  fs_flag :: bool
  fs_error :: "'e option"

definition fatal_default :: "'e fatal_state" where
  "fatal_default = \<lparr>fs_flag = False, fs_error = None\<rparr>"

definition is_fatal :: "'e fatal_state \<Rightarrow> bool" where
  "is_fatal s = fs_flag s"

text \<open>The critical section of \<open>install\<close> under the mutex, then the store of the flag outside it.\<close>

definition install_locked :: "'e \<Rightarrow> 'e fatal_state \<Rightarrow> bool \<times> 'e fatal_state" where
  "install_locked e s = (case fs_error s of Some _ \<Rightarrow> (False, s) | None \<Rightarrow> (True, s\<lparr>fs_error := Some e\<rparr>))"

definition publish_flag :: "'e fatal_state \<Rightarrow> 'e fatal_state" where
  "publish_flag s = s\<lparr>fs_flag := True\<rparr>"

definition fatal_install :: "'e \<Rightarrow> 'e fatal_state \<Rightarrow> bool \<times> 'e fatal_state" where
  "fatal_install e s = (case install_locked e s of
      (False, s') \<Rightarrow> (False, s')
    | (True, s') \<Rightarrow> (True, publish_flag s'))"

definition fatal_take :: "'e fatal_state \<Rightarrow> 'e option \<times> 'e fatal_state" where
  "fatal_take s = (fs_error s, s\<lparr>fs_error := None\<rparr>)"

text \<open>
  Racing installers: \<open>winners\<close> are the errors whose \<open>install\<close> returned true (newest first) and
  \<open>waiting\<close> the number of winners that have left the mutex and not yet stored the flag.
\<close>

inductive fatal_run :: "'e list \<Rightarrow> nat \<Rightarrow> 'e fatal_state \<Rightarrow> bool" where
  start: "fatal_run [] 0 fatal_default"
| lock_win: "fatal_run ws n s \<Longrightarrow> install_locked e s = (True, t) \<Longrightarrow> fatal_run (e # ws) (Suc n) t"
| lock_lose: "fatal_run ws n s \<Longrightarrow> install_locked e s = (False, t) \<Longrightarrow> fatal_run ws n t"
| flag: "fatal_run ws (Suc n) s \<Longrightarrow> fatal_run ws n (publish_flag s)"

lemma fatal_run_inv:
  "fatal_run ws n s \<Longrightarrow> (case fs_error s of None \<Rightarrow> ws = [] \<and> n = 0 \<and> \<not> fs_flag s
     | Some e \<Rightarrow> ws = [e] \<and> (if fs_flag s then n = 0 else n = 1))"
  by (induction rule: fatal_run.induct)
    (auto simp: fatal_default_def install_locked_def publish_flag_def split: option.splits if_splits)

text \<open>
  The failure latch is first-wins under any race of installers. At most one \<open>install\<close>
  ever returns true; a worker that sees the flag finds that installer's error in place, and nobody
  can replace it.
\<close>

lemma fatal_first_wins:
  assumes "fatal_run ws n s"
  shows "length ws \<le> 1 \<and> (is_fatal s \<longrightarrow> (\<exists>e. ws = [e] \<and> fs_error s = Some e))
    \<and> (\<forall>e w. fs_error s = Some w \<longrightarrow> fatal_install e s = (False, s))"
  using fatal_run_inv [OF assms]
  by (auto simp: is_fatal_def fatal_install_def install_locked_def split: option.splits)

end
