(* ===== verification/Write_Frontier.thy ===== *)
theory Write_Frontier
  imports Interval_Set
begin

text \<open>
  Per-lease write frontiers (\<open>io/write_frontier.rs\<close>): receipt watermarks, submitted, outstanding,
  acknowledged and failed bytes of one lease attempt, and the contiguous acknowledged frontier that
  may be published. \<open>assert!\<close> is the outcome \<open>Panic\<close>; \<open>debug_assert!\<close> panics when the flag \<open>dbg\<close>
  (a debug build) is set and is skipped otherwise.
\<close>

section \<open>Operations\<close>

datatype completion_status = Acknowledged u64 | Failed | StaleGeneration

record lease_frontier =
  lf_lease_id :: u64
  lf_generation :: u64
  lf_start :: u64
  lf_end :: u64
  lf_received_through :: u64
  lf_received_high_water :: u64
  lf_submitted :: interval_set
  lf_outstanding :: interval_set
  lf_acknowledged :: interval_set
  lf_failed :: interval_set

definition frontier_new :: "u64 \<Rightarrow> u64 \<Rightarrow> u64 \<Rightarrow> u64 \<Rightarrow> lease_frontier outcome" where
  "frontier_new lease_id generation start end =
     (if \<not> start \<le> end then Panic
      else Done \<lparr>lf_lease_id = lease_id, lf_generation = generation, lf_start = start, lf_end = end,
        lf_received_through = start, lf_received_high_water = start,
        lf_submitted = iv_new, lf_outstanding = iv_new, lf_acknowledged = iv_new, lf_failed = iv_new\<rparr>)"

definition frontier_covers :: "lease_frontier \<Rightarrow> u64 \<Rightarrow> u64 \<Rightarrow> bool" where
  "frontier_covers f offset len \<longleftrightarrow> lf_start f \<le> offset \<and> sat_add offset len \<le> sat_add (lf_end f) 1"

definition record_received :: "u64 \<Rightarrow> u64 \<Rightarrow> lease_frontier \<Rightarrow> lease_frontier outcome" where
  "record_received offset len f =
     (if \<not> frontier_covers f offset len then Panic
      else
        let f1 = f\<lparr>lf_received_high_water := max (lf_received_high_water f) (sat_add offset len)\<rparr>
        in Done (if offset = lf_received_through f1
                 then f1\<lparr>lf_received_through := sat_add offset len\<rparr> else f1))"

definition last_byte :: "u64 \<Rightarrow> u64 \<Rightarrow> u64" where
  "last_byte offset len = u64_sub (u64_add offset len) 1"

definition record_submission :: "u64 \<Rightarrow> u64 \<Rightarrow> lease_frontier \<Rightarrow> lease_frontier outcome" where
  "record_submission offset len f =
     (if \<not> (0 < len \<and> frontier_covers f offset len) then Panic
      else Done (f\<lparr>lf_submitted := iv_insert (lf_submitted f) offset (last_byte offset len),
                   lf_outstanding := iv_insert (lf_outstanding f) offset (last_byte offset len)\<rparr>))"

definition acknowledged_through :: "lease_frontier \<Rightarrow> u64" where
  "acknowledged_through f =
     (case iv_first_gap_from (lf_acknowledged f) (lf_start f) (sat_add (lf_end f) 1) of
        Some x \<Rightarrow> x
      | None \<Rightarrow> sat_add (lf_end f) 1)"

definition record_completion :: "bool \<Rightarrow> u64 \<Rightarrow> u64 \<Rightarrow> u64 \<Rightarrow> u64 \<Rightarrow> bool \<Rightarrow> lease_frontier
    \<Rightarrow> (completion_status \<times> lease_frontier) outcome" where
  "record_completion dbg lease_id generation offset len success f =
     (if lease_id \<noteq> lf_lease_id f \<or> generation \<noteq> lf_generation f then Done (StaleGeneration, f)
      else if dbg \<and> \<not> (0 < len \<and> frontier_covers f offset len) then Panic
      else
        let f1 = f\<lparr>lf_outstanding := iv_subtract (lf_outstanding f) offset (last_byte offset len)\<rparr>
        in if success then
             (let f2 = f1\<lparr>lf_acknowledged := iv_insert (lf_acknowledged f1) offset (last_byte offset len)\<rparr>
              in Done (Acknowledged (acknowledged_through f2), f2))
           else Done (Failed, f1\<lparr>lf_failed := iv_insert (lf_failed f1) offset (last_byte offset len)\<rparr>))"

definition has_outstanding :: "lease_frontier \<Rightarrow> bool" where
  "has_outstanding f \<longleftrightarrow> \<not> iv_is_empty (lf_outstanding f)"

definition outstanding_bytes :: "lease_frontier \<Rightarrow> u64" where
  "outstanding_bytes f = iv_len (lf_outstanding f)"

definition submitted_bytes :: "lease_frontier \<Rightarrow> u64" where
  "submitted_bytes f = iv_len (lf_submitted f)"

definition acknowledged_bytes :: "lease_frontier \<Rightarrow> u64" where
  "acknowledged_bytes f = iv_len (lf_acknowledged f)"

definition failed_bytes :: "lease_frontier \<Rightarrow> u64" where
  "failed_bytes f = iv_len (lf_failed f)"

section \<open>Runs\<close>

datatype frontier_op =
    Receive u64 u64
  | Submit u64 u64
  | Settle u64 u64 u64 u64 bool

fun frontier_apply :: "frontier_op \<Rightarrow> lease_frontier \<Rightarrow> lease_frontier outcome" where
  "frontier_apply (Receive offset len) f = record_received offset len f"
| "frontier_apply (Submit offset len) f = record_submission offset len f"
| "frontier_apply (Settle i g offset len ok) f = map_outcome snd (record_completion True i g offset len ok f)"

fun frontier_run :: "frontier_op list \<Rightarrow> lease_frontier \<Rightarrow> lease_frontier outcome" where
  "frontier_run [] f = Done f"
| "frontier_run (op # ops) f =
     (case frontier_apply op f of Panic \<Rightarrow> Panic | Done f' \<Rightarrow> frontier_run ops f')"

text \<open>The bytes whose write a completion of this lease and generation reported as successful, or as failed.\<close>

fun settled_by :: "u64 \<Rightarrow> u64 \<Rightarrow> bool \<Rightarrow> frontier_op \<Rightarrow> nat set" where
  "settled_by i g ok (Settle i' g' offset len ok') = (if i' = i \<and> g' = g \<and> ok' = ok then {offset..<offset + len} else {})"
| "settled_by i g ok _ = {}"

fun received_by :: "frontier_op \<Rightarrow> nat set" where
  "received_by (Receive offset len) = {offset..<offset + len}"
| "received_by _ = {}"

text \<open>
  The lease ends below the last two values of \<open>u64\<close>: at the very top the saturating sums of the
  domain check no longer tell a range that fits from one that does not.
\<close>

definition frontier_inv :: "lease_frontier \<Rightarrow> bool" where
  "frontier_inv f \<longleftrightarrow> lf_start f \<le> lf_end f \<and> lf_end f + 1 < u64_max
     \<and> iv_wf (lf_submitted f) \<and> iv_wf (lf_outstanding f) \<and> iv_wf (lf_acknowledged f) \<and> iv_wf (lf_failed f)
     \<and> iv_bytes (lf_submitted f) \<subseteq> {lf_start f..lf_end f}
     \<and> iv_bytes (lf_outstanding f) \<subseteq> iv_bytes (lf_submitted f)
     \<and> iv_bytes (lf_acknowledged f) \<subseteq> {lf_start f..lf_end f}
     \<and> iv_bytes (lf_failed f) \<subseteq> {lf_start f..lf_end f}
     \<and> lf_start f \<le> lf_received_through f \<and> lf_received_through f \<le> lf_received_high_water f
     \<and> lf_received_high_water f \<le> lf_end f + 1"

lemma frontier_range:
  assumes "frontier_inv f" "frontier_covers f offset len" "0 < len"
  shows "last_byte offset len = offset + len - 1" "offset \<le> last_byte offset len" "last_byte offset len \<le> u64_max"
    "{offset..last_byte offset len} = {offset..<offset + len}" "{offset..<offset + len} \<subseteq> {lf_start f..lf_end f}"
proof -
  have "sat_add (lf_end f) 1 = lf_end f + 1" "lf_end f + 1 < u64_max"
    using assms(1) by (simp_all add: frontier_inv_def sat_add_def)
  then have le: "offset + len \<le> lf_end f + 1" "lf_start f \<le> offset"
    using assms(2) by (auto simp: frontier_covers_def sat_add_def min_def split: if_splits)
  then show eq: "last_byte offset len = offset + len - 1"
    using assms(1,3) by (simp add: last_byte_def frontier_inv_def u64_exact)
  show "offset \<le> last_byte offset len" "last_byte offset len \<le> u64_max"
    "{offset..last_byte offset len} = {offset..<offset + len}" "{offset..<offset + len} \<subseteq> {lf_start f..lf_end f}"
    using le assms(1,3) unfolding eq by (auto simp: frontier_inv_def)
qed

lemma frontier_new_inv:
  assumes "frontier_new i g s e = Done f" "e + 1 < u64_max"
  shows "frontier_inv f" "lf_lease_id f = i" "lf_generation f = g" "lf_start f = s" "lf_end f = e"
    "lf_received_through f = s" "iv_bytes (lf_acknowledged f) = {}" "iv_bytes (lf_failed f) = {}"
  using assms by (auto simp: frontier_new_def frontier_inv_def iv_new_def split: if_splits)

lemma frontier_step:
  assumes inv: "frontier_inv f" and step: "frontier_apply op f = Done f'"
  shows "frontier_inv f' \<and> lf_lease_id f' = lf_lease_id f \<and> lf_generation f' = lf_generation f
    \<and> lf_start f' = lf_start f \<and> lf_end f' = lf_end f
    \<and> iv_bytes (lf_acknowledged f') = iv_bytes (lf_acknowledged f) \<union> settled_by (lf_lease_id f) (lf_generation f) True op
    \<and> iv_bytes (lf_failed f') = iv_bytes (lf_failed f) \<union> settled_by (lf_lease_id f) (lf_generation f) False op
    \<and> {lf_start f..<lf_received_through f'} \<subseteq> {lf_start f..<lf_received_through f} \<union> received_by op"
proof (cases op)
  case (Receive offset len)
  have le: "offset + len \<le> lf_end f + 1 \<and> sat_add offset len = offset + len \<and> lf_start f \<le> offset"
    using inv step Receive by (auto simp: frontier_inv_def record_received_def frontier_covers_def sat_add_def split: if_splits)
  then show ?thesis
    using inv step Receive by (auto simp: record_received_def frontier_inv_def Let_def split: if_splits)
next
  case (Submit offset len)
  then have ok: "0 < len" "frontier_covers f offset len" using step by (auto simp: record_submission_def split: if_splits)
  note r = frontier_range [OF inv ok(2,1)]
  let ?e = "last_byte offset len"
  have f': "f' = f\<lparr>lf_submitted := iv_insert (lf_submitted f) offset ?e,
      lf_outstanding := iv_insert (lf_outstanding f) offset ?e\<rparr>"
    using step Submit ok by (simp add: record_submission_def)
  have ins: "iv_wf (iv_insert m offset ?e) \<and> iv_bytes (iv_insert m offset ?e) = iv_bytes m \<union> {offset..<offset + len}"
    if "iv_wf m" for m
    using iv_insert_correct [OF that r(3), of offset] r(4) by simp
  have wf: "iv_wf (lf_submitted f)" "iv_wf (lf_outstanding f)" using inv by (simp_all add: frontier_inv_def)
  have "iv_bytes (lf_submitted f) \<union> {offset..<offset + len} \<subseteq> {lf_start f..lf_end f}"
    "iv_bytes (lf_outstanding f) \<union> {offset..<offset + len} \<subseteq> iv_bytes (lf_submitted f) \<union> {offset..<offset + len}"
    using inv r(5) unfolding frontier_inv_def by blast+
  with ins [OF wf(1)] ins [OF wf(2)] have "frontier_inv f'"
    using inv unfolding f' frontier_inv_def by (simp del: Un_subset_iff)
  then show ?thesis by (simp add: f' Submit)
next
  case (Settle i g offset len success)
  show ?thesis
  proof (cases "i = lf_lease_id f \<and> g = lf_generation f")
    case False
    then show ?thesis using inv step Settle by (auto simp: record_completion_def)
  next
    case True
    then have ok: "0 < len" "frontier_covers f offset len"
      using step Settle by (auto simp: record_completion_def split: if_splits)
    note r = frontier_range [OF inv ok(2,1)]
    have wf: "iv_wf (lf_outstanding f)" "iv_wf (lf_acknowledged f)" "iv_wf (lf_failed f)"
      using inv by (simp_all add: frontier_inv_def)
    let ?e = "last_byte offset len" and ?B = "{offset..<offset + len}"
    note sub = iv_subtract_correct [OF wf(1) r(3), of offset]
      and ack = iv_insert_correct [OF wf(2) r(3), of offset] and fl = iv_insert_correct [OF wf(3) r(3), of offset]
    have sets: "iv_bytes (lf_outstanding f) - ?B \<subseteq> iv_bytes (lf_submitted f)"
      "iv_bytes (lf_acknowledged f) \<union> ?B \<subseteq> {lf_start f..lf_end f}"
      "iv_bytes (lf_failed f) \<union> ?B \<subseteq> {lf_start f..lf_end f}"
      using inv r(5) unfolding frontier_inv_def by blast+
    show ?thesis
    proof (cases success)
      case success: True
      then have f': "f' = f\<lparr>lf_outstanding := iv_subtract (lf_outstanding f) offset ?e,
          lf_acknowledged := iv_insert (lf_acknowledged f) offset ?e\<rparr>"
        using step Settle True ok by (simp add: record_completion_def Let_def)
      have "frontier_inv f'"
        using inv sets sub ack r(4) unfolding f' frontier_inv_def by (simp del: Un_subset_iff)
      then show ?thesis using ack r(4) success True by (simp add: f' Settle)
    next
      case failure: False
      then have f': "f' = f\<lparr>lf_outstanding := iv_subtract (lf_outstanding f) offset ?e,
          lf_failed := iv_insert (lf_failed f) offset ?e\<rparr>"
        using step Settle True ok by (simp add: record_completion_def Let_def)
      have "frontier_inv f'"
        using inv sets sub fl r(4) unfolding f' frontier_inv_def by (simp del: Un_subset_iff)
      then show ?thesis using fl r(4) failure True by (simp add: f' Settle)
    qed
  qed
qed

lemma frontier_run_correct:
  assumes "frontier_inv f" "frontier_run ops f = Done f'"
  shows "frontier_inv f' \<and> lf_lease_id f' = lf_lease_id f \<and> lf_generation f' = lf_generation f
    \<and> lf_start f' = lf_start f \<and> lf_end f' = lf_end f
    \<and> iv_bytes (lf_acknowledged f') = iv_bytes (lf_acknowledged f)
        \<union> (\<Union>op\<in>set ops. settled_by (lf_lease_id f) (lf_generation f) True op)
    \<and> iv_bytes (lf_failed f') = iv_bytes (lf_failed f)
        \<union> (\<Union>op\<in>set ops. settled_by (lf_lease_id f) (lf_generation f) False op)
    \<and> {lf_start f..<lf_received_through f'} \<subseteq> {lf_start f..<lf_received_through f} \<union> (\<Union>op\<in>set ops. received_by op)"
  using assms
proof (induction ops arbitrary: f)
  case (Cons op ops)
  then obtain g where g: "frontier_apply op f = Done g" "frontier_run ops g = Done f'"
    by (auto split: outcome.splits)
  note s = frontier_step [OF Cons.prems(1) g(1)]
  have "frontier_inv g" using s by blast
  from Cons.IH [OF this g(2)] s show ?case by (auto; blast)
qed simp

lemma acknowledged_through_least:
  assumes "frontier_inv f"
  shows "acknowledged_through f = (LEAST x. lf_start f \<le> x \<and> x \<notin> iv_bytes (lf_acknowledged f))"
proof -
  have s: "sat_add (lf_end f) 1 = lf_end f + 1" "lf_end f + 1 \<le> u64_max" "iv_wf (lf_acknowledged f)"
    using assms by (simp_all add: frontier_inv_def sat_add_def)
  have "lf_end f + 1 \<notin> iv_bytes (lf_acknowledged f)" "lf_end f + 1 \<in> {lf_start f..lf_end f + 1}"
    using assms by (auto simp: frontier_inv_def)
  then have "\<not> {lf_start f..lf_end f + 1} \<subseteq> iv_bytes (lf_acknowledged f)" by blast
  then show ?thesis
    using iv_first_gap_from_correct [OF s(3,2), of "lf_start f"] unfolding acknowledged_through_def s(1) by simp
qed

lemma least_gap:
  fixes A :: "nat set"
  assumes "A \<subseteq> {s..e}" "s \<le> e" and T: "T = (LEAST x. s \<le> x \<and> x \<notin> A)"
  shows "{s..<T} \<subseteq> A \<and> T \<notin> A \<and> s \<le> T \<and> T \<le> e + 1"
proof -
  have ex: "s \<le> e + 1 \<and> e + 1 \<notin> A" using assms by auto
  have "s \<le> T \<and> T \<notin> A" using LeastI [of "\<lambda>x. s \<le> x \<and> x \<notin> A", OF ex] T by simp
  moreover have "T \<le> e + 1" using Least_le [of "\<lambda>x. s \<le> x \<and> x \<notin> A", OF ex] T by simp
  moreover have "x \<in> A" if "s \<le> x" "x < T" for x
    using not_less_Least [of x "\<lambda>x. s \<le> x \<and> x \<notin> A"] that T by auto
  ultimately show ?thesis by auto
qed

section \<open>Properties\<close>

text \<open>The end of the contiguous acknowledged prefix, in terms of what was reported.\<close>

definition acknowledged_prefix :: "u64 \<Rightarrow> u64 \<Rightarrow> u64 \<Rightarrow> u64 \<Rightarrow> frontier_op list \<Rightarrow> u64 \<Rightarrow> bool" where
  "acknowledged_prefix i g s e ops x \<longleftrightarrow>
     {s..<x} \<subseteq> (\<Union>op\<in>set ops. settled_by i g True op) \<and> x \<notin> (\<Union>op\<in>set ops. settled_by i g True op) \<and> s \<le> x \<and> x \<le> e + 1"

lemma acknowledged_through_prefix:
  assumes "frontier_new i g s e = Done f" "e + 1 < u64_max" "frontier_run ops f = Done f'"
  shows "acknowledged_prefix i g s e ops (acknowledged_through f')"
proof -
  note n = frontier_new_inv [OF assms(1,2)]
  note r = frontier_run_correct [OF n(1) assms(3)]
  then have A: "iv_bytes (lf_acknowledged f') = (\<Union>op\<in>set ops. settled_by i g True op)" using n by simp
  have inv: "frontier_inv f'" and se: "lf_start f' = s" "lf_end f' = e" using r n by auto
  show ?thesis unfolding acknowledged_prefix_def
    using least_gap [of "iv_bytes (lf_acknowledged f')" s e "acknowledged_through f'"] inv se
      acknowledged_through_least [OF inv] unfolding A [symmetric] by (auto simp: frontier_inv_def)
qed

lemma frontier_run_snoc: "frontier_run ops f = Done f1 \<Longrightarrow> frontier_run (ops @ [op]) f = frontier_apply op f1"
  by (induction ops arbitrary: f) (auto split: outcome.splits)

text \<open>
  Claim C11: the published frontier is a contiguous acknowledged prefix. After any sequence of receipts,
  submissions and completions of a lease, the next completion is reported as stale exactly when it belongs to
  another lease or generation, and then changes nothing; as failed exactly when the write failed; and otherwise
  with an offset such that every byte from the lease start up to it was written by a successful completion of
  this very lease and generation, the byte at it was not, and it stays inside the lease. The frontier read from
  the state afterwards is the same offset.
\<close>

theorem frontier_contiguous_prefix:
  assumes "frontier_new i g s e = Done f" "e + 1 < u64_max" "frontier_run ops f = Done f1"
    and "record_completion True i' g' offset len ok f1 = Done (status, f2)"
  shows "(case status of
      StaleGeneration \<Rightarrow> (i', g') \<noteq> (i, g) \<and> f2 = f1
    | Failed \<Rightarrow> (i', g') = (i, g) \<and> \<not> ok
    | Acknowledged x \<Rightarrow> (i', g') = (i, g) \<and> ok \<and> x = acknowledged_through f2)
    \<and> acknowledged_prefix i g s e (ops @ [Settle i' g' offset len ok]) (acknowledged_through f2)"
proof -
  have "frontier_run (ops @ [Settle i' g' offset len ok]) f = Done f2"
    using frontier_run_snoc [OF assms(3), of "Settle i' g' offset len ok"] assms(4) by simp
  from acknowledged_through_prefix [OF assms(1,2) this]
  have prefix: "acknowledged_prefix i g s e (ops @ [Settle i' g' offset len ok]) (acknowledged_through f2)" .
  have "lf_lease_id f1 = i" "lf_generation f1 = g"
    using frontier_run_correct [OF _ assms(3)] frontier_new_inv [OF assms(1,2)] by auto
  then have "case status of
      StaleGeneration \<Rightarrow> (i', g') \<noteq> (i, g) \<and> f2 = f1
    | Failed \<Rightarrow> (i', g') = (i, g) \<and> \<not> ok
    | Acknowledged x \<Rightarrow> (i', g') = (i, g) \<and> ok \<and> x = acknowledged_through f2"
    using assms(4) by (auto simp: record_completion_def Let_def split: if_splits)
  then show ?thesis using prefix by blast
qed

text \<open>The second of two writes completes first: the frontier stays; the first closes the gap before it.\<close>

theorem frontier_contiguous_prefix_witness:
  "\<exists>f f1 f2. frontier_new 7 1 100 199 = Done f \<and> frontier_run [Submit 100 20, Submit 120 10, Settle 7 1 120 10 True] f = Done f1
     \<and> record_completion True 7 1 100 20 True f1 = Done (Acknowledged 130, f2)
     \<and> acknowledged_prefix 7 1 100 199 [Submit 100 20, Submit 120 10, Settle 7 1 120 10 True, Settle 7 1 100 20 True] 130"
proof -
  let ?ops = "[Submit 100 20, Submit 120 10, Settle 7 1 120 10 True]"
  let ?f = "\<lambda>sub out ack. \<lparr>lf_lease_id = 7, lf_generation = 1, lf_start = 100, lf_end = 199, lf_received_through = 100,
    lf_received_high_water = 100, lf_submitted = sub, lf_outstanding = out, lf_acknowledged = ack, lf_failed = []\<rparr>"
  have new: "frontier_new 7 1 100 199 = Done (?f [] [] [])" by code_simp
  have run: "frontier_run ?ops (?f [] [] []) = Done (?f [(100, 129)] [(100, 119)] [(120, 129)])" by code_simp
  have fin: "record_completion True 7 1 100 20 True (?f [(100, 129)] [(100, 119)] [(120, 129)])
      = Done (Acknowledged 130, ?f [(100, 129)] [] [(100, 129)])" by code_simp
  have "(199::nat) + 1 < u64_max" by (simp add: u64_max_def)
  from frontier_contiguous_prefix [OF new this run fin] show ?thesis using new run fin by auto
qed

text \<open>
  The receipt watermark is honest. Every byte below \<open>received_through\<close> was received, the
  watermark never passes the high-watermark nor the lease end, and what is outstanding was submitted
  for this lease.
\<close>

lemma frontier_receipt_prefix:
  assumes "frontier_new i g s e = Done f" "e + 1 < u64_max" "frontier_run ops f = Done f'"
  shows "{s..<lf_received_through f'} \<subseteq> (\<Union>op\<in>set ops. received_by op)
    \<and> lf_received_through f' \<le> lf_received_high_water f' \<and> lf_received_high_water f' \<le> e + 1
    \<and> iv_bytes (lf_outstanding f') \<subseteq> iv_bytes (lf_submitted f') \<and> iv_bytes (lf_submitted f') \<subseteq> {s..e}"
proof -
  note n = frontier_new_inv [OF assms(1,2)]
  note r = frontier_run_correct [OF n(1) assms(3)]
  then have "{s..<lf_received_through f'} \<subseteq> (\<Union>op\<in>set ops. received_by op)" using n by simp
  moreover have "frontier_inv f'" "lf_start f' = s" "lf_end f' = e" using r n by auto
  ultimately show ?thesis unfolding frontier_inv_def by simp
qed

text \<open>
  Failed bytes are never cleared. The failed set is the union of all failed completions of
  the lease, also of bytes that a later retry wrote successfully, so after a successful retry
  \<open>failed_bytes\<close> still counts bytes that no longer await one.
\<close>

lemma frontier_failed_sticky:
  assumes "frontier_new i g s e = Done f" "e + 1 < u64_max" "frontier_run ops f = Done f'"
  shows "iv_bytes (lf_failed f') = (\<Union>op\<in>set ops. settled_by i g False op)
    \<and> failed_bytes f' = card (\<Union>op\<in>set ops. settled_by i g False op)"
proof -
  note n = frontier_new_inv [OF assms(1,2)]
  note r = frontier_run_correct [OF n(1) assms(3)]
  then have F: "iv_bytes (lf_failed f') = (\<Union>op\<in>set ops. settled_by i g False op)" using n by simp
  have "frontier_inv f'" "lf_end f' = e" using r n by auto
  then have "iv_wf (lf_failed f')" "iv_bytes (lf_failed f') \<subseteq> {..<e + 1}" by (auto simp: frontier_inv_def)
  from iv_len_within [OF this] assms(2) F show ?thesis by (simp add: failed_bytes_def)
qed

end
