(* ===== verification/Rust_Text.thy ===== *)
theory Rust_Text
  imports Kdown_Prelude
begin

text \<open>
  The string operations of the Rust standard library that the engine uses on header values, URLs and
  file names: \<open>trim\<close>, \<open>strip_prefix\<close>, \<open>split_once\<close>, \<open>contains\<close>, ASCII case folding, and the
  decimal \<open>parse\<close> and \<open>Display\<close> of \<open>u64\<close>. Strings are lists of ASCII characters.
\<close>

section \<open>Slices\<close>

definition is_ascii_space :: "char \<Rightarrow> bool" where
  "is_ascii_space c = (let k = (of_char c :: nat) in k = 32 \<or> (9 \<le> k \<and> k \<le> 13))"

definition trim_start :: "string \<Rightarrow> string" where
  "trim_start s = dropWhile is_ascii_space s"

definition trim :: "string \<Rightarrow> string" where
  "trim s = rev (dropWhile is_ascii_space (rev (trim_start s)))"

fun strip_prefix :: "string \<Rightarrow> string \<Rightarrow> string option" where
  "strip_prefix [] s = Some s"
| "strip_prefix (p # ps) [] = None"
| "strip_prefix (p # ps) (c # cs) = (if p = c then strip_prefix ps cs else None)"

definition split_once :: "char \<Rightarrow> string \<Rightarrow> (string \<times> string) option" where
  "split_once c s =
     (case dropWhile (\<lambda>d. d \<noteq> c) s of
        [] \<Rightarrow> None
      | _ # rest \<Rightarrow> Some (takeWhile (\<lambda>d. d \<noteq> c) s, rest))"

fun contains_str :: "string \<Rightarrow> string \<Rightarrow> bool" where
  "contains_str pat [] = (pat = [])"
| "contains_str pat (c # cs) = (strip_prefix pat (c # cs) \<noteq> None \<or> contains_str pat cs)"

definition ascii_lower :: "char \<Rightarrow> char" where
  "ascii_lower c = (let k = (of_char c :: nat) in if 65 \<le> k \<and> k \<le> 90 then char_of (k + 32) else c)"

definition to_ascii_lowercase :: "string \<Rightarrow> string" where
  "to_ascii_lowercase s = map ascii_lower s"

definition eq_ignore_ascii_case :: "string \<Rightarrow> string \<Rightarrow> bool" where
  "eq_ignore_ascii_case a b \<longleftrightarrow> to_ascii_lowercase a = to_ascii_lowercase b"

lemma strip_prefix_append [simp]: "strip_prefix p (p @ s) = Some s"
  by (induction p) auto

lemma strip_prefix_Some: "strip_prefix p s = Some r \<longleftrightarrow> s = p @ r"
  by (induction p s rule: strip_prefix.induct) auto

lemma split_once_append:
  assumes "c \<notin> set a"
  shows "split_once c (a @ c # b) = Some (a, b)"
proof -
  have all: "\<And>x. x \<in> set a \<Longrightarrow> x \<noteq> c" using assms by blast
  then show ?thesis
    by (simp add: split_once_def dropWhile_append2 takeWhile_append2)
qed

lemma split_once_Some: "split_once c s = Some (a, b) \<Longrightarrow> s = a @ c # b \<and> c \<notin> set a"
proof -
  assume *: "split_once c s = Some (a, b)"
  then obtain d where d: "dropWhile (\<lambda>d. d \<noteq> c) s = d # b" "a = takeWhile (\<lambda>d. d \<noteq> c) s"
    by (auto simp: split_once_def split: list.splits)
  then have "d = c" using hd_dropWhile [of "\<lambda>d. d \<noteq> c" s] by simp
  moreover have "c \<notin> set a" unfolding d(2) by (auto dest: set_takeWhileD)
  ultimately show ?thesis using d takeWhile_dropWhile_id [of "\<lambda>d. d \<noteq> c" s] by simp
qed

lemma trim_no_space:
  assumes "\<And>c. c \<in> set s \<Longrightarrow> \<not> is_ascii_space c"
  shows "trim s = s"
proof -
  have no: "dropWhile is_ascii_space r = r" if "set r = set s" for r
    using assms that by (cases r) auto
  show ?thesis by (simp add: trim_def trim_start_def no)
qed

section \<open>Decimal numbers\<close>

definition digit_val :: "char \<Rightarrow> nat option" where
  "digit_val c = (let k = (of_char c :: nat) in if 48 \<le> k \<and> k \<le> 57 then Some (k - 48) else None)"

fun parse_digits :: "u64 \<Rightarrow> string \<Rightarrow> u64 option" where
  "parse_digits acc [] = Some acc"
| "parse_digits acc (c # cs) =
     (case digit_val c of
        None \<Rightarrow> None
      | Some d \<Rightarrow>
          (case checked_mul acc 10 of
             None \<Rightarrow> None
           | Some m \<Rightarrow> (case checked_add m d of None \<Rightarrow> None | Some a \<Rightarrow> parse_digits a cs)))"

text \<open>\<open>str::parse::<u64>\<close>: an optional plus sign, then at least one digit, no overflow.\<close>

definition parse_u64 :: "string \<Rightarrow> u64 option" where
  "parse_u64 s =
     (let body = (case s of c # cs \<Rightarrow> if c = CHR ''+'' then cs else s | [] \<Rightarrow> [])
      in if body = [] then None else parse_digits 0 body)"

definition digit_char :: "nat \<Rightarrow> char" where
  "digit_char d = char_of (48 + d)"

fun show_u64 :: "u64 \<Rightarrow> string" where
  "show_u64 n = (if n < 10 then [digit_char n] else show_u64 (n div 10) @ [digit_char (n mod 10)])"

declare show_u64.simps [simp del]

lemma of_digit_char: "d < 10 \<Longrightarrow> (of_char (digit_char d) :: nat) = 48 + d"
  by (simp add: digit_char_def)

lemma digit_val_char [simp]: "d < 10 \<Longrightarrow> digit_val (digit_char d) = Some d"
  by (simp add: digit_val_def of_digit_char Let_def)

lemma show_u64_nonempty: "show_u64 n \<noteq> []"
  by (subst show_u64.simps) simp

lemma show_u64_digits: "c \<in> set (show_u64 n) \<Longrightarrow> \<exists>d<10. c = digit_char d"
proof (induction n rule: show_u64.induct)
  case (1 n)
  show ?case
  proof (cases "n < 10")
    case True
    then show ?thesis using "1.prems" by (subst (asm) show_u64.simps) auto
  next
    case False
    then have "c \<in> set (show_u64 (n div 10)) \<or> c = digit_char (n mod 10)"
      using "1.prems" by (subst (asm) show_u64.simps) auto
    moreover have "\<exists>d<10. digit_char (n mod 10) = digit_char d" by (rule exI [of _ "n mod 10"]) simp
    ultimately show ?thesis using "1.IH" [OF False] by blast
  qed
qed

lemma parse_digits_append:
  "parse_digits acc (xs @ ys) = (case parse_digits acc xs of None \<Rightarrow> None | Some a \<Rightarrow> parse_digits a ys)"
  by (induction acc xs rule: parse_digits.induct) (auto split: option.splits)

lemma parse_digits_show: "n \<le> u64_max \<Longrightarrow> parse_digits 0 (show_u64 n) = Some n"
proof (induction n rule: show_u64.induct)
  case (1 n)
  show ?case
  proof (cases "n < 10")
    case True
    then have "show_u64 n = [digit_char n]" by (subst show_u64.simps) simp
    then show ?thesis using True by (simp add: checked_mul_def checked_add_def u64_max_def)
  next
    case False
    then have s: "show_u64 n = show_u64 (n div 10) @ [digit_char (n mod 10)]" by (subst show_u64.simps) simp
    have "n div 10 * 10 + n mod 10 = n" by simp
    then have "n div 10 * 10 \<le> u64_max" "n div 10 * 10 + n mod 10 \<le> u64_max" using "1.prems" by linarith+
    moreover have "n div 10 \<le> u64_max" using "1.prems" div_le_dividend le_trans by blast
    ultimately show ?thesis
      using "1.IH" [OF False] by (simp add: s parse_digits_append checked_mul_def checked_add_def)
  qed
qed

lemma digit_not_plus: "d < 10 \<Longrightarrow> digit_char d \<noteq> CHR ''+''"
proof
  assume "d < 10" "digit_char d = CHR ''+''"
  then have "48 + d = (of_char (CHR ''+'') :: nat)" using of_digit_char by metis
  then show False by simp
qed

theorem parse_show_u64: "n \<le> u64_max \<Longrightarrow> parse_u64 (show_u64 n) = Some n"
proof -
  assume n: "n \<le> u64_max"
  obtain c cs where s: "show_u64 n = c # cs" using show_u64_nonempty by (cases "show_u64 n") auto
  then have "c \<noteq> CHR ''+''" using show_u64_digits [of c n] digit_not_plus by auto
  then show ?thesis using parse_digits_show [OF n] s by (simp add: parse_u64_def)
qed

lemma parse_digits_bound: "parse_digits acc s = Some n \<Longrightarrow> acc \<le> u64_max \<Longrightarrow> n \<le> u64_max"
  by (induction acc s rule: parse_digits.induct)
    (auto simp: checked_add_def split: option.splits if_splits)

lemma parse_u64_bound: "parse_u64 s = Some n \<Longrightarrow> n \<le> u64_max"
  using parse_digits_bound [of 0 _ n] by (simp add: parse_u64_def Let_def del: parse_digits.simps split: if_splits list.splits)

lemma digit_not_space: "d < 10 \<Longrightarrow> \<not> is_ascii_space (digit_char d)"
  by (simp add: is_ascii_space_def of_digit_char Let_def)

lemma show_u64_no_space: "c \<in> set (show_u64 n) \<Longrightarrow> \<not> is_ascii_space c"
  using show_u64_digits digit_not_space by blast

lemma trim_show_u64 [simp]: "trim (show_u64 n) = show_u64 n"
  by (rule trim_no_space) (rule show_u64_no_space)

lemma show_u64_char:
  assumes "c \<in> set (show_u64 n)"
  shows "48 \<le> (of_char c :: nat) \<and> (of_char c :: nat) \<le> 57"
  using show_u64_digits [OF assms] of_digit_char by force

section \<open>Splitting and joining\<close>

text \<open>\<open>split_once\<close> with a string pattern, \<open>rsplit_once\<close> with a character, \<open>split\<close> and \<open>join\<close>.\<close>

fun split_once_str :: "string \<Rightarrow> string \<Rightarrow> (string \<times> string) option" where
  "split_once_str pat [] = (if pat = [] then Some ([], []) else None)"
| "split_once_str pat (c # cs) =
     (case strip_prefix pat (c # cs) of
        Some rest \<Rightarrow> Some ([], rest)
      | None \<Rightarrow> (case split_once_str pat cs of None \<Rightarrow> None | Some (a, b) \<Rightarrow> Some (c # a, b)))"

definition rsplit_once :: "char \<Rightarrow> string \<Rightarrow> (string \<times> string) option" where
  "rsplit_once c s = (case split_once c (rev s) of None \<Rightarrow> None | Some (a, b) \<Rightarrow> Some (rev b, rev a))"

fun split_char :: "char \<Rightarrow> string \<Rightarrow> string list" where
  "split_char c [] = [[]]"
| "split_char c (x # xs) =
     (if x = c then [] # split_char c xs else (x # hd (split_char c xs)) # tl (split_char c xs))"

fun join_with :: "string \<Rightarrow> string list \<Rightarrow> string" where
  "join_with sep [] = []"
| "join_with sep [w] = w"
| "join_with sep (w # v # ws) = w @ sep @ join_with sep (v # ws)"

lemma split_char_nonempty [simp]: "split_char c s \<noteq> []"
  by (cases s) auto

lemma split_char_no [simp]: "c \<notin> set s \<Longrightarrow> split_char c s = [s]"
  by (induction s) auto

lemma split_char_append: "c \<notin> set w \<Longrightarrow> split_char c (w @ c # s) = w # split_char c s"
  by (induction w) auto

lemma split_char_join:
  assumes "ws \<noteq> []" "\<And>w. w \<in> set ws \<Longrightarrow> c \<notin> set w"
  shows "split_char c (join_with [c] ws) = ws"
  using assms by (induction "[c]" ws rule: join_with.induct) (auto simp: split_char_append)

lemma split_char_words: "w \<in> set (split_char c s) \<Longrightarrow> c \<notin> set w"
proof (induction s arbitrary: w)
  case (Cons x xs)
  then show ?case by (cases "split_char c xs") (auto split: if_splits)
qed simp

lemma join_split_char: "join_with [c] (split_char c s) = s"
proof (induction s)
  case (Cons x xs)
  obtain w ws where s: "split_char c xs = w # ws" by (cases "split_char c xs") auto
  then show ?case using Cons by (cases ws) auto
qed simp

lemma split_once_str_Some: "split_once_str pat s = Some (a, b) \<Longrightarrow> s = a @ pat @ b"
  by (induction pat s arbitrary: a rule: split_once_str.induct)
    (auto simp: strip_prefix_Some split: if_splits option.splits)

lemma rsplit_once_append: "c \<notin> set b \<Longrightarrow> rsplit_once c (a @ c # b) = Some (a, b)"
  using split_once_append [of c "rev b" "rev a"] by (simp add: rsplit_once_def)

lemma split_once_none: "c \<notin> set s \<Longrightarrow> split_once c s = None"
  by (cases "split_once c s") (auto dest: split_once_Some)

lemma rsplit_once_none: "c \<notin> set s \<Longrightarrow> rsplit_once c s = None"
  by (simp add: rsplit_once_def split_once_none)

text \<open>The first separator of a URL: nothing before it contains a colon.\<close>

lemma split_once_scheme: "CHR '':'' \<notin> set a \<Longrightarrow> split_once_str ''://'' (a @ ''://'' @ b) = Some (a, b)"
  by (induction a) (auto simp del: append_Cons append_Nil, auto)

end
