(* ===== verification/Http_Validators.thy ===== *)
theory Http_Validators
  imports Rust_Text
begin

text \<open>
  Resource validators and the \<open>Content-Range\<close> parser (\<open>http/validators.rs\<close>): how the identity of
  the remote representation is captured, compared across probes, and offered in \<open>If-Range\<close>.
\<close>

section \<open>Validators\<close>

record resource_validators =
  rv_etag :: "string option"
  rv_etag_is_weak :: bool
  rv_last_modified :: "string option"
  rv_total_size :: "u64 option"

definition parse_etag :: "string \<Rightarrow> string option \<times> bool" where
  "parse_etag v =
     (let v = trim v
      in case strip_prefix ''W/'' v of
           Some rest \<Rightarrow> (Some (trim rest), True)
         | None \<Rightarrow> (Some v, False))"

definition from_headers :: "string option \<Rightarrow> string option \<Rightarrow> u64 option \<Rightarrow> resource_validators" where
  "from_headers etag last_modified content_length =
     (let (etag, weak) = (case etag of Some e \<Rightarrow> parse_etag e | None \<Rightarrow> (None, False))
      in \<lparr>rv_etag = etag, rv_etag_is_weak = weak, rv_last_modified = last_modified,
          rv_total_size = content_length\<rparr>)"

definition resume_capable :: "resource_validators \<Rightarrow> bool" where
  "resume_capable v =
     (if rv_etag v \<noteq> None \<and> \<not> rv_etag_is_weak v then True else rv_last_modified v \<noteq> None)"

definition changed :: "'a option \<Rightarrow> 'a option \<Rightarrow> bool" where
  "changed a b = (case (a, b) of (Some x, Some y) \<Rightarrow> x \<noteq> y | _ \<Rightarrow> False)"

definition same_generation :: "resource_validators \<Rightarrow> resource_validators \<Rightarrow> string + unit" where
  "same_generation v w =
     (if changed (rv_etag v) (rv_etag w) then
        Inl (''ETag changed: '' @ the (rv_etag v) @ '' -> '' @ the (rv_etag w))
      else if changed (rv_last_modified v) (rv_last_modified w) then
        Inl (''Last-Modified changed: '' @ the (rv_last_modified v) @ '' -> '' @ the (rv_last_modified w))
      else if changed (rv_total_size v) (rv_total_size w) then
        Inl (''total size changed: '' @ show_u64 (the (rv_total_size v)) @ '' -> '' @ show_u64 (the (rv_total_size w)))
      else Inr ())"

definition comparable_generation :: "resource_validators \<Rightarrow> resource_validators \<Rightarrow> string + unit" where
  "comparable_generation saved current =
     (if rv_etag saved \<noteq> None \<and> \<not> rv_etag_is_weak saved then
        (if rv_etag current \<noteq> None \<and> \<not> rv_etag_is_weak current then Inr ()
         else Inl ''saved strong ETag has no comparable current ETag'')
      else if rv_last_modified saved \<noteq> None then
        (if rv_last_modified current \<noteq> None then Inr ()
         else Inl ''saved Last-Modified has no comparable current value'')
      else Inl ''checkpoint carries no strong ETag or Last-Modified'')"

definition if_range_value :: "resource_validators \<Rightarrow> string option" where
  "if_range_value v =
     (case rv_etag v of
        Some etag \<Rightarrow> if \<not> rv_etag_is_weak v then Some etag else rv_last_modified v
      | None \<Rightarrow> rv_last_modified v)"

section \<open>Content-Range\<close>

record content_range =
  cr_start :: u64
  cr_end :: u64
  cr_total :: "u64 option"

definition parse_content_range :: "string \<Rightarrow> string + content_range" where
  "parse_content_range v =
     (case strip_prefix ''bytes '' (trim v) of
        None \<Rightarrow> Inl v
      | Some rest \<Rightarrow>
     (case split_once (CHR ''/'') rest of
        None \<Rightarrow> Inl v
      | Some (range_part, total_part) \<Rightarrow>
     (case split_once (CHR ''-'') range_part of
        None \<Rightarrow> Inl v
      | Some (start_s, end_s) \<Rightarrow>
     (case parse_u64 (trim start_s) of
        None \<Rightarrow> Inl v
      | Some start \<Rightarrow>
     (case parse_u64 (trim end_s) of
        None \<Rightarrow> Inl v
      | Some end \<Rightarrow>
     (case (if trim total_part = ''*'' then Some None else map_option Some (parse_u64 (trim total_part))) of
        None \<Rightarrow> Inl v
      | Some total_size \<Rightarrow>
          if end < start then Inl v
          else Inr \<lparr>cr_start = start, cr_end = end, cr_total = total_size\<rparr>))))))"

section \<open>Comparison\<close>

text \<open>Evidence shared by two probes: a pair of strong ETags, or of Last-Modified dates, that agree.\<close>

definition proves_same :: "resource_validators \<Rightarrow> resource_validators \<Rightarrow> bool" where
  "proves_same v w \<longleftrightarrow>
     (\<exists>e. rv_etag v = Some e \<and> rv_etag w = Some e \<and> \<not> rv_etag_is_weak v \<and> \<not> rv_etag_is_weak w)
     \<or> (\<exists>m. rv_last_modified v = Some m \<and> rv_last_modified w = Some m)"

lemma changed_Some [simp]: "\<not> changed a b \<longleftrightarrow> (\<forall>x y. a = Some x \<longrightarrow> b = Some y \<longrightarrow> x = y)"
  by (auto simp: changed_def split: option.splits)

lemma same_generation_ok:
  "same_generation v w = Inr u \<longleftrightarrow> \<not> changed (rv_etag v) (rv_etag w)
     \<and> \<not> changed (rv_last_modified v) (rv_last_modified w) \<and> \<not> changed (rv_total_size v) (rv_total_size w)"
  by (simp add: same_generation_def del: changed_Some)

text \<open>
  Resume admission is sound. When the comparison of the saved validators with the fresh
  ones passes both checks, the two sets agree on a strong ETag, or on a Last-Modified date; and no
  attribute both of them carry differs. Size equality alone never suffices. Conversely a saved set
  that is not resume-capable is never admitted.
\<close>

lemma resume_admission_sound:
  assumes "same_generation saved current = Inr ()" "comparable_generation saved current = Inr ()"
  shows "proves_same saved current \<and> resume_capable saved
    \<and> (\<forall>a b. rv_total_size saved = Some a \<longrightarrow> rv_total_size current = Some b \<longrightarrow> a = b)
    \<and> (\<forall>a b. rv_etag saved = Some a \<longrightarrow> rv_etag current = Some b \<longrightarrow> a = b)"
  using assms unfolding same_generation_ok
  by (auto simp: comparable_generation_def proves_same_def resume_capable_def split: if_splits)

definition strong_example :: resource_validators where
  "strong_example = \<lparr>rv_etag = Some ''v1'', rv_etag_is_weak = False, rv_last_modified = None, rv_total_size = Some 10\<rparr>"

section \<open>Round trip of Content-Range\<close>

text \<open>The value a server sends for a slice, RFC 9110 form.\<close>

definition show_content_range :: "content_range \<Rightarrow> string" where
  "show_content_range r =
     ''bytes '' @ show_u64 (cr_start r) @ ''-'' @ show_u64 (cr_end r) @ ''/''
       @ (case cr_total r of None \<Rightarrow> ''*'' | Some t \<Rightarrow> show_u64 t)"

lemma not_in_show: "(of_char c :: nat) < 48 \<Longrightarrow> c \<notin> set (show_u64 n)"
  using show_u64_char by fastforce

lemma trim_ends:
  assumes "s \<noteq> []" "\<not> is_ascii_space (hd s)" "\<not> is_ascii_space (last s)"
  shows "trim s = s"
proof -
  have *: "dropWhile is_ascii_space r = r" if "r \<noteq> []" "\<not> is_ascii_space (hd r)" for r
    using that by (cases r) auto
  show ?thesis using assms by (simp add: trim_def trim_start_def * hd_rev)
qed

lemma show_total_ne: "show_u64 t \<noteq> ''*''"
proof
  assume "show_u64 t = ''*''"
  then have "CHR ''*'' \<in> set (show_u64 t)" by simp
  then show False using not_in_show [of "CHR ''*''" t] by simp
qed

lemma trim_content_range: "trim (show_content_range r) = show_content_range r"
proof (rule trim_ends)
  have "last (show_content_range r) = (case cr_total r of None \<Rightarrow> CHR ''*'' | Some t \<Rightarrow> last (show_u64 t))"
    by (simp add: show_content_range_def show_u64_nonempty split: option.split)
  then show "\<not> is_ascii_space (last (show_content_range r))"
    using show_u64_no_space show_u64_nonempty last_in_set
    by (auto simp: is_ascii_space_def Let_def split: option.splits)
qed (simp_all add: show_content_range_def is_ascii_space_def Let_def)

text \<open>
  Every well-formed \<open>Content-Range\<close> is understood, and what is understood is well formed.
  Parsing the header text of a slice gives back its start, end and total (or \<open>*\<close>), and any text the
  parser accepts yields a non-empty slice of 64-bit offsets.
\<close>

lemma content_range_roundtrip:
  assumes "cr_start r \<le> cr_end r" "cr_end r \<le> u64_max" "\<And>t. cr_total r = Some t \<Longrightarrow> t \<le> u64_max"
  shows "parse_content_range (show_content_range r) = Inr r
    \<and> (\<forall>v q. parse_content_range v = Inr q \<longrightarrow> cr_start q \<le> cr_end q \<and> cr_end q \<le> u64_max)"
proof
  let ?tot = "case cr_total r of None \<Rightarrow> ''*'' | Some t \<Rightarrow> show_u64 t"
  let ?range = "show_u64 (cr_start r) @ CHR ''-'' # show_u64 (cr_end r)"
  have txt_eq: "show_content_range r = ''bytes '' @ (?range @ CHR ''/'' # ?tot)"
    by (simp add: show_content_range_def)
  have slash: "split_once (CHR ''/'') (?range @ CHR ''/'' # ?tot) = Some (?range, ?tot)"
    by (rule split_once_append) (simp add: not_in_show)
  have dash: "split_once (CHR ''-'') ?range = Some (show_u64 (cr_start r), show_u64 (cr_end r))"
    by (rule split_once_append) (simp add: not_in_show)
  have tot: "(if trim ?tot = ''*'' then Some None else map_option Some (parse_u64 (trim ?tot))) = Some (cr_total r)"
  proof (cases "cr_total r")
    case None
    have "trim ''*'' = ''*''" by code_simp
    with None show ?thesis by simp
  next
    case (Some t)
    then show ?thesis using parse_show_u64 [of t] assms(3) show_total_ne by simp
  qed
  have nums: "parse_u64 (show_u64 (cr_start r)) = Some (cr_start r)" "parse_u64 (show_u64 (cr_end r)) = Some (cr_end r)"
    using assms(1,2) by (simp_all add: parse_show_u64)
  have "strip_prefix ''bytes '' (trim (show_content_range r)) = Some (?range @ CHR ''/'' # ?tot)"
    by (simp only: trim_content_range) (simp only: txt_eq strip_prefix_append)
  then show "parse_content_range (show_content_range r) = Inr r"
    unfolding parse_content_range_def
    using slash dash tot nums assms(1) by (simp only: option.case prod.case trim_show_u64) simp
next
  show "\<forall>v q. parse_content_range v = Inr q \<longrightarrow> cr_start q \<le> cr_end q \<and> cr_end q \<le> u64_max"
    by (auto simp: parse_content_range_def dest: parse_u64_bound split: option.splits prod.splits if_splits)
qed

end
