(* ===== verification/Download_Error.thy ===== *)
theory Download_Error
  imports Http_Validators
begin

text \<open>
  The error taxonomy (\<open>error.rs\<close>) and the tables that produce errors from HTTP statuses and body
  failures (\<open>http/execution.rs\<close>): categories, retryability hints, failure domains and the typed
  terminal outcomes of a run.
\<close>

section \<open>Categories\<close>

type_synonym duration = nat

datatype error_category =
    CatConfiguration | CatInvalidUrl | CatUnsupportedScheme | CatDns | CatConnectTimeout | CatConnection
  | CatTls | CatProxy | CatAuthenticationRequired | CatAuthorizationFailed | CatNotFound | CatServer
  | CatRateLimited | CatRedirect | CatProtocol | CatRangeUnsupported | CatInvalidRangeResponse
  | CatResourceChanged | CatUnknownLengthUnsupportedForMode | CatSinkOpen | CatSinkWrite | CatDiskFull
  | CatPermissionDenied | CatCheckpoint | CatIntegrityMismatch | CatCommit | CatDestinationConflict
  | CatCancelled | CatDeadlineExceeded | CatRetryExhausted | CatMemoryCap

datatype retryability = Transient | Permanent | Never

definition category_retryable :: "error_category \<Rightarrow> retryability" where
  "category_retryable c =
     (if c \<in> {CatDns, CatConnectTimeout, CatConnection, CatServer, CatRateLimited, CatProtocol, CatRetryExhausted}
      then Transient else Never)"

record segment_context =
  sc_lease_id :: u64
  sc_start :: u64
  sc_end :: u64

section \<open>Errors\<close>

datatype download_error =
    Configuration string | InvalidUrl string | UnsupportedScheme string | Dns string | ConnectTimeout
  | Connection string | Tls string | Proxy string | AuthenticationRequired | AuthorizationFailed
  | NotFound u16 | Server u16 | RateLimited u16 | Redirect string | Protocol string | RangeUnsupported
  | InvalidRangeResponse string | ResourceChanged string | UnknownLengthUnsupportedForMode
  | SinkOpen string | SinkWrite string | DiskFull string | PermissionDenied string | Checkpoint string
  | IntegrityMismatch string | Commit string | DestinationConflict string | Cancelled | DeadlineExceeded
  | RetryExhausted download_error
  | MemoryCapExceeded (mce_component: string) (mce_requested: u64) (mce_cap: u64)
  | AdmissionRejected (ar_active: u32) (ar_cap: u32)

fun display_error :: "download_error \<Rightarrow> string" where
  "display_error (Configuration s) = ''configuration invalid: '' @ s"
| "display_error (InvalidUrl s) = ''invalid URL: '' @ s"
| "display_error (UnsupportedScheme s) = ''unsupported URL scheme: '' @ s"
| "display_error (Dns s) = ''DNS failure: '' @ s"
| "display_error ConnectTimeout = ''connect timeout''"
| "display_error (Connection s) = ''connection error: '' @ s"
| "display_error (Tls s) = ''TLS error: '' @ s"
| "display_error (Proxy s) = ''proxy error: '' @ s"
| "display_error AuthenticationRequired = ''authentication required''"
| "display_error AuthorizationFailed = ''authorization failed''"
| "display_error (NotFound st) = ''resource not found (HTTP '' @ show_u64 st @ '')''"
| "display_error (Server st) = ''server error (HTTP '' @ show_u64 st @ '')''"
| "display_error (RateLimited st) = ''rate limited (HTTP '' @ show_u64 st @ '')''"
| "display_error (Redirect s) = ''redirect error: '' @ s"
| "display_error (Protocol s) = ''protocol violation: '' @ s"
| "display_error RangeUnsupported = ''range requests unsupported''"
| "display_error (InvalidRangeResponse s) = ''invalid range response: '' @ s"
| "display_error (ResourceChanged s) = ''resource changed: '' @ s"
| "display_error UnknownLengthUnsupportedForMode = ''unknown content length unsupported for requested mode''"
| "display_error (SinkOpen s) = ''cannot open sink: '' @ s"
| "display_error (SinkWrite s) = ''cannot write sink: '' @ s"
| "display_error (DiskFull s) = ''disk full: '' @ s"
| "display_error (PermissionDenied s) = ''permission denied: '' @ s"
| "display_error (Checkpoint s) = ''checkpoint error: '' @ s"
| "display_error (IntegrityMismatch s) = ''integrity mismatch: '' @ s"
| "display_error (Commit s) = ''commit failed: '' @ s"
| "display_error (DestinationConflict s) = ''destination conflict: '' @ s"
| "display_error Cancelled = ''cancelled''"
| "display_error DeadlineExceeded = ''deadline exceeded''"
| "display_error (RetryExhausted e) = ''retries exhausted: '' @ display_error e"
| "display_error (MemoryCapExceeded c r m) = ''transfer-memory cap exceeded: '' @ c @ '' allocation of ''
     @ show_u64 r @ '' bytes exceeds cap '' @ show_u64 m"
| "display_error (AdmissionRejected a c) = ''active-job admission rejected: '' @ show_u64 a @ '' of ''
     @ show_u64 c @ '' jobs admitted''"

fun error_category_of :: "download_error \<Rightarrow> error_category" where
  "error_category_of (Configuration _) = CatConfiguration"
| "error_category_of (MemoryCapExceeded _ _ _) = CatMemoryCap"
| "error_category_of (AdmissionRejected _ _) = CatMemoryCap"
| "error_category_of (InvalidUrl _) = CatInvalidUrl"
| "error_category_of (UnsupportedScheme _) = CatUnsupportedScheme"
| "error_category_of (Dns _) = CatDns"
| "error_category_of ConnectTimeout = CatConnectTimeout"
| "error_category_of (Connection _) = CatConnection"
| "error_category_of (Tls _) = CatTls"
| "error_category_of (Proxy _) = CatProxy"
| "error_category_of AuthenticationRequired = CatAuthenticationRequired"
| "error_category_of AuthorizationFailed = CatAuthorizationFailed"
| "error_category_of (NotFound _) = CatNotFound"
| "error_category_of (Server _) = CatServer"
| "error_category_of (RateLimited _) = CatRateLimited"
| "error_category_of (Redirect _) = CatRedirect"
| "error_category_of (Protocol _) = CatProtocol"
| "error_category_of RangeUnsupported = CatRangeUnsupported"
| "error_category_of (InvalidRangeResponse _) = CatInvalidRangeResponse"
| "error_category_of (ResourceChanged _) = CatResourceChanged"
| "error_category_of UnknownLengthUnsupportedForMode = CatUnknownLengthUnsupportedForMode"
| "error_category_of (SinkOpen _) = CatSinkOpen"
| "error_category_of (SinkWrite _) = CatSinkWrite"
| "error_category_of (DiskFull _) = CatDiskFull"
| "error_category_of (PermissionDenied _) = CatPermissionDenied"
| "error_category_of (Checkpoint _) = CatCheckpoint"
| "error_category_of (IntegrityMismatch _) = CatIntegrityMismatch"
| "error_category_of (Commit _) = CatCommit"
| "error_category_of (DestinationConflict _) = CatDestinationConflict"
| "error_category_of Cancelled = CatCancelled"
| "error_category_of DeadlineExceeded = CatDeadlineExceeded"
| "error_category_of (RetryExhausted _) = CatRetryExhausted"

definition error_retryability :: "download_error \<Rightarrow> retryability" where
  "error_retryability e = category_retryable (error_category_of e)"

fun http_status :: "download_error \<Rightarrow> u16 option" where
  "http_status (NotFound st) = Some st"
| "http_status (Server st) = Some st"
| "http_status (RateLimited st) = Some st"
| "http_status _ = None"

text \<open>A filesystem error: its kind, the raw errno when there is one, and its text.\<close>

datatype io_error_kind = IoNotFound | IoPermissionDenied | IoOther

record io_error =
  io_kind :: io_error_kind
  io_raw_os_error :: "int option"
  io_message :: string

definition from_io :: "io_error \<Rightarrow> download_error" where
  "from_io e =
     (case io_kind e of
        IoNotFound \<Rightarrow> SinkOpen (io_message e)
      | IoPermissionDenied \<Rightarrow> PermissionDenied (io_message e)
      | IoOther \<Rightarrow>
          if io_raw_os_error e = Some 28 \<or> io_raw_os_error e = Some 122 then DiskFull (io_message e)
          else if io_raw_os_error e = Some 13 then PermissionDenied (io_message e)
          else if io_raw_os_error e = Some 30 then PermissionDenied (io_message e)
          else SinkWrite (io_message e))"

section \<open>Failure domains and terminal outcomes\<close>

datatype failure_domain = DomTransfer | DomInfrastructure | DomCancelled

fun error_domain :: "download_error \<Rightarrow> failure_domain" where
  "error_domain (Configuration _) = DomInfrastructure"
| "error_domain (InvalidUrl _) = DomInfrastructure"
| "error_domain (UnsupportedScheme _) = DomInfrastructure"
| "error_domain (SinkOpen _) = DomInfrastructure"
| "error_domain (SinkWrite _) = DomInfrastructure"
| "error_domain (DiskFull _) = DomInfrastructure"
| "error_domain (PermissionDenied _) = DomInfrastructure"
| "error_domain (Checkpoint _) = DomInfrastructure"
| "error_domain (Commit _) = DomInfrastructure"
| "error_domain (DestinationConflict _) = DomInfrastructure"
| "error_domain (AdmissionRejected _ _) = DomInfrastructure"
| "error_domain Cancelled = DomCancelled"
| "error_domain _ = DomTransfer"

record transfer_accounting =
  ta_bytes_downloaded_from_network :: u64
  ta_bytes_reused_from_checkpoint :: u64
  ta_completed_bytes :: u64
  ta_wasted_bytes :: u64
  ta_retries :: u64
  ta_segment_requests :: u64
  ta_live_splits :: u64
  ta_total_size :: "u64 option"
  ta_elapsed :: duration
  ta_validators :: resource_validators
  ta_warnings :: "string list"

definition wire_amplification :: "'f f64_ops \<Rightarrow> transfer_accounting \<Rightarrow> 'f option" where
  "wire_amplification F a =
     (let unique_output = sat_add (ta_completed_bytes a) (ta_bytes_reused_from_checkpoint a)
      in if unique_output = 0 then None
         else Some (f_div F (f_of_u64 F (ta_bytes_downloaded_from_network a)) (f_of_u64 F unique_output)))"

record artifact_disposition =
  ad_temp_retained :: bool
  ad_checkpoint_retained :: bool

record completed_download =
  cd_final_path :: string
  cd_accounting :: transfer_accounting

datatype cancel_mode = KeepPartial | DeletePartial | KeepFileDiscardCheckpoint

definition cancel_mode_from_u8 :: "nat \<Rightarrow> cancel_mode" where
  "cancel_mode_from_u8 v =
     (if v = 1 then KeepPartial else if v = 2 then KeepFileDiscardCheckpoint else DeletePartial)"

record transfer_failure =
  tf_error :: download_error
  tf_partial :: transfer_accounting
  tf_artifacts :: artifact_disposition

record engine_failure =
  ef_error :: download_error
  ef_partial :: transfer_accounting
  ef_artifacts :: artifact_disposition

record cancellation_summary =
  cs_mode :: cancel_mode
  cs_partial :: transfer_accounting
  cs_artifacts :: artifact_disposition

datatype download_run_error =
    RunTransfer transfer_failure
  | RunInfrastructure engine_failure
  | RunCancelled cancellation_summary

fun run_error_category :: "download_run_error \<Rightarrow> error_category" where
  "run_error_category (RunTransfer f) = error_category_of (tf_error f)"
| "run_error_category (RunInfrastructure f) = error_category_of (ef_error f)"
| "run_error_category (RunCancelled _) = CatCancelled"

fun run_error_domain :: "download_run_error \<Rightarrow> failure_domain" where
  "run_error_domain (RunTransfer _) = DomTransfer"
| "run_error_domain (RunInfrastructure _) = DomInfrastructure"
| "run_error_domain (RunCancelled _) = DomCancelled"

fun as_engine_error :: "download_run_error \<Rightarrow> download_error option" where
  "as_engine_error (RunTransfer f) = Some (tf_error f)"
| "as_engine_error (RunInfrastructure f) = Some (ef_error f)"
| "as_engine_error (RunCancelled _) = None"

fun run_error_accounting :: "download_run_error \<Rightarrow> transfer_accounting" where
  "run_error_accounting (RunTransfer f) = tf_partial f"
| "run_error_accounting (RunInfrastructure f) = ef_partial f"
| "run_error_accounting (RunCancelled s) = cs_partial s"

fun run_error_artifacts :: "download_run_error \<Rightarrow> artifact_disposition" where
  "run_error_artifacts (RunTransfer f) = tf_artifacts f"
| "run_error_artifacts (RunInfrastructure f) = ef_artifacts f"
| "run_error_artifacts (RunCancelled s) = cs_artifacts s"

text \<open>The constructors check the domain in debug builds (\<open>dbg\<close>) only.\<close>

definition transfer_failure_new :: "bool \<Rightarrow> download_error \<Rightarrow> transfer_accounting \<Rightarrow> artifact_disposition
    \<Rightarrow> transfer_failure outcome" where
  "transfer_failure_new dbg e partial artifacts =
     (if dbg \<and> error_domain e \<noteq> DomTransfer then Panic
      else Done \<lparr>tf_error = e, tf_partial = partial, tf_artifacts = artifacts\<rparr>)"

definition engine_failure_new :: "bool \<Rightarrow> download_error \<Rightarrow> transfer_accounting \<Rightarrow> artifact_disposition
    \<Rightarrow> engine_failure outcome" where
  "engine_failure_new dbg e partial artifacts =
     (if dbg \<and> error_domain e \<noteq> DomInfrastructure then Panic
      else Done \<lparr>ef_error = e, ef_partial = partial, ef_artifacts = artifacts\<rparr>)"

section \<open>Errors from responses\<close>

definition status_to_error :: "u16 \<Rightarrow> download_error" where
  "status_to_error st =
     (if st = 404 \<or> st = 410 then NotFound st
      else if st = 401 then AuthenticationRequired
      else if st = 403 then AuthorizationFailed
      else if st = 407 then Proxy ''proxy authentication required (407)''
      else if st = 408 then Protocol ''408 request timeout''
      else if st = 429 then RateLimited st
      else if 500 \<le> st \<and> st \<le> 599 then Server st
      else Protocol (''unexpected status '' @ show_u64 st))"

definition classify_body_failure :: "string \<Rightarrow> bool \<Rightarrow> download_error" where
  "classify_body_failure msg is_timeout =
     (if contains_str ''incomplete'' msg \<or> contains_str ''connection closed'' msg \<or> contains_str ''reset'' msg
      then Connection msg
      else if is_timeout \<or> contains_str ''timed out'' msg then Connection ''read timeout''
      else Connection msg)"

definition range_overrun_error :: "u64 \<Rightarrow> u64 \<Rightarrow> download_error" where
  "range_overrun_error start end =
     InvalidRangeResponse (''response body exceeds accepted range ['' @ show_u64 start @ '', '' @ show_u64 end @ '']'')"

section \<open>Classification\<close>

lemma retryability_cases: "error_retryability e = Transient \<or> error_retryability e = Never"
  by (simp add: error_retryability_def category_retryable_def)

text \<open>
  Classification of errors. A local fault (configuration, admission, filesystem,
  checkpoint, commit) or a cancellation is never hinted as transient, so no infrastructure failure is
  retried; the hint \<open>Permanent\<close> is never given to any error; and a debug build accepts an error in
  exactly one of the two failure constructors unless it is a cancellation, which both refuse.
\<close>

lemma error_classification:
  "(error_retryability e = Transient \<longrightarrow> error_domain e = DomTransfer)
   \<and> error_retryability e \<noteq> Permanent
   \<and> (transfer_failure_new True e a d = Panic \<longleftrightarrow> error_domain e \<noteq> DomTransfer)
   \<and> (error_domain e = DomCancelled \<longleftrightarrow>
        transfer_failure_new True e a d = Panic \<and> engine_failure_new True e a d = Panic)"
  by (cases e) (simp_all add: error_retryability_def category_retryable_def transfer_failure_new_def
      engine_failure_new_def)

end
