(* ===== verification/Http_Range.thy ===== *)
theory Http_Range
  imports Download_Error
begin

text \<open>
  The range response gate (\<open>http/range.rs\<close>) over the response metadata of \<open>http/execution.rs\<close>:
  what must hold of a response head before any byte of its body is written.
\<close>

section \<open>Response metadata\<close>

record response_metadata =
  rm_status :: u16
  rm_headers :: "(string \<times> string) list"
  rm_content_range :: "content_range option"
  rm_validators :: resource_validators
  rm_total_size :: "u64 option"
  rm_http_version :: string

definition find_header :: "string \<Rightarrow> (string \<times> string) list \<Rightarrow> string option" where
  "find_header name headers = map_option snd (find (\<lambda>(k, v). eq_ignore_ascii_case k name) headers)"

definition metadata_header :: "response_metadata \<Rightarrow> string \<Rightarrow> string option" where
  "metadata_header r name = find_header name (rm_headers r)"

definition from_head :: "u16 \<Rightarrow> (string \<times> string) list \<Rightarrow> string \<Rightarrow> response_metadata" where
  "from_head status headers http_version =
     (let content_range = (case find_header ''content-range'' headers of
            None \<Rightarrow> None
          | Some v \<Rightarrow> (case parse_content_range v of Inl _ \<Rightarrow> None | Inr cr \<Rightarrow> Some cr));
          total_size = (case content_range of
            Some cr \<Rightarrow> cr_total cr
          | None \<Rightarrow> (case find_header ''content-length'' headers of None \<Rightarrow> None | Some v \<Rightarrow> parse_u64 v));
          validators = from_headers (find_header ''etag'' headers) (find_header ''last-modified'' headers) total_size
      in \<lparr>rm_status = status, rm_headers = headers, rm_content_range = content_range,
          rm_validators = validators, rm_total_size = total_size, rm_http_version = http_version\<rparr>)"

section \<open>The gate\<close>

record validated_range =
  vr_start :: u64
  vr_end :: u64
  vr_total_size :: "u64 option"

datatype rejection_kind =
    FullResponseToNonzeroRange
  | UnexpectedStatus
  | StartMismatch
  | EndOvershoot
  | TotalConflict
  | GenerationChanged
  | BodyOverrun

record range_rejection =
  rr_kind :: rejection_kind
  rr_detail :: string

fun rejection_label :: "rejection_kind \<Rightarrow> string" where
  "rejection_label FullResponseToNonzeroRange = ''full response to nonzero range''"
| "rejection_label UnexpectedStatus = ''unexpected status''"
| "rejection_label StartMismatch = ''start mismatch''"
| "rejection_label EndOvershoot = ''end overshoot''"
| "rejection_label TotalConflict = ''total conflict''"
| "rejection_label GenerationChanged = ''generation changed''"
| "rejection_label BodyOverrun = ''body overrun''"

definition display_rejection :: "range_rejection \<Rightarrow> string" where
  "display_rejection r = ''range response rejected: '' @ rejection_label (rr_kind r) @ '': '' @ rr_detail r"

definition rejection_into_error :: "range_rejection \<Rightarrow> download_error" where
  "rejection_into_error r =
     (if rr_kind r = GenerationChanged then ResourceChanged (rr_detail r)
      else InvalidRangeResponse (''range response rejected: '' @ rejection_label (rr_kind r) @ '': '' @ rr_detail r))"

definition range_request_is_nonzero :: "u64 \<Rightarrow> bool" where
  "range_request_is_nonzero start \<longleftrightarrow> 0 < start"

definition opt_or :: "'a option \<Rightarrow> 'a option \<Rightarrow> 'a option" where
  "opt_or a b = (case a of Some _ \<Rightarrow> a | None \<Rightarrow> b)"

definition validate_range_response :: "byte_range \<Rightarrow> response_metadata \<Rightarrow> u64 option
    \<Rightarrow> resource_validators option \<Rightarrow> range_rejection + validated_range" where
  "validate_range_response request_range response established_total expected_validators =
     (let (s, e) = request_range;
          reject = (\<lambda>k d. Inl \<lparr>rr_kind = k, rr_detail = d\<rparr>);
          bytes = ''bytes='' @ show_u64 s @ ''-'' @ show_u64 e
      in if rm_status response = 200 then
           (if range_request_is_nonzero s then
              reject FullResponseToNonzeroRange (''200 response to range request '' @ bytes)
            else Inr \<lparr>vr_start = 0, vr_end = e, vr_total_size = opt_or (rm_total_size response) established_total\<rparr>)
         else if rm_status response \<noteq> 206 then
           reject UnexpectedStatus (''status '' @ show_u64 (rm_status response) @ '' for range request '' @ bytes)
         else
           (case rm_content_range response of
              None \<Rightarrow> reject StartMismatch ''206 response missing Content-Range''
            | Some cr \<Rightarrow>
                if cr_start cr \<noteq> s then
                  reject StartMismatch (''Content-Range start '' @ show_u64 (cr_start cr) @ '' != requested '' @ show_u64 s)
                else if e < cr_end cr then
                  reject EndOvershoot (''Content-Range end '' @ show_u64 (cr_end cr) @ '' exceeds requested end '' @ show_u64 e)
                else if changed established_total (cr_total cr) then
                  reject TotalConflict (''Content-Range total '' @ show_u64 (the (cr_total cr))
                    @ '' conflicts with established '' @ show_u64 (the established_total))
                else if (case expected_validators of
                           None \<Rightarrow> False
                         | Some expected \<Rightarrow> same_generation expected (rm_validators response) \<noteq> Inr ()) then
                  reject GenerationChanged ''response validators differ from job generation''
                else Inr \<lparr>vr_start = s, vr_end = cr_end cr, vr_total_size = opt_or (cr_total cr) established_total\<rparr>))"

definition body_overrun :: "u64 \<Rightarrow> u64 \<Rightarrow> u64 \<Rightarrow> bool" where
  "body_overrun offset_in_range incoming_len accepted_len \<longleftrightarrow> accepted_len < sat_add offset_in_range incoming_len"

section \<open>Properties\<close>

lemma changed_iff: "changed a b \<longleftrightarrow> (\<exists>x y. a = Some x \<and> b = Some y \<and> x \<noteq> y)"
  by (cases a; cases b) (simp_all add: changed_def)

lemma from_head_range:
  "rm_content_range (from_head st hs ver) = Some cr \<Longrightarrow> cr_start cr \<le> cr_end cr \<and> cr_end cr \<le> u64_max"
  by (auto simp: from_head_def Let_def parse_content_range_def dest: parse_u64_bound
      split: option.splits sum.splits prod.splits if_splits)

lemma from_head_status [simp]: "rm_status (from_head st hs ver) = st"
  by (simp add: from_head_def Let_def)


definition demo_head :: response_metadata where
  "demo_head = from_head 206 [(''Content-Range'', ''bytes 100-199/1000''), (''ETag'', ''v1'')] ''HTTP/1.1''"


text \<open>
  A full response is not checked. A 200 to a request that starts at 0 is accepted up to the
  requested end whatever size it announces and whatever validators it carries, also when they
  contradict the established total and the generation of the job.
\<close>

lemma full_response_unchecked:
  "validate_range_response (0, e) (from_head 200 hs ver) established expected
     = Inr \<lparr>vr_start = 0, vr_end = e, vr_total_size = opt_or (rm_total_size (from_head 200 hs ver)) established\<rparr>"
  by (simp add: validate_range_response_def range_request_is_nonzero_def Let_def)

text \<open>
  The transfer loop calls \<open>body_overrun\<close> with the bytes already delivered before it delivers a chunk.
\<close>

fun deliver_chunks :: "u64 \<Rightarrow> u64 \<Rightarrow> u64 list \<Rightarrow> u64 \<times> bool" where
  "deliver_chunks accepted_len offset [] = (offset, True)"
| "deliver_chunks accepted_len offset (len # lens) =
     (if body_overrun offset len accepted_len then (offset, False)
      else deliver_chunks accepted_len (u64_add offset len) lens)"

text \<open>
  The body guard is exact. Whatever chunk lengths the server sends, no more than the
  accepted length is ever delivered, and the body is cut off exactly when the chunks sum to more than
  that, without any wrap-around of the running offset.
\<close>

lemma body_guard_exact:
  assumes "accepted_len < u64_max"
  shows "fst (deliver_chunks accepted_len 0 lens) \<le> accepted_len
    \<and> snd (deliver_chunks accepted_len 0 lens) = (sum_list lens \<le> accepted_len)"
proof -
  have "off \<le> accepted_len \<Longrightarrow> fst (deliver_chunks accepted_len off lens) \<le> accepted_len
    \<and> snd (deliver_chunks accepted_len off lens) = (off + sum_list lens \<le> accepted_len)" for off
  proof (induction lens arbitrary: off)
    case (Cons len lens)
    have over: "body_overrun off len accepted_len \<longleftrightarrow> accepted_len < off + len"
      using assms by (auto simp: body_overrun_def sat_add_def)
    show ?case
    proof (cases "accepted_len < off + len")
      case True
      then show ?thesis using over Cons.prems by simp
    next
      case False
      then have "u64_add off len = off + len" using assms by (simp add: u64_exact)
      then show ?thesis using over False Cons.IH [of "off + len"] by (simp add: add.assoc)
    qed
  qed simp
  from this [of 0] show ?thesis by simp
qed

end
