(* ===== verification/Retry_Policy.thy ===== *)
theory Retry_Policy
  imports Download_Error
begin

text \<open>
  Retry classification and backoff (\<open>control/retry.rs\<close>, with \<open>RetryPolicy\<close> of \<open>config.rs\<close>). Durations
  are nanoseconds. The floating-point environment of the backoff (conversion of seconds, \<open>powi\<close>, and
  the uniform sample of the random number generator) is a parameter.
\<close>

section \<open>Policy\<close>

record 'f retry_policy =
  rp_max_attempts_per_segment :: u32
  rp_base_delay :: duration
  rp_max_delay :: duration
  rp_multiplier :: 'f
  rp_retry_408 :: bool
  rp_retry_429 :: bool
  rp_retry_5xx :: bool
  rp_honor_retry_after :: bool
  rp_retry_after_max :: duration

definition secs :: "nat \<Rightarrow> duration" where
  "secs n = n * 1000000000"

definition retry_policy_default :: "'f f64_ops \<Rightarrow> 'f retry_policy" where
  "retry_policy_default F =
     \<lparr>rp_max_attempts_per_segment = 8, rp_base_delay = 250 * 1000000, rp_max_delay = secs 30,
      rp_multiplier = f_lit F 2, rp_retry_408 = True, rp_retry_429 = True, rp_retry_5xx = True,
      rp_honor_retry_after = True, rp_retry_after_max = secs 120\<rparr>"

datatype retry_decision = Retry (retry_attempt: u32) (retry_delay: duration) | GiveUp

section \<open>Classification\<close>

definition retryable :: "'f retry_policy \<Rightarrow> download_error \<Rightarrow> bool" where
  "retryable p e =
     (let status = http_status e; c = error_category_of e
      in if c \<in> {CatDns, CatConnectTimeout, CatConnection, CatRetryExhausted} then True
         else if c = CatServer then rp_retry_5xx p
         else if c = CatRateLimited then rp_retry_429 p
         else if c = CatProtocol then (if status = Some 408 then rp_retry_408 p else True)
         else False)"

section \<open>Backoff\<close>

record 'f backoff_env =
  be_from_secs :: "'f \<Rightarrow> duration"
  be_powi :: "'f \<Rightarrow> nat \<Rightarrow> 'f"
  be_random_upto :: "'f \<Rightarrow> 'f"

definition as_secs_f64 :: "'f f64_ops \<Rightarrow> duration \<Rightarrow> 'f" where
  "as_secs_f64 F d =
     f_add F (f_of_u64 F (d div 1000000000)) (f_div F (f_of_u64 F (d mod 1000000000)) (f_lit F 1000000000))"

definition backoff_delay :: "'f f64_ops \<Rightarrow> 'f backoff_env \<Rightarrow> 'f retry_policy \<Rightarrow> u32 \<Rightarrow> duration" where
  "backoff_delay F B p attempt =
     (let base = as_secs_f64 F (rp_base_delay p);
          cap = f_min F (f_mul F base (be_powi B (rp_multiplier p) (min attempt (2 ^ 31 - 1))))
                  (as_secs_f64 F (rp_max_delay p));
          jittered = be_random_upto B cap
      in be_from_secs B (f_max F jittered (f_lit F 0)))"

definition honor_retry_after :: "'f retry_policy \<Rightarrow> duration option \<Rightarrow> duration option" where
  "honor_retry_after p server_value =
     (if \<not> rp_honor_retry_after p then None
      else (case map_option (\<lambda>d. min d (rp_retry_after_max p)) server_value of
              Some d \<Rightarrow> if d = 0 then None else Some d
            | None \<Rightarrow> None))"

definition decide :: "'f f64_ops \<Rightarrow> 'f backoff_env \<Rightarrow> 'f retry_policy \<Rightarrow> download_error \<Rightarrow> u32
    \<Rightarrow> duration option \<Rightarrow> retry_decision" where
  "decide F B p e attempt retry_after =
     (if error_category_of e = CatCancelled then GiveUp
      else if \<not> retryable p e then GiveUp
      else if rp_max_attempts_per_segment p \<le> attempt then GiveUp
      else
        let delay = (case honor_retry_after p retry_after of
              Some ra \<Rightarrow> max ra (backoff_delay F B p attempt)
            | None \<Rightarrow> backoff_delay F B p attempt)
        in Retry (attempt + 1) delay)"

definition parse_retry_after :: "string option \<Rightarrow> duration option" where
  "parse_retry_after v = (case v of None \<Rightarrow> None | Some s \<Rightarrow> map_option secs (parse_u64 (trim s)))"

definition retry_after_header :: "(string \<times> string) list \<Rightarrow> duration option" where
  "retry_after_header headers =
     parse_retry_after (map_option snd (find (\<lambda>(k, v). eq_ignore_ascii_case k ''retry-after'') headers))"

section \<open>Properties\<close>

text \<open>
  The classifier refines the hint. Whatever the policy, it retries only errors whose hint
  is transient; with every switch on it retries all of those; and a local fault, a cancellation, a
  missing resource, an authentication failure or a changed resource is never retried.
\<close>

lemma retryable_refines_hint:
  "(retryable p e \<longrightarrow> error_retryability e = Transient \<and> error_domain e = DomTransfer)
   \<and> (rp_retry_5xx p \<and> rp_retry_429 p \<and> rp_retry_408 p \<longrightarrow>
        retryable p e = (error_retryability e = Transient))"
  by (cases e) (simp_all add: retryable_def error_retryability_def category_retryable_def)

text \<open>
  The switch \<open>retry_408\<close> has no effect. A request timeout becomes a protocol error, which
  carries no HTTP status, so the classifier never sees 408: with the switch off a 408 response is
  still retried, and no error at all is classified differently by it. The same table makes every
  other unexpected client error status (400, say) retryable.
\<close>

lemma retry_408_switch_dead:
  "retryable (p\<lparr>rp_retry_408 := b\<rparr>) e = retryable p e
   \<and> retryable (p\<lparr>rp_retry_408 := False\<rparr>) (status_to_error 408)
   \<and> retryable p (status_to_error 400)"
  by (cases e) (simp_all add: retryable_def status_to_error_def)

text \<open>What the backoff relies on of the floating-point and random-number libraries.\<close>

definition backoff_env_ok :: "'f f64_ops \<Rightarrow> 'f backoff_env \<Rightarrow> bool" where
  "backoff_env_ok F B \<longleftrightarrow>
     (\<forall>x d. f_le F x (as_secs_f64 F d) \<longrightarrow> be_from_secs B x \<le> d)
     \<and> (\<forall>x y z. f_le F (f_min F x y) y \<and> (f_le F x y \<longrightarrow> f_le F y z \<longrightarrow> f_le F x z))
     \<and> (\<forall>c. f_le F (be_random_upto B c) c)
     \<and> (\<forall>x d. f_le F x (as_secs_f64 F d) \<longrightarrow> f_le F (f_max F x (f_lit F 0)) (as_secs_f64 F d))"

lemma backoff_le_max:
  assumes "backoff_env_ok F B"
  shows "backoff_delay F B p attempt \<le> rp_max_delay p"
proof -
  let ?cap = "f_min F (f_mul F (as_secs_f64 F (rp_base_delay p)) (be_powi B (rp_multiplier p) (min attempt (2 ^ 31 - 1))))
    (as_secs_f64 F (rp_max_delay p))"
  have "f_le F ?cap (as_secs_f64 F (rp_max_delay p))" "f_le F (be_random_upto B ?cap) ?cap"
    using assms unfolding backoff_env_ok_def by blast+
  then have "f_le F (be_random_upto B ?cap) (as_secs_f64 F (rp_max_delay p))"
    using assms unfolding backoff_env_ok_def by blast
  then show ?thesis
    using assms unfolding backoff_env_ok_def backoff_delay_def Let_def by blast
qed

text \<open>
  Retries end and waits are bounded. \<open>decide\<close> asks for a retry exactly when the error is
  retryable and fewer than the configured attempts were made, always with the next attempt number, so
  no operation is retried more often than configured; the wait is at least an honoured \<open>Retry-After\<close>
  and never longer than the larger of the two configured maxima.
\<close>

lemma decide_bounded:
  assumes "backoff_env_ok F B"
  shows "(decide F B p e attempt ra = GiveUp \<longleftrightarrow> \<not> retryable p e \<or> rp_max_attempts_per_segment p \<le> attempt)
    \<and> (\<forall>n d. decide F B p e attempt ra = Retry n d \<longrightarrow>
         n = attempt + 1 \<and> n \<le> rp_max_attempts_per_segment p
         \<and> d \<le> max (rp_max_delay p) (rp_retry_after_max p)
         \<and> (\<forall>w. honor_retry_after p ra = Some w \<longrightarrow> w \<le> d))"
proof -
  have cancelled: "retryable p e \<Longrightarrow> error_category_of e \<noteq> CatCancelled"
    by (auto simp: retryable_def)
  have cap: "honor_retry_after p ra = Some w \<Longrightarrow> w \<le> rp_retry_after_max p" for w
    by (auto simp: honor_retry_after_def split: if_splits option.splits)
  show ?thesis
    using backoff_le_max [OF assms, of p attempt] cancelled cap
    by (auto simp: decide_def Let_def split: option.splits if_splits intro: max.coboundedI1 max.coboundedI2)
qed

definition exact_env :: "rat backoff_env" where
  "exact_env = \<lparr>be_from_secs = (\<lambda>x. nat \<lfloor>x * 1000000000\<rfloor>), be_powi = (\<lambda>x n. x ^ n), be_random_upto = (\<lambda>c. c)\<rparr>"

lemma as_secs_rat: "as_secs_f64 rat_ops d = of_nat d / 1000000000"
proof -
  have "(of_nat d :: rat) = of_nat (d div 1000000000) * 1000000000 + of_nat (d mod 1000000000)"
    by (metis div_mult_mod_eq of_nat_add of_nat_mult of_nat_numeral)
  then show ?thesis by (simp add: as_secs_f64_def rat_ops_def field_simps)
qed

lemma exact_env_ok: "backoff_env_ok rat_ops exact_env"
proof -
  have "nat \<lfloor>x * 1000000000\<rfloor> \<le> d" if "x \<le> of_nat d / 1000000000" for x :: rat and d
  proof -
    have "x * 1000000000 \<le> of_nat d" using that by (simp add: field_simps)
    then have "\<lfloor>x * 1000000000\<rfloor> \<le> \<lfloor>of_nat d :: rat\<rfloor>" by (rule floor_mono)
    then show ?thesis by simp
  qed
  then show ?thesis unfolding backoff_env_ok_def as_secs_rat by (auto simp: rat_ops_def exact_env_def)
qed

end
