(* ===== verification/Rate_Limit.thy ===== *)
theory Rate_Limit
  imports Retry_Policy
begin

text \<open>
  Hierarchical token buckets (\<open>control/rate_limit.rs\<close>). The balance is a floating-point number, so
  the operations take the arithmetic \<open>F\<close> and the conversion of seconds to a duration; the clock is
  the argument \<open>now\<close>, in nanoseconds. Each call holds the bucket's lock and is one step. The rate
  guarantee is proved for exact rational arithmetic in place of \<open>f64\<close> and for every conversion of seconds to a
  duration that is right to the nanosecond.
\<close>

section \<open>One bucket\<close>

record 'f token_bucket =
  tb_tokens :: 'f
  tb_last_refill :: nat
  tb_limit :: u64
  tb_burst :: u64

definition default_burst :: "u64 \<Rightarrow> u64" where
  "default_burst bytes_per_second =
     (let quarter = bytes_per_second div 4 in if quarter = 0 then max bytes_per_second 1 else quarter)"

definition bucket_with_burst :: "'f f64_ops \<Rightarrow> nat \<Rightarrow> u64 \<Rightarrow> u64 \<Rightarrow> 'f token_bucket" where
  "bucket_with_burst F now bytes_per_second burst_bytes =
     \<lparr>tb_tokens = f_of_u64 F burst_bytes, tb_last_refill = now, tb_limit = bytes_per_second, tb_burst = burst_bytes\<rparr>"

definition bucket_new :: "'f f64_ops \<Rightarrow> nat \<Rightarrow> u64 \<Rightarrow> 'f token_bucket" where
  "bucket_new F now bytes_per_second = bucket_with_burst F now bytes_per_second (default_burst bytes_per_second)"

definition is_unlimited :: "'f token_bucket \<Rightarrow> bool" where
  "is_unlimited b \<longleftrightarrow> tb_limit b = 0"

definition set_rate :: "u64 \<Rightarrow> 'f token_bucket \<Rightarrow> 'f token_bucket" where
  "set_rate bytes_per_second b = b\<lparr>tb_limit := bytes_per_second, tb_burst := default_burst bytes_per_second\<rparr>"

definition refill :: "'f f64_ops \<Rightarrow> nat \<Rightarrow> 'f \<Rightarrow> 'f \<Rightarrow> 'f token_bucket \<Rightarrow> 'f token_bucket" where
  "refill F now rate burst b =
     (let elapsed = as_secs_f64 F (now - tb_last_refill b)
      in if f_lt F (f_lit F 0) elapsed
         then b\<lparr>tb_tokens := f_min F (f_add F (tb_tokens b) (f_mul F elapsed rate)) burst, tb_last_refill := now\<rparr>
         else b)"

definition bucket_acquire :: "'f f64_ops \<Rightarrow> ('f \<Rightarrow> duration) \<Rightarrow> nat \<Rightarrow> u64 \<Rightarrow> 'f token_bucket
    \<Rightarrow> duration option \<times> 'f token_bucket" where
  "bucket_acquire F from_secs now bytes b =
     (if is_unlimited b then (None, b)
      else
        let rate = f_of_u64 F (tb_limit b)
        in if f_le F rate (f_lit F 0) then (None, b)
           else
             let b1 = refill F now rate (f_of_u64 F (tb_burst b)) b;
                 b2 = b1\<lparr>tb_tokens := f_sub F (tb_tokens b1) (f_of_u64 F bytes)\<rparr>
             in if f_le F (f_lit F 0) (tb_tokens b2) then (None, b2)
                else (Some (from_secs (f_div F (f_neg F (tb_tokens b2)) rate)), b2))"

section \<open>The hierarchy\<close>

record 'f rate_limiter =
  rl_global :: "'f token_bucket option"
  rl_job :: "'f token_bucket option"

definition limiter_unlimited :: "'f rate_limiter" where
  "limiter_unlimited = \<lparr>rl_global = None, rl_job = None\<rparr>"

definition limiter_with_global :: "'f token_bucket \<Rightarrow> 'f rate_limiter" where
  "limiter_with_global b = \<lparr>rl_global = Some b, rl_job = None\<rparr>"

definition limiter_with_job :: "'f token_bucket \<Rightarrow> 'f rate_limiter \<Rightarrow> 'f rate_limiter" where
  "limiter_with_job b l = l\<lparr>rl_job := Some b\<rparr>"

definition set_job_bucket :: "'f token_bucket option \<Rightarrow> 'f rate_limiter \<Rightarrow> 'f rate_limiter" where
  "set_job_bucket b l = l\<lparr>rl_job := b\<rparr>"

definition set_job_rate :: "u64 \<Rightarrow> 'f rate_limiter \<Rightarrow> 'f rate_limiter" where
  "set_job_rate bytes_per_second l = l\<lparr>rl_job := map_option (set_rate bytes_per_second) (rl_job l)\<rparr>"

fun dominant_wait :: "duration option \<Rightarrow> duration option \<Rightarrow> duration option" where
  "dominant_wait (Some a) (Some b) = Some (max a b)"
| "dominant_wait (Some a) None = Some a"
| "dominant_wait None b = b"

definition opt_acquire :: "'f f64_ops \<Rightarrow> ('f \<Rightarrow> duration) \<Rightarrow> nat \<Rightarrow> u64 \<Rightarrow> 'f token_bucket option
    \<Rightarrow> duration option \<times> 'f token_bucket option" where
  "opt_acquire F from_secs now bytes ob =
     (case ob of
        None \<Rightarrow> (None, None)
      | Some b \<Rightarrow> (case bucket_acquire F from_secs now bytes b of (w, b') \<Rightarrow> (w, Some b')))"

text \<open>The two buckets read the clock one after the other.\<close>

definition limiter_acquire :: "'f f64_ops \<Rightarrow> ('f \<Rightarrow> duration) \<Rightarrow> nat \<Rightarrow> nat \<Rightarrow> u64 \<Rightarrow> 'f rate_limiter
    \<Rightarrow> duration option \<times> 'f rate_limiter" where
  "limiter_acquire F from_secs now1 now2 bytes l =
     (let (global_wait, g) = opt_acquire F from_secs now1 bytes (rl_global l);
          (job_wait, j) = opt_acquire F from_secs now2 bytes (rl_job l)
      in (dominant_wait global_wait job_wait, \<lparr>rl_global = g, rl_job = j\<rparr>))"

section \<open>The rate guarantee\<close>

text \<open>A run of one bucket: the instant and the size of each acquisition.\<close>

fun bucket_run :: "'f f64_ops \<Rightarrow> ('f \<Rightarrow> duration) \<Rightarrow> (nat \<times> u64) list \<Rightarrow> 'f token_bucket \<Rightarrow> 'f token_bucket" where
  "bucket_run F from_secs [] b = b"
| "bucket_run F from_secs ((now, bytes) # rest) b =
     bucket_run F from_secs rest (snd (bucket_acquire F from_secs now bytes b))"

fun ascending_from :: "nat \<Rightarrow> (nat \<times> u64) list \<Rightarrow> bool" where
  "ascending_from t [] = True"
| "ascending_from t ((now, bytes) # rest) = (t \<le> now \<and> ascending_from now rest)"

lemmas rat_arith = rat_ops_def as_secs_rat [unfolded rat_ops_def]

lemma acquire_rat:
  assumes "0 < tb_limit b" "tb_last_refill b \<le> now"
  shows "tb_tokens (snd (bucket_acquire rat_ops fs now bytes b))
      \<le> tb_tokens b + of_nat (now - tb_last_refill b) / 1000000000 * of_nat (tb_limit b) - of_nat bytes"
    and "tb_last_refill (snd (bucket_acquire rat_ops fs now bytes b)) = now"
    and "tb_limit (snd (bucket_acquire rat_ops fs now bytes b)) = tb_limit b"
    and "tb_burst (snd (bucket_acquire rat_ops fs now bytes b)) = tb_burst b"
    and "tb_tokens b \<le> of_nat (tb_burst b) \<Longrightarrow>
      tb_tokens (snd (bucket_acquire rat_ops fs now bytes b)) \<le> of_nat (tb_burst b) - of_nat bytes"
  using assms by (auto simp: bucket_acquire_def is_unlimited_def refill_def rat_arith Let_def)

lemma acquire_rat_wait:
  assumes "tb_limit b = rate" "0 < rate"
  shows "fst (bucket_acquire rat_ops fs now bytes b) =
    (if 0 \<le> tb_tokens (snd (bucket_acquire rat_ops fs now bytes b)) then None
     else Some (fs (- tb_tokens (snd (bucket_acquire rat_ops fs now bytes b)) / of_nat rate)))"
proof -
  have "f_le rat_ops = (\<le>)" "f_lit rat_ops = (\<lambda>x. x)" "f_of_u64 rat_ops = of_nat" "f_div rat_ops = (/)" "f_neg rat_ops = uminus"
    by (simp_all add: rat_ops_def)
  then show ?thesis using assms by (simp add: bucket_acquire_def is_unlimited_def Let_def)
qed

lemma bucket_run_rat:
  assumes "0 < tb_limit b" "ascending_from (tb_last_refill b) evs" "tb_tokens b \<le> of_nat (tb_burst b)"
  shows "tb_tokens (bucket_run rat_ops fs evs b) + of_nat (sum_list (map snd evs))
      \<le> tb_tokens b + of_nat (tb_last_refill (bucket_run rat_ops fs evs b) - tb_last_refill b) / 1000000000
          * of_nat (tb_limit b)
    \<and> tb_last_refill b \<le> tb_last_refill (bucket_run rat_ops fs evs b)"
  using assms
proof (induction evs arbitrary: b)
  case (Cons ev evs)
  obtain now bytes where ev: "ev = (now, bytes)" by force
  let ?b = "snd (bucket_acquire rat_ops fs now bytes b)"
  have le: "tb_last_refill b \<le> now" using Cons.prems(2) ev by simp
  note a = acquire_rat [OF Cons.prems(1) le, of fs bytes]
  have "tb_tokens ?b \<le> of_nat (tb_burst ?b)" using a(4) a(5) [OF Cons.prems(3)] by (simp add: le_diff_eq order_trans)
  then have IH: "tb_tokens (bucket_run rat_ops fs evs ?b) + of_nat (sum_list (map snd evs))
      \<le> tb_tokens ?b + of_nat (tb_last_refill (bucket_run rat_ops fs evs ?b) - now) / 1000000000 * of_nat (tb_limit b)"
    "now \<le> tb_last_refill (bucket_run rat_ops fs evs ?b)"
    using Cons.IH [of ?b] Cons.prems a ev by auto
  let ?e = "tb_last_refill (bucket_run rat_ops fs evs ?b)"
  have "of_nat (?e - now) / 1000000000 * of_nat (tb_limit b) + of_nat (now - tb_last_refill b) / 1000000000 * of_nat (tb_limit b)
      = (of_nat (?e - tb_last_refill b) / 1000000000 * of_nat (tb_limit b) :: rat)"
    using IH(2) le by (simp add: of_nat_diff field_simps)
  then show ?case using IH a(1) le by (simp add: ev)
qed simp

lemma bucket_run_append: "bucket_run F fs (evs @ evs') b = bucket_run F fs evs' (bucket_run F fs evs b)"
  by (induction evs arbitrary: b) auto

lemma bucket_run_keeps:
  assumes "0 < tb_limit b" "ascending_from (tb_last_refill b) (evs @ evs')" "tb_tokens b \<le> of_nat (tb_burst b)"
  shows "tb_limit (bucket_run rat_ops fs evs b) = tb_limit b \<and> tb_burst (bucket_run rat_ops fs evs b) = tb_burst b
    \<and> tb_tokens (bucket_run rat_ops fs evs b) \<le> of_nat (tb_burst b)
    \<and> ascending_from (tb_last_refill (bucket_run rat_ops fs evs b)) evs'"
  using assms
proof (induction evs arbitrary: b)
  case (Cons ev evs)
  obtain now bytes where ev: "ev = (now, bytes)" by force
  have le: "tb_last_refill b \<le> now" using Cons.prems(2) ev by simp
  note a = acquire_rat [OF Cons.prems(1) le, of fs bytes]
  have "tb_tokens (snd (bucket_acquire rat_ops fs now bytes b)) \<le> of_nat (tb_burst b)"
    using a(5) [OF Cons.prems(3)] by (simp add: le_diff_eq order_trans)
  then show ?case using Cons.IH [of "snd (bucket_acquire rat_ops fs now bytes b)"] Cons.prems a ev by auto
qed simp

text \<open>
  A window of consecutive acquisitions: after the first one the balance is at most the burst less its bytes, and
  from there on it grows with the rate only.
\<close>

lemma window_bound:
  assumes "0 < tb_limit b" "ascending_from (tb_last_refill b) ((t1, n) # evs)" "tb_tokens b \<le> of_nat (tb_burst b)"
  fixes fs defines "fin \<equiv> bucket_run rat_ops fs ((t1, n) # evs) b"
  shows "tb_tokens fin + of_nat (sum_list (map snd ((t1, n) # evs)))
    \<le> of_nat (tb_burst b) + of_nat (tb_last_refill fin - t1) / 1000000000 * of_nat (tb_limit b)"
proof -
  have le: "tb_last_refill b \<le> t1" using assms(2) by simp
  note a = acquire_rat [OF assms(1) le, of fs n]
  let ?b = "snd (bucket_acquire rat_ops fs t1 n b)"
  have tok: "tb_tokens ?b \<le> of_nat (tb_burst b) - of_nat n" by (rule a(5) [OF assms(3)])
  have "tb_tokens (bucket_run rat_ops fs evs ?b) + of_nat (sum_list (map snd evs))
      \<le> tb_tokens ?b + of_nat (tb_last_refill (bucket_run rat_ops fs evs ?b) - t1) / 1000000000 * of_nat (tb_limit b)"
  proof -
    have "0 < tb_limit ?b" "ascending_from (tb_last_refill ?b) evs" "tb_tokens ?b \<le> of_nat (tb_burst ?b)"
      using a(2-4) assms(1,2) tok by (simp_all add: le_diff_eq order_trans)
    from bucket_run_rat [OF this, of fs, THEN conjunct1] show ?thesis by (simp only: a(2,3))
  qed
  then show ?thesis using tok by (simp add: fin_def)
qed

text \<open>A wait that is the debt divided by the rate, to the nanosecond, pays the debt and little more.\<close>

lemma wait_pays_debt:
  fixes debt :: rat
  assumes "0 < rate" "0 \<le> debt" and secs: "\<And>x. 0 \<le> x \<Longrightarrow> \<bar>of_nat (fs x) - x * 1000000000\<bar> \<le> (1 :: rat)"
  shows "debt \<le> of_nat rate * (of_nat (fs (debt / of_nat rate)) + 1) / 1000000000"
    and "of_nat rate * (of_nat (fs (debt / of_nat rate)) - 1) \<le> debt * 1000000000"
proof -
  have r: "(0::rat) < of_nat rate" using assms(1) by simp
  have "\<bar>of_nat (fs (debt / of_nat rate)) - debt / of_nat rate * 1000000000\<bar> \<le> (1::rat)"
    by (rule secs) (use assms(2) in simp)
  then have lo: "debt / of_nat rate * 1000000000 \<le> of_nat (fs (debt / of_nat rate)) + 1"
    and hi: "of_nat (fs (debt / of_nat rate)) - 1 \<le> debt / of_nat rate * 1000000000" by linarith+
  have "debt * 1000000000 \<le> of_nat rate * (of_nat (fs (debt / of_nat rate)) + 1)"
    using mult_left_mono [OF lo, of "of_nat rate"] r by simp
  then show "debt \<le> of_nat rate * (of_nat (fs (debt / of_nat rate)) + 1) / 1000000000" by simp
  show "of_nat rate * (of_nat (fs (debt / of_nat rate)) - 1) \<le> debt * 1000000000"
    using mult_left_mono [OF hi, of "of_nat rate"] r by simp
qed

text \<open>
  Claim C13: the configured rate holds in every window (in exact arithmetic). Take any sequence of acquisitions at
  non-decreasing instants from a fresh bucket and any stretch of it, from an acquisition at \<open>t1\<close>, after whatever
  came before, to one at \<open>now\<close>. The bytes granted in the stretch never exceed the burst plus the rate times the time
  of the stretch plus the debt of the balance. A wait is asked for exactly when there is a debt. It is the debt
  divided by the rate to the nanosecond: once the last caller has slept it, and one nanosecond, the bytes of the
  stretch are within burst + rate * time; and it asks for no more than one nanosecond more than the debt needs.
\<close>

theorem token_bucket_rate:
  fixes rate burst :: u64 and before window :: "(nat \<times> u64) list" and t0 now :: nat and bytes :: u64
  assumes "0 < rate" and "ascending_from t0 (before @ window @ [(now, bytes)])"
    and from_secs_f64: "\<And>x. 0 \<le> x \<Longrightarrow> \<bar>of_nat (fs x) - x * 1000000000\<bar> \<le> (1 :: rat)"
  defines "t1 \<equiv> fst (hd (window @ [(now, bytes)]))"
  defines "granted \<equiv> of_nat (sum_list (map snd window) + bytes)"
  defines "answer \<equiv> bucket_acquire rat_ops fs now bytes (bucket_run rat_ops fs (before @ window) (bucket_with_burst rat_ops t0 rate burst))"
  defines "debt \<equiv> max 0 (- tb_tokens (snd answer))"
  shows "granted \<le> of_nat burst + of_nat rate * of_nat (now - t1) / 1000000000 + debt
    \<and> (case fst answer of
         None \<Rightarrow> debt = 0
       | Some wait \<Rightarrow> 0 < debt \<and> granted \<le> of_nat burst + of_nat rate * of_nat (now - t1 + wait + 1) / 1000000000
           \<and> of_nat rate * (of_nat wait - 1) \<le> debt * 1000000000)"
proof -
  let ?start = "bucket_with_burst rat_ops t0 rate burst"
  let ?b = "bucket_run rat_ops fs before ?start"
  let ?run = "bucket_run rat_ops fs (before @ window) ?start"
  have start: "0 < tb_limit ?start" "tb_tokens ?start = of_nat burst" "tb_burst ?start = burst"
    "tb_last_refill ?start = t0" "tb_limit ?start = rate"
    using assms(1) by (simp_all add: bucket_with_burst_def rat_ops_def)
  have b: "tb_limit ?b = rate" "tb_burst ?b = burst" "tb_tokens ?b \<le> of_nat burst"
    "ascending_from (tb_last_refill ?b) (window @ [(now, bytes)])"
    using bucket_run_keeps [OF start(1), of before "window @ [(now, bytes)]" fs] assms(2) start by auto
  have run: "tb_limit ?run = rate" "tb_last_refill ?run \<le> now"
    using bucket_run_keeps [of ?b window "[(now, bytes)]" fs] b assms(1) by (simp_all add: bucket_run_append)
  obtain n evs where w: "window @ [(now, bytes)] = (t1, n) # evs"
    by (cases "window @ [(now, bytes)]") (auto simp: t1_def)
  have fin: "bucket_run rat_ops fs (window @ [(now, bytes)]) ?b = snd answer"
    by (simp add: answer_def bucket_run_append)
  have refilled: "tb_last_refill (snd answer) = now"
    using acquire_rat(2) [of ?run now fs bytes] run assms(1) by (simp add: answer_def)
  have "tb_tokens (snd answer) + of_nat (sum_list (map snd (window @ [(now, bytes)])))
      \<le> of_nat burst + of_nat (now - t1) / 1000000000 * of_nat rate"
    using window_bound [of ?b t1 n evs fs] b assms(1) unfolding w [symmetric] fin refilled by simp
  then have bound: "granted \<le> of_nat burst + of_nat rate * of_nat (now - t1) / 1000000000 + debt"
    by (simp add: granted_def debt_def mult.commute)
  note wait = acquire_rat_wait [OF run(1) assms(1), of fs now bytes, folded answer_def]
  show ?thesis
  proof (cases "0 \<le> tb_tokens (snd answer)")
    case True
    then show ?thesis using bound wait by (simp add: debt_def)
  next
    case False
    then have d: "0 < debt" "fst answer = Some (fs (debt / of_nat rate))" using wait by (simp_all add: debt_def)
    note paid = wait_pays_debt [OF assms(1) less_imp_le [OF d(1)] from_secs_f64]
    have "granted \<le> of_nat burst + of_nat rate * of_nat (now - t1 + fs (debt / of_nat rate) + 1) / 1000000000"
      using bound paid(1) by (simp add: algebra_simps add_divide_distrib)
    then show ?thesis using bound d paid(2) by simp
  qed
qed

definition demo_secs :: "rat \<Rightarrow> duration" where
  "demo_secs x = nat \<lfloor>x * 1000000000\<rfloor>"

theorem token_bucket_rate_witness:
  "fst (bucket_acquire rat_ops demo_secs 5000000000 300
      (bucket_run rat_ops demo_secs [(0, 100), (5000000000, 100)] (bucket_with_burst rat_ops 0 100 100)))
    = Some 3000000000
   \<and> (100 + 300 :: rat) \<le> 100 + 100 * (0 + 3000000000 + 1) / 1000000000"
proof -
  have asc: "ascending_from 0 ([(0, 100)] @ [(5000000000, 100)] @ [(5000000000, 300)])" by simp
  have secs: "\<bar>of_nat (demo_secs x) - x * 1000000000\<bar> \<le> (1 :: rat)" if "0 \<le> x" for x
    unfolding demo_secs_def using that by (simp add: abs_if) linarith
  note rate = token_bucket_rate [of 100 0 "[(0, 100)]" "[(5000000000, 100)]" 5000000000 300 demo_secs 100, OF _ asc secs]
  have "bucket_acquire rat_ops demo_secs 5000000000 300
      (bucket_run rat_ops demo_secs [(0, 100), (5000000000, 100)] (bucket_with_burst rat_ops 0 100 100))
    = (Some 3000000000, \<lparr>tb_tokens = - 300, tb_last_refill = 5000000000, tb_limit = 100, tb_burst = 100\<rparr>)"
    by (simp add: bucket_acquire_def is_unlimited_def refill_def bucket_with_burst_def rat_arith Let_def demo_secs_def)
  with rate show ?thesis by simp
qed

end
