(* ===== verification/Checkpoint_Model.thy ===== *)
theory Checkpoint_Model
  imports Download_Error Scheduler_Props
begin

text \<open>
  The persisted resume state (\<open>resume/checkpoint.rs\<close>) and the durability tracker
  (\<open>resume/durable_ranges.rs\<close>): structural validation, recording of completed ranges, the checked
  size bound, and the binding of the recorded ranges to the temporary file. JSON encoding, the hash
  function, file metadata and the clock are parameters.
\<close>

section \<open>The checkpoint\<close>

definition CHECKPOINT_FORMAT_VERSION :: u32 where
  "CHECKPOINT_FORMAT_VERSION = 2"

datatype checkpoint_error =
    UnsupportedVersion (uv_found: u32) (uv_known: u32)
  | Corrupt string
  | Inconsistent string
  | TooLarge (tl_size: u64) (tl_cap: u64)
  | Overflow

fun display_checkpoint_error :: "checkpoint_error \<Rightarrow> string" where
  "display_checkpoint_error (UnsupportedVersion found known) =
     ''checkpoint format version '' @ show_u64 found @ '' not supported (known up to '' @ show_u64 known @ '')''"
| "display_checkpoint_error (Corrupt s) = ''checkpoint corrupt: '' @ s"
| "display_checkpoint_error (Inconsistent s) = ''checkpoint inconsistent: '' @ s"
| "display_checkpoint_error (TooLarge sz cap) =
     ''checkpoint size '' @ show_u64 sz @ '' exceeds the configured budget '' @ show_u64 cap"
| "display_checkpoint_error Overflow = ''checkpoint size estimate overflowed''"

definition checkpoint_error_into :: "checkpoint_error \<Rightarrow> download_error" where
  "checkpoint_error_into e = Checkpoint (display_checkpoint_error e)"

record expected_digest =
  ed_algorithm :: string
  ed_hex :: string

record checkpoint =
  cp_format_version :: u32
  cp_job_id :: string
  cp_original_url :: string
  cp_final_url :: string
  cp_temp_path_identity :: string
  cp_owned_temp_identity :: "string option"
  cp_covered_digest :: "string option"
  cp_total_size :: "u64 option"
  cp_validators :: resource_validators
  cp_completed_ranges :: "byte_range list"
  cp_expected_hashes :: "expected_digest list"
  cp_created_at :: string
  cp_updated_at :: string

definition validators_default :: resource_validators where
  "validators_default = \<lparr>rv_etag = None, rv_etag_is_weak = False, rv_last_modified = None, rv_total_size = None\<rparr>"

text \<open>\<open>iso_now\<close> prints the wall-clock seconds; \<open>now\<close> is the clock's value.\<close>

definition iso_now :: "u64 \<Rightarrow> string" where
  "iso_now now = show_u64 now"

definition checkpoint_new :: "u64 \<Rightarrow> string \<Rightarrow> string \<Rightarrow> string \<Rightarrow> checkpoint" where
  "checkpoint_new now job_id original_url temp_path_identity =
     \<lparr>cp_format_version = CHECKPOINT_FORMAT_VERSION, cp_job_id = job_id, cp_original_url = original_url,
      cp_final_url = [], cp_temp_path_identity = temp_path_identity, cp_owned_temp_identity = None,
      cp_covered_digest = None, cp_total_size = None, cp_validators = validators_default,
      cp_completed_ranges = [], cp_expected_hashes = [], cp_created_at = iso_now now, cp_updated_at = iso_now now\<rparr>"

section \<open>Size bound\<close>

definition json_string :: "nat \<Rightarrow> u64 option" where
  "json_string bytes =
     (case checked_mul bytes 6 of None \<Rightarrow> None | Some v \<Rightarrow> checked_add v 2)"

definition json_optional_string :: "string option \<Rightarrow> u64 option" where
  "json_optional_string v = (case v of Some s \<Rightarrow> json_string (length s) | None \<Rightarrow> Some 4)"

text \<open>The calls of \<open>add\<close> in the order of the source; \<open>None\<close> is the overflow of an argument.\<close>

definition size_items :: "checkpoint \<Rightarrow> u64 option list" where
  "size_items cp =
     map (\<lambda>f. json_string (length f)) [cp_temp_path_identity cp, cp_created_at cp, cp_updated_at cp]
     @ [json_optional_string (cp_owned_temp_identity cp),
        json_optional_string (cp_covered_digest cp),
        json_optional_string (rv_etag (cp_validators cp)),
        json_optional_string (rv_last_modified (cp_validators cp)),
        Some (if rv_etag_is_weak (cp_validators cp) then 4 else 5),
        Some 20,
        checked_mul (length (cp_completed_ranges cp)) 48]
     @ concat (map (\<lambda>d. [json_string (length (ed_algorithm d)), json_string (length (ed_hex d)), Some 64])
                 (cp_expected_hashes cp))"

fun add_items :: "u64 \<Rightarrow> u64 option list \<Rightarrow> u64 option" where
  "add_items acc [] = Some acc"
| "add_items acc (x # xs) =
     (case x of None \<Rightarrow> None | Some v \<Rightarrow> (case checked_add acc v of None \<Rightarrow> None | Some acc' \<Rightarrow> add_items acc' xs))"

definition checked_serialized_size :: "checkpoint \<Rightarrow> checkpoint_error + u64" where
  "checked_serialized_size cp =
     (case add_items 512 (size_items cp) of None \<Rightarrow> Inl Overflow | Some n \<Rightarrow> Inr n)"

definition check_serialized_within :: "checkpoint \<Rightarrow> u64 \<Rightarrow> checkpoint_error + u64" where
  "check_serialized_within cp cap =
     (case checked_serialized_size cp of
        Inl e \<Rightarrow> Inl e
      | Inr estimate \<Rightarrow> if cap < estimate then Inl (TooLarge estimate cap) else Inr estimate)"

section \<open>Validation\<close>

fun validate_ranges :: "u64 option \<Rightarrow> byte_range list \<Rightarrow> checkpoint_error + unit" where
  "validate_ranges prev_end [] = Inr ()"
| "validate_ranges prev_end ((start, end) # rest) =
     (if end < start then
        Inl (Inconsistent (''range ['' @ show_u64 start @ '', '' @ show_u64 end @ ''] has end < start''))
      else
        (case prev_end of
           Some pe \<Rightarrow>
             if start \<le> pe then
               Inl (Inconsistent (''range ['' @ show_u64 start @ '', '' @ show_u64 end
                 @ ''] overlaps or precedes previous end '' @ show_u64 pe))
             else validate_ranges (Some end) rest
         | None \<Rightarrow> validate_ranges (Some end) rest))"

definition validate :: "checkpoint \<Rightarrow> checkpoint_error + unit" where
  "validate cp =
     (if cp_format_version cp \<noteq> CHECKPOINT_FORMAT_VERSION then
        Inl (UnsupportedVersion (cp_format_version cp) CHECKPOINT_FORMAT_VERSION)
      else if cp_job_id cp = [] then Inl (Inconsistent ''empty job_id'')
      else
        (case validate_ranges None (cp_completed_ranges cp) of
           Inl e \<Rightarrow> Inl e
         | Inr _ \<Rightarrow>
             (case cp_total_size cp of
                None \<Rightarrow> Inr ()
              | Some total_size \<Rightarrow>
                  if cp_completed_ranges cp = [] then Inr ()
                  else
                    let last_end = snd (last (cp_completed_ranges cp))
                    in if total_size \<le> last_end then
                         Inl (Inconsistent (''range end '' @ show_u64 last_end @ '' exceeds total size ''
                           @ show_u64 total_size))
                       else Inr ())))"

text \<open>\<open>to_json\<close> and \<open>from_json\<close>: the codec is serde's, an argument here.\<close>

definition to_json :: "(checkpoint \<Rightarrow> string + string) \<Rightarrow> checkpoint \<Rightarrow> checkpoint_error + string" where
  "to_json ser cp = (case ser cp of Inl e \<Rightarrow> Inl (Corrupt e) | Inr s \<Rightarrow> Inr s)"

definition from_json :: "(string \<Rightarrow> string + checkpoint) \<Rightarrow> string \<Rightarrow> checkpoint_error + checkpoint" where
  "from_json de json =
     (case de json of
        Inl e \<Rightarrow> Inl (Corrupt e)
      | Inr cp \<Rightarrow> (case validate cp of Inl e \<Rightarrow> Inl e | Inr _ \<Rightarrow> Inr cp))"

section \<open>Recording\<close>

text \<open>The loop over the sorted ranges; \<open>merged\<close> is kept with its last element first.\<close>

fun merge_sorted :: "byte_range list \<Rightarrow> byte_range list \<Rightarrow> byte_range list" where
  "merge_sorted merged [] = rev merged"
| "merge_sorted [] ((s, e) # rest) = merge_sorted [(s, e)] rest"
| "merge_sorted ((ps, pe) # merged) ((s, e) # rest) =
     (if s \<le> sat_add pe 1 then merge_sorted ((ps, max pe e) # merged) rest
      else merge_sorted ((s, e) # (ps, pe) # merged) rest)"

definition sort_ranges :: "byte_range list \<Rightarrow> byte_range list" where
  "sort_ranges rs = sort_key fst (sort_key snd rs)"

definition record_completed :: "u64 \<Rightarrow> u64 \<Rightarrow> u64 \<Rightarrow> checkpoint \<Rightarrow> checkpoint" where
  "record_completed now start end cp =
     cp\<lparr>cp_completed_ranges := merge_sorted [] (sort_ranges (cp_completed_ranges cp @ [(start, end)])),
        cp_updated_at := iso_now now\<rparr>"

definition cp_completed_bytes :: "checkpoint \<Rightarrow> u64" where
  "cp_completed_bytes cp = sum_u64 (map range_len (cp_completed_ranges cp))"

section \<open>Local binding\<close>

definition COVERED_DIGEST_WINDOW :: u64 where
  "COVERED_DIGEST_WINDOW = 1024 * 1024"

text \<open>
  The file at the temporary path: absent, not a regular file, or its device, inode and contents;
  \<open>None\<close> when it cannot be opened.
\<close>

record temp_file =
  tmp_path :: string
  tmp_is_file :: bool
  tmp_dev :: nat
  tmp_ino :: nat
  tmp_contents :: "nat list"

definition owned_temp_identity :: "temp_file option \<Rightarrow> string option" where
  "owned_temp_identity f =
     (case f of
        None \<Rightarrow> None
      | Some m \<Rightarrow>
          if \<not> tmp_is_file m then None
          else Some (tmp_path m @ ''|'' @ show_u64 (tmp_dev m) @ '':'' @ show_u64 (tmp_ino m)))"

text \<open>\<open>read_exact\<close> after a seek.\<close>

definition read_exact :: "nat list \<Rightarrow> u64 \<Rightarrow> u64 \<Rightarrow> nat list option" where
  "read_exact contents offset len =
     (if offset + len \<le> length contents then Some (take len (drop offset contents)) else None)"

text \<open>
  The two loops: over the ranges, and inside a range while bytes and budget remain. The bytes handed
  to the hasher are accumulated; \<open>None\<close> is a failed read.
\<close>

function digest_range :: "nat list \<Rightarrow> u64 \<Rightarrow> u64 \<Rightarrow> u64 \<Rightarrow> (nat list \<times> u64) option" where
  "digest_range contents offset end budget =
     (if offset \<le> end \<and> 0 < budget then
        (let len = min (end - offset + 1) budget
         in case read_exact contents offset len of
              None \<Rightarrow> None
            | Some buffer \<Rightarrow>
                (case digest_range contents (offset + len) end (budget - len) of
                   None \<Rightarrow> None
                 | Some (bs, b) \<Rightarrow> Some (buffer @ bs, b)))
      else Some ([], budget))"
  by pat_completeness auto

termination digest_range
  by (relation "measure (\<lambda>(contents, offset, end, budget). budget)") auto

declare digest_range.simps [simp del]

fun digest_ranges :: "nat list \<Rightarrow> byte_range list \<Rightarrow> u64 \<Rightarrow> nat list option" where
  "digest_ranges contents [] budget = Some []"
| "digest_ranges contents ((start, end) # rest) budget =
     (case digest_range contents start end budget of
        None \<Rightarrow> None
      | Some (bs, b) \<Rightarrow>
          if b = 0 then Some bs
          else map_option (\<lambda>more. bs @ more) (digest_ranges contents rest b))"

definition covered_digest :: "(nat list \<Rightarrow> string) \<Rightarrow> temp_file option \<Rightarrow> byte_range list \<Rightarrow> string option" where
  "covered_digest sha f ranges =
     (if ranges = [] then None
      else case f of
        None \<Rightarrow> None
      | Some m \<Rightarrow> map_option sha (digest_ranges (tmp_contents m) ranges COVERED_DIGEST_WINDOW))"

definition set_owned_temp_identity :: "temp_file option \<Rightarrow> checkpoint \<Rightarrow> checkpoint" where
  "set_owned_temp_identity f cp = cp\<lparr>cp_owned_temp_identity := owned_temp_identity f\<rparr>"

definition set_covered_digest :: "(nat list \<Rightarrow> string) \<Rightarrow> temp_file option \<Rightarrow> checkpoint \<Rightarrow> checkpoint" where
  "set_covered_digest sha f cp = cp\<lparr>cp_covered_digest := covered_digest sha f (cp_completed_ranges cp)\<rparr>"

definition check_evidence :: "string option \<Rightarrow> string option \<Rightarrow> string \<Rightarrow> string \<Rightarrow> string + unit" where
  "check_evidence expected actual unavailable mismatch =
     (case expected of
        None \<Rightarrow> Inr ()
      | Some x \<Rightarrow> (case actual of None \<Rightarrow> Inl unavailable | Some y \<Rightarrow> if y \<noteq> x then Inl mismatch else Inr ()))"

definition verify_local_binding :: "(nat list \<Rightarrow> string) \<Rightarrow> temp_file option \<Rightarrow> checkpoint \<Rightarrow> string + unit" where
  "verify_local_binding sha f cp =
     (case check_evidence (cp_owned_temp_identity cp) (owned_temp_identity f)
             ''temp identity unavailable'' ''owned temp identity mismatch'' of
        Inl e \<Rightarrow> Inl e
      | Inr _ \<Rightarrow> check_evidence (cp_covered_digest cp) (covered_digest sha f (cp_completed_ranges cp))
                  ''covered digest unavailable'' ''covered-byte digest mismatch'')"

section \<open>Validated ranges\<close>

text \<open>Ascending, disjoint, non-empty ranges from \<open>lo\<close> on; they may touch.\<close>

fun range_chain :: "nat \<Rightarrow> byte_range list \<Rightarrow> bool" where
  "range_chain lo [] = True"
| "range_chain lo ((s, e) # rs) = (lo \<le> s \<and> s \<le> e \<and> range_chain (e + 1) rs)"

lemma validate_ranges_chain:
  "validate_ranges prev rs = Inr u \<longleftrightarrow> range_chain (case prev of None \<Rightarrow> 0 | Some pe \<Rightarrow> pe + 1) rs"
  by (induction prev rs rule: validate_ranges.induct) (auto split: option.splits)

lemma chain_last: "range_chain lo rs \<Longrightarrow> rs \<noteq> [] \<Longrightarrow> lo \<le> snd (last rs)"
  by (induction lo rs rule: range_chain.induct) auto

lemma chain_bounds: "range_chain lo rs \<Longrightarrow> x \<in> iv_bytes rs \<Longrightarrow> lo \<le> x \<and> x \<le> snd (last rs)"
proof (induction lo rs rule: range_chain.induct)
  case (2 lo s e rs)
  have c: "lo \<le> s" "s \<le> e" "range_chain (e + 1) rs" using "2.prems"(1) by auto
  have "x \<in> {s..e} \<or> x \<in> iv_bytes rs" using "2.prems"(2) by simp
  then show ?case
  proof
    assume "x \<in> {s..e}"
    then show ?thesis using c chain_last [OF c(3)] by (cases "rs = []") auto
  next
    assume x: "x \<in> iv_bytes rs"
    then have "rs \<noteq> []" by auto
    then show ?thesis using "2.IH" [OF c(3) x] c by simp
  qed
qed simp

lemma chain_len:
  assumes "range_chain lo rs" "acc + card (iv_bytes rs) \<le> u64_max" "\<forall>r\<in>set rs. snd r \<le> u64_max"
  shows "fold (\<lambda>x a. u64_add a x) (map range_len rs) acc = acc + card (iv_bytes rs)"
  using assms
proof (induction lo rs arbitrary: acc rule: range_chain.induct)
  case (2 lo s e rs)
  have disj: "{s..e} \<inter> iv_bytes rs = {}" using chain_bounds [of "e + 1" rs] "2.prems"(1) by fastforce
  then have card: "card ({s..e} \<union> iv_bytes rs) = (e - s + 1) + card (iv_bytes rs)"
    using "2.prems"(1) by (simp add: card_Un_disjoint Suc_diff_le)
  then have "range_len (s, e) = e - s + 1" "u64_add acc (range_len (s, e)) = acc + (e - s + 1)"
    using "2.prems" by (simp_all add: range_len_def u64_exact)
  with card "2.IH" [of "acc + (e - s + 1)"] "2.prems" show ?case by simp
qed simp

lemma validate_ok:
  assumes "validate cp = Inr ()" "cp_total_size cp = Some n"
  shows "range_chain 0 (cp_completed_ranges cp)" "iv_bytes (cp_completed_ranges cp) \<subseteq> {..<n}"
proof -
  let ?rs = "cp_completed_ranges cp"
  have "validate_ranges None ?rs = Inr ()"
    using assms(1) by (auto simp: validate_def split: if_splits sum.splits)
  then show chain: "range_chain 0 ?rs" using validate_ranges_chain [of None ?rs] by simp
  have "?rs \<noteq> [] \<Longrightarrow> snd (last ?rs) < n"
    using assms by (auto simp: validate_def Let_def split: if_splits sum.splits)
  then show "iv_bytes ?rs \<subseteq> {..<n}"
    using chain_bounds [OF chain] by (cases "?rs = []") fastforce+
qed

text \<open>
  Claim C15: a checkpoint that passes validation resumes without loss. For a known total size its
  ranges lie inside the resource and do not overlap, \<open>completed_bytes\<close> counts them exactly, and a
  scheduler initialized from them has exactly these bytes completed and all others pending.
\<close>

theorem validated_checkpoint_resumes:
  assumes "validate cp = Inr ()" "cp_total_size cp = Some n" "n \<le> u64_max"
  shows "iv_bytes (cp_completed_ranges cp) \<subseteq> {..<n}
    \<and> cp_completed_bytes cp = card (iv_bytes (cp_completed_ranges cp))
    \<and> iv_bytes (ss_completed (initialize F n (cp_completed_ranges cp) p)) = iv_bytes (cp_completed_ranges cp)
    \<and> iv_bytes (ss_pending (initialize F n (cp_completed_ranges cp) p)) = {..<n} - iv_bytes (cp_completed_ranges cp)"
proof -
  let ?rs = "cp_completed_ranges cp"
  note ok = validate_ok [OF assms(1,2)]
  have chain_end: "range_chain lo rs \<Longrightarrow> r \<in> set rs \<Longrightarrow> snd r \<in> iv_bytes rs" for lo rs r
    by (induction lo rs rule: range_chain.induct) auto
  have ends: "\<forall>r\<in>set ?rs. snd r \<le> u64_max" using chain_end [OF ok(1)] ok(2) assms(3) by fastforce
  have "card (iv_bytes ?rs) \<le> u64_max" using iv_card_le [OF ok(2)] assms(3) by simp
  then have "cp_completed_bytes cp = card (iv_bytes ?rs)"
    using chain_len [OF ok(1), of 0] ends by (simp add: cp_completed_bytes_def sum_u64_def)
  then show ?thesis using ok(2) initialize_correct [OF assms(3), of F ?rs p] by auto
qed

definition demo_checkpoint :: checkpoint where
  "demo_checkpoint = (checkpoint_new 7 ''job'' ''u'' ''t'')
     \<lparr>cp_total_size := Some 1000, cp_completed_ranges := [(0, 99), (100, 199), (500, 599)]\<rparr>"

theorem validated_checkpoint_resumes_witness:
  "cp_completed_bytes demo_checkpoint = card (iv_bytes (cp_completed_ranges demo_checkpoint))"
proof -
  have "validate demo_checkpoint = Inr ()" "cp_total_size demo_checkpoint = Some 1000" by code_simp+
  moreover have "(1000::nat) \<le> u64_max" by (simp add: u64_max_def)
  ultimately show ?thesis using validated_checkpoint_resumes [of demo_checkpoint 1000] by blast
qed

section \<open>Recording refines insertion\<close>

lemma iv_wf_snoc_iff:
  "iv_wf (m @ [(k, v)]) \<longleftrightarrow> iv_wf m \<and> k \<le> v \<and> v \<le> u64_max \<and> (\<forall>p\<in>set m. snd p + 1 < k)"
  by (induction m) (auto simp: iv_wf_Cons)

lemma merge_sorted_correct:
  assumes "iv_wf (rev merged)" "\<forall>r\<in>set rest. fst r \<le> snd r \<and> snd r \<le> u64_max" "sorted (map fst rest)"
    and "\<forall>r\<in>set rest. \<forall>q\<in>set merged. fst q \<le> fst r"
  shows "iv_wf (merge_sorted merged rest) \<and> iv_bytes (merge_sorted merged rest) = iv_bytes (rev merged) \<union> iv_bytes rest"
  using assms
proof (induction merged rest rule: merge_sorted.induct)
  case (2 s e rest)
  then show ?case by (auto simp: iv_wf_Cons)
next
  case (3 ps pe merged s e rest)
  have wf: "iv_wf (rev merged)" "ps \<le> pe" "pe \<le> u64_max" "\<forall>p\<in>set merged. snd p + 1 < ps"
    using "3.prems"(1) by (auto simp: iv_wf_snoc_iff)
  have se: "s \<le> e" "e \<le> u64_max" "ps \<le> s" "\<forall>r\<in>set rest. s \<le> fst r"
    using "3.prems"(2-4) by auto
  show ?case
  proof (cases "s \<le> sat_add pe 1")
    case True
    then have "s \<le> pe + 1" by (auto simp: sat_add_def)
    then have bytes: "{ps..max pe e} = {ps..pe} \<union> {s..e}" using wf(2) se by (auto simp: max_def)
    have "iv_wf (rev ((ps, max pe e) # merged))" using wf se by (simp add: iv_wf_snoc_iff)
    from "3.IH"(1) [OF True this] "3.prems" True show ?thesis by (auto simp: bytes)
  next
    case False
    then have "pe + 1 < s" using se(1,2) by (auto simp: sat_add_def)
    moreover have "\<forall>p\<in>set merged. snd p + 1 < s" using wf(2,4) \<open>pe + 1 < s\<close> by fastforce
    moreover have wf': "iv_wf (rev merged @ [(ps, pe)])" using "3.prems"(1) by simp
    ultimately have "iv_wf ((rev merged @ [(ps, pe)]) @ [(s, e)])"
      by (intro iv_wf_snoc [OF wf' se(1,2)]) simp
    then have "iv_wf (rev ((s, e) # (ps, pe) # merged))" by simp
    from "3.IH"(2) [OF False this] "3.prems" False se(4) show ?thesis by auto
  qed
qed simp

lemma set_sort_ranges [simp]: "set (sort_ranges rs) = set rs" "sorted (map fst (sort_ranges rs))"
  by (simp_all add: sort_ranges_def)

lemma iv_bytes_cong: "set a = set b \<Longrightarrow> iv_bytes a = iv_bytes b"
  by (simp add: iv_bytes_def)

lemma record_completed_correct:
  assumes "\<forall>r\<in>set (cp_completed_ranges cp). fst r \<le> snd r \<and> snd r \<le> u64_max" "s \<le> e" "e \<le> u64_max"
  shows "iv_wf (cp_completed_ranges (record_completed now s e cp))
    \<and> iv_bytes (cp_completed_ranges (record_completed now s e cp)) = iv_bytes (cp_completed_ranges cp) \<union> {s..e}"
proof -
  let ?rs = "cp_completed_ranges cp @ [(s, e)]"
  have "iv_bytes (sort_ranges ?rs) = iv_bytes ?rs" by (rule iv_bytes_cong) simp
  then show ?thesis
    using merge_sorted_correct [of "[]" "sort_ranges ?rs"] assms by (simp add: record_completed_def)
qed

lemma iv_wf_valid: "iv_wf m \<Longrightarrow> \<forall>r\<in>set m. fst r \<le> snd r \<and> snd r \<le> u64_max"
  by (simp add: iv_wf_def)

lemma wf_chain: "iv_wf m \<Longrightarrow> \<forall>r\<in>set m. lo \<le> fst r \<Longrightarrow> range_chain lo m"
proof (induction m arbitrary: lo)
  case (Cons r m)
  obtain a b where r: "r = (a, b)" by force
  have "\<forall>q\<in>set m. b + 1 \<le> fst q" "iv_wf m" using Cons.prems(1) r by (auto simp: iv_wf_Cons)
  with Cons.IH [of "b + 1"] Cons.prems r show ?case by (auto simp: iv_wf_Cons)
qed simp

text \<open>A checkpoint whose ranges are normalized and lie inside the resource validates.\<close>

lemma validate_wf:
  assumes wf: "iv_wf (cp_completed_ranges cp)" and head: "cp_format_version cp = CHECKPOINT_FORMAT_VERSION" "cp_job_id cp \<noteq> []"
    and inside: "case cp_total_size cp of None \<Rightarrow> True | Some n \<Rightarrow> iv_bytes (cp_completed_ranges cp) \<subseteq> {..<n}"
  shows "validate cp = Inr ()"
proof -
  let ?rs = "cp_completed_ranges cp"
  have "validate_ranges None ?rs = Inr ()" using wf_chain [OF wf, of 0] validate_ranges_chain [of None] by simp
  moreover have "snd (last ?rs) < n" if "cp_total_size cp = Some n" "?rs \<noteq> []" for n
  proof -
    have "last ?rs \<in> set ?rs" using that(2) by simp
    then have "snd (last ?rs) \<in> iv_bytes ?rs" using iv_wf_valid [OF wf] by (metis iv_bytesI order_refl prod.collapse)
    then show ?thesis using inside that(1) by auto
  qed
  ultimately show ?thesis
    using head by (cases "?rs = []"; cases "cp_total_size cp") (simp_all add: validate_def Let_def)
qed

interpretation cp: byte_accumulator "\<lambda>cp. iv_wf (cp_completed_ranges cp)" "\<lambda>cp. iv_bytes (cp_completed_ranges cp)"
    "\<lambda>cp a b. record_completed now a b cp" for now
  by unfold_locales (auto simp: record_completed_correct iv_wf_valid intro: iv_bytes_bounded)

text \<open>
  Claim C16: the two implementations of a range set agree. Recording a completed range in a checkpoint
  (append, sort, merge in one pass) leaves exactly the ranges that the scheduler's tree-based
  \<open>IntervalSet::insert\<close> produces on the same normalized ranges, and a validated checkpoint that
  records a range inside the resource is still valid.
\<close>

theorem record_completed_is_insert:
  assumes "iv_wf (cp_completed_ranges cp)" "s \<le> e" "e \<le> u64_max"
  shows "cp_completed_ranges (record_completed now s e cp) = iv_insert (cp_completed_ranges cp) s e
    \<and> (validate cp = Inr () \<and> cp_total_size cp = Some n \<and> e < n \<longrightarrow> validate (record_completed now s e cp) = Inr ())"
proof -
  let ?cp = "record_completed now s e cp"
  have c: "iv_wf (cp_completed_ranges ?cp)" "iv_bytes (cp_completed_ranges ?cp) = iv_bytes (cp_completed_ranges cp) \<union> {s..e}"
    using cp.wf_add [of cp s e now] cp.bytes_add [of cp s e now] assms by auto
  have "validate ?cp = Inr ()" if v: "validate cp = Inr ()" "cp_total_size cp = Some n" "e < n"
  proof (rule validate_wf [OF c(1)])
    show "cp_format_version ?cp = CHECKPOINT_FORMAT_VERSION" "cp_job_id ?cp \<noteq> []"
      using v by (auto simp: record_completed_def validate_def split: if_splits)
    show "case cp_total_size ?cp of None \<Rightarrow> True | Some n \<Rightarrow> iv_bytes (cp_completed_ranges ?cp) \<subseteq> {..<n}"
      using c(2) validate_ok(2) [OF v(1,2)] v by (auto simp: record_completed_def)
  qed
  then show ?thesis
    using iv_unique [OF c(1) iv_wf_insert [OF assms(1,3)]] c(2) assms iv_insert_correct by simp
qed

theorem record_completed_is_insert_witness:
  "cp_completed_ranges (record_completed 9 200 499 (demo_checkpoint\<lparr>cp_completed_ranges := [(0, 199), (500, 599)]\<rparr>))
    = iv_insert [(0, 199), (500, 599)] 200 499"
proof -
  have "iv_wf (cp_completed_ranges (demo_checkpoint\<lparr>cp_completed_ranges := [(0, 199), (500, 599)]\<rparr>))"
    by (simp add: iv_wf_Cons u64_max_def)
  moreover have "(499::nat) \<le> u64_max" by (simp add: u64_max_def)
  ultimately show ?thesis
    using record_completed_is_insert [of "demo_checkpoint\<lparr>cp_completed_ranges := [(0, 199), (500, 599)]\<rparr>" 200 499 9]
    by simp
qed

section \<open>The size bound\<close>

definition bounded :: "nat \<Rightarrow> u64 option" where
  "bounded n = (if n \<le> u64_max then Some n else None)"

definition string_cost :: "string \<Rightarrow> nat" where
  "string_cost s = 6 * length s + 2"

definition optional_cost :: "string option \<Rightarrow> nat" where
  "optional_cost v = (case v of Some s \<Rightarrow> string_cost s | None \<Rightarrow> 4)"

definition size_costs :: "checkpoint \<Rightarrow> nat list" where
  "size_costs cp =
     map string_cost [cp_temp_path_identity cp, cp_created_at cp, cp_updated_at cp]
     @ [optional_cost (cp_owned_temp_identity cp), optional_cost (cp_covered_digest cp),
        optional_cost (rv_etag (cp_validators cp)), optional_cost (rv_last_modified (cp_validators cp)),
        if rv_etag_is_weak (cp_validators cp) then 4 else 5, 20, 48 * length (cp_completed_ranges cp)]
     @ concat (map (\<lambda>d. [string_cost (ed_algorithm d), string_cost (ed_hex d), 64]) (cp_expected_hashes cp))"

lemma small_bounded: "n \<le> 64 \<Longrightarrow> bounded n = Some n"
  by (simp add: bounded_def u64_max_def)

lemma json_string_bounded: "json_string (length s) = bounded (string_cost s)"
  by (auto simp: json_string_def string_cost_def bounded_def checked_mul_def checked_add_def mult.commute)

lemma json_optional_bounded: "json_optional_string v = bounded (optional_cost v)"
  by (simp add: json_optional_string_def optional_cost_def json_string_bounded small_bounded split: option.split)

lemma size_items_costs: "size_items cp = map bounded (size_costs cp)"
  by (simp add: size_items_def size_costs_def json_string_bounded json_optional_bounded small_bounded
      map_concat comp_def checked_mul_def mult.commute)
    (simp add: bounded_def)

lemma add_items_bounded:
  "acc \<le> u64_max \<Longrightarrow> add_items acc (map bounded ns) = bounded (acc + sum_list ns)"
  by (induction ns arbitrary: acc) (auto simp: bounded_def checked_add_def add.assoc split: option.splits)

text \<open>
  The size estimate never wraps and fails closed. \<open>checked_serialized_size\<close> is the exact sum
  of the worst-case cost of the counted fields, or \<open>Overflow\<close> when the sum exceeds 64 bits, and the
  budget check passes exactly when that sum is within the budget. The job id, which is serialized, is
  not among the counted fields: the estimate is the same for every job id.
\<close>

lemma checked_size_exact:
  "checked_serialized_size cp =
     (if 512 + sum_list (size_costs cp) \<le> u64_max then Inr (512 + sum_list (size_costs cp)) else Inl Overflow)
   \<and> (cap \<le> u64_max \<longrightarrow> ((\<exists>n. check_serialized_within cp cap = Inr n) \<longleftrightarrow> 512 + sum_list (size_costs cp) \<le> cap))
   \<and> checked_serialized_size (cp\<lparr>cp_job_id := j\<rparr>) = checked_serialized_size cp"
proof -
  have "(512::nat) \<le> u64_max" by (simp add: u64_max_def)
  from add_items_bounded [OF this, of "size_costs cp"]
  have eq: "checked_serialized_size cp =
     (if 512 + sum_list (size_costs cp) \<le> u64_max then Inr (512 + sum_list (size_costs cp)) else Inl Overflow)"
    by (simp add: checked_serialized_size_def size_items_costs bounded_def)
  moreover have "checked_serialized_size (cp\<lparr>cp_job_id := j\<rparr>) = checked_serialized_size cp"
    by (simp add: checked_serialized_size_def size_items_def)
  ultimately show ?thesis by (auto simp: check_serialized_within_def split: if_splits)
qed

section \<open>The covered digest\<close>

definition range_bytes :: "nat list \<Rightarrow> byte_range \<Rightarrow> nat list" where
  "range_bytes contents r = take (snd r + 1 - fst r) (drop (fst r) contents)"

definition covered_bytes :: "nat list \<Rightarrow> byte_range list \<Rightarrow> nat list" where
  "covered_bytes contents ranges = concat (map (range_bytes contents) ranges)"

lemma digest_range_take:
  assumes "s \<le> e" "e < length contents" "0 < b"
  shows "digest_range contents s e b = Some (take b (range_bytes contents (s, e)), b - (e + 1 - s))"
proof -
  let ?len = "min (e - s + 1) b"
  have "digest_range contents (s + ?len) e (b - ?len) = Some ([], b - ?len)"
    using assms by (subst digest_range.simps) auto
  moreover have "read_exact contents s ?len = Some (take ?len (drop s contents))"
    using assms by (auto simp: read_exact_def)
  ultimately have "digest_range contents s e b = Some (take ?len (drop s contents), b - ?len)"
    using assms by (subst digest_range.simps) (simp add: Let_def)
  moreover have "take ?len (drop s contents) = take b (range_bytes contents (s, e))"
    using assms by (simp add: range_bytes_def min.commute Suc_diff_le)
  moreover have "b - ?len = b - (e + 1 - s)" using assms by (simp add: Suc_diff_le min_def)
  ultimately show ?thesis by simp
qed

lemma length_range_bytes: "s \<le> e \<Longrightarrow> e < length contents \<Longrightarrow> length (range_bytes contents (s, e)) = e + 1 - s"
  unfolding range_bytes_def by (simp add: min_def) arith

lemma digest_ranges_take:
  assumes "\<forall>r\<in>set rs. fst r \<le> snd r \<and> snd r < length contents" "0 < b"
  shows "digest_ranges contents rs b = Some (take b (covered_bytes contents rs))"
  using assms
proof (induction rs arbitrary: b)
  case (Cons r rs)
  obtain s e where r: "r = (s, e)" by force
  have se: "s \<le> e" "e < length contents" using Cons.prems(1) r by auto
  note d = digest_range_take [OF se Cons.prems(2)]
  show ?case
  proof (cases "b - (e + 1 - s) = 0")
    case True
    then have "take b (covered_bytes contents (r # rs)) = take b (range_bytes contents (s, e))"
      using length_range_bytes [OF se] by (simp add: covered_bytes_def r)
    then show ?thesis using d True r by simp
  next
    case False
    have "digest_ranges contents rs (b - (e + 1 - s)) = Some (take (b - (e + 1 - s)) (covered_bytes contents rs))"
      using Cons False by simp
    then show ?thesis
      using d False length_range_bytes [OF se] by (simp add: r covered_bytes_def)
  qed
qed (simp add: covered_bytes_def)

lemma window_pos: "0 < COVERED_DIGEST_WINDOW"
  by (simp add: COVERED_DIGEST_WINDOW_def)

text \<open>
  The local binding sees a bounded window. For ranges inside the file the digest is always
  present, also for covered sets larger than the window, and is the hash of the first
  \<open>COVERED_DIGEST_WINDOW\<close> covered bytes; so a checkpoint stamped on one file verifies against any
  file object with the same identity that agrees on these bytes, whatever the covered bytes beyond
  the window are.
\<close>

lemma local_binding_window:
  assumes "cp_completed_ranges cp \<noteq> []"
    and "\<forall>r\<in>set (cp_completed_ranges cp). fst r \<le> snd r \<and> snd r < length (tmp_contents f)"
    and "owned_temp_identity (Some g) = owned_temp_identity (Some f)" "length (tmp_contents g) = length (tmp_contents f)"
    and "take COVERED_DIGEST_WINDOW (covered_bytes (tmp_contents g) (cp_completed_ranges cp))
       = take COVERED_DIGEST_WINDOW (covered_bytes (tmp_contents f) (cp_completed_ranges cp))"
  shows "covered_digest sha (Some f) (cp_completed_ranges cp)
      = Some (sha (take COVERED_DIGEST_WINDOW (covered_bytes (tmp_contents f) (cp_completed_ranges cp))))
    \<and> verify_local_binding sha (Some g) (set_covered_digest sha (Some f) (set_owned_temp_identity (Some f) cp)) = Inr ()"
proof -
  let ?rs = "cp_completed_ranges cp"
  have f: "covered_digest sha (Some f) ?rs = Some (sha (take COVERED_DIGEST_WINDOW (covered_bytes (tmp_contents f) ?rs)))"
    using digest_ranges_take [OF assms(2) window_pos] assms(1) by (simp add: covered_digest_def)
  have "covered_digest sha (Some g) ?rs = covered_digest sha (Some f) ?rs"
    unfolding f using digest_ranges_take [of ?rs "tmp_contents g", OF _ window_pos] assms by (simp add: covered_digest_def)
  with f assms(3) show ?thesis
    by (simp add: verify_local_binding_def set_covered_digest_def set_owned_temp_identity_def check_evidence_def
        split: option.splits)
qed

definition demo_file :: "nat list \<Rightarrow> temp_file" where
  "demo_file bytes = \<lparr>tmp_path = ''t'', tmp_is_file = True, tmp_dev = 1, tmp_ino = 2, tmp_contents = bytes\<rparr>"

section \<open>The durability tracker\<close>

datatype durability_mode = Performance | Durable

record durable_range_tracker =
  dr_mode :: durability_mode
  dr_acknowledged_through :: u64

definition tracker_new :: "durability_mode \<Rightarrow> durable_range_tracker" where
  "tracker_new mode = \<lparr>dr_mode = mode, dr_acknowledged_through = 0\<rparr>"

definition page_cache_ack :: "u64 \<Rightarrow> durable_range_tracker \<Rightarrow> durable_range_tracker" where
  "page_cache_ack through t =
     (if dr_acknowledged_through t < through then t\<lparr>dr_acknowledged_through := through\<rparr> else t)"

definition fsync_through :: "u64 \<Rightarrow> durable_range_tracker \<Rightarrow> durable_range_tracker" where
  "fsync_through through t = page_cache_ack through t"

definition admissible_through :: "durable_range_tracker \<Rightarrow> u64" where
  "admissible_through t =
     (case dr_mode t of Performance \<Rightarrow> dr_acknowledged_through t | Durable \<Rightarrow> dr_acknowledged_through t)"

definition clip :: "durable_range_tracker \<Rightarrow> byte_range \<Rightarrow> byte_range option" where
  "clip t = (\<lambda>(start, end).
     if dr_acknowledged_through t = 0 \<or> dr_acknowledged_through t \<le> start then None
     else
       let end = min end (dr_acknowledged_through t - 1)
       in if end < start then None else Some (start, end))"

datatype ack = PageCache u64 | Fsync u64

fun tracker_apply :: "ack \<Rightarrow> durable_range_tracker \<Rightarrow> durable_range_tracker" where
  "tracker_apply (PageCache n) t = page_cache_ack n t"
| "tracker_apply (Fsync n) t = fsync_through n t"

fun ack_offset :: "ack \<Rightarrow> u64" where
  "ack_offset (PageCache n) = n"
| "ack_offset (Fsync n) = n"

lemma tracker_frontier:
  "fold tracker_apply acks t = t\<lparr>dr_acknowledged_through := fold max (map ack_offset acks) (dr_acknowledged_through t)\<rparr>"
proof (induction acks arbitrary: t)
  case (Cons a acks)
  have "tracker_apply a t = t\<lparr>dr_acknowledged_through := max (ack_offset a) (dr_acknowledged_through t)\<rparr>"
    by (cases a) (auto simp: page_cache_ack_def fsync_through_def max_def)
  then show ?case using Cons.IH by simp
qed simp

text \<open>
  The tracker clips to the acknowledged frontier, in either mode alike. After any
  acknowledgements the frontier is the largest of them; \<open>clip\<close> returns the part of a range below it
  and \<open>None\<close> exactly when there is none. Page-cache acknowledgements advance the frontier of a tracker
  in durable mode too: what it admits does not depend on the mode, nor on any fsync.
\<close>

lemma tracker_clip_exact:
  "(let t = fold tracker_apply acks (tracker_new mode); n = fold max (map ack_offset acks) 0
    in admissible_through t = n
       \<and> (case clip t (s, e) of None \<Rightarrow> {s..e} \<inter> {..<n} = {} | Some (a, b) \<Rightarrow> {a..b} = {s..e} \<inter> {..<n} \<and> a \<le> b)
       \<and> clip t (s, e) = clip (fold tracker_apply acks (tracker_new Performance)) (s, e))"
  unfolding tracker_frontier
  by (auto simp: Let_def tracker_new_def admissible_through_def clip_def split: durability_mode.split)

end
