(* ===== verification/Job_State.thy ===== *)
theory Job_State
  imports Kdown_Prelude
begin

text \<open>
  The job lifecycle (\<open>job/state.rs\<close>): states and their ordinals, the allowed edges, and the state
  machine whose cell is one atomic byte. Calls that run one after the other are functions on the
  byte; calls that race are interleavings of the load and the store each of them makes.
\<close>

section \<open>States\<close>

datatype job_state =
    Created | Probing | Preparing | Running | Pausing | Paused | Resuming | Verifying | Committing
  | Cancelling | Failing | Completed | Cancelled | Failed

fun state_ordinal :: "job_state \<Rightarrow> nat" where
  "state_ordinal Created = 0"
| "state_ordinal Probing = 1"
| "state_ordinal Preparing = 2"
| "state_ordinal Running = 3"
| "state_ordinal Pausing = 4"
| "state_ordinal Paused = 5"
| "state_ordinal Resuming = 6"
| "state_ordinal Verifying = 7"
| "state_ordinal Committing = 8"
| "state_ordinal Cancelling = 9"
| "state_ordinal Failing = 10"
| "state_ordinal Completed = 11"
| "state_ordinal Cancelled = 12"
| "state_ordinal Failed = 13"

definition is_terminal :: "job_state \<Rightarrow> bool" where
  "is_terminal s \<longleftrightarrow> s = Completed \<or> s = Cancelled \<or> s = Failed"

definition is_operational :: "job_state \<Rightarrow> bool" where
  "is_operational s \<longleftrightarrow> \<not> is_terminal s"

definition allowed :: "job_state \<Rightarrow> job_state \<Rightarrow> bool" where
  "allowed from to =
     (case from of
        Created \<Rightarrow> to \<in> {Probing, Failing, Cancelling}
      | Probing \<Rightarrow> to \<in> {Preparing, Running, Failing, Cancelling}
      | Preparing \<Rightarrow> to \<in> {Running, Failing, Cancelling}
      | Running \<Rightarrow> to \<in> {Pausing, Verifying, Failing, Cancelling}
      | Paused \<Rightarrow> to \<in> {Resuming, Cancelling, Failing}
      | Resuming \<Rightarrow> to \<in> {Running, Failing, Cancelling}
      | Pausing \<Rightarrow> to \<in> {Paused, Cancelling, Failing}
      | Verifying \<Rightarrow> to \<in> {Committing, Failing, Cancelling}
      | Committing \<Rightarrow> to \<in> {Completed, Failing}
      | Cancelling \<Rightarrow> to = Cancelled
      | Failing \<Rightarrow> to = Failed
      | _ \<Rightarrow> False)"

section \<open>The state machine\<close>

type_synonym state_machine = nat

definition sm_new :: state_machine where
  "sm_new = state_ordinal Created"

definition sm_get :: "state_machine \<Rightarrow> job_state" where
  "sm_get m =
     (if m = 0 then Created else if m = 1 then Probing else if m = 2 then Preparing else if m = 3 then Running
      else if m = 4 then Pausing else if m = 5 then Paused else if m = 6 then Resuming else if m = 7 then Verifying
      else if m = 8 then Committing else if m = 9 then Cancelling else if m = 10 then Failing
      else if m = 11 then Completed else if m = 12 then Cancelled else Failed)"

record invalid_transition =
  it_from :: job_state
  it_to :: job_state

definition sm_transition :: "job_state \<Rightarrow> state_machine \<Rightarrow> (invalid_transition + unit) \<times> state_machine" where
  "sm_transition to m =
     (let from = sm_get m
      in if is_terminal from then (Inl \<lparr>it_from = from, it_to = to\<rparr>, m)
         else if allowed from to then (Inr (), state_ordinal to)
         else (Inl \<lparr>it_from = from, it_to = to\<rparr>, m))"

definition sm_or_else :: "(state_machine \<Rightarrow> (invalid_transition + unit) \<times> state_machine)
    \<Rightarrow> (state_machine \<Rightarrow> (invalid_transition + unit) \<times> state_machine)
    \<Rightarrow> state_machine \<Rightarrow> (invalid_transition + unit) \<times> state_machine" where
  "sm_or_else f g m = (case f m of (Inr u, m') \<Rightarrow> (Inr u, m') | (Inl _, m') \<Rightarrow> g m')"

definition sm_fail :: "state_machine \<Rightarrow> (invalid_transition + unit) \<times> state_machine" where
  "sm_fail = sm_or_else (sm_transition Failing) (sm_transition Failed)"

definition sm_cancel :: "state_machine \<Rightarrow> (invalid_transition + unit) \<times> state_machine" where
  "sm_cancel = sm_or_else (sm_transition Cancelling) (sm_transition Cancelled)"

lemma sm_get_ordinal [simp]: "sm_get (state_ordinal s) = s"
  by (cases s) (simp_all add: sm_get_def)

declare state_ordinal.simps [simp del]

section \<open>Sequences of calls\<close>

datatype sm_call = CallTransition job_state | CallFail | CallCancel

fun sm_apply :: "sm_call \<Rightarrow> state_machine \<Rightarrow> state_machine" where
  "sm_apply (CallTransition to) m = snd (sm_transition to m)"
| "sm_apply CallFail m = snd (sm_fail m)"
| "sm_apply CallCancel m = snd (sm_cancel m)"

fun sm_run :: "sm_call list \<Rightarrow> state_machine \<Rightarrow> state_machine" where
  "sm_run [] m = m"
| "sm_run (c # cs) m = sm_run cs (sm_apply c m)"

lemma sm_transition_cases:
  "sm_transition to (state_ordinal s) =
     (if \<not> is_terminal s \<and> allowed s to then (Inr (), state_ordinal to)
      else (Inl \<lparr>it_from = s, it_to = to\<rparr>, state_ordinal s))"
  by (simp add: sm_transition_def Let_def)

lemma terminal_no_edge: "is_terminal s \<Longrightarrow> \<not> allowed s to"
  by (cases s) (auto simp: is_terminal_def allowed_def)

lemma sm_apply_edge:
  "\<exists>t. sm_apply c (state_ordinal s) = state_ordinal t \<and> (t = s \<or> allowed s t)"
proof (cases c)
  case (CallTransition to)
  then show ?thesis by (simp add: sm_transition_cases) blast
next
  case CallFail
  then show ?thesis
    by (auto simp: sm_fail_def sm_or_else_def sm_transition_cases)
next
  case CallCancel
  then show ?thesis
    by (auto simp: sm_cancel_def sm_or_else_def sm_transition_cases)
qed

lemma allowed_mono: "allowed s t \<Longrightarrow> (s, t) \<noteq> (Resuming, Running) \<Longrightarrow> state_ordinal s < state_ordinal t"
  by (cases s) (auto simp: allowed_def state_ordinal.simps)

text \<open>
  Claim C14: the lifecycle graph is respected by any sequence of calls. Each call leaves the state
  where it was or moves it along one allowed edge; an edge leads to a later state unless it is the
  resume edge from Resuming to Running; and a terminal state is final: no sequence of calls leaves
  it, and every transition from it is refused with both states named.
\<close>

theorem lifecycle_respected:
  "(\<exists>t. sm_apply c (state_ordinal s) = state_ordinal t \<and> (t = s \<or> allowed s t
      \<and> (state_ordinal s < state_ordinal t \<or> s = Resuming \<and> t = Running)))
   \<and> (is_terminal s \<longrightarrow> sm_run cs (state_ordinal s) = state_ordinal s
      \<and> sm_transition to (state_ordinal s) = (Inl \<lparr>it_from = s, it_to = to\<rparr>, state_ordinal s))"
proof (intro conjI impI)
  obtain t where t: "sm_apply c (state_ordinal s) = state_ordinal t" "t = s \<or> allowed s t"
    using sm_apply_edge by blast
  then show "\<exists>t. sm_apply c (state_ordinal s) = state_ordinal t \<and> (t = s \<or> allowed s t
      \<and> (state_ordinal s < state_ordinal t \<or> s = Resuming \<and> t = Running))"
    using allowed_mono [of s t] by blast
next
  assume T: "is_terminal s"
  have "sm_apply d (state_ordinal s) = state_ordinal s" for d
    using sm_apply_edge [of d s] terminal_no_edge [OF T] by auto
  then show "sm_run cs (state_ordinal s) = state_ordinal s" by (induction cs) simp_all
  show "sm_transition to (state_ordinal s) = (Inl \<lparr>it_from = s, it_to = to\<rparr>, state_ordinal s)"
    using T by (simp add: sm_transition_cases)
qed

theorem lifecycle_respected_witness:
  "sm_run [CallTransition Running, CallFail, CallCancel] (state_ordinal Completed) = state_ordinal Completed"
  using lifecycle_respected [of CallFail Completed "[CallTransition Running, CallFail, CallCancel]" Running]
  unfolding is_terminal_def by blast

text \<open>
  Exactly when \<open>fail\<close> and \<open>cancel\<close> work. \<open>fail\<close> succeeds in every operational state but
  Cancelling, and ends in Failing, or in Failed when it was already failing; \<open>cancel\<close> succeeds in
  every operational state but Committing and Failing. From Cancelling a failure cannot be recorded,
  and a commit cannot be cancelled.
\<close>

lemma fail_cancel_exact:
  "(fst (sm_fail (state_ordinal s)) = Inr () \<longleftrightarrow> \<not> is_terminal s \<and> s \<noteq> Cancelling)
   \<and> snd (sm_fail (state_ordinal s)) = state_ordinal (if is_terminal s \<or> s = Cancelling then s
        else if s = Failing then Failed else Failing)
   \<and> (fst (sm_cancel (state_ordinal s)) = Inr () \<longleftrightarrow> \<not> is_terminal s \<and> s \<noteq> Committing \<and> s \<noteq> Failing)
   \<and> snd (sm_cancel (state_ordinal s)) = state_ordinal (if is_terminal s \<or> s = Committing \<or> s = Failing then s
        else if s = Cancelling then Cancelled else Cancelling)"
  by (cases s) (simp_all add: sm_fail_def sm_cancel_def sm_or_else_def sm_transition_cases is_terminal_def allowed_def)

section \<open>Racing calls\<close>

text \<open>
  \<open>transition\<close> loads the byte, checks the edge, and stores the new byte in a separate access. A
  thread between the two is a pending store. \<open>trace\<close> lists the values the byte has had.
\<close>

inductive race :: "state_machine list \<Rightarrow> job_state list \<Rightarrow> bool" where
  start: "race [sm_new] []"
| load: "race (m # trace) pending \<Longrightarrow> \<not> is_terminal (sm_get m) \<Longrightarrow> allowed (sm_get m) to \<Longrightarrow>
    race (m # trace) (to # pending)"
| store: "race (m # trace) pending \<Longrightarrow> to \<in> set pending \<Longrightarrow>
    race (state_ordinal to # m # trace) (remove1 to pending)"

lemma race_whole_call:
  assumes "race (m # trace) pending" "allowed (sm_get m) to"
  shows "race (state_ordinal to # m # trace) pending"
proof -
  have "race (m # trace) (to # pending)"
    using race.load [OF assms(1) _ assms(2)] terminal_no_edge assms(2) by blast
  from race.store [OF this, of to] show ?thesis by simp
qed

text \<open>
  The terminal latch holds only without races. With two threads calling \<open>transition\<close>, a
  cancel that loaded Running before the other thread verified, committed and completed the job
  overwrites Completed with Cancelling.
\<close>

lemma race_leaves_terminal:
  "\<exists>trace. race trace [] \<and> hd trace = state_ordinal Cancelling \<and> trace ! 1 = state_ordinal Completed"
proof -
  have "race [sm_new] []" by (rule race.start)
  then have "race [state_ordinal Probing, sm_new] []"
    by (rule race_whole_call) (simp add: sm_new_def allowed_def)
  then have "race [state_ordinal Running, state_ordinal Probing, sm_new] []"
    by (rule race_whole_call) (simp add: allowed_def)
  then have "race [state_ordinal Running, state_ordinal Probing, sm_new] [Cancelling]"
    by (rule race.load) (simp_all add: is_terminal_def allowed_def)
  then have "race [state_ordinal Verifying, state_ordinal Running, state_ordinal Probing, sm_new] [Cancelling]"
    by (rule race_whole_call) (simp add: allowed_def)
  then have "race [state_ordinal Committing, state_ordinal Verifying, state_ordinal Running, state_ordinal Probing, sm_new]
      [Cancelling]"
    by (rule race_whole_call) (simp add: allowed_def)
  then have "race [state_ordinal Completed, state_ordinal Committing, state_ordinal Verifying, state_ordinal Running,
      state_ordinal Probing, sm_new] [Cancelling]"
    by (rule race_whole_call) (simp add: allowed_def)
  from race.store [OF this, of Cancelling] show ?thesis by fastforce
qed

end
