(* ===== verification/Write_Budget.thy ===== *)
theory Write_Budget
  imports Kdown_Prelude
begin

text \<open>
  Outstanding-write byte budgets (\<open>io/write_budget.rs\<close>): the global pool, the pool of each job, and
  the reservations that hold bytes in both. The counter operations are atomic and are single steps;
  an asynchronous \<open>reserve\<close> or \<open>grow\<close> is a future that waits for the global pool, then for the job
  pool, and can be dropped at either wait.
\<close>

section \<open>Pools\<close>

record byte_budget =
  bb_max :: u64
  bb_outstanding :: u64

definition budget_new :: "u64 \<Rightarrow> byte_budget" where
  "budget_new mx = \<lparr>bb_max = mx, bb_outstanding = 0\<rparr>"

text \<open>The compare-and-swap loop takes effect at its successful exchange, from the value it read last.\<close>

definition try_acquire :: "u64 \<Rightarrow> byte_budget \<Rightarrow> u64 option \<times> byte_budget" where
  "try_acquire bytes b =
     (case checked_add (bb_outstanding b) bytes of
        None \<Rightarrow> (None, b)
      | Some new \<Rightarrow> if bb_max b < new then (None, b) else (Some new, b\<lparr>bb_outstanding := new\<rparr>))"

definition budget_release :: "bool \<Rightarrow> u64 \<Rightarrow> byte_budget \<Rightarrow> byte_budget outcome" where
  "budget_release dbg bytes b =
     (if bytes = 0 then Done b
      else if dbg \<and> bb_outstanding b < bytes then Panic
      else Done (b\<lparr>bb_outstanding := u64_sub (bb_outstanding b) bytes\<rparr>))"

text \<open>One turn of the loop of \<open>acquire\<close>: ready, or still waiting for a release.\<close>

definition budget_poll :: "u64 \<Rightarrow> byte_budget \<Rightarrow> bool \<times> byte_budget" where
  "budget_poll bytes b =
     (if bytes = 0 then (True, b)
      else case try_acquire bytes b of (Some _, b') \<Rightarrow> (True, b') | (None, b') \<Rightarrow> (False, b'))"

record write_budgets =
  wb_global :: byte_budget
  wb_job_max_bytes :: u64
  wb_worker_read_ahead_bytes :: u64

definition write_budgets_new :: "u64 \<Rightarrow> u64 \<Rightarrow> u64 \<Rightarrow> write_budgets" where
  "write_budgets_new global_max_bytes job_max_bytes worker_read_ahead_bytes =
     \<lparr>wb_global = budget_new global_max_bytes, wb_job_max_bytes = job_max_bytes,
      wb_worker_read_ahead_bytes = worker_read_ahead_bytes\<rparr>"

definition job_pool :: "write_budgets \<Rightarrow> byte_budget" where
  "job_pool w = budget_new (wb_job_max_bytes w)"

section \<open>Reservations\<close>

text \<open>
  A reservation with the future that may be in progress on it: none, waiting for the global pool, or
  waiting for the job pool with the rollback guard armed.
\<close>

datatype reserve_stage = Idle | WaitGlobal u64 | WaitJob u64

record byte_reservation =
  br_held :: u64
  br_stage :: reserve_stage

definition reserve :: "u64 \<Rightarrow> byte_reservation" where
  "reserve bytes = \<lparr>br_held = 0, br_stage = (if bytes = 0 then Idle else WaitGlobal bytes)\<rparr>"

definition grow :: "u64 \<Rightarrow> byte_reservation \<Rightarrow> byte_reservation" where
  "grow extra r = (if extra = 0 then r else r\<lparr>br_stage := WaitGlobal extra\<rparr>)"

definition reservation_poll :: "byte_reservation \<Rightarrow> byte_budget \<Rightarrow> byte_budget
    \<Rightarrow> byte_reservation \<times> byte_budget \<times> byte_budget" where
  "reservation_poll r global job =
     (case br_stage r of
        Idle \<Rightarrow> (r, global, job)
      | WaitGlobal bytes \<Rightarrow>
          (case budget_poll bytes global of
             (True, global') \<Rightarrow> (r\<lparr>br_stage := WaitJob bytes\<rparr>, global', job)
           | (False, global') \<Rightarrow> (r, global', job))
      | WaitJob bytes \<Rightarrow>
          (case budget_poll bytes job of
             (True, job') \<Rightarrow> (r\<lparr>br_held := u64_add (br_held r) bytes, br_stage := Idle\<rparr>, global, job')
           | (False, job') \<Rightarrow> (r, global, job')))"

text \<open>Dropping the future in progress: the guard gives the global bytes back.\<close>

definition future_drop :: "bool \<Rightarrow> byte_reservation \<Rightarrow> byte_budget \<Rightarrow> (byte_reservation \<times> byte_budget) outcome" where
  "future_drop dbg r global =
     (case br_stage r of
        WaitJob armed \<Rightarrow>
          (case budget_release dbg armed global of
             Panic \<Rightarrow> Panic
           | Done global' \<Rightarrow> Done (r\<lparr>br_stage := Idle\<rparr>, global'))
      | _ \<Rightarrow> Done (r\<lparr>br_stage := Idle\<rparr>, global))"

definition release_both :: "bool \<Rightarrow> u64 \<Rightarrow> byte_budget \<Rightarrow> byte_budget \<Rightarrow> (byte_budget \<times> byte_budget) outcome" where
  "release_both dbg bytes global job =
     (case budget_release dbg bytes global of
        Panic \<Rightarrow> Panic
      | Done global' \<Rightarrow> (case budget_release dbg bytes job of Panic \<Rightarrow> Panic | Done job' \<Rightarrow> Done (global', job')))"

definition reconcile :: "bool \<Rightarrow> u64 \<Rightarrow> byte_reservation \<Rightarrow> byte_budget \<Rightarrow> byte_budget
    \<Rightarrow> (byte_reservation \<times> byte_budget \<times> byte_budget) outcome" where
  "reconcile dbg actual r global job =
     (if \<not> actual \<le> br_held r then Panic
      else case release_both dbg (br_held r - actual) global job of
        Panic \<Rightarrow> Panic
      | Done (global', job') \<Rightarrow> Done (r\<lparr>br_held := actual\<rparr>, global', job'))"

definition reservation_drop :: "bool \<Rightarrow> byte_reservation \<Rightarrow> byte_budget \<Rightarrow> byte_budget
    \<Rightarrow> (byte_reservation \<times> byte_budget \<times> byte_budget) outcome" where
  "reservation_drop dbg r global job =
     (if 0 < br_held r then
        (case release_both dbg (br_held r) global job of
           Panic \<Rightarrow> Panic
         | Done (global', job') \<Rightarrow> Done (r\<lparr>br_held := 0\<rparr>, global', job'))
      else Done (r, global, job))"

section \<open>Splitting of oversize frames\<close>

function slice_from :: "nat \<Rightarrow> nat \<Rightarrow> 'a list \<Rightarrow> 'a list list" where
  "slice_from quantum start data =
     (if start < length data \<and> 0 < quantum then
        (let stop = min (start + quantum) (length data)
         in take (stop - start) (drop start data) # slice_from quantum stop data)
      else [])"
  by pat_completeness auto

termination slice_from
  by (relation "measure (\<lambda>(quantum, start, data). length data - start)") auto

declare slice_from.simps [simp del]

definition split_oversize_frame :: "'a list \<Rightarrow> u64 \<Rightarrow> 'a list list outcome" where
  "split_oversize_frame data quantum =
     (if \<not> 1 \<le> quantum then Panic
      else if data = [] then Done []
      else if length data \<le> quantum then Done [data]
      else Done (slice_from quantum 0 data))"

section \<open>The system\<close>

text \<open>All reservations of an engine, each with the job it belongs to, over the shared pools.\<close>

record budget_system =
  sys_global :: byte_budget
  sys_jobs :: "nat \<Rightarrow> byte_budget"
  sys_slots :: "(nat \<times> byte_reservation) list"

definition set_slot :: "nat \<Rightarrow> byte_reservation \<Rightarrow> byte_budget \<Rightarrow> byte_budget \<Rightarrow> budget_system \<Rightarrow> budget_system" where
  "set_slot i r g p x =
     (let j = fst (sys_slots x ! i)
      in x\<lparr>sys_global := g, sys_jobs := (sys_jobs x)(j := p), sys_slots := (sys_slots x)[i := (j, r)]\<rparr>)"

definition slot_job_pool :: "budget_system \<Rightarrow> nat \<Rightarrow> byte_budget" where
  "slot_job_pool x i = sys_jobs x (fst (sys_slots x ! i))"

definition slot :: "budget_system \<Rightarrow> nat \<Rightarrow> byte_reservation" where
  "slot x i = snd (sys_slots x ! i)"

inductive budget_step :: "budget_system \<Rightarrow> budget_system outcome \<Rightarrow> bool" where
  start_reserve: "budget_step x (Done (x\<lparr>sys_slots := sys_slots x @ [(j, reserve n)]\<rparr>))"
| start_grow: "i < length (sys_slots x) \<Longrightarrow> br_stage (slot x i) = Idle \<Longrightarrow>
    budget_step x (Done (set_slot i (grow n (slot x i)) (sys_global x) (slot_job_pool x i) x))"
| poll: "i < length (sys_slots x) \<Longrightarrow>
    reservation_poll (slot x i) (sys_global x) (slot_job_pool x i) = (r, g, p) \<Longrightarrow>
    budget_step x (Done (set_slot i r g p x))"
| cancel: "i < length (sys_slots x) \<Longrightarrow>
    budget_step x (map_outcome (\<lambda>(r, g). set_slot i r g (slot_job_pool x i) x)
      (future_drop True (slot x i) (sys_global x)))"
| reconciled: "i < length (sys_slots x) \<Longrightarrow> br_stage (slot x i) = Idle \<Longrightarrow> n \<le> br_held (slot x i) \<Longrightarrow>
    budget_step x (map_outcome (\<lambda>(r, g, p). set_slot i r g p x)
      (reconcile True n (slot x i) (sys_global x) (slot_job_pool x i)))"
| dropped: "i < length (sys_slots x) \<Longrightarrow> br_stage (slot x i) = Idle \<Longrightarrow>
    budget_step x (map_outcome (\<lambda>(r, g, p). set_slot i r g p x)
      (reservation_drop True (slot x i) (sys_global x) (slot_job_pool x i)))"

inductive budget_reach :: "write_budgets \<Rightarrow> budget_system \<Rightarrow> bool" for w where
  init: "budget_reach w \<lparr>sys_global = wb_global w, sys_jobs = (\<lambda>j. job_pool w), sys_slots = []\<rparr>"
| step: "budget_reach w x \<Longrightarrow> budget_step x (Done y) \<Longrightarrow> budget_reach w y"

definition armed :: "byte_reservation \<Rightarrow> nat" where
  "armed r = (case br_stage r of WaitJob n \<Rightarrow> n | _ \<Rightarrow> 0)"

definition budget_inv :: "u64 \<Rightarrow> u64 \<Rightarrow> budget_system \<Rightarrow> bool" where
  "budget_inv gmax jmax x \<longleftrightarrow>
     bb_max (sys_global x) = gmax
     \<and> bb_outstanding (sys_global x) = sum_list (map (\<lambda>(j, r). br_held r + armed r) (sys_slots x))
     \<and> bb_outstanding (sys_global x) \<le> gmax
     \<and> (\<forall>k. bb_max (sys_jobs x k) = jmax
          \<and> bb_outstanding (sys_jobs x k) = sum_list (map (\<lambda>(j, r). if j = k then br_held r else 0) (sys_slots x))
          \<and> bb_outstanding (sys_jobs x k) \<le> jmax)"

text \<open>
  What an operation on one reservation owes its pools: the counters move by exactly as much as the
  reservation, and stay within the maxima.
\<close>

definition balanced :: "byte_reservation \<Rightarrow> byte_budget \<Rightarrow> byte_budget
    \<Rightarrow> byte_reservation \<Rightarrow> byte_budget \<Rightarrow> byte_budget \<Rightarrow> bool" where
  "balanced r g p r' g' p' \<longleftrightarrow>
     bb_max g' = bb_max g \<and> bb_max p' = bb_max p
     \<and> bb_outstanding g' + (br_held r + armed r) = bb_outstanding g + (br_held r' + armed r')
     \<and> bb_outstanding p' + br_held r = bb_outstanding p + br_held r'
     \<and> bb_outstanding g' \<le> bb_max g \<and> bb_outstanding p' \<le> bb_max p"

lemma budget_poll_cases:
  "budget_poll n b = (ok, b') \<Longrightarrow> bb_outstanding b \<le> bb_max b \<Longrightarrow>
   bb_max b' = bb_max b \<and> bb_outstanding b' = bb_outstanding b + (if ok then n else 0) \<and> bb_outstanding b' \<le> bb_max b"
  by (auto simp: budget_poll_def try_acquire_def checked_add_def split: if_splits option.splits prod.splits)

lemma budget_release_ok:
  "n \<le> bb_outstanding b \<Longrightarrow> bb_outstanding b \<le> u64_max \<Longrightarrow>
   budget_release dbg n b = Done (b\<lparr>bb_outstanding := bb_outstanding b - n\<rparr>)"
  by (auto simp: budget_release_def u64_exact)

lemma release_both_ok:
  assumes "n \<le> bb_outstanding g" "n \<le> bb_outstanding p" "bb_outstanding g \<le> u64_max" "bb_outstanding p \<le> u64_max"
  shows "release_both dbg n g p = Done (g\<lparr>bb_outstanding := bb_outstanding g - n\<rparr>, p\<lparr>bb_outstanding := bb_outstanding p - n\<rparr>)"
  using assms by (simp add: release_both_def budget_release_ok)

lemma poll_balanced:
  assumes "reservation_poll r g p = (r', g', p')" "bb_outstanding g \<le> bb_max g" "bb_outstanding p \<le> bb_max p"
    and "br_held r + armed r \<le> bb_outstanding g" "bb_max g \<le> u64_max"
  shows "balanced r g p r' g' p'"
proof (cases "br_stage r")
  case Idle
  then show ?thesis using assms by (simp add: reservation_poll_def balanced_def)
next
  case (WaitGlobal n)
  obtain ok b where b: "budget_poll n g = (ok, b)" by force
  then show ?thesis
    using assms WaitGlobal budget_poll_cases [OF b assms(2)]
    by (cases ok) (auto simp: reservation_poll_def balanced_def armed_def)
next
  case (WaitJob n)
  obtain ok b where b: "budget_poll n p = (ok, b)" by force
  have "u64_add (br_held r) n = br_held r + n"
    using assms WaitJob by (intro u64_exact) (auto simp: armed_def)
  then show ?thesis
    using assms WaitJob b budget_poll_cases [OF b assms(3)]
    by (cases ok) (auto simp: reservation_poll_def balanced_def armed_def)
qed

lemma cancel_balanced:
  assumes "bb_outstanding g \<le> bb_max g" "bb_outstanding p \<le> bb_max p" "br_held r + armed r \<le> bb_outstanding g"
    "bb_max g \<le> u64_max"
  obtains r' g' where "future_drop True r g = Done (r', g')" "balanced r g p r' g' p"
proof -
  define g' where "g' = g\<lparr>bb_outstanding := bb_outstanding g - armed r\<rparr>"
  have "future_drop True r g = Done (r\<lparr>br_stage := Idle\<rparr>, g')"
    using assms by (cases "br_stage r") (auto simp: future_drop_def armed_def budget_release_ok g'_def)
  moreover have "balanced r g p (r\<lparr>br_stage := Idle\<rparr>) g' p"
    using assms by (simp add: balanced_def g'_def armed_def)
  ultimately show thesis by (rule that)
qed

lemma reconcile_balanced:
  assumes "n \<le> br_held r" "bb_outstanding g \<le> bb_max g" "bb_outstanding p \<le> bb_max p"
    "br_held r + armed r \<le> bb_outstanding g" "br_held r \<le> bb_outstanding p" "bb_max g \<le> u64_max" "bb_max p \<le> u64_max"
  obtains r' g' p' where "reconcile True n r g p = Done (r', g', p')" "balanced r g p r' g' p'"
proof -
  let ?d = "br_held r - n"
  have "reconcile True n r g p = Done (r\<lparr>br_held := n\<rparr>, g\<lparr>bb_outstanding := bb_outstanding g - ?d\<rparr>,
      p\<lparr>bb_outstanding := bb_outstanding p - ?d\<rparr>)"
    using assms by (simp add: reconcile_def release_both_ok)
  moreover have "balanced r g p (r\<lparr>br_held := n\<rparr>) (g\<lparr>bb_outstanding := bb_outstanding g - ?d\<rparr>)
      (p\<lparr>bb_outstanding := bb_outstanding p - ?d\<rparr>)"
    using assms unfolding balanced_def armed_def by (auto simp del: diff_le_self)
  ultimately show thesis by (rule that)
qed

lemma drop_reconcile:
  "reservation_drop True r g p = (if 0 < br_held r then reconcile True 0 r g p else Done (r, g, p))"
  by (simp add: reservation_drop_def reconcile_def)

lemma budget_inv_pools:
  assumes "budget_inv gm jm x"
  shows "bb_max (sys_global x) = gm" and "bb_outstanding (sys_global x) \<le> gm"
    and "bb_max (sys_jobs x k) = jm" and "bb_outstanding (sys_jobs x k) \<le> jm"
  using assms unfolding budget_inv_def by blast+

lemma slot_load:
  assumes inv: "budget_inv gm jm x" and i: "i < length (sys_slots x)"
  shows "br_held (slot x i) + armed (slot x i) \<le> bb_outstanding (sys_global x)"
    and "br_held (slot x i) \<le> bb_outstanding (slot_job_pool x i)"
proof -
  have "(\<lambda>(j, r). br_held r + armed r) (sys_slots x ! i) \<le> sum_list (map (\<lambda>(j, r). br_held r + armed r) (sys_slots x))"
    using i by (intro member_le_sum_list) auto
  then show "br_held (slot x i) + armed (slot x i) \<le> bb_outstanding (sys_global x)"
    using inv by (simp add: budget_inv_def slot_def case_prod_beta)
  let ?k = "fst (sys_slots x ! i)"
  have "(\<lambda>(j, r). if j = ?k then br_held r else 0) (sys_slots x ! i)
      \<le> sum_list (map (\<lambda>(j, r). if j = ?k then br_held r else 0) (sys_slots x))"
    using i by (intro member_le_sum_list) auto
  then show "br_held (slot x i) \<le> bb_outstanding (slot_job_pool x i)"
    using inv by (simp add: budget_inv_def slot_def slot_job_pool_def case_prod_beta)
qed

lemma set_slot_inv:
  assumes inv: "budget_inv gm jm x" and i: "i < length (sys_slots x)"
    and bal: "balanced (slot x i) (sys_global x) (slot_job_pool x i) r g p"
  shows "budget_inv gm jm (set_slot i r g p x)"
proof -
  let ?j = "fst (sys_slots x ! i)"
  have s: "slot x i = snd (sys_slots x ! i)" "slot_job_pool x i = sys_jobs x ?j"
    by (simp_all add: slot_def slot_job_pool_def)
  have g: "bb_outstanding g = sum_list (map (\<lambda>(j, r). br_held r + armed r) ((sys_slots x)[i := (?j, r)]))"
    using sum_list_map_update [OF i, of "\<lambda>(j, r). br_held r + armed r" "(?j, r)"] inv bal
    by (simp add: budget_inv_def balanced_def s case_prod_beta)
  have jobs: "bb_outstanding (((sys_jobs x)(?j := p)) k)
      = sum_list (map (\<lambda>(j, r). if j = k then br_held r else 0) ((sys_slots x)[i := (?j, r)]))" for k
    using sum_list_map_update [OF i, of "\<lambda>(j, r). if j = k then br_held r else 0" "(?j, r)"] inv bal
    by (cases "?j = k") (simp_all add: budget_inv_def balanced_def s case_prod_beta)
  have bounds: "bb_max g = gm" "bb_outstanding g \<le> gm"
      "bb_max (((sys_jobs x)(?j := p)) k) = jm \<and> bb_outstanding (((sys_jobs x)(?j := p)) k) \<le> jm" for k
    using budget_inv_pools [OF inv] bal by (simp_all add: balanced_def s)
  have "sys_global (set_slot i r g p x) = g" "sys_jobs (set_slot i r g p x) = (sys_jobs x)(?j := p)"
      "sys_slots (set_slot i r g p x) = (sys_slots x)[i := (?j, r)]"
    by (simp_all add: set_slot_def Let_def)
  then show ?thesis unfolding budget_inv_def using g jobs bounds by simp
qed

lemma budget_step_ok:
  assumes inv: "budget_inv gm jm x" and step: "budget_step x out" and mx: "gm \<le> u64_max" "jm \<le> u64_max"
  shows "\<exists>y. out = Done y \<and> budget_inv gm jm y"
proof -
  have pools: "bb_outstanding (sys_global x) \<le> bb_max (sys_global x)" "bb_max (sys_global x) \<le> u64_max"
    "\<And>i. bb_outstanding (slot_job_pool x i) \<le> bb_max (slot_job_pool x i)" "\<And>i. bb_max (slot_job_pool x i) \<le> u64_max"
    using budget_inv_pools [OF inv] mx by (simp_all only: slot_job_pool_def)
  note loads = slot_load [OF inv] and set = set_slot_inv [OF inv]
  from step show ?thesis
  proof cases
    case (start_reserve j n)
    have "br_held (reserve n) = 0" "armed (reserve n) = 0" by (simp_all add: reserve_def armed_def)
    then have "budget_inv gm jm (x\<lparr>sys_slots := sys_slots x @ [(j, reserve n)]\<rparr>)"
      using inv unfolding budget_inv_def by (simp; metis)
    then show ?thesis using start_reserve by blast
  next
    case (start_grow i n)
    have "balanced (slot x i) (sys_global x) (slot_job_pool x i) (grow n (slot x i)) (sys_global x) (slot_job_pool x i)"
      using start_grow(3) pools by (simp add: balanced_def grow_def armed_def)
    then show ?thesis using start_grow(1) set [OF start_grow(2)] by blast
  next
    case (poll i r g p)
    have "balanced (slot x i) (sys_global x) (slot_job_pool x i) r g p"
      by (rule poll_balanced [OF poll(3) pools(1,3) loads(1) [OF poll(2)] pools(2)])
    then show ?thesis using poll(1) set [OF poll(2)] by blast
  next
    case (cancel i)
    obtain r g where "future_drop True (slot x i) (sys_global x) = Done (r, g)"
      "balanced (slot x i) (sys_global x) (slot_job_pool x i) r g (slot_job_pool x i)"
      by (rule cancel_balanced [OF pools(1) pools(3) loads(1) [OF cancel(2)] pools(2)])
    then show ?thesis using cancel(1) set [OF cancel(2)] by simp
  next
    case (reconciled i n)
    obtain r g p where "reconcile True n (slot x i) (sys_global x) (slot_job_pool x i) = Done (r, g, p)"
      "balanced (slot x i) (sys_global x) (slot_job_pool x i) r g p"
      by (rule reconcile_balanced [OF reconciled(4) pools(1) pools(3) loads(1) [OF reconciled(2)]
            loads(2) [OF reconciled(2)] pools(2) pools(4)])
    then show ?thesis using reconciled(1) set [OF reconciled(2)] by simp
  next
    case (dropped i)
    obtain r g p where r: "reconcile True 0 (slot x i) (sys_global x) (slot_job_pool x i) = Done (r, g, p)"
      "balanced (slot x i) (sys_global x) (slot_job_pool x i) r g p"
      by (rule reconcile_balanced [OF le0 pools(1) pools(3) loads(1) [OF dropped(2)]
            loads(2) [OF dropped(2)] pools(2) pools(4)])
    have same: "balanced (slot x i) (sys_global x) (slot_job_pool x i) (slot x i) (sys_global x) (slot_job_pool x i)"
      using pools by (simp add: balanced_def)
    show ?thesis
      using dropped(1) r set [OF dropped(2) r(2)] set [OF dropped(2) same]
      by (cases "0 < br_held (slot x i)") (simp_all add: drop_reconcile)
  qed
qed

lemma budget_reach_inv:
  assumes "budget_reach w x" "wb_global w = budget_new gm" "wb_job_max_bytes w = jm" "gm \<le> u64_max" "jm \<le> u64_max"
  shows "budget_inv gm jm x"
  using assms(1)
proof (induction rule: budget_reach.induct)
  case init
  then show ?case using assms by (simp add: budget_inv_def budget_new_def job_pool_def)
next
  case (step x y)
  from budget_step_ok [OF step.IH step.hyps(2) assms(4,5)] show ?case by simp
qed

text \<open>
  Claim C17: the write budgets are exact. In every state the pools can reach, with any number of jobs
  and reservations waiting, growing, cancelled, reconciled or dropped in any order, the global counter
  is the sum of all bytes held plus those a waiting future has acquired so far, each job counter is
  the sum of the bytes its reservations hold, neither exceeds its maximum, and no step releases more
  than is held (no operation panics, no counter wraps).
\<close>

theorem write_budget_exact:
  assumes "budget_reach (write_budgets_new gm jm ra) x" "gm \<le> u64_max" "jm \<le> u64_max"
  shows "bb_outstanding (sys_global x) = sum_list (map (\<lambda>(j, r). br_held r + armed r) (sys_slots x))
    \<and> bb_outstanding (sys_global x) \<le> gm
    \<and> (\<forall>k. bb_outstanding (sys_jobs x k) = sum_list (map (\<lambda>(j, r). if j = k then br_held r else 0) (sys_slots x))
         \<and> bb_outstanding (sys_jobs x k) \<le> jm)
    \<and> \<not> budget_step x Panic"
proof -
  have inv: "budget_inv gm jm x"
    by (rule budget_reach_inv [OF assms(1)]) (use assms in \<open>simp_all add: write_budgets_new_def\<close>)
  moreover have "\<not> budget_step x Panic" using budget_step_ok [OF inv _ assms(2,3)] by blast
  ultimately show ?thesis unfolding budget_inv_def by blast
qed

theorem write_budget_exact_witness:
  "bb_outstanding (sys_global (set_slot 0 \<lparr>br_held = 0, br_stage = WaitJob 64\<rparr> \<lparr>bb_max = 100, bb_outstanding = 64\<rparr>
     (budget_new 80) \<lparr>sys_global = budget_new 100, sys_jobs = (\<lambda>j. budget_new 80), sys_slots = [(7, reserve 64)]\<rparr>)) \<le> 100"
proof -
  let ?w = "write_budgets_new 100 80 16"
  let ?x = "\<lparr>sys_global = budget_new 100, sys_jobs = (\<lambda>j. budget_new 80), sys_slots = [(7, reserve 64)]\<rparr>"
  have "budget_reach ?w \<lparr>sys_global = budget_new 100, sys_jobs = (\<lambda>j. budget_new 80), sys_slots = []\<rparr>"
    using budget_reach.init [of ?w] by (simp add: write_budgets_new_def job_pool_def)
  from budget_reach.step [OF this budget_step.start_reserve [of _ 7 64]] have x: "budget_reach ?w ?x" by simp
  have "reservation_poll (slot ?x 0) (sys_global ?x) (slot_job_pool ?x 0)
      = (\<lparr>br_held = 0, br_stage = WaitJob 64\<rparr>, \<lparr>bb_max = 100, bb_outstanding = 64\<rparr>, budget_new 80)"
    by (simp add: reservation_poll_def slot_def slot_job_pool_def reserve_def budget_poll_def try_acquire_def
        checked_add_def budget_new_def u64_max_def)
  then have "budget_step ?x (Done (set_slot 0 \<lparr>br_held = 0, br_stage = WaitJob 64\<rparr>
      \<lparr>bb_max = 100, bb_outstanding = 64\<rparr> (budget_new 80) ?x))"
    by (intro budget_step.poll) simp_all
  from write_budget_exact [OF budget_reach.step [OF x this]] show ?thesis by (simp add: u64_max_def)
qed

section \<open>Frames\<close>

lemma cons_slices:
  assumes "concat rest = back" "\<forall>s\<in>set rest. s \<noteq> [] \<and> length s \<le> quantum" "\<forall>s\<in>set (butlast rest). length s = quantum"
    and "s @ back = whole" "rest \<noteq> [] \<Longrightarrow> length s = quantum" "s \<noteq> []" "length s \<le> quantum"
  shows "concat (s # rest) = whole \<and> (\<forall>s\<in>set (s # rest). s \<noteq> [] \<and> length s \<le> quantum)
    \<and> (\<forall>s\<in>set (butlast (s # rest)). length s = quantum)"
  using assms by auto

lemma slice_from_correct:
  assumes "0 < quantum" "start \<le> length data"
  shows "concat (slice_from quantum start data) = drop start data
    \<and> (\<forall>s\<in>set (slice_from quantum start data). s \<noteq> [] \<and> length s \<le> quantum)
    \<and> (\<forall>s\<in>set (butlast (slice_from quantum start data)). length s = quantum)"
  using assms
proof (induction quantum start data rule: slice_from.induct)
  case (1 quantum start data)
  show ?case
  proof (cases "start < length data")
    case False
    then have "slice_from quantum start data = []" by (subst slice_from.simps) simp
    then show ?thesis using False by simp
  next
    case True
    let ?stop = "min (start + quantum) (length data)"
    let ?rest = "slice_from quantum ?stop data"
    let ?s = "take (?stop - start) (drop start data)"
    have unfold: "slice_from quantum start data = ?s # ?rest"
      using True "1.prems" by (simp add: slice_from.simps [of quantum start data] Let_def)
    have IH: "concat ?rest = drop ?stop data" "\<forall>s\<in>set ?rest. s \<noteq> [] \<and> length s \<le> quantum"
      "\<forall>s\<in>set (butlast ?rest). length s = quantum"
      using "1.IH" [OF conjI [OF True "1.prems"(1)] refl "1.prems"(1) min.cobounded2] by blast+
    have "drop (?stop - start) (drop start data) = drop ?stop data" using True by simp
    then have join: "?s @ drop ?stop data = drop start data" by (metis append_take_drop_id)
    have full: "?rest \<noteq> [] \<Longrightarrow> length ?s = quantum"
    proof -
      assume "?rest \<noteq> []"
      then have "?stop < length data" by (subst (asm) slice_from.simps) (auto split: if_splits)
      then show ?thesis using True by auto
    qed
    have size: "?s \<noteq> []" "length ?s \<le> quantum" using True "1.prems" by auto
    show ?thesis unfolding unfold by (rule cons_slices [OF IH join full size])
  qed
qed

text \<open>
  Splitting an oversize frame loses and reorders nothing. With a positive quantum the
  slices concatenate to the frame, none is empty or longer than the quantum, and all but the last
  have exactly the quantum's length; a zero quantum panics.
\<close>

lemma split_frame_exact:
  "case split_oversize_frame data quantum of
     Panic \<Rightarrow> quantum = 0
   | Done slices \<Rightarrow> concat slices = data \<and> (\<forall>s\<in>set slices. s \<noteq> [] \<and> length s \<le> quantum)
       \<and> (\<forall>s\<in>set (butlast slices). length s = quantum)"
  using slice_from_correct [of quantum 0 data] by (auto simp: split_oversize_frame_def)

end
