(* ===== verification/Engine_Config.thy ===== *)
theory Engine_Config
  imports Retry_Policy Checkpoint_Model
begin

text \<open>
  Engine and job configuration (\<open>config.rs\<close>): the policy types with their defaults and the validation
  that runs before any network activity. Durations are nanoseconds. Parsing of a proxy URL belongs to
  the HTTP library and is a parameter: \<open>None\<close> when the URL does not parse, else the authority if there
  is one, with its port if it names one. The address filter hook is opaque; only its presence is kept.
\<close>

section \<open>Errors\<close>

record configuration_error =
  ce_field :: string
  ce_reason :: string

definition invalid :: "string \<Rightarrow> string \<Rightarrow> configuration_error + unit" where
  "invalid field reason = Inl \<lparr>ce_field = field, ce_reason = reason\<rparr>"

definition display_configuration_error :: "configuration_error \<Rightarrow> string" where
  "display_configuration_error e = ''configuration invalid: '' @ ce_field e @ '': '' @ ce_reason e"

definition configuration_error_into :: "configuration_error \<Rightarrow> download_error" where
  "configuration_error_into e = Configuration (display_configuration_error e)"

text \<open>The \<open>?\<close> operator on a check that returns nothing.\<close>

definition and_also :: "configuration_error + unit \<Rightarrow> configuration_error + unit \<Rightarrow> configuration_error + unit" where
  "and_also r k = (case r of Inl e \<Rightarrow> Inl e | Inr _ \<Rightarrow> k)"

fun all_positive :: "(string \<times> nat) list \<Rightarrow> configuration_error + unit" where
  "all_positive [] = Inr ()"
| "all_positive ((field, value) # rest) =
     (if value = 0 then invalid field ''must be greater than zero'' else all_positive rest)"

section \<open>Policies\<close>

definition INGRESS_WINDOW_CAP :: u64 where
  "INGRESS_WINDOW_CAP = 2 * 1024 * 1024"

definition MIN_CHECKPOINT_BYTES :: u64 where
  "MIN_CHECKPOINT_BYTES = 256"

datatype overwrite_policy = FailIfExists | Replace | ResumeIfMatching | Rename

datatype resume_policy = ResumeAllowed | ResumeNever | ResumeRequired

datatype concurrency_mode = FixedConcurrency | AdaptiveConcurrency

datatype segment_sizing = ExplicitSizing | AutomaticSizing | DurationSizing u64

datatype hash_algorithm = Sha256 | Sha512

fun digest_len :: "hash_algorithm \<Rightarrow> nat" where
  "digest_len Sha256 = 32"
| "digest_len Sha512 = 64"

record expected_hash =
  eh_algorithm :: hash_algorithm
  eh_hex :: string

record integrity_policy =
  ip_expected_hashes :: "expected_hash list"
  ip_apply_mtime :: bool

record network_policy =
  np_connect_timeout :: duration
  np_tls_handshake_timeout :: duration
  np_response_header_timeout :: duration
  np_read_idle_timeout :: duration
  np_max_redirects :: u32
  np_deny_https_downgrade :: bool
  np_forward_credentials_cross_origin :: bool
  np_rate_limit :: "u64 option"

definition network_policy_default :: network_policy where
  "network_policy_default =
     \<lparr>np_connect_timeout = secs 10, np_tls_handshake_timeout = secs 10, np_response_header_timeout = secs 20,
      np_read_idle_timeout = secs 30, np_max_redirects = 10, np_deny_https_downgrade = True,
      np_forward_credentials_cross_origin = False, np_rate_limit = None\<rparr>"

record transfer_policy =
  tp_max_workers :: u32
  tp_min_workers :: u32
  tp_initial_segment_size :: u64
  tp_min_segment_size :: u64
  tp_max_segment_size :: u64
  tp_segment_sizing :: segment_sizing
  tp_auto_oversubscription :: u64
  tp_concurrency_mode :: concurrency_mode
  tp_segmentation_threshold :: u64
  tp_preallocate_output :: bool
  tp_preallocate_physical :: bool
  tp_durability :: durability_mode
  tp_verify_range_support :: bool
  tp_job_deadline :: "duration option"

definition transfer_policy_default :: transfer_policy where
  "transfer_policy_default =
     \<lparr>tp_max_workers = 8, tp_min_workers = 1, tp_initial_segment_size = 8 * 1024 * 1024,
      tp_min_segment_size = 1024 * 1024, tp_max_segment_size = 64 * 1024 * 1024,
      tp_segment_sizing = ExplicitSizing, tp_auto_oversubscription = 3, tp_concurrency_mode = FixedConcurrency,
      tp_segmentation_threshold = 16 * 1024 * 1024, tp_preallocate_output = True, tp_preallocate_physical = False,
      tp_durability = Performance, tp_verify_range_support = True, tp_job_deadline = None\<rparr>"

record transfer_memory_config =
  tm_aggregate_max_bytes :: u64
  tm_job_max_bytes :: u64
  tm_network_ingress_max_bytes :: u64
  tm_frames_max_bytes :: u64
  tm_writer_max_bytes :: u64
  tm_checkpoint_max_bytes :: u64

definition transfer_memory_default :: transfer_memory_config where
  "transfer_memory_default =
     \<lparr>tm_aggregate_max_bytes = 1024 * 1024 * 1024, tm_job_max_bytes = 8 * 1024 * 1024,
      tm_network_ingress_max_bytes = 8 * 1024 * 1024, tm_frames_max_bytes = 2 * 1024 * 1024,
      tm_writer_max_bytes = 2 * 1024 * 1024, tm_checkpoint_max_bytes = 1024 * 1024\<rparr>"

definition connection_ingress_footprint :: "transfer_memory_config \<Rightarrow> u32 \<Rightarrow> u64" where
  "connection_ingress_footprint c read_buffer_size =
     (let ingress = tm_network_ingress_max_bytes c;
          window = min INGRESS_WINDOW_CAP ingress;
          buffer = min read_buffer_size ingress;
          header = min (64 * 1024) ingress
      in u64_add (max window buffer) header)"

definition connection_ingress_reserve :: "transfer_memory_config \<Rightarrow> u32 \<Rightarrow> u32 \<Rightarrow> u64" where
  "connection_ingress_reserve c read_buffer_size max_connections_total =
     sat_mul (connection_ingress_footprint c read_buffer_size) max_connections_total"

record pool_config =
  pc_max_total :: u32
  pc_max_per_origin :: u32
  pc_idle_timeout :: duration
  pc_tcp_keepalive :: "duration option"
  pc_tcp_nodelay :: bool

definition pool_config_default :: pool_config where
  "pool_config_default =
     \<lparr>pc_max_total = 256, pc_max_per_origin = 16, pc_idle_timeout = secs 90, pc_tcp_keepalive = Some (secs 60),
      pc_tcp_nodelay = True\<rparr>"

record write_budget_config =
  wc_global_max_bytes :: u64
  wc_job_max_bytes :: u64
  wc_worker_read_ahead_bytes :: u64

definition write_budget_config_default :: write_budget_config where
  "write_budget_config_default =
     (let frame = 128 * 1024
      in \<lparr>wc_global_max_bytes = 64 * 1024 * 1024, wc_job_max_bytes = 8 * 2 * frame, wc_worker_read_ahead_bytes = 2 * frame\<rparr>)"

record write_executor_config =
  we_writer_threads :: u32
  we_max_queued_bytes :: u64
  we_pipeline_writes :: bool

definition write_executor_config_default :: write_executor_config where
  "write_executor_config_default =
     \<lparr>we_writer_threads = 4, we_max_queued_bytes = 32 * 1024 * 1024, we_pipeline_writes = False\<rparr>"

datatype h2_connection_policy = Single | Additional u32

datatype proxy_config = NoProxy | HttpProxy string | Socks5Proxy string

record 'f engine_config =
  ec_max_active_jobs :: u32
  ec_max_connections_total :: u32
  ec_max_connections_per_origin :: u32
  ec_read_buffer_size :: u32
  ec_buffer_pool_max_bytes :: u64
  ec_checkpoint_flush_interval :: duration
  ec_metrics_interval :: duration
  ec_prefer_http2 :: bool
  ec_pool :: pool_config
  ec_h2_policy :: h2_connection_policy
  ec_proxy :: proxy_config
  ec_custom_ca_bundle :: "string option"
  ec_address_filter :: "unit option"
  ec_transfer :: transfer_policy
  ec_retry :: "'f retry_policy"
  ec_network :: network_policy
  ec_write_budget :: write_budget_config
  ec_transfer_memory :: transfer_memory_config
  ec_write_executor :: write_executor_config
  ec_global_rate_limit :: "u64 option"

definition engine_config_default :: "'f f64_ops \<Rightarrow> 'f engine_config" where
  "engine_config_default F =
     \<lparr>ec_max_active_jobs = 64, ec_max_connections_total = 256, ec_max_connections_per_origin = 16,
      ec_read_buffer_size = 128 * 1024, ec_buffer_pool_max_bytes = 128 * 1024 * 1024,
      ec_checkpoint_flush_interval = secs 2, ec_metrics_interval = 500 * 1000000, ec_prefer_http2 = True,
      ec_pool = pool_config_default\<lparr>pc_max_total := 256, pc_max_per_origin := 16\<rparr>, ec_h2_policy = Single,
      ec_proxy = NoProxy, ec_custom_ca_bundle = None, ec_address_filter = None, ec_transfer = transfer_policy_default,
      ec_retry = retry_policy_default F, ec_network = network_policy_default,
      ec_write_budget = write_budget_config_default, ec_transfer_memory = transfer_memory_default,
      ec_write_executor = write_executor_config_default, ec_global_rate_limit = None\<rparr>"

definition engine_config_eq :: "'f engine_config \<Rightarrow> 'f engine_config \<Rightarrow> bool" where
  "engine_config_eq a b \<longleftrightarrow>
     ec_max_active_jobs a = ec_max_active_jobs b
     \<and> ec_max_connections_total a = ec_max_connections_total b
     \<and> ec_max_connections_per_origin a = ec_max_connections_per_origin b
     \<and> ec_read_buffer_size a = ec_read_buffer_size b
     \<and> ec_buffer_pool_max_bytes a = ec_buffer_pool_max_bytes b
     \<and> ec_checkpoint_flush_interval a = ec_checkpoint_flush_interval b
     \<and> ec_metrics_interval a = ec_metrics_interval b
     \<and> ec_prefer_http2 a = ec_prefer_http2 b
     \<and> ec_pool a = ec_pool b
     \<and> ec_h2_policy a = ec_h2_policy b
     \<and> ec_proxy a = ec_proxy b
     \<and> ec_custom_ca_bundle a = ec_custom_ca_bundle b
     \<and> ec_transfer a = ec_transfer b
     \<and> ec_retry a = ec_retry b
     \<and> ec_network a = ec_network b
     \<and> ec_write_budget a = ec_write_budget b
     \<and> ec_write_executor a = ec_write_executor b
     \<and> ec_global_rate_limit a = ec_global_rate_limit b"

section \<open>Validation\<close>

fun components_fit :: "u64 \<Rightarrow> (string \<times> u64) list \<Rightarrow> configuration_error + unit" where
  "components_fit job_max [] = Inr ()"
| "components_fit job_max ((field, value) # rest) =
     (if job_max < value then invalid field ''must be <= transfer_memory.job_max_bytes'' else components_fit job_max rest)"

definition component_fields :: "transfer_memory_config \<Rightarrow> (string \<times> u64) list" where
  "component_fields c =
     [(''transfer_memory.network_ingress_max_bytes'', tm_network_ingress_max_bytes c),
      (''transfer_memory.frames_max_bytes'', tm_frames_max_bytes c),
      (''transfer_memory.writer_max_bytes'', tm_writer_max_bytes c),
      (''transfer_memory.checkpoint_max_bytes'', tm_checkpoint_max_bytes c)]"

definition validate_reservation :: "transfer_memory_config \<Rightarrow> 'f engine_config \<Rightarrow> configuration_error + unit" where
  "validate_reservation c engine =
     (let footprint = connection_ingress_footprint c (ec_read_buffer_size engine);
          reserved = Option.bind (checked_mul (ec_max_connections_total engine) footprint)
            (\<lambda>reserved. checked_add reserved (tm_job_max_bytes c))
      in case reserved of
           None \<Rightarrow> invalid ''transfer_memory.aggregate_max_bytes'' ''connection footprint reservation overflows''
         | Some reserved \<Rightarrow>
             if tm_aggregate_max_bytes c < reserved
             then invalid ''transfer_memory.aggregate_max_bytes''
               ''must fit max_connections_total connection footprints plus one full job cap''
             else Inr ())"

definition validate_write_limits :: "transfer_memory_config \<Rightarrow> 'f engine_config \<Rightarrow> configuration_error + unit" where
  "validate_write_limits c engine =
     (if tm_job_max_bytes c < wc_job_max_bytes (ec_write_budget engine)
      then invalid ''write_budget.job_max_bytes'' ''must be <= transfer_memory.job_max_bytes''
      else if tm_aggregate_max_bytes c < wc_global_max_bytes (ec_write_budget engine)
      then invalid ''write_budget.global_max_bytes'' ''must be <= transfer_memory.aggregate_max_bytes''
      else if tm_writer_max_bytes c < wc_worker_read_ahead_bytes (ec_write_budget engine)
      then invalid ''write_budget.worker_read_ahead_bytes'' ''must be <= transfer_memory.writer_max_bytes''
      else if tm_aggregate_max_bytes c < we_max_queued_bytes (ec_write_executor engine)
      then invalid ''write_executor.max_queued_bytes'' ''must be <= transfer_memory.aggregate_max_bytes''
      else Inr ())"

definition validate_transfer_memory :: "transfer_memory_config \<Rightarrow> 'f engine_config \<Rightarrow> configuration_error + unit" where
  "validate_transfer_memory c engine =
     and_also (all_positive
         ((''transfer_memory.aggregate_max_bytes'', tm_aggregate_max_bytes c)
          # (''transfer_memory.job_max_bytes'', tm_job_max_bytes c) # component_fields c))
    (and_also (components_fit (tm_job_max_bytes c) (component_fields c))
     (let frame = ec_read_buffer_size engine
      in if tm_aggregate_max_bytes c < tm_job_max_bytes c
         then invalid ''transfer_memory.job_max_bytes'' ''must be <= transfer_memory.aggregate_max_bytes''
         else if tm_network_ingress_max_bytes c < frame
         then invalid ''transfer_memory.network_ingress_max_bytes'' ''must be >= read_buffer_size (one ingress frame)''
         else if tm_frames_max_bytes c < frame
         then invalid ''transfer_memory.frames_max_bytes'' ''must be >= read_buffer_size (one owned frame)''
         else if tm_checkpoint_max_bytes c < MIN_CHECKPOINT_BYTES
         then invalid ''transfer_memory.checkpoint_max_bytes'' ''must admit one minimal serialized checkpoint''
         else if tm_aggregate_max_bytes c = u64_max
         then invalid ''transfer_memory.aggregate_max_bytes'' ''must leave headroom below u64::MAX for accounting''
         else and_also (validate_reservation c engine) (validate_write_limits c engine)))"

definition validate_transfer :: "transfer_policy \<Rightarrow> configuration_error + unit" where
  "validate_transfer t =
     (if tp_max_workers t = 0 then invalid ''transfer.max_workers'' ''must be at least 1''
      else if tp_min_workers t = 0 \<or> tp_max_workers t < tp_min_workers t
      then invalid ''transfer.min_workers'' ''must be in 1..=max_workers''
      else if tp_min_segment_size t = 0 then invalid ''transfer.min_segment_size'' ''must be at least 1''
      else if tp_max_segment_size t < tp_min_segment_size t
      then invalid ''transfer.max_segment_size'' ''must be >= min_segment_size''
      else if tp_initial_segment_size t < tp_min_segment_size t \<or> tp_max_segment_size t < tp_initial_segment_size t
      then invalid ''transfer.initial_segment_size'' ''must be within [min_segment_size, max_segment_size]''
      else if tp_auto_oversubscription t = 0 then invalid ''transfer.auto_oversubscription'' ''must be at least 1''
      else Inr ())"

definition validate_retry :: "'f f64_ops \<Rightarrow> 'f retry_policy \<Rightarrow> configuration_error + unit" where
  "validate_retry F r =
     (if rp_max_attempts_per_segment r = 0 then invalid ''retry.max_attempts_per_segment'' ''must be at least 1''
      else if rp_base_delay r = 0 then invalid ''retry.base_delay'' ''must be greater than zero''
      else if rp_max_delay r < rp_base_delay r then invalid ''retry.max_delay'' ''must be >= base_delay''
      else if f_lt F (rp_multiplier r) (f_lit F 1) then invalid ''retry.multiplier'' ''must be >= 1.0''
      else Inr ())"

definition validate_network :: "network_policy \<Rightarrow> configuration_error + unit" where
  "validate_network n =
     all_positive [(''network.connect_timeout'', np_connect_timeout n),
       (''network.tls_handshake_timeout'', np_tls_handshake_timeout n),
       (''network.response_header_timeout'', np_response_header_timeout n),
       (''network.read_idle_timeout'', np_read_idle_timeout n)]"

definition validate_pool :: "pool_config \<Rightarrow> u32 \<Rightarrow> u32 \<Rightarrow> configuration_error + unit" where
  "validate_pool p max_total max_per_origin =
     (if pc_max_total p = 0 \<or> pc_max_per_origin p = 0 then invalid ''pool.max_total/max_per_origin'' ''must be at least 1''
      else if pc_max_total p < pc_max_per_origin p then invalid ''pool.max_per_origin'' ''must be <= pool.max_total''
      else if max_total \<noteq> pc_max_total p \<or> max_per_origin \<noteq> pc_max_per_origin p
      then invalid ''pool.max_total'' ''must match max_connections_total/max_connections_per_origin''
      else if pc_idle_timeout p = 0 then invalid ''pool.idle_timeout'' ''must be greater than zero''
      else Inr ())"

type_synonym uri_port = "string \<Rightarrow> u16 option option option"

definition proxy_url_ok :: "uri_port \<Rightarrow> string \<Rightarrow> bool" where
  "proxy_url_ok parse_uri url =
     (case parse_uri url of
        None \<Rightarrow> False
      | Some None \<Rightarrow> False
      | Some (Some port) \<Rightarrow> 0 < (case port of None \<Rightarrow> 0 | Some p \<Rightarrow> p))"

definition validate_proxy :: "uri_port \<Rightarrow> proxy_config \<Rightarrow> configuration_error + unit" where
  "validate_proxy parse_uri p =
     (case p of
        NoProxy \<Rightarrow> Inr ()
      | HttpProxy url \<Rightarrow> if proxy_url_ok parse_uri url then Inr () else invalid ''proxy.url'' ''must parse as a URI with host and port''
      | Socks5Proxy url \<Rightarrow> if proxy_url_ok parse_uri url then Inr () else invalid ''proxy.url'' ''must parse as a URI with host and port'')"

definition validate_h2 :: "h2_connection_policy \<Rightarrow> configuration_error + unit" where
  "validate_h2 p =
     (case p of Single \<Rightarrow> Inr ()
      | Additional n \<Rightarrow> if n = 0 then invalid ''h2_policy.max_connections'' ''must be at least 1'' else Inr ())"

definition validate_engine_limits :: "'f engine_config \<Rightarrow> configuration_error + unit" where
  "validate_engine_limits c =
     (let w = ec_write_budget c; x = ec_write_executor c
      in if ec_max_active_jobs c = 0 then invalid ''max_active_jobs'' ''must be at least 1''
         else if ec_max_connections_total c = 0 \<or> ec_max_connections_per_origin c = 0
         then invalid ''max_connections_*'' ''must be at least 1''
         else if ec_max_connections_total c < ec_max_connections_per_origin c
         then invalid ''max_connections_per_origin'' ''must be <= max_connections_total''
         else if ec_read_buffer_size c < 4096 then invalid ''read_buffer_size'' ''must be at least 4096''
         else if ec_buffer_pool_max_bytes c < ec_read_buffer_size c
         then invalid ''buffer_pool_max_bytes'' ''must be >= read_buffer_size''
         else if wc_global_max_bytes w = 0 \<or> wc_job_max_bytes w = 0 \<or> wc_worker_read_ahead_bytes w = 0
         then invalid ''write_budget.*'' ''must be greater than zero''
         else if wc_global_max_bytes w < wc_job_max_bytes w
         then invalid ''write_budget.job_max_bytes'' ''must be <= write_budget.global_max_bytes''
         else if ec_global_rate_limit c = Some 0 then invalid ''global_rate_limit'' ''use None for unlimited, not Some(0)''
         else if wc_job_max_bytes w < wc_worker_read_ahead_bytes w
         then invalid ''write_budget.worker_read_ahead_bytes'' ''must be <= write_budget.job_max_bytes''
         else if wc_worker_read_ahead_bytes w < ec_read_buffer_size c
         then invalid ''write_budget.worker_read_ahead_bytes'' ''must be >= read_buffer_size (one frame quantum)''
         else if we_writer_threads x = 0 then invalid ''write_executor.writer_threads'' ''must be at least 1''
         else if we_max_queued_bytes x < ec_read_buffer_size c
         then invalid ''write_executor.max_queued_bytes'' ''must be >= read_buffer_size (one frame quantum)''
         else Inr ())"

definition validate_intervals :: "'f engine_config \<Rightarrow> configuration_error + unit" where
  "validate_intervals c =
     (if ec_checkpoint_flush_interval c = 0 \<or> ec_metrics_interval c = 0
      then invalid ''checkpoint_flush_interval/metrics_interval'' ''must be greater than zero'' else Inr ())"

definition engine_validate :: "'f f64_ops \<Rightarrow> uri_port \<Rightarrow> 'f engine_config \<Rightarrow> configuration_error + unit" where
  "engine_validate F parse_uri c =
     and_also (validate_engine_limits c)
    (and_also (validate_transfer_memory (ec_transfer_memory c) c)
    (and_also (validate_intervals c)
    (and_also (validate_transfer (ec_transfer c))
    (and_also (validate_retry F (ec_retry c))
    (and_also (validate_network (ec_network c))
    (and_also (validate_pool (ec_pool c) (ec_max_connections_total c) (ec_max_connections_per_origin c))
    (and_also (validate_proxy parse_uri (ec_proxy c)) (validate_h2 (ec_h2_policy c)))))))))"

definition is_ascii_hexdigit :: "char \<Rightarrow> bool" where
  "is_ascii_hexdigit c =
     (let k = (of_char c :: nat) in (48 \<le> k \<and> k \<le> 57) \<or> (65 \<le> k \<and> k \<le> 70) \<or> (97 \<le> k \<and> k \<le> 102))"

fun algorithm_label :: "hash_algorithm \<Rightarrow> string" where
  "algorithm_label Sha256 = ''sha256''"
| "algorithm_label Sha512 = ''sha512''"

fun validate_hashes :: "expected_hash list \<Rightarrow> configuration_error + unit" where
  "validate_hashes [] = Inr ()"
| "validate_hashes (h # hs) =
     (let want = digest_len (eh_algorithm h) * 2
      in if length (eh_hex h) \<noteq> want \<or> \<not> list_all is_ascii_hexdigit (eh_hex h)
         then invalid ''integrity.expected_hashes''
           (algorithm_label (eh_algorithm h) @ '' digest must be '' @ show_u64 want @ '' hex chars'')
         else validate_hashes hs)"

definition integrity_validate :: "integrity_policy \<Rightarrow> configuration_error + unit" where
  "integrity_validate p = validate_hashes (ip_expected_hashes p)"

section \<open>What a valid configuration guarantees\<close>

lemma invalid_not_ok [simp]: "invalid field reason \<noteq> Inr u"
  by (simp add: invalid_def)

lemma guard_ok [simp]: "(if c then invalid field reason else k) = Inr u \<longleftrightarrow> \<not> c \<and> k = Inr u"
  by simp

lemma and_also_ok [simp]: "and_also r k = Inr u \<longleftrightarrow> r = Inr () \<and> k = Inr u"
  by (cases r) (simp_all add: and_also_def)

lemma all_positive_ok [simp]: "all_positive fs = Inr u \<longleftrightarrow> (\<forall>f\<in>set fs. 0 < snd f)"
  by (induction fs rule: all_positive.induct) auto

lemma components_fit_ok [simp]: "components_fit job_max fs = Inr u \<longleftrightarrow> (\<forall>f\<in>set fs. snd f \<le> job_max)"
  by (induction job_max fs rule: components_fit.induct) auto

lemma validate_hashes_ok:
  "validate_hashes hs = Inr u \<longleftrightarrow>
   (\<forall>h\<in>set hs. length (eh_hex h) = 2 * digest_len (eh_algorithm h) \<and> list_all is_ascii_hexdigit (eh_hex h))"
  by (induction hs) (auto simp: Let_def)

lemma footprint_exact:
  assumes "read_buffer_size \<le> u32_max"
  shows "connection_ingress_footprint c read_buffer_size
    = max (min INGRESS_WINDOW_CAP (tm_network_ingress_max_bytes c)) (min read_buffer_size (tm_network_ingress_max_bytes c))
      + min (64 * 1024) (tm_network_ingress_max_bytes c)"
  unfolding connection_ingress_footprint_def Let_def
  by (rule u64_add_exact) (use assms in \<open>auto simp: u64_max_def u32_max_def INGRESS_WINDOW_CAP_def\<close>)

lemma validate_reservation_ok:
  "validate_reservation c engine = Inr u \<Longrightarrow>
   connection_ingress_reserve c (ec_read_buffer_size engine) (ec_max_connections_total engine) + tm_job_max_bytes c
     \<le> tm_aggregate_max_bytes c"
  by (auto simp: validate_reservation_def connection_ingress_reserve_def checked_mul_def checked_add_def sat_mul_def
      Let_def mult.commute bind_eq_Some_conv split: if_splits option.splits)

text \<open>
  A configuration that validates can carry a transfer. One frame of the read buffer fits the
  ingress, frame and writer components and every write budget; the components fit the job cap; the
  job cap still fits the aggregate after the reserve for all connections is taken out of it; and the
  segment bounds, the worker bounds and the retry policy are not contradictory.
\<close>

lemma config_feasible:
  assumes "engine_validate F parse_uri c = Inr ()"
  defines "m \<equiv> ec_transfer_memory c" and "w \<equiv> ec_write_budget c" and "t \<equiv> ec_transfer c" and "b \<equiv> ec_read_buffer_size c"
  shows "4096 \<le> b \<and> b \<le> tm_network_ingress_max_bytes m \<and> b \<le> tm_frames_max_bytes m \<and> b \<le> tm_writer_max_bytes m
    \<and> (\<forall>f\<in>set (component_fields m). 0 < snd f \<and> snd f \<le> tm_job_max_bytes m)
    \<and> tm_job_max_bytes m \<le> tm_aggregate_max_bytes m - connection_ingress_reserve m b (ec_max_connections_total c)
    \<and> b \<le> wc_worker_read_ahead_bytes w \<and> wc_worker_read_ahead_bytes w \<le> wc_job_max_bytes w
    \<and> wc_job_max_bytes w \<le> wc_global_max_bytes w \<and> wc_worker_read_ahead_bytes w \<le> tm_writer_max_bytes m
    \<and> 1 \<le> tp_min_segment_size t \<and> tp_min_segment_size t \<le> tp_initial_segment_size t
    \<and> tp_initial_segment_size t \<le> tp_max_segment_size t \<and> 1 \<le> tp_min_workers t \<and> tp_min_workers t \<le> tp_max_workers t
    \<and> 1 \<le> rp_max_attempts_per_segment (ec_retry c) \<and> rp_base_delay (ec_retry c) \<le> rp_max_delay (ec_retry c)"
proof -
  have v: "validate_engine_limits c = Inr ()" "validate_transfer_memory m c = Inr ()" "validate_transfer t = Inr ()"
    "validate_retry F (ec_retry c) = Inr ()"
    using assms(1) by (simp_all add: engine_validate_def m_def t_def)
  have limits: "4096 \<le> b" "b \<le> wc_worker_read_ahead_bytes w" "wc_worker_read_ahead_bytes w \<le> wc_job_max_bytes w"
    "wc_job_max_bytes w \<le> wc_global_max_bytes w"
    using v(1) by (simp_all add: validate_engine_limits_def Let_def b_def w_def)
  have memory: "b \<le> tm_network_ingress_max_bytes m" "b \<le> tm_frames_max_bytes m"
    "\<forall>f\<in>set (component_fields m). 0 < snd f \<and> snd f \<le> tm_job_max_bytes m"
    and parts: "validate_reservation m c = Inr ()" "validate_write_limits m c = Inr ()"
    using v(2) by (simp_all add: validate_transfer_memory_def Let_def b_def)
  have "wc_worker_read_ahead_bytes w \<le> tm_writer_max_bytes m"
    using parts(2) by (simp add: validate_write_limits_def w_def)
  moreover from this have "b \<le> tm_writer_max_bytes m" using limits(2) by (rule le_trans [rotated])
  moreover have "tm_job_max_bytes m \<le> tm_aggregate_max_bytes m - connection_ingress_reserve m b (ec_max_connections_total c)"
    using validate_reservation_ok [OF parts(1)] by (simp add: b_def)
  moreover have "1 \<le> tp_min_segment_size t \<and> tp_min_segment_size t \<le> tp_initial_segment_size t
    \<and> tp_initial_segment_size t \<le> tp_max_segment_size t \<and> 1 \<le> tp_min_workers t \<and> tp_min_workers t \<le> tp_max_workers t"
    using v(3) by (simp add: validate_transfer_def)
  moreover have "1 \<le> rp_max_attempts_per_segment (ec_retry c) \<and> rp_base_delay (ec_retry c) \<le> rp_max_delay (ec_retry c)"
    using v(4) by (simp add: validate_retry_def)
  ultimately show ?thesis using limits memory by blast
qed

text \<open>The default configuration validates.\<close>

lemma default_config_valid: "engine_validate rat_ops parse_uri (engine_config_default rat_ops) = Inr ()"
  by (simp add: engine_validate_def validate_engine_limits_def validate_transfer_memory_def validate_reservation_def
      validate_write_limits_def validate_intervals_def validate_transfer_def validate_retry_def validate_network_def
      validate_pool_def validate_proxy_def validate_h2_def engine_config_default_def component_fields_def
      connection_ingress_footprint_def transfer_memory_default_def write_budget_config_default_def
      write_executor_config_default_def transfer_policy_default_def retry_policy_default_def network_policy_default_def
      pool_config_default_def secs_def u64_defs u64_max_def INGRESS_WINDOW_CAP_def MIN_CHECKPOINT_BYTES_def rat_ops_def)

text \<open>
  Equality of configurations, exactly. Two engine configurations compare equal if and only
  if they agree on everything but the address filter and the transfer-memory limits.
\<close>

lemma config_eq_exact:
  "engine_config_eq a b \<longleftrightarrow> (\<exists>filter memory. b = a\<lparr>ec_address_filter := filter, ec_transfer_memory := memory\<rparr>)"
proof
  assume "engine_config_eq a b"
  then have "b = a\<lparr>ec_address_filter := ec_address_filter b, ec_transfer_memory := ec_transfer_memory b\<rparr>"
    by (simp add: engine_config_eq_def engine_config.equality)
  then show "\<exists>filter memory. b = a\<lparr>ec_address_filter := filter, ec_transfer_memory := memory\<rparr>" by blast
qed (auto simp: engine_config_eq_def)

end
