(* ===== verification/Ledger_Pool.thy ===== *)
theory Ledger_Pool
  imports Kdown_Prelude
begin

text \<open>
  The fair byte pool of the transfer-memory ledger (\<open>io/transfer_ledger.rs\<close>, \<open>Pool\<close>, \<open>Ticket\<close> and
  \<open>acquire_fair\<close>): its counter operations, and the futures that wait for capacity in FIFO order. Each
  critical section of the pool's mutex is one step, and so is each notification, which the source
  sends after it has left the critical section.
\<close>

section \<open>Components and refusals\<close>

datatype component = NetworkIngress | Frames | Writer | Checkpoint

definition component_all :: "component list" where
  "component_all = [NetworkIngress, Frames, Writer, Checkpoint]"

fun component_index :: "component \<Rightarrow> nat" where
  "component_index NetworkIngress = 0"
| "component_index Frames = 1"
| "component_index Writer = 2"
| "component_index Checkpoint = 3"

fun component_name :: "component \<Rightarrow> string" where
  "component_name NetworkIngress = ''network_ingress''"
| "component_name Frames = ''frames''"
| "component_name Writer = ''writer''"
| "component_name Checkpoint = ''checkpoint''"

record oversize_refusal =
  or_component :: component
  or_requested :: u64
  or_cap :: u64

datatype ledger_refusal = Oversize oversize_refusal | NoCapacity component

datatype probe = Acquired | ProbeOversize oversize_refusal | Full

section \<open>The pool\<close>

text \<open>A waiter is the \<open>Notify\<close> object its ticket allocated; the queue holds their identities.\<close>

record ledger_pool =
  po_cap :: u64
  po_outstanding :: u64
  po_high_water :: u64
  po_waiters :: "nat list"

definition pool_new :: "u64 \<Rightarrow> ledger_pool" where
  "pool_new cap = \<lparr>po_cap = cap, po_outstanding = 0, po_high_water = 0, po_waiters = []\<rparr>"

definition acquire_locked :: "bool \<Rightarrow> u64 \<Rightarrow> ledger_pool \<Rightarrow> (probe \<times> ledger_pool) outcome" where
  "acquire_locked dbg bytes p =
     (if dbg \<and> po_cap p < bytes then Panic
      else Done (case checked_add (po_outstanding p) bytes of
          None \<Rightarrow> (Full, p)
        | Some new \<Rightarrow>
            if po_cap p < new then (Full, p)
            else (Acquired, p\<lparr>po_outstanding := new, po_high_water := max (po_high_water p) new\<rparr>)))"

definition probe_and_acquire :: "bool \<Rightarrow> u64 \<Rightarrow> ledger_pool \<Rightarrow> (probe \<times> ledger_pool) outcome" where
  "probe_and_acquire dbg bytes p =
     (if po_cap p < bytes
      then Done (ProbeOversize \<lparr>or_component = Frames, or_requested = bytes, or_cap = po_cap p\<rparr>, p)
      else if po_waiters p \<noteq> [] then Done (Full, p)
      else acquire_locked dbg bytes p)"

definition ticket_register :: "nat \<Rightarrow> ledger_pool \<Rightarrow> ledger_pool" where
  "ticket_register t p = p\<lparr>po_waiters := po_waiters p @ [t]\<rparr>"

definition front :: "nat list \<Rightarrow> nat option" where
  "front ws = (case ws of [] \<Rightarrow> None | w # _ \<Rightarrow> Some w)"

text \<open>\<open>deregister\<close> of a queued ticket: the waiter to notify comes with the pool.\<close>

definition ticket_deregister :: "nat \<Rightarrow> ledger_pool \<Rightarrow> ledger_pool \<times> nat option" where
  "ticket_deregister t p =
     (let p' = p\<lparr>po_waiters := remove1 t (po_waiters p)\<rparr> in (p', front (po_waiters p')))"

definition poll_head :: "bool \<Rightarrow> nat \<Rightarrow> u64 \<Rightarrow> ledger_pool \<Rightarrow> (probe \<times> ledger_pool) outcome" where
  "poll_head dbg t bytes p =
     (if front (po_waiters p) \<noteq> Some t then Done (Full, p) else acquire_locked dbg bytes p)"

definition pool_release :: "bool \<Rightarrow> u64 \<Rightarrow> ledger_pool \<Rightarrow> (ledger_pool \<times> nat option) outcome" where
  "pool_release dbg bytes p =
     (if bytes = 0 then Done (p, None)
      else if dbg \<and> po_outstanding p < bytes then Panic
      else Done (p\<lparr>po_outstanding := u64_sub (po_outstanding p) bytes\<rparr>, front (po_waiters p)))"

section \<open>Waiting futures\<close>

text \<open>
  Where a call of \<open>acquire_fair\<close> stands: about to take a ticket, about to poll the queue, suspended in
  \<open>notified.await\<close>, charged but still queued, or finished with the bytes it holds. Future \<open>t\<close> of a pool
  has ticket \<open>t\<close>.
\<close>

datatype fair_pc = FRegister u64 | FPoll u64 | FSleep u64 | FLeave u64 | FHeld u64 | FGone

record pool_run =
  pq_pool :: ledger_pool
  pq_futures :: "fair_pc list"
  pq_permits :: "nat set"
  pq_notifying :: "nat list"

definition goto :: "nat \<Rightarrow> fair_pc \<Rightarrow> ledger_pool \<Rightarrow> nat option \<Rightarrow> pool_run \<Rightarrow> pool_run" where
  "goto t pc p n x =
     x\<lparr>pq_pool := p, pq_futures := (pq_futures x)[t := pc],
       pq_notifying := (case n of None \<Rightarrow> pq_notifying x | Some w \<Rightarrow> w # pq_notifying x)\<rparr>"

definition spawn :: "fair_pc \<Rightarrow> ledger_pool \<Rightarrow> pool_run \<Rightarrow> pool_run" where
  "spawn pc p x = x\<lparr>pq_pool := p, pq_futures := pq_futures x @ [pc]\<rparr>"

abbreviation at_pc :: "pool_run \<Rightarrow> nat \<Rightarrow> fair_pc \<Rightarrow> bool" where
  "at_pc x t pc \<equiv> t < length (pq_futures x) \<and> pq_futures x ! t = pc"

fun after_probe :: "u64 \<Rightarrow> probe \<Rightarrow> fair_pc" where
  "after_probe n Acquired = FHeld n"
| "after_probe n (ProbeOversize r) = FGone"
| "after_probe n Full = FRegister n"

fun after_poll :: "u64 \<Rightarrow> probe \<Rightarrow> fair_pc" where
  "after_poll n Acquired = FLeave n"
| "after_poll n r = FSleep n"

inductive pool_step :: "pool_run \<Rightarrow> pool_run outcome \<Rightarrow> bool" where
  start: "pool_step x (map_outcome (\<lambda>(r, p). spawn (after_probe n r) p x) (probe_and_acquire True n (pq_pool x)))"
| register: "at_pc x t (FRegister n) \<Longrightarrow>
    pool_step x (Done (goto t (FPoll n) (ticket_register t (pq_pool x)) None x))"
| poll: "at_pc x t (FPoll n) \<Longrightarrow>
    pool_step x (map_outcome (\<lambda>(r, p). goto t (after_poll n r) p None x) (poll_head True t n (pq_pool x)))"
| wake: "at_pc x t (FSleep n) \<Longrightarrow> t \<in> pq_permits x \<Longrightarrow>
    pool_step x (Done ((goto t (FPoll n) (pq_pool x) None x)\<lparr>pq_permits := pq_permits x - {t}\<rparr>))"
| leave: "at_pc x t (FLeave n) \<Longrightarrow> ticket_deregister t (pq_pool x) = (p, w) \<Longrightarrow>
    pool_step x (Done (goto t (FHeld n) p w x))"
| cancel: "at_pc x t (FSleep n) \<Longrightarrow> ticket_deregister t (pq_pool x) = (p, w) \<Longrightarrow>
    pool_step x (Done (goto t FGone p w x))"
| give_back: "at_pc x t (FHeld n) \<Longrightarrow> m \<le> n \<Longrightarrow>
    pool_step x (map_outcome (\<lambda>(p, w). goto t (FHeld (n - m)) p w x) (pool_release True m (pq_pool x)))"
| notify: "t \<in> set (pq_notifying x) \<Longrightarrow>
    pool_step x (Done (x\<lparr>pq_permits := insert t (pq_permits x), pq_notifying := remove1 t (pq_notifying x)\<rparr>))"

definition pool_start :: "u64 \<Rightarrow> pool_run" where
  "pool_start cap = \<lparr>pq_pool = pool_new cap, pq_futures = [], pq_permits = {}, pq_notifying = []\<rparr>"

inductive pool_reach :: "u64 \<Rightarrow> pool_run \<Rightarrow> bool" for cap where
  init: "pool_reach cap (pool_start cap)"
| step: "pool_reach cap x \<Longrightarrow> pool_step x (Done y) \<Longrightarrow> pool_reach cap y"

section \<open>The invariant\<close>

fun charge :: "fair_pc \<Rightarrow> nat" where
  "charge (FHeld n) = n"
| "charge (FLeave n) = n"
| "charge _ = 0"

fun request :: "fair_pc \<Rightarrow> nat" where
  "request (FRegister n) = n"
| "request (FPoll n) = n"
| "request (FSleep n) = n"
| "request _ = 0"

fun queued :: "fair_pc \<Rightarrow> bool" where
  "queued (FPoll n) = True"
| "queued (FSleep n) = True"
| "queued (FLeave n) = True"
| "queued _ = False"

fun leaving :: "fair_pc \<Rightarrow> bool" where
  "leaving (FLeave n) = True"
| "leaving _ = False"

fun sleeping :: "fair_pc \<Rightarrow> bool" where
  "sleeping (FSleep n) = True"
| "sleeping _ = False"

definition counted :: "u64 \<Rightarrow> pool_run \<Rightarrow> bool" where
  "counted cap x \<longleftrightarrow>
     po_cap (pq_pool x) = cap
     \<and> po_outstanding (pq_pool x) = sum_list (map charge (pq_futures x))
     \<and> po_outstanding (pq_pool x) \<le> po_high_water (pq_pool x) \<and> po_high_water (pq_pool x) \<le> cap
     \<and> (\<forall>pc\<in>set (pq_futures x). request pc \<le> cap)"

definition queue_ok :: "pool_run \<Rightarrow> bool" where
  "queue_ok x \<longleftrightarrow>
     distinct (po_waiters (pq_pool x))
     \<and> (\<forall>t. t \<in> set (po_waiters (pq_pool x)) \<longleftrightarrow> t < length (pq_futures x) \<and> queued (pq_futures x ! t))
     \<and> (\<forall>t < length (pq_futures x). leaving (pq_futures x ! t) \<longrightarrow> front (po_waiters (pq_pool x)) = Some t)"

definition woken :: "pool_run \<Rightarrow> bool" where
  "woken x \<longleftrightarrow>
     (\<forall>t. front (po_waiters (pq_pool x)) = Some t \<and> sleeping (pq_futures x ! t)
        \<and> po_outstanding (pq_pool x) + request (pq_futures x ! t) \<le> po_cap (pq_pool x)
        \<longrightarrow> t \<in> pq_permits x \<union> set (pq_notifying x))"

lemma front_Some: "front ws = Some w \<longleftrightarrow> (\<exists>rest. ws = w # rest)"
  by (cases ws) (auto simp: front_def)

lemma front_remove1: "front ws = Some h \<Longrightarrow> h \<noteq> t \<Longrightarrow> front (remove1 t ws) = Some h"
  by (auto simp: front_Some)

lemma front_append: "front ws = Some h \<Longrightarrow> front (ws @ us) = Some h"
  by (auto simp: front_Some)

lemma goto_fields [simp]:
  "pq_pool (goto t pc p w x) = p" "pq_futures (goto t pc p w x) = (pq_futures x)[t := pc]"
  "pq_permits (goto t pc p w x) = pq_permits x"
  "set (pq_notifying (goto t pc p w x)) = set_option w \<union> set (pq_notifying x)"
  by (auto simp: goto_def split: option.splits)

lemma spawn_fields [simp]:
  "pq_pool (spawn pc p x) = p" "pq_futures (spawn pc p x) = pq_futures x @ [pc]"
  "pq_permits (spawn pc p x) = pq_permits x" "pq_notifying (spawn pc p x) = pq_notifying x"
  by (simp_all add: spawn_def)

lemma deregister_fields:
  "ticket_deregister t p = (p', w) \<Longrightarrow> po_cap p' = po_cap p \<and> po_outstanding p' = po_outstanding p
     \<and> po_high_water p' = po_high_water p \<and> po_waiters p' = remove1 t (po_waiters p) \<and> w = front (po_waiters p')"
  by (auto simp: ticket_deregister_def Let_def)

lemma register_fields [simp]:
  "po_cap (ticket_register t p) = po_cap p" "po_outstanding (ticket_register t p) = po_outstanding p"
  "po_high_water (ticket_register t p) = po_high_water p" "po_waiters (ticket_register t p) = po_waiters p @ [t]"
  by (simp_all add: ticket_register_def)

text \<open>What a charge does to the pool, whichever way it was admitted.\<close>

definition charged :: "u64 \<Rightarrow> ledger_pool \<Rightarrow> ledger_pool \<Rightarrow> bool" where
  "charged n p p' \<longleftrightarrow>
     po_cap p' = po_cap p \<and> po_waiters p' = po_waiters p \<and> po_outstanding p' = po_outstanding p + n
     \<and> po_outstanding p' \<le> po_cap p \<and> po_high_water p' = max (po_high_water p) (po_outstanding p')"

definition charge_pool :: "u64 \<Rightarrow> ledger_pool \<Rightarrow> ledger_pool" where
  "charge_pool n p = p\<lparr>po_outstanding := po_outstanding p + n, po_high_water := max (po_high_water p) (po_outstanding p + n)\<rparr>"

lemma charged_charge_pool: "po_outstanding p + n \<le> po_cap p \<Longrightarrow> charged n p (charge_pool n p)"
  by (simp add: charged_def charge_pool_def)

lemma acquire_locked_eq:
  assumes "n \<le> po_cap p" "po_cap p \<le> u64_max"
  shows "acquire_locked dbg n p = Done (if po_outstanding p + n \<le> po_cap p then (Acquired, charge_pool n p) else (Full, p))"
  using assms by (auto simp: acquire_locked_def checked_add_def charge_pool_def)

lemma probe_cases:
  assumes "po_cap p \<le> u64_max"
  obtains p' where "probe_and_acquire dbg n p = Done (Acquired, p')" "charged n p p'" "po_waiters p = []"
  | "probe_and_acquire dbg n p = Done (Full, p)" "n \<le> po_cap p" "po_waiters p \<noteq> [] \<or> po_cap p < po_outstanding p + n"
  | r where "probe_and_acquire dbg n p = Done (ProbeOversize r, p)" "po_cap p < n"
proof (cases "n \<le> po_cap p")
  case True
  note eq = acquire_locked_eq [OF True assms, of dbg]
  show thesis
  proof (cases "po_waiters p = [] \<and> po_outstanding p + n \<le> po_cap p")
    case fits: True
    then have "probe_and_acquire dbg n p = Done (Acquired, charge_pool n p)"
      using True by (simp add: probe_and_acquire_def eq)
    then show thesis using that(1) charged_charge_pool fits by blast
  next
    case False
    then have "probe_and_acquire dbg n p = Done (Full, p)" using True by (auto simp: probe_and_acquire_def eq)
    then show thesis using that(2) True False by force
  qed
next
  case False
  then have "probe_and_acquire dbg n p = Done (ProbeOversize \<lparr>or_component = Frames, or_requested = n, or_cap = po_cap p\<rparr>, p)"
    by (simp add: probe_and_acquire_def)
  then show thesis using that(3) False by force
qed

lemma poll_head_cases:
  assumes "n \<le> po_cap p" "po_cap p \<le> u64_max"
  obtains p' where "poll_head dbg t n p = Done (Acquired, p')" "charged n p p'" "front (po_waiters p) = Some t"
  | "poll_head dbg t n p = Done (Full, p)" "front (po_waiters p) = Some t \<Longrightarrow> po_cap p < po_outstanding p + n"
proof (cases "front (po_waiters p) = Some t \<and> po_outstanding p + n \<le> po_cap p")
  case True
  then have "poll_head dbg t n p = Done (Acquired, charge_pool n p)"
    by (simp add: poll_head_def acquire_locked_eq [OF assms])
  then show thesis using that(1) charged_charge_pool True by blast
next
  case False
  then have "poll_head dbg t n p = Done (Full, p)" by (auto simp: poll_head_def acquire_locked_eq [OF assms])
  then show thesis using that(2) False by force
qed

lemma pool_release_cases:
  assumes "n \<le> po_outstanding p" "po_outstanding p \<le> u64_max"
  obtains p' w where "pool_release dbg n p = Done (p', w)" "po_cap p' = po_cap p" "po_waiters p' = po_waiters p"
    "po_outstanding p' + n = po_outstanding p" "po_high_water p' = po_high_water p"
    "n = 0 \<or> w = front (po_waiters p)"
proof (cases "n = 0")
  case True
  then show thesis using that [of p None] by (simp add: pool_release_def)
next
  case False
  then have "pool_release dbg n p = Done (p\<lparr>po_outstanding := po_outstanding p - n\<rparr>, front (po_waiters p))"
    using assms by (simp add: pool_release_def u64_exact)
  then show thesis by (rule that) (use assms in simp_all)
qed

section \<open>Every step keeps the invariant\<close>

lemma counted_goto:
  assumes "counted cap x" "t < length (pq_futures x)" "po_cap p = cap"
    and "po_outstanding p + charge (pq_futures x ! t) = po_outstanding (pq_pool x) + charge pc"
    and "po_outstanding p \<le> po_high_water p" "po_high_water p \<le> cap" "request pc \<le> cap"
  shows "counted cap (goto t pc p w x)"
  using assms sum_list_map_update [OF assms(2), of charge pc] set_update_subset_insert [of "pq_futures x" t pc]
  by (auto simp: counted_def)

lemma counted_spawn:
  assumes "counted cap x" "po_cap p = cap" "po_outstanding p = po_outstanding (pq_pool x) + charge pc"
    and "po_outstanding p \<le> po_high_water p" "po_high_water p \<le> cap" "request pc \<le> cap"
  shows "counted cap (spawn pc p x)"
  using assms by (auto simp: counted_def)

lemma queue_stay:
  assumes "queue_ok x" "t < length (pq_futures x)" "queued pc = queued (pq_futures x ! t)"
    and "po_waiters p = po_waiters (pq_pool x)" "leaving pc \<Longrightarrow> front (po_waiters p) = Some t"
  shows "queue_ok (goto t pc p w x)"
  using assms by (auto simp: queue_ok_def nth_list_update)

lemma queue_enter:
  assumes "queue_ok x" "t < length (pq_futures x)" "\<not> queued (pq_futures x ! t)" "queued pc" "\<not> leaving pc"
    and "po_waiters p = po_waiters (pq_pool x) @ [t]"
  shows "queue_ok (goto t pc p w x)"
  using assms by (auto simp: queue_ok_def nth_list_update front_append)

lemma queue_exit:
  assumes "queue_ok x" "t < length (pq_futures x)" "\<not> queued pc"
    and "po_waiters p = remove1 t (po_waiters (pq_pool x))"
  shows "queue_ok (goto t pc p w x)"
proof -
  have "leaving pc \<Longrightarrow> queued pc" by (cases pc) auto
  then show ?thesis using assms by (auto simp: queue_ok_def nth_list_update front_remove1)
qed

lemma queue_spawn:
  assumes "queue_ok x" "\<not> queued pc" "po_waiters p = po_waiters (pq_pool x)"
  shows "queue_ok (spawn pc p x)"
proof -
  have "leaving pc \<Longrightarrow> queued pc" by (cases pc) auto
  then show ?thesis using assms by (auto simp: queue_ok_def nth_append)
qed

lemma woken_notified: "w = front (po_waiters p) \<Longrightarrow> woken (goto t pc p w x)"
  by (auto simp: woken_def)

lemma woken_kept:
  assumes "woken x" "po_cap p = po_cap (pq_pool x)" "po_outstanding (pq_pool x) \<le> po_outstanding p"
    and "\<And>h. front (po_waiters p) = Some h \<Longrightarrow> h = t \<or> front (po_waiters (pq_pool x)) = Some h"
    and "front (po_waiters p) = Some t \<Longrightarrow> sleeping pc \<Longrightarrow> po_cap p < po_outstanding p + request pc"
    and "t < length (pq_futures x)"
  shows "woken (goto t pc p w x)"
  unfolding woken_def goto_fields
proof (intro allI impI)
  fix h assume h: "front (po_waiters p) = Some h \<and> sleeping ((pq_futures x)[t := pc] ! h)
    \<and> po_outstanding p + request ((pq_futures x)[t := pc] ! h) \<le> po_cap p"
  then have "h \<noteq> t" using assms(5,6) by force
  then have "front (po_waiters (pq_pool x)) = Some h \<and> sleeping (pq_futures x ! h)
    \<and> po_outstanding (pq_pool x) + request (pq_futures x ! h) \<le> po_cap (pq_pool x)"
    using h assms(2,3,4) by fastforce
  then show "h \<in> pq_permits x \<union> (set_option w \<union> set (pq_notifying x))" using assms(1) by (auto simp: woken_def)
qed

lemma woken_spawn:
  assumes "woken x" "queue_ok x" "po_cap p = po_cap (pq_pool x)" "po_outstanding (pq_pool x) \<le> po_outstanding p"
    and "po_waiters p = po_waiters (pq_pool x)"
  shows "woken (spawn pc p x)"
proof -
  have "front (po_waiters (pq_pool x)) = Some h \<Longrightarrow> h < length (pq_futures x)" for h
    using assms(2) by (auto simp: queue_ok_def front_Some)
  then show ?thesis using assms(1,3,4,5) by (auto simp: woken_def nth_append)
qed

definition pool_inv :: "u64 \<Rightarrow> pool_run \<Rightarrow> bool" where
  "pool_inv cap x \<longleftrightarrow> counted cap x \<and> queue_ok x \<and> woken x"

lemma pool_inv_start: "pool_inv cap (pool_start cap)"
  by (simp add: pool_inv_def counted_def queue_ok_def woken_def pool_start_def pool_new_def front_def)

lemma pool_inv_request: "pool_inv cap x \<Longrightarrow> t < length (pq_futures x) \<Longrightarrow> request (pq_futures x ! t) \<le> cap"
  by (simp add: pool_inv_def counted_def)

lemma pool_inv_cap: "pool_inv cap x \<Longrightarrow> po_cap (pq_pool x) = cap"
  by (simp add: pool_inv_def counted_def)

lemma pool_inv_high:
  "pool_inv cap x \<Longrightarrow> po_outstanding (pq_pool x) \<le> po_high_water (pq_pool x) \<and> po_high_water (pq_pool x) \<le> cap"
  by (simp add: pool_inv_def counted_def)

lemma pool_inv_charge:
  "pool_inv cap x \<Longrightarrow> t < length (pq_futures x) \<Longrightarrow> charge (pq_futures x ! t) \<le> po_outstanding (pq_pool x)"
  by (simp add: pool_inv_def counted_def sum_list_map_nth_le)

lemma start_ok:
  assumes inv: "pool_inv cap x" and mx: "cap \<le> u64_max"
  shows "\<exists>r p. probe_and_acquire True n (pq_pool x) = Done (r, p) \<and> pool_inv cap (spawn (after_probe n r) p x)"
proof -
  note c = pool_inv_cap [OF inv] and h = pool_inv_high [OF inv]
  have parts: "counted cap x" "queue_ok x" "woken x" using inv by (simp_all add: pool_inv_def)
  have le: "po_cap (pq_pool x) \<le> u64_max" using c mx by simp
  show ?thesis
  proof (cases rule: probe_cases [OF le, of True n])
    case (1 p')
    then have "counted cap (spawn (FHeld n) p' x)"
      using parts(1) c h by (intro counted_spawn) (auto simp: charged_def)
    moreover have "queue_ok (spawn (FHeld n) p' x)" using parts(2) 1 by (intro queue_spawn) (auto simp: charged_def)
    moreover have "woken (spawn (FHeld n) p' x)" using parts 1 by (intro woken_spawn) (auto simp: charged_def)
    ultimately show ?thesis using 1(1) by (auto simp: pool_inv_def)
  next
    case 2
    then have "counted cap (spawn (FRegister n) (pq_pool x) x)" using parts(1) c h by (intro counted_spawn) auto
    moreover have "queue_ok (spawn (FRegister n) (pq_pool x) x)" using parts(2) by (intro queue_spawn) auto
    moreover have "woken (spawn (FRegister n) (pq_pool x) x)" using parts by (intro woken_spawn) auto
    ultimately show ?thesis using 2(1) by (auto simp: pool_inv_def)
  next
    case (3 r)
    then have "counted cap (spawn FGone (pq_pool x) x)" using parts(1) c h by (intro counted_spawn) auto
    moreover have "queue_ok (spawn FGone (pq_pool x) x)" using parts(2) by (intro queue_spawn) auto
    moreover have "woken (spawn FGone (pq_pool x) x)" using parts by (intro woken_spawn) auto
    ultimately show ?thesis using 3(1) by (auto simp: pool_inv_def)
  qed
qed

lemma poll_ok:
  assumes inv: "pool_inv cap x" and mx: "cap \<le> u64_max" and t: "at_pc x t (FPoll n)"
  shows "\<exists>r p. poll_head True t n (pq_pool x) = Done (r, p) \<and> pool_inv cap (goto t (after_poll n r) p None x)"
proof -
  note c = pool_inv_cap [OF inv] and h = pool_inv_high [OF inv]
  have parts: "counted cap x" "queue_ok x" "woken x" using inv by (simp_all add: pool_inv_def)
  have le: "n \<le> po_cap (pq_pool x)" "po_cap (pq_pool x) \<le> u64_max"
    using pool_inv_request [OF inv, of t] t c mx by auto
  show ?thesis
  proof (cases rule: poll_head_cases [OF le, of True t])
    case (1 p')
    have "counted cap (goto t (FLeave n) p' None x)"
      using parts(1) t c h 1 by (intro counted_goto) (auto simp: charged_def)
    moreover have "queue_ok (goto t (FLeave n) p' None x)"
      using parts(2) t 1 by (intro queue_stay) (auto simp: charged_def)
    moreover have "woken (goto t (FLeave n) p' None x)"
      using parts(3) t 1 by (intro woken_kept) (auto simp: charged_def)
    ultimately show ?thesis using 1(1) by (auto simp: pool_inv_def)
  next
    case 2
    have "counted cap (goto t (FSleep n) (pq_pool x) None x)"
      using parts(1) t c h le by (intro counted_goto) auto
    moreover have "queue_ok (goto t (FSleep n) (pq_pool x) None x)" using parts(2) t by (intro queue_stay) auto
    moreover have "woken (goto t (FSleep n) (pq_pool x) None x)"
      using parts(3) t 2(2) by (intro woken_kept) auto
    ultimately show ?thesis using 2(1) by (auto simp: pool_inv_def)
  qed
qed

lemma exit_ok:
  assumes inv: "pool_inv cap x" and t: "t < length (pq_futures x)"
    and d: "ticket_deregister t (pq_pool x) = (p, w)" and pc: "\<not> queued pc" "charge pc = charge (pq_futures x ! t)" "request pc = 0"
  shows "pool_inv cap (goto t pc p w x)"
proof -
  note c = pool_inv_cap [OF inv] and h = pool_inv_high [OF inv] and f = deregister_fields [OF d]
  have "counted cap (goto t pc p w x)" using inv t c h f pc by (intro counted_goto) (auto simp: pool_inv_def)
  moreover have "queue_ok (goto t pc p w x)" using inv t f pc by (intro queue_exit) (auto simp: pool_inv_def)
  moreover have "woken (goto t pc p w x)" using f by (intro woken_notified) simp
  ultimately show ?thesis by (simp add: pool_inv_def)
qed

lemma give_back_ok:
  assumes inv: "pool_inv cap x" and mx: "cap \<le> u64_max" and t: "at_pc x t (FHeld n)" and m: "m \<le> n"
  shows "\<exists>p w. pool_release True m (pq_pool x) = Done (p, w) \<and> pool_inv cap (goto t (FHeld (n - m)) p w x)"
proof -
  note c = pool_inv_cap [OF inv] and h = pool_inv_high [OF inv]
  have parts: "counted cap x" "queue_ok x" "woken x" using inv by (simp_all add: pool_inv_def)
  have le: "m \<le> po_outstanding (pq_pool x)" "po_outstanding (pq_pool x) \<le> u64_max"
    using pool_inv_charge [OF inv, of t] t m h mx by auto
  obtain p w where r: "pool_release True m (pq_pool x) = Done (p, w)" "po_cap p = po_cap (pq_pool x)"
    "po_waiters p = po_waiters (pq_pool x)" "po_outstanding p + m = po_outstanding (pq_pool x)"
    "po_high_water p = po_high_water (pq_pool x)" "m = 0 \<or> w = front (po_waiters (pq_pool x))"
    by (rule pool_release_cases [OF le, of True])
  have "counted cap (goto t (FHeld (n - m)) p w x)"
    using parts(1) t m c h r by (intro counted_goto) auto
  moreover have "queue_ok (goto t (FHeld (n - m)) p w x)" using parts(2) t r by (intro queue_stay) auto
  moreover have "woken (goto t (FHeld (n - m)) p w x)"
  proof (cases "m = 0")
    case True
    then show ?thesis using parts(3) t r by (intro woken_kept) auto
  next
    case False
    then show ?thesis using r(3,6) by (intro woken_notified) simp
  qed
  ultimately show ?thesis using r(1) by (auto simp: pool_inv_def)
qed

lemma pool_step_ok:
  assumes inv: "pool_inv cap x" and mx: "cap \<le> u64_max" and step: "pool_step x out"
  shows "\<exists>y. out = Done y \<and> pool_inv cap y"
  using step
proof cases
  case (start n)
  then show ?thesis using start_ok [OF inv mx, of n] by auto
next
  case (register t n)
  have "counted cap (goto t (FPoll n) (ticket_register t (pq_pool x)) None x)"
    using inv register pool_inv_cap [OF inv] pool_inv_high [OF inv] pool_inv_request [OF inv, of t]
    by (intro counted_goto) (auto simp: pool_inv_def)
  moreover have "queue_ok (goto t (FPoll n) (ticket_register t (pq_pool x)) None x)"
    using inv register by (intro queue_enter) (auto simp: pool_inv_def)
  moreover have "woken (goto t (FPoll n) (ticket_register t (pq_pool x)) None x)"
    using inv register by (intro woken_kept) (auto simp: pool_inv_def front_def split: list.splits)
  ultimately show ?thesis using register(1) by (simp add: pool_inv_def)
next
  case (poll t n)
  then show ?thesis using poll_ok [OF inv mx, of t n] by auto
next
  case (wake t n)
  have "pool_inv cap (goto t (FPoll n) (pq_pool x) None x)"
    unfolding pool_inv_def
  proof (intro conjI)
    show "counted cap (goto t (FPoll n) (pq_pool x) None x)"
      using inv wake pool_inv_cap [OF inv] pool_inv_high [OF inv] pool_inv_request [OF inv, of t]
      by (intro counted_goto) (auto simp: pool_inv_def)
    show "queue_ok (goto t (FPoll n) (pq_pool x) None x)" using inv wake by (intro queue_stay) (auto simp: pool_inv_def)
    show "woken (goto t (FPoll n) (pq_pool x) None x)" using inv wake by (intro woken_kept) (auto simp: pool_inv_def)
  qed
  then show ?thesis using wake by (auto simp: pool_inv_def counted_def queue_ok_def woken_def nth_list_update)
next
  case (leave t n p w)
  then show ?thesis using exit_ok [OF inv, of t p w "FHeld n"] by auto
next
  case (cancel t n p w)
  then show ?thesis using exit_ok [OF inv, of t p w FGone] by auto
next
  case (give_back t n m)
  then show ?thesis using give_back_ok [OF inv mx, of t n m] by auto
next
  case (notify t)
  then show ?thesis using inv by (auto simp: pool_inv_def counted_def queue_ok_def woken_def)
qed

lemma pool_reach_inv: "pool_reach cap x \<Longrightarrow> cap \<le> u64_max \<Longrightarrow> pool_inv cap x"
proof (induction rule: pool_reach.induct)
  case (step x y)
  from pool_step_ok [OF step.IH step.prems step.hyps(2)] step.prems show ?case by simp
qed (simp add: pool_inv_start)

section \<open>What the pool promises\<close>

definition demo_pool :: "u64 \<Rightarrow> nat list \<Rightarrow> ledger_pool" where
  "demo_pool n ws = \<lparr>po_cap = 10, po_outstanding = n, po_high_water = 8, po_waiters = ws\<rparr>"

definition demo_waiting :: pool_run where
  "demo_waiting = \<lparr>pq_pool = demo_pool 0 [1], pq_futures = [FHeld 0, FSleep 4], pq_permits = {}, pq_notifying = [1]\<rparr>"

text \<open>A run: one future takes 8 of 10 bytes, a second asks for 4 and sleeps, the first gives back all.\<close>

lemma demo_waiting_reach: "pool_reach 10 demo_waiting"
proof -
  let ?x = "\<lambda>n ws fs ns. \<lparr>pq_pool = demo_pool n ws, pq_futures = fs, pq_permits = {}, pq_notifying = ns\<rparr>"
  note evals = demo_pool_def goto_def spawn_def probe_and_acquire_def acquire_locked_def checked_add_def u64_max_def
    pool_start_def pool_new_def ticket_register_def poll_head_def front_def pool_release_def u64_sub_def demo_waiting_def
  have "pool_step (pool_start 10) (Done (?x 8 [] [FHeld 8] []))"
    using pool_step.start [of "pool_start 10" 8] by (simp add: evals)
  then have 1: "pool_reach 10 (?x 8 [] [FHeld 8] [])" by (rule pool_reach.step [OF pool_reach.init])
  have "pool_step (?x 8 [] [FHeld 8] []) (Done (?x 8 [] [FHeld 8, FRegister 4] []))"
    using pool_step.start [of "?x 8 [] [FHeld 8] []" 4] by (simp add: evals)
  then have 2: "pool_reach 10 (?x 8 [] [FHeld 8, FRegister 4] [])" by (rule pool_reach.step [OF 1])
  have "pool_step (?x 8 [] [FHeld 8, FRegister 4] []) (Done (?x 8 [1] [FHeld 8, FPoll 4] []))"
    using pool_step.register [of 1 "?x 8 [] [FHeld 8, FRegister 4] []" 4] by (simp add: evals)
  then have 3: "pool_reach 10 (?x 8 [1] [FHeld 8, FPoll 4] [])" by (rule pool_reach.step [OF 2])
  have "pool_step (?x 8 [1] [FHeld 8, FPoll 4] []) (Done (?x 8 [1] [FHeld 8, FSleep 4] []))"
    using pool_step.poll [of 1 "?x 8 [1] [FHeld 8, FPoll 4] []" 4] by (simp add: evals)
  then have 4: "pool_reach 10 (?x 8 [1] [FHeld 8, FSleep 4] [])" by (rule pool_reach.step [OF 3])
  have "pool_step (?x 8 [1] [FHeld 8, FSleep 4] []) (Done demo_waiting)"
    using pool_step.give_back [of 0 "?x 8 [1] [FHeld 8, FSleep 4] []" 8 8] by (simp add: evals)
  then show ?thesis by (rule pool_reach.step [OF 4])
qed

text \<open>
  The pool counts exactly. In every reachable interleaving of arrivals, waits,
  cancellations and releases the outstanding counter is the sum of the bytes that admitted futures
  hold, it never exceeds the recorded peak nor the peak the capacity, and no assertion of the pool
  fails (nothing is released that is not held, nothing oversize is queued).
\<close>

lemma fair_pool_exact:
  assumes "pool_reach cap x" "cap \<le> u64_max"
  shows "po_outstanding (pq_pool x) = sum_list (map charge (pq_futures x))
    \<and> po_outstanding (pq_pool x) \<le> po_high_water (pq_pool x) \<and> po_high_water (pq_pool x) \<le> cap
    \<and> \<not> pool_step x Panic"
proof -
  note inv = pool_reach_inv [OF assms]
  have "\<not> pool_step x Panic" using pool_step_ok [OF inv assms(2)] by blast
  then show ?thesis using inv by (simp add: pool_inv_def counted_def)
qed

definition held_by :: "pool_run \<Rightarrow> nat \<Rightarrow> nat" where
  "held_by x t = (if t < length (pq_futures x) then charge (pq_futures x ! t) else 0)"

lemma held_by_goto: "held_by (goto u pc p w x) t = (if t = u \<and> u < length (pq_futures x) then charge pc else held_by x t)"
  by (simp add: held_by_def nth_list_update)

lemma held_by_goto_le: "charge pc \<le> charge (pq_futures x ! u) \<Longrightarrow> \<not> held_by x t < held_by (goto u pc p w x) t"
  by (simp add: held_by_goto) (simp add: held_by_def)

lemma held_by_permits [simp]: "held_by (x\<lparr>pq_permits := s\<rparr>) t = held_by x t"
  by (simp add: held_by_def)

lemma held_by_spawn: "held_by (spawn pc p x) t = (if t = length (pq_futures x) then charge pc else held_by x t)"
  by (auto simp: held_by_def nth_append)

lemma acquire_locked_waiters: "acquire_locked dbg n p = Done (r, p') \<Longrightarrow> po_waiters p' = po_waiters p"
  by (auto simp: acquire_locked_def split: if_splits option.splits)

lemma probe_waiters:
  "probe_and_acquire dbg n p = Done (r, p') \<Longrightarrow> po_waiters p' = po_waiters p \<and> (r = Acquired \<longrightarrow> po_waiters p = [])"
  by (auto simp: probe_and_acquire_def dest: acquire_locked_waiters split: if_splits)

lemma poll_waiters:
  "poll_head dbg t n p = Done (r, p') \<Longrightarrow> po_waiters p' = po_waiters p \<and> (r = Acquired \<longrightarrow> front (po_waiters p) = Some t)"
  by (auto simp: poll_head_def dest: acquire_locked_waiters split: if_splits)

lemma release_waiters: "pool_release dbg n p = Done (p', w) \<Longrightarrow> po_waiters p' = po_waiters p"
  by (auto simp: pool_release_def split: if_splits)

lemma after_probe_charge: "k < charge (after_probe n r) \<Longrightarrow> r = Acquired"
  by (cases r) auto

lemma after_poll_charge: "k < charge (after_poll n r) \<Longrightarrow> r = Acquired"
  by (cases r) auto

lemma map_outcome_Done: "map_outcome f o' = Done y \<longleftrightarrow> (\<exists>z. o' = Done z \<and> y = f z)"
  by (cases o') auto

text \<open>
  Claim C20: admission is first come, first served. A step charges a future only when nobody waits or
  when that future heads the queue, and the queue changes only by a newcomer at its tail or by the
  removal of one waiter, so no later request passes an earlier one.
\<close>

theorem fair_pool_fifo:
  assumes "pool_step x (Done y)"
  shows "(held_by x t < held_by y t \<longrightarrow> po_waiters (pq_pool x) = [] \<or> front (po_waiters (pq_pool x)) = Some t)
    \<and> (\<exists>u. po_waiters (pq_pool y) \<in> {po_waiters (pq_pool x), po_waiters (pq_pool x) @ [u], remove1 u (po_waiters (pq_pool x))})"
  using assms
proof cases
  case (start n)
  then obtain r p where r: "probe_and_acquire True n (pq_pool x) = Done (r, p)" "y = spawn (after_probe n r) p x"
    by (auto simp: map_outcome_Done [symmetric] dest!: sym [of "Done y"] simp: map_outcome_Done)
  show ?thesis using probe_waiters [OF r(1)] after_probe_charge [of "held_by x t" n r]
    by (auto simp: r(2) held_by_spawn split: if_splits)
next
  case (poll u n)
  then obtain r p where r: "poll_head True u n (pq_pool x) = Done (r, p)" "y = goto u (after_poll n r) p None x"
    by (auto dest!: sym [of "Done y"] simp: map_outcome_Done)
  show ?thesis using poll_waiters [OF r(1)] after_poll_charge [of "held_by x t" n r]
    by (auto simp: r(2) held_by_goto split: if_splits)
next
  case (give_back u n m)
  then obtain p w where r: "pool_release True m (pq_pool x) = Done (p, w)" "y = goto u (FHeld (n - m)) p w x"
    by (auto dest!: sym [of "Done y"] simp: map_outcome_Done)
  then show ?thesis using release_waiters [OF r(1)] give_back(2) by (simp add: held_by_goto_le)
next
  case (notify u)
  then show ?thesis by (simp add: held_by_def)
qed (auto simp: held_by_goto_le dest: deregister_fields)

theorem fair_pool_fifo_witness:
  "held_by (pool_start 10) 0 < held_by (spawn (FHeld 4) (charge_pool 4 (pool_new 10)) (pool_start 10)) 0
   \<and> po_waiters (pq_pool (pool_start 10)) = []"
proof -
  have "probe_and_acquire True 4 (pq_pool (pool_start 10)) = Done (Acquired, charge_pool 4 (pool_new 10))" by code_simp
  then have step: "pool_step (pool_start 10) (Done (spawn (FHeld 4) (charge_pool 4 (pool_new 10)) (pool_start 10)))"
    using pool_step.start [of "pool_start 10" 4] by simp
  have more: "held_by (pool_start 10) 0 < held_by (spawn (FHeld 4) (charge_pool 4 (pool_new 10)) (pool_start 10)) 0"
    by code_simp
  moreover have "front (po_waiters (pq_pool (pool_start 10))) = None" by code_simp
  ultimately show ?thesis using fair_pool_fifo [OF step, of 0] by simp
qed

text \<open>
  The steps of one waiting future: the notification addressed to it is delivered, it wakes up on its permit, it
  polls the queue. None of them needs another future to move.
\<close>

inductive own_step :: "nat \<Rightarrow> pool_run \<Rightarrow> pool_run \<Rightarrow> bool" for t where
  own_notify: "t \<in> set (pq_notifying x) \<Longrightarrow>
    own_step t x (x\<lparr>pq_permits := insert t (pq_permits x), pq_notifying := remove1 t (pq_notifying x)\<rparr>)"
| own_wake: "at_pc x t (FSleep n) \<Longrightarrow> t \<in> pq_permits x \<Longrightarrow>
    own_step t x ((goto t (FPoll n) (pq_pool x) None x)\<lparr>pq_permits := pq_permits x - {t}\<rparr>)"
| own_poll: "at_pc x t (FPoll n) \<Longrightarrow> poll_head True t n (pq_pool x) = Done (r, p) \<Longrightarrow>
    own_step t x (goto t (after_poll n r) p None x)"

lemma own_step_is_step: "own_step t x y \<Longrightarrow> pool_step x (Done y)"
proof (induction rule: own_step.induct)
  case (own_poll x n r p)
  then show ?case using pool_step.poll [OF own_poll(1)] by simp
qed (auto intro: pool_step.intros)

lemma poll_admits:
  assumes inv: "pool_inv cap x" "cap \<le> u64_max" and t: "at_pc x t (FPoll n)"
    and "front (po_waiters (pq_pool x)) = Some t" "po_outstanding (pq_pool x) + n \<le> cap"
  shows "\<exists>y. own_step t x y \<and> at_pc y t (FLeave n)"
proof -
  have "poll_head True t n (pq_pool x) = Done (Acquired, charge_pool n (pq_pool x))"
    using assms pool_inv_cap [OF inv(1)] by (simp add: poll_head_def acquire_locked_eq)
  from own_step.own_poll [OF t this] show ?thesis using t by (intro exI conjI) auto
qed

lemma permitted_admits:
  assumes inv: "pool_inv cap x" "cap \<le> u64_max" and t: "at_pc x t (FSleep n)" "t \<in> pq_permits x"
    and h: "front (po_waiters (pq_pool x)) = Some t" "po_outstanding (pq_pool x) + n \<le> cap"
  shows "\<exists>y z. own_step t x y \<and> own_step t y z \<and> at_pc z t (FLeave n)"
proof -
  let ?y = "(goto t (FPoll n) (pq_pool x) None x)\<lparr>pq_permits := pq_permits x - {t}\<rparr>"
  have step: "own_step t x ?y" using own_step.own_wake [OF t] .
  then have "pool_inv cap ?y" using pool_step_ok [OF inv own_step_is_step] by blast
  then obtain z where "own_step t ?y z" "at_pc z t (FLeave n)"
    using poll_admits [of cap ?y t n] inv(2) t h by auto
  with step show ?thesis by blast
qed

lemma head_admits:
  assumes inv: "pool_inv cap x" "cap \<le> u64_max" and h: "front (po_waiters (pq_pool x)) = Some t"
    and t: "at_pc x t (FSleep n) \<or> at_pc x t (FPoll n)" and fits: "po_outstanding (pq_pool x) + n \<le> cap"
  shows "\<exists>k y. k \<le> 3 \<and> (own_step t ^^ k) x y \<and> at_pc y t (FLeave n)"
proof (cases "at_pc x t (FPoll n)")
  case True
  then obtain y where "own_step t x y" "at_pc y t (FLeave n)" using poll_admits [OF inv True h fits] by blast
  then show ?thesis by (intro exI [of _ 1] exI [of _ y]) auto
next
  case False
  then have t: "at_pc x t (FSleep n)" using t by blast
  have "t \<in> pq_permits x \<union> set (pq_notifying x)"
    using inv(1) t h fits pool_inv_cap [OF inv(1)] by (auto simp: pool_inv_def woken_def)
  then consider "t \<in> pq_permits x" | "t \<in> set (pq_notifying x)" by blast
  then show ?thesis
  proof cases
    case 1
    then obtain y z where "own_step t x y" "own_step t y z" "at_pc z t (FLeave n)"
      using permitted_admits [OF inv t] h fits by blast
    then show ?thesis by (intro exI [of _ 2] exI [of _ z]) (auto simp: numeral_2_eq_2)
  next
    case 2
    let ?w = "x\<lparr>pq_permits := insert t (pq_permits x), pq_notifying := remove1 t (pq_notifying x)\<rparr>"
    have step: "own_step t x ?w" using own_step.own_notify [OF 2] .
    then have "pool_inv cap ?w" using pool_step_ok [OF inv own_step_is_step] by blast
    then obtain y z where "own_step t ?w y" "own_step t y z" "at_pc z t (FLeave n)"
      using permitted_admits [of cap ?w t n] inv(2) h fits t by auto
    with step show ?thesis by (intro exI [of _ 3] exI [of _ z]) (auto simp: numeral_3_eq_3)
  qed
qed

text \<open>No step of another future takes the place or the bytes of the head of the queue.\<close>

abbreviation ready_head :: "u64 \<Rightarrow> nat \<Rightarrow> u64 \<Rightarrow> pool_run \<Rightarrow> bool" where
  "ready_head cap t n x \<equiv> front (po_waiters (pq_pool x)) = Some t \<and> (at_pc x t (FSleep n) \<or> at_pc x t (FPoll n))
     \<and> po_outstanding (pq_pool x) + n \<le> cap"

lemma ready_head_kept:
  assumes inv: "pool_inv cap x" "cap \<le> u64_max" and h: "ready_head cap t n x" and step: "pool_step x (Done y)"
  shows "ready_head cap t n y \<or> at_pc y t (FLeave n) \<or> at_pc y t FGone"
  using step
proof cases
  case (start m)
  then show ?thesis using h
    by (auto simp: probe_and_acquire_def front_Some nth_append dest!: sym [of "Done y"] split: if_splits)
next
  case (register u m)
  then show ?thesis using h by (auto simp: front_append nth_list_update)
next
  case (poll u m)
  have "poll_head True t n (pq_pool x) = Done (Acquired, charge_pool n (pq_pool x))"
    using h pool_inv_cap [OF inv(1)] inv(2) by (simp add: poll_head_def acquire_locked_eq)
  then show ?thesis using poll h
    by (cases "u = t") (auto simp: poll_head_def nth_list_update dest!: sym [of "Done y"] split: if_splits)
next
  case (wake u m)
  then show ?thesis using h by (auto simp: nth_list_update)
next
  case (leave u m p w)
  have "queue_ok x" using inv(1) by (simp add: pool_inv_def)
  then have "u = t" using leave(2) h unfolding queue_ok_def by force
  then show ?thesis using leave(2) h by auto
next
  case (cancel u m p w)
  then show ?thesis using h deregister_fields [OF cancel(3)]
    by (cases "u = t") (auto simp: nth_list_update front_remove1)
next
  case (give_back u m k)
  then obtain p w where r: "pool_release True k (pq_pool x) = Done (p, w)" "y = goto u (FHeld (m - k)) p w x"
    by (auto dest!: sym [of "Done y"] simp: map_outcome_Done)
  have "po_outstanding p \<le> po_outstanding (pq_pool x)" "po_waiters p = po_waiters (pq_pool x)"
    using r(1) h inv(2) by (auto simp: pool_release_def u64_exact split: if_splits)
  then show ?thesis using h r(2) give_back(2) by (auto simp: nth_list_update)
next
  case (notify u)
  then show ?thesis using h by auto
qed

text \<open>
  Claim C19: no wake-up is lost. Whenever the head of the queue waits for bytes that fit, it needs nobody else:
  at most three steps of its own (the delivery of a notification that is already addressed to it, the wake-up,
  the poll) admit it, whatever happened before. And until it has taken them no step of any other future takes
  its place or its bytes: it stays the head, waiting for bytes that fit, unless it is cancelled.
\<close>

theorem fair_pool_progress:
  assumes "pool_reach cap x" "cap \<le> u64_max" "front (po_waiters (pq_pool x)) = Some t"
    and "at_pc x t (FSleep n) \<or> at_pc x t (FPoll n)" "po_outstanding (pq_pool x) + n \<le> cap"
  shows "(\<exists>k y. k \<le> 3 \<and> (own_step t ^^ k) x y \<and> at_pc y t (FLeave n))
    \<and> (\<forall>y. pool_step x (Done y) \<longrightarrow> at_pc y t (FLeave n) \<or> at_pc y t FGone
        \<or> front (po_waiters (pq_pool y)) = Some t \<and> (at_pc y t (FSleep n) \<or> at_pc y t (FPoll n))
          \<and> po_outstanding (pq_pool y) + n \<le> cap)"
  using head_admits [OF pool_reach_inv [OF assms(1,2)] assms(2-5)]
    ready_head_kept [OF pool_reach_inv [OF assms(1,2)] assms(2), of t n] assms(3-5) by blast

theorem fair_pool_progress_witness:
  "\<exists>k y. k \<le> 3 \<and> (own_step 1 ^^ k) demo_waiting y \<and> at_pc y 1 (FLeave 4)"
  by (rule fair_pool_progress [OF demo_waiting_reach, THEN conjunct1])
    (simp_all add: demo_waiting_def demo_pool_def front_def u64_max_def)

end
