(* ===== verification/Transfer_Ledger.thy ===== *)
theory Transfer_Ledger
  imports Ledger_Pool Engine_Config
begin

text \<open>
  The transfer-memory ledger (\<open>io/transfer_ledger.rs\<close>) over the fair pools of \<open>Ledger_Pool\<close>: the
  aggregate pool of the engine, the pools of a job, the meters, and the reservations that charge one
  component pool, the job pool and the aggregate pool together. An array indexed by a component is a
  function of the component. An asynchronous operation is a future that waits for one pool after the
  other and can be dropped at any wait; its guards roll back what it has acquired. Which waiter a
  release wakes is the subject of \<open>Ledger_Pool\<close> and is left out here.
\<close>

section \<open>Scopes\<close>

type_synonym component_meter = "u64 \<times> u64"

definition meter_new :: component_meter where
  "meter_new = (0, 0)"

definition meter_charge :: "u64 \<Rightarrow> component_meter \<Rightarrow> component_meter" where
  "meter_charge bytes m = (let held = u64_add (fst m) bytes in (held, max (snd m) held))"

definition meter_release :: "bool \<Rightarrow> u64 \<Rightarrow> component_meter \<Rightarrow> component_meter outcome" where
  "meter_release dbg bytes m = (if dbg \<and> fst m < bytes then Panic else Done (u64_sub (fst m) bytes, snd m))"

fun component_caps :: "transfer_memory_config \<Rightarrow> component \<Rightarrow> u64" where
  "component_caps c NetworkIngress = tm_network_ingress_max_bytes c"
| "component_caps c Frames = tm_frames_max_bytes c"
| "component_caps c Writer = tm_writer_max_bytes c"
| "component_caps c component.Checkpoint = tm_checkpoint_max_bytes c"

record transfer_ledger =
  tl_aggregate :: ledger_pool
  tl_meters :: "component \<Rightarrow> component_meter"
  tl_component_caps :: "component \<Rightarrow> u64"
  tl_aggregate_config_cap :: u64

definition ledger_new :: "transfer_memory_config \<Rightarrow> u64 \<Rightarrow> transfer_ledger" where
  "ledger_new config carve_out =
     \<lparr>tl_aggregate = pool_new (sat_sub (tm_aggregate_max_bytes config) carve_out),
      tl_meters = (\<lambda>_. meter_new), tl_component_caps = component_caps config,
      tl_aggregate_config_cap = tm_aggregate_max_bytes config\<rparr>"

record job_ledger =
  jl_job :: ledger_pool
  jl_components :: "component \<Rightarrow> ledger_pool"
  jl_component_caps :: "component \<Rightarrow> u64"

definition ledger_job :: "transfer_memory_config \<Rightarrow> job_ledger" where
  "ledger_job config =
     \<lparr>jl_job = pool_new (tm_job_max_bytes config), jl_components = (\<lambda>c. pool_new (component_caps config c)),
      jl_component_caps = component_caps config\<rparr>"

record component_memory =
  cm_cap :: u64
  cm_current :: u64
  cm_high_water :: u64

definition ledger_snapshot :: "transfer_ledger \<Rightarrow> component_memory \<times> (string \<times> component_memory) list" where
  "ledger_snapshot l =
     (\<lparr>cm_cap = tl_aggregate_config_cap l, cm_current = po_outstanding (tl_aggregate l),
       cm_high_water = po_high_water (tl_aggregate l)\<rparr>,
      map (\<lambda>c. (component_name c, \<lparr>cm_cap = tl_component_caps l c, cm_current = fst (tl_meters l c),
            cm_high_water = snd (tl_meters l c)\<rparr>)) component_all)"

section \<open>Reservations\<close>

text \<open>What an operation of one job sees: its own pools, and the pool and meters it shares.\<close>

record ledger_view =
  lv_controller :: ledger_pool
  lv_meters :: "component \<Rightarrow> component_meter"
  lv_job :: job_ledger

abbreviation comp :: "component \<Rightarrow> ledger_view \<Rightarrow> ledger_pool" where
  "comp c v \<equiv> jl_components (lv_job v) c"

abbreviation jobp :: "ledger_view \<Rightarrow> ledger_pool" where
  "jobp v \<equiv> jl_job (lv_job v)"

definition set_comp :: "component \<Rightarrow> ledger_pool \<Rightarrow> ledger_view \<Rightarrow> ledger_view" where
  "set_comp c p v = v\<lparr>lv_job := (lv_job v)\<lparr>jl_components := (jl_components (lv_job v))(c := p)\<rparr>\<rparr>"

definition set_job :: "ledger_pool \<Rightarrow> ledger_view \<Rightarrow> ledger_view" where
  "set_job p v = v\<lparr>lv_job := (lv_job v)\<lparr>jl_job := p\<rparr>\<rparr>"

definition set_meter :: "component \<Rightarrow> component_meter \<Rightarrow> ledger_view \<Rightarrow> ledger_view" where
  "set_meter c m v = v\<lparr>lv_meters := (lv_meters v)(c := m)\<rparr>"

definition tightest_cap :: "ledger_view \<Rightarrow> component \<Rightarrow> u64" where
  "tightest_cap v c = min (min (jl_component_caps (lv_job v) c) (po_cap (jobp v))) (po_cap (lv_controller v))"

definition oversize :: "component \<Rightarrow> u64 \<Rightarrow> u64 \<Rightarrow> ledger_refusal" where
  "oversize c requested cap = Oversize \<lparr>or_component = c, or_requested = requested, or_cap = cap\<rparr>"

text \<open>
  Where the future of a reservation stands: nowhere, or in \<open>acquire_fair\<close> of the component, the job or
  the aggregate pool with the bytes it asks for and the ticket it holds, or in the one of a \<open>retag\<close>.
\<close>

datatype ledger_stage =
    Settled
  | AtComponent u64 "nat option"
  | AtJob u64 "nat option"
  | AtController u64 "nat option"
  | AtRetag component "nat option"

record transfer_reservation =
  tr_component :: component
  tr_bytes :: u64
  tr_tightest_cap :: u64
  tr_stage :: ledger_stage

definition pool_free :: "bool \<Rightarrow> u64 \<Rightarrow> ledger_pool \<Rightarrow> ledger_pool outcome" where
  "pool_free dbg bytes p = map_outcome fst (pool_release dbg bytes p)"

definition free_component :: "bool \<Rightarrow> component \<Rightarrow> u64 \<Rightarrow> ledger_view \<Rightarrow> ledger_view outcome" where
  "free_component dbg c bytes v = map_outcome (\<lambda>p. set_comp c p v) (pool_free dbg bytes (comp c v))"

definition free_job :: "bool \<Rightarrow> u64 \<Rightarrow> ledger_view \<Rightarrow> ledger_view outcome" where
  "free_job dbg bytes v = map_outcome (\<lambda>p. set_job p v) (pool_free dbg bytes (jobp v))"

definition free_controller :: "bool \<Rightarrow> u64 \<Rightarrow> ledger_view \<Rightarrow> ledger_view outcome" where
  "free_controller dbg bytes v = map_outcome (\<lambda>p. v\<lparr>lv_controller := p\<rparr>) (pool_free dbg bytes (lv_controller v))"

definition free_meter :: "bool \<Rightarrow> component \<Rightarrow> u64 \<Rightarrow> ledger_view \<Rightarrow> ledger_view outcome" where
  "free_meter dbg c bytes v = map_outcome (\<lambda>m. set_meter c m v) (meter_release dbg bytes (lv_meters v c))"

definition charge_meter :: "component \<Rightarrow> u64 \<Rightarrow> ledger_view \<Rightarrow> ledger_view" where
  "charge_meter c bytes v = set_meter c (meter_charge bytes (lv_meters v c)) v"

section \<open>The non-blocking reservation\<close>

text \<open>
  The three probes of \<open>try_reserve\<close>. The guard of the component pool is forgotten as soon as the job pool is
  charged, so a refusal of the aggregate pool rolls back the job pool only.
\<close>

definition try_controller :: "bool \<Rightarrow> component \<Rightarrow> u64 \<Rightarrow> ledger_view
    \<Rightarrow> ((ledger_refusal + transfer_reservation) \<times> ledger_view) outcome" where
  "try_controller dbg c bytes v =
     and_then (probe_and_acquire dbg bytes (lv_controller v)) (\<lambda>(r, p).
       case r of
         Acquired \<Rightarrow> Done (Inr \<lparr>tr_component = c, tr_bytes = bytes, tr_tightest_cap = tightest_cap v c, tr_stage = Settled\<rparr>,
             charge_meter c bytes (v\<lparr>lv_controller := p\<rparr>))
       | ProbeOversize f \<Rightarrow> map_outcome (\<lambda>v'. (Inl (Oversize f), v')) (free_job dbg bytes v)
       | Full \<Rightarrow> map_outcome (\<lambda>v'. (Inl (NoCapacity c), v')) (free_job dbg bytes v))"

definition try_job :: "bool \<Rightarrow> component \<Rightarrow> u64 \<Rightarrow> ledger_view
    \<Rightarrow> ((ledger_refusal + transfer_reservation) \<times> ledger_view) outcome" where
  "try_job dbg c bytes v =
     and_then (probe_and_acquire dbg bytes (jobp v)) (\<lambda>(r, p).
       case r of
         Acquired \<Rightarrow> try_controller dbg c bytes (set_job p v)
       | ProbeOversize f \<Rightarrow> map_outcome (\<lambda>v'. (Inl (Oversize f), v')) (free_component dbg c bytes v)
       | Full \<Rightarrow> map_outcome (\<lambda>v'. (Inl (NoCapacity c), v')) (free_component dbg c bytes v))"

definition try_reserve :: "bool \<Rightarrow> component \<Rightarrow> u64 \<Rightarrow> ledger_view
    \<Rightarrow> ((ledger_refusal + transfer_reservation) \<times> ledger_view) outcome" where
  "try_reserve dbg c bytes v =
     (if tightest_cap v c < bytes then Done (Inl (oversize c bytes (tightest_cap v c)), v)
      else and_then (probe_and_acquire dbg bytes (comp c v)) (\<lambda>(r, p).
        case r of
          Acquired \<Rightarrow> try_job dbg c bytes (set_comp c p v)
        | ProbeOversize f \<Rightarrow> Done (Inl (Oversize f), v)
        | Full \<Rightarrow> Done (Inl (NoCapacity c), v)))"

section \<open>The waiting operations\<close>

definition ledger_reserve :: "component \<Rightarrow> u64 \<Rightarrow> ledger_view \<Rightarrow> ledger_refusal + transfer_reservation" where
  "ledger_reserve c bytes v =
     (if tightest_cap v c < bytes then Inl (oversize c bytes (tightest_cap v c))
      else Inr \<lparr>tr_component = c, tr_bytes = 0, tr_tightest_cap = tightest_cap v c, tr_stage = AtComponent bytes None\<rparr>)"

definition ledger_grow :: "u64 \<Rightarrow> transfer_reservation \<Rightarrow> ledger_refusal + transfer_reservation" where
  "ledger_grow extra r =
     (if extra = 0 then Inr r
      else let grown = u64_add (tr_bytes r) extra
        in if tr_tightest_cap r < grown then Inl (oversize (tr_component r) grown (tr_tightest_cap r))
           else Inr (r\<lparr>tr_stage := AtComponent extra None\<rparr>))"

definition ledger_retag :: "component \<Rightarrow> transfer_reservation \<Rightarrow> ledger_view \<Rightarrow> ledger_refusal + transfer_reservation" where
  "ledger_retag to r v =
     (if to = tr_component r then Inr r
      else if po_cap (comp to v) < tr_bytes r then Inl (oversize to (tr_bytes r) (po_cap (comp to v)))
      else Inr (r\<lparr>tr_stage := AtRetag to None\<rparr>))"

text \<open>One turn of \<open>acquire_fair\<close> on a pool: probe and queue up, or poll the queue.\<close>

datatype turn = Ready | Refused ledger_refusal | Pending "nat option"

definition acquire_turn :: "bool \<Rightarrow> nat \<Rightarrow> u64 \<Rightarrow> nat option \<Rightarrow> ledger_pool \<Rightarrow> (turn \<times> ledger_pool) outcome" where
  "acquire_turn dbg fresh bytes ticket p =
     (case ticket of
        None \<Rightarrow> map_outcome (\<lambda>(r, p').
            case r of
              Acquired \<Rightarrow> (Ready, p')
            | ProbeOversize f \<Rightarrow> (Refused (Oversize f), p')
            | Full \<Rightarrow> (Pending (Some fresh), ticket_register fresh p')) (probe_and_acquire dbg bytes p)
      | Some t \<Rightarrow> map_outcome (\<lambda>(r, p').
            case r of
              Acquired \<Rightarrow> (Ready, fst (ticket_deregister t p'))
            | _ \<Rightarrow> (Pending (Some t), p')) (poll_head dbg t bytes p))"

definition drop_ticket :: "nat option \<Rightarrow> ledger_pool \<Rightarrow> ledger_pool" where
  "drop_ticket ticket p = (case ticket of None \<Rightarrow> p | Some t \<Rightarrow> fst (ticket_deregister t p))"

definition swap_tag :: "bool \<Rightarrow> component \<Rightarrow> transfer_reservation \<Rightarrow> ledger_view
    \<Rightarrow> (transfer_reservation \<times> ledger_view) outcome" where
  "swap_tag dbg to r v =
     and_then (free_component dbg (tr_component r) (tr_bytes r) v) (\<lambda>v1.
     and_then (free_meter dbg (tr_component r) (tr_bytes r) v1) (\<lambda>v2.
       Done (r\<lparr>tr_component := to, tr_stage := Settled\<rparr>, charge_meter to (tr_bytes r) v2)))"

definition poll_reservation :: "bool \<Rightarrow> nat \<Rightarrow> transfer_reservation \<Rightarrow> ledger_view
    \<Rightarrow> (transfer_reservation \<times> ledger_view) outcome" where
  "poll_reservation dbg fresh r v =
     (case tr_stage r of
        Settled \<Rightarrow> Done (r, v)
      | AtComponent n t \<Rightarrow> and_then (acquire_turn dbg fresh n t (comp (tr_component r) v)) (\<lambda>(u, p).
          let v' = set_comp (tr_component r) p v
          in case u of
               Ready \<Rightarrow> Done (r\<lparr>tr_stage := AtJob n None\<rparr>, v')
             | Pending t' \<Rightarrow> Done (r\<lparr>tr_stage := AtComponent n t'\<rparr>, v')
             | Refused f \<Rightarrow> Done (r\<lparr>tr_stage := Settled\<rparr>, v'))
      | AtJob n t \<Rightarrow> and_then (acquire_turn dbg fresh n t (jobp v)) (\<lambda>(u, p).
          let v' = set_job p v
          in case u of
               Ready \<Rightarrow> Done (r\<lparr>tr_stage := AtController n None\<rparr>, v')
             | Pending t' \<Rightarrow> Done (r\<lparr>tr_stage := AtJob n t'\<rparr>, v')
             | Refused f \<Rightarrow> map_outcome (\<lambda>v''. (r\<lparr>tr_stage := Settled\<rparr>, v'')) (free_component dbg (tr_component r) n v'))
      | AtController n t \<Rightarrow> and_then (acquire_turn dbg fresh n t (lv_controller v)) (\<lambda>(u, p).
          let v' = v\<lparr>lv_controller := p\<rparr>
          in case u of
               Ready \<Rightarrow> Done (r\<lparr>tr_bytes := u64_add (tr_bytes r) n, tr_stage := Settled\<rparr>, charge_meter (tr_component r) n v')
             | Pending t' \<Rightarrow> Done (r\<lparr>tr_stage := AtController n t'\<rparr>, v')
             | Refused f \<Rightarrow> map_outcome (\<lambda>v''. (r\<lparr>tr_stage := Settled\<rparr>, v''))
                 (and_then (free_job dbg n v') (free_component dbg (tr_component r) n)))
      | AtRetag to t \<Rightarrow> and_then (acquire_turn dbg fresh (tr_bytes r) t (comp to v)) (\<lambda>(u, p).
          let v' = set_comp to p v
          in case u of
               Ready \<Rightarrow> swap_tag dbg to r v'
             | Pending t' \<Rightarrow> Done (r\<lparr>tr_stage := AtRetag to t'\<rparr>, v')
             | Refused f \<Rightarrow> Done (r\<lparr>tr_stage := Settled\<rparr>, v')))"

text \<open>Dropping the future: its ticket leaves the queue, then the armed guards release in reverse order.\<close>

definition cancel_reservation :: "bool \<Rightarrow> transfer_reservation \<Rightarrow> ledger_view
    \<Rightarrow> (transfer_reservation \<times> ledger_view) outcome" where
  "cancel_reservation dbg r v =
     map_outcome (\<lambda>v'. (r\<lparr>tr_stage := Settled\<rparr>, v'))
      (case tr_stage r of
         Settled \<Rightarrow> Done v
       | AtComponent n t \<Rightarrow> Done (set_comp (tr_component r) (drop_ticket t (comp (tr_component r) v)) v)
       | AtJob n t \<Rightarrow> free_component dbg (tr_component r) n (set_job (drop_ticket t (jobp v)) v)
       | AtController n t \<Rightarrow> and_then (free_job dbg n (v\<lparr>lv_controller := drop_ticket t (lv_controller v)\<rparr>))
           (free_component dbg (tr_component r) n)
       | AtRetag to t \<Rightarrow> Done (set_comp to (drop_ticket t (comp to v)) v))"

definition release_bytes :: "bool \<Rightarrow> u64 \<Rightarrow> transfer_reservation \<Rightarrow> ledger_view \<Rightarrow> ledger_view outcome" where
  "release_bytes dbg bytes r v =
     and_then (free_controller dbg bytes v) (\<lambda>v1.
     and_then (free_meter dbg (tr_component r) bytes v1) (\<lambda>v2.
     and_then (free_job dbg bytes v2) (free_component dbg (tr_component r) bytes)))"

definition shrink_to :: "bool \<Rightarrow> u64 \<Rightarrow> transfer_reservation \<Rightarrow> ledger_view
    \<Rightarrow> (transfer_reservation \<times> ledger_view) outcome" where
  "shrink_to dbg bytes r v =
     (if tr_bytes r < bytes then (if dbg then Panic else Done (r, v))
      else let excess = tr_bytes r - bytes
        in if excess = 0 then Done (r, v)
           else map_outcome (\<lambda>v'. (r\<lparr>tr_bytes := bytes\<rparr>, v')) (release_bytes dbg excess r v))"

definition reservation_reconcile :: "bool \<Rightarrow> u64 \<Rightarrow> transfer_reservation \<Rightarrow> ledger_view
    \<Rightarrow> (transfer_reservation \<times> ledger_view) outcome" where
  "reservation_reconcile dbg actual r v = (if actual < tr_bytes r then shrink_to dbg actual r v else Done (r, v))"

definition drop_reservation :: "bool \<Rightarrow> transfer_reservation \<Rightarrow> ledger_view
    \<Rightarrow> (transfer_reservation \<times> ledger_view) outcome" where
  "drop_reservation dbg r v = map_outcome (\<lambda>v'. (r\<lparr>tr_bytes := 0\<rparr>, v')) (release_bytes dbg (tr_bytes r) r v)"

text \<open>The engine-wide charge of one transport connection.\<close>

definition charge_connection_ingress :: "u64 \<Rightarrow> (component \<Rightarrow> component_meter) \<Rightarrow> (component \<Rightarrow> component_meter)" where
  "charge_connection_ingress bytes ms = ms(NetworkIngress := meter_charge bytes (ms NetworkIngress))"

definition drop_connection :: "bool \<Rightarrow> u64 \<Rightarrow> (component \<Rightarrow> component_meter) \<Rightarrow> (component \<Rightarrow> component_meter) outcome" where
  "drop_connection dbg bytes ms = map_outcome (\<lambda>m. ms(NetworkIngress := m)) (meter_release dbg bytes (ms NetworkIngress))"

end
