(* ===== verification/Ledger_Runs.thy ===== *)
theory Ledger_Runs
  imports Transfer_Ledger
begin

text \<open>
  All reservations of an engine over the transfer-memory ledger, in any interleaving: what the
  counters of every pool and meter mean in every reachable state, and the one operation that breaks
  the correspondence, the refused \<open>try_reserve\<close>.
\<close>

section \<open>The system\<close>

text \<open>
  \<open>ly_late\<close> is a history: the calls of \<open>try_reserve\<close>, with their job, component and bytes, that the aggregate
  pool refused after the component and the job pool had admitted them (\<open>refused_late\<close>).
\<close>

record ledger_system =
  ly_controller :: ledger_pool
  ly_meters :: "component \<Rightarrow> component_meter"
  ly_jobs :: "nat \<Rightarrow> job_ledger"
  ly_slots :: "(nat \<times> transfer_reservation) list"
  ly_connections :: "u64 list"
  ly_late :: "(nat \<times> component \<times> u64) list"

definition view :: "ledger_system \<Rightarrow> nat \<Rightarrow> ledger_view" where
  "view x j = \<lparr>lv_controller = ly_controller x, lv_meters = ly_meters x, lv_job = ly_jobs x j\<rparr>"

definition store :: "nat \<Rightarrow> ledger_view \<Rightarrow> ledger_system \<Rightarrow> ledger_system" where
  "store j v x = x\<lparr>ly_controller := lv_controller v, ly_meters := lv_meters v, ly_jobs := (ly_jobs x)(j := lv_job v)\<rparr>"

definition slot_job :: "ledger_system \<Rightarrow> nat \<Rightarrow> nat" where
  "slot_job x i = fst (ly_slots x ! i)"

definition slot_res :: "ledger_system \<Rightarrow> nat \<Rightarrow> transfer_reservation" where
  "slot_res x i = snd (ly_slots x ! i)"

definition put :: "nat \<Rightarrow> transfer_reservation \<Rightarrow> ledger_view \<Rightarrow> ledger_system \<Rightarrow> ledger_system" where
  "put i r v x = (store (slot_job x i) v x)\<lparr>ly_slots := (ly_slots x)[i := (slot_job x i, r)]\<rparr>"

definition add_slot :: "nat \<Rightarrow> transfer_reservation \<Rightarrow> ledger_view \<Rightarrow> ledger_system \<Rightarrow> ledger_system" where
  "add_slot j r v x = (store j v x)\<lparr>ly_slots := ly_slots x @ [(j, r)]\<rparr>"

definition admits :: "u64 \<Rightarrow> ledger_pool \<Rightarrow> bool" where
  "admits n p \<longleftrightarrow> po_waiters p = [] \<and> po_outstanding p + n \<le> po_cap p"

definition refused_late :: "component \<Rightarrow> u64 \<Rightarrow> ledger_view \<Rightarrow> bool" where
  "refused_late c n v \<longleftrightarrow>
     n \<le> tightest_cap v c \<and> admits n (comp c v) \<and> admits n (jobp v) \<and> \<not> admits n (lv_controller v)"

definition refuse :: "nat \<Rightarrow> component \<Rightarrow> u64 \<Rightarrow> ledger_view \<Rightarrow> ledger_system \<Rightarrow> ledger_system" where
  "refuse j c n v x = (store j v x)\<lparr>ly_late := (if refused_late c n (view x j) then [(j, c, n)] else []) @ ly_late x\<rparr>"

definition late_bytes :: "ledger_system \<Rightarrow> nat \<Rightarrow> component \<Rightarrow> nat" where
  "late_bytes x j c = sum_list (map (\<lambda>(k, d, n). if k = j \<and> d = c then n else 0) (ly_late x))"

abbreviation settled :: "ledger_system \<Rightarrow> nat \<Rightarrow> bool" where
  "settled x i \<equiv> i < length (ly_slots x) \<and> tr_stage (slot_res x i) = Settled"

inductive ledger_step :: "u64 \<Rightarrow> ledger_system \<Rightarrow> ledger_system outcome \<Rightarrow> bool" for carve where
  reserve: "ledger_reserve c n (view x j) = Inr r \<Longrightarrow> ledger_step carve x (Done (add_slot j r (view x j) x))"
| try_reserve: "ledger_step carve x (map_outcome (\<lambda>(res, v). case res of Inr r \<Rightarrow> add_slot j r v x | Inl f \<Rightarrow> refuse j c n v x)
    (try_reserve True c n (view x j)))"
| grow: "settled x i \<Longrightarrow> ledger_grow n (slot_res x i) = Inr r \<Longrightarrow>
    ledger_step carve x (Done (put i r (view x (slot_job x i)) x))"
| retag: "settled x i \<Longrightarrow> ledger_retag c (slot_res x i) (view x (slot_job x i)) = Inr r \<Longrightarrow>
    ledger_step carve x (Done (put i r (view x (slot_job x i)) x))"
| poll: "i < length (ly_slots x) \<Longrightarrow>
    ledger_step carve x (map_outcome (\<lambda>(r, v). put i r v x) (poll_reservation True fresh (slot_res x i) (view x (slot_job x i))))"
| cancel: "i < length (ly_slots x) \<Longrightarrow>
    ledger_step carve x (map_outcome (\<lambda>(r, v). put i r v x) (cancel_reservation True (slot_res x i) (view x (slot_job x i))))"
| reconcile: "settled x i \<Longrightarrow>
    ledger_step carve x (map_outcome (\<lambda>(r, v). put i r v x) (reservation_reconcile True n (slot_res x i) (view x (slot_job x i))))"
| drop: "settled x i \<Longrightarrow>
    ledger_step carve x (map_outcome (\<lambda>(r, v). put i r v x) (drop_reservation True (slot_res x i) (view x (slot_job x i))))"
| connect: "sum_list (ly_connections x) + n \<le> carve \<Longrightarrow>
    ledger_step carve x (Done (x\<lparr>ly_meters := charge_connection_ingress n (ly_meters x), ly_connections := n # ly_connections x\<rparr>))"
| disconnect: "n \<in> set (ly_connections x) \<Longrightarrow>
    ledger_step carve x (map_outcome (\<lambda>ms. x\<lparr>ly_meters := ms, ly_connections := remove1 n (ly_connections x)\<rparr>)
      (drop_connection True n (ly_meters x)))"

definition ledger_start :: "transfer_memory_config \<Rightarrow> u64 \<Rightarrow> ledger_system" where
  "ledger_start config carve =
     \<lparr>ly_controller = tl_aggregate (ledger_new config carve), ly_meters = tl_meters (ledger_new config carve),
      ly_jobs = (\<lambda>j. ledger_job config), ly_slots = [], ly_connections = [], ly_late = []\<rparr>"

inductive ledger_reach :: "transfer_memory_config \<Rightarrow> u64 \<Rightarrow> ledger_system \<Rightarrow> bool" for config carve where
  init: "ledger_reach config carve (ledger_start config carve)"
| step: "ledger_reach config carve x \<Longrightarrow> ledger_step carve x (Done y) \<Longrightarrow> ledger_reach config carve y"

section \<open>What a reservation is charged\<close>

fun job_extra :: "ledger_stage \<Rightarrow> nat" where
  "job_extra (AtController n t) = n"
| "job_extra _ = 0"

fun comp_extra :: "ledger_stage \<Rightarrow> nat" where
  "comp_extra (AtJob n t) = n"
| "comp_extra (AtController n t) = n"
| "comp_extra _ = 0"

definition held_job :: "transfer_reservation \<Rightarrow> nat" where
  "held_job r = tr_bytes r + job_extra (tr_stage r)"

definition held_comp :: "component \<Rightarrow> transfer_reservation \<Rightarrow> nat" where
  "held_comp c r = (if tr_component r = c then tr_bytes r + comp_extra (tr_stage r) else 0)"

definition held_meter :: "component \<Rightarrow> transfer_reservation \<Rightarrow> nat" where
  "held_meter c r = (if tr_component r = c then tr_bytes r else 0)"

text \<open>A queued request fits the pool it waits for.\<close>

fun stage_fits :: "transfer_reservation \<Rightarrow> ledger_view \<Rightarrow> ledger_stage \<Rightarrow> bool" where
  "stage_fits r v (AtComponent n (Some t)) \<longleftrightarrow> n \<le> po_cap (comp (tr_component r) v)"
| "stage_fits r v (AtJob n (Some t)) \<longleftrightarrow> n \<le> po_cap (jobp v)"
| "stage_fits r v (AtController n (Some t)) \<longleftrightarrow> n \<le> po_cap (lv_controller v)"
| "stage_fits r v (AtRetag to (Some t)) \<longleftrightarrow> tr_bytes r \<le> po_cap (comp to v)"
| "stage_fits r v _ \<longleftrightarrow> True"

definition retags_away :: "transfer_reservation \<Rightarrow> bool" where
  "retags_away r \<longleftrightarrow> (\<forall>to t. tr_stage r = AtRetag to t \<longrightarrow> to \<noteq> tr_component r)"

section \<open>Moves of one pool\<close>

definition pool_ok :: "ledger_pool \<Rightarrow> bool" where
  "pool_ok p \<longleftrightarrow> po_outstanding p \<le> po_high_water p \<and> po_high_water p \<le> po_cap p \<and> po_cap p \<le> u64_max"

definition pool_moves :: "nat \<Rightarrow> nat \<Rightarrow> ledger_pool \<Rightarrow> ledger_pool \<Rightarrow> bool" where
  "pool_moves a b p p' \<longleftrightarrow> po_cap p' = po_cap p \<and> pool_ok p' \<and> po_outstanding p' + a = po_outstanding p + b"

lemma pool_moves_refl: "pool_ok p \<Longrightarrow> pool_moves k k p p"
  by (simp add: pool_moves_def)

lemma pool_moves_shift: "pool_moves a b p p' \<Longrightarrow> a' + b = b' + a \<Longrightarrow> pool_moves a' b' p p'"
  by (simp add: pool_moves_def)

lemma pool_moves_trans: "pool_moves a b p p' \<Longrightarrow> pool_moves b c p' p'' \<Longrightarrow> pool_moves a c p p''"
  by (auto simp: pool_moves_def)

lemma charged_moves: "charged n p p' \<Longrightarrow> pool_ok p \<Longrightarrow> pool_moves 0 n p p'"
  by (auto simp: charged_def pool_moves_def pool_ok_def)

lemma pool_free_moves:
  assumes "pool_ok p" "n \<le> po_outstanding p"
  obtains p' where "pool_free True n p = Done p'" "pool_moves n 0 p p'"
proof -
  have le: "po_outstanding p \<le> u64_max" using assms(1) by (simp add: pool_ok_def)
  obtain p' w where p: "pool_release True n p = Done (p', w)" "po_cap p' = po_cap p" "po_waiters p' = po_waiters p"
    "po_outstanding p' + n = po_outstanding p" "po_high_water p' = po_high_water p" "n = 0 \<or> w = front (po_waiters p)"
    by (rule pool_release_cases [OF assms(2) le, where dbg = True])
  show thesis
  proof (rule that)
    show "pool_free True n p = Done p'" by (simp add: pool_free_def p(1))
    show "pool_moves n 0 p p'" using assms(1) p by (auto simp: pool_moves_def pool_ok_def)
  qed
qed

lemma drop_ticket_moves: "pool_ok p \<Longrightarrow> pool_moves k k p (drop_ticket t p)"
  by (cases t) (auto simp: drop_ticket_def ticket_deregister_def Let_def pool_moves_def pool_ok_def)

lemma acquire_turn_moves:
  assumes ok: "pool_ok p" and fits: "t = None \<or> n \<le> po_cap p"
  obtains p' where "acquire_turn True fresh n t p = Done (Ready, p')" "pool_moves 0 n p p'"
  | p' t' where "acquire_turn True fresh n t p = Done (Pending t', p')" "pool_moves 0 0 p p'" "n \<le> po_cap p"
  | p' f where "acquire_turn True fresh n t p = Done (Refused f, p')" "pool_moves 0 0 p p'"
proof (cases t)
  case None
  have "po_cap p \<le> u64_max" using ok by (simp add: pool_ok_def)
  then show thesis
  proof (cases rule: probe_cases [where dbg = True and n = n])
    case (1 p')
    then show thesis using that(1) [of p'] None charged_moves [OF _ ok] by (simp add: acquire_turn_def)
  next
    case 2
    then show thesis using that(2) [of "Some fresh" "ticket_register fresh p"] None ok
      by (simp add: acquire_turn_def pool_moves_def pool_ok_def)
  next
    case (3 r)
    then show thesis using that(3) [of "Oversize r" p] None pool_moves_refl [OF ok] by (simp add: acquire_turn_def)
  qed
next
  case (Some s)
  have le: "n \<le> po_cap p" "po_cap p \<le> u64_max" using ok fits Some by (simp_all add: pool_ok_def)
  show thesis
  proof (cases rule: poll_head_cases [OF le, where dbg = True and t = s])
    case (1 p')
    have "pool_ok p'" using charged_moves [OF 1(2) ok] by (simp add: pool_moves_def)
    then have "pool_moves n n p' (fst (ticket_deregister s p'))"
      using drop_ticket_moves [of p' n "Some s"] by (simp add: drop_ticket_def)
    then have "pool_moves 0 n p (fst (ticket_deregister s p'))"
      by (rule pool_moves_trans [OF charged_moves [OF 1(2) ok]])
    then show thesis using that(1) 1(1) Some by (simp add: acquire_turn_def)
  next
    case 2
    then show thesis using that(2) [of "Some s" p] Some le(1) pool_moves_refl [OF ok] by (simp add: acquire_turn_def)
  qed
qed

section \<open>Moves of one reservation\<close>

lemma set_fields [simp]:
  "lv_controller (set_comp c p v) = lv_controller v" "lv_meters (set_comp c p v) = lv_meters v"
  "lv_job (set_comp c p v) = (lv_job v)\<lparr>jl_components := (jl_components (lv_job v))(c := p)\<rparr>"
  "lv_controller (set_job p v) = lv_controller v" "lv_meters (set_job p v) = lv_meters v"
  "lv_job (set_job p v) = (lv_job v)\<lparr>jl_job := p\<rparr>"
  "lv_controller (set_meter c m v) = lv_controller v" "lv_meters (set_meter c m v) = (lv_meters v)(c := m)"
  "lv_job (set_meter c m v) = lv_job v"
  by (simp_all add: set_comp_def set_job_def set_meter_def)

definition view_ok :: "ledger_view \<Rightarrow> bool" where
  "view_ok v \<longleftrightarrow> pool_ok (lv_controller v) \<and> pool_ok (jobp v) \<and> (\<forall>c. pool_ok (comp c v))"

definition loads_ok :: "transfer_reservation \<Rightarrow> ledger_view \<Rightarrow> bool" where
  "loads_ok r v \<longleftrightarrow> tr_bytes r \<le> po_outstanding (lv_controller v) \<and> held_job r \<le> po_outstanding (jobp v)
     \<and> (\<forall>c. held_comp c r \<le> po_outstanding (comp c v)) \<and> (\<forall>c. held_meter c r \<le> fst (lv_meters v c))"

definition meter_total :: "(component \<Rightarrow> component_meter) \<Rightarrow> nat" where
  "meter_total ms = fst (ms NetworkIngress) + fst (ms Frames) + fst (ms Writer) + fst (ms component.Checkpoint)"

definition meter_room :: "ledger_view \<Rightarrow> bool" where
  "meter_room v \<longleftrightarrow> meter_total (lv_meters v) + po_cap (lv_controller v) \<le> po_outstanding (lv_controller v) + u64_max"

definition moves :: "(component \<Rightarrow> nat) \<Rightarrow> transfer_reservation \<Rightarrow> transfer_reservation \<Rightarrow> ledger_view \<Rightarrow> ledger_view \<Rightarrow> bool" where
  "moves lk r r' v v' \<longleftrightarrow>
     pool_moves (tr_bytes r) (tr_bytes r') (lv_controller v) (lv_controller v')
     \<and> pool_moves (held_job r) (held_job r') (jobp v) (jobp v')
     \<and> (\<forall>c. pool_moves (held_comp c r) (held_comp c r' + lk c) (comp c v) (comp c v'))
     \<and> (\<forall>c. fst (lv_meters v' c) + held_meter c r = fst (lv_meters v c) + held_meter c r')
     \<and> jl_component_caps (lv_job v') = jl_component_caps (lv_job v)"

abbreviation no_leak :: "component \<Rightarrow> nat" where
  "no_leak \<equiv> \<lambda>_. 0"

lemma meter_le_total: "fst (ms c) \<le> meter_total ms"
  by (cases c) (simp_all add: meter_total_def)

lemma meters_le_total: "c \<noteq> d \<Longrightarrow> fst (ms c) + fst (ms d) \<le> meter_total ms"
  by (cases c; cases d) (simp_all add: meter_total_def)

lemma view_ok_pools: "view_ok v \<Longrightarrow> pool_ok (lv_controller v) \<and> pool_ok (jobp v) \<and> pool_ok (comp c v)"
  by (simp add: view_ok_def)

lemma moves_refl: "view_ok v \<Longrightarrow> moves no_leak r r v v"
  by (simp add: moves_def view_ok_def pool_moves_refl)

lemma free_component_moves:
  assumes "pool_ok (comp c v)" "n \<le> po_outstanding (comp c v)"
  obtains p where "free_component True c n v = Done (set_comp c p v)" "pool_moves n 0 (comp c v) p"
  by (rule pool_free_moves [OF assms]) (simp add: free_component_def that)

lemma free_job_moves:
  assumes "pool_ok (jobp v)" "n \<le> po_outstanding (jobp v)"
  obtains p where "free_job True n v = Done (set_job p v)" "pool_moves n 0 (jobp v) p"
  by (rule pool_free_moves [OF assms]) (simp add: free_job_def that)

lemma free_controller_moves:
  assumes "pool_ok (lv_controller v)" "n \<le> po_outstanding (lv_controller v)"
  obtains p where "free_controller True n v = Done (v\<lparr>lv_controller := p\<rparr>)" "pool_moves n 0 (lv_controller v) p"
  by (rule pool_free_moves [OF assms]) (simp add: free_controller_def that)

lemma free_meter_exact:
  assumes "n \<le> fst (lv_meters v c)" "fst (lv_meters v c) \<le> u64_max"
  shows "free_meter True c n v = Done (set_meter c (fst (lv_meters v c) - n, snd (lv_meters v c)) v)"
  using assms by (simp add: free_meter_def meter_release_def u64_exact)

lemma charge_meter_fields:
  assumes "fst (lv_meters v c) + n \<le> u64_max"
  shows "fst (lv_meters (charge_meter c n v) d) = fst (lv_meters v d) + (if d = c then n else 0)"
    and "lv_controller (charge_meter c n v) = lv_controller v" and "lv_job (charge_meter c n v) = lv_job v"
  using assms by (simp_all add: charge_meter_def meter_charge_def Let_def u64_exact)

text \<open>The stage of a reservation does not count in the meters, and only its own component counts it.\<close>

lemma held_stage [simp]:
  "held_meter c (r\<lparr>tr_stage := s\<rparr>) = held_meter c r"
  "held_job (r\<lparr>tr_stage := s\<rparr>) = tr_bytes r + job_extra s"
  "held_comp c (r\<lparr>tr_stage := s\<rparr>) = (if tr_component r = c then tr_bytes r + comp_extra s else 0)"
  by (simp_all add: held_meter_def held_job_def held_comp_def)

lemma component_turn:
  assumes ok: "view_ok v" and s: "tr_stage r = AtComponent n t" and fits: "stage_fits r v (tr_stage r)"
  shows "\<exists>r' v'. poll_reservation True fresh r v = Done (r', v') \<and> moves no_leak r r' v v' \<and> stage_fits r' v' (tr_stage r') \<and> retags_away r'"
proof -
  let ?c = "tr_component r"
  have f: "t = None \<or> n \<le> po_cap (comp ?c v)" using fits s by (cases t) auto
  have still: "held_job r = tr_bytes r" "\<And>d. held_comp d r = (if ?c = d then tr_bytes r else 0)"
    using s by (simp_all add: held_job_def held_comp_def)
  have same: "moves no_leak r (r\<lparr>tr_stage := s'\<rparr>) v (set_comp ?c p v)"
    if "pool_moves 0 (comp_extra s') (comp ?c v) p" "job_extra s' = 0" for s' p
    unfolding moves_def using that still ok
    by (auto simp: view_ok_def pool_moves_refl intro: pool_moves_shift)
  show ?thesis
  proof (cases rule: acquire_turn_moves [OF conjunct2 [OF conjunct2 [OF view_ok_pools [OF ok, of ?c]]] f, where fresh = fresh])
    case (1 p)
    then show ?thesis using s same [of "AtJob n None" p] by (simp add: poll_reservation_def retags_away_def)
  next
    case (2 p t')
    moreover have "po_cap p = po_cap (comp ?c v)" using 2(2) by (simp add: pool_moves_def)
    ultimately show ?thesis using s same [of "AtComponent n t'" p]
      by (cases t') (simp_all add: poll_reservation_def retags_away_def)
  next
    case (3 p e)
    then show ?thesis using s same [of Settled p] by (simp add: poll_reservation_def retags_away_def)
  qed
qed

lemma loads_parts:
  assumes "loads_ok r v"
  shows "tr_bytes r + comp_extra (tr_stage r) \<le> po_outstanding (comp (tr_component r) v)"
    and "tr_bytes r + job_extra (tr_stage r) \<le> po_outstanding (jobp v)" and "tr_bytes r \<le> po_outstanding (lv_controller v)"
    and "tr_bytes r \<le> fst (lv_meters v (tr_component r))"
proof -
  have "held_comp (tr_component r) r \<le> po_outstanding (comp (tr_component r) v)"
    "held_meter (tr_component r) r \<le> fst (lv_meters v (tr_component r))"
    using assms unfolding loads_ok_def by blast+
  then show "tr_bytes r + comp_extra (tr_stage r) \<le> po_outstanding (comp (tr_component r) v)"
    "tr_bytes r \<le> fst (lv_meters v (tr_component r))"
    by (simp_all add: held_comp_def held_meter_def)
  show "tr_bytes r + job_extra (tr_stage r) \<le> po_outstanding (jobp v)" "tr_bytes r \<le> po_outstanding (lv_controller v)"
    using assms by (simp_all add: loads_ok_def held_job_def)
qed

text \<open>What every operation on a reservation owes the invariant.\<close>

definition keeps :: "transfer_reservation \<Rightarrow> ledger_view \<Rightarrow> (transfer_reservation \<times> ledger_view) outcome \<Rightarrow> bool" where
  "keeps r v out \<longleftrightarrow>
     (\<exists>r' v'. out = Done (r', v') \<and> moves no_leak r r' v v' \<and> stage_fits r' v' (tr_stage r') \<and> retags_away r')"

lemma keepsI:
  "out = Done (r', v') \<Longrightarrow> moves no_leak r r' v v' \<Longrightarrow> stage_fits r' v' (tr_stage r') \<Longrightarrow> retags_away r' \<Longrightarrow> keeps r v out"
  by (auto simp: keeps_def)

lemma keeps_settled:
  "out = Done (r', v') \<Longrightarrow> moves no_leak r r' v v' \<Longrightarrow> tr_stage r' = Settled \<Longrightarrow> keeps r v out"
  by (auto simp: keeps_def retags_away_def)

lemma job_turn:
  assumes ok: "view_ok v" and s: "tr_stage r = AtJob n t" and fits: "stage_fits r v (tr_stage r)" and loads: "loads_ok r v"
  shows "keeps r v (poll_reservation True fresh r v)"
proof -
  let ?c = "tr_component r"
  have f: "t = None \<or> n \<le> po_cap (jobp v)" using fits s by (cases t) auto
  have okj: "pool_ok (jobp v)" and okc: "pool_ok (comp ?c v)" using ok by (simp_all add: view_ok_def)
  have still: "held_job r = tr_bytes r" "\<And>d. held_comp d r = (if ?c = d then tr_bytes r + n else 0)"
    using s by (simp_all add: held_job_def held_comp_def)
  have n: "n \<le> po_outstanding (comp ?c v)" using loads_parts(1) [OF loads] s by simp
  have same: "moves no_leak r (r\<lparr>tr_stage := s'\<rparr>) v (set_job p v)"
    if "pool_moves 0 (job_extra s') (jobp v) p" "comp_extra s' = n" for s' p
    unfolding moves_def using that still ok
    by (auto simp: view_ok_def pool_moves_refl intro: pool_moves_shift)
  show ?thesis
  proof (cases rule: acquire_turn_moves [OF okj f, where fresh = fresh])
    case (1 p)
    then show ?thesis
      by (intro keepsI [OF _ same [of "AtController n None" p]]) (simp_all add: s poll_reservation_def retags_away_def)
  next
    case (2 p t')
    moreover have "po_cap p = po_cap (jobp v)" using 2(2) by (simp add: pool_moves_def)
    ultimately show ?thesis
      by (intro keepsI [OF _ same [of "AtJob n t'" p]]) (cases t'; simp add: s poll_reservation_def retags_away_def)+
  next
    case (3 p e)
    have "comp ?c (set_job p v) = comp ?c v" by simp
    then obtain q where q: "free_component True ?c n (set_job p v) = Done (set_comp ?c q (set_job p v))"
      "pool_moves n 0 (comp ?c v) q"
      using free_component_moves [where c = ?c and v = "set_job p v" and n = n] okc n by metis
    have "moves no_leak r (r\<lparr>tr_stage := Settled\<rparr>) v (set_comp ?c q (set_job p v))"
      unfolding moves_def using q(2) 3(2) still ok
      by (auto simp: view_ok_def pool_moves_refl intro: pool_moves_shift)
    then show ?thesis
      by (intro keeps_settled [of _ "r\<lparr>tr_stage := Settled\<rparr>" "set_comp ?c q (set_job p v)"])
        (simp_all add: s 3 q poll_reservation_def)
  qed
qed

lemma controller_turn:
  assumes ok: "view_ok v" and s: "tr_stage r = AtController n t" and fits: "stage_fits r v (tr_stage r)"
    and loads: "loads_ok r v" and room: "meter_room v"
  shows "keeps r v (poll_reservation True fresh r v)"
proof -
  let ?c = "tr_component r"
  have f: "t = None \<or> n \<le> po_cap (lv_controller v)" using fits s by (cases t) auto
  have oka: "pool_ok (lv_controller v)" and okj: "pool_ok (jobp v)" and okc: "pool_ok (comp ?c v)"
    using ok by (simp_all add: view_ok_def)
  have still: "held_job r = tr_bytes r + n" "\<And>d. held_comp d r = (if ?c = d then tr_bytes r + n else 0)"
    using s by (simp_all add: held_job_def held_comp_def)
  have n: "n \<le> po_outstanding (comp ?c v)" "n \<le> po_outstanding (jobp v)"
    using loads_parts(1,2) [OF loads] s by simp_all
  show ?thesis
  proof (cases rule: acquire_turn_moves [OF oka f, where fresh = fresh])
    case (1 p)
    let ?v = "v\<lparr>lv_controller := p\<rparr>" and ?r = "r\<lparr>tr_bytes := tr_bytes r + n, tr_stage := Settled\<rparr>"
    have p: "po_outstanding p = po_outstanding (lv_controller v) + n" "po_outstanding p \<le> po_cap (lv_controller v)"
      using 1(2) by (auto simp: pool_moves_def pool_ok_def)
    have le: "fst (lv_meters ?v ?c) + n \<le> u64_max"
      using room meter_le_total [of "lv_meters v" ?c] p by (simp add: meter_room_def)
    have "tr_bytes r + n \<le> u64_max" using loads p oka by (simp add: loads_ok_def pool_ok_def)
    then have add: "u64_add (tr_bytes r) n = tr_bytes r + n" by (rule u64_add_exact)
    have "moves no_leak r ?r v (charge_meter ?c n ?v)"
      unfolding moves_def charge_meter_fields(2,3) [OF le] charge_meter_fields(1) [OF le]
      using 1(2) still ok
      by (auto simp: view_ok_def pool_moves_refl held_job_def held_comp_def held_meter_def intro: pool_moves_shift)
    then show ?thesis
      by (intro keeps_settled [of _ ?r "charge_meter ?c n ?v"]) (simp_all add: s 1 add poll_reservation_def)
  next
    case (2 p t')
    have "po_cap p = po_cap (lv_controller v)" using 2(2) by (simp add: pool_moves_def)
    moreover have "moves no_leak r (r\<lparr>tr_stage := AtController n t'\<rparr>) v (v\<lparr>lv_controller := p\<rparr>)"
      unfolding moves_def using 2(2) still ok by (auto simp: view_ok_def pool_moves_refl intro: pool_moves_shift)
    ultimately show ?thesis using 2
      by (intro keepsI [of _ "r\<lparr>tr_stage := AtController n t'\<rparr>" "v\<lparr>lv_controller := p\<rparr>"])
        (cases t'; simp add: s poll_reservation_def retags_away_def)+
  next
    case (3 p e)
    let ?v = "v\<lparr>lv_controller := p\<rparr>"
    obtain q where q: "free_job True n ?v = Done (set_job q ?v)" "pool_moves n 0 (jobp v) q"
      using free_job_moves [of ?v n] okj n(2) by auto
    obtain u where u: "free_component True ?c n (set_job q ?v) = Done (set_comp ?c u (set_job q ?v))" "pool_moves n 0 (comp ?c v) u"
      using free_component_moves [where c = ?c and v = "set_job q ?v" and n = n] okc n(1) by auto
    have "moves no_leak r (r\<lparr>tr_stage := Settled\<rparr>) v (set_comp ?c u (set_job q ?v))"
      unfolding moves_def using q(2) u(2) 3(2) still ok
      by (auto simp: view_ok_def pool_moves_refl intro: pool_moves_shift)
    then show ?thesis
      by (intro keeps_settled [of _ "r\<lparr>tr_stage := Settled\<rparr>" "set_comp ?c u (set_job q ?v)"])
        (simp_all add: s 3 q u poll_reservation_def)
  qed
qed

lemma swap_tag_moves:
  assumes ok: "view_ok v" and s: "tr_stage r = AtRetag to t" and away: "to \<noteq> tr_component r"
    and p: "pool_moves 0 (tr_bytes r) (comp to v) p" and loads: "loads_ok r v" and room: "meter_room v"
  shows "keeps r v (swap_tag True to r (set_comp to p v))"
proof -
  let ?c = "tr_component r" and ?n = "tr_bytes r" and ?v = "set_comp to p v"
  have okc: "pool_ok (comp ?c v)" and oka: "pool_ok (lv_controller v)" using ok by (simp_all add: view_ok_def)
  note parts = loads_parts [OF loads]
  have total: "meter_total (lv_meters v) \<le> u64_max" using room oka by (simp add: meter_room_def pool_ok_def)
  obtain q where q: "free_component True ?c ?n ?v = Done (set_comp ?c q ?v)" "pool_moves ?n 0 (comp ?c v) q"
    using free_component_moves [where c = ?c and v = ?v and n = ?n] okc parts(1) away s by auto
  let ?m = "(fst (lv_meters v ?c) - ?n, snd (lv_meters v ?c))" and ?v1 = "set_comp ?c q ?v"
  have m: "free_meter True ?c ?n ?v1 = Done (set_meter ?c ?m ?v1)"
    using free_meter_exact [of ?n ?v1 ?c] parts(4) meter_le_total [of "lv_meters v" ?c] total by simp
  have le: "fst (lv_meters (set_meter ?c ?m ?v1) to) + ?n \<le> u64_max"
    using meters_le_total [OF away, of "lv_meters v"] total parts(4) away by simp
  let ?r = "r\<lparr>tr_component := to, tr_stage := Settled\<rparr>" and ?v2 = "charge_meter to ?n (set_meter ?c ?m ?v1)"
  have "moves no_leak r ?r v ?v2"
    unfolding moves_def charge_meter_fields(2,3) [OF le] charge_meter_fields(1) [OF le]
    using p q(2) ok away s parts(4)
    by (auto simp: view_ok_def pool_moves_refl held_job_def held_comp_def held_meter_def intro: pool_moves_shift)
  then show ?thesis by (intro keeps_settled [of _ ?r ?v2]) (simp_all add: swap_tag_def q m)
qed

lemma retag_turn:
  assumes ok: "view_ok v" and s: "tr_stage r = AtRetag to t" and fits: "stage_fits r v (tr_stage r)"
    and loads: "loads_ok r v" and room: "meter_room v" and away: "retags_away r"
  shows "keeps r v (poll_reservation True fresh r v)"
proof -
  have f: "t = None \<or> tr_bytes r \<le> po_cap (comp to v)" using fits s by (cases t) auto
  have okt: "pool_ok (comp to v)" using ok by (simp add: view_ok_def)
  have ne: "to \<noteq> tr_component r" using away s by (simp add: retags_away_def)
  have same: "moves no_leak r (r\<lparr>tr_stage := s'\<rparr>) v (set_comp to p v)"
    if "pool_moves 0 0 (comp to v) p" "comp_extra s' = 0" "job_extra s' = 0" for s' p
    unfolding moves_def using that ok ne s
    by (auto simp: view_ok_def pool_moves_refl held_job_def held_comp_def intro: pool_moves_shift)
  show ?thesis
  proof (cases rule: acquire_turn_moves [OF okt f, where fresh = fresh])
    case (1 p)
    then show ?thesis using swap_tag_moves [OF ok s ne 1(2) loads room] by (simp add: s poll_reservation_def)
  next
    case (2 p t')
    moreover have "po_cap p = po_cap (comp to v)" using 2(2) by (simp add: pool_moves_def)
    ultimately show ?thesis using ne
      by (intro keepsI [OF _ same [of p "AtRetag to t'"]]) (cases t'; simp add: s poll_reservation_def retags_away_def)+
  next
    case (3 p e)
    then show ?thesis by (intro keeps_settled [OF _ same [of p Settled]]) (simp_all add: s poll_reservation_def)
  qed
qed

lemma poll_keeps:
  assumes "view_ok v" "stage_fits r v (tr_stage r)" "loads_ok r v" "meter_room v" "retags_away r"
  shows "keeps r v (poll_reservation True fresh r v)"
proof (cases "tr_stage r")
  case Settled
  then show ?thesis using assms moves_refl by (intro keeps_settled [of _ r v]) (simp_all add: poll_reservation_def)
next
  case (AtComponent n t)
  then show ?thesis using component_turn [OF assms(1) AtComponent assms(2)] by (auto simp: keeps_def)
qed (use assms job_turn controller_turn retag_turn in blast)+

lemma cancel_keeps:
  assumes ok: "view_ok v" and loads: "loads_ok r v"
  shows "keeps r v (cancel_reservation True r v)"
proof -
  let ?c = "tr_component r" and ?r = "r\<lparr>tr_stage := Settled\<rparr>"
  have oks: "pool_ok (lv_controller v)" "pool_ok (jobp v)" "\<And>c. pool_ok (comp c v)" using ok by (simp_all add: view_ok_def)
  note parts = loads_parts [OF loads] and unfolds = cancel_reservation_def moves_def held_job_def held_comp_def
  show ?thesis
  proof (cases "tr_stage r")
    case Settled
    then show ?thesis using oks
      by (intro keeps_settled [of _ ?r v]) (auto simp: unfolds pool_moves_refl)
  next
    case (AtComponent n t)
    then show ?thesis using oks
      by (intro keeps_settled [of _ ?r "set_comp ?c (drop_ticket t (comp ?c v)) v"])
        (auto simp: unfolds pool_moves_refl drop_ticket_moves)
  next
    case (AtRetag to t)
    then show ?thesis using oks
      by (intro keeps_settled [of _ ?r "set_comp to (drop_ticket t (comp to v)) v"])
        (auto simp: unfolds pool_moves_refl drop_ticket_moves)
  next
    case (AtJob n t)
    let ?v = "set_job (drop_ticket t (jobp v)) v"
    obtain q where q: "free_component True ?c n ?v = Done (set_comp ?c q ?v)" "pool_moves n 0 (comp ?c v) q"
      using free_component_moves [where c = ?c and v = ?v and n = n] oks parts(1) AtJob by auto
    then show ?thesis using oks AtJob
      by (intro keeps_settled [of _ ?r "set_comp ?c q ?v"])
        (auto simp: unfolds pool_moves_refl drop_ticket_moves intro: pool_moves_shift)
  next
    case (AtController n t)
    let ?v = "v\<lparr>lv_controller := drop_ticket t (lv_controller v)\<rparr>"
    obtain q where q: "free_job True n ?v = Done (set_job q ?v)" "pool_moves n 0 (jobp v) q"
      using free_job_moves [of ?v n] oks parts(2) AtController by auto
    obtain u where u: "free_component True ?c n (set_job q ?v) = Done (set_comp ?c u (set_job q ?v))" "pool_moves n 0 (comp ?c v) u"
      using free_component_moves [where c = ?c and v = "set_job q ?v" and n = n] oks parts(1) AtController by auto
    show ?thesis using oks AtController q u
      by (intro keeps_settled [of _ ?r "set_comp ?c u (set_job q ?v)"])
        (auto simp: unfolds pool_moves_refl drop_ticket_moves intro: pool_moves_shift)
  qed
qed

lemma release_bytes_moves:
  assumes ok: "view_ok v" and loads: "loads_ok r v" and room: "meter_room v" and s: "tr_stage r = Settled" and n: "n \<le> tr_bytes r"
  obtains v' where "release_bytes True n r v = Done v'" "moves no_leak r (r\<lparr>tr_bytes := tr_bytes r - n\<rparr>) v v'"
proof -
  let ?c = "tr_component r"
  have oks: "pool_ok (lv_controller v)" "pool_ok (jobp v)" "\<And>c. pool_ok (comp c v)" using ok by (simp_all add: view_ok_def)
  note parts = loads_parts [OF loads]
  have total: "meter_total (lv_meters v) \<le> u64_max" using room oks(1) by (simp add: meter_room_def pool_ok_def)
  obtain p where p: "free_controller True n v = Done (v\<lparr>lv_controller := p\<rparr>)" "pool_moves n 0 (lv_controller v) p"
    using free_controller_moves [of v n] oks(1) parts(3) n by auto
  let ?v1 = "v\<lparr>lv_controller := p\<rparr>" and ?m = "(fst (lv_meters v ?c) - n, snd (lv_meters v ?c))"
  have m: "free_meter True ?c n ?v1 = Done (set_meter ?c ?m ?v1)"
    using free_meter_exact [of n ?v1 ?c] parts(4) n meter_le_total [of "lv_meters v" ?c] total by simp
  let ?v2 = "set_meter ?c ?m ?v1"
  obtain q where q: "free_job True n ?v2 = Done (set_job q ?v2)" "pool_moves n 0 (jobp v) q"
    using free_job_moves [of ?v2 n] oks(2) parts(2) n by auto
  let ?v3 = "set_job q ?v2"
  obtain u where u: "free_component True ?c n ?v3 = Done (set_comp ?c u ?v3)" "pool_moves n 0 (comp ?c v) u"
    using free_component_moves [where c = ?c and v = ?v3 and n = n] oks(3) parts(1) n by auto
  have "release_bytes True n r v = Done (set_comp ?c u ?v3)" by (simp add: release_bytes_def p m q u)
  moreover have "moves no_leak r (r\<lparr>tr_bytes := tr_bytes r - n\<rparr>) v (set_comp ?c u ?v3)"
    unfolding moves_def using p(2) q(2) u(2) oks s n parts(4)
    by (auto simp: pool_moves_refl held_job_def held_comp_def held_meter_def intro: pool_moves_shift)
  ultimately show thesis by (rule that)
qed

lemma reconcile_keeps:
  assumes "view_ok v" "loads_ok r v" "meter_room v" "tr_stage r = Settled"
  shows "keeps r v (reservation_reconcile True n r v)"
proof (cases "n < tr_bytes r")
  case True
  then have undo: "tr_bytes r - (tr_bytes r - n) = n" by simp
  obtain v' where v': "release_bytes True (tr_bytes r - n) r v = Done v'" "moves no_leak r (r\<lparr>tr_bytes := n\<rparr>) v v'"
    using release_bytes_moves [OF assms diff_le_self [of "tr_bytes r" n]] unfolding undo by blast
  then show ?thesis using True assms(4)
    by (intro keeps_settled [OF _ v'(2)]) (simp_all add: reservation_reconcile_def shrink_to_def Let_def)
next
  case False
  then show ?thesis using assms(1,4)
    by (intro keeps_settled [OF _ moves_refl]) (simp_all add: reservation_reconcile_def)
qed

lemma drop_keeps:
  assumes "view_ok v" "loads_ok r v" "meter_room v" "tr_stage r = Settled"
  shows "keeps r v (drop_reservation True r v)"
proof -
  obtain v' where v': "release_bytes True (tr_bytes r) r v = Done v'" "moves no_leak r (r\<lparr>tr_bytes := tr_bytes r - tr_bytes r\<rparr>) v v'"
    by (rule release_bytes_moves [OF assms order_refl])
  then show ?thesis using assms(4)
    by (intro keeps_settled [OF _ v'(2)]) (simp_all add: drop_reservation_def)
qed

section \<open>The non-blocking reservation\<close>

definition nothing :: "component \<Rightarrow> transfer_reservation" where
  "nothing c = \<lparr>tr_component = c, tr_bytes = 0, tr_tightest_cap = 0, tr_stage = Settled\<rparr>"

definition only :: "component \<Rightarrow> nat \<Rightarrow> component \<Rightarrow> nat" where
  "only c n d = (if d = c then n else 0)"

lemma nothing_held [simp]: "tr_bytes (nothing c) = 0" "held_job (nothing c) = 0" "held_comp d (nothing c) = 0" "held_meter d (nothing c) = 0"
  by (simp_all add: nothing_def held_job_def held_comp_def held_meter_def)

text \<open>
  The outcome of \<open>try_reserve\<close>: granted with every scope charged, or refused with nothing charged, or refused
  by the aggregate pool, after the other two admitted the bytes, with the component pool still charged.
\<close>

definition tried :: "component \<Rightarrow> u64 \<Rightarrow> ledger_view \<Rightarrow> (ledger_refusal + transfer_reservation) \<times> ledger_view \<Rightarrow> bool" where
  "tried c n v rv \<longleftrightarrow>
     (case rv of
        (Inr r, v') \<Rightarrow> moves no_leak (nothing c) r v v' \<and> tr_stage r = Settled \<and> tr_bytes r = n
      | (Inl f, v') \<Rightarrow> moves (only c (if refused_late c n v then n else 0)) (nothing c) (nothing c) v v')"

lemma try_controller_tried:
  assumes ok: "view_ok v" and room: "meter_room v" and p: "pool_moves 0 n (comp c v) p" and q: "pool_moves 0 n (jobp v) q"
    and adm: "n \<le> tightest_cap v c" "admits n (comp c v)" "admits n (jobp v)"
  obtains rv where "try_controller True c n (set_job q (set_comp c p v)) = Done rv" "tried c n v rv"
proof -
  let ?v = "set_job q (set_comp c p v)"
  have oks: "pool_ok (lv_controller v)" "pool_ok (jobp v)" "\<And>c. pool_ok (comp c v)" using ok by (simp_all add: view_ok_def)
  have "pool_ok q" "n \<le> po_outstanding q" using q by (simp_all add: pool_moves_def)
  then obtain q' where q': "free_job True n ?v = Done (set_job q' ?v)" "pool_moves n 0 q q'"
    using free_job_moves [of ?v n] by auto
  have "pool_moves 0 0 (jobp v) q'" using pool_moves_trans [OF q q'(2)] .
  then have undo: "moves (only c n) (nothing c) (nothing c) v (set_job q' ?v)"
    unfolding moves_def using p oks by (auto simp: only_def pool_moves_refl)
  have le: "po_cap (lv_controller ?v) \<le> u64_max" using oks(1) by (simp add: pool_ok_def)
  show thesis
  proof (cases rule: probe_cases [OF le, where dbg = True and n = n])
    case (1 a)
    let ?r = "\<lparr>tr_component = c, tr_bytes = n, tr_tightest_cap = tightest_cap ?v c, tr_stage = Settled\<rparr>"
    let ?w = "?v\<lparr>lv_controller := a\<rparr>"
    have a: "pool_moves 0 n (lv_controller v) a" using charged_moves [OF 1(2)] oks(1) by simp
    have m: "fst (lv_meters ?w c) + n \<le> u64_max"
      using room meter_le_total [of "lv_meters v" c] a by (auto simp: meter_room_def pool_moves_def pool_ok_def)
    have "moves no_leak (nothing c) ?r v (charge_meter c n ?w)"
      unfolding moves_def charge_meter_fields(2,3) [OF m] charge_meter_fields(1) [OF m]
      using a p q oks by (auto simp: pool_moves_refl held_job_def held_comp_def held_meter_def nothing_def)
    then show thesis using that [of "(Inr ?r, charge_meter c n ?w)"] 1(1) by (simp add: try_controller_def tried_def)
  next
    case 2
    then have "refused_late c n v" using adm by (auto simp: refused_late_def admits_def)
    then show thesis using 2 that [of "(Inl (NoCapacity c), set_job q' ?v)"] undo q'(1) by (simp add: try_controller_def tried_def)
  next
    case (3 f)
    then have "refused_late c n v" using adm by (auto simp: refused_late_def admits_def)
    then show thesis using 3 that [of "(Inl (Oversize f), set_job q' ?v)"] undo q'(1) by (simp add: try_controller_def tried_def)
  qed
qed

lemma try_job_tried:
  assumes ok: "view_ok v" and room: "meter_room v" and p: "pool_moves 0 n (comp c v) p"
    and adm: "n \<le> tightest_cap v c" "admits n (comp c v)"
  obtains rv where "try_job True c n (set_comp c p v) = Done rv" "tried c n v rv"
proof -
  let ?v = "set_comp c p v"
  have oks: "pool_ok (lv_controller v)" "pool_ok (jobp v)" "\<And>c. pool_ok (comp c v)" using ok by (simp_all add: view_ok_def)
  have "pool_ok p" "n \<le> po_outstanding p" using p by (simp_all add: pool_moves_def)
  then obtain p' where p': "free_component True c n ?v = Done (set_comp c p' ?v)" "pool_moves n 0 p p'"
    using free_component_moves [where c = c and v = ?v and n = n] by auto
  have "pool_moves 0 0 (comp c v) p'" using pool_moves_trans [OF p p'(2)] .
  then have undo: "moves (only c 0) (nothing c) (nothing c) v (set_comp c p' ?v)"
    unfolding moves_def using oks by (auto simp: pool_moves_refl only_def)
  have le: "po_cap (jobp ?v) \<le> u64_max" using oks(2) by (simp add: pool_ok_def)
  show thesis
  proof (cases rule: probe_cases [OF le, where dbg = True and n = n])
    case (1 q)
    then have q: "pool_moves 0 n (jobp v) q" using charged_moves [OF 1(2)] oks(2) by simp
    have "admits n (jobp v)" using 1(2,3) by (simp add: admits_def charged_def)
    then obtain rv where "try_controller True c n (set_job q ?v) = Done rv" "tried c n v rv"
      by (rule try_controller_tried [OF ok room p q adm])
    then show thesis using that 1(1) by (simp add: try_job_def)
  next
    case 2
    then have "\<not> refused_late c n v" by (auto simp: refused_late_def admits_def)
    then show thesis using 2 that [of "(Inl (NoCapacity c), set_comp c p' ?v)"] undo p'(1) by (simp add: try_job_def tried_def)
  next
    case (3 f)
    then have "\<not> refused_late c n v" by (auto simp: refused_late_def admits_def)
    then show thesis using 3 that [of "(Inl (Oversize f), set_comp c p' ?v)"] undo p'(1) by (simp add: try_job_def tried_def)
  qed
qed

lemma try_reserve_tried:
  assumes ok: "view_ok v" and room: "meter_room v"
  obtains rv where "try_reserve True c n v = Done rv" "tried c n v rv"
proof -
  have oks: "pool_ok (comp c v)" using ok by (simp add: view_ok_def)
  have none: "tried c n v (Inl f, v)" if "\<not> refused_late c n v" for f
    using moves_refl [OF ok, of "nothing c"] that by (simp add: tried_def moves_def only_def)
  have le: "po_cap (comp c v) \<le> u64_max" using oks by (simp add: pool_ok_def)
  show thesis
  proof (cases "tightest_cap v c < n")
    case True
    then have "\<not> refused_late c n v" by (simp add: refused_late_def)
    then show thesis using True that none by (simp add: try_reserve_def)
  next
    case small: False
    show thesis
    proof (cases rule: probe_cases [OF le, where dbg = True and n = n])
      case (1 p)
      obtain rv where "try_job True c n (set_comp c p v) = Done rv" "tried c n v rv"
        by (rule try_job_tried [OF ok room charged_moves [OF 1(2) oks]])
          (use small 1(2,3) in \<open>simp_all add: admits_def charged_def\<close>)
      then show thesis using that small 1(1) by (simp add: try_reserve_def)
    next
      case 2
      then have "\<not> refused_late c n v" by (auto simp: refused_late_def admits_def)
      then show thesis using 2 that small none by (simp add: try_reserve_def)
    next
      case (3 f)
      then have "\<not> refused_late c n v" by (auto simp: refused_late_def admits_def)
      then show thesis using 3 that small none by (simp add: try_reserve_def)
    qed
  qed
qed

section \<open>The invariant\<close>

definition load :: "((nat \<times> transfer_reservation) \<Rightarrow> nat) \<Rightarrow> ledger_system \<Rightarrow> nat" where
  "load f x = sum_list (map f (ly_slots x))"

definition of_job :: "nat \<Rightarrow> (transfer_reservation \<Rightarrow> nat) \<Rightarrow> (nat \<times> transfer_reservation) \<Rightarrow> nat" where
  "of_job j f s = (if fst s = j then f (snd s) else 0)"

definition of_any :: "(transfer_reservation \<Rightarrow> nat) \<Rightarrow> (nat \<times> transfer_reservation) \<Rightarrow> nat" where
  "of_any f s = f (snd s)"

definition ledger_counts :: "ledger_system \<Rightarrow> bool" where
  "ledger_counts x \<longleftrightarrow>
     po_outstanding (ly_controller x) = load (of_any tr_bytes) x
     \<and> (\<forall>j. po_outstanding (jl_job (ly_jobs x j)) = load (of_job j held_job) x)
     \<and> (\<forall>j c. po_outstanding (jl_components (ly_jobs x j) c) = load (of_job j (held_comp c)) x + late_bytes x j c)
     \<and> (\<forall>c. fst (ly_meters x c) = load (of_any (held_meter c)) x + only NetworkIngress (sum_list (ly_connections x)) c)"

definition ledger_caps :: "transfer_memory_config \<Rightarrow> u64 \<Rightarrow> ledger_system \<Rightarrow> bool" where
  "ledger_caps config carve x \<longleftrightarrow>
     po_cap (ly_controller x) = tm_aggregate_max_bytes config - carve
     \<and> (\<forall>j. po_cap (jl_job (ly_jobs x j)) = tm_job_max_bytes config
          \<and> (\<forall>c. po_cap (jl_components (ly_jobs x j) c) = component_caps config c)
          \<and> jl_component_caps (ly_jobs x j) = component_caps config)
     \<and> sum_list (ly_connections x) \<le> carve"

definition slots_ok :: "ledger_system \<Rightarrow> bool" where
  "slots_ok x \<longleftrightarrow> (\<forall>(j, r)\<in>set (ly_slots x). stage_fits r (view x j) (tr_stage r) \<and> retags_away r)"

definition ledger_inv :: "transfer_memory_config \<Rightarrow> u64 \<Rightarrow> ledger_system \<Rightarrow> bool" where
  "ledger_inv config carve x \<longleftrightarrow>
     ledger_counts x \<and> ledger_caps config carve x \<and> (\<forall>j. view_ok (view x j)) \<and> slots_ok x"

text \<open>The sizes a validated configuration has: everything fits the machine word and the carve-out fits the aggregate.\<close>

definition sizes_ok :: "transfer_memory_config \<Rightarrow> u64 \<Rightarrow> bool" where
  "sizes_ok config carve \<longleftrightarrow>
     carve \<le> tm_aggregate_max_bytes config \<and> tm_aggregate_max_bytes config \<le> u64_max
     \<and> tm_job_max_bytes config \<le> u64_max \<and> (\<forall>c. component_caps config c \<le> u64_max)"

lemma view_fields [simp]: "lv_controller (view x j) = ly_controller x" "lv_meters (view x j) = ly_meters x" "lv_job (view x j) = ly_jobs x j"
  by (simp_all add: view_def)

lemma stage_fits_caps:
  assumes "po_cap (lv_controller v') = po_cap (lv_controller v)" "po_cap (jobp v') = po_cap (jobp v)"
    "\<And>c. po_cap (comp c v') = po_cap (comp c v)"
  shows "stage_fits r v' s = stage_fits r v s"
  by (cases "(r, v, s)" rule: stage_fits.cases) (simp_all add: assms)

lemma load_meters: "load (of_any (held_meter NetworkIngress)) x + load (of_any (held_meter Frames)) x
   + load (of_any (held_meter Writer)) x + load (of_any (held_meter component.Checkpoint)) x = load (of_any tr_bytes) x"
proof -
  have "(held_meter NetworkIngress r + held_meter Frames r + held_meter Writer r + held_meter component.Checkpoint r) = tr_bytes r" for r
    by (cases "tr_component r") (simp_all add: held_meter_def)
  then show ?thesis by (simp add: load_def of_any_def [abs_def] sum_list_addf [symmetric])
qed

lemma inv_meter_room:
  assumes "ledger_inv config carve x" "sizes_ok config carve"
  shows "meter_room (view x j)"
proof -
  have "meter_total (ly_meters x) = load (of_any tr_bytes) x + sum_list (ly_connections x)"
    using assms(1) load_meters [of x] by (simp add: ledger_inv_def ledger_counts_def meter_total_def only_def)
  moreover have "po_outstanding (ly_controller x) = load (of_any tr_bytes) x"
    "po_cap (ly_controller x) = tm_aggregate_max_bytes config - carve" "sum_list (ly_connections x) \<le> carve"
    using assms(1) by (simp_all add: ledger_inv_def ledger_counts_def ledger_caps_def)
  moreover have "carve \<le> tm_aggregate_max_bytes config" "tm_aggregate_max_bytes config \<le> u64_max"
    using assms(2) by (simp_all add: sizes_ok_def)
  ultimately show ?thesis unfolding meter_room_def view_fields by linarith
qed

lemma inv_slot:
  assumes inv: "ledger_inv config carve x" and i: "i < length (ly_slots x)"
  shows "loads_ok (slot_res x i) (view x (slot_job x i))" "retags_away (slot_res x i)"
    and "stage_fits (slot_res x i) (view x (slot_job x i)) (tr_stage (slot_res x i))"
proof -
  let ?s = "ly_slots x ! i"
  have le: "f ?s \<le> load f x" for f unfolding load_def using i by (rule sum_list_map_nth_le)
  have counts: "ledger_counts x" using inv by (simp add: ledger_inv_def)
  show "loads_ok (slot_res x i) (view x (slot_job x i))"
    unfolding loads_ok_def view_fields
  proof (intro conjI allI)
    show "tr_bytes (slot_res x i) \<le> po_outstanding (ly_controller x)"
      using le [of "of_any tr_bytes"] counts by (simp add: ledger_counts_def of_any_def slot_res_def)
    show "held_job (slot_res x i) \<le> po_outstanding (jl_job (ly_jobs x (slot_job x i)))"
      using le [of "of_job (slot_job x i) held_job"] counts
      by (simp add: ledger_counts_def of_job_def slot_res_def slot_job_def)
    show "held_comp c (slot_res x i) \<le> po_outstanding (jl_components (ly_jobs x (slot_job x i)) c)" for c
      using le [of "of_job (slot_job x i) (held_comp c)"] counts
      by (simp add: ledger_counts_def of_job_def slot_res_def slot_job_def)
    show "held_meter c (slot_res x i) \<le> fst (ly_meters x c)" for c
      using le [of "of_any (held_meter c)"] counts by (simp add: ledger_counts_def of_any_def slot_res_def)
  qed
  have "(slot_job x i, slot_res x i) \<in> set (ly_slots x)" using i by (simp add: slot_job_def slot_res_def)
  then show "retags_away (slot_res x i)" "stage_fits (slot_res x i) (view x (slot_job x i)) (tr_stage (slot_res x i))"
    using inv by (auto simp: ledger_inv_def slots_ok_def)
qed

text \<open>A move of one reservation of job \<open>j\<close> keeps the invariant, with the leak it declares.\<close>

lemma inv_move:
  assumes inv: "ledger_inv config carve x" and mv: "moves lk r r' (view x j) v"
    and fields: "ly_controller y = lv_controller v" "ly_meters y = lv_meters v" "ly_jobs y = (ly_jobs x)(j := lv_job v)"
      "ly_connections y = ly_connections x" "\<And>k c. late_bytes y k c = late_bytes x k c + (if k = j then lk c else 0)"
    and sums: "\<And>f. (\<And>k c. f (k, nothing c) = 0) \<Longrightarrow> load f y + f (j, r) = load f x + f (j, r')"
    and slots: "set (ly_slots y) \<subseteq> insert (j, r') (set (ly_slots x))"
    and new: "stage_fits r' v (tr_stage r')" "retags_away r'"
  shows "ledger_inv config carve y"
proof -
  have counts: "ledger_counts x" and caps: "ledger_caps config carve x" and oks: "\<And>k. view_ok (view x k)" and sl: "slots_ok x"
    using inv by (simp_all add: ledger_inv_def)
  have ctl: "pool_moves (tr_bytes r) (tr_bytes r') (ly_controller x) (lv_controller v)"
    and job: "pool_moves (held_job r) (held_job r') (jl_job (ly_jobs x j)) (jobp v)"
    and cmp: "\<And>c. pool_moves (held_comp c r) (held_comp c r' + lk c) (jl_components (ly_jobs x j) c) (comp c v)"
    and mtr: "\<And>c. fst (lv_meters v c) + held_meter c r = fst (ly_meters x c) + held_meter c r'"
    and ccs: "jl_component_caps (lv_job v) = jl_component_caps (ly_jobs x j)"
    using mv by (simp_all add: moves_def)
  have any: "load (of_any f) y + f r = load (of_any f) x + f r'" if "\<And>c. f (nothing c) = 0" for f
    using sums [of "of_any f"] that by (simp add: of_any_def)
  have own: "load (of_job k f) y + (if k = j then f r else 0) = load (of_job k f) x + (if k = j then f r' else 0)"
    if "\<And>c. f (nothing c) = 0" for k f
  proof -
    have "of_job k f (l, nothing c) = 0" for l c using that by (simp add: of_job_def)
    from sums [of "of_job k f", OF this] show ?thesis by (auto simp: of_job_def split: if_splits)
  qed
  have "ledger_counts y"
    unfolding ledger_counts_def fields
  proof (intro conjI allI)
    show "po_outstanding (lv_controller v) = load (of_any tr_bytes) y"
      using any [of tr_bytes] counts ctl by (simp add: ledger_counts_def pool_moves_def)
    show "po_outstanding (jl_job (((ly_jobs x)(j := lv_job v)) k)) = load (of_job k held_job) y" for k
      using own [of held_job k] counts job by (cases "k = j") (simp_all add: ledger_counts_def pool_moves_def)
    show "po_outstanding (jl_components (((ly_jobs x)(j := lv_job v)) k) c)
        = load (of_job k (held_comp c)) y + (late_bytes x k c + (if k = j then lk c else 0))" for k c
      using own [of "held_comp c" k] counts cmp [of c] by (cases "k = j") (simp_all add: ledger_counts_def pool_moves_def)
    show "fst (lv_meters v c) = load (of_any (held_meter c)) y + only NetworkIngress (sum_list (ly_connections x)) c" for c
      using any [of "held_meter c"] counts mtr [of c] by (simp add: ledger_counts_def)
  qed
  moreover have same: "po_cap (ly_controller y) = po_cap (ly_controller x)" "po_cap (jl_job (ly_jobs y k)) = po_cap (jl_job (ly_jobs x k))"
    "po_cap (jl_components (ly_jobs y k) c) = po_cap (jl_components (ly_jobs x k) c)"
    "jl_component_caps (ly_jobs y k) = jl_component_caps (ly_jobs x k)" for k c
    using ctl job cmp ccs by (simp_all add: fields pool_moves_def)
  then have "ledger_caps config carve y" using caps by (simp add: ledger_caps_def fields(4))
  moreover have "view_ok (view y k)" for k
    using oks [of k] ctl job cmp by (cases "k = j") (simp_all add: view_ok_def fields pool_moves_def)
  moreover have "slots_ok y"
    unfolding slots_ok_def
  proof clarify
    fix k s assume "(k, s) \<in> set (ly_slots y)"
    then consider "(k, s) = (j, r')" | "(k, s) \<in> set (ly_slots x)" using slots by blast
    then show "stage_fits s (view y k) (tr_stage s) \<and> retags_away s"
    proof cases
      case 1
      have "view y j = v" by (simp add: view_def fields)
      then show ?thesis using 1 new by simp
    next
      case 2
      have "stage_fits s (view y k) (tr_stage s) = stage_fits s (view x k) (tr_stage s)"
        by (rule stage_fits_caps) (simp_all add: same)
      then show ?thesis using 2 sl by (auto simp: slots_ok_def)
    qed
  qed
  ultimately show ?thesis by (simp add: ledger_inv_def)
qed

lemma put_fields [simp]:
  "ly_controller (put i r v x) = lv_controller v" "ly_meters (put i r v x) = lv_meters v"
  "ly_jobs (put i r v x) = (ly_jobs x)(slot_job x i := lv_job v)" "ly_connections (put i r v x) = ly_connections x"
  "late_bytes (put i r v x) = late_bytes x" "ly_slots (put i r v x) = (ly_slots x)[i := (slot_job x i, r)]"
  by (simp_all add: put_def store_def late_bytes_def fun_eq_iff)

lemma add_slot_fields [simp]:
  "ly_controller (add_slot j r v x) = lv_controller v" "ly_meters (add_slot j r v x) = lv_meters v"
  "ly_jobs (add_slot j r v x) = (ly_jobs x)(j := lv_job v)" "ly_connections (add_slot j r v x) = ly_connections x"
  "late_bytes (add_slot j r v x) = late_bytes x" "ly_slots (add_slot j r v x) = ly_slots x @ [(j, r)]"
  by (simp_all add: add_slot_def store_def late_bytes_def fun_eq_iff)

lemma put_inv:
  assumes "ledger_inv config carve x" "i < length (ly_slots x)" "moves no_leak (slot_res x i) r (view x (slot_job x i)) v"
    "stage_fits r v (tr_stage r)" "retags_away r"
  shows "ledger_inv config carve (put i r v x)"
proof (rule inv_move [OF assms(1,3) _ _ _ _ _ _ _ assms(4,5)])
  show "load f (put i r v x) + f (slot_job x i, slot_res x i) = load f x + f (slot_job x i, r)" for f
    using sum_list_map_update [OF assms(2), of f "(slot_job x i, r)"] by (simp add: load_def slot_job_def slot_res_def)
  show "set (ly_slots (put i r v x)) \<subseteq> insert (slot_job x i, r) (set (ly_slots x))"
    by (simp add: set_update_subset_insert)
qed simp_all

lemma add_slot_inv:
  assumes "ledger_inv config carve x" "moves no_leak (nothing c) r (view x j) v" "stage_fits r v (tr_stage r)" "retags_away r"
  shows "ledger_inv config carve (add_slot j r v x)"
  by (rule inv_move [OF assms(1,2) _ _ _ _ _ _ _ assms(3,4)]) (auto simp: load_def)

lemma refuse_inv:
  assumes "ledger_inv config carve x"
    "moves (only c (if refused_late c n (view x j) then n else 0)) (nothing c) (nothing c) (view x j) v"
  shows "ledger_inv config carve (refuse j c n v x)"
  by (rule inv_move [OF assms]) (auto simp: refuse_def store_def load_def nothing_def retags_away_def late_bytes_def only_def)

lemma keeps_put:
  assumes "ledger_inv config carve x" "i < length (ly_slots x)" "keeps (slot_res x i) (view x (slot_job x i)) out"
  shows "\<exists>y. map_outcome (\<lambda>(r, v). put i r v x) out = Done y \<and> ledger_inv config carve y"
  using assms(3) put_inv [OF assms(1,2)] by (auto simp: keeps_def)

lemma connect_inv:
  assumes inv: "ledger_inv config carve x" and n: "sum_list (ly_connections x) + n \<le> carve" and sz: "sizes_ok config carve"
  shows "ledger_inv config carve (x\<lparr>ly_meters := charge_connection_ingress n (ly_meters x), ly_connections := n # ly_connections x\<rparr>)"
proof -
  have counts: "ledger_counts x" and caps: "ledger_caps config carve x" and oks: "\<And>k. view_ok (view x k)"
    using inv by (simp_all add: ledger_inv_def)
  have "load (of_any (held_meter NetworkIngress)) x \<le> po_outstanding (ly_controller x)"
    using load_meters [of x] counts by (simp add: ledger_counts_def)
  moreover have "po_outstanding (ly_controller x) \<le> tm_aggregate_max_bytes config - carve"
    using oks [of 0] caps by (simp add: view_ok_def pool_ok_def ledger_caps_def)
  moreover have "fst (ly_meters x NetworkIngress) = load (of_any (held_meter NetworkIngress)) x + sum_list (ly_connections x)"
    using counts by (simp add: ledger_counts_def only_def)
  ultimately have "fst (ly_meters x NetworkIngress) + n \<le> u64_max" using n sz unfolding sizes_ok_def by linarith
  then have "fst (charge_connection_ingress n (ly_meters x) c) = fst (ly_meters x c) + only NetworkIngress n c" for c
    by (simp add: charge_connection_ingress_def meter_charge_def Let_def only_def u64_exact)
  then show ?thesis using inv n
    by (auto simp: ledger_inv_def ledger_counts_def ledger_caps_def load_def only_def view_ok_def slots_ok_def late_bytes_def
        intro: stage_fits_caps [THEN iffD2, of "view _ _" "view x _"])
qed

lemma disconnect_inv:
  assumes inv: "ledger_inv config carve x" and n: "n \<in> set (ly_connections x)" and sz: "sizes_ok config carve"
  shows "\<exists>y. map_outcome (\<lambda>ms. x\<lparr>ly_meters := ms, ly_connections := remove1 n (ly_connections x)\<rparr>) (drop_connection True n (ly_meters x)) = Done y
    \<and> ledger_inv config carve y"
proof -
  let ?m = "ly_meters x NetworkIngress"
  have conns: "sum_list (ly_connections x) = n + sum_list (remove1 n (ly_connections x))" using n by (simp add: sum_list_map_remove1 [where f = "\<lambda>k. k", simplified])
  have counts: "ledger_counts x" using inv by (simp add: ledger_inv_def)
  have m: "fst ?m = load (of_any (held_meter NetworkIngress)) x + sum_list (ly_connections x)"
    using counts by (simp add: ledger_counts_def only_def)
  have "meter_room (view x 0)" by (rule inv_meter_room [OF inv sz])
  then have "fst ?m \<le> u64_max"
    using meter_le_total [of "ly_meters x" NetworkIngress] inv by (auto simp: meter_room_def ledger_inv_def view_ok_def pool_ok_def)
  then have out: "drop_connection True n (ly_meters x) = Done ((ly_meters x)(NetworkIngress := (fst ?m - n, snd ?m)))"
    using m conns by (simp add: drop_connection_def meter_release_def u64_exact)
  let ?y = "x\<lparr>ly_meters := (ly_meters x)(NetworkIngress := (fst ?m - n, snd ?m)), ly_connections := remove1 n (ly_connections x)\<rparr>"
  have "ledger_inv config carve ?y"
    using inv conns m
    by (auto simp: ledger_inv_def ledger_counts_def ledger_caps_def load_def only_def view_ok_def slots_ok_def late_bytes_def
        intro: stage_fits_caps [THEN iffD2, of "view _ _" "view x _"])
  then show ?thesis by (simp add: out)
qed

lemma ledger_step_ok:
  assumes inv: "ledger_inv config carve x" and sz: "sizes_ok config carve" and step: "ledger_step carve x out"
  shows "\<exists>y. out = Done y \<and> ledger_inv config carve y"
proof -
  note ok = inv [unfolded ledger_inv_def, THEN conjunct2, THEN conjunct2, THEN conjunct1, rule_format]
  note room = inv_meter_room [OF inv sz] and slot = inv_slot [OF inv]
  from step show ?thesis
  proof cases
    case (reserve c n j r)
    have "moves no_leak (nothing c) r (view x j) (view x j)"
      using reserve(2) ok [of j] moves_refl [of "view x j" "nothing c"]
      by (auto simp: ledger_reserve_def moves_def held_job_def held_comp_def held_meter_def nothing_def split: if_splits)
    then have "ledger_inv config carve (add_slot j r (view x j) x)"
      using reserve(2) by (intro add_slot_inv [OF inv]) (auto simp: ledger_reserve_def retags_away_def split: if_splits)
    then show ?thesis using reserve(1) by blast
  next
    case (try_reserve j c n)
    obtain rv where rv: "try_reserve True c n (view x j) = Done rv" "tried c n (view x j) rv"
      by (rule try_reserve_tried [OF ok room])
    obtain res v where "rv = (res, v)" by (cases rv)
    then show ?thesis
      using rv try_reserve refuse_inv [OF inv, of c n j v] add_slot_inv [OF inv, of c _ j v]
      by (cases res) (auto simp: tried_def retags_away_def)
  next
    case (grow i n r)
    have "ledger_inv config carve (put i r (view x (slot_job x i)) x)"
      using grow moves_refl [OF ok [of "slot_job x i"], of "slot_res x i"] slot [of i]
      by (intro put_inv [OF inv])
        (auto simp: ledger_grow_def Let_def moves_def held_job_def held_comp_def held_meter_def retags_away_def split: if_splits)
    then show ?thesis using grow(1) by blast
  next
    case (retag i c r)
    have "ledger_inv config carve (put i r (view x (slot_job x i)) x)"
      using retag moves_refl [OF ok [of "slot_job x i"], of "slot_res x i"] slot [of i]
      by (intro put_inv [OF inv])
        (auto simp: ledger_retag_def moves_def held_job_def held_comp_def held_meter_def retags_away_def split: if_splits)
    then show ?thesis using retag(1) by blast
  next
    case (poll i fresh)
    show ?thesis unfolding poll(1)
      by (rule keeps_put [OF inv poll(2) poll_keeps [OF ok slot(3) [OF poll(2)] slot(1) [OF poll(2)] room slot(2) [OF poll(2)]]])
  next
    case (cancel i)
    show ?thesis unfolding cancel(1) by (rule keeps_put [OF inv cancel(2) cancel_keeps [OF ok slot(1) [OF cancel(2)]]])
  next
    case (reconcile i n)
    then have i: "i < length (ly_slots x)" "tr_stage (slot_res x i) = Settled" by simp_all
    show ?thesis unfolding reconcile(1) by (rule keeps_put [OF inv i(1) reconcile_keeps [OF ok slot(1) [OF i(1)] room i(2)]])
  next
    case (drop i)
    then have i: "i < length (ly_slots x)" "tr_stage (slot_res x i) = Settled" by simp_all
    show ?thesis unfolding drop(1) by (rule keeps_put [OF inv i(1) drop_keeps [OF ok slot(1) [OF i(1)] room i(2)]])
  next
    case (connect n)
    then show ?thesis using connect_inv [OF inv connect(2) sz] by blast
  next
    case (disconnect n)
    show ?thesis unfolding disconnect(1) by (rule disconnect_inv [OF inv disconnect(2) sz])
  qed
qed

lemma ledger_reach_inv:
  assumes "ledger_reach config carve x" "sizes_ok config carve"
  shows "ledger_inv config carve x"
  using assms(1)
proof (induction rule: ledger_reach.induct)
  case init
  then show ?case using assms(2)
    by (auto simp: ledger_inv_def ledger_counts_def ledger_caps_def slots_ok_def view_ok_def pool_ok_def ledger_start_def
        ledger_new_def ledger_job_def pool_new_def meter_new_def load_def only_def sizes_ok_def late_bytes_def)
next
  case (step x y)
  from ledger_step_ok [OF step.IH assms(2) step.hyps(2)] show ?case by simp
qed

section \<open>What the ledger promises\<close>

text \<open>Only a \<open>try_reserve\<close> that the aggregate pool refuses late enters the history, and none ever leaves it.\<close>

lemma late_only:
  assumes "ledger_step carve x (Done y)"
  shows "ly_late y = ly_late x \<or> (\<exists>k d n. refused_late d n (view x k) \<and> ly_late y = (k, d, n) # ly_late x)"
  using assms
proof cases
  case (try_reserve k d n)
  have "Done y = map_outcome (\<lambda>(res, v). case res of Inr r \<Rightarrow> add_slot k r v x | Inl f \<Rightarrow> refuse k d n v x) out
    \<Longrightarrow> ly_late y = ly_late x \<or> refused_late d n (view x k) \<and> ly_late y = (k, d, n) # ly_late x" for out
    by (cases out) (auto simp: refuse_def add_slot_def store_def split: sum.splits if_splits)
  then show ?thesis using try_reserve by blast
qed (auto simp: map_outcome_Done add_slot_def put_def store_def dest!: sym [of "Done y"])


definition demo_memory :: transfer_memory_config where
  "demo_memory = \<lparr>tm_aggregate_max_bytes = 100, tm_job_max_bytes = 60, tm_network_ingress_max_bytes = 20,
     tm_frames_max_bytes = 40, tm_writer_max_bytes = 40, tm_checkpoint_max_bytes = 10\<rparr>"

lemma demo_sizes: "sizes_ok demo_memory 50"
proof -
  have "component_caps demo_memory c \<le> u64_max" for c by (cases c) (simp_all add: demo_memory_def u64_max_def)
  then show ?thesis by (simp add: sizes_ok_def demo_memory_def u64_max_def)
qed

definition demo_ledger :: ledger_system where
  "demo_ledger = (ledger_start demo_memory 50)\<lparr>ly_slots :=
     [(7, \<lparr>tr_component = Frames, tr_bytes = 0, tr_tightest_cap = 40, tr_stage = AtComponent 32 None\<rparr>)]\<rparr>"

lemma demo_ledger_reach: "ledger_reach demo_memory 50 demo_ledger"
proof -
  let ?x = "ledger_start demo_memory 50"
  let ?r = "\<lparr>tr_component = Frames, tr_bytes = 0, tr_tightest_cap = 40, tr_stage = AtComponent 32 None\<rparr>"
  have "ledger_reserve Frames 32 (view ?x 7) = Inr ?r"
    by (simp add: ledger_reserve_def tightest_cap_def ledger_start_def ledger_new_def ledger_job_def pool_new_def demo_memory_def)
  then have "ledger_step 50 ?x (Done (add_slot 7 ?r (view ?x 7) ?x))" by (rule ledger_step.reserve)
  moreover have "add_slot 7 ?r (view ?x 7) ?x = demo_ledger"
    by (simp add: add_slot_def store_def view_def demo_ledger_def ledger_start_def fun_upd_idem)
  ultimately show ?thesis using ledger_reach.step [OF ledger_reach.init] by metis
qed


text \<open>
  A refused \<open>try_reserve\<close> can leak. When the component and the job pool admit the bytes and the
  aggregate pool does not, the call returns \<open>NoCapacity\<close>, gives the job pool its bytes back, leaves the
  aggregate pool alone, and leaves the component pool charged.
\<close>

lemma try_reserve_leaks:
  assumes "view_ok v" "n \<le> tightest_cap v c"
    and "po_waiters (comp c v) = []" "po_outstanding (comp c v) + n \<le> po_cap (comp c v)"
    and "po_waiters (jobp v) = []" "po_outstanding (jobp v) + n \<le> po_cap (jobp v)"
    and "po_waiters (lv_controller v) \<noteq> [] \<or> po_cap (lv_controller v) < po_outstanding (lv_controller v) + n"
  shows "\<exists>v'. try_reserve True c n v = Done (Inl (NoCapacity c), v')
    \<and> po_outstanding (comp c v') = po_outstanding (comp c v) + n
    \<and> po_outstanding (jobp v') = po_outstanding (jobp v) \<and> lv_controller v' = lv_controller v"
proof -
  have caps: "po_cap (comp c v) \<le> u64_max" "po_cap (jobp v) \<le> u64_max" "po_cap (lv_controller v) \<le> u64_max"
    using assms(1) by (simp_all add: view_ok_def pool_ok_def)
  have le: "n \<le> po_cap (comp c v)" "n \<le> po_cap (jobp v)" "n \<le> po_cap (lv_controller v)"
    using assms(2,4) by (simp_all add: tightest_cap_def)
  have granted: "probe_and_acquire True n p = Done (Acquired, charge_pool n p)"
    if "po_waiters p = []" "po_outstanding p + n \<le> po_cap p" "po_cap p \<le> u64_max" for p
    using that by (simp add: probe_and_acquire_def acquire_locked_eq)
  have refused: "probe_and_acquire True n (lv_controller v) = Done (Full, lv_controller v)"
    using assms(7) le(3) caps(3) by (auto simp: probe_and_acquire_def acquire_locked_eq)
  let ?v1 = "set_comp c (charge_pool n (comp c v)) v"
  let ?v2 = "set_job (charge_pool n (jobp v)) ?v1"
  have "po_outstanding (jobp ?v2) \<le> u64_max" using assms(6) caps(2) by (simp add: charge_pool_def)
  then have "\<exists>q. free_job True n ?v2 = Done (set_job q ?v2) \<and> po_outstanding q = po_outstanding (jobp v)"
    by (auto simp: free_job_def pool_free_def pool_release_def charge_pool_def u64_exact)
  then obtain q where q: "free_job True n ?v2 = Done (set_job q ?v2)" "po_outstanding q = po_outstanding (jobp v)" by blast
  have "try_controller True c n ?v2 = Done (Inl (NoCapacity c), set_job q ?v2)" using refused q(1) by (simp add: try_controller_def)
  then have "try_job True c n ?v1 = Done (Inl (NoCapacity c), set_job q ?v2)"
    using granted [OF assms(5,6) caps(2)] by (simp add: try_job_def)
  then have "try_reserve True c n v = Done (Inl (NoCapacity c), set_job q ?v2)"
    using granted [OF assms(3,4) caps(1)] assms(2) by (simp add: try_reserve_def)
  then show ?thesis using q(2) by (intro exI [of _ "set_job q ?v2"]) (simp add: charge_pool_def)
qed

definition demo_view :: ledger_view where
  "demo_view = \<lparr>lv_controller = \<lparr>po_cap = 50, po_outstanding = 45, po_high_water = 45, po_waiters = []\<rparr>,
     lv_meters = (\<lambda>_. (45, 45)), lv_job = ledger_job demo_memory\<rparr>"

text \<open>
  A growth that can never be admitted: \<open>grow\<close> checks the cap of the component the reservation was made for,
  which a \<open>retag\<close> does not update. As long as the bytes already held stay charged to the new component,
  no turn of the wait succeeds.
\<close>

lemma grow_after_retag_waits:
  assumes "tr_bytes r + extra \<le> tr_tightest_cap r" "0 < extra" "tr_tightest_cap r \<le> u64_max"
    and "pool_ok p" "tr_bytes r \<le> po_outstanding p" "po_cap p < tr_bytes r + extra" "extra \<le> po_cap p"
  shows "ledger_grow extra r = Inr (r\<lparr>tr_stage := AtComponent extra None\<rparr>)
    \<and> (\<exists>p' t'. acquire_turn True fresh extra t p = Done (Pending t', p'))"
proof
  have "u64_add (tr_bytes r) extra = tr_bytes r + extra" using assms(1,3) by (intro u64_add_exact) simp
  then show "ledger_grow extra r = Inr (r\<lparr>tr_stage := AtComponent extra None\<rparr>)"
    using assms(1,2) by (simp add: ledger_grow_def Let_def)
  have cap: "po_cap p \<le> u64_max" using assms(4) by (simp add: pool_ok_def)
  then show "\<exists>p' t'. acquire_turn True fresh extra t p = Done (Pending t', p')"
    using assms(5,6,7) by (cases t) (auto simp: acquire_turn_def probe_and_acquire_def poll_head_def acquire_locked_eq)
qed

end
