(* ===== verification/Redirect_Chain.thy ===== *)
theory Redirect_Chain
  imports Redaction Download_Error
begin

text \<open>
  Redirect handling (\<open>http/redirect.rs\<close>): resolution of \<open>Location\<close>, the chain policy and the scoping of
  credentials. Parsing a URI belongs to the HTTP library and is a parameter; it returns the parts the
  source asks for, or the text of its error.
\<close>

section \<open>URIs\<close>

record uri =
  ur_scheme :: "string option"
  ur_authority :: "string option"
  ur_host :: "string option"
  ur_port :: "u16 option"
  ur_path :: string

type_synonym uri_parser = "string \<Rightarrow> string + uri"

definition parsed :: "uri_parser \<Rightarrow> string \<Rightarrow> uri option" where
  "parsed parse url = (case parse url of Inl _ \<Rightarrow> None | Inr u \<Rightarrow> Some u)"

definition scheme_of :: "uri_parser \<Rightarrow> string \<Rightarrow> string option" where
  "scheme_of parse url =
     (case parsed parse url of None \<Rightarrow> None | Some u \<Rightarrow> map_option to_ascii_lowercase (ur_scheme u))"

definition default_port :: "string \<Rightarrow> u16" where
  "default_port scheme = (if eq_ignore_ascii_case scheme ''https'' then 443 else 80)"

definition origin_of :: "uri_parser \<Rightarrow> string \<Rightarrow> string option" where
  "origin_of parse url =
     (case parsed parse url of
        None \<Rightarrow> None
      | Some u \<Rightarrow> (case ur_scheme u of
          None \<Rightarrow> None
        | Some s \<Rightarrow> (let scheme = to_ascii_lowercase s
            in case ur_host u of
                 None \<Rightarrow> None
               | Some h \<Rightarrow>
                   (let host = to_ascii_lowercase h;
                        port = (case ur_port u of Some p \<Rightarrow> p | None \<Rightarrow> default_port scheme)
                    in Some (scheme @ ''://'' @ host @ '':'' @ show_u64 port)))))"

definition crosses_origin :: "uri_parser \<Rightarrow> string \<Rightarrow> string \<Rightarrow> bool" where
  "crosses_origin parse from_url to_url =
     (case (origin_of parse from_url, origin_of parse to_url) of
        (Some a, Some b) \<Rightarrow> a \<noteq> b
      | _ \<Rightarrow> True)"

section \<open>Resolution of Location\<close>

fun dot_step :: "string list \<Rightarrow> string \<Rightarrow> string list" where
  "dot_step segments segment =
     (if segment = [] \<or> segment = ''.'' then segments
      else if segment = ''..'' then butlast segments
      else segments @ [segment])"

definition ends_with_slash :: "string \<Rightarrow> bool" where
  "ends_with_slash s = (s \<noteq> [] \<and> last s = CHR ''/'')"

definition normalize_dot_segments :: "string \<Rightarrow> string" where
  "normalize_dot_segments path =
     (let segments = foldl dot_step [] (split_char CHR ''/'' path);
          normalized = ''/'' @ join_with ''/'' segments
      in if ends_with_slash path \<and> \<not> ends_with_slash normalized then normalized @ ''/'' else normalized)"

definition is_ascii_alphabetic :: "char \<Rightarrow> bool" where
  "is_ascii_alphabetic c = (let k = (of_char c :: nat) in (65 \<le> k \<and> k \<le> 90) \<or> (97 \<le> k \<and> k \<le> 122))"

definition is_ascii_digit :: "char \<Rightarrow> bool" where
  "is_ascii_digit c = (let k = (of_char c :: nat) in 48 \<le> k \<and> k \<le> 57)"

definition valid_scheme :: "string \<Rightarrow> bool" where
  "valid_scheme scheme =
     (scheme \<noteq> [] \<and> is_ascii_alphabetic (hd scheme)
      \<and> list_all (\<lambda>c. is_ascii_alphabetic c \<or> is_ascii_digit c \<or> c = CHR ''+'' \<or> c = CHR ''-'' \<or> c = CHR ''.'') scheme)"

text \<open>The directory part of a path: up to and including its last slash.\<close>

definition path_directory :: "string \<Rightarrow> string" where
  "path_directory path = (case rsplit_once CHR ''/'' path of None \<Rightarrow> ''/'' | Some (a, _) \<Rightarrow> a @ ''/'')"

definition resolve_relative :: "uri \<Rightarrow> string \<Rightarrow> string \<Rightarrow> string" where
  "resolve_relative base authority location =
     (let scheme = (case ur_scheme base of Some s \<Rightarrow> s | None \<Rightarrow> ''http'');
          without_fragment = hd (split_char CHR ''#'' location);
          (loc_path, loc_query) = (case split_once CHR ''?'' without_fragment of
             Some (path, query) \<Rightarrow> (path, Some query)
           | None \<Rightarrow> (without_fragment, None));
          path = (if loc_path = [] then ur_path base
             else if hd loc_path = CHR ''/'' then normalize_dot_segments loc_path
             else normalize_dot_segments (path_directory (ur_path base) @ loc_path));
          target = scheme @ ''://'' @ authority @ path
      in case loc_query of None \<Rightarrow> target | Some query \<Rightarrow> target @ ''?'' @ query)"

definition resolve_redirect :: "uri_parser \<Rightarrow> string \<Rightarrow> string \<Rightarrow> download_error + string" where
  "resolve_redirect parse current location0 =
     (let location = trim location0
      in if location = [] then Inl (Redirect ''empty Location header'')
         else if strip_prefix ''//'' location \<noteq> None then
           (case parse current of
              Inl e \<Rightarrow> Inl (InvalidUrl (redacted_url current @ '': '' @ e))
            | Inr base \<Rightarrow> Inr ((case ur_scheme base of Some s \<Rightarrow> s | None \<Rightarrow> ''http'') @ '':'' @ location))
         else case split_once_str ''://'' location of
           Some (scheme, _) \<Rightarrow>
             if valid_scheme scheme then Inr location
             else Inl (InvalidUrl (''invalid redirect scheme in '' @ redacted_url location))
         | None \<Rightarrow>
             (case parse current of
                Inl e \<Rightarrow> Inl (InvalidUrl (redacted_url current @ '': '' @ e))
              | Inr base \<Rightarrow>
                  (case ur_authority base of
                     None \<Rightarrow> Inl (InvalidUrl (redacted_url current))
                   | Some authority \<Rightarrow> Inr (resolve_relative base authority location))))"

section \<open>Policy\<close>

record redirect_policy =
  rd_max_redirects :: u32
  rd_deny_downgrade :: bool
  rd_forward_cross_origin_credentials :: bool

definition redirect_policy_default :: redirect_policy where
  "redirect_policy_default =
     \<lparr>rd_max_redirects = 10, rd_deny_downgrade = True, rd_forward_cross_origin_credentials = False\<rparr>"

datatype redirect_action = Follow string | Final | Reject download_error

definition redirect_action_eq :: "redirect_action \<Rightarrow> redirect_action \<Rightarrow> bool" where
  "redirect_action_eq a b =
     (case (a, b) of
        (Follow x, Follow y) \<Rightarrow> x = y
      | (Final, Final) \<Rightarrow> True
      | (Reject x, Reject y) \<Rightarrow> error_category_of x = error_category_of y
      | _ \<Rightarrow> False)"

record redirect_decision =
  rx_action :: redirect_action
  rx_strip_credentials :: bool

definition is_origin_credential_header :: "string \<Rightarrow> bool" where
  "is_origin_credential_header name =
     (eq_ignore_ascii_case name ''authorization'' \<or> eq_ignore_ascii_case name ''cookie''
      \<or> eq_ignore_ascii_case name ''proxy-authorization'')"

definition scoped_request_headers :: "uri_parser \<Rightarrow> string \<Rightarrow> string \<Rightarrow> (string \<times> string) list \<Rightarrow> bool \<Rightarrow> bool
    \<Rightarrow> (string \<times> string) list" where
  "scoped_request_headers parse original_url target_url headers sensitive forward =
     (if \<not> crosses_origin parse original_url target_url \<or> forward then headers
      else filter (\<lambda>(name, _). if is_origin_credential_header name then False else \<not> sensitive) headers)"

record redirect_tracker =
  rt_hops :: u32
  rt_visited :: "string list"
  rt_policy :: redirect_policy
  rt_cross_origin_seen :: bool

definition tracker_for :: "redirect_policy \<Rightarrow> redirect_tracker" where
  "tracker_for policy = \<lparr>rt_hops = 0, rt_visited = [], rt_policy = policy, rt_cross_origin_seen = False\<rparr>"

definition reject :: "download_error \<Rightarrow> redirect_decision" where
  "reject e = \<lparr>rx_action = Reject e, rx_strip_credentials = False\<rparr>"

definition is_redirect_status :: "u16 \<Rightarrow> bool" where
  "is_redirect_status status = (status \<in> {301, 302, 303, 307, 308})"

text \<open>The decision on a resolved target; the hop counter is a \<open>u32\<close>.\<close>

definition decide_target :: "uri_parser \<Rightarrow> string \<Rightarrow> string \<Rightarrow> (string \<times> string) list \<Rightarrow> redirect_tracker
    \<Rightarrow> redirect_decision \<times> redirect_tracker" where
  "decide_target parse current_url target outgoing_headers t0 =
     (let t = t0\<lparr>rt_hops := rt_hops t0 + 1\<rparr>; policy = rt_policy t
      in if rd_max_redirects policy < rt_hops t
         then (reject (Redirect (''exceeded '' @ show_u64 (rd_max_redirects policy) @ '' redirects'')), t)
         else if List.member (rt_visited t) target then (reject (Redirect ''redirect loop detected''), t)
         else let t = t\<lparr>rt_visited := target # rt_visited t\<rparr>
           in if rd_deny_downgrade policy \<and> scheme_of parse current_url = Some ''https'' \<and> scheme_of parse target = Some ''http''
              then (reject (Redirect ''HTTPS to HTTP downgrade denied''), t)
              else let t = (if crosses_origin parse current_url target \<and> \<not> rd_forward_cross_origin_credentials policy
                            then t\<lparr>rt_cross_origin_seen := True\<rparr> else t);
                       has_credentials = list_ex (\<lambda>(name, _). is_origin_credential_header name) outgoing_headers
                in (\<lparr>rx_action = Follow target, rx_strip_credentials = (rt_cross_origin_seen t \<and> has_credentials)\<rparr>, t))"

definition decide_redirect :: "uri_parser \<Rightarrow> u16 \<Rightarrow> string option \<Rightarrow> string \<Rightarrow> (string \<times> string) list \<Rightarrow> redirect_tracker
    \<Rightarrow> redirect_decision \<times> redirect_tracker" where
  "decide_redirect parse status location current_url outgoing_headers t =
     (if \<not> is_redirect_status status then (\<lparr>rx_action = Final, rx_strip_credentials = False\<rparr>, t)
      else case location of
        None \<Rightarrow> (reject (Redirect ''redirect status without Location header''), t)
      | Some loc \<Rightarrow>
          (case resolve_redirect parse current_url loc of
             Inl e \<Rightarrow> (reject e, t)
           | Inr target \<Rightarrow> decide_target parse current_url target outgoing_headers t))"

definition redact_redirect_chain :: "string list \<Rightarrow> redactor \<Rightarrow> string list" where
  "redact_redirect_chain chain r = map (redact_url r) chain"

section \<open>Dot segments\<close>

lemma dot_step_words:
  assumes "w \<in> set (foldl dot_step acc ws)"
  shows "w \<in> set acc \<or> w \<in> set ws \<and> w \<noteq> [] \<and> w \<noteq> ''.'' \<and> w \<noteq> ''..''"
  using assms
proof (induction ws arbitrary: acc)
  case (Cons v ws)
  from Cons.IH [of "dot_step acc v"] Cons.prems show ?case
    by (auto split: if_splits dest: in_set_butlastD)
qed simp

definition plain_segment :: "string \<Rightarrow> bool" where
  "plain_segment w \<longleftrightarrow> w \<noteq> [] \<and> w \<noteq> ''.'' \<and> w \<noteq> ''..'' \<and> CHR ''/'' \<notin> set w"

lemma dot_segments_plain: "w \<in> set (foldl dot_step [] (split_char CHR ''/'' path)) \<Longrightarrow> plain_segment w"
  by (auto simp: plain_segment_def dest: dot_step_words split_char_words)

lemma dot_fold_plain: "\<forall>w\<in>set ws. plain_segment w \<Longrightarrow> foldl dot_step acc ws = acc @ ws"
  by (induction ws arbitrary: acc) (auto simp: plain_segment_def)

lemma split_normal_path:
  assumes "\<forall>w\<in>set ws. plain_segment w" "ws \<noteq> []"
  shows "split_char CHR ''/'' (''/'' @ join_with ''/'' ws) = [] # ws"
    and "split_char CHR ''/'' (''/'' @ join_with ''/'' ws @ ''/'') = [] # ws @ [[]]"
proof -
  have no: "\<And>w. w \<in> set ws \<Longrightarrow> CHR ''/'' \<notin> set w" using assms(1) by (simp add: plain_segment_def)
  show "split_char CHR ''/'' (''/'' @ join_with ''/'' ws) = [] # ws"
    using split_char_join [OF assms(2) no] by simp
  have "join_with ''/'' ws @ ''/'' = join_with ''/'' (ws @ [[]])"
    using assms(2) by (induction "''/''" ws rule: join_with.induct) auto
  moreover have "split_char CHR ''/'' (join_with ''/'' (ws @ [[]])) = ws @ [[]]"
    using no by (intro split_char_join) auto
  ultimately show "split_char CHR ''/'' (''/'' @ join_with ''/'' ws @ ''/'') = [] # ws @ [[]]" by simp
qed

lemma ends_with_slash_simps [simp]: "ends_with_slash (s @ ''/'')" "\<not> ends_with_slash []"
  by (simp_all add: ends_with_slash_def)

lemma join_plain_ends: "ws \<noteq> [] \<Longrightarrow> \<forall>w\<in>set ws. plain_segment w \<Longrightarrow> \<not> ends_with_slash (''/'' @ join_with ''/'' ws)"
proof (induction "''/''" ws rule: join_with.induct)
  case (2 w)
  then have "w \<noteq> []" "CHR ''/'' \<notin> set w" by (simp_all add: plain_segment_def)
  then have "last w \<noteq> CHR ''/''" using last_in_set [of w] by metis
  with \<open>w \<noteq> []\<close> show ?case by (simp add: ends_with_slash_def)
next
  case (3 w v ws)
  then show ?case by (auto simp: ends_with_slash_def)
qed simp

text \<open>The normal form: the root, or plain segments each after a slash, with or without a trailing slash.\<close>

lemma normalize_form:
  obtains ws where "\<forall>w\<in>set ws. plain_segment w"
    "normalize_dot_segments path = ''/'' @ join_with ''/'' ws \<or> ws \<noteq> [] \<and> normalize_dot_segments path = ''/'' @ join_with ''/'' ws @ ''/''"
proof -
  let ?ws = "foldl dot_step [] (split_char CHR ''/'' path)"
  have "normalize_dot_segments path = ''/'' @ join_with ''/'' ?ws
    \<or> ?ws \<noteq> [] \<and> normalize_dot_segments path = ''/'' @ join_with ''/'' ?ws @ ''/''"
    by (auto simp: normalize_dot_segments_def Let_def ends_with_slash_def)
  then show thesis using that dot_segments_plain by blast
qed

lemma normalize_normal:
  assumes ws: "\<forall>w\<in>set ws. plain_segment w"
  shows "normalize_dot_segments (''/'' @ join_with ''/'' ws) = ''/'' @ join_with ''/'' ws"
    and "ws \<noteq> [] \<Longrightarrow> normalize_dot_segments (''/'' @ join_with ''/'' ws @ ''/'') = ''/'' @ join_with ''/'' ws @ ''/''"
proof -
  have fold: "foldl dot_step [] ([] # ws) = ws" "foldl dot_step [] ([] # ws @ [[]]) = ws"
    using dot_fold_plain [OF ws, of "[]"] by simp_all
  show "normalize_dot_segments (''/'' @ join_with ''/'' ws) = ''/'' @ join_with ''/'' ws"
  proof (cases "ws = []")
    case True
    then show ?thesis by (simp add: normalize_dot_segments_def ends_with_slash_def)
  next
    case False
    have "normalize_dot_segments (''/'' @ join_with ''/'' ws) = (let n = ''/'' @ join_with ''/'' ws
        in if ends_with_slash n \<and> \<not> ends_with_slash n then n @ ''/'' else n)"
      by (simp only: normalize_dot_segments_def split_normal_path(1) [OF ws False] fold Let_def)
    then show ?thesis by simp
  qed
  assume ne: "ws \<noteq> []"
  then have "normalize_dot_segments (''/'' @ join_with ''/'' ws @ ''/'') = (let n = ''/'' @ join_with ''/'' ws
      in if ends_with_slash (''/'' @ join_with ''/'' ws @ ''/'') \<and> \<not> ends_with_slash n then n @ ''/'' else n)"
    by (simp only: normalize_dot_segments_def split_normal_path(2) [OF ws ne] fold Let_def)
  then show "normalize_dot_segments (''/'' @ join_with ''/'' ws @ ''/'') = ''/'' @ join_with ''/'' ws @ ''/''"
    using join_plain_ends [OF ne ws] ends_with_slash_simps(1) [of "''/'' @ join_with ''/'' ws"] by (simp add: Let_def)
qed

text \<open>
  Dot segments cannot survive. The normalized path of a redirect starts at the root, none of
  its segments is \<open>.\<close> or \<open>..\<close>, and normalizing it again changes nothing.
\<close>

lemma dot_segments_removed:
  "normalize_dot_segments (normalize_dot_segments path) = normalize_dot_segments path
   \<and> hd (normalize_dot_segments path) = CHR ''/''
   \<and> ''.'' \<notin> set (split_char CHR ''/'' (normalize_dot_segments path))
   \<and> ''..'' \<notin> set (split_char CHR ''/'' (normalize_dot_segments path))"
proof -
  obtain ws where ws: "\<forall>w\<in>set ws. plain_segment w"
    and form: "normalize_dot_segments path = ''/'' @ join_with ''/'' ws
      \<or> ws \<noteq> [] \<and> normalize_dot_segments path = ''/'' @ join_with ''/'' ws @ ''/''"
    by (rule normalize_form [of path])
  have "set (split_char CHR ''/'' (normalize_dot_segments path)) \<subseteq> insert [] (set ws)"
    using form split_normal_path [OF ws] by (cases "ws = []") auto
  moreover have "''.'' \<notin> set ws" "''..'' \<notin> set ws" using ws by (auto simp: plain_segment_def)
  moreover have "normalize_dot_segments (normalize_dot_segments path) = normalize_dot_segments path"
    using form normalize_normal [OF ws] by metis
  ultimately show ?thesis using form by auto
qed

section \<open>Chains\<close>

text \<open>A response of the server, and the chain of hops that are followed from a URL.\<close>

record redirect_hop =
  rh_from :: string
  rh_target :: string
  rh_credentials :: bool
  rh_strip :: bool

definition carries_credentials :: "(string \<times> string) list \<Rightarrow> bool" where
  "carries_credentials headers = list_ex (\<lambda>(name, _). is_origin_credential_header name) headers"

fun follow_chain :: "uri_parser \<Rightarrow> (u16 \<times> string option \<times> (string \<times> string) list) list \<Rightarrow> string \<Rightarrow> redirect_tracker
    \<Rightarrow> redirect_hop list" where
  "follow_chain parse [] current t = []"
| "follow_chain parse ((status, location, headers) # rest) current t =
     (case decide_redirect parse status location current headers t of
        (d, t') \<Rightarrow>
          (case rx_action d of
             Follow target \<Rightarrow>
               \<lparr>rh_from = current, rh_target = target, rh_credentials = carries_credentials headers, rh_strip = rx_strip_credentials d\<rparr>
               # follow_chain parse rest target t'
           | _ \<Rightarrow> []))"

definition hop_made :: "uri_parser \<Rightarrow> string \<Rightarrow> string \<Rightarrow> bool \<Rightarrow> bool \<Rightarrow> redirect_tracker \<Rightarrow> redirect_tracker \<Rightarrow> bool" where
  "hop_made parse current target creds strip t t' \<longleftrightarrow>
     rt_hops t' = rt_hops t + 1 \<and> rt_hops t' \<le> rd_max_redirects (rt_policy t) \<and> rt_policy t' = rt_policy t
     \<and> target \<notin> set (rt_visited t) \<and> rt_visited t' = target # rt_visited t
     \<and> \<not> (rd_deny_downgrade (rt_policy t) \<and> scheme_of parse current = Some ''https'' \<and> scheme_of parse target = Some ''http'')
     \<and> rt_cross_origin_seen t' = (rt_cross_origin_seen t \<or> crosses_origin parse current target \<and> \<not> rd_forward_cross_origin_credentials (rt_policy t))
     \<and> strip = (rt_cross_origin_seen t' \<and> creds)"

lemma decide_target_follow:
  assumes "decide_target parse current resolved headers t = (d, t')" "rx_action d = Follow target"
  shows "target = resolved \<and> hop_made parse current target (carries_credentials headers) (rx_strip_credentials d) t t'"
proof -
  have "\<not> rd_max_redirects (rt_policy t) < rt_hops t + 1" "\<not> List.member (rt_visited t) resolved"
    "\<not> (rd_deny_downgrade (rt_policy t) \<and> scheme_of parse current = Some ''https'' \<and> scheme_of parse resolved = Some ''http'')"
    using assms by (auto simp: decide_target_def reject_def Let_def split: if_splits)
  moreover from this have "t' = t\<lparr>rt_hops := rt_hops t + 1, rt_visited := resolved # rt_visited t,
      rt_cross_origin_seen := rt_cross_origin_seen t \<or> crosses_origin parse current resolved \<and> \<not> rd_forward_cross_origin_credentials (rt_policy t)\<rparr>"
    "d = \<lparr>rx_action = Follow resolved, rx_strip_credentials = (rt_cross_origin_seen t' \<and> carries_credentials headers)\<rparr>"
    using assms by (auto simp: decide_target_def Let_def carries_credentials_def)
  ultimately show ?thesis using assms(2) by (auto simp: hop_made_def)
qed

lemma decide_follow:
  assumes "decide_redirect parse status location current headers t = (d, t')" "rx_action d = Follow target"
  shows "hop_made parse current target (carries_credentials headers) (rx_strip_credentials d) t t'"
proof -
  from assms obtain loc where loc: "location = Some loc" "is_redirect_status status"
    by (auto simp: decide_redirect_def reject_def split: if_splits option.splits)
  then obtain resolved where "decide_target parse current resolved headers t = (d, t')"
    using assms by (auto simp: decide_redirect_def reject_def split: sum.splits)
  with assms(2) show ?thesis using decide_target_follow by blast
qed

lemma follow_chain_safe:
  "let hops = follow_chain parse responses current t; policy = rt_policy t
   in length hops \<le> rd_max_redirects policy - rt_hops t
      \<and> distinct (map rh_target hops) \<and> set (map rh_target hops) \<inter> set (rt_visited t) = {}
      \<and> (rd_deny_downgrade policy \<longrightarrow>
           (\<forall>h\<in>set hops. \<not> (scheme_of parse (rh_from h) = Some ''https'' \<and> scheme_of parse (rh_target h) = Some ''http'')))
      \<and> (\<forall>j < length hops. rh_strip (hops ! j) = (rh_credentials (hops ! j)
           \<and> (rt_cross_origin_seen t \<or> \<not> rd_forward_cross_origin_credentials policy
                \<and> (\<exists>i\<le>j. crosses_origin parse (rh_from (hops ! i)) (rh_target (hops ! i))))))"
proof (induction parse responses current t rule: follow_chain.induct)
  case (2 parse status location headers rest current t)
  obtain d t' where d: "decide_redirect parse status location current headers t = (d, t')" by force
  show ?case
  proof (cases "rx_action d")
    case (Follow target)
    note made = decide_follow [OF d Follow]
    let ?hops = "follow_chain parse rest target t'" and ?p = "rt_policy t"
    let ?h = "\<lparr>rh_from = current, rh_target = target, rh_credentials = carries_credentials headers, rh_strip = rx_strip_credentials d\<rparr>"
    have eq: "follow_chain parse ((status, location, headers) # rest) current t = ?h # ?hops" by (simp add: d Follow)
    note IH = "2.IH" [OF d [symmetric] Follow, unfolded Let_def]
    have pol: "rt_policy t' = ?p" "rt_visited t' = target # rt_visited t" "rt_hops t' = rt_hops t + 1"
      "rt_hops t' \<le> rd_max_redirects ?p" "target \<notin> set (rt_visited t)"
      using made by (simp_all add: hop_made_def)
    have seen: "rt_cross_origin_seen t' = (rt_cross_origin_seen t \<or> crosses_origin parse current target \<and> \<not> rd_forward_cross_origin_credentials ?p)"
      "rx_strip_credentials d = (rt_cross_origin_seen t' \<and> carries_credentials headers)"
      using made by (simp_all add: hop_made_def)
    have "length (?h # ?hops) \<le> rd_max_redirects ?p - rt_hops t"
      using IH [THEN conjunct1, unfolded pol(1,3)] pol(3,4) unfolding list.size by linarith
    moreover have "distinct (map rh_target (?h # ?hops)) \<and> set (map rh_target (?h # ?hops)) \<inter> set (rt_visited t) = {}"
      using IH pol by auto
    moreover have "rd_deny_downgrade ?p \<longrightarrow> (\<forall>h\<in>set (?h # ?hops). \<not> (scheme_of parse (rh_from h) = Some ''https'' \<and> scheme_of parse (rh_target h) = Some ''http''))"
      using IH made pol(1) by (simp add: hop_made_def)
    moreover have "rh_strip ((?h # ?hops) ! j) = (rh_credentials ((?h # ?hops) ! j) \<and> (rt_cross_origin_seen t \<or> \<not> rd_forward_cross_origin_credentials ?p
                \<and> (\<exists>i\<le>j. crosses_origin parse (rh_from ((?h # ?hops) ! i)) (rh_target ((?h # ?hops) ! i)))))"
      if "j < length (?h # ?hops)" for j
    proof (cases j)
      case 0
      then show ?thesis using seen by auto
    next
      case (Suc k)
      have split: "(\<exists>i\<le>Suc k. P i) \<longleftrightarrow> P 0 \<or> (\<exists>i\<le>k. P (Suc i))" for P
        by (metis le0 not0_implies_Suc Suc_le_mono)
      show ?thesis using IH that Suc seen(1) pol(1) by (auto simp: split)
    qed
    ultimately show ?thesis unfolding eq Let_def by blast
  qed (simp_all add: d)
qed simp

text \<open>
  A redirect chain is safe, whatever the servers answer. From a fresh tracker at most
  \<open>max_redirects\<close> hops are followed and no target twice; with downgrade protection no hop goes from https to
  http; and a hop strips credentials exactly when its request carries some and this hop or an earlier
  one crossed an origin boundary, unless forwarding was opted into, so the strip stays latched even
  after a return to the first origin.
\<close>

lemma redirect_chain_safe:
  "let hops = follow_chain parse responses start (tracker_for policy)
   in length hops \<le> rd_max_redirects policy \<and> distinct (map rh_target hops)
      \<and> (\<forall>h\<in>set hops. rd_deny_downgrade policy \<longrightarrow>
           \<not> (scheme_of parse (rh_from h) = Some ''https'' \<and> scheme_of parse (rh_target h) = Some ''http''))
      \<and> (\<forall>j < length hops. rh_strip (hops ! j) = (rh_credentials (hops ! j) \<and> \<not> rd_forward_cross_origin_credentials policy
           \<and> (\<exists>i\<le>j. crosses_origin parse (rh_from (hops ! i)) (rh_target (hops ! i)))))"
  using follow_chain_safe [of parse responses start "tracker_for policy"]
  by (simp add: Let_def tracker_for_def)

definition demo_parse :: uri_parser where
  "demo_parse url =
     (if strip_prefix ''https://a/'' url \<noteq> None
      then Inr \<lparr>ur_scheme = Some ''https'', ur_authority = Some ''a'', ur_host = Some ''a'', ur_port = None, ur_path = ''/x''\<rparr>
      else if strip_prefix ''https://b/'' url \<noteq> None
      then Inr \<lparr>ur_scheme = Some ''https'', ur_authority = Some ''b'', ur_host = Some ''b'', ur_port = None, ur_path = ''/y''\<rparr>
      else Inl ''no such host'')"

text \<open>
  Scoped headers: across an origin boundary no credential header is sent, and nothing at all when the
  caller marked its headers sensitive; otherwise every header is sent.
\<close>

lemma scoped_headers_exact:
  "set (scoped_request_headers parse original target headers sensitive forward) =
     {h \<in> set headers. crosses_origin parse original target \<and> \<not> forward \<longrightarrow> \<not> is_origin_credential_header (fst h) \<and> \<not> sensitive}"
  by (auto simp: scoped_request_headers_def split: if_splits)

text \<open>An absolute \<open>Location\<close> is passed on with its fragment; only relative ones lose it.\<close>

lemma absolute_keeps_fragment:
  "resolve_redirect parse current ''https://b/y#frag'' = Inr ''https://b/y#frag''"
  "resolve_redirect demo_parse ''https://a/x'' ''y#frag'' = Inr ''https://a/y''"
  by (simp_all add: resolve_redirect_def trim_def trim_start_def is_ascii_space_def valid_scheme_def is_ascii_alphabetic_def
      demo_parse_def resolve_relative_def path_directory_def rsplit_once_def split_once_def normalize_dot_segments_def ends_with_slash_def)

end
