(* ===== verification/Adaptive_Control.thy ===== *)
theory Adaptive_Control
  imports Retry_Policy
begin

text \<open>
  The adaptive range-concurrency controller (\<open>control/adaptive.rs\<close>, with the window inputs of
  \<open>job/segmented.rs\<close>). Instants and durations are nanoseconds on one monotonic clock; the current instant
  is an argument of the operations that read the clock.
\<close>

section \<open>Configuration and samples\<close>

definition OPENING_WINDOW_CAP :: u32 where
  "OPENING_WINDOW_CAP = 8"

record 'f adaptive_config =
  ac_window :: duration
  ac_material_gain_band :: 'f
  ac_cooldown :: duration
  ac_max_retries_per_window :: u64
  ac_max_throttled_per_window :: u64
  ac_writer_queue_p95_ceiling :: 'f
  ac_writer_ack_p95_ceiling_ms :: 'f
  ac_budget_wait_ceiling_ms :: u64
  ac_rss_ceiling_bytes :: u64
  ac_cpu_ceiling_percent :: 'f
  ac_sustained_pressure_windows :: u32

definition millis :: "nat \<Rightarrow> duration" where
  "millis n = n * 1000000"

definition adaptive_config_default :: "'f f64_ops \<Rightarrow> 'f adaptive_config" where
  "adaptive_config_default F =
     \<lparr>ac_window = millis 500, ac_material_gain_band = f_lit F (5 / 100), ac_cooldown = millis 1000,
      ac_max_retries_per_window = 2, ac_max_throttled_per_window = 0, ac_writer_queue_p95_ceiling = f_lit F 8,
      ac_writer_ack_p95_ceiling_ms = f_lit F 250, ac_budget_wait_ceiling_ms = 250,
      ac_rss_ceiling_bytes = 1024 * 1024 * 1024, ac_cpu_ceiling_percent = f_lit F 400,
      ac_sustained_pressure_windows = 2\<rparr>"

record 'f window_sample =
  ws_completed_bytes :: u64
  ws_network_bytes :: u64
  ws_wasted_bytes :: u64
  ws_retries :: u64
  ws_throttled :: u64
  ws_active_worker_ms :: u64
  ws_idle_worker_ms :: u64
  ws_worker_idle_ratio :: 'f
  ws_writer_ack_p50_ms :: "'f option"
  ws_writer_ack_p95_ms :: "'f option"
  ws_writer_queue_p50 :: "'f option"
  ws_writer_queue_p95 :: "'f option"
  ws_budget_wait_ms :: u64
  ws_rss_bytes :: "u64 option"
  ws_cpu_percent :: "'f option"
  ws_elapsed :: duration

definition epsilon :: "'f f64_ops \<Rightarrow> 'f" where
  "epsilon F = f_lit F (1 / 4503599627370496)"

definition useful_goodput :: "'f f64_ops \<Rightarrow> 'f window_sample \<Rightarrow> 'f" where
  "useful_goodput F s = f_div F (f_of_u64 F (ws_completed_bytes s)) (f_max F (as_secs_f64 F (ws_elapsed s)) (epsilon F))"

definition under_pressure :: "'f window_sample \<Rightarrow> 'f adaptive_config \<Rightarrow> bool" where
  "under_pressure s c =
     (ac_max_retries_per_window c < ws_retries s
      \<or> ac_max_throttled_per_window c < ws_throttled s
      \<or> 0 < ws_wasted_bytes s \<and> ws_completed_bytes s \<le> ws_wasted_bytes s \<and> 0 < ws_completed_bytes s)"

definition is_some_and :: "'a option \<Rightarrow> ('a \<Rightarrow> bool) \<Rightarrow> bool" where
  "is_some_and x p = (case x of None \<Rightarrow> False | Some v \<Rightarrow> p v)"

definition storage_pressure :: "'f f64_ops \<Rightarrow> 'f window_sample \<Rightarrow> 'f adaptive_config \<Rightarrow> bool" where
  "storage_pressure F s c =
     (is_some_and (ws_writer_queue_p95 s) (\<lambda>p95. f_le F (ac_writer_queue_p95_ceiling c) p95)
      \<or> is_some_and (ws_writer_ack_p95_ms s) (\<lambda>p95. f_le F (ac_writer_ack_p95_ceiling_ms c) p95)
      \<or> ac_budget_wait_ceiling_ms c \<le> ws_budget_wait_ms s)"

definition resource_pressure :: "'f f64_ops \<Rightarrow> 'f window_sample \<Rightarrow> 'f adaptive_config \<Rightarrow> bool" where
  "resource_pressure F s c =
     (is_some_and (ws_rss_bytes s) (\<lambda>rss. ac_rss_ceiling_bytes c \<le> rss)
      \<or> is_some_and (ws_cpu_percent s) (\<lambda>cpu. f_le F (ac_cpu_ceiling_percent c) cpu))"

section \<open>Worker activity\<close>

record worker_activity =
  wa_active_ms :: u64
  wa_idle_ms :: u64
  wa_last :: "duration option"
  wa_last_active :: u64
  wa_last_idle :: u64

definition activity_default :: worker_activity where
  "activity_default = \<lparr>wa_active_ms = 0, wa_idle_ms = 0, wa_last = None, wa_last_active = 0, wa_last_idle = 0\<rparr>"

definition activity_observe :: "u64 \<Rightarrow> u64 \<Rightarrow> duration \<Rightarrow> worker_activity \<Rightarrow> worker_activity" where
  "activity_observe active idle now a =
     (let a' = (case wa_last a of
          None \<Rightarrow> a
        | Some since \<Rightarrow>
            (let elapsed_ms = min ((now - since) div 1000000) u64_max
             in a\<lparr>wa_active_ms := sat_add (wa_active_ms a) (sat_mul elapsed_ms (wa_last_active a)),
                  wa_idle_ms := sat_add (wa_idle_ms a) (sat_mul elapsed_ms (wa_last_idle a))\<rparr>))
      in a'\<lparr>wa_last := Some now, wa_last_active := active, wa_last_idle := idle\<rparr>)"

definition activity_take :: "worker_activity \<Rightarrow> (u64 \<times> u64) \<times> worker_activity" where
  "activity_take a = ((wa_active_ms a, wa_idle_ms a), a\<lparr>wa_active_ms := 0, wa_idle_ms := 0\<rparr>)"

definition idle_ratio :: "'f f64_ops \<Rightarrow> u64 \<Rightarrow> u64 \<Rightarrow> 'f" where
  "idle_ratio F active_ms idle_ms =
     (let total_ms = sat_add active_ms idle_ms
      in if total_ms = 0 then f_lit F 0 else f_div F (f_of_u64 F idle_ms) (f_of_u64 F total_ms))"

section \<open>The controller\<close>

datatype decision_reason =
    NoReason | ManualOverride | EmptyWindow | Cooldown | Baseline | GainKept | NoGainReverted | ProbeReason
  | RetryPressure | StoragePressure | ResourcePressure | AtMaximum

datatype decision = Hold | ProbeUp | Reduce

record 'f adaptive_controller =
  ad_config :: "'f adaptive_config"
  ad_min :: u64
  ad_max :: u64
  ad_best_goodput :: "'f option"
  ad_reference_anchored :: bool
  ad_baseline_windows :: u32
  ad_smoothed_goodput :: "'f option"
  ad_pre_probe_level :: "u64 option"
  ad_cooldown_until :: "duration option"
  ad_manual_override :: bool
  ad_pressure_windows :: u32
  ad_reason :: decision_reason

definition adaptive_new :: "'f adaptive_config \<Rightarrow> u64 \<Rightarrow> u64 \<Rightarrow> 'f adaptive_controller" where
  "adaptive_new config mn mx =
     \<lparr>ad_config = config, ad_min = max mn 1, ad_max = max mx (max mn 1), ad_best_goodput = None,
      ad_reference_anchored = False, ad_baseline_windows = 0, ad_smoothed_goodput = None, ad_pre_probe_level = None,
      ad_cooldown_until = None, ad_manual_override = False, ad_pressure_windows = 0, ad_reason = NoReason\<rparr>"

definition set_manual_override :: "'f adaptive_controller \<Rightarrow> 'f adaptive_controller" where
  "set_manual_override a = a\<lparr>ad_manual_override := True\<rparr>"

definition in_cooldown :: "duration \<Rightarrow> 'f adaptive_controller \<Rightarrow> bool" where
  "in_cooldown now a = is_some_and (ad_cooldown_until a) (\<lambda>until. now < until)"

definition f_abs :: "'f f64_ops \<Rightarrow> 'f \<Rightarrow> 'f" where
  "f_abs F x = (if f_lt F x (f_lit F 0) then f_neg F x else x)"

text \<open>Smoothing, and the test that anchors the goodput reference against the previous smoothed value.\<close>

definition smooth :: "'f f64_ops \<Rightarrow> 'f option \<Rightarrow> 'f \<Rightarrow> 'f" where
  "smooth F previous instant =
     (case previous of
        Some prev \<Rightarrow> f_add F (f_mul F (f_lit F (1 / 2)) prev) (f_mul F (f_lit F (1 / 2)) instant)
      | None \<Rightarrow> instant)"

definition observe_goodput :: "'f f64_ops \<Rightarrow> 'f window_sample \<Rightarrow> 'f adaptive_controller \<Rightarrow> 'f adaptive_controller" where
  "observe_goodput F sample a =
     (let smoothed = smooth F (ad_smoothed_goodput a) (useful_goodput F sample);
          converged = (case ad_smoothed_goodput a of
             Some prev \<Rightarrow> f_lt F (f_abs F (f_sub F smoothed prev))
                (f_mul F (ac_material_gain_band (ad_config a)) (f_max F prev (epsilon F)))
           | None \<Rightarrow> False);
          anchored = (ad_reference_anchored a \<or> converged \<or> OPENING_WINDOW_CAP \<le> ad_baseline_windows a)
      in a\<lparr>ad_reference_anchored := anchored, ad_smoothed_goodput := Some smoothed\<rparr>)"

definition cool_down :: "duration \<Rightarrow> 'f adaptive_controller \<Rightarrow> 'f adaptive_controller" where
  "cool_down now a = a\<lparr>ad_cooldown_until := Some (now + ac_cooldown (ad_config a))\<rparr>"

definition respond_to_pressure :: "bool \<Rightarrow> bool \<Rightarrow> duration \<Rightarrow> u64 \<Rightarrow> 'f adaptive_controller
    \<Rightarrow> decision \<times> 'f adaptive_controller" where
  "respond_to_pressure retry storage now current a =
     (let sustained = max (ac_sustained_pressure_windows (ad_config a)) 1;
          a1 = a\<lparr>ad_reason := (if retry then RetryPressure else if storage then StoragePressure else ResourcePressure),
                 ad_pressure_windows := (if retry then sustained else min (ad_pressure_windows a + 1) u32_max)\<rparr>
      in case ad_pre_probe_level a1 of
           Some pre \<Rightarrow> (if pre < current then Reduce else Hold, cool_down now (a1\<lparr>ad_pre_probe_level := None\<rparr>))
         | None \<Rightarrow>
             if sustained \<le> ad_pressure_windows a1
             then (if ad_min a1 < current then Reduce else Hold, cool_down now a1)
             else (Hold, cool_down now a1))"

definition ratchet :: "'f f64_ops \<Rightarrow> 'f adaptive_controller \<Rightarrow> 'f adaptive_controller" where
  "ratchet F a =
     (case (ad_pre_probe_level a, ad_smoothed_goodput a) of
        (None, Some smoothed) \<Rightarrow>
          a\<lparr>ad_best_goodput := Some (case ad_best_goodput a of Some best \<Rightarrow> f_max F best smoothed | None \<Rightarrow> smoothed)\<rparr>
      | _ \<Rightarrow> a)"

definition evaluate_probe :: "'f f64_ops \<Rightarrow> duration \<Rightarrow> u64 \<Rightarrow> 'f adaptive_controller \<Rightarrow> decision \<times> 'f adaptive_controller" where
  "evaluate_probe F now current a =
     (let reference = (case ad_best_goodput a of Some g \<Rightarrow> g | None \<Rightarrow> f_lit F 0);
          smoothed = (case ad_smoothed_goodput a of Some g \<Rightarrow> g | None \<Rightarrow> reference);
          gain = f_div F (f_sub F smoothed reference) (f_max F reference (epsilon F));
          a1 = cool_down now (a\<lparr>ad_pre_probe_level := None\<rparr>)
      in if f_le F (ac_material_gain_band (ad_config a)) gain then
           (let a2 = a1\<lparr>ad_best_goodput := ad_smoothed_goodput a\<rparr>
            in if current < ad_max a2 then (ProbeUp, a2\<lparr>ad_pre_probe_level := Some current, ad_reason := GainKept\<rparr>)
               else (Hold, a2\<lparr>ad_reason := AtMaximum\<rparr>))
         else (if ad_min a1 < current then Reduce else Hold, a1\<lparr>ad_reason := NoGainReverted\<rparr>))"

definition start_probe :: "duration \<Rightarrow> u64 \<Rightarrow> 'f adaptive_controller \<Rightarrow> decision \<times> 'f adaptive_controller" where
  "start_probe now current a =
     (if current < ad_max a
      then (ProbeUp, cool_down now (a\<lparr>ad_pre_probe_level := Some current, ad_reason := ProbeReason\<rparr>))
      else (Hold, a\<lparr>ad_reason := AtMaximum\<rparr>))"

definition adaptive_decide :: "'f f64_ops \<Rightarrow> duration \<Rightarrow> 'f window_sample \<Rightarrow> u64 \<Rightarrow> 'f adaptive_controller
    \<Rightarrow> decision \<times> 'f adaptive_controller" where
  "adaptive_decide F now sample current a =
     (if ad_manual_override a then (Hold, a\<lparr>ad_reason := ManualOverride\<rparr>)
      else if ws_elapsed sample = 0 \<or> ws_completed_bytes sample = 0 \<and> ws_network_bytes sample = 0
      then (Hold, a\<lparr>ad_reason := EmptyWindow\<rparr>)
      else
        let a1 = observe_goodput F sample a;
            retry = under_pressure sample (ad_config a1);
            storage = storage_pressure F sample (ad_config a1);
            resource = resource_pressure F sample (ad_config a1)
        in if retry \<or> storage \<or> resource then respond_to_pressure retry storage now current a1
           else let a2 = ratchet F (a1\<lparr>ad_pressure_windows := 0\<rparr>)
             in if in_cooldown now a2 then (Hold, a2\<lparr>ad_reason := Cooldown\<rparr>)
                else if \<not> ad_reference_anchored a2
                then (Hold, a2\<lparr>ad_baseline_windows := ad_baseline_windows a2 + 1, ad_reason := Baseline\<rparr>)
                else case ad_pre_probe_level a2 of
                       Some pre \<Rightarrow> evaluate_probe F now current a2
                     | None \<Rightarrow> start_probe now current a2)"

definition adaptive_apply :: "'f adaptive_controller \<Rightarrow> decision \<Rightarrow> u64 \<Rightarrow> u64" where
  "adaptive_apply a d current =
     (case d of
        Hold \<Rightarrow> current
      | ProbeUp \<Rightarrow> clamp (ad_min a) (ad_max a) (current + 1)
      | Reduce \<Rightarrow> clamp (ad_min a) (ad_max a) (sat_sub current 1))"

section \<open>Window inputs\<close>

record progress_counts =
  pg_completed_bytes :: u64
  pg_network_bytes :: u64
  pg_wasted_bytes :: u64
  pg_retries :: u64

definition window_counter_deltas :: "progress_counts \<Rightarrow> progress_counts \<Rightarrow> u64 \<times> u64 \<times> u64 \<times> u64" where
  "window_counter_deltas previous current =
     (sat_sub (pg_completed_bytes current) (pg_completed_bytes previous),
      sat_sub (pg_network_bytes current) (pg_network_bytes previous),
      sat_sub (pg_wasted_bytes current) (pg_wasted_bytes previous),
      sat_sub (pg_retries current) (pg_retries previous))"

record 'f window_inputs =
  wi_completed_bytes :: u64
  wi_network_bytes :: u64
  wi_wasted_bytes :: u64
  wi_retries :: u64
  wi_throttled :: u64
  wi_active_worker_ms :: u64
  wi_idle_worker_ms :: u64
  wi_ack_p50_ms :: "'f option"
  wi_ack_p95_ms :: "'f option"
  wi_queue_p50 :: "'f option"
  wi_queue_p95 :: "'f option"
  wi_budget_wait_ms :: u64
  wi_rss_bytes :: "u64 option"
  wi_cpu_percent :: "'f option"
  wi_elapsed :: duration

definition into_sample :: "'f f64_ops \<Rightarrow> 'f window_inputs \<Rightarrow> 'f window_sample" where
  "into_sample F w =
     \<lparr>ws_completed_bytes = wi_completed_bytes w, ws_network_bytes = wi_network_bytes w, ws_wasted_bytes = wi_wasted_bytes w,
      ws_retries = wi_retries w, ws_throttled = wi_throttled w, ws_active_worker_ms = wi_active_worker_ms w,
      ws_idle_worker_ms = wi_idle_worker_ms w,
      ws_worker_idle_ratio = idle_ratio F (wi_active_worker_ms w) (wi_idle_worker_ms w),
      ws_writer_ack_p50_ms = wi_ack_p50_ms w, ws_writer_ack_p95_ms = wi_ack_p95_ms w, ws_writer_queue_p50 = wi_queue_p50 w,
      ws_writer_queue_p95 = wi_queue_p95 w, ws_budget_wait_ms = wi_budget_wait_ms w, ws_rss_bytes = wi_rss_bytes w,
      ws_cpu_percent = wi_cpu_percent w, ws_elapsed = wi_elapsed w\<rparr>"

section \<open>The controller loop\<close>

text \<open>
  The worker count of a segmented job and its two writers: the operator (\<open>set_desired_workers\<close>)
  and the controller (\<open>adjust_desired_workers\<close>). \<open>adaptive_loop\<close> is the state of the loop:
  whether it still runs, its controller, and the shared worker count.
\<close>

record worker_control =
  wc_min_workers :: u64
  wc_max_workers :: u64
  wc_desired_workers :: u64
  wc_manual_override :: bool
  wc_protocol_is_h2 :: bool
  wc_per_origin_connection_cap :: u32
  wc_global_connection_cap :: u32

definition set_desired_workers :: "u64 \<Rightarrow> worker_control \<Rightarrow> u64 \<times> worker_control" where
  "set_desired_workers n w =
     (let clamped = clamp (wc_min_workers w) (wc_max_workers w) n
      in (clamped, w\<lparr>wc_desired_workers := clamped, wc_manual_override := True\<rparr>))"

definition adjust_desired_workers :: "u64 \<Rightarrow> worker_control \<Rightarrow> worker_control" where
  "adjust_desired_workers n w = w\<lparr>wc_desired_workers := clamp (wc_min_workers w) (wc_max_workers w) n\<rparr>"

definition effective_max :: "worker_control \<Rightarrow> u64" where
  "effective_max w =
     (if wc_protocol_is_h2 w then wc_max_workers w
      else min (wc_max_workers w) (max (min (wc_per_origin_connection_cap w) (wc_global_connection_cap w)) 1))"

record 'f adaptive_loop =
  al_running :: bool
  al_controller :: "'f adaptive_controller"
  al_control :: worker_control

definition adaptive_loop_start :: "'f adaptive_config \<Rightarrow> worker_control \<Rightarrow> 'f adaptive_loop" where
  "adaptive_loop_start config w =
     \<lparr>al_running = True, al_controller = adaptive_new config (wc_min_workers w) (effective_max w), al_control = w\<rparr>"

text \<open>The end of a window: the override check, then the decision on the folded sample and its application.\<close>

definition adaptive_window :: "'f f64_ops \<Rightarrow> duration \<Rightarrow> 'f window_inputs \<Rightarrow> 'f adaptive_loop \<Rightarrow> 'f adaptive_loop" where
  "adaptive_window F now inputs l =
     (if \<not> al_running l then l
      else if wc_manual_override (al_control l)
      then l\<lparr>al_running := False, al_controller := set_manual_override (al_controller l)\<rparr>
      else
        let current = wc_desired_workers (al_control l);
            (d, ctl) = adaptive_decide F now (into_sample F inputs) current (al_controller l);
            next = adaptive_apply ctl d current
        in l\<lparr>al_controller := ctl,
              al_control := (if d \<noteq> Hold \<and> next \<noteq> current then adjust_desired_workers next (al_control l) else al_control l)\<rparr>)"

datatype 'f adaptive_event = Window duration "'f window_inputs" | SetDesired u64

fun adaptive_event_step :: "'f f64_ops \<Rightarrow> 'f adaptive_event \<Rightarrow> 'f adaptive_loop \<Rightarrow> 'f adaptive_loop" where
  "adaptive_event_step F (Window now inputs) l = adaptive_window F now inputs l"
| "adaptive_event_step F (SetDesired n) l = l\<lparr>al_control := snd (set_desired_workers n (al_control l))\<rparr>"

definition adaptive_run :: "'f f64_ops \<Rightarrow> 'f adaptive_event list \<Rightarrow> 'f adaptive_loop \<Rightarrow> 'f adaptive_loop" where
  "adaptive_run F es l = fold (adaptive_event_step F) es l"

fun window_times :: "'f adaptive_event list \<Rightarrow> duration list" where
  "window_times [] = []"
| "window_times (Window now inputs # es) = now # window_times es"
| "window_times (SetDesired n # es) = window_times es"

section \<open>Single decisions\<close>

text \<open>The fields a decision never changes, and what the intermediate steps leave alone.\<close>

lemma observe_goodput_fields [simp]:
  "ad_config (observe_goodput F s a) = ad_config a" "ad_min (observe_goodput F s a) = ad_min a" "ad_max (observe_goodput F s a) = ad_max a"
  "ad_baseline_windows (observe_goodput F s a) = ad_baseline_windows a" "ad_pre_probe_level (observe_goodput F s a) = ad_pre_probe_level a"
  "ad_cooldown_until (observe_goodput F s a) = ad_cooldown_until a" "ad_manual_override (observe_goodput F s a) = ad_manual_override a"
  by (simp_all add: observe_goodput_def Let_def)

lemma ratchet_fields [simp]:
  "ad_config (ratchet F a) = ad_config a" "ad_min (ratchet F a) = ad_min a" "ad_max (ratchet F a) = ad_max a"
  "ad_baseline_windows (ratchet F a) = ad_baseline_windows a" "ad_pre_probe_level (ratchet F a) = ad_pre_probe_level a"
  "ad_cooldown_until (ratchet F a) = ad_cooldown_until a" "ad_manual_override (ratchet F a) = ad_manual_override a"
  "ad_reference_anchored (ratchet F a) = ad_reference_anchored a"
  by (simp_all add: ratchet_def split: option.splits)

lemma cool_down_fields [simp]:
  "ad_config (cool_down now a) = ad_config a" "ad_min (cool_down now a) = ad_min a" "ad_max (cool_down now a) = ad_max a"
  "ad_baseline_windows (cool_down now a) = ad_baseline_windows a" "ad_pre_probe_level (cool_down now a) = ad_pre_probe_level a"
  "ad_cooldown_until (cool_down now a) = Some (now + ac_cooldown (ad_config a))" "ad_manual_override (cool_down now a) = ad_manual_override a"
  by (simp_all add: cool_down_def)

lemmas decide_defs = respond_to_pressure_def evaluate_probe_def start_probe_def Let_def

definition pressured :: "'f f64_ops \<Rightarrow> 'f window_sample \<Rightarrow> 'f adaptive_config \<Rightarrow> bool" where
  "pressured F s c \<longleftrightarrow> under_pressure s c \<or> storage_pressure F s c \<or> resource_pressure F s c"

definition idle_window :: "'f window_sample \<Rightarrow> bool" where
  "idle_window s \<longleftrightarrow> ws_elapsed s = 0 \<or> ws_completed_bytes s = 0 \<and> ws_network_bytes s = 0"

text \<open>The branches of a decision.\<close>

lemma decide_cases:
  obtains (frozen) r where "ad_manual_override a \<or> idle_window s" "adaptive_decide F now s current a = (Hold, a\<lparr>ad_reason := r\<rparr>)"
  | (pressure) "\<not> ad_manual_override a" "\<not> idle_window s" "pressured F s (ad_config a)"
      "adaptive_decide F now s current a = respond_to_pressure (under_pressure s (ad_config a)) (storage_pressure F s (ad_config a))
         now current (observe_goodput F s a)"
  | (cooling) b where "\<not> ad_manual_override a" "\<not> idle_window s" "in_cooldown now a"
      "b = ratchet F ((observe_goodput F s a)\<lparr>ad_pressure_windows := 0\<rparr>)" "adaptive_decide F now s current a = (Hold, b\<lparr>ad_reason := Cooldown\<rparr>)"
  | (anchoring) b where "\<not> ad_manual_override a" "\<not> idle_window s" "\<not> ad_reference_anchored b"
      "b = ratchet F ((observe_goodput F s a)\<lparr>ad_pressure_windows := 0\<rparr>)"
      "adaptive_decide F now s current a = (Hold, b\<lparr>ad_baseline_windows := ad_baseline_windows b + 1, ad_reason := Baseline\<rparr>)"
  | (probing) b where "\<not> ad_manual_override a" "\<not> idle_window s" "\<not> pressured F s (ad_config a)" "\<not> in_cooldown now a" "ad_reference_anchored b"
      "b = ratchet F ((observe_goodput F s a)\<lparr>ad_pressure_windows := 0\<rparr>)"
      "adaptive_decide F now s current a = (case ad_pre_probe_level b of Some pre \<Rightarrow> evaluate_probe F now current b | None \<Rightarrow> start_probe now current b)"
proof -
  let ?b = "ratchet F ((observe_goodput F s a)\<lparr>ad_pressure_windows := 0\<rparr>)"
  have cool: "in_cooldown now ?b = in_cooldown now a" by (simp add: in_cooldown_def)
  consider "ad_manual_override a" | "\<not> ad_manual_override a" "idle_window s"
    | "\<not> ad_manual_override a" "\<not> idle_window s" "pressured F s (ad_config a)"
    | "\<not> ad_manual_override a" "\<not> idle_window s" "\<not> pressured F s (ad_config a)" by blast
  then show thesis
  proof cases
    case 1
    then show thesis using frozen [of ManualOverride] by (simp add: adaptive_decide_def)
  next
    case 2
    then show thesis using frozen [of EmptyWindow] by (simp add: adaptive_decide_def idle_window_def)
  next
    case 3
    then have "adaptive_decide F now s current a = respond_to_pressure (under_pressure s (ad_config a)) (storage_pressure F s (ad_config a))
         now current (observe_goodput F s a)"
      by (auto simp: adaptive_decide_def idle_window_def pressured_def Let_def)
    then show thesis using 3 pressure by blast
  next
    case 4
    then have "adaptive_decide F now s current a =
      (if in_cooldown now a then (Hold, ?b\<lparr>ad_reason := Cooldown\<rparr>)
       else if \<not> ad_reference_anchored ?b then (Hold, ?b\<lparr>ad_baseline_windows := ad_baseline_windows ?b + 1, ad_reason := Baseline\<rparr>)
       else case ad_pre_probe_level ?b of Some pre \<Rightarrow> evaluate_probe F now current ?b | None \<Rightarrow> start_probe now current ?b)"
      using cool by (auto simp: adaptive_decide_def idle_window_def pressured_def Let_def)
    then show thesis using 4 cooling [of ?b] anchoring [of ?b] probing [of ?b] by (auto split: if_splits)
  qed
qed

lemma respond_fields:
  assumes "respond_to_pressure retry storage now current a = (d, a')"
  shows "ad_config a' = ad_config a" "ad_min a' = ad_min a" "ad_max a' = ad_max a" "ad_manual_override a' = ad_manual_override a"
    "ad_baseline_windows a' = ad_baseline_windows a" "ad_cooldown_until a' = Some (now + ac_cooldown (ad_config a))" "d \<noteq> ProbeUp"
  using assms by (auto simp: respond_to_pressure_def Let_def split: option.splits if_splits)

lemma probing_fields:
  assumes "(case ad_pre_probe_level a of Some pre \<Rightarrow> evaluate_probe F now current a | None \<Rightarrow> start_probe now current a) = (d, a')"
  shows "ad_config a' = ad_config a" "ad_min a' = ad_min a" "ad_max a' = ad_max a" "ad_manual_override a' = ad_manual_override a"
    "ad_baseline_windows a' = ad_baseline_windows a"
    "ad_cooldown_until a' = Some (now + ac_cooldown (ad_config a)) \<or> d \<noteq> ProbeUp \<and> ad_cooldown_until a' = ad_cooldown_until a"
    "d = ProbeUp \<Longrightarrow> current < ad_max a \<and> ad_pre_probe_level a' = Some current"
  using assms by (auto simp: evaluate_probe_def start_probe_def Let_def split: option.splits if_splits)

lemma decide_fields:
  assumes "adaptive_decide F now s current a = (d, a')"
  shows "ad_config a' = ad_config a \<and> ad_min a' = ad_min a \<and> ad_max a' = ad_max a \<and> ad_manual_override a' = ad_manual_override a \<and>
    (ad_cooldown_until a' = Some (now + ac_cooldown (ad_config a)) \<or> d \<noteq> ProbeUp \<and> ad_cooldown_until a' = ad_cooldown_until a) \<and>
    (ad_baseline_windows a \<le> OPENING_WINDOW_CAP \<longrightarrow> ad_baseline_windows a' \<le> OPENING_WINDOW_CAP)"
proof (rule decide_cases [where a = a and s = s and F = F and now = now and current = current], goal_cases)
  case (2)
  then show ?case using assms respond_fields [of _ _ now current "observe_goodput F s a" d a'] by simp
next
  case (4 b)
  then have "\<not> OPENING_WINDOW_CAP \<le> ad_baseline_windows a" by (auto simp: observe_goodput_def Let_def)
  then show ?case using 4 assms by auto
next
  case (5 b)
  then show ?case using assms probing_fields [where a = b and a' = a' and F = F and now = now and current = current and d = d] by auto
qed (use assms in auto)

lemma decide_growth:
  assumes "adaptive_decide F now s current a = (ProbeUp, a')"
  shows "\<not> ad_manual_override a \<and> \<not> pressured F s (ad_config a) \<and> \<not> in_cooldown now a \<and> current < ad_max a"
proof (rule decide_cases [where a = a and s = s and F = F and now = now and current = current], goal_cases)
  case 2
  then show ?case using assms respond_fields(7) by metis
next
  case (5 b)
  then show ?case using assms probing_fields(7) [where a = b and a' = a' and F = F and now = now and current = current and d = ProbeUp] by simp
qed (use assms in auto)

section \<open>Runs of the loop\<close>

definition loop_inv :: "'f adaptive_config \<Rightarrow> worker_control \<Rightarrow> 'f adaptive_loop \<Rightarrow> bool" where
  "loop_inv config w l \<longleftrightarrow>
     wc_min_workers (al_control l) = wc_min_workers w \<and> wc_max_workers (al_control l) = wc_max_workers w
     \<and> wc_min_workers w \<le> wc_desired_workers (al_control l) \<and> wc_desired_workers (al_control l) \<le> wc_max_workers w
     \<and> ad_config (al_controller l) = config
     \<and> ad_min (al_controller l) = wc_min_workers w \<and> ad_max (al_controller l) = max (wc_min_workers w) (effective_max w)
     \<and> ad_baseline_windows (al_controller l) \<le> OPENING_WINDOW_CAP
     \<and> (wc_manual_override (al_control l) \<or> wc_desired_workers (al_control l) \<le> ad_max (al_controller l))"

lemma effective_max_le: "effective_max w \<le> wc_max_workers w"
  by (simp add: effective_max_def)

text \<open>What one decision does to a level inside the bounds of the controller.\<close>

lemma apply_step:
  assumes "ad_min a \<le> current" "current \<le> ad_max a" "1 \<le> ad_min a"
  shows "adaptive_apply a d current \<in> {current - 1, current, current + 1}"
    "ad_min a \<le> adaptive_apply a d current \<and> adaptive_apply a d current \<le> ad_max a"
    "current < adaptive_apply a d current \<Longrightarrow> d = ProbeUp"
    "adaptive_apply a Hold current = current"
  using assms by (auto simp: adaptive_apply_def clamp_def split: decision.splits if_splits)

lemma clamp_id: "lo \<le> x \<Longrightarrow> x \<le> hi \<Longrightarrow> clamp lo hi x = x"
  by (simp add: clamp_def)

lemma window_frozen:
  "\<not> al_running l \<or> wc_manual_override (al_control l) \<Longrightarrow> al_control (adaptive_window F now inputs l) = al_control l
     \<and> (al_controller (adaptive_window F now inputs l) = al_controller l
        \<or> al_controller (adaptive_window F now inputs l) = set_manual_override (al_controller l))"
  by (auto simp: adaptive_window_def)

lemma window_live:
  assumes "loop_inv config w l" "1 \<le> wc_min_workers w" "wc_min_workers w \<le> wc_max_workers w"
    and "al_running l" "\<not> wc_manual_override (al_control l)"
    and "adaptive_decide F now (into_sample F inputs) (wc_desired_workers (al_control l)) (al_controller l) = (d, ctl)"
  shows "al_controller (adaptive_window F now inputs l) = ctl"
    "al_control (adaptive_window F now inputs l)
       = (al_control l)\<lparr>wc_desired_workers := adaptive_apply ctl d (wc_desired_workers (al_control l))\<rparr>"
proof -
  have f: "ad_min ctl = wc_min_workers w" "ad_max ctl = max (wc_min_workers w) (effective_max w)"
    using assms(1) decide_fields [OF assms(6)] by (simp_all add: loop_inv_def)
  have "ad_min ctl \<le> wc_desired_workers (al_control l)" "wc_desired_workers (al_control l) \<le> ad_max ctl" "1 \<le> ad_min ctl"
    using assms(1,2,5) f by (auto simp: loop_inv_def)
  note level = apply_step(2,4) [OF this]
  have "wc_min_workers w \<le> adaptive_apply ctl d (wc_desired_workers (al_control l))"
    "adaptive_apply ctl d (wc_desired_workers (al_control l)) \<le> wc_max_workers w"
    using level(1) [of d] f effective_max_le [of w] assms(3) by auto
  then show "al_controller (adaptive_window F now inputs l) = ctl"
    "al_control (adaptive_window F now inputs l)
       = (al_control l)\<lparr>wc_desired_workers := adaptive_apply ctl d (wc_desired_workers (al_control l))\<rparr>"
    using assms(1,4,5,6) level(2) by (auto simp: adaptive_window_def adjust_desired_workers_def loop_inv_def clamp_id Let_def)
qed

text \<open>The invariant of the loop, for either writer of the level.\<close>

lemma loop_inv_window:
  assumes "loop_inv config w l" "1 \<le> wc_min_workers w" "wc_min_workers w \<le> wc_max_workers w"
  shows "loop_inv config w (adaptive_window F now inputs l)"
proof (cases "\<not> al_running l \<or> wc_manual_override (al_control l)")
  case True
  then show ?thesis
    using assms(1) window_frozen [OF True, of F now inputs] by (auto simp: loop_inv_def set_manual_override_def)
next
  case False
  obtain d ctl where dec: "adaptive_decide F now (into_sample F inputs) (wc_desired_workers (al_control l)) (al_controller l) = (d, ctl)"
    by fastforce
  note live = window_live [OF assms _ _ dec] and fields = decide_fields [OF dec]
  have "ad_min ctl \<le> wc_desired_workers (al_control l)" "wc_desired_workers (al_control l) \<le> ad_max ctl" "1 \<le> ad_min ctl"
    using assms(1,2) False fields by (auto simp: loop_inv_def)
  from apply_step(2) [OF this, of d] show ?thesis
    using assms(1,3) False live fields effective_max_le [of w] by (auto simp: loop_inv_def)
qed

lemma loop_inv_event:
  assumes "loop_inv config w l" "1 \<le> wc_min_workers w" "wc_min_workers w \<le> wc_max_workers w"
  shows "loop_inv config w (adaptive_event_step F e l)"
proof (cases e)
  case (Window now inputs)
  then show ?thesis using loop_inv_window [OF assms] by simp
next
  case (SetDesired n)
  then show ?thesis
    using assms clamp_bounds [of "wc_min_workers w" "wc_max_workers w" n] by (auto simp: loop_inv_def set_desired_workers_def Let_def)
qed

lemma loop_inv_run:
  assumes "loop_inv config w l" "1 \<le> wc_min_workers w" "wc_min_workers w \<le> wc_max_workers w"
  shows "loop_inv config w (adaptive_run F es l)"
  using assms(1) unfolding adaptive_run_def
proof (induction es arbitrary: l)
  case (Cons e es)
  then show ?case using loop_inv_event [OF Cons.prems assms(2,3)] by simp
qed simp

lemma loop_inv_start:
  assumes "1 \<le> wc_min_workers w" "wc_min_workers w \<le> wc_max_workers w" "wc_desired_workers w = wc_min_workers w"
  shows "loop_inv config w (adaptive_loop_start config w)"
  using assms effective_max_le [of w] by (auto simp: loop_inv_def adaptive_loop_start_def adaptive_new_def)

lemma window_level:
  fixes F :: "'f f64_ops" and now inputs
  assumes "loop_inv config w l" "1 \<le> wc_min_workers w" "wc_min_workers w \<le> wc_max_workers w"
  defines "n \<equiv> wc_desired_workers (al_control l)" and "l' \<equiv> adaptive_window F now inputs l"
  shows "wc_desired_workers (al_control l') \<in> {n - 1, n, n + 1}"
    "n < wc_desired_workers (al_control l') \<Longrightarrow>
       \<exists>ctl. \<not> wc_manual_override (al_control l) \<and> adaptive_decide F now (into_sample F inputs) n (al_controller l) = (ProbeUp, ctl) \<and> al_controller l' = ctl"
proof -
  obtain d ctl where dec: "adaptive_decide F now (into_sample F inputs) n (al_controller l) = (d, ctl)"
    by fastforce
  note live = window_live [OF assms(1-3) _ _ dec [unfolded n_def]] and fields = decide_fields [OF dec]
  have "(wc_desired_workers (al_control l') \<in> {n - 1, n, n + 1}) \<and> (n < wc_desired_workers (al_control l') \<longrightarrow>
       (\<exists>ctl. \<not> wc_manual_override (al_control l) \<and> adaptive_decide F now (into_sample F inputs) n (al_controller l) = (ProbeUp, ctl) \<and> al_controller l' = ctl))"
  proof (cases "\<not> al_running l \<or> wc_manual_override (al_control l)")
    case True
    then show ?thesis using window_frozen [OF True, of F now inputs] by (simp add: l'_def n_def)
  next
    case False
    have "ad_min ctl \<le> n" "n \<le> ad_max ctl" "1 \<le> ad_min ctl"
      using assms(1,2) False fields by (auto simp: loop_inv_def n_def)
    note level = apply_step(1,3) [OF this, of d]
    have "wc_desired_workers (al_control l') = adaptive_apply ctl d n" "al_controller l' = ctl"
      using False live by (simp_all add: l'_def n_def)
    then show ?thesis using level dec False by auto
  qed
  then show "wc_desired_workers (al_control l') \<in> {n - 1, n, n + 1}"
    "n < wc_desired_workers (al_control l') \<Longrightarrow>
       \<exists>ctl. \<not> wc_manual_override (al_control l) \<and> adaptive_decide F now (into_sample F inputs) n (al_controller l) = (ProbeUp, ctl) \<and> al_controller l' = ctl"
    by blast+
qed

text \<open>A cooldown deadline at or beyond \<open>D\<close> stays there as long as windows end no earlier than the one that set it.\<close>

definition cooling_until :: "duration \<Rightarrow> 'f adaptive_loop \<Rightarrow> bool" where
  "cooling_until D l \<longleftrightarrow> (\<exists>u. ad_cooldown_until (al_controller l) = Some u \<and> D \<le> u)"

lemma cooling_event:
  assumes "cooling_until (t + ac_cooldown config) l" "ad_config (al_controller l) = config" "\<forall>now \<in> set (window_times [e]). t \<le> now"
  shows "cooling_until (t + ac_cooldown config) (adaptive_event_step F e l)"
proof (cases e)
  case (Window now inputs)
  obtain d ctl where dec: "adaptive_decide F now (into_sample F inputs) (wc_desired_workers (al_control l)) (al_controller l) = (d, ctl)"
    by fastforce
  from decide_fields [OF dec] show ?thesis
    using assms dec Window by (auto simp: cooling_until_def adaptive_window_def set_manual_override_def Let_def)
qed (use assms in \<open>simp add: cooling_until_def\<close>)

lemma window_times_Cons: "set (window_times (e # es)) = set (window_times [e]) \<union> set (window_times es)"
  by (cases e) auto

lemma cooling_run:
  assumes "loop_inv config w l" "1 \<le> wc_min_workers w" "wc_min_workers w \<le> wc_max_workers w"
    and "cooling_until (t + ac_cooldown config) l" "\<forall>now \<in> set (window_times es). t \<le> now"
  shows "cooling_until (t + ac_cooldown config) (adaptive_run F es l)"
  using assms(1,4,5) unfolding adaptive_run_def
proof (induction es arbitrary: l)
  case (Cons e es)
  have "cooling_until (t + ac_cooldown config) (adaptive_event_step F e l)"
    using Cons.prems cooling_event [of t config l e F] by (simp add: window_times_Cons [of e es] loop_inv_def)
  then show ?case
    using Cons.IH [OF loop_inv_event [OF Cons.prems(1) assms(2,3)]] Cons.prems(3) by (simp add: window_times_Cons [of e es])
qed simp

section \<open>A sample job\<close>

definition sample_control :: worker_control where
  "sample_control = \<lparr>wc_min_workers = 1, wc_max_workers = 4, wc_desired_workers = 1, wc_manual_override = False,
     wc_protocol_is_h2 = True, wc_per_origin_connection_cap = 2, wc_global_connection_cap = 8\<rparr>"

definition sample_inputs :: "u64 \<Rightarrow> rat window_inputs" where
  "sample_inputs bytes = \<lparr>wi_completed_bytes = bytes, wi_network_bytes = bytes, wi_wasted_bytes = 0, wi_retries = 0, wi_throttled = 0,
     wi_active_worker_ms = 500, wi_idle_worker_ms = 0, wi_ack_p50_ms = None, wi_ack_p95_ms = None, wi_queue_p50 = None,
     wi_queue_p95 = None, wi_budget_wait_ms = 0, wi_rss_bytes = None, wi_cpu_percent = None, wi_elapsed = millis 500\<rparr>"

definition sample_events :: "rat adaptive_event list" where
  "sample_events = [Window (millis 500) (sample_inputs 1000000)]"

definition sample_loop :: "rat adaptive_loop" where
  "sample_loop = adaptive_run rat_ops sample_events (adaptive_loop_start (adaptive_config_default rat_ops) sample_control)"

lemmas sample_eval = adaptive_run_def adaptive_window_def adaptive_loop_start_def adaptive_new_def adaptive_decide_def observe_goodput_def
  smooth_def ratchet_def start_probe_def evaluate_probe_def cool_down_def in_cooldown_def is_some_and_def useful_goodput_def under_pressure_def
  storage_pressure_def resource_pressure_def into_sample_def idle_ratio_def sample_control_def sample_inputs_def
  sample_events_def adaptive_config_default_def effective_max_def adjust_desired_workers_def adaptive_apply_def clamp_def f_abs_def
  epsilon_def OPENING_WINDOW_CAP_def millis_def as_secs_f64_def rat_ops_def sat_add_def u64_max_def Let_def

section \<open>Properties\<close>

text \<open>
  The adaptive level stays within its bounds and moves one worker at a time. From the start of
  a job with \<open>1 \<le> min_workers \<le> max_workers\<close>, whatever windows end and whatever counts the
  operator sets, the desired worker count stays between \<open>min_workers\<close> and \<open>max_workers\<close>; until
  the operator intervenes it also stays below the protocol-aware maximum. The next window changes it by
  at most one, and not at all once the operator has set it. The baseline phase never records more than
  \<open>OPENING_WINDOW_CAP\<close> windows, so its counter cannot overflow.
\<close>

lemma adaptive_level_bounded:
  fixes F :: "'f f64_ops" and es config now inputs
  assumes "1 \<le> wc_min_workers w" "wc_min_workers w \<le> wc_max_workers w" "wc_desired_workers w = wc_min_workers w"
  defines "l \<equiv> adaptive_run F es (adaptive_loop_start config w)"
  defines "n \<equiv> wc_desired_workers (al_control l)" and "n' \<equiv> wc_desired_workers (al_control (adaptive_window F now inputs l))"
  shows "wc_min_workers w \<le> n \<and> n \<le> wc_max_workers w
    \<and> (wc_manual_override (al_control l) \<or> n \<le> max (wc_min_workers w) (effective_max w))
    \<and> n' \<in> {n - 1, n, n + 1}
    \<and> (wc_manual_override (al_control l) \<longrightarrow> n' = n)
    \<and> ad_baseline_windows (al_controller l) \<le> OPENING_WINDOW_CAP"
proof -
  have inv: "loop_inv config w l"
    unfolding l_def by (intro loop_inv_run loop_inv_start assms)
  have "wc_manual_override (al_control l) \<Longrightarrow> n' = n"
    using window_frozen [of l F now inputs] by (simp add: n_def n'_def)
  then show ?thesis
    using inv window_level(1) [OF inv assms(1,2), of F now inputs] unfolding n_def n'_def by (auto simp: loop_inv_def)
qed

text \<open>
  Claim C23: growth is spaced and never happens under pressure. If two windows of a run both raise the
  desired worker count and windows end in the order of the clock, the second one ends at least one
  cooldown after the first, and neither window shows retry, storage or resource pressure nor follows a
  manual override.
\<close>

theorem adaptive_growth_spaced:
  fixes F :: "'f f64_ops" and es1 es2 config t1 i1 t2 i2
  assumes "1 \<le> wc_min_workers w" "wc_min_workers w \<le> wc_max_workers w" "wc_desired_workers w = wc_min_workers w"
  defines "l1 \<equiv> adaptive_run F es1 (adaptive_loop_start config w)"
  defines "l2 \<equiv> adaptive_window F t1 i1 l1"
  defines "l3 \<equiv> adaptive_run F es2 l2"
  defines "l4 \<equiv> adaptive_window F t2 i2 l3"
  assumes "\<forall>t \<in> set (window_times es2). t1 \<le> t"
    and "wc_desired_workers (al_control l1) < wc_desired_workers (al_control l2)"
    and "wc_desired_workers (al_control l3) < wc_desired_workers (al_control l4)"
  shows "t1 + ac_cooldown config \<le> t2
    \<and> \<not> pressured F (into_sample F i1) config \<and> \<not> pressured F (into_sample F i2) config
    \<and> \<not> wc_manual_override (al_control l1) \<and> \<not> wc_manual_override (al_control l3)"
proof -
  have inv1: "loop_inv config w l1"
    unfolding l1_def by (intro loop_inv_run loop_inv_start assms)
  have inv2: "loop_inv config w l2" unfolding l2_def by (rule loop_inv_window [OF inv1 assms(1,2)])
  have inv3: "loop_inv config w l3" unfolding l3_def by (rule loop_inv_run [OF inv2 assms(1,2)])
  obtain c2 where g1: "\<not> wc_manual_override (al_control l1)"
    "adaptive_decide F t1 (into_sample F i1) (wc_desired_workers (al_control l1)) (al_controller l1) = (ProbeUp, c2)" "al_controller l2 = c2"
    using window_level(2) [OF inv1 assms(1,2), of F t1 i1] assms(9) unfolding l2_def by blast
  obtain c4 where g2: "\<not> wc_manual_override (al_control l3)"
    "adaptive_decide F t2 (into_sample F i2) (wc_desired_workers (al_control l3)) (al_controller l3) = (ProbeUp, c4)"
    using window_level(2) [OF inv3 assms(1,2), of F t2 i2] assms(10) unfolding l4_def by blast
  have cfg: "ad_config (al_controller l1) = config" "ad_config (al_controller l3) = config"
    using inv1 inv3 by (simp_all add: loop_inv_def)
  have "cooling_until (t1 + ac_cooldown config) l2"
    using decide_fields [OF g1(2)] g1(3) cfg by (auto simp: cooling_until_def)
  then have "cooling_until (t1 + ac_cooldown config) l3"
    unfolding l3_def by (intro cooling_run [OF inv2 assms(1,2)] assms(8))
  moreover note decide_growth [OF g1(2)] decide_growth [OF g2(2)]
  ultimately show ?thesis
    using g1(1) g2(1) cfg by (auto simp: cooling_until_def in_cooldown_def is_some_and_def)
qed

theorem adaptive_growth_spaced_witness:
  "(let l2 = adaptive_window rat_ops (millis 1000) (sample_inputs 1000000) sample_loop;
        l4 = adaptive_window rat_ops (millis 2000) (sample_inputs 2000000) l2
    in wc_desired_workers (al_control sample_loop) = 1 \<and> wc_desired_workers (al_control l2) = 2 \<and> wc_desired_workers (al_control l4) = 3)
   \<and> millis 1000 + ac_cooldown (adaptive_config_default rat_ops) \<le> millis 2000"
proof
  show levels: "let l2 = adaptive_window rat_ops (millis 1000) (sample_inputs 1000000) sample_loop;
        l4 = adaptive_window rat_ops (millis 2000) (sample_inputs 2000000) l2
    in wc_desired_workers (al_control sample_loop) = 1 \<and> wc_desired_workers (al_control l2) = 2 \<and> wc_desired_workers (al_control l4) = 3"
    by (simp add: sample_loop_def sample_eval)
  show "millis 1000 + ac_cooldown (adaptive_config_default rat_ops) \<le> millis 2000"
    using levels adaptive_growth_spaced [of sample_control "[]" "millis 1000" rat_ops sample_events "adaptive_config_default rat_ops"
        "sample_inputs 1000000" "millis 2000" "sample_inputs 2000000"]
    by (simp add: sample_loop_def sample_control_def adaptive_run_def Let_def)
qed

end
