(* ===== verification/Origin_Registry.thy ===== *)
theory Origin_Registry
  imports Redaction Download_Error
begin

text \<open>
  Normalized final origins and the registry that admits requests per origin (\<open>control/origin.rs\<close>).
  Entries live in a store indexed by address, so that an \<open>Arc\<close> a request holds keeps naming its entry
  after the registry has dropped the key. A semaphore is its count of free permits; the wall clock in
  milliseconds is an argument of the operations that read it.
\<close>

section \<open>Origins\<close>

definition parse_u16 :: "string \<Rightarrow> u16 option" where
  "parse_u16 s = (case parse_u64 s of Some n \<Rightarrow> if n \<le> 65535 then Some n else None | None \<Rightarrow> None)"

text \<open>The bracketed literal keeps its closing bracket; what follows must be a port or nothing.\<close>

definition split_host_port :: "string \<Rightarrow> u16 \<Rightarrow> (string \<times> u16) option" where
  "split_host_port host_port dflt =
     (if strip_prefix ''['' host_port \<noteq> None then
        (case split_once CHR '']'' host_port of
           None \<Rightarrow> None
         | Some (inside, after) \<Rightarrow>
             (case strip_prefix '':'' after of
                Some p \<Rightarrow> (case parse_u16 p of Some port \<Rightarrow> Some (inside @ '']'', port) | None \<Rightarrow> None)
              | None \<Rightarrow> if after = [] then Some (inside @ '']'', dflt) else None))
      else
        (case rsplit_once CHR '':'' host_port of
           Some (host, port) \<Rightarrow> (case parse_u16 port of Some p \<Rightarrow> Some (host, p) | None \<Rightarrow> None)
         | None \<Rightarrow> Some (host_port, dflt)))"

definition authority_char :: "char \<Rightarrow> bool" where
  "authority_char c \<longleftrightarrow> c \<noteq> CHR ''/'' \<and> c \<noteq> CHR ''?'' \<and> c \<noteq> CHR ''#''"

definition strip_trailing_dot :: "string \<Rightarrow> string" where
  "strip_trailing_dot host = (if host \<noteq> [] \<and> last host = CHR ''.'' then butlast host else host)"

definition normalized_origin :: "string \<Rightarrow> string option" where
  "normalized_origin url =
     (case split_once_str ''://'' url of
        None \<Rightarrow> None
      | Some (scheme0, rest) \<Rightarrow>
          if scheme0 = [] \<or> rest = [] then None
          else
            let scheme = to_ascii_lowercase scheme0
            in if scheme \<noteq> ''http'' \<and> scheme \<noteq> ''https'' then None
               else
                 let authority = takeWhile authority_char rest;
                     host_port = (case rsplit_once CHR ''@'' authority of Some (_, h) \<Rightarrow> h | None \<Rightarrow> authority)
                 in if host_port = [] then None
                    else
                      case split_host_port host_port (if scheme = ''https'' then 443 else 80) of
                        None \<Rightarrow> None
                      | Some (host0, port) \<Rightarrow>
                          (let host = strip_trailing_dot (to_ascii_lowercase host0)
                           in if host = [] then None else Some (scheme @ ''://'' @ host @ '':'' @ show_u64 port)))"

section \<open>Registry\<close>

record origin_entry =
  oe_available :: nat
  oe_capacity :: u32
  oe_backoff_until_ms :: u64
  oe_throttle_events :: u64
  oe_success_events :: u64
  oe_last_active_ms :: u64

definition entry_new :: "u64 \<Rightarrow> u32 \<Rightarrow> origin_entry" where
  "entry_new now capacity =
     \<lparr>oe_available = max capacity 1, oe_capacity = max capacity 1, oe_backoff_until_ms = 0, oe_throttle_events = 0,
      oe_success_events = 0, oe_last_active_ms = now\<rparr>"

definition touch :: "u64 \<Rightarrow> origin_entry \<Rightarrow> origin_entry" where
  "touch now e = e\<lparr>oe_last_active_ms := now\<rparr>"

definition entry_in_flight :: "origin_entry \<Rightarrow> u32" where
  "entry_in_flight e = sat_sub (oe_capacity e) (oe_available e)"

type_synonym address = nat

record origin_registry =
  or_entries :: "(string, address) hashmap"
  or_store :: "origin_entry list"
  or_capacity_per_origin :: u32
  or_max_entries :: nat
  or_idle_ttl :: duration
  or_disabled :: bool

definition registry_default :: origin_registry where
  "registry_default = \<lparr>or_entries = [], or_store = [], or_capacity_per_origin = 256, or_max_entries = 1024,
     or_idle_ttl = 300 * 1000000000, or_disabled = False\<rparr>"

definition registry_with_limits :: "u32 \<Rightarrow> nat \<Rightarrow> duration \<Rightarrow> origin_registry" where
  "registry_with_limits capacity max_entries ttl =
     \<lparr>or_entries = [], or_store = [], or_capacity_per_origin = max capacity 1, or_max_entries = max max_entries 1,
      or_idle_ttl = ttl, or_disabled = False\<rparr>"

definition registry_disabled :: origin_registry where
  "registry_disabled = \<lparr>or_entries = [], or_store = [], or_capacity_per_origin = 1, or_max_entries = 1, or_idle_ttl = 0, or_disabled = True\<rparr>"

text \<open>\<open>Duration::as_millis() as u64\<close>: the cast keeps the low 64 bits.\<close>

definition as_millis_u64 :: "duration \<Rightarrow> u64" where
  "as_millis_u64 d = (d div 1000000) mod (u64_max + 1)"

definition evict_idle_entries :: "u64 \<Rightarrow> duration \<Rightarrow> origin_entry list \<Rightarrow> (string, address) hashmap \<Rightarrow> (string, address) hashmap" where
  "evict_idle_entries now idle_ttl st m =
     (let cutoff = sat_sub now (as_millis_u64 idle_ttl)
      in filter (\<lambda>(_, a). 0 < entry_in_flight (st ! a) \<or> cutoff < oe_last_active_ms (st ! a)) m)"

text \<open>\<open>min_by_key\<close> returns the first of several minimal elements.\<close>

fun min_by_key :: "('a \<Rightarrow> nat) \<Rightarrow> 'a list \<Rightarrow> 'a option" where
  "min_by_key f [] = None"
| "min_by_key f (x # xs) = (case min_by_key f xs of None \<Rightarrow> Some x | Some y \<Rightarrow> if f x \<le> f y then Some x else Some y)"

definition eviction_victim :: "origin_entry list \<Rightarrow> (string, address) hashmap \<Rightarrow> string option" where
  "eviction_victim st m =
     map_option fst (min_by_key (\<lambda>(_, a). oe_last_active_ms (st ! a)) (filter (\<lambda>(_, a). entry_in_flight (st ! a) = 0) m))"

lemma min_by_key_in: "min_by_key f xs = Some x \<Longrightarrow> x \<in> set xs"
  by (induction xs arbitrary: x) (auto split: option.splits if_splits)

lemma min_by_key_None: "min_by_key f xs = None \<longleftrightarrow> xs = []"
  by (cases xs) (auto split: option.splits)

lemma eviction_victim_in: "eviction_victim st m = Some k \<Longrightarrow> \<exists>a. (k, a) \<in> set m \<and> entry_in_flight (st ! a) = 0"
  by (auto simp: eviction_victim_def dest!: min_by_key_in)

lemma hm_remove_shorter: "k \<in> fst ` set m \<Longrightarrow> length (hm_remove k m) < length m"
  by (induction m) (auto simp: AList.delete_eq le_imp_less_Suc)

function evict_to_cap :: "nat \<Rightarrow> origin_entry list \<Rightarrow> (string, address) hashmap \<Rightarrow> (string, address) hashmap" where
  "evict_to_cap cap st m =
     (if cap \<le> length m
      then (case eviction_victim st m of None \<Rightarrow> m | Some victim \<Rightarrow> evict_to_cap cap st (hm_remove victim m))
      else m)"
  by pat_completeness auto
termination
  by (relation "measure (\<lambda>(cap, st, m). length m)") (auto dest!: eviction_victim_in intro!: hm_remove_shorter image_eqI)

declare evict_to_cap.simps [simp del]

definition store_update :: "address \<Rightarrow> (origin_entry \<Rightarrow> origin_entry) \<Rightarrow> origin_registry \<Rightarrow> origin_registry" where
  "store_update a f r = r\<lparr>or_store := (or_store r)[a := f (or_store r ! a)]\<rparr>"

definition registry_entry :: "u64 \<Rightarrow> string \<Rightarrow> origin_registry \<Rightarrow> address \<times> origin_registry" where
  "registry_entry now key r =
     (case hm_get (or_entries r) key of
        Some a \<Rightarrow> (a, store_update a (touch now) r)
      | None \<Rightarrow>
          (let m1 = (if or_max_entries r \<le> length (or_entries r)
                     then evict_idle_entries now (or_idle_ttl r) (or_store r) (or_entries r) else or_entries r);
               m2 = evict_to_cap (or_max_entries r) (or_store r) m1;
               a = length (or_store r)
           in (a, r\<lparr>or_store := or_store r @ [entry_new now (or_capacity_per_origin r)], or_entries := hm_insert key a m2\<rparr>)))"

definition report_throttle :: "u64 \<Rightarrow> string \<Rightarrow> duration option \<Rightarrow> duration \<Rightarrow> origin_registry \<Rightarrow> origin_registry" where
  "report_throttle now key capped_retry_after fallback_delay r =
     (if or_disabled r then r
      else
        let (a, r1) = registry_entry now key r;
            delay = (case capped_retry_after of Some d \<Rightarrow> d | None \<Rightarrow> fallback_delay);
            until = sat_add now (as_millis_u64 delay)
        in store_update a (\<lambda>e. e\<lparr>oe_throttle_events := u64_add (oe_throttle_events e) 1,
                                 oe_backoff_until_ms := (if until \<le> oe_backoff_until_ms e then oe_backoff_until_ms e else until)\<rparr>) r1)"

definition report_success :: "u64 \<Rightarrow> string \<Rightarrow> origin_registry \<Rightarrow> origin_registry" where
  "report_success now key r =
     (if or_disabled r then r
      else let (a, r1) = registry_entry now key r
           in store_update a (\<lambda>e. touch now (e\<lparr>oe_success_events := u64_add (oe_success_events e) 1\<rparr>)) r1)"

definition backoff_remaining :: "u64 \<Rightarrow> string \<Rightarrow> origin_registry \<Rightarrow> duration option" where
  "backoff_remaining now key r =
     (case hm_get (or_entries r) key of
        None \<Rightarrow> None
      | Some a \<Rightarrow>
          (let wait = sat_sub (oe_backoff_until_ms (or_store r ! a)) now
           in if wait = 0 then None else Some (wait * 1000000)))"

definition registry_in_flight :: "string \<Rightarrow> origin_registry \<Rightarrow> u32" where
  "registry_in_flight key r = (case hm_get (or_entries r) key of None \<Rightarrow> 0 | Some a \<Rightarrow> entry_in_flight (or_store r ! a))"

definition throttle_trace :: "string \<Rightarrow> origin_registry \<Rightarrow> u64 \<times> u64" where
  "throttle_trace key r =
     (case hm_get (or_entries r) key of
        Some a \<Rightarrow> (oe_throttle_events (or_store r ! a), oe_success_events (or_store r ! a))
      | None \<Rightarrow> (0, 0))"

definition evict_idle :: "u64 \<Rightarrow> origin_registry \<Rightarrow> nat \<times> origin_registry" where
  "evict_idle now r =
     (let m = evict_idle_entries now (or_idle_ttl r) (or_store r) (or_entries r)
      in (length (or_entries r) - length m, r\<lparr>or_entries := m\<rparr>))"

section \<open>Admission\<close>

text \<open>
  A request between its calls into the registry. \<open>AtDeadline\<close> is the top of the admission loop,
  \<open>ForSlot\<close> waits for a permit of its entry, \<open>Admitted\<close> holds the permit (a disabled registry admits
  without one).
\<close>

datatype admission =
    AtDeadline string address
  | ForSlot string address
  | Admitted string "address option"
  | Refused
  | Returned

definition check_deadline :: "u64 \<Rightarrow> string \<Rightarrow> address \<Rightarrow> origin_registry \<Rightarrow> admission" where
  "check_deadline now key a r =
     (if or_disabled r then Admitted key None
      else if 0 < sat_sub (oe_backoff_until_ms (or_store r ! a)) now then AtDeadline key a
      else ForSlot key a)"

definition take_slot :: "u64 \<Rightarrow> string \<Rightarrow> address \<Rightarrow> origin_registry \<Rightarrow> (admission \<times> origin_registry) option" where
  "take_slot now key a r =
     (if 0 < oe_available (or_store r ! a)
      then Some (Admitted key (Some a), store_update a (\<lambda>e. touch now (e\<lparr>oe_available := oe_available e - 1\<rparr>)) r)
      else None)"

definition drop_permit :: "address option \<Rightarrow> origin_registry \<Rightarrow> origin_registry" where
  "drop_permit p r = (case p of None \<Rightarrow> r | Some a \<Rightarrow> store_update a (\<lambda>e. e\<lparr>oe_available := oe_available e + 1\<rparr>) r)"

record origin_world =
  ow_registry :: origin_registry
  ow_requests :: "admission list"

datatype origin_op =
    BeginRequest u64 string
  | CheckDeadline u64 nat
  | TakeSlot u64 nat
  | CancelRequest nat
  | DropPermit nat
  | Throttle u64 string "duration option" duration
  | Success u64 string
  | Sweep u64

definition set_request :: "nat \<Rightarrow> admission \<Rightarrow> origin_world \<Rightarrow> origin_world" where
  "set_request i q w = w\<lparr>ow_requests := (ow_requests w)[i := q]\<rparr>"

definition request_at :: "nat \<Rightarrow> origin_world \<Rightarrow> admission" where
  "request_at i w = (if i < length (ow_requests w) then ow_requests w ! i else Returned)"

fun origin_apply :: "origin_op \<Rightarrow> origin_world \<Rightarrow> origin_world" where
  "origin_apply (BeginRequest now key) w =
     (let (a, r) = registry_entry now key (ow_registry w)
      in w\<lparr>ow_registry := r, ow_requests := ow_requests w @ [AtDeadline key a]\<rparr>)"
| "origin_apply (CheckDeadline now i) w =
     (case request_at i w of AtDeadline key a \<Rightarrow> set_request i (check_deadline now key a (ow_registry w)) w | _ \<Rightarrow> w)"
| "origin_apply (TakeSlot now i) w =
     (case request_at i w of
        ForSlot key a \<Rightarrow>
          (case take_slot now key a (ow_registry w) of
             Some (q, r) \<Rightarrow> set_request i q (w\<lparr>ow_registry := r\<rparr>)
           | None \<Rightarrow> w)
      | _ \<Rightarrow> w)"
| "origin_apply (CancelRequest i) w =
     (case request_at i w of AtDeadline _ _ \<Rightarrow> set_request i Refused w | ForSlot _ _ \<Rightarrow> set_request i Refused w | _ \<Rightarrow> w)"
| "origin_apply (DropPermit i) w =
     (case request_at i w of
        Admitted key p \<Rightarrow> set_request i Returned (w\<lparr>ow_registry := drop_permit p (ow_registry w)\<rparr>)
      | _ \<Rightarrow> w)"
| "origin_apply (Throttle now key after fallback) w = w\<lparr>ow_registry := report_throttle now key after fallback (ow_registry w)\<rparr>"
| "origin_apply (Success now key) w = w\<lparr>ow_registry := report_success now key (ow_registry w)\<rparr>"
| "origin_apply (Sweep now) w = w\<lparr>ow_registry := snd (evict_idle now (ow_registry w))\<rparr>"

inductive origin_reach :: "origin_registry \<Rightarrow> origin_world \<Rightarrow> bool" for r0 where
  start: "origin_reach r0 \<lparr>ow_registry = r0, ow_requests = []\<rparr>"
| step: "origin_reach r0 w \<Longrightarrow> origin_reach r0 (origin_apply op w)"

section \<open>Slots\<close>

fun holds :: "address \<Rightarrow> admission \<Rightarrow> bool" where
  "holds a (Admitted _ p) = (p = Some a)"
| "holds a _ = False"

fun names :: "address \<Rightarrow> admission \<Rightarrow> bool" where
  "names a (AtDeadline _ b) = (b = a)"
| "names a (ForSlot _ b) = (b = a)"
| "names a (Admitted _ p) = (p = Some a)"
| "names a _ = False"

definition holders :: "address \<Rightarrow> origin_world \<Rightarrow> nat" where
  "holders a w = length (filter (holds a) (ow_requests w))"

text \<open>What every operation does to a store: entries stay in place, and new ones are empty.\<close>

definition store_grows :: "u32 \<Rightarrow> origin_entry list \<Rightarrow> origin_entry list \<Rightarrow> bool" where
  "store_grows cap st st' \<longleftrightarrow> length st \<le> length st'
     \<and> (\<forall>a<length st. oe_available (st' ! a) = oe_available (st ! a) \<and> oe_capacity (st' ! a) = oe_capacity (st ! a)
          \<and> oe_backoff_until_ms (st ! a) \<le> oe_backoff_until_ms (st' ! a))
     \<and> (\<forall>a. length st \<le> a \<and> a < length st' \<longrightarrow> oe_available (st' ! a) = max cap 1 \<and> oe_capacity (st' ! a) = max cap 1)"

definition registry_ok :: "origin_registry \<Rightarrow> bool" where
  "registry_ok r \<longleftrightarrow> hm_distinct (or_entries r) \<and> (\<forall>p \<in> set (or_entries r). snd p < length (or_store r))"

lemma store_grows_refl [simp]: "store_grows cap st st"
  by (simp add: store_grows_def)

lemma store_grows_trans: "store_grows cap st st' \<Longrightarrow> store_grows cap st' st'' \<Longrightarrow> store_grows cap st st''"
proof -
  assume st: "store_grows cap st st'" and st': "store_grows cap st' st''"
  have "oe_available (st'' ! a) = max cap 1 \<and> oe_capacity (st'' ! a) = max cap 1" if "length st \<le> a" "a < length st''" for a
    using st st' that by (cases "a < length st'") (simp_all add: store_grows_def)
  moreover have "oe_backoff_until_ms (st ! a) \<le> oe_backoff_until_ms (st'' ! a)" if "a < length st" for a
    using st st' that le_trans [of "oe_backoff_until_ms (st ! a)" "oe_backoff_until_ms (st' ! a)"] by (simp add: store_grows_def)
  ultimately show ?thesis using st st' by (simp add: store_grows_def)
qed

lemma store_update_fields [simp]:
  "or_entries (store_update a f r) = or_entries r" "length (or_store (store_update a f r)) = length (or_store r)"
  "or_capacity_per_origin (store_update a f r) = or_capacity_per_origin r" "or_max_entries (store_update a f r) = or_max_entries r"
  "or_disabled (store_update a f r) = or_disabled r" "or_idle_ttl (store_update a f r) = or_idle_ttl r"
  by (simp_all add: store_update_def)

lemma store_update_nth:
  "b < length (or_store r) \<Longrightarrow> or_store (store_update a f r) ! b = (if b = a then f (or_store r ! a) else or_store r ! b)"
  by (simp add: store_update_def)

lemma store_update_grows:
  assumes "\<And>e. oe_available (f e) = oe_available e \<and> oe_capacity (f e) = oe_capacity e \<and> oe_backoff_until_ms e \<le> oe_backoff_until_ms (f e)"
  shows "store_grows cap (or_store r) (or_store (store_update a f r))"
  using assms by (simp add: store_grows_def store_update_nth)

section \<open>Eviction\<close>

lemma hm_remove_distinct: "hm_distinct m \<Longrightarrow> hm_distinct (hm_remove k m)"
  by (simp add: AList.distinct_delete)

lemma evict_idle_entries_set:
  "set (evict_idle_entries now ttl st m) =
     {p \<in> set m. 0 < entry_in_flight (st ! snd p) \<or> sat_sub now (as_millis_u64 ttl) < oe_last_active_ms (st ! snd p)}"
  by (auto simp: evict_idle_entries_def Let_def)

lemma evict_idle_entries_distinct: "hm_distinct m \<Longrightarrow> hm_distinct (evict_idle_entries now ttl st m)"
  by (simp add: evict_idle_entries_def Let_def distinct_map_filter)

lemma hm_insert_fresh: "k \<notin> fst ` set m \<Longrightarrow> hm_insert k v m = m @ [(k, v)]"
  by (induction m) auto

lemma evict_to_cap_spec:
  assumes "hm_distinct m"
  shows "hm_distinct (evict_to_cap cap st m) \<and> set (evict_to_cap cap st m) \<subseteq> set m
    \<and> (\<forall>p \<in> set m. 0 < entry_in_flight (st ! snd p) \<longrightarrow> p \<in> set (evict_to_cap cap st m))
    \<and> (length (evict_to_cap cap st m) < cap \<or> (\<forall>p \<in> set (evict_to_cap cap st m). 0 < entry_in_flight (st ! snd p)))"
  using assms
proof (induction cap st m rule: evict_to_cap.induct)
  case (1 cap st m)
  show ?case
  proof (cases "cap \<le> length m")
    case True
    show ?thesis
    proof (cases "eviction_victim st m")
      case None
      then have "\<forall>p \<in> set m. 0 < entry_in_flight (st ! snd p)"
        by (auto simp: eviction_victim_def min_by_key_None filter_empty_conv)
      then show ?thesis using 1(2) None by (subst (1 2 3 4 5) evict_to_cap.simps) simp
    next
      case (Some k)
      note IH = 1(1) [OF True Some hm_remove_distinct [OF 1(2)]]
      obtain a where a: "(k, a) \<in> set m" "entry_in_flight (st ! a) = 0" using eviction_victim_in [OF Some] by blast
      have "p \<in> set (hm_remove k m)" if "p \<in> set m" "0 < entry_in_flight (st ! snd p)" for p
      proof -
        have "(fst p, snd p) \<in> set m" using that(1) by simp
        then have "fst p \<noteq> k" using eq_key_imp_eq_value [OF 1(2), of "fst p" "snd p" a] a that(2) by auto
        then show ?thesis using that(1) by simp
      qed
      moreover have "evict_to_cap cap st m = evict_to_cap cap st (hm_remove k m)"
        using True Some by (subst evict_to_cap.simps) simp
      ultimately show ?thesis using IH by auto
    qed
  next
    case False
    then show ?thesis using 1(2) by (subst (1 2 3 4 5) evict_to_cap.simps) simp
  qed
qed

lemma registry_entry_spec:
  assumes ok: "registry_ok r" and get: "registry_entry now key r = (a, r')"
  shows "registry_ok r'" "store_grows (or_capacity_per_origin r) (or_store r) (or_store r')"
    "hm_get (or_entries r') key = Some a" "a < length (or_store r')"
    "or_capacity_per_origin r' = or_capacity_per_origin r" "or_disabled r' = or_disabled r" "or_max_entries r' = or_max_entries r"
    "p \<in> set (or_entries r) \<Longrightarrow> 0 < entry_in_flight (or_store r ! snd p) \<Longrightarrow> p \<in> set (or_entries r')"
    "or_entries r' = or_entries r \<or> length (or_entries r') \<le> or_max_entries r
      \<or> (\<forall>p \<in> set (or_entries r'). p = (key, a) \<or> p \<in> set (or_entries r) \<and> 0 < entry_in_flight (or_store r ! snd p))"
proof -
  let ?st = "or_store r"
  have *: "registry_ok r' \<and> store_grows (or_capacity_per_origin r) (or_store r) (or_store r') \<and> hm_get (or_entries r') key = Some a
      \<and> a < length (or_store r') \<and> or_capacity_per_origin r' = or_capacity_per_origin r \<and> or_disabled r' = or_disabled r \<and> or_max_entries r' = or_max_entries r
      \<and> (\<forall>p \<in> set (or_entries r). 0 < entry_in_flight (?st ! snd p) \<longrightarrow> p \<in> set (or_entries r'))
      \<and> (or_entries r' = or_entries r \<or> length (or_entries r') \<le> or_max_entries r
      \<or> (\<forall>p \<in> set (or_entries r'). p = (key, a) \<or> p \<in> set (or_entries r) \<and> 0 < entry_in_flight (?st ! snd p)))"
  proof (cases "hm_get (or_entries r) key")
    case (Some b)
    then have "a = b" "r' = store_update b (touch now) r" using get by (auto simp: registry_entry_def)
    moreover have "b < length ?st" using ok hm_get_in [OF Some] by (auto simp: registry_ok_def)
    moreover have "store_grows (or_capacity_per_origin r) (or_store r) (or_store (store_update b (touch now) r))"
      by (rule store_update_grows) (simp add: touch_def)
    ultimately show ?thesis using ok Some by (simp add: registry_ok_def)
  next
    case None
    define m1 where "m1 = (if or_max_entries r \<le> length (or_entries r) then evict_idle_entries now (or_idle_ttl r) ?st (or_entries r) else or_entries r)"
    define m2 where "m2 = evict_to_cap (or_max_entries r) ?st m1"
    have r': "a = length ?st" "r' = r\<lparr>or_store := ?st @ [entry_new now (or_capacity_per_origin r)], or_entries := hm_insert key a m2\<rparr>"
      using get None by (auto simp: registry_entry_def Let_def m1_def m2_def)
    have m1: "hm_distinct m1" "set m1 \<subseteq> set (or_entries r)" "\<forall>p \<in> set (or_entries r). 0 < entry_in_flight (?st ! snd p) \<longrightarrow> p \<in> set m1"
      using ok by (auto simp: m1_def evict_idle_entries_set registry_ok_def evict_idle_entries_distinct)
    note m2 = evict_to_cap_spec [OF m1(1), of "or_max_entries r" ?st, folded m2_def]
    have key: "key \<notin> fst ` set m2" using None m1(2) m2 by (auto simp: map_of_eq_None_iff)
    then have ins: "set (hm_insert key a m2) = insert (key, a) (set m2)" "length (hm_insert key a m2) = Suc (length m2)" "hm_distinct (hm_insert key a m2)"
      using m2 by (auto simp: hm_insert_fresh)
    have grows: "store_grows (or_capacity_per_origin r) ?st (?st @ [entry_new now (or_capacity_per_origin r)])"
      by (auto simp: store_grows_def nth_append entry_new_def less_Suc_eq)
    have ok': "registry_ok r'"
      using ins m1(2) m2 ok r' by (fastforce simp: registry_ok_def)
    have "\<forall>p \<in> set (or_entries r). 0 < entry_in_flight (?st ! snd p) \<longrightarrow> p \<in> set (or_entries r')"
      using m1(3) m2 r' ins by auto
    moreover have "length (or_entries r') \<le> or_max_entries r
      \<or> (\<forall>p \<in> set (or_entries r'). p = (key, a) \<or> p \<in> set (or_entries r) \<and> 0 < entry_in_flight (?st ! snd p))"
      using m2 r' ins m1(2) by auto
    ultimately show ?thesis using ok' grows r' by (simp add: update_conv')
  qed
  then show "registry_ok r'" "store_grows (or_capacity_per_origin r) (or_store r) (or_store r')"
    "hm_get (or_entries r') key = Some a" "a < length (or_store r')"
    "or_capacity_per_origin r' = or_capacity_per_origin r" "or_disabled r' = or_disabled r" "or_max_entries r' = or_max_entries r"
    "p \<in> set (or_entries r) \<Longrightarrow> 0 < entry_in_flight (or_store r ! snd p) \<Longrightarrow> p \<in> set (or_entries r')"
    "or_entries r' = or_entries r \<or> length (or_entries r') \<le> or_max_entries r
      \<or> (\<forall>p \<in> set (or_entries r'). p = (key, a) \<or> p \<in> set (or_entries r) \<and> 0 < entry_in_flight (or_store r ! snd p))"
    by blast+
qed

section \<open>Runs\<close>

definition origin_inv :: "origin_world \<Rightarrow> bool" where
  "origin_inv w \<longleftrightarrow> registry_ok (ow_registry w)
     \<and> (\<forall>q \<in> set (ow_requests w). \<forall>a. names a q \<longrightarrow> a < length (or_store (ow_registry w)))
     \<and> (\<forall>a < length (or_store (ow_registry w)).
          oe_available (or_store (ow_registry w) ! a) + holders a w = oe_capacity (or_store (ow_registry w) ! a)
          \<and> oe_capacity (or_store (ow_registry w) ! a) = max (or_capacity_per_origin (ow_registry w)) 1)"

lemma in_flight_holders:
  "origin_inv w \<Longrightarrow> a < length (or_store (ow_registry w)) \<Longrightarrow> entry_in_flight (or_store (ow_registry w) ! a) = holders a w"
  unfolding origin_inv_def entry_in_flight_def sat_sub_def by (metis add_diff_cancel_left')

lemma holders_unnamed: "\<forall>q \<in> set qs. \<not> names a q \<Longrightarrow> filter (holds a) qs = []"
proof (induction qs)
  case (Cons q qs)
  then show ?case by (cases q) auto
qed simp

text \<open>An operation that only grows the store and adds requests without permits keeps the invariant.\<close>

lemma origin_inv_grow:
  assumes inv: "origin_inv w" and ok: "registry_ok r" and grows: "store_grows (or_capacity_per_origin (ow_registry w)) (or_store (ow_registry w)) (or_store r)"
    and cap: "or_capacity_per_origin r = or_capacity_per_origin (ow_registry w)"
    and qs: "\<forall>a. filter (holds a) qs = filter (holds a) (ow_requests w)" "\<forall>q \<in> set qs. \<forall>a. names a q \<longrightarrow> a < length (or_store r)"
  shows "origin_inv (w\<lparr>ow_registry := r, ow_requests := qs\<rparr>)"
proof -
  have "oe_available (or_store r ! a) + holders a w = oe_capacity (or_store r ! a) \<and> oe_capacity (or_store r ! a) = max (or_capacity_per_origin r) 1"
    if a: "a < length (or_store r)" for a
  proof (cases "a < length (or_store (ow_registry w))")
    case True
    then show ?thesis using inv grows cap by (simp add: origin_inv_def store_grows_def)
  next
    case False
    then have "holders a w = 0" using inv holders_unnamed [of "ow_requests w" a] by (auto simp: holders_def origin_inv_def)
    then show ?thesis using False grows a cap by (simp add: store_grows_def)
  qed
  then show ?thesis using ok qs by (simp add: origin_inv_def holders_def)
qed

lemma filter_update:
  "i < length xs \<Longrightarrow> length (filter P (xs[i := x])) + (if P (xs ! i) then 1 else 0) = length (filter P xs) + (if P x then 1 else 0)"
proof (induction xs arbitrary: i)
  case (Cons y xs)
  then show ?case using Cons.IH [of "i - 1"] by (cases i) auto
qed simp

lemma names_update: "\<forall>q \<in> set qs. Q q \<Longrightarrow> Q x \<Longrightarrow> \<forall>q \<in> set (qs[i := x]). Q q"
  using set_update_subset_insert [of qs i x] by blast

text \<open>A request that changes without taking or returning a permit.\<close>

lemma origin_inv_request:
  assumes inv: "origin_inv w" and i: "i < length (ow_requests w)" "\<And>a. \<not> holds a (ow_requests w ! i)" "\<And>a. \<not> holds a q"
    and q: "\<And>a. names a q \<Longrightarrow> a < length (or_store (ow_registry w))"
  shows "origin_inv (set_request i q w)"
proof -
  have "holders a (set_request i q w) = holders a w" for a
    using filter_update [OF i(1), of "holds a" q] i(2,3) by (simp add: holders_def set_request_def)
  then show ?thesis
    using inv q names_update [of "ow_requests w" "\<lambda>q. \<forall>a. names a q \<longrightarrow> a < length (or_store (ow_registry w))" q i]
    by (simp add: origin_inv_def set_request_def)
qed

text \<open>A request that takes or returns the permit of entry \<open>a\<close>.\<close>

lemma origin_inv_slot:
  assumes inv: "origin_inv w" and i: "i < length (ow_requests w)" and a: "a < length (or_store (ow_registry w))"
    and q: "\<And>b. names b q \<Longrightarrow> b = a"
    and others: "\<And>b. b \<noteq> a \<Longrightarrow> \<not> holds b (ow_requests w ! i) \<and> \<not> holds b q"
    and f: "oe_capacity (f (or_store (ow_registry w) ! a)) = oe_capacity (or_store (ow_registry w) ! a)"
      "oe_available (f (or_store (ow_registry w) ! a)) + (if holds a q then 1 else 0)
         = oe_available (or_store (ow_registry w) ! a) + (if holds a (ow_requests w ! i) then 1 else 0)"
  shows "origin_inv (set_request i q (w\<lparr>ow_registry := store_update a f (ow_registry w)\<rparr>))"
proof -
  let ?w = "set_request i q (w\<lparr>ow_registry := store_update a f (ow_registry w)\<rparr>)"
  have h: "holders b ?w + (if holds b (ow_requests w ! i) then 1 else 0) = holders b w + (if holds b q then 1 else 0)" for b
    using filter_update [OF i, of "holds b" q] by (simp add: holders_def set_request_def)
  have slots: "oe_available (or_store (ow_registry ?w) ! b) + holders b ?w = oe_capacity (or_store (ow_registry ?w) ! b)
      \<and> oe_capacity (or_store (ow_registry ?w) ! b) = max (or_capacity_per_origin (ow_registry w)) 1"
    if b: "b < length (or_store (ow_registry w))" for b
  proof (cases "b = a")
    case True
    have "oe_available (or_store (ow_registry w) ! a) + holders a w = oe_capacity (or_store (ow_registry w) ! a)"
      "oe_capacity (or_store (ow_registry w) ! a) = max (or_capacity_per_origin (ow_registry w)) 1"
      using inv a by (simp_all add: origin_inv_def)
    then show ?thesis using True b f h [of a] by (simp add: set_request_def store_update_nth split: if_splits)
  next
    case False
    then show ?thesis using inv b h [of b] others [of b] by (simp add: set_request_def store_update_nth origin_inv_def)
  qed
  have "\<forall>p \<in> set (ow_requests ?w). \<forall>b. names b p \<longrightarrow> b < length (or_store (ow_registry w))"
    using inv q a names_update [of "ow_requests w" "\<lambda>p. \<forall>b. names b p \<longrightarrow> b < length (or_store (ow_registry w))" q i]
    by (auto simp: origin_inv_def set_request_def)
  with slots inv show ?thesis by (simp add: origin_inv_def registry_ok_def set_request_def)
qed

text \<open>The operations that touch the registry alone: entries with a permit outside stay mapped.\<close>

definition registry_grows :: "origin_registry \<Rightarrow> origin_registry \<Rightarrow> bool" where
  "registry_grows r r' \<longleftrightarrow> registry_ok r' \<and> store_grows (or_capacity_per_origin r) (or_store r) (or_store r')
     \<and> or_capacity_per_origin r' = or_capacity_per_origin r \<and> or_disabled r' = or_disabled r \<and> or_max_entries r' = or_max_entries r
     \<and> (\<forall>p \<in> set (or_entries r). 0 < entry_in_flight (or_store r ! snd p) \<longrightarrow> p \<in> set (or_entries r'))"

lemma registry_grows_refl: "registry_ok r \<Longrightarrow> registry_grows r r"
  by (simp add: registry_grows_def)

lemma registry_grows_entry: "registry_ok r \<Longrightarrow> registry_entry now key r = (a, r') \<Longrightarrow> registry_grows r r'"
  using registry_entry_spec [of r now key a r'] by (simp add: registry_grows_def)

lemma registry_grows_update:
  assumes "registry_grows r r'"
    and f: "\<And>e. oe_available (f e) = oe_available e \<and> oe_capacity (f e) = oe_capacity e \<and> oe_backoff_until_ms e \<le> oe_backoff_until_ms (f e)"
  shows "registry_grows r (store_update a f r')"
proof -
  have "store_grows (or_capacity_per_origin r) (or_store r') (or_store (store_update a f r'))"
    by (rule store_update_grows [OF f])
  then show ?thesis using assms(1) store_grows_trans by (auto simp: registry_grows_def registry_ok_def)
qed

lemma registry_grows_throttle: "registry_ok r \<Longrightarrow> registry_grows r (report_throttle now key after fallback r)"
  by (cases "registry_entry now key r") (auto simp: report_throttle_def Let_def intro!: registry_grows_update registry_grows_refl dest: registry_grows_entry)

lemma registry_grows_success: "registry_ok r \<Longrightarrow> registry_grows r (report_success now key r)"
  by (cases "registry_entry now key r") (auto simp: report_success_def touch_def intro!: registry_grows_update registry_grows_refl dest: registry_grows_entry)

lemma registry_grows_sweep: "registry_ok r \<Longrightarrow> registry_grows r (snd (evict_idle now r))"
  by (auto simp: evict_idle_def Let_def registry_grows_def registry_ok_def evict_idle_entries_set evict_idle_entries_distinct)

lemma origin_inv_registry:
  assumes "origin_inv w" "registry_grows (ow_registry w) r"
  shows "origin_inv (w\<lparr>ow_registry := r\<rparr>)"
  using origin_inv_grow [of w r "ow_requests w"] assms by (fastforce simp: registry_grows_def origin_inv_def store_grows_def)

lemma request_at_live: "request_at i w \<noteq> Returned \<Longrightarrow> i < length (ow_requests w) \<and> ow_requests w ! i = request_at i w"
  by (simp add: request_at_def split: if_splits)

lemma request_names: "origin_inv w \<Longrightarrow> names a (request_at i w) \<Longrightarrow> a < length (or_store (ow_registry w))"
  by (auto simp: origin_inv_def request_at_def split: if_splits)

lemma origin_inv_apply:
  assumes inv: "origin_inv w"
  shows "origin_inv (origin_apply op w)"
proof (cases op)
  case (BeginRequest now key)
  obtain a r where r: "registry_entry now key (ow_registry w) = (a, r)" by fastforce
  have ok: "registry_ok (ow_registry w)" using inv by (simp add: origin_inv_def)
  note spec = registry_entry_spec(1-5) [OF ok r]
  have "\<forall>q \<in> set (ow_requests w @ [AtDeadline key a]). \<forall>b. names b q \<longrightarrow> b < length (or_store r)"
    using inv spec(2,4) by (fastforce simp: origin_inv_def store_grows_def)
  then show ?thesis
    using origin_inv_grow [OF inv spec(1,2,5), of "ow_requests w @ [AtDeadline key a]"] BeginRequest r by simp
next
  case (CheckDeadline now i)
  show ?thesis
  proof (cases "request_at i w")
    case (AtDeadline key a)
    then show ?thesis
      using request_at_live [of i w] request_names [OF inv, of a i] CheckDeadline
      by (auto simp: check_deadline_def intro!: origin_inv_request [OF inv])
  qed (use inv CheckDeadline in simp_all)
next
  case (TakeSlot now i)
  show ?thesis
  proof (cases "request_at i w")
    case (ForSlot key a)
    then show ?thesis
      using request_at_live [of i w] request_names [OF inv, of a i] TakeSlot inv
      by (auto simp: take_slot_def touch_def intro!: origin_inv_slot [OF inv])
  qed (use inv TakeSlot in simp_all)
next
  case (CancelRequest i)
  then show ?thesis
    using request_at_live [of i w] inv by (cases "request_at i w") (auto intro!: origin_inv_request [OF inv])
next
  case (DropPermit i)
  show ?thesis
  proof (cases "request_at i w")
    case (Admitted key p)
    then show ?thesis
      using request_at_live [of i w] request_names [OF inv, of _ i] DropPermit
      by (cases p) (auto simp: drop_permit_def intro!: origin_inv_slot [OF inv] origin_inv_request [OF inv])
  qed (use inv DropPermit in simp_all)
next
  case (Throttle now key after fallback)
  then show ?thesis using origin_inv_registry [OF inv] registry_grows_throttle inv by (simp add: origin_inv_def)
next
  case (Success now key)
  then show ?thesis using origin_inv_registry [OF inv] registry_grows_success inv by (simp add: origin_inv_def)
next
  case (Sweep now)
  then show ?thesis using origin_inv_registry [OF inv] registry_grows_sweep inv by (simp add: origin_inv_def)
qed

definition empty_registry :: "origin_registry \<Rightarrow> bool" where
  "empty_registry r \<longleftrightarrow> or_entries r = [] \<and> or_store r = []"

lemma origin_reach_inv: "origin_reach r0 w \<Longrightarrow> empty_registry r0 \<Longrightarrow> origin_inv w"
proof (induction rule: origin_reach.induct)
  case start
  then show ?case by (simp add: origin_inv_def registry_ok_def empty_registry_def)
next
  case (step w op)
  then show ?case by (blast intro: origin_inv_apply)
qed

lemma apply_limits:
  "or_capacity_per_origin (ow_registry (origin_apply op w)) = or_capacity_per_origin (ow_registry w)
   \<and> or_max_entries (ow_registry (origin_apply op w)) = or_max_entries (ow_registry w)
   \<and> or_disabled (ow_registry (origin_apply op w)) = or_disabled (ow_registry w)"
proof -
  have entry: "or_capacity_per_origin (snd (registry_entry now key r)) = or_capacity_per_origin r
    \<and> or_max_entries (snd (registry_entry now key r)) = or_max_entries r \<and> or_disabled (snd (registry_entry now key r)) = or_disabled r" for now key r
    by (simp add: registry_entry_def Let_def split: option.split)
  show ?thesis
    by (cases op) (use entry in \<open>auto simp: set_request_def take_slot_def drop_permit_def report_throttle_def report_success_def evict_idle_def
        Let_def split_beta split: admission.splits option.splits\<close>)
qed

lemma reach_limits:
  "origin_reach r0 w \<Longrightarrow> or_capacity_per_origin (ow_registry w) = or_capacity_per_origin r0 \<and> or_max_entries (ow_registry w) = or_max_entries r0
     \<and> or_disabled (ow_registry w) = or_disabled r0"
  by (induction rule: origin_reach.induct) (simp_all add: apply_limits)

lemma apply_keeps_registry_ok: "origin_inv w \<Longrightarrow> registry_ok (ow_registry w)"
  by (simp add: origin_inv_def)

text \<open>A step either grows the registry as above, or leaves the map alone and touches the slots of one entry.\<close>

lemma apply_entries:
  assumes inv: "origin_inv w" and p: "p \<in> set (or_entries (ow_registry w))" "0 < entry_in_flight (or_store (ow_registry w) ! snd p)"
  shows "p \<in> set (or_entries (ow_registry (origin_apply op w)))"
proof (cases op)
  case (BeginRequest now key)
  then show ?thesis
    using registry_grows_entry [OF apply_keeps_registry_ok [OF inv]] p by (cases "registry_entry now key (ow_registry w)") (fastforce simp: registry_grows_def)
next
  case (Throttle now key after fallback)
  then show ?thesis using registry_grows_throttle [OF apply_keeps_registry_ok [OF inv]] p by (simp add: registry_grows_def)
next
  case (Success now key)
  then show ?thesis using registry_grows_success [OF apply_keeps_registry_ok [OF inv]] p by (simp add: registry_grows_def)
next
  case (Sweep now)
  then show ?thesis using registry_grows_sweep [OF apply_keeps_registry_ok [OF inv]] p by (simp add: registry_grows_def)
qed (use p in \<open>auto simp: set_request_def take_slot_def drop_permit_def split: admission.splits option.splits\<close>)

abbreviation deadline :: "address \<Rightarrow> origin_world \<Rightarrow> u64" where
  "deadline a w \<equiv> oe_backoff_until_ms (or_store (ow_registry w) ! a)"

lemma registry_grows_deadline:
  "registry_grows r r' \<Longrightarrow> a < length (or_store r) \<Longrightarrow> oe_backoff_until_ms (or_store r ! a) \<le> oe_backoff_until_ms (or_store r' ! a)"
  by (simp add: registry_grows_def store_grows_def)

lemma apply_deadline:
  assumes inv: "origin_inv w" and a: "a < length (or_store (ow_registry w))"
  shows "deadline a w \<le> deadline a (origin_apply op w)"
proof (cases op)
  case (BeginRequest now key)
  obtain b r where r: "registry_entry now key (ow_registry w) = (b, r)" by fastforce
  then show ?thesis
    using registry_grows_deadline [OF registry_grows_entry [OF apply_keeps_registry_ok [OF inv] r] a] BeginRequest by simp
next
  case (Throttle now key after fallback)
  then show ?thesis using registry_grows_deadline [OF registry_grows_throttle [OF apply_keeps_registry_ok [OF inv]] a] by simp
next
  case (Success now key)
  then show ?thesis using registry_grows_deadline [OF registry_grows_success [OF apply_keeps_registry_ok [OF inv]] a] by simp
next
  case (Sweep now)
  then show ?thesis by (simp add: evict_idle_def Let_def)
qed (use a in \<open>auto simp: set_request_def take_slot_def drop_permit_def store_update_nth touch_def split: admission.splits option.splits\<close>)

lemma throttle_sets_deadline:
  assumes "registry_ok r" "\<not> or_disabled r"
  shows "\<exists>a. hm_get (or_entries (report_throttle now key after fallback r)) key = Some a
    \<and> sat_add now (as_millis_u64 (case after of Some d \<Rightarrow> d | None \<Rightarrow> fallback)) \<le> oe_backoff_until_ms (or_store (report_throttle now key after fallback r) ! a)"
proof -
  obtain a r' where r': "registry_entry now key r = (a, r')" by fastforce
  then show ?thesis
    using assms registry_entry_spec(3,4) [OF assms(1) r'] by (auto simp: report_throttle_def Let_def store_update_nth)
qed

text \<open>A miss makes room: afterwards the map is within its cap, or every older entry it retains has a permit outside.\<close>

lemma begin_bounded:
  assumes "registry_ok (ow_registry w)" "hm_get (or_entries (ow_registry w)) key = None"
  shows "length (or_entries (ow_registry (origin_apply (BeginRequest now key) w))) \<le> or_max_entries (ow_registry w)
    \<or> (\<forall>p \<in> set (or_entries (ow_registry (origin_apply (BeginRequest now key) w))).
         fst p = key \<or> p \<in> set (or_entries (ow_registry w)) \<and> 0 < entry_in_flight (or_store (ow_registry w) ! snd p))"
proof -
  obtain a r' where r': "registry_entry now key (ow_registry w) = (a, r')" by fastforce
  have "or_entries r' \<noteq> or_entries (ow_registry w)" using registry_entry_spec(3) [OF assms(1) r'] assms(2) by auto
  then show ?thesis using registry_entry_spec(9) [OF assms(1) r'] r' by auto
qed

section \<open>Normal form of origins\<close>

definition origin_url :: "string \<Rightarrow> string option \<Rightarrow> string \<Rightarrow> u16 option \<Rightarrow> string \<Rightarrow> string" where
  "origin_url scheme userinfo host port rest =
     scheme @ ''://'' @ (case userinfo of Some u \<Rightarrow> u @ ''@'' | None \<Rightarrow> []) @ host @ (case port of Some n \<Rightarrow> '':'' @ show_u64 n | None \<Rightarrow> []) @ rest"

definition origin_url_ok :: "string \<Rightarrow> string option \<Rightarrow> string \<Rightarrow> u16 option \<Rightarrow> string \<Rightarrow> bool" where
  "origin_url_ok scheme userinfo host port rest \<longleftrightarrow>
     (to_ascii_lowercase scheme = ''http'' \<or> to_ascii_lowercase scheme = ''https'')
     \<and> (case userinfo of Some u \<Rightarrow> list_all authority_char u | None \<Rightarrow> True)
     \<and> host \<noteq> [] \<and> host \<noteq> ''.'' \<and> list_all (\<lambda>c. authority_char c \<and> c \<noteq> CHR ''@'' \<and> c \<noteq> CHR '':'' \<and> c \<noteq> CHR ''['') host
     \<and> (case port of Some n \<Rightarrow> n \<le> 65535 | None \<Rightarrow> True)
     \<and> (rest = [] \<or> \<not> authority_char (hd rest))"

lemma parse_show_u16: "n \<le> 65535 \<Longrightarrow> parse_u16 (show_u64 n) = Some n"
  by (simp add: parse_u16_def parse_show_u64 u64_max_def)

lemma digits_plain: "c \<in> set (show_u64 n) \<Longrightarrow> authority_char c \<and> c \<noteq> CHR ''@'' \<and> c \<noteq> CHR '':''"
  using show_u64_char [of c n] by (auto simp: authority_char_def)

lemma ascii_lower_eq: "ascii_lower c = d \<Longrightarrow> \<not> (97 \<le> (of_char d :: nat) \<and> (of_char d :: nat) \<le> 122) \<Longrightarrow> c = d"
  by (auto simp: ascii_lower_def Let_def split: if_splits)

lemma scheme_no_colon: "CHR '':'' \<notin> set (to_ascii_lowercase s) \<Longrightarrow> CHR '':'' \<notin> set s"
  by (auto simp: to_ascii_lowercase_def image_iff ascii_lower_def)

lemma lower_host_nonempty: "host \<noteq> [] \<Longrightarrow> host \<noteq> ''.'' \<Longrightarrow> strip_trailing_dot (to_ascii_lowercase host) \<noteq> []"
proof
  assume host: "host \<noteq> []" "host \<noteq> ''.''" "strip_trailing_dot (to_ascii_lowercase host) = []"
  then have "butlast (map ascii_lower host) = []" "last (map ascii_lower host) = CHR ''.''"
    by (auto simp: strip_trailing_dot_def to_ascii_lowercase_def split: if_splits)
  then obtain c where "host = [c]" "ascii_lower c = CHR ''.''" using host(1)
    by (cases host rule: rev_cases) (auto simp: last_map)
  then show False using host(2) ascii_lower_eq [of c "CHR ''.''"] by simp
qed

lemma split_host_port_text:
  assumes "host \<noteq> []" "list_all (\<lambda>c. authority_char c \<and> c \<noteq> CHR ''@'' \<and> c \<noteq> CHR '':'' \<and> c \<noteq> CHR ''['') host"
    "case port of Some n \<Rightarrow> n \<le> 65535 | None \<Rightarrow> True"
  shows "split_host_port (host @ (case port of Some n \<Rightarrow> '':'' @ show_u64 n | None \<Rightarrow> [])) dflt = Some (host, case port of Some n \<Rightarrow> n | None \<Rightarrow> dflt)"
proof -
  obtain c cs where host: "host = c # cs" "c \<noteq> CHR ''[''" using assms(1,2) by (cases host) auto
  have colon: "CHR '':'' \<notin> set host" using assms(2) by (auto simp: list_all_iff)
  show ?thesis
  proof (cases port)
    case None
    then show ?thesis using host rsplit_once_none [OF colon] by (simp add: split_host_port_def)
  next
    case (Some n)
    have "CHR '':'' \<notin> set (show_u64 n)" using digits_plain by blast
    then have "rsplit_once CHR '':'' (host @ CHR '':'' # show_u64 n) = Some (host, show_u64 n)" by (rule rsplit_once_append)
    then show ?thesis using Some host assms(3) parse_show_u16 [of n] by (simp add: split_host_port_def)
  qed
qed

lemma takeWhile_all_tail: "list_all P xs \<Longrightarrow> ys = [] \<or> \<not> P (hd ys) \<Longrightarrow> takeWhile P (xs @ ys) = xs"
  by (induction xs) (auto simp: takeWhile_eq_Nil_iff)

text \<open>
  The origin of a URL depends on its scheme, host and effective port alone. For a URL with an
  HTTP-family scheme in any case, optional userinfo, a host that is a plain name, an optional port and
  any path, query or fragment, \<open>normalized_origin\<close> returns the lowercased scheme, the lowercased host
  without its trailing dot and the explicit or default port; the userinfo never reaches the key.
\<close>

lemma normalized_origin_exact:
  assumes "origin_url_ok scheme userinfo host port rest"
  shows "normalized_origin (origin_url scheme userinfo host port rest) =
    Some (to_ascii_lowercase scheme @ ''://'' @ strip_trailing_dot (to_ascii_lowercase host) @ '':''
      @ show_u64 (case port of Some n \<Rightarrow> n | None \<Rightarrow> if to_ascii_lowercase scheme = ''https'' then 443 else 80))"
proof -
  let ?hp = "host @ (case port of Some n \<Rightarrow> '':'' @ show_u64 n | None \<Rightarrow> [])"
  let ?auth = "(case userinfo of Some u \<Rightarrow> u @ ''@'' | None \<Rightarrow> []) @ ?hp"
  have scheme: "to_ascii_lowercase scheme = ''http'' \<or> to_ascii_lowercase scheme = ''https''" and host: "host \<noteq> []"
    "list_all (\<lambda>c. authority_char c \<and> c \<noteq> CHR ''@'' \<and> c \<noteq> CHR '':'' \<and> c \<noteq> CHR ''['') host" "host \<noteq> ''.''"
    and port: "case port of Some n \<Rightarrow> n \<le> 65535 | None \<Rightarrow> True" and rest: "rest = [] \<or> \<not> authority_char (hd rest)"
    and user: "case userinfo of Some u \<Rightarrow> list_all authority_char u | None \<Rightarrow> True"
    using assms by (auto simp: origin_url_ok_def)
  have "scheme \<noteq> []" "CHR '':'' \<notin> set scheme"
    using scheme scheme_no_colon [of scheme] by (auto simp: to_ascii_lowercase_def)
  then have url: "split_once_str ''://'' (origin_url scheme userinfo host port rest) = Some (scheme, ?auth @ rest)"
    using split_once_scheme [of scheme "?auth @ rest"] by (simp add: origin_url_def)
  have hp: "list_all (\<lambda>c. authority_char c \<and> c \<noteq> CHR ''@'') ?hp"
    using host(2) digits_plain by (auto simp: list_all_iff authority_char_def split: option.split)
  have auth: "takeWhile authority_char (?auth @ rest) = ?auth"
  proof (rule takeWhile_all_tail [where P = authority_char, OF _ rest])
    have "list_all authority_char ?hp" using hp by (simp add: list_all_iff)
    moreover have "authority_char CHR ''@''" by (simp add: authority_char_def)
    ultimately show "list_all authority_char ?auth" using user by (cases userinfo) simp_all
  qed
  have no_at: "CHR ''@'' \<notin> set ?hp" using hp unfolding list_all_iff by blast
  have strip: "(case rsplit_once CHR ''@'' ?auth of Some (_, h) \<Rightarrow> h | None \<Rightarrow> ?auth) = ?hp"
  proof (cases userinfo)
    case None
    then show ?thesis using rsplit_once_none [OF no_at] by simp
  next
    case (Some u)
    have "rsplit_once CHR ''@'' (u @ CHR ''@'' # ?hp) = Some (u, ?hp)" by (rule rsplit_once_append [OF no_at])
    then show ?thesis using Some by simp
  qed
  have split: "split_host_port ?hp d = Some (host, case port of Some n \<Rightarrow> n | None \<Rightarrow> d)" for d
    by (rule split_host_port_text [OF host(1,2) port])
  show ?thesis
    unfolding normalized_origin_def url option.case prod.case Let_def auth strip split
    using \<open>scheme \<noteq> []\<close> scheme host(1) lower_host_nonempty [OF host(1,3)] by (simp split del: option.split)
qed

section \<open>Properties of the registry\<close>

text \<open>
  Claim C24: the request slots of an origin are exact. In every state reached from an empty registry each
  entry has as many free permits as its capacity less the requests it admitted and that have not
  returned, so at most \<open>capacity_per_origin\<close> requests hold slots of one entry. No operation drops the key
  of an entry with a request in flight, and an admission that creates an entry leaves the registry within
  \<open>max_entries\<close> unless every older entry it retains has a request in flight.
\<close>

theorem origin_slots_exact:
  assumes "origin_reach r0 w" "empty_registry r0"
  shows "(\<forall>a < length (or_store (ow_registry w)).
      holders a w + oe_available (or_store (ow_registry w) ! a) = max (or_capacity_per_origin r0) 1)
    \<and> (\<forall>p \<in> set (or_entries (ow_registry w)). 0 < holders (snd p) w \<longrightarrow> p \<in> set (or_entries (ow_registry (origin_apply op w))))
    \<and> (hm_get (or_entries (ow_registry w)) key = None \<longrightarrow>
        length (or_entries (ow_registry (origin_apply (BeginRequest now key) w))) \<le> or_max_entries r0
        \<or> (\<forall>p \<in> set (or_entries (ow_registry (origin_apply (BeginRequest now key) w))). fst p = key \<or> 0 < holders (snd p) w))"
proof -
  have inv: "origin_inv w" by (rule origin_reach_inv [OF assms])
  note ok = apply_keeps_registry_ok [OF inv] and limits = reach_limits [OF assms(1)]
  have flight: "entry_in_flight (or_store (ow_registry w) ! snd p) = holders (snd p) w" if "p \<in> set (or_entries (ow_registry w))" for p
    using in_flight_holders [OF inv] ok that by (simp add: registry_ok_def)
  have "holders a w + oe_available (or_store (ow_registry w) ! a) = max (or_capacity_per_origin r0) 1" if "a < length (or_store (ow_registry w))" for a
    using inv limits that by (simp add: origin_inv_def add.commute)
  moreover have "p \<in> set (or_entries (ow_registry (origin_apply op w)))" if "p \<in> set (or_entries (ow_registry w))" "0 < holders (snd p) w" for p
    using apply_entries [OF inv that(1)] that flight by simp
  moreover have "length (or_entries (ow_registry (origin_apply (BeginRequest now key) w))) \<le> or_max_entries r0
        \<or> (\<forall>p \<in> set (or_entries (ow_registry (origin_apply (BeginRequest now key) w))). fst p = key \<or> 0 < holders (snd p) w)"
    if none: "hm_get (or_entries (ow_registry w)) key = None"
    using begin_bounded [OF ok none, of now] limits flight by metis
  ultimately show ?thesis by blast
qed

text \<open>
  Claim C25: throttle deadlines hold. No operation shortens the deadline of an entry; a reported throttle
  leaves the entry of its origin with a deadline no earlier than the reported delay from now; and a
  request leaves the deadline check only when the deadline of its entry has passed.
\<close>

theorem origin_deadline_respected:
  assumes "origin_reach r0 w" "empty_registry r0" "\<not> or_disabled r0"
  shows "(\<forall>a < length (or_store (ow_registry w)). deadline a w \<le> deadline a (origin_apply op w))
    \<and> (\<exists>a. hm_get (or_entries (ow_registry (origin_apply (Throttle now key after fallback) w))) key = Some a
         \<and> sat_add now (as_millis_u64 (case after of Some d \<Rightarrow> d | None \<Rightarrow> fallback)) \<le> deadline a (origin_apply (Throttle now key after fallback) w))
    \<and> (\<forall>i k a. request_at i w = AtDeadline k a \<and> request_at i (origin_apply (CheckDeadline now i) w) \<noteq> AtDeadline k a \<longrightarrow> deadline a w \<le> now)"
proof -
  have inv: "origin_inv w" by (rule origin_reach_inv [OF assms(1,2)])
  have live: "\<not> or_disabled (ow_registry w)" using reach_limits [OF assms(1)] assms(3) by simp
  have "deadline a w \<le> now"
    if "request_at i w = AtDeadline k a" "request_at i (origin_apply (CheckDeadline now i) w) \<noteq> AtDeadline k a" for i k a
  proof -
    have "i < length (ow_requests w)" using that(1) by (simp add: request_at_def split: if_splits)
    then have "request_at i (origin_apply (CheckDeadline now i) w) = check_deadline now k a (ow_registry w)"
      using that(1) by (simp add: set_request_def request_at_def)
    then show ?thesis using that(2) live by (simp add: check_deadline_def split: if_splits)
  qed
  moreover have "\<exists>a. hm_get (or_entries (ow_registry (origin_apply (Throttle now key after fallback) w))) key = Some a
         \<and> sat_add now (as_millis_u64 (case after of Some d \<Rightarrow> d | None \<Rightarrow> fallback)) \<le> deadline a (origin_apply (Throttle now key after fallback) w)"
    using throttle_sets_deadline [OF apply_keeps_registry_ok [OF inv] live, of now key after fallback] by simp
  ultimately show ?thesis using apply_deadline [OF inv] by blast
qed

section \<open>Two requests beyond the ceiling\<close>

definition tiny_registry :: origin_registry where
  "tiny_registry = registry_with_limits 1 1 0"

definition run_origin :: "origin_op list \<Rightarrow> origin_world" where
  "run_origin ops = fold origin_apply ops \<lparr>ow_registry = tiny_registry, ow_requests = []\<rparr>"

lemmas origin_eval = run_origin_def tiny_registry_def registry_with_limits_def registry_entry_def evict_idle_entries_def
  evict_to_cap.simps eviction_victim_def entry_new_def entry_in_flight_def as_millis_u64_def store_update_def touch_def request_at_def
  set_request_def check_deadline_def take_slot_def report_throttle_def drop_permit_def u64_max_def u64_add_def sat_add_def Let_def

lemma run_origin_reach: "origin_reach tiny_registry (run_origin ops)"
proof (induction ops rule: rev_induct)
  case Nil
  then show ?case using origin_reach.start by (simp add: run_origin_def)
next
  case (snoc op ops)
  then show ?case using origin_reach.step by (simp add: run_origin_def)
qed

text \<open>
  A request that waits out a deadline holds no permit, so its entry can be evicted; the origin then gets
  a second entry and both admit a request, although one origin may have a single request in flight.
\<close>

lemma waiting_entry_evicted:
  "ow_requests (run_origin [BeginRequest 10 ''a'', BeginRequest 10 ''b'', BeginRequest 10 ''a'', CheckDeadline 10 0, CheckDeadline 10 2,
     TakeSlot 10 0, TakeSlot 10 2]) = [Admitted ''a'' (Some 0), AtDeadline ''b'' 1, Admitted ''a'' (Some 2)]"
  by (simp add: origin_eval)

text \<open>A request already queued for a slot is admitted before a deadline that was reported while it waited.\<close>

lemma queued_request_skips_deadline:
  "(let w = run_origin [BeginRequest 10 ''a'', BeginRequest 10 ''a'', CheckDeadline 10 0, CheckDeadline 10 1, TakeSlot 10 0,
      Throttle 10 ''a'' None 5000000000, DropPermit 0, TakeSlot 11 1]
    in (request_at 1 w, deadline 0 w)) = (Admitted ''a'' (Some 0), 5010)"
  by (simp add: origin_eval)

theorem origin_slots_exact_witness:
  "(let w = run_origin [BeginRequest 10 ''a'', CheckDeadline 10 0, TakeSlot 10 0]
    in holders 0 w + oe_available (or_store (ow_registry w) ! 0)) = 1"
  using origin_slots_exact [OF run_origin_reach, of "[BeginRequest 10 ''a'', CheckDeadline 10 0, TakeSlot 10 0]" "Sweep 10" "''b''" 10]
  by (simp add: empty_registry_def origin_eval)

theorem origin_deadline_respected_witness:
  "deadline 0 (origin_apply (Throttle 10 ''a'' None 5000000000) (run_origin [BeginRequest 10 ''a''])) \<ge> 5010"
  using origin_deadline_respected [OF run_origin_reach, of "[BeginRequest 10 ''a'']" "Sweep 10" 10 "''a''" None 5000000000]
  by (simp add: empty_registry_def origin_eval)

end
