(* ===== verification/Checkpoint_Store.thy ===== *)
theory Checkpoint_Store
  imports Checkpoint_Model "HOL-Library.Countable"
begin

text \<open>
  Persistence of checkpoints: the sidecar file store (\<open>resume/checkpoint_store.rs\<close>) over an explicit
  directory, and the per-job coordination in front of it (\<open>resume/coordinated_store.rs\<close>). Every call
  into the operating system can fail; the faults of an operation are taken from a script that is part
  of the state, and a save lists the directory after each of its calls, so that a crash between two
  calls is one of the listed states. The JSON codec is a parameter with its round trip as the contract.
\<close>

section \<open>The directory\<close>

datatype dir_entry = RegularFile string | OtherEntry

type_synonym entries = "string \<rightharpoonup> dir_entry"

record io_faults =
  io_read :: "string option"
  io_create :: "string option"
  io_write :: "(nat \<times> string) option"
  io_flush :: "string option"
  io_sync :: "string option"
  io_rename :: "string option"
  io_dir_sync :: "string option"
  io_remove :: bool
  io_delete :: "string option"

definition no_faults :: io_faults where
  "no_faults = \<lparr>io_read = None, io_create = None, io_write = None, io_flush = None, io_sync = None, io_rename = None,
     io_dir_sync = None, io_remove = False, io_delete = None\<rparr>"

record sidecar_dir =
  sd_entries :: entries
  sd_pid :: u32
  sd_seq :: u64
  sd_faults :: "io_faults list"

definition next_faults :: "sidecar_dir \<Rightarrow> io_faults \<times> sidecar_dir" where
  "next_faults d = (case sd_faults d of [] \<Rightarrow> (no_faults, d) | f # fs \<Rightarrow> (f, d\<lparr>sd_faults := fs\<rparr>))"

section \<open>The sidecar file store\<close>

record file_checkpoint_store =
  fc_dir :: string
  fc_durability :: durability_mode
  fc_max_serialized_bytes :: "u64 option"

definition file_store_new :: "string \<Rightarrow> durability_mode \<Rightarrow> string option \<Rightarrow> checkpoint_error + file_checkpoint_store" where
  "file_store_new dir durability mkdir_fault =
     (case mkdir_fault of
        Some e \<Rightarrow> Inl (Corrupt (''mkdir '' @ dir @ '': '' @ e))
      | None \<Rightarrow> Inr \<lparr>fc_dir = dir, fc_durability = durability, fc_max_serialized_bytes = None\<rparr>)"

definition with_checkpoint_budget :: "u64 \<Rightarrow> file_checkpoint_store \<Rightarrow> file_checkpoint_store" where
  "with_checkpoint_budget cap st = st\<lparr>fc_max_serialized_bytes := Some cap\<rparr>"

definition path_for :: "string \<Rightarrow> string" where
  "path_for job_identity = job_identity @ ''.kdown''"

definition temp_for :: "string \<Rightarrow> u32 \<Rightarrow> u64 \<Rightarrow> string" where
  "temp_for job_id pid seq = job_id @ ''.'' @ show_u64 pid @ ''.'' @ show_u64 seq @ ''.tmp''"

definition shown :: "file_checkpoint_store \<Rightarrow> string \<Rightarrow> string" where
  "shown st name = fc_dir st @ ''/'' @ name"

definition decode_checkpoint :: "(string \<Rightarrow> string + string) \<Rightarrow> (string \<Rightarrow> string + checkpoint) \<Rightarrow> string \<Rightarrow> checkpoint_error + checkpoint" where
  "decode_checkpoint utf8 de bytes =
     (case utf8 bytes of
        Inl e \<Rightarrow> Inl (Corrupt (''checkpoint not utf-8: '' @ e))
      | Inr json \<Rightarrow> from_json de json)"

definition read_sidecar :: "(string \<Rightarrow> string + string) \<Rightarrow> (string \<Rightarrow> string + checkpoint) \<Rightarrow> file_checkpoint_store \<Rightarrow> io_faults
    \<Rightarrow> entries \<Rightarrow> string \<Rightarrow> checkpoint_error + checkpoint option" where
  "read_sidecar utf8 de st f D job_identity =
     (let path = path_for job_identity
      in case D path of
           Some OtherEntry \<Rightarrow> Inl (Corrupt (''checkpoint '' @ shown st path @ '' is not a regular file''))
         | entry \<Rightarrow>
             if (case (entry, fc_max_serialized_bytes st) of (Some (RegularFile b), Some cap) \<Rightarrow> cap < length b | _ \<Rightarrow> False)
             then Inl (TooLarge (case entry of Some (RegularFile b) \<Rightarrow> length b | _ \<Rightarrow> 0) (the (fc_max_serialized_bytes st)))
             else
               (case io_read f of
                  Some e \<Rightarrow> Inl (Corrupt (''read '' @ shown st path @ '': '' @ e))
                | None \<Rightarrow>
                    (case entry of
                       Some (RegularFile b) \<Rightarrow> (case decode_checkpoint utf8 de b of Inl e \<Rightarrow> Inl e | Inr cp \<Rightarrow> Inr (Some cp))
                     | _ \<Rightarrow> Inr None)))"

definition file_load :: "(string \<Rightarrow> string + string) \<Rightarrow> (string \<Rightarrow> string + checkpoint) \<Rightarrow> file_checkpoint_store
    \<Rightarrow> string \<Rightarrow> sidecar_dir \<Rightarrow> (checkpoint_error + checkpoint option) \<times> sidecar_dir" where
  "file_load utf8 de st job_identity d =
     (let (f, d') = next_faults d in (read_sidecar utf8 de st f (sd_entries d') job_identity, d'))"

text \<open>
  The closure of \<open>save_atomic\<close>: whether the temporary file was created, the result, and the directory
  before the first call and after each call.
\<close>

definition save_steps :: "file_checkpoint_store \<Rightarrow> io_faults \<Rightarrow> string \<Rightarrow> string \<Rightarrow> string \<Rightarrow> entries
    \<Rightarrow> bool \<times> (checkpoint_error + unit) \<times> entries list" where
  "save_steps st f path tmp json D =
     (if io_create f \<noteq> None \<or> D tmp \<noteq> None
      then (False, Inl (Corrupt (''create '' @ shown st tmp @ '': '' @ (case io_create f of Some e \<Rightarrow> e | None \<Rightarrow> ''File exists (os error 17)''))), [D])
      else
        let D1 = D(tmp \<mapsto> RegularFile [])
        in case io_write f of
             Some (n, e) \<Rightarrow> (True, Inl (Corrupt (''write: '' @ e)), [D, D1, D(tmp \<mapsto> RegularFile (take n json))])
           | None \<Rightarrow>
               let D2 = D(tmp \<mapsto> RegularFile json)
               in case io_flush f of
                    Some e \<Rightarrow> (True, Inl (Corrupt (''flush: '' @ e)), [D, D1, D2])
                  | None \<Rightarrow>
                      (case (if fc_durability st = Durable then io_sync f else None) of
                         Some e \<Rightarrow> (True, Inl (Corrupt (''fsync checkpoint: '' @ e)), [D, D1, D2])
                       | None \<Rightarrow>
                           (case io_rename f of
                              Some e \<Rightarrow> (True, Inl (Corrupt (''rename '' @ shown st tmp @ '' -> '' @ shown st path @ '': '' @ e)), [D, D1, D2])
                            | None \<Rightarrow>
                                (let D3 = D(tmp := None, path \<mapsto> RegularFile json)
                                 in case (if fc_durability st = Durable then io_dir_sync f else None) of
                                      Some e \<Rightarrow> (True, Inl (Corrupt e), [D, D1, D2, D3])
                                    | None \<Rightarrow> (True, Inr (), [D, D1, D2, D3])))))"

definition encode_checkpoint :: "(checkpoint \<Rightarrow> string + string) \<Rightarrow> file_checkpoint_store \<Rightarrow> checkpoint \<Rightarrow> checkpoint_error + string" where
  "encode_checkpoint ser st cp =
     (case (case fc_max_serialized_bytes st of None \<Rightarrow> Inr 0 | Some cap \<Rightarrow> check_serialized_within cp cap) of
        Inl e \<Rightarrow> Inl e
      | Inr _ \<Rightarrow>
          (case to_json ser cp of
             Inl e \<Rightarrow> Inl e
           | Inr json \<Rightarrow>
               (case fc_max_serialized_bytes st of
                  Some cap \<Rightarrow> if cap < length json then Inl (TooLarge (length json) cap) else Inr json
                | None \<Rightarrow> Inr json)))"

definition file_save_trace :: "(checkpoint \<Rightarrow> string + string) \<Rightarrow> file_checkpoint_store \<Rightarrow> checkpoint \<Rightarrow> sidecar_dir
    \<Rightarrow> (checkpoint_error + unit) \<times> entries list \<times> sidecar_dir" where
  "file_save_trace ser st cp d0 =
     (let (f, d) = next_faults d0
      in case encode_checkpoint ser st cp of
           Inl e \<Rightarrow> (Inl e, [sd_entries d], d)
         | Inr json \<Rightarrow>
             (let path = path_for (cp_job_id cp);
                  tmp = temp_for (cp_job_id cp) (sd_pid d) (sd_seq d);
                  (created, result, Ds) = save_steps st f path tmp json (sd_entries d);
                  final = (if result \<noteq> Inr () \<and> created \<and> \<not> io_remove f then (last Ds)(tmp := None) else last Ds)
              in (result, Ds @ [final], d\<lparr>sd_entries := final, sd_seq := u64_add (sd_seq d) 1\<rparr>)))"

definition file_save :: "(checkpoint \<Rightarrow> string + string) \<Rightarrow> file_checkpoint_store \<Rightarrow> checkpoint \<Rightarrow> sidecar_dir
    \<Rightarrow> (checkpoint_error + unit) \<times> sidecar_dir" where
  "file_save ser st cp d = (let (result, _, d') = file_save_trace ser st cp d in (result, d'))"

definition file_delete :: "string \<Rightarrow> sidecar_dir \<Rightarrow> (checkpoint_error + unit) \<times> sidecar_dir" where
  "file_delete job_identity d0 =
     (let (f, d) = next_faults d0; path = path_for job_identity
      in case sd_entries d path of
           None \<Rightarrow> (Inr (), d)
         | Some _ \<Rightarrow>
             (case io_delete f of
                Some e \<Rightarrow> (Inl (Corrupt (''delete: '' @ e)), d)
              | None \<Rightarrow> (Inr (), d\<lparr>sd_entries := (sd_entries d)(path := None)\<rparr>)))"

section \<open>Coordination\<close>

definition union_ranges :: "byte_range list \<Rightarrow> byte_range list \<Rightarrow> byte_range list" where
  "union_ranges a b = merge_sorted [] (sort_ranges (a @ b))"

text \<open>\<open>co_last_accepted\<close> is the map of \<open>JobCoordination\<close> values; a poisoned lock refuses every operation.\<close>

record 's coordinated_store =
  co_inner :: 's
  co_poisoned :: bool
  co_last_accepted :: "(string, checkpoint option) hashmap"

definition coordinated_new :: "'s \<Rightarrow> 's coordinated_store" where
  "coordinated_new inner = \<lparr>co_inner = inner, co_poisoned = False, co_last_accepted = []\<rparr>"

definition poisoned_error :: checkpoint_error where
  "poisoned_error = Inconsistent ''checkpoint coordination lock poisoned''"

definition coordinated_load :: "(string \<Rightarrow> 's \<Rightarrow> (checkpoint_error + checkpoint option) \<times> 's) \<Rightarrow> string \<Rightarrow> 's coordinated_store
    \<Rightarrow> (checkpoint_error + checkpoint option) \<times> 's coordinated_store" where
  "coordinated_load load job_identity c =
     (if co_poisoned c then (Inl poisoned_error, c)
      else let (r, s) = load job_identity (co_inner c) in (r, c\<lparr>co_inner := s\<rparr>))"

definition last_accepted :: "string \<Rightarrow> 's coordinated_store \<Rightarrow> checkpoint option" where
  "last_accepted i c = (case hm_get (co_last_accepted c) i of Some (Some cp) \<Rightarrow> Some cp | _ \<Rightarrow> None)"

definition forward_save :: "(checkpoint \<Rightarrow> 's \<Rightarrow> (checkpoint_error + unit) \<times> 's) \<Rightarrow> checkpoint \<Rightarrow> 's coordinated_store
    \<Rightarrow> (checkpoint_error + unit) \<times> 's coordinated_store" where
  "forward_save save cp c =
     (let (r, s) = save cp (co_inner c)
      in case r of
           Inl e \<Rightarrow> (Inl e, c\<lparr>co_inner := s\<rparr>)
         | Inr _ \<Rightarrow> (Inr (), c\<lparr>co_inner := s, co_last_accepted := hm_insert (cp_job_id cp) (Some cp) (co_last_accepted c)\<rparr>))"

definition coordinated_save :: "(checkpoint \<Rightarrow> 's \<Rightarrow> (checkpoint_error + unit) \<times> 's) \<Rightarrow> checkpoint \<Rightarrow> 's coordinated_store
    \<Rightarrow> (checkpoint_error + unit) \<times> 's coordinated_store" where
  "coordinated_save save cp c0 =
     (if co_poisoned c0 then (Inl poisoned_error, c0)
      else
        let c = (if hm_get (co_last_accepted c0) (cp_job_id cp) = None
                 then c0\<lparr>co_last_accepted := hm_insert (cp_job_id cp) None (co_last_accepted c0)\<rparr> else c0)
        in case last_accepted (cp_job_id cp) c of
             Some prev \<Rightarrow>
               if cp_validators prev \<noteq> cp_validators cp \<or> cp_total_size prev \<noteq> cp_total_size cp
               then (Inl (Inconsistent (''checkpoint generation changed mid-job for '' @ cp_job_id cp)), c)
               else
                 (let merged = union_ranges (cp_completed_ranges prev) (cp_completed_ranges cp)
                  in if merged = cp_completed_ranges prev then (Inr (), c)
                     else forward_save save (cp\<lparr>cp_completed_ranges := merged\<rparr>) c)
           | None \<Rightarrow> forward_save save cp c)"

definition coordinated_delete :: "(string \<Rightarrow> 's \<Rightarrow> (checkpoint_error + unit) \<times> 's) \<Rightarrow> string \<Rightarrow> 's coordinated_store
    \<Rightarrow> (checkpoint_error + unit) \<times> 's coordinated_store" where
  "coordinated_delete delete job_identity c =
     (if co_poisoned c then (Inl poisoned_error, c)
      else
        let (r, s) = delete job_identity (co_inner c)
        in case r of
             Inl e \<Rightarrow> (Inl e, c\<lparr>co_inner := s\<rparr>)
           | Inr _ \<Rightarrow>
               (Inr (), c\<lparr>co_inner := s,
                  co_last_accepted := (if hm_get (co_last_accepted c) job_identity = None then co_last_accepted c
                                       else hm_insert job_identity None (co_last_accepted c))\<rparr>))"

section \<open>Contracts\<close>

text \<open>What a store hands back of a checkpoint: the URLs are never written.\<close>

definition persisted :: "checkpoint \<Rightarrow> checkpoint" where
  "persisted cp = cp\<lparr>cp_original_url := [], cp_final_url := []\<rparr>"

text \<open>The codec: text that was written reads back as the checkpoint without its URLs.\<close>

locale checkpoint_codec =
  fixes ser :: "checkpoint \<Rightarrow> string + string" and de :: "string \<Rightarrow> string + checkpoint" and utf8 :: "string \<Rightarrow> string + string"
  assumes codec_round: "ser cp = Inr json \<Longrightarrow> utf8 json = Inr json \<and> de json = Inr (persisted cp)"

text \<open>
  The trait \<open>CheckpointStore\<close>. \<open>stored\<close> is the checkpoint a readable store holds for an identity. A save
  that fails may still have replaced the checkpoint, never with anything but the new one.
\<close>

locale checkpoint_store =
  fixes load :: "string \<Rightarrow> 's \<Rightarrow> (checkpoint_error + checkpoint option) \<times> 's"
    and save :: "checkpoint \<Rightarrow> 's \<Rightarrow> (checkpoint_error + unit) \<times> 's"
    and delete :: "string \<Rightarrow> 's \<Rightarrow> (checkpoint_error + unit) \<times> 's"
    and stored :: "'s \<Rightarrow> string \<Rightarrow> checkpoint option"
  assumes load_stored: "load i s = (Inr c, s') \<Longrightarrow> c = stored s i"
    and load_keeps: "stored (snd (load i s)) = stored s"
    and save_stored: "validate cp = Inr () \<Longrightarrow> save cp s = (Inr (), s') \<Longrightarrow> stored s' (cp_job_id cp) = Some (persisted cp)"
    and save_failed: "validate cp = Inr () \<Longrightarrow> save cp s = (Inl e, s') \<Longrightarrow> stored s' (cp_job_id cp) \<in> {stored s (cp_job_id cp), Some (persisted cp)}"
    and save_keeps: "i \<noteq> cp_job_id cp \<Longrightarrow> stored (snd (save cp s)) i = stored s i"
    and delete_stored: "delete i s = (Inr (), s') \<Longrightarrow> stored s' i = None"
    and delete_failed: "delete i s = (Inl e, s') \<Longrightarrow> stored s' i = stored s i"
    and delete_keeps: "j \<noteq> i \<Longrightarrow> stored (snd (delete i s)) j = stored s j"

section \<open>The file store\<close>

lemma path_for_inj [simp]: "path_for i = path_for j \<longleftrightarrow> i = j"
  by (simp add: path_for_def)

lemma temp_not_path: "temp_for j pid seq \<noteq> path_for i"
proof
  assume "temp_for j pid seq = path_for i"
  then have "last (temp_for j pid seq) = last (path_for i)" by simp
  then show False by (simp add: temp_for_def path_for_def)
qed

lemma save_steps_states:
  assumes "save_steps st f path tmp json D = (created, result, Ds)" "path \<noteq> tmp" "D' \<in> set Ds"
  shows "D' path \<in> {D path, Some (RegularFile json)}" "n \<noteq> path \<Longrightarrow> n \<noteq> tmp \<Longrightarrow> D' n = D n"
  using assms by (auto simp: save_steps_def Let_def split: if_splits option.splits)

lemma save_steps_result:
  assumes "save_steps st f path tmp json D = (created, result, Ds)" "path \<noteq> tmp"
  shows "Ds \<noteq> []" "result = Inr u \<Longrightarrow> last Ds path = Some (RegularFile json) \<and> last Ds tmp = None"
    "created \<Longrightarrow> D tmp = None" "\<not> created \<Longrightarrow> last Ds = D" "hd Ds = D"
  using assms by (auto simp: save_steps_def Let_def split: if_splits option.splits)

lemma next_faults_entries [simp]:
  "sd_entries (snd (next_faults d)) = sd_entries d" "sd_pid (snd (next_faults d)) = sd_pid d" "sd_seq (snd (next_faults d)) = sd_seq d"
  by (simp_all add: next_faults_def split: list.split)

text \<open>Every state a save goes through, and the state it ends in.\<close>

lemma file_save_states:
  assumes save: "file_save_trace ser st cp d = (result, Ds, d')" and D: "D \<in> set Ds"
  shows "(case encode_checkpoint ser st cp of Inl _ \<Rightarrow> D = sd_entries d
      | Inr json \<Rightarrow> D (path_for (cp_job_id cp)) \<in> {sd_entries d (path_for (cp_job_id cp)), Some (RegularFile json)}
          \<and> (\<forall>n. n \<noteq> path_for (cp_job_id cp) \<longrightarrow> n \<noteq> temp_for (cp_job_id cp) (sd_pid d) (sd_seq d) \<longrightarrow> D n = sd_entries d n))"
proof -
  let ?path = "path_for (cp_job_id cp)" and ?tmp = "temp_for (cp_job_id cp) (sd_pid d) (sd_seq d)"
  obtain f d1 where f: "next_faults d = (f, d1)" by fastforce
  then have d1: "sd_entries d1 = sd_entries d" "sd_pid d1 = sd_pid d" "sd_seq d1 = sd_seq d" using next_faults_entries [of d] by simp_all
  show ?thesis
  proof (cases "encode_checkpoint ser st cp")
    case (Inl e)
    then show ?thesis using save D f d1 by (auto simp: file_save_trace_def)
  next
    case (Inr json)
    obtain created res Es where steps: "save_steps st f ?path ?tmp json (sd_entries d) = (created, res, Es)" using prod_cases3 by blast
    have ne: "?path \<noteq> ?tmp" using temp_not_path by metis
    have "last Es \<in> set Es" using save_steps_result(1) [OF steps ne] by simp
    moreover have "D \<in> set Es \<or> D = last Es \<or> D = (last Es)(?tmp := None)"
      using save D f d1 Inr steps by (auto simp: file_save_trace_def Let_def split: if_splits)
    ultimately obtain E where E: "E \<in> set Es" "D = E \<or> D = E(?tmp := None)" by blast
    note states = save_steps_states [OF steps ne E(1)]
    have "D ?path \<in> {sd_entries d ?path, Some (RegularFile json)}" using states(1) E(2) ne by auto
    moreover have "D n = sd_entries d n" if "n \<noteq> ?path" "n \<noteq> ?tmp" for n using states(2) [OF that] E(2) that by auto
    ultimately show ?thesis using Inr by simp
  qed
qed

lemma file_save_result:
  assumes save: "file_save_trace ser st cp d = (result, Ds, d')"
  shows "Ds \<noteq> []" "sd_entries d' = last Ds" "hd Ds = sd_entries d"
    "result = Inr () \<Longrightarrow> \<exists>json. encode_checkpoint ser st cp = Inr json \<and> last Ds (path_for (cp_job_id cp)) = Some (RegularFile json)"
    "io_remove (fst (next_faults d)) \<or> last Ds (temp_for (cp_job_id cp) (sd_pid d) (sd_seq d)) = sd_entries d (temp_for (cp_job_id cp) (sd_pid d) (sd_seq d))"
proof -
  let ?path = "path_for (cp_job_id cp)" and ?tmp = "temp_for (cp_job_id cp) (sd_pid d) (sd_seq d)"
  obtain f d1 where f: "next_faults d = (f, d1)" by fastforce
  then have d1: "sd_entries d1 = sd_entries d" "sd_pid d1 = sd_pid d" "sd_seq d1 = sd_seq d" using next_faults_entries [of d] by simp_all
  have "Ds \<noteq> [] \<and> sd_entries d' = last Ds \<and> hd Ds = sd_entries d
    \<and> (result = Inr () \<longrightarrow> (\<exists>json. encode_checkpoint ser st cp = Inr json \<and> last Ds ?path = Some (RegularFile json)))
    \<and> (io_remove f \<or> last Ds ?tmp = sd_entries d ?tmp)"
  proof (cases "encode_checkpoint ser st cp")
    case (Inl e)
    then show ?thesis using save f d1 by (auto simp: file_save_trace_def)
  next
    case (Inr json)
    obtain created res Es where steps: "save_steps st f ?path ?tmp json (sd_entries d) = (created, res, Es)" using prod_cases3 by blast
    have ne: "?path \<noteq> ?tmp" using temp_not_path by metis
    note r = save_steps_result [OF steps ne]
    have *: "result = res" "Ds = Es @ [if res \<noteq> Inr () \<and> created \<and> \<not> io_remove f then (last Es)(?tmp := None) else last Es]"
      "sd_entries d' = last Ds"
      using save f d1 Inr steps by (auto simp: file_save_trace_def Let_def split: if_splits)
    have "last Ds ?tmp = sd_entries d ?tmp" if "\<not> io_remove f"
      using that * r(2) [of "()"] r(3,4) by (cases "res = Inr ()"; cases created) auto
    moreover have "last Ds ?path = Some (RegularFile json)" if "result = Inr ()" using that * r(2) by simp
    moreover have "hd Ds = sd_entries d" using * r(1,5) by simp
    moreover have "Ds \<noteq> []" using *(2) by simp
    ultimately show ?thesis using *(3) Inr by blast
  qed
  then show "Ds \<noteq> []" "sd_entries d' = last Ds" "hd Ds = sd_entries d"
    "result = Inr () \<Longrightarrow> \<exists>json. encode_checkpoint ser st cp = Inr json \<and> last Ds ?path = Some (RegularFile json)"
    "io_remove (fst (next_faults d)) \<or> last Ds ?tmp = sd_entries d ?tmp" using f by auto
qed

text \<open>What a fault-free read of the directory finds.\<close>

definition file_stored :: "(string \<Rightarrow> string + string) \<Rightarrow> (string \<Rightarrow> string + checkpoint) \<Rightarrow> file_checkpoint_store \<Rightarrow> sidecar_dir
    \<Rightarrow> string \<Rightarrow> checkpoint option" where
  "file_stored utf8 de st d i = (case read_sidecar utf8 de st no_faults (sd_entries d) i of Inr r \<Rightarrow> r | Inl _ \<Rightarrow> None)"

lemma read_sidecar_cong: "D (path_for i) = E (path_for i) \<Longrightarrow> read_sidecar utf8 de st f D i = read_sidecar utf8 de st f E i"
  by (simp add: read_sidecar_def Let_def)

lemma file_stored_cong: "sd_entries d (path_for i) = sd_entries e (path_for i) \<Longrightarrow> file_stored utf8 de st d i = file_stored utf8 de st e i"
  unfolding file_stored_def using read_sidecar_cong by metis

lemma read_sidecar_faultless: "read_sidecar utf8 de st f D i = Inr r \<Longrightarrow> read_sidecar utf8 de st no_faults D i = Inr r"
  by (auto simp: read_sidecar_def no_faults_def Let_def split: option.splits dir_entry.splits if_splits)

lemma encode_within: "encode_checkpoint ser st cp = Inr json \<Longrightarrow> fc_max_serialized_bytes st = Some cap \<Longrightarrow> length json \<le> cap"
  by (auto simp: encode_checkpoint_def split: sum.splits if_splits)

lemma encode_ser: "encode_checkpoint ser st cp = Inr json \<Longrightarrow> ser cp = Inr json"
  by (auto simp: encode_checkpoint_def to_json_def split: sum.splits option.splits if_splits)

lemma persisted_fields [simp]:
  "cp_job_id (persisted cp) = cp_job_id cp" "cp_completed_ranges (persisted cp) = cp_completed_ranges cp" "cp_validators (persisted cp) = cp_validators cp"
  "cp_total_size (persisted cp) = cp_total_size cp" "validate (persisted cp) = validate cp"
  by (simp_all add: persisted_def validate_def Let_def cong: sum.case_cong option.case_cong if_cong)

lemma file_save_keeps:
  assumes "i \<noteq> cp_job_id cp"
  shows "file_stored utf8 de st (snd (file_save ser st cp d)) i = file_stored utf8 de st d i"
proof -
  obtain result Ds d' where trace: "file_save_trace ser st cp d = (result, Ds, d')" using prod_cases3 by blast
  note r = file_save_result [OF trace]
  have "sd_entries d' \<in> set Ds" using r(1,2) by simp
  note s = file_save_states [OF trace this]
  have "path_for i \<noteq> temp_for (cp_job_id cp) (sd_pid d) (sd_seq d)" "path_for i \<noteq> path_for (cp_job_id cp)"
    using assms temp_not_path by (metis, simp)
  then have "sd_entries d' (path_for i) = sd_entries d (path_for i)" using s by (auto split: sum.splits)
  then show ?thesis using file_stored_cong [of d' i d] trace by (simp add: file_save_def)
qed

context checkpoint_codec
begin

lemma stored_encoded:
  assumes "encode_checkpoint ser st cp = Inr json" "sd_entries d (path_for i) = Some (RegularFile json)" "validate cp = Inr ()"
  shows "file_stored utf8 de st d i = Some (persisted cp)"
proof -
  have "decode_checkpoint utf8 de json = Inr (persisted cp)"
    using codec_round [OF encode_ser [OF assms(1)]] assms(3) by (simp add: decode_checkpoint_def from_json_def)
  then show ?thesis
    using assms(2) encode_within [OF assms(1)] by (auto simp: file_stored_def read_sidecar_def no_faults_def Let_def split: option.splits)
qed

lemma file_save_stored:
  assumes "validate cp = Inr ()" "file_save ser st cp d = (result, d')"
  shows "result = Inr () \<Longrightarrow> file_stored utf8 de st d' (cp_job_id cp) = Some (persisted cp)"
    "file_stored utf8 de st d' (cp_job_id cp) \<in> {file_stored utf8 de st d (cp_job_id cp), Some (persisted cp)}"
proof -
  obtain Ds where trace: "file_save_trace ser st cp d = (result, Ds, d')"
    using assms(2) by (auto simp: file_save_def split: prod.splits)
  note r = file_save_result [OF trace]
  have "sd_entries d' \<in> set Ds" using r(1,2) by simp
  note s = file_save_states [OF trace this]
  show ok: "file_stored utf8 de st d' (cp_job_id cp) = Some (persisted cp)" if "result = Inr ()"
    using r(4) [OF that] r(2) stored_encoded [OF _ _ assms(1)] by fastforce
  show "file_stored utf8 de st d' (cp_job_id cp) \<in> {file_stored utf8 de st d (cp_job_id cp), Some (persisted cp)}"
  proof (cases "encode_checkpoint ser st cp")
    case (Inl e)
    then have "sd_entries d' = sd_entries d" using s by simp
    then show ?thesis using file_stored_cong [of d' "cp_job_id cp" d] by simp
  next
    case (Inr json)
    then show ?thesis using s file_stored_cong [of d' "cp_job_id cp" d] stored_encoded [OF Inr _ assms(1), of d'] by auto
  qed
qed

end

lemma file_load_stored:
  "file_load utf8 de st i d = (Inr c, d') \<Longrightarrow> c = file_stored utf8 de st d i"
  "file_stored utf8 de st (snd (file_load utf8 de st i d)) j = file_stored utf8 de st d j"
proof -
  assume "file_load utf8 de st i d = (Inr c, d')"
  then have "read_sidecar utf8 de st (fst (next_faults d)) (sd_entries d) i = Inr c" by (simp add: file_load_def split_beta)
  from read_sidecar_faultless [OF this] show "c = file_stored utf8 de st d i" by (simp add: file_stored_def)
next
  show "file_stored utf8 de st (snd (file_load utf8 de st i d)) j = file_stored utf8 de st d j"
    by (rule file_stored_cong) (simp add: file_load_def split_beta)
qed

lemma file_delete_stored:
  assumes "file_delete i d = (result, d')"
  shows "result = Inr () \<Longrightarrow> file_stored utf8 de st d' i = None" "result = Inl e \<Longrightarrow> file_stored utf8 de st d' i = file_stored utf8 de st d i"
    "j \<noteq> i \<Longrightarrow> file_stored utf8 de st d' j = file_stored utf8 de st d j"
proof -
  obtain f d1 where f: "next_faults d = (f, d1)" by fastforce
  then have d1: "sd_entries d1 = sd_entries d" using next_faults_entries [of d] by simp
  have none: "file_stored utf8 de st d' i = None" if "sd_entries d' (path_for i) = None"
    using that by (simp add: file_stored_def read_sidecar_def no_faults_def)
  show "file_stored utf8 de st d' i = None" if "result = Inr ()"
    using assms that f by (intro none) (auto simp: file_delete_def Let_def split: option.splits)
  show "file_stored utf8 de st d' i = file_stored utf8 de st d i" if "result = Inl e"
    using assms that f d1 by (intro file_stored_cong) (auto simp: file_delete_def Let_def split: option.splits)
  show "file_stored utf8 de st d' j = file_stored utf8 de st d j" if "j \<noteq> i"
    using assms that f d1 by (intro file_stored_cong) (auto simp: file_delete_def Let_def split: option.splits)
qed

sublocale checkpoint_codec \<subseteq> file_store: checkpoint_store "file_load utf8 de st" "file_save ser st" file_delete "file_stored utf8 de st" for st
proof unfold_locales
  fix i s c s' assume "file_load utf8 de st i s = (Inr c, s')"
  then show "c = file_stored utf8 de st s i" by (rule file_load_stored)
next
  fix i s show "file_stored utf8 de st (snd (file_load utf8 de st i s)) = file_stored utf8 de st s"
    using file_load_stored(2) by blast
next
  fix cp s s' assume "validate cp = Inr ()" "file_save ser st cp s = (Inr (), s')"
  then show "file_stored utf8 de st s' (cp_job_id cp) = Some (persisted cp)" by (rule file_save_stored) simp
next
  fix cp s e s' assume "validate cp = Inr ()" "file_save ser st cp s = (Inl e, s')"
  then show "file_stored utf8 de st s' (cp_job_id cp) \<in> {file_stored utf8 de st s (cp_job_id cp), Some (persisted cp)}" by (rule file_save_stored)
next
  fix i and cp :: checkpoint and s assume "i \<noteq> cp_job_id cp"
  then show "file_stored utf8 de st (snd (file_save ser st cp s)) i = file_stored utf8 de st s i" by (rule file_save_keeps)
next
  fix i s s' assume "file_delete i s = (Inr (), s')"
  then show "file_stored utf8 de st s' i = None" by (rule file_delete_stored) simp
next
  fix i s e s' assume "file_delete i s = (Inl e, s')"
  then show "file_stored utf8 de st s' i = file_stored utf8 de st s i" by (rule file_delete_stored) simp
next
  fix i j :: string and s assume "j \<noteq> i"
  then show "file_stored utf8 de st (snd (file_delete i s)) j = file_stored utf8 de st s j"
    by (rule file_delete_stored(3) [OF prod.collapse [symmetric]])
qed

section \<open>Acknowledged saves are never lost\<close>

definition cp_sound :: "checkpoint \<Rightarrow> bool" where
  "cp_sound cp \<longleftrightarrow> validate cp = Inr () \<and> list_all (\<lambda>r. snd r \<le> u64_max) (cp_completed_ranges cp)"

text \<open>\<open>q\<close> describes the same generation as \<open>p\<close> and at least its bytes.\<close>

definition supersedes :: "checkpoint \<Rightarrow> checkpoint \<Rightarrow> bool" where
  "supersedes q p \<longleftrightarrow> iv_bytes (cp_completed_ranges p) \<subseteq> iv_bytes (cp_completed_ranges q)
     \<and> cp_validators q = cp_validators p \<and> cp_total_size q = cp_total_size p"

lemma supersedes_refl [simp]: "supersedes p p"
  by (simp add: supersedes_def)

lemma supersedes_trans: "supersedes r q \<Longrightarrow> supersedes q p \<Longrightarrow> supersedes r p"
  by (auto simp: supersedes_def)

lemma supersedes_persisted [simp]: "supersedes (persisted q) p = supersedes q p"
  by (simp add: supersedes_def)

lemma chain_ordered: "range_chain lo rs \<Longrightarrow> r \<in> set rs \<Longrightarrow> fst r \<le> snd r"
  by (induction lo rs rule: range_chain.induct) auto

lemma sound_ranges:
  assumes "cp_sound cp"
  shows "\<forall>r\<in>set (cp_completed_ranges cp). fst r \<le> snd r \<and> snd r \<le> u64_max"
proof -
  have "validate_ranges None (cp_completed_ranges cp) = Inr ()"
    using assms by (auto simp: cp_sound_def validate_def split: if_splits sum.splits)
  then have "range_chain 0 (cp_completed_ranges cp)" using validate_ranges_chain [of None] by simp
  then show ?thesis using assms chain_ordered by (auto simp: cp_sound_def list_all_iff)
qed

lemma union_ranges_correct:
  assumes "\<forall>r\<in>set a. fst r \<le> snd r \<and> snd r \<le> u64_max" "\<forall>r\<in>set b. fst r \<le> snd r \<and> snd r \<le> u64_max"
  shows "iv_wf (union_ranges a b)" "iv_bytes (union_ranges a b) = iv_bytes a \<union> iv_bytes b"
proof -
  have "iv_bytes (sort_ranges (a @ b)) = iv_bytes (a @ b)" by (rule iv_bytes_cong) simp
  then show "iv_wf (union_ranges a b)" "iv_bytes (union_ranges a b) = iv_bytes a \<union> iv_bytes b"
    using merge_sorted_correct [of "[]" "sort_ranges (a @ b)"] assms by (auto simp: union_ranges_def)
qed

lemma forwarded_sound:
  assumes prev: "cp_sound prev" and cp: "cp_sound cp" and gen: "cp_validators prev = cp_validators cp" "cp_total_size prev = cp_total_size cp"
  defines "fwd \<equiv> cp\<lparr>cp_completed_ranges := union_ranges (cp_completed_ranges prev) (cp_completed_ranges cp)\<rparr>"
  shows "cp_sound fwd" "supersedes fwd prev" "supersedes fwd cp" "cp_job_id fwd = cp_job_id cp"
proof -
  note u = union_ranges_correct [OF sound_ranges [OF prev] sound_ranges [OF cp]]
  have "validate fwd = Inr ()"
  proof (rule validate_wf)
    show "iv_wf (cp_completed_ranges fwd)" using u(1) by (simp add: fwd_def)
    show "cp_format_version fwd = CHECKPOINT_FORMAT_VERSION" "cp_job_id fwd \<noteq> []"
      using cp by (auto simp: fwd_def cp_sound_def validate_def split: if_splits)
    show "case cp_total_size fwd of None \<Rightarrow> True | Some n \<Rightarrow> iv_bytes (cp_completed_ranges fwd) \<subseteq> {..<n}"
      using validate_ok(2) [of prev] validate_ok(2) [of cp] prev cp gen u(2) by (auto simp: fwd_def cp_sound_def split: option.split)
  qed
  moreover have "list_all (\<lambda>r. snd r \<le> u64_max) (cp_completed_ranges fwd)"
    using iv_wf_valid [OF u(1)] by (simp add: fwd_def list_all_iff)
  ultimately show "cp_sound fwd" by (simp add: cp_sound_def)
  show "supersedes fwd prev" "supersedes fwd cp" "cp_job_id fwd = cp_job_id cp"
    using u(2) gen by (auto simp: supersedes_def fwd_def)
qed

datatype store_op = LoadOp string | SaveOp checkpoint | DeleteOp string

fun store_step :: "(string \<Rightarrow> 's \<Rightarrow> (checkpoint_error + checkpoint option) \<times> 's) \<Rightarrow> (checkpoint \<Rightarrow> 's \<Rightarrow> (checkpoint_error + unit) \<times> 's)
    \<Rightarrow> (string \<Rightarrow> 's \<Rightarrow> (checkpoint_error + unit) \<times> 's) \<Rightarrow> store_op \<Rightarrow> 's coordinated_store \<Rightarrow> 's coordinated_store" where
  "store_step load save delete (LoadOp i) c = snd (coordinated_load load i c)"
| "store_step load save delete (SaveOp cp) c = snd (coordinated_save save cp c)"
| "store_step load save delete (DeleteOp i) c = snd (coordinated_delete delete i c)"

fun op_sound :: "store_op \<Rightarrow> bool" where
  "op_sound (SaveOp cp) = cp_sound cp"
| "op_sound _ = True"

context checkpoint_store
begin

text \<open>The invariant: what was last accepted for an identity is on disk, or something that supersedes it.\<close>

definition coordinated_inv :: "'s coordinated_store \<Rightarrow> bool" where
  "coordinated_inv c \<longleftrightarrow> hm_distinct (co_last_accepted c) \<and> (\<forall>i p. last_accepted i c = Some p \<longrightarrow>
     cp_sound p \<and> cp_job_id p = i \<and> (\<exists>q. stored (co_inner c) i = Some q \<and> supersedes q p))"

lemma inv_new: "coordinated_inv (coordinated_new s)"
  by (simp add: coordinated_inv_def coordinated_new_def last_accepted_def)

lemma last_accepted_insert [simp]:
  "last_accepted i (c\<lparr>co_last_accepted := hm_insert j v (co_last_accepted c)\<rparr>) = (if i = j then v else last_accepted i c)"
  "last_accepted i (c\<lparr>co_inner := s\<rparr>) = last_accepted i c"
  "last_accepted i (c\<lparr>co_inner := s, co_last_accepted := m\<rparr>) = last_accepted i (c\<lparr>co_last_accepted := m\<rparr>)"
  by (auto simp: last_accepted_def update_conv' split: option.splits)

text \<open>Passing a sound checkpoint that supersedes the accepted one on to the store.\<close>

lemma forward_save_inv:
  assumes inv: "coordinated_inv c" and cp: "cp_sound cp"
    and over: "\<forall>p. last_accepted (cp_job_id cp) c = Some p \<longrightarrow> supersedes cp p"
    and res: "forward_save save cp c = (result, c')"
  shows "coordinated_inv c'" "result = Inr () \<Longrightarrow> last_accepted (cp_job_id cp) c' = Some cp"
    "i \<noteq> cp_job_id cp \<or> result \<noteq> Inr () \<Longrightarrow> last_accepted i c' = last_accepted i c" "co_poisoned c' = co_poisoned c"
proof -
  obtain r s where s: "save cp (co_inner c) = (r, s)" by fastforce
  have v: "validate cp = Inr ()" using cp by (simp add: cp_sound_def)
  have others: "stored s i = stored (co_inner c) i" if "i \<noteq> cp_job_id cp" for i
    using save_keeps [OF that, of "co_inner c"] s by simp
  have "coordinated_inv c' \<and> (result = Inr () \<longrightarrow> last_accepted (cp_job_id cp) c' = Some cp)
    \<and> (\<forall>i. i \<noteq> cp_job_id cp \<or> result \<noteq> Inr () \<longrightarrow> last_accepted i c' = last_accepted i c) \<and> co_poisoned c' = co_poisoned c"
  proof (cases r)
    case (Inl e)
    then have c': "c' = c\<lparr>co_inner := s\<rparr>" "result = Inl e" using res s by (simp_all add: forward_save_def)
    have "\<exists>q. stored s i = Some q \<and> supersedes q p" if p: "last_accepted i c = Some p" for i p
    proof (cases "i = cp_job_id cp")
      case True
      then show ?thesis
        using save_failed [OF v, of "co_inner c" e s] s Inl inv p over by (auto simp: coordinated_inv_def)
    next
      case False
      then show ?thesis using inv p others by (simp add: coordinated_inv_def)
    qed
    then show ?thesis using inv c' by (simp add: coordinated_inv_def)
  next
    case (Inr u)
    then have c': "c' = c\<lparr>co_inner := s, co_last_accepted := hm_insert (cp_job_id cp) (Some cp) (co_last_accepted c)\<rparr>" "result = Inr ()"
      using res s by (simp_all add: forward_save_def)
    have "stored s (cp_job_id cp) = Some (persisted cp)" using save_stored [OF v] s Inr by simp
    then have "coordinated_inv c'" using inv c' cp others by (auto simp: coordinated_inv_def AList.distinct_update split: if_splits)
    then show ?thesis using c' by auto
  qed
  then show "coordinated_inv c'" "result = Inr () \<Longrightarrow> last_accepted (cp_job_id cp) c' = Some cp"
    "i \<noteq> cp_job_id cp \<or> result \<noteq> Inr () \<Longrightarrow> last_accepted i c' = last_accepted i c" "co_poisoned c' = co_poisoned c" by blast+
qed

lemma coordinated_save_inv:
  assumes inv: "coordinated_inv c" and cp: "cp_sound cp" and res: "coordinated_save save cp c = (result, c')"
  shows "coordinated_inv c' \<and> (result = Inr () \<longrightarrow> (\<exists>p. last_accepted (cp_job_id cp) c' = Some p \<and> supersedes p cp))
    \<and> (\<forall>i p. last_accepted i c = Some p \<longrightarrow> (\<exists>p'. last_accepted i c' = Some p' \<and> supersedes p' p))"
proof (cases "co_poisoned c")
  case True
  then have "c' = c" "result \<noteq> Inr ()" using res by (auto simp: coordinated_save_def)
  then show ?thesis using inv supersedes_refl by blast
next
  case False
  define d where "d = (if hm_get (co_last_accepted c) (cp_job_id cp) = None
      then c\<lparr>co_last_accepted := hm_insert (cp_job_id cp) None (co_last_accepted c)\<rparr> else c)"
  have last: "last_accepted i d = last_accepted i c" for i by (auto simp: d_def last_accepted_def update_conv')
  have inv_d: "coordinated_inv d"
    using inv by (auto simp: coordinated_inv_def last [unfolded d_def] d_def AList.distinct_update)
  have forward: "?thesis" if fw: "forward_save save q d = (result, c')" and q: "cp_sound q" "cp_job_id q = cp_job_id cp" "supersedes q cp"
      "\<forall>p. last_accepted (cp_job_id cp) d = Some p \<longrightarrow> supersedes q p" for q
  proof -
    note f = forward_save_inv [OF inv_d q(1) _ fw]
    have "\<exists>p'. last_accepted i c' = Some p' \<and> supersedes p' p" if p: "last_accepted i c = Some p" for i p
      using f(2) f(3) [of i] q(2,4) p last supersedes_refl by (cases "i \<noteq> cp_job_id cp \<or> result \<noteq> Inr ()") auto
    then show ?thesis using f(1,2) q by auto
  qed
  show ?thesis
  proof (cases "last_accepted (cp_job_id cp) d")
    case None
    then show ?thesis using res False cp by (intro forward [of cp]) (simp_all add: coordinated_save_def d_def [symmetric] Let_def)
  next
    case (Some prev)
    have prev: "cp_sound prev" using inv_d Some by (simp add: coordinated_inv_def)
    let ?fwd = "cp\<lparr>cp_completed_ranges := union_ranges (cp_completed_ranges prev) (cp_completed_ranges cp)\<rparr>"
    let ?changed = "cp_validators prev \<noteq> cp_validators cp \<or> cp_total_size prev \<noteq> cp_total_size cp"
    have eq: "(result, c') = (if ?changed then (Inl (Inconsistent (''checkpoint generation changed mid-job for '' @ cp_job_id cp)), d)
        else if union_ranges (cp_completed_ranges prev) (cp_completed_ranges cp) = cp_completed_ranges prev then (Inr (), d)
        else forward_save save ?fwd d)"
      using res False Some unfolding coordinated_save_def Let_def d_def [symmetric] by simp
    consider (other) "c' = d" "result \<noteq> Inr ()"
      | (same) "cp_validators prev = cp_validators cp" "cp_total_size prev = cp_total_size cp"
          "union_ranges (cp_completed_ranges prev) (cp_completed_ranges cp) = cp_completed_ranges prev" "c' = d" "result = Inr ()"
      | (grow) "cp_validators prev = cp_validators cp" "cp_total_size prev = cp_total_size cp" "forward_save save ?fwd d = (result, c')"
    proof (cases ?changed)
      case True
      then show thesis using eq other by simp
    next
      case False
      then show thesis using eq same grow
        by (cases "union_ranges (cp_completed_ranges prev) (cp_completed_ranges cp) = cp_completed_ranges prev") simp_all
    qed
    then show ?thesis
    proof cases
      case other
      then show ?thesis using inv_d last supersedes_refl by simp
    next
      case same
      have "supersedes prev cp" using forwarded_sound(3) [OF prev cp same(1,2)] same(1-3) by (simp add: supersedes_def)
      then show ?thesis using same(4,5) inv_d last Some by auto
    next
      case grow
      note fs = forwarded_sound [OF prev cp grow(1,2)]
      show ?thesis using fs Some by (intro forward [OF grow(3)]) auto
    qed
  qed
qed

lemma coordinated_step_inv:
  assumes inv: "coordinated_inv c" and ok: "op_sound op"
  shows "coordinated_inv (store_step load save delete op c)
    \<and> (\<forall>i p. last_accepted i c = Some p \<and> op \<noteq> DeleteOp i \<longrightarrow> (\<exists>p'. last_accepted i (store_step load save delete op c) = Some p' \<and> supersedes p' p))"
proof (cases op)
  case (LoadOp j)
  have "stored (snd (load j (co_inner c))) = stored (co_inner c)" by (rule load_keeps)
  then show ?thesis
    using inv LoadOp supersedes_refl by (auto simp: coordinated_load_def split_beta coordinated_inv_def)
next
  case (SaveOp cp)
  obtain r c' where r: "coordinated_save save cp c = (r, c')" by fastforce
  have "cp_sound cp" using SaveOp ok by simp
  from coordinated_save_inv [OF inv this r] show ?thesis using SaveOp r by simp
next
  case (DeleteOp j)
  obtain r s where s: "delete j (co_inner c) = (r, s)" by fastforce
  have keeps: "stored s i = stored (co_inner c) i" if "i \<noteq> j" for i using delete_keeps [OF that, of "co_inner c"] s by simp
  show ?thesis
  proof (cases "co_poisoned c")
    case True
    then show ?thesis using inv DeleteOp supersedes_refl by (auto simp: coordinated_delete_def)
  next
    case live: False
    show ?thesis
    proof (cases r)
      case (Inl e)
      then have "stored s i = stored (co_inner c) i" for i using keeps [of i] delete_failed [of j "co_inner c" e s] s by (cases "i = j") auto
      then show ?thesis using inv DeleteOp Inl s live supersedes_refl by (auto simp: coordinated_delete_def coordinated_inv_def)
    next
      case (Inr u)
      have "last_accepted i (store_step load save delete op c) = (if i = j then None else last_accepted i c)" for i
        using DeleteOp Inr s live by (auto simp: coordinated_delete_def last_accepted_def update_conv' split: option.splits)
      moreover have "co_inner (store_step load save delete op c) = s" "hm_distinct (co_last_accepted (store_step load save delete op c))"
        using DeleteOp Inr s live inv by (auto simp: coordinated_delete_def coordinated_inv_def AList.distinct_update)
      ultimately show ?thesis using inv keeps supersedes_refl DeleteOp by (auto simp: coordinated_inv_def)
    qed
  qed
qed

lemma coordinated_run_inv:
  assumes "coordinated_inv c" "\<forall>op\<in>set ops. op_sound op"
  shows "coordinated_inv (fold (store_step load save delete) ops c)
    \<and> (\<forall>p. last_accepted i c = Some p \<and> DeleteOp i \<notin> set ops \<longrightarrow>
         (\<exists>p'. last_accepted i (fold (store_step load save delete) ops c) = Some p' \<and> supersedes p' p))"
  using assms
proof (induction ops arbitrary: c)
  case (Cons op ops)
  note step = coordinated_step_inv [OF Cons.prems(1), of op] and IH = Cons.IH [of "store_step load save delete op c"]
  then show ?case using Cons.prems(2) supersedes_trans by (simp, metis)
qed simp

text \<open>A save that was acknowledged stays on disk until its identity is deleted.\<close>

lemma acknowledged_kept:
  assumes "coordinated_inv c" "cp_sound cp" "coordinated_save save cp c = (Inr (), c')" "\<forall>op\<in>set ops. op_sound op" "DeleteOp (cp_job_id cp) \<notin> set ops"
  shows "\<exists>q. stored (co_inner (fold (store_step load save delete) ops c')) (cp_job_id cp) = Some q \<and> supersedes q cp"
proof -
  obtain p where p: "coordinated_inv c'" "last_accepted (cp_job_id cp) c' = Some p" "supersedes p cp"
    using coordinated_save_inv [OF assms(1,2,3)] by blast
  from coordinated_run_inv [OF p(1) assms(4), of "cp_job_id cp"] p(2,3) assms(5) obtain p'
    where "coordinated_inv (fold (store_step load save delete) ops c')" "last_accepted (cp_job_id cp) (fold (store_step load save delete) ops c') = Some p'"
      "supersedes p' p" by blast
  then show ?thesis using supersedes_trans p(3) unfolding coordinated_inv_def by blast
qed

end

context checkpoint_codec
begin

lemma file_acknowledged_kept:
  assumes "\<forall>op \<in> set (ops1 @ ops2). op_sound op" "cp_sound cp"
    and "coordinated_save (file_save ser st) cp
        (fold (store_step (file_load utf8 de st) (file_save ser st) file_delete) ops1 (coordinated_new d)) = (Inr (), c)"
    and "DeleteOp (cp_job_id cp) \<notin> set ops2"
  shows "\<exists>q. file_stored utf8 de st (co_inner (fold (store_step (file_load utf8 de st) (file_save ser st) file_delete) ops2 c)) (cp_job_id cp) = Some q
    \<and> supersedes q cp"
proof -
  have ops: "\<forall>op \<in> set ops1. op_sound op" "\<forall>op \<in> set ops2. op_sound op" using assms(1) by auto
  have "file_store.coordinated_inv st (fold (store_step (file_load utf8 de st) (file_save ser st) file_delete) ops1 (coordinated_new d))"
    using file_store.coordinated_run_inv [OF file_store.inv_new ops(1)] by blast
  from file_store.acknowledged_kept [OF this assms(2,3) ops(2) assms(4)] show ?thesis .
qed

end

section \<open>A codec\<close>

text \<open>The contract of the codec can be met: a checkpoint without its URLs is a value of a countable type.\<close>

definition cp_fields :: "checkpoint \<Rightarrow> (nat \<times> string \<times> string \<times> string option \<times> string option \<times> nat option)
    \<times> (string option \<times> bool \<times> string option \<times> nat option) \<times> (nat \<times> nat) list \<times> (string \<times> string) list \<times> string \<times> string" where
  "cp_fields cp =
     ((cp_format_version cp, cp_job_id cp, cp_temp_path_identity cp, cp_owned_temp_identity cp, cp_covered_digest cp, cp_total_size cp),
      (rv_etag (cp_validators cp), rv_etag_is_weak (cp_validators cp), rv_last_modified (cp_validators cp), rv_total_size (cp_validators cp)),
      cp_completed_ranges cp, map (\<lambda>h. (ed_algorithm h, ed_hex h)) (cp_expected_hashes cp), cp_created_at cp, cp_updated_at cp)"

definition cp_of_fields :: "(nat \<times> string \<times> string \<times> string option \<times> string option \<times> nat option)
    \<times> (string option \<times> bool \<times> string option \<times> nat option) \<times> (nat \<times> nat) list \<times> (string \<times> string) list \<times> string \<times> string \<Rightarrow> checkpoint" where
  "cp_of_fields = (\<lambda>((v, j, t, own, dig, n), (e, w, m, sz), rs, hs, c, u).
     \<lparr>cp_format_version = v, cp_job_id = j, cp_original_url = [], cp_final_url = [], cp_temp_path_identity = t, cp_owned_temp_identity = own,
      cp_covered_digest = dig, cp_total_size = n,
      cp_validators = \<lparr>rv_etag = e, rv_etag_is_weak = w, rv_last_modified = m, rv_total_size = sz\<rparr>,
      cp_completed_ranges = rs, cp_expected_hashes = map (\<lambda>(a, h). \<lparr>ed_algorithm = a, ed_hex = h\<rparr>) hs, cp_created_at = c, cp_updated_at = u\<rparr>)"

definition unary_ser :: "checkpoint \<Rightarrow> string + string" where
  "unary_ser cp = Inr (replicate (to_nat (cp_fields cp)) CHR ''x'')"

definition unary_de :: "string \<Rightarrow> string + checkpoint" where
  "unary_de s = Inr (cp_of_fields (from_nat (length s)))"

lemma cp_of_fields_fields: "cp_of_fields (cp_fields cp) = persisted cp"
  by (cases cp) (auto simp: cp_of_fields_def cp_fields_def persisted_def o_def intro: map_idI)

interpretation unary: checkpoint_codec unary_ser unary_de Inr
  by unfold_locales (auto simp: unary_ser_def unary_de_def cp_of_fields_fields)

section \<open>Properties\<close>

text \<open>
  Saving a checkpoint is atomic, whichever call of the operating system fails and wherever the
  process dies. In every directory state a save goes through, the sidecar of the job holds its old
  contents or the complete new text, reading it back gives the old checkpoint or the new one, and no
  other file but the temporary one changes. A save that reports success has installed the new text; a
  save that fails leaves no temporary file behind unless removing it fails too.
\<close>

lemma file_save_atomic:
  assumes "file_save_trace ser st cp d = (result, Ds, d')" "D \<in> set Ds" "checkpoint_codec ser de utf8" "validate cp = Inr ()"
  shows "(D (path_for (cp_job_id cp)) = sd_entries d (path_for (cp_job_id cp))
      \<or> (\<exists>json. ser cp = Inr json \<and> D (path_for (cp_job_id cp)) = Some (RegularFile json)))
    \<and> file_stored utf8 de st (d\<lparr>sd_entries := D\<rparr>) (cp_job_id cp) \<in> {file_stored utf8 de st d (cp_job_id cp), Some (persisted cp)}
    \<and> (\<forall>n. n \<noteq> path_for (cp_job_id cp) \<longrightarrow> n \<noteq> temp_for (cp_job_id cp) (sd_pid d) (sd_seq d) \<longrightarrow> D n = sd_entries d n)
    \<and> (result = Inr () \<longrightarrow> (\<exists>json. ser cp = Inr json \<and> sd_entries d' (path_for (cp_job_id cp)) = Some (RegularFile json)))
    \<and> (io_remove (fst (next_faults d))
        \<or> sd_entries d' (temp_for (cp_job_id cp) (sd_pid d) (sd_seq d)) = sd_entries d (temp_for (cp_job_id cp) (sd_pid d) (sd_seq d)))"
proof -
  let ?path = "path_for (cp_job_id cp)" and ?tmp = "temp_for (cp_job_id cp) (sd_pid d) (sd_seq d)"
  note states = file_save_states [OF assms(1,2)] and r = file_save_result [OF assms(1)]
  have rest: "\<forall>n. n \<noteq> ?path \<longrightarrow> n \<noteq> ?tmp \<longrightarrow> D n = sd_entries d n" using states by (auto split: sum.splits)
  have path: "D ?path = sd_entries d ?path \<or> (\<exists>json. encode_checkpoint ser st cp = Inr json \<and> D ?path = Some (RegularFile json))"
    using states by (auto split: sum.splits)
  have "file_stored utf8 de st (d\<lparr>sd_entries := D\<rparr>) (cp_job_id cp) \<in> {file_stored utf8 de st d (cp_job_id cp), Some (persisted cp)}"
    using path checkpoint_codec.stored_encoded [OF assms(3) _ _ assms(4), of st _ "d\<lparr>sd_entries := D\<rparr>" "cp_job_id cp"]
      file_stored_cong [of "d\<lparr>sd_entries := D\<rparr>" "cp_job_id cp" d] by fastforce
  moreover have "\<exists>json. ser cp = Inr json \<and> sd_entries d' ?path = Some (RegularFile json)" if "result = Inr ()"
    using r(4) [OF that] r(2) encode_ser by fastforce
  moreover have "io_remove (fst (next_faults d)) \<or> sd_entries d' ?tmp = sd_entries d ?tmp" using r(2,5) by simp
  ultimately show ?thesis using path rest encode_ser by fast
qed

text \<open>
  Claim C27: an acknowledged save is never lost. Start from any directory, run any loads, saves and
  deletions of checkpoints that validate through the coordinated file store, with any system calls
  failing, and let a save report success. However the store is used afterwards, and whatever stale
  snapshots are saved, as long as the job is not deleted the sidecar holds a checkpoint of the same
  generation that covers every byte range of the acknowledged one.
\<close>

theorem acknowledged_save_kept:
  assumes "checkpoint_codec ser de utf8" "\<forall>op \<in> set (ops1 @ ops2). op_sound op" "cp_sound cp"
    and "coordinated_save (file_save ser st) cp
        (fold (store_step (file_load utf8 de st) (file_save ser st) file_delete) ops1 (coordinated_new d)) = (Inr (), c)"
    and "DeleteOp (cp_job_id cp) \<notin> set ops2"
  shows "\<exists>q. file_stored utf8 de st (co_inner (fold (store_step (file_load utf8 de st) (file_save ser st) file_delete) ops2 c)) (cp_job_id cp) = Some q
    \<and> supersedes q cp"
  by (rule checkpoint_codec.file_acknowledged_kept [OF assms])

section \<open>Sample runs\<close>

definition sample_store :: file_checkpoint_store where
  "sample_store = \<lparr>fc_dir = ''/d'', fc_durability = Durable, fc_max_serialized_bytes = None\<rparr>"

definition sample_cp :: "byte_range list \<Rightarrow> checkpoint" where
  "sample_cp rs = (checkpoint_new 0 ''job'' ''http://h/x'' ''t'')\<lparr>cp_completed_ranges := rs, cp_total_size := Some 10\<rparr>"

definition sample_dir :: "io_faults list \<Rightarrow> sidecar_dir" where
  "sample_dir fs = \<lparr>sd_entries = (\<lambda>_. None), sd_pid = 7, sd_seq = 0, sd_faults = fs\<rparr>"

lemma sample_cp_sound: "cp_sound (sample_cp [(0, 3)])" "validate (sample_cp [(0, 3)]) = Inr ()"
  by (simp_all add: cp_sound_def sample_cp_def checkpoint_new_def validate_def u64_max_def)

text \<open>
  Folding forward keeps the digest of the snapshot that was passed in: after a snapshot that lacks
  recorded ranges the stored digest describes other bytes than the stored ranges, and the checkpoint no
  longer verifies against the very file it was taken from.
\<close>

definition sample_sha :: "nat list \<Rightarrow> string" where
  "sample_sha bs = map char_of bs"

definition sample_file :: temp_file where
  "sample_file = \<lparr>tmp_path = ''t'', tmp_is_file = True, tmp_dev = 1, tmp_ino = 2, tmp_contents = [0, 1, 2, 3, 4, 5, 6, 7, 8, 9]\<rparr>"

lemma folded_digest_stale:
  "(let p = set_covered_digest sample_sha (Some sample_file) (sample_cp [(0, 3)]);
        q = set_covered_digest sample_sha (Some sample_file) (sample_cp [(6, 9)])
    in (verify_local_binding sample_sha (Some sample_file) q,
        verify_local_binding sample_sha (Some sample_file)
          (q\<lparr>cp_completed_ranges := union_ranges (cp_completed_ranges p) (cp_completed_ranges q)\<rparr>)))
   = (Inr (), Inl ''covered-byte digest mismatch'')"
  by code_simp

theorem acknowledged_save_kept_witness:
  "\<exists>q. file_stored Inr unary_de sample_store (co_inner (store_step (file_load Inr unary_de sample_store) (file_save unary_ser sample_store) file_delete
       (SaveOp (sample_cp [(0, 1)])) (snd (coordinated_save (file_save unary_ser sample_store) (sample_cp [(0, 3)]) (coordinated_new (sample_dir []))))))
     ''job'' = Some q \<and> {0, 1, 2, 3} \<subseteq> iv_bytes (cp_completed_ranges q)"
proof -
  let ?c = "coordinated_new (sample_dir [])"
  have stale: "cp_sound (sample_cp [(0, 1)])" by (simp add: cp_sound_def sample_cp_def checkpoint_new_def validate_def u64_max_def)
  have id: "cp_job_id (sample_cp rs) = ''job''" for rs by (simp add: sample_cp_def checkpoint_new_def)
  have "fst (coordinated_save (file_save unary_ser sample_store) (sample_cp [(0, 3)]) ?c) = Inr ()"
    by (simp add: coordinated_save_def coordinated_new_def last_accepted_def forward_save_def file_save_def file_save_trace_def next_faults_def
        sample_dir_def encode_checkpoint_def to_json_def unary_ser_def sample_store_def save_steps_def no_faults_def Let_def split_beta)
  then have "coordinated_save (file_save unary_ser sample_store) (sample_cp [(0, 3)]) ?c
    = (Inr (), snd (coordinated_save (file_save unary_ser sample_store) (sample_cp [(0, 3)]) ?c))" by (simp add: prod_eq_iff)
  from acknowledged_save_kept [OF unary.checkpoint_codec_axioms, of "[]" "[SaveOp (sample_cp [(0, 1)])]" "sample_cp [(0, 3)]" sample_store "sample_dir []",
      OF _ sample_cp_sound(1)] this stale
  obtain q where "file_stored Inr unary_de sample_store (co_inner (store_step (file_load Inr unary_de sample_store) (file_save unary_ser sample_store) file_delete
       (SaveOp (sample_cp [(0, 1)])) (snd (coordinated_save (file_save unary_ser sample_store) (sample_cp [(0, 3)]) ?c)))) ''job'' = Some q"
    "supersedes q (sample_cp [(0, 3)])" by (fastforce simp: id)
  moreover have "{0, 1, 2, 3} \<subseteq> iv_bytes (cp_completed_ranges (sample_cp [(0, 3)]))" by (auto simp: sample_cp_def)
  ultimately show ?thesis unfolding supersedes_def by blast
qed

end
