(* ===== verification/Resume_Flow.thy ===== *)
theory Resume_Flow
  imports Checkpoint_Store Engine_Config
begin

text \<open>
  The resume admission protocol (\<open>resume/flow.rs\<close>): policy-aware loading of a checkpoint, its comparison
  with the probed resource and the local partial output, and the decision to continue, restart or
  fail. The store is reached through its three operations; file metadata and the hash functions are
  arguments.
\<close>

section \<open>Plans and decisions\<close>

definition hex_char :: "nat \<Rightarrow> char" where
  "hex_char n = (if n < 10 then char_of (48 + n) else char_of (87 + n))"

definition hex_byte :: "nat \<Rightarrow> string" where
  "hex_byte b = [hex_char (b div 16), hex_char (b mod 16)]"

definition hex8 :: "nat list \<Rightarrow> string" where
  "hex8 bytes = concat (map hex_byte (take 8 bytes))"

definition job_identity :: "(string \<Rightarrow> nat list) \<Rightarrow> string \<Rightarrow> string \<Rightarrow> string" where
  "job_identity sha256 url destination = hex8 (sha256 (url @ destination))"

datatype resume_notice = NoticeResourceChanged string

record resume_failure =
  rf_error :: download_error
  rf_notices :: "resume_notice list"

definition failure_from :: "checkpoint_error \<Rightarrow> resume_failure" where
  "failure_from e = \<lparr>rf_error = Checkpoint (display_checkpoint_error e), rf_notices = []\<rparr>"

record resume_plan =
  rp_checkpoint :: "checkpoint option"
  rp_completed_ranges :: "byte_range list"
  rp_contiguous_prefix :: u64
  rp_warnings :: "string list"
  rp_notices :: "resume_notice list"

datatype admission_decision = Proceed resume_plan | RejectAdmission resume_failure

definition plan_fresh :: "string list \<Rightarrow> resume_notice list \<Rightarrow> resume_plan" where
  "plan_fresh warnings notices =
     \<lparr>rp_checkpoint = None, rp_completed_ranges = [], rp_contiguous_prefix = 0, rp_warnings = warnings, rp_notices = notices\<rparr>"

definition plan_resuming :: "checkpoint \<Rightarrow> resume_plan" where
  "plan_resuming cp =
     (let ranges = cp_completed_ranges cp;
          prefix = (case ranges of [] \<Rightarrow> 0 | (s, e) # _ \<Rightarrow> if s = 0 then sat_add e 1 else 0)
      in \<lparr>rp_checkpoint = Some cp, rp_completed_ranges = ranges, rp_contiguous_prefix = prefix, rp_warnings = [], rp_notices = []\<rparr>)"

definition is_resuming :: "resume_plan \<Rightarrow> bool" where
  "is_resuming p \<longleftrightarrow> rp_completed_ranges p \<noteq> []"

definition plan_validators :: "resume_plan \<Rightarrow> resource_validators option" where
  "plan_validators p = map_option cp_validators (rp_checkpoint p)"

definition plan_completed_bytes :: "byte_range list \<Rightarrow> u64" where
  "plan_completed_bytes ranges = sum_u64 (map (\<lambda>(s, e). u64_add (sat_sub e s) 1) ranges)"

record segmented_resume =
  sr_ranges :: "byte_range list"
  sr_reused_bytes :: u64

record sequential_resume =
  sq_offset :: u64
  sq_reused_bytes :: u64

definition plan_segmented :: "resume_plan \<Rightarrow> segmented_resume" where
  "plan_segmented p = \<lparr>sr_ranges = rp_completed_ranges p, sr_reused_bytes = plan_completed_bytes (rp_completed_ranges p)\<rparr>"

definition plan_sequential :: "resume_plan \<Rightarrow> sequential_resume" where
  "plan_sequential p = \<lparr>sq_offset = rp_contiguous_prefix p, sq_reused_bytes = rp_contiguous_prefix p\<rparr>"

section \<open>Loading\<close>

datatype admission_pieces = FreshPieces "string list" | ResumingPieces checkpoint | RequiredMissing

definition delete_restart_state :: "(string \<Rightarrow> 's \<Rightarrow> (checkpoint_error + unit) \<times> 's) \<Rightarrow> string \<Rightarrow> 's
    \<Rightarrow> (resume_failure + unit) \<times> 's" where
  "delete_restart_state delete identity s =
     (let (r, s') = delete identity s
      in case r of
           Inl e \<Rightarrow> (Inl \<lparr>rf_error = Checkpoint (''checkpoint cleanup failed: '' @ display_checkpoint_error e), rf_notices = []\<rparr>, s')
         | Inr _ \<Rightarrow> (Inr (), s'))"

definition discover_admission_pieces :: "(string \<Rightarrow> 's \<Rightarrow> (checkpoint_error + checkpoint option) \<times> 's)
    \<Rightarrow> (string \<Rightarrow> 's \<Rightarrow> (checkpoint_error + unit) \<times> 's) \<Rightarrow> resume_policy \<Rightarrow> string \<Rightarrow> 's \<Rightarrow> (resume_failure + admission_pieces) \<times> 's" where
  "discover_admission_pieces load delete policy identity s =
     (let pieces = (\<lambda>cp. case cp of Some c \<Rightarrow> ResumingPieces c | None \<Rightarrow> FreshPieces [])
      in case policy of
           ResumeNever \<Rightarrow> (Inr (pieces None), s)
         | ResumeAllowed \<Rightarrow>
             (case load identity s of
                (Inr cp, s') \<Rightarrow> (Inr (pieces cp), s')
              | (Inl e, s') \<Rightarrow>
                  (case delete_restart_state delete identity s' of
                     (Inl failure, s'') \<Rightarrow> (Inl failure, s'')
                   | (Inr _, s'') \<Rightarrow>
                       (Inr (FreshPieces [''checkpoint unusable ('' @ display_checkpoint_error e @ ''); restarting from zero'']), s'')))
         | ResumeRequired \<Rightarrow>
             (case load identity s of
                (Inl e, s') \<Rightarrow> (Inl (failure_from e), s')
              | (Inr (Some cp), s') \<Rightarrow> (Inr (pieces (Some cp)), s')
              | (Inr None, s') \<Rightarrow> (Inr RequiredMissing, s')))"

datatype admission_discovery = AbsentCandidate "string list" | FoundCandidate checkpoint

definition discover_admission :: "(string \<Rightarrow> 's \<Rightarrow> (checkpoint_error + checkpoint option) \<times> 's)
    \<Rightarrow> (string \<Rightarrow> 's \<Rightarrow> (checkpoint_error + unit) \<times> 's) \<Rightarrow> resume_policy \<Rightarrow> string \<Rightarrow> 's \<Rightarrow> (resume_failure + admission_discovery) \<times> 's" where
  "discover_admission load delete policy identity s =
     (case discover_admission_pieces load delete policy identity s of
        (Inl failure, s') \<Rightarrow> (Inl failure, s')
      | (Inr (ResumingPieces cp), s') \<Rightarrow> (Inr (FoundCandidate cp), s')
      | (Inr (FreshPieces warnings), s') \<Rightarrow> (Inr (AbsentCandidate warnings), s')
      | (Inr RequiredMissing, s') \<Rightarrow> (Inr (AbsentCandidate []), s'))"

record pending_admission =
  pa_identity :: string
  pa_warnings :: "string list"
  pa_checkpoint :: "checkpoint option"

definition begin_admission :: "(string \<Rightarrow> 's \<Rightarrow> (checkpoint_error + checkpoint option) \<times> 's)
    \<Rightarrow> (string \<Rightarrow> 's \<Rightarrow> (checkpoint_error + unit) \<times> 's) \<Rightarrow> resume_policy \<Rightarrow> string \<Rightarrow> 's \<Rightarrow> (resume_failure + pending_admission) \<times> 's" where
  "begin_admission load delete policy identity s =
     (case discover_admission_pieces load delete policy identity s of
        (Inl failure, s') \<Rightarrow> (Inl failure, s')
      | (Inr (ResumingPieces cp), s') \<Rightarrow> (Inr \<lparr>pa_identity = identity, pa_warnings = [], pa_checkpoint = Some cp\<rparr>, s')
      | (Inr (FreshPieces warnings), s') \<Rightarrow> (Inr \<lparr>pa_identity = identity, pa_warnings = warnings, pa_checkpoint = None\<rparr>, s')
      | (Inr RequiredMissing, s') \<Rightarrow> (Inl \<lparr>rf_error = Checkpoint ''resume required but no checkpoint'', rf_notices = []\<rparr>, s'))"

section \<open>The local partial output\<close>

text \<open>The entry at the temporary path: its metadata, or the error of \<open>symlink_metadata\<close>.\<close>

record temp_entry =
  te_file :: temp_file
  te_links :: u64

definition validate_owned_regular_file :: "io_error + temp_entry \<Rightarrow> download_error + unit" where
  "validate_owned_regular_file entry =
     (case entry of
        Inl e \<Rightarrow> Inl (from_io e)
      | Inr m \<Rightarrow>
          if \<not> tmp_is_file (te_file m) then Inl (SinkOpen (''partial output '' @ tmp_path (te_file m) @ '' is not a regular file''))
          else if 1 < te_links m then Inl (SinkOpen (''partial output '' @ tmp_path (te_file m) @ '' has multiple hard links''))
          else Inr ())"

definition needed_length :: "byte_range list \<Rightarrow> u64" where
  "needed_length ranges = (if ranges = [] then 0 else sat_add (snd (last ranges)) 1)"

definition validate_temp_file :: "(nat list \<Rightarrow> string) \<Rightarrow> checkpoint \<Rightarrow> io_error + temp_entry \<Rightarrow> download_error + unit" where
  "validate_temp_file sha cp entry =
     (case validate_owned_regular_file entry of
        Inl e \<Rightarrow> Inl (Checkpoint (display_error e))
      | Inr _ \<Rightarrow>
          (case entry of
             Inl e \<Rightarrow> Inl (Checkpoint ''temp file missing'')
           | Inr m \<Rightarrow>
               if length (tmp_contents (te_file m)) < needed_length (cp_completed_ranges cp)
               then Inl (Checkpoint (''temp file '' @ tmp_path (te_file m) @ '' too small: '' @ show_u64 (length (tmp_contents (te_file m)))
                      @ '' < '' @ show_u64 (needed_length (cp_completed_ranges cp)) @ '' required by completed ranges''))
               else (case verify_local_binding sha (Some (te_file m)) cp of Inl e \<Rightarrow> Inl (Checkpoint e) | Inr _ \<Rightarrow> Inr ())))"

definition finalize_admission :: "(nat list \<Rightarrow> string) \<Rightarrow> (string \<Rightarrow> 's \<Rightarrow> (checkpoint_error + unit) \<times> 's) \<Rightarrow> resource_validators
    \<Rightarrow> io_error + temp_entry \<Rightarrow> pending_admission \<Rightarrow> 's \<Rightarrow> admission_decision \<times> 's" where
  "finalize_admission sha delete remote entry p s =
     (let restart = (\<lambda>warning.
            case delete_restart_state delete (pa_identity p) s of
              (Inl failure, s') \<Rightarrow> (RejectAdmission failure, s')
            | (Inr _, s') \<Rightarrow> (Proceed (plan_fresh (pa_warnings p @ [warning]) []), s'))
      in case pa_checkpoint p of
           None \<Rightarrow> (Proceed (plan_fresh (pa_warnings p) []), s)
         | Some cp \<Rightarrow>
             if same_generation (cp_validators cp) remote \<noteq> Inr ()
             then (RejectAdmission \<lparr>rf_error = ResourceChanged ''resource changed since checkpoint'',
                     rf_notices = [NoticeResourceChanged ''validators differ from checkpoint'']\<rparr>, s)
             else
               (case comparable_generation (cp_validators cp) remote of
                  Inl reason \<Rightarrow> restart (''checkpoint not comparable ('' @ reason @ ''); restarting from zero'')
                | Inr _ \<Rightarrow>
                    (case validate_temp_file sha cp entry of
                       Inl e \<Rightarrow> restart (''checkpoint unusable ('' @ display_error e @ ''); restarting from zero'')
                     | Inr _ \<Rightarrow> (Proceed (plan_resuming cp), s))))"

section \<open>Final verification\<close>

definition hex_digest :: "nat list \<Rightarrow> string" where
  "hex_digest bytes = concat (map hex_byte bytes)"

definition verify_digest :: "(nat list \<Rightarrow> nat list) \<Rightarrow> (nat list \<Rightarrow> nat list) \<Rightarrow> io_error + nat list \<Rightarrow> string \<times> string \<Rightarrow> download_error + unit" where
  "verify_digest sha256 sha512 file = (\<lambda>(algo, expected_hex).
     case file of
       Inl e \<Rightarrow> Inl (from_io e)
     | Inr contents \<Rightarrow>
         let computed = (if algo = ''sha256'' then Some (hex_digest (sha256 contents))
                         else if algo = ''sha512'' then Some (hex_digest (sha512 contents)) else None)
         in case computed of
              None \<Rightarrow> Inl (IntegrityMismatch (''unsupported persisted algorithm '' @ algo))
            | Some c \<Rightarrow>
                if c \<noteq> to_ascii_lowercase expected_hex
                then Inl (IntegrityMismatch (algo @ '' mismatch: expected '' @ expected_hex @ '', computed '' @ c)) else Inr ())"

fun verify_digests :: "(nat list \<Rightarrow> nat list) \<Rightarrow> (nat list \<Rightarrow> nat list) \<Rightarrow> io_error + nat list \<Rightarrow> (string \<times> string) list \<Rightarrow> download_error + unit" where
  "verify_digests sha256 sha512 file [] = Inr ()"
| "verify_digests sha256 sha512 file (a # as) =
     (case verify_digest sha256 sha512 file a of Inl e \<Rightarrow> Inl e | Inr _ \<Rightarrow> verify_digests sha256 sha512 file as)"

section \<open>Admission over a store\<close>

context checkpoint_store
begin

lemma restart_state:
  assumes "delete_restart_state delete i s = (r, s')"
  shows "stored s' i = (if r = Inr () then None else stored s i)"
  using assms delete_stored [of i s] delete_failed [of i s]
  by (cases "delete i s") (auto simp: delete_restart_state_def split: sum.splits)

lemma load_result: "load i s = (r, s') \<Longrightarrow> stored s' = stored s \<and> (\<forall>c. r = Inr c \<longrightarrow> c = stored s i)"
  using load_keeps [of i s] load_stored [of i s] by auto

text \<open>After loading, a pending admission with a checkpoint holds the stored one; without one nothing is stored, or resuming is off.\<close>

lemma begin_loaded:
  assumes "begin_admission load delete policy i s = (Inr p, s')"
  shows "pa_identity p = i"
    "pa_checkpoint p = Some cp \<Longrightarrow> policy \<noteq> ResumeNever \<and> stored s i = Some cp \<and> stored s' = stored s"
    "pa_checkpoint p = None \<Longrightarrow> policy = ResumeNever \<and> stored s' = stored s \<or> stored s' i = None"
proof -
  obtain r s1 where l: "load i s = (r, s1)" by fastforce
  note lr = load_result [OF l]
  obtain r2 s2 where del: "delete_restart_state delete i s1 = (r2, s2)" by fastforce
  note dr = restart_state [OF del]
  have "pa_identity p = i \<and> (case pa_checkpoint p of Some cp \<Rightarrow> policy \<noteq> ResumeNever \<and> stored s i = Some cp \<and> stored s' = stored s
      | None \<Rightarrow> policy = ResumeNever \<and> stored s' = stored s \<or> stored s' i = None)"
    using assms lr dr
    by (cases policy; cases r)
      (auto simp: begin_admission_def discover_admission_pieces_def l del Let_def split: sum.splits option.splits)
  then show "pa_identity p = i"
    "pa_checkpoint p = Some cp \<Longrightarrow> policy \<noteq> ResumeNever \<and> stored s i = Some cp \<and> stored s' = stored s"
    "pa_checkpoint p = None \<Longrightarrow> policy = ResumeNever \<and> stored s' = stored s \<or> stored s' i = None" by auto
qed

lemma begin_refused:
  assumes "begin_admission load delete policy i s = (Inl f, s')"
  shows "stored s' i = stored s i"
proof -
  obtain r s1 where l: "load i s = (r, s1)" by fastforce
  note lr = load_result [OF l]
  obtain r2 s2 where del: "delete_restart_state delete i s1 = (r2, s2)" by fastforce
  note dr = restart_state [OF del]
  show ?thesis
    using assms lr dr
    by (cases policy; cases r)
      (auto simp: begin_admission_def discover_admission_pieces_def l del Let_def split: sum.splits option.splits)
qed

text \<open>The three outcomes of the second phase.\<close>

lemma finalize_cases:
  assumes "finalize_admission sha delete remote entry p s = (decision, s')"
  obtains (none) "pa_checkpoint p = None" "decision = Proceed (plan_fresh (pa_warnings p) [])" "s' = s"
  | (resume) cp where "pa_checkpoint p = Some cp" "decision = Proceed (plan_resuming cp)" "s' = s"
      "same_generation (cp_validators cp) remote = Inr ()" "comparable_generation (cp_validators cp) remote = Inr ()"
      "validate_temp_file sha cp entry = Inr ()"
  | (restart) w where "pa_checkpoint p \<noteq> None" "decision = Proceed (plan_fresh w [])" "stored s' (pa_identity p) = None"
  | (refuse) f where "pa_checkpoint p \<noteq> None" "decision = RejectAdmission f" "stored s' (pa_identity p) = stored s (pa_identity p)"
proof (cases "pa_checkpoint p")
  case None
  then show ?thesis using assms none by (simp add: finalize_admission_def Let_def)
next
  case (Some cp)
  obtain r s1 where del: "delete_restart_state delete (pa_identity p) s = (r, s1)" by fastforce
  note dr = restart_state [OF del]
  have case_r: "decision = (case r of Inl f \<Rightarrow> RejectAdmission f | Inr _ \<Rightarrow> Proceed (plan_fresh (pa_warnings p @ [w]) [])) \<Longrightarrow> s' = s1 \<Longrightarrow> thesis" for w
    using dr restart [of "pa_warnings p @ [w]"] refuse Some by (cases r) auto
  show ?thesis
  proof (cases "same_generation (cp_validators cp) remote")
    case (Inl e)
    then show ?thesis using assms Some refuse by (auto simp: finalize_admission_def Let_def)
  next
    case same: (Inr u)
    show ?thesis
    proof (cases "comparable_generation (cp_validators cp) remote")
      case (Inl e)
      then show ?thesis using assms Some same del case_r
        by (simp add: finalize_admission_def Let_def split: sum.splits) metis+
    next
      case comp: (Inr v)
      show ?thesis
      proof (cases "validate_temp_file sha cp entry")
        case (Inl e)
        then show ?thesis using assms Some same comp del case_r
          by (simp add: finalize_admission_def Let_def split: sum.splits) metis+
      next
        case (Inr w)
        then show ?thesis using assms Some same comp resume by (simp add: finalize_admission_def Let_def)
      qed
    qed
  qed
qed

end

section \<open>What an admitted plan rests on\<close>

text \<open>The partial output is a regular file with a single link that contains every recorded byte and matches the recorded identity and digest.\<close>

definition output_matches :: "(nat list \<Rightarrow> string) \<Rightarrow> checkpoint \<Rightarrow> io_error + temp_entry \<Rightarrow> bool" where
  "output_matches sha cp entry \<longleftrightarrow>
     (case entry of
        Inl _ \<Rightarrow> False
      | Inr m \<Rightarrow> tmp_is_file (te_file m) \<and> te_links m \<le> 1 \<and> iv_bytes (cp_completed_ranges cp) \<subseteq> {..<length (tmp_contents (te_file m))}
          \<and> verify_local_binding sha (Some (te_file m)) cp = Inr ())"

lemma validate_temp_ok:
  assumes ok: "validate_temp_file sha cp entry = Inr ()" and valid: "validate cp = Inr ()"
    and small: "\<forall>m. entry = Inr m \<longrightarrow> length (tmp_contents (te_file m)) < u64_max"
  shows "output_matches sha cp entry"
proof -
  let ?rs = "cp_completed_ranges cp"
  obtain m where m: "entry = Inr m" "tmp_is_file (te_file m)" "te_links m \<le> 1" "needed_length ?rs \<le> length (tmp_contents (te_file m))"
    "verify_local_binding sha (Some (te_file m)) cp = Inr ()"
    using ok by (auto simp: validate_temp_file_def validate_owned_regular_file_def split: sum.splits if_splits)
  have "validate_ranges None ?rs = Inr ()" using valid by (auto simp: validate_def split: if_splits sum.splits)
  then have chain: "range_chain 0 ?rs" using validate_ranges_chain [of None ?rs] by simp
  have "x < length (tmp_contents (te_file m))" if x: "x \<in> iv_bytes ?rs" for x
  proof -
    have "?rs \<noteq> []" using x by auto
    then have "sat_add (snd (last ?rs)) 1 \<le> length (tmp_contents (te_file m))" using m(4) by (simp add: needed_length_def)
    then have "snd (last ?rs) + 1 \<le> length (tmp_contents (te_file m))" using small m(1) by (auto simp: sat_add_def)
    then show ?thesis using chain_bounds [OF chain x] by simp
  qed
  then show ?thesis using m by (auto simp: output_matches_def)
qed

lemma plan_prefix_covered:
  "{..<rp_contiguous_prefix (plan_resuming cp)} \<subseteq> iv_bytes (cp_completed_ranges cp)"
  by (auto simp: plan_resuming_def Let_def sat_add_def split: list.splits if_splits)

lemma file_stored_valid: "file_stored utf8 de st d i = Some cp \<Longrightarrow> validate cp = Inr ()"
  by (auto simp: file_stored_def read_sidecar_def decode_checkpoint_def from_json_def Let_def
      split: sum.splits option.splits dir_entry.splits if_splits)

lemma plan_fresh_fields [simp]: "rp_checkpoint (plan_fresh w n) = None" "rp_completed_ranges (plan_fresh w n) = []" "rp_contiguous_prefix (plan_fresh w n) = 0"
  by (simp_all add: plan_fresh_def)

lemma plan_resuming_fields [simp]: "rp_checkpoint (plan_resuming cp) = Some cp" "rp_completed_ranges (plan_resuming cp) = cp_completed_ranges cp"
  by (simp_all add: plan_resuming_def Let_def)

text \<open>What the file store holds after an admission that went through both phases, by its outcome.\<close>

definition admission_ok :: "(nat list \<Rightarrow> string) \<Rightarrow> resume_policy \<Rightarrow> resource_validators \<Rightarrow> io_error + temp_entry
    \<Rightarrow> checkpoint option \<Rightarrow> checkpoint option \<Rightarrow> admission_decision \<Rightarrow> bool" where
  "admission_ok sha policy remote entry before after decision \<longleftrightarrow>
     (case decision of
        RejectAdmission _ \<Rightarrow> after = before
      | Proceed plan \<Rightarrow>
          (case rp_checkpoint plan of
             None \<Rightarrow> rp_completed_ranges plan = [] \<and> rp_contiguous_prefix plan = 0 \<and> (after = None \<or> policy = ResumeNever \<and> after = before)
           | Some cp \<Rightarrow> policy \<noteq> ResumeNever \<and> before = Some cp \<and> after = Some cp \<and> rp_completed_ranges plan = cp_completed_ranges cp
               \<and> proves_same (cp_validators cp) remote \<and> output_matches sha cp entry
               \<and> {..<rp_contiguous_prefix plan} \<subseteq> iv_bytes (cp_completed_ranges cp)))"

context checkpoint_codec
begin

lemma file_admission_ok:
  assumes loaded: "begin_admission (file_load utf8 de st) file_delete policy i d = (Inr p, d1)"
    and fin: "finalize_admission sha file_delete remote entry p d1 = (decision, d2)"
    and small: "\<forall>m. entry = Inr m \<longrightarrow> length (tmp_contents (te_file m)) < u64_max"
  shows "admission_ok sha policy remote entry (file_stored utf8 de st d i) (file_stored utf8 de st d2 i) decision"
proof -
  note b = file_store.begin_loaded [OF loaded]
  show ?thesis
    using fin
  proof (cases rule: file_store.finalize_cases [where st = st])
    case none
    then show ?thesis using b(3) by (auto simp: admission_ok_def)
  next
    case (resume cp)
    have cp: "policy \<noteq> ResumeNever" "file_stored utf8 de st d i = Some cp" "file_stored utf8 de st d1 = file_stored utf8 de st d"
      using b(2) [OF resume(1)] by auto
    note valid = file_stored_valid [OF cp(2)]
    show ?thesis
      using resume(2,3) cp resume_admission_sound [OF resume(4,5)] validate_temp_ok [OF resume(6) valid small] plan_prefix_covered [of cp]
      by (simp add: admission_ok_def)
  next
    case (restart w)
    then show ?thesis using b(1) by (simp add: admission_ok_def)
  next
    case (refuse f)
    then obtain cp where "pa_checkpoint p = Some cp" by auto
    then show ?thesis using refuse(2,3) b(1,2) by (simp add: admission_ok_def)
  qed
qed

end

section \<open>Properties\<close>

text \<open>
  Claim C26: resuming trusts verified state only. When an admission over the file store lets the transfer
  proceed with a checkpoint, resuming was allowed, the checkpoint is the one on disk and still is,
  the saved and the probed validators share a strong entity tag or a date, the partial output is an
  unshared regular file that contains every recorded byte and matches the recorded identity and digest,
  and a sequential transfer continues behind recorded bytes only. When it proceeds without one, the
  transfer starts at zero and no stale checkpoint is left, unless resuming is off and the store is
  untouched. A rejection leaves the stored checkpoint in place.
\<close>

theorem resume_trusts_verified:
  assumes "checkpoint_codec ser de utf8"
    and "begin_admission (file_load utf8 de st) file_delete policy i d = (Inr p, d1)"
    and "finalize_admission sha file_delete remote entry p d1 = (decision, d2)"
    and "\<forall>m. entry = Inr m \<longrightarrow> length (tmp_contents (te_file m)) < u64_max"
  shows "admission_ok sha policy remote entry (file_stored utf8 de st d i) (file_stored utf8 de st d2 i) decision"
  by (rule checkpoint_codec.file_admission_ok [OF assms])

definition resume_entry :: temp_entry where
  "resume_entry = \<lparr>te_file = sample_file, te_links = 1\<rparr>"

definition resume_cp :: checkpoint where
  "resume_cp = persisted ((sample_cp [(0, 3)])\<lparr>cp_validators := strong_example\<rparr>)"

definition resume_dir :: sidecar_dir where
  "resume_dir = (sample_dir [])\<lparr>sd_entries := (\<lambda>_. None)(''job.kdown'' \<mapsto> RegularFile (replicate (to_nat (cp_fields resume_cp)) CHR ''x''))\<rparr>"

theorem resume_trusts_verified_witness:
  "admission_ok sample_sha ResumeAllowed strong_example (Inr resume_entry) (Some resume_cp) (Some resume_cp)
     (fst (finalize_admission sample_sha file_delete strong_example (Inr resume_entry) \<lparr>pa_identity = ''job'', pa_warnings = [], pa_checkpoint = Some resume_cp\<rparr> resume_dir))"
proof -
  let ?p = "\<lparr>pa_identity = ''job'', pa_warnings = [], pa_checkpoint = Some resume_cp\<rparr>"
  have valid: "validate resume_cp = Inr ()" by (simp add: resume_cp_def sample_cp_def checkpoint_new_def validate_def persisted_def)
  have "unary_ser resume_cp = Inr (replicate (to_nat (cp_fields resume_cp)) CHR ''x'')" by (simp add: unary_ser_def)
  have per: "persisted resume_cp = resume_cp" by (simp add: resume_cp_def persisted_def)
  have read: "read_sidecar Inr unary_de sample_store f (sd_entries resume_dir) ''job'' = Inr (Some resume_cp)" if "io_read f = None" for f
    using that valid per
    by (simp add: read_sidecar_def path_for_def resume_dir_def sample_store_def decode_checkpoint_def from_json_def unary_de_def cp_of_fields_fields)
  have "file_load Inr unary_de sample_store ''job'' resume_dir = (Inr (Some resume_cp), resume_dir)"
    using read [of no_faults] by (simp add: file_load_def next_faults_def resume_dir_def sample_dir_def no_faults_def)
  then have loaded: "begin_admission (file_load Inr unary_de sample_store) file_delete ResumeAllowed ''job'' resume_dir = (Inr ?p, resume_dir)"
    by (simp add: begin_admission_def discover_admission_pieces_def Let_def)
  have fin: "finalize_admission sample_sha file_delete strong_example (Inr resume_entry) ?p resume_dir = (Proceed (plan_resuming resume_cp), resume_dir)"
  proof -
    have "same_generation (cp_validators resume_cp) strong_example = Inr ()" "comparable_generation (cp_validators resume_cp) strong_example = Inr ()"
      "validate_temp_file sample_sha resume_cp (Inr resume_entry) = Inr ()" by code_simp+
    then show ?thesis by (simp add: finalize_admission_def Let_def)
  qed
  have "file_stored Inr unary_de sample_store resume_dir ''job'' = Some resume_cp" using read [of no_faults] by (simp add: file_stored_def no_faults_def)
  then show ?thesis
    using resume_trusts_verified [OF unary.checkpoint_codec_axioms loaded fin] fin by (simp add: resume_entry_def sample_file_def u64_max_def)
qed

end
