(* ===== verification/Credentials.thy ===== *)
theory Credentials
  imports Download_Error
begin

text \<open>
  Authentication (\<open>control/auth.rs\<close>): challenges, the header set that all requests of a job share, and
  the bounded consultation of the credential provider of the embedding application. The provider is a
  function of the challenge. Basic credentials use the base64 of \<open>http/connect.rs\<close>.
\<close>

section \<open>Challenges\<close>

record challenge =
  ch_status :: u16
  ch_authenticate :: "string list"
  ch_origin :: string

definition first_word :: "string \<Rightarrow> string option" where
  "first_word s = (let w = takeWhile (\<lambda>c. \<not> is_ascii_space c) (trim_start s) in if w = [] then None else Some w)"

definition challenge_scheme :: "challenge \<Rightarrow> string option" where
  "challenge_scheme ch =
     (case ch_authenticate ch of [] \<Rightarrow> None | a # _ \<Rightarrow> map_option to_ascii_lowercase (first_word a))"

definition challenge_from_headers :: "u16 \<Rightarrow> string \<Rightarrow> (string \<times> string) list \<Rightarrow> challenge option" where
  "challenge_from_headers status origin headers =
     (if status \<noteq> 401 \<and> status \<noteq> 407 then None
      else
        let name = (if status = 407 then ''proxy-authenticate'' else ''www-authenticate'');
            authenticate = map snd (filter (\<lambda>(k, v). eq_ignore_ascii_case k name) headers)
        in if authenticate = [] then None
           else Some \<lparr>ch_status = status, ch_authenticate = authenticate, ch_origin = origin\<rparr>)"

section \<open>The shared context\<close>

datatype credential_decision = Headers "(string \<times> string) list" | Decline

type_synonym credential_provider = "challenge \<Rightarrow> download_error + credential_decision"

definition MAX_AUTH_STAGES :: u32 where
  "MAX_AUTH_STAGES = 2"

text \<open>\<open>AuthStageGuard\<close>, the counter of the single-stream path.\<close>

definition can_provide :: "u32 \<Rightarrow> bool" where
  "can_provide stages_used \<longleftrightarrow> stages_used < MAX_AUTH_STAGES"

definition record_stage :: "u32 \<Rightarrow> u32" where
  "record_stage stages_used = stages_used + 1"

fun upsert_header :: "(string \<times> string) list \<Rightarrow> string \<Rightarrow> string \<Rightarrow> (string \<times> string) list" where
  "upsert_header [] name value = [(name, value)]"
| "upsert_header ((seen, old) # headers) name value =
     (if eq_ignore_ascii_case seen name then (seen, value) # headers
      else (seen, old) # upsert_header headers name value)"

record shared_credentials =
  sc_headers :: "(string \<times> string) list"
  sc_provider :: "credential_provider option"
  sc_stages_used :: u32
  sc_answered_challenge :: "challenge option"
  sc_sensitive :: bool

definition credentials_new :: "(string \<times> string) list \<Rightarrow> credential_provider option \<Rightarrow> bool \<Rightarrow> shared_credentials" where
  "credentials_new headers provider sensitive =
     \<lparr>sc_headers = headers, sc_provider = provider, sc_stages_used = 0, sc_answered_challenge = None,
      sc_sensitive = sensitive\<rparr>"

text \<open>\<open>provide\<close> runs under the stage lock, so it is one step.\<close>

definition provide :: "challenge \<Rightarrow> shared_credentials \<Rightarrow> (download_error + bool) \<times> shared_credentials" where
  "provide ch c =
     (case sc_provider c of
        None \<Rightarrow> (Inr False, c)
      | Some provider \<Rightarrow>
          if sc_answered_challenge c = Some ch then (Inr True, c)
          else if MAX_AUTH_STAGES \<le> sc_stages_used c then (Inr False, c)
          else
            let c1 = c\<lparr>sc_stages_used := sc_stages_used c + 1\<rparr>
            in case provider ch of
                 Inl e \<Rightarrow> (Inl e, c1)
               | Inr Decline \<Rightarrow> (Inr False, c1)
               | Inr (Headers extra) \<Rightarrow>
                   (Inr True, c1\<lparr>sc_headers := fold (\<lambda>(name, value) hs. upsert_header hs name value) extra (sc_headers c1),
                                 sc_answered_challenge := Some ch\<rparr>))"

section \<open>Basic credentials\<close>

definition TABLE :: string where
  "TABLE = ''ABCDEFGHIJKLMNOPQRSTUVWXYZabcdefghijklmnopqrstuvwxyz0123456789+/''"

text \<open>A chunk of one to three bytes; \<open>n\<close> is the big-endian word of the chunk padded with zeros.\<close>

definition encode_chunk :: "nat list \<Rightarrow> string" where
  "encode_chunk chunk =
     (let b0 = chunk ! 0;
          b1 = (if 1 < length chunk then chunk ! 1 else 0);
          b2 = (if 2 < length chunk then chunk ! 2 else 0);
          n = b0 * 2 ^ 16 + b1 * 2 ^ 8 + b2
      in [TABLE ! (n div 2 ^ 18 mod 64), TABLE ! (n div 2 ^ 12 mod 64),
          if 1 < length chunk then TABLE ! (n div 2 ^ 6 mod 64) else CHR ''='',
          if 2 < length chunk then TABLE ! (n mod 64) else CHR ''=''])"

fun base64_encode :: "nat list \<Rightarrow> string" where
  "base64_encode [] = []"
| "base64_encode [a] = encode_chunk [a]"
| "base64_encode [a, b] = encode_chunk [a, b]"
| "base64_encode (a # b # c # rest) = encode_chunk [a, b, c] @ base64_encode rest"

definition basic_credentials :: "string \<Rightarrow> string \<Rightarrow> string" where
  "basic_credentials user password = ''Basic '' @ base64_encode (map of_char (user @ '':'' @ password))"

section \<open>Header updates\<close>

definition header_value :: "string \<Rightarrow> (string \<times> string) list \<Rightarrow> string option" where
  "header_value name hs = map_option snd (find (\<lambda>(k, v). eq_ignore_ascii_case k name) hs)"

lemma eq_ignore_refl [simp]: "eq_ignore_ascii_case a a"
  by (simp add: eq_ignore_ascii_case_def)

lemma upsert_header_value:
  "header_value name (upsert_header hs key v) = (if eq_ignore_ascii_case key name then Some v else header_value name hs)"
  by (induction hs key v rule: upsert_header.induct) (auto simp: header_value_def eq_ignore_ascii_case_def)

lemma upsert_fold_value:
  "header_value name (fold (\<lambda>(k, v) hs. upsert_header hs k v) extra hs)
   = (case header_value name (rev extra) of Some v \<Rightarrow> Some v | None \<Rightarrow> header_value name hs)"
proof (induction extra arbitrary: hs)
  case (Cons e extra)
  obtain k v where e: "e = (k, v)" by (cases e)
  have app: "header_value name (xs @ ys) = (case header_value name xs of Some v \<Rightarrow> Some v | None \<Rightarrow> header_value name ys)"
    for xs ys by (induction xs) (auto simp: header_value_def)
  have one: "header_value name [(k, v)] = (if eq_ignore_ascii_case k name then Some v else None)"
    by (simp add: header_value_def)
  show ?case using Cons.IH [of "upsert_header hs k v"]
    by (simp add: e upsert_header_value app one split: option.splits)
qed (simp add: header_value_def)

section \<open>Consultations of the provider\<close>

fun provide_all :: "challenge list \<Rightarrow> shared_credentials \<Rightarrow> shared_credentials" where
  "provide_all [] c = c"
| "provide_all (ch # chs) c = provide_all chs (snd (provide ch c))"

text \<open>The challenges for which the provider is called.\<close>

fun consulted :: "challenge list \<Rightarrow> shared_credentials \<Rightarrow> challenge list" where
  "consulted [] c = []"
| "consulted (ch # chs) c =
     (if sc_stages_used (snd (provide ch c)) = sc_stages_used c then [] else [ch]) @ consulted chs (snd (provide ch c))"

lemma provide_stages:
  "sc_stages_used (snd (provide ch c)) = sc_stages_used c
   \<or> sc_stages_used (snd (provide ch c)) = Suc (sc_stages_used c) \<and> sc_stages_used c < MAX_AUTH_STAGES"
  by (auto simp: provide_def Let_def split: option.splits sum.splits credential_decision.splits)

lemma consulted_stages: "length (consulted chs c) + sc_stages_used c = sc_stages_used (provide_all chs c)"
proof (induction chs arbitrary: c)
  case (Cons ch chs)
  then show ?case using provide_stages [of ch c] by (auto simp: Cons.IH [symmetric])
qed simp

lemma stages_bounded: "sc_stages_used c \<le> MAX_AUTH_STAGES \<Longrightarrow> sc_stages_used (provide_all chs c) \<le> MAX_AUTH_STAGES"
proof (induction chs arbitrary: c)
  case (Cons ch chs)
  show ?case using Cons.IH [of "snd (provide ch c)"] Cons.prems provide_stages [of ch c] by auto
qed simp

text \<open>
  The provider is consulted at most twice in the life of a job, whatever challenges its
  workers see and in whatever order; and each answer is in force afterwards: a request sees the last
  value the answer gives a header name.
\<close>

lemma provider_consulted_twice: "length (consulted chs (credentials_new hs p sensitive)) \<le> 2"
  using consulted_stages [of chs "credentials_new hs p sensitive"]
    stages_bounded [of "credentials_new hs p sensitive" chs]
  by (simp add: credentials_new_def MAX_AUTH_STAGES_def)

lemma provided_headers_apply:
  assumes "sc_provider c = Some provider" "provider ch = Inr (Headers extra)"
    and "sc_answered_challenge c \<noteq> Some ch" "sc_stages_used c < MAX_AUTH_STAGES"
    and "header_value name (rev extra) = Some v"
  shows "fst (provide ch c) = Inr True \<and> header_value name (sc_headers (snd (provide ch c))) = Some v"
  using assms by (simp add: provide_def Let_def upsert_fold_value)

section \<open>Base64 round trip\<close>

definition sextet :: "char \<Rightarrow> nat option" where
  "sextet ch = find (\<lambda>i. TABLE ! i = ch) [0..<64]"

fun base64_decode :: "string \<Rightarrow> nat list option" where
  "base64_decode [] = Some []"
| "base64_decode (a # b # c # d # rest) =
     (case (sextet a, sextet b, sextet c, sextet d) of
        (Some x, Some y, Some z, Some w) \<Rightarrow>
          let n = x * 2 ^ 18 + y * 2 ^ 12 + z * 2 ^ 6 + w
          in map_option (\<lambda>bs. n div 2 ^ 16 # n div 2 ^ 8 mod 256 # n mod 256 # bs) (base64_decode rest)
      | (Some x, Some y, Some z, None) \<Rightarrow>
          let n = x * 2 ^ 18 + y * 2 ^ 12 + z * 2 ^ 6
          in if d = CHR ''='' \<and> rest = [] then Some [n div 2 ^ 16, n div 2 ^ 8 mod 256] else None
      | (Some x, Some y, None, None) \<Rightarrow>
          let n = x * 2 ^ 18 + y * 2 ^ 12
          in if c = CHR ''='' \<and> d = CHR ''='' \<and> rest = [] then Some [n div 2 ^ 16] else None
      | _ \<Rightarrow> None)"
| "base64_decode _ = None"

lemma TABLE_distinct: "distinct TABLE" "length TABLE = 64" "CHR ''='' \<notin> set TABLE"
  by (simp_all add: TABLE_def)

lemma sextet_TABLE: "i < 64 \<Longrightarrow> sextet (TABLE ! i) = Some i"
  unfolding sextet_def find_Some_iff
  using TABLE_distinct by (intro exI [of _ i]) (simp add: nth_eq_iff_index_eq)

lemma sextet_pad: "sextet (CHR ''='') = None"
  using TABLE_distinct by (auto simp: sextet_def find_None_iff in_set_conv_nth)

lemma digits_join: "m div 64 * (64 * k) + m mod 64 * k = m * (k::nat)"
proof -
  have "(m div 64 * 64 + m mod 64) * k = m * k" by simp
  then show ?thesis by (simp only: distrib_right mult.assoc)
qed

lemma sextets_split:
  assumes "n < 2 ^ 24"
  shows "n div 2 ^ 18 mod 64 * 2 ^ 18 + n div 2 ^ 12 mod 64 * 2 ^ 12 + n div 2 ^ 6 mod 64 * 2 ^ 6 + n mod 64 = (n::nat)"
proof -
  have "n div 2 ^ 18 < 64" using assms by (intro less_mult_imp_div_less) simp
  then have top: "n div 2 ^ 18 mod 64 = n div 2 ^ 12 div 64" by (simp add: div_mult2_eq [symmetric])
  have mid: "n div 2 ^ 12 = n div 2 ^ 6 div 64" by (simp add: div_mult2_eq [symmetric])
  have "n div 2 ^ 18 mod 64 * 2 ^ 18 + n div 2 ^ 12 mod 64 * 2 ^ 12 = n div 2 ^ 6 div 64 * 2 ^ 12"
    using digits_join [of "n div 2 ^ 12" "2 ^ 12"] unfolding top by (simp add: mid)
  moreover have "n div 2 ^ 6 div 64 * 2 ^ 12 + n div 2 ^ 6 mod 64 * 2 ^ 6 = n div 64 * 2 ^ 6"
    using digits_join [of "n div 2 ^ 6" "2 ^ 6"] by simp
  moreover have "n div 64 * 2 ^ 6 + n mod 64 = n" by simp
  ultimately show ?thesis by presburger
qed

lemma quotient_split: "y < k \<Longrightarrow> (x * k + y) div k = x" "y < k \<Longrightarrow> (x * k + y) mod k = (y::nat)"
  by simp_all

lemma bytes_split:
  assumes "a < 256" "b < 256" "c < (256::nat)"
  shows "(a * 2 ^ 16 + b * 2 ^ 8 + c) div 2 ^ 16 = a" "(a * 2 ^ 16 + b * 2 ^ 8 + c) div 2 ^ 8 mod 256 = b"
    "(a * 2 ^ 16 + b * 2 ^ 8 + c) mod 256 = c" "a * 2 ^ 16 + b * 2 ^ 8 + c < 2 ^ 24"
proof -
  have n: "a * 2 ^ 16 + b * 2 ^ 8 + c = (a * 256 + b) * 256 + c" by simp
  show "(a * 2 ^ 16 + b * 2 ^ 8 + c) div 2 ^ 8 mod 256 = b" "(a * 2 ^ 16 + b * 2 ^ 8 + c) mod 256 = c"
    unfolding n using quotient_split [OF assms(3), of "a * 256 + b"] quotient_split [OF assms(2), of a] by simp_all
  show "(a * 2 ^ 16 + b * 2 ^ 8 + c) div 2 ^ 16 = a"
    using quotient_split(1) [of "b * 2 ^ 8 + c" "2 ^ 16" a] assms by (simp add: add.assoc)
  show "a * 2 ^ 16 + b * 2 ^ 8 + c < 2 ^ 24" using assms by simp
qed

lemma decode_pad2:
  "x < 64 \<Longrightarrow> y < 64 \<Longrightarrow> x * 2 ^ 18 + y * 2 ^ 12 = n \<Longrightarrow>
   base64_decode [TABLE ! x, TABLE ! y, CHR ''='', CHR ''=''] = Some [n div 2 ^ 16]"
  by (simp add: sextet_TABLE sextet_pad)

lemma decode_pad1:
  "x < 64 \<Longrightarrow> y < 64 \<Longrightarrow> z < 64 \<Longrightarrow> x * 2 ^ 18 + y * 2 ^ 12 + z * 2 ^ 6 = n \<Longrightarrow>
   base64_decode [TABLE ! x, TABLE ! y, TABLE ! z, CHR ''=''] = Some [n div 2 ^ 16, n div 2 ^ 8 mod 256]"
  by (simp add: sextet_TABLE sextet_pad)

lemma decode_full:
  "x < 64 \<Longrightarrow> y < 64 \<Longrightarrow> z < 64 \<Longrightarrow> w < 64 \<Longrightarrow> x * 2 ^ 18 + y * 2 ^ 12 + z * 2 ^ 6 + w = n \<Longrightarrow>
   base64_decode (TABLE ! x # TABLE ! y # TABLE ! z # TABLE ! w # rest)
     = map_option (\<lambda>bs. n div 2 ^ 16 # n div 2 ^ 8 mod 256 # n mod 256 # bs) (base64_decode rest)"
  by (simp add: sextet_TABLE)

text \<open>
  Base64 loses nothing: the reference decoder of RFC 4648 gives the encoded bytes back.
\<close>

lemma base64_roundtrip: "list_all (\<lambda>b. b < 256) xs \<Longrightarrow> base64_decode (base64_encode xs) = Some xs"
proof (induction xs rule: base64_encode.induct)
  case (2 a)
  let ?n = "a * 2 ^ 16 + 0 * 2 ^ 8 + 0"
  have b: "a < 256" "0 < (256::nat)" using 2 by simp_all
  have low: "?n mod 64 = 0" "?n div 2 ^ 6 mod 64 = 0"
    by (simp_all add: mod_eq_0_iff_dvd)
  have "?n div 2 ^ 18 mod 64 * 2 ^ 18 + ?n div 2 ^ 12 mod 64 * 2 ^ 12 = ?n"
    using sextets_split [OF bytes_split(4) [OF b(1,2,2)]] unfolding low by (simp only: mult_0 add_0_right)
  note decode_pad2 [OF _ _ this]
  then have "base64_decode (encode_chunk [a]) = Some [?n div 2 ^ 16]" unfolding encode_chunk_def Let_def by simp
  then show ?case unfolding bytes_split(1) [OF b(1,2,2)] by simp
next
  case (3 a b)
  let ?n = "a * 2 ^ 16 + b * 2 ^ 8 + 0"
  have b: "a < 256" "b < 256" "0 < (256::nat)" using 3 by simp_all
  have low: "?n mod 64 = 0" by (simp add: mod_eq_0_iff_dvd dvd_add)
  have "?n div 2 ^ 18 mod 64 * 2 ^ 18 + ?n div 2 ^ 12 mod 64 * 2 ^ 12 + ?n div 2 ^ 6 mod 64 * 2 ^ 6 = ?n"
    using sextets_split [OF bytes_split(4) [OF b]] unfolding low by (simp only: add_0_right)
  note decode_pad1 [OF _ _ _ this]
  then have "base64_decode (encode_chunk [a, b]) = Some [?n div 2 ^ 16, ?n div 2 ^ 8 mod 256]"
    unfolding encode_chunk_def Let_def by simp
  then show ?case unfolding bytes_split(1,2) [OF b] by simp
next
  case (4 a b c rest)
  have b: "a < 256" "b < 256" "c < 256" using 4(2) by simp_all
  note decode_full [OF _ _ _ _ sextets_split [OF bytes_split(4) [OF b]]]
  then have "base64_decode (encode_chunk [a, b, c] @ base64_encode rest)
    = map_option (\<lambda>bs. a # b # c # bs) (base64_decode (base64_encode rest))"
    unfolding encode_chunk_def Let_def bytes_split(1-3) [OF b] by simp
  then show ?case using 4 by simp
qed simp

end
