(* ===== verification/Http_Transfer.thy ===== *)
theory Http_Transfer
  imports Http_Range Retry_Policy Credentials
begin

text \<open>
  The semantic transfer operation (\<open>http/execution.rs\<close>, and its production adapter in
  \<open>http/transport.rs\<close> from the received response head on): the intent of a request, the checks between
  the head and the body, and the bounded body that the job reads chunk by chunk. What the connection
  delivers (a head, frames, faults) is an argument.
\<close>

section \<open>Intents and failures\<close>

datatype full_response_policy = InvalidRange | FullMeansChanged

record range_intent =
  ri_range :: byte_range
  ri_established_total :: "u64 option"
  ri_expected_validators :: "resource_validators option"
  ri_full_response :: full_response_policy

datatype transfer_intent = FullIntent | RangeOf range_intent

fun intent_range :: "transfer_intent \<Rightarrow> byte_range option" where
  "intent_range FullIntent = None"
| "intent_range (RangeOf r) = Some (ri_range r)"

record http_failure =
  hf_error :: download_error
  hf_retry_after :: "duration option"
  hf_challenge :: "challenge option"

definition failure_from_error :: "download_error \<Rightarrow> http_failure" where
  "failure_from_error e = \<lparr>hf_error = e, hf_retry_after = None, hf_challenge = None\<rparr>"

section \<open>From the head to the body\<close>

record accepted_response =
  ar_start :: u64
  ar_end :: u64
  ar_total_size :: "u64 option"
  ar_validators :: resource_validators

definition accept_head :: "string \<Rightarrow> transfer_intent \<Rightarrow> response_metadata \<Rightarrow> http_failure + accepted_response" where
  "accept_head url intent meta =
     (if rm_status meta \<noteq> 200 \<and> rm_status meta \<noteq> 206 then
        Inl \<lparr>hf_error = status_to_error (rm_status meta),
             hf_retry_after = retry_after_header (rm_headers meta),
             hf_challenge = challenge_from_headers (rm_status meta) url (rm_headers meta)\<rparr>
      else case intent of
        FullIntent \<Rightarrow>
          Inr \<lparr>ar_start = 0,
               ar_end = (case rm_total_size meta of None \<Rightarrow> u64_max | Some t \<Rightarrow> sat_sub t 1),
               ar_total_size = rm_total_size meta, ar_validators = rm_validators meta\<rparr>
      | RangeOf ri \<Rightarrow>
          if rm_status meta = 200 \<and> ri_full_response ri = FullMeansChanged then
            Inl (failure_from_error (ResourceChanged ''server ignored If-Range; resource changed''))
          else case validate_range_response (ri_range ri) meta (ri_established_total ri) (ri_expected_validators ri) of
            Inl rejection \<Rightarrow> Inl (failure_from_error (rejection_into_error rejection))
          | Inr v \<Rightarrow> Inr \<lparr>ar_start = vr_start v, ar_end = vr_end v, ar_total_size = vr_total_size v,
                          ar_validators = rm_validators meta\<rparr>)"

section \<open>The bounded body\<close>

text \<open>
  \<open>hb_limit\<close> is the requested range of a ranged intent with the bytes delivered so far. A frame that the
  connection delivers is data, a trailer, the end of the stream or a fault; \<open>Idle\<close> is the read-idle
  timer running out while the source is pending.
\<close>

record http_body =
  hb_limit :: "(u64 \<times> u64 \<times> u64) option"

definition body_for :: "transfer_intent \<Rightarrow> http_body" where
  "body_for intent = \<lparr>hb_limit = map_option (\<lambda>(s, e). (s, e, 0)) (intent_range intent)\<rparr>"

datatype wire_frame =
    DataFrame "nat list"
  | TrailerFrame
  | EndOfStream
  | StreamFault string bool
  | Idle

datatype body_event = BodyData "nat list" | BodyEnd | BodyPaused

definition poll_chunk :: "wire_frame \<Rightarrow> http_body \<Rightarrow> (download_error + body_event) \<times> http_body" where
  "poll_chunk frame b =
     (case frame of
        DataFrame data \<Rightarrow>
          (case hb_limit b of
             None \<Rightarrow> (Inr (BodyData data), b)
           | Some (start, end, delivered) \<Rightarrow>
               (let len = length data; accepted_len = u64_add (u64_sub end start) 1
                in if accepted_len < sat_add delivered len then (Inl (range_overrun_error start end), b)
                   else (Inr (BodyData data), b\<lparr>hb_limit := Some (start, end, u64_add delivered len)\<rparr>)))
      | TrailerFrame \<Rightarrow> (Inl (Protocol ''unexpected trailer frame''), b)
      | EndOfStream \<Rightarrow> (Inr BodyEnd, b)
      | StreamFault msg is_timeout \<Rightarrow> (Inl (classify_body_failure msg is_timeout), b)
      | Idle \<Rightarrow> (Inl (Connection ''read idle timeout''), b))"

definition poll_step :: "bool \<Rightarrow> bool \<Rightarrow> wire_frame \<Rightarrow> http_body \<Rightarrow> (download_error + body_event) \<times> http_body" where
  "poll_step cancelled paused frame b =
     (if cancelled then (Inl Cancelled, b)
      else if paused then (Inr BodyPaused, b)
      else poll_chunk frame b)"

section \<open>Lemmas\<close>

lemma accept_head_range:
  assumes "accept_head url (RangeOf ri) meta = Inr a" "fst (ri_range ri) \<le> snd (ri_range ri)"
    and "rm_content_range meta = None \<or> (\<exists>cr. rm_content_range meta = Some cr \<and> cr_start cr \<le> cr_end cr)"
  shows "ar_start a = fst (ri_range ri)" "ar_start a \<le> ar_end a" "ar_end a \<le> snd (ri_range ri)"
proof -
  have "ar_start a = fst (ri_range ri) \<and> ar_start a \<le> ar_end a \<and> ar_end a \<le> snd (ri_range ri)"
    using assms
    by (auto simp: accept_head_def validate_range_response_def Let_def range_request_is_nonzero_def
        split: if_splits sum.splits option.splits prod.splits)
  then show "ar_start a = fst (ri_range ri)" "ar_start a \<le> ar_end a" "ar_end a \<le> snd (ri_range ri)" by blast+
qed

text \<open>Data is delivered only within the requested range, and the count is exact.\<close>

lemma poll_step_data:
  assumes "poll_step cancelled paused frame b = (Inr (BodyData data), b')" "hb_limit b = Some (s, e, d)" "s \<le> e" "Suc e < u64_max"
  shows "frame = DataFrame data" "\<not> cancelled" "\<not> paused" "d + length data \<le> e - s + 1" "hb_limit b' = Some (s, e, d + length data)"
proof -
  have acc: "u64_add (u64_sub e s) 1 = e - s + 1" using assms(3,4) by (simp add: u64_exact)
  have "frame = DataFrame data \<and> \<not> cancelled \<and> \<not> paused \<and> d + length data \<le> e - s + 1
      \<and> hb_limit b' = Some (s, e, u64_add d (length data))"
    using assms(1,2,4) by (auto simp: poll_step_def poll_chunk_def Let_def acc [simplified] sat_add_def split: if_splits wire_frame.splits)
  moreover have "d + length data \<le> e - s + 1 \<Longrightarrow> u64_add d (length data) = d + length data" using assms(4) by (simp add: u64_exact)
  ultimately show "frame = DataFrame data" "\<not> cancelled" "\<not> paused" "d + length data \<le> e - s + 1"
    "hb_limit b' = Some (s, e, d + length data)" by auto
qed

lemma poll_step_other:
  "poll_step cancelled paused frame b = (r, b') \<Longrightarrow> (\<exists>data. r = Inr (BodyData data)) \<or> b' = b"
  by (auto simp: poll_step_def poll_chunk_def Let_def split: if_splits wire_frame.splits option.splits)

lemma poll_step_end:
  assumes "poll_step cancelled paused frame b = (Inr BodyEnd, b')"
  shows "frame = EndOfStream" "\<not> cancelled" "\<not> paused"
  using assms by (auto simp: poll_step_def poll_chunk_def Let_def split: if_splits wire_frame.splits option.splits)

end
