(* ===== verification/Job_Metrics.thy ===== *)
theory Job_Metrics
  imports Adaptive_Control
begin

text \<open>
  The counters of the workers and their fold (\<open>metrics/counters.rs\<close>), and the bucketed histograms
  from which the controller takes the percentiles of a window (\<open>metrics/histogram.rs\<close>).
\<close>

section \<open>Counters\<close>

record worker_counters =
  wk_network_bytes :: u64
  wk_completed_bytes :: u64
  wk_reused_bytes :: u64
  wk_retries :: u64
  wk_wasted_bytes :: u64

definition counters_default :: worker_counters where
  "counters_default = \<lparr>wk_network_bytes = 0, wk_completed_bytes = 0, wk_reused_bytes = 0, wk_retries = 0,
     wk_wasted_bytes = 0\<rparr>"

text \<open>\<open>fetch_add\<close> wraps.\<close>

definition add_network :: "u64 \<Rightarrow> worker_counters \<Rightarrow> worker_counters" where
  "add_network n w = w\<lparr>wk_network_bytes := u64_add (wk_network_bytes w) n\<rparr>"

definition add_completed :: "u64 \<Rightarrow> worker_counters \<Rightarrow> worker_counters" where
  "add_completed n w = w\<lparr>wk_completed_bytes := u64_add (wk_completed_bytes w) n\<rparr>"

definition add_reused :: "u64 \<Rightarrow> worker_counters \<Rightarrow> worker_counters" where
  "add_reused n w = w\<lparr>wk_reused_bytes := u64_add (wk_reused_bytes w) n\<rparr>"

definition add_retries :: "u64 \<Rightarrow> worker_counters \<Rightarrow> worker_counters" where
  "add_retries n w = w\<lparr>wk_retries := u64_add (wk_retries w) n\<rparr>"

definition add_wasted :: "u64 \<Rightarrow> worker_counters \<Rightarrow> worker_counters" where
  "add_wasted n w = w\<lparr>wk_wasted_bytes := u64_add (wk_wasted_bytes w) n\<rparr>"

type_synonym job_counters = "worker_counters list"

definition job_counters_new :: "u32 \<Rightarrow> job_counters" where
  "job_counters_new worker_count = replicate worker_count counters_default"

text \<open>\<open>counters.worker(idx)\<close> is \<open>None\<close> out of range, and then nothing is counted.\<close>

definition on_worker :: "nat \<Rightarrow> (worker_counters \<Rightarrow> worker_counters) \<Rightarrow> job_counters \<Rightarrow> job_counters" where
  "on_worker idx f cs = (if idx < length cs then cs[idx := f (cs ! idx)] else cs)"

record progress_snapshot =
  ps_network_bytes :: u64
  ps_completed_bytes :: u64
  ps_reused_bytes :: u64
  ps_retries :: u64
  ps_wasted_bytes :: u64
  ps_elapsed :: duration

definition fold_counters :: "duration \<Rightarrow> job_counters \<Rightarrow> progress_snapshot" where
  "fold_counters elapsed cs =
     (let raw = fold (\<lambda>r acc.
            \<lparr>wk_network_bytes = u64_add (wk_network_bytes acc) (wk_network_bytes r),
             wk_completed_bytes = u64_add (wk_completed_bytes acc) (wk_completed_bytes r),
             wk_reused_bytes = u64_add (wk_reused_bytes acc) (wk_reused_bytes r),
             wk_retries = u64_add (wk_retries acc) (wk_retries r),
             wk_wasted_bytes = u64_add (wk_wasted_bytes acc) (wk_wasted_bytes r)\<rparr>) cs counters_default
      in \<lparr>ps_network_bytes = wk_network_bytes raw, ps_completed_bytes = wk_completed_bytes raw,
          ps_reused_bytes = wk_reused_bytes raw, ps_retries = wk_retries raw,
          ps_wasted_bytes = wk_wasted_bytes raw, ps_elapsed = elapsed\<rparr>)"

definition useful_goodput_per_sec :: "'f f64_ops \<Rightarrow> ('f f64_ops \<Rightarrow> duration \<Rightarrow> 'f) \<Rightarrow> progress_snapshot \<Rightarrow> 'f" where
  "useful_goodput_per_sec F as_secs p =
     f_div F (f_of_u64 F (ps_completed_bytes p)) (f_max F (as_secs F (ps_elapsed p)) (epsilon F))"

definition wire_throughput_per_sec :: "'f f64_ops \<Rightarrow> ('f f64_ops \<Rightarrow> duration \<Rightarrow> 'f) \<Rightarrow> progress_snapshot \<Rightarrow> 'f" where
  "wire_throughput_per_sec F as_secs p =
     f_div F (f_of_u64 F (ps_network_bytes p)) (f_max F (as_secs F (ps_elapsed p)) (epsilon F))"

definition accounting_consistent :: "progress_snapshot \<Rightarrow> bool" where
  "accounting_consistent p \<longleftrightarrow> ps_wasted_bytes p \<le> ps_network_bytes p \<and> ps_completed_bytes p \<le> ps_network_bytes p"

section \<open>Histograms\<close>

definition BUCKETS :: nat where
  "BUCKETS = 40"

record histogram =
  hg_buckets :: "u64 list"
  hg_total :: u64

text \<open>A \<open>BucketSnapshot\<close> has the same two fields; a histogram is read one atomic at a time.\<close>

type_synonym bucket_snapshot = histogram

definition histogram_new :: histogram where
  "histogram_new = \<lparr>hg_buckets = replicate BUCKETS 0, hg_total = 0\<rparr>"

definition bump_bucket :: "nat \<Rightarrow> histogram \<Rightarrow> histogram" where
  "bump_bucket index h = \<lparr>hg_buckets = (hg_buckets h)[index := u64_add (hg_buckets h ! index) 1],
     hg_total = u64_add (hg_total h) 1\<rparr>"

text \<open>\<open>ilog2\<close>, the position of the highest set bit.\<close>

fun ilog2 :: "u64 \<Rightarrow> nat" where
  "ilog2 n = (if n < 2 then 0 else Suc (ilog2 (n div 2)))"

declare ilog2.simps [simp del]

definition latency_bucket :: "u64 \<Rightarrow> nat" where
  "latency_bucket us = (if us = 0 then 0 else min (ilog2 us + 1) (BUCKETS - 1))"

definition record_us :: "u64 \<Rightarrow> histogram \<Rightarrow> histogram" where
  "record_us us = bump_bucket (latency_bucket us)"

definition depth_bucket :: "u64 \<Rightarrow> nat" where
  "depth_bucket depth = min depth (BUCKETS - 1)"

definition record_depth :: "u64 \<Rightarrow> histogram \<Rightarrow> histogram" where
  "record_depth depth = bump_bucket (depth_bucket depth)"

definition bucket_or_zero :: "u64 list \<Rightarrow> nat \<Rightarrow> u64" where
  "bucket_or_zero bs index = (if index < length bs then bs ! index else 0)"

definition bucket_delta :: "bucket_snapshot \<Rightarrow> bucket_snapshot \<Rightarrow> bucket_snapshot" where
  "bucket_delta earlier later =
     \<lparr>hg_buckets = map (\<lambda>i. sat_sub (bucket_or_zero (hg_buckets later) i) (bucket_or_zero (hg_buckets earlier) i))
        [0..<BUCKETS],
      hg_total = sat_sub (hg_total later) (hg_total earlier)\<rparr>"

fun scan_buckets :: "u64 \<Rightarrow> nat \<Rightarrow> u64 \<Rightarrow> u64 list \<Rightarrow> nat" where
  "scan_buckets threshold index cumulative [] = BUCKETS - 1"
| "scan_buckets threshold index cumulative (count # counts) =
     (let cumulative = sat_add cumulative count
      in if threshold \<le> cumulative then index else scan_buckets threshold (Suc index) cumulative counts)"

text \<open>\<open>ceil\<close> is \<open>f64::ceil\<close>; \<open>f64::clamp\<close> is written out.\<close>

definition quantile_threshold :: "'f f64_ops \<Rightarrow> ('f \<Rightarrow> 'f) \<Rightarrow> 'f \<Rightarrow> u64 \<Rightarrow> u64" where
  "quantile_threshold F ceil p count =
     (let clamped = (if f_lt F p (f_lit F 0) then f_lit F 0 else if f_lt F (f_lit F 1) p then f_lit F 1 else p)
      in f_to_u64 F (f_max F (ceil (f_mul F clamped (f_of_u64 F count))) (f_lit F 1)))"

definition quantile_index :: "'f f64_ops \<Rightarrow> ('f \<Rightarrow> 'f) \<Rightarrow> 'f \<Rightarrow> bucket_snapshot \<Rightarrow> nat option" where
  "quantile_index F ceil p b =
     (if hg_total b = 0 then None
      else Some (scan_buckets (quantile_threshold F ceil p (hg_total b)) 0 0 (hg_buckets b)))"

definition bucket_bound :: "nat \<Rightarrow> u64" where
  "bucket_bound index = 2 ^ min index 63 - 1"

definition latency_percentile_us :: "'f f64_ops \<Rightarrow> ('f \<Rightarrow> 'f) \<Rightarrow> 'f \<Rightarrow> bucket_snapshot \<Rightarrow> 'f option" where
  "latency_percentile_us F ceil p b =
     map_option (\<lambda>index. if index = 0 then f_lit F 0 else f_of_u64 F (bucket_bound index)) (quantile_index F ceil p b)"

definition depth_percentile :: "'f f64_ops \<Rightarrow> ('f \<Rightarrow> 'f) \<Rightarrow> 'f \<Rightarrow> bucket_snapshot \<Rightarrow> 'f option" where
  "depth_percentile F ceil p b = map_option (f_of_u64 F) (quantile_index F ceil p b)"

section \<open>Lemmas\<close>

lemma on_worker_length [simp]: "length (on_worker i f cs) = length cs"
  by (simp add: on_worker_def)

lemma ilog2_bounds: "0 < n \<Longrightarrow> 2 ^ ilog2 n \<le> n \<and> n < 2 ^ Suc (ilog2 n)"
proof (induction n rule: ilog2.induct)
  case (1 n)
  show ?case
  proof (cases "n < 2")
    case True
    then show ?thesis using 1 by (simp add: ilog2.simps)
  next
    case False
    then have "2 ^ ilog2 (n div 2) \<le> n div 2 \<and> n div 2 < 2 ^ Suc (ilog2 (n div 2))" using 1 by simp
    then have "2 * 2 ^ ilog2 (n div 2) \<le> n" "n < 2 * (2 * 2 ^ ilog2 (n div 2))" by simp_all linarith+
    then show ?thesis using False by (simp add: ilog2.simps [of n])
  qed
qed

lemma ilog2_mono: "m \<le> n \<Longrightarrow> ilog2 m \<le> ilog2 n"
proof (induction n arbitrary: m rule: ilog2.induct)
  case (1 n)
  then show ?case
  proof (cases "m < 2")
    case False
    then have "ilog2 (m div 2) \<le> ilog2 (n div 2)" using 1 by (simp add: div_le_mono)
    then show ?thesis using False 1(2) by (simp add: ilog2.simps [of m] ilog2.simps [of n])
  qed (simp add: ilog2.simps [of m])
qed

lemma latency_bucket_mono: "m \<le> n \<Longrightarrow> latency_bucket m \<le> latency_bucket n"
  using ilog2_mono [of m n] by (auto simp: latency_bucket_def BUCKETS_def)

lemma latency_bucket_less [simp]: "latency_bucket n < BUCKETS"
  by (simp add: latency_bucket_def BUCKETS_def min_def)

lemma latency_bucket_tight:
  assumes "n < 2 ^ 39"
  shows "n \<le> bucket_bound (latency_bucket n)" "bucket_bound (latency_bucket n) \<le> 2 * n"
proof -
  consider "n = 0" | "0 < n" by linarith
  then have "n \<le> bucket_bound (latency_bucket n) \<and> bucket_bound (latency_bucket n) \<le> 2 * n"
  proof cases
    case 2
    have b: "2 ^ ilog2 n \<le> n" "n < 2 ^ Suc (ilog2 n)" using ilog2_bounds [OF 2] by blast+
    have "(2::nat) ^ ilog2 n < 2 ^ 39" using b(1) assms by (rule le_less_trans)
    then have "ilog2 n < 39" by (rule power_less_imp_less_exp [rotated]) simp
    then have "latency_bucket n = Suc (ilog2 n)" using 2 by (simp add: latency_bucket_def BUCKETS_def)
    then have "bucket_bound (latency_bucket n) = 2 * 2 ^ ilog2 n - 1" using \<open>ilog2 n < 39\<close> by (simp add: bucket_bound_def)
    moreover have "n < 2 * 2 ^ ilog2 n" using b(2) by simp
    ultimately show ?thesis using b(1) by linarith
  qed (simp add: latency_bucket_def bucket_bound_def)
  then show "n \<le> bucket_bound (latency_bucket n)" "bucket_bound (latency_bucket n) \<le> 2 * n" by blast+
qed

text \<open>What a histogram holds after any samples: the number of samples of each bucket.\<close>

definition count_bucket :: "(u64 \<Rightarrow> nat) \<Rightarrow> u64 list \<Rightarrow> nat \<Rightarrow> nat" where
  "count_bucket bucket xs i = length (filter (\<lambda>x. bucket x = i) xs)"

lemma histogram_counts:
  assumes "\<And>x. bucket x < BUCKETS" and "length xs \<le> u64_max"
  shows "fold (\<lambda>x. bump_bucket (bucket x)) xs histogram_new
    = \<lparr>hg_buckets = map (count_bucket bucket xs) [0..<BUCKETS], hg_total = length xs\<rparr>"
  using assms(2)
proof (induction xs rule: rev_induct)
  case (snoc x xs)
  let ?h = "\<lparr>hg_buckets = map (count_bucket bucket xs) [0..<BUCKETS], hg_total = length xs\<rparr>"
  have "count_bucket bucket xs (bucket x) \<le> length xs" by (simp add: count_bucket_def)
  then have "u64_add (count_bucket bucket xs (bucket x)) 1 = count_bucket bucket xs (bucket x) + 1"
    using snoc.prems by (simp add: u64_add_def)
  then have "(map (count_bucket bucket xs) [0..<BUCKETS])[bucket x := u64_add (count_bucket bucket xs (bucket x)) 1]
    = map (count_bucket bucket (xs @ [x])) [0..<BUCKETS]"
    using snoc.prems by (intro nth_equalityI) (auto simp: nth_list_update count_bucket_def)
  then have "bump_bucket (bucket x) ?h
    = \<lparr>hg_buckets = map (count_bucket bucket (xs @ [x])) [0..<BUCKETS], hg_total = length (xs @ [x])\<rparr>"
    using assms(1) [of x] snoc.prems by (simp add: bump_bucket_def u64_add_def)
  then show ?case using snoc by simp
qed (simp add: histogram_new_def list_eq_iff_nth_eq count_bucket_def)

lemma sum_counts:
  "sum_list (map (count_bucket bucket xs) [0..<k]) = length (filter (\<lambda>x. bucket x < k) xs)"
proof (induction k)
  case (Suc k)
  have "length (filter (\<lambda>x. bucket x < Suc k) xs)
    = length (filter (\<lambda>x. bucket x < k) xs) + length (filter (\<lambda>x. bucket x = k) xs)"
    by (induction xs) auto
  then show ?case using Suc by (simp add: count_bucket_def)
qed simp

lemma scan_buckets_finds:
  assumes "sum_list (pre @ counts) \<le> u64_max" "sum_list pre < threshold" "threshold \<le> sum_list (pre @ counts)"
  shows "\<exists>i < length (pre @ counts). scan_buckets threshold (length pre) (sum_list pre) counts = i
    \<and> sum_list (take i (pre @ counts)) < threshold \<and> threshold \<le> sum_list (take (Suc i) (pre @ counts))"
  using assms
proof (induction counts arbitrary: pre)
  case (Cons c counts)
  have sat: "sat_add (sum_list pre) c = sum_list pre + c" using Cons.prems(1) by (simp add: sat_add_def)
  show ?case
  proof (cases "threshold \<le> sum_list pre + c")
    case True
    then show ?thesis using Cons.prems(2) sat by (intro exI [of _ "length pre"]) simp
  next
    case False
    then show ?thesis using Cons.IH [of "pre @ [c]"] Cons.prems sat by simp
  qed
qed simp

lemma nth_sorted_count:
  assumes "sorted ys" "t < length ys" "\<And>a b. a \<le> b \<Longrightarrow> f a \<le> (f b :: nat)"
  shows "f (ys ! t) < k \<longleftrightarrow> t < length (filter (\<lambda>x. f x < k) ys)"
  using assms(1,2)
proof (induction ys arbitrary: t)
  case (Cons y ys)
  show ?case
  proof (cases "f y < k")
    case True
    then show ?thesis using Cons by (cases t) auto
  next
    case False
    have "\<not> f x < k" if "x \<in> set (y # ys)" for x
      using that False Cons.prems(1) assms(3) [of y x] by auto
    then have "filter (\<lambda>x. f x < k) (y # ys) = []" by (simp add: filter_empty_conv)
    moreover have "(y # ys) ! t \<in> set (y # ys)" using Cons.prems(2) by (rule nth_mem)
    ultimately show ?thesis using \<open>\<And>x. x \<in> set (y # ys) \<Longrightarrow> \<not> f x < k\<close> by auto
  qed
qed simp

lemma scan_is_quantile:
  assumes mono: "\<And>a b. a \<le> b \<Longrightarrow> bucket a \<le> bucket b" and less: "\<And>x. bucket x < BUCKETS"
    and xs: "length xs \<le> u64_max" and t: "1 \<le> t" "t \<le> length xs"
  shows "scan_buckets t 0 0 (map (count_bucket bucket xs) [0..<BUCKETS]) = bucket (sort xs ! (t - 1))"
proof -
  let ?cs = "map (count_bucket bucket xs) [0..<BUCKETS]"
  have all: "sum_list ?cs = length xs" using less by (simp only: sum_counts) simp
  obtain i where i: "i < BUCKETS" "scan_buckets t 0 0 ?cs = i" "sum_list (take i ?cs) < t" "t \<le> sum_list (take (Suc i) ?cs)"
    using scan_buckets_finds [of "[]" ?cs t] all xs t by auto
  have pre: "sum_list (take k ?cs) = length (filter (\<lambda>x. bucket x < k) (sort xs))" if "k \<le> BUCKETS" for k
  proof -
    have "take k ?cs = map (count_bucket bucket xs) [0..<k]" using that by (simp add: take_map take_upt)
    then show ?thesis by (simp only: sum_counts) (simp add: filter_sort)
  qed
  have at: "bucket (sort xs ! (t - 1)) < k \<longleftrightarrow> t - 1 < length (filter (\<lambda>x. bucket x < k) (sort xs))" for k
    using t by (intro nth_sorted_count mono) simp_all
  have "\<not> bucket (sort xs ! (t - 1)) < i" using i(1,3) pre [of i] at [of i] t by simp
  moreover have "bucket (sort xs ! (t - 1)) < Suc i" using i(1,4) pre [of "Suc i"] at [of "Suc i"] t by simp
  ultimately show ?thesis using i(2) by simp
qed

lemma latency_scan:
  assumes "length xs \<le> u64_max" "1 \<le> t" "t \<le> length xs"
  shows "scan_buckets t 0 0 (hg_buckets (fold record_us xs histogram_new)) = latency_bucket (sort xs ! (t - 1))"
proof -
  have "fold record_us xs histogram_new
    = \<lparr>hg_buckets = map (count_bucket latency_bucket xs) [0..<BUCKETS], hg_total = length xs\<rparr>"
    unfolding record_us_def by (rule histogram_counts [OF latency_bucket_less assms(1)])
  then show ?thesis using scan_is_quantile [OF latency_bucket_mono latency_bucket_less assms] by simp
qed

section \<open>Properties\<close>

text \<open>
  The latency percentile covers the true one within a factor of two. For latencies below
  \<open>2^39\<close> microseconds, the bucket found for the \<open>t\<close>-th smallest sample has an upper bound that is
  at least that sample and at most twice it: pressure is never under-reported and never exaggerated
  by more than that.
\<close>

lemma latency_percentile_tight:
  assumes "length xs \<le> u64_max" "1 \<le> t" "t \<le> length xs" "list_all (\<lambda>x. x < 2 ^ 39) xs"
  shows "sort xs ! (t - 1) \<le> bucket_bound (scan_buckets t 0 0 (hg_buckets (fold record_us xs histogram_new)))
    \<and> bucket_bound (scan_buckets t 0 0 (hg_buckets (fold record_us xs histogram_new))) \<le> 2 * sort xs ! (t - 1)"
proof -
  note latency_scan [OF assms(1-3)]
  moreover have "sort xs ! (t - 1) < 2 ^ 39"
  proof -
    have "sort xs ! (t - 1) \<in> set (sort xs)" using assms(2,3) by (intro nth_mem) simp
    then show ?thesis using assms(4) by (simp add: list_all_iff)
  qed
  ultimately show ?thesis using latency_bucket_tight by simp
qed

text \<open>A latency in the overflow bucket is under-reported.\<close>

lemma overflow_under_reports:
  "bucket_bound (scan_buckets 1 0 0 (hg_buckets (record_us (2 ^ 40) histogram_new))) < 2 ^ 40"
proof -
  have "scan_buckets 1 0 0 (hg_buckets (fold record_us [2 ^ 40] histogram_new)) = latency_bucket (2 ^ 40)"
    using latency_scan [of "[2 ^ 40]" 1] by (simp add: u64_max_def)
  moreover have "bucket_bound (latency_bucket (2 ^ 40)) < 2 ^ 40" by code_simp
  ultimately show ?thesis by simp
qed

text \<open>Depth percentiles are exact below the overflow bucket.\<close>

lemma depth_percentile_exact:
  assumes "length xs \<le> u64_max" "1 \<le> t" "t \<le> length xs" "sort xs ! (t - 1) < BUCKETS"
  shows "scan_buckets t 0 0 (hg_buckets (fold record_depth xs histogram_new)) = sort xs ! (t - 1)"
proof -
  have less: "depth_bucket x < BUCKETS" for x by (simp add: depth_bucket_def BUCKETS_def)
  have "fold record_depth xs histogram_new
    = \<lparr>hg_buckets = map (count_bucket depth_bucket xs) [0..<BUCKETS], hg_total = length xs\<rparr>"
    unfolding record_depth_def by (rule histogram_counts [OF less assms(1)])
  then show ?thesis using scan_is_quantile [where bucket = depth_bucket, OF _ less assms(1-3)] assms(4)
    by (simp add: depth_bucket_def BUCKETS_def)
qed

end
