(* ===== verification/Worker_Model.thy ===== *)
theory Worker_Model
  imports Scheduler_Props Lease_Progress Http_Transfer Origin_Registry Job_Metrics Checkpoint_Model
begin

text \<open>
  The tasks of a segmented transfer (\<open>job/segmented.rs\<close>): the shared job, the worker loop with its
  writer lane, and the checkpoint coordinator. Each task is a state machine whose program points are the
  places where the code awaits something or takes the scheduler lock; one definition is the code from one
  such point to the next, and runs without interference. What a task waits for (a response, a frame, a
  write acknowledgement, a timer) is its input.

  A progress cell is read and written as one record (\<open>Lease_Progress\<close>). Admission to the memory ledger
  and the rate limiter appear as an input, granted or refused; their own theories say when it comes.
\<close>

section \<open>The shared job\<close>

type_synonym byte = nat

record 'f segmented_job =
  j_scheduler :: "'f segment_scheduler"
  j_origin_backoff_until :: "instant option"
  j_fatal :: "download_error fatal_state"
  j_cancelled :: bool
  j_paused :: bool
  j_credentials :: shared_credentials
  j_counters :: job_counters
  j_total_size :: u64
  j_validators :: resource_validators
  j_has_sync :: bool
  j_durability :: durability_mode
  j_revision :: nat
  j_save_now :: "nat list"
  j_coordinator_gone :: bool
  j_control :: worker_control
  j_throttle_events :: u64
  j_splits :: u64
  j_segment_requests :: u64
  j_worker_states :: "nat list"
  j_worker_lane_live :: "bool list"
  j_checkpoint_saved :: bool
  j_origin_registry :: origin_registry
  j_origin_key :: "string option"
  j_ready_work_sizing :: bool
  j_ready_work_factor :: u64
  j_applied_ready_divisor :: u64
  j_worker_progress :: "lease_record option list"
  j_output :: "u64 \<Rightarrow> byte option"

definition set_worker_state :: "nat \<Rightarrow> nat \<Rightarrow> 'f segmented_job \<Rightarrow> 'f segmented_job" where
  "set_worker_state i st j = j\<lparr>j_worker_states := (j_worker_states j)[i := st]\<rparr>"

definition set_worker_lane_live :: "nat \<Rightarrow> bool \<Rightarrow> 'f segmented_job \<Rightarrow> 'f segmented_job" where
  "set_worker_lane_live i live j = j\<lparr>j_worker_lane_live := (j_worker_lane_live j)[i := live]\<rparr>"

definition notify_transition :: "'f segmented_job \<Rightarrow> 'f segmented_job" where
  "notify_transition j = j\<lparr>j_revision := j_revision j + 1\<rparr>"

definition install_fatal :: "download_error \<Rightarrow> 'f segmented_job \<Rightarrow> 'f segmented_job" where
  "install_fatal e j = j\<lparr>j_fatal := snd (fatal_install e (j_fatal j))\<rparr>"

definition publish_cell :: "nat \<Rightarrow> lease_record \<Rightarrow> 'f segmented_job \<Rightarrow> 'f segmented_job" where
  "publish_cell i r j = j\<lparr>j_worker_progress := (j_worker_progress j)[i := observe_record r]\<rparr>"

definition clear_worker_cell :: "nat \<Rightarrow> 'f segmented_job \<Rightarrow> 'f segmented_job" where
  "clear_worker_cell i j = publish_cell i idle_record j"

definition count_worker :: "nat \<Rightarrow> (worker_counters \<Rightarrow> worker_counters) \<Rightarrow> 'f segmented_job \<Rightarrow> 'f segmented_job" where
  "count_worker i f j = j\<lparr>j_counters := on_worker i f (j_counters j)\<rparr>"

definition ready_work_divisor_for :: "u64 \<Rightarrow> 'f segmented_job \<Rightarrow> u64" where
  "ready_work_divisor_for desired j =
     (if \<not> j_ready_work_sizing j then 0 else sat_mul (max (j_ready_work_factor j) 1) (max desired 1))"

fun credit_deltas :: "nat \<Rightarrow> u64 list \<Rightarrow> job_counters \<Rightarrow> job_counters" where
  "credit_deltas i [] cs = cs"
| "credit_deltas i (delta # deltas) cs =
     credit_deltas (Suc i) deltas (if 0 < delta then on_worker i (add_completed delta) cs else cs)"

definition reconcile_and_credit :: "'f segmented_job \<Rightarrow> 'f segmented_job" where
  "reconcile_and_credit j =
     (let (deltas, s) = absorb_worker_progress (j_worker_progress j) (j_scheduler j)
      in j\<lparr>j_scheduler := s, j_counters := credit_deltas 0 deltas (j_counters j)\<rparr>)"

text \<open>The operator's and the controller's writes of the worker count.\<close>

definition job_set_desired :: "u64 \<Rightarrow> 'f segmented_job \<Rightarrow> 'f segmented_job" where
  "job_set_desired n j = notify_transition (j\<lparr>j_control := snd (set_desired_workers n (j_control j))\<rparr>)"

definition job_adjust_desired :: "u64 \<Rightarrow> 'f segmented_job \<Rightarrow> 'f segmented_job" where
  "job_adjust_desired n j = notify_transition (j\<lparr>j_control := adjust_desired_workers n (j_control j)\<rparr>)"

section \<open>A worker\<close>

datatype worker_error =
    Retryable download_error "duration option" u64
  | Fatal download_error
  | ChangedGeneration download_error

definition worker_error_from_failure :: "'f retry_policy \<Rightarrow> download_error \<Rightarrow> duration option \<Rightarrow> u64 \<Rightarrow> worker_error" where
  "worker_error_from_failure p e retry_after wasted =
     (if error_category_of e = CatResourceChanged then ChangedGeneration e
      else if retryable p e then Retryable e retry_after wasted
      else Fatal e)"

text \<open>The local variables of \<open>consume_legacy_body\<close>.\<close>

record body_read =
  br_lease :: segment_lease
  br_start :: u64
  br_end :: u64
  br_body :: http_body
  br_offset :: u64
  br_effective_end :: u64

datatype worker_pc =
    Spawned | CycleTop | AtAcquire | AtIdle | AtSplit | Dormant | Parked
  | AtGate segment_lease | GateSleep segment_lease
  | AtAdmission segment_lease admission
  | AtRequest segment_lease u64 bool
  | AtBodyStart segment_lease u64 u64 http_body
  | AtBodyTop body_read | AtBody body_read
  | AtReserve body_read "byte list" bool | AtRate body_read "byte list" bool
  | AtRetag body_read "byte list" bool | AtWrite body_read "byte list" bool
  | AtPauseSend body_read | AtPauseAck body_read | AtPauseSleep body_read
  | AtReconcile body_read | AtReport body_read
  | AtSettleOk segment_lease | AtComplete segment_lease
  | AtSettleErr segment_lease worker_error | AtFail segment_lease worker_error
  | AtDecide segment_lease download_error "duration option"
  | AtBackoff | Leaving | Exited

record worker =
  w_pc :: worker_pc
  w_attempt :: u32
  w_seen :: nat
  w_lane :: bool
  w_permit :: "address option option"
  w_ack :: "(download_error + unit) option"

text \<open>
  Inputs. \<open>Run\<close> lets a task go on; it carries the clock (nanoseconds, and the milliseconds of the origin
  registry) and the result of a lane shutdown. \<open>Woken\<close> and \<open>CancelSeen\<close> are the two ends of a parked
  \<open>select!\<close>; \<open>Elapsed\<close> is a timer.
\<close>

datatype worker_input =
    Run instant u64 "download_error option"
  | Woken
  | CancelSeen
  | Elapsed
  | Head u16 "(string \<times> string) list" string
  | SendFailed download_error
  | Frame wire_frame
  | Granted
  | Oversize string u64 u64
  | Written
  | WriteFailed nat download_error

definition w_goto :: "worker_pc \<Rightarrow> worker \<Rightarrow> worker" where
  "w_goto pc w = w\<lparr>w_pc := pc\<rparr>"

text \<open>
  The configuration a worker holds: the URL, the retry classifier, and the arithmetic of both.
\<close>

record 'f worker_env =
  we_F :: "'f f64_ops"
  we_B :: "'f backoff_env"
  we_retry :: "'f retry_policy"
  we_url :: string

section \<open>Acquiring work\<close>

text \<open>The start of \<open>worker_loop\<close> and \<open>worker_cycle\<close>: the gauge, and the subscription to the revision.\<close>

definition step_spawned :: "nat \<Rightarrow> worker_input \<Rightarrow> 'f segmented_job \<Rightarrow> worker \<Rightarrow> ('f segmented_job \<times> worker) option" where
  "step_spawned i inp j w =
     (case inp of
        Run now ms _ \<Rightarrow> Some (set_worker_state i 1 j, w_goto CycleTop (w\<lparr>w_attempt := 0, w_seen := j_revision j\<rparr>))
      | _ \<Rightarrow> None)"

definition step_cycle_top :: "nat \<Rightarrow> worker_input \<Rightarrow> 'f segmented_job \<Rightarrow> worker \<Rightarrow> ('f segmented_job \<times> worker) option" where
  "step_cycle_top i inp j w =
     (case inp of
        Run now ms lane_error \<Rightarrow>
          let w = w\<lparr>w_seen := j_revision j\<rparr>
          in if j_cancelled j \<or> is_fatal (j_fatal j) \<or> is_finished (j_scheduler j) then Some (j, w_goto Leaving w)
             else if wc_desired_workers (j_control j) \<le> min i u32_max then
               let j = (if w_lane w then set_worker_lane_live i False j else j);
                   j = (case lane_error of Some e \<Rightarrow> if w_lane w then install_fatal e j else j | None \<Rightarrow> j)
               in Some (j, w_goto Dormant (w\<lparr>w_lane := False\<rparr>))
             else Some (j, w_goto AtAcquire w)
      | _ \<Rightarrow> None)"

definition activate :: "nat \<Rightarrow> segment_lease \<Rightarrow> 'f segmented_job \<Rightarrow> worker \<Rightarrow> 'f segmented_job \<times> worker" where
  "activate i lease j w =
     (let j = set_worker_state i 2 j;
          j = (if w_lane w then j else set_worker_lane_live i True j)
      in (j, w_goto (AtGate lease) (w\<lparr>w_lane := True\<rparr>)))"

definition step_acquire :: "'f worker_env \<Rightarrow> nat \<Rightarrow> worker_input \<Rightarrow> 'f segmented_job \<Rightarrow> worker \<Rightarrow> ('f segmented_job \<times> worker) option" where
  "step_acquire E i inp j w =
     (case inp of
        Run now ms _ \<Rightarrow>
          let want = ready_work_divisor_for (wc_desired_workers (j_control j)) j;
              s = (if j_applied_ready_divisor j \<noteq> want then set_ready_work_divisor want (j_scheduler j) else j_scheduler j);
              (lease, s) = sched_acquire (we_F E) now s;
              j = j\<lparr>j_applied_ready_divisor := want, j_scheduler := s\<rparr>
          in Some (case lease of Some l \<Rightarrow> activate i l j w | None \<Rightarrow> (j, w_goto AtIdle w))
      | _ \<Rightarrow> None)"

definition step_idle :: "worker_input \<Rightarrow> 'f segmented_job \<Rightarrow> worker \<Rightarrow> ('f segmented_job \<times> worker) option" where
  "step_idle inp j w =
     (case inp of
        Run now ms _ \<Rightarrow> Some (j, w_goto (if has_active (j_scheduler j) then AtSplit else Leaving) w)
      | _ \<Rightarrow> None)"

definition step_split :: "nat \<Rightarrow> worker_input \<Rightarrow> 'f segmented_job \<Rightarrow> worker \<Rightarrow> ('f segmented_job \<times> worker) option" where
  "step_split i inp j w =
     (case inp of
        Run now ms _ \<Rightarrow>
          let threshold = sp_split_threshold (ss_policy (j_scheduler j));
              (split, s) =
                (case largest_splittable threshold (j_scheduler j) of
                   Some b \<Rightarrow> split_tail now (sl_id b) (sl_generation b) threshold
                               (cell_received_through (j_worker_progress j) (sl_id b)) (j_scheduler j)
                 | None \<Rightarrow> (None, j_scheduler j))
          in Some (case split of
                     Some tail \<Rightarrow> activate i tail
                       (notify_transition (j\<lparr>j_scheduler := s, j_splits := u64_add (j_splits j) 1\<rparr>)) w
                   | None \<Rightarrow> (j\<lparr>j_scheduler := s\<rparr>, w_goto Parked w))
      | _ \<Rightarrow> None)"

definition step_parked :: "worker_input \<Rightarrow> 'f segmented_job \<Rightarrow> worker \<Rightarrow> ('f segmented_job \<times> worker) option" where
  "step_parked inp j w =
     (case inp of
        Woken \<Rightarrow> if w_seen w \<noteq> j_revision j then Some (j, w_goto CycleTop w) else None
      | CancelSeen \<Rightarrow> if j_cancelled j then Some (j, w_goto Leaving w) else None
      | _ \<Rightarrow> None)"

section \<open>One request\<close>

text \<open>
  \<open>transfer_lease\<close> returns an error: the origin permit is dropped, and the worker settles the lease.
\<close>

definition return_error :: "segment_lease \<Rightarrow> worker_error \<Rightarrow> 'f segmented_job \<Rightarrow> worker \<Rightarrow> 'f segmented_job \<times> worker" where
  "return_error lease e j w =
     (let j = (case w_permit w of Some p \<Rightarrow> j\<lparr>j_origin_registry := drop_permit p (j_origin_registry j)\<rparr> | None \<Rightarrow> j)
      in (j, w_goto (AtSettleErr lease e) (w\<lparr>w_permit := None\<rparr>)))"

definition issue_request :: "nat \<Rightarrow> segment_lease \<Rightarrow> 'f segmented_job \<Rightarrow> worker \<Rightarrow> 'f segmented_job \<times> worker" where
  "issue_request i lease j w =
     (let start_from = (case j_worker_progress j ! i of
            Some r \<Rightarrow> if pr_lease_id r = sl_id lease then max (pr_written_through r) (sl_next_offset lease)
                      else sl_next_offset lease
          | None \<Rightarrow> sl_next_offset lease)
      in (j\<lparr>j_segment_requests := u64_add (j_segment_requests j) 1\<rparr>, w_goto (AtRequest lease start_from False) w))"

definition step_gate :: "nat \<Rightarrow> segment_lease \<Rightarrow> worker_input \<Rightarrow> 'f segmented_job \<Rightarrow> worker \<Rightarrow> ('f segmented_job \<times> worker) option" where
  "step_gate i lease inp j w =
     (case inp of
        Run now ms _ \<Rightarrow>
          if (case j_origin_backoff_until j of Some until \<Rightarrow> 0 < until - now | None \<Rightarrow> False)
          then Some (j, w_goto (GateSleep lease) w)
          else (case j_origin_key j of
                  None \<Rightarrow> Some (issue_request i lease j w)
                | Some key \<Rightarrow>
                    let (a, r) = registry_entry ms key (j_origin_registry j)
                    in Some (j\<lparr>j_origin_registry := r\<rparr>, w_goto (AtAdmission lease (AtDeadline key a)) w))
      | _ \<Rightarrow> None)"

definition step_gate_sleep :: "segment_lease \<Rightarrow> worker_input \<Rightarrow> 'f segmented_job \<Rightarrow> worker \<Rightarrow> ('f segmented_job \<times> worker) option" where
  "step_gate_sleep lease inp j w =
     (case inp of
        Elapsed \<Rightarrow> Some (j, w_goto (AtGate lease) w)
      | CancelSeen \<Rightarrow> if j_cancelled j then Some (return_error lease (Fatal Cancelled) j w) else None
      | _ \<Rightarrow> None)"

definition step_admission :: "nat \<Rightarrow> segment_lease \<Rightarrow> admission \<Rightarrow> worker_input \<Rightarrow> 'f segmented_job \<Rightarrow> worker
    \<Rightarrow> ('f segmented_job \<times> worker) option" where
  "step_admission i lease adm inp j w =
     (case inp of
        Run now ms _ \<Rightarrow>
          (case adm of
             AtDeadline key a \<Rightarrow>
               (case check_deadline ms key a (j_origin_registry j) of
                  Admitted _ p \<Rightarrow> Some (issue_request i lease j (w\<lparr>w_permit := Some p\<rparr>))
                | adm' \<Rightarrow> Some (j, w_goto (AtAdmission lease adm') w))
           | ForSlot key a \<Rightarrow>
               (case take_slot ms key a (j_origin_registry j) of
                  Some (Admitted _ p, r) \<Rightarrow>
                    Some (issue_request i lease (j\<lparr>j_origin_registry := r\<rparr>) (w\<lparr>w_permit := Some p\<rparr>))
                | _ \<Rightarrow> None)
           | _ \<Rightarrow> None)
      | CancelSeen \<Rightarrow> if j_cancelled j then Some (return_error lease (Fatal Cancelled) j w) else None
      | _ \<Rightarrow> None)"

definition lease_intent :: "segment_lease \<Rightarrow> u64 \<Rightarrow> 'f segmented_job \<Rightarrow> transfer_intent" where
  "lease_intent lease start_from j =
     RangeOf \<lparr>ri_range = (start_from, sl_end lease), ri_established_total = Some (j_total_size j),
              ri_expected_validators = Some (j_validators j), ri_full_response = InvalidRange\<rparr>"

definition request_failed :: "'f worker_env \<Rightarrow> segment_lease \<Rightarrow> u64 \<Rightarrow> bool \<Rightarrow> http_failure \<Rightarrow> 'f segmented_job \<Rightarrow> worker
    \<Rightarrow> 'f segmented_job \<times> worker" where
  "request_failed E lease start_from provided_here failure j w =
     (case hf_challenge failure of
        Some ch \<Rightarrow>
          if provided_here then return_error lease (Fatal AuthenticationRequired) j w
          else
            let (result, c) = provide ch (j_credentials j); j = j\<lparr>j_credentials := c\<rparr>
            in (case result of
                  Inr True \<Rightarrow> (j, w_goto (AtRequest lease start_from True) w)
                | Inr False \<Rightarrow> return_error lease (Fatal AuthenticationRequired) j w
                | Inl e \<Rightarrow> return_error lease (Fatal e) j w)
      | None \<Rightarrow>
          return_error lease (worker_error_from_failure (we_retry E) (hf_error failure) (hf_retry_after failure) 0) j w)"

definition step_request :: "'f worker_env \<Rightarrow> segment_lease \<Rightarrow> u64 \<Rightarrow> bool \<Rightarrow> worker_input \<Rightarrow> 'f segmented_job \<Rightarrow> worker
    \<Rightarrow> ('f segmented_job \<times> worker) option" where
  "step_request E lease start_from provided_here inp j w =
     (case inp of
        Head status headers http_version \<Rightarrow>
          Some (case accept_head (we_url E) (lease_intent lease start_from j) (from_head status headers http_version) of
                  Inl failure \<Rightarrow> request_failed E lease start_from provided_here failure j w
                | Inr a \<Rightarrow> (j, w_goto (AtBodyStart lease (ar_start a) (ar_end a) (body_for (lease_intent lease start_from j))) w))
      | SendFailed e \<Rightarrow> Some (request_failed E lease start_from provided_here (failure_from_error e) j w)
      | _ \<Rightarrow> None)"

section \<open>Consuming the body\<close>

definition refresh_end :: "segment_lease \<Rightarrow> 'f segmented_job \<Rightarrow> u64 \<Rightarrow> u64" where
  "refresh_end lease j effective_end =
     (case sched_lease_end (sl_id lease) (sl_generation lease) (j_scheduler j) of
        Some end \<Rightarrow> min effective_end end
      | None \<Rightarrow> effective_end)"

definition step_body_start :: "segment_lease \<Rightarrow> u64 \<Rightarrow> u64 \<Rightarrow> http_body \<Rightarrow> worker_input \<Rightarrow> 'f segmented_job \<Rightarrow> worker
    \<Rightarrow> ('f segmented_job \<times> worker) option" where
  "step_body_start lease validated_start validated_end body inp j w =
     (case inp of
        Run now ms _ \<Rightarrow>
          Some (j, w_goto (AtBodyTop \<lparr>br_lease = lease, br_start = validated_start, br_end = validated_end, br_body = body,
                           br_offset = 0, br_effective_end = refresh_end lease j validated_end\<rparr>) w)
      | _ \<Rightarrow> None)"

definition step_body_top :: "body_read \<Rightarrow> worker_input \<Rightarrow> 'f segmented_job \<Rightarrow> worker \<Rightarrow> ('f segmented_job \<times> worker) option" where
  "step_body_top b inp j w =
     (case inp of
        Run now ms _ \<Rightarrow>
          let w = w\<lparr>w_seen := j_revision j\<rparr>
          in if j_cancelled j \<or> is_fatal (j_fatal j) then Some (return_error (br_lease b) (Fatal Cancelled) j w)
             else Some (j, w_goto (AtBody b) w)
      | _ \<Rightarrow> None)"

text \<open>How much of a chunk lies up to the inclusive end of the lease.\<close>

definition owned_len :: "u64 \<Rightarrow> u64 \<Rightarrow> u64 \<Rightarrow> u64" where
  "owned_len abs_offset effective_end len =
     (if effective_end < abs_offset then 0 else min (u64_sub (u64_add effective_end 1) abs_offset) len)"

definition take_chunk :: "nat \<Rightarrow> body_read \<Rightarrow> byte list \<Rightarrow> 'f segmented_job \<Rightarrow> worker \<Rightarrow> 'f segmented_job \<times> worker" where
  "take_chunk i b data j w =
     (let abs_offset = u64_add (br_start b) (br_offset b);
          owned = owned_len abs_offset (br_effective_end b) (length data);
          wasted = length data - owned;
          j = (if 0 < wasted then count_worker i (add_wasted wasted) j else j)
      in if owned = 0 then (j, w_goto (AtReconcile b) w)
         else (count_worker i (add_network (length data)) j,
               w_goto (AtReserve b (take owned data) (owned < length data)) w))"

definition body_fault :: "'f worker_env \<Rightarrow> nat \<Rightarrow> body_read \<Rightarrow> download_error \<Rightarrow> 'f segmented_job \<Rightarrow> worker
    \<Rightarrow> 'f segmented_job \<times> worker" where
  "body_fault E i b e j w =
     (let lease = br_lease b;
          written_frontier = max (case j_worker_progress j ! i of
              Some r \<Rightarrow> if pr_lease_id r = sl_id lease then pr_written_through r else sl_next_offset lease
            | None \<Rightarrow> sl_next_offset lease) (sl_next_offset lease);
          received_frontier = u64_add (br_start b) (br_offset b);
          wasted = sat_sub received_frontier written_frontier
      in return_error lease (worker_error_from_failure (we_retry E) e None wasted) j w)"

definition step_body :: "'f worker_env \<Rightarrow> nat \<Rightarrow> body_read \<Rightarrow> worker_input \<Rightarrow> 'f segmented_job \<Rightarrow> worker
    \<Rightarrow> ('f segmented_job \<times> worker) option" where
  "step_body E i b inp j w =
     (case inp of
        Frame frame \<Rightarrow>
          (case poll_step (j_cancelled j) (j_paused j) frame (br_body b) of
             (event, body) \<Rightarrow>
               let b = b\<lparr>br_body := body\<rparr>
               in Some (case event of
                    Inr (BodyData data) \<Rightarrow> take_chunk i b data j w
                  | Inr BodyEnd \<Rightarrow> (j, w_goto (AtReconcile b) w)
                  | Inr BodyPaused \<Rightarrow> (j, w_goto (AtPauseSend b) w)
                  | Inl e \<Rightarrow> body_fault E i b e j w))
      | Woken \<Rightarrow>
          if w_seen w = j_revision j then None
          else if is_fatal (j_fatal j) then Some (return_error (br_lease b) (Fatal Cancelled) j w)
          else Some (j, w_goto (AtBodyTop (b\<lparr>br_effective_end := refresh_end (br_lease b) j (br_effective_end b)\<rparr>)) w)
      | _ \<Rightarrow> None)"

text \<open>Memory admission, rate tokens and the retag to the writer component; then the write.\<close>

definition step_reserve :: "body_read \<Rightarrow> byte list \<Rightarrow> bool \<Rightarrow> worker_input \<Rightarrow> 'f segmented_job \<Rightarrow> worker
    \<Rightarrow> ('f segmented_job \<times> worker) option" where
  "step_reserve b owned truncated inp j w =
     (case inp of
        Granted \<Rightarrow> Some (j, w_goto (AtRate b owned truncated) w)
      | Oversize component requested cap \<Rightarrow>
          Some (return_error (br_lease b) (Fatal (MemoryCapExceeded component requested cap)) j w)
      | _ \<Rightarrow> None)"

definition step_rate :: "body_read \<Rightarrow> byte list \<Rightarrow> bool \<Rightarrow> worker_input \<Rightarrow> 'f segmented_job \<Rightarrow> worker
    \<Rightarrow> ('f segmented_job \<times> worker) option" where
  "step_rate b owned truncated inp j w =
     (case inp of
        Elapsed \<Rightarrow> Some (j, w_goto (AtRetag b owned truncated) w)
      | CancelSeen \<Rightarrow> if j_cancelled j then Some (j, w_goto (AtRetag b owned truncated) w) else None
      | _ \<Rightarrow> None)"

definition step_retag :: "body_read \<Rightarrow> byte list \<Rightarrow> bool \<Rightarrow> worker_input \<Rightarrow> 'f segmented_job \<Rightarrow> worker
    \<Rightarrow> ('f segmented_job \<times> worker) option" where
  "step_retag b owned truncated inp j w =
     (case inp of
        Granted \<Rightarrow> Some (j, w_goto (AtWrite b owned truncated) w)
      | Oversize component requested cap \<Rightarrow>
          Some (return_error (br_lease b) (Fatal (MemoryCapExceeded component requested cap)) j w)
      | _ \<Rightarrow> None)"

definition write_at :: "u64 \<Rightarrow> byte list \<Rightarrow> (u64 \<Rightarrow> byte option) \<Rightarrow> u64 \<Rightarrow> byte option" where
  "write_at offset data out = (\<lambda>p. if offset \<le> p \<and> p < offset + length data then Some (data ! (p - offset)) else out p)"

text \<open>A write that fails may have written a prefix of its bytes.\<close>

definition step_write :: "nat \<Rightarrow> body_read \<Rightarrow> byte list \<Rightarrow> bool \<Rightarrow> worker_input \<Rightarrow> 'f segmented_job \<Rightarrow> worker
    \<Rightarrow> ('f segmented_job \<times> worker) option" where
  "step_write i b owned truncated inp j w =
     (let abs_offset = u64_add (br_start b) (br_offset b); lease = br_lease b
      in case inp of
        Written \<Rightarrow>
          let b = b\<lparr>br_offset := u64_add (br_offset b) (length owned)\<rparr>;
              durable_through = u64_add (br_start b) (br_offset b);
              j = j\<lparr>j_output := write_at abs_offset owned (j_output j)\<rparr>;
              j = publish_cell i \<lparr>pr_lease_id = sl_id lease, pr_generation = sl_generation lease,
                    pr_lease_start = sl_start lease, pr_written_through = durable_through,
                    pr_received_through = durable_through\<rparr> j
          in Some (j, w_goto (if truncated then AtReconcile b else AtBodyTop b) w)
      | WriteFailed n e \<Rightarrow>
          Some (return_error lease (Fatal e) (j\<lparr>j_output := write_at abs_offset (take n owned) (j_output j)\<rparr>) w)
      | _ \<Rightarrow> None)"

text \<open>A pause at a chunk boundary waits for the coordinator's save.\<close>

definition step_pause_send :: "nat \<Rightarrow> body_read \<Rightarrow> worker_input \<Rightarrow> 'f segmented_job \<Rightarrow> worker
    \<Rightarrow> ('f segmented_job \<times> worker) option" where
  "step_pause_send i b inp j w =
     (case inp of
        Run now ms _ \<Rightarrow>
          if j_coordinator_gone j
          then Some (return_error (br_lease b)
                 (Fatal (Protocol ''checkpoint coordinator stopped before the pause save'')) j w)
          else Some (j\<lparr>j_save_now := j_save_now j @ [i]\<rparr>, w_goto (AtPauseAck b) (w\<lparr>w_ack := None\<rparr>))
      | _ \<Rightarrow> None)"

definition step_pause_ack :: "body_read \<Rightarrow> worker_input \<Rightarrow> 'f segmented_job \<Rightarrow> worker
    \<Rightarrow> ('f segmented_job \<times> worker) option" where
  "step_pause_ack b inp j w =
     (case inp of
        Run now ms _ \<Rightarrow>
          (case w_ack w of
             Some (Inr ()) \<Rightarrow> Some (j, w_goto (AtPauseSleep b) w)
           | Some (Inl e) \<Rightarrow> Some (return_error (br_lease b) (Fatal e) j w)
           | None \<Rightarrow>
               if j_coordinator_gone j
               then Some (return_error (br_lease b)
                      (Fatal (Protocol ''checkpoint coordinator dropped the pause save'')) j w)
               else None)
      | _ \<Rightarrow> None)"

definition step_pause_sleep :: "body_read \<Rightarrow> worker_input \<Rightarrow> 'f segmented_job \<Rightarrow> worker
    \<Rightarrow> ('f segmented_job \<times> worker) option" where
  "step_pause_sleep b inp j w =
     (case inp of
        Run now ms _ \<Rightarrow>
          if j_paused j \<and> \<not> j_cancelled j then Some (j, w)
          else if j_cancelled j then Some (return_error (br_lease b) (Fatal Cancelled) j w)
          else Some (j, w_goto (AtBodyTop b) w)
      | _ \<Rightarrow> None)"

section \<open>Settling a lease\<close>

definition step_reconcile :: "body_read \<Rightarrow> worker_input \<Rightarrow> 'f segmented_job \<Rightarrow> worker \<Rightarrow> ('f segmented_job \<times> worker) option" where
  "step_reconcile b inp j w =
     (case inp of Run now ms _ \<Rightarrow> Some (reconcile_and_credit j, w_goto (AtReport b) w) | _ \<Rightarrow> None)"

definition step_report :: "nat \<Rightarrow> body_read \<Rightarrow> worker_input \<Rightarrow> 'f segmented_job \<Rightarrow> worker \<Rightarrow> ('f segmented_job \<times> worker) option" where
  "step_report i b inp j w =
     (case inp of
        Run now ms _ \<Rightarrow>
          let lease = br_lease b;
              accepted_len = u64_add (u64_sub (br_end b) (br_start b)) 1;
              s = snd (report_progress (sl_id lease) (sl_generation lease) (u64_add (br_start b) accepted_len) (j_scheduler j));
              j = clear_worker_cell i (j\<lparr>j_scheduler := s\<rparr>);
              r = (case j_origin_key j of Some key \<Rightarrow> report_success ms key (j_origin_registry j) | None \<Rightarrow> j_origin_registry j);
              r = (case w_permit w of Some p \<Rightarrow> drop_permit p r | None \<Rightarrow> r)
          in Some (j\<lparr>j_origin_registry := r\<rparr>, w_goto (AtSettleOk lease) (w\<lparr>w_permit := None\<rparr>))
      | _ \<Rightarrow> None)"

definition step_settle_ok :: "segment_lease \<Rightarrow> worker_input \<Rightarrow> 'f segmented_job \<Rightarrow> worker \<Rightarrow> ('f segmented_job \<times> worker) option" where
  "step_settle_ok lease inp j w =
     (case inp of
        Run now ms _ \<Rightarrow> Some (reconcile_and_credit j, w_goto (AtComplete lease) (w\<lparr>w_attempt := 0\<rparr>))
      | _ \<Rightarrow> None)"

definition step_complete :: "'f worker_env \<Rightarrow> nat \<Rightarrow> segment_lease \<Rightarrow> worker_input \<Rightarrow> 'f segmented_job \<Rightarrow> worker
    \<Rightarrow> ('f segmented_job \<times> worker) option" where
  "step_complete E i lease inp j w =
     (case inp of
        Run now ms _ \<Rightarrow>
          let s = snd (sched_complete (we_F E) now (sl_id lease) (sl_generation lease) (j_scheduler j));
              j = clear_worker_cell i (j\<lparr>j_scheduler := s\<rparr>)
          in Some (notify_transition (set_worker_state i 1 j), w_goto CycleTop w)
      | _ \<Rightarrow> None)"

definition step_settle_err :: "nat \<Rightarrow> segment_lease \<Rightarrow> worker_error \<Rightarrow> worker_input \<Rightarrow> 'f segmented_job \<Rightarrow> worker
    \<Rightarrow> ('f segmented_job \<times> worker) option" where
  "step_settle_err i lease e inp j w =
     (case inp of
        Run now ms _ \<Rightarrow>
          (case e of
             Retryable _ _ wasted \<Rightarrow>
               let j = (if 0 < wasted then count_worker i (add_wasted wasted) j else j)
               in Some (reconcile_and_credit j, w_goto (AtFail lease e) w)
           | Fatal _ \<Rightarrow> Some (reconcile_and_credit j, w_goto (AtFail lease e) w)
           | ChangedGeneration err \<Rightarrow>
               let s = snd (bump_generation (j_scheduler j));
                   j = notify_transition (j\<lparr>j_scheduler := s\<rparr>)
               in Some (notify_transition (install_fatal err j), w_goto Leaving w))
      | _ \<Rightarrow> None)"

definition step_fail :: "'f worker_env \<Rightarrow> nat \<Rightarrow> segment_lease \<Rightarrow> worker_error \<Rightarrow> worker_input \<Rightarrow> 'f segmented_job \<Rightarrow> worker
    \<Rightarrow> ('f segmented_job \<times> worker) option" where
  "step_fail E i lease e inp j w =
     (case inp of
        Run now ms _ \<Rightarrow>
          let s = snd (sched_fail (we_F E) now (sl_id lease) (sl_generation lease) (j_scheduler j));
              j = clear_worker_cell i (notify_transition (j\<lparr>j_scheduler := s\<rparr>))
          in (case e of
                Retryable err retry_after _ \<Rightarrow>
                  Some (count_worker i (add_retries 1) (set_worker_state i 1 j), w_goto (AtDecide lease err retry_after) w)
              | Fatal err \<Rightarrow> Some (notify_transition (install_fatal err j), w_goto Leaving w)
              | ChangedGeneration err \<Rightarrow> None)
      | _ \<Rightarrow> None)"

definition is_throttle :: "download_error \<Rightarrow> bool" where
  "is_throttle e \<longleftrightarrow> error_category_of e = CatServer \<or> error_category_of e = CatRateLimited"

definition report_origin_throttle :: "'f worker_env \<Rightarrow> instant \<Rightarrow> u64 \<Rightarrow> duration option \<Rightarrow> u32 \<Rightarrow> 'f segmented_job
    \<Rightarrow> 'f segmented_job" where
  "report_origin_throttle E now ms retry_after attempt j =
     (let capped = honor_retry_after (we_retry E) retry_after;
          fallback = backoff_delay (we_F E) (we_B E) (we_retry E) attempt;
          earliest = (case capped of Some d \<Rightarrow> d | None \<Rightarrow> fallback);
          until = now + earliest
      in j\<lparr>j_throttle_events := u64_add (j_throttle_events j) 1,
           j_origin_backoff_until := (case j_origin_backoff_until j of
               Some g \<Rightarrow> if g < until then Some until else Some g
             | None \<Rightarrow> Some until),
           j_origin_registry := (case j_origin_key j of
               Some key \<Rightarrow> report_throttle ms key capped fallback (j_origin_registry j)
             | None \<Rightarrow> j_origin_registry j)\<rparr>)"

definition step_decide :: "'f worker_env \<Rightarrow> segment_lease \<Rightarrow> download_error \<Rightarrow> duration option \<Rightarrow> worker_input \<Rightarrow> 'f segmented_job \<Rightarrow> worker
    \<Rightarrow> ('f segmented_job \<times> worker) option" where
  "step_decide E lease e retry_after inp j w =
     (case inp of
        Run now ms _ \<Rightarrow>
          let j = (if is_throttle e then report_origin_throttle E now ms retry_after (w_attempt w) j else j)
          in (case decide (we_F E) (we_B E) (we_retry E) e (w_attempt w) retry_after of
                Retry attempt delay \<Rightarrow> Some (j, w_goto AtBackoff (w\<lparr>w_attempt := attempt\<rparr>))
              | GiveUp \<Rightarrow> Some (install_fatal (RetryExhausted e) j, w_goto Leaving w))
      | _ \<Rightarrow> None)"

definition step_backoff :: "worker_input \<Rightarrow> 'f segmented_job \<Rightarrow> worker \<Rightarrow> ('f segmented_job \<times> worker) option" where
  "step_backoff inp j w =
     (case inp of
        Elapsed \<Rightarrow> Some (j, w_goto CycleTop w)
      | CancelSeen \<Rightarrow> if j_cancelled j then Some (j, w_goto CycleTop w) else None
      | _ \<Rightarrow> None)"

definition step_leaving :: "nat \<Rightarrow> worker_input \<Rightarrow> 'f segmented_job \<Rightarrow> worker \<Rightarrow> ('f segmented_job \<times> worker) option" where
  "step_leaving i inp j w =
     (case inp of
        Run now ms lane_error \<Rightarrow>
          let j = (if w_lane w then set_worker_lane_live i False j else j);
              j = (case lane_error of Some e \<Rightarrow> if w_lane w then install_fatal e j else j | None \<Rightarrow> j)
          in Some (j, w_goto Exited (w\<lparr>w_lane := False\<rparr>))
      | _ \<Rightarrow> None)"

definition worker_step :: "'f worker_env \<Rightarrow> nat \<Rightarrow> worker_input \<Rightarrow> 'f segmented_job \<Rightarrow> worker
    \<Rightarrow> ('f segmented_job \<times> worker) option" where
  "worker_step E i inp j w =
     (case w_pc w of
        Spawned \<Rightarrow> step_spawned i inp j w
      | CycleTop \<Rightarrow> step_cycle_top i inp j w
      | AtAcquire \<Rightarrow> step_acquire E i inp j w
      | AtIdle \<Rightarrow> step_idle inp j w
      | AtSplit \<Rightarrow> step_split i inp j w
      | Dormant \<Rightarrow> step_parked inp j w
      | Parked \<Rightarrow> step_parked inp j w
      | AtGate lease \<Rightarrow> step_gate i lease inp j w
      | GateSleep lease \<Rightarrow> step_gate_sleep lease inp j w
      | AtAdmission lease adm \<Rightarrow> step_admission i lease adm inp j w
      | AtRequest lease start_from provided \<Rightarrow> step_request E lease start_from provided inp j w
      | AtBodyStart lease vs ve body \<Rightarrow> step_body_start lease vs ve body inp j w
      | AtBodyTop b \<Rightarrow> step_body_top b inp j w
      | AtBody b \<Rightarrow> step_body E i b inp j w
      | AtReserve b owned truncated \<Rightarrow> step_reserve b owned truncated inp j w
      | AtRate b owned truncated \<Rightarrow> step_rate b owned truncated inp j w
      | AtRetag b owned truncated \<Rightarrow> step_retag b owned truncated inp j w
      | AtWrite b owned truncated \<Rightarrow> step_write i b owned truncated inp j w
      | AtPauseSend b \<Rightarrow> step_pause_send i b inp j w
      | AtPauseAck b \<Rightarrow> step_pause_ack b inp j w
      | AtPauseSleep b \<Rightarrow> step_pause_sleep b inp j w
      | AtReconcile b \<Rightarrow> step_reconcile b inp j w
      | AtReport b \<Rightarrow> step_report i b inp j w
      | AtSettleOk lease \<Rightarrow> step_settle_ok lease inp j w
      | AtComplete lease \<Rightarrow> step_complete E i lease inp j w
      | AtSettleErr lease e \<Rightarrow> step_settle_err i lease e inp j w
      | AtFail lease e \<Rightarrow> step_fail E i lease e inp j w
      | AtDecide lease e retry_after \<Rightarrow> step_decide E lease e retry_after inp j w
      | AtBackoff \<Rightarrow> step_backoff inp j w
      | Leaving \<Rightarrow> step_leaving i inp j w
      | Exited \<Rightarrow> None)"

end
