(* ===== verification/Transfer_Run.thy ===== *)
theory Transfer_Run
  imports Worker_Model
begin

text \<open>
  A whole segmented transfer (\<open>run_segmented\<close> of \<open>job/segmented.rs\<close>): the checkpoint coordinator, the
  workers it serves, the initial state, the interleavings of their steps, and the outcome computed once
  every worker has exited.
\<close>

section \<open>The checkpoint coordinator\<close>

record saved_revision =
  sr_ranges :: "byte_range list"
  sr_generation :: u64
  sr_validators :: resource_validators

datatype save_reply = ReplyInitial | ReplyTick | ReplyTo nat

datatype coordinator_pc =
    CoIdle
  | CoSnapshot save_reply
  | CoFence save_reply saved_revision
  | CoSync save_reply saved_revision
  | CoPrepare save_reply saved_revision
  | CoReserve save_reply saved_revision checkpoint
  | CoStore save_reply saved_revision checkpoint
  | CoStopped

record coordinator =
  co_pc :: coordinator_pc
  co_last_saved :: "saved_revision option"

text \<open>
  \<open>Prepare\<close> carries the wall clock and the file at the temporary path, \<open>Stored\<close> is an acknowledged
  \<open>save_atomic\<close>, \<open>StoreFailed\<close> its refusal.
\<close>

datatype coordinator_input =
    Tick
  | Receive
  | Proceed
  | SyncDone
  | SyncFailed download_error
  | Prepare u64 "temp_file option"
  | SaveGranted
  | SaveOversize u64 u64
  | Stored
  | StoreFailed string

record 'f transfer_run =
  tr_job :: "'f segmented_job"
  tr_workers :: "worker list"
  tr_coordinator :: coordinator
  tr_sidecar :: "checkpoint option"

text \<open>The end of \<open>attempt_coordinator_save\<close>, and what the loop does with its result.\<close>

definition finish_save :: "save_reply \<Rightarrow> download_error + unit \<Rightarrow> 'f transfer_run \<Rightarrow> 'f transfer_run" where
  "finish_save reply result t =
     (case reply of
        ReplyTo i \<Rightarrow>
          t\<lparr>tr_workers := (tr_workers t)[i := (tr_workers t ! i)\<lparr>w_ack := Some result\<rparr>],
            tr_coordinator := (tr_coordinator t)\<lparr>co_pc := CoIdle\<rparr>\<rparr>
      | _ \<Rightarrow>
          (case result of
             Inr () \<Rightarrow> t\<lparr>tr_coordinator := (tr_coordinator t)\<lparr>co_pc := CoIdle\<rparr>\<rparr>
           | Inl e \<Rightarrow> t\<lparr>tr_job := (install_fatal e (tr_job t))\<lparr>j_coordinator_gone := True\<rparr>,
                        tr_coordinator := (tr_coordinator t)\<lparr>co_pc := CoStopped\<rparr>\<rparr>))"

definition co_goto :: "coordinator_pc \<Rightarrow> 'f transfer_run \<Rightarrow> 'f transfer_run" where
  "co_goto pc t = t\<lparr>tr_coordinator := (tr_coordinator t)\<lparr>co_pc := pc\<rparr>\<rparr>"

definition snapshot_save :: "save_reply \<Rightarrow> 'f transfer_run \<Rightarrow> 'f transfer_run" where
  "snapshot_save reply t =
     (let j = reconcile_and_credit (tr_job t);
          candidate = \<lparr>sr_ranges = settled_ranges (j_scheduler j), sr_generation = ss_generation (j_scheduler j),
                       sr_validators = j_validators j\<rparr>;
          t = t\<lparr>tr_job := notify_transition j\<rparr>
      in if sr_ranges candidate = [] then finish_save reply (Inr ()) t
         else if co_last_saved (tr_coordinator t) = Some candidate then finish_save reply (Inr ()) t
         else co_goto (CoFence reply candidate) t)"

definition fence_save :: "save_reply \<Rightarrow> saved_revision \<Rightarrow> 'f transfer_run \<Rightarrow> 'f transfer_run" where
  "fence_save reply candidate t =
     (if ss_generation (j_scheduler (tr_job t)) \<noteq> sr_generation candidate then finish_save reply (Inr ()) t
      else if j_durability (tr_job t) = Durable then
        (if j_has_sync (tr_job t) then co_goto (CoSync reply candidate) t
         else finish_save reply (Inl (SinkWrite ''durable checkpoint save has no sync capability'')) t)
      else co_goto (CoPrepare reply candidate) t)"

definition save_checkpoint :: "(nat list \<Rightarrow> string) \<Rightarrow> string \<Rightarrow> u64 \<Rightarrow> temp_file option \<Rightarrow> saved_revision
    \<Rightarrow> 'f segmented_job \<Rightarrow> checkpoint" where
  "save_checkpoint sha identity now file candidate j =
     (let cp = checkpoint_new now identity [] (''tmp-'' @ identity);
          cp = cp\<lparr>cp_total_size := Some (j_total_size j), cp_validators := sr_validators candidate,
                  cp_completed_ranges := sr_ranges candidate\<rparr>
      in set_covered_digest sha file (set_owned_temp_identity file cp))"

definition prepare_save :: "(nat list \<Rightarrow> string) \<Rightarrow> string \<Rightarrow> u64 \<Rightarrow> temp_file option \<Rightarrow> save_reply \<Rightarrow> saved_revision
    \<Rightarrow> 'f transfer_run \<Rightarrow> 'f transfer_run" where
  "prepare_save sha identity now file reply candidate t =
     (let cp = save_checkpoint sha identity now file candidate (tr_job t)
      in case checked_serialized_size cp of
           Inl e \<Rightarrow> finish_save reply (Inl (checkpoint_error_into e)) t
         | Inr estimate \<Rightarrow> co_goto (CoReserve reply candidate cp) t)"

definition store_save :: "save_reply \<Rightarrow> saved_revision \<Rightarrow> checkpoint \<Rightarrow> 'f transfer_run \<Rightarrow> 'f transfer_run" where
  "store_save reply candidate cp t =
     finish_save reply (Inr ())
       (t\<lparr>tr_sidecar := Some cp,
          tr_coordinator := (tr_coordinator t)\<lparr>co_last_saved := Some candidate\<rparr>,
          tr_job := (tr_job t)\<lparr>j_checkpoint_saved := True\<rparr>\<rparr>)"

definition coordinator_step :: "(nat list \<Rightarrow> string) \<Rightarrow> string \<Rightarrow> coordinator_input \<Rightarrow> 'f transfer_run
    \<Rightarrow> 'f transfer_run option" where
  "coordinator_step sha identity inp t =
     (case co_pc (tr_coordinator t) of
        CoIdle \<Rightarrow>
          (case inp of
             Tick \<Rightarrow> Some (co_goto (CoSnapshot ReplyTick) t)
           | Receive \<Rightarrow>
               (case j_save_now (tr_job t) of
                  i # rest \<Rightarrow> Some (co_goto (CoSnapshot (ReplyTo i)) (t\<lparr>tr_job := (tr_job t)\<lparr>j_save_now := rest\<rparr>\<rparr>))
                | [] \<Rightarrow> None)
           | _ \<Rightarrow> None)
      | CoSnapshot reply \<Rightarrow> (case inp of Proceed \<Rightarrow> Some (snapshot_save reply t) | _ \<Rightarrow> None)
      | CoFence reply candidate \<Rightarrow> (case inp of Proceed \<Rightarrow> Some (fence_save reply candidate t) | _ \<Rightarrow> None)
      | CoSync reply candidate \<Rightarrow>
          (case inp of
             SyncDone \<Rightarrow> Some (co_goto (CoPrepare reply candidate) t)
           | SyncFailed e \<Rightarrow> Some (finish_save reply (Inl e) t)
           | _ \<Rightarrow> None)
      | CoPrepare reply candidate \<Rightarrow>
          (case inp of Prepare now file \<Rightarrow> Some (prepare_save sha identity now file reply candidate t) | _ \<Rightarrow> None)
      | CoReserve reply candidate cp \<Rightarrow>
          (case inp of
             SaveGranted \<Rightarrow> Some (co_goto (CoStore reply candidate cp) t)
           | SaveOversize requested cap \<Rightarrow>
               Some (finish_save reply (Inl (Checkpoint (''checkpoint size '' @ show_u64 requested
                 @ '' exceeds the configured budget '' @ show_u64 cap))) t)
           | _ \<Rightarrow> None)
      | CoStore reply candidate cp \<Rightarrow>
          (case inp of
             Stored \<Rightarrow> Some (store_save reply candidate cp t)
           | StoreFailed e \<Rightarrow> Some (finish_save reply (Inl (Checkpoint e)) t)
           | _ \<Rightarrow> None)
      | CoStopped \<Rightarrow> None)"

section \<open>Interleavings\<close>

datatype transfer_event =
    WorkerEvent nat worker_input
  | CoordinatorEvent coordinator_input
  | CancelRun | PauseRun | ResumeRun
  | SetDesiredWorkers u64 | AdjustDesiredWorkers u64

definition transfer_step :: "'f worker_env \<Rightarrow> (nat list \<Rightarrow> string) \<Rightarrow> string \<Rightarrow> transfer_event \<Rightarrow> 'f transfer_run
    \<Rightarrow> 'f transfer_run option" where
  "transfer_step E sha identity ev t =
     (case ev of
        WorkerEvent i inp \<Rightarrow>
          if i < length (tr_workers t) then
            map_option (\<lambda>(j, w). t\<lparr>tr_job := j, tr_workers := (tr_workers t)[i := w]\<rparr>)
              (worker_step E i inp (tr_job t) (tr_workers t ! i))
          else None
      | CoordinatorEvent inp \<Rightarrow> coordinator_step sha identity inp t
      | CancelRun \<Rightarrow> Some (t\<lparr>tr_job := (tr_job t)\<lparr>j_cancelled := True\<rparr>\<rparr>)
      | PauseRun \<Rightarrow> Some (t\<lparr>tr_job := (tr_job t)\<lparr>j_paused := True\<rparr>\<rparr>)
      | ResumeRun \<Rightarrow> Some (t\<lparr>tr_job := (tr_job t)\<lparr>j_paused := False\<rparr>\<rparr>)
      | SetDesiredWorkers n \<Rightarrow> Some (t\<lparr>tr_job := job_set_desired n (tr_job t)\<rparr>)
      | AdjustDesiredWorkers n \<Rightarrow> Some (t\<lparr>tr_job := job_adjust_desired n (tr_job t)\<rparr>))"

fun transfer_steps :: "'f worker_env \<Rightarrow> (nat list \<Rightarrow> string) \<Rightarrow> string \<Rightarrow> transfer_event list \<Rightarrow> 'f transfer_run
    \<Rightarrow> 'f transfer_run option" where
  "transfer_steps E sha identity [] t = Some t"
| "transfer_steps E sha identity (ev # evs) t =
     (case transfer_step E sha identity ev t of None \<Rightarrow> None | Some t' \<Rightarrow> transfer_steps E sha identity evs t')"

section \<open>The start of a run\<close>

text \<open>
  What \<open>run_segmented\<close> takes from the configuration and from the probe. \<open>rs_desired\<close> and the bounds of
  the worker count are in \<open>rs_control\<close>; \<open>rs_output\<close> is the partial file admitted for resume.
\<close>

record 'f run_setup =
  rs_total_size :: u64
  rs_start_ranges :: "byte_range list"
  rs_policy :: scheduler_policy
  rs_control :: worker_control
  rs_ready_work_sizing :: bool
  rs_ready_work_factor :: u64
  rs_credentials :: shared_credentials
  rs_validators :: resource_validators
  rs_durability :: durability_mode
  rs_registry :: origin_registry
  rs_origin_key :: "string option"
  rs_counters :: job_counters
  rs_output :: "u64 \<Rightarrow> byte option"
  rs_sidecar :: "checkpoint option"

definition worker_start :: worker where
  "worker_start = \<lparr>w_pc = Spawned, w_attempt = 0, w_seen = 0, w_lane = False, w_permit = None, w_ack = None\<rparr>"

definition job_start :: "'f f64_ops \<Rightarrow> 'f run_setup \<Rightarrow> 'f segmented_job" where
  "job_start F r =
     (let capacity = wc_max_workers (rs_control r);
          policy = (if rs_ready_work_sizing r
                    then (rs_policy r)\<lparr>sp_ready_work_divisor :=
                            sat_mul (max (rs_ready_work_factor r) 1) (max (wc_desired_workers (rs_control r)) 1)\<rparr>
                    else rs_policy r)
      in \<lparr>j_scheduler = initialize F (rs_total_size r) (rs_start_ranges r) policy,
          j_origin_backoff_until = None, j_fatal = fatal_default, j_cancelled = False, j_paused = False,
          j_credentials = rs_credentials r, j_counters = rs_counters r, j_total_size = rs_total_size r,
          j_validators = rs_validators r, j_has_sync = True, j_durability = rs_durability r, j_revision = 0,
          j_save_now = [], j_coordinator_gone = False, j_control = rs_control r, j_throttle_events = 0,
          j_splits = 0, j_segment_requests = 0, j_worker_states = replicate capacity 0,
          j_worker_lane_live = replicate capacity False, j_checkpoint_saved = False,
          j_origin_registry = rs_registry r, j_origin_key = rs_origin_key r,
          j_ready_work_sizing = rs_ready_work_sizing r, j_ready_work_factor = max (rs_ready_work_factor r) 1,
          j_applied_ready_divisor = u64_max, j_worker_progress = replicate (max capacity 16) None,
          j_output = rs_output r\<rparr>)"

definition run_start :: "'f f64_ops \<Rightarrow> 'f run_setup \<Rightarrow> 'f transfer_run" where
  "run_start F r =
     \<lparr>tr_job = job_start F r, tr_workers = replicate (wc_max_workers (rs_control r)) worker_start,
      tr_coordinator = \<lparr>co_pc = CoSnapshot ReplyInitial, co_last_saved = None\<rparr>, tr_sidecar = rs_sidecar r\<rparr>"

section \<open>The outcome\<close>

datatype result_status = StatusCompleted | StatusFailed | StatusCancelled

record segmented_outcome =
  so_status :: result_status
  so_error :: "download_error option"
  so_snapshot :: progress_snapshot
  so_segment_requests :: u64
  so_live_splits :: u64
  so_total_size :: u64
  so_validators :: resource_validators
  so_warnings :: "string list"
  so_completed_ranges :: "byte_range list"
  so_artifacts :: artifact_disposition
  so_cancel_mode :: cancel_mode

text \<open>
  The tail of \<open>run_segmented\<close>, after every task has been joined. \<open>joined\<close> is the first error of a join,
  of the executor's shutdown or of the reclaim; \<open>cleanup\<close> the result of \<open>cleanup_cancelled\<close>.
\<close>

definition segmented_outcome_of :: "duration \<Rightarrow> download_error option \<Rightarrow> bool \<Rightarrow> artifact_disposition \<times> string list \<Rightarrow> bool
    \<Rightarrow> cancel_mode \<Rightarrow> 'f segmented_job \<Rightarrow> segmented_outcome" where
  "segmented_outcome_of elapsed joined reclaimed cleanup checkpoint_retained mode j =
     (let completed = completed_ranges (j_scheduler j);
          retained = \<lparr>ad_temp_retained = True, ad_checkpoint_retained = checkpoint_retained \<or> j_checkpoint_saved j\<rparr>;
          outcome = \<lparr>so_status = StatusCompleted, so_error = None, so_snapshot = fold_counters elapsed (j_counters j),
                     so_segment_requests = j_segment_requests j, so_live_splits = j_splits j,
                     so_total_size = j_total_size j, so_validators = j_validators j, so_warnings = [],
                     so_completed_ranges = completed,
                     so_artifacts = \<lparr>ad_temp_retained = False, ad_checkpoint_retained = False\<rparr>, so_cancel_mode = mode\<rparr>
      in if j_cancelled j then
           outcome\<lparr>so_status := (if reclaimed then StatusCancelled else StatusFailed),
                   so_error := (case joined of Some e \<Rightarrow> Some e | None \<Rightarrow> Some Cancelled),
                   so_warnings := (if reclaimed then snd cleanup else []),
                   so_artifacts := (if reclaimed then fst cleanup else retained)\<rparr>
         else case (case joined of Some e \<Rightarrow> Some e | None \<Rightarrow> fst (fatal_take (j_fatal j))) of
           Some e \<Rightarrow> outcome\<lparr>so_status := StatusFailed, so_error := Some e, so_artifacts := retained\<rparr>
         | None \<Rightarrow>
             if \<not> is_complete (j_scheduler j) then
               outcome\<lparr>so_status := StatusFailed,
                       so_error := Some (Protocol ''segmented transfer ended with incomplete coverage''),
                       so_artifacts := retained\<rparr>
             else outcome)"

end
