(* ===== verification/Scheduler_Evolution.thy ===== *)
theory Scheduler_Evolution
  imports Scheduler_Props
begin

text \<open>
  What one task may rely on while other tasks call the scheduler: a lease it holds keeps its start and
  generation, its end only moves down and its acknowledged offset only up; and which bytes each
  operation newly counts as settled.
\<close>

section \<open>Evolution of the leases\<close>

definition sched_evolves :: "'f segment_scheduler \<Rightarrow> 'f segment_scheduler \<Rightarrow> bool" where
  "sched_evolves s s' \<longleftrightarrow>
     ss_next_lease s \<le> ss_next_lease s' \<and> ss_total_size s' = ss_total_size s
     \<and> (\<forall>id l'. id < ss_next_lease s \<longrightarrow> (id, l') \<in> set (ss_active s') \<longrightarrow>
          (\<exists>l. (id, l) \<in> set (ss_active s) \<and> sl_generation l' = sl_generation l \<and> sl_start l' = sl_start l
             \<and> sl_end l' \<le> sl_end l \<and> sl_next_offset l \<le> sl_next_offset l'))"

lemma sched_evolves_refl [simp]: "sched_evolves s s"
  by (auto simp: sched_evolves_def)

lemma sched_evolvesD:
  assumes "sched_evolves s s'" "k < ss_next_lease s" "(k, l') \<in> set (ss_active s')"
  obtains l where "(k, l) \<in> set (ss_active s)" "sl_generation l' = sl_generation l" "sl_start l' = sl_start l"
    "sl_end l' \<le> sl_end l" "sl_next_offset l \<le> sl_next_offset l'"
  using assms unfolding sched_evolves_def by blast

lemma sched_evolves_trans:
  assumes "sched_evolves s t" "sched_evolves t u"
  shows "sched_evolves s u"
proof -
  have n: "ss_next_lease s \<le> ss_next_lease t" using assms(1) by (simp add: sched_evolves_def)
  have "\<exists>l. (k, l) \<in> set (ss_active s) \<and> sl_generation x = sl_generation l \<and> sl_start x = sl_start l
      \<and> sl_end x \<le> sl_end l \<and> sl_next_offset l \<le> sl_next_offset x"
    if k: "k < ss_next_lease s" and x: "(k, x) \<in> set (ss_active u)" for k x
  proof -
    obtain y where y: "(k, y) \<in> set (ss_active t)" "sl_generation x = sl_generation y" "sl_start x = sl_start y"
        "sl_end x \<le> sl_end y" "sl_next_offset y \<le> sl_next_offset x"
      using sched_evolvesD [OF assms(2) order_less_le_trans [OF k n] x] by metis
    obtain z where "(k, z) \<in> set (ss_active s)" "sl_generation y = sl_generation z" "sl_start y = sl_start z"
        "sl_end y \<le> sl_end z" "sl_next_offset z \<le> sl_next_offset y"
      using sched_evolvesD [OF assms(1) k y(1)] by metis
    then show ?thesis using y by (intro exI [of _ z]) simp
  qed
  then show ?thesis using assms n by (simp add: sched_evolves_def)
qed

text \<open>An operation that keeps every lease it does not remove.\<close>

lemma evolves_subset:
  assumes "ss_next_lease s' = ss_next_lease s" "ss_total_size s' = ss_total_size s" "set (ss_active s') \<subseteq> set (ss_active s)"
  shows "sched_evolves s s'"
  using assms by (auto simp: sched_evolves_def)

section \<open>The operations\<close>

text \<open>A step of the scheduler: the leases evolve, and what is newly settled lies in \<open>N\<close>.\<close>

definition sched_moves :: "nat set \<Rightarrow> 'f segment_scheduler \<Rightarrow> 'f segment_scheduler \<Rightarrow> bool" where
  "sched_moves N s s' \<longleftrightarrow> sched_evolves s s' \<and> settled_bytes s' \<subseteq> settled_bytes s \<union> N \<and> sched_inv s'
     \<and> ss_next_lease s' \<le> ss_next_lease s + 1"

lemma sched_movesD:
  assumes "sched_moves N s s'"
  shows "sched_evolves s s'" "settled_bytes s' \<subseteq> settled_bytes s \<union> N" "sched_inv s'" "ss_next_lease s' \<le> ss_next_lease s + 1"
  using assms by (simp_all add: sched_moves_def)

lemma settled_bound:
  assumes "iv_bytes (ss_completed t) \<subseteq> settled_bytes s \<union> N"
    and "\<And>i l. (i, l) \<in> set (ss_active t) \<Longrightarrow> {sl_start l..<sl_next_offset l} \<subseteq> settled_bytes s \<union> N"
  shows "settled_bytes t \<subseteq> settled_bytes s \<union> N"
proof -
  have "(\<Union>p\<in>set (ss_active t). {sl_start (snd p)..<sl_next_offset (snd p)}) \<subseteq> settled_bytes s \<union> N"
    by (rule UN_least) (metis assms(2) prod.collapse)
  then show ?thesis using assms(1) by (simp add: settled_bytes_def [of t])
qed

lemma lease_settled: "(i, l) \<in> set (ss_active s) \<Longrightarrow> {sl_start l..<sl_next_offset l} \<subseteq> settled_bytes s"
  by (auto intro: settledI(2))

lemma completed_settled: "iv_bytes (ss_completed s) \<subseteq> settled_bytes s"
  by (auto intro: settledI(1))

lemma fresh_lease_id: "sched_inv s \<Longrightarrow> p \<in> set (ss_active s) \<Longrightarrow> fst p < ss_next_lease s"
  by (auto simp: sched_inv_def sched_inv_gen_def lease_ok_def)

lemma active_ok: "sched_inv s \<Longrightarrow> (i, l) \<in> set (ss_active s) \<Longrightarrow>
    lease_ok (ss_total_size s) (ss_generation s) (ss_next_lease s) (i, l)"
  by (auto simp: sched_inv_def sched_inv_gen_def)

lemma active_unique: "sched_inv s \<Longrightarrow> (i, l) \<in> set (ss_active s) \<Longrightarrow> (i, k) \<in> set (ss_active s) \<Longrightarrow> l = k"
  using sched_inv_wf(5) eq_key_imp_eq_value by metis

lemma active_get: "sched_inv s \<Longrightarrow> (i, l) \<in> set (ss_active s) \<longleftrightarrow> hm_get (ss_active s) i = Some l"
  using sched_inv_wf(5) hm_get_iff by metis

lemma moves_acquire:
  assumes inv: "sched_inv s" and fresh: "ss_next_lease s < u64_max"
  shows "sched_moves {} s (snd (sched_acquire F now s))"
  using inv
proof (cases rule: acquire_cases [where F = F and now = now])
  case (carve k v rest e lease)
  let ?t = "snd (sched_acquire F now s)"
  have act: "set (ss_active ?t) = insert (ss_next_lease s, lease) (set (ss_active s))"
    using sched_inv_wf(5) [OF inv] fresh_lease_id [OF inv] carve(7) by (force simp: set_hm_insert)
  have "sched_evolves s ?t" using fresh carve(7) unfolding sched_evolves_def act by (auto simp: u64_exact)
  moreover have "settled_bytes ?t \<subseteq> settled_bytes s \<union> {}"
  proof (rule settled_bound)
    fix i l assume "(i, l) \<in> set (ss_active ?t)"
    then show "{sl_start l..<sl_next_offset l} \<subseteq> settled_bytes s \<union> {}"
      using carve(6) lease_settled [of i l s] unfolding act by auto
  qed (use carve(7) completed_settled in auto)
  ultimately show ?thesis using acquire_inv [OF inv fresh, of F now] carve(7) fresh by (simp add: sched_moves_def u64_exact)
qed (simp add: sched_moves_def inv)

text \<open>What the caller of \<open>acquire\<close> or \<open>split_tail\<close> gets.\<close>

definition fresh_lease :: "'f segment_scheduler \<Rightarrow> 'f segment_scheduler \<Rightarrow> segment_lease \<Rightarrow> bool" where
  "fresh_lease s s' l \<longleftrightarrow> sl_id l = ss_next_lease s \<and> sl_id l < ss_next_lease s' \<and> (sl_id l, l) \<in> set (ss_active s')
     \<and> sl_next_offset l = sl_start l \<and> sl_start l \<le> sl_end l \<and> sl_end l < ss_total_size s'"

lemma acquire_fresh:
  assumes inv: "sched_inv s" and fresh: "ss_next_lease s < u64_max" and r: "sched_acquire F now s = (Some l, t)"
  shows "fresh_lease s t l"
  using inv
proof (cases rule: acquire_cases [where F = F and now = now])
  case (carve k v rest e lease)
  have l: "l = lease" using r carve(7) by simp
  have t: "t = snd (sched_acquire F now s)" using r by simp
  have "(sl_id l, l) \<in> set (ss_active t)"
    unfolding t l using carve(6,7) sched_inv_wf(5) [OF inv] by (simp add: set_hm_insert)
  moreover have "sched_inv t" unfolding t by (rule acquire_inv [OF inv fresh])
  ultimately show ?thesis using carve(2,6,7) r fresh active_ok [of t "sl_id l" l] l
    by (auto simp: fresh_lease_def lease_ok_def u64_exact)
qed (use r in simp)

lemma moves_split:
  assumes inv: "sched_inv s" and fresh: "ss_next_lease s < u64_max"
  shows "sched_moves {} s (snd (split_tail now i g m r s))"
  using inv
proof (cases rule: split_tail_cases [where now = now and i = i and g = g and min_tail = m and recv = r])
  case (split l c sib t)
  have il: "(i, l) \<in> set (ss_active s)" using hm_get_in [OF split(1)] .
  have "i \<noteq> ss_next_lease s" using fresh_lease_id [OF inv il] by simp
  then have act: "set (ss_active t)
      = insert (ss_next_lease s, sib) (insert (i, l\<lparr>sl_end := c - 1\<rparr>) {p \<in> set (ss_active s). fst p \<noteq> i})"
    using sched_inv_wf(5) [OF inv] fresh_lease_id [OF inv] by (force simp: split(8) set_hm_insert AList.distinct_update)
  have "sched_evolves s t" unfolding sched_evolves_def act using il fresh split(4,9,12)
    by (auto simp: u64_exact)
  moreover have "settled_bytes t \<subseteq> settled_bytes s \<union> {}"
  proof (rule settled_bound)
    fix k x assume "(k, x) \<in> set (ss_active t)"
    then show "{sl_start x..<sl_next_offset x} \<subseteq> settled_bytes s \<union> {}"
      using split(6) lease_settled [OF il] lease_settled [of k x s] unfolding act by auto
  qed (use split(11) completed_settled in auto)
  ultimately show ?thesis using split_tail_inv [OF inv fresh, of now i g m r] split(7,12) fresh
    by (simp add: sched_moves_def u64_exact)
qed (simp add: sched_moves_def inv)

lemma split_fresh:
  assumes inv: "sched_inv s" and fresh: "ss_next_lease s < u64_max" and r: "split_tail now i g m r s = (Some x, t)"
  shows "fresh_lease s t x"
  using inv
proof (cases rule: split_tail_cases [where now = now and i = i and g = g and min_tail = m and recv = r])
  case (split l c sib t')
  have eq: "x = sib" "t = t'" using assms(3) split(7) by simp_all
  have "(sl_id x, x) \<in> set (ss_active t)"
    unfolding eq using split(6,8) sched_inv_wf(5) [OF inv] by (simp add: set_hm_insert AList.distinct_update)
  moreover have "sched_inv t" using split_tail_inv [OF inv fresh, of now i g m r] assms(3) by simp
  ultimately show ?thesis using split(4,6,12) fresh eq active_ok [of t "sl_id x" x]
    by (auto simp: fresh_lease_def lease_ok_def u64_exact)
qed (use r in simp)

lemma moves_report:
  assumes inv: "sched_inv s"
    and N: "\<And>l. (i, l) \<in> set (ss_active s) \<Longrightarrow> sl_generation l = g \<Longrightarrow> {sl_start l..<min x (sl_end l + 1)} \<subseteq> N"
  shows "sched_moves N s (snd (report_progress i g x s))"
proof (cases rule: report_progress_cases [of i g x s])
  case (advance l)
  let ?t = "snd (report_progress i g x s)" and ?l = "l\<lparr>sl_next_offset := min x (sat_add (sl_end l) 1)\<rparr>"
  have il: "(i, l) \<in> set (ss_active s)" using hm_get_in [OF advance(1)] .
  have ok: "sl_next_offset l \<le> sl_end l + 1" "sl_end l < u64_max"
    using active_ok [OF inv il] sched_inv_wf(3) [OF inv] by (auto simp: lease_ok_def)
  then have e: "sat_add (sl_end l) 1 = sl_end l + 1" by (simp add: u64_exact)
  have act: "set (ss_active ?t) = insert (i, ?l) {p \<in> set (ss_active s). fst p \<noteq> i}"
    using sched_inv_wf(5) [OF inv] advance(4) by (simp add: set_hm_insert)
  have "sched_evolves s ?t" using il advance(3,4) ok unfolding sched_evolves_def act e by auto
  moreover have "settled_bytes ?t \<subseteq> settled_bytes s \<union> N"
  proof (rule settled_bound)
    fix k y assume "(k, y) \<in> set (ss_active ?t)"
    then show "{sl_start y..<sl_next_offset y} \<subseteq> settled_bytes s \<union> N"
      using N [OF il advance(2)] lease_settled [of k y s] unfolding act e by auto
  qed (use advance(4) completed_settled in auto)
  ultimately show ?thesis using report_progress_inv [OF inv, of i g x] advance(4) by (simp add: sched_moves_def)
qed (simp_all add: sched_moves_def inv)

lemma moves_trans:
  assumes "sched_moves N s t" "sched_moves N t u" "ss_next_lease u \<le> ss_next_lease s + 1"
  shows "sched_moves N s u"
  using assms sched_evolves_trans unfolding sched_moves_def by blast

lemma report_next_lease [simp]: "ss_next_lease (snd (report_progress i g x s)) = ss_next_lease s"
  by (simp add: report_progress_def split: option.splits)

lemma absorb_cell_report:
  "snd (absorb_cell cell s) = s \<or> (\<exists>r. cell = Some r
     \<and> snd (absorb_cell cell s) = snd (report_progress (pr_lease_id r) (pr_generation r) (pr_written_through r) s))"
  by (auto simp: absorb_cell_def Let_def split: option.splits prod.splits bool.splits)

text \<open>
  A cell claims bytes of the lease it names. Claims survive the evolution of the leases, so that the
  cells can be absorbed one after the other.
\<close>

definition cell_claim :: "nat set \<Rightarrow> 'f segment_scheduler \<Rightarrow> lease_record \<Rightarrow> bool" where
  "cell_claim W s r \<longleftrightarrow> pr_lease_id r < ss_next_lease s
     \<and> (\<forall>l. (pr_lease_id r, l) \<in> set (ss_active s) \<longrightarrow> {sl_start l..<min (pr_written_through r) (sl_end l + 1)} \<subseteq> W)"

lemma cell_claim_evolves:
  assumes "cell_claim W s r" "sched_evolves s s'" "W \<subseteq> W'"
  shows "cell_claim W' s' r"
proof -
  have "{sl_start l'..<min (pr_written_through r) (sl_end l' + 1)} \<subseteq> W'"
    if "(pr_lease_id r, l') \<in> set (ss_active s')" for l'
  proof -
    have "pr_lease_id r < ss_next_lease s" using assms(1) by (simp add: cell_claim_def)
    from sched_evolvesD [OF assms(2) this that] obtain l
      where l: "(pr_lease_id r, l) \<in> set (ss_active s)" "sl_start l' = sl_start l" "sl_end l' \<le> sl_end l" by metis
    then have "{sl_start l'..<min (pr_written_through r) (sl_end l' + 1)}
        \<subseteq> {sl_start l..<min (pr_written_through r) (sl_end l + 1)}" by auto
    then show ?thesis using assms(1,3) l(1) unfolding cell_claim_def by blast
  qed
  then show ?thesis using assms(1,2) by (auto simp: cell_claim_def sched_evolves_def)
qed

lemma moves_absorb:
  assumes "sched_inv s" "\<And>r. Some r \<in> set cells \<Longrightarrow> cell_claim N s r"
  shows "sched_moves N s (snd (absorb_worker_progress cells s))
    \<and> ss_next_lease (snd (absorb_worker_progress cells s)) = ss_next_lease s"
  using assms
proof (induction cells arbitrary: s)
  case (Cons cell cells)
  let ?t = "snd (absorb_cell cell s)"
  have t: "sched_moves N s ?t \<and> ss_next_lease ?t = ss_next_lease s"
    using absorb_cell_report [of cell s]
  proof
    assume "\<exists>r. cell = Some r \<and> ?t = snd (report_progress (pr_lease_id r) (pr_generation r) (pr_written_through r) s)"
    then obtain r where r: "cell = Some r"
        "?t = snd (report_progress (pr_lease_id r) (pr_generation r) (pr_written_through r) s)" by blast
    have "cell_claim N s r" using Cons.prems(2) [of r] r(1) by simp
    then show ?thesis unfolding r(2) using moves_report [OF Cons.prems(1)] by (simp add: cell_claim_def)
  qed (simp add: sched_moves_def Cons.prems(1))
  then have inv: "sched_inv ?t" and ev: "sched_evolves s ?t" by (simp_all add: sched_moves_def)
  have "cell_claim N ?t r" if "Some r \<in> set cells" for r
    by (rule cell_claim_evolves [OF Cons.prems(2) ev order_refl]) (use that in simp)
  from Cons.IH [OF inv this] have u: "sched_moves N ?t (snd (absorb_worker_progress cells ?t))"
      "ss_next_lease (snd (absorb_worker_progress cells ?t)) = ss_next_lease ?t" by auto
  have "snd (absorb_worker_progress (cell # cells) s) = snd (absorb_worker_progress cells ?t)"
    by (simp add: Let_def case_prod_beta')
  then show ?case using t u moves_trans [OF conjunct1 [OF t] u(1)] by simp
qed (simp add: sched_moves_def)

lemma moves_complete:
  assumes inv: "sched_inv s"
    and N: "\<And>l. (i, l) \<in> set (ss_active s) \<Longrightarrow> sl_generation l = g \<Longrightarrow> lease_span l \<subseteq> N"
  shows "sched_moves N s (snd (sched_complete F now i g s))"
proof (cases "hm_get (ss_active s) i")
  case (Some l)
  let ?t = "snd (sched_complete F now i g s)"
  have il: "(i, l) \<in> set (ss_active s)" using hm_get_in [OF Some] .
  have "sl_end l \<le> u64_max" using active_ok [OF inv il] sched_inv_wf(3) [OF inv] by (auto simp: lease_ok_def)
  then have c: "iv_bytes (ss_completed ?t) \<subseteq> settled_bytes s \<union> N"
    using N [OF il] iv_insert_correct [OF sched_inv_wf(2) [OF inv]] completed_settled [of s]
    by (auto simp: sched_complete_def Some Let_def lease_span_def)
  have put: "set (hm_insert i l (hm_remove i (ss_active s))) = set (ss_active s)"
    using hm_put_back [OF sched_inv_wf(5) [OF inv] Some] by blast
  have sub: "set (ss_active ?t) \<subseteq> set (ss_active s)"
    using put by (auto simp: sched_complete_def Some Let_def)
  have "settled_bytes ?t \<subseteq> settled_bytes s \<union> N"
    by (rule settled_bound [OF c]) (use sub lease_settled [of _ _ s] in blast)
  moreover have "sched_evolves s ?t"
    by (rule evolves_subset) (use sub in \<open>simp_all add: sched_complete_def Some Let_def\<close>)
  moreover have "ss_next_lease ?t = ss_next_lease s" by (simp add: sched_complete_def Some Let_def)
  ultimately show ?thesis using complete_inv [OF inv, of F now i g] by (simp add: sched_moves_def)
qed (simp add: sched_complete_def sched_moves_def inv)

lemma requeue_settles_no_more:
  assumes inv: "sched_inv_gen g s" and l: "(i, l) \<in> set (ss_active s)"
    and t: "ss_total_size t = ss_total_size s" "ss_pending t = ss_pending s" "ss_completed t = ss_completed s"
      "set (ss_active t) \<subseteq> set (ss_active s)"
  shows "settled_bytes (requeue l t) \<subseteq> settled_bytes s"
proof -
  have ok: "lease_ok (ss_total_size t) g (ss_next_lease s) (i, l)" using inv l t by (auto simp: sched_inv_gen_def)
  have wf: "ss_total_size t \<le> u64_max" "iv_wf (ss_pending t)" "iv_wf (ss_completed t)"
    using inv t by (auto simp: sched_inv_gen_def)
  have "settled_bytes (requeue l t) \<subseteq> settled_bytes s \<union> {}"
  proof (rule settled_bound)
    show "iv_bytes (ss_completed (requeue l t)) \<subseteq> settled_bytes s \<union> {}"
      using requeue_correct(4) [OF ok wf] t(3) completed_settled [of s] lease_settled [OF l] by simp
  qed (use t(4) lease_settled [of _ _ s] in auto)
  then show ?thesis by simp
qed

lemma moves_fail:
  assumes inv: "sched_inv s"
  shows "sched_moves {} s (snd (sched_fail F now i g s))"
proof (cases "hm_get (ss_active s) i")
  case (Some l)
  let ?t = "snd (sched_fail F now i g s)"
  have il: "(i, l) \<in> set (ss_active s)" using hm_get_in [OF Some] .
  have put: "set (hm_insert i l (hm_remove i (ss_active s))) = set (ss_active s)"
    using hm_put_back [OF sched_inv_wf(5) [OF inv] Some] by blast
  have sub: "set (ss_active ?t) \<subseteq> set (ss_active s)" using put by (auto simp: sched_fail_def Some Let_def)
  have "settled_bytes ?t \<subseteq> settled_bytes s"
  proof (cases "sl_generation l = g")
    case True
    then show ?thesis by (simp add: sched_fail_def Some Let_def)
        (rule requeue_settles_no_more [OF inv [unfolded sched_inv_def] il]; auto)
  next
    case False
    then show ?thesis using settled_put_back [OF inv Some, of ?t] by (simp add: sched_fail_def Some Let_def)
  qed
  moreover have "sched_evolves s ?t"
    by (rule evolves_subset) (use sub in \<open>simp_all add: sched_fail_def Some Let_def\<close>)
  moreover have "ss_next_lease ?t = ss_next_lease s" by (simp add: sched_fail_def Some Let_def)
  ultimately show ?thesis using fail_inv [OF inv, of F now i g] by (simp add: sched_moves_def)
qed (simp add: sched_fail_def sched_moves_def inv)

lemma bump_fold_settles_no_more:
  assumes "sched_inv_gen g s" "hm_distinct ls" "set ls = set (ss_active s)"
  shows "settled_bytes (fold (\<lambda>(i, l) t. requeue l (t\<lparr>ss_active := hm_remove i (ss_active t)\<rparr>)) ls s) \<subseteq> settled_bytes s
    \<and> ss_next_lease (fold (\<lambda>(i, l) t. requeue l (t\<lparr>ss_active := hm_remove i (ss_active t)\<rparr>)) ls s) = ss_next_lease s
    \<and> ss_total_size (fold (\<lambda>(i, l) t. requeue l (t\<lparr>ss_active := hm_remove i (ss_active t)\<rparr>)) ls s) = ss_total_size s"
  using assms
proof (induction ls arbitrary: s)
  case (Cons p ls)
  obtain i l where p: "p = (i, l)" by force
  let ?t = "requeue l (s\<lparr>ss_active := hm_remove i (ss_active s)\<rparr>)"
  have d: "hm_distinct (ss_active s)" "policy_ok (ss_policy s)" using Cons.prems(1) by (simp_all add: sched_inv_gen_def)
  have il: "(i, l) \<in> set (ss_active s)" using Cons.prems(3) p by auto
  then have "hm_get (ss_active s) i = Some l" using d(1) by (metis hm_get_iff)
  then have inv: "sched_inv_gen g ?t" by (rule inv_requeue [OF Cons.prems(1)]) (simp_all add: d)
  have ls: "hm_distinct ls" "set ls = set (ss_active ?t)" using Cons.prems(2,3) p by (auto simp: image_iff)
  have "settled_bytes ?t \<subseteq> settled_bytes s" by (rule requeue_settles_no_more [OF Cons.prems(1) il]) auto
  with Cons.IH [OF inv ls] show ?case using p by auto
qed simp

lemma moves_bump:
  assumes inv: "sched_inv s"
  shows "sched_moves {} s (snd (bump_generation s))"
proof -
  let ?s1 = "s\<lparr>ss_generation := u64_add (ss_generation s) 1\<rparr>"
  have "sched_inv_gen (ss_generation s) ?s1" "hm_distinct (ss_active ?s1)"
    using inv by (simp_all add: sched_inv_def sched_inv_gen_def)
  note fold = bump_fold_settles_no_more [OF this refl]
  have "settled_bytes ?s1 = settled_bytes s" by (simp add: settled_bytes_def)
  then show ?thesis using fold bump_generation_inv [OF inv]
    by (simp add: sched_moves_def bump_generation_def Let_def sched_evolves_def)
qed

lemma moves_divisor:
  assumes "sched_inv s"
  shows "sched_moves {} s (set_ready_work_divisor d s)"
proof -
  have "sched_evolves s (set_ready_work_divisor d s)" by (rule evolves_subset) (simp_all add: set_ready_work_divisor_def)
  then show ?thesis using set_ready_work_divisor_inv [OF assms]
    by (simp add: sched_moves_def settled_divisor) (simp add: set_ready_work_divisor_def)
qed

end
