(* ===== verification/Transfer_Invariant.thy ===== *)
theory Transfer_Invariant
  imports Transfer_Run Scheduler_Evolution
begin

text \<open>
  The invariant of a segmented transfer: what the scheduler counts as settled has been written with the
  bytes of the resource, every progress cell claims written bytes only, and each worker knows, at each
  program point, how far its lease is written. Every step of a worker keeps it, and keeps what the other
  workers know.

  \<open>R\<close> is the resource. The server is assumed to be exact (\<open>exact_input\<close>): an accepted range response
  covers the whole requested range, every frame carries at least one byte and the bytes of the resource
  at its place, and the stream ends only after the last byte of the range.
\<close>

section \<open>What a worker knows\<close>

definition written :: "(nat \<Rightarrow> byte) \<Rightarrow> 'f segmented_job \<Rightarrow> nat set" where
  "written R j = {p. j_output j p = Some (R p)}"

definition lease_held :: "nat set \<Rightarrow> 'f segment_scheduler \<Rightarrow> segment_lease \<Rightarrow> nat \<Rightarrow> bool" where
  "lease_held W s L x \<longleftrightarrow>
     0 < sl_id L \<and> sl_id L < ss_next_lease s \<and> sl_next_offset L = sl_start L \<and> sl_start L \<le> sl_end L
     \<and> sl_end L < ss_total_size s
     \<and> (\<forall>l. (sl_id L, l) \<in> set (ss_active s) \<longrightarrow>
          sl_start l = sl_start L \<and> sl_generation l = sl_generation L \<and> sl_end l \<le> sl_end L
          \<and> {sl_start L..<min x (sl_end l + 1)} \<subseteq> W)"

definition lease_done :: "nat set \<Rightarrow> 'f segment_scheduler \<Rightarrow> segment_lease \<Rightarrow> bool" where
  "lease_done W s L \<longleftrightarrow> sl_id L < ss_next_lease s
     \<and> (\<forall>l. (sl_id L, l) \<in> set (ss_active s) \<longrightarrow> lease_span l \<subseteq> W \<and> sl_next_offset l = sl_end l + 1)"

definition ends_by :: "'f segment_scheduler \<Rightarrow> segment_lease \<Rightarrow> nat \<Rightarrow> bool" where
  "ends_by s L e \<longleftrightarrow> (\<forall>l. (sl_id L, l) \<in> set (ss_active s) \<longrightarrow> sl_end l \<le> e)"

definition cell_at :: "lease_record option \<Rightarrow> body_read \<Rightarrow> bool" where
  "cell_at cell b \<longleftrightarrow>
     (if br_offset b = 0 then cell = None
      else \<exists>r. cell = Some r \<and> pr_lease_id r = sl_id (br_lease b) \<and> pr_generation r = sl_generation (br_lease b)
             \<and> pr_written_through r = br_start b + br_offset b)"

definition body_ok :: "nat set \<Rightarrow> 'f segment_scheduler \<Rightarrow> lease_record option \<Rightarrow> body_read \<Rightarrow> bool" where
  "body_ok W s cell b \<longleftrightarrow>
     lease_held W s (br_lease b) (br_start b + br_offset b)
     \<and> sl_start (br_lease b) = br_start b \<and> sl_end (br_lease b) = br_end b
     \<and> br_start b + br_offset b \<le> br_end b + 1 \<and> br_start b \<le> br_effective_end b \<and> br_effective_end b \<le> br_end b
     \<and> ends_by s (br_lease b) (br_effective_end b) \<and> cell_at cell b"

definition delivered :: "body_read \<Rightarrow> nat \<Rightarrow> bool" where
  "delivered b d \<longleftrightarrow> hb_limit (br_body b) = Some (br_start b, br_end b, d)"

definition chunk_ok :: "(nat \<Rightarrow> byte) \<Rightarrow> body_read \<Rightarrow> byte list \<Rightarrow> bool \<Rightarrow> bool" where
  "chunk_ok R b owned truncated \<longleftrightarrow>
     (let x = br_start b + br_offset b
      in owned \<noteq> [] \<and> owned = map R [x..<x + length owned] \<and> x + length owned \<le> br_effective_end b + 1
         \<and> (if truncated then x + length owned = br_effective_end b + 1 else delivered b (br_offset b + length owned)))"

definition body_full :: "'f segment_scheduler \<Rightarrow> body_read \<Rightarrow> bool" where
  "body_full s b \<longleftrightarrow> 0 < br_offset b
     \<and> (\<forall>l. (sl_id (br_lease b), l) \<in> set (ss_active s) \<longrightarrow> sl_end l < br_start b + br_offset b)"

definition worker_ok :: "(nat \<Rightarrow> byte) \<Rightarrow> 'f segmented_job \<Rightarrow> nat \<Rightarrow> worker_pc \<Rightarrow> bool" where
  "worker_ok R j i pc \<longleftrightarrow>
     (let W = written R j; s = j_scheduler j; cell = j_worker_progress j ! i
      in i < length (j_worker_progress j) \<and>
         (case pc of
            Leaving \<Rightarrow> True
          | Exited \<Rightarrow> True
          | AtSettleErr lease e \<Rightarrow> True
          | AtFail lease e \<Rightarrow> True
          | AtGate lease \<Rightarrow> cell = None \<and> lease_held W s lease (sl_start lease)
          | GateSleep lease \<Rightarrow> cell = None \<and> lease_held W s lease (sl_start lease)
          | AtAdmission lease adm \<Rightarrow> cell = None \<and> lease_held W s lease (sl_start lease)
          | AtRequest lease start_from provided \<Rightarrow>
              cell = None \<and> lease_held W s lease (sl_start lease) \<and> start_from = sl_start lease
          | AtBodyStart lease vs ve body \<Rightarrow>
              cell = None \<and> lease_held W s lease (sl_start lease) \<and> vs = sl_start lease \<and> ve = sl_end lease
              \<and> hb_limit body = Some (vs, ve, 0)
          | AtBodyTop b \<Rightarrow> body_ok W s cell b \<and> delivered b (br_offset b)
          | AtBody b \<Rightarrow> body_ok W s cell b \<and> delivered b (br_offset b)
          | AtPauseSend b \<Rightarrow> body_ok W s cell b \<and> delivered b (br_offset b)
          | AtPauseAck b \<Rightarrow> body_ok W s cell b \<and> delivered b (br_offset b)
          | AtPauseSleep b \<Rightarrow> body_ok W s cell b \<and> delivered b (br_offset b)
          | AtReserve b owned truncated \<Rightarrow> body_ok W s cell b \<and> chunk_ok R b owned truncated
          | AtRate b owned truncated \<Rightarrow> body_ok W s cell b \<and> chunk_ok R b owned truncated
          | AtRetag b owned truncated \<Rightarrow> body_ok W s cell b \<and> chunk_ok R b owned truncated
          | AtWrite b owned truncated \<Rightarrow> body_ok W s cell b \<and> chunk_ok R b owned truncated
          | AtReconcile b \<Rightarrow> body_ok W s cell b \<and> body_full s b
          | AtReport b \<Rightarrow> lease_done W s (br_lease b) \<and> lease_held W s (br_lease b) (br_start b + br_offset b)
              \<and> sl_start (br_lease b) = br_start b \<and> sl_end (br_lease b) = br_end b
          | AtSettleOk lease \<Rightarrow> cell = None \<and> lease_done W s lease
          | AtComplete lease \<Rightarrow> cell = None \<and> lease_done W s lease
          | _ \<Rightarrow> cell = None))"

definition job_inv :: "(nat \<Rightarrow> byte) \<Rightarrow> 'f segmented_job \<Rightarrow> bool" where
  "job_inv R j \<longleftrightarrow>
     sched_inv (j_scheduler j) \<and> 0 < ss_next_lease (j_scheduler j) \<and> ss_total_size (j_scheduler j) < u64_max
     \<and> j_total_size j = ss_total_size (j_scheduler j)
     \<and> settled_bytes (j_scheduler j) \<subseteq> written R j
     \<and> (\<forall>r. Some r \<in> set (j_worker_progress j) \<longrightarrow> cell_claim (written R j) (j_scheduler j) r)"

definition exact_input :: "(nat \<Rightarrow> byte) \<Rightarrow> 'f worker_env \<Rightarrow> 'f segmented_job \<Rightarrow> worker_pc \<Rightarrow> worker_input \<Rightarrow> bool" where
  "exact_input R E j pc inp \<longleftrightarrow>
     (case pc of
        AtRequest lease start_from provided \<Rightarrow>
          (case inp of
             Head status headers version \<Rightarrow>
               (case accept_head (we_url E) (lease_intent lease start_from j) (from_head status headers version) of
                  Inr a \<Rightarrow> ar_end a = sl_end lease
                | Inl _ \<Rightarrow> True)
           | _ \<Rightarrow> True)
      | AtBody b \<Rightarrow>
          (case inp of
             Frame (DataFrame data) \<Rightarrow>
               data \<noteq> [] \<and> data = map R [br_start b + br_offset b..<br_start b + br_offset b + length data]
           | Frame EndOfStream \<Rightarrow> br_offset b = br_end b - br_start b + 1
           | _ \<Rightarrow> True)
      | _ \<Rightarrow> True)"

section \<open>Interference\<close>

text \<open>What a step of task \<open>i\<close> may change, seen from the others.\<close>

definition job_moves :: "(nat \<Rightarrow> byte) \<Rightarrow> nat \<Rightarrow> 'f segmented_job \<Rightarrow> 'f segmented_job \<Rightarrow> bool" where
  "job_moves R i j j' \<longleftrightarrow>
     sched_evolves (j_scheduler j) (j_scheduler j') \<and> written R j \<subseteq> written R j'
     \<and> length (j_worker_progress j') = length (j_worker_progress j)
     \<and> (\<forall>k. k \<noteq> i \<longrightarrow> j_worker_progress j' ! k = j_worker_progress j ! k)"

lemma lease_held_evolves:
  assumes "lease_held W s L x" "sched_evolves s s'" "W \<subseteq> W'"
  shows "lease_held W' s' L x"
proof -
  have n: "sl_id L < ss_next_lease s" using assms(1) by (simp add: lease_held_def)
  have "sl_start l' = sl_start L \<and> sl_generation l' = sl_generation L \<and> sl_end l' \<le> sl_end L
      \<and> {sl_start L..<min x (sl_end l' + 1)} \<subseteq> W'" if l': "(sl_id L, l') \<in> set (ss_active s')" for l'
  proof -
    obtain l where l: "(sl_id L, l) \<in> set (ss_active s)" "sl_generation l' = sl_generation l" "sl_start l' = sl_start l"
        "sl_end l' \<le> sl_end l" using sched_evolvesD [OF assms(2) n l'] by metis
    have old: "sl_start l = sl_start L" "sl_generation l = sl_generation L" "sl_end l \<le> sl_end L"
        "{sl_start L..<min x (sl_end l + 1)} \<subseteq> W"
      using assms(1) l(1) unfolding lease_held_def by blast+
    have "{sl_start L..<min x (sl_end l' + 1)} \<subseteq> {sl_start L..<min x (sl_end l + 1)}" using l(4) by auto
    then have "{sl_start L..<min x (sl_end l' + 1)} \<subseteq> W'" using old(4) assms(3) by blast
    then show ?thesis using l old by simp
  qed
  then show ?thesis using assms(1,2) by (auto simp: lease_held_def sched_evolves_def)
qed

lemma lease_done_evolves:
  assumes "lease_done W s L" "sched_evolves s s'" "W \<subseteq> W'" "sched_inv s'"
  shows "lease_done W' s' L"
proof -
  have n: "sl_id L < ss_next_lease s" using assms(1) by (simp add: lease_done_def)
  have "lease_span l' \<subseteq> W' \<and> sl_next_offset l' = sl_end l' + 1" if l': "(sl_id L, l') \<in> set (ss_active s')" for l'
  proof -
    obtain l where l: "(sl_id L, l) \<in> set (ss_active s)" "sl_start l' = sl_start l" "sl_end l' \<le> sl_end l"
        "sl_next_offset l \<le> sl_next_offset l'" using sched_evolvesD [OF assms(2) n l'] by metis
    have old: "lease_span l \<subseteq> W" "sl_next_offset l = sl_end l + 1" using assms(1) l(1) unfolding lease_done_def by blast+
    have "sl_next_offset l' \<le> sl_end l' + 1" using active_ok [OF assms(4) l'] by (simp add: lease_ok_def)
    moreover have "lease_span l' \<subseteq> lease_span l" using l by (auto simp: lease_span_def)
    ultimately show ?thesis using l old assms(3) by auto
  qed
  then show ?thesis using assms(1,2) by (auto simp: lease_done_def sched_evolves_def)
qed

lemma ends_by_evolves:
  assumes "ends_by s L e" "sched_evolves s s'" "sl_id L < ss_next_lease s"
  shows "ends_by s' L e"
  unfolding ends_by_def
proof (intro allI impI)
  fix l' assume "(sl_id L, l') \<in> set (ss_active s')"
  then obtain l where "(sl_id L, l) \<in> set (ss_active s)" "sl_end l' \<le> sl_end l"
    using sched_evolvesD [OF assms(2,3)] by metis
  then show "sl_end l' \<le> e" using assms(1) unfolding ends_by_def by fastforce
qed

lemma body_ok_evolves:
  assumes "body_ok W s cell b" "sched_evolves s s'" "W \<subseteq> W'"
  shows "body_ok W' s' cell b"
proof -
  have "sl_id (br_lease b) < ss_next_lease s" using assms(1) by (simp add: body_ok_def lease_held_def)
  then show ?thesis using assms lease_held_evolves [OF _ assms(2,3)] ends_by_evolves [OF _ assms(2)]
    unfolding body_ok_def by blast
qed

lemma body_full_evolves:
  assumes "body_full s b" "sched_evolves s s'" "sl_id (br_lease b) < ss_next_lease s"
  shows "body_full s' b"
  unfolding body_full_def
proof (intro conjI allI impI)
  fix l' assume "(sl_id (br_lease b), l') \<in> set (ss_active s')"
  then obtain l where "(sl_id (br_lease b), l) \<in> set (ss_active s)" "sl_end l' \<le> sl_end l"
    using sched_evolvesD [OF assms(2,3)] by metis
  then show "sl_end l' < br_start b + br_offset b" using assms(1) unfolding body_full_def by fastforce
qed (use assms(1) in \<open>simp add: body_full_def\<close>)

lemma worker_ok_moves:
  assumes "worker_ok R j k pc" "job_moves R i j j'" "sched_inv (j_scheduler j')" "k \<noteq> i"
  shows "worker_ok R j' k pc"
proof -
  have ev: "sched_evolves (j_scheduler j) (j_scheduler j')" and W: "written R j \<subseteq> written R j'"
    and cell: "j_worker_progress j' ! k = j_worker_progress j ! k"
    and len: "length (j_worker_progress j') = length (j_worker_progress j)"
    using assms(2,4) by (auto simp: job_moves_def)
  have held: "\<And>L x. lease_held (written R j) (j_scheduler j) L x \<Longrightarrow> lease_held (written R j') (j_scheduler j') L x"
    by (rule lease_held_evolves [OF _ ev W])
  have fin: "\<And>L. lease_done (written R j) (j_scheduler j) L \<Longrightarrow> lease_done (written R j') (j_scheduler j') L"
    by (rule lease_done_evolves [OF _ ev W assms(3)])
  have body: "\<And>c b. body_ok (written R j) (j_scheduler j) c b \<Longrightarrow> body_ok (written R j') (j_scheduler j') c b"
    by (rule body_ok_evolves [OF _ ev W])
  have full: "\<And>c b. body_ok (written R j) (j_scheduler j) c b \<Longrightarrow> body_full (j_scheduler j) b \<Longrightarrow> body_full (j_scheduler j') b"
    by (rule body_full_evolves [OF _ ev]) (auto simp: body_ok_def lease_held_def)
  show ?thesis
    using assms(1) unfolding worker_ok_def Let_def cell len
    by (cases pc) (auto simp: held fin body dest: held intro: full)
qed

section \<open>Steps that leave the transfer alone\<close>

text \<open>The fields that the invariant speaks of.\<close>

definition same_core :: "'f segmented_job \<Rightarrow> 'f segmented_job \<Rightarrow> bool" where
  "same_core j j' \<longleftrightarrow> j_scheduler j' = j_scheduler j \<and> j_output j' = j_output j
     \<and> j_worker_progress j' = j_worker_progress j \<and> j_total_size j' = j_total_size j"

lemma job_frames [simp]:
  "same_core j j"
  "same_core j (set_worker_state i n j') = same_core j j'"
  "same_core j (set_worker_lane_live i v j') = same_core j j'"
  "same_core j (notify_transition j') = same_core j j'"
  "same_core j (install_fatal e j') = same_core j j'"
  "same_core j (count_worker i f j') = same_core j j'"
  "same_core j (j'\<lparr>j_origin_registry := r\<rparr>) = same_core j j'"
  "same_core j (j'\<lparr>j_credentials := c\<rparr>) = same_core j j'"
  "same_core j (j'\<lparr>j_segment_requests := q\<rparr>) = same_core j j'"
  "same_core j (j'\<lparr>j_save_now := l\<rparr>) = same_core j j'"
  "same_core j (j'\<lparr>j_coordinator_gone := g\<rparr>) = same_core j j'"
  "same_core j (j'\<lparr>j_control := d\<rparr>) = same_core j j'"
  "same_core j (j'\<lparr>j_cancelled := g\<rparr>) = same_core j j'"
  "same_core j (j'\<lparr>j_paused := g\<rparr>) = same_core j j'"
  "same_core j (j'\<lparr>j_checkpoint_saved := g\<rparr>) = same_core j j'"
  "same_core j (report_origin_throttle E now ms ra a j') = same_core j j'"
  by (simp_all add: same_core_def set_worker_state_def set_worker_lane_live_def notify_transition_def
      install_fatal_def count_worker_def report_origin_throttle_def Let_def)

lemma goto_pc [simp]: "w_pc (w_goto pc w) = pc"
  by (simp add: w_goto_def)

lemma written_core: "j_output j' = j_output j \<Longrightarrow> written R j' = written R j"
  by (simp add: written_def)

lemma same_core_inv: "same_core j j' \<Longrightarrow> job_inv R j' = job_inv R j"
  using written_core [of j' j R] by (simp add: same_core_def job_inv_def)

lemma same_core_worker: "same_core j j' \<Longrightarrow> worker_ok R j' i pc = worker_ok R j i pc"
  using written_core [of j' j R] by (simp add: same_core_def worker_ok_def Let_def)

lemma same_core_moves: "same_core j j' \<Longrightarrow> job_moves R i j j'"
  using written_core [of j' j R] by (simp add: same_core_def job_moves_def)

definition step_keeps :: "(nat \<Rightarrow> byte) \<Rightarrow> nat \<Rightarrow> 'f segmented_job \<Rightarrow> 'f segmented_job \<Rightarrow> worker_pc \<Rightarrow> bool" where
  "step_keeps R i j j' pc' \<longleftrightarrow> job_inv R j' \<and> job_moves R i j j' \<and> worker_ok R j' i pc'"

lemma keeps_same_core:
  assumes "job_inv R j" "same_core j j'" "worker_ok R j i pc'"
  shows "step_keeps R i j j' pc'"
  using assms same_core_inv same_core_worker same_core_moves unfolding step_keeps_def by blast

lemma return_error_keeps:
  assumes "job_inv R j" "same_core j j1" "return_error lease e j1 w = (j', w')" "i < length (j_worker_progress j)"
  shows "step_keeps R i j j' (w_pc w')"
proof (rule keeps_same_core [OF assms(1)])
  show "same_core j j'" using assms(2,3) by (auto simp: return_error_def Let_def split: option.splits)
  show "worker_ok R j i (w_pc w')" using assms(3,4)
    by (auto simp: return_error_def Let_def w_goto_def worker_ok_def split: option.splits)
qed

section \<open>Acquiring\<close>

lemma moved_job_inv:
  assumes inv: "job_inv R j" and moves: "sched_moves (written R j') (j_scheduler j) (j_scheduler j')"
    and W: "written R j \<subseteq> written R j'" and size: "j_total_size j' = j_total_size j"
    and cells: "\<And>r. Some r \<in> set (j_worker_progress j') \<Longrightarrow>
      Some r \<in> set (j_worker_progress j) \<or> cell_claim (written R j') (j_scheduler j') r"
  shows "job_inv R j'"
proof -
  note m = sched_movesD [OF moves]
  have "cell_claim (written R j') (j_scheduler j') r" if "Some r \<in> set (j_worker_progress j')" for r
    using cells [OF that] inv cell_claim_evolves [OF _ m(1) W] by (auto simp: job_inv_def)
  then show ?thesis using inv m W size by (auto simp: job_inv_def sched_evolves_def)
qed

lemma sched_moves_mono: "sched_moves N s t \<Longrightarrow> N \<subseteq> M \<Longrightarrow> sched_moves M s t"
  unfolding sched_moves_def by blast

text \<open>A step that only moves the scheduler.\<close>

lemma moved_scheduler:
  assumes inv: "job_inv R j" and moves: "sched_moves (written R j) (j_scheduler j) s'"
    and core: "same_core (j\<lparr>j_scheduler := s'\<rparr>) j'"
  shows "job_inv R j'" "job_moves R i j j'"
proof -
  have W: "written R j' = written R j" using core by (intro written_core) (simp add: same_core_def)
  show "job_inv R j'"
    by (rule moved_job_inv [OF inv]) (use moves core W in \<open>simp_all add: same_core_def\<close>)
  show "job_moves R i j j'" using sched_movesD(1) [OF moves] W core by (simp add: job_moves_def same_core_def)
qed

lemma fresh_lease_held:
  assumes "fresh_lease s s' l" "0 < ss_next_lease s" "sched_inv s'"
  shows "lease_held W s' l (sl_start l)"
  unfolding lease_held_def
proof (intro conjI allI impI)
  fix k assume k: "(sl_id l, k) \<in> set (ss_active s')"
  moreover have "(sl_id l, l) \<in> set (ss_active s')" using assms(1) unfolding fresh_lease_def by blast
  ultimately have "k = l" using active_unique [OF assms(3)] by blast
  then show "sl_start k = sl_start l" "sl_generation k = sl_generation l" "sl_end k \<le> sl_end l"
    "{sl_start l..<min (sl_start l) (sl_end k + 1)} \<subseteq> W" by auto
qed (use assms in \<open>simp_all add: fresh_lease_def\<close>)

lemma activate_core: "same_core j j' \<Longrightarrow> same_core j (fst (activate i l j' w))"
  by (simp add: activate_def Let_def)

lemma activate_pc [simp]: "w_pc (snd (activate i l j w)) = AtGate l"
  by (simp add: activate_def Let_def w_goto_def)

lemma activated_ok:
  assumes inv: "job_inv R j" and moves: "sched_moves {} (j_scheduler j) s'"
    and fresh: "fresh_lease s0 s' l" "0 < ss_next_lease s0"
    and core: "same_core (j\<lparr>j_scheduler := s'\<rparr>) j'" and idle: "worker_ok R j i CycleTop"
  shows "step_keeps R i j j' (AtGate l)"
proof -
  have m: "sched_moves (written R j) (j_scheduler j) s'" using sched_moves_mono [OF moves] by simp
  have "lease_held (written R j') s' l (sl_start l)"
    by (rule fresh_lease_held [OF fresh sched_movesD(3) [OF moves]])
  then have "worker_ok R j' i (AtGate l)" using core idle by (simp add: worker_ok_def same_core_def)
  then show ?thesis using moved_scheduler(1) [OF inv m core] moved_scheduler(2) [OF inv m core, of i] by (simp add: step_keeps_def)
qed

lemma idle_keeps:
  assumes inv: "job_inv R j" and moves: "sched_moves {} (j_scheduler j) s'"
    and core: "same_core (j\<lparr>j_scheduler := s'\<rparr>) j'" and idle: "worker_ok R j i CycleTop"
    and pc: "worker_ok R j' i pc' = worker_ok R j' i CycleTop"
  shows "step_keeps R i j j' pc'"
proof -
  have m: "sched_moves (written R j) (j_scheduler j) s'" using sched_moves_mono [OF moves] by simp
  have "worker_ok R j' i CycleTop" using core idle by (simp add: worker_ok_def same_core_def)
  then show ?thesis using moved_scheduler(1) [OF inv m core] moved_scheduler(2) [OF inv m core, of i] pc by (simp add: step_keeps_def)
qed

lemma idle_pcs:
  "worker_ok R j i AtAcquire = worker_ok R j i CycleTop" "worker_ok R j i AtIdle = worker_ok R j i CycleTop"
  "worker_ok R j i AtSplit = worker_ok R j i CycleTop" "worker_ok R j i Dormant = worker_ok R j i CycleTop"
  "worker_ok R j i Parked = worker_ok R j i CycleTop" "worker_ok R j i Spawned = worker_ok R j i CycleTop"
  "worker_ok R j i AtBackoff = worker_ok R j i CycleTop"
  "worker_ok R j i (AtDecide l e a) = worker_ok R j i CycleTop"
  by (simp_all add: worker_ok_def)

lemma leaving_ok: "worker_ok R j i CycleTop \<Longrightarrow> worker_ok R j i Leaving"
  by (simp add: worker_ok_def Let_def)

lemma acquire_keeps:
  assumes inv: "job_inv R j" and ok: "worker_ok R j i CycleTop" and fresh: "ss_next_lease (j_scheduler j) < u64_max"
    and step: "step_acquire E i inp j w = Some (j', w')"
  shows "step_keeps R i j j' (w_pc w')"
proof -
  obtain now ms le where inp: "inp = Run now ms le" using step by (auto simp: step_acquire_def split: worker_input.splits)
  define want where "want = ready_work_divisor_for (wc_desired_workers (j_control j)) j"
  define s where "s = (if j_applied_ready_divisor j \<noteq> want then set_ready_work_divisor want (j_scheduler j) else j_scheduler j)"
  have si: "sched_inv (j_scheduler j)" using inv by (simp add: job_inv_def)
  have s: "sched_moves {} (j_scheduler j) s" "ss_next_lease s = ss_next_lease (j_scheduler j)"
    using moves_divisor [OF si, of want] si by (auto simp: s_def sched_moves_def set_ready_work_divisor_def)
  have fs: "ss_next_lease s < u64_max" using s fresh by simp
  obtain lease t where r: "sched_acquire (we_F E) now s = (lease, t)" by force
  have "sched_moves {} s t" using moves_acquire [OF sched_movesD(3) [OF s(1)] fs, of "we_F E" now] r by simp
  then have t: "sched_moves {} (j_scheduler j) t"
    using moves_trans [OF s(1)] s(2) sched_movesD(4) by metis
  define j1 where "j1 = j\<lparr>j_applied_ready_divisor := want, j_scheduler := t\<rparr>"
  have core: "same_core (j\<lparr>j_scheduler := t\<rparr>) j1" by (simp add: j1_def same_core_def)
  have res: "(j', w') = (case lease of Some l \<Rightarrow> activate i l j1 w | None \<Rightarrow> (j1, w_goto AtIdle w))"
  proof -
    have "step_acquire E i inp j w = Some (case sched_acquire (we_F E) now s of (lease, t) \<Rightarrow>
        case lease of Some l \<Rightarrow> activate i l (j\<lparr>j_applied_ready_divisor := want, j_scheduler := t\<rparr>) w
        | None \<Rightarrow> (j\<lparr>j_applied_ready_divisor := want, j_scheduler := t\<rparr>, w_goto AtIdle w))"
      unfolding inp step_acquire_def want_def s_def Let_def by (simp add: case_prod_beta')
    then show ?thesis using step r unfolding j1_def by simp
  qed
  show ?thesis
  proof (cases lease)
    case None
    then have "j' = j1" "w_pc w' = AtIdle" using res by (simp_all add: w_goto_def)
    then show ?thesis using idle_keeps [OF inv t core ok] by (simp add: idle_pcs)
  next
    case (Some l)
    have "fresh_lease s t l" using acquire_fresh [OF sched_movesD(3) [OF s(1)] fs] r Some by simp
    moreover have "0 < ss_next_lease s" using inv s(2) by (simp add: job_inv_def)
    moreover have "j' = fst (activate i l j1 w)" "w_pc w' = AtGate l" using res Some by (simp_all add: prod_eq_iff)
    ultimately show ?thesis using activated_ok [OF inv t _ _ activate_core [OF core] ok] by simp
  qed
qed

lemma split_keeps:
  assumes inv: "job_inv R j" and ok: "worker_ok R j i CycleTop" and fresh: "ss_next_lease (j_scheduler j) < u64_max"
    and step: "step_split i inp j w = Some (j', w')"
  shows "step_keeps R i j j' (w_pc w')"
proof -
  obtain now ms le where inp: "inp = Run now ms le" using step by (auto simp: step_split_def split: worker_input.splits)
  define th where "th = sp_split_threshold (ss_policy (j_scheduler j))"
  define r where "r = (case largest_splittable th (j_scheduler j) of
     Some b \<Rightarrow> split_tail now (sl_id b) (sl_generation b) th
       (cell_received_through (j_worker_progress j) (sl_id b)) (j_scheduler j) | None \<Rightarrow> (None, j_scheduler j))"
  obtain x t where rt: "r = (x, t)" by force
  have si: "sched_inv (j_scheduler j)" and pos: "0 < ss_next_lease (j_scheduler j)" using inv by (auto simp: job_inv_def)
  have t: "sched_moves {} (j_scheduler j) t"
  proof (cases "largest_splittable th (j_scheduler j)")
    case (Some b)
    then show ?thesis using rt moves_split [OF si fresh, of now "sl_id b" "sl_generation b" th
        "cell_received_through (j_worker_progress j) (sl_id b)"] by (simp add: r_def)
  qed (use rt si in \<open>simp add: r_def sched_moves_def\<close>)
  have fr: "fresh_lease (j_scheduler j) t l" if "x = Some l" for l
    using rt that by (auto simp: r_def split: option.splits intro: split_fresh [OF si fresh])
  have res: "(j', w') = (case x of Some l \<Rightarrow> activate i l
        (notify_transition (j\<lparr>j_scheduler := t, j_splits := u64_add (j_splits j) 1\<rparr>)) w
      | None \<Rightarrow> (j\<lparr>j_scheduler := t\<rparr>, w_goto Parked w))"
  proof -
    have "step_split i inp j w = Some (case r of (x, t) \<Rightarrow> case x of Some l \<Rightarrow> activate i l
        (notify_transition (j\<lparr>j_scheduler := t, j_splits := u64_add (j_splits j) 1\<rparr>)) w
      | None \<Rightarrow> (j\<lparr>j_scheduler := t\<rparr>, w_goto Parked w))"
      unfolding inp step_split_def th_def r_def Let_def by (simp add: case_prod_beta')
    then show ?thesis using step rt by simp
  qed
  show ?thesis
  proof (cases x)
    case None
    then have "j' = j\<lparr>j_scheduler := t\<rparr>" "w_pc w' = Parked" using res by (simp_all add: w_goto_def)
    then show ?thesis using idle_keeps [OF inv t _ ok] by (simp add: idle_pcs)
  next
    case (Some l)
    have core: "same_core (j\<lparr>j_scheduler := t\<rparr>) (j\<lparr>j_scheduler := t, j_splits := u64_add (j_splits j) 1\<rparr>)"
      by (simp add: same_core_def)
    have "j' = fst (activate i l (notify_transition (j\<lparr>j_scheduler := t, j_splits := u64_add (j_splits j) 1\<rparr>)) w)"
      "w_pc w' = AtGate l" using res Some by (simp_all add: prod_eq_iff)
    then show ?thesis using activated_ok [OF inv t fr [OF Some] pos activate_core ok] core by simp
  qed
qed

lemma idle_steps_keep:
  assumes "job_inv R j" "worker_ok R j i CycleTop"
  shows "step_spawned i inp j w = Some (j', w') \<Longrightarrow> step_keeps R i j j' (w_pc w')"
    "step_cycle_top i inp j w = Some (j', w') \<Longrightarrow> step_keeps R i j j' (w_pc w')"
    "step_idle inp j w = Some (j', w') \<Longrightarrow> step_keeps R i j j' (w_pc w')"
    "step_parked inp j w = Some (j', w') \<Longrightarrow> step_keeps R i j j' (w_pc w')"
    "step_backoff inp j w = Some (j', w') \<Longrightarrow> step_keeps R i j j' (w_pc w')"
    "step_decide E lease e ra inp j w = Some (j', w') \<Longrightarrow> step_keeps R i j j' (w_pc w')"
  using assms
  by (auto intro!: keeps_same_core simp: step_spawned_def step_cycle_top_def step_idle_def step_parked_def step_backoff_def
      step_decide_def Let_def w_goto_def idle_pcs leaving_ok split: worker_input.splits if_splits option.splits retry_decision.splits)

section \<open>The request\<close>

lemma worker_in_range: "worker_ok R j i pc \<Longrightarrow> i < length (j_worker_progress j)"
  by (simp add: worker_ok_def Let_def)

lemma issue_request_keeps:
  assumes "job_inv R j" "worker_ok R j i (AtGate lease)" "same_core j j1" "issue_request i lease j1 w = (j', w')"
  shows "step_keeps R i j j' (w_pc w')"
proof (rule keeps_same_core [OF assms(1)])
  show "same_core j j'" using assms(3,4) by (auto simp: issue_request_def Let_def)
  have "w_pc w' = AtRequest lease (sl_start lease) False"
    using assms(2-4) by (auto simp: issue_request_def Let_def w_goto_def worker_ok_def same_core_def lease_held_def)
  then show "worker_ok R j i (w_pc w')" using assms(2) by (simp add: worker_ok_def Let_def)
qed

lemma gate_keeps:
  assumes inv: "job_inv R j" and ok: "worker_ok R j i (AtGate lease)" and step: "step_gate i lease inp j w = Some (j', w')"
  shows "step_keeps R i j j' (w_pc w')"
proof -
  obtain now ms le where inp: "inp = Run now ms le" using step by (auto simp: step_gate_def split: worker_input.splits)
  consider (sleep) "j' = j" "w_pc w' = GateSleep lease" | (issue) "issue_request i lease j w = (j', w')"
    | (admit) adm where "same_core j j'" "w_pc w' = AtAdmission lease adm"
    using step by (auto simp: inp step_gate_def w_goto_def Let_def split: if_splits option.splits prod.splits)
  then show ?thesis
  proof cases
    case issue
    then show ?thesis by (rule issue_request_keeps [OF inv ok job_frames(1)])
  qed (use inv ok in \<open>auto intro!: keeps_same_core simp: worker_ok_def Let_def\<close>)
qed

lemma gate_sleep_keeps:
  assumes inv: "job_inv R j" and ok: "worker_ok R j i (AtGate lease)" and step: "step_gate_sleep lease inp j w = Some (j', w')"
  shows "step_keeps R i j j' (w_pc w')"
proof -
  consider "j' = j" "w_pc w' = AtGate lease" | "return_error lease (Fatal Cancelled) j w = (j', w')"
    using step by (auto simp: step_gate_sleep_def w_goto_def split: worker_input.splits if_splits)
  then show ?thesis
    using return_error_keeps [OF inv job_frames(1) _ worker_in_range [OF ok]] keeps_same_core [OF inv job_frames(1) ok] by cases auto
qed

lemma admission_keeps:
  assumes inv: "job_inv R j" and ok: "worker_ok R j i (AtGate lease)"
    and step: "step_admission i lease adm inp j w = Some (j', w')"
  shows "step_keeps R i j j' (w_pc w')"
proof -
  have wait: "step_keeps R i j j (AtAdmission lease a)" for a
    using ok keeps_same_core [OF inv job_frames(1)] by (simp add: worker_ok_def Let_def)
  note issue = issue_request_keeps [OF inv ok]
  note cancel = return_error_keeps [OF inv job_frames(1) _ worker_in_range [OF ok]]
  show ?thesis
    using step wait by (auto simp: step_admission_def elim!: issue [rotated] cancel
        split: worker_input.splits admission.splits option.splits if_splits)
qed

lemma request_failed_keeps:
  assumes inv: "job_inv R j" and ok: "worker_ok R j i (AtRequest lease sf p)"
    and res: "request_failed E lease sf p f j w = (j', w')"
  shows "step_keeps R i j j' (w_pc w')"
proof -
  have retry: "step_keeps R i j (j\<lparr>j_credentials := c\<rparr>) (AtRequest lease sf True)" for c
    using ok keeps_same_core [OF inv] by (simp add: worker_ok_def Let_def)
  note error = return_error_keeps [OF inv _ _ worker_in_range [OF ok]]
  show ?thesis
    using res retry by (auto simp: request_failed_def Let_def elim!: error [rotated]
        split: option.splits if_splits prod.splits sum.splits bool.splits)
qed

lemma request_keeps:
  assumes inv: "job_inv R j" and ok: "worker_ok R j i (AtRequest lease sf p)"
    and exact: "exact_input R E j (AtRequest lease sf p) inp" and step: "step_request E lease sf p inp j w = Some (j', w')"
  shows "step_keeps R i j j' (w_pc w')"
proof -
  have held: "lease_held (written R j) (j_scheduler j) lease (sl_start lease)" "sf = sl_start lease"
    using ok by (simp_all add: worker_ok_def Let_def)
  show ?thesis
  proof (cases inp)
    case (SendFailed e)
    then show ?thesis using step request_failed_keeps [OF inv ok] by (simp add: step_request_def)
  next
    case (Head st hs ver)
    show ?thesis
    proof (cases "accept_head (we_url E) (lease_intent lease sf j) (from_head st hs ver)")
      case (Inl f)
      then show ?thesis using step request_failed_keeps [OF inv ok] by (simp add: step_request_def Head)
    next
      case (Inr a)
      have r: "j' = j" "w_pc w' = AtBodyStart lease (ar_start a) (ar_end a) (body_for (lease_intent lease sf j))"
        using step Inr by (auto simp: step_request_def Head)
      let ?ri = "\<lparr>ri_range = (sf, sl_end lease), ri_established_total = Some (j_total_size j),
         ri_expected_validators = Some (j_validators j), ri_full_response = InvalidRange\<rparr>"
      have acc: "accept_head (we_url E) (RangeOf ?ri) (from_head st hs ver) = Inr a" using Inr by (simp add: lease_intent_def)
      have cr: "rm_content_range (from_head st hs ver) = None
          \<or> (\<exists>cr. rm_content_range (from_head st hs ver) = Some cr \<and> cr_start cr \<le> cr_end cr)"
        using from_head_range [of st hs ver] by (cases "rm_content_range (from_head st hs ver)") auto
      have "ar_start a = sf" using accept_head_range(1) [OF acc _ cr] held by (simp add: lease_held_def)
      moreover have "ar_end a = sl_end lease" using exact Inr by (simp add: exact_input_def Head)
      ultimately have "worker_ok R j i (w_pc w')" using ok held r(2)
        by (simp add: worker_ok_def Let_def body_for_def lease_intent_def)
      then show ?thesis using keeps_same_core [OF inv] r(1) by simp
    qed
  qed (use step in \<open>simp_all add: step_request_def\<close>)
qed

section \<open>The body\<close>

lemma refresh_end_ok:
  assumes inv: "sched_inv (j_scheduler j)" and held: "lease_held W (j_scheduler j) L x" and e: "sl_start L \<le> e"
    and old: "ends_by (j_scheduler j) L e"
  shows "ends_by (j_scheduler j) L (refresh_end L j e)" "sl_start L \<le> refresh_end L j e" "refresh_end L j e \<le> e"
proof -
  let ?s = "j_scheduler j"
  have l: "sl_generation l = sl_generation L \<and> sl_start L \<le> sl_end l" if "hm_get (ss_active ?s) (sl_id L) = Some l" for l
    using held hm_get_in [OF that] active_ok [OF inv hm_get_in [OF that]] by (auto simp: lease_held_def lease_ok_def)
  show "ends_by ?s L (refresh_end L j e)"
    unfolding ends_by_def
  proof (intro allI impI)
    fix k assume k: "(sl_id L, k) \<in> set (ss_active ?s)"
    then have "hm_get (ss_active ?s) (sl_id L) = Some k" using active_get [OF inv] by blast
    moreover have "sl_end k \<le> e" using old k unfolding ends_by_def by blast
    ultimately show "sl_end k \<le> refresh_end L j e" using l by (simp add: refresh_end_def sched_lease_end_def)
  qed
  show "sl_start L \<le> refresh_end L j e" "refresh_end L j e \<le> e"
    using e l by (auto simp: refresh_end_def sched_lease_end_def split: option.splits if_splits)
qed

lemma body_start_keeps:
  assumes inv: "job_inv R j" and ok: "worker_ok R j i (AtBodyStart L vs ve body)"
    and step: "step_body_start L vs ve body inp j w = Some (j', w')"
  shows "step_keeps R i j j' (w_pc w')"
proof -
  have si: "sched_inv (j_scheduler j)" using inv by (simp add: job_inv_def)
  have held: "lease_held (written R j) (j_scheduler j) L (sl_start L)" "vs = sl_start L" "ve = sl_end L"
      "hb_limit body = Some (vs, ve, 0)" "j_worker_progress j ! i = None" "i < length (j_worker_progress j)"
    using ok by (simp_all add: worker_ok_def Let_def)
  have le: "sl_start L \<le> sl_end L" "ends_by (j_scheduler j) L (sl_end L)"
    using held(1) by (simp_all add: lease_held_def ends_by_def)
  note e = refresh_end_ok [OF si held(1) le]
  have "j' = j" "w_pc w' = AtBodyTop \<lparr>br_lease = L, br_start = vs, br_end = ve, br_body = body, br_offset = 0,
      br_effective_end = refresh_end L j ve\<rparr>"
    using step by (auto simp: step_body_start_def w_goto_def split: worker_input.splits)
  then show ?thesis using keeps_same_core [OF inv job_frames(1)] held e le
    by (simp add: worker_ok_def body_ok_def delivered_def cell_at_def)
qed

lemma body_top_keeps:
  assumes inv: "job_inv R j" and ok: "worker_ok R j i (AtBodyTop b)" and step: "step_body_top b inp j w = Some (j', w')"
  shows "step_keeps R i j j' (w_pc w')"
proof -
  consider (go) "j' = j" "w_pc w' = AtBody b" | (err) w1 where "return_error (br_lease b) (Fatal Cancelled) j w1 = (j', w')"
    using step by (auto simp: step_body_top_def w_goto_def Let_def split: worker_input.splits if_splits)
  then show ?thesis
  proof cases
    case go
    then show ?thesis using ok keeps_same_core [OF inv job_frames(1)] by (simp add: worker_ok_def Let_def)
  next
    case err
    then show ?thesis by (rule return_error_keeps [OF inv job_frames(1) _ worker_in_range [OF ok]])
  qed
qed

lemma body_bounds:
  assumes "job_inv R j" "body_ok W (j_scheduler j) c b"
  shows "br_start b \<le> br_end b" "Suc (br_end b) < u64_max" "u64_add (br_start b) (br_offset b) = br_start b + br_offset b"
    "u64_add (br_effective_end b) 1 = br_effective_end b + 1"
proof -
  have b: "br_start b \<le> br_end b" "br_end b < ss_total_size (j_scheduler j)" "br_start b + br_offset b \<le> br_end b + 1"
      "br_effective_end b \<le> br_end b"
    using assms(2) by (auto simp: body_ok_def lease_held_def)
  have "ss_total_size (j_scheduler j) < u64_max" using assms(1) by (simp add: job_inv_def)
  then show "br_start b \<le> br_end b" "Suc (br_end b) < u64_max" "u64_add (br_start b) (br_offset b) = br_start b + br_offset b"
    "u64_add (br_effective_end b) 1 = br_effective_end b + 1"
    using b by (simp_all add: u64_exact)
qed

lemma take_chunk_keeps:
  assumes inv: "job_inv R j" and ok: "i < length (j_worker_progress j)" "body_ok (written R j) (j_scheduler j) (j_worker_progress j ! i) b"
    and body: "hb_limit body = Some (br_start b, br_end b, br_offset b + length data)"
    and data: "data \<noteq> []" "data = map R [br_start b + br_offset b..<br_start b + br_offset b + length data]"
    and res: "take_chunk i (b\<lparr>br_body := body\<rparr>) data j w = (j', w')"
  shows "step_keeps R i j j' (w_pc w')"
proof -
  let ?b = "b\<lparr>br_body := body\<rparr>" and ?x = "br_start b + br_offset b" and ?e = "br_effective_end b"
  note bb = body_bounds [OF inv ok(2)]
  have ok': "body_ok (written R j) (j_scheduler j) (j_worker_progress j ! i) ?b"
    using ok(2) by (simp add: body_ok_def cell_at_def)
  define n where "n = owned_len ?x ?e (length data)"
  have sub: "u64_sub (u64_add ?e 1) ?x = ?e + 1 - ?x" if "?x \<le> ?e"
    using that bb(2,4) ok(2) by (simp add: u64_sub_exact body_ok_def)
  have n: "n = (if ?e < ?x then 0 else min (?e + 1 - ?x) (length data))" using sub by (simp add: n_def owned_len_def)
  show ?thesis
  proof (cases "n = 0")
    case True
    then have "?e < ?x" using n data(1) by (auto simp: min_def split: if_splits)
    then have "body_full (j_scheduler j) ?b" using ok(2)
      by (fastforce simp: body_full_def body_ok_def ends_by_def)
    then have "worker_ok R j i (AtReconcile ?b)" using ok(1) ok' by (simp add: worker_ok_def)
    moreover have "w_pc w' = AtReconcile ?b" "same_core j j'"
      using res True by (auto simp: take_chunk_def Let_def bb(3) n_def [symmetric] split: if_splits)
    ultimately show ?thesis using keeps_same_core [OF inv] by simp
  next
    case False
    have owned: "take n data = map R [?x..<?x + n]" "n \<le> length data" "?x + n \<le> ?e + 1" "n < length data \<longrightarrow> ?x + n = ?e + 1"
    proof -
      show le: "n \<le> length data" "?x + n \<le> ?e + 1" "n < length data \<longrightarrow> ?x + n = ?e + 1"
        using n False by (auto split: if_splits)
      have "take n data = take n (map R [?x..<?x + length data])" using data(2) by simp
      then show "take n data = map R [?x..<?x + n]" using le(1) by (simp add: take_map)
    qed
    have "chunk_ok R ?b (take n data) (n < length data)"
      using owned False data(1) body by (simp add: chunk_ok_def Let_def delivered_def)
    then have "worker_ok R j i (AtReserve ?b (take n data) (n < length data))" using ok(1) ok' by (simp add: worker_ok_def)
    moreover have "w_pc w' = AtReserve ?b (take n data) (n < length data)" "same_core j j'"
      using res False by (auto simp: take_chunk_def Let_def bb(3) n_def [symmetric] split: if_splits)
    ultimately show ?thesis using keeps_same_core [OF inv] by simp
  qed
qed

lemma body_keeps:
  assumes inv: "job_inv R j" and ok: "worker_ok R j i (AtBody b)" and exact: "exact_input R E j (AtBody b) inp"
    and step: "step_body E i b inp j w = Some (j', w')"
  shows "step_keeps R i j j' (w_pc w')"
proof -
  have b: "i < length (j_worker_progress j)" "body_ok (written R j) (j_scheduler j) (j_worker_progress j ! i) b"
      "delivered b (br_offset b)" using ok by (simp_all add: worker_ok_def Let_def)
  note bb = body_bounds [OF inv b(2)]
  note error = return_error_keeps [OF inv job_frames(1) _ b(1)]
  show ?thesis
  proof (cases inp)
    case Woken
    have si: "sched_inv (j_scheduler j)" using inv by (simp add: job_inv_def)
    have held: "lease_held (written R j) (j_scheduler j) (br_lease b) (br_start b + br_offset b)"
        "sl_start (br_lease b) \<le> br_effective_end b" "ends_by (j_scheduler j) (br_lease b) (br_effective_end b)"
      using b(2) by (simp_all add: body_ok_def)
    note e = refresh_end_ok [OF si held]
    let ?b = "b\<lparr>br_effective_end := refresh_end (br_lease b) j (br_effective_end b)\<rparr>"
    have "worker_ok R j i (AtBodyTop ?b)" using b e
      by (simp add: worker_ok_def body_ok_def cell_at_def delivered_def)
    then show ?thesis using step keeps_same_core [OF inv job_frames(1)] error
      by (auto simp: step_body_def Woken split: if_splits)
  next
    case (Frame frame)
    obtain ev body where p: "poll_step (j_cancelled j) (j_paused j) frame (br_body b) = (ev, body)" by force
    have same: "(\<exists>data. ev = Inr (BodyData data)) \<or> b\<lparr>br_body := body\<rparr> = b" using poll_step_other [OF p] by auto
    have res: "(case ev of Inr (BodyData data) \<Rightarrow> take_chunk i (b\<lparr>br_body := body\<rparr>) data j w
        | Inr BodyEnd \<Rightarrow> (j, w_goto (AtReconcile (b\<lparr>br_body := body\<rparr>)) w)
        | Inr BodyPaused \<Rightarrow> (j, w_goto (AtPauseSend (b\<lparr>br_body := body\<rparr>)) w)
        | Inl e \<Rightarrow> body_fault E i (b\<lparr>br_body := body\<rparr>) e j w) = (j', w')"
      using step p by (simp add: step_body_def Frame Let_def)
    have lim: "hb_limit (br_body b) = Some (br_start b, br_end b, br_offset b)" using b(3) by (simp add: delivered_def)
    consider (fault) e where "ev = Inl e" | (data) data where "ev = Inr (BodyData data)" | (eof) "ev = Inr BodyEnd"
      | (pause) "ev = Inr BodyPaused" by (metis body_event.exhaust sum.exhaust)
    then show ?thesis
    proof cases
      case fault
      then show ?thesis using res error by (auto simp: body_fault_def Let_def)
    next
      case (data data)
      note d = poll_step_data [OF p [unfolded data] lim bb(1,2)]
      have ex: "data \<noteq> []" "data = map R [br_start b + br_offset b..<br_start b + br_offset b + length data]"
        using exact d(1) by (simp_all add: exact_input_def Frame)
      show ?thesis using take_chunk_keeps [OF inv b(1,2) d(5) ex] res data by simp
    next
      case eof
      have bd: "b\<lparr>br_body := body\<rparr> = b" using same eof by auto
      have off: "br_offset b = br_end b - br_start b + 1"
        using exact poll_step_end(1) [OF p [unfolded eof]] by (simp add: exact_input_def Frame)
      have "body_full (j_scheduler j) b"
        unfolding body_full_def using b(2) off bb(1) by (auto simp: body_ok_def lease_held_def less_Suc_eq_le)
      then have "worker_ok R j i (AtReconcile b)" using b by (simp add: worker_ok_def)
      then show ?thesis using res eof keeps_same_core [OF inv job_frames(1)] by (auto simp: bd)
    next
      case pause
      have bd: "b\<lparr>br_body := body\<rparr> = b" using same pause by auto
      then show ?thesis using res pause ok keeps_same_core [OF inv job_frames(1)] by (auto simp: worker_ok_def Let_def)
    qed
  qed (use step in \<open>simp_all add: step_body_def\<close>)
qed

lemma admit_steps_keep:
  assumes inv: "job_inv R j" and ok: "worker_ok R j i (AtReserve b owned tr)"
  shows "step_reserve b owned tr inp j w = Some (j', w') \<Longrightarrow> step_keeps R i j j' (w_pc w')"
    "step_rate b owned tr inp j w = Some (j', w') \<Longrightarrow> step_keeps R i j j' (w_pc w')"
    "step_retag b owned tr inp j w = Some (j', w') \<Longrightarrow> step_keeps R i j j' (w_pc w')"
proof -
  note error = return_error_keeps [OF inv job_frames(1) _ worker_in_range [OF ok]]
  have next': "step_keeps R i j j (AtRate b owned tr)" "step_keeps R i j j (AtRetag b owned tr)" "step_keeps R i j j (AtWrite b owned tr)"
    using keeps_same_core [OF inv job_frames(1)] ok by (simp_all add: worker_ok_def Let_def)
  show "step_reserve b owned tr inp j w = Some (j', w') \<Longrightarrow> step_keeps R i j j' (w_pc w')"
    "step_rate b owned tr inp j w = Some (j', w') \<Longrightarrow> step_keeps R i j j' (w_pc w')"
    "step_retag b owned tr inp j w = Some (j', w') \<Longrightarrow> step_keeps R i j j' (w_pc w')"
    using next' by (auto simp: step_reserve_def step_rate_def step_retag_def elim!: error split: worker_input.splits if_splits)
qed

section \<open>Writing\<close>

lemma write_written:
  assumes "data = map R [x..<x + length data]" "j_output j' = write_at x data (j_output j)"
  shows "written R j' = written R j \<union> {x..<x + length data}"
proof -
  have at: "data ! (p - x) = R p" if "x \<le> p" "p < x + length data" for p
  proof -
    have "data ! (p - x) = map R [x..<x + length data] ! (p - x)" using assms(1) by simp
    also have "\<dots> = R p" using that by simp
    finally show ?thesis .
  qed
  show ?thesis using at unfolding written_def assms(2) write_at_def by auto
qed

lemma write_fail_keeps:
  assumes inv: "job_inv R j" and ok: "worker_ok R j i pc"
    and data: "data = map R [x..<x + length data]" and j1: "j1 = j\<lparr>j_output := write_at x data (j_output j)\<rparr>"
    and res: "return_error lease e j1 w = (j', w')"
  shows "step_keeps R i j j' (w_pc w')"
proof -
  have W: "written R j1 = written R j \<union> {x..<x + length data}" by (rule write_written [OF data]) (simp add: j1)
  have m: "sched_moves (written R j1) (j_scheduler j) (j_scheduler j1)"
    using inv by (auto simp: sched_moves_def j1 job_inv_def)
  have "job_inv R j1" by (rule moved_job_inv [OF inv m]) (use W in \<open>auto simp: j1\<close>)
  moreover have "i < length (j_worker_progress j1)" using worker_in_range [OF ok] by (simp add: j1)
  ultimately have "step_keeps R i j1 j' (w_pc w')" using return_error_keeps [OF _ job_frames(1) res] by blast
  moreover have "job_moves R i j j1" using W by (auto simp: job_moves_def j1)
  ultimately show ?thesis unfolding step_keeps_def job_moves_def by (auto simp: j1 dest: sched_evolves_trans)
qed

lemma write_keeps:
  assumes inv: "job_inv R j" and ok: "worker_ok R j i (AtWrite b owned tr)"
    and step: "step_write i b owned tr inp j w = Some (j', w')"
  shows "step_keeps R i j j' (w_pc w')"
proof -
  let ?x = "br_start b + br_offset b"
  have b: "i < length (j_worker_progress j)" "body_ok (written R j) (j_scheduler j) (j_worker_progress j ! i) b"
    and c: "chunk_ok R b owned tr" using ok by (simp_all add: worker_ok_def Let_def)
  note bb = body_bounds [OF inv b(2)]
  have data: "owned \<noteq> []" "owned = map R [?x..<?x + length owned]" "?x + length owned \<le> br_effective_end b + 1"
      "tr \<Longrightarrow> ?x + length owned = br_effective_end b + 1" "\<not> tr \<Longrightarrow> delivered b (br_offset b + length owned)"
    using c by (auto simp: chunk_ok_def Let_def split: if_splits)
  show ?thesis
  proof (cases inp)
    case (WriteFailed n e)
    have "take n owned = take n (map R [?x..<?x + length owned])" using data(2) by simp
    also have "\<dots> = map R [?x..<?x + length (take n owned)]" by (rule nth_equalityI) simp_all
    finally have pre: "take n owned = map R [?x..<?x + length (take n owned)]" .
    show ?thesis using step write_fail_keeps [OF inv ok pre refl] by (auto simp: step_write_def Let_def WriteFailed bb(3))
  next
    case Written
    let ?o = "br_offset b + length owned" and ?L = "br_lease b"
    let ?b = "b\<lparr>br_offset := ?o\<rparr>"
    let ?r = "\<lparr>pr_lease_id = sl_id ?L, pr_generation = sl_generation ?L, pr_lease_start = sl_start ?L,
      pr_written_through = br_start b + ?o, pr_received_through = br_start b + ?o\<rparr>"
    have held: "lease_held (written R j) (j_scheduler j) ?L ?x" and be: "sl_start ?L = br_start b" "sl_end ?L = br_end b"
        "br_start b \<le> br_effective_end b" "br_effective_end b \<le> br_end b" "ends_by (j_scheduler j) ?L (br_effective_end b)"
      using b(2) by (simp_all add: body_ok_def)
    have o: "u64_add (br_offset b) (length owned) = ?o" "u64_add (br_start b) ?o = br_start b + ?o"
      using data(3) be(4) bb(2) by (simp_all add: u64_exact)
    have r: "observe_record ?r = Some ?r" using held by (simp add: observe_record_def lease_held_def)
    have res: "j' = publish_cell i ?r (j\<lparr>j_output := write_at ?x owned (j_output j)\<rparr>)"
        "w_pc w' = (if tr then AtReconcile ?b else AtBodyTop ?b)"
      using step by (auto simp: step_write_def Let_def Written bb(3) o)
    have j': "j_scheduler j' = j_scheduler j" "j_output j' = write_at ?x owned (j_output j)" "j_total_size j' = j_total_size j"
        "j_worker_progress j' = (j_worker_progress j)[i := Some ?r]"
      by (simp_all add: res(1) publish_cell_def r)
    have W: "written R j' = written R j \<union> {?x..<?x + length owned}" by (rule write_written [OF data(2) j'(2)])
    have held': "lease_held (written R j') (j_scheduler j') ?L (br_start b + ?o)"
      unfolding j'(1) lease_held_def
    proof (intro conjI allI impI)
      fix l assume l: "(sl_id ?L, l) \<in> set (ss_active (j_scheduler j))"
      then have old: "sl_start l = sl_start ?L" "sl_generation l = sl_generation ?L" "sl_end l \<le> sl_end ?L"
          "{sl_start ?L..<min ?x (sl_end l + 1)} \<subseteq> written R j" using held unfolding lease_held_def by blast+
      then show "sl_start l = sl_start ?L" "sl_generation l = sl_generation ?L" "sl_end l \<le> sl_end ?L" by simp_all
      have "{sl_start ?L..<min (br_start b + ?o) (sl_end l + 1)} \<subseteq> {sl_start ?L..<min ?x (sl_end l + 1)} \<union> {?x..<?x + length owned}"
        by auto
      then show "{sl_start ?L..<min (br_start b + ?o) (sl_end l + 1)} \<subseteq> written R j'" using old(4) unfolding W by blast
    qed (use held in \<open>simp_all add: lease_held_def\<close>)
    have claim: "cell_claim (written R j') (j_scheduler j') ?r"
      using held' by (auto simp: cell_claim_def lease_held_def)
    have m: "sched_moves (written R j') (j_scheduler j) (j_scheduler j')"
      using inv by (auto simp: sched_moves_def j'(1) job_inv_def)
    have ji: "job_inv R j'"
    proof (rule moved_job_inv [OF inv m])
      fix r' assume "Some r' \<in> set (j_worker_progress j')"
      then show "Some r' \<in> set (j_worker_progress j) \<or> cell_claim (written R j') (j_scheduler j') r'"
        using claim set_update_subset_insert [of "j_worker_progress j" i "Some ?r"] unfolding j'(4) by auto
    qed (use W j'(3) in auto)
    have jm: "job_moves R i j j'" using W by (auto simp: job_moves_def j'(1,4))
    have off: "0 < ?o" using data(1) by simp
    have bo: "body_ok (written R j') (j_scheduler j') (j_worker_progress j' ! i) ?b"
      using held' be(1,2,4,5) data(3) off b(1) unfolding body_ok_def cell_at_def j'(1,4) by (simp add: be(3))
    have "worker_ok R j' i (w_pc w')"
    proof (cases tr)
      case True
      have "body_full (j_scheduler j') ?b"
        unfolding body_full_def j'(1) using be(5) data(4) [OF True] off by (auto simp: ends_by_def less_Suc_eq_le)
      then show ?thesis using bo b(1) res(2) True by (simp add: worker_ok_def j'(4))
    next
      case False
      then show ?thesis using bo b(1) res(2) data(5) by (simp add: worker_ok_def j'(4) delivered_def)
    qed
    then show ?thesis using ji jm by (simp add: step_keeps_def)
  qed (use step in \<open>simp_all add: step_write_def Let_def\<close>)
qed

lemma pause_steps_keep:
  assumes inv: "job_inv R j" and ok: "worker_ok R j i (AtBodyTop b)"
  shows "step_pause_send i b inp j w = Some (j', w') \<Longrightarrow> step_keeps R i j j' (w_pc w')"
    "step_pause_ack b inp j w = Some (j', w') \<Longrightarrow> step_keeps R i j j' (w_pc w')"
    "w_pc w = AtPauseSleep b \<Longrightarrow> step_pause_sleep b inp j w = Some (j', w') \<Longrightarrow> step_keeps R i j j' (w_pc w')"
proof -
  note error = return_error_keeps [OF inv job_frames(1) _ worker_in_range [OF ok]]
  have next': "step_keeps R i j j (AtPauseSleep b)" "step_keeps R i j j (AtBodyTop b)"
      "step_keeps R i j (j\<lparr>j_save_now := l\<rparr>) (AtPauseAck b)" for l
    using keeps_same_core [OF inv] ok by (simp_all add: worker_ok_def Let_def)
  show "step_pause_send i b inp j w = Some (j', w') \<Longrightarrow> step_keeps R i j j' (w_pc w')"
    using next' by (auto simp: step_pause_send_def elim!: error split: worker_input.splits if_splits)
  show "step_pause_ack b inp j w = Some (j', w') \<Longrightarrow> step_keeps R i j j' (w_pc w')"
  proof -
    assume s: "step_pause_ack b inp j w = Some (j', w')"
    obtain now ms le where inp: "inp = Run now ms le" using s by (cases inp) (simp_all add: step_pause_ack_def)
    show ?thesis
    proof (cases "w_ack w = Some (Inr ())")
      case True
      then show ?thesis using s next'(1) by (auto simp: step_pause_ack_def inp split: unit.splits)
    next
      case False
      then obtain e where "return_error (br_lease b) e j w = (j', w')"
        using s by (cases "w_ack w") (auto simp: step_pause_ack_def inp split: sum.splits if_splits)
      then show ?thesis by (rule error)
    qed
  qed
  show "w_pc w = AtPauseSleep b \<Longrightarrow> step_pause_sleep b inp j w = Some (j', w') \<Longrightarrow> step_keeps R i j j' (w_pc w')"
    using next' by (auto simp: step_pause_sleep_def elim!: error split: worker_input.splits if_splits)
qed

section \<open>Settling\<close>

lemma reconcile_fields:
  "j_scheduler (reconcile_and_credit j) = snd (absorb_worker_progress (j_worker_progress j) (j_scheduler j))"
  "same_core (j\<lparr>j_scheduler := snd (absorb_worker_progress (j_worker_progress j) (j_scheduler j))\<rparr>) (reconcile_and_credit j)"
  by (simp_all add: reconcile_and_credit_def Let_def case_prod_beta' same_core_def)

lemma reconcile_moves:
  assumes inv: "job_inv R j"
  shows "job_inv R (reconcile_and_credit j)" "job_moves R i j (reconcile_and_credit j)"
    "sched_evolves (j_scheduler j) (j_scheduler (reconcile_and_credit j))"
proof -
  have "sched_moves (written R j) (j_scheduler j) (snd (absorb_worker_progress (j_worker_progress j) (j_scheduler j)))"
    using moves_absorb [of "j_scheduler j" "j_worker_progress j" "written R j"] inv by (simp add: job_inv_def)
  from moved_scheduler(1) [OF inv this reconcile_fields(2)] moved_scheduler(2) [OF inv this reconcile_fields(2), of i]
    sched_movesD(1) [OF this] reconcile_fields(1) [of j]
  show "job_inv R (reconcile_and_credit j)" "job_moves R i j (reconcile_and_credit j)"
    "sched_evolves (j_scheduler j) (j_scheduler (reconcile_and_credit j))" by simp_all
qed

text \<open>A cell that has passed the end of its lease moves the acknowledged offset to the end.\<close>

lemma report_reaches_end:
  assumes inv: "sched_inv s"
    and g: "\<And>l. (i, l) \<in> set (ss_active s) \<Longrightarrow> sl_generation l = g \<and> sl_end l < x"
    and l': "(i, l') \<in> set (ss_active (snd (report_progress i g x s)))"
  shows "sl_next_offset l' = sl_end l' + 1"
proof (cases "hm_get (ss_active s) i")
  case None
  then have "(i, l') \<in> set (ss_active s)" using l' by (simp add: report_progress_def)
  then show ?thesis using active_get [OF inv] None by simp
next
  case (Some l)
  have il: "(i, l) \<in> set (ss_active s)" by (rule hm_get_in [OF Some])
  have ok: "sl_next_offset l \<le> sl_end l + 1" "sl_end l < u64_max" "sl_generation l = g" "sl_end l < x"
    using active_ok [OF inv il] sched_inv_wf(3) [OF inv] g [OF il] by (auto simp: lease_ok_def)
  then have e: "min x (sat_add (sl_end l) 1) = sl_end l + 1" by (simp add: u64_exact)
  show ?thesis
  proof (cases "x \<le> sl_next_offset l")
    case True
    then have "snd (report_progress i g x s) = s" using Some ok(3) by (simp add: report_progress_def)
    then have "l' = l" using l' active_unique [OF inv il] by simp
    then show ?thesis using True ok by simp
  next
    case False
    then have "l' = l\<lparr>sl_next_offset := sl_end l + 1\<rparr>"
      using l' Some ok(3) e sched_inv_wf(5) [OF inv] by (simp add: report_progress_def set_hm_insert)
    then show ?thesis by simp
  qed
qed

lemma absorb_reaches_end:
  assumes "sched_inv s" "\<And>r. Some r \<in> set cells \<Longrightarrow> cell_claim N s r" "Some r \<in> set cells"
    and "\<And>l. (pr_lease_id r, l) \<in> set (ss_active s) \<Longrightarrow> sl_generation l = pr_generation r \<and> sl_end l < pr_written_through r"
    and "(pr_lease_id r, l') \<in> set (ss_active (snd (absorb_worker_progress cells s)))"
  shows "sl_next_offset l' = sl_end l' + 1"
  using assms
proof (induction cells arbitrary: s)
  case (Cons cell cells)
  let ?t = "snd (absorb_cell cell s)" and ?i = "pr_lease_id r"
  have last: "snd (absorb_worker_progress (cell # cells) s) = snd (absorb_worker_progress cells ?t)"
    by (simp add: Let_def case_prod_beta')
  have one: "sched_moves N s ?t"
  proof -
    have "snd (absorb_worker_progress [cell] s) = ?t" by (simp add: Let_def case_prod_beta')
    moreover have "sched_moves N s (snd (absorb_worker_progress [cell] s))"
      by (rule conjunct1 [OF moves_absorb [OF Cons.prems(1)]]) (simp add: Cons.prems(2))
    ultimately show ?thesis by simp
  qed
  note m = sched_movesD [OF one]
  have claims: "cell_claim N ?t r" if "Some r \<in> set cells" for r
    by (rule cell_claim_evolves [OF Cons.prems(2) m(1) order_refl]) (use that in simp)
  have n: "?i < ss_next_lease s" using Cons.prems(2) [OF Cons.prems(3)] by (simp add: cell_claim_def)
  show ?case
  proof (cases "Some r \<in> set cells")
    case True
    have "sl_generation l = pr_generation r \<and> sl_end l < pr_written_through r" if "(?i, l) \<in> set (ss_active ?t)" for l
      using sched_evolvesD [OF m(1) n that] Cons.prems(4) by (metis le_less_trans)
    then show ?thesis using Cons.IH [OF m(3) claims True] Cons.prems(5) last by simp
  next
    case False
    then have cell: "cell = Some r" using Cons.prems(3) by simp
    have t: "?t = snd (report_progress ?i (pr_generation r) (pr_written_through r) s)"
      by (auto simp: cell absorb_cell_def Let_def lease_next_offset_def report_progress_def split: option.splits if_splits)
    have evs: "sched_evolves ?t (snd (absorb_worker_progress cells ?t))" "sched_inv (snd (absorb_worker_progress cells ?t))"
      using moves_absorb [OF m(3) claims] by (auto simp: sched_moves_def)
    have nt: "?i < ss_next_lease ?t" using n m(1) by (simp add: sched_evolves_def)
    have l'2: "(?i, l') \<in> set (ss_active (snd (absorb_worker_progress cells ?t)))" using Cons.prems(5) last by simp
    obtain l where l: "(?i, l) \<in> set (ss_active ?t)" "sl_end l' \<le> sl_end l" "sl_next_offset l \<le> sl_next_offset l'"
      using sched_evolvesD [OF evs(1) nt l'2] by metis
    have "sl_next_offset l = sl_end l + 1"
      using report_reaches_end [OF Cons.prems(1) Cons.prems(4)] l(1) unfolding t by blast
    moreover have "sl_next_offset l' \<le> sl_end l' + 1" using active_ok [OF evs(2) l'2] by (simp add: lease_ok_def)
    ultimately show ?thesis using l by simp
  qed
qed simp

lemma reconcile_step_keeps:
  assumes inv: "job_inv R j" and ok: "worker_ok R j i (AtReconcile b)" and step: "step_reconcile b inp j w = Some (j', w')"
  shows "step_keeps R i j j' (w_pc w')"
proof -
  have j': "j' = reconcile_and_credit j" "w_pc w' = AtReport b"
    using step by (auto simp: step_reconcile_def split: worker_input.splits)
  have b: "i < length (j_worker_progress j)" "body_ok (written R j) (j_scheduler j) (j_worker_progress j ! i) b"
    and full: "body_full (j_scheduler j) b" using ok by (simp_all add: worker_ok_def Let_def)
  let ?L = "br_lease b" and ?x = "br_start b + br_offset b"
  have si: "sched_inv (j_scheduler j)" and claims: "\<And>r. Some r \<in> set (j_worker_progress j) \<Longrightarrow> cell_claim (written R j) (j_scheduler j) r"
    using inv by (auto simp: job_inv_def)
  have W: "written R j' = written R j" using reconcile_fields(2) [of j] by (intro written_core) (simp add: j' same_core_def)
  note mv = reconcile_moves [OF inv]
  have held: "lease_held (written R j) (j_scheduler j) ?L ?x" using b(2) by (simp add: body_ok_def)
  have held': "lease_held (written R j') (j_scheduler j') ?L ?x"
    using lease_held_evolves [OF held mv(3) order_refl] W j' by simp
  obtain r where r: "j_worker_progress j ! i = Some r" "pr_lease_id r = sl_id ?L" "pr_generation r = sl_generation ?L"
      "pr_written_through r = ?x"
    using b(2) full by (auto simp: body_ok_def cell_at_def body_full_def)
  have r_in: "Some r \<in> set (j_worker_progress j)" using r(1) b(1) nth_mem by metis
  have cur: "sl_generation l = pr_generation r \<and> sl_end l < pr_written_through r"
    if "(pr_lease_id r, l) \<in> set (ss_active (j_scheduler j))" for l
    using that held full r(2-4) by (simp add: lease_held_def body_full_def)
  have "lease_span l \<subseteq> written R j' \<and> sl_next_offset l = sl_end l + 1"
    if l: "(sl_id ?L, l) \<in> set (ss_active (j_scheduler j'))" for l
  proof
    show "sl_next_offset l = sl_end l + 1"
      by (rule absorb_reaches_end [OF si claims r_in cur]) (use l r(2) reconcile_fields(1) [of j] j' in simp_all)
    have "body_full (j_scheduler j') b"
      using body_full_evolves [OF full mv(3)] held by (simp add: j' lease_held_def)
    then have "sl_end l < ?x" using l by (simp add: body_full_def)
    moreover have "{sl_start ?L..<min ?x (sl_end l + 1)} \<subseteq> written R j'" "sl_start l = sl_start ?L"
      using held' l unfolding lease_held_def by blast+
    ultimately show "lease_span l \<subseteq> written R j'" by (auto simp: lease_span_def)
  qed
  then have "lease_done (written R j') (j_scheduler j') ?L" using held' by (simp add: lease_done_def lease_held_def)
  then have "worker_ok R j' i (AtReport b)" using held' b mv(2) [of i] by (simp add: worker_ok_def body_ok_def j' job_moves_def)
  then show ?thesis using mv j' by (simp add: step_keeps_def)
qed

text \<open>The owner clears its cell.\<close>

lemma clear_cell_fields [simp]:
  "j_scheduler (clear_worker_cell i j) = j_scheduler j" "j_output (clear_worker_cell i j) = j_output j"
  "j_total_size (clear_worker_cell i j) = j_total_size j"
  "j_worker_progress (clear_worker_cell i j) = (j_worker_progress j)[i := None]"
  by (simp_all add: clear_worker_cell_def publish_cell_def observe_record_def idle_record_def)

lemma cleared_keeps:
  assumes inv: "job_inv R j" and i: "i < length (j_worker_progress j)"
    and m: "sched_moves (written R j) (j_scheduler j) s'"
    and core: "same_core (clear_worker_cell i (j\<lparr>j_scheduler := s'\<rparr>)) j'"
    and pc: "j_worker_progress j' ! i = None \<Longrightarrow> written R j' = written R j \<Longrightarrow> j_scheduler j' = s' \<Longrightarrow>
      i < length (j_worker_progress j') \<Longrightarrow> worker_ok R j' i pc'"
  shows "step_keeps R i j j' pc'"
proof -
  have f: "j_scheduler j' = s'" "j_worker_progress j' = (j_worker_progress j)[i := None]" "j_total_size j' = j_total_size j"
      "j_output j' = j_output j" using core by (simp_all add: same_core_def)
  note W = written_core [OF f(4), of R]
  have "job_inv R j'"
  proof (rule moved_job_inv [OF inv])
    fix r assume "Some r \<in> set (j_worker_progress j')"
    then show "Some r \<in> set (j_worker_progress j) \<or> cell_claim (written R j') (j_scheduler j') r"
      using set_update_subset_insert [of "j_worker_progress j" i None] unfolding f(2) by auto
  qed (use m f W in simp_all)
  moreover have "job_moves R i j j'" using sched_movesD(1) [OF m] W by (simp add: job_moves_def f)
  ultimately show ?thesis using pc W f i by (simp add: step_keeps_def)
qed

lemma report_keeps:
  assumes inv: "job_inv R j" and ok: "worker_ok R j i (AtReport b)" and step: "step_report i b inp j w = Some (j', w')"
  shows "step_keeps R i j j' (w_pc w')"
proof -
  let ?L = "br_lease b"
  have si: "sched_inv (j_scheduler j)" using inv by (simp add: job_inv_def)
  have fin: "lease_done (written R j) (j_scheduler j) ?L" and i: "i < length (j_worker_progress j)"
    using ok by (simp_all add: worker_ok_def Let_def)
  let ?x = "u64_add (br_start b) (u64_add (u64_sub (br_end b) (br_start b)) 1)"
  have core: "same_core (clear_worker_cell i (j\<lparr>j_scheduler :=
        snd (report_progress (sl_id ?L) (sl_generation ?L) ?x (j_scheduler j))\<rparr>)) j'" and pc: "w_pc w' = AtSettleOk ?L"
    using step by (auto simp: step_report_def Let_def split: worker_input.splits)
  have m: "sched_moves (written R j) (j_scheduler j) (snd (report_progress (sl_id ?L) (sl_generation ?L) ?x (j_scheduler j)))"
  proof (rule moves_report [OF si])
    fix l assume "(sl_id ?L, l) \<in> set (ss_active (j_scheduler j))"
    then have "lease_span l \<subseteq> written R j" using fin unfolding lease_done_def by blast
    then show "{sl_start l..<min ?x (sl_end l + 1)} \<subseteq> written R j" by (auto simp: lease_span_def)
  qed
  show ?thesis
    unfolding pc
    by (rule cleared_keeps [OF inv i m core])
      (use lease_done_evolves [OF fin sched_movesD(1) [OF m] order_refl sched_movesD(3) [OF m]] in \<open>simp add: worker_ok_def\<close>)
qed

lemma settle_ok_keeps:
  assumes inv: "job_inv R j" and ok: "worker_ok R j i (AtSettleOk L)" and step: "step_settle_ok L inp j w = Some (j', w')"
  shows "step_keeps R i j j' (w_pc w')"
proof -
  have j': "j' = reconcile_and_credit j" "w_pc w' = AtComplete L"
    using step by (auto simp: step_settle_ok_def split: worker_input.splits)
  note mv = reconcile_moves [OF inv]
  have W: "written R j' = written R j" using reconcile_fields(2) [of j] by (intro written_core) (simp add: j' same_core_def)
  have cells: "j_worker_progress j' = j_worker_progress j" using reconcile_fields(2) [of j] by (simp add: j' same_core_def)
  have "sched_inv (j_scheduler j')" using mv(1) by (simp add: j' job_inv_def)
  then have "worker_ok R j' i (AtComplete L)"
    using ok lease_done_evolves [OF _ mv(3) order_refl] W cells by (simp add: worker_ok_def Let_def j'(1))
  then show ?thesis using mv j' by (simp add: step_keeps_def)
qed

lemma complete_keeps:
  assumes inv: "job_inv R j" and ok: "worker_ok R j i (AtComplete L)" and step: "step_complete E i L inp j w = Some (j', w')"
  shows "step_keeps R i j j' (w_pc w')"
proof -
  have si: "sched_inv (j_scheduler j)" using inv by (simp add: job_inv_def)
  have fin: "lease_done (written R j) (j_scheduler j) L" and i: "i < length (j_worker_progress j)"
    using ok by (simp_all add: worker_ok_def Let_def)
  obtain now c1 c2 where "inp = Run now c1 c2" using step by (cases inp) (simp_all add: step_complete_def)
  then have core: "same_core (clear_worker_cell i (j\<lparr>j_scheduler :=
        snd (sched_complete (we_F E) now (sl_id L) (sl_generation L) (j_scheduler j))\<rparr>)) j'" and pc: "w_pc w' = CycleTop"
    using step by (auto simp: step_complete_def Let_def split: worker_input.splits)
  have "sched_moves (written R j) (j_scheduler j) (snd (sched_complete (we_F E) now (sl_id L) (sl_generation L) (j_scheduler j)))"
    using fin by (intro moves_complete [OF si]) (simp add: lease_done_def)
  from cleared_keeps [OF inv i this core] show ?thesis unfolding pc by (simp add: worker_ok_def)
qed

lemma settle_err_keeps:
  assumes inv: "job_inv R j" and ok: "worker_ok R j i (AtSettleErr L e)" and step: "step_settle_err i L e inp j w = Some (j', w')"
  shows "step_keeps R i j j' (w_pc w')"
proof -
  have i: "i < length (j_worker_progress j)" using worker_in_range [OF ok] .
  have si: "sched_inv (j_scheduler j)" using inv by (simp add: job_inv_def)
  show ?thesis
  proof (cases "\<exists>j1. same_core j j1 \<and> j' = reconcile_and_credit j1 \<and> w_pc w' = AtFail L e")
    case True
    then obtain j1 where j1: "same_core j j1" "j' = reconcile_and_credit j1" "w_pc w' = AtFail L e" by blast
    have inv1: "job_inv R j1" using same_core_inv [OF j1(1)] inv by simp
    have "job_moves R i j j'" using reconcile_moves(2) [OF inv1, of i] j1 written_core [of j1 j R]
      by (simp add: job_moves_def same_core_def)
    then show ?thesis using reconcile_moves(1) [OF inv1] j1 i by (simp add: step_keeps_def worker_ok_def job_moves_def)
  next
    case False
    then obtain err where e: "e = ChangedGeneration err"
      using step by (cases e) (auto simp: step_settle_err_def Let_def split: worker_input.splits if_splits)
    then have core: "same_core (j\<lparr>j_scheduler := snd (bump_generation (j_scheduler j))\<rparr>) j'" and pc: "w_pc w' = Leaving"
      using step by (auto simp: step_settle_err_def Let_def split: worker_input.splits)
    have m: "sched_moves (written R j) (j_scheduler j) (snd (bump_generation (j_scheduler j)))"
      using sched_moves_mono [OF moves_bump [OF si]] by simp
    show ?thesis using moved_scheduler(1) [OF inv m core] moved_scheduler(2) [OF inv m core, of i] core i
      by (simp add: step_keeps_def worker_ok_def pc same_core_def)
  qed
qed

lemma fail_keeps:
  assumes inv: "job_inv R j" and ok: "worker_ok R j i (AtFail L e)" and step: "step_fail E i L e inp j w = Some (j', w')"
  shows "step_keeps R i j j' (w_pc w')"
proof -
  have i: "i < length (j_worker_progress j)" using worker_in_range [OF ok] .
  have si: "sched_inv (j_scheduler j)" using inv by (simp add: job_inv_def)
  have nt: "clear_worker_cell i (notify_transition j1) = notify_transition (clear_worker_cell i j1)" for j1 :: "'a segmented_job"
    by (simp add: clear_worker_cell_def publish_cell_def notify_transition_def)
  obtain now c1 c2 where "inp = Run now c1 c2" using step by (cases inp) (simp_all add: step_fail_def)
  then have core: "same_core (clear_worker_cell i (j\<lparr>j_scheduler :=
        snd (sched_fail (we_F E) now (sl_id L) (sl_generation L) (j_scheduler j))\<rparr>)) j'"
      and pc: "w_pc w' \<in> insert Leaving (range (case_prod (AtDecide L)))"
    using step by (cases e; simp add: step_fail_def Let_def nt image_iff; force)+
  have m: "sched_moves (written R j) (j_scheduler j) (snd (sched_fail (we_F E) now (sl_id L) (sl_generation L) (j_scheduler j)))"
    using sched_moves_mono [OF moves_fail [OF si]] by simp
  show ?thesis by (rule cleared_keeps [OF inv i m core]) (use pc in \<open>auto simp: worker_ok_def\<close>)
qed

lemma leaving_keeps:
  assumes inv: "job_inv R j" and ok: "worker_ok R j i Leaving" and step: "step_leaving i inp j w = Some (j', w')"
  shows "step_keeps R i j j' (w_pc w')"
proof (rule keeps_same_core [OF inv])
  show "same_core j j'" using step by (auto simp: step_leaving_def Let_def split: worker_input.splits option.splits if_splits)
  have "w_pc w' = Exited" using step by (auto simp: step_leaving_def Let_def split: worker_input.splits)
  then show "worker_ok R j i (w_pc w')" using ok by (simp add: worker_ok_def)
qed

section \<open>Every step of a worker\<close>

lemma worker_pc_same:
  "worker_ok R j i (GateSleep L) = worker_ok R j i (AtGate L)" "worker_ok R j i (AtAdmission L a) = worker_ok R j i (AtGate L)"
  "worker_ok R j i (AtRate b ow tr) = worker_ok R j i (AtReserve b ow tr)"
  "worker_ok R j i (AtRetag b ow tr) = worker_ok R j i (AtReserve b ow tr)"
  "worker_ok R j i (AtPauseSend b) = worker_ok R j i (AtBodyTop b)" "worker_ok R j i (AtPauseAck b) = worker_ok R j i (AtBodyTop b)"
  "worker_ok R j i (AtPauseSleep b) = worker_ok R j i (AtBodyTop b)"
  by (simp_all add: worker_ok_def)

lemma worker_step_keeps:
  assumes inv: "job_inv R j" and ok: "worker_ok R j i (w_pc w)" and fresh: "ss_next_lease (j_scheduler j) < u64_max"
    and exact: "exact_input R E j (w_pc w) inp" and step: "worker_step E i inp j w = Some (j', w')"
  shows "step_keeps R i j j' (w_pc w')"
  using ok exact step
  by (cases "w_pc w"; simp add: worker_step_def idle_pcs worker_pc_same;
      blast intro: idle_steps_keep [OF inv] acquire_keeps [OF inv _ fresh] split_keeps [OF inv _ fresh] gate_keeps [OF inv]
        gate_sleep_keeps [OF inv] admission_keeps [OF inv] request_keeps [OF inv] body_start_keeps [OF inv]
        body_top_keeps [OF inv] body_keeps [OF inv] admit_steps_keep [OF inv] write_keeps [OF inv]
        pause_steps_keep [OF inv] reconcile_step_keeps [OF inv] report_keeps [OF inv] settle_ok_keeps [OF inv]
        complete_keeps [OF inv] settle_err_keeps [OF inv] fail_keeps [OF inv] leaving_keeps [OF inv])

end
