(* ===== verification/Transfer_Props.thy ===== *)
theory Transfer_Props
  imports Transfer_Invariant
begin

text \<open>
  Properties of whole runs of a segmented transfer, over every interleaving of the workers, the checkpoint
  coordinator and the job's controls: a completed run has written the resource, a saved checkpoint claims
  written bytes only. The runs with an inexact server at the end show that both rest on the server.
\<close>

section \<open>Runs\<close>

definition exact_event :: "(nat \<Rightarrow> byte) \<Rightarrow> 'f worker_env \<Rightarrow> transfer_event \<Rightarrow> 'f transfer_run \<Rightarrow> bool" where
  "exact_event R E ev t \<longleftrightarrow> ss_next_lease (j_scheduler (tr_job t)) < u64_max
     \<and> (case ev of WorkerEvent i inp \<Rightarrow> exact_input R E (tr_job t) (w_pc (tr_workers t ! i)) inp | _ \<Rightarrow> True)"

text \<open>The partial file admitted for resume holds the bytes that the run starts from, and so does the old checkpoint.\<close>

definition exact_start :: "(nat \<Rightarrow> byte) \<Rightarrow> 'f run_setup \<Rightarrow> bool" where
  "exact_start R r \<longleftrightarrow> rs_total_size r < u64_max \<and> policy_ok (rs_policy r)
     \<and> (\<forall>(s, e)\<in>set (rs_start_ranges r). \<forall>p\<in>set [s..<min (e + 1) (rs_total_size r)]. rs_output r p = Some (R p))
     \<and> (case rs_sidecar r of None \<Rightarrow> True
        | Some cp \<Rightarrow> \<forall>(s, e)\<in>set (cp_completed_ranges cp). \<forall>p\<in>set [s..<e + 1]. rs_output r p = Some (R p))"

inductive exact_run :: "(nat \<Rightarrow> byte) \<Rightarrow> 'f worker_env \<Rightarrow> (nat list \<Rightarrow> string) \<Rightarrow> string \<Rightarrow> 'f run_setup \<Rightarrow> 'f transfer_run \<Rightarrow> bool"
  for R E sha identity r where
  start: "exact_start R r \<Longrightarrow> exact_run R E sha identity r (run_start (we_F E) r)"
| step: "exact_run R E sha identity r t \<Longrightarrow> exact_event R E ev t \<Longrightarrow> transfer_step E sha identity ev t = Some t'
    \<Longrightarrow> exact_run R E sha identity r t'"

fun exact_events :: "(nat \<Rightarrow> byte) \<Rightarrow> 'f worker_env \<Rightarrow> (nat list \<Rightarrow> string) \<Rightarrow> string \<Rightarrow> transfer_event list \<Rightarrow> 'f transfer_run
    \<Rightarrow> 'f transfer_run option" where
  "exact_events R E sha identity [] t = Some t"
| "exact_events R E sha identity (ev # evs) t =
     (if exact_event R E ev t then
        (case transfer_step E sha identity ev t of None \<Rightarrow> None | Some t' \<Rightarrow> exact_events R E sha identity evs t')
      else None)"

lemma exact_events_run:
  "exact_events R E sha identity evs t = Some t' \<Longrightarrow> exact_run R E sha identity r t \<Longrightarrow> exact_run R E sha identity r t'"
  by (induction evs arbitrary: t) (auto split: if_splits option.splits intro: exact_run.step)

section \<open>The invariant of a run\<close>

fun co_ranges :: "coordinator_pc \<Rightarrow> byte_range list list" where
  "co_ranges (CoFence _ c) = [sr_ranges c]"
| "co_ranges (CoSync _ c) = [sr_ranges c]"
| "co_ranges (CoPrepare _ c) = [sr_ranges c]"
| "co_ranges (CoReserve _ c cp) = [cp_completed_ranges cp]"
| "co_ranges (CoStore _ c cp) = [cp_completed_ranges cp]"
| "co_ranges _ = []"

definition claims_written :: "nat set \<Rightarrow> 'f transfer_run \<Rightarrow> bool" where
  "claims_written W t \<longleftrightarrow>
     (\<forall>rs\<in>set (co_ranges (co_pc (tr_coordinator t))). iv_bytes rs \<subseteq> W)
     \<and> (\<forall>cp. tr_sidecar t = Some cp \<longrightarrow> iv_bytes (cp_completed_ranges cp) \<subseteq> W)"

definition run_inv :: "(nat \<Rightarrow> byte) \<Rightarrow> u64 \<Rightarrow> 'f transfer_run \<Rightarrow> bool" where
  "run_inv R n t \<longleftrightarrow> job_inv R (tr_job t) \<and> j_total_size (tr_job t) = n
     \<and> (\<forall>i<length (tr_workers t). worker_ok R (tr_job t) i (w_pc (tr_workers t ! i)))
     \<and> claims_written (written R (tr_job t)) t"

lemma claims_mono: "claims_written W t \<Longrightarrow> W \<subseteq> W' \<Longrightarrow> claims_written W' t"
  unfolding claims_written_def by blast

lemma claims_job [simp]: "claims_written W (t\<lparr>tr_job := j\<rparr>) = claims_written W t"
    "claims_written W (t\<lparr>tr_workers := ws\<rparr>) = claims_written W t"
  by (simp_all add: claims_written_def)

lemma moves_size: "job_inv R j \<Longrightarrow> job_inv R j' \<Longrightarrow> job_moves R i j j' \<Longrightarrow> j_total_size j' = j_total_size j"
  by (simp add: job_inv_def job_moves_def sched_evolves_def)

lemma run_inv_start:
  assumes "exact_start R r"
  shows "run_inv R (rs_total_size r) (run_start F r)"
proof -
  have r: "rs_total_size r < u64_max" "policy_ok (rs_policy r)" using assms by (simp_all add: exact_start_def)
  let ?j = "job_start F r"
  have s: "sched_inv (j_scheduler ?j)" "ss_active (j_scheduler ?j) = []" "ss_next_lease (j_scheduler ?j) = 1"
      "ss_total_size (j_scheduler ?j) = rs_total_size r"
    using r by (simp_all add: job_start_def Let_def initialize_inv policy_ok_def)
  have f: "j_total_size ?j = rs_total_size r" "j_worker_progress ?j = replicate (max (wc_max_workers (rs_control r)) 16) None"
      "j_output ?j = rs_output r" by (simp_all add: job_start_def Let_def)
  have "iv_bytes (ss_completed (j_scheduler ?j)) = iv_bytes (rs_start_ranges r) \<inter> {..<rs_total_size r}"
    using r(1) by (simp add: job_start_def Let_def initialize_correct)
  moreover have "iv_bytes (rs_start_ranges r) \<inter> {..<rs_total_size r} \<subseteq> written R ?j"
    using assms by (fastforce simp: exact_start_def iv_bytes_def written_def f less_Suc_eq_le)
  ultimately have "settled_bytes (j_scheduler ?j) \<subseteq> written R ?j" by (simp add: settled_bytes_def s(2))
  then have "job_inv R ?j" using r(1) s f by (auto simp: job_inv_def)
  moreover have "iv_bytes (cp_completed_ranges cp) \<subseteq> written R ?j" if "rs_sidecar r = Some cp" for cp
    using assms that by (fastforce simp: exact_start_def iv_bytes_def written_def f less_Suc_eq_le)
  then have "claims_written (written R ?j) (run_start F r)" by (simp add: claims_written_def run_start_def)
  moreover have "worker_ok R ?j i Spawned" if "i < wc_max_workers (rs_control r)" for i
    using that by (simp add: worker_ok_def f)
  ultimately show ?thesis by (simp add: run_inv_def run_start_def worker_start_def f)
qed

lemma worker_event_keeps:
  assumes inv: "run_inv R n t" and ev: "exact_event R E (WorkerEvent i inp) t"
    and step: "transfer_step E sha identity (WorkerEvent i inp) t = Some t'"
  shows "run_inv R n t'"
proof -
  have i: "i < length (tr_workers t)" using step by (simp add: transfer_step_def split: if_splits)
  then obtain j' w' where w: "worker_step E i inp (tr_job t) (tr_workers t ! i) = Some (j', w')"
      and t': "t' = t\<lparr>tr_job := j', tr_workers := (tr_workers t)[i := w']\<rparr>"
    using step by (auto simp: transfer_step_def)
  have job: "job_inv R (tr_job t)" and ok: "\<And>k. k < length (tr_workers t) \<Longrightarrow> worker_ok R (tr_job t) k (w_pc (tr_workers t ! k))"
    using inv by (simp_all add: run_inv_def)
  have k: "job_inv R j'" "job_moves R i (tr_job t) j'" "worker_ok R j' i (w_pc w')"
    using worker_step_keeps [OF job ok [OF i] _ _ w] ev by (simp_all add: exact_event_def step_keeps_def)
  have ws: "worker_ok R j' l (w_pc ((tr_workers t)[i := w'] ! l))" if "l < length (tr_workers t)" for l
    using that i k(1,3) worker_ok_moves [OF ok [OF that] k(2)] by (cases "l = i") (simp_all add: job_inv_def)
  have "written R (tr_job t) \<subseteq> written R j'" using k(2) by (simp add: job_moves_def)
  moreover have "claims_written (written R (tr_job t)) t" using inv by (simp add: run_inv_def)
  ultimately have "claims_written (written R j') t" using claims_mono by blast
  with ws show ?thesis using inv k(1) moves_size [OF job k(1,2)] by (simp add: run_inv_def t')
qed

text \<open>A step of another task: the job may be reconciled, the workers keep their program points.\<close>

lemma other_event_keeps:
  assumes inv: "run_inv R n t" and job: "job_inv R (tr_job t')" and moves: "\<And>i. job_moves R i (tr_job t) (tr_job t')"
    and workers: "map w_pc (tr_workers t') = map w_pc (tr_workers t)"
    and claims: "claims_written (written R (tr_job t')) t'"
  shows "run_inv R n t'"
proof -
  have len: "length (tr_workers t') = length (tr_workers t)" using workers by (metis length_map)
  have "worker_ok R (tr_job t') k (w_pc (tr_workers t' ! k))" if "k < length (tr_workers t')" for k
  proof -
    have "w_pc (tr_workers t' ! k) = w_pc (tr_workers t ! k)" using that workers len by (metis nth_map)
    moreover have "worker_ok R (tr_job t) k (w_pc (tr_workers t ! k))" using inv that len by (simp add: run_inv_def)
    ultimately show ?thesis using worker_ok_moves [OF _ moves [of "Suc k"]] job by (simp add: job_inv_def)
  qed
  then show ?thesis using inv job claims moves_size [OF _ job moves [of 0]] by (simp add: run_inv_def)
qed

lemma same_core_event:
  assumes "run_inv R n t" "same_core (tr_job t) (tr_job t')" "map w_pc (tr_workers t') = map w_pc (tr_workers t)"
    "claims_written (written R (tr_job t)) t'"
  shows "run_inv R n t'"
proof (rule other_event_keeps [OF assms(1) _ _ assms(3)])
  show "job_inv R (tr_job t')" using assms(1) same_core_inv [OF assms(2), of R] by (simp add: run_inv_def)
  show "claims_written (written R (tr_job t')) t'"
    using assms(4) written_core [of "tr_job t'" "tr_job t" R] assms(2) by (simp add: same_core_def)
qed (rule same_core_moves [OF assms(2)])

lemma control_keeps: "run_inv R n t \<Longrightarrow> same_core (tr_job t) j' \<Longrightarrow> run_inv R n (t\<lparr>tr_job := j'\<rparr>)"
  by (rule same_core_event) (auto simp: run_inv_def)

section \<open>The coordinator\<close>

lemma finish_save_frame:
  "same_core (tr_job t) (tr_job (finish_save reply res t))"
  "map w_pc (tr_workers (finish_save reply res t)) = map w_pc (tr_workers t)"
  "claims_written W (finish_save reply res t) = (\<forall>cp. tr_sidecar t = Some cp \<longrightarrow> iv_bytes (cp_completed_ranges cp) \<subseteq> W)"
proof -
  have upd: "map w_pc ((tr_workers t)[i := (tr_workers t ! i)\<lparr>w_ack := a\<rparr>]) = map w_pc (tr_workers t)" for i a
    by (cases "i < length (tr_workers t)") (simp_all add: map_update list_update_beyond, metis list_update_id nth_map)
  show "same_core (tr_job t) (tr_job (finish_save reply res t))"
    "map w_pc (tr_workers (finish_save reply res t)) = map w_pc (tr_workers t)"
    "claims_written W (finish_save reply res t) = (\<forall>cp. tr_sidecar t = Some cp \<longrightarrow> iv_bytes (cp_completed_ranges cp) \<subseteq> W)"
    using upd by (simp_all add: finish_save_def claims_written_def split: save_reply.splits sum.splits unit.splits)
qed

lemma finish_save_keeps: "run_inv R n t \<Longrightarrow> run_inv R n (finish_save reply res t)"
  by (rule same_core_event) (simp_all add: finish_save_frame, simp add: run_inv_def claims_written_def)

lemma co_goto_keeps:
  assumes "run_inv R n t" "\<And>rs. rs \<in> set (co_ranges pc) \<Longrightarrow> iv_bytes rs \<subseteq> written R (tr_job t)"
  shows "run_inv R n (co_goto pc t)"
  using assms by (intro same_core_event [OF assms(1)]) (auto simp: co_goto_def run_inv_def claims_written_def)

lemma snapshot_keeps:
  assumes inv: "run_inv R n t"
  shows "run_inv R n (snapshot_save reply t)"
proof -
  let ?j = "reconcile_and_credit (tr_job t)"
  let ?t = "t\<lparr>tr_job := notify_transition ?j\<rparr>"
  have job: "job_inv R (tr_job t)" using inv by (simp add: run_inv_def)
  have nt: "same_core ?j (notify_transition ?j)" by simp
  have j': "job_inv R (notify_transition ?j)" using reconcile_moves(1) [OF job] same_core_inv [OF nt] by simp
  have w: "written R (notify_transition ?j) = written R (tr_job t)"
    using reconcile_fields(2) [of "tr_job t"] nt by (intro written_core) (simp add: same_core_def)
  have "job_moves R i (tr_job t) (notify_transition ?j)" for i
    using reconcile_moves(2) [OF job, of i] nt w by (simp add: job_moves_def same_core_def)
  then have inv': "run_inv R n ?t"
    by (intro other_event_keeps [OF inv]) (use inv j' w in \<open>simp_all add: run_inv_def\<close>)
  have "iv_bytes (settled_ranges (j_scheduler ?j)) \<subseteq> written R (notify_transition ?j)"
    using j' settled_ranges_correct [of "j_scheduler ?j"] by (simp add: job_inv_def notify_transition_def)
  then show ?thesis
    unfolding snapshot_save_def Let_def by (auto intro!: finish_save_keeps co_goto_keeps inv')
qed

lemma save_checkpoint_ranges [simp]:
  "cp_completed_ranges (save_checkpoint sha identity now file c j) = sr_ranges c"
  by (simp add: save_checkpoint_def Let_def set_covered_digest_def set_owned_temp_identity_def)

lemma store_keeps:
  assumes inv: "run_inv R n t" and cp: "iv_bytes (cp_completed_ranges cp) \<subseteq> written R (tr_job t)"
  shows "run_inv R n (store_save reply c cp t)"
  unfolding store_save_def
  by (intro finish_save_keeps same_core_event [OF inv]) (use inv cp in \<open>auto simp: run_inv_def claims_written_def\<close>)

lemma coordinator_keeps:
  assumes inv: "run_inv R n t" and step: "coordinator_step sha identity inp t = Some t'"
  shows "run_inv R n t'"
proof -
  have held: "iv_bytes rs \<subseteq> written R (tr_job t)" if "rs \<in> set (co_ranges (co_pc (tr_coordinator t)))" for rs
    using inv that by (simp add: run_inv_def claims_written_def)
  have receive: "run_inv R n (co_goto (CoSnapshot reply) (t\<lparr>tr_job := (tr_job t)\<lparr>j_save_now := rest\<rparr>\<rparr>))" for reply rest
    by (rule co_goto_keeps [OF same_core_event [OF inv]]) (use inv in \<open>simp_all add: run_inv_def\<close>)
  show ?thesis
    using step held
    by (auto simp: coordinator_step_def fence_save_def prepare_save_def Let_def
        intro!: finish_save_keeps co_goto_keeps snapshot_keeps store_keeps inv receive
        split: coordinator_pc.splits coordinator_input.splits list.splits if_splits sum.splits)
qed

lemma exact_run_inv: "exact_run R E sha identity r t \<Longrightarrow> run_inv R (rs_total_size r) t"
proof (induction rule: exact_run.induct)
  case start
  then show ?case by (rule run_inv_start)
next
  case (step t ev t')
  show ?case
  proof (cases ev)
    case (WorkerEvent i inp)
    then show ?thesis using worker_event_keeps step by blast
  next
    case (CoordinatorEvent inp)
    then show ?thesis using coordinator_keeps [OF step.IH] step.hyps by (simp add: transfer_step_def)
  qed (use step in \<open>auto simp: transfer_step_def job_set_desired_def job_adjust_desired_def intro!: control_keeps\<close>)
qed

section \<open>Runs to evaluate\<close>

definition demo_worker_env :: "rat worker_env" where
  "demo_worker_env = \<lparr>we_F = rat_ops, we_B = exact_env, we_retry = retry_policy_default rat_ops, we_url = ''http://h/f''\<rparr>"

definition demo_setup :: "u64 \<Rightarrow> u64 \<Rightarrow> u64 \<Rightarrow> rat run_setup" where
  "demo_setup n workers desired = \<lparr>rs_total_size = n, rs_start_ranges = [], rs_policy = policy_new 1 n,
     rs_control = \<lparr>wc_min_workers = 1, wc_max_workers = workers, wc_desired_workers = desired,
       wc_manual_override = False, wc_protocol_is_h2 = False, wc_per_origin_connection_cap = 8,
       wc_global_connection_cap = 8\<rparr>,
     rs_ready_work_sizing = False, rs_ready_work_factor = 1,
     rs_credentials = credentials_new [] None False, rs_validators = validators_default,
     rs_durability = Performance, rs_registry = registry_disabled, rs_origin_key = None,
     rs_counters = job_counters_new 16, rs_output = (\<lambda>_. None), rs_sidecar = None\<rparr>"

definition demo_resource :: "nat \<Rightarrow> byte" where
  "demo_resource p = 10 + p"

definition demo_go :: "nat \<Rightarrow> transfer_event" where
  "demo_go i = WorkerEvent i (Run 0 0 None)"

text \<open>Worker \<open>i\<close> opens the body of its first lease, reads a frame, and settles the lease.\<close>

definition demo_open :: "nat \<Rightarrow> string \<Rightarrow> transfer_event list" where
  "demo_open i content_range = replicate 4 (demo_go i)
     @ [WorkerEvent i (Head 206 [(''content-range'', content_range)] ''HTTP/1.1''), demo_go i]"

definition demo_chunk :: "nat \<Rightarrow> byte list \<Rightarrow> transfer_event list" where
  "demo_chunk i data = demo_go i # map (WorkerEvent i) [Frame (DataFrame data), Granted, Elapsed, Granted, Written]"

definition demo_close :: "nat \<Rightarrow> wire_frame \<Rightarrow> transfer_event list" where
  "demo_close i frame = [demo_go i, WorkerEvent i (Frame frame)] @ replicate 6 (demo_go i)"

definition demo_save :: "coordinator_input \<Rightarrow> transfer_event list" where
  "demo_save answer = map CoordinatorEvent [Tick, Proceed, Proceed, Prepare 7 None, SaveGranted, answer]"

definition demo_events :: "transfer_event list" where
  "demo_events = CoordinatorEvent Proceed # demo_open 0 ''bytes 0-3/4'' @ demo_chunk 0 [10, 11] @ demo_save Stored
     @ demo_chunk 0 [12, 13] @ demo_close 0 EndOfStream"

definition demo_exact :: "transfer_event list \<Rightarrow> rat transfer_run option" where
  "demo_exact evs = exact_events demo_resource demo_worker_env (\<lambda>_. []) ''id'' evs (run_start rat_ops (demo_setup 4 1 1))"

definition demo_outcome :: "rat transfer_run \<Rightarrow> result_status" where
  "demo_outcome t = so_status (segmented_outcome_of 0 None True
     (\<lparr>ad_temp_retained = True, ad_checkpoint_retained = False\<rparr>, []) False KeepPartial (tr_job t))"

lemma demo_exact_run:
  assumes "demo_exact evs = Some t"
  shows "exact_run demo_resource demo_worker_env (\<lambda>_. []) ''id'' (demo_setup 4 1 1) t"
proof -
  have "exact_start demo_resource (demo_setup 4 1 1)"
    by (simp add: exact_start_def demo_setup_def policy_ok_new u64_max_def)
  then have "exact_run demo_resource demo_worker_env (\<lambda>_. []) ''id'' (demo_setup 4 1 1) (run_start rat_ops (demo_setup 4 1 1))"
    using exact_run.start [of demo_resource "demo_setup 4 1 1" demo_worker_env] by (simp add: demo_worker_env_def)
  with assms show ?thesis unfolding demo_exact_def by (rule exact_events_run)
qed

section \<open>Whole runs\<close>

text \<open>
  Claim C1: over every interleaving of the workers, the checkpoint coordinator and the job's controls, a
  transfer from an exact server that ends with the status completed has written every byte of the
  resource at its offset.
\<close>

theorem completed_run_correct:
  assumes "exact_run R E sha identity r t"
    and "so_status (segmented_outcome_of elapsed joined reclaimed cleanup retained mode (tr_job t)) = StatusCompleted"
    and "p < rs_total_size r"
  shows "j_output (tr_job t) p = Some (R p)"
proof -
  let ?s = "j_scheduler (tr_job t)"
  have inv: "job_inv R (tr_job t)" "j_total_size (tr_job t) = rs_total_size r"
    using exact_run_inv [OF assms(1)] by (simp_all add: run_inv_def)
  then have s: "sched_inv ?s" "ss_total_size ?s = rs_total_size r" "settled_bytes ?s \<subseteq> written R (tr_job t)"
    by (simp_all add: job_inv_def)
  have "is_complete ?s" using assms(2) by (auto simp: segmented_outcome_of_def Let_def split: if_splits option.splits)
  then have "p \<in> iv_bytes (ss_completed ?s)" using complete_iff_all [OF s(1)] assms(3) s(2) by simp
  then show ?thesis using completed_settled s(3) unfolding written_def by blast
qed

theorem completed_run_correct_witness:
  "\<exists>t. demo_exact demo_events = Some t \<and> demo_outcome t = StatusCompleted \<and> j_output (tr_job t) 3 = Some 13"
proof -
  have "case demo_exact demo_events of None \<Rightarrow> False | Some t \<Rightarrow> demo_outcome t = StatusCompleted" by code_simp
  then obtain t where t: "demo_exact demo_events = Some t" "demo_outcome t = StatusCompleted"
    by (auto split: option.splits)
  from completed_run_correct [OF demo_exact_run [OF t(1)] t(2) [unfolded demo_outcome_def], of 3] t show ?thesis
    by (simp add: demo_setup_def demo_resource_def)
qed

text \<open>
  Claim C3: at every moment of such a run, the checkpoint in the store claims only bytes that have been
  written with the bytes of the resource, whatever was split, retried or re-leased after its snapshot.
\<close>

theorem saved_checkpoint_sound:
  assumes "exact_run R E sha identity r t" and "tr_sidecar t = Some cp" and "p \<in> iv_bytes (cp_completed_ranges cp)"
  shows "j_output (tr_job t) p = Some (R p)"
  using exact_run_inv [OF assms(1)] assms(2,3) by (auto simp: run_inv_def claims_written_def written_def)

theorem saved_checkpoint_sound_witness:
  "\<exists>t cp. demo_exact (take 19 demo_events) = Some t \<and> tr_sidecar t = Some cp \<and> cp_completed_ranges cp = [(0, 1)]
     \<and> j_output (tr_job t) 1 = Some 11"
proof -
  have "case demo_exact (take 19 demo_events) of None \<Rightarrow> False
      | Some t \<Rightarrow> map_option cp_completed_ranges (tr_sidecar t) = Some [(0, 1)]" by code_simp
  then obtain t cp where t: "demo_exact (take 19 demo_events) = Some t" "tr_sidecar t = Some cp" "cp_completed_ranges cp = [(0, 1)]"
    by (auto split: option.splits)
  from saved_checkpoint_sound [OF demo_exact_run [OF t(1)] t(2), of 1] t show ?thesis
    by (simp add: demo_resource_def iv_bytes_def)
qed

section \<open>Runs with an inexact server\<close>

definition demo_play :: "u64 \<Rightarrow> u64 \<Rightarrow> transfer_event list \<Rightarrow> rat transfer_run option" where
  "demo_play workers desired evs =
     transfer_steps demo_worker_env (\<lambda>_. []) ''id'' evs (run_start rat_ops (demo_setup 4 workers desired))"

definition completes_unwritten :: "rat transfer_run option \<Rightarrow> bool" where
  "completes_unwritten res = (case res of None \<Rightarrow> False
     | Some t \<Rightarrow> map w_pc (tr_workers t) = [Exited] \<and> demo_outcome t = StatusCompleted
         \<and> map (j_output (tr_job t)) [0..<4] = [Some 10, Some 11, None, None])"

text \<open>
  A 206 whose Content-Range ends before the end of the request passes the gate, and the lease is completed
  as a whole: the run reports success with half of the file unwritten.
\<close>

lemma short_response_completes:
  "completes_unwritten (demo_play 1 1 (CoordinatorEvent Proceed # demo_open 0 ''bytes 0-1/4'' @ demo_chunk 0 [10, 11]
     @ demo_close 0 EndOfStream))"
  by code_simp

text \<open>So does a body that ends before the end of its range.\<close>

lemma early_end_completes:
  "completes_unwritten (demo_play 1 1 (CoordinatorEvent Proceed # demo_open 0 ''bytes 0-3/4'' @ demo_chunk 0 [10, 11]
     @ demo_close 0 EndOfStream))"
  by code_simp

text \<open>So does an empty data frame: its owned length is zero, which the loop takes for the end of the lease.\<close>

lemma empty_frame_completes:
  "completes_unwritten (demo_play 1 1 (CoordinatorEvent Proceed # demo_open 0 ''bytes 0-3/4'' @ demo_chunk 0 [10, 11]
     @ demo_close 0 (DataFrame [])))"
  by code_simp

text \<open>A chunk past the shrunken end of the lease is counted as wasted and not as received.\<close>

lemma past_end_uncounted:
  assumes "br_effective_end b < u64_add (br_start b) (br_offset b)" "data \<noteq> []"
  shows "take_chunk i b data j w = (count_worker i (add_wasted (length data)) j, w_goto (AtReconcile b) w)"
  using assms by (simp add: take_chunk_def owned_len_def Let_def)

section \<open>A lost wake-up\<close>

definition stranded :: "'f transfer_run \<Rightarrow> bool" where
  "stranded t \<longleftrightarrow> \<not> j_cancelled (tr_job t) \<and> co_pc (tr_coordinator t) = CoStopped
     \<and> list_all (\<lambda>w. w_pc w = Exited \<or> (w_pc w = Dormant \<or> w_pc w = Parked) \<and> w_seen w = j_revision (tr_job t)) (tr_workers t)
     \<and> list_ex (\<lambda>w. w_pc w \<noteq> Exited) (tr_workers t)"

lemma stranded_stuck:
  assumes "stranded t"
  shows "transfer_step E sha identity (WorkerEvent i inp) t = None"
    "transfer_step E sha identity (CoordinatorEvent c) t = None"
proof -
  have "worker_step E i inp (tr_job t) (tr_workers t ! i) = None" if "i < length (tr_workers t)"
    using assms that by (auto simp: stranded_def list_all_length worker_step_def step_parked_def split: worker_input.splits)
  then show "transfer_step E sha identity (WorkerEvent i inp) t = None" by (simp add: transfer_step_def)
  show "transfer_step E sha identity (CoordinatorEvent c) t = None"
    using assms by (simp add: stranded_def transfer_step_def coordinator_step_def)
qed

text \<open>One worker is in its backoff and the other dormant when the interval save fails.\<close>

definition demo_lost_wakeup :: "transfer_event list" where
  "demo_lost_wakeup = CoordinatorEvent Proceed # demo_open 0 ''bytes 0-3/4'' @ demo_chunk 0 [10, 11]
     @ [demo_go 0, WorkerEvent 0 (Frame (StreamFault ''reset'' False)), demo_go 0, demo_go 0, demo_go 0]
     @ map CoordinatorEvent [Tick, Proceed] @ replicate 2 (demo_go 1)
     @ map CoordinatorEvent [Proceed, Prepare 7 None, SaveGranted, StoreFailed ''disk full'']
     @ [WorkerEvent 0 Elapsed, demo_go 0, demo_go 0]"

lemma demo_lost_wakeup_stranded:
  "case demo_play 2 1 demo_lost_wakeup of None \<Rightarrow> False
   | Some t \<Rightarrow> stranded t \<and> fs_error (j_fatal (tr_job t)) = Some (Checkpoint ''disk full'')"
  by code_simp

text \<open>
  A failed interval save can leave a run that never ends. There is a run of two workers, of which
  one is dormant, where the coordinator installs the error of the store without a transition, the other
  worker leaves, and from then on no event of a worker or of the coordinator is possible, although the
  dormant worker has not exited and the job is not cancelled.
\<close>

lemma failed_save_strands:
  "\<exists>t. demo_play 2 1 demo_lost_wakeup = Some t \<and> fs_error (j_fatal (tr_job t)) = Some (Checkpoint ''disk full'')
     \<and> \<not> j_cancelled (tr_job t) \<and> list_ex (\<lambda>w. w_pc w \<noteq> Exited) (tr_workers t)
     \<and> (\<forall>E sha identity i inp c. transfer_step E sha identity (WorkerEvent i inp) t = None
          \<and> transfer_step E sha identity (CoordinatorEvent c) t = None)"
proof -
  obtain t where t: "demo_play 2 1 demo_lost_wakeup = Some t" "stranded t" "fs_error (j_fatal (tr_job t)) = Some (Checkpoint ''disk full'')"
    using demo_lost_wakeup_stranded by (auto split: option.splits)
  have "\<not> j_cancelled (tr_job t)" "list_ex (\<lambda>w. w_pc w \<noteq> Exited) (tr_workers t)" using t(2) by (simp_all add: stranded_def)
  then show ?thesis using t(1,3) stranded_stuck [OF t(2)] by blast
qed

end
