(* ===== verification/Unicode_Text.thy ===== *)
theory Unicode_Text
  imports Rust_Text
begin

text \<open>
  Rust's \<open>str\<close> where characters beyond ASCII matter: a text is the list of its Unicode scalar values
  (\<open>char\<close>s), its length is counted in UTF-8 bytes, and UTF-8 is decoded as \<open>String::from_utf8\<close> and
  \<open>String::from_utf8_lossy\<close> do. Paths are those of Unix.
\<close>

type_synonym uchar = nat
type_synonym utext = "uchar list"

definition lit :: "string \<Rightarrow> utext" where
  "lit s = map of_char s"

section \<open>Characters\<close>

definition is_scalar :: "uchar \<Rightarrow> bool" where
  "is_scalar c \<longleftrightarrow> c < 55296 \<or> 57344 \<le> c \<and> c < 1114112"

definition len_utf8 :: "uchar \<Rightarrow> nat" where
  "len_utf8 c = (if c < 128 then 1 else if c < 2048 then 2 else if c < 65536 then 3 else 4)"

definition utf8_len :: "utext \<Rightarrow> nat" where
  "utf8_len s = sum_list (map len_utf8 s)"

definition is_control :: "uchar \<Rightarrow> bool" where
  "is_control c \<longleftrightarrow> c \<le> 31 \<or> 127 \<le> c \<and> c \<le> 159"

definition is_whitespace :: "uchar \<Rightarrow> bool" where
  "is_whitespace c \<longleftrightarrow> 9 \<le> c \<and> c \<le> 13 \<or> 8192 \<le> c \<and> c \<le> 8202
     \<or> c \<in> set [32, 133, 160, 5760, 8232, 8233, 8239, 8287, 12288]"

definition utrim :: "utext \<Rightarrow> utext" where
  "utrim s = rev (dropWhile is_whitespace (rev (dropWhile is_whitespace s)))"

definition ulower :: "uchar \<Rightarrow> uchar" where
  "ulower c = (if 65 \<le> c \<and> c \<le> 90 then c + 32 else c)"

definition ueq_ignore_ascii_case :: "utext \<Rightarrow> utext \<Rightarrow> bool" where
  "ueq_ignore_ascii_case a b \<longleftrightarrow> map ulower a = map ulower b"

section \<open>Slices and splits\<close>

text \<open>The slice up to the last character boundary at or before byte \<open>n\<close>.\<close>

fun utf8_prefix :: "nat \<Rightarrow> utext \<Rightarrow> utext" where
  "utf8_prefix n [] = []"
| "utf8_prefix n (c # cs) = (if len_utf8 c \<le> n then c # utf8_prefix (n - len_utf8 c) cs else [])"

fun usplit :: "(uchar \<Rightarrow> bool) \<Rightarrow> utext \<Rightarrow> utext list" where
  "usplit P [] = [[]]"
| "usplit P (c # cs) = (if P c then [] # usplit P cs else (c # hd (usplit P cs)) # tl (usplit P cs))"

fun usplit_once :: "uchar \<Rightarrow> utext \<Rightarrow> (utext \<times> utext) option" where
  "usplit_once x [] = None"
| "usplit_once x (c # cs) = (if c = x then Some ([], cs) else map_option (\<lambda>(a, b). (c # a, b)) (usplit_once x cs))"

definition ursplit_once :: "uchar \<Rightarrow> utext \<Rightarrow> (utext \<times> utext) option" where
  "ursplit_once x s = map_option (\<lambda>(a, b). (rev b, rev a)) (usplit_once x (rev s))"

lemma utf8_len_simps [simp]:
  "utf8_len [] = 0" "utf8_len (c # s) = len_utf8 c + utf8_len s" "utf8_len (s @ t) = utf8_len s + utf8_len t"
  by (simp_all add: utf8_len_def)

lemma len_utf8_pos [simp]: "0 < len_utf8 c" "len_utf8 c \<noteq> 0"
  by (simp_all add: len_utf8_def)

lemma utf8_len_zero [simp]: "utf8_len s = 0 \<longleftrightarrow> s = []"
  by (cases s) simp_all

lemma utf8_prefix_len: "utf8_len (utf8_prefix n s) \<le> n"
  by (induction n s rule: utf8_prefix.induct) auto

lemma utf8_prefix_append: "\<exists>r. s = utf8_prefix n s @ r"
  by (induction n s rule: utf8_prefix.induct) auto

lemma utf8_prefix_set: "set (utf8_prefix n s) \<subseteq> set s"
  using utf8_prefix_append [of s n] by (metis Un_upper1 set_append)

lemma utf8_prefix_all: "utf8_len s \<le> n \<Longrightarrow> utf8_prefix n s = s"
  by (induction n s rule: utf8_prefix.induct) auto

lemma usplit_nonempty [simp]: "usplit P s \<noteq> []"
  by (cases s) simp_all

lemma usplit_pieces: "w \<in> set (usplit P s) \<Longrightarrow> c \<in> set w \<Longrightarrow> c \<in> set s \<and> \<not> P c"
proof (induction s arbitrary: w)
  case (Cons x xs)
  show ?case
  proof (cases "P x")
    case True
    then show ?thesis using Cons.IH Cons.prems by auto
  next
    case False
    obtain v vs where v: "usplit P xs = v # vs" by (cases "usplit P xs") simp_all
    then have "w \<in> set vs \<or> w = x # v" using Cons.prems(1) False by auto
    then show ?thesis using Cons.IH [of w] Cons.IH [of v] Cons.prems(2) False v by auto
  qed
qed simp

lemma usplit_none: "list_all (\<lambda>c. \<not> P c) s \<Longrightarrow> usplit P s = [s]"
  by (induction s) simp_all

lemma usplit_once_Some: "usplit_once x s = Some (a, b) \<Longrightarrow> s = a @ x # b \<and> x \<notin> set a"
  by (induction s arbitrary: a) (auto split: if_splits)

lemma usplit_once_append: "x \<notin> set a \<Longrightarrow> usplit_once x (a @ x # b) = Some (a, b)"
  by (induction a) auto

lemma usplit_once_None: "usplit_once x s = None \<longleftrightarrow> x \<notin> set s"
  by (induction s) auto

lemma ursplit_once_Some: "ursplit_once x s = Some (a, b) \<Longrightarrow> s = a @ x # b \<and> x \<notin> set b"
proof -
  assume "ursplit_once x s = Some (a, b)"
  then have "usplit_once x (rev s) = Some (rev b, rev a)" by (auto simp: ursplit_once_def)
  then have "rev s = rev b @ x # rev a \<and> x \<notin> set b" using usplit_once_Some by fastforce
  then show ?thesis by (metis append.assoc append_Cons append_Nil rev.simps(2) rev_append rev_rev_ident)
qed

section \<open>UTF-8\<close>

definition utf8_encode :: "uchar \<Rightarrow> nat list" where
  "utf8_encode c =
     (if c < 128 then [c]
      else if c < 2048 then [192 + c div 64, 128 + c mod 64]
      else if c < 65536 then [224 + c div 4096, 128 + c div 64 mod 64, 128 + c mod 64]
      else [240 + c div 262144, 128 + c div 4096 mod 64, 128 + c div 64 mod 64, 128 + c mod 64])"

definition utf8_bytes :: "utext \<Rightarrow> nat list" where
  "utf8_bytes s = concat (map utf8_encode s)"

definition is_cont :: "nat \<Rightarrow> bool" where
  "is_cont b \<longleftrightarrow> 128 \<le> b \<and> b < 192"

text \<open>The second bytes that may follow a first byte (the well-formed sequences of the Unicode standard).\<close>

definition second_ok :: "nat \<Rightarrow> nat \<Rightarrow> bool" where
  "second_ok b x \<longleftrightarrow>
     (if b = 224 then 160 \<le> x \<and> x < 192 else if b = 237 then 128 \<le> x \<and> x < 160
      else if b = 240 then 144 \<le> x \<and> x < 192 else if b = 244 then 128 \<le> x \<and> x < 144 else is_cont x)"

definition byte_at :: "nat list \<Rightarrow> nat \<Rightarrow> nat" where
  "byte_at bs i = (if i < length bs then bs ! i else 0)"

text \<open>The character at the head of \<open>b # bs\<close> and its length, or the length of the invalid sequence there.\<close>

definition utf8_step :: "nat \<Rightarrow> nat list \<Rightarrow> uchar option \<times> nat" where
  "utf8_step b bs =
     (let x = byte_at bs 0; y = byte_at bs 1; z = byte_at bs 2
      in if b < 128 then (Some b, 1)
         else if 194 \<le> b \<and> b < 224 then
           (if is_cont x then (Some ((b - 192) * 64 + (x - 128)), 2) else (None, 1))
         else if 224 \<le> b \<and> b < 240 then
           (if \<not> second_ok b x then (None, 1) else if \<not> is_cont y then (None, 2)
            else (Some ((b - 224) * 4096 + (x - 128) * 64 + (y - 128)), 3))
         else if 240 \<le> b \<and> b < 245 then
           (if \<not> second_ok b x then (None, 1) else if \<not> is_cont y then (None, 2) else if \<not> is_cont z then (None, 3)
            else (Some ((b - 240) * 262144 + (x - 128) * 4096 + (y - 128) * 64 + (z - 128)), 4))
         else (None, 1))"

fun from_utf8 :: "nat list \<Rightarrow> utext option" where
  "from_utf8 [] = Some []"
| "from_utf8 (b # bs) =
     (case utf8_step b bs of
        (Some c, n) \<Rightarrow> map_option ((#) c) (from_utf8 (drop (n - 1) bs))
      | (None, n) \<Rightarrow> None)"

fun from_utf8_lossy :: "nat list \<Rightarrow> utext" where
  "from_utf8_lossy [] = []"
| "from_utf8_lossy (b # bs) =
     (case utf8_step b bs of (c, n) \<Rightarrow> (case c of Some c \<Rightarrow> c | None \<Rightarrow> 65533) # from_utf8_lossy (drop (n - 1) bs))"

lemma byte_at_simps [simp]:
  "byte_at (b # bs) 0 = b" "byte_at (b # bs) (Suc i) = byte_at bs i" "byte_at [] i = 0"
  "byte_at (b # x # y # bs) 2 = y"
  by (simp_all add: byte_at_def)

lemma utf8_digits:
  fixes c :: nat
  obtains p q r s where "c = 262144 * p + 4096 * q + 64 * r + s" "q < 64" "r < 64" "s < 64"
    "c div 262144 = p" "c div 4096 mod 64 = q" "c div 64 mod 64 = r" "c mod 64 = s" "c div 4096 = 64 * p + q"
    "c div 64 = 4096 * p + 64 * q + r"
proof
  have a: "c div 4096 = c div 64 div 64" "c div 262144 = c div 4096 div 64" by (simp_all add: div_mult2_eq [symmetric])
  show "c = 262144 * (c div 262144) + 4096 * (c div 4096 mod 64) + 64 * (c div 64 mod 64) + c mod 64"
    "c div 4096 = 64 * (c div 262144) + c div 4096 mod 64"
    "c div 64 = 4096 * (c div 262144) + 64 * (c div 4096 mod 64) + c div 64 mod 64"
    using a mult_div_mod_eq [of 64 "c div 4096"] mult_div_mod_eq [of 64 "c div 64"] mult_div_mod_eq [of 64 c] by linarith+
qed simp_all

lemma utf8_step_encode:
  assumes "is_scalar c"
  shows "\<exists>b bs. utf8_encode c = b # bs \<and> utf8_step b (bs @ t) = (Some c, Suc (length bs))"
proof -
  obtain p q r s where d: "c = 262144 * p + 4096 * q + 64 * r + s" "q < 64" "r < 64" "s < 64"
    "c div 262144 = p" "c div 4096 mod 64 = q" "c div 64 mod 64 = r" "c mod 64 = s" "c div 4096 = 64 * p + q"
    "c div 64 = 4096 * p + 64 * q + r" by (rule utf8_digits [of c])
  consider "c < 128" | "128 \<le> c" "c < 2048" | "2048 \<le> c" "c < 65536" | "65536 \<le> c" "c < 1114112"
    using assms by (force simp: is_scalar_def)
  then show ?thesis
  proof cases
    case 2
    then have "p = 0" "q = 0" using d(1-4) by linarith+
    moreover from this have "2 \<le> r" "r < 32" using 2 d(1-4) by linarith+
    ultimately have "p = 0" "q = 0" "2 \<le> r" "r < 32" .
    then show ?thesis using 2 d by (simp add: utf8_encode_def utf8_step_def is_cont_def Let_def)
  next
    case 3
    then have p: "p = 0" "q < 16" using d(1-4) by linarith+
    moreover have "second_ok (224 + q) (128 + r)"
    proof -
      have "q = 0 \<Longrightarrow> 32 \<le> r" using 3 p d(1-4) by linarith
      moreover have "q = 13 \<Longrightarrow> r < 32" using 3 p d(1-4) assms unfolding is_scalar_def by linarith
      ultimately show ?thesis using p d(3) by (auto simp: second_ok_def is_cont_def)
    qed
    ultimately show ?thesis using 3 d by (simp add: utf8_encode_def utf8_step_def is_cont_def Let_def)
  next
    case 4
    then have p: "p \<le> 4" using d(1-4) by linarith
    moreover have "second_ok (240 + p) (128 + q)"
    proof -
      have "p = 0 \<Longrightarrow> 16 \<le> q" "p = 4 \<Longrightarrow> q < 16" using 4 d(1-4) by linarith+
      then show ?thesis using p d(2) by (auto simp: second_ok_def is_cont_def)
    qed
    ultimately show ?thesis using 4 d by (simp add: utf8_encode_def utf8_step_def is_cont_def Let_def)
  qed (simp add: utf8_encode_def utf8_step_def Let_def)
qed

lemma from_utf8_encode: "list_all is_scalar s \<Longrightarrow> from_utf8 (utf8_bytes s) = Some s"
proof (induction s)
  case (Cons c s)
  then obtain b bs where "utf8_encode c = b # bs" "utf8_step b (bs @ utf8_bytes s) = (Some c, Suc (length bs))"
    using utf8_step_encode [of c "utf8_bytes s"] by auto
  then show ?case using Cons by (simp add: utf8_bytes_def)
qed (simp add: utf8_bytes_def)

lemma utf8_bytes_len: "length (utf8_bytes s) = utf8_len s"
  by (induction s) (simp_all add: utf8_bytes_def utf8_encode_def len_utf8_def)

section \<open>Paths\<close>

datatype path_component = RootDir | CurDir | ParentDir | NormalComponent utext

definition path_components :: "utext \<Rightarrow> path_component list" where
  "path_components s =
     (let pieces = usplit ((=) 47) s; absolute = (s \<noteq> [] \<and> hd s = 47)
      in (if absolute then [RootDir] else if hd pieces = [46] then [CurDir] else [])
         @ map (\<lambda>w. if w = [46, 46] then ParentDir else NormalComponent w)
             (filter (\<lambda>w. w \<noteq> [] \<and> w \<noteq> [46]) pieces))"

text \<open>\<open>Path::file_stem\<close> and \<open>Path::extension\<close> of a path that is a single name.\<close>

definition stem_and_extension :: "utext \<Rightarrow> utext option \<times> utext option" where
  "stem_and_extension name =
     (if name \<in> set [[], [46], [46, 46]] then (None, None)
      else case ursplit_once 46 name of
             None \<Rightarrow> (Some name, None)
           | Some (stem, ext) \<Rightarrow> if stem = [] then (Some name, None) else (Some stem, Some ext))"

lemma stem_and_extension_Some:
  "stem_and_extension name = (x, Some e) \<Longrightarrow> \<exists>st. x = Some st \<and> name = st @ 46 # e \<and> st \<noteq> [] \<and> 46 \<notin> set e"
  using ursplit_once_Some [of 46 name] by (auto simp: stem_and_extension_def split: option.splits if_splits)

lemma stem_and_extension_None: "stem_and_extension name = (Some st, None) \<Longrightarrow> st = name"
  by (auto simp: stem_and_extension_def split: option.splits if_splits)

lemma path_components_single:
  "47 \<notin> set s \<Longrightarrow> path_components s = (if s = [] then [] else if s = [46] then [CurDir] else if s = [46, 46] then [ParentDir]
     else [NormalComponent s])"
proof -
  assume s: "47 \<notin> set s"
  have "usplit ((=) 47) s = [s]" by (rule usplit_none) (use s in \<open>auto simp: list_all_iff\<close>)
  moreover have "s \<noteq> [] \<Longrightarrow> hd s \<noteq> 47" using s by (cases s) auto
  ultimately show ?thesis by (simp add: path_components_def Let_def)
qed

end
