(* ===== verification/File_Names.thy ===== *)
theory File_Names
  imports Unicode_Text
begin

text \<open>
  File names from untrusted text: the sanitizer (\<open>io/sanitize.rs\<close>), the file name hints of
  Content-Disposition (\<open>http/probe.rs\<close>), and the candidates of the rename policy (\<open>job/naming.rs\<close>).
\<close>

section \<open>The sanitizer\<close>

definition MAX_FILENAME_LEN :: nat where
  "MAX_FILENAME_LEN = 255"

definition RESERVED_BASENAMES :: "utext list" where
  "RESERVED_BASENAMES =
     map lit [''CON'', ''PRN'', ''AUX'', ''NUL'', ''COM1'', ''COM2'', ''COM3'', ''COM4'', ''COM5'', ''COM6'', ''COM7'',
       ''COM8'', ''COM9'', ''LPT1'', ''LPT2'', ''LPT3'', ''LPT4'', ''LPT5'', ''LPT6'', ''LPT7'', ''LPT8'', ''LPT9'']
     @ [lit ''COM'' @ [185], lit ''COM'' @ [178], lit ''COM'' @ [179], lit ''LPT'' @ [185], lit ''LPT'' @ [178], lit ''LPT'' @ [179]]"

definition is_reserved_device_basename :: "utext \<Rightarrow> bool" where
  "is_reserved_device_basename name =
     (let stem = hd (usplit ((=) 46) name) in list_ex (\<lambda>reserved. ueq_ignore_ascii_case reserved stem) RESERVED_BASENAMES)"

definition truncate_preserving_extension :: "utext \<Rightarrow> nat \<Rightarrow> utext option" where
  "truncate_preserving_extension candidate byte_limit =
     (if utf8_len candidate \<le> byte_limit then Some candidate
      else let ext_len = (case snd (stem_and_extension candidate) of None \<Rightarrow> 0 | Some e \<Rightarrow> utf8_len e + 1);
               (stem_part, suffix) =
                 (if 0 < ext_len \<and> ext_len < byte_limit
                  then (case stem_and_extension candidate of
                          (Some st, Some e) \<Rightarrow> (st, 46 # e)
                        | _ \<Rightarrow> (candidate, []))
                  else (candidate, []));
               kept = utf8_prefix (byte_limit - utf8_len suffix) stem_part
           in if kept = [] \<and> suffix = [] then None else Some (kept @ suffix))"

definition is_single_normal_component :: "utext \<Rightarrow> bool" where
  "is_single_normal_component name =
     (case path_components name of NormalComponent _ # rest \<Rightarrow> rest = [] | _ \<Rightarrow> False)"

definition separator :: "uchar \<Rightarrow> bool" where
  "separator c \<longleftrightarrow> c = 47 \<or> c = 92"

definition illegal :: "uchar \<Rightarrow> bool" where
  "illegal c \<longleftrightarrow> c \<in> set (lit ''<>:|?*'') \<or> c = 34"

definition replace_illegal :: "uchar \<Rightarrow> uchar" where
  "replace_illegal c = (if illegal c then 95 else c)"

definition space_or_dot :: "uchar \<Rightarrow> bool" where
  "space_or_dot c \<longleftrightarrow> c = 32 \<or> c = 46"

definition trim_end :: "utext \<Rightarrow> utext" where
  "trim_end s = rev (dropWhile space_or_dot (rev s))"

definition empty_or_dots :: "utext \<Rightarrow> bool" where
  "empty_or_dots s \<longleftrightarrow> s = [] \<or> list_all ((=) 46) s"

text \<open>Steps 6 to 9: the reserved names, the length, and the checks of the result.\<close>

definition finish_name :: "nat \<Rightarrow> utext \<Rightarrow> utext option" where
  "finish_name byte_limit candidate =
     (let candidate = (if is_reserved_device_basename candidate then 95 # candidate else candidate)
      in case (if byte_limit < utf8_len candidate then truncate_preserving_extension candidate byte_limit else Some candidate) of
           None \<Rightarrow> None
         | Some candidate \<Rightarrow>
             if empty_or_dots candidate then None
             else let reserved = is_reserved_device_basename candidate;
                      candidate = (if reserved then 95 # candidate else candidate)
                  in if reserved \<and> byte_limit < utf8_len candidate then None
                     else if \<not> is_single_normal_component candidate then None
                     else Some candidate)"

definition try_sanitize_filename :: "utext \<Rightarrow> nat \<Rightarrow> utext option" where
  "try_sanitize_filename input byte_limit =
     (if byte_limit = 0 then None
      else case find (\<lambda>w. w \<noteq> []) (rev (usplit separator input)) of
             None \<Rightarrow> None
           | Some candidate \<Rightarrow>
               let candidate = filter (\<lambda>c. \<not> is_control c) candidate;
                   candidate = map replace_illegal candidate;
                   candidate = trim_end candidate
               in if empty_or_dots candidate then None else finish_name byte_limit candidate)"

definition sanitize_filename :: "utext \<Rightarrow> utext" where
  "sanitize_filename input = (case try_sanitize_filename input MAX_FILENAME_LEN of Some s \<Rightarrow> s | None \<Rightarrow> lit ''download'')"

section \<open>What a sanitized name is\<close>

definition plain_char :: "uchar \<Rightarrow> bool" where
  "plain_char c \<longleftrightarrow> \<not> separator c \<and> \<not> is_control c \<and> \<not> illegal c"

definition safe_name :: "nat \<Rightarrow> utext \<Rightarrow> bool" where
  "safe_name byte_limit s \<longleftrightarrow> s \<noteq> [] \<and> utf8_len s \<le> byte_limit \<and> list_all plain_char s
     \<and> \<not> list_all ((=) 46) s \<and> \<not> is_reserved_device_basename s \<and> path_components s = [NormalComponent s]"

lemma plain_no_slash: "list_all plain_char s \<Longrightarrow> 47 \<notin> set s"
  by (auto simp: list_all_iff plain_char_def separator_def)

lemma single_component:
  assumes "list_all plain_char s"
  shows "is_single_normal_component s \<longleftrightarrow> path_components s = [NormalComponent s]"
  using path_components_single [OF plain_no_slash [OF assms]] by (simp add: is_single_normal_component_def)

lemma plain_underscore [simp]: "plain_char 95" "\<not> illegal 95" "plain_char 46"
  by (simp_all add: plain_char_def separator_def is_control_def illegal_def lit_def)

lemma not_reserved_underscore: "\<not> is_reserved_device_basename (95 # s)"
proof -
  have "hd (usplit ((=) 46) (95 # s)) = 95 # hd (usplit ((=) 46) s)" by simp
  then show ?thesis
    by (simp add: is_reserved_device_basename_def RESERVED_BASENAMES_def ueq_ignore_ascii_case_def lit_def ulower_def)
qed

lemma truncate_keeps:
  assumes "truncate_preserving_extension s n = Some r"
  shows "utf8_len r \<le> n" "set r \<subseteq> set s"
proof -
  have *: "utf8_len r \<le> n \<and> set r \<subseteq> set s"
  proof (cases "utf8_len s \<le> n")
    case True
    then show ?thesis using assms by (simp add: truncate_preserving_extension_def)
  next
    case False
    define q where "q = (case snd (stem_and_extension s) of None \<Rightarrow> 0 | Some e \<Rightarrow> utf8_len e + 1)"
    consider (ext) st e where "stem_and_extension s = (Some st, Some e)" "utf8_len e + 1 < n"
        "r = utf8_prefix (n - utf8_len (46 # e)) st @ 46 # e"
      | (plain) "r = utf8_prefix n s"
      using assms False
      by (auto simp: truncate_preserving_extension_def Let_def split: if_splits option.splits prod.splits)
    then show ?thesis
    proof cases
      case ext
      then have "s = st @ 46 # e" using stem_and_extension_Some [of s "Some st" e] by simp
      then show ?thesis using ext utf8_prefix_len [of "n - utf8_len (46 # e)" st] utf8_prefix_set [of "n - utf8_len (46 # e)" st]
        by (auto simp: len_utf8_def)
    next
      case plain
      then show ?thesis using utf8_prefix_len utf8_prefix_set by simp
    qed
  qed
  then show "utf8_len r \<le> n" "set r \<subseteq> set s" by simp_all
qed

lemma finish_name_safe:
  assumes "finish_name n s = Some r" "list_all plain_char s"
  shows "safe_name n r"
proof -
  let ?s = "if is_reserved_device_basename s then 95 # s else s"
  obtain t where t: "(if n < utf8_len ?s then truncate_preserving_extension ?s n else Some ?s) = Some t" "\<not> empty_or_dots t"
      "r = (if is_reserved_device_basename t then 95 # t else t)" "is_reserved_device_basename t \<Longrightarrow> utf8_len r \<le> n"
      "is_single_normal_component r"
    using assms(1) by (auto simp: finish_name_def Let_def split: option.splits if_splits)
  have len: "utf8_len t \<le> n" and sub: "set t \<subseteq> set ?s"
    using t(1) truncate_keeps [of ?s n t] by (auto split: if_splits)
  have "list_all plain_char ?s" using assms(2) by simp
  then have plain: "list_all plain_char r" using sub t(3) by (auto simp: list_all_iff)
  have dots: "\<not> list_all ((=) 46) r" "r \<noteq> []" using t(2,3) by (auto simp: empty_or_dots_def)
  have "\<not> is_reserved_device_basename r" using t(3) not_reserved_underscore by simp
  moreover have "utf8_len r \<le> n" using t(3,4) len by (cases "is_reserved_device_basename t") simp_all
  ultimately show ?thesis using plain dots t(5) single_component [OF plain] by (simp add: safe_name_def)
qed

lemma trim_end_set: "set (trim_end s) \<subseteq> set s"
  using set_dropWhileD [of _ space_or_dot "rev s"] by (auto simp: trim_end_def)

lemma sanitized_is_safe:
  assumes "try_sanitize_filename input n = Some r"
  shows "safe_name n r"
proof -
  obtain w where w: "find (\<lambda>w. w \<noteq> []) (rev (usplit separator input)) = Some w"
      "finish_name n (trim_end (map replace_illegal (filter (\<lambda>c. \<not> is_control c) w))) = Some r"
    using assms by (auto simp: try_sanitize_filename_def Let_def split: if_splits option.splits)
  have "w \<in> set (rev (usplit separator input))" using w(1) by (metis find_Some_iff nth_mem)
  then have "w \<in> set (usplit separator input)" by simp
  then have "\<not> separator c" if "c \<in> set w" for c using usplit_pieces that by blast
  then have "list_all plain_char (map replace_illegal (filter (\<lambda>c. \<not> is_control c) w))"
    by (auto simp: list_all_iff plain_char_def replace_illegal_def separator_def is_control_def)
  then have "list_all plain_char (trim_end (map replace_illegal (filter (\<lambda>c. \<not> is_control c) w)))"
    using trim_end_set by (fastforce simp: list_all_iff)
  then show ?thesis using finish_name_safe [OF w(2)] by simp
qed

text \<open>A name that is safe and does not end in a space or a period is left alone.\<close>

definition clean_name :: "nat \<Rightarrow> utext \<Rightarrow> bool" where
  "clean_name n s \<longleftrightarrow> safe_name n s \<and> \<not> space_or_dot (last s)"

lemma trim_end_id: "s \<noteq> [] \<Longrightarrow> \<not> space_or_dot (last s) \<Longrightarrow> trim_end s = s"
  by (cases s rule: rev_cases) (simp_all add: trim_end_def)

lemma clean_is_kept:
  assumes "clean_name n s"
  shows "try_sanitize_filename s n = Some s"
proof -
  have s: "s \<noteq> []" "utf8_len s \<le> n" "list_all plain_char s" "\<not> list_all ((=) 46) s" "\<not> is_reserved_device_basename s"
      "path_components s = [NormalComponent s]" "\<not> space_or_dot (last s)"
    using assms by (simp_all add: clean_name_def safe_name_def)
  have n: "n \<noteq> 0" using s(1,2) by (metis le_zero_eq utf8_len_zero)
  have split: "usplit separator s = [s]" by (rule usplit_none) (use s(3) in \<open>auto simp: list_all_iff plain_char_def\<close>)
  have f: "filter (\<lambda>c. \<not> is_control c) s = s" "map replace_illegal s = s"
    using s(3) by (auto simp: filter_id_conv list_all_iff plain_char_def replace_illegal_def intro: map_idI)
  have "finish_name n s = Some s"
    using s single_component [OF s(3)] by (simp add: finish_name_def Let_def empty_or_dots_def)
  then show ?thesis using n s f trim_end_id by (simp add: try_sanitize_filename_def split Let_def empty_or_dots_def)
qed

text \<open>
  Truncation can end a name in a space or a period again, which the checks after it do not see; a second
  pass changes such a name.
\<close>

lemma truncation_leaves_space:
  "try_sanitize_filename (lit ''abc def'') 4 = Some (lit ''abc '')
   \<and> try_sanitize_filename (lit ''abc '') 4 = Some (lit ''abc'')"
  by code_simp

section \<open>Content-Disposition\<close>

fun split_parameters :: "bool \<Rightarrow> bool \<Rightarrow> utext \<Rightarrow> utext \<Rightarrow> utext list" where
  "split_parameters in_quotes escaped current [] = [current]"
| "split_parameters in_quotes escaped current (c # cs) =
     (if escaped then split_parameters in_quotes False (current @ [92, c]) cs
      else if c = 92 \<and> in_quotes then split_parameters in_quotes True current cs
      else if c = 34 then split_parameters (\<not> in_quotes) False (current @ [c]) cs
      else if c = 59 \<and> \<not> in_quotes then current # split_parameters in_quotes False [] cs
      else split_parameters in_quotes False (current @ [c]) cs)"

definition split_disposition_parameters :: "utext \<Rightarrow> utext list" where
  "split_disposition_parameters parameters = split_parameters False False [] parameters"

fun parse_quoted :: "utext \<Rightarrow> utext option" where
  "parse_quoted [] = None"
| "parse_quoted (c # cs) =
     (if c = 92 then
        (case cs of
           [] \<Rightarrow> None
         | x # xs \<Rightarrow> map_option (\<lambda>out. (if x = 34 \<or> x = 92 then [x] else [92, x]) @ out) (parse_quoted xs))
      else if c = 34 then (if list_all is_whitespace cs then Some [] else None)
      else map_option ((#) c) (parse_quoted cs))"

definition parse_plain_value :: "utext \<Rightarrow> utext option" where
  "parse_plain_value v = (case v of c # rest \<Rightarrow> if c = 34 then parse_quoted rest else Some v | [] \<Rightarrow> Some v)"

definition to_digit16 :: "nat \<Rightarrow> nat option" where
  "to_digit16 b =
     (if 48 \<le> b \<and> b \<le> 57 then Some (b - 48) else if 97 \<le> b \<and> b \<le> 102 then Some (b - 87)
      else if 65 \<le> b \<and> b \<le> 70 then Some (b - 55) else None)"

fun percent_decode_strict :: "nat list \<Rightarrow> nat list option" where
  "percent_decode_strict [] = Some []"
| "percent_decode_strict (b # bs) =
     (if b = 37 then
        (case bs of
           h # l # rest \<Rightarrow>
             (case (to_digit16 h, to_digit16 l) of
                (Some x, Some y) \<Rightarrow> map_option ((#) (16 * x + y)) (percent_decode_strict rest)
              | _ \<Rightarrow> None)
         | _ \<Rightarrow> None)
      else map_option ((#) b) (percent_decode_strict bs))"

definition parse_extended_value :: "utext \<Rightarrow> utext option" where
  "parse_extended_value v =
     (case usplit_once 39 v of
        None \<Rightarrow> None
      | Some (charset, rest) \<Rightarrow>
          (case usplit_once 39 rest of
             None \<Rightarrow> None
           | Some (_, encoded) \<Rightarrow>
               if \<not> (ueq_ignore_ascii_case charset (lit ''utf-8'') \<or> ueq_ignore_ascii_case charset (lit ''utf8'')) then None
               else case percent_decode_strict (utf8_bytes encoded) of
                      None \<Rightarrow> None
                    | Some bytes \<Rightarrow> from_utf8 bytes))"

definition nonempty :: "utext option \<Rightarrow> utext option" where
  "nonempty v = (case v of Some x \<Rightarrow> if x = [] then None else Some x | None \<Rightarrow> None)"

fun scan_parameters :: "utext list \<Rightarrow> utext option \<Rightarrow> utext option \<Rightarrow> utext option \<times> utext option" where
  "scan_parameters [] extended plain = (extended, plain)"
| "scan_parameters (p # ps) extended plain =
     (case usplit_once 61 p of
        None \<Rightarrow> scan_parameters ps extended plain
      | Some (raw_name, raw_value) \<Rightarrow>
          let name = utrim raw_name;
              (extended, plain) =
                (if ueq_ignore_ascii_case name (lit ''filename*'') \<and> extended = None
                 then (nonempty (parse_extended_value (utrim raw_value)), plain)
                 else if ueq_ignore_ascii_case name (lit ''filename'') \<and> plain = None
                 then (extended, nonempty (parse_plain_value (utrim raw_value)))
                 else (extended, plain))
          in if extended \<noteq> None \<and> plain \<noteq> None then (extended, plain) else scan_parameters ps extended plain)"

definition disposition_filename_candidates :: "utext option \<Rightarrow> utext option \<times> utext option" where
  "disposition_filename_candidates cd =
     (case cd of
        None \<Rightarrow> (None, None)
      | Some cd \<Rightarrow>
          (case usplit_once 59 cd of
             None \<Rightarrow> (None, None)
           | Some (_, parameters) \<Rightarrow>
               (case scan_parameters (split_disposition_parameters parameters) None None of
                  (extended, plain) \<Rightarrow> ((case extended of Some x \<Rightarrow> Some x | None \<Rightarrow> plain), plain))))"

definition filename_from_disposition :: "utext option \<Rightarrow> utext option" where
  "filename_from_disposition cd = fst (disposition_filename_candidates cd)"

section \<open>What a server writes is what the parser reads\<close>

definition escape_quoted :: "utext \<Rightarrow> utext" where
  "escape_quoted s = concat (map (\<lambda>c. if c = 34 \<or> c = 92 then [92, c] else [c]) s)"

definition hex_digit :: "nat \<Rightarrow> nat" where
  "hex_digit d = (if d < 10 then 48 + d else 55 + d)"

definition unreserved :: "nat \<Rightarrow> bool" where
  "unreserved b \<longleftrightarrow> 48 \<le> b \<and> b \<le> 57 \<or> 65 \<le> b \<and> b \<le> 90 \<or> 97 \<le> b \<and> b \<le> 122 \<or> b \<in> set [45, 46, 95, 126]"

definition percent_encode :: "nat list \<Rightarrow> nat list" where
  "percent_encode bs = concat (map (\<lambda>b. if unreserved b then [b] else [37, hex_digit (b div 16), hex_digit (b mod 16)]) bs)"

lemma parse_quoted_escape: "parse_quoted (escape_quoted s @ [34]) = Some s"
  by (induction s) (simp_all add: escape_quoted_def)

lemma split_quoted:
  "split_parameters True False cur (escape_quoted s @ t) = split_parameters True False (cur @ escape_quoted s) t"
  by (induction s arbitrary: cur) (simp_all add: escape_quoted_def)

lemma to_digit16_hex: "d < 16 \<Longrightarrow> to_digit16 (hex_digit d) = Some d"
  by (simp add: to_digit16_def hex_digit_def)

lemma percent_roundtrip: "list_all (\<lambda>b. b < 256) bs \<Longrightarrow> percent_decode_strict (percent_encode bs) = Some bs"
proof (induction bs)
  case (Cons b bs)
  have "b div 16 < 16" using Cons.prems by (auto simp: less_mult_imp_div_less)
  then show ?case using Cons to_digit16_hex
    by (auto simp: percent_encode_def unreserved_def)
qed (simp add: percent_encode_def)

lemma utrim_id: "s \<noteq> [] \<Longrightarrow> \<not> is_whitespace (hd s) \<Longrightarrow> \<not> is_whitespace (last s) \<Longrightarrow> utrim s = s"
  by (simp add: utrim_def dropWhile_eq_self_iff [THEN iffD2] hd_rev)

lemma scan_one:
  assumes "usplit_once 61 p = Some (n, v)"
  shows "utrim n = lit ''filename'' \<Longrightarrow> scan_parameters [p] None None = (None, nonempty (parse_plain_value (utrim v)))"
    "utrim n = lit ''filename*'' \<Longrightarrow> scan_parameters [p] None None = (nonempty (parse_extended_value (utrim v)), None)"
  using assms by (simp_all add: ueq_ignore_ascii_case_def lit_def ulower_def)

lemma disposition_value:
  assumes "split_disposition_parameters (32 # q) = [32 # q]" "usplit_once 61 (32 # q) = Some (n, v)"
  shows "utrim n = lit ''filename'' \<Longrightarrow> disposition_filename_candidates (Some (lit ''attachment; '' @ q))
      = (nonempty (parse_plain_value (utrim v)), nonempty (parse_plain_value (utrim v)))"
    "utrim n = lit ''filename*'' \<Longrightarrow> disposition_filename_candidates (Some (lit ''attachment; '' @ q))
      = (nonempty (parse_extended_value (utrim v)), None)"
proof -
  have "usplit_once 59 (lit ''attachment; '' @ q) = Some (lit ''attachment'', 32 # q)" by (simp add: lit_def)
  then show "utrim n = lit ''filename'' \<Longrightarrow> disposition_filename_candidates (Some (lit ''attachment; '' @ q))
      = (nonempty (parse_plain_value (utrim v)), nonempty (parse_plain_value (utrim v)))"
    "utrim n = lit ''filename*'' \<Longrightarrow> disposition_filename_candidates (Some (lit ''attachment; '' @ q))
      = (nonempty (parse_extended_value (utrim v)), None)"
    using assms scan_one [OF assms(2)]
    by (simp_all add: disposition_filename_candidates_def split: option.splits)
qed

lemma split_plain:
  "list_all (\<lambda>c. c \<noteq> 34 \<and> c \<noteq> 59) s \<Longrightarrow> split_parameters False False cur (s @ t) = split_parameters False False (cur @ s) t"
  by (induction s arbitrary: cur) simp_all

lemma hex_digit_token: "d < 16 \<Longrightarrow> hex_digit d \<noteq> 34 \<and> hex_digit d \<noteq> 39 \<and> hex_digit d \<noteq> 59 \<and> 33 \<le> hex_digit d \<and> hex_digit d < 128"
  by (simp add: hex_digit_def)

lemma percent_encode_tokens:
  assumes "list_all (\<lambda>b. b < 256) bs" "c \<in> set (percent_encode bs)"
  shows "c \<noteq> 34 \<and> c \<noteq> 39 \<and> c \<noteq> 59 \<and> 33 \<le> c \<and> c < 128"
proof -
  obtain b where b: "b \<in> set bs" "c \<in> set (if unreserved b then [b] else [37, hex_digit (b div 16), hex_digit (b mod 16)])"
    using assms(2) unfolding percent_encode_def set_concat set_map by blast
  then have "b div 16 < 16" "b mod 16 < 16" using assms(1) by (auto simp: list_all_iff less_mult_imp_div_less)
  note hex = hex_digit_token [OF this(1)] hex_digit_token [OF this(2)]
  show ?thesis
  proof (cases "unreserved b")
    case True
    then have "c = b" using b(2) by simp
    with True show ?thesis unfolding unreserved_def by auto
  next
    case False
    then have "c = 37 \<or> c = hex_digit (b div 16) \<or> c = hex_digit (b mod 16)" using b(2) by simp
    then show ?thesis using hex by (elim disjE) simp_all
  qed
qed

lemma utf8_bytes_ascii: "list_all (\<lambda>c. c < 128) s \<Longrightarrow> utf8_bytes s = s"
  by (induction s) (simp_all add: utf8_bytes_def utf8_encode_def)

lemma utf8_bytes_bound: "list_all is_scalar s \<Longrightarrow> list_all (\<lambda>b. b < 256) (utf8_bytes s)"
proof (induction s)
  case (Cons c s)
  then have "c < 1114112" by (auto simp: is_scalar_def)
  moreover from this have "c div 262144 < 5" by (simp add: less_mult_imp_div_less)
  ultimately have "list_all (\<lambda>b. b < 256) (utf8_encode c)"
    by (auto simp: utf8_encode_def less_mult_imp_div_less add_strict_mono)
  then show ?case using Cons by (simp add: utf8_bytes_def)
qed (simp add: utf8_bytes_def)

text \<open>
  Claim C28: a file name that a server sends as a quoted string (with quoted pairs) is the first candidate
  and the plain one, and a name of any Unicode characters that it sends percent-encoded as \<open>filename*\<close> in
  UTF-8 is the first candidate, exactly as it was written.
\<close>

theorem disposition_roundtrip:
  assumes "name \<noteq> []" "list_all is_scalar name"
  shows "disposition_filename_candidates (Some (lit ''attachment; filename='' @ 34 # escape_quoted name @ [34]))
      = (Some name, Some name)
    \<and> disposition_filename_candidates (Some (lit ''attachment; filename*=UTF-8'' @ 39 # 39 # percent_encode (utf8_bytes name)))
      = (Some name, None)"
proof
  let ?v = "34 # escape_quoted name @ [34]"
  have "split_disposition_parameters (32 # lit ''filename='' @ ?v) = [32 # lit ''filename='' @ ?v]"
    using split_quoted [of "32 # lit ''filename='' @ [34]" name "[34]"]
    by (simp add: split_disposition_parameters_def lit_def)
  moreover have "usplit_once 61 (32 # lit ''filename='' @ ?v) = Some (32 # lit ''filename'', ?v)" by (simp add: lit_def)
  moreover have "utrim (32 # lit ''filename'') = lit ''filename''" by code_simp
  moreover have "utrim ?v = ?v" by (rule utrim_id) (simp_all add: is_whitespace_def)
  moreover have "parse_plain_value ?v = Some name" by (simp add: parse_plain_value_def parse_quoted_escape)
  ultimately show "disposition_filename_candidates (Some (lit ''attachment; filename='' @ ?v)) = (Some name, Some name)"
    using disposition_value(1) [of "lit ''filename='' @ ?v"] assms(1) by (simp add: lit_def nonempty_def)
next
  let ?e = "percent_encode (utf8_bytes name)"
  let ?v = "lit ''UTF-8'' @ 39 # 39 # ?e"
  note tok = percent_encode_tokens [OF utf8_bytes_bound [OF assms(2)]]
  have e: "?e \<noteq> []" using percent_roundtrip [OF utf8_bytes_bound [OF assms(2)]] from_utf8_encode [OF assms(2)] assms(1) by auto
  have "list_all (\<lambda>c. c \<noteq> 34 \<and> c \<noteq> 59) (32 # lit ''filename*='' @ ?v)" using tok by (auto simp: list_all_iff lit_def)
  from split_plain [OF this, of "[]" "[]"]
  have "split_disposition_parameters (32 # lit ''filename*='' @ ?v) = [32 # lit ''filename*='' @ ?v]"
    by (simp add: split_disposition_parameters_def)
  moreover have "usplit_once 61 (32 # lit ''filename*='' @ ?v) = Some (32 # lit ''filename*'', ?v)" by (simp add: lit_def)
  moreover have "utrim (32 # lit ''filename*'') = lit ''filename*''" by code_simp
  moreover have "utrim ?v = ?v"
  proof (rule utrim_id)
    have "last ?v \<in> set ?e" using e by simp
    then have "33 \<le> last ?v" "last ?v < 128" using tok by blast+
    then show "\<not> is_whitespace (last ?v)" by (auto simp: is_whitespace_def)
  qed (simp_all add: lit_def is_whitespace_def)
  moreover have "parse_extended_value ?v = Some name"
  proof -
    have "utf8_bytes ?e = ?e" by (rule utf8_bytes_ascii) (use tok in \<open>auto simp: list_all_iff\<close>)
    then show ?thesis using percent_roundtrip [OF utf8_bytes_bound [OF assms(2)]] from_utf8_encode [OF assms(2)]
      by (simp add: parse_extended_value_def lit_def ueq_ignore_ascii_case_def ulower_def)
  qed
  ultimately show "disposition_filename_candidates (Some (lit ''attachment; filename*=UTF-8'' @ 39 # 39 # ?e)) = (Some name, None)"
    using disposition_value(2) [of "lit ''filename*='' @ ?v"] assms(1) by (simp add: lit_def nonempty_def)
qed

theorem disposition_roundtrip_witness:
  "disposition_filename_candidates (Some (lit ''attachment; filename='' @ 34 # escape_quoted [233, 59, 34, 8364] @ [34]))
     = (Some [233, 59, 34, 8364], Some [233, 59, 34, 8364])"
  using disposition_roundtrip [of "[233, 59, 34, 8364]"] by (simp add: is_scalar_def)

end
