(* ===== verification/Destination_Names.thy ===== *)
theory Destination_Names
  imports File_Names Engine_Config Download_Error
begin

text \<open>
  Names of destinations (\<open>job/naming.rs\<close>): the basename of a directory target, resolved from the response
  and the URLs, and the numbered siblings of the rename policy. The parser of URLs and the \<open>Debug\<close> output of
  a text are arguments.
\<close>

section \<open>Directory targets\<close>

definition DEFAULT_FALLBACK_FILENAME :: utext where
  "DEFAULT_FALLBACK_FILENAME = lit ''download''"

definition MAX_FINAL_BASENAME_BYTES :: nat where
  "MAX_FINAL_BASENAME_BYTES = 250"

definition RENAME_MIN_CAP_BYTES :: nat where
  "RENAME_MIN_CAP_BYTES = 7"

definition RENAME_MAX_SUFFIX :: nat where
  "RENAME_MAX_SUFFIX = 999"

record directory_options =
  do_fallback :: utext
  do_max_filename_bytes :: nat

text \<open>\<open>entry\<close> is the result of \<open>metadata\<close>: its error, or whether the entry is a directory.\<close>

definition validate_directory_target :: "(utext \<Rightarrow> string) \<Rightarrow> string \<Rightarrow> string + bool \<Rightarrow> directory_options
    \<Rightarrow> overwrite_policy \<Rightarrow> download_error + unit" where
  "validate_directory_target dbg directory entry opts overwrite =
     (let cap = do_max_filename_bytes opts; fallback = do_fallback opts; flen = utf8_len fallback
      in case entry of
           Inl e \<Rightarrow> Inl (Configuration (''directory target '' @ directory @ '' is not an existing directory: '' @ e))
         | Inr is_dir \<Rightarrow>
             if \<not> is_dir then Inl (Configuration (''directory target '' @ directory @ '' is not a directory''))
             else if fallback = [] \<or> try_sanitize_filename fallback cap \<noteq> Some fallback then
               Inl (Configuration (''fallback filename '' @ dbg fallback
                 @ '' is not an unchanged single normal component within the byte cap''))
             else if MAX_FINAL_BASENAME_BYTES < cap \<or> cap < flen \<or> overwrite = Rename \<and> cap < RENAME_MIN_CAP_BYTES then
               Inl (Configuration (''max_filename_bytes '' @ show_u64 cap @ '' must be within [''
                 @ show_u64 (max (max cap flen) (if overwrite = Rename then RENAME_MIN_CAP_BYTES else flen))
                 @ '', '' @ show_u64 MAX_FINAL_BASENAME_BYTES @ ''] for this request''))
             else Inr ())"

definition percent_decode_once :: "utext \<Rightarrow> utext option" where
  "percent_decode_once segment = map_option from_utf8_lossy (percent_decode_strict (utf8_bytes segment))"

text \<open>\<open>uri_path\<close> parses a URL and returns its path.\<close>

definition url_path_basename :: "(utext \<Rightarrow> utext option) \<Rightarrow> utext \<Rightarrow> utext option" where
  "url_path_basename uri_path url =
     (case uri_path url of
        None \<Rightarrow> None
      | Some path \<Rightarrow>
          if path \<noteq> [] \<and> last path = 47 then None
          else let segment = (case ursplit_once 47 path of Some (_, l) \<Rightarrow> l | None \<Rightarrow> path)
               in if segment = [] then None
                  else case percent_decode_once segment of
                         None \<Rightarrow> None
                       | Some decoded \<Rightarrow> if 47 \<in> set decoded \<or> 92 \<in> set decoded then None else Some decoded)"

fun first_sanitized :: "nat \<Rightarrow> utext option list \<Rightarrow> utext option" where
  "first_sanitized cap [] = None"
| "first_sanitized cap (None # rest) = first_sanitized cap rest"
| "first_sanitized cap (Some raw # rest) =
     (case try_sanitize_filename raw cap of Some name \<Rightarrow> Some name | None \<Rightarrow> first_sanitized cap rest)"

text \<open>The hints of the probe, the final URL and the original one, in this order.\<close>

definition resolve_directory_basename :: "(utext \<Rightarrow> utext option) \<Rightarrow> utext option \<Rightarrow> utext option \<Rightarrow> utext \<Rightarrow> utext
    \<Rightarrow> directory_options \<Rightarrow> utext" where
  "resolve_directory_basename uri_path filename_hint plain_hint final_url original_url opts =
     (let cap = do_max_filename_bytes opts
      in case first_sanitized cap [filename_hint, plain_hint] of
           Some name \<Rightarrow> name
         | None \<Rightarrow>
             (case first_sanitized cap [url_path_basename uri_path final_url, url_path_basename uri_path original_url] of
                Some name \<Rightarrow> name
              | None \<Rightarrow> do_fallback opts))"

section \<open>Rename candidates\<close>

definition rename_suffix :: "nat \<Rightarrow> utext" where
  "rename_suffix n = lit ('' ('' @ show_u64 n @ '')'')"

definition numbered_candidate :: "utext \<Rightarrow> utext \<Rightarrow> nat \<Rightarrow> nat \<Rightarrow> utext option" where
  "numbered_candidate st ext cap n =
     (let suffix = rename_suffix n;
          stem_budget = cap - utf8_len suffix - utf8_len ext
      in if stem_budget = 0 then None
         else let kept = utf8_prefix stem_budget st
              in if kept = [] then None else try_sanitize_filename (kept @ suffix @ ext) cap)"

definition rename_candidate_names :: "utext \<Rightarrow> nat \<Rightarrow> utext option list" where
  "rename_candidate_names base cap =
     (let (st, ext) = stem_and_extension base;
          st = (case st of Some s \<Rightarrow> s | None \<Rightarrow> base);
          ext = (case ext of Some e \<Rightarrow> 46 # e | None \<Rightarrow> [])
      in Some base # map (numbered_candidate st ext cap) [1..<RENAME_MAX_SUFFIX + 1])"

section \<open>Resolved names are safe\<close>

lemma first_sanitized_safe: "first_sanitized cap cs = Some name \<Longrightarrow> safe_name cap name"
  by (induction cap cs rule: first_sanitized.induct) (auto split: option.splits dest: sanitized_is_safe)

text \<open>
  Claim C29: whatever the server and the URLs say, the basename resolved for a validated directory target is
  one safe component: not empty, within the byte cap and so within 250 bytes, without separators, control
  characters or characters that Windows refuses, not only dots, and not a reserved device name.
\<close>

theorem resolved_basename_safe:
  assumes "validate_directory_target dbg directory entry opts overwrite = Inr ()"
  shows "safe_name (do_max_filename_bytes opts)
      (resolve_directory_basename uri_path filename_hint plain_hint final_url original_url opts)
    \<and> do_max_filename_bytes opts \<le> 250"
proof -
  have "try_sanitize_filename (do_fallback opts) (do_max_filename_bytes opts) = Some (do_fallback opts)"
      "do_max_filename_bytes opts \<le> 250"
    using assms by (auto simp: validate_directory_target_def Let_def MAX_FINAL_BASENAME_BYTES_def split: sum.splits if_splits)
  then show ?thesis using sanitized_is_safe [of "do_fallback opts"] first_sanitized_safe
    by (auto simp: resolve_directory_basename_def Let_def simp del: first_sanitized.simps split: option.splits)
qed

definition demo_directory :: directory_options where
  "demo_directory = \<lparr>do_fallback = DEFAULT_FALLBACK_FILENAME, do_max_filename_bytes = 200\<rparr>"

theorem resolved_basename_safe_witness:
  "safe_name 200 (resolve_directory_basename (\<lambda>_. None) (Some (lit ''../../etc/con.txt'')) None (lit ''http://h/f'') (lit ''http://h/f'')
     demo_directory)"
proof -
  have "validate_directory_target (\<lambda>_. []) ''d'' (Inr True) demo_directory Rename = Inr ()" by code_simp
  from resolved_basename_safe [OF this] show ?thesis by (simp add: demo_directory_def)
qed

section \<open>Rename candidates are distinct\<close>

lemma lit_simps [simp]: "lit (a @ b) = lit a @ lit b" "lit [] = []" "lit (c # s) = of_char c # lit s"
  by (simp_all add: lit_def)

lemma show_u64_lit_digits: "c \<in> set (lit (show_u64 n)) \<Longrightarrow> 48 \<le> c \<and> c \<le> 57"
  using show_u64_digits of_digit_char by (fastforce simp: lit_def)

lemma lit_inject: "lit s = lit t \<longleftrightarrow> s = t"
  unfolding lit_def by (rule inj_map_eq_map) (simp add: inj_def)

lemma reserved_stem:
  assumes "is_reserved_device_basename name"
  shows "40 \<notin> set (hd (usplit ((=) 46) name))" "hd (usplit ((=) 46) name) \<noteq> []"
proof -
  let ?st = "hd (usplit ((=) 46) name)"
  obtain r where r: "r \<in> set RESERVED_BASENAMES" "map ulower r = map ulower ?st"
    using assms by (auto simp: is_reserved_device_basename_def ueq_ignore_ascii_case_def list_ex_iff)
  have "list_all (\<lambda>r. r \<noteq> [] \<and> 40 \<notin> set (map ulower r)) RESERVED_BASENAMES" by code_simp
  then have q: "r \<noteq> []" "40 \<notin> set (map ulower r)" using r(1) by (auto simp: list_all_iff)
  show "?st \<noteq> []" using q(1) r(2) by auto
  show "40 \<notin> set ?st" using q(2) r(2) by (force simp: ulower_def)
qed

lemma utf8_prefix_drop_last: "len_utf8 c = 1 \<Longrightarrow> utf8_len s = k \<Longrightarrow> utf8_prefix k (s @ [c]) = s"
  by (induction s arbitrary: k) auto

text \<open>The stem and the extension of a clean name.\<close>

definition clean_parts :: "utext \<Rightarrow> utext \<Rightarrow> bool" where
  "clean_parts st ext \<longleftrightarrow> list_all plain_char (st @ ext) \<and> st \<noteq> []
     \<and> (if ext = [] then 46 \<notin> set (tl st) else \<exists>e. ext = 46 # e \<and> e \<noteq> [] \<and> 46 \<notin> set e \<and> \<not> space_or_dot (last e))"

lemma suffix_facts:
  "list_all plain_char (rename_suffix n)" "rename_suffix n = [32, 40] @ lit (show_u64 n) @ [41]" "46 \<notin> set (rename_suffix n)"
proof -
  show s: "rename_suffix n = [32, 40] @ lit (show_u64 n) @ [41]" by (simp add: rename_suffix_def)
  have "plain_char c" if "c \<in> set (lit (show_u64 n))" for c
    using show_u64_lit_digits [OF that] by (auto simp: plain_char_def separator_def is_control_def illegal_def)
  then show "list_all plain_char (rename_suffix n)"
    unfolding s by (auto simp: list_all_iff plain_char_def separator_def is_control_def illegal_def)
  show "46 \<notin> set (rename_suffix n)" unfolding s using show_u64_lit_digits [of 46 n] by auto
qed

lemma raw_kept:
  assumes parts: "clean_parts st ext" and kept: "kept \<noteq> []" "set kept \<subseteq> set st" and pre: "\<exists>r. st = kept @ r"
    and len: "utf8_len raw \<le> cap" and raw: "raw = kept @ rename_suffix n @ ext"
  shows "try_sanitize_filename raw cap = finish_name cap raw" "list_all plain_char raw" "\<not> empty_or_dots raw"
    "ext = [] \<Longrightarrow> \<not> is_reserved_device_basename raw"
proof -
  show plain: "list_all plain_char raw"
    using parts kept(2) suffix_facts(1) [of n] by (auto simp: raw clean_parts_def list_all_iff)
  have ne: "raw \<noteq> []" "40 \<in> set raw" using suffix_facts(2) [of n] by (simp_all add: raw)
  then show dots: "\<not> empty_or_dots raw" by (auto simp: empty_or_dots_def list_all_iff intro!: bexI [of _ 40])
  have "\<not> space_or_dot (last raw)"
    using parts suffix_facts(2) [of n] by (auto simp: raw clean_parts_def space_or_dot_def split: if_splits)
  then have trim: "trim_end raw = raw" by (rule trim_end_id [OF ne(1)])
  have split: "usplit separator raw = [raw]" by (rule usplit_none) (use plain in \<open>auto simp: list_all_iff plain_char_def\<close>)
  have f: "filter (\<lambda>c. \<not> is_control c) raw = raw" "map replace_illegal raw = raw"
    using plain by (auto simp: filter_id_conv list_all_iff plain_char_def replace_illegal_def intro: map_idI)
  have "cap \<noteq> 0" using len ne(1) by (metis le_zero_eq utf8_len_zero)
  then show "try_sanitize_filename raw cap = finish_name cap raw"
    using ne(1) f trim dots by (simp add: try_sanitize_filename_def split Let_def)
  show "\<not> is_reserved_device_basename raw" if "ext = []"
  proof
    assume res: "is_reserved_device_basename raw"
    obtain c cs where c: "kept = c # cs" using kept(1) by (cases kept) auto
    then have tl: "46 \<notin> set (tl raw)" using parts that pre suffix_facts(3) [of n] by (auto simp: raw clean_parts_def)
    show False
    proof (cases "c = 46")
      case True
      then show False using reserved_stem(2) [OF res] by (simp add: raw c)
    next
      case False
      then have "usplit ((=) 46) raw = [raw]" using tl c by (intro usplit_none) (auto simp: raw list_all_iff)
      then show False using reserved_stem(1) [OF res] ne(2) by simp
    qed
  qed
qed

lemma stem_and_extension_append:
  assumes "46 \<notin> set e" "a \<noteq> []" "e \<noteq> []"
  shows "stem_and_extension (a @ 46 # e) = (Some a, Some e)"
proof -
  have "ursplit_once 46 (a @ 46 # e) = Some (a, e)" using assms(1) by (simp add: ursplit_once_def usplit_once_append)
  moreover have "2 < length (a @ 46 # e)" using assms(2,3) by (cases a; cases e) simp_all
  then have "a @ 46 # e \<notin> set [[], [46], [46, 46]]" by (auto dest: arg_cong [of _ _ length])
  ultimately show ?thesis using assms(2) unfolding stem_and_extension_def by simp
qed

lemma numbered_form:
  assumes parts: "clean_parts st ext" and x: "numbered_candidate st ext cap n = Some x"
  shows "\<exists>u t. x = u @ [32, 40] @ lit (show_u64 n) @ t @ ext \<and> (t = [41] \<or> t = [])"
proof -
  let ?s = "rename_suffix n"
  define kept where "kept = utf8_prefix (cap - utf8_len ?s - utf8_len ext) st"
  define raw where "raw = kept @ ?s @ ext"
  have budget: "utf8_len ?s + utf8_len ext < cap" and kept: "kept \<noteq> []" and x': "try_sanitize_filename raw cap = Some x"
    using x by (auto simp: numbered_candidate_def Let_def kept_def raw_def split: if_splits)
  have len: "utf8_len raw \<le> cap" using utf8_prefix_len [of "cap - utf8_len ?s - utf8_len ext" st] budget by (simp add: raw_def kept_def)
  have pre: "\<exists>r. st = kept @ r" unfolding kept_def by (rule utf8_prefix_append)
  note rk = raw_kept [OF parts kept _ pre len raw_def]
  have sub: "set kept \<subseteq> set st" unfolding kept_def by (rule utf8_prefix_set)
  have fin: "finish_name cap raw = Some x" using x' rk(1) [OF sub] by simp
  have form: "raw = kept @ [32, 40] @ lit (show_u64 n) @ [41] @ ext" by (simp add: raw_def suffix_facts(2))
  show ?thesis
  proof (cases "is_reserved_device_basename raw")
    case False
    then have "x = raw" using fin len rk(3) [OF sub] by (simp add: finish_name_def Let_def split: if_splits)
    then show ?thesis using form by auto
  next
    case True
    then obtain e where e: "ext = 46 # e" "e \<noteq> []" "46 \<notin> set e" using rk(4) [OF sub] parts by (auto simp: clean_parts_def split: if_splits)
    have ud: "\<not> empty_or_dots (95 # y)" for y by (simp add: empty_or_dots_def)
    show ?thesis
    proof (cases "cap < utf8_len (95 # raw)")
      case False
      then have "x = 95 # raw" using fin True ud not_reserved_underscore by (simp add: finish_name_def Let_def split: if_splits)
      then show ?thesis using form by (metis append_Cons)
    next
      case over: True
      let ?a = "95 # kept @ [32, 40] @ lit (show_u64 n)"
      have raw_e: "95 # raw = (?a @ [41]) @ 46 # e" using form e(1) by simp
      have l1: "len_utf8 41 = 1" "len_utf8 95 = 1" "len_utf8 46 = 1" by (simp_all add: len_utf8_def)
      have "utf8_len (95 # raw) = cap + 1" using over len l1 by simp
      then have la: "utf8_len ?a = cap - utf8_len (46 # e)" using raw_e l1 by simp
      have se: "stem_and_extension (95 # raw) = (Some (?a @ [41]), Some e)"
        unfolding raw_e by (rule stem_and_extension_append [OF e(3) _ e(2)]) simp
      have "utf8_len e + 1 < cap" using budget e(1) l1 by simp
      moreover have "utf8_prefix (cap - utf8_len (46 # e)) (?a @ [41]) = ?a" using utf8_prefix_drop_last [OF l1(1) la] .
      ultimately have "truncate_preserving_extension (95 # raw) cap = Some (?a @ 46 # e)"
        using over se by (simp add: truncate_preserving_extension_def Let_def)
      then have "x = ?a @ 46 # e" using fin True over ud not_reserved_underscore
        by (simp add: finish_name_def Let_def split: if_splits)
      then have "x = (95 # kept) @ [32, 40] @ lit (show_u64 n) @ [] @ ext" using e(1) by simp
      then show ?thesis by blast
    qed
  qed
qed

lemma show_u64_inject: "show_u64 a = show_u64 b \<Longrightarrow> a \<le> u64_max \<Longrightarrow> b \<le> u64_max \<Longrightarrow> a = b"
  by (metis option.inject parse_digits_show)

lemma numbered_distinct:
  assumes parts: "clean_parts st ext" and x: "numbered_candidate st ext cap n = Some x" "numbered_candidate st ext cap m = Some x"
    and b: "n \<le> u64_max" "m \<le> u64_max"
  shows "n = m"
proof -
  let ?d = "\<lambda>c::uchar. 48 \<le> c \<and> c \<le> 57"
  have digits: "takeWhile ?d (rev (lit (show_u64 k)) @ 40 # r) = rev (lit (show_u64 k))" for k r
    by (subst takeWhile_append2) (use show_u64_lit_digits in auto)
  have first: "lit (show_u64 k) \<noteq> [] \<and> last (lit (show_u64 k)) \<noteq> 41" for k
    using show_u64_nonempty [of k] show_u64_lit_digits [of "last (lit (show_u64 k))" k] last_in_set [of "lit (show_u64 k)"]
    by (auto simp: lit_def)
  obtain u t v t' where f: "x = u @ [32, 40] @ lit (show_u64 n) @ t @ ext" "t = [41] \<or> t = []"
      "x = v @ [32, 40] @ lit (show_u64 m) @ t' @ ext" "t' = [41] \<or> t' = []"
    using numbered_form [OF parts x(1)] numbered_form [OF parts x(2)] by blast
  then have "(u @ [32, 40] @ lit (show_u64 n) @ t) @ ext = (v @ [32, 40] @ lit (show_u64 m) @ t') @ ext" by simp
  then have "u @ [32, 40] @ lit (show_u64 n) @ t = v @ [32, 40] @ lit (show_u64 m) @ t'" by (rule append_same_eq [THEN iffD1])
  from arg_cong [OF this, of rev]
  have eq: "rev t @ rev (lit (show_u64 n)) @ 40 # 32 # rev u = rev t' @ rev (lit (show_u64 m)) @ 40 # 32 # rev v" by simp
  have "hd (rev (lit (show_u64 k)) @ r) \<noteq> 41" for k r using first [of k] by (simp add: hd_append hd_rev)
  note h = this [of n] this [of m]
  have tt: "t = t'" using f(2,4)
  proof (elim disjE)
    assume "t = [41]" "t' = []"
    then show ?thesis using arg_cong [OF eq, of hd] h(2) [of "40 # 32 # rev v"] by simp
  next
    assume "t = []" "t' = [41]"
    then show ?thesis using arg_cong [OF eq, of hd] h(1) [of "40 # 32 # rev u"] by simp
  qed simp_all
  then have "rev (lit (show_u64 n)) @ 40 # 32 # rev u = rev (lit (show_u64 m)) @ 40 # 32 # rev v" using eq by simp
  then have "rev (lit (show_u64 n)) = rev (lit (show_u64 m))" using digits by metis
  then show ?thesis using show_u64_inject b by (simp add: lit_inject)
qed

lemma clean_name_parts:
  assumes "clean_name k base" "stem_and_extension base = (x, y)"
  obtains st ext where "clean_parts st ext" "base = st @ ext" "(case x of Some s \<Rightarrow> s | None \<Rightarrow> base) = st"
    "(case y of Some e \<Rightarrow> 46 # e | None \<Rightarrow> []) = ext"
proof -
  have c: "base \<noteq> []" "list_all plain_char base" "\<not> list_all ((=) 46) base" "\<not> space_or_dot (last base)"
    using assms(1) by (simp_all add: clean_name_def safe_name_def)
  show ?thesis
  proof (cases y)
    case (Some e)
    then obtain st where st: "x = Some st" "base = st @ 46 # e" "st \<noteq> []" "46 \<notin> set e"
      using stem_and_extension_Some [of base x e] assms(2) by auto
    moreover have "e \<noteq> []" "\<not> space_or_dot (last e)" using c(4) st(2) by (auto simp: space_or_dot_def split: if_splits)
    ultimately have "clean_parts st (46 # e)" using c(2) by (simp add: clean_parts_def)
    then show ?thesis using that [of st "46 # e"] st Some by simp
  next
    case None
    have "base \<notin> set [[], [46], [46, 46]]" using c(1,3) by auto
    then have "x = Some base" "46 \<notin> set (tl base)"
      using assms(2) None c(1) ursplit_once_Some [of 46 base] usplit_once_None [of 46 "rev base"]
      by (cases base; auto simp: stem_and_extension_def ursplit_once_def split: option.splits if_splits)+
    then have "clean_parts base []" using c(1,2) by (simp add: clean_parts_def)
    then show ?thesis using that [of base "[]"] None \<open>x = Some base\<close> by simp
  qed
qed

text \<open>
  For a clean base name the rename policy tries the base first and then 999 numbered siblings, in
  this order; every sibling it can form is a safe component within the byte cap, and no two numbers give the
  same name, however short the cap makes the stem.
\<close>

lemma rename_candidates_distinct:
  assumes "clean_name k base"
  shows "length (rename_candidate_names base cap) = 1000 \<and> rename_candidate_names base cap ! 0 = Some base
    \<and> (\<forall>i x. 0 < i \<and> i < 1000 \<and> rename_candidate_names base cap ! i = Some x \<longrightarrow> safe_name cap x
         \<and> (\<forall>j. 0 < j \<and> j < 1000 \<and> rename_candidate_names base cap ! j = Some x \<longrightarrow> i = j))"
proof -
  obtain x y where xy: "stem_and_extension base = (x, y)" by fastforce
  obtain st ext where p: "clean_parts st ext" "(case x of Some s \<Rightarrow> s | None \<Rightarrow> base) = st"
      "(case y of Some e \<Rightarrow> 46 # e | None \<Rightarrow> []) = ext" using clean_name_parts [OF assms xy] by metis
  have names: "rename_candidate_names base cap = Some base # map (numbered_candidate st ext cap) [1..<1000]"
    using p(2,3) by (simp add: rename_candidate_names_def xy RENAME_MAX_SUFFIX_def)
  have nth: "rename_candidate_names base cap ! i = numbered_candidate st ext cap i" if "0 < i" "i < 1000" for i
    using that by (simp add: names nth_Cons')
  have safe: "safe_name cap n" if "numbered_candidate st ext cap i = Some n" for i n
    using that by (auto simp: numbered_candidate_def Let_def split: if_splits dest: sanitized_is_safe)
  have small: "i \<le> u64_max" if "i < 1000" for i :: nat using that by (simp add: u64_max_def)
  have "length (rename_candidate_names base cap) = 1000" by (simp add: names)
  moreover have "rename_candidate_names base cap ! 0 = Some base" by (simp add: names)
  moreover have "safe_name cap n \<and> (\<forall>j. 0 < j \<and> j < 1000 \<and> rename_candidate_names base cap ! j = Some n \<longrightarrow> i = j)"
    if "0 < i \<and> i < 1000 \<and> rename_candidate_names base cap ! i = Some n" for i n
    using that nth [of i] nth safe numbered_distinct [OF p(1)] small by metis
  ultimately show ?thesis by blast
qed

text \<open>
  Without a clean base the numbers can be lost: a backslash in the extension of a file name (which Unix allows) is a
  separator for the sanitizer, and every sibling becomes the text after it.
\<close>

lemma backslash_collapses_siblings:
  "numbered_candidate (lit ''x'') (46 # 97 # 92 # lit ''b'') 250 1 = Some (lit ''b'')
   \<and> numbered_candidate (lit ''x'') (46 # 97 # 92 # lit ''b'') 250 2 = Some (lit ''b'')
   \<and> stem_and_extension (lit ''x.a'' @ 92 # lit ''b'') = (Some (lit ''x''), Some (97 # 92 # lit ''b''))"
  by code_simp

end
