(* ===== verification/Destination_Choice.thy ===== *)
theory Destination_Choice
  imports Destination_Names Resume_Flow
begin

text \<open>
  Exclusive ownership of destinations (\<open>io/destination_lease.rs\<close>) and the choice of a destination under the
  rename policy (\<open>select_rename_candidate\<close> of \<open>job/naming.rs\<close>): resumable siblings first, then the first free
  name, each examined again under its lease. Answers of the file system are arguments; the entries of the
  directory may change between any two questions, so a question is asked at a clock.
\<close>

section \<open>Destination leases\<close>

type_synonym destination_key = "string \<times> utext"

datatype lock_answer = Locked | Contended | LockFailed string

record lease_env =
  le_canonical :: "string + string"
  le_open :: "destination_key \<Rightarrow> string + unit"
  le_lock :: "destination_key \<Rightarrow> lock_answer"
  le_display :: "destination_key \<Rightarrow> string"
  le_lock_path :: "destination_key \<Rightarrow> string"

text \<open>The key of a destination in \<open>parent\<close>; the registry is the list of owned keys.\<close>

definition resolve_key :: "lease_env \<Rightarrow> string \<Rightarrow> utext \<Rightarrow> download_error + destination_key" where
  "resolve_key env parent name =
     (case le_canonical env of
        Inl e \<Rightarrow> Inl (Commit (''cannot resolve destination parent '' @ parent @ '': '' @ e))
      | Inr p \<Rightarrow> Inr (p, name))"

definition release_registration :: "destination_key \<Rightarrow> destination_key list \<Rightarrow> destination_key list" where
  "release_registration key owned = removeAll key owned"

definition lease_acquire :: "lease_env \<Rightarrow> string \<Rightarrow> utext \<Rightarrow> destination_key list
    \<Rightarrow> (download_error + destination_key) \<times> destination_key list" where
  "lease_acquire env parent name owned =
     (case resolve_key env parent name of
        Inl e \<Rightarrow> (Inl e, owned)
      | Inr key \<Rightarrow>
          if key \<in> set owned then
            (Inl (DestinationConflict (''destination is already owned by an active job: '' @ le_display env key)), owned)
          else let owned = key # owned
               in case le_open env key of
                    Inl e \<Rightarrow> (Inl (Commit (''cannot open destination lockfile '' @ le_lock_path env key @ '': '' @ e)),
                             release_registration key owned)
                  | Inr _ \<Rightarrow>
                      (case le_lock env key of
                         Locked \<Rightarrow> (Inr key, owned)
                       | Contended \<Rightarrow>
                           (Inl (DestinationConflict (''destination is already owned by another process: '' @ le_display env key)),
                            release_registration key owned)
                       | LockFailed e \<Rightarrow>
                           (Inl (Commit (''cannot lock destination lockfile '' @ le_lock_path env key @ '': '' @ e)),
                            release_registration key owned)))"

lemma lease_acquire_exact:
  assumes "lease_acquire env parent name owned = (r, owned')"
  shows "(case r of Inr key \<Rightarrow> key \<notin> set owned \<and> owned' = key # owned \<and> snd key = name \<and> resolve_key env parent name = Inr key
            \<and> release_registration key owned' = owned
          | Inl _ \<Rightarrow> owned' = owned)"
  using assms
  by (auto simp: lease_acquire_def release_registration_def resolve_key_def Let_def split: sum.splits if_splits lock_answer.splits)

section \<open>The choice under the rename policy\<close>

record 's selection_env =
  sv_lease :: lease_env
  sv_parent :: string
  sv_url :: string
  sv_resume :: resume_policy
  sv_sha256 :: "string \<Rightarrow> nat list"
  sv_exists :: "nat \<Rightarrow> utext \<Rightarrow> bool"
  sv_resolver :: "string \<Rightarrow> string + unit"
  sv_load :: "string \<Rightarrow> 's \<Rightarrow> (checkpoint_error + checkpoint option) \<times> 's"
  sv_delete :: "string \<Rightarrow> 's \<Rightarrow> (checkpoint_error + unit) \<times> 's"

record 's selection_state =
  se_clock :: nat
  se_owned :: "destination_key list"
  se_store :: 's

record selected_destination =
  sd_name :: utext
  sd_lease :: destination_key
  sd_identity :: string
  sd_checkpoint :: "checkpoint option"
  sd_warnings :: "string list"

datatype rename_selection = Selected selected_destination | Exhausted bool

definition part_sibling :: "utext \<Rightarrow> utext" where
  "part_sibling name = name @ lit ''.part''"

definition occupied :: "'s selection_env \<Rightarrow> utext \<Rightarrow> 's selection_state \<Rightarrow> bool \<times> 's selection_state" where
  "occupied env name s = (sv_exists env (se_clock s) name, s\<lparr>se_clock := se_clock s + 1\<rparr>)"

definition either_occupied :: "'s selection_env \<Rightarrow> utext \<Rightarrow> 's selection_state \<Rightarrow> bool \<times> 's selection_state" where
  "either_occupied env name s =
     (case occupied env name s of (True, s) \<Rightarrow> (True, s) | (False, s) \<Rightarrow> occupied env (part_sibling name) s)"

definition take_lease :: "'s selection_env \<Rightarrow> utext \<Rightarrow> 's selection_state \<Rightarrow> (download_error + destination_key) \<times> 's selection_state" where
  "take_lease env name s =
     (case lease_acquire (sv_lease env) (sv_parent env) name (se_owned s) of (r, owned) \<Rightarrow> (r, s\<lparr>se_owned := owned\<rparr>))"

definition drop_lease :: "destination_key \<Rightarrow> 's selection_state \<Rightarrow> 's selection_state" where
  "drop_lease key s = s\<lparr>se_owned := release_registration key (se_owned s)\<rparr>"

definition path_join :: "string \<Rightarrow> utext \<Rightarrow> string" where
  "path_join parent name =
     (let n = map char_of (utf8_bytes name)
      in if parent = [] then n else if last parent = CHR ''/'' then parent @ n else parent @ ''/'' @ n)"

definition candidate_identity :: "'s selection_env \<Rightarrow> utext \<Rightarrow> string" where
  "candidate_identity env name = job_identity (sv_sha256 env) (sv_url env) (path_join (sv_parent env) name)"

definition is_conflict :: "download_error \<Rightarrow> bool" where
  "is_conflict e \<longleftrightarrow> (case e of DestinationConflict _ \<Rightarrow> True | _ \<Rightarrow> False)"

text \<open>The store of a leased candidate and the discovery of its checkpoint; an error return drops the lease.\<close>

definition discover_candidate :: "'s selection_env \<Rightarrow> utext \<Rightarrow> destination_key \<Rightarrow> 's selection_state
    \<Rightarrow> (download_error + admission_discovery) \<times> 's selection_state" where
  "discover_candidate env name key s =
     (let identity = candidate_identity env name
      in case sv_resolver env identity of
           Inl e \<Rightarrow> (Inl (Checkpoint (''checkpoint adapter unavailable: '' @ e)), drop_lease key s)
         | Inr _ \<Rightarrow>
             (case discover_admission (sv_load env) (sv_delete env) (sv_resume env) identity (se_store s) of
                (Inl failure, st) \<Rightarrow> (Inl (rf_error failure), drop_lease key (s\<lparr>se_store := st\<rparr>))
              | (Inr d, st) \<Rightarrow> (Inr d, s\<lparr>se_store := st\<rparr>)))"

definition select_as :: "'s selection_env \<Rightarrow> utext \<Rightarrow> destination_key \<Rightarrow> checkpoint option \<Rightarrow> string list \<Rightarrow> rename_selection" where
  "select_as env name key cp warnings =
     Selected \<lparr>sd_name = name, sd_lease = key, sd_identity = candidate_identity env name, sd_checkpoint = cp, sd_warnings = warnings\<rparr>"

fun resume_scan :: "'s selection_env \<Rightarrow> utext list \<Rightarrow> 's selection_state
    \<Rightarrow> (download_error + rename_selection option) \<times> 's selection_state" where
  "resume_scan env [] s = (Inr None, s)"
| "resume_scan env (name # rest) s =
     (case occupied env (part_sibling name) s of
        (False, s) \<Rightarrow> resume_scan env rest s
      | (True, s) \<Rightarrow>
          (case take_lease env name s of
             (Inl e, s) \<Rightarrow> if is_conflict e then resume_scan env rest s else (Inl e, s)
           | (Inr key, s) \<Rightarrow>
               (case occupied env name s of
                  (True, s) \<Rightarrow> resume_scan env rest (drop_lease key s)
                | (False, s) \<Rightarrow>
                    (case discover_candidate env name key s of
                       (Inl e, s) \<Rightarrow> (Inl e, s)
                     | (Inr (FoundCandidate cp), s) \<Rightarrow> (Inr (Some (select_as env name key (Some cp) [])), s)
                     | (Inr (AbsentCandidate _), s) \<Rightarrow> resume_scan env rest (drop_lease key s)))))"

fun fresh_scan :: "'s selection_env \<Rightarrow> utext list \<Rightarrow> 's selection_state
    \<Rightarrow> (download_error + rename_selection) \<times> 's selection_state" where
  "fresh_scan env [] s = (Inr (Exhausted (sv_resume env = ResumeRequired)), s)"
| "fresh_scan env (name # rest) s =
     (case either_occupied env name s of
        (True, s) \<Rightarrow> fresh_scan env rest s
      | (False, s) \<Rightarrow>
          (case take_lease env name s of
             (Inl e, s) \<Rightarrow> if is_conflict e then fresh_scan env rest s else (Inl e, s)
           | (Inr key, s) \<Rightarrow>
               (case either_occupied env name s of
                  (True, s) \<Rightarrow> fresh_scan env rest (drop_lease key s)
                | (False, s) \<Rightarrow>
                    (case discover_candidate env name key s of
                       (Inl e, s) \<Rightarrow> (Inl e, s)
                     | (Inr (FoundCandidate cp), s) \<Rightarrow> (Inr (select_as env name key (Some cp) []), s)
                     | (Inr (AbsentCandidate warnings), s) \<Rightarrow>
                         if sv_resume env = ResumeRequired then (Inr (Exhausted True), drop_lease key s)
                         else (Inr (select_as env name key None warnings), s)))))"

definition select_rename_candidate :: "'s selection_env \<Rightarrow> utext \<Rightarrow> nat \<Rightarrow> 's selection_state
    \<Rightarrow> (download_error + rename_selection) \<times> 's selection_state" where
  "select_rename_candidate env base cap s =
     (let names = List.map_filter id (rename_candidate_names base cap)
      in case (if sv_resume env \<noteq> ResumeNever then resume_scan env names s else (Inr None, s)) of
           (Inl e, s) \<Rightarrow> (Inl e, s)
         | (Inr (Some sel), s) \<Rightarrow> (Inr sel, s)
         | (Inr None, s) \<Rightarrow> fresh_scan env names s)"

section \<open>What the choice guarantees\<close>

text \<open>
  The registry keeps its entries in the order of acquisition: a drop undoes the acquisition of its key.
\<close>

lemma occupied_frame: "occupied env name s = (b, s') \<Longrightarrow> se_owned s' = se_owned s \<and> se_clock s' = se_clock s + 1
    \<and> b = sv_exists env (se_clock s) name"
  by (auto simp: occupied_def)

lemma either_occupied_frame:
  assumes "either_occupied env name s = (b, s')"
  shows "se_owned s' = se_owned s"
    "\<not> b \<Longrightarrow> \<exists>t. se_clock s' = t + 2 \<and> \<not> sv_exists env t name \<and> \<not> sv_exists env (t + 1) (part_sibling name)"
  using assms by (auto simp: either_occupied_def occupied_def split: prod.splits bool.splits)

lemma take_lease_frame:
  assumes "take_lease env name s = (r, s')"
  shows "se_clock s' = se_clock s"
    "(case r of Inr key \<Rightarrow> se_owned s' = key # se_owned s \<and> key \<notin> set (se_owned s) \<and> snd key = name
        \<and> resolve_key (sv_lease env) (sv_parent env) name = Inr key
      | Inl _ \<Rightarrow> se_owned s' = se_owned s)"
  using assms lease_acquire_exact [of "sv_lease env" "sv_parent env" name "se_owned s"]
  by (auto simp: take_lease_def split: prod.splits sum.splits)

lemma drop_lease_frame: "se_owned s = key # owned \<Longrightarrow> key \<notin> set owned \<Longrightarrow> se_owned (drop_lease key s) = owned"
  by (simp add: drop_lease_def release_registration_def)

lemma discover_candidate_frame:
  assumes "discover_candidate env name key s = (r, s')"
  shows "se_clock s' = se_clock s" "se_owned s' = (case r of Inl _ \<Rightarrow> release_registration key (se_owned s) | Inr _ \<Rightarrow> se_owned s)"
  using assms by (auto simp: discover_candidate_def drop_lease_def Let_def split: sum.splits prod.splits)

definition holds_only :: "'s selection_env \<Rightarrow> utext list \<Rightarrow> destination_key list \<Rightarrow> rename_selection option \<Rightarrow> 's selection_state \<Rightarrow> bool" where
  "holds_only env names owned sel s \<longleftrightarrow>
     (case sel of
        Some (Selected d) \<Rightarrow> sd_name d \<in> set names \<and> se_owned s = sd_lease d # owned \<and> sd_lease d \<notin> set owned
          \<and> snd (sd_lease d) = sd_name d \<and> sd_identity d = candidate_identity env (sd_name d)
          \<and> (\<exists>t. t < se_clock s \<and> \<not> sv_exists env t (sd_name d)
                \<and> (t + 1 = se_clock s \<and> sd_checkpoint d \<noteq> None \<or> t + 2 = se_clock s \<and> \<not> sv_exists env (t + 1) (part_sibling (sd_name d))))
      | _ \<Rightarrow> se_owned s = owned)"

definition scan_ok :: "'s selection_env \<Rightarrow> utext list \<Rightarrow> destination_key list \<Rightarrow> download_error + rename_selection option
    \<Rightarrow> 's selection_state \<Rightarrow> bool" where
  "scan_ok env names owned r s = (case r of Inl _ \<Rightarrow> se_owned s = owned | Inr sel \<Rightarrow> holds_only env names owned sel s)"

lemma scan_ok_more: "scan_ok env names owned r s \<Longrightarrow> scan_ok env (name # names) owned r s"
  by (auto simp: scan_ok_def holds_only_def split: sum.splits option.splits rename_selection.splits)

lemma scan_ok_error: "se_owned s = owned \<Longrightarrow> scan_ok env names owned (Inl e) s"
  by (simp add: scan_ok_def)

lemma discover_error_frame:
  assumes "discover_candidate env name key s = (Inl e, s')" "se_owned s = key # owned" "key \<notin> set owned"
  shows "se_owned s' = owned"
  using discover_candidate_frame(2) [OF assms(1)] assms(2,3) by (simp add: release_registration_def)

lemma select_ok:
  assumes "se_owned s = key # owned" "key \<notin> set owned" "snd key = name" "name \<in> set names" "t < se_clock s" "\<not> sv_exists env t name"
    "t + 1 = se_clock s \<and> cp \<noteq> None \<or> t + 2 = se_clock s \<and> \<not> sv_exists env (t + 1) (part_sibling name)"
  shows "scan_ok env names owned (Inr (Some (select_as env name key cp w))) s"
  using assms by (auto simp: scan_ok_def holds_only_def select_as_def)

lemma resume_scan_ok: "resume_scan env names s = (r, s') \<Longrightarrow> scan_ok env names (se_owned s) r s'"
proof (induction names arbitrary: s)
  case Nil
  then show ?case by (auto simp: scan_ok_def holds_only_def)
next
  case (Cons name rest)
  have skip: "scan_ok env (name # rest) (se_owned s) r s'" if "resume_scan env rest u = (r, s')" "se_owned u = se_owned s" for u
    using Cons.IH [OF that(1)] that(2) scan_ok_more by metis
  obtain b s1 where s1: "occupied env (part_sibling name) s = (b, s1)" by fastforce
  note f1 = occupied_frame [OF s1]
  obtain l s2 where s2: "take_lease env name s1 = (l, s2)" by fastforce
  note f2 = take_lease_frame [OF s2]
  show ?case
  proof (cases b)
    case False
    then show ?thesis using Cons.prems s1 f1 skip by simp
  next
    case b: True
    show ?thesis
    proof (cases l)
      case (Inl e)
      then show ?thesis using Cons.prems b s1 s2 f1 f2 skip scan_ok_error [of s' "se_owned s"] by (auto split: if_splits)
    next
      case (Inr key)
      obtain c s3 where s3: "occupied env name s2 = (c, s3)" by fastforce
      note f3 = occupied_frame [OF s3]
      have own: "se_owned s3 = key # se_owned s" "key \<notin> set (se_owned s)" "snd key = name" using f1 f2(2) f3 Inr by auto
      obtain d s4 where s4: "discover_candidate env name key s3 = (d, s4)" by fastforce
      note f4 = discover_candidate_frame [OF s4]
      show ?thesis
      proof (cases c)
        case True
        then show ?thesis using Cons.prems b s1 s2 s3 Inr skip [OF _ drop_lease_frame [OF own(1,2)]] by simp
      next
        case c: False
        show ?thesis
        proof (cases d)
          case (Inl e)
          then show ?thesis using Cons.prems b s1 s2 s3 s4 c \<open>l = Inr key\<close> discover_error_frame [of env name key s3 e s4] own
            by (auto simp: scan_ok_def)
        next
          case d: (Inr disc)
          have own4: "se_owned s4 = key # se_owned s" using f4(2) d own by simp
          show ?thesis
          proof (cases disc)
            case (AbsentCandidate w)
            then show ?thesis using Cons.prems b s1 s2 s3 s4 c d Inr skip [OF _ drop_lease_frame [OF own4 own(2)]] by simp
          next
            case (FoundCandidate cp)
            then have "r = Inr (Some (select_as env name key (Some cp) []))" "s' = s4" using Cons.prems b s1 s2 s3 s4 c d Inr by simp_all
            then show ?thesis using select_ok [OF own4 own(2,3), of "name # rest" "se_clock s2" env "Some cp" "[]"] f3 f4(1) c by simp
          qed
        qed
      qed
    qed
  qed
qed

definition as_scan :: "download_error + rename_selection \<Rightarrow> download_error + rename_selection option" where
  "as_scan r = (case r of Inl e \<Rightarrow> Inl e | Inr sel \<Rightarrow> Inr (Some sel))"

lemma as_scan_simps [simp]: "as_scan (Inl e) = Inl e" "as_scan (Inr sel) = Inr (Some sel)"
  by (simp_all add: as_scan_def)

lemma fresh_scan_ok: "fresh_scan env names s = (r, s') \<Longrightarrow> scan_ok env names (se_owned s) (as_scan r) s'"
proof (induction names arbitrary: s)
  case Nil
  then show ?case by (auto simp: scan_ok_def holds_only_def)
next
  case (Cons name rest)
  have skip: "scan_ok env (name # rest) (se_owned s) (as_scan r) s'"
    if "fresh_scan env rest u = (r, s')" "se_owned u = se_owned s" for u
    using Cons.IH [OF that(1)] that(2) scan_ok_more by metis
  obtain b s1 where s1: "either_occupied env name s = (b, s1)" by fastforce
  note f1 = either_occupied_frame(1) [OF s1]
  obtain l s2 where s2: "take_lease env name s1 = (l, s2)" by fastforce
  note f2 = take_lease_frame [OF s2]
  show ?case
  proof (cases b)
    case True
    then show ?thesis using Cons.prems s1 f1 skip by simp
  next
    case b: False
    show ?thesis
    proof (cases l)
      case (Inl e)
      then show ?thesis using Cons.prems b s1 s2 f1 f2 skip scan_ok_error [of s' "se_owned s"] by (auto split: if_splits)
    next
      case (Inr key)
      obtain c s3 where s3: "either_occupied env name s2 = (c, s3)" by fastforce
      note f3 = either_occupied_frame [OF s3]
      have own: "se_owned s3 = key # se_owned s" "key \<notin> set (se_owned s)" "snd key = name" using f1 f2(2) f3(1) Inr by auto
      obtain d s4 where s4: "discover_candidate env name key s3 = (d, s4)" by fastforce
      note f4 = discover_candidate_frame [OF s4]
      show ?thesis
      proof (cases c)
        case True
        then show ?thesis using Cons.prems b s1 s2 s3 Inr skip [OF _ drop_lease_frame [OF own(1,2)]] by simp
      next
        case c: False
        obtain t where t: "se_clock s3 = t + 2" "\<not> sv_exists env t name" "\<not> sv_exists env (t + 1) (part_sibling name)"
          using f3(2) c by blast
        show ?thesis
        proof (cases d)
          case (Inl e)
          then show ?thesis using Cons.prems b s1 s2 s3 s4 c \<open>l = Inr key\<close> discover_error_frame [of env name key s3 e s4] own
            by (auto simp: scan_ok_def)
        next
          case d: (Inr disc)
          have own4: "se_owned s4 = key # se_owned s" using f4(2) d own by simp
          have sel: "scan_ok env (name # rest) (se_owned s) (Inr (Some (select_as env name key cp w))) s4" for cp w
            using select_ok [OF own4 own(2,3), of "name # rest" t env cp w] t f4(1) by simp
          show ?thesis
            using Cons.prems b s1 s2 s3 s4 c d Inr sel drop_lease_frame [OF own4 own(2)]
            by (cases disc) (auto simp: scan_ok_def holds_only_def split: if_splits)
        qed
      qed
    qed
  qed
qed

text \<open>
  Claim C30: whatever happens in the directory between two looks at it, a destination chosen under the rename
  policy is one of the candidates, its lease is the only one the choice holds, and the last looks, taken
  under that lease, found no final file, and no partial file either unless a checkpoint for it was loaded.
  A choice that fails or finds nothing holds no lease.
\<close>

theorem rename_choice_owned:
  assumes "select_rename_candidate env base cap s = (r, s')"
  shows "case r of
      Inr (Selected d) \<Rightarrow> Some (sd_name d) \<in> set (rename_candidate_names base cap)
        \<and> se_owned s' = sd_lease d # se_owned s \<and> sd_lease d \<notin> set (se_owned s) \<and> snd (sd_lease d) = sd_name d
        \<and> (\<exists>t<se_clock s'. \<not> sv_exists env t (sd_name d)
             \<and> (t + 1 = se_clock s' \<and> sd_checkpoint d \<noteq> None
                \<or> t + 2 = se_clock s' \<and> \<not> sv_exists env (t + 1) (part_sibling (sd_name d))))
    | _ \<Rightarrow> se_owned s' = se_owned s"
proof -
  let ?names = "List.map_filter id (rename_candidate_names base cap)"
  obtain a s1 where a: "(if sv_resume env \<noteq> ResumeNever then resume_scan env ?names s else (Inr None, s)) = (a, s1)" by fastforce
  have s1: "scan_ok env ?names (se_owned s) a s1"
    using a resume_scan_ok [of env ?names s a s1] by (auto simp: scan_ok_def holds_only_def split: if_splits)
  have "scan_ok env ?names (se_owned s) (as_scan r) s'"
  proof (cases "a = Inr None")
    case True
    then have "fresh_scan env ?names s1 = (r, s')" using assms a by (simp add: select_rename_candidate_def Let_def)
    moreover have "se_owned s1 = se_owned s" using s1 True by (simp add: scan_ok_def holds_only_def)
    ultimately show ?thesis using fresh_scan_ok by metis
  next
    case False
    then have "a = as_scan r" "s1 = s'" using assms a
      by (auto simp: select_rename_candidate_def Let_def split: sum.splits option.splits)
    then show ?thesis using s1 by simp
  qed
  moreover have "x \<in> set ?names \<Longrightarrow> Some x \<in> set (rename_candidate_names base cap)" for x
    by (auto simp: map_filter_def)
  ultimately show ?thesis
    by (cases r) (auto simp: scan_ok_def holds_only_def split: rename_selection.splits)
qed

lemma base_comes_first: "\<exists>ns. List.map_filter id (rename_candidate_names base cap) = base # ns"
  by (cases "stem_and_extension base") (simp add: rename_candidate_names_def List.map_filter_simps)

definition demo_choice_env :: "unit selection_env" where
  "demo_choice_env = \<lparr>
     sv_lease = \<lparr>le_canonical = Inr ''/d'', le_open = (\<lambda>_. Inr ()), le_lock = (\<lambda>_. Locked), le_display = (\<lambda>_. []),
       le_lock_path = (\<lambda>_. [])\<rparr>,
     sv_parent = ''/d'', sv_url = ''http://h/f'', sv_resume = ResumeNever, sv_sha256 = (\<lambda>_. []),
     sv_exists = (\<lambda>_ name. name = lit ''g''), sv_resolver = (\<lambda>_. Inr ()), sv_load = (\<lambda>_ s. (Inr None, s)),
     sv_delete = (\<lambda>_ s. (Inr (), s))\<rparr>"

definition demo_choice :: "(download_error + rename_selection) \<times> unit selection_state" where
  "demo_choice = select_rename_candidate demo_choice_env (lit ''f'') 250 \<lparr>se_clock = 0, se_owned = [], se_store = ()\<rparr>"

theorem rename_choice_owned_witness:
  "\<exists>d. fst demo_choice = Inr (Selected d) \<and> sd_name d = lit ''f'' \<and> se_owned (snd demo_choice) = [sd_lease d]"
proof -
  obtain ns where "List.map_filter id (rename_candidate_names (lit ''f'') 250) = lit ''f'' # ns"
    using base_comes_first by blast
  then have "case fst demo_choice of Inr (Selected d) \<Rightarrow> sd_name d = lit ''f'' | _ \<Rightarrow> False"
    by (simp add: demo_choice_def select_rename_candidate_def demo_choice_env_def either_occupied_def occupied_def part_sibling_def
        take_lease_def lease_acquire_def resolve_key_def discover_candidate_def discover_admission_def
        discover_admission_pieces_def select_as_def Let_def)
  then obtain d where d: "fst demo_choice = Inr (Selected d)" "sd_name d = lit ''f''"
    by (auto split: sum.splits rename_selection.splits)
  with rename_choice_owned [of demo_choice_env "lit ''f''" 250 _ "fst demo_choice" "snd demo_choice"]
  show ?thesis by (auto simp: demo_choice_def)
qed

end
