(* ===== verification/Http_Client.thy ===== *)
theory Http_Client
  imports Redirect_Chain Http_Transfer File_Names "HOL-Library.AList"
begin

text \<open>
  The requests of a job (\<open>http/transport.rs\<close>): the headers of one request, the loop that follows redirects,
  and the probe of a resource (\<open>http/probe.rs\<close>). The connection is an argument: it answers the request of a
  hop. The parser of URLs and the checks of header names and values belong to the HTTP library.
\<close>

section \<open>One request\<close>

record request_spec =
  rq_url :: string
  rq_headers :: "(string \<times> string) list"
  rq_validators :: "resource_validators option"
  rq_identity_encoding :: bool
  rq_sensitive :: bool

type_synonym header_map = "(string \<times> string) list"

text \<open>\<open>HeaderMap::insert\<close>: names are stored in lower case, and an entry of the same name is replaced.\<close>

definition header_insert :: "string \<Rightarrow> string \<Rightarrow> header_map \<Rightarrow> header_map" where
  "header_insert name v hm = AList.update (to_ascii_lowercase name) v hm"

datatype http_method = MethodHead | MethodGet

record wire_response =
  wr_status :: u16
  wr_headers :: "(string \<times> string) list"
  wr_http2 :: bool

record client_env =
  ce_parse :: uri_parser
  ce_bad_name :: "string \<Rightarrow> string option"
  ce_bad_value :: "string \<Rightarrow> string option"
  ce_user_agent :: string
  ce_redirect :: redirect_policy
  ce_cancelled :: "nat \<Rightarrow> bool"
  ce_send :: "nat \<Rightarrow> http_method \<Rightarrow> string \<Rightarrow> header_map \<Rightarrow> download_error + wire_response"

definition client_uri :: "client_env \<Rightarrow> string \<Rightarrow> download_error + uri" where
  "client_uri env url = (case ce_parse env url of Inl e \<Rightarrow> Inl (InvalidUrl (redacted_url url @ '': '' @ e)) | Inr u \<Rightarrow> Inr u)"

definition engine_headers :: "client_env \<Rightarrow> request_spec \<Rightarrow> byte_range option \<Rightarrow> header_map" where
  "engine_headers env spec rng =
     (let hm = header_insert ''user-agent'' (ce_user_agent env) [];
          hm = (if rq_identity_encoding spec \<or> rng \<noteq> None then header_insert ''accept-encoding'' ''identity'' hm else hm);
          hm = (case rng of
                  Some (s, e) \<Rightarrow> header_insert ''range'' (''bytes='' @ show_u64 s @ ''-'' @ show_u64 e) hm
                | None \<Rightarrow> hm)
      in case (rq_validators spec, rng) of
           (Some v, Some _) \<Rightarrow> (case if_range_value v of Some ir \<Rightarrow> header_insert ''if-range'' ir hm | None \<Rightarrow> hm)
         | _ \<Rightarrow> hm)"

fun add_caller_headers :: "client_env \<Rightarrow> bool \<Rightarrow> bool \<Rightarrow> (string \<times> string) list \<Rightarrow> header_map \<Rightarrow> download_error + header_map" where
  "add_caller_headers env strip sensitive [] hm = Inr hm"
| "add_caller_headers env strip sensitive ((k, v) # rest) hm =
     (let lower = to_ascii_lowercase k
      in if lower = ''proxy-authorization'' then add_caller_headers env strip sensitive rest hm
         else if strip \<and> (is_origin_credential_header lower \<or> sensitive) then add_caller_headers env strip sensitive rest hm
         else case ce_bad_name env k of
                Some e \<Rightarrow> Inl (InvalidUrl (''bad header '' @ k @ '': '' @ e))
              | None \<Rightarrow>
                  (case ce_bad_value env v of
                     Some e \<Rightarrow> Inl (InvalidUrl (''bad header value '' @ k @ '': '' @ e))
                   | None \<Rightarrow> add_caller_headers env strip sensitive rest (header_insert k v hm)))"

definition request_headers :: "client_env \<Rightarrow> string \<Rightarrow> request_spec \<Rightarrow> byte_range option \<Rightarrow> bool \<Rightarrow> download_error + header_map" where
  "request_headers env url spec rng strip_credentials =
     (case client_uri env url of
        Inl e \<Rightarrow> Inl e
      | Inr u \<Rightarrow>
          if ur_scheme u \<noteq> Some ''http'' \<and> ur_scheme u \<noteq> Some ''https''
          then Inl (UnsupportedScheme (case ur_scheme u of Some s \<Rightarrow> s | None \<Rightarrow> ''''))
          else add_caller_headers env strip_credentials (rq_sensitive spec) (rq_headers spec) (engine_headers env spec rng))"

section \<open>Following redirects\<close>

record final_response =
  fr_response :: wire_response
  fr_final_url :: string
  fr_http_version :: string

text \<open>The second component is the log of the requests that were sent.\<close>

record sent_request =
  sq_url :: string
  sq_headers :: header_map

function request_following_redirects :: "client_env \<Rightarrow> http_method \<Rightarrow> request_spec \<Rightarrow> byte_range option \<Rightarrow> string \<Rightarrow> redirect_tracker
    \<Rightarrow> (download_error + final_response) \<times> sent_request list" where
  "request_following_redirects env meth spec rng url t =
     (if ce_cancelled env (rt_hops t) then (Inl Cancelled, [])
      else case request_headers env url spec rng (rt_cross_origin_seen t) of
             Inl e \<Rightarrow> (Inl e, [])
           | Inr headers \<Rightarrow>
               let sent = \<lparr>sq_url = url, sq_headers = headers\<rparr>
               in case ce_send env (rt_hops t) meth url headers of
                    Inl e \<Rightarrow> (Inl e, [sent])
                  | Inr resp \<Rightarrow>
                      (case decide_redirect (ce_parse env) (wr_status resp) (find_header ''location'' (wr_headers resp)) url (rq_headers spec) t of
                         (d, t') \<Rightarrow>
                           (case rx_action d of
                              Final \<Rightarrow>
                                (Inr \<lparr>fr_response = resp, fr_final_url = url,
                                      fr_http_version = (if wr_http2 resp then ''HTTP/2.0'' else ''HTTP/1.1'')\<rparr>, [sent])
                            | Follow target \<Rightarrow>
                                (case request_following_redirects env meth spec rng target t' of
                                   (r, reqs) \<Rightarrow> (r, sent # reqs))
                            | Reject e \<Rightarrow> (Inl e, [sent]))))"
  by pat_completeness auto

termination
proof (relation "measure (\<lambda>(env, meth, spec, rng, url, t). rd_max_redirects (rt_policy t) - rt_hops t)")
  fix env meth spec rng url t headers sent resp d t' target
  assume "(d, t') = decide_redirect (ce_parse env) (wr_status resp) (find_header ''location'' (wr_headers resp)) url (rq_headers spec) t"
    "rx_action d = Follow target"
  then have "hop_made (ce_parse env) url target (carries_credentials (rq_headers spec)) (rx_strip_credentials d) t t'"
    using decide_follow by metis
  then have "rt_hops t' = rt_hops t + 1" "rt_hops t' \<le> rd_max_redirects (rt_policy t)" "rt_policy t' = rt_policy t"
    by (simp_all add: hop_made_def)
  then show "((env, meth, spec, rng, target, t'), env, meth, spec, rng, url, t)
      \<in> measure (\<lambda>(env, meth, spec, rng, url, t). rd_max_redirects (rt_policy t) - rt_hops t)"
    by simp
qed simp

definition run_request :: "client_env \<Rightarrow> http_method \<Rightarrow> request_spec \<Rightarrow> byte_range option
    \<Rightarrow> (download_error + final_response) \<times> sent_request list" where
  "run_request env meth spec rng =
     request_following_redirects env meth spec rng (rq_url spec) (tracker_for (ce_redirect env))"

section \<open>Probing\<close>

record probe_metadata =
  pm_final_url :: string
  pm_status :: u16
  pm_total_size :: "u64 option"
  pm_media_type :: "string option"
  pm_filename_hint :: "utext option"
  pm_validators :: resource_validators
  pm_plain_filename_hint :: "utext option"
  pm_accept_ranges :: bool
  pm_range_verified :: bool
  pm_content_encoding :: "string option"
  pm_http_version :: string
  pm_auth_required :: bool
  pm_content_range_total :: "u64 option"

definition segment_eligible :: "probe_metadata \<Rightarrow> u64 \<Rightarrow> bool \<Rightarrow> bool" where
  "segment_eligible m threshold verify_range =
     (let size_ok = (case pm_total_size m of Some s \<Rightarrow> threshold \<le> s | None \<Rightarrow> False);
          range_ok = (if verify_range then pm_range_verified m else pm_accept_ranges m)
      in size_ok \<and> range_ok \<and> pm_status m = 200)"

text \<open>
  Header values are texts of bytes. \<open>Content-Disposition\<close> is decoded lossily, the others are ASCII or empty.
\<close>

definition text_of_bytes :: "string \<Rightarrow> utext" where
  "text_of_bytes s = from_utf8_lossy (map of_char s)"

definition interpret_probe :: "u16 \<Rightarrow> string \<Rightarrow> (string \<times> string) list \<Rightarrow> u64 option \<Rightarrow> string \<Rightarrow> download_error + probe_metadata" where
  "interpret_probe status final_url headers body_size http_version =
     (if status \<noteq> 200 \<and> status \<noteq> 206 then Inl (status_to_error status)
      else let content_length = (case find_header ''content-length'' headers of
                 Some v \<Rightarrow> (case parse_u64 v of Some n \<Rightarrow> Some n | None \<Rightarrow> body_size)
               | None \<Rightarrow> body_size);
               validators = from_headers (find_header ''etag'' headers) (find_header ''last-modified'' headers) content_length;
               (hint, plain) = disposition_filename_candidates (map_option text_of_bytes (find_header ''content-disposition'' headers))
           in Inr \<lparr>pm_final_url = final_url, pm_status = status, pm_total_size = content_length,
                pm_media_type = find_header ''content-type'' headers, pm_filename_hint = hint, pm_validators = validators,
                pm_plain_filename_hint = plain,
                pm_accept_ranges = (case find_header ''accept-ranges'' headers of Some v \<Rightarrow> eq_ignore_ascii_case v ''bytes'' | None \<Rightarrow> False),
                pm_range_verified = False, pm_content_encoding = find_header ''content-encoding'' headers,
                pm_http_version = http_version, pm_auth_required = (status = 401),
                pm_content_range_total = (case find_header ''content-range'' headers of
                    Some v \<Rightarrow> (case parse_content_range v of Inr cr \<Rightarrow> cr_total cr | Inl _ \<Rightarrow> None)
                  | None \<Rightarrow> None)\<rparr>)"

record probe_request =
  pq_spec :: request_spec
  pq_segmentation_threshold :: u64
  pq_verify_range_support :: bool

record probe_outcome =
  po_metadata :: probe_metadata
  po_notices :: "string list"

definition apply_verification :: "wire_response \<Rightarrow> probe_metadata \<Rightarrow> probe_outcome" where
  "apply_verification vresp meta =
     (let cr = rm_content_range (from_head (wr_status vresp) (wr_headers vresp) '''')
      in case cr of
           Some c \<Rightarrow>
             if wr_status vresp = 206 \<and> cr_start c = 0 \<and> cr_total c \<noteq> None
             then \<lparr>po_metadata = meta\<lparr>pm_range_verified := True, pm_content_range_total := cr_total c, pm_total_size := cr_total c\<rparr>,
                   po_notices = []\<rparr>
             else \<lparr>po_metadata = meta\<lparr>pm_accept_ranges := False, pm_range_verified := False\<rparr>,
                   po_notices = [''server advertises ranges but ranged GET failed; falling back to single stream'']\<rparr>
         | None \<Rightarrow> \<lparr>po_metadata = meta\<lparr>pm_accept_ranges := False, pm_range_verified := False\<rparr>,
                    po_notices = [''server advertises ranges but ranged GET failed; falling back to single stream'']\<rparr>)"

text \<open>The validating request is a second request with a connection of its own, \<open>env'\<close>.\<close>

definition http_probe :: "client_env \<Rightarrow> client_env \<Rightarrow> probe_request \<Rightarrow> (http_failure + probe_outcome) \<times> sent_request list" where
  "http_probe env env' request =
     (let spec = pq_spec request
      in case run_request env MethodHead spec None of
           (Inl e, reqs) \<Rightarrow> (Inl (failure_from_error e), reqs)
         | (Inr head, reqs) \<Rightarrow>
             let status = wr_status (fr_response head); headers = wr_headers (fr_response head)
             in case interpret_probe status (fr_final_url head) headers None (fr_http_version head) of
                  Inl e \<Rightarrow> (Inl \<lparr>hf_error = e, hf_retry_after = retry_after_header headers,
                               hf_challenge = challenge_from_headers status (rq_url spec) headers\<rparr>, reqs)
                | Inr meta \<Rightarrow>
                    if (case pm_total_size meta of Some s \<Rightarrow> pq_segmentation_threshold request \<le> s | None \<Rightarrow> False)
                       \<and> pm_accept_ranges meta \<and> pq_verify_range_support request \<and> \<not> pm_range_verified meta
                    then let vspec = \<lparr>rq_url = fr_final_url head,
                               rq_headers = scoped_request_headers (ce_parse env) (rq_url spec) (fr_final_url head) (rq_headers spec)
                                 (rq_sensitive spec) (rd_forward_cross_origin_credentials (ce_redirect env)),
                               rq_validators = None, rq_identity_encoding = True, rq_sensitive = rq_sensitive spec\<rparr>
                         in case run_request env' MethodGet vspec (Some (0, 0)) of
                              (Inl e, reqs') \<Rightarrow> (Inl (failure_from_error e), reqs @ reqs')
                            | (Inr vresp, reqs') \<Rightarrow> (Inr (apply_verification (fr_response vresp) meta), reqs @ reqs')
                    else (Inr \<lparr>po_metadata = meta, po_notices = []\<rparr>, reqs))"

section \<open>The scope of credentials\<close>

definition ENGINE_NAMES :: "string list" where
  "ENGINE_NAMES = [''user-agent'', ''accept-encoding'', ''range'', ''if-range'']"

text \<open>What a request may carry after the chain has left the origin of the caller.\<close>

definition scoped_headers :: "bool \<Rightarrow> header_map \<Rightarrow> bool" where
  "scoped_headers sensitive hm =
     list_all (\<lambda>(k, _). \<not> is_origin_credential_header k \<and> (sensitive \<longrightarrow> k \<in> set ENGINE_NAMES)) hm"

lemma header_insert_keys: "(k, v) \<in> set (header_insert name w hm) \<Longrightarrow> k = to_ascii_lowercase name \<or> k \<in> fst ` set hm"
  using dom_update [of "to_ascii_lowercase name" w hm] by (force simp: header_insert_def)

definition engine_only :: "header_map \<Rightarrow> bool" where
  "engine_only hm \<longleftrightarrow> fst ` set hm \<subseteq> set ENGINE_NAMES"

lemma engine_only_insert:
  "engine_only []" "engine_only hm \<Longrightarrow> engine_only (header_insert ''user-agent'' w hm)"
  "engine_only hm \<Longrightarrow> engine_only (header_insert ''accept-encoding'' w hm)"
  "engine_only hm \<Longrightarrow> engine_only (header_insert ''range'' w hm)" "engine_only hm \<Longrightarrow> engine_only (header_insert ''if-range'' w hm)"
proof -
  have ins: "engine_only (header_insert n w hm)" if "n \<in> set ENGINE_NAMES" "to_ascii_lowercase n = n" "engine_only hm" for n w hm
    using header_insert_keys [of _ _ n w hm] that by (force simp: engine_only_def)
  show "engine_only hm \<Longrightarrow> engine_only (header_insert ''user-agent'' w hm)"
    "engine_only hm \<Longrightarrow> engine_only (header_insert ''accept-encoding'' w hm)"
    "engine_only hm \<Longrightarrow> engine_only (header_insert ''range'' w hm)" "engine_only hm \<Longrightarrow> engine_only (header_insert ''if-range'' w hm)"
    by (rule ins; simp add: ENGINE_NAMES_def to_ascii_lowercase_def ascii_lower_def)+
qed (simp add: engine_only_def)

lemma engine_headers_keys: "engine_only (engine_headers env spec rng)"
  unfolding engine_headers_def Let_def by (simp add: engine_only_insert split: option.split prod.split)

lemma engine_only_scoped: "engine_only hm \<Longrightarrow> scoped_headers sensitive hm \<and> ''proxy-authorization'' \<notin> fst ` set hm"
proof -
  assume hm: "engine_only hm"
  have "list_all (\<lambda>k. \<not> is_origin_credential_header k) ENGINE_NAMES" "''proxy-authorization'' \<notin> set ENGINE_NAMES" by code_simp+
  then show ?thesis using hm by (auto simp: scoped_headers_def engine_only_def list_all_iff)
qed

lemma scoped_insert:
  assumes "scoped_headers sensitive hm" "\<not> is_origin_credential_header (to_ascii_lowercase k)" "\<not> sensitive"
  shows "scoped_headers sensitive (header_insert k v hm)"
  using assms header_insert_keys [of _ _ k v hm] by (fastforce simp: scoped_headers_def list_all_iff)

definition carried_ok :: "bool \<Rightarrow> bool \<Rightarrow> header_map \<Rightarrow> bool" where
  "carried_ok strip sensitive hm \<longleftrightarrow> ''proxy-authorization'' \<notin> fst ` set hm \<and> (strip \<longrightarrow> scoped_headers sensitive hm)"

lemma carried_insert:
  assumes "carried_ok strip sensitive hm" "to_ascii_lowercase k \<noteq> ''proxy-authorization''"
    "\<not> (strip \<and> (is_origin_credential_header (to_ascii_lowercase k) \<or> sensitive))"
  shows "carried_ok strip sensitive (header_insert k v hm)"
proof -
  have "fst ` set (header_insert k v hm) = {to_ascii_lowercase k} \<union> fst ` set hm"
    unfolding header_insert_def by (rule dom_update)
  then have "''proxy-authorization'' \<notin> fst ` set (header_insert k v hm)"
    using assms(1,2) by (simp add: carried_ok_def)
  moreover have "scoped_headers sensitive (header_insert k v hm)" if strip
    using scoped_insert [of sensitive hm k v] assms(1,3) that by (simp add: carried_ok_def)
  ultimately show ?thesis by (simp add: carried_ok_def)
qed

lemma caller_headers_carried:
  "add_caller_headers env strip sensitive hs hm = Inr hm' \<Longrightarrow> carried_ok strip sensitive hm \<Longrightarrow> carried_ok strip sensitive hm'"
proof (induction hs arbitrary: hm)
  case (Cons kv rest)
  obtain k v where kv: "kv = (k, v)" by fastforce
  show ?case
  proof (cases "to_ascii_lowercase k = ''proxy-authorization'' \<or> strip \<and> (is_origin_credential_header (to_ascii_lowercase k) \<or> sensitive)")
    case True
    then have "add_caller_headers env strip sensitive rest hm = Inr hm'"
      using Cons.prems(1) unfolding kv add_caller_headers.simps Let_def by (simp split: if_splits)
    then show ?thesis using Cons.IH Cons.prems(2) by blast
  next
    case False
    then have "add_caller_headers env strip sensitive rest (header_insert k v hm) = Inr hm'"
      using Cons.prems(1) unfolding kv add_caller_headers.simps Let_def by (simp split: if_splits option.splits)
    then show ?thesis using Cons.IH carried_insert [OF Cons.prems(2), of k v] False by blast
  qed
qed simp

lemma request_headers_carried:
  assumes "request_headers env url spec rng strip = Inr hm"
  shows "carried_ok strip (rq_sensitive spec) hm"
proof (rule caller_headers_carried)
  show "add_caller_headers env strip (rq_sensitive spec) (rq_headers spec) (engine_headers env spec rng) = Inr hm"
    using assms unfolding request_headers_def by (simp split: sum.splits if_splits)
  show "carried_ok strip (rq_sensitive spec) (engine_headers env spec rng)"
    using engine_only_scoped [OF engine_headers_keys] by (simp add: carried_ok_def)
qed

text \<open>The log of a chain, from a tracker that may already have seen another origin.\<close>

definition chain_scoped :: "client_env \<Rightarrow> request_spec \<Rightarrow> bool \<Rightarrow> sent_request list \<Rightarrow> bool" where
  "chain_scoped env spec seen reqs \<longleftrightarrow>
     (\<forall>j<length reqs. carried_ok
        (seen \<or> \<not> rd_forward_cross_origin_credentials (ce_redirect env)
           \<and> (\<exists>i<j. crosses_origin (ce_parse env) (sq_url (reqs ! i)) (sq_url (reqs ! (i + 1)))))
        (rq_sensitive spec) (sq_headers (reqs ! j)))"

lemma chain_scoped_Cons:
  assumes "carried_ok seen (rq_sensitive spec) (sq_headers a)" "chain_scoped env spec seen' reqs"
    "reqs \<noteq> [] \<Longrightarrow> seen' = (seen \<or> crosses_origin (ce_parse env) (sq_url a) (sq_url (reqs ! 0)) \<and> \<not> rd_forward_cross_origin_credentials (ce_redirect env))"
  shows "chain_scoped env spec seen (a # reqs)"
  unfolding chain_scoped_def
proof (intro allI impI)
  fix j assume j: "j < length (a # reqs)"
  show "carried_ok (seen \<or> \<not> rd_forward_cross_origin_credentials (ce_redirect env)
      \<and> (\<exists>i<j. crosses_origin (ce_parse env) (sq_url ((a # reqs) ! i)) (sq_url ((a # reqs) ! (i + 1)))))
    (rq_sensitive spec) (sq_headers ((a # reqs) ! j))"
  proof (cases j)
    case 0
    then show ?thesis using assms(1) by simp
  next
    case (Suc k)
    have seen': "seen' = (seen \<or> crosses_origin (ce_parse env) (sq_url a) (sq_url (reqs ! 0))
        \<and> \<not> rd_forward_cross_origin_credentials (ce_redirect env))"
      by (rule assms(3)) (use j Suc in auto)
    have "(\<exists>i<Suc k. crosses_origin (ce_parse env) (sq_url ((a # reqs) ! i)) (sq_url ((a # reqs) ! (i + 1))))
        = (crosses_origin (ce_parse env) (sq_url a) (sq_url (reqs ! 0))
           \<or> (\<exists>i<k. crosses_origin (ce_parse env) (sq_url (reqs ! i)) (sq_url (reqs ! (i + 1)))))"
      by (auto simp: Ex_less_Suc2)
    then have "(seen \<or> \<not> rd_forward_cross_origin_credentials (ce_redirect env)
        \<and> (\<exists>i<Suc k. crosses_origin (ce_parse env) (sq_url ((a # reqs) ! i)) (sq_url ((a # reqs) ! (i + 1)))))
      = (seen' \<or> \<not> rd_forward_cross_origin_credentials (ce_redirect env)
        \<and> (\<exists>i<k. crosses_origin (ce_parse env) (sq_url (reqs ! i)) (sq_url (reqs ! (i + 1)))))"
      unfolding seen' by blast
    then show ?thesis using assms(2) j unfolding chain_scoped_def Suc by simp
  qed
qed

lemma following_scoped:
  assumes "request_following_redirects env meth spec rng url t = (r, reqs)" "rt_policy t = ce_redirect env"
    "rt_hops t \<le> rd_max_redirects (ce_redirect env)"
  shows "chain_scoped env spec (rt_cross_origin_seen t) reqs \<and> (reqs \<noteq> [] \<longrightarrow> sq_url (reqs ! 0) = url)
    \<and> length reqs + rt_hops t \<le> rd_max_redirects (ce_redirect env) + 1"
  using assms
proof (induction env meth spec rng url t arbitrary: r reqs rule: request_following_redirects.induct)
  case (1 env meth spec rng url t)
  note eq = "1.prems"(1) [unfolded request_following_redirects.simps [of env meth spec rng url t]]
  have one: ?case if "reqs = [] \<or> (\<exists>h. reqs = [\<lparr>sq_url = url, sq_headers = h\<rparr>]
      \<and> request_headers env url spec rng (rt_cross_origin_seen t) = Inr h)"
    using that "1.prems"(3) request_headers_carried by (auto simp: chain_scoped_def)
  show ?case
  proof (cases "ce_cancelled env (rt_hops t) \<or> (\<exists>e. request_headers env url spec rng (rt_cross_origin_seen t) = Inl e)")
    case True
    then have "reqs = []"
      using eq by (cases "ce_cancelled env (rt_hops t)") auto
    then show ?thesis using one by simp
  next
    case False
    then obtain h where h: "\<not> ce_cancelled env (rt_hops t)" "request_headers env url spec rng (rt_cross_origin_seen t) = Inr h"
      by (cases "request_headers env url spec rng (rt_cross_origin_seen t)") auto
    show ?thesis
    proof (cases "ce_send env (rt_hops t) meth url h")
      case (Inl e)
      then show ?thesis using eq h one by simp
    next
      case (Inr resp)
      obtain d t' where d: "decide_redirect (ce_parse env) (wr_status resp) (find_header ''location'' (wr_headers resp)) url (rq_headers spec) t = (d, t')"
        by fastforce
      show ?thesis
      proof (cases "rx_action d")
        case (Follow target)
        obtain reqs' where rec: "request_following_redirects env meth spec rng target t' = (r, reqs')"
            "reqs = \<lparr>sq_url = url, sq_headers = h\<rparr> # reqs'"
          using eq h Inr d Follow by (auto split: prod.splits)
        note hop = decide_follow [OF d Follow, unfolded hop_made_def]
        have "chain_scoped env spec (rt_cross_origin_seen t') reqs' \<and> (reqs' \<noteq> [] \<longrightarrow> sq_url (reqs' ! 0) = target)
            \<and> length reqs' + rt_hops t' \<le> rd_max_redirects (ce_redirect env) + 1"
          by (rule "1.IH" [OF h(1) h(2) refl Inr d [symmetric] Follow rec(1)]) (use hop "1.prems"(2) in simp_all)
        then show ?thesis
          using chain_scoped_Cons [of "rt_cross_origin_seen t" spec "\<lparr>sq_url = url, sq_headers = h\<rparr>" env "rt_cross_origin_seen t'" reqs']
            request_headers_carried [OF h(2)] hop "1.prems"(2) rec(2) by auto
      qed (use eq h Inr d one in simp_all)
    qed
  qed
qed

text \<open>
  Claim C31: a request that follows redirects ends after at most one request more than the policy's redirects,
  whatever the servers answer. None of the requests it sends carries a caller's proxy credentials; and once the
  chain has crossed an origin boundary, no later request, also back at the first origin, carries an origin
  credential, nor any header of the caller when the request is marked sensitive (unless forwarding was asked for).
\<close>

theorem requests_scoped:
  assumes "run_request env meth spec rng = (r, reqs)"
  shows "length reqs \<le> rd_max_redirects (ce_redirect env) + 1
    \<and> (\<forall>sent\<in>set reqs. ''proxy-authorization'' \<notin> fst ` set (sq_headers sent))
    \<and> (\<forall>i j k v. i < j \<and> j < length reqs \<and> crosses_origin (ce_parse env) (sq_url (reqs ! i)) (sq_url (reqs ! (i + 1)))
        \<and> \<not> rd_forward_cross_origin_credentials (ce_redirect env) \<and> (k, v) \<in> set (sq_headers (reqs ! j))
      \<longrightarrow> \<not> is_origin_credential_header k \<and> (rq_sensitive spec \<longrightarrow> k \<in> set ENGINE_NAMES))"
proof (intro conjI allI ballI)
  have *: "chain_scoped env spec False reqs" "length reqs \<le> rd_max_redirects (ce_redirect env) + 1"
    using following_scoped [OF assms [unfolded run_request_def]] by (simp_all add: tracker_for_def)
  show "length reqs \<le> rd_max_redirects (ce_redirect env) + 1" by (rule *)
  show "''proxy-authorization'' \<notin> fst ` set (sq_headers sent)" if "sent \<in> set reqs" for sent
    using *(1) that unfolding chain_scoped_def carried_ok_def in_set_conv_nth by blast
  show "i < j \<and> j < length reqs \<and> crosses_origin (ce_parse env) (sq_url (reqs ! i)) (sq_url (reqs ! (i + 1)))
        \<and> \<not> rd_forward_cross_origin_credentials (ce_redirect env) \<and> (k, v) \<in> set (sq_headers (reqs ! j))
      \<longrightarrow> \<not> is_origin_credential_header k \<and> (rq_sensitive spec \<longrightarrow> k \<in> set ENGINE_NAMES)" for i j k v
  proof (rule impI, elim conjE)
    assume that: "i < j" "j < length reqs" "crosses_origin (ce_parse env) (sq_url (reqs ! i)) (sq_url (reqs ! (i + 1)))"
      "\<not> rd_forward_cross_origin_credentials (ce_redirect env)" "(k, v) \<in> set (sq_headers (reqs ! j))"
    have "scoped_headers (rq_sensitive spec) (sq_headers (reqs ! j))"
      using *(1) that(1-4) unfolding chain_scoped_def carried_ok_def by blast
    then show "\<not> is_origin_credential_header k \<and> (rq_sensitive spec \<longrightarrow> k \<in> set ENGINE_NAMES)"
      using that(5) by (auto simp: scoped_headers_def list_all_iff)
  qed
qed

text \<open>A chain that leaves its origin, whose caller sends a cookie and a private header.\<close>

definition demo_send :: "nat \<Rightarrow> http_method \<Rightarrow> string \<Rightarrow> header_map \<Rightarrow> download_error + wire_response" where
  "demo_send n m url hm =
     Inr (if url = ''https://a/x'' then \<lparr>wr_status = 302, wr_headers = [(''Location'', ''https://b/y'')], wr_http2 = False\<rparr>
          else \<lparr>wr_status = 200, wr_headers = [], wr_http2 = True\<rparr>)"

definition demo_client :: client_env where
  "demo_client = \<lparr>ce_parse = demo_parse, ce_bad_name = (\<lambda>_. None), ce_bad_value = (\<lambda>_. None), ce_user_agent = ''kdown'',
     ce_redirect = redirect_policy_default, ce_cancelled = (\<lambda>_. False), ce_send = demo_send\<rparr>"

definition demo_spec :: request_spec where
  "demo_spec = \<lparr>rq_url = ''https://a/x'', rq_headers = [(''Cookie'', ''c''), (''X-Key'', ''k''), (''Proxy-Authorization'', ''p'')],
     rq_validators = None, rq_identity_encoding = True, rq_sensitive = True\<rparr>"

theorem requests_scoped_witness:
  "map (\<lambda>q. (sq_url q, map fst (sq_headers q))) (snd (run_request demo_client MethodGet demo_spec None))
     = [(''https://a/x'', [''user-agent'', ''accept-encoding'', ''cookie'', ''x-key'']), (''https://b/y'', [''user-agent'', ''accept-encoding''])]
   \<and> ''user-agent'' \<in> set ENGINE_NAMES"
proof -
  have run: "map (\<lambda>q. (sq_url q, map fst (sq_headers q))) (snd (run_request demo_client MethodGet demo_spec None))
     = [(''https://a/x'', [''user-agent'', ''accept-encoding'', ''cookie'', ''x-key'']), (''https://b/y'', [''user-agent'', ''accept-encoding''])]"
    by code_simp
  obtain r reqs where rr: "run_request demo_client MethodGet demo_spec None = (r, reqs)" by fastforce
  obtain a b where ab: "reqs = [a, b]" "sq_url a = ''https://a/x''" "sq_url b = ''https://b/y''"
      "map fst (sq_headers b) = [''user-agent'', ''accept-encoding'']"
    using run unfolding rr by (auto simp: map_eq_Cons_conv)
  obtain v where v: "(''user-agent'', v) \<in> set (sq_headers b)" using ab(4) by (cases "sq_headers b") auto
  have c: "crosses_origin (ce_parse demo_client) ''https://a/x'' ''https://b/y''" "\<not> rd_forward_cross_origin_credentials (ce_redirect demo_client)"
    "rq_sensitive demo_spec" by code_simp+
  have "''user-agent'' \<in> set ENGINE_NAMES"
    using requests_scoped [OF rr, THEN conjunct2, THEN conjunct2, rule_format, of 0 1 "''user-agent''" v] ab v c by simp
  then show ?thesis using run by blast
qed

end
