(* ===== verification/Write_Executor.thy ===== *)
theory Write_Executor
  imports Write_Budget Download_Error "HOL-Library.Multiset"
begin

text \<open>
  The shared write executor (\<open>io/write_executor.rs\<close>): sessions submit positional writes, a fixed pool of
  threads takes them round robin, executes them and delivers one completion for each. Every definition is one
  critical section of the code; a run interleaves submitters, writer threads, detaching sessions and the
  shutdown. The executor-wide byte bound is the budget of \<open>Write_Budget\<close>.
\<close>

section \<open>Data\<close>

record write_submission =
  ws_job :: u64
  ws_lease_id :: u64
  ws_generation :: u64
  ws_offset :: u64
  ws_data :: "nat list"

datatype write_outcome = WriteCompleted | WriteFailed download_error | WriteDiscarded

record write_completion =
  wc_lease_id :: u64
  wc_generation :: u64
  wc_offset :: u64
  wc_len :: u64
  wc_outcome :: write_outcome

datatype session_disposition = Drain | Discard

text \<open>A queued write goes to the completion stream of the session that submitted it.\<close>

record queued_write =
  qw_submission :: write_submission
  qw_stream :: u64
  qw_bytes :: u64

record session_entry =
  se_id :: u64
  se_job :: u64
  se_capability :: nat
  se_closed :: bool
  se_detached :: bool
  se_queue :: "queued_write list"
  se_executing :: nat

record executor_state =
  es_sessions :: "session_entry list"
  es_cursor :: nat
  es_next_session_id :: u64

text \<open>The streams hold every completion sent so far, with the session it was sent to.\<close>

record executor_core =
  ec_state :: executor_state
  ec_queued_bytes :: byte_budget
  ec_closed :: bool
  ec_streams :: "(u64 \<times> write_completion) list"

definition executor_new :: "u64 \<Rightarrow> executor_core" where
  "executor_new max_queued_bytes =
     \<lparr>ec_state = \<lparr>es_sessions = [], es_cursor = 0, es_next_session_id = 0\<rparr>,
      ec_queued_bytes = budget_new max_queued_bytes, ec_closed = False, ec_streams = []\<rparr>"

definition writer_threads :: "u32 \<Rightarrow> nat" where
  "writer_threads configured = max configured 1"

section \<open>Sessions\<close>

definition attach_session :: "u64 \<Rightarrow> nat \<Rightarrow> executor_core \<Rightarrow> u64 \<times> executor_core" where
  "attach_session job capability core =
     (let st = ec_state core; sid = es_next_session_id st
      in (sid, core\<lparr>ec_state := st\<lparr>es_next_session_id := u64_add sid 1,
                es_sessions := es_sessions st @ [\<lparr>se_id = sid, se_job = job, se_capability = capability, se_closed = False,
                  se_detached = False, se_queue = [], se_executing = 0\<rparr>]\<rparr>\<rparr>))"

text \<open>The first entry that satisfies a predicate, updated in place.\<close>

fun update_first :: "('a \<Rightarrow> bool) \<Rightarrow> ('a \<Rightarrow> 'a) \<Rightarrow> 'a list \<Rightarrow> 'a list" where
  "update_first p f [] = []"
| "update_first p f (x # xs) = (if p x then f x # xs else x # update_first p f xs)"

text \<open>\<open>submit\<close> up to the wait for the byte budget: refused, a routing bug, or admitted to the wait.\<close>

definition submit_check :: "u64 \<Rightarrow> write_submission \<Rightarrow> executor_core \<Rightarrow> bool outcome" where
  "submit_check job w core =
     (if ec_closed core then Done False
      else if ws_job w \<noteq> job then Panic
      else Done True)"

definition submission_bytes :: "write_submission \<Rightarrow> u64" where
  "submission_bytes w = length (ws_data w)"

text \<open>The rest of \<open>submit\<close>, with the bytes acquired: \<open>True\<close> is an accepted write.\<close>

definition submit_enqueue :: "u64 \<Rightarrow> write_submission \<Rightarrow> executor_core \<Rightarrow> (bool \<times> executor_core) outcome" where
  "submit_enqueue sid w core =
     (let st = ec_state core; bytes = submission_bytes w;
          refuse = (case budget_release True bytes (ec_queued_bytes core) of
                      Panic \<Rightarrow> Panic
                    | Done b \<Rightarrow> Done (False, core\<lparr>ec_queued_bytes := b\<rparr>))
      in case find (\<lambda>s. se_id s = sid) (es_sessions st) of
           None \<Rightarrow> refuse
         | Some s \<Rightarrow>
             if se_closed s then refuse
             else Done (True, core\<lparr>ec_state := st\<lparr>es_sessions :=
                    update_first (\<lambda>s. se_id s = sid)
                      (\<lambda>s. s\<lparr>se_queue := se_queue s @ [\<lparr>qw_submission = w, qw_stream = sid, qw_bytes = bytes\<rparr>]\<rparr>)
                      (es_sessions st)\<rparr>\<rparr>))"

definition completion_for :: "queued_write \<Rightarrow> write_outcome \<Rightarrow> write_completion" where
  "completion_for item outcome =
     \<lparr>wc_lease_id = ws_lease_id (qw_submission item), wc_generation = ws_generation (qw_submission item),
      wc_offset = ws_offset (qw_submission item), wc_len = length (ws_data (qw_submission item)), wc_outcome = outcome\<rparr>"

text \<open>Releasing the charge of a write and sending its completion.\<close>

definition deliver :: "queued_write \<Rightarrow> write_outcome \<Rightarrow> executor_core \<Rightarrow> executor_core outcome" where
  "deliver item outcome core =
     (case budget_release True (qw_bytes item) (ec_queued_bytes core) of
        Panic \<Rightarrow> Panic
      | Done b \<Rightarrow> Done (core\<lparr>ec_queued_bytes := b, ec_streams := ec_streams core @ [(qw_stream item, completion_for item outcome)]\<rparr>))"

fun discard_all :: "queued_write list \<Rightarrow> executor_core \<Rightarrow> executor_core outcome" where
  "discard_all [] core = Done core"
| "discard_all (item # rest) core =
     (case deliver item WriteDiscarded core of Panic \<Rightarrow> Panic | Done core' \<Rightarrow> discard_all rest core')"

definition detach_begin :: "u64 \<Rightarrow> session_disposition \<Rightarrow> executor_core \<Rightarrow> executor_core outcome" where
  "detach_begin sid disposition core =
     (case find (\<lambda>s. se_id s = sid) (es_sessions (ec_state core)) of
        None \<Rightarrow> Done core
      | Some s \<Rightarrow>
          let queue = (if disposition = Discard then [] else se_queue s);
              core' = core\<lparr>ec_state := (ec_state core)\<lparr>es_sessions :=
                        update_first (\<lambda>s. se_id s = sid) (\<lambda>s. s\<lparr>se_closed := True, se_detached := True, se_queue := queue\<rparr>)
                          (es_sessions (ec_state core))\<rparr>\<rparr>
          in discard_all (if disposition = Discard then se_queue s else []) core')"

text \<open>One check of the loop of \<open>detach\<close>: whether the session has settled, or has been removed.\<close>

definition detach_settled :: "u64 \<Rightarrow> executor_core \<Rightarrow> bool" where
  "detach_settled sid core =
     (case find (\<lambda>s. se_id s = sid) (es_sessions (ec_state core)) of
        None \<Rightarrow> True
      | Some s \<Rightarrow> se_queue s = [] \<and> se_executing s = 0)"

definition detach_leave :: "u64 \<Rightarrow> executor_core \<Rightarrow> executor_core" where
  "detach_leave sid core =
     core\<lparr>ec_state := (ec_state core)\<lparr>es_sessions := filter (\<lambda>s. se_id s \<noteq> sid) (es_sessions (ec_state core))\<rparr>\<rparr>"

section \<open>Writer threads\<close>

text \<open>What the blocking write returned: success, an error, or a panic with or without a message.\<close>

datatype write_answer = AnswerOk | AnswerErr download_error | AnswerPanic "string option"

definition panic_message :: "string option \<Rightarrow> string" where
  "panic_message payload = (case payload of Some m \<Rightarrow> m | None \<Rightarrow> ''unknown panic'')"

definition execute_write :: "write_answer \<Rightarrow> write_outcome" where
  "execute_write answer =
     (case answer of
        AnswerOk \<Rightarrow> WriteCompleted
      | AnswerErr e \<Rightarrow> WriteFailed e
      | AnswerPanic payload \<Rightarrow> WriteFailed (SinkWrite (''write executor task panicked: '' @ panic_message payload)))"

text \<open>The scan of one turn of \<open>take_next\<close>.\<close>

definition scan_order :: "nat \<Rightarrow> nat \<Rightarrow> nat list" where
  "scan_order cursor n = map (\<lambda>k. (cursor mod n + k) mod n) [0..<n]"

definition take_scan :: "executor_state \<Rightarrow> (u64 \<times> nat \<times> queued_write \<times> executor_state) option" where
  "take_scan st =
     (let n = length (es_sessions st)
      in case find (\<lambda>i. se_queue (es_sessions st ! i) \<noteq> []) (scan_order (es_cursor st) n) of
           None \<Rightarrow> None
         | Some i \<Rightarrow>
             let s = es_sessions st ! i
             in Some (se_id s, se_capability s, hd (se_queue s),
                  st\<lparr>es_cursor := (i + 1) mod n,
                     es_sessions := (es_sessions st)[i := s\<lparr>se_queue := tl (se_queue s), se_executing := se_executing s + 1\<rparr>]\<rparr>))"

datatype next_work = Work u64 nat queued_write executor_core | AllSettled | NoWork

definition take_next :: "executor_core \<Rightarrow> next_work" where
  "take_next core =
     (case take_scan (ec_state core) of
        Some (sid, capability, item, st) \<Rightarrow> Work sid capability item (core\<lparr>ec_state := st\<rparr>)
      | None \<Rightarrow>
          if ec_closed core \<and> list_all (\<lambda>s. se_queue s = [] \<and> se_executing s = 0) (es_sessions (ec_state core))
          then AllSettled
          else NoWork)"

text \<open>The critical section of \<open>settle\<close>; the flag says whether every parked thread is notified.\<close>

definition settle_session :: "u64 \<Rightarrow> executor_core \<Rightarrow> (bool \<times> executor_core) outcome" where
  "settle_session sid core =
     (case find (\<lambda>s. se_id s = sid) (es_sessions (ec_state core)) of
        None \<Rightarrow> Done (ec_closed core, core)
      | Some s \<Rightarrow>
          if se_executing s = 0 then Panic
          else Done (ec_closed core,
            core\<lparr>ec_state := (ec_state core)\<lparr>es_sessions :=
              update_first (\<lambda>s. se_id s = sid) (\<lambda>s. s\<lparr>se_executing := se_executing s - 1\<rparr>) (es_sessions (ec_state core))\<rparr>\<rparr>))"

definition shutdown_close :: "executor_core \<Rightarrow> executor_core" where
  "shutdown_close core = core\<lparr>ec_closed := True\<rparr>"

definition shutdown_clear :: "executor_core \<Rightarrow> executor_core" where
  "shutdown_clear core = core\<lparr>ec_state := (ec_state core)\<lparr>es_sessions := []\<rparr>\<rparr>"

section \<open>Runs\<close>

text \<open>
  A submission waits for bytes, holds them, and notifies a thread after it was queued. A writer thread that
  found no work still holds the lock until it is parked. \<open>sy_accepted\<close> records the writes that \<open>submit\<close>
  accepted and \<open>sy_dropped\<close> the queued writes that the shutdown threw away. The check that ends the loop of
  \<open>detach\<close> and the removal of the session are one step: between them a closed and settled session does not change.
\<close>

datatype submit_stage = SubmitWaiting u64 write_submission | SubmitHolding u64 write_submission | SubmitNotifying

datatype writer_pc =
    Taking
  | Parking
  | Parked
  | Executing u64 nat queued_write
  | Delivering u64 queued_write write_outcome
  | Settling u64
  | Exited

datatype shutdown_stage = Running | ClosedFlag | Joining | ShutDown

record executor_system =
  sy_core :: executor_core
  sy_submits :: "submit_stage list"
  sy_writers :: "writer_pc list"
  sy_shutdown :: shutdown_stage
  sy_detached :: "u64 list"
  sy_accepted :: "(u64 \<times> write_submission) list"
  sy_dropped :: "(u64 \<times> queued_write) list"

definition unlocked :: "executor_system \<Rightarrow> bool" where
  "unlocked x \<longleftrightarrow> Parking \<notin> set (sy_writers x)"

definition wake :: "writer_pc \<Rightarrow> writer_pc" where
  "wake pc = (if pc = Parked then Taking else pc)"

definition queued_items :: "session_entry list \<Rightarrow> (u64 \<times> queued_write) list" where
  "queued_items ss = concat (map (\<lambda>s. map (Pair (se_id s)) (se_queue s)) ss)"

inductive executor_step :: "executor_system \<Rightarrow> executor_system outcome \<Rightarrow> bool" where
  attach: "unlocked x \<Longrightarrow> es_next_session_id (ec_state (sy_core x)) < u64_max \<Longrightarrow> attach_session job cap (sy_core x) = (sid, c) \<Longrightarrow>
    executor_step x (Done (x\<lparr>sy_core := c\<rparr>))"
| submit: "submit_check (ws_job w) w (sy_core x) = Done True \<Longrightarrow>
    executor_step x (Done (x\<lparr>sy_submits := sy_submits x @ [SubmitWaiting sid w]\<rparr>))"
| submit_cancel: "i < length (sy_submits x) \<Longrightarrow> sy_submits x ! i = SubmitWaiting sid w \<Longrightarrow>
    executor_step x (Done (x\<lparr>sy_submits := take i (sy_submits x) @ drop (Suc i) (sy_submits x)\<rparr>))"
| submit_admit: "i < length (sy_submits x) \<Longrightarrow> sy_submits x ! i = SubmitWaiting sid w \<Longrightarrow>
    budget_poll (submission_bytes w) (ec_queued_bytes (sy_core x)) = (True, b) \<Longrightarrow>
    executor_step x (Done (x\<lparr>sy_core := (sy_core x)\<lparr>ec_queued_bytes := b\<rparr>, sy_submits := (sy_submits x)[i := SubmitHolding sid w]\<rparr>))"
| submit_accept: "unlocked x \<Longrightarrow> i < length (sy_submits x) \<Longrightarrow> sy_submits x ! i = SubmitHolding sid w \<Longrightarrow>
    submit_enqueue sid w (sy_core x) = Done (True, c) \<Longrightarrow>
    executor_step x (Done (x\<lparr>sy_core := c, sy_submits := (sy_submits x)[i := SubmitNotifying], sy_accepted := sy_accepted x @ [(sid, w)]\<rparr>))"
| submit_refuse: "unlocked x \<Longrightarrow> i < length (sy_submits x) \<Longrightarrow> sy_submits x ! i = SubmitHolding sid w \<Longrightarrow>
    submit_enqueue sid w (sy_core x) = Done (False, c) \<Longrightarrow>
    executor_step x (Done (x\<lparr>sy_core := c, sy_submits := take i (sy_submits x) @ drop (Suc i) (sy_submits x)\<rparr>))"
| submit_panic: "unlocked x \<Longrightarrow> i < length (sy_submits x) \<Longrightarrow> sy_submits x ! i = SubmitHolding sid w \<Longrightarrow>
    submit_enqueue sid w (sy_core x) = Panic \<Longrightarrow> executor_step x Panic"
| notify_one: "i < length (sy_submits x) \<Longrightarrow> sy_submits x ! i = SubmitNotifying \<Longrightarrow>
    (if Parked \<in> set (sy_writers x) then k < length (sy_writers x) \<and> sy_writers x ! k = Parked \<and> ws = (sy_writers x)[k := Taking]
     else ws = sy_writers x) \<Longrightarrow>
    executor_step x (Done (x\<lparr>sy_writers := ws, sy_submits := take i (sy_submits x) @ drop (Suc i) (sy_submits x)\<rparr>))"
| take_work: "unlocked x \<Longrightarrow> k < length (sy_writers x) \<Longrightarrow> sy_writers x ! k = Taking \<Longrightarrow>
    take_next (sy_core x) = Work sid cap item c \<Longrightarrow>
    executor_step x (Done (x\<lparr>sy_core := c, sy_writers := (sy_writers x)[k := Executing sid cap item]\<rparr>))"
| take_exit: "unlocked x \<Longrightarrow> k < length (sy_writers x) \<Longrightarrow> sy_writers x ! k = Taking \<Longrightarrow> take_next (sy_core x) = AllSettled \<Longrightarrow>
    executor_step x (Done (x\<lparr>sy_writers := (sy_writers x)[k := Exited]\<rparr>))"
| take_none: "unlocked x \<Longrightarrow> k < length (sy_writers x) \<Longrightarrow> sy_writers x ! k = Taking \<Longrightarrow> take_next (sy_core x) = NoWork \<Longrightarrow>
    executor_step x (Done (x\<lparr>sy_writers := (sy_writers x)[k := Parking]\<rparr>))"
| park: "k < length (sy_writers x) \<Longrightarrow> sy_writers x ! k = Parking \<Longrightarrow>
    executor_step x (Done (x\<lparr>sy_writers := (sy_writers x)[k := Parked]\<rparr>))"
| spurious: "k < length (sy_writers x) \<Longrightarrow> sy_writers x ! k = Parked \<Longrightarrow>
    executor_step x (Done (x\<lparr>sy_writers := (sy_writers x)[k := Taking]\<rparr>))"
| executed: "k < length (sy_writers x) \<Longrightarrow> sy_writers x ! k = Executing sid cap item \<Longrightarrow>
    executor_step x (Done (x\<lparr>sy_writers := (sy_writers x)[k := Delivering sid item (execute_write answer)]\<rparr>))"
| delivered: "k < length (sy_writers x) \<Longrightarrow> sy_writers x ! k = Delivering sid item out \<Longrightarrow> deliver item out (sy_core x) = Done c \<Longrightarrow>
    executor_step x (Done (x\<lparr>sy_core := c, sy_writers := (sy_writers x)[k := Settling sid]\<rparr>))"
| deliver_panic: "k < length (sy_writers x) \<Longrightarrow> sy_writers x ! k = Delivering sid item out \<Longrightarrow> deliver item out (sy_core x) = Panic \<Longrightarrow>
    executor_step x Panic"
| settled: "unlocked x \<Longrightarrow> k < length (sy_writers x) \<Longrightarrow> sy_writers x ! k = Settling sid \<Longrightarrow>
    settle_session sid (sy_core x) = Done (notify, c) \<Longrightarrow>
    executor_step x (Done (x\<lparr>sy_core := c,
      sy_writers := (if notify then map wake ((sy_writers x)[k := Taking]) else (sy_writers x)[k := Taking])\<rparr>))"
| settle_panic: "unlocked x \<Longrightarrow> k < length (sy_writers x) \<Longrightarrow> sy_writers x ! k = Settling sid \<Longrightarrow>
    settle_session sid (sy_core x) = Panic \<Longrightarrow> executor_step x Panic"
| detach: "unlocked x \<Longrightarrow> detach_begin sid disposition (sy_core x) = Done c \<Longrightarrow> executor_step x (Done (x\<lparr>sy_core := c\<rparr>))"
| detach_panic: "unlocked x \<Longrightarrow> detach_begin sid disposition (sy_core x) = Panic \<Longrightarrow> executor_step x Panic"
| leave: "unlocked x \<Longrightarrow> (\<forall>s\<in>set (es_sessions (ec_state (sy_core x))). se_id s = sid \<longrightarrow> se_detached s) \<Longrightarrow>
    sid < es_next_session_id (ec_state (sy_core x)) \<Longrightarrow> detach_settled sid (sy_core x) \<Longrightarrow>
    executor_step x (Done (x\<lparr>sy_core := detach_leave sid (sy_core x), sy_detached := sid # sy_detached x\<rparr>))"
| close: "sy_shutdown x = Running \<Longrightarrow> executor_step x (Done (x\<lparr>sy_core := shutdown_close (sy_core x), sy_shutdown := ClosedFlag\<rparr>))"
| close_notify: "sy_shutdown x = ClosedFlag \<Longrightarrow>
    executor_step x (Done (x\<lparr>sy_writers := map wake (sy_writers x), sy_shutdown := Joining\<rparr>))"
| joined: "unlocked x \<Longrightarrow> sy_shutdown x = Joining \<Longrightarrow> \<forall>pc\<in>set (sy_writers x). pc = Exited \<Longrightarrow>
    executor_step x (Done (x\<lparr>sy_core := shutdown_clear (sy_core x), sy_shutdown := ShutDown,
      sy_dropped := queued_items (es_sessions (ec_state (sy_core x)))\<rparr>))"

definition system_start :: "u32 \<Rightarrow> u64 \<Rightarrow> executor_system" where
  "system_start threads max_queued_bytes =
     \<lparr>sy_core = executor_new max_queued_bytes, sy_submits = [], sy_writers = replicate (writer_threads threads) Taking,
      sy_shutdown = Running, sy_detached = [], sy_accepted = [], sy_dropped = []\<rparr>"

inductive executor_reach :: "u32 \<Rightarrow> u64 \<Rightarrow> executor_system \<Rightarrow> bool" for threads mx where
  start: "executor_reach threads mx (system_start threads mx)"
| step: "executor_reach threads mx x \<Longrightarrow> executor_step x (Done y) \<Longrightarrow> executor_reach threads mx y"

end
