(* ===== verification/Executor_Runs.thy ===== *)
theory Executor_Runs
  imports Write_Executor
begin

text \<open>
  The write executor in every interleaving: each accepted write is completed once, the byte bound is exact, a
  detached session has settled, a queued write has a thread to run it, and sessions are served in turn. Two
  runs show what the shutdown can lose.
\<close>

section \<open>The books of a run\<close>

fun writer_items :: "writer_pc \<Rightarrow> (u64 \<times> queued_write) list" where
  "writer_items (Executing sid cap item) = [(sid, item)]"
| "writer_items (Delivering sid item out) = [(sid, item)]"
| "writer_items _ = []"

fun on_session :: "u64 \<Rightarrow> writer_pc \<Rightarrow> bool" where
  "on_session sid (Executing sid' cap item) = (sid' = sid)"
| "on_session sid (Delivering sid' item out) = (sid' = sid)"
| "on_session sid (Settling sid') = (sid' = sid)"
| "on_session sid _ = False"

fun holding :: "submit_stage \<Rightarrow> nat" where
  "holding (SubmitHolding sid w) = submission_bytes w"
| "holding _ = 0"

text \<open>The accepted writes that have no completion yet.\<close>

definition items :: "session_entry list \<Rightarrow> writer_pc list \<Rightarrow> (u64 \<times> queued_write) list \<Rightarrow> (u64 \<times> queued_write) multiset" where
  "items ss ws dropped = mset (queued_items ss) + mset (concat (map writer_items ws)) + mset dropped"

definition open_items :: "executor_system \<Rightarrow> (u64 \<times> queued_write) multiset" where
  "open_items x = items (es_sessions (ec_state (sy_core x))) (sy_writers x) (sy_dropped x)"

definition write_tag :: "u64 \<times> write_submission \<Rightarrow> u64 \<times> u64 \<times> u64 \<times> u64 \<times> nat" where
  "write_tag sw = (fst sw, ws_lease_id (snd sw), ws_generation (snd sw), ws_offset (snd sw), length (ws_data (snd sw)))"

definition item_tag :: "u64 \<times> queued_write \<Rightarrow> u64 \<times> u64 \<times> u64 \<times> u64 \<times> nat" where
  "item_tag i = write_tag (fst i, qw_submission (snd i))"

definition completion_tag :: "u64 \<times> write_completion \<Rightarrow> u64 \<times> u64 \<times> u64 \<times> u64 \<times> nat" where
  "completion_tag sc = (fst sc, wc_lease_id (snd sc), wc_generation (snd sc), wc_offset (snd sc), wc_len (snd sc))"

definition item_ok :: "u64 \<times> queued_write \<Rightarrow> bool" where
  "item_ok i \<longleftrightarrow> qw_stream (snd i) = fst i \<and> qw_bytes (snd i) = submission_bytes (qw_submission (snd i))"

text \<open>Every accepted write is open or completed, and the byte bound counts the open ones and those being admitted.\<close>

definition books :: "u64 \<Rightarrow> (u64 \<times> queued_write) multiset \<Rightarrow> nat \<Rightarrow> executor_core \<Rightarrow> (u64 \<times> write_submission) list \<Rightarrow> bool" where
  "books mx M held core accepted \<longleftrightarrow>
     bb_max (ec_queued_bytes core) = mx \<and> bb_outstanding (ec_queued_bytes core) \<le> mx \<and> (\<forall>i\<in>#M. item_ok i)
     \<and> bb_outstanding (ec_queued_bytes core) = (\<Sum>i\<in>#M. qw_bytes (snd i)) + held
     \<and> mset (map write_tag accepted) = image_mset item_tag M + mset (map completion_tag (ec_streams core))"

definition sessions_ok :: "u64 \<Rightarrow> session_entry list \<Rightarrow> writer_pc list \<Rightarrow> bool" where
  "sessions_ok next_id ss ws \<longleftrightarrow>
     distinct (map se_id ss) \<and> (\<forall>s\<in>set ss. se_id s < next_id \<and> se_executing s = length (filter (on_session (se_id s)) ws))
     \<and> (\<forall>sid. (\<exists>pc\<in>set ws. on_session sid pc) \<longrightarrow> sid \<in> se_id ` set ss)"

definition executor_inv :: "u64 \<Rightarrow> executor_system \<Rightarrow> bool" where
  "executor_inv mx x \<longleftrightarrow>
     books mx (open_items x) (sum_list (map holding (sy_submits x))) (sy_core x) (sy_accepted x)
     \<and> sessions_ok (es_next_session_id (ec_state (sy_core x))) (es_sessions (ec_state (sy_core x))) (sy_writers x)
     \<and> (sy_dropped x \<noteq> [] \<longrightarrow> sy_shutdown x = ShutDown)
     \<and> (\<forall>sid\<in>set (sy_detached x). sid < es_next_session_id (ec_state (sy_core x)) \<and> sid \<notin> se_id ` set (es_sessions (ec_state (sy_core x))))
     \<and> es_next_session_id (ec_state (sy_core x)) \<le> u64_max"

lemma books_release:
  assumes "books mx (add_mset (sid, item) M) held core accepted" "mx \<le> u64_max"
  shows "\<exists>core'. deliver item out core = Done core' \<and> books mx M held core' accepted \<and> ec_state core' = ec_state core \<and> ec_closed core' = ec_closed core"
proof -
  have ok: "item_ok (sid, item)" and le: "qw_bytes item \<le> bb_outstanding (ec_queued_bytes core)"
      "bb_outstanding (ec_queued_bytes core) \<le> u64_max"
    using assms by (auto simp: books_def)
  have "completion_tag (sid, completion_for item out) = item_tag (sid, item)"
    by (simp add: completion_tag_def completion_for_def item_tag_def write_tag_def)
  then show ?thesis using assms(1) ok unfolding deliver_def budget_release_ok [OF le]
    by (auto simp: books_def item_ok_def)
qed

lemma books_discard:
  assumes "books mx (mset (map (Pair sid) q) + M) held core accepted" "mx \<le> u64_max"
  shows "\<exists>core'. discard_all q core = Done core' \<and> books mx M held core' accepted \<and> ec_state core' = ec_state core \<and> ec_closed core' = ec_closed core"
  using assms(1)
proof (induction q arbitrary: core)
  case (Cons item q)
  have "books mx (add_mset (sid, item) (mset (map (Pair sid) q) + M)) held core accepted" using Cons.prems by simp
  from books_release [OF this assms(2), of WriteDiscarded] obtain c where c: "deliver item WriteDiscarded core = Done c"
      "books mx (mset (map (Pair sid) q) + M) held c accepted" "ec_state c = ec_state core" "ec_closed c = ec_closed core" by blast
  show ?case using Cons.IH [OF c(2)] c by auto
qed simp

lemma find_split:
  assumes "find p xs = Some y"
  obtains a b where "xs = a @ y # b" "p y" "\<forall>z\<in>set a. \<not> p z" "\<And>f. update_first p f xs = a @ f y # b"
proof -
  have "\<exists>a b. xs = a @ y # b \<and> p y \<and> (\<forall>z\<in>set a. \<not> p z) \<and> (\<forall>f. update_first p f xs = a @ f y # b)"
    using assms
  proof (induction xs)
    case (Cons x xs)
    show ?case
    proof (cases "p x")
      case True
      then have "x # xs = [] @ y # xs" "p y" "\<forall>f. update_first p f (x # xs) = [] @ f y # xs" using Cons.prems by auto
      then show ?thesis by fastforce
    next
      case False
      then have "find p xs = Some y" using Cons.prems by simp
      from Cons.IH [OF this] obtain a b where "xs = a @ y # b" "p y" "\<forall>z\<in>set a. \<not> p z" "\<forall>f. update_first p f xs = a @ f y # b" by blast
      then have "x # xs = (x # a) @ y # b \<and> p y \<and> (\<forall>z\<in>set (x # a). \<not> p z) \<and> (\<forall>f. update_first p f (x # xs) = (x # a) @ f y # b)"
        using False by simp
      then show ?thesis by blast
    qed
  qed simp
  then show thesis using that by blast
qed

lemma queued_items_simps [simp]:
  "queued_items [] = []" "queued_items (s # ss) = map (Pair (se_id s)) (se_queue s) @ queued_items ss"
  "queued_items (ss @ ts) = queued_items ss @ queued_items ts"
  by (simp_all add: queued_items_def)

section \<open>Every step keeps the books\<close>

definition writer_view :: "writer_pc \<Rightarrow> (u64 \<times> queued_write) list \<times> (u64 \<Rightarrow> bool)" where
  "writer_view pc = (writer_items pc, \<lambda>sid. on_session sid pc)"

lemma writer_view_wake: "writer_view (wake pc) = writer_view pc"
  by (cases pc) (simp_all add: writer_view_def wake_def)

lemma writers_frame:
  assumes "map writer_view ws' = map writer_view ws"
  shows "items ss ws' d = items ss ws d" "sessions_ok n ss ws' = sessions_ok n ss ws"
proof -
  have held: "map writer_items ws' = map writer_items ws"
    using arg_cong [OF assms, of "map fst"] by (simp add: writer_view_def comp_def)
  have on: "map (on_session sid) ws' = map (on_session sid) ws" for sid
    using arg_cong [OF assms, of "map (\<lambda>v. snd v sid)"] by (simp add: writer_view_def comp_def)
  have "length (filter (on_session sid) ws') = length (filter (on_session sid) ws)" for sid
    using arg_cong [OF on [of sid], of "\<lambda>bs. length (filter id bs)"] by (simp add: filter_map comp_def)
  moreover have "(\<exists>pc\<in>set ws'. on_session sid pc) = (\<exists>pc\<in>set ws. on_session sid pc)" for sid
    using arg_cong [OF on [of sid], of "\<lambda>bs. True \<in> set bs"] by (auto simp: image_iff)
  ultimately show "items ss ws' d = items ss ws d" "sessions_ok n ss ws' = sessions_ok n ss ws"
    using held by (simp_all add: items_def sessions_ok_def)
qed

lemma view_update: "k < length ws \<Longrightarrow> writer_view pc = writer_view (ws ! k) \<Longrightarrow> map writer_view (ws[k := pc]) = map writer_view ws"
  by (metis list_update_id map_update)

lemma list_split:
  assumes "k < length ws"
  obtains a b where "ws = a @ (ws ! k) # b" "\<And>v. ws[k := v] = a @ v # b"
  using assms id_take_nth_drop upd_conv_take_nth_drop by metis

text \<open>A session entry replaced by one with the same identity and count.\<close>

lemma sessions_replace:
  assumes "sessions_ok n (a @ s # b) ws" "se_id s' = se_id s" "se_executing s' = se_executing s"
  shows "sessions_ok n (a @ s' # b) ws"
  using assms by (auto simp: sessions_ok_def)

text \<open>The thread at one place starts or stops working for one session.\<close>

lemma sessions_shift:
  assumes "sessions_ok n (a @ s # b) (us @ pc # vs)" "se_id s' = se_id s"
    and "on_session (se_id s) pc \<noteq> on_session (se_id s) pc'" "\<And>sid. sid \<noteq> se_id s \<Longrightarrow> on_session sid pc' = on_session sid pc"
    and "se_executing s' + (if on_session (se_id s) pc then 1 else 0) = se_executing s + (if on_session (se_id s) pc' then 1 else 0)"
  shows "sessions_ok n (a @ s' # b) (us @ pc' # vs)"
proof -
  have other: "length (filter (on_session sid) (us @ pc' # vs)) = length (filter (on_session sid) (us @ pc # vs))" if "sid \<noteq> se_id s" for sid
    using assms(4) [OF that] by simp
  have self: "se_executing s' = length (filter (on_session (se_id s)) (us @ pc' # vs))"
    using assms(1,3,5) by (auto simp: sessions_ok_def split: if_splits)
  have "se_id s \<notin> se_id ` set (a @ b)" using assms(1) by (simp add: sessions_ok_def image_Un)
  then have dist: "t \<in> set (a @ b) \<Longrightarrow> se_id t \<noteq> se_id s" for t by (metis image_eqI)
  have "se_executing t = length (filter (on_session (se_id t)) (us @ pc' # vs))" if "t \<in> set (a @ s' # b)" for t
    using that self dist [of t] other [of "se_id t"] assms(1,2) by (auto simp: sessions_ok_def)
  moreover have "sid \<in> se_id ` set (a @ s' # b)" if "\<exists>q\<in>set (us @ pc' # vs). on_session sid q" for sid
  proof (cases "sid = se_id s")
    case False
    then have "\<exists>q\<in>set (us @ pc # vs). on_session sid q" using that assms(4) by auto
    then have "sid \<in> se_id ` set (a @ s # b)" using assms(1) unfolding sessions_ok_def by blast
    then show ?thesis using assms(2) by auto
  qed (use assms(2) in auto)
  moreover have "distinct (map se_id (a @ s' # b))" "\<forall>t\<in>set (a @ s' # b). se_id t < n"
    using assms(1,2) by (auto simp: sessions_ok_def)
  ultimately show ?thesis by (simp only: sessions_ok_def) blast
qed

lemma find_scan:
  assumes "take_scan st = Some (sid, cap, item, st')"
  obtains a s b i where "es_sessions st = a @ s # b" "length a = i" "se_id s = sid" "se_queue s = item # tl (se_queue s)"
    "es_sessions st' = a @ s\<lparr>se_queue := tl (se_queue s), se_executing := se_executing s + 1\<rparr> # b"
    "es_next_session_id st' = es_next_session_id st" "find (\<lambda>i. se_queue (es_sessions st ! i) \<noteq> []) (scan_order (es_cursor st) (length (es_sessions st))) = Some i"
    "es_cursor st' = (i + 1) mod length (es_sessions st)"
proof -
  obtain i where i: "find (\<lambda>i. se_queue (es_sessions st ! i) \<noteq> []) (scan_order (es_cursor st) (length (es_sessions st))) = Some i"
    using assms by (auto simp: take_scan_def Let_def split: option.splits)
  then have q: "se_queue (es_sessions st ! i) \<noteq> []" "i \<in> set (scan_order (es_cursor st) (length (es_sessions st)))"
    by (auto simp: find_Some_iff)
  then have "length (es_sessions st) \<noteq> 0" by (auto simp: scan_order_def)
  then have len: "i < length (es_sessions st)" using q(2) by (auto simp: scan_order_def simp del: length_greater_0_conv length_0_conv)
  let ?s = "es_sessions st ! i"
  have r: "sid = se_id ?s" "item = hd (se_queue ?s)" "es_cursor st' = (i + 1) mod length (es_sessions st)"
      "es_next_session_id st' = es_next_session_id st"
      "es_sessions st' = (es_sessions st)[i := ?s\<lparr>se_queue := tl (se_queue ?s), se_executing := se_executing ?s + 1\<rparr>]"
    using assms i by (auto simp: take_scan_def Let_def)
  have "es_sessions st = take i (es_sessions st) @ ?s # drop (Suc i) (es_sessions st)" "length (take i (es_sessions st)) = i"
      "es_sessions st' = take i (es_sessions st) @ ?s\<lparr>se_queue := tl (se_queue ?s), se_executing := se_executing ?s + 1\<rparr> # drop (Suc i) (es_sessions st)"
      "se_queue ?s = item # tl (se_queue ?s)"
    using len r q(1) by (simp_all add: id_take_nth_drop upd_conv_take_nth_drop)
  then show thesis using that [of "take i (es_sessions st)" ?s "drop (Suc i) (es_sessions st)" i] r i by metis
qed

lemma inv_frame:
  assumes "executor_inv mx x" "map writer_view ws = map writer_view (sy_writers x)"
    "sum_list (map holding subs) = sum_list (map holding (sy_submits x))" "sd = sy_shutdown x \<or> sy_shutdown x \<noteq> ShutDown"
  shows "executor_inv mx (x\<lparr>sy_writers := ws, sy_submits := subs, sy_shutdown := sd\<rparr>)"
  using assms by (auto simp: executor_inv_def open_items_def writers_frame [OF assms(2)])

lemma holding_remove: "i < length ss \<Longrightarrow> sum_list (map holding (take i ss @ drop (Suc i) ss)) + holding (ss ! i) = sum_list (map holding ss)"
  by (subst (3) id_take_nth_drop) auto

lemma holding_update: "i < length ss \<Longrightarrow> sum_list (map holding (ss[i := v])) + holding (ss ! i) = sum_list (map holding ss) + holding v"
  by (subst (4) id_take_nth_drop) (auto simp: upd_conv_take_nth_drop)

text \<open>What a step changes: the open items, the bytes being admitted, and the core.\<close>

lemma inv_cong:
  assumes "executor_inv mx x" and "books mx (open_items y) (sum_list (map holding (sy_submits y))) (sy_core y) (sy_accepted y)"
    and "sessions_ok (es_next_session_id (ec_state (sy_core y))) (es_sessions (ec_state (sy_core y))) (sy_writers y)"
    and "se_id ` set (es_sessions (ec_state (sy_core y))) \<subseteq> se_id ` set (es_sessions (ec_state (sy_core x)))"
    and "es_next_session_id (ec_state (sy_core y)) = es_next_session_id (ec_state (sy_core x))"
    and "sy_dropped y = sy_dropped x" "sy_shutdown y = sy_shutdown x" "sy_detached y = sy_detached x"
  shows "executor_inv mx y"
  using assms by (auto simp: executor_inv_def)

lemma step_submit_accept:
  assumes inv: "executor_inv mx x" and i: "i < length (sy_submits x)" "sy_submits x ! i = SubmitHolding sid w"
    and acc: "submit_enqueue sid w (sy_core x) = Done (True, c)"
  shows "executor_inv mx (x\<lparr>sy_core := c, sy_submits := (sy_submits x)[i := SubmitNotifying], sy_accepted := sy_accepted x @ [(sid, w)]\<rparr>)"
proof -
  let ?st = "ec_state (sy_core x)" and ?item = "\<lparr>qw_submission = w, qw_stream = sid, qw_bytes = submission_bytes w\<rparr>"
  obtain s where s: "find (\<lambda>s. se_id s = sid) (es_sessions ?st) = Some s"
    using acc by (auto simp: submit_enqueue_def Let_def split: option.splits outcome.splits)
  obtain a b where ab: "es_sessions ?st = a @ s # b" "se_id s = sid" "\<forall>z\<in>set a. se_id z \<noteq> sid"
      "\<And>f. update_first (\<lambda>s. se_id s = sid) f (es_sessions ?st) = a @ f s # b" by (rule find_split [OF s]) blast
  have c: "c = (sy_core x)\<lparr>ec_state := ?st\<lparr>es_sessions := a @ s\<lparr>se_queue := se_queue s @ [?item]\<rparr> # b\<rparr>\<rparr>"
    using acc s ab(4) by (auto simp: submit_enqueue_def Let_def split: if_splits outcome.splits)
  have sub: "sum_list (map holding ((sy_submits x)[i := SubmitNotifying])) + submission_bytes w = sum_list (map holding (sy_submits x))"
    using holding_update [OF i(1), of SubmitNotifying] i(2) by simp
  have ok: "sessions_ok (es_next_session_id ?st) (a @ s\<lparr>se_queue := se_queue s @ [?item]\<rparr> # b) (sy_writers x)"
    by (rule sessions_replace [of _ a s b]) (use inv ab(1) in \<open>simp_all add: executor_inv_def\<close>)
  show ?thesis
    by (rule inv_cong [OF inv])
      (use inv ab sub c ok in \<open>auto simp: executor_inv_def books_def open_items_def items_def item_ok_def item_tag_def write_tag_def\<close>)
qed

lemma step_submit_refuse:
  assumes inv: "executor_inv mx x" and mx: "mx \<le> u64_max" and i: "i < length (sy_submits x)" "sy_submits x ! i = SubmitHolding sid w"
    and acc: "submit_enqueue sid w (sy_core x) = out"
  shows "out \<noteq> Panic" and "out = Done (False, c) \<Longrightarrow> executor_inv mx (x\<lparr>sy_core := c, sy_submits := take i (sy_submits x) @ drop (Suc i) (sy_submits x)\<rparr>)"
proof -
  let ?b = "ec_queued_bytes (sy_core x)"
  have sub: "sum_list (map holding (take i (sy_submits x) @ drop (Suc i) (sy_submits x))) + submission_bytes w = sum_list (map holding (sy_submits x))"
    using holding_remove [OF i(1)] i(2) by simp
  then have le: "submission_bytes w \<le> bb_outstanding ?b" "bb_outstanding ?b \<le> u64_max"
    using inv mx by (auto simp: executor_inv_def books_def)
  note rel = budget_release_ok [OF le, of True]
  show "out \<noteq> Panic" using acc by (auto simp: submit_enqueue_def Let_def rel split: option.splits if_splits)
  assume "out = Done (False, c)"
  then have c: "c = (sy_core x)\<lparr>ec_queued_bytes := ?b\<lparr>bb_outstanding := bb_outstanding ?b - submission_bytes w\<rparr>\<rparr>"
    using acc by (auto simp: submit_enqueue_def Let_def rel split: option.splits if_splits)
  show "executor_inv mx (x\<lparr>sy_core := c, sy_submits := take i (sy_submits x) @ drop (Suc i) (sy_submits x)\<rparr>)"
    by (rule inv_cong [OF inv]) (use inv sub c in \<open>auto simp: executor_inv_def books_def open_items_def\<close>)
qed

lemma step_submit_admit:
  assumes inv: "executor_inv mx x" and i: "i < length (sy_submits x)" "sy_submits x ! i = SubmitWaiting sid w"
    and adm: "budget_poll (submission_bytes w) (ec_queued_bytes (sy_core x)) = (True, b)"
  shows "executor_inv mx (x\<lparr>sy_core := (sy_core x)\<lparr>ec_queued_bytes := b\<rparr>, sy_submits := (sy_submits x)[i := SubmitHolding sid w]\<rparr>)"
proof -
  have "bb_outstanding (ec_queued_bytes (sy_core x)) \<le> bb_max (ec_queued_bytes (sy_core x))"
    using inv by (simp add: executor_inv_def books_def)
  note b = budget_poll_cases [OF adm this]
  have sub: "sum_list (map holding ((sy_submits x)[i := SubmitHolding sid w])) = sum_list (map holding (sy_submits x)) + submission_bytes w"
    using holding_update [OF i(1), of "SubmitHolding sid w"] i(2) by simp
  show ?thesis by (rule inv_cong [OF inv]) (use inv b sub in \<open>auto simp: executor_inv_def books_def open_items_def\<close>)
qed

lemma step_take_work:
  assumes inv: "executor_inv mx x" and k: "k < length (sy_writers x)" "sy_writers x ! k = Taking"
    and work: "take_next (sy_core x) = Work sid cap item c"
  shows "executor_inv mx (x\<lparr>sy_core := c, sy_writers := (sy_writers x)[k := Executing sid cap item]\<rparr>)"
proof -
  let ?st = "ec_state (sy_core x)"
  obtain st where st: "take_scan ?st = Some (sid, cap, item, st)" "c = (sy_core x)\<lparr>ec_state := st\<rparr>"
    using work by (auto simp: take_next_def split: option.splits prod.splits if_splits)
  obtain a s b i where f: "es_sessions ?st = a @ s # b" "se_id s = sid" "se_queue s = item # tl (se_queue s)"
      "es_sessions st = a @ s\<lparr>se_queue := tl (se_queue s), se_executing := se_executing s + 1\<rparr> # b"
      "es_next_session_id st = es_next_session_id ?st"
    using find_scan [OF st(1)] by metis
  obtain us vs where w: "sy_writers x = us @ Taking # vs" "\<And>v. (sy_writers x)[k := v] = us @ v # vs"
    using list_split [OF k(1)] k(2) by metis
  have ok: "sessions_ok (es_next_session_id ?st) (a @ s\<lparr>se_queue := tl (se_queue s), se_executing := se_executing s + 1\<rparr> # b) (us @ Executing sid cap item # vs)"
    by (rule sessions_shift [of _ a s b us Taking vs]) (use inv f w in \<open>simp_all add: executor_inv_def\<close>)
  have "mset (map (Pair (se_id s)) (se_queue s)) = add_mset (sid, item) (mset (map (Pair sid) (tl (se_queue s))))"
    by (subst f(3)) (simp add: f(2))
  then have it: "open_items (x\<lparr>sy_core := c, sy_writers := us @ Executing sid cap item # vs\<rparr>) = open_items x"
    by (simp add: open_items_def items_def st(2) f(1,4) w(1) f(2))
  have "executor_inv mx (x\<lparr>sy_core := c, sy_writers := us @ Executing sid cap item # vs\<rparr>)"
    by (rule inv_cong [OF inv]) (use inv it ok st(2) f in \<open>auto simp: executor_inv_def books_def\<close>)
  then show ?thesis using w(2) by simp
qed

lemma step_delivered:
  assumes inv: "executor_inv mx x" and mx: "mx \<le> u64_max" and k: "k < length (sy_writers x)" "sy_writers x ! k = Delivering sid item out"
  shows "\<exists>c. deliver item out (sy_core x) = Done c \<and> executor_inv mx (x\<lparr>sy_core := c, sy_writers := (sy_writers x)[k := Settling sid]\<rparr>)"
proof -
  obtain us vs where w: "sy_writers x = us @ Delivering sid item out # vs" "\<And>v. (sy_writers x)[k := v] = us @ v # vs"
    using list_split [OF k(1)] k(2) by metis
  let ?M = "items (es_sessions (ec_state (sy_core x))) (us @ Settling sid # vs) (sy_dropped x)"
  have it: "open_items x = add_mset (sid, item) ?M" by (simp add: open_items_def items_def w(1))
  then have "books mx (add_mset (sid, item) ?M) (sum_list (map holding (sy_submits x))) (sy_core x) (sy_accepted x)"
    using inv by (simp add: executor_inv_def)
  from books_release [OF this mx, of out] obtain c where c: "deliver item out (sy_core x) = Done c"
      "books mx ?M (sum_list (map holding (sy_submits x))) c (sy_accepted x)" "ec_state c = ec_state (sy_core x)" by blast
  have ok: "sessions_ok (es_next_session_id (ec_state (sy_core x))) (es_sessions (ec_state (sy_core x))) (us @ Settling sid # vs)"
    using inv w(1) by (simp add: executor_inv_def sessions_ok_def)
  have "executor_inv mx (x\<lparr>sy_core := c, sy_writers := us @ Settling sid # vs\<rparr>)"
    by (rule inv_cong [OF inv]) (use c ok in \<open>simp_all add: open_items_def\<close>)
  then show ?thesis using c(1) w(2) by simp
qed

lemma step_settled:
  assumes inv: "executor_inv mx x" and k: "k < length (sy_writers x)" "sy_writers x ! k = Settling sid"
  shows "\<exists>n c. settle_session sid (sy_core x) = Done (n, c) \<and> executor_inv mx (x\<lparr>sy_core := c, sy_writers := (sy_writers x)[k := Taking]\<rparr>)"
proof -
  let ?st = "ec_state (sy_core x)"
  obtain us vs where w: "sy_writers x = us @ Settling sid # vs" "\<And>v. (sy_writers x)[k := v] = us @ v # vs"
    using list_split [OF k(1)] k(2) by metis
  have "sid \<in> se_id ` set (es_sessions ?st)" using inv w(1) by (auto simp: executor_inv_def sessions_ok_def)
  then obtain s where s: "find (\<lambda>s. se_id s = sid) (es_sessions ?st) = Some s"
    by (cases "find (\<lambda>s. se_id s = sid) (es_sessions ?st)") (auto simp: find_None_iff)
  obtain a b where ab: "es_sessions ?st = a @ s # b" "se_id s = sid" "\<forall>z\<in>set a. se_id z \<noteq> sid"
      "\<And>f. update_first (\<lambda>s. se_id s = sid) f (es_sessions ?st) = a @ f s # b" by (rule find_split [OF s]) blast
  have pos: "se_executing s \<noteq> 0" using inv w(1) ab(1,2) by (auto simp: executor_inv_def sessions_ok_def)
  let ?s = "s\<lparr>se_executing := se_executing s - 1\<rparr>"
  have ok: "sessions_ok (es_next_session_id ?st) (a @ ?s # b) (us @ Taking # vs)"
    by (rule sessions_shift [of _ a s b us "Settling sid" vs]) (use inv ab w pos in \<open>simp_all add: executor_inv_def\<close>)
  have it: "items (a @ ?s # b) (us @ Taking # vs) (sy_dropped x) = open_items x"
    by (simp add: open_items_def items_def w(1) ab(1))
  have "settle_session sid (sy_core x) = Done (ec_closed (sy_core x), (sy_core x)\<lparr>ec_state := ?st\<lparr>es_sessions := a @ ?s # b\<rparr>\<rparr>)"
    using pos ab(4) by (simp add: settle_session_def s)
  moreover have "executor_inv mx (x\<lparr>sy_core := (sy_core x)\<lparr>ec_state := ?st\<lparr>es_sessions := a @ ?s # b\<rparr>\<rparr>, sy_writers := us @ Taking # vs\<rparr>)"
    by (rule inv_cong [OF inv]) (use inv ok it ab(1) in \<open>auto simp: executor_inv_def books_def open_items_def\<close>)
  ultimately show ?thesis using w(2) by simp
qed

lemma step_detach:
  assumes inv: "executor_inv mx x" and mx: "mx \<le> u64_max"
  shows "\<exists>c. detach_begin sid disposition (sy_core x) = Done c \<and> executor_inv mx (x\<lparr>sy_core := c\<rparr>)"
proof (cases "find (\<lambda>s. se_id s = sid) (es_sessions (ec_state (sy_core x)))")
  case (Some s)
  let ?st = "ec_state (sy_core x)" and ?q = "if disposition = Discard then [] else se_queue s" and ?d = "if disposition = Discard then se_queue s else []"
  obtain a b where ab: "es_sessions ?st = a @ s # b" "se_id s = sid" "\<forall>z\<in>set a. se_id z \<noteq> sid"
      "\<And>f. update_first (\<lambda>s. se_id s = sid) f (es_sessions ?st) = a @ f s # b" by (rule find_split [OF Some]) blast
  let ?s = "s\<lparr>se_closed := True, se_detached := True, se_queue := ?q\<rparr>"
  let ?c = "(sy_core x)\<lparr>ec_state := ?st\<lparr>es_sessions := a @ ?s # b\<rparr>\<rparr>"
  let ?M = "items (a @ ?s # b) (sy_writers x) (sy_dropped x)"
  have it: "open_items x = mset (map (Pair sid) ?d) + ?M"
    using ab(1,2) by (simp add: open_items_def items_def)
  have "books mx (mset (map (Pair sid) ?d) + ?M) (sum_list (map holding (sy_submits x))) ?c (sy_accepted x)"
    using inv unfolding executor_inv_def it by (simp add: books_def)
  from books_discard [OF this mx] obtain c where c: "discard_all ?d ?c = Done c"
      "books mx ?M (sum_list (map holding (sy_submits x))) c (sy_accepted x)" "ec_state c = ec_state ?c" by blast
  have ok: "sessions_ok (es_next_session_id ?st) (a @ ?s # b) (sy_writers x)"
    by (rule sessions_replace [of _ a s b]) (use inv ab(1) in \<open>simp_all add: executor_inv_def\<close>)
  have "detach_begin sid disposition (sy_core x) = Done c"
    using c(1) ab(4) by (simp add: detach_begin_def Some Let_def)
  moreover have "executor_inv mx (x\<lparr>sy_core := c\<rparr>)"
    by (rule inv_cong [OF inv]) (use c ok ab(1) in \<open>auto simp: open_items_def\<close>)
  ultimately show ?thesis by blast
qed (use inv in \<open>simp add: detach_begin_def\<close>)

text \<open>The sessions with another identity are all that remains when a settled session leaves.\<close>

lemma step_leave:
  assumes inv: "executor_inv mx x" and settled: "detach_settled sid (sy_core x)" and sid: "sid < es_next_session_id (ec_state (sy_core x))"
  shows "executor_inv mx (x\<lparr>sy_core := detach_leave sid (sy_core x), sy_detached := sid # sy_detached x\<rparr>)"
proof -
  let ?st = "ec_state (sy_core x)" and ?ss = "es_sessions (ec_state (sy_core x))"
  let ?rest = "filter (\<lambda>s. se_id s \<noteq> sid) ?ss"
  have ok: "sessions_ok (es_next_session_id ?st) ?ss (sy_writers x)" using inv by (simp add: executor_inv_def)
  have none: "se_queue s = [] \<and> se_executing s = 0" if "s \<in> set ?ss" "se_id s = sid" for s
  proof (cases "find (\<lambda>s. se_id s = sid) ?ss")
    case None
    then show ?thesis using that by (auto simp: find_None_iff)
  next
    case (Some t)
    then have "t \<in> set ?ss" "se_id t = sid" by (auto simp: find_Some_iff)
    then have "t = s" using that ok by (auto simp: sessions_ok_def distinct_map inj_on_def)
    then show ?thesis using Some settled by (simp add: detach_settled_def)
  qed
  have queued: "queued_items (filter (\<lambda>s. se_id s \<noteq> sid) ss) = queued_items ss" if "\<forall>s\<in>set ss. se_id s = sid \<longrightarrow> se_queue s = []" for ss
    using that by (induction ss) auto
  have idle: "\<not> on_session sid pc" if "pc \<in> set (sy_writers x)" for pc
  proof
    assume on: "on_session sid pc"
    then have "sid \<in> se_id ` set ?ss" using ok that unfolding sessions_ok_def by blast
    then obtain s where "s \<in> set ?ss" "se_id s = sid" by auto
    then have "length (filter (on_session sid) (sy_writers x)) = 0" using none ok by (auto simp: sessions_ok_def)
    then show False using that on by (simp add: filter_empty_conv)
  qed
  have ok': "sessions_ok (es_next_session_id ?st) ?rest (sy_writers x)"
    using ok idle by (fastforce simp: sessions_ok_def distinct_map_filter)
  have it: "items ?rest (sy_writers x) (sy_dropped x) = open_items x"
    using queued [of ?ss] none by (auto simp: items_def open_items_def)
  show ?thesis using inv ok' it sid by (auto simp: executor_inv_def detach_leave_def open_items_def books_def)
qed

lemma step_attach:
  assumes inv: "executor_inv mx x" and new: "es_next_session_id (ec_state (sy_core x)) < u64_max" and att: "attach_session job cap (sy_core x) = (sid, c)"
  shows "executor_inv mx (x\<lparr>sy_core := c\<rparr>)"
proof -
  let ?st = "ec_state (sy_core x)" and ?n = "es_next_session_id (ec_state (sy_core x))"
  let ?s = "\<lparr>se_id = ?n, se_job = job, se_capability = cap, se_closed = False, se_detached = False, se_queue = [], se_executing = 0\<rparr>"
  have c: "c = (sy_core x)\<lparr>ec_state := ?st\<lparr>es_next_session_id := ?n + 1, es_sessions := es_sessions ?st @ [?s]\<rparr>\<rparr>"
    using att new by (auto simp: attach_session_def Let_def u64_exact)
  have ok: "sessions_ok ?n (es_sessions ?st) (sy_writers x)" using inv by (simp add: executor_inv_def)
  then have "\<not> on_session ?n pc" if "pc \<in> set (sy_writers x)" for pc
    using that unfolding sessions_ok_def by fastforce
  then have "sessions_ok (?n + 1) (es_sessions ?st @ [?s]) (sy_writers x)"
    using ok by (fastforce simp: sessions_ok_def filter_empty_conv)
  then show ?thesis using inv new c by (auto simp: executor_inv_def open_items_def items_def books_def)
qed

lemma step_settled_wake:
  assumes inv: "executor_inv mx x" and k: "k < length (sy_writers x)" "sy_writers x ! k = Settling sid"
    and s: "settle_session sid (sy_core x) = Done (n, c)"
  shows "executor_inv mx (x\<lparr>sy_core := c, sy_writers := (if n then map wake ((sy_writers x)[k := Taking]) else (sy_writers x)[k := Taking])\<rparr>)"
proof -
  have *: "executor_inv mx (x\<lparr>sy_core := c, sy_writers := (sy_writers x)[k := Taking]\<rparr>)" using step_settled [OF inv k] s by auto
  have "map writer_view (map wake ((sy_writers x)[k := Taking])) = map writer_view ((sy_writers x)[k := Taking])"
    by (simp add: writer_view_wake comp_def)
  from inv_frame [OF *, of "map wake ((sy_writers x)[k := Taking])" "sy_submits x" "sy_shutdown x"] this
  show ?thesis using * by simp
qed

lemma step_joined:
  assumes inv: "executor_inv mx x" and sd: "sy_shutdown x = Joining" "\<forall>pc\<in>set (sy_writers x). pc = Exited"
  shows "executor_inv mx (x\<lparr>sy_core := shutdown_clear (sy_core x), sy_shutdown := ShutDown,
      sy_dropped := queued_items (es_sessions (ec_state (sy_core x)))\<rparr>)"
proof -
  have "sy_dropped x = []" using inv sd(1) by (auto simp: executor_inv_def)
  moreover have "\<not> on_session sid pc" if "pc \<in> set (sy_writers x)" for sid pc using sd(2) that by fastforce
  ultimately show ?thesis using inv by (auto simp: executor_inv_def shutdown_clear_def open_items_def items_def books_def sessions_ok_def)
qed

lemma executor_step_ok:
  assumes inv: "executor_inv mx x" and mx: "mx \<le> u64_max" and step: "executor_step x out"
  shows "\<exists>y. out = Done y \<and> executor_inv mx y"
  using step
proof cases
  case (attach job cap sid c)
  then show ?thesis using step_attach [OF inv] by blast
next
  case (submit w sid)
  then show ?thesis using inv_frame [OF inv, of "sy_writers x" "sy_submits x @ [SubmitWaiting sid w]" "sy_shutdown x"] by simp
next
  case (submit_cancel i sid w)
  then show ?thesis using inv_frame [OF inv, of "sy_writers x" "take i (sy_submits x) @ drop (Suc i) (sy_submits x)" "sy_shutdown x"]
      holding_remove [of i "sy_submits x"] by simp
next
  case (submit_admit i sid w b)
  then show ?thesis using step_submit_admit [OF inv] by blast
next
  case (submit_accept i sid w c)
  then show ?thesis using step_submit_accept [OF inv] by blast
next
  case (submit_refuse i sid w c)
  then show ?thesis using step_submit_refuse(2) [OF inv mx] by blast
next
  case (submit_panic i sid w)
  then show ?thesis using step_submit_refuse(1) [OF inv mx] by blast
next
  case (notify_one i k ws)
  have "map writer_view ws = map writer_view (sy_writers x)"
    using notify_one(4) view_update [of k "sy_writers x" Taking] by (simp add: writer_view_def split: if_splits)
  then show ?thesis using inv_frame [OF inv, of ws "take i (sy_submits x) @ drop (Suc i) (sy_submits x)" "sy_shutdown x"]
      holding_remove [of i "sy_submits x"] notify_one by simp
next
  case (take_work k sid cap item c)
  then show ?thesis using step_take_work [OF inv] by blast
next
  case (take_exit k)
  then show ?thesis using inv_frame [OF inv view_update, of k Exited "sy_submits x" "sy_shutdown x"] by (simp add: writer_view_def)
next
  case (take_none k)
  then show ?thesis using inv_frame [OF inv view_update, of k Parking "sy_submits x" "sy_shutdown x"] by (simp add: writer_view_def)
next
  case (park k)
  then show ?thesis using inv_frame [OF inv view_update, of k Parked "sy_submits x" "sy_shutdown x"] by (simp add: writer_view_def)
next
  case (spurious k)
  then show ?thesis using inv_frame [OF inv view_update, of k Taking "sy_submits x" "sy_shutdown x"] by (simp add: writer_view_def)
next
  case (executed k sid cap item answer)
  then show ?thesis using inv_frame [OF inv view_update, of k "Delivering sid item (execute_write answer)" "sy_submits x" "sy_shutdown x"]
    by (simp add: writer_view_def)
next
  case (delivered k sid item out c)
  then show ?thesis using step_delivered [OF inv mx, of k sid item out] by auto
next
  case (deliver_panic k sid item out)
  then show ?thesis using step_delivered [OF inv mx, of k sid item out] by auto
next
  case (settled k sid n c)
  then show ?thesis using step_settled_wake [OF inv] by blast
next
  case (settle_panic k sid)
  then show ?thesis using step_settled [OF inv, of k sid] by auto
next
  case (detach sid disposition c)
  then show ?thesis using step_detach [OF inv mx, of sid disposition] by auto
next
  case (detach_panic sid disposition)
  then show ?thesis using step_detach [OF inv mx, of sid disposition] by auto
next
  case (leave sid)
  then show ?thesis using step_leave [OF inv] by blast
next
  case close
  then show ?thesis using inv by (auto simp: executor_inv_def open_items_def books_def shutdown_close_def)
next
  case close_notify
  then show ?thesis using inv_frame [OF inv, of "map wake (sy_writers x)" "sy_submits x" Joining] by (simp add: writer_view_wake comp_def)
next
  case joined
  then show ?thesis using step_joined [OF inv] by blast
qed

lemma executor_reach_inv:
  assumes "executor_reach threads mx x" "mx \<le> u64_max"
  shows "executor_inv mx x"
  using assms(1)
proof induction
  case start
  have "writer_items Taking = []" "\<And>sid. \<not> on_session sid Taking" by simp_all
  then have "concat (map writer_items (replicate n Taking)) = []" for n by (induction n) simp_all
  then show ?case using assms(2) by (auto simp: executor_inv_def system_start_def executor_new_def open_items_def items_def books_def
        sessions_ok_def budget_new_def)
next
  case (step x y)
  then show ?case using executor_step_ok [OF step.IH assms(2)] by blast
qed

text \<open>
  Claim C34: in every interleaving of submitters, writer threads, detaching sessions and the shutdown, no
  step of the executor panics; the writes it accepted are, as a multiset, those with a completion and those
  that are queued, executing or were dropped by the shutdown, so that none is completed twice; the byte
  bound is exactly the sum of the open writes and of the submissions being admitted, and never exceeded; and
  nothing is dropped before the shutdown ends.
\<close>

theorem executor_exact:
  assumes "executor_reach threads mx x" "mx \<le> u64_max"
  shows "\<not> executor_step x Panic
    \<and> mset (map write_tag (sy_accepted x)) = image_mset item_tag (open_items x) + mset (map completion_tag (ec_streams (sy_core x)))
    \<and> bb_outstanding (ec_queued_bytes (sy_core x)) = (\<Sum>i\<in>#open_items x. submission_bytes (qw_submission (snd i))) + sum_list (map holding (sy_submits x))
    \<and> bb_outstanding (ec_queued_bytes (sy_core x)) \<le> mx
    \<and> (sy_shutdown x = ShutDown \<or> sy_dropped x = [])"
proof -
  have inv: "executor_inv mx x" by (rule executor_reach_inv [OF assms])
  have "(\<Sum>i\<in>#open_items x. submission_bytes (qw_submission (snd i))) = (\<Sum>i\<in>#open_items x. qw_bytes (snd i))"
    using inv by (intro arg_cong [where f = sum_mset] image_mset_cong) (auto simp: executor_inv_def books_def item_ok_def)
  then show ?thesis using inv executor_step_ok [OF inv assms(2), of Panic] by (auto simp: executor_inv_def books_def)
qed

lemma held_on_session: "i \<in> set (writer_items pc) \<Longrightarrow> on_session (fst i) pc"
  by (cases pc) auto

definition accepted_on :: "u64 \<Rightarrow> executor_system \<Rightarrow> (u64 \<times> u64 \<times> u64 \<times> u64 \<times> nat) multiset" where
  "accepted_on sid x = mset (map write_tag (filter (\<lambda>a. fst a = sid) (sy_accepted x)))"

definition completed_on :: "u64 \<Rightarrow> executor_system \<Rightarrow> (u64 \<times> u64 \<times> u64 \<times> u64 \<times> nat) multiset" where
  "completed_on sid x = mset (map completion_tag (filter (\<lambda>c. fst c = sid) (ec_streams (sy_core x))))"

definition dropped_on :: "u64 \<Rightarrow> executor_system \<Rightarrow> (u64 \<times> u64 \<times> u64 \<times> u64 \<times> nat) multiset" where
  "dropped_on sid x = mset (map item_tag (filter (\<lambda>i. fst i = sid) (sy_dropped x)))"

lemma detached_split:
  assumes inv: "executor_inv mx x" and sid: "sid \<in> set (sy_detached x)"
  shows "accepted_on sid x = completed_on sid x + dropped_on sid x"
proof -
  have gone: "sid \<notin> se_id ` set (es_sessions (ec_state (sy_core x)))"
    and ok: "sessions_ok (es_next_session_id (ec_state (sy_core x))) (es_sessions (ec_state (sy_core x))) (sy_writers x)"
    using inv sid by (auto simp: executor_inv_def)
  have "fst i \<noteq> sid" if i: "i \<in> set (queued_items (es_sessions (ec_state (sy_core x)))) \<union> set (concat (map writer_items (sy_writers x)))" for i
  proof (cases "i \<in> set (queued_items (es_sessions (ec_state (sy_core x))))")
    case True
    then show ?thesis using gone by (auto simp: queued_items_def)
  next
    case False
    then obtain pc where pc: "pc \<in> set (sy_writers x)" "i \<in> set (writer_items pc)" using i by auto
    then have "on_session (fst i) pc" using held_on_session by blast
    then have "fst i \<in> se_id ` set (es_sessions (ec_state (sy_core x)))" using ok pc(1) unfolding sessions_ok_def by blast
    then show ?thesis using gone by auto
  qed
  then have "[i \<leftarrow> queued_items (es_sessions (ec_state (sy_core x))). fst i = sid] = []"
    "[i \<leftarrow> concat (map writer_items (sy_writers x)). fst i = sid] = []" by (auto simp: filter_empty_conv)
  then have "filter_mset (\<lambda>i. fst i = sid) (open_items x) = mset (filter (\<lambda>i. fst i = sid) (sy_dropped x))"
    unfolding open_items_def items_def by (simp only: filter_union_mset mset_filter [symmetric] mset.simps add_0)
  moreover have "filter_mset (\<lambda>t. fst t = sid) (image_mset item_tag (open_items x)) = image_mset item_tag (filter_mset (\<lambda>i. fst i = sid) (open_items x))"
    by (simp add: filter_mset_image_mset item_tag_def write_tag_def)
  ultimately have "filter_mset (\<lambda>t. fst t = sid) (image_mset item_tag (open_items x)) = dropped_on sid x"
    by (simp add: dropped_on_def)
  moreover have "mset (map write_tag (sy_accepted x)) = image_mset item_tag (open_items x) + mset (map completion_tag (ec_streams (sy_core x)))"
    using inv by (simp add: executor_inv_def books_def)
  ultimately have "filter_mset (\<lambda>t. fst t = sid) (mset (map write_tag (sy_accepted x)))
      = dropped_on sid x + filter_mset (\<lambda>t. fst t = sid) (mset (map completion_tag (ec_streams (sy_core x))))" by simp
  then show ?thesis
    unfolding mset_filter [symmetric] filter_map comp_def
    by (simp add: accepted_on_def completed_on_def write_tag_def completion_tag_def add.commute)
qed

lemma dropped_kept:
  assumes inv: "executor_inv mx x" and sid: "sid \<in> set (sy_detached x)" "dropped_on sid x = {#}" and step: "executor_step x (Done y)"
  shows "sid \<in> set (sy_detached y) \<and> dropped_on sid y = {#}"
  using step
proof cases
  case joined
  have "sid \<notin> se_id ` set (es_sessions (ec_state (sy_core x)))" using inv sid by (auto simp: executor_inv_def)
  then show ?thesis using joined sid by (auto simp: dropped_on_def queued_items_def)
qed (use sid in \<open>simp_all add: dropped_on_def\<close>)

abbreviation executor_later :: "executor_system \<Rightarrow> executor_system \<Rightarrow> bool" where
  "executor_later \<equiv> (\<lambda>x y. executor_step x (Done y))\<^sup>*\<^sup>*"

lemma later_exact:
  assumes "executor_inv mx x" "mx \<le> u64_max" "sid \<in> set (sy_detached x)" "dropped_on sid x = {#}" "executor_later x y"
  shows "executor_inv mx y \<and> sid \<in> set (sy_detached y) \<and> dropped_on sid y = {#}"
  using assms(5)
proof induction
  case base
  then show ?case using assms by simp
next
  case (step y z)
  then show ?case using executor_step_ok [of mx y] dropped_kept [of mx y sid z] assms(2) by blast
qed

text \<open>
  Claim C35: the writes of a detached session are settled. In every state in which \<open>detach\<close> has returned for a
  session, each write that the session accepted has exactly one completion on its stream (completed, failed or
  discarded), except for those that the end of a shutdown dropped from its queue without one. When \<open>detach\<close> returns
  before the shutdown ends there is no exception, then and in every later state, the shutdown included.
\<close>

theorem detached_session_settled:
  assumes "executor_reach threads mx x" "mx \<le> u64_max" "sid \<in> set (sy_detached x)"
  shows "accepted_on sid x = completed_on sid x + dropped_on sid x
    \<and> (sy_shutdown x \<noteq> ShutDown \<longrightarrow> (\<forall>y. executor_later x y \<longrightarrow> accepted_on sid y = completed_on sid y))"
proof (intro conjI impI allI)
  have inv: "executor_inv mx x" by (rule executor_reach_inv [OF assms(1,2)])
  show "accepted_on sid x = completed_on sid x + dropped_on sid x" by (rule detached_split [OF inv assms(3)])
  fix y assume "sy_shutdown x \<noteq> ShutDown" and y: "executor_later x y"
  then have "dropped_on sid x = {#}" using inv by (auto simp: executor_inv_def dropped_on_def)
  from later_exact [OF inv assms(2,3) this y] show "accepted_on sid y = completed_on sid y"
    using detached_split [of mx y sid] by simp
qed

section \<open>No queued write is forgotten\<close>

definition busy :: "writer_pc \<Rightarrow> bool" where
  "busy pc \<longleftrightarrow> pc \<noteq> Parked \<and> pc \<noteq> Parking \<and> pc \<noteq> Exited"

definition idle_queues :: "executor_core \<Rightarrow> bool" where
  "idle_queues core \<longleftrightarrow> (\<forall>s\<in>set (es_sessions (ec_state core)). se_queue s = [])"

definition wake_inv :: "executor_system \<Rightarrow> bool" where
  "wake_inv x \<longleftrightarrow> ec_closed (sy_core x)
     \<or> sy_shutdown x = Running \<and> Exited \<notin> set (sy_writers x) \<and> sy_writers x \<noteq> []
       \<and> (Parking \<in> set (sy_writers x) \<longrightarrow> idle_queues (sy_core x))
       \<and> (idle_queues (sy_core x) \<or> (\<exists>pc\<in>set (sy_writers x). busy pc) \<or> SubmitNotifying \<in> set (sy_submits x))"

lemma scan_order_set: "set (scan_order cursor n) = {..<n}"
proof -
  have "(\<lambda>k. (cursor mod n + k) mod n) ` {0..<n} = {..<n}" if n: "0 < n"
  proof (intro equalityI subsetI)
    fix j assume j: "j \<in> {..<n}"
    have "(cursor mod n + (j + n - cursor mod n) mod n) mod n = j"
    proof -
      have "(cursor mod n + (j + n - cursor mod n) mod n) mod n = (cursor mod n + (j + n - cursor mod n)) mod n"
        by (rule mod_add_right_eq)
      also have "\<dots> = (j + n) mod n" using mod_less_divisor [OF n, of cursor] by simp
      finally show ?thesis using j by simp
    qed
    then show "j \<in> (\<lambda>k. (cursor mod n + k) mod n) ` {0..<n}" using n by (metis atLeastLessThan_iff image_eqI mod_less_divisor zero_le)
  qed (use n in auto)
  then show ?thesis by (cases "n = 0") (simp_all add: scan_order_def)
qed

lemma no_work_idle: "take_next core = NoWork \<Longrightarrow> idle_queues core"
proof -
  assume "take_next core = NoWork"
  then have "take_scan (ec_state core) = None" by (auto simp: take_next_def split: option.splits)
  then have "\<forall>i<length (es_sessions (ec_state core)). se_queue (es_sessions (ec_state core) ! i) = []"
    by (auto simp: take_scan_def Let_def find_None_iff scan_order_set split: option.splits)
  then show ?thesis by (auto simp: idle_queues_def in_set_conv_nth)
qed

lemma discard_state: "discard_all q core = Done c \<Longrightarrow> ec_state c = ec_state core \<and> ec_closed c = ec_closed core"
  by (induction q arbitrary: core) (fastforce simp: deliver_def split: outcome.splits)+

lemma update_first_set: "\<forall>z\<in>set xs. P z \<longrightarrow> P (f z) \<Longrightarrow> \<forall>z\<in>set xs. P z \<Longrightarrow> \<forall>z\<in>set (update_first p f xs). P z"
  by (induction xs) auto

lemma detach_idle:
  assumes "detach_begin sid d core = Done c"
  shows "ec_closed c = ec_closed core \<and> (idle_queues core \<longrightarrow> idle_queues c)"
proof (cases "find (\<lambda>s. se_id s = sid) (es_sessions (ec_state core))")
  case (Some s)
  define f :: "session_entry \<Rightarrow> session_entry" where "f = (\<lambda>e. e\<lparr>se_closed := True, se_detached := True, se_queue := (if d = Discard then [] else se_queue s)\<rparr>)"
  have "se_queue s = []" if "idle_queues core" using that Some by (auto simp: idle_queues_def find_Some_iff)
  then have "\<forall>z\<in>set (update_first (\<lambda>s. se_id s = sid) f (es_sessions (ec_state core))). se_queue z = []" if "idle_queues core"
    using that by (intro update_first_set) (auto simp: f_def idle_queues_def)
  moreover have "ec_closed c = ec_closed core" "es_sessions (ec_state c) = update_first (\<lambda>s. se_id s = sid) f (es_sessions (ec_state core))"
    using assms Some discard_state by (auto simp: detach_begin_def Let_def f_def dest!: discard_state)
  ultimately show ?thesis by (simp add: idle_queues_def)
qed (use assms in \<open>simp add: detach_begin_def\<close>)

lemma remove_notifying:
  "i < length ss \<Longrightarrow> ss ! i \<noteq> SubmitNotifying \<Longrightarrow> SubmitNotifying \<in> set (take i ss @ drop (Suc i) ss) \<longleftrightarrow> SubmitNotifying \<in> set ss"
  "i < length ss \<Longrightarrow> ss ! i \<noteq> SubmitNotifying \<Longrightarrow> v \<noteq> SubmitNotifying \<Longrightarrow> SubmitNotifying \<in> set (ss[i := v]) \<longleftrightarrow> SubmitNotifying \<in> set ss"
  by (metis Un_iff id_take_nth_drop list.set_intros(1) set_ConsD set_append list.set_intros(2),
      metis Un_iff id_take_nth_drop upd_conv_take_nth_drop set_ConsD set_append list.set_intros(2))

lemma busy_writer: "k < length ws \<Longrightarrow> busy pc \<Longrightarrow> \<exists>pc\<in>set (ws[k := pc]). busy pc"
  by (meson set_update_memI)

lemma update_set: "pc \<in> set (ws[k := v]) \<Longrightarrow> pc = v \<or> pc \<in> set ws"
  using set_update_subset_insert by fast

lemma wake_facts:
  "busy Taking" "busy (Executing sid cap item)" "busy (Delivering sid item out)" "busy (Settling sid)"
  "wake pc = Parking \<longleftrightarrow> pc = Parking" "wake pc = Exited \<longleftrightarrow> pc = Exited" "busy pc \<Longrightarrow> wake pc = pc"
  by (auto simp: busy_def wake_def)

lemma wake_step:
  assumes inv: "wake_inv x" and step: "executor_step x (Done y)" and op: "\<not> ec_closed (sy_core y)"
  shows "wake_inv y"
  using step
proof cases
  case (attach job cap sid c)
  then show ?thesis using inv op by (auto simp: wake_inv_def attach_session_def Let_def idle_queues_def)
next
  case (submit w sid)
  then show ?thesis using inv op by (auto simp: wake_inv_def)
next
  case (submit_cancel i sid w)
  then show ?thesis using inv op remove_notifying(1) [of i "sy_submits x"] by (auto simp: wake_inv_def)
next
  case (submit_admit i sid w b)
  then show ?thesis using inv op remove_notifying(2) [of i "sy_submits x" "SubmitHolding sid w"] by (auto simp: wake_inv_def idle_queues_def)
next
  case (submit_accept i sid w c)
  then have "SubmitNotifying \<in> set (sy_submits y)" by (simp add: set_update_memI)
  moreover have "ec_closed c = ec_closed (sy_core x)"
    using submit_accept by (auto simp: submit_enqueue_def Let_def split: option.splits if_splits outcome.splits)
  ultimately show ?thesis using submit_accept inv op by (auto simp: wake_inv_def unlocked_def)
next
  case (submit_refuse i sid w c)
  then have "ec_closed c = ec_closed (sy_core x)" "ec_state c = ec_state (sy_core x)"
    by (auto simp: submit_enqueue_def Let_def split: option.splits if_splits outcome.splits)
  then show ?thesis using submit_refuse inv op remove_notifying(1) [of i "sy_submits x"] by (auto simp: wake_inv_def idle_queues_def)
next
  case (notify_one i k ws)
  show ?thesis
  proof (cases "Parked \<in> set (sy_writers x)")
    case True
    then have "\<exists>pc\<in>set ws. busy pc" "Exited \<notin> set ws" "Parking \<in> set ws \<longrightarrow> idle_queues (sy_core x)" "ws \<noteq> []"
      using notify_one inv op busy_writer [of k "sy_writers x" Taking] by (auto simp: wake_facts wake_inv_def dest: update_set)
    then show ?thesis using notify_one inv op by (simp add: wake_inv_def)
  next
    case False
    have "idle_queues (sy_core x) \<or> (\<exists>pc\<in>set (sy_writers x). busy pc)"
    proof (cases "Parking \<in> set (sy_writers x)")
      case False
      obtain pc ps where "sy_writers x = pc # ps" using inv op notify_one by (cases "sy_writers x") (auto simp: wake_inv_def)
      then show ?thesis using False \<open>Parked \<notin> set (sy_writers x)\<close> inv op notify_one by (auto simp: wake_inv_def busy_def)
    qed (use inv op notify_one in \<open>auto simp: wake_inv_def\<close>)
    then show ?thesis using False notify_one inv op by (auto simp: wake_inv_def)
  qed
next
  case (take_work k sid cap item c)
  then have "ec_closed c = ec_closed (sy_core x)" by (auto simp: take_next_def split: option.splits prod.splits if_splits)
  then show ?thesis using take_work inv op busy_writer [of k "sy_writers x" "Executing sid cap item"]
    by (auto simp: wake_inv_def unlocked_def wake_facts dest: update_set)
next
  case (take_exit k)
  then show ?thesis using op by (auto simp: take_next_def split: option.splits prod.splits if_splits)
next
  case (take_none k)
  then show ?thesis using inv op no_work_idle [of "sy_core x"] by (auto simp: wake_inv_def dest: update_set)
next
  case (park k)
  then have "Parking \<in> set (sy_writers x)" by (metis nth_mem)
  then show ?thesis using park inv op by (auto simp: wake_inv_def dest: update_set)
next
  case (spurious k)
  then show ?thesis using inv op busy_writer [of k "sy_writers x" Taking] by (auto simp: wake_inv_def wake_facts dest: update_set)
next
  case (executed k sid cap item answer)
  then show ?thesis using inv op busy_writer [of k "sy_writers x" "Delivering sid item (execute_write answer)"]
    by (auto simp: wake_inv_def wake_facts dest: update_set)
next
  case (delivered k sid item out c)
  then have "ec_closed c = ec_closed (sy_core x)" "ec_state c = ec_state (sy_core x)" by (auto simp: deliver_def split: outcome.splits)
  then show ?thesis using delivered inv op busy_writer [of k "sy_writers x" "Settling sid"]
    by (auto simp: wake_inv_def wake_facts idle_queues_def dest: update_set)
next
  case (settled k sid n c)
  then have c: "ec_closed c = ec_closed (sy_core x)" "n = ec_closed (sy_core x)"
    by (auto simp: settle_session_def split: option.splits if_splits)
  then show ?thesis using settled inv op busy_writer [of k "sy_writers x" Taking]
    by (auto simp: wake_inv_def wake_facts unlocked_def dest: update_set)
next
  case (detach sid d c)
  then show ?thesis using inv op detach_idle [of sid d "sy_core x" c] by (auto simp: wake_inv_def)
next
  case (leave sid)
  then show ?thesis using inv op by (auto simp: wake_inv_def detach_leave_def idle_queues_def)
next
  case close
  then show ?thesis using op by (simp add: shutdown_close_def)
qed (use inv op in \<open>auto simp: wake_inv_def shutdown_clear_def\<close>)

lemma closed_stays: "executor_step x (Done y) \<Longrightarrow> ec_closed (sy_core x) \<Longrightarrow> ec_closed (sy_core y)"
proof (induction x "Done y" rule: executor_step.induct)
  case (submit_accept x i sid w c)
  then show ?case by (auto simp: submit_enqueue_def Let_def split: option.splits if_splits outcome.splits)
next
  case (submit_refuse x i sid w c)
  then show ?case by (auto simp: submit_enqueue_def Let_def split: option.splits if_splits outcome.splits)
next
  case (detach x sid d c)
  then show ?case using detach_idle [of sid d "sy_core x" c] by auto
qed (auto simp: attach_session_def Let_def take_next_def deliver_def settle_session_def detach_leave_def shutdown_close_def shutdown_clear_def
      split: option.splits if_splits outcome.splits prod.splits)

text \<open>
  Claim C36: as long as the executor is open, a queued write always has someone to run it: a writer thread
  that is not parked, or a submission that has yet to notify one.
\<close>

theorem queued_write_has_runner:
  assumes "executor_reach threads mx x" "\<not> ec_closed (sy_core x)" "i \<in> set (queued_items (es_sessions (ec_state (sy_core x))))"
  shows "(\<exists>pc\<in>set (sy_writers x). busy pc) \<or> SubmitNotifying \<in> set (sy_submits x)"
proof -
  have "wake_inv x" using assms(1,2)
  proof induction
    case start
    then show ?case by (auto simp: wake_inv_def system_start_def executor_new_def writer_threads_def idle_queues_def)
  next
    case (step x y)
    then show ?case using wake_step closed_stays by blast
  qed
  moreover have "\<not> idle_queues (sy_core x)" using assms(3) by (force simp: idle_queues_def queued_items_def)
  ultimately show ?thesis using assms(2) by (auto simp: wake_inv_def)
qed

section \<open>Round robin\<close>

text \<open>The sessions served by a number of dispatches with no submission in between.\<close>

fun serve :: "nat \<Rightarrow> executor_state \<Rightarrow> u64 list" where
  "serve 0 st = []"
| "serve (Suc n) st = (case take_scan st of None \<Rightarrow> [] | Some (sid, cap, item, st') \<Rightarrow> sid # serve n st')"

lemma serve_reaches:
  assumes "j < length (es_sessions st)" "se_queue (es_sessions st ! j) \<noteq> []" "m < n"
    "(es_cursor st mod length (es_sessions st) + m) mod length (es_sessions st) = j" "m < length (es_sessions st)"
  shows "se_id (es_sessions st ! j) \<in> set (serve n st)"
  using assms
proof (induction n arbitrary: st m)
  case (Suc n)
  let ?l = "length (es_sessions st)" and ?p = "\<lambda>i. se_queue (es_sessions st ! i) \<noteq> []"
  have nth: "scan_order (es_cursor st) ?l ! k = (es_cursor st mod ?l + k) mod ?l" if "k < ?l" for k using that by (simp add: scan_order_def)
  have "find ?p (scan_order (es_cursor st) ?l) \<noteq> None"
    using Suc.prems(1,2) scan_order_set [of "es_cursor st" ?l] by (auto simp: find_None_iff)
  then obtain i where i: "find ?p (scan_order (es_cursor st) ?l) = Some i" by blast
  then obtain k where k: "k < ?l" "i = (es_cursor st mod ?l + k) mod ?l" "\<forall>k'<k. \<not> ?p ((es_cursor st mod ?l + k') mod ?l)"
    using nth by (auto simp: find_Some_iff scan_order_def)
  have le: "k \<le> m" using k(3) Suc.prems(2,4) by (meson not_le)
  obtain sid cap item st' where t: "take_scan st = Some (sid, cap, item, st')"
    using i by (simp add: take_scan_def Let_def)
  have st': "sid = se_id (es_sessions st ! i)" "es_cursor st' = (i + 1) mod ?l" "length (es_sessions st') = ?l"
      "i \<noteq> j \<Longrightarrow> es_sessions st' ! j = es_sessions st ! j"
    using t i by (auto simp: take_scan_def Let_def)
  show ?case
  proof (cases "i = j")
    case True
    then show ?thesis using t st'(1) by simp
  next
    case False
    then have lt: "k < m" using le k(2) Suc.prems(4) by (cases "k = m") auto
    have c: "es_cursor st' mod ?l = (es_cursor st mod ?l + k + 1) mod ?l" proof -
      have "(i + 1) mod ?l = (es_cursor st mod ?l + k + 1) mod ?l" unfolding k(2) by (rule mod_add_left_eq)
      then show ?thesis using st'(2) by (metis mod_mod_trivial)
    qed
    have "(es_cursor st' mod ?l + (m - k - 1)) mod ?l = (es_cursor st mod ?l + k + 1 + (m - k - 1)) mod ?l"
      unfolding c by (rule mod_add_left_eq)
    also have "\<dots> = j" using lt Suc.prems(4) by simp
    finally have pos: "(es_cursor st' mod ?l + (m - k - 1)) mod ?l = j" .
    have "se_id (es_sessions st' ! j) \<in> set (serve n st')"
      by (rule Suc.IH [of st' "m - k - 1"]) (use Suc.prems lt pos st'(3) st'(4) [OF False] in auto)
    then show ?thesis using t st'(4) [OF False] by simp
  qed
qed simp

text \<open>
  A session with a queued write is served within as many dispatches as there are sessions, however
  long the queues of the others are and wherever the cursor stands.
\<close>

lemma round_robin_fair:
  assumes "s \<in> set (es_sessions st)" "se_queue s \<noteq> []"
  shows "se_id s \<in> set (serve (length (es_sessions st)) st)"
proof -
  let ?l = "length (es_sessions st)"
  obtain j where j: "j < ?l" "es_sessions st ! j = s" using assms(1) by (auto simp: in_set_conv_nth)
  then have "j \<in> set (scan_order (es_cursor st) ?l)" by (simp add: scan_order_set)
  then obtain m where "m < ?l" "(es_cursor st mod ?l + m) mod ?l = j" by (auto simp: scan_order_def)
  then show ?thesis using serve_reaches [of j st m ?l] j assms(2) by simp
qed

section \<open>Runs of one write\<close>

definition demo_write :: write_submission where
  "demo_write = \<lparr>ws_job = 7, ws_lease_id = 1, ws_generation = 1, ws_offset = 10, ws_data = [1, 2, 3]\<rparr>"

definition demo_held :: executor_system where
  "demo_held = (system_start 1 64)\<lparr>sy_core := (snd (attach_session 7 0 (executor_new 64)))\<lparr>ec_queued_bytes := \<lparr>bb_max = 64, bb_outstanding = 3\<rparr>\<rparr>,
     sy_submits := [SubmitHolding 0 demo_write]\<rparr>"

lemma demo_held_reach: "executor_reach 1 64 demo_held"
proof -
  let ?a = "(system_start 1 64)\<lparr>sy_core := snd (attach_session 7 0 (executor_new 64))\<rparr>"
  have "executor_step (system_start 1 64) (Done ?a)"
    by (rule executor_step.attach [of _ 7 0 0])
      (simp_all add: unlocked_def system_start_def executor_new_def writer_threads_def attach_session_def u64_max_def)
  then have a: "executor_reach 1 64 ?a" by (rule executor_reach.step [OF executor_reach.start])
  let ?b = "?a\<lparr>sy_submits := [SubmitWaiting 0 demo_write]\<rparr>"
  have "executor_step ?a (Done (?a\<lparr>sy_submits := sy_submits ?a @ [SubmitWaiting 0 demo_write]\<rparr>))"
    by (rule executor_step.submit) (simp add: submit_check_def attach_session_def Let_def executor_new_def)
  then have b: "executor_reach 1 64 ?b" using executor_reach.step [OF a] by (simp add: system_start_def)
  have "executor_step ?b (Done (?b\<lparr>sy_core := (sy_core ?b)\<lparr>ec_queued_bytes := \<lparr>bb_max = 64, bb_outstanding = 3\<rparr>\<rparr>,
      sy_submits := (sy_submits ?b)[0 := SubmitHolding 0 demo_write]\<rparr>))"
    by (rule executor_step.submit_admit)
      (simp_all add: budget_poll_def try_acquire_def checked_add_def attach_session_def Let_def executor_new_def budget_new_def
        submission_bytes_def demo_write_def u64_max_def)
  from executor_reach.step [OF b this] show ?thesis by (simp add: demo_held_def)
qed

definition demo_queued :: executor_system where
  "demo_queued = demo_held\<lparr>sy_core := (case submit_enqueue 0 demo_write (sy_core demo_held) of Done (_, c) \<Rightarrow> c | Panic \<Rightarrow> sy_core demo_held),
     sy_submits := [SubmitNotifying], sy_accepted := [(0, demo_write)]\<rparr>"

lemmas demo_defs = system_start_def executor_new_def writer_threads_def attach_session_def demo_held_def submission_bytes_def
  demo_write_def u64_max_def u64_add_def budget_new_def

lemma demo_queued_reach: "executor_reach 1 64 demo_queued"
proof -
  obtain c where c: "submit_enqueue 0 demo_write (sy_core demo_held) = Done (True, c)"
    by (simp add: demo_defs submit_enqueue_def Let_def)
  have "executor_step demo_held (Done (demo_held\<lparr>sy_core := c, sy_submits := (sy_submits demo_held)[0 := SubmitNotifying],
      sy_accepted := sy_accepted demo_held @ [(0, demo_write)]\<rparr>))"
    by (rule executor_step.submit_accept) (use c in \<open>simp_all add: unlocked_def demo_defs\<close>)
  from executor_reach.step [OF demo_held_reach this] show ?thesis
    using c by (simp add: demo_queued_def) (simp add: demo_defs)
qed

theorem executor_exact_witness: "bb_outstanding (ec_queued_bytes (sy_core demo_queued)) = 3 \<and> \<not> executor_step demo_queued Panic"
proof -
  have "sum_list (map holding (sy_submits demo_queued)) = 0" by (simp add: demo_queued_def)
  moreover have "image_mset (\<lambda>i. submission_bytes (qw_submission (snd i))) (open_items demo_queued) = {#3#}" by code_simp
  ultimately show ?thesis using executor_exact [OF demo_queued_reach] by (simp add: u64_max_def)
qed

theorem queued_write_has_runner_witness: "busy Taking \<or> SubmitNotifying \<in> set (sy_submits demo_queued)"
proof -
  have w: "sy_writers demo_queued = [Taking]" "\<not> ec_closed (sy_core demo_queued)"
      "map fst (queued_items (es_sessions (ec_state (sy_core demo_queued)))) = [0]" by code_simp+
  then obtain i where "i \<in> set (queued_items (es_sessions (ec_state (sy_core demo_queued))))"
    by (cases "queued_items (es_sessions (ec_state (sy_core demo_queued)))") auto
  from queued_write_has_runner [OF demo_queued_reach w(2) this] show ?thesis by (simp add: w(1))
qed

text \<open>A session that discards its queue and leaves.\<close>

definition demo_detached :: executor_system where
  "demo_detached = (let c = (case detach_begin 0 Discard (sy_core demo_queued) of Done c \<Rightarrow> c | Panic \<Rightarrow> sy_core demo_queued)
     in demo_queued\<lparr>sy_core := detach_leave 0 c, sy_detached := [0]\<rparr>)"

lemma demo_detached_reach: "executor_reach 1 64 demo_detached"
proof -
  let ?c = "case detach_begin 0 Discard (sy_core demo_queued) of Done c \<Rightarrow> c | Panic \<Rightarrow> sy_core demo_queued"
  have "detach_begin 0 Discard (sy_core demo_queued) \<noteq> Panic"
    by (simp add: demo_queued_def demo_defs submit_enqueue_def detach_begin_def Let_def deliver_def budget_release_def)
  then have c: "detach_begin 0 Discard (sy_core demo_queued) = Done ?c" by (auto split: outcome.split)
  have free: "unlocked demo_queued" unfolding unlocked_def by code_simp
  have a: "executor_reach 1 64 (demo_queued\<lparr>sy_core := ?c\<rparr>)"
    by (rule executor_reach.step [OF demo_queued_reach executor_step.detach [OF free c]])
  have "unlocked (demo_queued\<lparr>sy_core := ?c\<rparr>)" using free by (simp add: unlocked_def)
  moreover have "list_all (\<lambda>s. se_id s = 0 \<longrightarrow> se_detached s) (es_sessions (ec_state ?c))" "0 < es_next_session_id (ec_state ?c)" "detach_settled 0 ?c"
    by code_simp+
  ultimately have "executor_step (demo_queued\<lparr>sy_core := ?c\<rparr>) (Done ((demo_queued\<lparr>sy_core := ?c\<rparr>)
      \<lparr>sy_core := detach_leave 0 (sy_core (demo_queued\<lparr>sy_core := ?c\<rparr>)), sy_detached := 0 # sy_detached (demo_queued\<lparr>sy_core := ?c\<rparr>)\<rparr>))"
    by (intro executor_step.leave) (simp_all add: list_all_iff)
  from executor_reach.step [OF a this] show ?thesis
    by (simp add: demo_detached_def Let_def) (simp add: demo_queued_def demo_held_def system_start_def)
qed

theorem detached_session_settled_witness: "completed_on 0 demo_detached = {#(0, 1, 1, 10, 3)#}"
proof -
  have "sy_shutdown demo_detached = Running" "sy_detached demo_detached = [0]" by code_simp+
  moreover have "accepted_on 0 demo_detached = {#(0, 1, 1, 10, 3)#}" by code_simp
  ultimately show ?thesis using detached_session_settled [OF demo_detached_reach, of 0] by (simp add: u64_max_def)
qed

text \<open>
  A submission that passed the check of \<open>closed\<close> before the shutdown is accepted after the last writer thread
  has left: the write is dropped with its session, no completion is sent, and its bytes stay charged.
\<close>

definition demo_dropped :: executor_system where
  "demo_dropped = demo_queued\<lparr>sy_core := shutdown_clear (shutdown_close (sy_core demo_queued)), sy_writers := [Exited], sy_shutdown := ShutDown,
     sy_dropped := queued_items (es_sessions (ec_state (sy_core demo_queued)))\<rparr>"

lemma accepted_write_lost:
  "executor_reach 1 64 demo_dropped \<and> map write_tag (sy_accepted demo_dropped) = [(0, 1, 1, 10, 3)]
   \<and> ec_streams (sy_core demo_dropped) = [] \<and> bb_outstanding (ec_queued_bytes (sy_core demo_dropped)) = 3"
proof (intro conjI)
  let ?a = "demo_held\<lparr>sy_core := shutdown_close (sy_core demo_held), sy_shutdown := ClosedFlag\<rparr>"
  have a: "executor_reach 1 64 ?a"
    by (rule executor_reach.step [OF demo_held_reach executor_step.close]) (simp add: demo_held_def system_start_def)
  let ?b = "?a\<lparr>sy_writers := [Taking], sy_shutdown := Joining\<rparr>"
  have "executor_step ?a (Done (?a\<lparr>sy_writers := map wake (sy_writers ?a), sy_shutdown := Joining\<rparr>))"
    by (rule executor_step.close_notify) simp
  from executor_reach.step [OF a this] have b: "executor_reach 1 64 ?b"
    by (simp add: demo_held_def system_start_def writer_threads_def wake_def)
  let ?c = "?b\<lparr>sy_writers := [Exited]\<rparr>"
  have "executor_step ?b (Done (?b\<lparr>sy_writers := (sy_writers ?b)[0 := Exited]\<rparr>))"
    by (rule executor_step.take_exit) (simp_all add: unlocked_def take_next_def take_scan_def scan_order_def shutdown_close_def demo_defs Let_def)
  from executor_reach.step [OF b this] have c: "executor_reach 1 64 ?c" by simp
  obtain q where q: "submit_enqueue 0 demo_write (sy_core ?c) = Done (True, q)" "q = shutdown_close (sy_core demo_queued)"
    by (simp add: demo_queued_def demo_defs submit_enqueue_def Let_def shutdown_close_def)
  let ?d = "?c\<lparr>sy_core := q, sy_submits := [SubmitNotifying], sy_accepted := [(0, demo_write)]\<rparr>"
  have "executor_step ?c (Done (?c\<lparr>sy_core := q, sy_submits := (sy_submits ?c)[0 := SubmitNotifying], sy_accepted := sy_accepted ?c @ [(0, demo_write)]\<rparr>))"
    by (rule executor_step.submit_accept) (use q(1) in \<open>simp_all add: unlocked_def demo_held_def\<close>)
  from executor_reach.step [OF c this] have d: "executor_reach 1 64 ?d" by (simp add: demo_held_def system_start_def)
  have "executor_step ?d (Done (?d\<lparr>sy_core := shutdown_clear (sy_core ?d), sy_shutdown := ShutDown,
      sy_dropped := queued_items (es_sessions (ec_state (sy_core ?d)))\<rparr>))"
    by (rule executor_step.joined) (simp_all add: unlocked_def)
  from executor_reach.step [OF d this] show "executor_reach 1 64 demo_dropped"
    by (simp add: demo_dropped_def q(2)) (simp add: demo_queued_def demo_held_def system_start_def shutdown_close_def)
qed code_simp+

text \<open>
  \<open>shutdown\<close> sets the flag and notifies without the lock: a thread that has read the flag as clear and is about
  to wait is not woken. Without a spurious wake-up of the condition variable it stays parked, and the shutdown
  waits for it.
\<close>

definition shutdown_stuck :: "executor_system \<Rightarrow> bool" where
  "shutdown_stuck x \<longleftrightarrow> sy_writers x = [Parked] \<and> sy_submits x = [] \<and> sy_shutdown x = Joining \<and> ec_closed (sy_core x)"

definition demo_parked :: executor_system where
  "demo_parked = (system_start 1 64)\<lparr>sy_core := shutdown_close (executor_new 64), sy_writers := [Parked], sy_shutdown := Joining\<rparr>"

lemma shutdown_stuck_step:
  assumes "shutdown_stuck x" "executor_step x (Done y)"
  shows "shutdown_stuck y \<or> y = x\<lparr>sy_writers := [Taking]\<rparr>"
  using assms(2) assms(1)
proof cases
  case (detach sid d c)
  then show ?thesis using assms(1) detach_idle [of sid d "sy_core x" c] by (auto simp: shutdown_stuck_def)
qed (auto simp: shutdown_stuck_def attach_session_def submit_check_def detach_leave_def Let_def)

lemma shutdown_wakeup_lost: "executor_reach 1 64 demo_parked \<and> shutdown_stuck demo_parked"
proof
  let ?s = "system_start 1 64"
  have "executor_step ?s (Done (?s\<lparr>sy_writers := (sy_writers ?s)[0 := Parking]\<rparr>))"
    by (rule executor_step.take_none) (simp_all add: unlocked_def take_next_def take_scan_def scan_order_def demo_defs Let_def)
  from executor_reach.step [OF executor_reach.start this] have a: "executor_reach 1 64 (?s\<lparr>sy_writers := [Parking]\<rparr>)"
    by (simp add: system_start_def writer_threads_def)
  let ?b = "?s\<lparr>sy_writers := [Parking], sy_core := shutdown_close (sy_core ?s), sy_shutdown := ClosedFlag\<rparr>"
  have b: "executor_reach 1 64 ?b"
    using executor_reach.step [OF a executor_step.close] by (simp add: system_start_def)
  have "executor_step ?b (Done (?b\<lparr>sy_writers := map wake (sy_writers ?b), sy_shutdown := Joining\<rparr>))" by (rule executor_step.close_notify) simp
  from executor_reach.step [OF b this] have c: "executor_reach 1 64 (?b\<lparr>sy_shutdown := Joining\<rparr>)" by (simp add: wake_def system_start_def)
  have "executor_step (?b\<lparr>sy_shutdown := Joining\<rparr>) (Done ((?b\<lparr>sy_shutdown := Joining\<rparr>)\<lparr>sy_writers := (sy_writers (?b\<lparr>sy_shutdown := Joining\<rparr>))[0 := Parked]\<rparr>))"
    by (rule executor_step.park) simp_all
  from executor_reach.step [OF c this] show "executor_reach 1 64 demo_parked"
    by (simp add: demo_parked_def) (simp add: system_start_def)
qed (simp add: shutdown_stuck_def demo_parked_def shutdown_close_def system_start_def)

end
