(* ===== verification/Output_Files.thy ===== *)
theory Output_Files
  imports Resume_Flow
begin

text \<open>
  The temporary output of a job (\<open>io/positional.rs\<close>, \<open>io/sink.rs\<close>, \<open>io/publish.rs\<close>, \<open>io/output_session.rs\<close>) over
  a small file system: directory entries that name inodes, and the bytes of every inode. A system call fails
  when the next entry of the fault script says so.
\<close>

section \<open>The file system\<close>

datatype sys_kind = SysNotFound | SysPermissionDenied | SysAlreadyExists | SysInterrupted | SysUnsupported | SysWriteZero | SysInvalidInput | SysOther

record sys_error =
  sx_kind :: sys_kind
  sx_raw :: "int option"
  sx_text :: string

definition io_of :: "sys_error \<Rightarrow> io_error" where
  "io_of e = \<lparr>io_kind = (case sx_kind e of SysNotFound \<Rightarrow> IoNotFound | SysPermissionDenied \<Rightarrow> IoPermissionDenied | _ \<Rightarrow> IoOther),
     io_raw_os_error = sx_raw e, io_message = sx_text e\<rparr>"

definition sink_error :: "sys_error \<Rightarrow> download_error" where
  "sink_error e = from_io (io_of e)"

text \<open>A path is a directory and the name of its last component; the directory of a bare name is empty.\<close>

type_synonym fpath = "string \<times> string"

definition display :: "fpath \<Rightarrow> string" where
  "display p = (if fst p = [] then snd p else fst p @ ''/'' @ snd p)"

datatype fs_node = FileNode nat | OtherNode

record file_system =
  fs_dirs :: "string list"
  fs_entries :: "(fpath \<times> fs_node) list"
  fs_bytes :: "nat \<Rightarrow> nat list"
  fs_next :: nat
  fs_faults :: "sys_error option list"

definition sys_call :: "file_system \<Rightarrow> sys_error option \<times> file_system" where
  "sys_call fs = (case fs_faults fs of [] \<Rightarrow> (None, fs) | f # rest \<Rightarrow> (f, fs\<lparr>fs_faults := rest\<rparr>))"

abbreviation entry_at :: "file_system \<Rightarrow> fpath \<Rightarrow> fs_node option" where
  "entry_at fs p \<equiv> map_of (fs_entries fs) p"

definition put_entry :: "fpath \<Rightarrow> fs_node \<Rightarrow> file_system \<Rightarrow> file_system" where
  "put_entry p n fs = fs\<lparr>fs_entries := (p, n) # filter (\<lambda>e. fst e \<noteq> p) (fs_entries fs)\<rparr>"

definition del_entry :: "fpath \<Rightarrow> file_system \<Rightarrow> file_system" where
  "del_entry p fs = fs\<lparr>fs_entries := filter (\<lambda>e. fst e \<noteq> p) (fs_entries fs)\<rparr>"

definition not_found :: sys_error where
  "not_found = \<lparr>sx_kind = SysNotFound, sx_raw = Some 2, sx_text = ''No such file or directory (os error 2)''\<rparr>"

definition already_exists :: sys_error where
  "already_exists = \<lparr>sx_kind = SysAlreadyExists, sx_raw = Some 17, sx_text = ''File exists (os error 17)''\<rparr>"

definition remove_file :: "fpath \<Rightarrow> file_system \<Rightarrow> (sys_error + unit) \<times> file_system" where
  "remove_file p fs =
     (case sys_call fs of
        (Some e, fs') \<Rightarrow> (Inl e, fs')
      | (None, fs') \<Rightarrow> if entry_at fs' p = None then (Inl not_found, fs') else (Inr (), del_entry p fs'))"

definition link_count :: "nat \<Rightarrow> file_system \<Rightarrow> nat" where
  "link_count ino fs = length (filter (\<lambda>e. snd e = FileNode ino) (fs_entries fs))"

definition symlink_metadata :: "fpath \<Rightarrow> file_system \<Rightarrow> (sys_error + temp_entry) \<times> file_system" where
  "symlink_metadata p fs =
     (case sys_call fs of
        (Some e, fs') \<Rightarrow> (Inl e, fs')
      | (None, fs') \<Rightarrow>
          (case entry_at fs' p of
             None \<Rightarrow> (Inl not_found, fs')
           | Some OtherNode \<Rightarrow>
               (Inr \<lparr>te_file = \<lparr>tmp_path = display p, tmp_is_file = False, tmp_dev = 0, tmp_ino = 0, tmp_contents = []\<rparr>, te_links = 1\<rparr>, fs')
           | Some (FileNode ino) \<Rightarrow>
               (Inr \<lparr>te_file = \<lparr>tmp_path = display p, tmp_is_file = True, tmp_dev = 0, tmp_ino = ino, tmp_contents = fs_bytes fs' ino\<rparr>,
                     te_links = link_count ino fs'\<rparr>, fs')))"

text \<open>\<open>create_new\<close>, \<open>open\<close> of an existing file, \<open>rename\<close> and \<open>hard_link\<close>.\<close>

definition create_new :: "fpath \<Rightarrow> file_system \<Rightarrow> (sys_error + nat) \<times> file_system" where
  "create_new p fs =
     (case sys_call fs of
        (Some e, fs') \<Rightarrow> (Inl e, fs')
      | (None, fs') \<Rightarrow>
          if entry_at fs' p \<noteq> None then (Inl already_exists, fs')
          else let ino = fs_next fs'
               in (Inr ino, put_entry p (FileNode ino) (fs'\<lparr>fs_next := ino + 1, fs_bytes := (fs_bytes fs')(ino := [])\<rparr>)))"

definition open_existing :: "fpath \<Rightarrow> file_system \<Rightarrow> (sys_error + nat) \<times> file_system" where
  "open_existing p fs =
     (case sys_call fs of
        (Some e, fs') \<Rightarrow> (Inl e, fs')
      | (None, fs') \<Rightarrow> (case entry_at fs' p of Some (FileNode ino) \<Rightarrow> (Inr ino, fs') | _ \<Rightarrow> (Inl not_found, fs')))"

definition sys_rename :: "fpath \<Rightarrow> fpath \<Rightarrow> file_system \<Rightarrow> (sys_error + unit) \<times> file_system" where
  "sys_rename p q fs =
     (case sys_call fs of
        (Some e, fs') \<Rightarrow> (Inl e, fs')
      | (None, fs') \<Rightarrow>
          (case entry_at fs' p of
             None \<Rightarrow> (Inl not_found, fs')
           | Some n \<Rightarrow> (Inr (), put_entry q n (del_entry p fs'))))"

definition sys_hard_link :: "fpath \<Rightarrow> fpath \<Rightarrow> file_system \<Rightarrow> (sys_error + unit) \<times> file_system" where
  "sys_hard_link p q fs =
     (case sys_call fs of
        (Some e, fs') \<Rightarrow> (Inl e, fs')
      | (None, fs') \<Rightarrow>
          (case entry_at fs' p of
             None \<Rightarrow> (Inl not_found, fs')
           | Some n \<Rightarrow> if entry_at fs' q \<noteq> None then (Inl already_exists, fs') else (Inr (), put_entry q n fs')))"

section \<open>Positional writes\<close>

text \<open>Bytes written over a file at an offset; a gap reads as zeros.\<close>

definition patch :: "nat \<Rightarrow> nat list \<Rightarrow> nat list \<Rightarrow> nat list" where
  "patch offset data content =
     (if data = [] then content
      else take offset (content @ replicate (offset - length content) 0) @ data @ drop (offset + length data) content)"

text \<open>
  One answer of the operating system to a positional write: the number of bytes it took, which is at most the
  number it was given, or an error.
\<close>

datatype pos_answer = Wrote nat | PosError sys_error

text \<open>The loop of \<open>write_all_at\<close> over the answers; \<open>None\<close> is a loop still waiting for one.\<close>

fun write_loop :: "pos_answer list \<Rightarrow> u64 \<Rightarrow> nat list \<Rightarrow> nat list \<Rightarrow> (sys_error + unit) option \<times> nat list" where
  "write_loop [] offset bytes content = (None, content)"
| "write_loop (Wrote n # answers) offset bytes content =
     (let n = min n (length bytes); content' = patch offset (take n bytes) content
      in if n = 0 then (Some (Inl \<lparr>sx_kind = SysWriteZero, sx_raw = None, sx_text = ''positional write made no progress''\<rparr>), content')
         else if n = length bytes then (Some (Inr ()), content')
         else write_loop answers (offset + n) (drop n bytes) content')"
| "write_loop (PosError e # answers) offset bytes content =
     (if sx_kind e = SysInterrupted then write_loop answers offset bytes content else (Some (Inl e), content))"

definition write_all_at :: "pos_answer list \<Rightarrow> u64 \<Rightarrow> nat list \<Rightarrow> nat list \<Rightarrow> (sys_error + unit) option \<times> nat list" where
  "write_all_at answers offset bytes content =
     (if bytes = [] then (Some (Inr ()), content)
      else case checked_add offset (length bytes) of
             None \<Rightarrow> (Some (Inl \<lparr>sx_kind = SysInvalidInput, sx_raw = None, sx_text = ''positional write offset overflow''\<rparr>), content)
           | Some _ \<Rightarrow> write_loop answers offset bytes content)"

section \<open>Publication\<close>

datatype publish_mode = NoReplace | Replace

record output_identity =
  oi_dev :: u64
  oi_ino :: u64
  oi_len :: u64

definition identity_of :: "temp_entry \<Rightarrow> output_identity" where
  "identity_of m = \<lparr>oi_dev = tmp_dev (te_file m), oi_ino = tmp_ino (te_file m), oi_len = length (tmp_contents (te_file m))\<rparr>"

definition identity_matches :: "output_identity \<Rightarrow> temp_entry \<Rightarrow> bool" where
  "identity_matches i m \<longleftrightarrow> tmp_dev (te_file m) = oi_dev i \<and> tmp_ino (te_file m) = oi_ino i"

text \<open>The result is the cleanup warning; the second component is the file system after every call.\<close>

definition publish_with_ops :: "fpath \<Rightarrow> fpath \<Rightarrow> publish_mode \<Rightarrow> file_system \<Rightarrow> (sys_error + string option) \<times> file_system list" where
  "publish_with_ops temporary destination mode fs =
     (case mode of
        Replace \<Rightarrow>
          (case sys_rename temporary destination fs of
             (Inl e, fs') \<Rightarrow> (Inl e, [fs, fs'])
           | (Inr _, fs') \<Rightarrow> (Inr None, [fs, fs']))
      | NoReplace \<Rightarrow>
          (case sys_hard_link temporary destination fs of
             (Inl e, fs') \<Rightarrow> (Inl e, [fs, fs'])
           | (Inr _, fs') \<Rightarrow>
               (case remove_file temporary fs' of
                  (Inl e, fs'') \<Rightarrow> (Inr (Some (''published '' @ display destination @ '' but could not remove temporary file ''
                                      @ display temporary @ '': '' @ sx_text e)), [fs, fs', fs''])
                | (Inr _, fs'') \<Rightarrow> (Inr None, [fs, fs', fs'']))))"

definition sys_other :: "string \<Rightarrow> sys_error" where
  "sys_other msg = \<lparr>sx_kind = SysOther, sx_raw = None, sx_text = msg\<rparr>"

definition publish_verified :: "fpath \<Rightarrow> fpath \<Rightarrow> publish_mode \<Rightarrow> output_identity option \<Rightarrow> file_system
    \<Rightarrow> (sys_error + string option) \<times> file_system list" where
  "publish_verified temporary destination mode identity fs =
     (case identity of
        None \<Rightarrow> publish_with_ops temporary destination mode fs
      | Some expected \<Rightarrow>
          (case symlink_metadata temporary fs of
             (Inl e, fs') \<Rightarrow> (Inl e, [fs, fs'])
           | (Inr m, fs') \<Rightarrow>
               if \<not> tmp_is_file (te_file m)
               then (Inl (sys_other (''temporary output '' @ display temporary @ '' is no longer a regular file'')), [fs, fs'])
               else if \<not> identity_matches expected m
               then (Inl (sys_other (''temporary output '' @ display temporary @ '' changed after verification'')), [fs, fs'])
               else publish_with_ops temporary destination mode fs'))"

section \<open>The sink\<close>

datatype temp_file_spec = SiblingSuffix string | ExplicitTemp fpath

definition temp_path_for :: "temp_file_spec \<Rightarrow> fpath \<Rightarrow> fpath" where
  "temp_path_for spec destination =
     (case spec of SiblingSuffix suffix \<Rightarrow> (fst destination, snd destination @ suffix) | ExplicitTemp p \<Rightarrow> p)"

datatype flush_level = PageCache | FsyncFile | FsyncDir

datatype abort_disposition = TempDeleted | TempKept

text \<open>The open handle is an inode with the number of its clones outside the sink.\<close>

record file_sink =
  fk_destination :: fpath
  fk_temp_path :: fpath
  fk_preallocate :: bool
  fk_physical :: bool
  fk_keep_on_drop :: bool
  fk_file :: "nat option"
  fk_clones :: nat
  fk_bytes_written :: u64
  fk_finalized :: bool
  fk_aborted :: bool

definition from_file :: "fpath \<Rightarrow> fpath \<Rightarrow> nat \<Rightarrow> bool \<Rightarrow> bool \<Rightarrow> file_sink" where
  "from_file destination temp_path ino preallocate physical =
     \<lparr>fk_destination = destination, fk_temp_path = temp_path, fk_preallocate = preallocate, fk_physical = physical,
      fk_keep_on_drop = False, fk_file = Some ino, fk_clones = 0, fk_bytes_written = 0, fk_finalized = False, fk_aborted = False\<rparr>"

definition set_keep_on_drop :: "bool \<Rightarrow> file_sink \<Rightarrow> file_sink" where
  "set_keep_on_drop keep k = k\<lparr>fk_keep_on_drop := keep\<rparr>"

definition create_exclusive :: "fpath \<Rightarrow> temp_file_spec \<Rightarrow> bool \<Rightarrow> bool \<Rightarrow> file_system \<Rightarrow> (download_error + file_sink) \<times> file_system" where
  "create_exclusive destination spec preallocate physical fs =
     (let temp_path = temp_path_for spec destination; parent = fst temp_path
      in if parent \<noteq> [] \<and> parent \<notin> set (fs_dirs fs)
         then (Inl (SinkOpen (''destination directory does not exist: '' @ parent)), fs)
         else case remove_file temp_path fs of
                (removed, fs') \<Rightarrow>
                  if (case removed of Inl e \<Rightarrow> sx_kind e \<noteq> SysNotFound | Inr _ \<Rightarrow> False)
                  then (Inl (case removed of Inl e \<Rightarrow> sink_error e | Inr _ \<Rightarrow> SinkOpen []), fs')
                  else (case create_new temp_path fs' of
                          (Inl e, fs'') \<Rightarrow> (Inl (sink_error e), fs'')
                        | (Inr ino, fs'') \<Rightarrow> (Inr (from_file destination temp_path ino preallocate physical), fs'')))"

text \<open>\<open>metadata\<close> of the open handle.\<close>

definition same_file_identity :: "temp_entry \<Rightarrow> nat \<Rightarrow> bool" where
  "same_file_identity m ino \<longleftrightarrow> tmp_dev (te_file m) = 0 \<and> tmp_ino (te_file m) = ino"

definition open_owned :: "fpath \<Rightarrow> temp_file_spec \<Rightarrow> file_system \<Rightarrow> (download_error + file_sink) \<times> file_system" where
  "open_owned destination spec fs =
     (let temp_path = temp_path_for spec destination
      in case symlink_metadata temp_path fs of
           (checked, fs1) \<Rightarrow>
             (case validate_owned_regular_file (case checked of Inl e \<Rightarrow> Inl (io_of e) | Inr m \<Rightarrow> Inr m) of
                Inl e \<Rightarrow> (Inl e, fs1)
              | Inr _ \<Rightarrow>
                  (case symlink_metadata temp_path fs1 of
                     (Inl e, fs2) \<Rightarrow> (Inl (sink_error e), fs2)
                   | (Inr before, fs2) \<Rightarrow>
                       (case open_existing temp_path fs2 of
                          (Inl e, fs3) \<Rightarrow> (Inl (sink_error e), fs3)
                        | (Inr ino, fs3) \<Rightarrow>
                            (case sys_call fs3 of
                               (Some e, fs4) \<Rightarrow> (Inl (sink_error e), fs4)
                             | (None, fs4) \<Rightarrow>
                                 (case symlink_metadata temp_path fs4 of
                                    (Inl e, fs5) \<Rightarrow> (Inl (sink_error e), fs5)
                                  | (Inr after, fs5) \<Rightarrow>
                                      if \<not> same_file_identity before ino \<or> \<not> same_file_identity after ino
                                      then (Inl (SinkOpen (''temporary output '' @ display temp_path @ '' changed while opening'')), fs5)
                                      else (Inr (set_keep_on_drop True (from_file destination temp_path ino False False)), fs5)))))))"

definition set_len :: "nat \<Rightarrow> u64 \<Rightarrow> file_system \<Rightarrow> (sys_error + unit) \<times> file_system" where
  "set_len ino len fs =
     (case sys_call fs of
        (Some e, fs') \<Rightarrow> (Inl e, fs')
      | (None, fs') \<Rightarrow> (Inr (), fs'\<lparr>fs_bytes := (fs_bytes fs')(ino := take len (fs_bytes fs' ino @ replicate (len - length (fs_bytes fs' ino)) 0))\<rparr>))"

definition sink_truncate_to :: "u64 \<Rightarrow> file_sink \<Rightarrow> file_system \<Rightarrow> (download_error + unit) \<times> file_system" where
  "sink_truncate_to len k fs =
     (case fk_file k of
        None \<Rightarrow> (Inl (SinkOpen ''sink closed''), fs)
      | Some ino \<Rightarrow> (case set_len ino len fs of (Inl e, fs') \<Rightarrow> (Inl (sink_error e), fs') | (Inr _, fs') \<Rightarrow> (Inr (), fs')))"

definition reserve_physical :: "file_system \<Rightarrow> (download_error + unit) \<times> file_system" where
  "reserve_physical fs =
     (case sys_call fs of
        (None, fs') \<Rightarrow> (Inr (), fs')
      | (Some e, fs') \<Rightarrow>
          if sx_raw e = Some 95 \<or> sx_raw e = Some 38 \<or> sx_raw e = Some 22 \<or> sx_kind e = SysUnsupported then (Inr (), fs')
          else (Inl (sink_error e), fs'))"

definition sink_preallocate :: "u64 \<Rightarrow> file_sink \<Rightarrow> file_system \<Rightarrow> (download_error + bool) \<times> file_system" where
  "sink_preallocate total_bytes k fs =
     (if \<not> fk_preallocate k then (Inr False, fs)
      else case fk_file k of
             None \<Rightarrow> (Inl (SinkOpen ''sink closed''), fs)
           | Some ino \<Rightarrow>
               (case set_len ino total_bytes fs of
                  (sized, fs') \<Rightarrow>
                    (case (case sized of
                             Inr _ \<Rightarrow> Inr True
                           | Inl e \<Rightarrow> if sx_raw e = Some 95 \<or> sx_kind e = SysUnsupported then Inr False else Inl (sink_error e)) of
                       Inl e \<Rightarrow> (Inl e, fs')
                     | Inr logical \<Rightarrow>
                         if fk_physical k
                         then (case reserve_physical fs' of (Inl e, fs'') \<Rightarrow> (Inl e, fs'') | (Inr _, fs'') \<Rightarrow> (Inr logical, fs''))
                         else (Inr logical, fs'))))"

definition sink_prepare :: "u64 option \<Rightarrow> file_sink \<Rightarrow> file_system \<Rightarrow> (download_error + unit) \<times> file_system" where
  "sink_prepare total_size k fs =
     (case total_size of
        None \<Rightarrow> (Inr (), fs)
      | Some total_bytes \<Rightarrow> (case sink_preallocate total_bytes k fs of (Inl e, fs') \<Rightarrow> (Inl e, fs') | (Inr _, fs') \<Rightarrow> (Inr (), fs')))"

text \<open>The sequential write needs the only handle: a seek, then \<open>write_all\<close>, which may fail after a prefix.\<close>

definition sink_write_at :: "nat \<Rightarrow> u64 \<Rightarrow> nat list \<Rightarrow> file_sink \<Rightarrow> file_system \<Rightarrow> (download_error + file_sink) \<times> file_system" where
  "sink_write_at partial offset bytes k fs =
     (case fk_file k of
        None \<Rightarrow> (Inl (SinkWrite ''sink closed''), fs)
      | Some ino \<Rightarrow>
          if 0 < fk_clones k then (Inl (SinkWrite ''sink handle is shared with write-only worker capabilities''), fs)
          else case sys_call fs of
                 (Some e, fs') \<Rightarrow> (Inl (sink_error e), fs')
               | (None, fs') \<Rightarrow>
                   (case sys_call fs' of
                      (Some e, fs'') \<Rightarrow> (Inl (sink_error e), fs''\<lparr>fs_bytes := (fs_bytes fs'')(ino := patch offset (take partial bytes) (fs_bytes fs'' ino))\<rparr>)
                    | (None, fs'') \<Rightarrow>
                        (Inr (k\<lparr>fk_bytes_written := max (fk_bytes_written k) (u64_add offset (length bytes))\<rparr>),
                         fs''\<lparr>fs_bytes := (fs_bytes fs'')(ino := patch offset bytes (fs_bytes fs'' ino))\<rparr>)))"

definition sink_flush :: "flush_level \<Rightarrow> file_sink \<Rightarrow> file_system \<Rightarrow> (download_error + unit) \<times> file_system" where
  "sink_flush level k fs =
     (case fk_file k of
        None \<Rightarrow> (Inl (SinkWrite ''sink closed''), fs)
      | Some _ \<Rightarrow>
          if level = PageCache then (Inr (), fs)
          else (case sys_call fs of (Some e, fs') \<Rightarrow> (Inl (sink_error e), fs') | (None, fs') \<Rightarrow> (Inr (), fs')))"

definition sink_size :: "file_sink \<Rightarrow> file_system \<Rightarrow> (download_error + u64) \<times> file_system" where
  "sink_size k fs =
     (case fk_file k of
        None \<Rightarrow> (Inl (SinkOpen ''sink closed''), fs)
      | Some ino \<Rightarrow> (case sys_call fs of (Some e, fs') \<Rightarrow> (Inl (sink_error e), fs') | (None, fs') \<Rightarrow> (Inr (length (fs_bytes fs' ino)), fs')))"

definition sink_finalize :: "file_sink \<Rightarrow> file_system \<Rightarrow> (download_error + file_sink) \<times> file_system" where
  "sink_finalize k fs =
     (case sink_flush FsyncFile k fs of
        (Inl e, fs') \<Rightarrow> (Inl e, fs')
      | (Inr _, fs') \<Rightarrow> (Inr (k\<lparr>fk_file := None, fk_finalized := True\<rparr>), fs'))"

definition sink_abort :: "file_sink \<Rightarrow> file_system \<Rightarrow> (download_error + abort_disposition) \<times> file_sink \<times> file_system" where
  "sink_abort k fs =
     (let k' = k\<lparr>fk_file := None\<rparr>
      in case remove_file (fk_temp_path k) fs of
           (Inr _, fs') \<Rightarrow> (Inr TempDeleted, k'\<lparr>fk_aborted := True\<rparr>, fs')
         | (Inl e, fs') \<Rightarrow>
             if sx_kind e = SysNotFound then (Inr TempDeleted, k'\<lparr>fk_aborted := True\<rparr>, fs')
             else (Inl (sink_error e), k', fs'))"

definition sink_drop :: "file_sink \<Rightarrow> file_system \<Rightarrow> file_system" where
  "sink_drop k fs = (if \<not> fk_finalized k \<and> \<not> fk_aborted k \<and> \<not> fk_keep_on_drop k then snd (remove_file (fk_temp_path k) fs) else fs)"

text \<open>\<open>commit_with_policy\<close> consumes the sink, which is then dropped as finalised.\<close>

definition sink_commit :: "publish_mode \<Rightarrow> file_sink \<Rightarrow> file_system \<Rightarrow> (download_error + fpath \<times> string option) \<times> file_system list" where
  "sink_commit mode k fs =
     (case (case fk_file k of
              None \<Rightarrow> (Inr None, fs)
            | Some ino \<Rightarrow>
                (case sys_call fs of
                   (Some e, fs') \<Rightarrow> (Inl (sink_error e), fs')
                 | (None, fs') \<Rightarrow> (Inr (Some \<lparr>oi_dev = 0, oi_ino = ino, oi_len = length (fs_bytes fs' ino)\<rparr>), fs'))) of
        (Inl e, fs') \<Rightarrow> (Inl e, [fs, fs', sink_drop k fs'])
      | (Inr identity, fs') \<Rightarrow>
          (case publish_verified (fk_temp_path k) (fk_destination k) mode identity fs' of
             (Inr warning, trace) \<Rightarrow> (Inr (fk_destination k, warning), fs # trace)
           | (Inl e, trace) \<Rightarrow>
               (Inl (if mode = NoReplace \<and> sx_kind e = SysAlreadyExists
                     then DestinationConflict (''destination appeared before no-replace publication ('' @ display (fk_destination k) @ ''): '' @ sx_text e)
                     else Commit (sx_text e)), fs # trace)))"

section \<open>The output session\<close>

datatype partial_disposition = DeleteOnDrop | PreserveOnDrop

text \<open>\<open>os_shared\<close> is the live-writer counter while write handles are lent.\<close>

record output_session =
  os_sink :: "file_sink option"
  os_shared :: "nat option"
  os_temp_path :: fpath
  os_disposition :: partial_disposition

definition shared_session_error :: download_error where
  "shared_session_error = Protocol ''output session is shared with worker handles''"

definition session_create :: "fpath \<Rightarrow> temp_file_spec \<Rightarrow> bool \<Rightarrow> bool \<Rightarrow> u64 option \<Rightarrow> file_system \<Rightarrow> (download_error + output_session) \<times> file_system" where
  "session_create destination spec preallocate physical total_size fs =
     (case create_exclusive destination spec preallocate physical fs of
        (Inl e, fs') \<Rightarrow> (Inl e, fs')
      | (Inr k, fs') \<Rightarrow>
          (case sink_prepare total_size k fs' of
             (Inl e, fs'') \<Rightarrow> (Inl e, sink_drop k fs'')
           | (Inr _, fs'') \<Rightarrow> (Inr \<lparr>os_sink = Some k, os_shared = None, os_temp_path = temp_path_for spec destination, os_disposition = DeleteOnDrop\<rparr>, fs'')))"

definition session_reopen :: "fpath \<Rightarrow> temp_file_spec \<Rightarrow> file_system \<Rightarrow> (download_error + output_session) \<times> file_system" where
  "session_reopen destination spec fs =
     (case open_owned destination spec fs of
        (Inl e, fs') \<Rightarrow> (Inl e, fs')
      | (Inr k, fs') \<Rightarrow> (Inr \<lparr>os_sink = Some (set_keep_on_drop True k), os_shared = None, os_temp_path = temp_path_for spec destination,
                                os_disposition = PreserveOnDrop\<rparr>, fs'))"

definition sync_capability :: "output_session \<Rightarrow> download_error + unit" where
  "sync_capability ses =
     (case os_sink ses of
        None \<Rightarrow> Inl shared_session_error
      | Some k \<Rightarrow> (case fk_file k of None \<Rightarrow> Inl shared_session_error | Some _ \<Rightarrow> Inr ()))"

definition preserve_partial :: "output_session \<Rightarrow> output_session" where
  "preserve_partial ses = ses\<lparr>os_disposition := PreserveOnDrop, os_sink := map_option (set_keep_on_drop True) (os_sink ses)\<rparr>"

definition preserves_partial_on_drop :: "output_session \<Rightarrow> bool" where
  "preserves_partial_on_drop ses \<longleftrightarrow> os_disposition ses = PreserveOnDrop"

text \<open>Lending \<open>n\<close> write handles: each is the shared file, and a clone of the handle of the sink.\<close>

definition share_write_handles :: "nat \<Rightarrow> output_session \<Rightarrow> download_error + nat list \<times> output_session" where
  "share_write_handles worker_count ses =
     (if worker_count = 0 \<or> os_shared ses \<noteq> None then Inl shared_session_error
      else case os_sink ses of
             None \<Rightarrow> Inl shared_session_error
           | Some k \<Rightarrow>
               (case fk_file k of
                  None \<Rightarrow> Inl shared_session_error
                | Some ino \<Rightarrow> Inr (replicate worker_count ino,
                    ses\<lparr>os_shared := Some worker_count, os_sink := Some (k\<lparr>fk_clones := fk_clones k + worker_count\<rparr>)\<rparr>)))"

definition with_clones :: "(nat \<Rightarrow> nat) \<Rightarrow> output_session \<Rightarrow> output_session" where
  "with_clones f ses = ses\<lparr>os_shared := map_option f (os_shared ses), os_sink := map_option (\<lambda>k. k\<lparr>fk_clones := f (fk_clones k)\<rparr>) (os_sink ses)\<rparr>"

definition clone_capability :: "output_session \<Rightarrow> output_session" where
  "clone_capability ses = with_clones (\<lambda>n. n + 1) ses"

definition drop_capability :: "output_session \<Rightarrow> output_session" where
  "drop_capability ses = with_clones (\<lambda>n. n - 1) ses"

definition reclaim_exclusive :: "output_session \<Rightarrow> (download_error + unit) \<times> output_session" where
  "reclaim_exclusive ses =
     (case os_shared ses of
        None \<Rightarrow> (Inr (), ses)
      | Some alive \<Rightarrow> if 0 < alive then (Inl shared_session_error, ses) else (Inr (), ses\<lparr>os_shared := None\<rparr>))"

definition sink_mut :: "output_session \<Rightarrow> download_error + file_sink" where
  "sink_mut ses =
     (if os_shared ses \<noteq> None then Inl shared_session_error
      else case os_sink ses of None \<Rightarrow> Inl shared_session_error | Some k \<Rightarrow> Inr k)"

definition session_prepare :: "u64 option \<Rightarrow> output_session \<Rightarrow> file_system \<Rightarrow> (download_error + unit) \<times> file_system" where
  "session_prepare total_size ses fs = (case sink_mut ses of Inl e \<Rightarrow> (Inl e, fs) | Inr k \<Rightarrow> sink_prepare total_size k fs)"

definition session_write_at :: "nat \<Rightarrow> u64 \<Rightarrow> nat list \<Rightarrow> output_session \<Rightarrow> file_system \<Rightarrow> (download_error + output_session) \<times> file_system" where
  "session_write_at partial offset bytes ses fs =
     (case sink_mut ses of
        Inl e \<Rightarrow> (Inl e, fs)
      | Inr k \<Rightarrow> (case sink_write_at partial offset bytes k fs of (Inl e, fs') \<Rightarrow> (Inl e, fs') | (Inr k', fs') \<Rightarrow> (Inr (ses\<lparr>os_sink := Some k'\<rparr>), fs')))"

definition session_flush :: "flush_level \<Rightarrow> output_session \<Rightarrow> file_system \<Rightarrow> (download_error + unit) \<times> file_system" where
  "session_flush level ses fs = (case sink_mut ses of Inl e \<Rightarrow> (Inl e, fs) | Inr k \<Rightarrow> sink_flush level k fs)"

definition session_size :: "output_session \<Rightarrow> file_system \<Rightarrow> (download_error + u64) \<times> file_system" where
  "session_size ses fs = (case sink_mut ses of Inl e \<Rightarrow> (Inl e, fs) | Inr k \<Rightarrow> sink_size k fs)"

definition session_truncate_to :: "u64 \<Rightarrow> output_session \<Rightarrow> file_system \<Rightarrow> (download_error + unit) \<times> file_system" where
  "session_truncate_to len ses fs = (case sink_mut ses of Inl e \<Rightarrow> (Inl e, fs) | Inr k \<Rightarrow> sink_truncate_to len k fs)"

definition session_finalize :: "output_session \<Rightarrow> file_system \<Rightarrow> (download_error + output_session) \<times> file_system" where
  "session_finalize ses fs =
     (case sink_mut ses of
        Inl e \<Rightarrow> (Inl e, fs)
      | Inr k \<Rightarrow> (case sink_finalize k fs of (Inl e, fs') \<Rightarrow> (Inl e, fs') | (Inr k', fs') \<Rightarrow> (Inr (ses\<lparr>os_sink := Some k'\<rparr>), fs')))"

definition session_abort :: "output_session \<Rightarrow> file_system \<Rightarrow> (download_error + abort_disposition) \<times> output_session \<times> file_system" where
  "session_abort ses fs =
     (case sink_mut ses of
        Inl e \<Rightarrow> (Inl e, ses, fs)
      | Inr k \<Rightarrow> (case sink_abort k fs of (r, k', fs') \<Rightarrow> (r, ses\<lparr>os_sink := Some k'\<rparr>, fs')))"

definition session_drop :: "output_session \<Rightarrow> file_system \<Rightarrow> file_system" where
  "session_drop ses fs =
     (case os_sink ses of
        None \<Rightarrow> fs
      | Some k \<Rightarrow> sink_drop (set_keep_on_drop (os_disposition ses = PreserveOnDrop) k) fs)"

text \<open>\<open>commit_with_policy\<close> consumes the session: on an error before the sink is taken the session is dropped.\<close>

definition session_commit :: "publish_mode \<Rightarrow> output_session \<Rightarrow> file_system \<Rightarrow> (download_error + fpath \<times> string option) \<times> file_system list" where
  "session_commit mode ses fs =
     (case reclaim_exclusive ses of
        (Inl e, ses') \<Rightarrow> (Inl e, [fs, session_drop ses' fs])
      | (Inr _, ses') \<Rightarrow>
          (case os_sink ses' of
             None \<Rightarrow> (Inl shared_session_error, [fs])
           | Some k \<Rightarrow> sink_commit mode k fs))"

text \<open>The synchronisation before a checkpoint, with the result of the blocking task when it was cancelled.\<close>

definition sync_data_before_checkpoint :: "bool \<Rightarrow> string option \<Rightarrow> file_system \<Rightarrow> (download_error + unit) \<times> file_system" where
  "sync_data_before_checkpoint durable join_error fs =
     (if \<not> durable then (Inr (), fs)
      else case join_error of
             Some e \<Rightarrow> (Inl (SinkWrite (''checkpoint sync task failed: '' @ e)), fs)
           | None \<Rightarrow> (case sys_call fs of (Some e, fs') \<Rightarrow> (Inl (sink_error e), fs') | (None, fs') \<Rightarrow> (Inr (), fs')))"

section \<open>A positional write writes its bytes\<close>

lemma patch_length: "data \<noteq> [] \<Longrightarrow> length (patch offset data content) = max (offset + length data) (length content)"
  by (auto simp: patch_def)

lemma patch_Nil [simp]: "patch offset [] content = content"
  by (simp add: patch_def)

lemma patch_split:
  assumes "data \<noteq> []"
  obtains a where "length a = offset" "patch offset data content = a @ data @ drop (offset + length data) content"
    "\<And>p. p < length content \<Longrightarrow> p < offset \<Longrightarrow> a ! p = content ! p"
proof -
  let ?a = "take offset (content @ replicate (offset - length content) 0)"
  have "length ?a = offset" by auto
  moreover have "patch offset data content = ?a @ data @ drop (offset + length data) content" using assms by (simp add: patch_def)
  moreover have "?a ! p = content ! p" if "p < length content" "p < offset" for p using that by (simp add: nth_append)
  ultimately show thesis by (rule that)
qed

lemma patch_append:
  "patch (offset + length d1) d2 (patch offset d1 content) = patch offset (d1 @ d2) content"
proof (cases "d1 = [] \<or> d2 = []")
  case False
  let ?a = "take offset (content @ replicate (offset - length content) 0)" and ?p = "patch offset d1 content"
  have len: "length ?a = offset" by auto
  have p: "?p = (?a @ d1) @ drop (offset + length d1) content" using False by (simp add: patch_def)
  have l: "length (?a @ d1) = offset + length d1" using len by simp
  have "offset + length d1 - length ?p = 0" using False by (simp add: patch_length)
  moreover have "take (offset + length d1) ?p = ?a @ d1" unfolding p using l by (metis append_eq_conv_conj)
  moreover have "drop (offset + length d1 + length d2) ?p = drop (offset + length (d1 @ d2)) content"
  proof -
    have "drop (offset + length d1 + length d2) ?p = drop (length d2) (drop (offset + length d1) ?p)" by (simp add: add.commute)
    also have "drop (offset + length d1) ?p = drop (offset + length d1) content" unfolding p using l by (metis append_eq_conv_conj)
    finally show ?thesis by (simp add: add.commute add.left_commute)
  qed
  moreover have "patch (offset + length d1) d2 ?p
      = take (offset + length d1) (?p @ replicate (offset + length d1 - length ?p) 0) @ d2 @ drop (offset + length d1 + length d2) ?p"
    using False by (simp add: patch_def [of "offset + length d1"])
  moreover have "patch offset (d1 @ d2) content = ?a @ (d1 @ d2) @ drop (offset + length (d1 @ d2)) content"
    using False by (simp add: patch_def [of offset "d1 @ d2"])
  ultimately show ?thesis by (metis append.assoc append_Nil2 replicate_0)
qed auto

lemma patch_inside: "offset \<le> p \<Longrightarrow> p < offset + length data \<Longrightarrow> patch offset data content ! p = data ! (p - offset)"
proof -
  assume p: "offset \<le> p" "p < offset + length data"
  then have "data \<noteq> []" by auto
  then obtain a where "length a = offset" "patch offset data content = a @ data @ drop (offset + length data) content" by (rule patch_split)
  then show ?thesis using p by (auto simp: nth_append)
qed

lemma patch_outside: "p < length content \<Longrightarrow> p < offset \<or> offset + length data \<le> p \<Longrightarrow> patch offset data content ! p = content ! p"
proof (cases "data = []")
  case False
  assume p: "p < length content" "p < offset \<or> offset + length data \<le> p"
  obtain a where a: "length a = offset" "patch offset data content = a @ data @ drop (offset + length data) content"
      "\<And>p. p < length content \<Longrightarrow> p < offset \<Longrightarrow> a ! p = content ! p" using False by (rule patch_split) blast
  show ?thesis
  proof (cases "p < offset")
    case True
    then show ?thesis using a p by (simp add: nth_append)
  next
    case False
    then have "offset + length data \<le> p" using p(2) by simp
    then show ?thesis using a(1,2) p(1) by (auto simp: nth_append)
  qed
qed simp

definition interrupted :: "pos_answer \<Rightarrow> bool" where
  "interrupted a = (case a of Wrote _ \<Rightarrow> False | PosError e \<Rightarrow> sx_kind e = SysInterrupted)"

lemma write_loop_exact:
  assumes "write_loop answers offset bytes content = (r, content')" "bytes \<noteq> []"
  shows "(\<exists>k\<le>length bytes. content' = patch offset (take k bytes) content \<and> (r = Some (Inr ()) \<longrightarrow> k = length bytes))
    \<and> (length bytes \<le> length (filter (\<lambda>a. \<not> interrupted a) answers) \<longrightarrow> r \<noteq> None)"
  using assms
proof (induction answers offset bytes content arbitrary: r rule: write_loop.induct)
  case (1 offset bytes content)
  then show ?case by (auto intro!: exI [of _ 0])
next
  case (2 n answers offset bytes content)
  define m where "m = min n (length bytes)"
  define f where "f = patch offset (take m bytes) content"
  show ?case
  proof (cases "m = 0 \<or> m = length bytes")
    case True
    then show ?thesis using "2.prems" by (auto simp: m_def [symmetric] f_def [symmetric] Let_def f_def intro!: exI [of _ m])
  next
    case False
    then have m: "0 < m" "m < length bytes" by (auto simp: m_def)
    then have rec: "write_loop answers (offset + m) (drop m bytes) f = (r, content')"
      using "2.prems"(1) by (simp add: m_def [symmetric] f_def Let_def)
    have "(\<exists>k\<le>length (drop m bytes). content' = patch (offset + m) (take k (drop m bytes)) f \<and> (r = Some (Inr ()) \<longrightarrow> k = length (drop m bytes)))
        \<and> (length (drop m bytes) \<le> length (filter (\<lambda>a. \<not> interrupted a) answers) \<longrightarrow> r \<noteq> None)"
      by (rule "2.IH") (use False rec m m_def f_def in auto)
    then obtain k where k: "k \<le> length bytes - m" "content' = patch (offset + m) (take k (drop m bytes)) f" "r = Some (Inr ()) \<longrightarrow> k = length bytes - m"
        "length bytes - m \<le> length (filter (\<lambda>a. \<not> interrupted a) answers) \<longrightarrow> r \<noteq> None" by auto
    have "patch (offset + m) (take k (drop m bytes)) f = patch offset (take (m + k) bytes) content"
      using patch_append [of offset "take m bytes" "take k (drop m bytes)" content] m by (simp add: f_def take_add)
    then show ?thesis using k m by (intro conjI exI [of _ "m + k"]) (auto simp: interrupted_def)
  qed
next
  case (3 e answers offset bytes content)
  then show ?case by (cases "sx_kind e = SysInterrupted") (auto simp: interrupted_def intro!: exI [of _ 0])
qed

lemma write_all_returns:
  assumes "write_all_at answers offset bytes content = (r, content')"
  shows "(\<exists>k\<le>length bytes. content' = patch offset (take k bytes) content \<and> (r = Some (Inr ()) \<longrightarrow> k = length bytes))
    \<and> (length bytes \<le> length (filter (\<lambda>a. \<not> interrupted a) answers) \<longrightarrow> r \<noteq> None)"
proof (cases "bytes = []")
  case False
  show ?thesis
  proof (cases "checked_add offset (length bytes)")
    case None
    then show ?thesis using assms False by (auto simp: write_all_at_def intro!: exI [of _ 0])
  next
    case (Some n)
    then show ?thesis using assms False write_loop_exact [of answers offset bytes content r content'] by (simp add: write_all_at_def)
  qed
qed (use assms in \<open>auto simp: write_all_at_def\<close>)

text \<open>
  A positional write that succeeds has written exactly its bytes at their offset and no other; one
  that fails has written a prefix of them. Short writes are continued, interruptions retried, and the call
  returns as soon as the system has given as many answers that are not interruptions as there are bytes.
\<close>

lemma write_all_exact:
  assumes "write_all_at answers offset bytes content = (r, content')"
  shows "(\<exists>k\<le>length bytes. content' = patch offset (take k bytes) content \<and> (r = Some (Inr ()) \<longrightarrow> k = length bytes))
    \<and> (length bytes \<le> length (filter (\<lambda>a. \<not> interrupted a) answers) \<longrightarrow> r \<noteq> None)
    \<and> (r = Some (Inr ()) \<longrightarrow> (\<forall>p. (offset \<le> p \<and> p < offset + length bytes \<longrightarrow> content' ! p = bytes ! (p - offset))
         \<and> (p < length content \<and> (p < offset \<or> offset + length bytes \<le> p) \<longrightarrow> content' ! p = content ! p)))"
  using write_all_returns [OF assms] by (auto simp: patch_inside patch_outside)

section \<open>Publication is atomic\<close>

text \<open>What a call leaves alone: the bytes, and every entry but the two of the publication.\<close>

lemma sys_call_same: "sys_call fs = (f, fs') \<Longrightarrow> fs_entries fs' = fs_entries fs \<and> fs_bytes fs' = fs_bytes fs"
  by (auto simp: sys_call_def split: list.splits)

lemma map_of_filter_ne: "map_of (filter (\<lambda>e. fst e \<noteq> p) es) q = (if q = p then None else map_of es q)"
  by (induction es) auto

lemma entry_put [simp]: "entry_at (put_entry p n fs) q = (if q = p then Some n else entry_at fs q)"
  by (simp add: put_entry_def map_of_filter_ne)

lemma entry_del [simp]: "entry_at (del_entry p fs) q = (if q = p then None else entry_at fs q)"
  by (simp add: del_entry_def map_of_filter_ne)

lemma bytes_put_del [simp]: "fs_bytes (put_entry p n fs) = fs_bytes fs" "fs_bytes (del_entry p fs) = fs_bytes fs"
  by (simp_all add: put_entry_def del_entry_def)

lemma remove_file_effect:
  "remove_file p fs = (r, fs') \<Longrightarrow> fs_bytes fs' = fs_bytes fs
     \<and> entry_at fs' = (if r = Inr () then (entry_at fs)(p := None) else entry_at fs)"
  using sys_call_same [of fs] by (auto simp: remove_file_def fun_eq_iff split: prod.splits option.splits if_splits)

lemma hard_link_effect:
  "sys_hard_link p q fs = (r, fs') \<Longrightarrow> fs_bytes fs' = fs_bytes fs
     \<and> (case r of Inl _ \<Rightarrow> entry_at fs' = entry_at fs
        | Inr _ \<Rightarrow> entry_at fs p \<noteq> None \<and> entry_at fs q = None \<and> entry_at fs' = (entry_at fs)(q := entry_at fs p))"
  using sys_call_same [of fs] by (auto simp: sys_hard_link_def fun_eq_iff split: prod.splits option.splits if_splits)

lemma rename_effect:
  "sys_rename p q fs = (r, fs') \<Longrightarrow> p \<noteq> q \<Longrightarrow> fs_bytes fs' = fs_bytes fs
     \<and> (case r of Inl _ \<Rightarrow> entry_at fs' = entry_at fs
        | Inr _ \<Rightarrow> entry_at fs p \<noteq> None \<and> entry_at fs' = (entry_at fs)(p := None, q := entry_at fs p))"
  using sys_call_same [of fs] by (auto simp: sys_rename_def fun_eq_iff split: prod.splits option.splits if_splits)

text \<open>One state of a publication from \<open>fs\<close>: the destination is as before or already the temporary output.\<close>

definition publish_state :: "fpath \<Rightarrow> fpath \<Rightarrow> publish_mode \<Rightarrow> file_system \<Rightarrow> file_system \<Rightarrow> bool" where
  "publish_state tmp dst mode fs st \<longleftrightarrow>
     fs_bytes st = fs_bytes fs \<and> (\<forall>p. p \<noteq> tmp \<and> p \<noteq> dst \<longrightarrow> entry_at st p = entry_at fs p)
     \<and> (entry_at st dst = entry_at fs dst \<and> entry_at st tmp = entry_at fs tmp
        \<or> entry_at st dst = entry_at fs tmp \<and> (mode = Replace \<or> entry_at fs dst = None))"

definition published :: "fpath \<Rightarrow> fpath \<Rightarrow> publish_mode \<Rightarrow> file_system \<Rightarrow> string option \<Rightarrow> file_system \<Rightarrow> bool" where
  "published tmp dst mode fs warning st \<longleftrightarrow>
     entry_at fs tmp \<noteq> None \<and> entry_at st dst = entry_at fs tmp \<and> (mode = NoReplace \<longrightarrow> entry_at fs dst = None)
     \<and> (warning = None \<longrightarrow> entry_at st tmp = None)"

lemma publish_ops_effect:
  assumes "publish_with_ops tmp dst mode fs = (r, trace)" "tmp \<noteq> dst"
  shows "(\<forall>st\<in>set trace. publish_state tmp dst mode fs st) \<and> trace \<noteq> []
    \<and> (case r of Inl _ \<Rightarrow> entry_at (last trace) = entry_at fs | Inr w \<Rightarrow> published tmp dst mode fs w (last trace))"
proof (cases mode)
  case Replace
  obtain r' fs' where f: "sys_rename tmp dst fs = (r', fs')" by fastforce
  show ?thesis using assms rename_effect [OF f assms(2)] Replace f
    by (auto simp: publish_with_ops_def publish_state_def published_def split: sum.splits)
next
  case NoReplace
  obtain r1 fs1 where f: "sys_hard_link tmp dst fs = (r1, fs1)" by fastforce
  obtain r2 fs2 where g: "remove_file tmp fs1 = (r2, fs2)" by fastforce
  show ?thesis
  proof (cases r1)
    case (Inl e)
    then show ?thesis using assms hard_link_effect [OF f] NoReplace f by (auto simp: publish_with_ops_def publish_state_def)
  next
    case (Inr u)
    then show ?thesis using assms hard_link_effect [OF f] remove_file_effect [OF g] NoReplace f g
      by (auto simp: publish_with_ops_def publish_state_def published_def split: sum.splits)
  qed
qed

lemma metadata_effect:
  "symlink_metadata p fs = (r, fs') \<Longrightarrow> fs_entries fs' = fs_entries fs \<and> fs_bytes fs' = fs_bytes fs
     \<and> (\<forall>m. r = Inr m \<and> tmp_is_file (te_file m) \<longrightarrow> entry_at fs p = Some (FileNode (tmp_ino (te_file m))))"
  using sys_call_same [of fs] by (auto simp: symlink_metadata_def split: prod.splits option.splits fs_node.splits)

text \<open>
  Claim C38: at every moment of a publication the destination is what it was or the whole temporary output,
  never a part of it, and no other entry and no file content changes. Without replacement an existing
  destination is never touched. A publication that fails leaves every entry as it was; one that succeeds has
  published the entry of the temporary output, and when the identity of the written file is known, it is
  that file.
\<close>

theorem publication_atomic:
  assumes "publish_verified tmp dst mode identity fs = (r, trace)" "tmp \<noteq> dst"
  shows "(\<forall>st\<in>set trace. publish_state tmp dst mode fs st)
    \<and> (case r of
         Inl _ \<Rightarrow> entry_at (last trace) = entry_at fs
       | Inr w \<Rightarrow> published tmp dst mode fs w (last trace)
           \<and> (\<forall>i. identity = Some i \<longrightarrow> entry_at fs tmp = Some (FileNode (oi_ino i))))"
proof (cases identity)
  case None
  then show ?thesis using assms publish_ops_effect [of tmp dst mode fs r trace] by (auto simp: publish_verified_def split: sum.splits)
next
  case (Some i)
  obtain m fs' where f: "symlink_metadata tmp fs = (m, fs')" by fastforce
  note e = metadata_effect [OF f]
  have same: "publish_state tmp dst mode fs' = publish_state tmp dst mode fs" "published tmp dst mode fs' = published tmp dst mode fs"
    using e by (auto simp: publish_state_def published_def fun_eq_iff)
  have here: "publish_state tmp dst mode fs fs" "publish_state tmp dst mode fs fs'" using e by (auto simp: publish_state_def)
  show ?thesis
  proof (cases "\<exists>k. m = Inr k \<and> tmp_is_file (te_file k) \<and> identity_matches i k")
    case True
    then obtain k where k: "m = Inr k" "tmp_is_file (te_file k)" "identity_matches i k" by blast
    then have p: "publish_with_ops tmp dst mode fs' = (r, trace)" using assms(1) Some f by (simp add: publish_verified_def)
    have "entry_at fs tmp = Some (FileNode (oi_ino i))" using e k by (auto simp: identity_matches_def)
    then show ?thesis using publish_ops_effect [OF p assms(2)] same e Some by (auto split: sum.splits)
  next
    case False
    then have "\<exists>x. r = Inl x" "trace = [fs, fs']" using assms(1) Some f by (auto simp: publish_verified_def split: sum.splits if_splits)
    then show ?thesis using here e by auto
  qed
qed

definition demo_fs :: file_system where
  "demo_fs = \<lparr>fs_dirs = [''d''], fs_entries = [((''d'', ''f.part''), FileNode 1), ((''d'', ''f''), FileNode 2)],
     fs_bytes = (\<lambda>i. if i = 1 then [7] else []), fs_next = 3, fs_faults = []\<rparr>"

theorem publication_atomic_witness:
  "entry_at (last (snd (publish_verified (''d'', ''f.part'') (''d'', ''f'') NoReplace None demo_fs))) (''d'', ''f'') = Some (FileNode 2)"
proof -
  obtain r trace where p: "publish_verified (''d'', ''f.part'') (''d'', ''f'') NoReplace None demo_fs = (r, trace)" by fastforce
  have "map_option (\<lambda>_. ()) (case fst (publish_verified (''d'', ''f.part'') (''d'', ''f'') NoReplace None demo_fs) of Inl e \<Rightarrow> Some e | Inr _ \<Rightarrow> None) = Some ()"
    by code_simp
  then obtain e where "r = Inl e" unfolding p by (cases r) auto
  then have "entry_at (last trace) = entry_at demo_fs" using publication_atomic [OF p] by simp
  then show ?thesis unfolding p by (simp add: demo_fs_def)
qed

section \<open>Writers exclude publication\<close>

datatype session_op = Share nat | CloneHandle | DropHandle | Reclaim | Preserve

text \<open>The session with the number of write handles that exist.\<close>

fun session_step :: "session_op \<Rightarrow> output_session \<times> nat \<Rightarrow> output_session \<times> nat" where
  "session_step (Share n) (ses, live) =
     (case share_write_handles n ses of Inl _ \<Rightarrow> (ses, live) | Inr (hs, ses') \<Rightarrow> (ses', live + length hs))"
| "session_step CloneHandle (ses, live) = (if live = 0 then (ses, live) else (clone_capability ses, live + 1))"
| "session_step DropHandle (ses, live) = (if live = 0 then (ses, live) else (drop_capability ses, live - 1))"
| "session_step Reclaim (ses, live) = (snd (reclaim_exclusive ses), live)"
| "session_step Preserve (ses, live) = (preserve_partial ses, live)"

definition session_inv :: "fpath \<Rightarrow> output_session \<times> nat \<Rightarrow> bool" where
  "session_inv temp = (\<lambda>(ses, live).
     (\<exists>k. os_sink ses = Some k \<and> fk_file k \<noteq> None \<and> \<not> fk_finalized k \<and> \<not> fk_aborted k \<and> fk_temp_path k = temp)
     \<and> (case os_shared ses of None \<Rightarrow> live = 0 | Some n \<Rightarrow> n = live))"

lemma session_step_inv: "session_inv temp x \<Longrightarrow> session_inv temp (session_step op x)"
  by (cases op; cases x)
    (auto simp: session_inv_def share_write_handles_def clone_capability_def drop_capability_def with_clones_def reclaim_exclusive_def
      preserve_partial_def set_keep_on_drop_def split: option.splits sum.splits prod.splits if_splits)

lemma session_run_inv: "session_inv temp x \<Longrightarrow> session_inv temp (fold session_step ops x)"
  by (induction ops arbitrary: x) (auto simp: session_step_inv)

lemma created_sink:
  assumes "create_exclusive destination spec preallocate physical fs = (Inr k, fs')"
  shows "\<exists>ino. k = from_file destination (temp_path_for spec destination) ino preallocate physical"
  using assms by (auto simp: create_exclusive_def Let_def split: prod.splits sum.splits if_splits)

lemma opened_sink:
  assumes "open_owned destination spec fs = (Inr k, fs')"
  shows "\<exists>ino. k = set_keep_on_drop True (from_file destination (temp_path_for spec destination) ino False False)"
proof -
  obtain c1 fs1 where c1: "symlink_metadata (temp_path_for spec destination) fs = (c1, fs1)" by force
  obtain c2 fs2 where c2: "symlink_metadata (temp_path_for spec destination) fs1 = (c2, fs2)" by force
  obtain c3 fs3 where c3: "open_existing (temp_path_for spec destination) fs2 = (c3, fs3)" by force
  obtain c4 fs4 where c4: "sys_call fs3 = (c4, fs4)" by force
  obtain c5 fs5 where c5: "symlink_metadata (temp_path_for spec destination) fs4 = (c5, fs5)" by force
  show ?thesis using assms unfolding open_owned_def Let_def c1 c2 c3 c4 c5 prod.case
    by (auto simp: c2 c3 c4 c5 split: sum.splits option.splits if_splits)
qed

lemma fresh_session_inv:
  assumes "fst (session_create destination spec preallocate physical total_size fs) = Inr ses
    \<or> fst (session_reopen destination spec fs) = Inr ses"
  shows "session_inv (temp_path_for spec destination) (ses, 0)"
  using assms
proof
  assume "fst (session_create destination spec preallocate physical total_size fs) = Inr ses"
  then show ?thesis
    by (auto simp: session_create_def session_inv_def from_file_def split: prod.splits sum.splits dest!: created_sink)
next
  assume "fst (session_reopen destination spec fs) = Inr ses"
  then show ?thesis
    by (auto simp: session_reopen_def session_inv_def from_file_def set_keep_on_drop_def split: prod.splits sum.splits dest!: opened_sink)
qed

text \<open>What the owner finds while the session is lent.\<close>

lemma lent_session_refuses:
  assumes "os_shared ses = Some n" "0 < n"
  shows "session_prepare size_hint ses fs = (Inl shared_session_error, fs)"
    and "session_write_at partial offset bytes ses fs = (Inl shared_session_error, fs)"
    and "session_flush level ses fs = (Inl shared_session_error, fs)"
    and "session_size ses fs = (Inl shared_session_error, fs)"
    and "session_truncate_to len ses fs = (Inl shared_session_error, fs)"
    and "session_finalize ses fs = (Inl shared_session_error, fs)"
    and "session_abort ses fs = (Inl shared_session_error, ses, fs)"
    and "reclaim_exclusive ses = (Inl shared_session_error, ses)"
    and "share_write_handles m ses = Inl shared_session_error"
    and "session_commit mode ses fs = (Inl shared_session_error, [fs, session_drop ses fs])"
  using assms by (simp_all add: session_prepare_def session_write_at_def session_flush_def session_size_def session_truncate_to_def
      session_finalize_def session_abort_def reclaim_exclusive_def share_write_handles_def session_commit_def sink_mut_def)

lemma lent_session_drop:
  assumes "session_inv temp (ses, live)"
  shows "session_drop ses fs = (if preserves_partial_on_drop ses then fs else snd (remove_file temp fs))"
  using assms
  by (auto simp: session_inv_def session_drop_def sink_drop_def set_keep_on_drop_def preserves_partial_on_drop_def
      split: option.splits)

text \<open>
  Claim C39: writers exclude the owner. Take a session as it was created or reopened, and let it lend, clone, drop
  and reclaim its write handles and preserve its file in any order. As long as one handle exists, the owner can
  neither prepare, write, flush, measure, truncate, finalise or abort the output, nor reclaim it or lend it again:
  each of these is refused and changes neither the session nor any file. A commit is refused too and publishes
  nothing; but it consumes the session, and unless the session preserves its file, the temporary file is then removed
  while the handles still write to it. Synchronising stays possible. When the last handle is gone, the session
  can be reclaimed and is exclusive again.
\<close>

theorem writers_exclude_owner:
  assumes "fst (session_create destination spec preallocate physical total_size fs0) = Inr ses0
      \<or> fst (session_reopen destination spec fs0) = Inr ses0"
    and "fold session_step ops (ses0, 0) = (ses, live)"
  shows "if 0 < live then
       session_prepare size_hint ses fs = (Inl shared_session_error, fs)
     \<and> session_write_at partial offset bytes ses fs = (Inl shared_session_error, fs)
     \<and> session_flush level ses fs = (Inl shared_session_error, fs)
     \<and> session_size ses fs = (Inl shared_session_error, fs)
     \<and> session_truncate_to len ses fs = (Inl shared_session_error, fs)
     \<and> session_finalize ses fs = (Inl shared_session_error, fs)
     \<and> session_abort ses fs = (Inl shared_session_error, ses, fs)
     \<and> reclaim_exclusive ses = (Inl shared_session_error, ses)
     \<and> share_write_handles m ses = Inl shared_session_error
     \<and> session_commit mode ses fs = (Inl shared_session_error,
         [fs, if preserves_partial_on_drop ses then fs else snd (remove_file (temp_path_for spec destination) fs)])
     \<and> sync_capability ses = Inr ()
   else fst (reclaim_exclusive ses) = Inr () \<and> (\<exists>k. sink_mut (snd (reclaim_exclusive ses)) = Inr k)"
proof -
  have inv: "session_inv (temp_path_for spec destination) (ses, live)"
    using session_run_inv [OF fresh_session_inv [OF assms(1)], of ops] assms(2) by simp
  show ?thesis
  proof (cases "0 < live")
    case True
    then have n: "os_shared ses = Some live" using inv by (auto simp: session_inv_def split: option.splits)
    have "sync_capability ses = Inr ()" using inv by (auto simp: session_inv_def sync_capability_def)
    then show ?thesis using True lent_session_refuses [OF n True] lent_session_drop [OF inv, of fs] by simp
  next
    case False
    then show ?thesis using inv by (auto simp: session_inv_def reclaim_exclusive_def sink_mut_def split: option.splits)
  qed
qed

definition demo_output :: output_session where
  "demo_output = \<lparr>os_sink = Some (from_file (''d'', ''f'') (''d'', ''f.part'') 1 False False), os_shared = None,
     os_temp_path = (''d'', ''f.part''), os_disposition = DeleteOnDrop\<rparr>"

text \<open>A commit that the live handle refuses, and the temporary file it removes.\<close>

theorem writers_exclude_owner_witness:
  "(case session_create (''d'', ''f'') (SiblingSuffix ''.part'') False False None demo_fs of
      (Inr ses0, fs) \<Rightarrow>
        (case session_commit NoReplace (fst (fold session_step [Share 2, DropHandle] (ses0, 0))) fs of
           (Inl e, [fs1, fs2]) \<Rightarrow> e = shared_session_error \<and> entry_at fs1 (''d'', ''f.part'') \<noteq> None
             \<and> entry_at fs2 (''d'', ''f.part'') = None
         | _ \<Rightarrow> False)
    | _ \<Rightarrow> False)"
proof -
  obtain ses0 fs where c: "session_create (''d'', ''f'') (SiblingSuffix ''.part'') False False None demo_fs = (Inr ses0, fs)"
    and live: "snd (fold session_step [Share 2, DropHandle] (ses0, 0)) = 1"
    and keep: "\<not> preserves_partial_on_drop (fst (fold session_step [Share 2, DropHandle] (ses0, 0)))"
    and temp: "entry_at fs (''d'', ''f.part'') = Some (FileNode 3)" "fs_faults fs = []"
  proof -
    let ?c = "session_create (''d'', ''f'') (SiblingSuffix ''.part'') False False None demo_fs"
    have "(case ?c of (Inr s, fs) \<Rightarrow> snd (fold session_step [Share 2, DropHandle] (s, 0)) = 1
        \<and> \<not> preserves_partial_on_drop (fst (fold session_step [Share 2, DropHandle] (s, 0)))
        \<and> entry_at fs (''d'', ''f.part'') = Some (FileNode 3) \<and> fs_faults fs = [] | _ \<Rightarrow> False)" by code_simp
    then show thesis using that by (auto split: prod.splits sum.splits)
  qed
  let ?run = "fold session_step [Share 2, DropHandle] (ses0, 0)"
  have r: "?run = (fst ?run, 1)" using live by (metis prod.collapse)
  have gone: "entry_at (snd (remove_file (''d'', ''f.part'') fs)) (''d'', ''f.part'') = None"
    using temp by (auto simp: remove_file_def sys_call_def del_entry_def map_of_eq_None_iff)
  have "session_commit NoReplace (fst ?run) fs = (Inl shared_session_error, [fs, snd (remove_file (''d'', ''f.part'') fs)])"
    using writers_exclude_owner [OF disjI1 r, of "(''d'', ''f'')" "SiblingSuffix ''.part''" False False None demo_fs] c keep
    by (simp add: temp_path_for_def)
  then show ?thesis using c gone temp by simp
qed

section \<open>What finalisation forgets\<close>

text \<open>
  \<open>finalize\<close> closes the file handle; the commit that follows has no identity to check, and publishes whatever
  entry has taken the place of the verified output.
\<close>

definition swapped_fs :: file_system where
  "swapped_fs = demo_fs\<lparr>fs_entries := [((''d'', ''f.part''), FileNode 2)]\<rparr>"

lemma finalized_commit_unchecked:
  "(case session_finalize demo_output demo_fs of
      (Inr ses, _) \<Rightarrow>
        (case session_commit NoReplace ses swapped_fs of
           (Inr _, trace) \<Rightarrow> entry_at (last trace) (''d'', ''f'') = Some (FileNode 2)
         | _ \<Rightarrow> False)
    | _ \<Rightarrow> False)"
  "fst (session_commit NoReplace demo_output swapped_fs) = Inl (Commit ''temporary output d/f.part changed after verification'')"
  by code_simp+

text \<open>A failed commit of a finalised session keeps the temporary file, although the session deletes it on drop.\<close>

lemma failed_commit_keeps_temp:
  "(case session_finalize demo_output demo_fs of
      (Inr ses, fs) \<Rightarrow>
        \<not> preserves_partial_on_drop ses
        \<and> (case session_commit NoReplace ses fs of
             (Inl (DestinationConflict _), trace) \<Rightarrow> entry_at (last trace) (''d'', ''f.part'') = Some (FileNode 1)
           | _ \<Rightarrow> False)
    | _ \<Rightarrow> False)"
  by code_simp

end
