(* ===== verification/Executor_Output.thy ===== *)
theory Executor_Output
  imports Executor_Runs Output_Files
begin

text \<open>
  The writer threads on the output file: what the executor relies on in a write backend, stated as a locale and
  interpreted on the write handle of \<open>io/output_session.rs\<close>, and what the completions of a run of writes say
  about the file.
\<close>

section \<open>Write backends\<close>

text \<open>A backend call that has not returned is \<open>None\<close>.\<close>

type_synonym 'w write_backend_fn = "u64 \<Rightarrow> nat list \<Rightarrow> 'w \<Rightarrow> (write_answer \<times> 'w) option"

text \<open>The turns of \<open>worker_loop\<close> on a list of writes, with their outcomes; it stops at a call that does not return.\<close>

fun execute_all :: "'w write_backend_fn \<Rightarrow> write_submission list \<Rightarrow> 'w \<Rightarrow> write_outcome list \<times> 'w" where
  "execute_all write [] w = ([], w)"
| "execute_all write (s # ss) w =
     (case write (ws_offset s) (ws_data s) w of
        None \<Rightarrow> ([], w)
      | Some (answer, w') \<Rightarrow> (case execute_all write ss w' of (outs, w'') \<Rightarrow> (execute_write answer # outs, w'')))"

definition write_range :: "write_submission \<Rightarrow> nat set" where
  "write_range s = {ws_offset s..<ws_offset s + length (ws_data s)}"

locale write_backend =
  fixes write_blocking :: "'w write_backend_fn" and content :: "'w \<Rightarrow> nat list"
  assumes write_ok: "write_blocking offset data w = Some (AnswerOk, w') \<Longrightarrow> content w' = patch offset data (content w)"
    and write_prefix: "write_blocking offset data w = Some (a, w') \<Longrightarrow> \<exists>k\<le>length data. content w' = patch offset (take k data) (content w)"
begin

lemma execute_keeps:
  assumes "execute_all write_blocking ss w = (outs, w')" "p < length (content w)" "\<forall>s\<in>set ss. p \<notin> write_range s"
  shows "p < length (content w') \<and> content w' ! p = content w ! p"
  using assms
proof (induction ss arbitrary: w outs)
  case (Cons s ss)
  show ?case
  proof (cases "write_blocking (ws_offset s) (ws_data s) w")
    case (Some aw)
    obtain a w1 where a: "aw = (a, w1)" by fastforce
    obtain k where k: "k \<le> length (ws_data s)" "content w1 = patch (ws_offset s) (take k (ws_data s)) (content w)"
      using write_prefix Some a by blast
    obtain outs' w2 where e: "execute_all write_blocking ss w1 = (outs', w2)" "w2 = w'"
      using Cons.prems(1) Some a by (auto split: prod.splits)
    have out: "p < ws_offset s \<or> ws_offset s + length (ws_data s) \<le> p" using Cons.prems(3) by (auto simp: write_range_def)
    have "content w1 ! p = content w ! p" unfolding k(2) by (rule patch_outside) (use Cons.prems(2) out k(1) in auto)
    moreover have "p < length (content w1)"
      using k(2) Cons.prems(2) patch_length [of "take k (ws_data s)" "ws_offset s" "content w"] by (cases "take k (ws_data s) = []") auto
    ultimately show ?thesis using Cons.IH [OF e(1) [unfolded e(2)]] Cons.prems(3) by auto
  qed (use Cons.prems in simp)
qed simp

text \<open>
  A completed write has its bytes in the file, whatever became of the other writes, as long as they are
  for other places.
\<close>

lemma completed_write_in_file:
  assumes "execute_all write_blocking ss w = (outs, w')" "i < length outs" "outs ! i = WriteCompleted"
    and "\<forall>j<length ss. j \<noteq> i \<longrightarrow> write_range (ss ! j) \<inter> write_range (ss ! i) = {}" "p \<in> write_range (ss ! i)"
  shows "p < length (content w') \<and> content w' ! p = ws_data (ss ! i) ! (p - ws_offset (ss ! i))"
  using assms
proof (induction ss arbitrary: w outs i)
  case (Cons s ss)
  obtain a w1 where a: "write_blocking (ws_offset s) (ws_data s) w = Some (a, w1)"
    using Cons.prems(1,2) by (auto split: option.splits)
  obtain outs' w2 where e: "execute_all write_blocking ss w1 = (outs', w2)" by fastforce
  have o: "outs = execute_write a # outs'" "w2 = w'" using Cons.prems(1) a e by auto
  show ?case
  proof (cases i)
    case 0
    then have "a = AnswerOk" using Cons.prems(3) o(1) by (cases a) (auto simp: execute_write_def)
    then have c: "content w1 = patch (ws_offset s) (ws_data s) (content w)" using write_ok a by blast
    have r: "ws_offset s \<le> p" "p < ws_offset s + length (ws_data s)" using Cons.prems(5) 0 by (auto simp: write_range_def)
    have "ws_data s \<noteq> []" using r by auto
    then have p: "p < length (content w1)" "content w1 ! p = ws_data s ! (p - ws_offset s)"
      using r patch_length [of "ws_data s" "ws_offset s" "content w"] by (auto simp: c patch_inside)
    have "p \<notin> write_range t" if t: "t \<in> set ss" for t
    proof -
      obtain j where "j < length ss" "ss ! j = t" using t by (auto simp: in_set_conv_nth)
      then have "write_range t \<inter> write_range s = {}" using Cons.prems(4) [THEN spec, of "Suc j"] 0 by simp
      then show ?thesis using Cons.prems(5) 0 by auto
    qed
    then show ?thesis using execute_keeps [OF e p(1)] p(2) o(2) 0 by auto
  next
    case (Suc j)
    have "\<forall>k<length ss. k \<noteq> j \<longrightarrow> write_range (ss ! k) \<inter> write_range (ss ! j) = {}"
    proof (intro allI impI)
      fix k assume "k < length ss" "k \<noteq> j"
      then show "write_range (ss ! k) \<inter> write_range (ss ! j) = {}" using Cons.prems(4) [THEN spec, of "Suc k"] Suc by simp
    qed
    then show ?thesis using Cons.IH [OF e [unfolded o(2)], of j] Cons.prems o(1) Suc by auto
  qed
qed simp

end

section \<open>The write handle\<close>

text \<open>The file behind a handle, with the answers of the operating system to each of its calls.\<close>

record handle_file =
  hf_content :: "nat list"
  hf_calls :: "pos_answer list list"

definition handle_write_blocking :: "handle_file write_backend_fn" where
  "handle_write_blocking offset bytes w =
     (case hf_calls w of
        [] \<Rightarrow> None
      | answers # calls \<Rightarrow>
          (case write_all_at answers offset bytes (hf_content w) of
             (None, _) \<Rightarrow> None
           | (Some (Inr _), content) \<Rightarrow> Some (AnswerOk, \<lparr>hf_content = content, hf_calls = calls\<rparr>)
           | (Some (Inl e), content) \<Rightarrow> Some (AnswerErr (sink_error e), \<lparr>hf_content = content, hf_calls = calls\<rparr>)))"

interpretation handle: write_backend handle_write_blocking hf_content
proof
  fix offset data w w'
  assume "handle_write_blocking offset data w = Some (AnswerOk, w')"
  then obtain answers calls where "write_all_at answers offset data (hf_content w) = (Some (Inr ()), hf_content w')"
    by (auto simp: handle_write_blocking_def split: list.splits prod.splits option.splits sum.splits)
  from write_all_returns [OF this] show "hf_content w' = patch offset data (hf_content w)" by auto
next
  fix offset data w a w'
  assume "handle_write_blocking offset data w = Some (a, w')"
  then obtain answers r where "write_all_at answers offset data (hf_content w) = (r, hf_content w')"
    by (auto simp: handle_write_blocking_def split: list.splits prod.splits option.splits sum.splits)
  from write_all_returns [OF this] show "\<exists>k\<le>length data. hf_content w' = patch offset (take k data) (hf_content w)" by blast
qed

text \<open>
  Claim C37: whatever short writes, interruptions and errors the operating system answers with, and in whatever
  order the writer threads execute a set of writes to disjoint places, a write that is reported as completed
  has all its bytes in the file at the end of the run.
\<close>

theorem completed_writes_in_file:
  assumes "execute_all handle_write_blocking ss w = (outs, w')" "i < length outs" "outs ! i = WriteCompleted"
    and "\<forall>j<length ss. j \<noteq> i \<longrightarrow> write_range (ss ! j) \<inter> write_range (ss ! i) = {}" "p \<in> write_range (ss ! i)"
  shows "p < length (hf_content w') \<and> hf_content w' ! p = ws_data (ss ! i) ! (p - ws_offset (ss ! i))"
  using assms by (rule handle.completed_write_in_file)

definition demo_writes :: "write_submission list" where
  "demo_writes = [\<lparr>ws_job = 1, ws_lease_id = 1, ws_generation = 0, ws_offset = 2, ws_data = [8, 9]\<rparr>,
     \<lparr>ws_job = 1, ws_lease_id = 2, ws_generation = 0, ws_offset = 0, ws_data = [6, 7]\<rparr>]"

definition demo_handle :: handle_file where
  "demo_handle = \<lparr>hf_content = [], hf_calls = [[Wrote 1, Wrote 1], [Wrote 1, Wrote 0]]\<rparr>"

theorem completed_writes_in_file_witness: "hf_content (snd (execute_all handle_write_blocking demo_writes demo_handle)) ! 3 = 9"
proof -
  obtain outs w where r: "execute_all handle_write_blocking demo_writes demo_handle = (outs, w)" by fastforce
  have "map (\<lambda>x. x = WriteCompleted) (fst (execute_all handle_write_blocking demo_writes demo_handle)) = [True, False]" by code_simp
  then obtain y ys where o: "outs = y # ys" "y = WriteCompleted" unfolding r by (cases outs) auto
  have "\<forall>j<length demo_writes. j \<noteq> 0 \<longrightarrow> write_range (demo_writes ! j) \<inter> write_range (demo_writes ! 0) = {}"
    by (auto simp: demo_writes_def write_range_def nth_Cons')
  moreover have "3 \<in> write_range (demo_writes ! 0)" by (simp add: demo_writes_def write_range_def)
  ultimately have "hf_content w ! 3 = ws_data (demo_writes ! 0) ! (3 - ws_offset (demo_writes ! 0))"
    using completed_writes_in_file [OF r, of 0 3] o by simp
  then show ?thesis unfolding r by (simp add: demo_writes_def)
qed

end
