(* ===== verification/Job_Completion.thy ===== *)
theory Job_Completion
  imports Output_Files Job_State Engine_Config Transfer_Run
begin

text \<open>
  The end of a job (\<open>job/controller.rs\<close>): verification of the assembled output, publication, the checkpoint,
  the clean-up after a cancellation, and the typed result. The digest functions and the checkpoint store are
  arguments; the events are a log.
\<close>

section \<open>Helpers\<close>

definition publication_mode :: "overwrite_policy \<Rightarrow> publish_mode" where
  "publication_mode policy =
     (case policy of
        FailIfExists \<Rightarrow> NoReplace
      | overwrite_policy.Replace \<Rightarrow> publish_mode.Replace
      | ResumeIfMatching \<Rightarrow> publish_mode.Replace
      | Rename \<Rightarrow> NoReplace)"

text \<open>A cancellation token as the answers it gives, and whether a deadline cancelled it.\<close>

record cancel_view =
  cv_polls :: "bool list"
  cv_deadline :: bool

definition is_cancelled :: "cancel_view \<Rightarrow> bool \<times> cancel_view" where
  "is_cancelled cv = (case cv_polls cv of [] \<Rightarrow> (False, cv) | b # rest \<Rightarrow> (b, cv\<lparr>cv_polls := rest\<rparr>))"

definition cancellation_error :: "cancel_view \<Rightarrow> download_error" where
  "cancellation_error cv = (if cv_deadline cv then DeadlineExceeded else download_error.Cancelled)"

definition HASH_CHUNK :: nat where
  "HASH_CHUNK = 256 * 1024"

text \<open>The reads of \<open>hash_file_bounded\<close>, with the bytes fed to the digest so far.\<close>

function read_chunks :: "cancel_view \<Rightarrow> file_system \<Rightarrow> nat list \<Rightarrow> nat list \<Rightarrow> (download_error + nat list) \<times> cancel_view \<times> file_system" where
  "read_chunks cv fs fed rest =
     (case is_cancelled cv of
        (True, cv') \<Rightarrow> (Inl (cancellation_error cv'), cv', fs)
      | (False, cv') \<Rightarrow>
          (case sys_call fs of
             (Some e, fs') \<Rightarrow> (Inl (SinkWrite (sx_text e)), cv', fs')
           | (None, fs') \<Rightarrow>
               if rest = [] then (Inr fed, cv', fs')
               else read_chunks cv' fs' (fed @ take HASH_CHUNK rest) (drop HASH_CHUNK rest)))"
  by pat_completeness auto

termination
  by (relation "measure (\<lambda>(cv, fs, fed, rest). length rest)") (auto simp: HASH_CHUNK_def)

declare read_chunks.simps [simp del]

definition hash_file_bounded :: "(nat list \<Rightarrow> nat list) \<Rightarrow> fpath \<Rightarrow> cancel_view \<Rightarrow> file_system \<Rightarrow> (download_error + string) \<times> cancel_view \<times> file_system" where
  "hash_file_bounded digest path cv fs =
     (case open_existing path fs of
        (Inl e, fs') \<Rightarrow> (Inl (sink_error e), cv, fs')
      | (Inr ino, fs') \<Rightarrow>
          (case read_chunks cv fs' [] (fs_bytes fs' ino) of
             (Inl e, cv', fs'') \<Rightarrow> (Inl e, cv', fs'')
           | (Inr fed, cv', fs'') \<Rightarrow> (Inr (hex_digest (digest fed)), cv', fs'')))"

definition debug_algorithm :: "hash_algorithm \<Rightarrow> string" where
  "debug_algorithm a = (case a of Sha256 \<Rightarrow> ''Sha256'' | Sha512 \<Rightarrow> ''Sha512'')"

fun check_hashes :: "(hash_algorithm \<Rightarrow> nat list \<Rightarrow> nat list) \<Rightarrow> expected_hash list \<Rightarrow> fpath \<Rightarrow> cancel_view \<Rightarrow> file_system
    \<Rightarrow> (download_error + unit) \<times> cancel_view \<times> file_system" where
  "check_hashes digest [] path cv fs = (Inr (), cv, fs)"
| "check_hashes digest (expected # rest) path cv fs =
     (case hash_file_bounded (digest (eh_algorithm expected)) path cv fs of
        (Inl e, cv', fs') \<Rightarrow> (Inl e, cv', fs')
      | (Inr computed, cv', fs') \<Rightarrow>
          if computed \<noteq> to_ascii_lowercase (eh_hex expected)
          then (Inl (IntegrityMismatch (debug_algorithm (eh_algorithm expected) @ '' digest mismatch: expected '' @ eh_hex expected
                  @ '', computed '' @ computed)), cv', fs')
          else check_hashes digest rest path cv' fs')"

definition verify_hashes :: "(hash_algorithm \<Rightarrow> nat list \<Rightarrow> nat list) \<Rightarrow> integrity_policy \<Rightarrow> fpath \<Rightarrow> cancel_view \<Rightarrow> file_system
    \<Rightarrow> (download_error + unit) \<times> cancel_view \<times> file_system" where
  "verify_hashes digest integrity path cv fs =
     (case is_cancelled cv of
        (True, cv') \<Rightarrow> (Inl (cancellation_error cv'), cv', fs)
      | (False, cv') \<Rightarrow> check_hashes digest (ip_expected_hashes integrity) path cv' fs)"

section \<open>Terminal results\<close>

definition moved :: "job_state \<Rightarrow> state_machine \<Rightarrow> state_machine" where
  "moved s m = snd (sm_transition s m)"

definition terminal_error :: "download_error \<Rightarrow> transfer_accounting \<Rightarrow> artifact_disposition \<Rightarrow> cancel_mode \<Rightarrow> state_machine
    \<Rightarrow> download_run_error \<times> state_machine" where
  "terminal_error e accounting artifacts mode m =
     (case error_domain e of
        DomTransfer \<Rightarrow> RunTransfer \<lparr>tf_error = e, tf_partial = accounting, tf_artifacts = artifacts\<rparr>
      | DomInfrastructure \<Rightarrow> RunInfrastructure \<lparr>ef_error = e, ef_partial = accounting, ef_artifacts = artifacts\<rparr>
      | DomCancelled \<Rightarrow> RunCancelled \<lparr>cs_mode = mode, cs_partial = accounting, cs_artifacts = artifacts\<rparr>,
      moved job_state.Failed (moved Failing m))"

definition checkpoint_cleanup_warning :: "checkpoint_error \<Rightarrow> string" where
  "checkpoint_cleanup_warning error = ''checkpoint cleanup incomplete ('' @ display_checkpoint_error error @ ''); manual cleanup may be required''"

record cancel_cleanup =
  cc_warnings :: "string list"
  cc_artifacts :: artifact_disposition

type_synonym 's deleter = "string \<Rightarrow> 's \<Rightarrow> (checkpoint_error + unit) \<times> 's"

definition delete_with_warning :: "'s deleter \<Rightarrow> string \<Rightarrow> 's \<Rightarrow> bool \<times> string list \<times> 's" where
  "delete_with_warning delete identity store =
     (case delete identity store of
        (Inl e, store') \<Rightarrow> (True, [checkpoint_cleanup_warning e], store')
      | (Inr _, store') \<Rightarrow> (False, [], store'))"

definition cleanup_cancelled :: "'s deleter \<Rightarrow> cancel_mode \<Rightarrow> string \<Rightarrow> output_session \<Rightarrow> file_system \<Rightarrow> 's
    \<Rightarrow> cancel_cleanup \<times> output_session \<times> file_system \<times> 's" where
  "cleanup_cancelled delete mode identity ses fs store =
     (case mode of
        DeletePartial \<Rightarrow>
          (case session_abort ses fs of
             (aborted, ses', fs') \<Rightarrow>
               (case delete_with_warning delete identity store of
                  (kept, warnings, store') \<Rightarrow>
                    (\<lparr>cc_warnings = warnings, cc_artifacts = \<lparr>ad_temp_retained = (case aborted of Inl _ \<Rightarrow> True | Inr _ \<Rightarrow> False), ad_checkpoint_retained = kept\<rparr>\<rparr>,
                     ses', fs', store')))
      | KeepPartial \<Rightarrow>
          (\<lparr>cc_warnings = [], cc_artifacts = \<lparr>ad_temp_retained = True, ad_checkpoint_retained = True\<rparr>\<rparr>,
           preserve_partial ses, snd (session_flush PageCache ses fs), store)
      | KeepFileDiscardCheckpoint \<Rightarrow>
          (case delete_with_warning delete identity store of
             (kept, warnings, store') \<Rightarrow>
               (\<lparr>cc_warnings = warnings, cc_artifacts = \<lparr>ad_temp_retained = True, ad_checkpoint_retained = kept\<rparr>\<rparr>,
                preserve_partial ses, snd (session_flush PageCache ses fs), store')))"

section \<open>Completion\<close>

datatype completion_event = CheckStarted | CheckFailed string | CheckPassed | CompletionWarning string | CommittedTo string

record 's completion_env =
  en_overwrite :: overwrite_policy
  en_integrity :: integrity_policy
  en_identity :: string
  en_digest :: "hash_algorithm \<Rightarrow> nat list \<Rightarrow> nat list"
  en_delete :: "'s deleter"

record 's job_world =
  jw_fs :: file_system
  jw_state :: state_machine
  jw_store :: 's
  jw_events :: "completion_event list"

definition emit :: "completion_event \<Rightarrow> 's job_world \<Rightarrow> 's job_world" where
  "emit e w = w\<lparr>jw_events := jw_events w @ [e]\<rparr>"

definition sink_display :: "download_error \<Rightarrow> string" where
  "sink_display e = ''sink error: '' @ display_error e"

text \<open>A failed return of \<open>complete_verified_output\<close>: the terminal error, and the session is dropped.\<close>

definition fail_completion :: "output_session \<Rightarrow> transfer_accounting \<Rightarrow> bool \<Rightarrow> download_error \<Rightarrow> 's job_world
    \<Rightarrow> (download_run_error + completed_download) \<times> 's job_world" where
  "fail_completion ses accounting checkpoint_retained e w =
     (case terminal_error e accounting \<lparr>ad_temp_retained = preserves_partial_on_drop ses, ad_checkpoint_retained = checkpoint_retained\<rparr>
             DeletePartial (jw_state w) of
        (err, m) \<Rightarrow> (Inl err, w\<lparr>jw_state := m, jw_fs := session_drop ses (jw_fs w)\<rparr>))"

text \<open>The size checks: the accepted bytes and the file against the expected size, or the file cut to the accepted bytes.\<close>

definition check_size :: "output_session \<Rightarrow> transfer_accounting \<Rightarrow> u64 \<Rightarrow> 's job_world \<Rightarrow> (download_error + unit) \<times> 's job_world" where
  "check_size ses accounting accepted_bytes w =
     (case session_size ses (jw_fs w) of
        (Inl e, fs) \<Rightarrow> (Inl e, emit (CheckFailed (display_error e)) (w\<lparr>jw_fs := fs\<rparr>))
      | (Inr found, fs) \<Rightarrow>
          (case ta_total_size accounting of
             Some expected \<Rightarrow>
               if accepted_bytes \<noteq> expected \<or> found \<noteq> expected
               then let e = IntegrityMismatch (''size mismatch: acknowledged '' @ show_u64 accepted_bytes @ '', got '' @ show_u64 found
                              @ '', expected '' @ show_u64 expected)
                    in (Inl e, emit (CheckFailed (display_error e)) (w\<lparr>jw_fs := fs\<rparr>))
               else (Inr (), w\<lparr>jw_fs := fs\<rparr>)
           | None \<Rightarrow>
               if found \<noteq> accepted_bytes
               then (case session_truncate_to accepted_bytes ses fs of
                       (Inl e, fs') \<Rightarrow> (Inl e, emit (CheckFailed (sink_display e)) (w\<lparr>jw_fs := fs'\<rparr>))
                     | (Inr _, fs') \<Rightarrow> (Inr (), w\<lparr>jw_fs := fs'\<rparr>))
               else (Inr (), w\<lparr>jw_fs := fs\<rparr>)))"

definition check_integrity :: "'s completion_env \<Rightarrow> output_session \<Rightarrow> cancel_view \<Rightarrow> 's job_world
    \<Rightarrow> (download_error + unit) \<times> cancel_view \<times> 's job_world" where
  "check_integrity env ses cv w =
     (if ip_expected_hashes (en_integrity env) = [] then (Inr (), cv, w)
      else case verify_hashes (en_digest env) (en_integrity env) (os_temp_path ses) cv (jw_fs w) of
             (Inr _, cv', fs) \<Rightarrow> (Inr (), cv', emit CheckPassed (w\<lparr>jw_fs := fs\<rparr>))
           | (Inl e, cv', fs) \<Rightarrow> (Inl e, cv', emit (CheckFailed (display_error e)) (w\<lparr>jw_fs := fs\<rparr>)))"

text \<open>From the finalisation on: publication, the checkpoint and the result.\<close>

definition publish_output :: "'s completion_env \<Rightarrow> output_session \<Rightarrow> transfer_accounting \<Rightarrow> bool \<Rightarrow> 's job_world
    \<Rightarrow> (download_run_error + completed_download) \<times> 's job_world" where
  "publish_output env ses accounting checkpoint_retained w =
     (case session_finalize ses (jw_fs w) of
        (Inl e, fs) \<Rightarrow> fail_completion ses accounting checkpoint_retained e (w\<lparr>jw_fs := fs\<rparr>)
      | (Inr ses', fs) \<Rightarrow>
          (case session_commit (publication_mode (en_overwrite env)) ses' fs of
             (Inl e, trace) \<Rightarrow>
               (case terminal_error e accounting \<lparr>ad_temp_retained = preserves_partial_on_drop ses, ad_checkpoint_retained = checkpoint_retained\<rparr>
                       DeletePartial (jw_state w) of
                  (err, m) \<Rightarrow> (Inl err, w\<lparr>jw_state := m, jw_fs := last trace\<rparr>))
           | (Inr (final_path, warning), trace) \<Rightarrow>
               let published_warnings = (case warning of Some t \<Rightarrow> [t] | None \<Rightarrow> [])
               in case delete_with_warning (en_delete env) (en_identity env) (jw_store w) of
                    (_, cleanup_warnings, store) \<Rightarrow>
                      let w' = fold (\<lambda>t. emit (CompletionWarning t)) (published_warnings @ cleanup_warnings)
                                 (w\<lparr>jw_fs := last trace, jw_store := store\<rparr>);
                          accounting' = accounting\<lparr>ta_warnings := ta_warnings accounting @ published_warnings @ cleanup_warnings\<rparr>
                      in (Inr \<lparr>cd_final_path = display final_path, cd_accounting = accounting'\<rparr>,
                          emit (CommittedTo (display final_path)) (w'\<lparr>jw_state := moved job_state.Completed (jw_state w')\<rparr>))))"

definition complete_verified_output :: "'s completion_env \<Rightarrow> output_session \<Rightarrow> transfer_accounting \<Rightarrow> bool \<Rightarrow> u64 \<Rightarrow> cancel_view \<Rightarrow> 's job_world
    \<Rightarrow> (download_run_error + completed_download) \<times> 's job_world" where
  "complete_verified_output env ses accounting checkpoint_retained accepted_bytes cv w =
     (case is_cancelled cv of
        (True, cv1) \<Rightarrow> fail_completion ses accounting checkpoint_retained (cancellation_error cv1) w
      | (False, cv1) \<Rightarrow>
          (let w1 = emit CheckStarted (w\<lparr>jw_state := moved Verifying (jw_state w)\<rparr>)
           in case check_size ses accounting accepted_bytes w1 of
                (Inl e, w2) \<Rightarrow> fail_completion ses accounting checkpoint_retained e w2
              | (Inr _, w2) \<Rightarrow>
                  (case check_integrity env ses cv1 w2 of
                     (Inl e, _, w3) \<Rightarrow> fail_completion ses accounting checkpoint_retained e w3
                   | (Inr _, cv2, w3) \<Rightarrow>
                       (case is_cancelled cv2 of
                          (True, cv3) \<Rightarrow> fail_completion ses accounting checkpoint_retained (cancellation_error cv3) w3
                        | (False, cv3) \<Rightarrow>
                            publish_output env ses accounting checkpoint_retained (w3\<lparr>jw_state := moved Committing (jw_state w3)\<rparr>)))))"

definition segmented_accounting :: "segmented_outcome \<Rightarrow> string list \<Rightarrow> transfer_accounting" where
  "segmented_accounting outcome warnings =
     \<lparr>ta_bytes_downloaded_from_network = ps_network_bytes (so_snapshot outcome),
      ta_bytes_reused_from_checkpoint = ps_reused_bytes (so_snapshot outcome),
      ta_completed_bytes = ps_completed_bytes (so_snapshot outcome), ta_wasted_bytes = ps_wasted_bytes (so_snapshot outcome),
      ta_retries = ps_retries (so_snapshot outcome), ta_segment_requests = so_segment_requests outcome,
      ta_live_splits = so_live_splits outcome, ta_total_size = Some (so_total_size outcome),
      ta_elapsed = ps_elapsed (so_snapshot outcome), ta_validators = so_validators outcome, ta_warnings = warnings\<rparr>"

definition range_total :: "byte_range list \<Rightarrow> u64" where
  "range_total ranges = fold (\<lambda>(s, e) n. u64_add n (sat_add (e - s) 1)) ranges 0"

text \<open>\<open>Panic\<close>: a failed outcome without its error.\<close>

definition finish_segmented :: "'s completion_env \<Rightarrow> segmented_outcome \<Rightarrow> output_session \<Rightarrow> string list \<Rightarrow> bool \<Rightarrow> cancel_view \<Rightarrow> 's job_world
    \<Rightarrow> ((download_run_error + completed_download) \<times> 's job_world) outcome" where
  "finish_segmented env outcome ses warnings checkpoint_retained cv w =
     (let accounting = segmented_accounting outcome (warnings @ so_warnings outcome)
      in case so_status outcome of
           StatusCancelled \<Rightarrow>
             Done (Inl (RunCancelled \<lparr>cs_mode = so_cancel_mode outcome, cs_partial = accounting, cs_artifacts = so_artifacts outcome\<rparr>),
               w\<lparr>jw_state := moved job_state.Cancelled (moved Cancelling (jw_state w)), jw_fs := session_drop ses (jw_fs w)\<rparr>)
         | StatusFailed \<Rightarrow>
             (case so_error outcome of
                None \<Rightarrow> Panic
              | Some e \<Rightarrow>
                  (case terminal_error e accounting (so_artifacts outcome) (so_cancel_mode outcome) (jw_state w) of
                     (err, m) \<Rightarrow> Done (Inl err, w\<lparr>jw_state := m, jw_fs := session_drop ses (jw_fs w)\<rparr>)))
         | StatusCompleted \<Rightarrow>
             Done (complete_verified_output env ses accounting checkpoint_retained (range_total (so_completed_ranges outcome)) cv w))"

section \<open>A completed job has published what it verified\<close>

text \<open>A session with the only handle of its file, and one whose file is also the entry at the temporary path.\<close>

definition output_open :: "output_session \<Rightarrow> file_sink \<Rightarrow> nat \<Rightarrow> bool" where
  "output_open ses k ino \<longleftrightarrow> os_sink ses = Some k \<and> os_shared ses = None \<and> fk_file k = Some ino
     \<and> fk_temp_path k = os_temp_path ses \<and> fk_temp_path k \<noteq> fk_destination k"

definition output_ready :: "output_session \<Rightarrow> file_sink \<Rightarrow> nat \<Rightarrow> file_system \<Rightarrow> bool" where
  "output_ready ses k ino fs \<longleftrightarrow> output_open ses k ino \<and> entry_at fs (fk_temp_path k) = Some (FileNode ino)"

text \<open>Two file systems with the same entries and the same bytes.\<close>

definition same_fs :: "file_system \<Rightarrow> file_system \<Rightarrow> bool" where
  "same_fs fs fs' \<longleftrightarrow> fs_entries fs' = fs_entries fs \<and> fs_bytes fs' = fs_bytes fs"

lemma same_fs_refl [simp]: "same_fs fs fs"
  by (simp add: same_fs_def)

lemma same_fs_trans: "same_fs a b \<Longrightarrow> same_fs b c \<Longrightarrow> same_fs a c"
  by (simp add: same_fs_def)

lemma sys_call_fs: "sys_call fs = (f, fs') \<Longrightarrow> same_fs fs fs'"
  using sys_call_same by (simp add: same_fs_def)

lemma session_size_effect:
  assumes "output_open ses k ino" "session_size ses fs = (r, fs')"
  shows "same_fs fs fs' \<and> (\<forall>n. r = Inr n \<longrightarrow> n = length (fs_bytes fs ino))"
  using assms sys_call_fs [of fs] by (auto simp: output_open_def session_size_def sink_mut_def sink_size_def same_fs_def split: prod.splits option.splits)

text \<open>A file cut or extended with zeros to a length.\<close>

definition sized :: "nat \<Rightarrow> nat list \<Rightarrow> nat list" where
  "sized n content = take n (content @ replicate (n - length content) 0)"

lemma sized_length [simp]: "length (sized n content) = n"
  by (simp add: sized_def)

lemma sized_same [simp]: "sized (length content) content = content"
  by (simp add: sized_def)

lemma session_truncate_effect:
  assumes "output_open ses k ino" "session_truncate_to len ses fs = (r, fs')"
  shows "fs_entries fs' = fs_entries fs \<and> (\<forall>u. r = Inr u \<longrightarrow> fs_bytes fs' ino = sized len (fs_bytes fs ino))"
  using assms sys_call_fs [of fs]
  by (auto simp: output_open_def session_truncate_to_def sink_mut_def sink_truncate_to_def set_len_def same_fs_def sized_def split: prod.splits option.splits sum.splits)

lemma read_chunks_effect: "read_chunks cv fs fed rest = (r, cv', fs') \<Longrightarrow> same_fs fs fs' \<and> (\<forall>d. r = Inr d \<longrightarrow> d = fed @ rest)"
proof (induction cv fs fed rest arbitrary: r cv' fs' rule: read_chunks.induct)
  case (1 cv fs fed rest)
  obtain b cv1 where b: "is_cancelled cv = (b, cv1)" by fastforce
  obtain f fs1 where f: "sys_call fs = (f, fs1)" by fastforce
  note eq = "1.prems" [unfolded read_chunks.simps [of cv fs fed rest]]
  show ?case
  proof (cases "b \<or> f \<noteq> None \<or> rest = []")
    case True
    then show ?thesis using eq b f sys_call_fs [OF f] by (auto split: bool.splits option.splits if_splits)
  next
    case False
    then have rec: "read_chunks cv1 fs1 (fed @ take HASH_CHUNK rest) (drop HASH_CHUNK rest) = (r, cv', fs')" using eq b f by simp
    have "same_fs fs1 fs' \<and> (\<forall>d. r = Inr d \<longrightarrow> d = (fed @ take HASH_CHUNK rest) @ drop HASH_CHUNK rest)"
      by (rule "1.IH" [OF b [symmetric] _ f [symmetric] _ _ rec]) (use False in auto)
    then show ?thesis using same_fs_trans [OF sys_call_fs [OF f]] by simp
  qed
qed

lemma hash_file_effect:
  assumes "entry_at fs path = Some (FileNode ino)" "hash_file_bounded digest path cv fs = (r, cv', fs')"
  shows "same_fs fs fs' \<and> (\<forall>h. r = Inr h \<longrightarrow> h = hex_digest (digest (fs_bytes fs ino)))"
proof -
  obtain x fs1 where f: "sys_call fs = (x, fs1)" by fastforce
  note e = sys_call_fs [OF f, unfolded same_fs_def]
  show ?thesis
  proof (cases x)
    case None
    obtain d cv2 fs2 where rd: "read_chunks cv fs1 [] (fs_bytes fs1 ino) = (d, cv2, fs2)" by (metis prod_cases3)
    have "open_existing path fs = (Inr ino, fs1)" using assms(1) f e None by (simp add: open_existing_def)
    then show ?thesis using assms(2) rd read_chunks_effect [OF rd] e by (auto simp: hash_file_bounded_def same_fs_def split: sum.splits)
  qed (use assms f e in \<open>auto simp: hash_file_bounded_def open_existing_def same_fs_def\<close>)
qed

lemma check_hashes_effect:
  "entry_at fs path = Some (FileNode ino) \<Longrightarrow> check_hashes digest hs path cv fs = (r, cv', fs') \<Longrightarrow>
   same_fs fs fs' \<and> (\<forall>u. r = Inr u \<longrightarrow> (\<forall>h\<in>set hs. hex_digest (digest (eh_algorithm h) (fs_bytes fs ino)) = to_ascii_lowercase (eh_hex h)))"
proof (induction hs arbitrary: cv fs)
  case (Cons h hs)
  obtain c cv1 fs1 where c: "hash_file_bounded (digest (eh_algorithm h)) path cv fs = (c, cv1, fs1)" by (metis prod_cases3)
  note e = hash_file_effect [OF Cons.prems(1) c]
  show ?case
  proof (cases "\<exists>x. c = Inr x \<and> x = to_ascii_lowercase (eh_hex h)")
    case True
    then have rec: "check_hashes digest hs path cv1 fs1 = (r, cv', fs')" using Cons.prems(2) c by auto
    have "entry_at fs1 path = Some (FileNode ino)" using Cons.prems(1) e by (simp add: same_fs_def)
    from Cons.IH [OF this rec] show ?thesis using e True by (auto simp: same_fs_def)
  qed (use Cons.prems(2) c e in \<open>auto split: sum.splits if_splits\<close>)
qed simp

lemma emit_fs [simp]: "jw_fs (emit e w) = jw_fs w" "jw_state (emit e w) = jw_state w"
  by (simp_all add: emit_def)

lemma fold_emit_fs [simp]: "jw_fs (fold (\<lambda>t. emit (f t)) ts w) = jw_fs w"
  by (induction ts arbitrary: w) simp_all

lemma check_size_effect:
  assumes opened: "output_open ses k ino" and run: "check_size ses accounting accepted w = (r, w')"
  shows "fs_entries (jw_fs w') = fs_entries (jw_fs w)
    \<and> (\<forall>u. r = Inr u \<longrightarrow> fs_bytes (jw_fs w') ino = sized accepted (fs_bytes (jw_fs w) ino) \<and> (\<forall>n. ta_total_size accounting = Some n \<longrightarrow> accepted = n))"
proof -
  obtain n fs where n: "session_size ses (jw_fs w) = (n, fs)" by fastforce
  note e = session_size_effect [OF opened n]
  obtain t fs2 where t: "session_truncate_to accepted ses fs = (t, fs2)" by fastforce
  note e2 = session_truncate_effect [OF opened t]
  show ?thesis using run e e2 unfolding check_size_def n t same_fs_def
    by (auto simp: Let_def t split: sum.splits option.splits if_splits)
qed

lemma check_integrity_effect:
  assumes ready: "output_ready ses k ino (jw_fs w)" and run: "check_integrity env ses cv w = (r, cv', w')"
  shows "same_fs (jw_fs w) (jw_fs w')
    \<and> (\<forall>u. r = Inr u \<longrightarrow> (\<forall>h\<in>set (ip_expected_hashes (en_integrity env)).
         hex_digest (en_digest env (eh_algorithm h) (fs_bytes (jw_fs w) ino)) = to_ascii_lowercase (eh_hex h)))"
proof -
  obtain b cv1 where b: "is_cancelled cv = (b, cv1)" by fastforce
  obtain v cv2 fs where v: "check_hashes (en_digest env) (ip_expected_hashes (en_integrity env)) (os_temp_path ses) cv1 (jw_fs w) = (v, cv2, fs)"
    by (metis prod_cases3)
  have "entry_at (jw_fs w) (os_temp_path ses) = Some (FileNode ino)" using ready by (auto simp: output_ready_def output_open_def)
  from check_hashes_effect [OF this v] show ?thesis
    using run b v by (auto simp: check_integrity_def verify_hashes_def split: if_splits bool.splits sum.splits)
qed

lemma session_drop_entry:
  assumes "os_sink ses = Some k" "dst \<noteq> fk_temp_path k"
  shows "entry_at (session_drop ses fs) dst = entry_at fs dst"
proof -
  obtain r fs' where r: "remove_file (fk_temp_path k) fs = (r, fs')" by fastforce
  show ?thesis using assms remove_file_effect [OF r] r by (auto simp: session_drop_def sink_drop_def set_keep_on_drop_def)
qed

lemma fail_effect:
  assumes "output_open ses k ino" "fail_completion ses accounting retained e w = (r, w')"
  shows "(\<exists>x. r = Inl x) \<and> entry_at (jw_fs w') (fk_destination k) = entry_at (jw_fs w) (fk_destination k)"
  using assms session_drop_entry [of ses k "fk_destination k" "jw_fs w"] by (auto simp: fail_completion_def output_open_def split: prod.splits)

text \<open>A finalised session commits without an identity.\<close>

lemma finalize_commit:
  assumes ready: "output_ready ses k ino fs" and fin: "session_finalize ses fs = (Inr ses', fs1)"
    and commit: "session_commit mode ses' fs1 = (r, trace)"
  shows "same_fs fs fs1 \<and> (case r of
      Inl _ \<Rightarrow> entry_at (last trace) (fk_destination k) = entry_at fs (fk_destination k)
    | Inr _ \<Rightarrow> entry_at (last trace) (fk_destination k) = Some (FileNode ino) \<and> fs_bytes (last trace) = fs_bytes fs
        \<and> (mode = NoReplace \<longrightarrow> entry_at fs (fk_destination k) = None))"
proof -
  obtain f fs2 where f: "sys_call fs = (f, fs2)" by fastforce
  have fin': "fs1 = fs2" "ses' = ses\<lparr>os_sink := Some (k\<lparr>fk_file := None, fk_finalized := True\<rparr>)\<rparr>" "f = None"
    using ready fin f by (auto simp: output_ready_def output_open_def session_finalize_def sink_mut_def sink_finalize_def sink_flush_def split: option.splits)
  note e = sys_call_fs [OF f]
  obtain p tr where p: "publish_verified (fk_temp_path k) (fk_destination k) mode None fs1 = (p, tr)" by fastforce
  have tmp: "fk_temp_path k \<noteq> fk_destination k" "entry_at fs1 (fk_temp_path k) = Some (FileNode ino)"
    using ready e fin'(1) by (auto simp: output_ready_def output_open_def same_fs_def)
  have ops: "publish_with_ops (fk_temp_path k) (fk_destination k) mode fs1 = (p, tr)" using p by (simp add: publish_verified_def)
  note eff = publish_ops_effect [OF ops tmp(1)]
  have r: "trace = fs1 # tr" "(\<exists>x. p = Inl x \<and> (\<exists>y. r = Inl y)) \<or> (\<exists>wn y. p = Inr wn \<and> r = Inr y)"
    using commit ready p fin' by (auto simp: session_commit_def reclaim_exclusive_def output_ready_def output_open_def sink_commit_def split: sum.splits)
  have "last trace = last tr" "publish_state (fk_temp_path k) (fk_destination k) mode fs1 (last tr)" using r(1) eff by auto
  then show ?thesis using r(2) eff tmp e fin'(1) by (auto simp: published_def publish_state_def same_fs_def)
qed

lemma publish_output_effect:
  assumes ready: "output_ready ses k ino (jw_fs w)" and run: "publish_output env ses accounting retained w = (r, w')"
  shows "case r of
      Inl _ \<Rightarrow> entry_at (jw_fs w') (fk_destination k) = entry_at (jw_fs w) (fk_destination k)
    | Inr _ \<Rightarrow> entry_at (jw_fs w') (fk_destination k) = Some (FileNode ino) \<and> fs_bytes (jw_fs w') = fs_bytes (jw_fs w)
        \<and> (publication_mode (en_overwrite env) = NoReplace \<longrightarrow> entry_at (jw_fs w) (fk_destination k) = None)"
proof -
  obtain q fs1 where q: "session_finalize ses (jw_fs w) = (q, fs1)" by fastforce
  have opened: "output_open ses k ino" using ready by (simp add: output_ready_def)
  show ?thesis
  proof (cases q)
    case (Inl e)
    obtain f fs2 where f: "sys_call (jw_fs w) = (f, fs2)" by fastforce
    have "same_fs (jw_fs w) fs1" using q Inl ready f sys_call_fs [OF f]
      by (auto simp: output_ready_def output_open_def session_finalize_def sink_mut_def sink_finalize_def sink_flush_def split: option.splits)
    then show ?thesis using run q Inl fail_effect [OF opened, of accounting retained e "w\<lparr>jw_fs := fs1\<rparr>" r w']
      by (auto simp: publish_output_def same_fs_def)
  next
    case (Inr ses')
    obtain c trace where c: "session_commit (publication_mode (en_overwrite env)) ses' fs1 = (c, trace)" by fastforce
    note e = finalize_commit [OF ready q [unfolded Inr] c]
    show ?thesis
    proof (cases c)
      case (Inl x)
      then show ?thesis using run q Inr c e by (auto simp: publish_output_def split: prod.splits)
    next
      case c': (Inr x)
      obtain fp wn where x: "x = (fp, wn)" by fastforce
      obtain kept cw st where d: "delete_with_warning (en_delete env) (en_identity env) (jw_store w) = (kept, cw, st)" by (metis prod_cases3)
      have "r = Inr \<lparr>cd_final_path = display fp, cd_accounting = accounting\<lparr>ta_warnings := ta_warnings accounting @ (case wn of Some t \<Rightarrow> [t] | None \<Rightarrow> []) @ cw\<rparr>\<rparr>"
          "jw_fs w' = last trace"
        using run q Inr c c' x d by (auto simp: publish_output_def Let_def)
      then show ?thesis using e c' by simp
    qed
  qed
qed

lemma completion_effect:
  assumes "output_ready ses k ino (jw_fs w)" "complete_verified_output env ses accounting retained accepted cv w = (r, w')"
  shows "case r of
      Inl _ \<Rightarrow> entry_at (jw_fs w') (fk_destination k) = entry_at (jw_fs w) (fk_destination k)
    | Inr _ \<Rightarrow> entry_at (jw_fs w') (fk_destination k) = Some (FileNode ino)
        \<and> fs_bytes (jw_fs w') ino = sized accepted (fs_bytes (jw_fs w) ino) \<and> (\<forall>n. ta_total_size accounting = Some n \<longrightarrow> accepted = n)
        \<and> (\<forall>h\<in>set (ip_expected_hashes (en_integrity env)).
             hex_digest (en_digest env (eh_algorithm h) (fs_bytes (jw_fs w') ino)) = to_ascii_lowercase (eh_hex h))
        \<and> (publication_mode (en_overwrite env) = NoReplace \<longrightarrow> entry_at (jw_fs w) (fk_destination k) = None)"
proof -
  obtain b1 cv1 where b1: "is_cancelled cv = (b1, cv1)" by fastforce
  define w1 where "w1 = emit CheckStarted (w\<lparr>jw_state := moved Verifying (jw_state w)\<rparr>)"
  obtain z w2 where z: "check_size ses accounting accepted w1 = (z, w2)" by fastforce
  obtain i cv2 w3 where i: "check_integrity env ses cv1 w2 = (i, cv2, w3)" by (metis prod_cases3)
  obtain b3 cv3 where b3: "is_cancelled cv2 = (b3, cv3)" by fastforce
  define w4 where "w4 = w3\<lparr>jw_state := moved Committing (jw_state w3)\<rparr>"
  have r1: "output_ready ses k ino (jw_fs w1)" "output_open ses k ino" using assms(1) by (simp_all add: w1_def output_ready_def)
  note e2 = check_size_effect [OF r1(2) z]
  then have r2: "output_ready ses k ino (jw_fs w2)" using r1(1) by (auto simp: output_ready_def)
  note e3 = check_integrity_effect [OF r2 i]
  then have r4: "output_ready ses k ino (jw_fs w4)" using r2 by (auto simp: output_ready_def same_fs_def w4_def)
  have keep: "entry_at (jw_fs w2) = entry_at (jw_fs w)" "entry_at (jw_fs w3) = entry_at (jw_fs w)"
    using e2 e3 by (simp_all add: same_fs_def w1_def)
  note run = assms(2) [unfolded complete_verified_output_def Let_def w1_def [symmetric]]
  note fail = fail_effect [OF r1(2), of accounting retained _ _ r w']
  show ?thesis
  proof (cases "b1 \<or> (\<exists>x. z = Inl x) \<or> (\<exists>x. i = Inl x) \<or> b3")
    case True
    then have "\<exists>e v. fail_completion ses accounting retained e v = (r, w') \<and> entry_at (jw_fs v) = entry_at (jw_fs w)"
      using run keep unfolding b1 z i b3 prod.case by (cases b1; cases z; cases i) (auto simp: z i b3)
    then obtain e v where "fail_completion ses accounting retained e v = (r, w')" "entry_at (jw_fs v) = entry_at (jw_fs w)" by blast
    then show ?thesis using fail [of e v] by auto
  next
    case False
    then obtain zu iu where zi: "z = Inr zu" "i = Inr iu" "\<not> b1" "\<not> b3" by (cases z; cases i) auto
    then have "publish_output env ses accounting retained w4 = (r, w')"
      using run by (simp add: b1 z i b3 w4_def)
    from publish_output_effect [OF r4 this] show ?thesis
      using e2 e3 zi keep by (auto simp: w1_def w4_def same_fs_def split: sum.splits)
  qed
qed

text \<open>Without its entry at the temporary path an output is never published.\<close>

lemma unlinked_publish_fails:
  assumes opened: "output_open ses k ino" and gone: "entry_at (jw_fs w) (fk_temp_path k) = None"
    and run: "publish_output env ses accounting retained w = (r, w')"
  shows "\<exists>e. r = Inl e"
proof -
  obtain f fs1 where f: "sys_call (jw_fs w) = (f, fs1)" by fastforce
  obtain g fs2 where g: "sys_call fs1 = (g, fs2)" by fastforce
  have gone2: "entry_at fs2 (fk_temp_path k) = None" using gone sys_call_fs [OF f] sys_call_fs [OF g] by (simp add: same_fs_def)
  have fin: "session_finalize ses (jw_fs w) = (case f of Some e \<Rightarrow> (Inl (sink_error e), fs1)
      | None \<Rightarrow> (Inr (ses\<lparr>os_sink := Some (k\<lparr>fk_file := None, fk_finalized := True\<rparr>)\<rparr>), fs1))"
    using opened f by (auto simp: output_open_def session_finalize_def sink_mut_def sink_finalize_def sink_flush_def split: option.splits)
  have "\<exists>e trace. session_commit mode (ses\<lparr>os_sink := Some (k\<lparr>fk_file := None, fk_finalized := True\<rparr>)\<rparr>) fs1 = (Inl e, trace)" for mode
    using opened g gone2
    by (cases mode; cases g) (auto simp: output_open_def session_commit_def reclaim_exclusive_def sink_commit_def publish_verified_def
        publish_with_ops_def sys_rename_def sys_hard_link_def)
  then obtain e trace where "session_commit (publication_mode (en_overwrite env)) (ses\<lparr>os_sink := Some (k\<lparr>fk_file := None, fk_finalized := True\<rparr>)\<rparr>) fs1
      = (Inl e, trace)" by blast
  then show ?thesis using run fin by (cases f) (auto simp: publish_output_def fail_completion_def split: prod.splits)
qed

lemma unlinked_integrity:
  assumes opened: "output_open ses k ino" and gone: "entry_at (jw_fs w) (fk_temp_path k) = None"
    and run: "check_integrity env ses cv w = (Inr u, cv', w')"
  shows "w' = w"
proof (cases "ip_expected_hashes (en_integrity env)")
  case (Cons h hs)
  obtain f fs1 where f: "sys_call (jw_fs w) = (f, fs1)" by fastforce
  have "entry_at fs1 (os_temp_path ses) = None" using gone opened sys_call_fs [OF f] by (simp add: same_fs_def output_open_def)
  then have missing: "\<exists>e fs2. hash_file_bounded d (os_temp_path ses) c (jw_fs w) = (Inl e, c, fs2)" for d c
    using f by (auto simp: hash_file_bounded_def open_existing_def split: option.splits)
  obtain b c where b: "is_cancelled cv = (b, c)" by fastforce
  obtain e fs2 where "hash_file_bounded (en_digest env (eh_algorithm h)) (os_temp_path ses) c (jw_fs w) = (Inl e, c, fs2)"
    using missing by blast
  then have "\<exists>e c2 fs2. verify_hashes (en_digest env) (en_integrity env) (os_temp_path ses) cv (jw_fs w) = (Inl e, c2, fs2)"
    using Cons b by (cases b) (simp_all add: verify_hashes_def)
  then show ?thesis using run Cons by (auto simp: check_integrity_def)
qed (use run in \<open>simp add: check_integrity_def\<close>)

lemma unlinked_completion_fails:
  assumes opened: "output_open ses k ino" and gone: "entry_at (jw_fs w) (fk_temp_path k) = None"
    and run: "complete_verified_output env ses accounting retained accepted cv w = (r, w')"
  shows "\<exists>e. r = Inl e"
proof (rule ccontr)
  assume "\<not> ?thesis"
  then obtain c where c: "r = Inr c" by (cases r) auto
  have failed: "fail_completion ses accounting retained x v \<noteq> (Inr c, w')" for x v
    by (auto simp: fail_completion_def split: prod.splits)
  obtain b1 cv1 where b1: "is_cancelled cv = (b1, cv1)" by fastforce
  define w1 where "w1 = emit CheckStarted (w\<lparr>jw_state := moved Verifying (jw_state w)\<rparr>)"
  obtain z w2 where z: "check_size ses accounting accepted w1 = (z, w2)" by fastforce
  obtain i cv2 w3 where i: "check_integrity env ses cv1 w2 = (i, cv2, w3)" by (metis prod_cases3)
  obtain b3 cv3 where b3: "is_cancelled cv2 = (b3, cv3)" by fastforce
  note run' = run [unfolded complete_verified_output_def Let_def w1_def [symmetric] b1 c]
  have b1F: "\<not> b1" using run' failed by (cases b1) simp_all
  moreover obtain zu where zi: "z = Inr zu" using run' failed b1F by (cases z) (simp_all add: z)
  moreover obtain iu where ii: "i = Inr iu" using run' failed b1F zi by (cases i) (simp_all add: z i)
  moreover have "\<not> b3" using run' failed b1F zi ii by (cases b3) (simp_all add: z i b3)
  ultimately have pub: "publish_output env ses accounting retained (w3\<lparr>jw_state := moved Committing (jw_state w3)\<rparr>) = (Inr c, w')"
    using run' by (simp add: z i b3)
  have gone2: "entry_at (jw_fs w2) (fk_temp_path k) = None" using check_size_effect [OF opened z] gone by (simp add: w1_def)
  have "w3 = w2" by (rule unlinked_integrity [OF opened gone2 i [unfolded ii]])
  then show False using unlinked_publish_fails [OF opened _ pub] gone2 by simp
qed

text \<open>
  Claim C40: when \<open>complete_verified_output\<close> reports a completed download, the destination is the very file the
  session owned, its length is the number of accepted bytes and the expected size when there is one, every
  expected digest is the digest of its bytes, and it replaced nothing unless the policy allows that. On every
  failure, also a cancellation in the middle of hashing, the destination is what it was.
\<close>

theorem completed_output_verified:
  assumes "output_ready ses k ino (jw_fs w)" "complete_verified_output env ses accounting retained accepted cv w = (r, w')"
  shows "case r of
      Inl _ \<Rightarrow> entry_at (jw_fs w') (fk_destination k) = entry_at (jw_fs w) (fk_destination k)
    | Inr _ \<Rightarrow> entry_at (jw_fs w') (fk_destination k) = Some (FileNode ino)
        \<and> length (fs_bytes (jw_fs w') ino) = accepted \<and> (\<forall>n. ta_total_size accounting = Some n \<longrightarrow> accepted = n)
        \<and> (\<forall>h\<in>set (ip_expected_hashes (en_integrity env)).
             hex_digest (en_digest env (eh_algorithm h) (fs_bytes (jw_fs w') ino)) = to_ascii_lowercase (eh_hex h))
        \<and> (publication_mode (en_overwrite env) = NoReplace \<longrightarrow> entry_at (jw_fs w) (fk_destination k) = None)"
  using completion_effect [OF assms] by (auto split: sum.splits)

definition demo_completion :: "unit completion_env" where
  "demo_completion = \<lparr>en_overwrite = FailIfExists, en_integrity = \<lparr>ip_expected_hashes = [\<lparr>eh_algorithm = Sha256, eh_hex = ''0A0b''\<rparr>], ip_apply_mtime = False\<rparr>,
     en_identity = ''job'', en_digest = (\<lambda>_ bytes. bytes), en_delete = (\<lambda>_ s. (Inr (), s))\<rparr>"

definition demo_world :: "unit job_world" where
  "demo_world = \<lparr>jw_fs = \<lparr>fs_dirs = [''d''], fs_entries = [((''d'', ''f.part''), FileNode 1)], fs_bytes = (\<lambda>i. if i = 1 then [10, 11] else []),
       fs_next = 3, fs_faults = []\<rparr>, jw_state = state_ordinal Running, jw_store = (), jw_events = []\<rparr>"

definition demo_accounting :: transfer_accounting where
  "demo_accounting = \<lparr>ta_bytes_downloaded_from_network = 2, ta_bytes_reused_from_checkpoint = 0, ta_completed_bytes = 2, ta_wasted_bytes = 0,
     ta_retries = 0, ta_segment_requests = 1, ta_live_splits = 0, ta_total_size = Some 2, ta_elapsed = 0,
     ta_validators = validators_default, ta_warnings = []\<rparr>"

theorem completed_output_verified_witness:
  "case complete_verified_output demo_completion demo_output demo_accounting False 2 \<lparr>cv_polls = [], cv_deadline = False\<rparr> demo_world of
     (Inr _, w) \<Rightarrow> entry_at (jw_fs w) (''d'', ''f'') = Some (FileNode 1) \<and> length (fs_bytes (jw_fs w) 1) = 2
   | _ \<Rightarrow> False"
proof -
  let ?k = "from_file (''d'', ''f'') (''d'', ''f.part'') 1 False False"
  have ready: "output_ready demo_output ?k 1 (jw_fs demo_world)"
    by (simp add: output_ready_def output_open_def demo_output_def from_file_def demo_world_def)
  obtain r w where run: "complete_verified_output demo_completion demo_output demo_accounting False 2 \<lparr>cv_polls = [], cv_deadline = False\<rparr> demo_world = (r, w)"
    by fastforce
  have "(case fst (complete_verified_output demo_completion demo_output demo_accounting False 2 \<lparr>cv_polls = [], cv_deadline = False\<rparr> demo_world) of
      Inl _ \<Rightarrow> False | Inr _ \<Rightarrow> True)" by code_simp
  then obtain cd where "r = Inr cd" unfolding run by (cases r) auto
  then show ?thesis using completed_output_verified [OF ready run] run by (simp add: from_file_def)
qed

text \<open>
  A caller that cancels while the output is verified: the result is a cancellation with the mode
  \<open>DeletePartial\<close> whatever mode the caller chose, the partial output is deleted, and the job is left failed.
\<close>

lemma cancelled_in_verification:
  "case complete_verified_output demo_completion demo_output demo_accounting True 2 \<lparr>cv_polls = [True], cv_deadline = False\<rparr> demo_world of
     (Inl (RunCancelled summary), w) \<Rightarrow> cs_mode summary = DeletePartial \<and> sm_get (jw_state w) = job_state.Failed
        \<and> entry_at (jw_fs w) (''d'', ''f.part'') = None
   | _ \<Rightarrow> False"
  by code_simp

end
