(* ===== verification/Stream_Transfer.thy ===== *)
theory Stream_Transfer
  imports Job_Completion
begin

text \<open>
  The single-stream transfer of a job (\<open>run_inner\<close> of \<open>job/controller.rs\<close> from the running state on): one
  request at a time from the reusable prefix, the chunks written in order, checkpoints on a cadence and on a
  pause, retries that continue at the acknowledged prefix or start again, and the completion. As for the
  segmented workers, a program point is a place where the code awaits something, and what it waits for is the
  input of a step; cancel, pause and resume come at any point.
\<close>

section \<open>State\<close>

record transfer_request =
  tq_headers :: "(string \<times> string) list"
  tq_identity_encoding :: bool
  tq_intent :: transfer_intent

text \<open>The accepted response, the rest of its body, and \<open>written_this_stream\<close>.\<close>

record stream_read =
  sd_response :: accepted_response
  sd_body :: http_body
  sd_written :: u64

datatype after_save = SaveThenRequest | SaveThenRead stream_read | SaveThenWait stream_read

datatype stream_pc =
    StreamTop
  | StreamAdmit admission transfer_request
  | StreamRequest transfer_request
  | StreamBody stream_read
  | StreamReserve stream_read "byte list"
  | StreamRate stream_read "byte list"
  | StreamRetag stream_read "byte list"
  | StreamWrite stream_read "byte list"
  | StreamSave checkpoint after_save
  | StreamWait stream_read
  | StreamBackoff
  | StreamVerify
  | StreamDone "download_run_error + completed_download"

record 's stream =
  dl_pc :: stream_pc
  dl_world :: "'s job_world"
  dl_sink :: output_session
  dl_offset :: u64
  dl_validators :: resource_validators
  dl_attempt :: u32
  dl_last_checkpoint :: instant
  dl_durable :: durable_range_tracker
  dl_checkpoint_retained :: bool
  dl_auth_stages :: u32
  dl_challenge_headers :: "(string \<times> string) list"
  dl_counters :: job_counters
  dl_origins :: origin_registry
  dl_permit :: "address option option"
  dl_cancelled :: bool
  dl_paused :: bool
  dl_mode :: cancel_mode

text \<open>What a run does not change: the request, the configuration, the probe and the admitted plan.\<close>

record ('f, 's) stream_env =
  se_F :: "'f f64_ops"
  se_B :: "'f backoff_env"
  se_retry :: "'f retry_policy"
  se_completion :: "'s completion_env"
  se_save :: "checkpoint \<Rightarrow> 's \<Rightarrow> (checkpoint_error + unit) \<times> 's"
  se_sha :: "nat list \<Rightarrow> string"
  se_provider :: "credential_provider option"
  se_url :: string
  se_headers :: "(string \<times> string) list"
  se_destination :: fpath
  se_expected_size :: "u64 option"
  se_preallocate :: bool
  se_physical :: bool
  se_durability :: durability_mode
  se_flush_interval :: duration
  se_total_size :: "u64 option"
  se_final_url :: string
  se_validators :: resource_validators
  se_origin :: "string option"
  se_plan :: resume_plan
  se_started :: instant

text \<open>
  Inputs. A step carries both clocks (nanoseconds, and the milliseconds of the origin registry).
  \<open>StreamSaved\<close> is the end of a save: the error of the blocking sync task when it was lost, and the refusal of
  the memory ledger. \<open>StreamPut\<close> lets a write go; should it fail, so many of its bytes were written.
\<close>

datatype stream_input =
    StreamRun
  | StreamHead u16 "(string \<times> string) list" string
  | StreamSendFailed download_error
  | StreamFrame wire_frame
  | StreamGranted
  | StreamOversize string u64 u64
  | StreamPut nat
  | StreamSaved "string option" "(u64 \<times> u64) option"
  | StreamElapsed
  | StreamFinish cancel_view
  | StreamCancel cancel_mode
  | StreamPause
  | StreamResume

definition temp_spec_default :: temp_file_spec where
  "temp_spec_default = SiblingSuffix ''.part''"

abbreviation dl_fs :: "'s stream \<Rightarrow> file_system" where
  "dl_fs s \<equiv> jw_fs (dl_world s)"

definition dl_goto :: "stream_pc \<Rightarrow> 's stream \<Rightarrow> 's stream" where
  "dl_goto pc s = s\<lparr>dl_pc := pc\<rparr>"

definition dl_set_fs :: "file_system \<Rightarrow> 's stream \<Rightarrow> 's stream" where
  "dl_set_fs fs s = s\<lparr>dl_world := (dl_world s)\<lparr>jw_fs := fs\<rparr>\<rparr>"

definition dl_warn :: "string \<Rightarrow> 's stream \<Rightarrow> 's stream" where
  "dl_warn detail s = s\<lparr>dl_world := emit (CompletionWarning detail) (dl_world s)\<rparr>"

definition dl_count :: "(worker_counters \<Rightarrow> worker_counters) \<Rightarrow> 's stream \<Rightarrow> 's stream" where
  "dl_count f s = s\<lparr>dl_counters := on_worker 0 f (dl_counters s)\<rparr>"

text \<open>The origin permit lives to the end of an iteration of the outer loop.\<close>

definition dl_release :: "'s stream \<Rightarrow> 's stream" where
  "dl_release s = s\<lparr>dl_origins := (case dl_permit s of Some p \<Rightarrow> drop_permit p (dl_origins s) | None \<Rightarrow> dl_origins s), dl_permit := None\<rparr>"

definition report_throttle_origin :: "('f, 's) stream_env \<Rightarrow> u64 \<Rightarrow> duration option \<Rightarrow> u32 \<Rightarrow> 's stream \<Rightarrow> 's stream" where
  "report_throttle_origin E ms retry_after attempt s =
     (case se_origin E of
        None \<Rightarrow> s
      | Some key \<Rightarrow> s\<lparr>dl_origins := report_throttle ms key (honor_retry_after (se_retry E) retry_after)
                          (backoff_delay (se_F E) (se_B E) (se_retry E) attempt) (dl_origins s)\<rparr>)"

definition report_success_origin :: "('f, 's) stream_env \<Rightarrow> u64 \<Rightarrow> 's stream \<Rightarrow> 's stream" where
  "report_success_origin E ms s =
     (case se_origin E of None \<Rightarrow> s | Some key \<Rightarrow> s\<lparr>dl_origins := report_success ms key (dl_origins s)\<rparr>)"

section \<open>Terminal paths\<close>

definition sequential_accounting :: "job_counters \<Rightarrow> u64 option \<Rightarrow> duration \<Rightarrow> resource_validators \<Rightarrow> string list \<Rightarrow> transfer_accounting" where
  "sequential_accounting counters total_size elapsed validators warnings =
     (let snap = fold_counters elapsed counters
      in \<lparr>ta_bytes_downloaded_from_network = ps_network_bytes snap, ta_bytes_reused_from_checkpoint = ps_reused_bytes snap,
          ta_completed_bytes = ps_completed_bytes snap, ta_wasted_bytes = ps_wasted_bytes snap, ta_retries = ps_retries snap,
          ta_segment_requests = 0, ta_live_splits = 0, ta_total_size = total_size, ta_elapsed = elapsed,
          ta_validators = validators, ta_warnings = warnings\<rparr>)"

text \<open>Every return drops the output session and the permit.\<close>

definition stream_fail :: "('f, 's) stream_env \<Rightarrow> instant \<Rightarrow> download_error \<Rightarrow> artifact_disposition \<Rightarrow> 's stream \<Rightarrow> 's stream" where
  "stream_fail E now e artifacts s =
     (let accounting = sequential_accounting (dl_counters s) None (now - se_started E) (dl_validators s) (rp_warnings (se_plan E));
          w = dl_world s
      in case terminal_error e accounting artifacts (dl_mode s) (jw_state w) of
           (err, m) \<Rightarrow> dl_goto (StreamDone (Inl err))
             (dl_release (s\<lparr>dl_world := w\<lparr>jw_state := m, jw_fs := session_drop (dl_sink s) (jw_fs w)\<rparr>\<rparr>)))"

text \<open>\<open>sink.abort()\<close>: whether the temporary file was retained.\<close>

definition stream_abort :: "'s stream \<Rightarrow> bool \<times> 's stream" where
  "stream_abort s =
     (case session_abort (dl_sink s) (dl_fs s) of
        (r, ses, fs) \<Rightarrow> ((case r of Inl _ \<Rightarrow> True | Inr _ \<Rightarrow> False), dl_set_fs fs (s\<lparr>dl_sink := ses\<rparr>)))"

definition stream_abort_fail :: "('f, 's) stream_env \<Rightarrow> instant \<Rightarrow> download_error \<Rightarrow> 's stream \<Rightarrow> 's stream" where
  "stream_abort_fail E now e s =
     (case stream_abort s of
        (temp_retained, s') \<Rightarrow>
          stream_fail E now e \<lparr>ad_temp_retained = temp_retained, ad_checkpoint_retained = dl_checkpoint_retained s'\<rparr> s')"

definition checkpoint_save_failed :: "('f, 's) stream_env \<Rightarrow> instant \<Rightarrow> checkpoint_error \<Rightarrow> 's stream \<Rightarrow> 's stream" where
  "checkpoint_save_failed E now error s =
     (let s = dl_set_fs (snd (session_flush flush_level.PageCache (dl_sink s) (dl_fs s))) s;
          s = s\<lparr>dl_sink := preserve_partial (dl_sink s)\<rparr>
      in stream_fail E now (Checkpoint (display_checkpoint_error error)) \<lparr>ad_temp_retained = True, ad_checkpoint_retained = True\<rparr> s)"

definition terminal_cancelled :: "job_counters \<Rightarrow> duration \<Rightarrow> cancel_mode \<Rightarrow> string list \<Rightarrow> artifact_disposition \<Rightarrow> 's job_world
    \<Rightarrow> download_run_error \<times> 's job_world" where
  "terminal_cancelled counters elapsed mode warnings artifacts w =
     (let w = fold (\<lambda>t. emit (CompletionWarning t)) warnings w
      in (RunCancelled \<lparr>cs_mode = mode, cs_partial = sequential_accounting counters None elapsed validators_default warnings, cs_artifacts = artifacts\<rparr>,
          w\<lparr>jw_state := moved job_state.Cancelled (moved Cancelling (jw_state w))\<rparr>))"

definition stream_cancelled :: "('f, 's) stream_env \<Rightarrow> instant \<Rightarrow> 's stream \<Rightarrow> 's stream" where
  "stream_cancelled E now s =
     (let w = dl_world s
      in case cleanup_cancelled (en_delete (se_completion E)) (dl_mode s) (en_identity (se_completion E)) (dl_sink s) (jw_fs w) (jw_store w) of
           (cleanup, ses, fs, store) \<Rightarrow>
             (case terminal_cancelled (dl_counters s) (now - se_started E) (dl_mode s) (cc_warnings cleanup) (cc_artifacts cleanup)
                     (w\<lparr>jw_fs := fs, jw_store := store\<rparr>) of
                (err, w') \<Rightarrow> dl_goto (StreamDone (Inl err))
                  (dl_release (s\<lparr>dl_sink := ses, dl_world := w'\<lparr>jw_fs := session_drop ses (jw_fs w')\<rparr>\<rparr>))))"

section \<open>Checkpoints\<close>

text \<open>Stamping reads the temporary file: its metadata, and its bytes through a handle of its own.\<close>

definition stamp_checkpoint :: "('f, 's) stream_env \<Rightarrow> checkpoint \<Rightarrow> 's stream \<Rightarrow> checkpoint \<times> 's stream" where
  "stamp_checkpoint E cp s =
     (case symlink_metadata (os_temp_path (dl_sink s)) (dl_fs s) of
        (m, fs1) \<Rightarrow>
          let cp1 = set_owned_temp_identity (case m of Inl _ \<Rightarrow> None | Inr e \<Rightarrow> Some (te_file e)) cp
          in if cp_completed_ranges cp1 = [] then (set_covered_digest (se_sha E) None cp1, dl_set_fs fs1 s)
             else (case open_existing (os_temp_path (dl_sink s)) fs1 of
                     (Inl _, fs2) \<Rightarrow> (set_covered_digest (se_sha E) None cp1, dl_set_fs fs2 s)
                   | (Inr ino, fs2) \<Rightarrow>
                       (set_covered_digest (se_sha E) (Some \<lparr>tmp_path = display (os_temp_path (dl_sink s)), tmp_is_file = True, tmp_dev = 0,
                          tmp_ino = ino, tmp_contents = fs_bytes fs2 ino\<rparr>) cp1, dl_set_fs fs2 s)))"

definition stream_checkpoint :: "('f, 's) stream_env \<Rightarrow> u64 \<Rightarrow> 's stream \<Rightarrow> checkpoint \<times> 's stream" where
  "stream_checkpoint E ms s =
     (let identity = en_identity (se_completion E);
          cp = (case rp_checkpoint (se_plan E) of
                  Some cp \<Rightarrow> cp
                | None \<Rightarrow> checkpoint_new (ms div 1000) identity (se_url E) (''tmp-'' @ identity))
      in stamp_checkpoint E (cp\<lparr>cp_total_size := se_total_size E, cp_validators := dl_validators s, cp_final_url := se_final_url E,
           cp_completed_ranges := [(0, sat_sub (dl_offset s) 1)]\<rparr>) s)"

definition save_checkpoint_bounded :: "('f, 's) stream_env \<Rightarrow> (u64 \<times> u64) option \<Rightarrow> checkpoint \<Rightarrow> 's \<Rightarrow> (checkpoint_error + unit) \<times> 's" where
  "save_checkpoint_bounded E refusal cp store =
     (case checked_serialized_size cp of
        Inl e \<Rightarrow> (Inl e, store)
      | Inr _ \<Rightarrow>
          (case refusal of
             Some (requested, cap) \<Rightarrow> (Inl (TooLarge requested cap), store)
           | None \<Rightarrow> se_save E cp store))"

definition persist_checkpoint :: "('f, 's) stream_env \<Rightarrow> string option \<Rightarrow> (u64 \<times> u64) option \<Rightarrow> checkpoint \<Rightarrow> 's stream
    \<Rightarrow> (checkpoint_error + unit) \<times> 's stream" where
  "persist_checkpoint E join_error refusal cp s =
     (let save = (\<lambda>s. case save_checkpoint_bounded E refusal cp (jw_store (dl_world s)) of
                        (r, store) \<Rightarrow> (r, s\<lparr>dl_world := (dl_world s)\<lparr>jw_store := store\<rparr>\<rparr>))
      in if se_durability E \<noteq> Durable then save s
         else case sync_capability (dl_sink s) of
                Inl e \<Rightarrow> (Inl (Corrupt (''output sync capability unavailable: '' @ display_error e)), s)
              | Inr _ \<Rightarrow>
                  (case sync_data_before_checkpoint True join_error (dl_fs s) of
                     (Inl e, fs) \<Rightarrow> (Inl (Corrupt (''data sync before checkpoint failed: '' @ display_error e)), dl_set_fs fs s)
                   | (Inr _, fs) \<Rightarrow> save (dl_set_fs fs s)))"

section \<open>Requests\<close>

definition stream_resuming :: "('f, 's) stream_env \<Rightarrow> bool" where
  "stream_resuming E = is_resuming (se_plan E)"

definition conditional_resume :: "('f, 's) stream_env \<Rightarrow> bool" where
  "conditional_resume E \<longleftrightarrow> stream_resuming E \<and> plan_validators (se_plan E) \<noteq> None"

definition stream_intent :: "('f, 's) stream_env \<Rightarrow> 's stream \<Rightarrow> transfer_intent" where
  "stream_intent E s =
     (if stream_resuming E \<or> 0 < dl_offset s
      then RangeOf \<lparr>ri_range = (dl_offset s, sat_sub (case se_total_size E of Some t \<Rightarrow> t | None \<Rightarrow> u64_max) 1),
             ri_established_total = se_total_size E,
             ri_expected_validators = (case plan_validators (se_plan E) of Some v \<Rightarrow> Some v | None \<Rightarrow> Some (dl_validators s)),
             ri_full_response = (if conditional_resume E then FullMeansChanged else InvalidRange)\<rparr>
      else FullIntent)"

definition stream_request :: "('f, 's) stream_env \<Rightarrow> 's stream \<Rightarrow> transfer_request" where
  "stream_request E s =
     \<lparr>tq_headers = fold (\<lambda>(k, v) hs. upsert_header hs k v) (dl_challenge_headers s) (se_headers E),
      tq_identity_encoding = conditional_resume E, tq_intent = stream_intent E s\<rparr>"

text \<open>The head of the outer loop.\<close>

definition stream_top :: "('f, 's) stream_env \<Rightarrow> instant \<Rightarrow> u64 \<Rightarrow> 's stream \<Rightarrow> 's stream" where
  "stream_top E now ms s =
     (if dl_cancelled s then stream_cancelled E now s
      else if (case se_total_size E of Some t \<Rightarrow> t \<le> dl_offset s | None \<Rightarrow> False) then dl_goto StreamVerify s
      else case se_origin E of
             None \<Rightarrow> dl_goto (StreamRequest (stream_request E s)) s
           | Some key \<Rightarrow>
               (case registry_entry ms key (dl_origins s) of
                  (a, r) \<Rightarrow> dl_goto (StreamAdmit (AtDeadline key a) (stream_request E s)) (s\<lparr>dl_origins := r\<rparr>)))"

definition stream_admit :: "('f, 's) stream_env \<Rightarrow> instant \<Rightarrow> u64 \<Rightarrow> admission \<Rightarrow> transfer_request \<Rightarrow> 's stream \<Rightarrow> 's stream option" where
  "stream_admit E now ms adm q s =
     (if dl_cancelled s then Some (stream_cancelled E now s)
      else case adm of
             AtDeadline key a \<Rightarrow>
               (case check_deadline ms key a (dl_origins s) of
                  Admitted _ p \<Rightarrow> Some (dl_goto (StreamRequest q) (s\<lparr>dl_permit := Some p\<rparr>))
                | adm' \<Rightarrow> Some (dl_goto (StreamAdmit adm' q) s))
           | ForSlot key a \<Rightarrow>
               (case take_slot ms key a (dl_origins s) of
                  Some (Admitted _ p, r) \<Rightarrow> Some (dl_goto (StreamRequest q) (s\<lparr>dl_origins := r, dl_permit := Some p\<rparr>))
                | _ \<Rightarrow> None)
           | _ \<Rightarrow> None)"

text \<open>A new temporary file: the old session is dropped when the new one replaces it.\<close>

definition stream_recreate :: "('f, 's) stream_env \<Rightarrow> instant \<Rightarrow> bool \<Rightarrow> 's stream \<Rightarrow> ('s stream \<Rightarrow> 's stream) \<Rightarrow> 's stream" where
  "stream_recreate E now temp_retained s next =
     (case session_create (se_destination E) temp_spec_default (se_preallocate E) (se_physical E) (se_total_size E) (dl_fs s) of
        (Inl e, fs) \<Rightarrow>
          stream_fail E now e \<lparr>ad_temp_retained = temp_retained, ad_checkpoint_retained = dl_checkpoint_retained s\<rparr> (dl_set_fs fs s)
      | (Inr ses, fs) \<Rightarrow> next (dl_set_fs (session_drop (dl_sink s) fs) (s\<lparr>dl_sink := ses\<rparr>)))"

definition exhausted :: "('f, 's) stream_env \<Rightarrow> download_error \<Rightarrow> download_error" where
  "exhausted E e = (if retryable (se_retry E) e then RetryExhausted e else e)"

definition stream_retry_request :: "('f, 's) stream_env \<Rightarrow> instant \<Rightarrow> u64 \<Rightarrow> http_failure \<Rightarrow> 's stream \<Rightarrow> 's stream" where
  "stream_retry_request E now ms failure s =
     (let e = hf_error failure;
          s = (if is_throttle e then report_throttle_origin E ms (hf_retry_after failure) (dl_attempt s) s else s)
      in case stream_abort s of
           (temp_retained, s) \<Rightarrow>
             (case decide (se_F E) (se_B E) (se_retry E) e (dl_attempt s) (hf_retry_after failure) of
                Retry next delay \<Rightarrow>
                  stream_recreate E now temp_retained (dl_count (add_retries 1) s\<lparr>dl_attempt := next, dl_offset := 0\<rparr>)
                    (\<lambda>s. dl_goto StreamBackoff
                       (case http_status e of
                          Some status \<Rightarrow> dl_warn (''status '' @ show_u64 status @ '' retrying from zero ('' @ display_error e @ '')'') s
                        | None \<Rightarrow> s))
              | GiveUp \<Rightarrow> stream_abort_fail E now (exhausted E e) s))"

definition stream_request_failed :: "('f, 's) stream_env \<Rightarrow> instant \<Rightarrow> u64 \<Rightarrow> http_failure \<Rightarrow> 's stream \<Rightarrow> 's stream" where
  "stream_request_failed E now ms failure s =
     (case (hf_challenge failure, se_provider E) of
        (Some ch, Some provider) \<Rightarrow>
          if \<not> can_provide (dl_auth_stages s) then stream_abort_fail E now AuthenticationRequired s
          else (let s = s\<lparr>dl_auth_stages := record_stage (dl_auth_stages s)\<rparr>
                in case provider ch of
                     Inr (Headers hdrs) \<Rightarrow> dl_goto StreamTop (dl_release (s\<lparr>dl_challenge_headers := hdrs\<rparr>))
                   | _ \<Rightarrow> stream_abort_fail E now AuthenticationRequired s)
      | _ \<Rightarrow> stream_retry_request E now ms failure s)"

definition stream_response :: "('f, 's) stream_env \<Rightarrow> instant \<Rightarrow> u64 \<Rightarrow> transfer_request \<Rightarrow> http_failure + accepted_response \<Rightarrow> 's stream \<Rightarrow> 's stream" where
  "stream_response E now ms q result s =
     (case result of
        Inl failure \<Rightarrow> stream_request_failed E now ms failure s
      | Inr a \<Rightarrow> dl_goto (StreamBody \<lparr>sd_response = a, sd_body = body_for (tq_intent q), sd_written = 0\<rparr>) (s\<lparr>dl_validators := ar_validators a\<rparr>))"

section \<open>The body\<close>

definition stream_data :: "('f, 's) stream_env \<Rightarrow> instant \<Rightarrow> stream_read \<Rightarrow> byte list \<Rightarrow> 's stream \<Rightarrow> 's stream" where
  "stream_data E now b data s =
     (case se_expected_size E of
        Some limit \<Rightarrow>
          if limit < u64_add (dl_offset s) (length data)
          then stream_abort_fail E now (Protocol (''body exceeds expected size '' @ show_u64 limit)) s
          else dl_goto (StreamReserve b data) s
      | None \<Rightarrow> dl_goto (StreamReserve b data) s)"

definition stream_paused :: "('f, 's) stream_env \<Rightarrow> u64 \<Rightarrow> stream_read \<Rightarrow> 's stream \<Rightarrow> 's stream" where
  "stream_paused E ms b s =
     (let s = dl_set_fs (snd (session_flush flush_level.PageCache (dl_sink s) (dl_fs s))) s;
          s = s\<lparr>dl_durable := page_cache_ack (dl_offset s) (dl_durable s)\<rparr>
      in if se_total_size E \<noteq> None \<and> 0 < dl_offset s
         then (case stream_checkpoint E ms s of (cp, s) \<Rightarrow> dl_goto (StreamSave cp (SaveThenWait b)) s)
         else dl_goto (StreamWait b) s)"

text \<open>A body fault: retried from the acknowledged prefix, or from zero when nothing was acknowledged.\<close>

definition stream_reopen :: "('f, 's) stream_env \<Rightarrow> instant \<Rightarrow> u64 \<Rightarrow> 's stream \<Rightarrow> ('s stream \<Rightarrow> 's stream) \<Rightarrow> 's stream" where
  "stream_reopen E now durable_through s next =
     (let s = dl_set_fs (snd (session_flush flush_level.PageCache (dl_sink s) (dl_fs s)))
                (s\<lparr>dl_offset := durable_through, dl_sink := preserve_partial (dl_sink s)\<rparr>)
      in case session_reopen (se_destination E) temp_spec_default (dl_fs s) of
           (Inl err, fs) \<Rightarrow>
             stream_fail E now err \<lparr>ad_temp_retained = True, ad_checkpoint_retained = dl_checkpoint_retained s\<rparr> (dl_set_fs fs s)
         | (Inr ses, fs) \<Rightarrow> next (dl_set_fs (session_drop (dl_sink s) fs) (s\<lparr>dl_sink := ses\<rparr>)))"

definition stream_fault :: "('f, 's) stream_env \<Rightarrow> instant \<Rightarrow> stream_read \<Rightarrow> download_error \<Rightarrow> 's stream \<Rightarrow> 's stream" where
  "stream_fault E now b e s =
     (case decide (se_F E) (se_B E) (se_retry E) e (dl_attempt s) None of
        GiveUp \<Rightarrow> stream_abort_fail E now (exhausted E e) s
      | Retry next delay \<Rightarrow>
          (let s = dl_count (add_wasted (sd_written b)) (dl_count (add_retries 1) s)\<lparr>dl_attempt := next\<rparr>;
               durable_through = admissible_through (dl_durable s);
               resume = (\<lambda>s. dl_goto StreamBackoff
                  (dl_warn (''stream reset; retrying from offset '' @ show_u64 (dl_offset s) @ '' ('' @ display_error e @ '')'') s))
           in if 0 < durable_through then stream_reopen E now durable_through s resume
              else (case stream_abort (s\<lparr>dl_offset := 0\<rparr>) of (temp_retained, s) \<Rightarrow> stream_recreate E now temp_retained s resume)))"

definition stream_body :: "('f, 's) stream_env \<Rightarrow> instant \<Rightarrow> u64 \<Rightarrow> stream_read \<Rightarrow> wire_frame \<Rightarrow> 's stream \<Rightarrow> 's stream" where
  "stream_body E now ms b frame s =
     (case poll_step (dl_cancelled s) (dl_paused s) frame (sd_body b) of
        (event, body) \<Rightarrow>
          let b = b\<lparr>sd_body := body\<rparr>
          in case event of
               Inr (BodyData data) \<Rightarrow> stream_data E now b data s
             | Inr BodyEnd \<Rightarrow> dl_goto StreamVerify (dl_release (report_success_origin E ms s))
             | Inr BodyPaused \<Rightarrow> stream_paused E ms b s
             | Inl e \<Rightarrow> if e = download_error.Cancelled then stream_cancelled E now s else stream_fault E now b e s)"

definition stream_write :: "('f, 's) stream_env \<Rightarrow> instant \<Rightarrow> u64 \<Rightarrow> nat \<Rightarrow> stream_read \<Rightarrow> byte list \<Rightarrow> 's stream \<Rightarrow> 's stream" where
  "stream_write E now ms partial b data s =
     (case session_write_at partial (dl_offset s) data (dl_sink s) (dl_fs s) of
        (Inl e, fs) \<Rightarrow>
          (let s = dl_set_fs fs s
           in if e = download_error.Cancelled \<or> dl_cancelled s then stream_cancelled E now s else stream_abort_fail E now e s)
      | (Inr ses, fs) \<Rightarrow>
          (let len = length data;
               s = dl_count (add_completed len) (dl_count (add_network len) (dl_set_fs fs (s\<lparr>dl_sink := ses\<rparr>)));
               s = s\<lparr>dl_offset := u64_add (dl_offset s) len\<rparr>;
               s = s\<lparr>dl_durable := page_cache_ack (dl_offset s) (dl_durable s)\<rparr>;
               b = b\<lparr>sd_written := u64_add (sd_written b) len\<rparr>
           in if se_flush_interval E \<le> now - dl_last_checkpoint s \<and> 0 < dl_offset s
              then (case stream_checkpoint E ms (s\<lparr>dl_last_checkpoint := now\<rparr>) of (cp, s) \<Rightarrow> dl_goto (StreamSave cp (SaveThenRead b)) s)
              else dl_goto (StreamBody b) s))"

definition stream_saved :: "('f, 's) stream_env \<Rightarrow> instant \<Rightarrow> checkpoint \<Rightarrow> after_save \<Rightarrow> string option \<Rightarrow> (u64 \<times> u64) option \<Rightarrow> 's stream \<Rightarrow> 's stream" where
  "stream_saved E now cp after join_error refusal s =
     (case persist_checkpoint E join_error refusal cp s of
        (Inl e, s) \<Rightarrow> checkpoint_save_failed E now e s
      | (Inr _, s) \<Rightarrow>
          (let kept = s\<lparr>dl_checkpoint_retained := True, dl_sink := preserve_partial (dl_sink s)\<rparr>
           in case after of
                SaveThenRequest \<Rightarrow> dl_goto StreamTop s
              | SaveThenRead b \<Rightarrow> dl_goto (StreamBody b) kept
              | SaveThenWait b \<Rightarrow> dl_goto (StreamWait b) kept))"

definition stream_verify :: "('f, 's) stream_env \<Rightarrow> instant \<Rightarrow> cancel_view \<Rightarrow> 's stream \<Rightarrow> 's stream" where
  "stream_verify E now cv s =
     (let total_size = (case se_total_size E of Some t \<Rightarrow> Some t | None \<Rightarrow> se_expected_size E);
          accounting = sequential_accounting (dl_counters s) total_size (now - se_started E) (dl_validators s) (rp_warnings (se_plan E))
      in case complete_verified_output (se_completion E) (dl_sink s) accounting (dl_checkpoint_retained s) (dl_offset s) cv (dl_world s) of
           (r, w) \<Rightarrow> dl_goto (StreamDone r) (s\<lparr>dl_world := w\<rparr>))"

section \<open>Steps and runs\<close>

definition stream_step :: "('f, 's) stream_env \<Rightarrow> instant \<Rightarrow> u64 \<Rightarrow> stream_input \<Rightarrow> 's stream \<Rightarrow> 's stream option" where
  "stream_step E now ms inp s =
     (case inp of
        StreamCancel mode \<Rightarrow> Some (s\<lparr>dl_cancelled := True, dl_mode := mode\<rparr>)
      | StreamPause \<Rightarrow> Some (s\<lparr>dl_paused := True\<rparr>)
      | StreamResume \<Rightarrow> Some (s\<lparr>dl_paused := False\<rparr>)
      | _ \<Rightarrow>
          (case dl_pc s of
             StreamTop \<Rightarrow> (case inp of StreamRun \<Rightarrow> Some (stream_top E now ms s) | _ \<Rightarrow> None)
           | StreamAdmit adm q \<Rightarrow> (case inp of StreamRun \<Rightarrow> stream_admit E now ms adm q s | _ \<Rightarrow> None)
           | StreamRequest q \<Rightarrow>
               (case inp of
                  StreamHead status headers version \<Rightarrow>
                    Some (stream_response E now ms q (accept_head (se_url E) (tq_intent q) (from_head status headers version)) s)
                | StreamSendFailed e \<Rightarrow> Some (stream_response E now ms q (Inl (failure_from_error e)) s)
                | _ \<Rightarrow> None)
           | StreamBody b \<Rightarrow> (case inp of StreamFrame frame \<Rightarrow> Some (stream_body E now ms b frame s) | _ \<Rightarrow> None)
           | StreamReserve b data \<Rightarrow>
               (case inp of
                  StreamGranted \<Rightarrow> Some (dl_goto (StreamRate b data) s)
                | StreamOversize component requested cap \<Rightarrow> Some (stream_abort_fail E now (MemoryCapExceeded component requested cap) s)
                | _ \<Rightarrow> None)
           | StreamRate b data \<Rightarrow>
               (case inp of
                  StreamElapsed \<Rightarrow> Some (dl_goto (StreamRetag b data) s)
                | StreamRun \<Rightarrow> if dl_cancelled s then Some (dl_goto (StreamRetag b data) s) else None
                | _ \<Rightarrow> None)
           | StreamRetag b data \<Rightarrow>
               (case inp of
                  StreamGranted \<Rightarrow> Some (dl_goto (StreamWrite b data) s)
                | StreamOversize component requested cap \<Rightarrow> Some (stream_abort_fail E now (MemoryCapExceeded component requested cap) s)
                | _ \<Rightarrow> None)
           | StreamWrite b data \<Rightarrow> (case inp of StreamPut partial \<Rightarrow> Some (stream_write E now ms partial b data s) | _ \<Rightarrow> None)
           | StreamSave cp after \<Rightarrow>
               (case inp of StreamSaved join_error refusal \<Rightarrow> Some (stream_saved E now cp after join_error refusal s) | _ \<Rightarrow> None)
           | StreamWait b \<Rightarrow>
               (case inp of
                  StreamRun \<Rightarrow>
                    if dl_cancelled s then Some (stream_cancelled E now s)
                    else if dl_paused s then None
                    else Some (dl_goto (StreamBody b) s)
                | _ \<Rightarrow> None)
           | StreamBackoff \<Rightarrow>
               (case inp of
                  StreamElapsed \<Rightarrow> Some (dl_goto StreamTop (dl_release s))
                | StreamRun \<Rightarrow> if dl_cancelled s then Some (dl_goto StreamTop (dl_release s)) else None
                | _ \<Rightarrow> None)
           | StreamVerify \<Rightarrow> (case inp of StreamFinish cv \<Rightarrow> Some (stream_verify E now cv s) | _ \<Rightarrow> None)
           | StreamDone r \<Rightarrow> None))"

text \<open>The start: the reused prefix is counted, and a resumed job refreshes its checkpoint before the first request.\<close>

definition stream_begin :: "('f, 's) stream_env \<Rightarrow> job_counters \<Rightarrow> origin_registry \<Rightarrow> cancel_mode \<Rightarrow> output_session \<Rightarrow> 's job_world \<Rightarrow> 's stream" where
  "stream_begin E counters origins mode ses w =
     (let resumed = plan_sequential (se_plan E);
          s = \<lparr>dl_pc = StreamTop, dl_world = w\<lparr>jw_state := moved Running (jw_state w)\<rparr>, dl_sink = ses, dl_offset = sq_offset resumed,
               dl_validators = se_validators E, dl_attempt = 0, dl_last_checkpoint = se_started E,
               dl_durable = page_cache_ack (sq_offset resumed) (tracker_new (se_durability E)),
               dl_checkpoint_retained = (rp_checkpoint (se_plan E) \<noteq> None), dl_auth_stages = 0, dl_challenge_headers = [],
               dl_counters = on_worker 0 (add_reused (sq_reused_bytes resumed)) counters, dl_origins = origins, dl_permit = None,
               dl_cancelled = False, dl_paused = False, dl_mode = mode\<rparr>
      in case (stream_resuming E, rp_checkpoint (se_plan E)) of
           (True, Some cp) \<Rightarrow>
             (case stamp_checkpoint E (cp\<lparr>cp_final_url := se_final_url E\<rparr>) s of (fresh, s) \<Rightarrow> dl_goto (StreamSave fresh SaveThenRequest) s)
         | _ \<Rightarrow> s)"

type_synonym stream_event = "instant \<times> u64 \<times> stream_input"

fun stream_run :: "('f, 's) stream_env \<Rightarrow> stream_event list \<Rightarrow> 's stream \<Rightarrow> 's stream option" where
  "stream_run E [] s = Some s"
| "stream_run E ((now, ms, inp) # rest) s =
     (case stream_step E now ms inp s of None \<Rightarrow> None | Some s' \<Rightarrow> stream_run E rest s')"

end
