(* ===== verification/Stream_Props.thy ===== *)
theory Stream_Props
  imports Stream_Transfer
begin

text \<open>
  What a single-stream transfer puts into its file: for a server that delivers the resource, the bytes before
  the offset are those of the resource, up to the publication; and what is left of that when the requests and
  bodies fail in the one order that the code does not handle.
\<close>

section \<open>The file of a run\<close>

text \<open>The first \<open>n\<close> bytes of a file are those of the resource.\<close>

definition covers :: "nat list \<Rightarrow> nat \<Rightarrow> nat list \<Rightarrow> bool" where
  "covers resource n content \<longleftrightarrow> n \<le> length resource \<and> n \<le> length content \<and> take n content = take n resource"

definition exact_data :: "nat list \<Rightarrow> nat \<Rightarrow> nat list \<Rightarrow> bool" where
  "exact_data resource pos data \<longleftrightarrow> pos + length data \<le> length resource \<and> data = take (length data) (drop pos resource)"

lemma covers_0 [simp]: "covers resource 0 content"
  by (simp add: covers_def)

lemma covers_less: "covers resource n content \<Longrightarrow> m \<le> n \<Longrightarrow> covers resource m content"
  by (simp add: covers_def) (metis min.absorb1 take_take)

lemma covers_patch:
  assumes "covers resource n content" "exact_data resource n data"
  shows "covers resource (n + length data) (patch n data content)"
proof (cases "data = []")
  case False
  have "take (n + length data) (patch n data content) = take n content @ data"
    using False assms(1) by (simp add: patch_def covers_def)
  also have "\<dots> = take (n + length data) resource"
    using assms by (simp add: covers_def exact_data_def take_add)
  finally show ?thesis using assms False by (simp add: covers_def exact_data_def patch_length)
qed (use assms in simp)

lemma sized_covers: "covers resource n content \<Longrightarrow> sized n content = take n resource"
  by (simp add: covers_def sized_def)

text \<open>Every byte of a file is the one of the resource at its place, or a zero that was never written.\<close>

definition patchy :: "nat list \<Rightarrow> nat list \<Rightarrow> bool" where
  "patchy resource content \<longleftrightarrow> (\<forall>p < length content. content ! p = 0 \<or> p < length resource \<and> content ! p = resource ! p)"

lemma patchy_zeros [simp]: "patchy resource (replicate m 0)"
  by (simp add: patchy_def)

lemma patchy_patch:
  assumes "patchy resource content" "exact_data resource n data"
  shows "patchy resource (patch n data content)"
proof (cases "data = []")
  case False
  let ?c = "patch n data content"
  have len: "length ?c = max (n + length data) (length content)" using False by (rule patch_length)
  have new: "data ! i = resource ! (n + i) \<and> n + i < length resource" if "i < length data" for i
    using assms(2) that unfolding exact_data_def by (metis add_less_cancel_left add.commute less_le_trans nth_drop nth_take add_leD1 le_add_diff_inverse2)
  show ?thesis
    unfolding patchy_def
  proof (intro allI impI)
    fix p assume p: "p < length ?c"
    have at: "?c ! p = (if p < n then if p < length content then content ! p else 0
        else if p < n + length data then data ! (p - n) else content ! p)"
    proof -
      have pre: "length (take n (content @ replicate (n - length content) 0)) = n" by simp
      have "?c = take n (content @ replicate (n - length content) 0) @ data @ drop (n + length data) content"
        using False by (simp add: patch_def)
      then show ?thesis using p unfolding len by (auto simp only: nth_append pre) (auto simp: nth_append)
    qed
    show "?c ! p = 0 \<or> p < length resource \<and> ?c ! p = resource ! p"
    proof (cases "n \<le> p \<and> p < n + length data")
      case True
      then show ?thesis using new [of "p - n"] at by auto
    next
      case False
      then show ?thesis using assms(1) p at unfolding len patchy_def by auto
    qed
  qed
qed (use assms in simp)

text \<open>
  What a run knows of its file. \<open>sent\<close> is the place up to which the server has sent bytes, \<open>d\<close> what the tracker
  has acknowledged, \<open>n\<close> the offset. In a settled run the file holds the resource up to the offset. In every run
  it does, or it holds nothing else than bytes of the resource and zeros.
\<close>

definition filled :: "bool \<Rightarrow> nat list \<Rightarrow> nat \<Rightarrow> nat \<Rightarrow> nat \<Rightarrow> nat list \<Rightarrow> bool" where
  "filled settled resource sent d n content \<longleftrightarrow> d \<le> sent \<and> n \<le> sent
     \<and> (if settled then covers resource n content else d \<le> n \<and> covers resource n content \<or> patchy resource content)"

lemma filled_patch:
  assumes "filled settled resource sent d n content" "exact_data resource n data" "n + length data \<le> sent"
  shows "filled settled resource sent (max d (n + length data)) (n + length data) (patch n data content)"
  using assms covers_patch [of resource n content data] patchy_patch [of resource content n data]
  by (auto simp: filled_def split: if_splits)

lemma filled_fresh: "d \<le> sent \<Longrightarrow> filled settled resource sent d 0 (replicate m 0)"
  by (simp add: filled_def)

lemma filled_start: "covers resource n content \<Longrightarrow> filled settled resource n n n content"
  by (simp add: filled_def)

lemma filled_back: "filled settled resource sent d n content \<Longrightarrow> (settled \<Longrightarrow> d \<le> n) \<Longrightarrow> filled settled resource sent d d content"
  by (auto simp: filled_def dest: covers_less split: if_splits)

lemma filled_ack: "filled settled resource sent d n content \<Longrightarrow> filled settled resource sent (max d n) n content"
  by (auto simp: filled_def split: if_splits)

lemma filled_sent: "filled settled resource sent d n content \<Longrightarrow> sent \<le> sent' \<Longrightarrow> filled settled resource sent' d n content"
  by (auto simp: filled_def)

lemma admissible_new [simp]: "admissible_through (tracker_new mode) = 0"
  by (simp add: admissible_through_def tracker_new_def split: durability_mode.splits)

lemma admissible_ack [simp]: "admissible_through (page_cache_ack n t) = max (admissible_through t) n"
  by (simp add: admissible_through_def page_cache_ack_def max_def split: durability_mode.splits)

text \<open>
  The session of a run: the only handle of a file that is also the entry at the temporary path, unless that
  entry is gone.
\<close>

definition stream_output :: "fpath \<Rightarrow> output_session \<Rightarrow> file_system \<Rightarrow> nat \<Rightarrow> bool" where
  "stream_output destination ses fs ino \<longleftrightarrow>
     (\<exists>k. output_open ses k ino \<and> fk_clones k = 0 \<and> fk_destination k = destination
        \<and> fk_temp_path k = temp_path_for temp_spec_default destination
        \<and> entry_at fs (fk_temp_path k) \<in> {None, Some (FileNode ino)})"

definition stream_file :: "bool \<Rightarrow> nat list \<Rightarrow> nat \<Rightarrow> fpath \<Rightarrow> nat \<Rightarrow> nat \<Rightarrow> output_session \<Rightarrow> file_system \<Rightarrow> bool" where
  "stream_file settled resource sent destination d n ses fs \<longleftrightarrow>
     (\<exists>ino. stream_output destination ses fs ino \<and> filled settled resource sent d n (fs_bytes fs ino))"

lemma stream_file_same: "same_fs fs fs' \<Longrightarrow> stream_file settled resource sent destination d n ses fs' = stream_file settled resource sent destination d n ses fs"
  by (simp add: stream_file_def stream_output_def same_fs_def)

lemma stream_file_preserve: "stream_file settled resource sent destination d n ses fs \<Longrightarrow> stream_file settled resource sent destination d n (preserve_partial ses) fs"
  unfolding stream_file_def stream_output_def by (fastforce simp: preserve_partial_def set_keep_on_drop_def output_open_def)

lemma stream_file_back:
  "stream_file settled resource sent destination d n ses fs \<Longrightarrow> (settled \<Longrightarrow> d \<le> n) \<Longrightarrow> stream_file settled resource sent destination d d ses fs"
  by (auto simp: stream_file_def dest: filled_back)

lemma stream_file_ack:
  "stream_file settled resource sent destination d n ses fs \<Longrightarrow> stream_file settled resource sent destination (max d n) n ses fs"
  by (auto simp: stream_file_def dest: filled_ack)

lemma stream_file_sent:
  "stream_file settled resource sent destination d n ses fs \<Longrightarrow> sent \<le> sent' \<Longrightarrow> stream_file settled resource sent' destination d n ses fs"
  by (auto simp: stream_file_def dest: filled_sent)

lemma flush_same: "same_fs fs (snd (session_flush level ses fs))"
proof -
  obtain f fs' where f: "sys_call fs = (f, fs')" by fastforce
  show ?thesis using f sys_call_fs [OF f] by (auto simp: session_flush_def sink_flush_def split: sum.splits option.splits)
qed

lemma session_write_effect:
  assumes "stream_file settled resource sent destination d n ses fs" "exact_data resource n data" "n + length data \<le> sent" "session_write_at partial n data ses fs = (Inr ses', fs')"
  shows "stream_file settled resource sent destination (max d (n + length data)) (n + length data) ses' fs'"
proof -
  obtain k ino where k: "output_open ses k ino" "fk_clones k = 0" "fk_destination k = destination"
      "fk_temp_path k = temp_path_for temp_spec_default destination" "entry_at fs (fk_temp_path k) \<in> {None, Some (FileNode ino)}"
      "filled settled resource sent d n (fs_bytes fs ino)"
    using assms(1) by (auto simp: stream_file_def stream_output_def)
  obtain f fs1 where f: "sys_call fs = (f, fs1)" by fastforce
  obtain g fs2 where g: "sys_call fs1 = (g, fs2)" by fastforce
  define k' where "k' = k\<lparr>fk_bytes_written := max (fk_bytes_written k) (u64_add n (length data))\<rparr>"
  have eff: "ses' = ses\<lparr>os_sink := Some k'\<rparr>" "fs' = fs2\<lparr>fs_bytes := (fs_bytes fs2)(ino := patch n data (fs_bytes fs2 ino))\<rparr>"
    using assms(4) k(1,2) f g by (auto simp: session_write_at_def sink_mut_def sink_write_at_def output_open_def k'_def split: option.splits)
  have same: "fs_entries fs2 = fs_entries fs" "fs_bytes fs2 = fs_bytes fs" using sys_call_same [OF f] sys_call_same [OF g] by simp_all
  have "filled settled resource sent (max d (n + length data)) (n + length data) (fs_bytes fs' ino)" using filled_patch [OF k(6) assms(2,3)] by (simp add: eff same)
  moreover have "stream_output destination ses' fs' ino"
    using k unfolding stream_output_def by (intro exI [of _ k']) (auto simp: eff same k'_def output_open_def)
  ultimately show ?thesis by (auto simp: stream_file_def)
qed

lemma prepare_effect:
  assumes "sink_prepare bytes k fs = (r, fs')"
  shows "fs_entries fs' = fs_entries fs" "\<And>ino m. fs_bytes fs ino = replicate m 0 \<Longrightarrow> \<exists>m. fs_bytes fs' ino = replicate m 0"
proof -
  have sys: "fs_entries (snd (sys_call x)) = fs_entries x \<and> fs_bytes (snd (sys_call x)) = fs_bytes x" for x
    using sys_call_same [of x] by (cases "sys_call x") simp
  have len: "fs_entries (snd (set_len ino n x)) = fs_entries x
      \<and> (fs_bytes (snd (set_len ino n x)) = fs_bytes x
         \<or> fs_bytes (snd (set_len ino n x)) = (fs_bytes x)(ino := take n (fs_bytes x ino @ replicate (n - length (fs_bytes x ino)) 0)))" for ino n x
    using sys [of x] by (auto simp: set_len_def split: prod.splits option.splits)
  have res: "fs_entries (snd (reserve_physical x)) = fs_entries x \<and> fs_bytes (snd (reserve_physical x)) = fs_bytes x" for x
    using sys [of x] by (auto simp: reserve_physical_def split: prod.splits option.splits)
  have "fs_entries fs' = fs_entries fs \<and> (\<forall>ino m. fs_bytes fs ino = replicate m 0 \<longrightarrow> (\<exists>m. fs_bytes fs' ino = replicate m 0))"
  proof (cases "bytes = None \<or> \<not> fk_preallocate k \<or> fk_file k = None")
    case True
    then show ?thesis using assms by (auto simp: sink_prepare_def sink_preallocate_def split: option.splits if_splits)
  next
    case False
    then obtain n ino where n: "bytes = Some n" "fk_preallocate k" "fk_file k = Some ino" by auto
    obtain sized fs1 where s: "set_len ino n fs = (sized, fs1)" by fastforce
    obtain p fs2 where p: "reserve_physical fs1 = (p, fs2)" by fastforce
    have "fs' = fs1 \<or> fs' = fs2" using assms n s p
      by (auto simp: sink_prepare_def sink_preallocate_def split: sum.splits if_splits)
    then have "fs_entries fs' = fs_entries fs"
      "fs_bytes fs' = fs_bytes fs \<or> fs_bytes fs' = (fs_bytes fs)(ino := take n (fs_bytes fs ino @ replicate (n - length (fs_bytes fs ino)) 0))"
      using len [of ino n fs] res [of fs1] s p by auto
    then show ?thesis by (auto simp: replicate_add [symmetric])
  qed
  then show "fs_entries fs' = fs_entries fs" "\<And>ino m. fs_bytes fs ino = replicate m 0 \<Longrightarrow> \<exists>m. fs_bytes fs' ino = replicate m 0" by auto
qed

lemma create_effect:
  assumes "session_create destination temp_spec_default pre phys bytes fs = (Inr ses, fs')"
  shows "\<exists>ino m. stream_output destination ses fs' ino \<and> fs_bytes fs' ino = replicate m 0"
proof -
  let ?temp = "temp_path_for temp_spec_default destination"
  obtain k fs1 where c: "create_exclusive destination temp_spec_default pre phys fs = (Inr k, fs1)"
    using assms by (auto simp: session_create_def split: prod.splits sum.splits)
  obtain u where p: "sink_prepare bytes k fs1 = (Inr u, fs')"
      and ses: "ses = \<lparr>os_sink = Some k, os_shared = None, os_temp_path = ?temp, os_disposition = DeleteOnDrop\<rparr>"
    using assms c by (auto simp: session_create_def split: prod.splits sum.splits)
  obtain ino where k: "k = from_file destination ?temp ino pre phys" "entry_at fs1 ?temp = Some (FileNode ino)" "fs_bytes fs1 ino = replicate 0 0"
    using c by (auto simp: create_exclusive_def create_new_def put_entry_def Let_def split: prod.splits sum.splits option.splits if_splits)
  have "?temp \<noteq> destination" by (cases destination) (simp add: temp_path_for_def temp_spec_default_def)
  then have "stream_output destination ses fs' ino"
    using k prepare_effect(1) [OF p] unfolding stream_output_def
    by (intro exI [of _ k]) (simp add: ses output_open_def from_file_def)
  then show ?thesis using prepare_effect(2) [OF p k(3)] by blast
qed

lemma drop_output:
  assumes "stream_output destination ses fs ino" "os_sink old = Some k" "fk_temp_path k = temp_path_for temp_spec_default destination"
  shows "stream_output destination ses (session_drop old fs) ino" "fs_bytes (session_drop old fs) = fs_bytes fs"
proof -
  obtain r fs' where r: "remove_file (fk_temp_path k) fs = (r, fs')" by fastforce
  have "fs_bytes (session_drop old fs) = fs_bytes fs \<and> (entry_at (session_drop old fs) = entry_at fs
      \<or> entry_at (session_drop old fs) = (entry_at fs)(fk_temp_path k := None))"
    using assms(2) r remove_file_effect [OF r] by (auto simp: session_drop_def sink_drop_def set_keep_on_drop_def split: if_splits)
  then show "stream_output destination ses (session_drop old fs) ino" "fs_bytes (session_drop old fs) = fs_bytes fs"
    using assms(1,3) by (auto simp: stream_output_def)
qed

lemma reopen_effect:
  assumes "session_reopen destination temp_spec_default fs = (Inr ses, fs')"
  shows "\<exists>ino. same_fs fs fs' \<and> entry_at fs (temp_path_for temp_spec_default destination) = Some (FileNode ino) \<and> stream_output destination ses fs' ino"
proof -
  let ?temp = "temp_path_for temp_spec_default destination"
  obtain k where k: "open_owned destination temp_spec_default fs = (Inr k, fs')"
      and ses: "ses = \<lparr>os_sink = Some (set_keep_on_drop True k), os_shared = None, os_temp_path = ?temp, os_disposition = PreserveOnDrop\<rparr>"
    using assms by (auto simp: session_reopen_def split: prod.splits sum.splits)
  obtain m1 fs1 where m1: "symlink_metadata ?temp fs = (m1, fs1)" by fastforce
  obtain m2 fs2 where m2: "symlink_metadata ?temp fs1 = (m2, fs2)" by fastforce
  obtain i fs3 where i: "open_existing ?temp fs2 = (i, fs3)" by fastforce
  obtain f fs4 where f: "sys_call fs3 = (f, fs4)" by fastforce
  obtain m5 fs5 where m5: "symlink_metadata ?temp fs4 = (m5, fs5)" by fastforce
  obtain g fsg where g: "sys_call fs2 = (g, fsg)" by fastforce
  have opened: "\<exists>ino. i = Inr ino \<and> k = set_keep_on_drop True (from_file destination ?temp ino False False) \<and> fs' = fs5"
    using k by (auto simp: open_owned_def Let_def m1 m2 i f m5 split: sum.splits option.splits if_splits)
  then obtain ino where ino: "i = Inr ino" "k = set_keep_on_drop True (from_file destination ?temp ino False False)" "fs' = fs5" by blast
  have e: "same_fs fs fs2" "same_fs fs4 fs5" using metadata_effect [OF m1] metadata_effect [OF m2] metadata_effect [OF m5] by (simp_all add: same_fs_def)
  have o: "fs3 = fsg" "entry_at fsg ?temp = Some (FileNode ino)"
    using i ino(1) g by (auto simp: open_existing_def split: option.splits fs_node.splits)
  have same: "same_fs fs fs'" using e sys_call_fs [OF f] sys_call_fs [OF g] o(1) ino(3) by (simp add: same_fs_def)
  have entry: "entry_at fs ?temp = Some (FileNode ino)" using o(2) sys_call_fs [OF g] e(1) by (simp add: same_fs_def)
  have "?temp \<noteq> destination" by (cases destination) (simp add: temp_path_for_def temp_spec_default_def)
  then have "stream_output destination ses fs' ino"
    unfolding stream_output_def using entry same
    by (intro exI [of _ k]) (simp add: ses ino(2) output_open_def set_keep_on_drop_def from_file_def same_fs_def)
  then show ?thesis using same entry by blast
qed

section \<open>Steps\<close>

definition stream_failed :: "'s stream \<Rightarrow> bool" where
  "stream_failed s \<longleftrightarrow> (\<exists>e. dl_pc s = StreamDone (Inl e))"

definition ranges_sound :: "nat list \<Rightarrow> nat list \<Rightarrow> byte_range list \<Rightarrow> bool" where
  "ranges_sound resource content ranges \<longleftrightarrow>
     (\<forall>(a, b)\<in>set ranges. \<forall>p. a \<le> p \<and> p \<le> b \<longrightarrow> p < length content \<and> p < length resource \<and> content ! p = resource ! p)"

definition intent_start :: "transfer_intent \<Rightarrow> u64" where
  "intent_start intent = (case intent of FullIntent \<Rightarrow> 0 | RangeOf ri \<Rightarrow> fst (ri_range ri))"

text \<open>The place in the resource of the next byte of a body.\<close>

definition read_position :: "stream_read \<Rightarrow> u64" where
  "read_position b = ar_start (sd_response b) + sd_written b"

definition pc_ok :: "bool \<Rightarrow> ('f, 's) stream_env \<Rightarrow> nat list \<Rightarrow> nat \<Rightarrow> 's stream \<Rightarrow> stream_pc \<Rightarrow> bool" where
  "pc_ok settled E resource sent s pc =
     (case pc of
        StreamAdmit _ q \<Rightarrow> intent_start (tq_intent q) = dl_offset s
      | StreamRequest q \<Rightarrow> intent_start (tq_intent q) = dl_offset s
      | StreamBody b \<Rightarrow> read_position b = dl_offset s
      | StreamReserve b data \<Rightarrow> read_position b = dl_offset s \<and> exact_data resource (dl_offset s) data \<and> dl_offset s + length data \<le> sent
      | StreamRate b data \<Rightarrow> read_position b = dl_offset s \<and> exact_data resource (dl_offset s) data \<and> dl_offset s + length data \<le> sent
      | StreamRetag b data \<Rightarrow> read_position b = dl_offset s \<and> exact_data resource (dl_offset s) data \<and> dl_offset s + length data \<le> sent
      | StreamWrite b data \<Rightarrow> read_position b = dl_offset s \<and> exact_data resource (dl_offset s) data \<and> dl_offset s + length data \<le> sent
      | StreamSave cp after \<Rightarrow>
          (settled \<longrightarrow> (\<exists>k ino. output_open (dl_sink s) k ino \<and> ranges_sound resource (fs_bytes (dl_fs s) ino) (cp_completed_ranges cp)))
          \<and> (case after of SaveThenRequest \<Rightarrow> True | SaveThenRead b \<Rightarrow> read_position b = dl_offset s | SaveThenWait b \<Rightarrow> read_position b = dl_offset s)
      | StreamWait b \<Rightarrow> read_position b = dl_offset s
      | StreamVerify \<Rightarrow> se_total_size E = None \<longrightarrow> dl_offset s = length resource
      | _ \<Rightarrow> True)"

definition published_file :: "bool \<Rightarrow> ('f, 's) stream_env \<Rightarrow> nat list \<Rightarrow> 's stream \<Rightarrow> bool" where
  "published_file settled E resource s \<longleftrightarrow>
     (\<exists>ino content. entry_at (dl_fs s) (se_destination E) = Some (FileNode ino) \<and> fs_bytes (dl_fs s) ino = sized (dl_offset s) content
        \<and> (covers resource (dl_offset s) content \<or> \<not> settled \<and> patchy resource content))
     \<and> (case se_total_size E of Some t \<Rightarrow> dl_offset s = t | None \<Rightarrow> dl_offset s = length resource)"

abbreviation live_inv :: "bool \<Rightarrow> ('f, 's) stream_env \<Rightarrow> nat list \<Rightarrow> nat \<Rightarrow> 's stream \<Rightarrow> bool" where
  "live_inv settled E resource sent s \<equiv>
     stream_file settled resource sent (se_destination E) (admissible_through (dl_durable s)) (dl_offset s) (dl_sink s) (dl_fs s)"

definition stream_inv :: "bool \<Rightarrow> ('f, 's) stream_env \<Rightarrow> nat list \<Rightarrow> nat \<Rightarrow> 's stream \<Rightarrow> bool" where
  "stream_inv settled E resource sent s =
     (case dl_pc s of
        StreamDone (Inl _) \<Rightarrow> True
      | StreamDone (Inr _) \<Rightarrow> published_file settled E resource s
      | pc \<Rightarrow> live_inv settled E resource sent s \<and> pc_ok settled E resource sent s pc)"

lemma failed_inv [intro]: "stream_failed s \<Longrightarrow> stream_inv settled E resource sent s"
  by (auto simp: stream_failed_def stream_inv_def)

lemma live_intro:
  "live_inv settled E resource sent s \<Longrightarrow> (\<And>r. pc \<noteq> StreamDone r) \<Longrightarrow> pc_ok settled E resource sent s pc \<Longrightarrow> stream_inv settled E resource sent (dl_goto pc s)"
  by (auto simp: stream_inv_def dl_goto_def pc_ok_def split: stream_pc.splits after_save.splits)

lemma live_dest:
  "stream_inv settled E resource sent s \<Longrightarrow> (\<And>r. dl_pc s \<noteq> StreamDone r) \<Longrightarrow> live_inv settled E resource sent s \<and> pc_ok settled E resource sent s (dl_pc s)"
  by (auto simp: stream_inv_def split: stream_pc.splits)

lemma inv_sent:
  assumes "stream_inv settled E resource sent s" "sent \<le> sent'"
  shows "stream_inv settled E resource sent' s"
proof -
  have "pc_ok settled E resource sent s pc \<Longrightarrow> pc_ok settled E resource sent' s pc" for pc
    using assms(2) by (auto simp: pc_ok_def split: stream_pc.splits)
  then show ?thesis using assms stream_file_sent [OF _ assms(2)] by (auto simp: stream_inv_def split: stream_pc.splits sum.splits)
qed

lemma core_simps [simp]:
  "dl_sink (dl_goto pc s) = dl_sink s" "dl_world (dl_goto pc s) = dl_world s" "dl_offset (dl_goto pc s) = dl_offset s" "dl_durable (dl_goto pc s) = dl_durable s"
  "dl_sink (dl_release s) = dl_sink s" "dl_world (dl_release s) = dl_world s" "dl_offset (dl_release s) = dl_offset s" "dl_durable (dl_release s) = dl_durable s"
  "dl_sink (dl_warn t s) = dl_sink s" "jw_fs (dl_world (dl_warn t s)) = dl_fs s" "dl_offset (dl_warn t s) = dl_offset s" "dl_durable (dl_warn t s) = dl_durable s"
  "dl_sink (dl_count c s) = dl_sink s" "dl_world (dl_count c s) = dl_world s" "dl_offset (dl_count c s) = dl_offset s" "dl_durable (dl_count c s) = dl_durable s"
  "dl_sink (dl_set_fs fs s) = dl_sink s" "jw_fs (dl_world (dl_set_fs fs s)) = fs" "dl_offset (dl_set_fs fs s) = dl_offset s" "dl_durable (dl_set_fs fs s) = dl_durable s"
  "dl_pc (dl_goto pc s) = pc"
  by (simp_all add: dl_goto_def dl_release_def dl_warn_def dl_count_def dl_set_fs_def)

lemma origin_simps [simp]:
  "dl_sink (report_throttle_origin E ms ra a s) = dl_sink s" "dl_world (report_throttle_origin E ms ra a s) = dl_world s"
  "dl_sink (report_success_origin E ms s) = dl_sink s" "dl_world (report_success_origin E ms s) = dl_world s"
  "dl_offset (report_success_origin E ms s) = dl_offset s" "dl_durable (report_success_origin E ms s) = dl_durable s"
  "dl_durable (report_throttle_origin E ms ra a s) = dl_durable s"
  by (simp_all add: report_throttle_origin_def report_success_origin_def split: option.splits)

lemma pc_ok_cong: "dl_offset s' = dl_offset s \<Longrightarrow> dl_sink s' = dl_sink s \<Longrightarrow> fs_bytes (dl_fs s') = fs_bytes (dl_fs s) \<Longrightarrow> pc_ok settled E resource sent s' pc = pc_ok settled E resource sent s pc"
  by (simp add: pc_ok_def split: stream_pc.splits after_save.splits)

lemma stream_fail_failed [simp]: "stream_failed (stream_fail E now e a s)"
  by (auto simp: stream_fail_def stream_failed_def Let_def split: prod.splits)

lemma abort_fail_failed [simp]: "stream_failed (stream_abort_fail E now e s)"
  by (simp add: stream_abort_fail_def split: prod.splits)

lemma save_failed_failed [simp]: "stream_failed (checkpoint_save_failed E now e s)"
  by (simp add: checkpoint_save_failed_def Let_def)

lemma cancelled_failed [simp]: "stream_failed (stream_cancelled E now s)"
  by (auto simp: stream_cancelled_def stream_failed_def Let_def split: prod.splits)

text \<open>The session that is replaced has the same temporary path.\<close>

definition same_temp :: "('f, 's) stream_env \<Rightarrow> 's stream \<Rightarrow> bool" where
  "same_temp E s \<longleftrightarrow> (\<exists>k. os_sink (dl_sink s) = Some k \<and> fk_temp_path k = temp_path_for temp_spec_default (se_destination E))"

lemma live_same_temp: "live_inv settled E resource sent s \<Longrightarrow> same_temp E s"
  by (auto simp: stream_file_def stream_output_def output_open_def same_temp_def)

lemma abort_same_temp:
  assumes "same_temp E s" "stream_abort s = (kept, s')"
  shows "same_temp E s'" "dl_offset s' = dl_offset s" "dl_durable s' = dl_durable s"
proof -
  obtain k where k: "os_sink (dl_sink s) = Some k" "fk_temp_path k = temp_path_for temp_spec_default (se_destination E)"
    using assms(1) by (auto simp: same_temp_def)
  obtain r ses fs where a: "session_abort (dl_sink s) (dl_fs s) = (r, ses, fs)" by (metis prod_cases3)
  have s': "s' = dl_set_fs fs (s\<lparr>dl_sink := ses\<rparr>)" using assms(2) a by (simp add: stream_abort_def)
  have "os_sink ses = Some k \<or> (\<exists>k'. os_sink ses = Some k' \<and> fk_temp_path k' = fk_temp_path k)"
    using a k(1) by (auto simp: session_abort_def sink_mut_def sink_abort_def Let_def split: prod.splits sum.splits if_splits)
  then show "same_temp E s'" "dl_offset s' = dl_offset s" "dl_durable s' = dl_durable s" using k(2) by (auto simp: s' same_temp_def)
qed

lemma live_sent: "live_inv settled E resource sent s \<Longrightarrow> admissible_through (dl_durable s) \<le> sent"
  by (auto simp: stream_file_def filled_def)

lemma recreate_inv:
  assumes "same_temp E s" "dl_offset s = 0" "admissible_through (dl_durable s) \<le> sent"
    and go: "\<And>s'. live_inv settled E resource sent s' \<Longrightarrow> stream_inv settled E resource sent (next s')"
  shows "stream_inv settled E resource sent (stream_recreate E now kept s next)"
proof -
  obtain r fs where c: "session_create (se_destination E) temp_spec_default (se_preallocate E) (se_physical E) (se_total_size E) (dl_fs s) = (r, fs)"
    by fastforce
  show ?thesis
  proof (cases r)
    case (Inl e)
    then show ?thesis using c by (simp add: stream_recreate_def failed_inv)
  next
    case (Inr ses)
    obtain ino m where o: "stream_output (se_destination E) ses fs ino" "fs_bytes fs ino = replicate m 0" using create_effect c Inr by blast
    obtain k where k: "os_sink (dl_sink s) = Some k" "fk_temp_path k = temp_path_for temp_spec_default (se_destination E)"
      using assms(1) by (auto simp: same_temp_def)
    have "live_inv settled E resource sent (dl_set_fs (session_drop (dl_sink s) fs) (s\<lparr>dl_sink := ses\<rparr>))"
      using drop_output [OF o(1) k] o(2) assms(2) filled_fresh [OF assms(3)] by (auto simp: stream_file_def)
    then show ?thesis using go c Inr by (simp add: stream_recreate_def)
  qed
qed

text \<open>Stamping and saving a checkpoint leave the output alone.\<close>

lemma stamp_effect:
  assumes "stamp_checkpoint E cp s = (cp', s')"
  shows "\<exists>fs. s' = dl_set_fs fs s \<and> same_fs (dl_fs s) fs" "cp_completed_ranges cp' = cp_completed_ranges cp"
proof -
  obtain m fs1 where m: "symlink_metadata (os_temp_path (dl_sink s)) (dl_fs s) = (m, fs1)" by fastforce
  obtain i fs2 where i: "open_existing (os_temp_path (dl_sink s)) fs1 = (i, fs2)" by fastforce
  obtain g fs3 where g: "sys_call fs1 = (g, fs3)" by fastforce
  have e: "same_fs (dl_fs s) fs1" using metadata_effect [OF m] by (simp add: same_fs_def)
  have "fs2 = fs3" using i g by (auto simp: open_existing_def split: option.splits fs_node.splits)
  then have e2: "same_fs (dl_fs s) fs2" using e sys_call_fs [OF g] by (simp add: same_fs_def)
  show "\<exists>fs. s' = dl_set_fs fs s \<and> same_fs (dl_fs s) fs" using assms e e2
    by (auto simp: stamp_checkpoint_def m i Let_def split: sum.splits if_splits)
  show "cp_completed_ranges cp' = cp_completed_ranges cp" using assms
    by (auto simp: stamp_checkpoint_def m i Let_def set_owned_temp_identity_def set_covered_digest_def split: sum.splits if_splits)
qed

lemma persist_effect:
  assumes "persist_checkpoint E join_error refusal cp s = (r, s')"
  shows "dl_sink s' = dl_sink s" "dl_offset s' = dl_offset s" "same_fs (dl_fs s) (dl_fs s')" "dl_durable s' = dl_durable s"
proof -
  obtain x fs where x: "sync_data_before_checkpoint True join_error (dl_fs s) = (x, fs)" by fastforce
  obtain g fs3 where g: "sys_call (dl_fs s) = (g, fs3)" by fastforce
  have e: "same_fs (dl_fs s) fs" using x g sys_call_fs [OF g]
    by (auto simp: sync_data_before_checkpoint_def split: option.splits)
  show "dl_sink s' = dl_sink s" "dl_offset s' = dl_offset s" "same_fs (dl_fs s) (dl_fs s')" "dl_durable s' = dl_durable s"
    using assms e by (auto simp: persist_checkpoint_def Let_def x split: if_splits sum.splits prod.splits)
qed

lemma covers_ranges: "covers resource n content \<Longrightarrow> 0 < n \<Longrightarrow> ranges_sound resource content [(0, sat_sub n 1)]"
  by (auto simp: covers_def ranges_sound_def sat_sub_def) (metis less_eq_Suc_le Suc_pred le_imp_less_Suc nth_take)

lemma checkpoint_inv:
  assumes live: "live_inv settled E resource sent s" and pos: "0 < dl_offset s" and cp: "stream_checkpoint E ms s = (cp, s')"
    and after: "after = SaveThenRead b \<or> after = SaveThenWait b" "read_position b = dl_offset s"
  shows "stream_inv settled E resource sent (dl_goto (StreamSave cp after) s')"
proof -
  obtain fs where fs: "s' = dl_set_fs fs s" "same_fs (dl_fs s) fs" "cp_completed_ranges cp = [(0, sat_sub (dl_offset s) 1)]"
    using stamp_effect [OF cp [unfolded stream_checkpoint_def Let_def]] by auto
  obtain ino k where k: "output_open (dl_sink s) k ino" "settled \<Longrightarrow> covers resource (dl_offset s) (fs_bytes (dl_fs s) ino)"
    using live by (auto simp: stream_file_def stream_output_def filled_def)
  have "ranges_sound resource (fs_bytes fs ino) (cp_completed_ranges cp)" if settled
    using covers_ranges [OF k(2) [OF that] pos] fs(2,3) by (simp add: same_fs_def)
  then show ?thesis using live k(1) fs(1,2) after stream_file_same [OF fs(2)] by (intro live_intro) (auto simp: pc_ok_def)
qed

lemma intent_offset: "intent_start (tq_intent (stream_request E s)) = dl_offset s"
  by (simp add: stream_request_def stream_intent_def intent_start_def)

lemma accept_head_start: "accept_head url intent meta = Inr a \<Longrightarrow> ar_start a = intent_start intent"
  by (auto simp: accept_head_def intent_start_def validate_range_response_def range_request_is_nonzero_def Let_def
      split: if_splits transfer_intent.splits sum.splits option.splits prod.splits)

lemma top_inv: "live_inv settled E resource sent s \<Longrightarrow> stream_inv settled E resource sent (stream_top E now ms s)"
  using intent_offset [of E s] by (auto simp: stream_top_def failed_inv pc_ok_def intro!: live_intro split: option.splits prod.splits)

lemma admit_inv:
  assumes "live_inv settled E resource sent s" "intent_start (tq_intent q) = dl_offset s" "stream_admit E now ms adm q s = Some s'"
  shows "stream_inv settled E resource sent s'"
  using assms by (auto simp: stream_admit_def failed_inv pc_ok_def intro!: live_intro split: if_splits admission.splits option.splits prod.splits)

lemma retry_request_inv:
  assumes "live_inv settled E resource sent s"
  shows "stream_inv settled E resource sent (stream_retry_request E now ms failure s)"
proof -
  define s1 where "s1 = (if is_throttle (hf_error failure) then report_throttle_origin E ms (hf_retry_after failure) (dl_attempt s) s else s)"
  obtain kept s2 where a: "stream_abort s1 = (kept, s2)" by fastforce
  have "same_temp E s1" using live_same_temp [OF assms] by (simp add: s1_def same_temp_def)
  note same = abort_same_temp [OF this a]
  have goal: "stream_inv settled E resource sent (stream_recreate E now kept (dl_count (add_retries 1) s2\<lparr>dl_attempt := n, dl_offset := 0\<rparr>)
      (\<lambda>s. dl_goto StreamBackoff (case http_status (hf_error failure) of Some status \<Rightarrow> dl_warn (w status) s | None \<Rightarrow> s)))" for n w
    by (rule recreate_inv)
      (use same live_sent [OF assms] in \<open>auto simp: same_temp_def pc_ok_def s1_def intro!: live_intro split: option.splits\<close>)
  show ?thesis
  proof (cases "decide (se_F E) (se_B E) (se_retry E) (hf_error failure) (dl_attempt s2) (hf_retry_after failure)")
    case (Retry n delay)
    show ?thesis unfolding stream_retry_request_def Let_def s1_def [symmetric] a prod.case Retry retry_decision.case by (rule goal)
  qed (simp add: stream_retry_request_def Let_def s1_def [symmetric] a failed_inv)
qed

lemma request_failed_inv:
  assumes "live_inv settled E resource sent s"
  shows "stream_inv settled E resource sent (stream_request_failed E now ms failure s)"
  using assms retry_request_inv [OF assms, of now ms failure]
  by (auto simp: stream_request_failed_def Let_def failed_inv pc_ok_def intro!: live_intro split: option.splits sum.splits credential_decision.splits)

lemma response_inv:
  assumes "live_inv settled E resource sent s" "intent_start (tq_intent q) = dl_offset s" "\<And>a. result = Inr a \<Longrightarrow> ar_start a = intent_start (tq_intent q)"
  shows "stream_inv settled E resource sent (stream_response E now ms q result s)"
  using assms request_failed_inv [OF assms(1)]
  by (auto simp: stream_response_def pc_ok_def read_position_def intro!: live_intro split: sum.splits)

lemma reopen_inv:
  assumes live: "live_inv settled E resource sent s" and through: "through = admissible_through (dl_durable s)" and caught_up: "settled \<Longrightarrow> through \<le> dl_offset s"
    and go: "\<And>s'. live_inv settled E resource sent s' \<Longrightarrow> stream_inv settled E resource sent (next s')"
  shows "stream_inv settled E resource sent (stream_reopen E now through s next)"
proof -
  define s2 where "s2 = dl_set_fs (snd (session_flush flush_level.PageCache (dl_sink s) (dl_fs s)))
    (s\<lparr>dl_offset := through, dl_sink := preserve_partial (dl_sink s)\<rparr>)"
  obtain r fs where r: "session_reopen (se_destination E) temp_spec_default (dl_fs s2) = (r, fs)" by fastforce
  have f2: "live_inv settled E resource sent s2"
    using stream_file_preserve [OF stream_file_back [OF live]] caught_up through stream_file_same [OF flush_same [of "dl_fs s" flush_level.PageCache "dl_sink s"]]
    by (simp add: s2_def)
  show ?thesis
  proof (cases r)
    case (Inr ses)
    from reopen_effect [OF r [unfolded Inr]] obtain ino where o: "same_fs (dl_fs s2) fs"
        "entry_at (dl_fs s2) (temp_path_for temp_spec_default (se_destination E)) = Some (FileNode ino)" "stream_output (se_destination E) ses fs ino" by blast
    have cov: "filled settled resource sent (admissible_through (dl_durable s2)) (dl_offset s2) (fs_bytes fs ino)"
      using f2 o(1,2) by (auto simp: stream_file_def stream_output_def same_fs_def)
    have kept: "session_drop (dl_sink s2) fs = fs"
      by (auto simp: s2_def session_drop_def sink_drop_def preserve_partial_def set_keep_on_drop_def split: option.splits)
    have "live_inv settled E resource sent (dl_set_fs (session_drop (dl_sink s2) fs) (s2\<lparr>dl_sink := ses\<rparr>))"
      using o(3) cov kept by (auto simp: stream_file_def)
    then show ?thesis using go r Inr unfolding stream_reopen_def Let_def s2_def [symmetric] by simp
  qed (use r in \<open>simp add: stream_reopen_def Let_def s2_def [symmetric] failed_inv\<close>)
qed

lemma fault_inv:
  assumes live: "live_inv settled E resource sent s" and caught_up: "settled \<Longrightarrow> admissible_through (dl_durable s) \<le> dl_offset s"
  shows "stream_inv settled E resource sent (stream_fault E now b e s)"
proof (cases "decide (se_F E) (se_B E) (se_retry E) e (dl_attempt s) None")
  case (Retry n delay)
  define s1 where "s1 = dl_count (add_wasted (sd_written b)) (dl_count (add_retries 1) s)\<lparr>dl_attempt := n\<rparr>"
  define resume where "resume = (\<lambda>s::'b stream. dl_goto StreamBackoff
    (dl_warn (''stream reset; retrying from offset '' @ show_u64 (dl_offset s) @ '' ('' @ display_error e @ '')'') s))"
  have resumes: "stream_inv settled E resource sent (resume s')" if "live_inv settled E resource sent s'" for s'
    using that by (auto simp: resume_def pc_ok_def intro!: live_intro)
  have s1 [simp]: "dl_sink s1 = dl_sink s" "dl_world s1 = dl_world s" "dl_durable s1 = dl_durable s" "dl_offset s1 = dl_offset s"
    by (simp_all add: s1_def)
  obtain kept s3 where a: "stream_abort (s1\<lparr>dl_offset := 0\<rparr>) = (kept, s3)" by fastforce
  have "same_temp E (s1\<lparr>dl_offset := 0\<rparr>)" using live_same_temp [OF live] by (simp add: same_temp_def)
  note same = abort_same_temp [OF this a]
  have "stream_fault E now b e s = (if 0 < admissible_through (dl_durable s) then stream_reopen E now (admissible_through (dl_durable s)) s1 resume
      else stream_recreate E now kept s3 resume)"
    unfolding stream_fault_def Let_def Retry retry_decision.case s1_def [symmetric] resume_def [symmetric] a prod.case by simp
  moreover have "stream_inv settled E resource sent (stream_reopen E now (admissible_through (dl_durable s)) s1 resume)"
    by (rule reopen_inv) (use live caught_up resumes in auto)
  moreover have "stream_inv settled E resource sent (stream_recreate E now kept s3 resume)"
    by (rule recreate_inv) (use same resumes live_sent [OF live] in auto)
  ultimately show ?thesis by simp
qed (simp add: stream_fault_def failed_inv)

text \<open>
  What is asked of the server: a chunk is the part of the resource at its place in the response; and where the size
  of the resource is not known, a body ends where the resource ends.
\<close>

definition server_exact :: "('f, 's) stream_env \<Rightarrow> nat list \<Rightarrow> stream_input \<Rightarrow> 's stream \<Rightarrow> bool" where
  "server_exact E resource inp s =
     (case dl_pc s of
        StreamBody b \<Rightarrow>
          (case inp of
             StreamFrame frame \<Rightarrow>
               (case fst (poll_step (dl_cancelled s) (dl_paused s) frame (sd_body b)) of
                  Inr (BodyData data) \<Rightarrow> exact_data resource (read_position b) data
                | Inr BodyEnd \<Rightarrow> se_total_size E = None \<longrightarrow> read_position b = length resource
                | _ \<Rightarrow> True)
           | _ \<Rightarrow> True)
      | _ \<Rightarrow> True)"

text \<open>
  The place up to which the server has sent the resource; and the order of faults that a settled run excludes: a body
  that breaks off at a place which an earlier response had already passed.
\<close>

definition sent_after :: "nat \<Rightarrow> stream_input \<Rightarrow> 's stream \<Rightarrow> nat" where
  "sent_after sent inp s =
     (case dl_pc s of
        StreamBody b \<Rightarrow>
          (case inp of
             StreamFrame frame \<Rightarrow>
               (case fst (poll_step (dl_cancelled s) (dl_paused s) frame (sd_body b)) of
                  Inr (BodyData data) \<Rightarrow> max sent (read_position b + length data)
                | _ \<Rightarrow> sent)
           | _ \<Rightarrow> sent)
      | _ \<Rightarrow> sent)"

definition breaks_ahead :: "nat \<Rightarrow> stream_input \<Rightarrow> 's stream \<Rightarrow> bool" where
  "breaks_ahead sent inp s =
     (case dl_pc s of
        StreamBody b \<Rightarrow>
          (case inp of
             StreamFrame frame \<Rightarrow>
               (case fst (poll_step (dl_cancelled s) (dl_paused s) frame (sd_body b)) of
                  Inl e \<Rightarrow> e = download_error.Cancelled \<or> sent \<le> read_position b
                | _ \<Rightarrow> True)
           | _ \<Rightarrow> True)
      | _ \<Rightarrow> True)"

lemma sent_grows: "sent \<le> sent_after sent inp s"
  by (auto simp: sent_after_def split: stream_pc.splits stream_input.splits sum.splits body_event.splits)

lemma paused_inv:
  assumes "live_inv settled E resource sent s" "read_position b = dl_offset s"
  shows "stream_inv settled E resource sent (stream_paused E ms b s)"
proof -
  define s1 where "s1 = dl_set_fs (snd (session_flush flush_level.PageCache (dl_sink s) (dl_fs s))) s\<lparr>dl_durable := page_cache_ack (dl_offset s) (dl_durable s)\<rparr>"
  obtain cp s2 where cp: "stream_checkpoint E ms s1 = (cp, s2)" by fastforce
  have s1: "live_inv settled E resource sent s1" "dl_offset s1 = dl_offset s"
    using stream_file_ack [OF assms(1)] stream_file_same [OF flush_same [of "dl_fs s" flush_level.PageCache "dl_sink s"]] by (simp_all add: s1_def)
  have eq: "stream_paused E ms b s = (if se_total_size E \<noteq> None \<and> 0 < dl_offset s then dl_goto (StreamSave cp (SaveThenWait b)) s2 else dl_goto (StreamWait b) s1)"
    using cp by (simp add: stream_paused_def Let_def s1_def)
  have "0 < dl_offset s \<Longrightarrow> stream_inv settled E resource sent (dl_goto (StreamSave cp (SaveThenWait b)) s2)"
    using checkpoint_inv [OF s1(1) _ cp, of "SaveThenWait b" b] assms(2) s1(2) by simp
  moreover have "stream_inv settled E resource sent (dl_goto (StreamWait b) s1)" by (rule live_intro) (use s1 assms(2) in \<open>auto simp: pc_ok_def\<close>)
  ultimately show ?thesis using eq by simp
qed

lemma body_inv:
  assumes live: "live_inv settled E resource sent s" and pos: "read_position b = dl_offset s" and pc: "dl_pc s = StreamBody b"
    and exact: "server_exact E resource (StreamFrame frame) s" and ahead: "settled \<Longrightarrow> breaks_ahead sent (StreamFrame frame) s"
    and sent: "sent_after sent (StreamFrame frame) s = sent"
  shows "stream_inv settled E resource sent (stream_body E now ms b frame s)"
proof -
  obtain event body where p: "poll_step (dl_cancelled s) (dl_paused s) frame (sd_body b) = (event, body)" by fastforce
  have b': "read_position (b\<lparr>sd_body := body\<rparr>) = dl_offset s" using pos by (simp add: read_position_def)
  have eq: "stream_body E now ms b frame s = (case event of
        Inr (BodyData data) \<Rightarrow> stream_data E now (b\<lparr>sd_body := body\<rparr>) data s
      | Inr BodyEnd \<Rightarrow> dl_goto StreamVerify (dl_release (report_success_origin E ms s))
      | Inr BodyPaused \<Rightarrow> stream_paused E ms (b\<lparr>sd_body := body\<rparr>) s
      | Inl e \<Rightarrow> if e = download_error.Cancelled then stream_cancelled E now s else stream_fault E now (b\<lparr>sd_body := body\<rparr>) e s)"
    by (simp add: stream_body_def p Let_def)
  show ?thesis
  proof (cases event)
    case (Inl e)
    show ?thesis
    proof (cases "e = download_error.Cancelled")
      case False
      then have "admissible_through (dl_durable s) \<le> dl_offset s" if settled
        using ahead [OF that] pc p Inl pos live_sent [OF live] by (simp add: breaks_ahead_def)
      from fault_inv [OF live this] show ?thesis using eq Inl False by simp
    qed (simp add: eq Inl failed_inv)
  next
    case (Inr ev)
    show ?thesis
    proof (cases ev)
      case (BodyData data)
      then have "exact_data resource (dl_offset s) data" using exact pc p Inr pos by (simp add: server_exact_def)
      moreover have "dl_offset s + length data \<le> sent"
        using sent pc p Inr pos BodyData by (simp add: sent_after_def)
      ultimately have "stream_inv settled E resource sent (dl_goto (StreamReserve (b\<lparr>sd_body := body\<rparr>) data) s)"
        by (intro live_intro live) (use b' in \<open>auto simp: pc_ok_def\<close>)
      then show ?thesis using eq Inr BodyData by (simp add: stream_data_def failed_inv split: option.splits)
    next
      case BodyEnd
      then have "se_total_size E = None \<longrightarrow> dl_offset s = length resource" using exact pc p Inr pos by (simp add: server_exact_def)
      then have "stream_inv settled E resource sent (dl_goto StreamVerify (dl_release (report_success_origin E ms s)))"
        by (intro live_intro) (use live in \<open>auto simp: pc_ok_def\<close>)
      then show ?thesis using eq Inr BodyEnd by simp
    next
      case BodyPaused
      then show ?thesis using eq Inr paused_inv [OF live b'] by simp
    qed
  qed
qed

lemma write_inv:
  assumes live: "live_inv settled E resource sent s" and pos: "read_position b = dl_offset s" and data: "exact_data resource (dl_offset s) data"
    and reached: "dl_offset s + length data \<le> sent" and bound: "length resource \<le> u64_max"
  shows "stream_inv settled E resource sent (stream_write E now ms partial b data s)"
proof -
  obtain r fs where r: "session_write_at partial (dl_offset s) data (dl_sink s) (dl_fs s) = (r, fs)" by fastforce
  show ?thesis
  proof (cases r)
    case (Inr ses)
    define n where "n = dl_offset s + length data"
    have exact: "u64_add (dl_offset s) (length data) = n" "sd_written b + length data \<le> n" "n \<le> u64_max"
      using data bound pos by (auto simp: exact_data_def n_def read_position_def u64_exact)
    define s1 where "s1 = dl_count (add_completed (length data)) (dl_count (add_network (length data)) (dl_set_fs fs (s\<lparr>dl_sink := ses\<rparr>)))
      \<lparr>dl_offset := n, dl_durable := page_cache_ack n (dl_durable s)\<rparr>"
    define b1 where "b1 = b\<lparr>sd_written := u64_add (sd_written b) (length data)\<rparr>"
    obtain cp s2 where cp: "stream_checkpoint E ms (s1\<lparr>dl_last_checkpoint := now\<rparr>) = (cp, s2)" by fastforce
    have s1: "live_inv settled E resource sent s1" "dl_offset s1 = n" using session_write_effect [OF live data reached r [unfolded Inr]] by (simp_all add: s1_def n_def)
    have b1: "read_position b1 = n" using exact pos by (simp add: b1_def read_position_def n_def u64_exact)
    have eq: "stream_write E now ms partial b data s = (if se_flush_interval E \<le> now - dl_last_checkpoint s1 \<and> 0 < n
        then dl_goto (StreamSave cp (SaveThenRead b1)) s2 else dl_goto (StreamBody b1) s1)"
      using r Inr cp exact(1) by (simp add: stream_write_def Let_def s1_def b1_def)
    have "0 < n \<Longrightarrow> stream_inv settled E resource sent (dl_goto (StreamSave cp (SaveThenRead b1)) s2)"
      using checkpoint_inv [OF _ _ cp, of settled resource sent "SaveThenRead b1" b1] s1 b1 by simp
    moreover have "stream_inv settled E resource sent (dl_goto (StreamBody b1) s1)" by (rule live_intro) (use s1 b1 in \<open>auto simp: pc_ok_def\<close>)
    ultimately show ?thesis using eq by simp
  qed (use r in \<open>simp add: stream_write_def Let_def failed_inv\<close>)
qed

lemma saved_inv:
  assumes live: "live_inv settled E resource sent s" and pc: "pc_ok settled E resource sent s (StreamSave cp after)"
  shows "stream_inv settled E resource sent (stream_saved E now cp after join_error refusal s)"
proof -
  obtain r s1 where r: "persist_checkpoint E join_error refusal cp s = (r, s1)" by fastforce
  note e = persist_effect [OF r]
  have s1: "live_inv settled E resource sent s1" using live e stream_file_same [OF e(3)] by simp
  have kept: "live_inv settled E resource sent (s1\<lparr>dl_checkpoint_retained := True, dl_sink := preserve_partial (dl_sink s1)\<rparr>)"
    using stream_file_preserve [OF s1] by simp
  show ?thesis
  proof (cases r)
    case (Inr u)
    then show ?thesis using r s1 kept e(2) pc
      by (cases after) (auto simp: stream_saved_def Let_def pc_ok_def intro!: live_intro)
  qed (use r in \<open>simp add: stream_saved_def failed_inv\<close>)
qed

lemma verify_inv:
  assumes live: "live_inv settled E resource sent s" and whole: "se_total_size E = None \<longrightarrow> dl_offset s = length resource"
  shows "stream_inv settled E resource sent (stream_verify E now cv s)"
proof -
  define accounting where "accounting = sequential_accounting (dl_counters s) (case se_total_size E of Some t \<Rightarrow> Some t | None \<Rightarrow> se_expected_size E)
    (now - se_started E) (dl_validators s) (rp_warnings (se_plan E))"
  obtain r w where run: "complete_verified_output (se_completion E) (dl_sink s) accounting (dl_checkpoint_retained s) (dl_offset s) cv (dl_world s) = (r, w)"
    by fastforce
  have eq: "stream_verify E now cv s = dl_goto (StreamDone r) (s\<lparr>dl_world := w\<rparr>)" using run by (simp add: stream_verify_def Let_def accounting_def)
  obtain k ino where k: "output_open (dl_sink s) k ino" "fk_destination k = se_destination E"
      "entry_at (dl_fs s) (fk_temp_path k) \<in> {None, Some (FileNode ino)}" 
      "covers resource (dl_offset s) (fs_bytes (dl_fs s) ino) \<or> \<not> settled \<and> patchy resource (fs_bytes (dl_fs s) ino)"
    using live by (auto simp: stream_file_def stream_output_def filled_def split: if_splits)
  show ?thesis
  proof (cases r)
    case (Inr c)
    have "entry_at (dl_fs s) (fk_temp_path k) \<noteq> None" using unlinked_completion_fails [OF k(1) _ run] Inr by blast
    then have "output_ready (dl_sink s) k ino (dl_fs s)" using k(1,3) by (auto simp: output_ready_def)
    note completed = completion_effect [OF this run]
    have "ta_total_size accounting = (case se_total_size E of Some t \<Rightarrow> Some t | None \<Rightarrow> se_expected_size E)"
      by (simp add: accounting_def sequential_accounting_def Let_def)
    then show ?thesis using completed Inr k(2,4) whole
      by (auto simp: eq stream_inv_def published_file_def intro!: exI [of _ "fs_bytes (dl_fs s) ino"] split: option.splits)
  qed (simp add: eq stream_inv_def)
qed

text \<open>Every step keeps the invariant.\<close>

lemma control_inv:
  assumes "stream_inv settled E resource sent s" "dl_pc s' = dl_pc s" "dl_world s' = dl_world s" "dl_sink s' = dl_sink s" "dl_offset s' = dl_offset s"
    "dl_durable s' = dl_durable s"
  shows "stream_inv settled E resource sent s'"
proof -
  have "pc_ok settled E resource sent s' pc = pc_ok settled E resource sent s pc" for pc using pc_ok_cong [of s' s settled E resource sent pc] assms by simp
  then show ?thesis using assms by (auto simp: stream_inv_def published_file_def split: stream_pc.splits sum.splits option.splits)
qed

lemma stream_step_inv:
  assumes inv: "stream_inv settled E resource sent s" and exact: "server_exact E resource inp s" and ahead: "settled \<Longrightarrow> breaks_ahead sent inp s"
    and sent: "sent_after sent inp s = sent" and step: "stream_step E now ms inp s = Some s'" and bound: "length resource \<le> u64_max"
  shows "stream_inv settled E resource sent s'"
proof (cases "\<exists>r. dl_pc s = StreamDone r")
  case False
  then have live: "live_inv settled E resource sent s" and pc: "pc_ok settled E resource sent s (dl_pc s)" using live_dest [OF inv] by blast+
  have go: "stream_inv settled E resource sent (dl_goto pc' s)" if "\<And>r. pc' \<noteq> StreamDone r" "pc_ok settled E resource sent s pc'" for pc'
    using live_intro [OF live] that by blast
  have release: "stream_inv settled E resource sent (dl_goto StreamTop (dl_release s))" by (rule live_intro) (use live in \<open>auto simp: pc_ok_def\<close>)
  show ?thesis
  proof (cases "\<exists>m. inp = StreamCancel m \<or> inp = StreamPause \<or> inp = StreamResume")
    case True
    then show ?thesis using step by (auto simp: stream_step_def intro!: control_inv [OF inv])
  next
    case control: False
    show ?thesis
    proof (cases "dl_pc s")
      case StreamTop
      then show ?thesis using step control top_inv [OF live] by (auto simp: stream_step_def split: stream_input.splits)
    next
      case (StreamAdmit adm q)
      then show ?thesis using step control pc admit_inv [OF live] by (auto simp: stream_step_def pc_ok_def split: stream_input.splits)
    next
      case (StreamRequest q)
      then have q: "intent_start (tq_intent q) = dl_offset s" using pc by (simp add: pc_ok_def)
      show ?thesis using step control StreamRequest response_inv [OF live q] accept_head_start
        by (auto simp: stream_step_def split: stream_input.splits)
    next
      case (StreamBody b)
      then have "read_position b = dl_offset s" using pc by (simp add: pc_ok_def)
      from body_inv [OF live this StreamBody] show ?thesis using step control StreamBody exact ahead sent by (auto simp: stream_step_def split: stream_input.splits)
    next
      case (StreamReserve b data)
      then show ?thesis using step control pc go [of "StreamRate b data"] by (auto simp: stream_step_def failed_inv pc_ok_def split: stream_input.splits)
    next
      case (StreamRate b data)
      then show ?thesis using step control pc go [of "StreamRetag b data"] by (auto simp: stream_step_def pc_ok_def split: stream_input.splits if_splits)
    next
      case (StreamRetag b data)
      then show ?thesis using step control pc go [of "StreamWrite b data"] by (auto simp: stream_step_def failed_inv pc_ok_def split: stream_input.splits)
    next
      case (StreamWrite b data)
      then have "read_position b = dl_offset s" "exact_data resource (dl_offset s) data" "dl_offset s + length data \<le> sent" using pc by (simp_all add: pc_ok_def)
      from write_inv [OF live this bound] show ?thesis using step control StreamWrite by (auto simp: stream_step_def split: stream_input.splits)
    next
      case (StreamSave cp after)
      then show ?thesis using step control saved_inv [OF live pc [unfolded StreamSave]] by (auto simp: stream_step_def split: stream_input.splits)
    next
      case (StreamWait b)
      then show ?thesis using step control pc go [of "StreamBody b"] by (auto simp: stream_step_def failed_inv pc_ok_def split: stream_input.splits if_splits)
    next
      case StreamBackoff
      then show ?thesis using step control release by (auto simp: stream_step_def split: stream_input.splits if_splits)
    next
      case StreamVerify
      then have "se_total_size E = None \<longrightarrow> dl_offset s = length resource" using pc by (simp add: pc_ok_def)
      from verify_inv [OF live this] show ?thesis using step control StreamVerify by (auto simp: stream_step_def split: stream_input.splits)
    next
      case (StreamDone r)
      then show ?thesis using False by blast
    qed
  qed
next
  case True
  then show ?thesis using step inv by (auto simp: stream_step_def intro!: control_inv [OF inv] split: stream_input.splits)
qed

section \<open>A completed run has published the resource\<close>

text \<open>A run of an exact server from the place \<open>sent\<close>; in a settled one no body breaks off behind what was sent before.\<close>

fun exact_stream :: "bool \<Rightarrow> ('f, 's) stream_env \<Rightarrow> nat list \<Rightarrow> nat \<Rightarrow> stream_event list \<Rightarrow> 's stream \<Rightarrow> 's stream option" where
  "exact_stream settled E resource sent [] s = Some s"
| "exact_stream settled E resource sent ((now, ms, inp) # rest) s =
     (if server_exact E resource inp s \<and> (settled \<longrightarrow> breaks_ahead sent inp s)
      then (case stream_step E now ms inp s of
              None \<Rightarrow> None
            | Some s' \<Rightarrow> exact_stream settled E resource (sent_after sent inp s) rest s')
      else None)"

lemma sent_again: "sent_after (sent_after sent inp s) inp s = sent_after sent inp s"
  by (auto simp: sent_after_def split: stream_pc.splits stream_input.splits sum.splits body_event.splits)

lemma ahead_again: "breaks_ahead sent inp s \<Longrightarrow> breaks_ahead (sent_after sent inp s) inp s"
  by (auto simp: breaks_ahead_def sent_after_def split: stream_pc.splits stream_input.splits sum.splits body_event.splits)

lemma exact_step_inv:
  assumes "stream_inv settled E resource sent s" "length resource \<le> u64_max" "server_exact E resource inp s"
    "settled \<longrightarrow> breaks_ahead sent inp s" "stream_step E now ms inp s = Some s'"
  shows "stream_inv settled E resource (sent_after sent inp s) s'"
  by (rule stream_step_inv [OF inv_sent [OF assms(1) sent_grows] assms(3) _ sent_again assms(5,2)]) (use assms(4) ahead_again in blast)

lemma exact_stream_inv:
  "stream_inv settled E resource sent s \<Longrightarrow> length resource \<le> u64_max \<Longrightarrow> exact_stream settled E resource sent events s = Some s'
    \<Longrightarrow> \<exists>sent'. stream_inv settled E resource sent' s'"
proof (induction settled E resource sent events s rule: exact_stream.induct)
  case (2 settled E resource sent now ms inp rest s)
  then obtain u where "stream_step E now ms inp s = Some u" "server_exact E resource inp s" "settled \<longrightarrow> breaks_ahead sent inp s"
    "exact_stream settled E resource (sent_after sent inp s) rest u = Some s'" by (auto split: if_splits option.splits)
  with 2 show ?case using exact_step_inv [of settled E resource sent s inp now ms u] by auto
qed auto

text \<open>What the admitted plan says of the temporary file.\<close>

definition resumed_output :: "('f, 's) stream_env \<Rightarrow> nat list \<Rightarrow> output_session \<Rightarrow> file_system \<Rightarrow> bool" where
  "resumed_output E resource ses fs \<longleftrightarrow>
     (\<exists>ino. stream_output (se_destination E) ses fs ino \<and> covers resource (sq_offset (plan_sequential (se_plan E))) (fs_bytes fs ino))
     \<and> (\<forall>k ino cp. output_open ses k ino \<and> rp_checkpoint (se_plan E) = Some cp \<longrightarrow> ranges_sound resource (fs_bytes fs ino) (cp_completed_ranges cp))"

lemma begin_inv:
  assumes "resumed_output E resource ses (jw_fs w)"
  shows "stream_inv settled E resource (sq_offset (plan_sequential (se_plan E))) (stream_begin E counters origins mode ses w)"
proof -
  let ?resumed = "plan_sequential (se_plan E)"
  let ?sent = "sq_offset ?resumed"
  define s where "s = \<lparr>dl_pc = StreamTop, dl_world = w\<lparr>jw_state := moved Running (jw_state w)\<rparr>, dl_sink = ses, dl_offset = sq_offset ?resumed,
     dl_validators = se_validators E, dl_attempt = 0, dl_last_checkpoint = se_started E,
     dl_durable = page_cache_ack (sq_offset ?resumed) (tracker_new (se_durability E)),
     dl_checkpoint_retained = (rp_checkpoint (se_plan E) \<noteq> None), dl_auth_stages = 0, dl_challenge_headers = [],
     dl_counters = on_worker 0 (add_reused (sq_reused_bytes ?resumed)) counters, dl_origins = origins, dl_permit = None,
     dl_cancelled = False, dl_paused = False, dl_mode = mode\<rparr>"
  have live: "live_inv settled E resource ?sent s" using assms filled_start by (auto simp: resumed_output_def stream_file_def s_def)
  then have fresh: "stream_inv settled E resource ?sent s" by (simp add: stream_inv_def s_def pc_ok_def)
  show ?thesis
  proof (cases "\<exists>cp. stream_resuming E \<and> rp_checkpoint (se_plan E) = Some cp")
    case True
    then obtain cp where cp: "stream_resuming E" "rp_checkpoint (se_plan E) = Some cp" by blast
    obtain cp' s' where st: "stamp_checkpoint E (cp\<lparr>cp_final_url := se_final_url E\<rparr>) s = (cp', s')" by fastforce
    obtain fs where fs: "s' = dl_set_fs fs s" "same_fs (dl_fs s) fs" "cp_completed_ranges cp' = cp_completed_ranges cp"
      using stamp_effect [OF st] by auto
    obtain k ino where k: "output_open ses k ino" using live by (auto simp: stream_file_def stream_output_def s_def)
    have "ranges_sound resource (fs_bytes fs ino) (cp_completed_ranges cp')"
      using assms k cp(2) fs(2,3) by (auto simp: resumed_output_def same_fs_def s_def)
    then have "stream_inv settled E resource ?sent (dl_goto (StreamSave cp' SaveThenRequest) s')"
      using live k fs(1) stream_file_same [OF fs(2)] by (intro live_intro) (auto simp: pc_ok_def s_def)
    then show ?thesis using cp st by (simp add: stream_begin_def Let_def s_def)
  next
    case False
    then have "stream_begin E counters origins mode ses w = s"
      by (auto simp: stream_begin_def Let_def s_def split: bool.splits option.splits)
    then show ?thesis using fresh by simp
  qed
qed

text \<open>
  Claim C32: a single-stream transfer publishes the resource. Let every chunk be the part of the resource at its place
  in the response, and let the size of the probe be the one of the resource or, when there is none, let every body end
  where the resource ends; and let the requests and bodies fail in any way, with retries, pauses, saves and failing
  system calls. Then a run that reports completion has published a file of exactly the length of the resource in which
  every byte is the resource's or a zero that was never written. Such zeros can only come from one order of faults: a
  request fails, the transfer starts again from zero, and its body breaks off before it has come as far as an earlier
  response. In a settled run, where no body breaks off at a place that an earlier one had passed, the published file is
  the resource, and every checkpoint that is saved claims only bytes that are in the temporary file and are those of
  the resource.
\<close>

theorem stream_publishes_resource:
  assumes "resumed_output E resource ses (jw_fs w)" "length resource \<le> u64_max"
    and probed: "\<And>t. se_total_size E = Some t \<Longrightarrow> t = length resource"
    and "exact_stream settled E resource (sq_offset (plan_sequential (se_plan E))) events (stream_begin E counters origins mode ses w) = Some s"
  shows "case dl_pc s of
      StreamDone (Inr _) \<Rightarrow>
        (\<exists>ino. entry_at (dl_fs s) (se_destination E) = Some (FileNode ino) \<and> length (fs_bytes (dl_fs s) ino) = length resource
          \<and> (\<forall>p < length resource. fs_bytes (dl_fs s) ino ! p \<in> {resource ! p, 0})
          \<and> (settled \<longrightarrow> fs_bytes (dl_fs s) ino = resource))
    | StreamSave cp _ \<Rightarrow>
        settled \<longrightarrow> (\<exists>k ino. output_open (dl_sink s) k ino \<and> ranges_sound resource (fs_bytes (dl_fs s) ino) (cp_completed_ranges cp))
    | _ \<Rightarrow> True"
proof -
  obtain sent where inv: "stream_inv settled E resource sent s"
    using exact_stream_inv [OF begin_inv [OF assms(1)] assms(2,4)] by blast
  show ?thesis
  proof (cases "\<exists>c. dl_pc s = StreamDone (Inr c)")
    case True
    then have pub: "published_file settled E resource s" using inv by (auto simp: stream_inv_def)
    then have off: "dl_offset s = length resource" using probed by (auto simp: published_file_def split: option.splits)
    obtain ino content where c: "entry_at (dl_fs s) (se_destination E) = Some (FileNode ino)"
        "fs_bytes (dl_fs s) ino = sized (length resource) content"
        "covers resource (length resource) content \<or> \<not> settled \<and> patchy resource content"
      using pub unfolding published_file_def off by blast
    have bytes: "sized (length resource) content ! p \<in> {resource ! p, 0}" if "p < length resource" for p
      using c(3) that sized_covers [of resource "length resource" content]
      by (cases "covers resource (length resource) content") (auto simp: sized_def patchy_def nth_append)
    have "settled \<Longrightarrow> sized (length resource) content = resource"
      using c(3) sized_covers [of resource "length resource" content] by auto
    then show ?thesis using True c(1,2) bytes by auto
  qed (use inv in \<open>auto simp: stream_inv_def pc_ok_def split: stream_pc.splits sum.splits\<close>)
qed

definition demo_stream_env :: "(rat, checkpoint list) stream_env" where
  "demo_stream_env = \<lparr>se_F = rat_ops, se_B = exact_env, se_retry = retry_policy_default rat_ops,
     se_completion = \<lparr>en_overwrite = FailIfExists, en_integrity = \<lparr>ip_expected_hashes = [], ip_apply_mtime = False\<rparr>, en_identity = ''job'',
       en_digest = (\<lambda>_ bytes. bytes), en_delete = (\<lambda>_ s. (Inr (), s))\<rparr>,
     se_save = (\<lambda>cp s. (Inr (), s @ [cp])), se_sha = (\<lambda>_. []), se_provider = None, se_url = ''http://h/f'', se_headers = [],
     se_destination = (''d'', ''f''), se_expected_size = None, se_preallocate = False, se_physical = False, se_durability = Performance,
     se_flush_interval = 5, se_total_size = Some 6, se_final_url = ''http://h/f'', se_validators = validators_default, se_origin = None,
     se_plan = plan_fresh [] [], se_started = 0\<rparr>"

definition demo_stream_world :: "checkpoint list job_world" where
  "demo_stream_world = \<lparr>jw_fs = \<lparr>fs_dirs = [''d''], fs_entries = [((''d'', ''f.part''), FileNode 1)], fs_bytes = (\<lambda>i. []),
       fs_next = 2, fs_faults = []\<rparr>, jw_state = state_ordinal Preparing, jw_store = [], jw_events = []\<rparr>"

definition demo_stream :: "checkpoint list stream" where
  "demo_stream = stream_begin demo_stream_env (job_counters_new 1) registry_disabled DeletePartial demo_output demo_stream_world"

definition demo_feed :: "stream_input list \<Rightarrow> stream_event list" where
  "demo_feed inps = map (\<lambda>i. (0, 0, i)) inps"

definition demo_get :: "byte list \<Rightarrow> stream_input list" where
  "demo_get data = [StreamFrame (DataFrame data), StreamGranted, StreamElapsed, StreamGranted, StreamPut 0]"

definition demo_reset :: "stream_input list" where
  "demo_reset = [StreamFrame (StreamFault ''reset'' False), StreamElapsed, StreamRun]"

definition demo_end :: "stream_input list" where
  "demo_end = StreamHead 206 [(''content-range'', ''bytes 4-5/6'')] ''HTTP/1.1'' # demo_get [14, 15]
     @ [StreamFrame EndOfStream, StreamFinish \<lparr>cv_polls = [], cv_deadline = False\<rparr>]"

text \<open>Four bytes, a reset, and the rest by a range request.\<close>

definition demo_stream_retry :: "stream_input list" where
  "demo_stream_retry = [StreamRun, StreamHead 200 [] ''HTTP/1.1''] @ demo_get [10, 11, 12, 13] @ demo_reset @ demo_end"

theorem stream_publishes_resource_witness:
  "\<exists>s ino. exact_stream True demo_stream_env [10, 11, 12, 13, 14, 15] 0 (demo_feed demo_stream_retry) demo_stream = Some s
     \<and> entry_at (dl_fs s) (''d'', ''f'') = Some (FileNode ino) \<and> fs_bytes (dl_fs s) ino = [10, 11, 12, 13, 14, 15]"
proof -
  let ?r = "[10, 11, 12, 13, 14, 15]"
  have zero: "sq_offset (plan_sequential (se_plan demo_stream_env)) = 0" by code_simp
  have "case exact_stream True demo_stream_env ?r 0 (demo_feed demo_stream_retry) demo_stream of
      Some s \<Rightarrow> (case dl_pc s of StreamDone (Inr _) \<Rightarrow> True | _ \<Rightarrow> False) | None \<Rightarrow> False" by code_simp
  then obtain s c where s: "exact_stream True demo_stream_env ?r 0 (demo_feed demo_stream_retry) demo_stream = Some s" "dl_pc s = StreamDone (Inr c)"
    by (auto split: option.splits stream_pc.splits sum.splits)
  have start: "resumed_output demo_stream_env ?r demo_output (jw_fs demo_stream_world)"
    by (auto simp: resumed_output_def stream_output_def output_open_def demo_stream_env_def demo_stream_world_def demo_output_def
        from_file_def plan_fresh_def plan_sequential_def temp_path_for_def temp_spec_default_def)
  have "\<exists>ino. entry_at (dl_fs s) (se_destination demo_stream_env) = Some (FileNode ino) \<and> fs_bytes (dl_fs s) ino = ?r"
    using stream_publishes_resource [OF start _ _ s(1) [folded zero, unfolded demo_stream_def]] s(2)
    by (auto simp: u64_max_def demo_stream_env_def)
  then show ?thesis using s(1) by (auto simp: demo_stream_env_def)
qed

text \<open>
  The excluded order of faults does publish a file with holes. A failed request sends the stream back to zero with a
  new file, but the tracker of acknowledged bytes keeps its value; when the body then fails early, the transfer goes
  on behind the old prefix. Every byte of every response is right here, and the published file has two zeros in it.
\<close>

definition demo_stream_stale :: "stream_input list" where
  "demo_stream_stale = [StreamRun, StreamHead 200 [] ''HTTP/1.1''] @ demo_get [10, 11, 12, 13] @ demo_reset
     @ [StreamSendFailed (Connection ''refused''), StreamElapsed, StreamRun, StreamHead 200 [] ''HTTP/1.1''] @ demo_get [10, 11] @ demo_reset @ demo_end"

lemma stale_prefix_published:
  "case exact_stream False demo_stream_env [10, 11, 12, 13, 14, 15] 0 (demo_feed demo_stream_stale) demo_stream of
     Some s \<Rightarrow>
       (case dl_pc s of
          StreamDone (Inr _) \<Rightarrow> map_option (\<lambda>n. case n of FileNode ino \<Rightarrow> fs_bytes (dl_fs s) ino | OtherNode \<Rightarrow> []) (entry_at (dl_fs s) (''d'', ''f''))
            = Some [10, 11, 0, 0, 14, 15]
        | _ \<Rightarrow> False)
   | None \<Rightarrow> False"
  by code_simp

text \<open>
  When the clean-up of a failed attempt cannot remove the temporary file, the old session tries again when it is
  dropped, after the new session has put its file there: the new output loses its entry, and a transfer that
  received every byte cannot be published.
\<close>

definition demo_undeletable :: "checkpoint list stream" where
  "demo_undeletable = dl_set_fs ((jw_fs demo_stream_world)\<lparr>fs_faults := [Some \<lparr>sx_kind = SysPermissionDenied, sx_raw = None, sx_text = ''denied''\<rparr>]\<rparr>) demo_stream"

lemma recreated_output_unlinked:
  "case stream_run demo_stream_env (demo_feed ([StreamRun, StreamSendFailed (Connection ''refused''), StreamElapsed, StreamRun, StreamHead 200 [] ''HTTP/1.1'']
      @ demo_get [10, 11, 12, 13, 14, 15] @ [StreamFrame EndOfStream, StreamFinish \<lparr>cv_polls = [], cv_deadline = False\<rparr>])) demo_undeletable of
     Some s \<Rightarrow>
       (case dl_pc s of
          StreamDone (Inl (RunInfrastructure f)) \<Rightarrow> error_category_of (ef_error f) = CatCommit \<and> entry_at (dl_fs s) (''d'', ''f'') = None
        | _ \<Rightarrow> False)
   | None \<Rightarrow> False"
  by code_simp

end
