(* ===== verification/Stream_Requests.thy ===== *)
theory Stream_Requests
  imports Stream_Props
begin

text \<open>
  How often a single-stream transfer asks: every request is paid for by an attempt, a credential stage or the
  body it opened, so a run ends after a bounded number of requests whatever the server answers.
\<close>

section \<open>The requests of a run\<close>

text \<open>An answer to a request, and what a state has used of its allowance: retries, credential stages, and the body it is reading.\<close>

definition is_answer :: "stream_input \<Rightarrow> bool" where
  "is_answer inp = (case inp of StreamHead _ _ _ \<Rightarrow> True | StreamSendFailed _ \<Rightarrow> True | _ \<Rightarrow> False)"

fun has_response :: "stream_pc \<Rightarrow> nat" where
  "has_response StreamTop = 0"
| "has_response (StreamAdmit _ _) = 0"
| "has_response (StreamRequest _) = 0"
| "has_response (StreamSave _ SaveThenRequest) = 0"
| "has_response StreamBackoff = 0"
| "has_response _ = 1"

definition spent :: "'s stream \<Rightarrow> nat" where
  "spent s = dl_attempt s + dl_auth_stages s + has_response (dl_pc s)"

definition in_allowance :: "('f, 's) stream_env \<Rightarrow> 's stream \<Rightarrow> bool" where
  "in_allowance E s \<longleftrightarrow> dl_attempt s \<le> rp_max_attempts_per_segment (se_retry E) \<and> dl_auth_stages s \<le> MAX_AUTH_STAGES"

text \<open>States that differ in neither counter, and those that end a run besides.\<close>

definition same_counts :: "'s stream \<Rightarrow> 's stream \<Rightarrow> bool" where
  "same_counts s s' \<longleftrightarrow> dl_attempt s' = dl_attempt s \<and> dl_auth_stages s' = dl_auth_stages s"

lemma has_response_le: "has_response pc \<le> 1"
  by (cases pc rule: has_response.cases) auto

lemma counts_simps [simp]:
  "dl_attempt (dl_goto pc s) = dl_attempt s" "dl_auth_stages (dl_goto pc s) = dl_auth_stages s"
  "dl_attempt (dl_release s) = dl_attempt s" "dl_auth_stages (dl_release s) = dl_auth_stages s"
  "dl_attempt (dl_warn x s) = dl_attempt s" "dl_auth_stages (dl_warn x s) = dl_auth_stages s"
  "dl_attempt (dl_count c s) = dl_attempt s" "dl_auth_stages (dl_count c s) = dl_auth_stages s"
  "dl_attempt (dl_set_fs fs s) = dl_attempt s" "dl_auth_stages (dl_set_fs fs s) = dl_auth_stages s"
  "dl_attempt (report_throttle_origin E ms ra a s) = dl_attempt s" "dl_auth_stages (report_throttle_origin E ms ra a s) = dl_auth_stages s"
  "dl_attempt (report_success_origin E ms s) = dl_attempt s" "dl_auth_stages (report_success_origin E ms s) = dl_auth_stages s"
  by (simp_all add: dl_goto_def dl_release_def dl_warn_def dl_count_def dl_set_fs_def report_throttle_origin_def report_success_origin_def
      split: option.splits)

lemma fail_counts [simp]: "dl_attempt (stream_fail E now e a s) = dl_attempt s" "dl_auth_stages (stream_fail E now e a s) = dl_auth_stages s"
  by (simp_all add: stream_fail_def Let_def split: prod.splits)

lemma abort_counts: "stream_abort s = (kept, s') \<Longrightarrow> dl_attempt s' = dl_attempt s \<and> dl_auth_stages s' = dl_auth_stages s"
  by (auto simp: stream_abort_def split: prod.splits)

lemma abort_fail_counts [simp]:
  "dl_attempt (stream_abort_fail E now e s) = dl_attempt s" "dl_auth_stages (stream_abort_fail E now e s) = dl_auth_stages s"
  by (simp_all add: stream_abort_fail_def abort_counts split: prod.splits)

lemma save_failed_counts [simp]:
  "dl_attempt (checkpoint_save_failed E now e s) = dl_attempt s" "dl_auth_stages (checkpoint_save_failed E now e s) = dl_auth_stages s"
  by (simp_all add: checkpoint_save_failed_def Let_def)

lemma cancelled_counts [simp]:
  "dl_attempt (stream_cancelled E now s) = dl_attempt s" "dl_auth_stages (stream_cancelled E now s) = dl_auth_stages s"
  by (simp_all add: stream_cancelled_def Let_def split: prod.splits)

lemma failed_response: "stream_failed s \<Longrightarrow> has_response (dl_pc s) = 1"
  by (auto simp: stream_failed_def)

lemmas failed_responses [simp] = stream_fail_failed [THEN failed_response] abort_fail_failed [THEN failed_response]
  save_failed_failed [THEN failed_response] cancelled_failed [THEN failed_response]

lemma decide_next: "decide F B p e n ra = Retry m d \<Longrightarrow> m = n + 1 \<and> m \<le> rp_max_attempts_per_segment p"
  by (auto simp: decide_def Let_def split: if_splits)

text \<open>A retry, by any way, has used one more attempt.\<close>

definition retried :: "('f, 's) stream_env \<Rightarrow> 's stream \<Rightarrow> 's stream \<Rightarrow> bool" where
  "retried E s s' \<longleftrightarrow> dl_auth_stages s' = dl_auth_stages s
     \<and> (dl_attempt s' = dl_attempt s + 1 \<longrightarrow> dl_attempt s' \<le> rp_max_attempts_per_segment (se_retry E))
     \<and> (stream_failed s' \<and> (dl_attempt s' = dl_attempt s \<or> dl_attempt s' = dl_attempt s + 1) \<or> dl_pc s' = StreamBackoff \<and> dl_attempt s' = dl_attempt s + 1)"

lemma recreate_retried:
  assumes "dl_attempt t = dl_attempt s + 1" "dl_attempt t \<le> rp_max_attempts_per_segment (se_retry E)" "dl_auth_stages t = dl_auth_stages s"
    and "\<And>x. dl_pc (next x) = StreamBackoff \<and> dl_attempt (next x) = dl_attempt x \<and> dl_auth_stages (next x) = dl_auth_stages x"
  shows "retried E s (stream_recreate E now kept t next)"
  using assms by (simp add: retried_def stream_recreate_def split: prod.splits sum.splits)

lemma reopen_retried:
  assumes "dl_attempt t = dl_attempt s + 1" "dl_attempt t \<le> rp_max_attempts_per_segment (se_retry E)" "dl_auth_stages t = dl_auth_stages s"
    and "\<And>x. dl_pc (next x) = StreamBackoff \<and> dl_attempt (next x) = dl_attempt x \<and> dl_auth_stages (next x) = dl_auth_stages x"
  shows "retried E s (stream_reopen E now through t next)"
  using assms by (simp add: retried_def stream_reopen_def Let_def split: prod.splits sum.splits)

lemma retry_request_retried: "retried E s (stream_retry_request E now ms failure s)"
proof -
  define s1 where "s1 = (if is_throttle (hf_error failure) then report_throttle_origin E ms (hf_retry_after failure) (dl_attempt s) s else s)"
  obtain kept s2 where a: "stream_abort s1 = (kept, s2)" by fastforce
  have c: "dl_attempt s2 = dl_attempt s" "dl_auth_stages s2 = dl_auth_stages s" using abort_counts [OF a] by (simp_all add: s1_def)
  show ?thesis
  proof (cases "decide (se_F E) (se_B E) (se_retry E) (hf_error failure) (dl_attempt s2) (hf_retry_after failure)")
    case (Retry n delay)
    show ?thesis unfolding stream_retry_request_def Let_def s1_def [symmetric] a prod.case Retry retry_decision.case
      by (rule recreate_retried) (use decide_next [OF Retry] c in \<open>auto split: option.splits\<close>)
  qed (simp add: stream_retry_request_def Let_def s1_def [symmetric] a c retried_def)
qed

lemma fault_retried: "retried E s (stream_fault E now b e s)"
proof (cases "decide (se_F E) (se_B E) (se_retry E) e (dl_attempt s) None")
  case (Retry n delay)
  define s1 where "s1 = dl_count (add_wasted (sd_written b)) (dl_count (add_retries 1) s)\<lparr>dl_attempt := n\<rparr>"
  obtain kept s3 where a: "stream_abort (s1\<lparr>dl_offset := 0\<rparr>) = (kept, s3)" by fastforce
  have n: "n = dl_attempt s + 1" "n \<le> rp_max_attempts_per_segment (se_retry E)" using decide_next [OF Retry] by simp_all
  show ?thesis
    unfolding stream_fault_def Let_def Retry retry_decision.case s1_def [symmetric] a prod.case
    using abort_counts [OF a] n by (auto simp: s1_def intro!: reopen_retried recreate_retried)
qed (simp add: stream_fault_def retried_def)

lemma retried_spent:
  assumes "retried E s s'" "in_allowance E s"
  shows "in_allowance E s' \<and> spent s \<le> spent s' \<and> dl_attempt s + dl_auth_stages s + 1 \<le> spent s'"
  using assms has_response_le [of "dl_pc s"] by (auto simp: retried_def in_allowance_def spent_def stream_failed_def)

lemma stamp_counts [simp]:
  "dl_attempt (snd (stamp_checkpoint E cp s)) = dl_attempt s" "dl_auth_stages (snd (stamp_checkpoint E cp s)) = dl_auth_stages s"
  by (simp_all add: stamp_checkpoint_def Let_def split_beta split: sum.splits)

lemma checkpoint_counts: "stream_checkpoint E ms s = (cp, s') \<Longrightarrow> same_counts s s'"
  using stamp_effect(1) by (fastforce simp: stream_checkpoint_def Let_def same_counts_def)

lemma persist_counts: "persist_checkpoint E join_error refusal cp s = (r, s') \<Longrightarrow> same_counts s s'"
  by (auto simp: persist_checkpoint_def Let_def same_counts_def split: if_splits sum.splits prod.splits)

lemma top_counts: "same_counts s (stream_top E now ms s)"
  by (auto simp: stream_top_def same_counts_def split: option.splits prod.splits)

lemma admit_counts: "stream_admit E now ms adm q s = Some s' \<Longrightarrow> same_counts s s'"
  by (auto simp: stream_admit_def same_counts_def split: if_splits admission.splits option.splits prod.splits)

lemma response_spent:
  assumes "in_allowance E s" "has_response (dl_pc s) = 0"
  shows "in_allowance E (stream_response E now ms q result s) \<and> spent s + 1 \<le> spent (stream_response E now ms q result s)"
proof (cases result)
  case (Inl failure)
  have eq: "stream_response E now ms q result s = stream_request_failed E now ms failure s" using Inl by (simp add: stream_response_def)
  show ?thesis
  proof (cases "\<exists>ch provider. hf_challenge failure = Some ch \<and> se_provider E = Some provider")
    case True
    have ok: "in_allowance E (stream_abort_fail E now e t) \<and> spent s + 1 \<le> spent (stream_abort_fail E now e t)"
      if "in_allowance E t" "dl_attempt t + dl_auth_stages t \<ge> spent s" for e t
      using that abort_fail_failed [of E now e t] by (auto simp: in_allowance_def spent_def stream_failed_def)
    have "dl_attempt s + dl_auth_stages s = spent s" using assms(2) by (simp add: spent_def)
    then show ?thesis using True eq assms ok [of s] ok [of "s\<lparr>dl_auth_stages := record_stage (dl_auth_stages s)\<rparr>"]
      by (auto simp: stream_request_failed_def Let_def can_provide_def record_stage_def in_allowance_def spent_def
          split: sum.splits credential_decision.splits)
  next
    case False
    then have "stream_request_failed E now ms failure s = stream_retry_request E now ms failure s"
      by (auto simp: stream_request_failed_def split: option.splits)
    then show ?thesis using retried_spent [OF retry_request_retried assms(1), of now ms failure] eq assms(2) by (simp add: spent_def)
  qed
qed (use assms in \<open>auto simp: stream_response_def in_allowance_def spent_def\<close>)

lemma body_spent:
  assumes "in_allowance E s" "has_response (dl_pc s) = 1"
  shows "in_allowance E (stream_body E now ms b frame s) \<and> spent s \<le> spent (stream_body E now ms b frame s)"
proof -
  obtain event body where p: "poll_step (dl_cancelled s) (dl_paused s) frame (sd_body b) = (event, body)" by fastforce
  define b1 where "b1 = b\<lparr>sd_body := body\<rparr>"
  define s1 where "s1 = dl_set_fs (snd (session_flush flush_level.PageCache (dl_sink s) (dl_fs s))) s\<lparr>dl_durable := page_cache_ack (dl_offset s) (dl_durable s)\<rparr>"
  obtain cp s2 where cp: "stream_checkpoint E ms s1 = (cp, s2)" by fastforce
  have c: "dl_attempt s2 = dl_attempt s" "dl_auth_stages s2 = dl_auth_stages s" "dl_attempt s1 = dl_attempt s" "dl_auth_stages s1 = dl_auth_stages s"
    using checkpoint_counts [OF cp] by (simp_all add: same_counts_def s1_def)
  have eq: "stream_body E now ms b frame s = (case event of
        Inr (BodyData data) \<Rightarrow> stream_data E now b1 data s
      | Inr BodyEnd \<Rightarrow> dl_goto StreamVerify (dl_release (report_success_origin E ms s))
      | Inr BodyPaused \<Rightarrow> if se_total_size E \<noteq> None \<and> 0 < dl_offset s then dl_goto (StreamSave cp (SaveThenWait b1)) s2 else dl_goto (StreamWait b1) s1
      | Inl e \<Rightarrow> if e = download_error.Cancelled then stream_cancelled E now s else stream_fault E now b1 e s)"
    using cp by (auto simp: stream_body_def p Let_def b1_def stream_paused_def s1_def split: sum.splits body_event.splits)
  show ?thesis
  proof (cases event)
    case (Inl e)
    show ?thesis using eq Inl assms retried_spent [OF fault_retried assms(1), of now b1 e] by (auto simp: in_allowance_def spent_def)
  next
    case (Inr ev)
    then show ?thesis using eq assms c by (cases ev) (auto simp: stream_data_def in_allowance_def spent_def split: option.splits)
  qed
qed

lemma write_spent:
  assumes "in_allowance E s" "has_response (dl_pc s) = 1"
  shows "in_allowance E (stream_write E now ms partial b data s) \<and> spent s \<le> spent (stream_write E now ms partial b data s)"
proof -
  obtain r fs where r: "session_write_at partial (dl_offset s) data (dl_sink s) (dl_fs s) = (r, fs)" by fastforce
  show ?thesis
  proof (cases r)
    case (Inr ses)
    define s1 where "s1 = dl_count (add_completed (length data)) (dl_count (add_network (length data)) (dl_set_fs fs (s\<lparr>dl_sink := ses\<rparr>)))
      \<lparr>dl_offset := u64_add (dl_offset s) (length data), dl_durable := page_cache_ack (u64_add (dl_offset s) (length data)) (dl_durable s)\<rparr>"
    obtain cp s2 where cp: "stream_checkpoint E ms (s1\<lparr>dl_last_checkpoint := now\<rparr>) = (cp, s2)" by fastforce
    have c: "dl_attempt s2 = dl_attempt s" "dl_auth_stages s2 = dl_auth_stages s" "dl_attempt s1 = dl_attempt s" "dl_auth_stages s1 = dl_auth_stages s"
      using checkpoint_counts [OF cp] by (simp_all add: same_counts_def s1_def)
    have "\<exists>b1. stream_write E now ms partial b data s = dl_goto (StreamSave cp (SaveThenRead b1)) s2 \<or> stream_write E now ms partial b data s = dl_goto (StreamBody b1) s1"
      using r Inr cp by (auto simp: stream_write_def Let_def s1_def)
    then show ?thesis using assms c by (auto simp: in_allowance_def spent_def)
  qed (use r assms in \<open>auto simp: stream_write_def Let_def in_allowance_def spent_def\<close>)
qed

lemma saved_spent:
  assumes "in_allowance E s" "dl_pc s = StreamSave cp after"
  shows "in_allowance E (stream_saved E now cp after join_error refusal s) \<and> spent s \<le> spent (stream_saved E now cp after join_error refusal s)"
proof -
  obtain r s1 where r: "persist_checkpoint E join_error refusal cp s = (r, s1)" by fastforce
  show ?thesis using assms persist_counts [OF r] r
    by (cases after; cases r) (auto simp: stream_saved_def Let_def same_counts_def in_allowance_def spent_def)
qed

lemma step_spent:
  assumes allowed: "in_allowance E s" and step: "stream_step E now ms inp s = Some s'"
  shows "in_allowance E s' \<and> spent s + (if is_answer inp then 1 else 0) \<le> spent s'"
proof (cases "\<exists>m. inp = StreamCancel m \<or> inp = StreamPause \<or> inp = StreamResume")
  case True
  then show ?thesis using step allowed by (auto simp: stream_step_def is_answer_def in_allowance_def spent_def)
next
  case control: False
  have top: "in_allowance E (stream_top E now ms s)" "dl_pc s = StreamTop \<Longrightarrow> spent s \<le> spent (stream_top E now ms s)"
    using allowed top_counts [of s E now ms] by (auto simp: same_counts_def in_allowance_def spent_def)
  show ?thesis
  proof (cases "dl_pc s")
    case StreamTop
    then show ?thesis using step control top by (auto simp: stream_step_def is_answer_def split: stream_input.splits)
  next
    case (StreamAdmit adm q)
    then have a: "stream_admit E now ms adm q s = Some s'" "\<not> is_answer inp"
      using step control by (auto simp: stream_step_def is_answer_def split: stream_input.splits)
    then show ?thesis using allowed admit_counts [OF a(1)] StreamAdmit by (auto simp: same_counts_def in_allowance_def spent_def)
  next
    case (StreamRequest q)
    then show ?thesis using step control response_spent [OF allowed, of now ms q] by (auto simp: stream_step_def is_answer_def split: stream_input.splits)
  next
    case (StreamBody b)
    then show ?thesis using step control body_spent [OF allowed, of now ms b] by (auto simp: stream_step_def is_answer_def split: stream_input.splits)
  next
    case (StreamWrite b data)
    then show ?thesis using step control write_spent [OF allowed, of now ms _ b data]
      by (auto simp: stream_step_def is_answer_def split: stream_input.splits)
  next
    case (StreamSave cp after)
    then show ?thesis using step control saved_spent [OF allowed StreamSave, of now]
      by (auto simp: stream_step_def is_answer_def split: stream_input.splits)
  next
    case StreamVerify
    then show ?thesis using step control allowed
      by (auto simp: stream_step_def is_answer_def stream_verify_def Let_def in_allowance_def spent_def split: stream_input.splits prod.splits)
  qed (use step control allowed in \<open>auto simp: stream_step_def is_answer_def in_allowance_def spent_def split: stream_input.splits if_splits\<close>)
qed

lemma run_spent:
  "in_allowance E s \<Longrightarrow> stream_run E events s = Some s' \<Longrightarrow>
   in_allowance E s' \<and> spent s + length (filter (\<lambda>(_, _, inp). is_answer inp) events) \<le> spent s'"
proof (induction E events s rule: stream_run.induct)
  case (2 E now ms inp rest s)
  then obtain s1 where s1: "stream_step E now ms inp s = Some s1" "stream_run E rest s1 = Some s'" by (auto split: option.splits)
  note st = step_spent [OF "2.prems"(1) s1(1)]
  from "2.IH" [OF s1(1)] st s1(2) show ?case by auto
qed simp

text \<open>
  Claim C33: a single-stream transfer asks only so often. Whatever the server, the credential provider, the file
  system and the caller do, a run makes at most as many requests as the configured attempts allow, plus one for
  each of the two credential stages and one for the body it reads; so it cannot retry for ever.
\<close>

theorem stream_requests_bounded:
  assumes "stream_run E events (stream_begin E counters origins mode ses w) = Some s"
  shows "length (filter (\<lambda>(_, _, inp). is_answer inp) events) \<le> rp_max_attempts_per_segment (se_retry E) + MAX_AUTH_STAGES + 1"
proof -
  let ?s = "stream_begin E counters origins mode ses w"
  have "dl_attempt ?s = 0 \<and> dl_auth_stages ?s = 0"
    by (simp add: stream_begin_def Let_def split_beta split: bool.splits option.splits)
  then have "in_allowance E ?s" by (simp add: in_allowance_def)
  from run_spent [OF this assms] show ?thesis using has_response_le [of "dl_pc s"] by (auto simp: spent_def in_allowance_def)
qed

theorem stream_requests_bounded_witness:
  "length (filter (\<lambda>(_, _, inp). is_answer inp) (demo_feed demo_stream_stale)) \<le> 11"
proof -
  have "stream_run demo_stream_env (demo_feed demo_stream_stale) demo_stream \<noteq> None" by code_simp
  then obtain s where "stream_run demo_stream_env (demo_feed demo_stream_stale) demo_stream = Some s" by blast
  from stream_requests_bounded [OF this [unfolded demo_stream_def]] show ?thesis
    by (simp add: demo_stream_env_def retry_policy_default_def MAX_AUTH_STAGES_def)
qed

end
