(* ===== verification/Stream_Failures.thy ===== *)
theory Stream_Failures
  imports Stream_Props
begin

text \<open>
  What a single-stream transfer leaves behind when it does not complete, whatever the server, the operating
  system and the caller do: nothing outside its temporary file is touched, and the typed error it returns agrees
  with the state of the job.
\<close>

section \<open>A file system of which only the temporary path changes\<close>

text \<open>
  All other entries are those of \<open>f\<close>, and the file \<open>d\<close>, which is not the one at the temporary path, holds \<open>b\<close>.
\<close>

definition fs_safe :: "fpath \<Rightarrow> (fpath \<rightharpoonup> fs_node) \<Rightarrow> nat \<Rightarrow> nat list \<Rightarrow> file_system \<Rightarrow> bool" where
  "fs_safe tmp f d b fs \<longleftrightarrow>
     (\<forall>p. p \<noteq> tmp \<longrightarrow> entry_at fs p = f p) \<and> fs_bytes fs d = b \<and> d < fs_next fs \<and> entry_at fs tmp \<noteq> Some (FileNode d)"

definition ses_safe :: "fpath \<Rightarrow> fpath \<Rightarrow> nat \<Rightarrow> output_session \<Rightarrow> bool" where
  "ses_safe tmp dst d ses \<longleftrightarrow>
     (\<exists>k. os_sink ses = Some k \<and> fk_temp_path k = tmp \<and> fk_destination k = dst \<and> fk_file k \<noteq> Some d) \<and> os_temp_path ses = tmp"

lemma safe_sys: "sys_call fs = (x, fs') \<Longrightarrow> fs_safe tmp f d b fs' = fs_safe tmp f d b fs"
  by (auto simp: sys_call_def fs_safe_def split: list.splits)

lemma safe_remove: "remove_file tmp fs = (r, fs') \<Longrightarrow> fs_safe tmp f d b fs \<Longrightarrow> fs_safe tmp f d b fs'"
  using safe_sys [of fs _ _ tmp f d b]
  by (fastforce simp: remove_file_def fs_safe_def del_entry_def map_of_filter_ne split: prod.splits option.splits if_splits)

lemma safe_create_new: "create_new tmp fs = (r, fs') \<Longrightarrow> fs_safe tmp f d b fs \<Longrightarrow> fs_safe tmp f d b fs' \<and> r \<noteq> Inr d"
  using safe_sys [of fs _ _ tmp f d b]
  by (fastforce simp: create_new_def fs_safe_def put_entry_def map_of_filter_ne Let_def split: prod.splits option.splits if_splits)

lemma safe_open: "open_existing tmp fs = (r, fs') \<Longrightarrow> fs_safe tmp f d b fs \<Longrightarrow> fs_safe tmp f d b fs' \<and> r \<noteq> Inr d"
  using safe_sys [of fs _ _ tmp f d b]
  by (fastforce simp: open_existing_def fs_safe_def split: prod.splits option.splits fs_node.splits)

lemma safe_metadata: "symlink_metadata p fs = (r, fs') \<Longrightarrow> fs_safe tmp f d b fs' = fs_safe tmp f d b fs"
  using safe_sys [of fs _ _ tmp f d b] by (auto simp: symlink_metadata_def split: prod.splits option.splits fs_node.splits)

lemma safe_bytes: "i \<noteq> d \<Longrightarrow> fs_safe tmp f d b (fs\<lparr>fs_bytes := (fs_bytes fs)(i := c)\<rparr>) = fs_safe tmp f d b fs"
  by (simp add: fs_safe_def)

lemma safe_set_len: "set_len i n fs = (r, fs') \<Longrightarrow> i \<noteq> d \<Longrightarrow> fs_safe tmp f d b fs' = fs_safe tmp f d b fs"
  using safe_sys [of fs _ _ tmp f d b] by (auto simp: set_len_def safe_bytes split: prod.splits option.splits)

section \<open>Sessions\<close>

lemma safe_prepare:
  assumes "sink_prepare bytes k fs = (r, fs')" "fk_file k \<noteq> Some d"
  shows "fs_safe tmp f d b fs' = fs_safe tmp f d b fs"
proof (cases "bytes = None \<or> \<not> fk_preallocate k \<or> fk_file k = None")
  case True
  then show ?thesis using assms by (auto simp: sink_prepare_def sink_preallocate_def split: option.splits if_splits)
next
  case False
  then obtain n ino where n: "bytes = Some n" "fk_preallocate k" "fk_file k = Some ino" by auto
  obtain sized fs1 where s: "set_len ino n fs = (sized, fs1)" by fastforce
  obtain p fs2 where p: "reserve_physical fs1 = (p, fs2)" by fastforce
  have "fs' = fs1 \<or> fs' = fs2" using assms n s p
    by (auto simp: sink_prepare_def sink_preallocate_def split: sum.splits if_splits)
  moreover have "fs_safe tmp f d b fs2 = fs_safe tmp f d b fs1"
    using p safe_sys [of fs1 _ _ tmp f d b] by (auto simp: reserve_physical_def split: prod.splits option.splits if_splits)
  ultimately show ?thesis using safe_set_len [OF s, of d tmp f b] assms(2) n(3) by auto
qed

lemma safe_sink_drop: "fk_temp_path k = tmp \<Longrightarrow> fs_safe tmp f d b fs \<Longrightarrow> fs_safe tmp f d b (sink_drop k fs)"
  using safe_remove [of tmp fs _ _ f d b] by (cases "remove_file tmp fs") (simp add: sink_drop_def)

lemma safe_drop: "ses_safe tmp dst d ses \<Longrightarrow> fs_safe tmp f d b fs \<Longrightarrow> fs_safe tmp f d b (session_drop ses fs)"
  by (auto simp: session_drop_def ses_safe_def set_keep_on_drop_def intro!: safe_sink_drop)

lemma safe_abort:
  assumes "session_abort ses fs = (r, ses', fs')" "ses_safe tmp dst d ses" "fs_safe tmp f d b fs"
  shows "ses_safe tmp dst d ses' \<and> fs_safe tmp f d b fs'"
proof -
  obtain k where k: "os_sink ses = Some k" "fk_temp_path k = tmp" "fk_destination k = dst" using assms(2) by (auto simp: ses_safe_def)
  obtain x fs1 where x: "remove_file tmp fs = (x, fs1)" by fastforce
  show ?thesis using assms k x safe_remove [OF x assms(3)]
    by (auto simp: session_abort_def sink_mut_def sink_abort_def ses_safe_def Let_def split: if_splits sum.splits)
qed

lemma safe_flush: "fs_safe tmp f d b (snd (session_flush level ses fs)) = fs_safe tmp f d b fs"
  using safe_sys [of fs _ _ tmp f d b]
  by (auto simp: session_flush_def sink_flush_def split: sum.splits option.splits prod.splits)

lemma safe_write:
  assumes "session_write_at partial offset data ses fs = (r, fs')" "ses_safe tmp dst d ses" "fs_safe tmp f d b fs"
  shows "fs_safe tmp f d b fs' \<and> (\<forall>ses'. r = Inr ses' \<longrightarrow> ses_safe tmp dst d ses')"
proof -
  obtain k where k: "os_sink ses = Some k" "fk_temp_path k = tmp" "fk_destination k = dst" "fk_file k \<noteq> Some d" "os_temp_path ses = tmp"
    using assms(2) by (auto simp: ses_safe_def)
  obtain x fs1 where x: "sys_call fs = (x, fs1)" by fastforce
  obtain y fs2 where y: "sys_call fs1 = (y, fs2)" by fastforce
  have s: "fs_safe tmp f d b fs1" "fs_safe tmp f d b fs2" using assms(3) safe_sys [OF x] safe_sys [OF y] by blast+
  show ?thesis using assms(1) k x y s assms(3)
    by (cases "os_shared ses"; cases "fk_file k"; cases x; cases y)
      (auto simp: session_write_at_def sink_mut_def sink_write_at_def ses_safe_def safe_bytes split: if_splits)
qed

lemma safe_create:
  assumes "session_create dst spec pre phys bytes fs = (r, fs')" "tmp = temp_path_for spec dst" "fs_safe tmp f d b fs"
  shows "fs_safe tmp f d b fs' \<and> (\<forall>ses. r = Inr ses \<longrightarrow> ses_safe tmp dst d ses)"
proof -
  obtain c fs1 where c: "create_exclusive dst spec pre phys fs = (c, fs1)" by fastforce
  obtain x fs2 where x: "remove_file tmp fs = (x, fs2)" by fastforce
  obtain i fs3 where i: "create_new tmp fs2 = (i, fs3)" by fastforce
  note s = safe_remove [OF x assms(3)]
  note s3 = safe_create_new [OF i s]
  have sc: "fs_safe tmp f d b fs1" "\<And>k. c = Inr k \<Longrightarrow> \<exists>ino. ino \<noteq> d \<and> k = from_file dst tmp ino pre phys"
    using c s s3 assms(2,3) by (auto simp: create_exclusive_def Let_def x [unfolded assms(2)] i [unfolded assms(2)] split: if_splits sum.splits)
  show ?thesis
  proof (cases c)
    case (Inl e)
    then show ?thesis using assms(1) c sc by (auto simp: session_create_def)
  next
    case (Inr k)
    obtain ino where k: "ino \<noteq> d" "k = from_file dst tmp ino pre phys" using sc(2) [OF Inr] by blast
    obtain p fs4 where p: "sink_prepare bytes k fs1 = (p, fs4)" by fastforce
    have "fs_safe tmp f d b fs4" using safe_prepare [OF p, of d] sc(1) k by (simp add: from_file_def)
    moreover have "fs_safe tmp f d b (sink_drop k fs4)" using calculation by (intro safe_sink_drop) (simp_all add: k from_file_def)
    ultimately show ?thesis using assms(1) c Inr p k assms(2)
      by (cases p) (auto simp: session_create_def ses_safe_def from_file_def)
  qed
qed

lemma safe_reopen:
  assumes "session_reopen dst spec fs = (r, fs')" "tmp = temp_path_for spec dst" "fs_safe tmp f d b fs"
  shows "fs_safe tmp f d b fs' \<and> (\<forall>ses. r = Inr ses \<longrightarrow> ses_safe tmp dst d ses)"
proof -
  obtain m1 fs1 where m1: "symlink_metadata tmp fs = (m1, fs1)" by fastforce
  obtain m2 fs2 where m2: "symlink_metadata tmp fs1 = (m2, fs2)" by fastforce
  obtain i fs3 where i: "open_existing tmp fs2 = (i, fs3)" by fastforce
  obtain x fs4 where x: "sys_call fs3 = (x, fs4)" by fastforce
  obtain m5 fs5 where m5: "symlink_metadata tmp fs4 = (m5, fs5)" by fastforce
  have s: "fs_safe tmp f d b fs1" "fs_safe tmp f d b fs2" using assms(3) safe_metadata [OF m1] safe_metadata [OF m2] by blast+
  note s3 = safe_open [OF i s(2)]
  have s5: "fs_safe tmp f d b fs4" "fs_safe tmp f d b fs5" using s3 safe_sys [OF x] safe_metadata [OF m5] by blast+
  obtain o' fs6 where o: "open_owned dst spec fs = (o', fs6)" by fastforce
  have "fs_safe tmp f d b fs6 \<and> (\<forall>k. o' = Inr k \<longrightarrow> (\<exists>ino. ino \<noteq> d \<and> k = set_keep_on_drop True (from_file dst tmp ino False False)))"
    using o s s3 s5 unfolding open_owned_def Let_def assms(2) [symmetric] m1 prod.case
    by (auto simp: m2 i x m5 split: sum.splits option.splits if_splits)
  then show ?thesis using assms(1,2) o
    by (cases o') (auto simp: session_reopen_def ses_safe_def set_keep_on_drop_def from_file_def)
qed

section \<open>Completion\<close>

lemma safe_truncate:
  assumes "session_truncate_to len ses fs = (r, fs')" "ses_safe tmp dst d ses"
  shows "fs_safe tmp f d b fs' = fs_safe tmp f d b fs"
proof -
  obtain k where k: "os_sink ses = Some k" "fk_file k \<noteq> Some d" using assms(2) by (auto simp: ses_safe_def)
  show ?thesis using assms(1) k safe_set_len [of _ len fs _ _ d tmp f b]
    by (cases "fk_file k") (auto simp: session_truncate_to_def sink_mut_def sink_truncate_to_def split: if_splits prod.splits sum.splits)
qed

lemma safe_size: "session_size ses fs = (r, fs') \<Longrightarrow> fs_safe tmp f d b fs' = fs_safe tmp f d b fs"
  using safe_sys [of fs _ _ tmp f d b]
  by (auto simp: session_size_def sink_size_def split: sum.splits option.splits prod.splits)

lemma safe_check_size:
  assumes "check_size ses accounting accepted w = (r, w')" "ses_safe tmp dst d ses"
  shows "fs_safe tmp f d b (jw_fs w') = fs_safe tmp f d b (jw_fs w)" "jw_state w' = jw_state w"
proof -
  obtain n fs where n: "session_size ses (jw_fs w) = (n, fs)" by fastforce
  obtain t fs2 where t: "session_truncate_to accepted ses fs = (t, fs2)" by fastforce
  show "fs_safe tmp f d b (jw_fs w') = fs_safe tmp f d b (jw_fs w)" "jw_state w' = jw_state w"
    using assms(1) safe_size [OF n, of tmp f d b] safe_truncate [OF t assms(2), of f b] unfolding check_size_def n
    by (auto simp: Let_def t split: sum.splits option.splits if_splits)
qed

lemma safe_read_chunks: "read_chunks cv fs fed rest = (r, cv', fs') \<Longrightarrow> fs_safe tmp f d b fs' = fs_safe tmp f d b fs"
proof (induction cv fs fed rest arbitrary: r cv' fs' rule: read_chunks.induct)
  case (1 cv fs fed rest)
  obtain b1 cv1 where b: "is_cancelled cv = (b1, cv1)" by fastforce
  obtain x fs1 where x: "sys_call fs = (x, fs1)" by fastforce
  note eq = "1.prems" [unfolded read_chunks.simps [of cv fs fed rest]]
  show ?case
  proof (cases "b1 \<or> x \<noteq> None \<or> rest = []")
    case True
    then show ?thesis using eq b x safe_sys [OF x, of tmp f d b] by (auto split: bool.splits option.splits if_splits)
  next
    case False
    then have rec: "read_chunks cv1 fs1 (fed @ take HASH_CHUNK rest) (drop HASH_CHUNK rest) = (r, cv', fs')" using eq b x by simp
    have "fs_safe tmp f d b fs' = fs_safe tmp f d b fs1"
      by (rule "1.IH" [OF b [symmetric] _ x [symmetric] _ _ rec]) (use False in auto)
    then show ?thesis using safe_sys [OF x, of tmp f d b] by simp
  qed
qed

lemma safe_hash_file:
  assumes "hash_file_bounded digest path cv fs = (r, cv', fs')"
  shows "fs_safe tmp f d b fs' = fs_safe tmp f d b fs"
proof -
  obtain x fs1 where x: "open_existing path fs = (x, fs1)" by fastforce
  have s: "fs_safe tmp f d b fs1 = fs_safe tmp f d b fs"
    using x safe_sys [of fs _ _ tmp f d b] by (auto simp: open_existing_def split: prod.splits option.splits fs_node.splits)
  show ?thesis
  proof (cases x)
    case (Inr ino)
    obtain c cv1 fs2 where c: "read_chunks cv fs1 [] (fs_bytes fs1 ino) = (c, cv1, fs2)" by (metis prod_cases3)
    show ?thesis using assms x Inr c s safe_read_chunks [OF c, of tmp f d b] by (auto simp: hash_file_bounded_def split: sum.splits)
  qed (use assms x s in \<open>simp add: hash_file_bounded_def\<close>)
qed

lemma safe_check_hashes: "check_hashes digest hs path cv fs = (r, cv', fs') \<Longrightarrow> fs_safe tmp f d b fs' = fs_safe tmp f d b fs"
proof (induction hs arbitrary: cv fs)
  case (Cons h hs)
  obtain c cv1 fs1 where c: "hash_file_bounded (digest (eh_algorithm h)) path cv fs = (c, cv1, fs1)" by (metis prod_cases3)
  show ?case using Cons.prems Cons.IH [of cv1 fs1] c safe_hash_file [OF c, of tmp f d b] by (auto split: sum.splits if_splits)
qed simp

lemma safe_check_integrity:
  assumes "check_integrity env ses cv w = (r, cv', w')"
  shows "fs_safe tmp f d b (jw_fs w') = fs_safe tmp f d b (jw_fs w)" "jw_state w' = jw_state w"
proof -
  obtain v cv2 fs where v: "verify_hashes (en_digest env) (en_integrity env) (os_temp_path ses) cv (jw_fs w) = (v, cv2, fs)" by (metis prod_cases3)
  obtain b1 cv1 where b1: "is_cancelled cv = (b1, cv1)" by fastforce
  have "fs_safe tmp f d b fs = fs_safe tmp f d b (jw_fs w)"
    using v b1 safe_check_hashes [of "en_digest env" _ _ cv1 "jw_fs w" _ _ _ tmp f d b] by (cases b1) (auto simp: verify_hashes_def)
  then show "fs_safe tmp f d b (jw_fs w') = fs_safe tmp f d b (jw_fs w)" "jw_state w' = jw_state w"
    using assms v by (auto simp: check_integrity_def split: if_splits sum.splits)
qed

text \<open>
  The result of a job against its world: a typed error carries an error of its domain and finds the job failed, or
  cancelled when it is a cancellation; only a completion changes an entry besides the temporary path, and then only
  the destination.
\<close>

fun typed :: "download_run_error \<Rightarrow> bool" where
  "typed (RunTransfer f) = (error_domain (tf_error f) = DomTransfer)"
| "typed (RunInfrastructure f) = (error_domain (ef_error f) = DomInfrastructure)"
| "typed (RunCancelled c) = True"

fun is_run_cancelled :: "download_run_error \<Rightarrow> bool" where
  "is_run_cancelled (RunCancelled c) = True"
| "is_run_cancelled _ = False"

definition settles :: "fpath \<Rightarrow> fpath \<Rightarrow> (fpath \<rightharpoonup> fs_node) \<Rightarrow> nat \<Rightarrow> nat list \<Rightarrow> download_run_error + completed_download \<Rightarrow> 's job_world \<Rightarrow> bool" where
  "settles tmp dst f d b r w \<longleftrightarrow>
     (case r of
        Inl err \<Rightarrow> fs_safe tmp f d b (jw_fs w) \<and> typed err
          \<and> (sm_get (jw_state w) = job_state.Failed \<or> sm_get (jw_state w) = job_state.Cancelled \<and> is_run_cancelled err)
      | Inr _ \<Rightarrow> (\<forall>p. p \<noteq> tmp \<and> p \<noteq> dst \<longrightarrow> entry_at (jw_fs w) p = f p) \<and> fs_bytes (jw_fs w) d = b
          \<and> sm_get (jw_state w) = job_state.Completed)"

lemma moved_get: "sm_get (moved t m) = (if \<not> is_terminal (sm_get m) \<and> allowed (sm_get m) t then t else sm_get m)"
  by (simp add: moved_def sm_transition_def Let_def)

lemma terminal_typed:
  assumes "terminal_error e accounting artifacts mode m = (err, m')" "sm_get m \<in> {Running, Verifying, Committing}"
  shows "typed err" "sm_get m' = job_state.Failed"
  using assms by (auto simp: terminal_error_def moved_get allowed_def is_terminal_def split: failure_domain.splits)

lemma fail_settles:
  assumes "fail_completion ses accounting retained e w = (r, w')" "ses_safe tmp dst d ses" "fs_safe tmp f d b (jw_fs w)"
    "sm_get (jw_state w) \<in> {Running, Verifying, Committing}"
  shows "settles tmp dst f d b r w'"
proof -
  obtain err m where t: "terminal_error e accounting \<lparr>ad_temp_retained = preserves_partial_on_drop ses, ad_checkpoint_retained = retained\<rparr>
      DeletePartial (jw_state w) = (err, m)" by fastforce
  then show ?thesis using assms(1) terminal_typed [OF t assms(4)] safe_drop [OF assms(2,3)]
    by (auto simp: fail_completion_def settles_def)
qed

lemma publish_settles:
  assumes run: "publish_output env ses accounting retained w = (r, w')" and ses: "ses_safe tmp dst d ses" and fs: "fs_safe tmp f d b (jw_fs w)"
    and st: "sm_get (jw_state w) = Committing" and ne: "tmp \<noteq> dst"
  shows "settles tmp dst f d b r w'"
proof -
  obtain q fs1 where q: "session_finalize ses (jw_fs w) = (q, fs1)" by fastforce
  obtain k where k: "os_sink ses = Some k" "fk_temp_path k = tmp" "fk_destination k = dst" "fk_file k \<noteq> Some d" using ses by (auto simp: ses_safe_def)
  have s1: "fs_safe tmp f d b fs1"
    using q fs safe_sys [of "jw_fs w" _ _ tmp f d b]
    by (auto simp: session_finalize_def sink_finalize_def sink_flush_def split: sum.splits option.splits prod.splits)
  show ?thesis
  proof (cases q)
    case (Inl e)
    have "fail_completion ses accounting retained e (w\<lparr>jw_fs := fs1\<rparr>) = (r, w')" using run q Inl by (simp add: publish_output_def)
    then show ?thesis by (rule fail_settles [OF _ ses]) (use s1 st in simp_all)
  next
    case (Inr ses')
    then have ses': "os_shared ses' = None" "os_sink ses' = Some (k\<lparr>fk_file := None, fk_finalized := True\<rparr>)"
      using q k by (auto simp: session_finalize_def sink_finalize_def sink_mut_def split: sum.splits prod.splits if_splits)
    let ?mode = "publication_mode (en_overwrite env)"
    obtain p tr where p: "publish_with_ops tmp dst ?mode fs1 = (p, tr)" by fastforce
    note eff = publish_ops_effect [OF p ne]
    obtain c trace where c: "session_commit ?mode ses' fs1 = (c, trace)" by fastforce
    have ct: "trace = fs1 # tr" "(\<exists>x y. p = Inl x \<and> c = Inl y) \<or> (\<exists>x y. p = Inr x \<and> c = Inr y)"
      using c ses' k p by (auto simp: session_commit_def reclaim_exclusive_def sink_commit_def publish_verified_def split: sum.splits)
    have state: "publish_state tmp dst ?mode fs1 (last trace)" "p = Inl x \<Longrightarrow> entry_at (last trace) = entry_at fs1" for x
      using eff ct(1) by auto
    have next_fs: "fs_next (last trace) = fs_next fs1"
      using p ct(1) by (auto simp: publish_with_ops_def sys_rename_def sys_hard_link_def remove_file_def sys_call_def put_entry_def del_entry_def
          split: publish_mode.splits prod.splits sum.splits option.splits list.splits if_splits)
    show ?thesis
    proof (cases c)
      case (Inl e)
      then have "fs_safe tmp f d b (last trace)" using state ct(2) s1 next_fs by (auto simp: fs_safe_def publish_state_def)
      then show ?thesis using run q Inr c Inl terminal_typed [of e accounting _ DeletePartial "jw_state w"] st
        by (auto simp: publish_output_def settles_def split: prod.splits)
    next
      case c': (Inr x)
      obtain fp wn where x: "x = (fp, wn)" by fastforce
      obtain kept cw store where d: "delete_with_warning (en_delete env) (en_identity env) (jw_store w) = (kept, cw, store)" by (metis prod_cases3)
      have emits: "jw_state (fold (\<lambda>t. emit (g t)) ts v) = jw_state v" for g ts and v :: "'a job_world"
        by (induction ts arbitrary: v) simp_all
      have "\<exists>z. r = Inr z" "jw_fs w' = last trace" "jw_state w' = moved job_state.Completed (jw_state w)"
        using run q Inr c c' x d by (auto simp: publish_output_def Let_def emits)
      then show ?thesis using state(1) s1 st
        by (auto simp: settles_def publish_state_def fs_safe_def moved_get is_terminal_def allowed_def)
    qed
  qed
qed

lemma completion_settles:
  assumes run: "complete_verified_output env ses accounting retained accepted cv w = (r, w')" and ses: "ses_safe tmp dst d ses"
    and fs: "fs_safe tmp f d b (jw_fs w)" and st: "sm_get (jw_state w) = Running" and ne: "tmp \<noteq> dst"
  shows "settles tmp dst f d b r w'"
proof -
  obtain b1 cv1 where b1: "is_cancelled cv = (b1, cv1)" by fastforce
  define w1 where "w1 = emit CheckStarted (w\<lparr>jw_state := moved Verifying (jw_state w)\<rparr>)"
  obtain z w2 where z: "check_size ses accounting accepted w1 = (z, w2)" by fastforce
  obtain i cv2 w3 where i: "check_integrity env ses cv1 w2 = (i, cv2, w3)" by (metis prod_cases3)
  obtain b3 cv3 where b3: "is_cancelled cv2 = (b3, cv3)" by fastforce
  define w4 where "w4 = w3\<lparr>jw_state := moved Committing (jw_state w3)\<rparr>"
  have st1: "sm_get (jw_state w1) = Verifying" using st by (simp add: w1_def moved_get is_terminal_def allowed_def)
  have w2: "fs_safe tmp f d b (jw_fs w2)" "sm_get (jw_state w2) = Verifying"
    using safe_check_size(1) [OF z ses, of f b] safe_check_size(2) [OF z ses] fs st1 by (simp_all add: w1_def)
  have w3: "fs_safe tmp f d b (jw_fs w3)" "sm_get (jw_state w3) = Verifying"
    using safe_check_integrity(1) [OF i, of tmp f d b] safe_check_integrity(2) [OF i] w2 by simp_all
  have w4: "fs_safe tmp f d b (jw_fs w4)" "sm_get (jw_state w4) = Committing"
    using w3 by (simp_all add: w4_def moved_get is_terminal_def allowed_def)
  note fail = fail_settles [OF _ ses, of accounting retained _ _ r w']
  have cases: "(\<exists>e. fail_completion ses accounting retained e w = (r, w')) \<or> (\<exists>e. fail_completion ses accounting retained e w2 = (r, w'))
      \<or> (\<exists>e. fail_completion ses accounting retained e w3 = (r, w')) \<or> publish_output env ses accounting retained w4 = (r, w')"
    using run unfolding complete_verified_output_def Let_def w1_def [symmetric] b1 prod.case
    by (cases b1; cases z; cases i; cases b3) (auto simp: z i b3 w4_def)
  then show ?thesis using fail w2 w3 fs st publish_settles [OF _ ses w4 ne] by auto
qed

section \<open>Steps\<close>

abbreviation tmp_of :: "('f, 's) stream_env \<Rightarrow> fpath" where
  "tmp_of E \<equiv> temp_path_for temp_spec_default (se_destination E)"

definition live_safe :: "('f, 's) stream_env \<Rightarrow> (fpath \<rightharpoonup> fs_node) \<Rightarrow> nat \<Rightarrow> nat list \<Rightarrow> 's stream \<Rightarrow> bool" where
  "live_safe E f d b s \<longleftrightarrow> ses_safe (tmp_of E) (se_destination E) d (dl_sink s) \<and> fs_safe (tmp_of E) f d b (dl_fs s)
     \<and> sm_get (jw_state (dl_world s)) = Running"

definition safe :: "('f, 's) stream_env \<Rightarrow> (fpath \<rightharpoonup> fs_node) \<Rightarrow> nat \<Rightarrow> nat list \<Rightarrow> 's stream \<Rightarrow> bool" where
  "safe E f d b s =
     (case dl_pc s of
        StreamDone r \<Rightarrow> settles (tmp_of E) (se_destination E) f d b r (dl_world s)
      | _ \<Rightarrow> live_safe E f d b s)"

lemma tmp_ne: "tmp_of E \<noteq> se_destination E"
  by (cases "se_destination E") (simp add: temp_path_for_def temp_spec_default_def)

lemma state_simps [simp]:
  "jw_state (dl_world (dl_warn t s)) = jw_state (dl_world s)" "jw_state (dl_world (dl_set_fs fs s)) = jw_state (dl_world s)"
  by (simp_all add: dl_warn_def dl_set_fs_def)

lemma live_safe_cong:
  "dl_sink s' = dl_sink s \<Longrightarrow> dl_fs s' = dl_fs s \<Longrightarrow> jw_state (dl_world s') = jw_state (dl_world s) \<Longrightarrow> live_safe E f d b s' = live_safe E f d b s"
  by (simp add: live_safe_def)

lemma safe_goto: "live_safe E f d b s \<Longrightarrow> (\<And>r. pc \<noteq> StreamDone r) \<Longrightarrow> safe E f d b (dl_goto pc s)"
  by (auto simp: safe_def live_safe_def split: stream_pc.splits)

lemma live_set_fs: "live_safe E f d b s \<Longrightarrow> fs_safe (tmp_of E) f d b fs \<Longrightarrow> live_safe E f d b (dl_set_fs fs s)"
  by (simp add: live_safe_def)

lemma live_preserve: "live_safe E f d b s \<Longrightarrow> live_safe E f d b (s\<lparr>dl_sink := preserve_partial (dl_sink s)\<rparr>)"
  by (auto simp: live_safe_def ses_safe_def preserve_partial_def set_keep_on_drop_def)

lemma live_flushed: "live_safe E f d b s \<Longrightarrow> live_safe E f d b (dl_set_fs (snd (session_flush level (dl_sink s) (dl_fs s))) s)"
  by (simp add: live_safe_def safe_flush)

lemma fail_safe: "live_safe E f d b s \<Longrightarrow> safe E f d b (stream_fail E now e artifacts s)"
  by (auto simp: stream_fail_def safe_def settles_def live_safe_def Let_def dl_goto_def intro!: safe_drop dest: terminal_typed
      split: prod.splits)

lemma abort_live: "live_safe E f d b s \<Longrightarrow> stream_abort s = (kept, s') \<Longrightarrow> live_safe E f d b s'"
  by (auto simp: stream_abort_def live_safe_def split: prod.splits dest: safe_abort)

lemma abort_fail_safe: "live_safe E f d b s \<Longrightarrow> safe E f d b (stream_abort_fail E now e s)"
  by (auto simp: stream_abort_fail_def split: prod.splits intro!: fail_safe dest: abort_live)

lemma save_failed_safe: "live_safe E f d b s \<Longrightarrow> safe E f d b (checkpoint_save_failed E now e s)"
  unfolding checkpoint_save_failed_def Let_def by (intro fail_safe live_preserve live_flushed)

lemma cancelled_safe:
  assumes "live_safe E f d b s"
  shows "safe E f d b (stream_cancelled E now s)"
proof -
  let ?w = "dl_world s"
  obtain cleanup ses fs store where c: "cleanup_cancelled (en_delete (se_completion E)) (dl_mode s) (en_identity (se_completion E)) (dl_sink s) (jw_fs ?w) (jw_store ?w)
      = (cleanup, ses, fs, store)" by (metis prod_cases4)
  have live: "ses_safe (tmp_of E) (se_destination E) d (dl_sink s)" "fs_safe (tmp_of E) f d b (jw_fs ?w)" "sm_get (jw_state ?w) = Running"
    using assms by (simp_all add: live_safe_def)
  have kept: "ses_safe (tmp_of E) (se_destination E) d (preserve_partial (dl_sink s))"
    using live_preserve [OF assms] by (simp add: live_safe_def)
  obtain x ses1 fs1 where a: "session_abort (dl_sink s) (jw_fs ?w) = (x, ses1, fs1)" by (metis prod_cases3)
  have s: "ses_safe (tmp_of E) (se_destination E) d ses \<and> fs_safe (tmp_of E) f d b fs"
    using c a safe_abort [OF a live(1,2)] kept live(2) by (cases "dl_mode s") (auto simp: cleanup_cancelled_def safe_flush split: prod.splits)
  obtain err w' where t: "terminal_cancelled (dl_counters s) (now - se_started E) (dl_mode s) (cc_warnings cleanup) (cc_artifacts cleanup)
      (?w\<lparr>jw_fs := fs, jw_store := store\<rparr>) = (err, w')" by fastforce
  have emits: "jw_state (fold (\<lambda>t. emit (g t)) ts v) = jw_state v" for g ts and v :: "'b job_world"
    by (induction ts arbitrary: v) simp_all
  have w': "jw_fs w' = fs" "sm_get (jw_state w') = job_state.Cancelled" "typed err" "is_run_cancelled err"
    using t live(3) by (auto simp: terminal_cancelled_def Let_def emits moved_get is_terminal_def allowed_def)
  show ?thesis using c t w' s safe_drop [of "tmp_of E" "se_destination E" d ses f b fs]
    by (simp add: stream_cancelled_def Let_def safe_def settles_def dl_goto_def dl_release_def)
qed

lemma recreate_safe:
  assumes live: "live_safe E f d b s" and go: "\<And>s'. live_safe E f d b s' \<Longrightarrow> safe E f d b (next s')"
  shows "safe E f d b (stream_recreate E now kept s next)"
proof -
  obtain r fs where c: "session_create (se_destination E) temp_spec_default (se_preallocate E) (se_physical E) (se_total_size E) (dl_fs s) = (r, fs)"
    by fastforce
  have l: "fs_safe (tmp_of E) f d b (dl_fs s)" using live by (simp add: live_safe_def)
  note n = safe_create [OF c refl l]
  show ?thesis
  proof (cases r)
    case (Inl e)
    then show ?thesis using c n live by (simp add: stream_recreate_def fail_safe live_set_fs)
  next
    case (Inr ses)
    have "fs_safe (tmp_of E) f d b (session_drop (dl_sink s) fs)" using n live by (auto simp: live_safe_def intro: safe_drop)
    then have "live_safe E f d b (dl_set_fs (session_drop (dl_sink s) fs) (s\<lparr>dl_sink := ses\<rparr>))"
      using n live Inr by (simp add: live_safe_def)
    then show ?thesis using go c Inr by (simp add: stream_recreate_def)
  qed
qed

lemma reopen_safe:
  assumes live: "live_safe E f d b s" and go: "\<And>s'. live_safe E f d b s' \<Longrightarrow> safe E f d b (next s')"
  shows "safe E f d b (stream_reopen E now through s next)"
proof -
  define s2 where "s2 = dl_set_fs (snd (session_flush flush_level.PageCache (dl_sink s) (dl_fs s)))
    (s\<lparr>dl_offset := through, dl_sink := preserve_partial (dl_sink s)\<rparr>)"
  have l2: "live_safe E f d b s2" using live_preserve [OF live_flushed [OF live]] by (simp add: s2_def live_safe_def safe_flush)
  obtain r fs where r: "session_reopen (se_destination E) temp_spec_default (dl_fs s2) = (r, fs)" by fastforce
  note n = safe_reopen [OF r refl, of f d b]
  have l: "fs_safe (tmp_of E) f d b (dl_fs s2)" using l2 by (simp add: live_safe_def)
  show ?thesis
  proof (cases r)
    case (Inl e)
    then show ?thesis using r n [OF l] l2 unfolding stream_reopen_def Let_def s2_def [symmetric] by (simp add: fail_safe live_set_fs)
  next
    case (Inr ses)
    have "fs_safe (tmp_of E) f d b (session_drop (dl_sink s2) fs)" using n [OF l] l2 by (auto simp: live_safe_def intro: safe_drop)
    then have "live_safe E f d b (dl_set_fs (session_drop (dl_sink s2) fs) (s2\<lparr>dl_sink := ses\<rparr>))"
      using n [OF l] l2 Inr by (simp add: live_safe_def)
    then show ?thesis using go r Inr unfolding stream_reopen_def Let_def s2_def [symmetric] by simp
  qed
qed

lemma stamp_live:
  assumes "stamp_checkpoint E cp s = (cp', s')" "live_safe E f d b s"
  shows "live_safe E f d b s'"
proof -
  obtain m fs1 where m: "symlink_metadata (os_temp_path (dl_sink s)) (dl_fs s) = (m, fs1)" by fastforce
  obtain i fs2 where i: "open_existing (os_temp_path (dl_sink s)) fs1 = (i, fs2)" by fastforce
  have tmp: "os_temp_path (dl_sink s) = tmp_of E" "fs_safe (tmp_of E) f d b (dl_fs s)" using assms(2) by (simp_all add: live_safe_def ses_safe_def)
  have s1: "fs_safe (tmp_of E) f d b fs1" using safe_metadata [OF m] tmp(2) by blast
  have s2: "fs_safe (tmp_of E) f d b fs2" using safe_open [OF i [unfolded tmp(1)] s1] by simp
  have "\<exists>fs. s' = dl_set_fs fs s \<and> (fs = fs1 \<or> fs = fs2)"
    using assms(1) by (auto simp: stamp_checkpoint_def m i Let_def split: sum.splits if_splits)
  then show ?thesis using live_set_fs [OF assms(2)] s1 s2 by blast
qed

lemma persist_live:
  assumes "persist_checkpoint E join_error refusal cp s = (r, s')" "live_safe E f d b s"
  shows "live_safe E f d b s'"
proof -
  obtain x fs where x: "sync_data_before_checkpoint True join_error (dl_fs s) = (x, fs)" by fastforce
  have "fs_safe (tmp_of E) f d b fs" using x assms(2) safe_sys [of "dl_fs s" _ _ "tmp_of E" f d b]
    by (auto simp: sync_data_before_checkpoint_def live_safe_def split: option.splits prod.splits)
  then show ?thesis
    using assms by (auto simp: persist_checkpoint_def Let_def x live_safe_def split: if_splits sum.splits prod.splits)
qed

lemma checkpoint_live: "stream_checkpoint E ms s = (cp, s') \<Longrightarrow> live_safe E f d b s \<Longrightarrow> live_safe E f d b s'"
  unfolding stream_checkpoint_def Let_def by (rule stamp_live)

lemma top_safe: "live_safe E f d b s \<Longrightarrow> safe E f d b (stream_top E now ms s)"
  by (auto simp: stream_top_def cancelled_safe live_safe_def intro!: safe_goto split: option.splits prod.splits)

lemma admit_safe: "live_safe E f d b s \<Longrightarrow> stream_admit E now ms adm q s = Some s' \<Longrightarrow> safe E f d b s'"
  by (auto simp: stream_admit_def cancelled_safe live_safe_def intro!: safe_goto split: if_splits admission.splits option.splits prod.splits)

lemma retry_request_safe:
  assumes "live_safe E f d b s"
  shows "safe E f d b (stream_retry_request E now ms failure s)"
proof -
  define s1 where "s1 = (if is_throttle (hf_error failure) then report_throttle_origin E ms (hf_retry_after failure) (dl_attempt s) s else s)"
  obtain kept s2 where a: "stream_abort s1 = (kept, s2)" by fastforce
  have l2: "live_safe E f d b s2" by (rule abort_live [OF _ a]) (use assms in \<open>simp add: s1_def live_safe_def\<close>)
  have goal: "safe E f d b (stream_recreate E now kept (dl_count (add_retries 1) s2\<lparr>dl_attempt := n, dl_offset := 0\<rparr>)
      (\<lambda>s. dl_goto StreamBackoff (case http_status (hf_error failure) of Some status \<Rightarrow> dl_warn (w status) s | None \<Rightarrow> s)))" for n w
    by (rule recreate_safe) (use l2 in \<open>auto simp: live_safe_def intro!: safe_goto split: option.splits\<close>)
  show ?thesis
  proof (cases "decide (se_F E) (se_B E) (se_retry E) (hf_error failure) (dl_attempt s2) (hf_retry_after failure)")
    case (Retry n delay)
    show ?thesis unfolding stream_retry_request_def Let_def s1_def [symmetric] a prod.case Retry retry_decision.case by (rule goal)
  qed (simp add: stream_retry_request_def Let_def s1_def [symmetric] a abort_fail_safe l2)
qed

lemma request_failed_safe:
  assumes "live_safe E f d b s"
  shows "safe E f d b (stream_request_failed E now ms failure s)"
  using assms retry_request_safe [OF assms, of now ms failure]
  by (auto simp: stream_request_failed_def Let_def live_safe_def intro!: abort_fail_safe safe_goto
      split: option.splits sum.splits credential_decision.splits)

lemma response_safe:
  assumes "live_safe E f d b s"
  shows "safe E f d b (stream_response E now ms q result s)"
  using assms request_failed_safe [OF assms] by (auto simp: stream_response_def live_safe_def intro!: safe_goto split: sum.splits)

lemma fault_safe:
  assumes live: "live_safe E f d b s"
  shows "safe E f d b (stream_fault E now body e s)"
proof (cases "decide (se_F E) (se_B E) (se_retry E) e (dl_attempt s) None")
  case (Retry n delay)
  define s1 where "s1 = dl_count (add_wasted (sd_written body)) (dl_count (add_retries 1) s)\<lparr>dl_attempt := n\<rparr>"
  define resume where "resume = (\<lambda>s::'b stream. dl_goto StreamBackoff
    (dl_warn (''stream reset; retrying from offset '' @ show_u64 (dl_offset s) @ '' ('' @ display_error e @ '')'') s))"
  have resumes: "safe E f d b (resume s')" if "live_safe E f d b s'" for s'
    using that by (auto simp: resume_def live_safe_def intro!: safe_goto)
  have l1: "live_safe E f d b s1" "live_safe E f d b (s1\<lparr>dl_offset := 0\<rparr>)" using live by (simp_all add: s1_def live_safe_def)
  obtain kept s3 where a: "stream_abort (s1\<lparr>dl_offset := 0\<rparr>) = (kept, s3)" by fastforce
  have "stream_fault E now body e s = (if 0 < admissible_through (dl_durable s1) then stream_reopen E now (admissible_through (dl_durable s1)) s1 resume
      else stream_recreate E now kept s3 resume)"
    unfolding stream_fault_def Let_def Retry retry_decision.case s1_def [symmetric] resume_def [symmetric] a prod.case by simp
  moreover have "safe E f d b (stream_reopen E now (admissible_through (dl_durable s1)) s1 resume)" by (rule reopen_safe [OF l1(1) resumes])
  moreover have "safe E f d b (stream_recreate E now kept s3 resume)" by (rule recreate_safe [OF abort_live [OF l1(2) a] resumes])
  ultimately show ?thesis by simp
qed (simp add: stream_fault_def abort_fail_safe live)

lemma paused_safe:
  assumes "live_safe E f d b s"
  shows "safe E f d b (stream_paused E ms body s)"
proof -
  define s1 where "s1 = dl_set_fs (snd (session_flush flush_level.PageCache (dl_sink s) (dl_fs s))) s\<lparr>dl_durable := page_cache_ack (dl_offset s) (dl_durable s)\<rparr>"
  have l1: "live_safe E f d b s1" using live_flushed [OF assms, of flush_level.PageCache] by (simp add: s1_def live_safe_def)
  obtain cp s2 where cp: "stream_checkpoint E ms s1 = (cp, s2)" by fastforce
  have "stream_paused E ms body s = (if se_total_size E \<noteq> None \<and> 0 < dl_offset s then dl_goto (StreamSave cp (SaveThenWait body)) s2 else dl_goto (StreamWait body) s1)"
    using cp by (simp add: stream_paused_def Let_def s1_def)
  then show ?thesis using safe_goto [OF l1, of "StreamWait body"] safe_goto [OF checkpoint_live [OF cp l1], of "StreamSave cp (SaveThenWait body)"] by simp
qed

lemma body_safe:
  assumes live: "live_safe E f d b s"
  shows "safe E f d b (stream_body E now ms body frame s)"
proof -
  obtain event rest where p: "poll_step (dl_cancelled s) (dl_paused s) frame (sd_body body) = (event, rest)" by fastforce
  have verify: "safe E f d b (dl_goto StreamVerify (dl_release (report_success_origin E ms s)))"
    using live by (auto simp: live_safe_def intro!: safe_goto)
  have data: "safe E f d b (stream_data E now bd data s)" for bd data
    using live by (auto simp: stream_data_def intro!: abort_fail_safe safe_goto split: option.splits)
  show ?thesis using live verify data
    by (auto simp: stream_body_def p Let_def cancelled_safe fault_safe paused_safe split: sum.splits body_event.splits)
qed

lemma write_safe:
  assumes live: "live_safe E f d b s"
  shows "safe E f d b (stream_write E now ms partial body data s)"
proof -
  obtain r fs where r: "session_write_at partial (dl_offset s) data (dl_sink s) (dl_fs s) = (r, fs)" by fastforce
  have "ses_safe (tmp_of E) (se_destination E) d (dl_sink s)" "fs_safe (tmp_of E) f d b (dl_fs s)" using live by (simp_all add: live_safe_def)
  note n = safe_write [OF r this]
  show ?thesis
  proof (cases r)
    case (Inl e)
    have "live_safe E f d b (dl_set_fs fs s)" using live_set_fs [OF live] n by blast
    then show ?thesis using r Inl by (simp add: stream_write_def Let_def cancelled_safe abort_fail_safe)
  next
    case (Inr ses)
    let ?n = "u64_add (dl_offset s) (length data)"
    define s1 where "s1 = dl_count (add_completed (length data)) (dl_count (add_network (length data)) (dl_set_fs fs (s\<lparr>dl_sink := ses\<rparr>)))
      \<lparr>dl_offset := ?n, dl_durable := page_cache_ack ?n (dl_durable s)\<rparr>"
    let ?body = "body\<lparr>sd_written := u64_add (sd_written body) (length data)\<rparr>"
    have l1: "live_safe E f d b s1" "live_safe E f d b (s1\<lparr>dl_last_checkpoint := now\<rparr>)" using n Inr live by (simp_all add: s1_def live_safe_def)
    obtain cp s2 where cp: "stream_checkpoint E ms (s1\<lparr>dl_last_checkpoint := now\<rparr>) = (cp, s2)" by fastforce
    have "stream_write E now ms partial body data s = (if se_flush_interval E \<le> now - dl_last_checkpoint s1 \<and> 0 < ?n
        then dl_goto (StreamSave cp (SaveThenRead ?body)) s2 else dl_goto (StreamBody ?body) s1)"
      using r Inr cp by (simp add: stream_write_def Let_def s1_def)
    then show ?thesis using safe_goto [OF l1(1), of "StreamBody ?body"] safe_goto [OF checkpoint_live [OF cp l1(2)], of "StreamSave cp (SaveThenRead ?body)"]
      by simp
  qed
qed

lemma saved_safe:
  assumes live: "live_safe E f d b s"
  shows "safe E f d b (stream_saved E now cp after join_error refusal s)"
proof -
  obtain r s1 where r: "persist_checkpoint E join_error refusal cp s = (r, s1)" by fastforce
  note l1 = persist_live [OF r live]
  have kept: "live_safe E f d b (s1\<lparr>dl_checkpoint_retained := True, dl_sink := preserve_partial (dl_sink s1)\<rparr>)"
    using live_preserve [OF l1] by (simp add: live_safe_def)
  show ?thesis
  proof (cases r)
    case (Inr u)
    then show ?thesis using r safe_goto [OF l1] safe_goto [OF kept] by (cases after) (auto simp: stream_saved_def Let_def)
  qed (use r l1 save_failed_safe in \<open>auto simp: stream_saved_def\<close>)
qed

lemma verify_safe:
  assumes live: "live_safe E f d b s"
  shows "safe E f d b (stream_verify E now cv s)"
proof -
  define accounting where "accounting = sequential_accounting (dl_counters s) (case se_total_size E of Some t \<Rightarrow> Some t | None \<Rightarrow> se_expected_size E)
    (now - se_started E) (dl_validators s) (rp_warnings (se_plan E))"
  obtain r w where run: "complete_verified_output (se_completion E) (dl_sink s) accounting (dl_checkpoint_retained s) (dl_offset s) cv (dl_world s) = (r, w)"
    by fastforce
  have "stream_verify E now cv s = dl_goto (StreamDone r) (s\<lparr>dl_world := w\<rparr>)" using run by (simp add: stream_verify_def Let_def accounting_def)
  moreover have "settles (tmp_of E) (se_destination E) f d b r w"
    by (rule completion_settles [OF run _ _ _ tmp_ne]) (use live in \<open>simp_all add: live_safe_def\<close>)
  ultimately show ?thesis by (simp add: safe_def dl_goto_def)
qed

lemma control_safe:
  "safe E f d b s \<Longrightarrow> dl_pc s' = dl_pc s \<Longrightarrow> dl_world s' = dl_world s \<Longrightarrow> dl_sink s' = dl_sink s \<Longrightarrow> safe E f d b s'"
  by (cases "dl_pc s") (simp_all add: safe_def live_safe_def)

lemma stream_step_safe:
  assumes ok: "safe E f d b s" and step: "stream_step E now ms inp s = Some s'"
  shows "safe E f d b s'"
proof (cases "\<exists>m. inp = StreamCancel m \<or> inp = StreamPause \<or> inp = StreamResume")
  case True
  then show ?thesis using step by (auto simp: stream_step_def intro!: control_safe [OF ok])
next
  case control: False
  show ?thesis
  proof (cases "dl_pc s")
    case (StreamDone r)
    then show ?thesis using step control by (auto simp: stream_step_def split: stream_input.splits)
  next
    case (StreamAdmit adm q)
    then have "live_safe E f d b s" using ok by (simp add: safe_def)
    then show ?thesis using step control StreamAdmit by (auto simp: stream_step_def dest: admit_safe split: stream_input.splits)
  next
    case StreamBackoff
    then have "safe E f d b (dl_goto StreamTop (dl_release s))" using ok by (auto simp: safe_def live_safe_def)
    then show ?thesis using step control StreamBackoff by (auto simp: stream_step_def split: stream_input.splits if_splits)
  qed (use step control ok in \<open>auto simp: stream_step_def safe_def [of E f d b s] top_safe response_safe body_safe write_safe saved_safe
        verify_safe cancelled_safe abort_fail_safe intro!: safe_goto split: stream_input.splits if_splits\<close>)
qed

lemma stream_run_safe: "safe E f d b s \<Longrightarrow> stream_run E events s = Some s' \<Longrightarrow> safe E f d b s'"
  by (induction E events s rule: stream_run.induct) (auto split: option.splits dest: stream_step_safe)

section \<open>What a run leaves behind\<close>

lemma safe_destination: "fs_safe tmp f d b fs \<Longrightarrow> tmp \<noteq> dst \<Longrightarrow> entry_at fs dst = f dst"
  unfolding fs_safe_def by metis

lemma begin_safe:
  assumes "ses_safe (tmp_of E) (se_destination E) d ses" "fs_safe (tmp_of E) f d b (jw_fs w)" "sm_get (jw_state w) = Preparing"
  shows "safe E f d b (stream_begin E counters origins mode ses w)"
proof -
  let ?resumed = "plan_sequential (se_plan E)"
  define s where "s = \<lparr>dl_pc = StreamTop, dl_world = w\<lparr>jw_state := moved Running (jw_state w)\<rparr>, dl_sink = ses, dl_offset = sq_offset ?resumed,
     dl_validators = se_validators E, dl_attempt = 0, dl_last_checkpoint = se_started E,
     dl_durable = page_cache_ack (sq_offset ?resumed) (tracker_new (se_durability E)),
     dl_checkpoint_retained = (rp_checkpoint (se_plan E) \<noteq> None), dl_auth_stages = 0, dl_challenge_headers = [],
     dl_counters = on_worker 0 (add_reused (sq_reused_bytes ?resumed)) counters, dl_origins = origins, dl_permit = None,
     dl_cancelled = False, dl_paused = False, dl_mode = mode\<rparr>"
  have live: "live_safe E f d b s" using assms by (simp add: live_safe_def s_def moved_get is_terminal_def allowed_def)
  then have fresh: "safe E f d b s" by (simp add: safe_def s_def)
  show ?thesis
  proof (cases "\<exists>cp. stream_resuming E \<and> rp_checkpoint (se_plan E) = Some cp")
    case True
    then obtain cp where cp: "stream_resuming E" "rp_checkpoint (se_plan E) = Some cp" by blast
    obtain fresh s1 where stamp: "stamp_checkpoint E (cp\<lparr>cp_final_url := se_final_url E\<rparr>) s = (fresh, s1)" by fastforce
    have "stream_begin E counters origins mode ses w = dl_goto (StreamSave fresh SaveThenRequest) s1"
      using cp stamp by (simp add: stream_begin_def Let_def s_def)
    then show ?thesis using safe_goto [OF stamp_live [OF stamp live]] by simp
  next
    case False
    then have "stream_begin E counters origins mode ses w = s"
      by (auto simp: stream_begin_def Let_def s_def split: bool.splits option.splits)
    then show ?thesis using fresh by simp
  qed
qed


definition demo_occupied_world :: "checkpoint list job_world" where
  "demo_occupied_world = demo_stream_world\<lparr>jw_fs := (jw_fs demo_stream_world)\<lparr>
     fs_entries := [((''d'', ''f''), FileNode 0), ((''d'', ''f.part''), FileNode 1)], fs_bytes := (\<lambda>i. if i = 0 then [7, 7] else [])\<rparr>\<rparr>"

definition demo_refused_commit :: "stream_event list" where
  "demo_refused_commit = demo_feed ([StreamRun, StreamHead 200 [] ''HTTP/1.1''] @ demo_get [10, 11, 12, 13, 14, 15]
     @ [StreamFrame EndOfStream, StreamFinish \<lparr>cv_polls = [], cv_deadline = False\<rparr>])"


end
