(* ===== verification/Buffer_Pool.thy ===== *)
theory Buffer_Pool
  imports Kdown_Prelude
begin

text \<open>
  The bounded pool of read buffers (\<open>io/buffer_pool.rs\<close>). Every definition is one critical section of the
  pool's lock; an asynchronous \<open>acquire\<close> that finds the pool exhausted waits in a blocking task and takes its
  buffer in a second critical section.
\<close>

section \<open>Operations\<close>

type_synonym pool_buffer = "nat list"

record buffer_pool =
  bp_buffer_size :: nat
  bp_max_buffers :: nat
  bp_idle :: "pool_buffer list"
  bp_allocated :: nat

definition buffer_pool_new :: "nat \<Rightarrow> u64 \<Rightarrow> buffer_pool" where
  "buffer_pool_new buffer_size max_total_bytes =
     (let buffer_size = max buffer_size 1
      in \<lparr>bp_buffer_size = buffer_size, bp_max_buffers = max (max_total_bytes div buffer_size) 1, bp_idle = [], bp_allocated = 0\<rparr>)"

definition pool_bytes_outstanding :: "buffer_pool \<Rightarrow> nat" where
  "pool_bytes_outstanding p = bp_allocated p * bp_buffer_size p"

definition pool_exhausted :: "buffer_pool \<Rightarrow> bool" where
  "pool_exhausted p \<longleftrightarrow> bp_idle p = [] \<and> bp_max_buffers p \<le> bp_allocated p"

text \<open>The idle buffers are a stack: the last one is taken.\<close>

definition acquire_inner :: "buffer_pool \<Rightarrow> pool_buffer \<times> buffer_pool" where
  "acquire_inner p =
     (if bp_idle p = [] then ([], p\<lparr>bp_allocated := bp_allocated p + 1\<rparr>)
      else (last (bp_idle p), p\<lparr>bp_idle := butlast (bp_idle p)\<rparr>))"

definition buffer_try_acquire :: "buffer_pool \<Rightarrow> pool_buffer option \<times> buffer_pool" where
  "buffer_try_acquire p =
     (if pool_exhausted p then (None, p) else case acquire_inner p of (b, p') \<Rightarrow> (Some b, p'))"

definition buffer_release :: "pool_buffer \<Rightarrow> buffer_pool \<Rightarrow> buffer_pool" where
  "buffer_release b p =
     (if length (bp_idle p) < bp_max_buffers p then p\<lparr>bp_idle := bp_idle p @ [b]\<rparr>
      else p\<lparr>bp_allocated := bp_allocated p - 1\<rparr>)"

section \<open>Runs\<close>

text \<open>
  The buffers in use, and the number of acquirers whose blocking wait has ended. An \<open>acquire\<close> on the fast path
  and a \<open>try_acquire\<close> are the same step.
\<close>

record buffer_system =
  px_pool :: buffer_pool
  px_held :: "pool_buffer list"
  px_waiting :: nat
  px_woken :: nat

inductive buffer_step :: "buffer_system \<Rightarrow> buffer_system \<Rightarrow> bool" where
  take_now: "buffer_try_acquire (px_pool x) = (Some b, p) \<Longrightarrow> buffer_step x (x\<lparr>px_pool := p, px_held := b # px_held x\<rparr>)"
| start_wait: "pool_exhausted (px_pool x) \<Longrightarrow> buffer_step x (x\<lparr>px_waiting := px_waiting x + 1\<rparr>)"
| wait_over: "0 < px_waiting x \<Longrightarrow> \<not> pool_exhausted (px_pool x) \<Longrightarrow>
    buffer_step x (x\<lparr>px_waiting := px_waiting x - 1, px_woken := px_woken x + 1\<rparr>)"
| take_woken: "0 < px_woken x \<Longrightarrow> acquire_inner (px_pool x) = (b, p) \<Longrightarrow>
    buffer_step x (x\<lparr>px_pool := p, px_held := b # px_held x, px_woken := px_woken x - 1\<rparr>)"
| give_back: "px_held x = before @ b # after \<Longrightarrow>
    buffer_step x (x\<lparr>px_pool := buffer_release b' (px_pool x), px_held := before @ after\<rparr>)"

inductive buffer_reach :: "nat \<Rightarrow> u64 \<Rightarrow> buffer_system \<Rightarrow> bool" for buffer_size max_total where
  start: "buffer_reach buffer_size max_total \<lparr>px_pool = buffer_pool_new buffer_size max_total, px_held = [], px_waiting = 0, px_woken = 0\<rparr>"
| step: "buffer_reach buffer_size max_total x \<Longrightarrow> buffer_step x y \<Longrightarrow> buffer_reach buffer_size max_total y"

section \<open>The budget\<close>

lemma buffer_pool_shape: "0 < bp_max_buffers (buffer_pool_new buffer_size max_total) \<and> 0 < bp_buffer_size (buffer_pool_new buffer_size max_total)"
  by (simp add: buffer_pool_new_def Let_def less_max_iff_disj)

text \<open>The number of buffers in existence is exact in every interleaving.\<close>

lemma buffer_counts:
  assumes "buffer_reach buffer_size max_total x"
  shows "bp_allocated (px_pool x) = length (bp_idle (px_pool x)) + length (px_held x)"
  using assms
proof induction
  case (step x y)
  from step.hyps(2) show ?case using step.IH
    by cases (auto simp: buffer_try_acquire_def acquire_inner_def buffer_release_def split: if_splits prod.splits)
qed (simp add: buffer_pool_new_def Let_def)

text \<open>Every step keeps the pool within its budget, except an acquirer that was woken and finds the pool exhausted again.\<close>

lemma pool_budget_step:
  assumes "buffer_step x y" "bp_allocated (px_pool x) \<le> bp_max_buffers (px_pool x)" "px_woken x \<le> px_woken y \<or> \<not> pool_exhausted (px_pool x)"
  shows "bp_allocated (px_pool y) \<le> bp_max_buffers (px_pool y)"
  using assms by cases (auto simp: buffer_try_acquire_def acquire_inner_def buffer_release_def pool_exhausted_def split: if_splits prod.splits)

text \<open>
  Between the end of the wait and the second critical section another task can take the buffer: the woken
  acquirer does not check again and allocates beyond the budget.
\<close>

lemma pool_overdrawn:
  "\<exists>x. buffer_reach 4096 4096 x \<and> bp_max_buffers (px_pool x) = 1 \<and> bp_allocated (px_pool x) = 2 \<and> pool_bytes_outstanding (px_pool x) = 8192"
proof -
  let ?p = "\<lambda>idle n. \<lparr>bp_buffer_size = 4096, bp_max_buffers = 1, bp_idle = idle, bp_allocated = n\<rparr>"
  let ?x = "\<lambda>idle n held w k. \<lparr>px_pool = ?p idle n, px_held = held, px_waiting = w, px_woken = k\<rparr>"
  note go = buffer_reach.step [of 4096 4096]
  have "buffer_reach 4096 4096 (?x [] 0 [] 0 0)" using buffer_reach.start [of 4096 4096] by (simp add: buffer_pool_new_def Let_def)
  moreover have "buffer_step (?x [] 0 [] 0 0) (?x [] 1 [[]] 0 0)"
    using buffer_step.take_now [of "?x [] 0 [] 0 0"] by (simp add: buffer_try_acquire_def pool_exhausted_def acquire_inner_def)
  moreover have "buffer_step (?x [] 1 [[]] 0 0) (?x [] 1 [[]] 1 0)"
    using buffer_step.start_wait [of "?x [] 1 [[]] 0 0"] by (simp add: pool_exhausted_def)
  moreover have "buffer_step (?x [] 1 [[]] 1 0) (?x [[]] 1 [] 1 0)"
    using buffer_step.give_back [of "?x [] 1 [[]] 1 0" "[]" "[]" "[]" "[]"] by (simp add: buffer_release_def)
  moreover have "buffer_step (?x [[]] 1 [] 1 0) (?x [[]] 1 [] 0 1)"
    using buffer_step.wait_over [of "?x [[]] 1 [] 1 0"] by (simp add: pool_exhausted_def)
  moreover have "buffer_step (?x [[]] 1 [] 0 1) (?x [] 1 [[]] 0 1)"
    using buffer_step.take_now [of "?x [[]] 1 [] 0 1"] by (simp add: buffer_try_acquire_def pool_exhausted_def acquire_inner_def)
  moreover have "buffer_step (?x [] 1 [[]] 0 1) (?x [] 2 [[], []] 0 0)"
    using buffer_step.take_woken [of "?x [] 1 [[]] 0 1"] by (simp add: acquire_inner_def numeral_2_eq_2)
  ultimately have "buffer_reach 4096 4096 (?x [] 2 [[], []] 0 0)" using go by blast
  then show ?thesis by (intro exI [of _ "?x [] 2 [[], []] 0 0"]) (simp add: pool_bytes_outstanding_def)
qed

end
