(* ===== verification/Spec2Isabelle.thy ===== *)
theory Spec2Isabelle
  imports Scheduler_Props Segment_Plan Lease_Progress Write_Frontier Http_Range Retry_Policy Rate_Limit
    Checkpoint_Model Job_State Write_Budget Engine_Config Ledger_Runs Redirect_Chain Adaptive_Control Origin_Registry Resume_Flow Transfer_Props Destination_Choice Http_Client Executor_Output Stream_Requests Stream_Failures Buffer_Pool
begin

text \<open>
  KDown is a resumable HTTP downloader: an engine (\<open>crates/engine\<close>) that transfers one resource over
  several range requests, and a web application (\<open>crates/app\<close>) that runs jobs on it. This library
  verifies the engine. A job validates its configuration, probes the resource, plans segments, and runs
  workers: each worker leases a range from the scheduler, asks the origin registry and the rate limiter
  for admission, sends a range request, checks the response against the range it asked for, charges the
  memory budgets for every frame, writes the bytes at their offset, and reports the acknowledged prefix.
  Failures are classified and retried with backoff; a coordinator saves the acknowledged ranges as a
  checkpoint; an adaptive controller moves the number of workers.

  Theories and code (all paths under \<open>src/crates/engine/src\<close>):

  \<^item> \<open>Kdown_Prelude\<close>, \<open>Rust_Text\<close>: Rust's integers with wrapping, saturating and checked arithmetic,
    \<open>BTreeMap\<close> and \<open>HashMap\<close> as association lists, panics, \<open>f64\<close> operations as a parameter, and the string
    functions of the standard library.
  \<^item> \<open>Interval_Set\<close> (\<open>scheduler/interval_set.rs\<close>): insertion, subtraction and complement of byte ranges
    keep the normal form and mean union, difference and complement; a locale states the contract the
    scheduler, the write frontier and the checkpoint rely on.
  \<^item> \<open>Segment_Plan\<close> (\<open>scheduler/mod.rs\<close>), \<open>Segment_Scheduler\<close>, \<open>Scheduler_Invariant\<close>, \<open>Scheduler_Runs\<close>,
    \<open>Scheduler_Props\<close> (\<open>scheduler/core.rs\<close>, \<open>scheduler/lease.rs\<close>): every reachable scheduler gives each byte
    exactly one owner, tail splits never take received bytes, stale leases are refused, settled ranges only
    grow and restart the scheduler where it was, and from every such state a worker that keeps going empties the
    pending set, at whatever instants it runs and however many of its leases fail.
  \<^item> \<open>Lease_Progress\<close> (\<open>job/segmented.rs\<close>): the seqlock cell of a worker, as single stores and loads in every
    interleaving, and the first-error latch.
  \<^item> \<open>Write_Frontier\<close> (\<open>io/write_frontier.rs\<close>), \<open>Checkpoint_Model\<close> (\<open>resume/checkpoint.rs\<close>,
    \<open>resume/durable_ranges.rs\<close>): what may be reported and stored as written.
  \<^item> \<open>Checkpoint_Store\<close> (\<open>resume/checkpoint_store.rs\<close>, \<open>resume/coordinated_store.rs\<close>), \<open>Resume_Flow\<close>
    (\<open>resume/flow.rs\<close>): a save that was acknowledged is what a later load finds, whatever point a crash hits,
    and a resumed job trusts only ranges whose bytes and origin were verified.
  \<^item> \<open>Http_Validators\<close>, \<open>Http_Range\<close>, \<open>Redirect_Chain\<close>, \<open>Http_Transfer\<close>, \<open>Http_Client\<close> (\<open>http/\<close>): entity tags
    and Content-Range, the exact verdict of the gate for range responses, redirect decisions, the acceptance and the bounded
    body of a transfer, the headers of every request of a redirect chain and the probe. \<open>Credentials\<close>
    (\<open>control/auth.rs\<close>): challenges and the latched header set. \<open>Redaction\<close> (\<open>redact.rs\<close>): what diagnostics
    may show.
  \<^item> \<open>Unicode_Text\<close>, \<open>File_Names\<close> (\<open>io/sanitize.rs\<close>, \<open>http/probe.rs\<close>), \<open>Destination_Names\<close> (\<open>job/naming.rs\<close>),
    \<open>Destination_Choice\<close> (\<open>job/naming.rs\<close>, \<open>io/destination_lease.rs\<close>): file names from untrusted texts are one
    safe component, numbered siblings are distinct, and a chosen destination is held by exactly one lease.
  \<^item> \<open>Download_Error\<close> (\<open>error.rs\<close>, \<open>http/execution.rs\<close>), \<open>Retry_Policy\<close> (\<open>control/retry.rs\<close>): errors, their
    classes, and the delay before a retry; \<open>Stream_Failures\<close> shows where they end up.
  \<^item> \<open>Rate_Limit\<close>, \<open>Adaptive_Control\<close>, \<open>Origin_Registry\<close> (\<open>control/\<close>): token buckets (the bound on the
    rate is proved in exact rational arithmetic, with the conversion to a duration right to the nanosecond), the
    concurrency controller and the loop that applies it, admission per origin.
  \<^item> \<open>Write_Budget\<close> (\<open>io/write_budget.rs\<close>), \<open>Ledger_Pool\<close>, \<open>Transfer_Ledger\<close>, \<open>Ledger_Runs\<close>
    (\<open>io/transfer_ledger.rs\<close>): byte accounting by futures that can be cancelled at every wait. A future is
    split at its suspension points, one definition per critical section, and the properties hold for every
    interleaving. The component pools are exact but for the calls of \<open>try_reserve\<close> that the aggregate pool refuses
    last, whose bytes the code keeps; the run records these calls.
  \<^item> \<open>Job_State\<close> (\<open>job/state.rs\<close>): the life cycle of a job. \<open>Engine_Config\<close> (\<open>config.rs\<close>): policies, defaults
    and validation; this theory connects a validated configuration with the ledger built from it.
  \<^item> \<open>Write_Executor\<close>, \<open>Executor_Runs\<close>, \<open>Executor_Output\<close> (\<open>io/write_executor.rs\<close>), \<open>Buffer_Pool\<close> (\<open>io/buffer_pool.rs\<close>): the pool of
    writer threads and the read buffers as critical sections that a run interleaves; every accepted write is
    completed at most once, a session detached before the end of a shutdown has a completion for each of its writes,
    and no queued write is forgotten while the executor is open. On
    the write handles of the output file, a write that is reported as completed has its bytes in the file.
  \<^item> \<open>Output_Files\<close> (\<open>io/positional.rs\<close>, \<open>io/sink.rs\<close>, \<open>io/publish.rs\<close>, \<open>io/output_session.rs\<close>), \<open>Job_Completion\<close>
    (\<open>job/controller.rs\<close>): the temporary output over a file system of entries and inodes whose calls can fail;
    positional writes are exact, publication is atomic, writers exclude the owner, and a job that reports
    completion has published exactly the bytes it verified.
  \<^item> \<open>Job_Metrics\<close> (\<open>metrics/counters.rs\<close>, \<open>metrics/histogram.rs\<close>): counter shards and histograms.
  \<^item> \<open>Worker_Model\<close>, \<open>Transfer_Run\<close>, \<open>Scheduler_Evolution\<close>, \<open>Transfer_Invariant\<close>, \<open>Transfer_Props\<close>
    (\<open>job/segmented.rs\<close>): the worker and the checkpoint coordinator as state machines whose steps are the code
    between two suspension points, over the shared scheduler, cells, counters and registry; the interleavings
    of a run are an inductive relation. For a server that answers every range request exactly, a run that ends
    completed has written the resource, and the saved checkpoint never claims a byte that was not written.
  \<^item> \<open>Stream_Transfer\<close>, \<open>Stream_Props\<close>, \<open>Stream_Failures\<close>, \<open>Stream_Requests\<close> (\<open>run_inner\<close> of \<open>job/controller.rs\<close>): the single-stream transfer
    as a state machine over the same file system, with its two kinds of retry. Whatever fails, a completed
    run has published a file of the resource's length with no foreign byte; it is the resource unless a body broke off
    at a place that an earlier response had passed, and \<open>stale_prefix_published\<close> shows that condition to be needed. A
    run that does not complete leaves everything but its temporary file as it was, with an error that agrees with
    the state of the job; the number of requests is bounded.

  State is a record per struct, threaded explicitly; errors are values of \<open>download_error\<close> in a sum; a
  failed assertion is \<open>Panic\<close>. Clocks, random numbers, \<open>f64\<close> arithmetic and the URI parser are arguments.
  Loops are structural or terminate by a measure; no definition runs on fuel. The runs of
  \<open>drain\<close> follow a list of rounds, and \<open>drain_completes\<close> shows that as many successful ones as there are pending
  bytes suffice.

  Assumptions: the theorems on whole transfers take a server that answers the requested range exactly (the
  findings in \<open>Transfer_Props\<close> show what happens otherwise) and lease numbers that do not wrap.

  Not modelled: sockets, TLS and DNS (\<open>http/connect.rs\<close>), the pipelined write path of \<open>job/segmented.rs\<close>, the
  admission, the probe and the handle API of \<open>job/controller.rs\<close>, metrics export, test doubles, and
  the application crate with its SQL registry and HTTP handlers.
\<close>

section \<open>Configuration and ledger\<close>

lemma component_caps_fields:
  "component_caps m c \<in> snd ` set (component_fields m)"
  by (cases c) (simp_all add: component_fields_def)

lemma ledger_caps_constant:
  assumes "ledger_reach m carve x" "sizes_ok m carve"
  shows "tightest_cap (view x j) c = min (min (component_caps m c) (tm_job_max_bytes m)) (tm_aggregate_max_bytes m - carve)"
  using ledger_reach_inv [OF assms] by (simp add: ledger_inv_def ledger_caps_def tightest_cap_def)

text \<open>
  Claim C21: a valid configuration gives a ledger that never refuses a frame for its size. Whatever the
  state of the engine, an allocation of one component is limited by that component's own cap alone
  (neither the job cap nor the aggregate cap left after the connection reserve is tighter), so a
  read-buffer frame can always wait for capacity as ingress, as a frame and as a queued write.
\<close>

theorem valid_config_admits_frames:
  assumes "engine_validate F parse_uri cfg = Inr ()" "tm_aggregate_max_bytes (ec_transfer_memory cfg) \<le> u64_max"
  defines "m \<equiv> ec_transfer_memory cfg" and "b \<equiv> ec_read_buffer_size cfg"
  defines "carve \<equiv> connection_ingress_reserve m b (ec_max_connections_total cfg)"
  shows "sizes_ok m carve
    \<and> (\<forall>x j c. ledger_reach m carve x \<longrightarrow>
         tightest_cap (view x j) c = component_caps m c
         \<and> (c \<noteq> component.Checkpoint \<longrightarrow> (\<exists>r. ledger_reserve c b (view x j) = Inr r)))"
proof -
  note f = config_feasible [OF assms(1), folded m_def b_def, folded carve_def]
  have fields: "\<forall>f\<in>set (component_fields m). 0 < snd f \<and> snd f \<le> tm_job_max_bytes m" using f by blast
  have caps: "component_caps m c \<le> tm_job_max_bytes m" for c
    using fields component_caps_fields [of m c] by auto
  have job: "tm_job_max_bytes m \<le> tm_aggregate_max_bytes m - carve" "0 < tm_job_max_bytes m"
    using f fields by (blast, fastforce simp: component_fields_def)
  have agg: "tm_aggregate_max_bytes m \<le> u64_max" using assms(2) by (simp add: m_def)
  have "tm_job_max_bytes m \<le> u64_max" using job(1) agg by linarith
  then have sz: "sizes_ok m carve"
    unfolding sizes_ok_def using job agg le_trans [OF caps] by auto
  have "tightest_cap (view x j) c = component_caps m c" if "ledger_reach m carve x" for x j c
    using ledger_caps_constant [OF that sz, of j c] caps [of c] job(1) by simp
  moreover have "b \<le> component_caps m c" if "c \<noteq> component.Checkpoint" for c
    using f that by (cases c) simp_all
  ultimately show ?thesis using sz by (fastforce simp: ledger_reserve_def)
qed

theorem valid_config_admits_frames_witness:
  "sizes_ok transfer_memory_default (connection_ingress_reserve transfer_memory_default (128 * 1024) 256)"
proof -
  have "ec_transfer_memory (engine_config_default rat_ops) = transfer_memory_default"
    "ec_read_buffer_size (engine_config_default rat_ops) = 128 * 1024"
    "ec_max_connections_total (engine_config_default rat_ops) = 256"
    by (simp_all add: engine_config_default_def)
  moreover have "tm_aggregate_max_bytes transfer_memory_default \<le> u64_max"
    by (simp add: transfer_memory_default_def u64_max_def)
  ultimately show ?thesis
    using valid_config_admits_frames [OF default_config_valid [of "\<lambda>_. None"], THEN conjunct1] by simp
qed

end
